(* ===== verification/Kernel_Prelude.thy ===== *)
theory Kernel_Prelude
  imports Main "HOL-Library.Word"
begin

text \<open>
  Shared vocabulary of the Cookie Kernel development.

  \<^item> Machine integers are words of the width the source declares; arithmetic on them wraps.
    Indices into the fixed arrays are \<^typ>\<open>nat\<close> and every table keeps its length.
  \<^item> \<open>os::core::Error\<close> and \<open>os::core::Result\<close> (src/core/oscore) are the record \<open>error\<close> and the
    sum \<open>'a result\<close>.  A method that changes its object returns the pair of its result and
    the object afterwards, so the effect of an operation that fails half way is visible.
  \<^item> Every table of the kernel is a fixed array of slots with an \<open>occupied\<close> flag and a key;
    \<open>first_index\<close> is the range-for loop that returns the first slot it accepts.  The locale
    \<open>slot_table\<close> holds what all of those tables share: the view of the array as a map from
    keys to slots, and how insertion, update and removal act on that map and on the number of
    occupied slots.
\<close>

unbundle bit_operations_syntax

type_synonym u8 = "8 word"
type_synonym u16 = "16 word"
type_synonym u32 = "32 word"
type_synonym u64 = "64 word"
type_synonym size_t = "64 word"

named_theorems kernel_simps \<open>rewrite rules shared by the proofs about kernel tables\<close>
named_theorems inv_intros \<open>preservation of the tables' invariants\<close>

section \<open>Errors and results (src/core/oscore)\<close>

text \<open>The enumeration has a fixed underlying type, so a cast can produce a value that no enumerator
  names; that value is \<open>dom_unnamed\<close>.\<close>

datatype ErrorDomain =
    dom_core | dom_ipc | dom_service | dom_storage | dom_package | dom_security
  | dom_key | dom_display | dom_ui | dom_shell | dom_kernel | dom_image | dom_unnamed "16 word"

record Error =
  err_domain :: ErrorDomain
  err_reserved :: u16
  err_code :: u32

definition make_error :: "ErrorDomain \<Rightarrow> u32 \<Rightarrow> Error" where
  "make_error d c = \<lparr>err_domain = d, err_reserved = 0, err_code = c\<rparr>"

abbreviation kernel_error :: "u32 \<Rightarrow> Error" where
  "kernel_error c \<equiv> make_error dom_kernel c"

type_synonym 'a result = "Error + 'a"

lemma make_error_eq [simp]: "make_error d c = make_error d' c' \<longleftrightarrow> d = d' \<and> c = c'"
  by (simp add: make_error_def)

lemma make_error_fields [simp]:
  "err_domain (make_error d c) = d" "err_reserved (make_error d c) = 0"
  "err_code (make_error d c) = c"
  by (simp_all add: make_error_def)

definition is_ok :: "'a result \<Rightarrow> bool" where
  "is_ok r = (case r of Inl _ \<Rightarrow> False | Inr _ \<Rightarrow> True)"

lemma is_ok_simps [simp]: "is_ok (Inl e) = False" "is_ok (Inr v) = True"
  by (simp_all add: is_ok_def)

section \<open>Searching a fixed array\<close>

fun first_index :: "('a \<Rightarrow> bool) \<Rightarrow> 'a list \<Rightarrow> nat option" where
  "first_index P [] = None"
| "first_index P (x # xs) = (if P x then Some 0 else map_option Suc (first_index P xs))"

lemma first_index_None: "first_index P xs = None \<longleftrightarrow> (\<forall>x \<in> set xs. \<not> P x)"
  by (induction xs) auto

lemma first_index_SomeD:
  "first_index P xs = Some i \<Longrightarrow> i < length xs \<and> P (xs ! i) \<and> (\<forall>j<i. \<not> P (xs ! j))"
proof (induction xs arbitrary: i)
  case Nil
  then show ?case by simp
next
  case (Cons x xs)
  show ?case
  proof (cases "P x")
    case True
    with Cons.prems show ?thesis by simp
  next
    case False
    with Cons.prems obtain k where k: "first_index P xs = Some k" "i = Suc k" by auto
    from Cons.IH [OF k(1)] have ih: "k < length xs" "P (xs ! k)" "\<And>j. j < k \<Longrightarrow> \<not> P (xs ! j)"
      by blast+
    have "\<not> P ((x # xs) ! j)" if "j < i" for j
      using that False k ih(3) by (cases j) simp_all
    with k ih show ?thesis by simp
  qed
qed

lemmas first_index_less = first_index_SomeD [THEN conjunct1]
lemmas first_index_holds = first_index_SomeD [THEN conjunct2, THEN conjunct1]

lemma first_index_unique:
  assumes "i < length xs" "P (xs ! i)" "\<And>j. j < length xs \<Longrightarrow> P (xs ! j) \<Longrightarrow> j = i"
  shows "first_index P xs = Some i"
proof (cases "first_index P xs")
  case None
  with assms(1,2) nth_mem [OF assms(1)] show ?thesis by (simp add: first_index_None)
next
  case (Some k)
  then have "k < length xs" "P (xs ! k)" by (auto dest: first_index_SomeD)
  with assms(3) have "k = i" by blast
  with Some show ?thesis by simp
qed

lemma first_index_store_new:
  "first_index P xs = None \<Longrightarrow> i < length xs \<Longrightarrow> P y \<Longrightarrow> first_index P (xs[i := y]) = Some i"
  by (rule first_index_unique)
     (auto simp: first_index_None nth_list_update dest: nth_mem split: if_splits)

lemma first_index_cong:
  "(\<And>x. x \<in> set xs \<Longrightarrow> P x = Q x) \<Longrightarrow> first_index P xs = first_index Q xs"
  by (induction xs) auto

lemma first_index_list_all2:
  "list_all2 (\<lambda>x y. P x = Q y) xs ys \<Longrightarrow> first_index P xs = first_index Q ys"
  by (induction rule: list_all2_induct) auto

text \<open>Counting the slots a predicate accepts, and how one array store changes the count.\<close>

lemma length_filter_update:
  "i < length xs \<Longrightarrow>
   length (filter P (xs[i := y])) + (if P (xs ! i) then 1 else 0)
     = length (filter P xs) + (if P y then 1 else 0)"
proof (induction xs arbitrary: i)
  case Nil
  then show ?case by simp
next
  case (Cons x xs)
  then show ?case by (cases i) auto
qed

lemma length_filter_update_add:
  "\<lbrakk>i < length xs; \<not> P (xs ! i); P y\<rbrakk> \<Longrightarrow>
   length (filter P (xs[i := y])) = Suc (length (filter P xs))"
  using length_filter_update [of i xs P y] by simp

lemma length_filter_update_sub:
  "\<lbrakk>i < length xs; P (xs ! i); \<not> P y\<rbrakk> \<Longrightarrow>
   Suc (length (filter P (xs[i := y]))) = length (filter P xs)"
  using length_filter_update [of i xs P y] by simp

lemma length_filter_update_same:
  "\<lbrakk>i < length xs; P (xs ! i); P y\<rbrakk> \<Longrightarrow>
   length (filter P (xs[i := y])) = length (filter P xs)"
  using length_filter_update [of i xs P y] by simp

section \<open>Keyed slot tables\<close>

text \<open>
  \<open>slot_find occ key bad xs k\<close> is the \<open>find\<close> method every table has: the invalid key finds
  nothing, any other key finds the first occupied slot that carries it (\<open>None\<close> is the null
  pointer).  \<open>slot_view\<close> reads the array as a map, \<open>slot_wf\<close> says that keys are unique and
  valid, \<open>slot_ok\<close> adds the fixed length and the occupancy counter.
\<close>

definition slot_find :: "('s \<Rightarrow> bool) \<Rightarrow> ('s \<Rightarrow> 'k) \<Rightarrow> 'k \<Rightarrow> 's list \<Rightarrow> 'k \<Rightarrow> nat option" where
  "slot_find occ key bad xs k =
     (if k = bad then None else first_index (\<lambda>s. occ s \<and> key s = k) xs)"

definition slot_view :: "('s \<Rightarrow> bool) \<Rightarrow> ('s \<Rightarrow> 'k) \<Rightarrow> 'k \<Rightarrow> 's list \<Rightarrow> 'k \<Rightarrow> 's option" where
  "slot_view occ key bad xs k = map_option ((!) xs) (slot_find occ key bad xs k)"

definition slot_wf :: "('s \<Rightarrow> bool) \<Rightarrow> ('s \<Rightarrow> 'k) \<Rightarrow> 'k \<Rightarrow> 's list \<Rightarrow> bool" where
  "slot_wf occ key bad xs \<longleftrightarrow>
     (\<forall>i<length xs. occ (xs ! i) \<longrightarrow> key (xs ! i) \<noteq> bad) \<and>
     (\<forall>i<length xs. \<forall>j<length xs.
        occ (xs ! i) \<longrightarrow> occ (xs ! j) \<longrightarrow> key (xs ! i) = key (xs ! j) \<longrightarrow> i = j)"

definition slot_ok ::
  "('s \<Rightarrow> bool) \<Rightarrow> ('s \<Rightarrow> 'k) \<Rightarrow> 'k \<Rightarrow> nat \<Rightarrow> 's list \<Rightarrow> size_t \<Rightarrow> bool" where
  "slot_ok occ key bad n xs c \<longleftrightarrow>
     length xs = n \<and> slot_wf occ key bad xs \<and> c = of_nat (length (filter occ xs))"

locale slot_table =
  fixes occ :: "'s \<Rightarrow> bool"
    and key :: "'s \<Rightarrow> 'k"
    and bad :: 'k
    and blank :: 's
  assumes blank_free: "\<not> occ blank"
begin

lemma find_bad [simp]: "slot_find occ key bad xs bad = None"
  by (simp add: slot_find_def)

lemma find_SomeD:
  "slot_find occ key bad xs k = Some i \<Longrightarrow>
   i < length xs \<and> occ (xs ! i) \<and> key (xs ! i) = k \<and> k \<noteq> bad"
  by (auto simp: slot_find_def split: if_splits dest: first_index_SomeD)

lemma find_less: "slot_find occ key bad xs k = Some i \<Longrightarrow> i < length xs"
  and find_occ: "slot_find occ key bad xs k = Some i \<Longrightarrow> occ (xs ! i)"
  and find_key: "slot_find occ key bad xs k = Some i \<Longrightarrow> key (xs ! i) = k"
  by (auto dest: find_SomeD)

lemma find_iff:
  assumes "slot_wf occ key bad xs"
  shows "slot_find occ key bad xs k = Some i \<longleftrightarrow>
    i < length xs \<and> occ (xs ! i) \<and> key (xs ! i) = k"
proof
  assume "i < length xs \<and> occ (xs ! i) \<and> key (xs ! i) = k"
  moreover from this assms have "k \<noteq> bad" by (auto simp: slot_wf_def)
  moreover from calculation assms have "first_index (\<lambda>s. occ s \<and> key s = k) xs = Some i"
    by (intro first_index_unique) (auto simp: slot_wf_def)
  ultimately show "slot_find occ key bad xs k = Some i" by (simp add: slot_find_def)
qed (auto dest: find_SomeD)

lemma find_None_iff:
  "slot_find occ key bad xs k = None \<longleftrightarrow> k = bad \<or> (\<forall>s \<in> set xs. occ s \<longrightarrow> key s \<noteq> k)"
  by (auto simp: slot_find_def first_index_None)

lemma find_view_None: "slot_find occ key bad xs k = None \<longleftrightarrow> slot_view occ key bad xs k = None"
  by (simp add: slot_view_def)

lemma find_view_Some:
  "slot_find occ key bad xs k = Some i \<Longrightarrow> slot_view occ key bad xs k = Some (xs ! i)"
  by (simp add: slot_view_def)

lemma view_SomeD:
  "slot_view occ key bad xs k = Some s \<Longrightarrow> s \<in> set xs \<and> occ s \<and> key s = k \<and> k \<noteq> bad"
  by (auto simp: slot_view_def dest: find_SomeD)

lemma view_bad [simp]: "slot_view occ key bad xs bad = None"
  by (simp add: slot_view_def)

lemma view_iff:
  assumes "slot_wf occ key bad xs"
  shows "slot_view occ key bad xs k = Some s \<longleftrightarrow> s \<in> set xs \<and> occ s \<and> key s = k"
  using assms by (auto simp: slot_view_def find_iff in_set_conv_nth)

lemma view_eq_iff:
  assumes "slot_wf occ key bad xs"
  shows "slot_view occ key bad xs k = Some s \<longleftrightarrow>
    (\<exists>i. slot_find occ key bad xs k = Some i \<and> xs ! i = s)"
  by (auto simp: slot_view_def)

lemma wf_blank: "slot_wf occ key bad (replicate n blank)"
  using blank_free by (simp add: slot_wf_def)

lemma view_blank: "slot_view occ key bad (replicate n blank) = Map.empty"
  using blank_free
  by (intro ext) (simp add: slot_view_def slot_find_def first_index_None)

lemma ok_blank: "slot_ok occ key bad n (replicate n blank) 0"
  using blank_free by (simp add: slot_ok_def wf_blank)

lemma view_cong:
  assumes "slot_wf occ key bad xs" "slot_wf occ key bad ys"
    and "\<And>s. occ s \<Longrightarrow> s \<in> set xs \<longleftrightarrow> s \<in> set ys"
  shows "slot_view occ key bad xs = slot_view occ key bad ys"
proof
  fix k
  have "slot_view occ key bad xs k = Some s \<longleftrightarrow> slot_view occ key bad ys k = Some s" for s
    using assms by (auto simp: view_iff)
  then show "slot_view occ key bad xs k = slot_view occ key bad ys k"
    by (metis not_None_eq)
qed

text \<open>Storing a fresh key in a free slot.\<close>

lemma insert_wf:
  assumes "slot_wf occ key bad xs" "i < length xs"
    and "slot_view occ key bad xs (key s) = None" "key s \<noteq> bad"
  shows "slot_wf occ key bad (xs[i := s])"
  using assms
  by (auto simp: slot_wf_def slot_view_def find_None_iff nth_list_update split: if_splits)

lemma insert_view:
  assumes "slot_wf occ key bad xs" "i < length xs" "\<not> occ (xs ! i)"
    and "slot_view occ key bad xs (key s) = None" "key s \<noteq> bad" "occ s"
  shows "slot_view occ key bad (xs[i := s]) = (slot_view occ key bad xs)(key s \<mapsto> s)"
proof
  fix k
  have wf: "slot_wf occ key bad (xs[i := s])"
    using assms insert_wf by blast
  show "slot_view occ key bad (xs[i := s]) k = ((slot_view occ key bad xs)(key s \<mapsto> s)) k"
  proof (cases "k = key s")
    case True
    with wf assms show ?thesis by (auto simp: view_iff set_update_memI)
  next
    case False
    have "slot_view occ key bad (xs[i := s]) k = Some t \<longleftrightarrow> slot_view occ key bad xs k = Some t"
      for t
    proof -
      have "t \<in> set (xs[i := s]) \<and> occ t \<and> key t = k \<longleftrightarrow> t \<in> set xs \<and> occ t \<and> key t = k"
        using False assms
        by (auto simp: in_set_conv_nth nth_list_update split: if_splits)
      with wf assms(1) show ?thesis by (simp add: view_iff)
    qed
    then have "slot_view occ key bad (xs[i := s]) k = slot_view occ key bad xs k"
      by (metis not_None_eq)
    with False show ?thesis by simp
  qed
qed

lemma insert_ok:
  assumes "slot_ok occ key bad n xs c" "first_index (\<lambda>s. \<not> occ s) xs = Some i"
    and "slot_view occ key bad xs (key s) = None" "key s \<noteq> bad" "occ s"
  shows "slot_ok occ key bad n (xs[i := s]) (c + 1)"
    and "slot_view occ key bad (xs[i := s]) = (slot_view occ key bad xs)(key s \<mapsto> s)"
proof -
  from assms(2) have i: "i < length xs" "\<not> occ (xs ! i)" by (auto dest: first_index_SomeD)
  with assms show "slot_ok occ key bad n (xs[i := s]) (c + 1)"
    by (auto simp: slot_ok_def insert_wf length_filter_update_add)
  from i assms show "slot_view occ key bad (xs[i := s]) = (slot_view occ key bad xs)(key s \<mapsto> s)"
    by (intro insert_view) (auto simp: slot_ok_def)
qed

text \<open>Storing back into the slot a key was found in.\<close>

lemma store_wf:
  assumes "slot_wf occ key bad xs" "slot_find occ key bad xs k = Some i"
    and "occ s \<Longrightarrow> key s = k"
  shows "slot_wf occ key bad (xs[i := s])"
proof -
  from assms(2) have i: "i < length xs" "occ (xs ! i)" "key (xs ! i) = k" "k \<noteq> bad"
    by (auto dest: find_SomeD)
  have *: "m < length xs \<Longrightarrow> occ (xs[i := s] ! m) \<Longrightarrow>
      occ (xs ! m) \<and> key (xs[i := s] ! m) = key (xs ! m)" for m
    using i assms(3) by (cases "m = i") auto
  show ?thesis
    unfolding slot_wf_def length_list_update
    using * assms(1) unfolding slot_wf_def by metis
qed

lemma store_view:
  assumes wf: "slot_wf occ key bad xs" and f: "slot_find occ key bad xs k = Some i"
    and s: "occ s \<Longrightarrow> key s = k"
  shows "slot_view occ key bad (xs[i := s]) =
    (slot_view occ key bad xs)(k := (if occ s then Some s else None))"
proof
  fix j
  from store_wf [OF wf f s] have wf': "slot_wf occ key bad (xs[i := s])" .
  from f have i: "i < length xs" "occ (xs ! i)" "key (xs ! i) = k"
    by (auto dest: find_SomeD)
  have mem: "t \<in> set (xs[i := s]) \<and> occ t \<and> key t = j \<longleftrightarrow>
      (if j = k then occ s \<and> t = s else t \<in> set xs \<and> occ t \<and> key t = j)" for t
  proof (cases "j = k")
    case True
    have "t \<in> set (xs[i := s]) \<and> occ t \<and> key t = j \<Longrightarrow> t = s"
    proof -
      assume t: "t \<in> set (xs[i := s]) \<and> occ t \<and> key t = j"
      then obtain m where m: "m < length xs" "(xs[i := s]) ! m = t" by (auto simp: in_set_conv_nth)
      show "t = s"
      proof (cases "m = i")
        case False
        with m t i True wf have "m = i" by (auto simp: slot_wf_def)
        with False show ?thesis by simp
      qed (use m i in auto)
    qed
    moreover have "occ s \<Longrightarrow> s \<in> set (xs[i := s])" using i by (simp add: set_update_memI)
    ultimately show ?thesis using True s by auto
  next
    case False
    have "t \<in> set (xs[i := s])" if "t \<in> set xs" "key t = j"
    proof -
      from that obtain m where m: "m < length xs" "xs ! m = t" by (auto simp: in_set_conv_nth)
      with that i False have "m \<noteq> i" by auto
      with m have "(xs[i := s]) ! m = t" "m < length (xs[i := s])" by simp_all
      then show ?thesis by (metis nth_mem)
    qed
    moreover have "t \<in> set xs" if "t \<in> set (xs[i := s])" "key t = j" "occ t"
      using that set_update_subset_insert [of xs i s] s False by auto
    ultimately show ?thesis using False by auto
  qed
  show "slot_view occ key bad (xs[i := s]) j =
      ((slot_view occ key bad xs)(k := (if occ s then Some s else None))) j"
  proof (cases "j = k")
    case True
    have "slot_view occ key bad (xs[i := s]) j = Some t \<longleftrightarrow> occ s \<and> t = s" for t
      using mem [of t] True wf' by (simp add: view_iff)
    with True show ?thesis by (cases "slot_view occ key bad (xs[i := s]) j") auto
  next
    case False
    have "slot_view occ key bad (xs[i := s]) j = Some t \<longleftrightarrow> slot_view occ key bad xs j = Some t"
      for t using mem [of t] False wf wf' by (simp add: view_iff)
    then have "slot_view occ key bad (xs[i := s]) j = slot_view occ key bad xs j"
      by (metis not_None_eq)
    with False show ?thesis by simp
  qed
qed

lemma store_ok:
  assumes "slot_ok occ key bad n xs c" "slot_find occ key bad xs k = Some i"
    and "occ s" "key s = k"
  shows "slot_ok occ key bad n (xs[i := s]) c"
    and "slot_view occ key bad (xs[i := s]) = (slot_view occ key bad xs)(k \<mapsto> s)"
  using assms
  by (auto simp: slot_ok_def store_view store_wf length_filter_update_same dest: find_SomeD)

lemma remove_ok:
  assumes "slot_ok occ key bad n xs c" "slot_find occ key bad xs k = Some i" "\<not> occ s"
  shows "slot_ok occ key bad n (xs[i := s]) (c - 1)"
    and "slot_view occ key bad (xs[i := s]) = (slot_view occ key bad xs)(k := None)"
proof -
  from assms have i: "i < length xs" "occ (xs ! i)" by (auto dest: find_SomeD)
  have "c = of_nat (Suc (length (filter occ (xs[i := s]))))"
    using assms(1,3) i length_filter_update_sub [of i xs occ s] by (simp add: slot_ok_def)
  then have "c - 1 = of_nat (length (filter occ (xs[i := s])))" by simp
  moreover have "slot_wf occ key bad (xs[i := s])"
    using assms by (intro store_wf [of xs k]) (auto simp: slot_ok_def)
  ultimately show "slot_ok occ key bad n (xs[i := s]) (c - 1)"
    using assms(1) by (simp add: slot_ok_def)
  show "slot_view occ key bad (xs[i := s]) = (slot_view occ key bad xs)(k := None)"
    using assms store_view [of xs k i s] by (auto simp: slot_ok_def)
qed

text \<open>A loop over the whole array that rewrites slots in place.\<close>

lemma map_wf:
  assumes "slot_wf occ key bad xs" "\<And>s. occ (f s) \<Longrightarrow> occ s \<and> key (f s) = key s"
  shows "slot_wf occ key bad (map f xs)"
  unfolding slot_wf_def
proof (intro conjI allI impI)
  fix i
  assume "i < length (map f xs)" "occ (map f xs ! i)"
  with assms show "key (map f xs ! i) \<noteq> bad" by (simp add: slot_wf_def)
next
  fix i j
  assume ij: "i < length (map f xs)" "j < length (map f xs)"
    "occ (map f xs ! i)" "occ (map f xs ! j)" "key (map f xs ! i) = key (map f xs ! j)"
  from ij(1,3) assms(2) have "occ (xs ! i)" "key (f (xs ! i)) = key (xs ! i)" by auto
  moreover from ij(2,4) assms(2) have "occ (xs ! j)" "key (f (xs ! j)) = key (xs ! j)" by auto
  ultimately show "i = j" using ij assms(1) by (simp add: slot_wf_def)
qed

lemma map_view:
  assumes wf: "slot_wf occ key bad xs" and f: "\<And>s. occ (f s) \<Longrightarrow> occ s \<and> key (f s) = key s"
  shows "slot_view occ key bad (map f xs) k =
    (case slot_view occ key bad xs k of None \<Rightarrow> None
     | Some s \<Rightarrow> if occ (f s) then Some (f s) else None)"
proof -
  have wf': "slot_wf occ key bad (map f xs)" using wf f by (rule map_wf)
  show ?thesis
  proof (cases "slot_view occ key bad xs k")
    case None
    have "slot_view occ key bad (map f xs) k \<noteq> Some t" for t
    proof
      assume "slot_view occ key bad (map f xs) k = Some t"
      with wf' obtain s where "s \<in> set xs" "t = f s" "occ (f s)" "key (f s) = k"
        by (auto simp: view_iff)
      with f wf have "slot_view occ key bad xs k = Some s" by (simp add: view_iff)
      with None show False by simp
    qed
    with None show ?thesis by (cases "slot_view occ key bad (map f xs) k") auto
  next
    case (Some s)
    have s: "s \<in> set xs" "occ s" "key s = k" using Some by (auto dest: view_SomeD)
    show ?thesis
    proof (cases "occ (f s)")
      case True
      with s f wf' have "slot_view occ key bad (map f xs) k = Some (f s)"
        by (auto simp: view_iff)
      with Some True show ?thesis by simp
    next
      case False
      have "slot_view occ key bad (map f xs) k \<noteq> Some t" for t
      proof
        assume "slot_view occ key bad (map f xs) k = Some t"
        with wf' obtain u where u: "u \<in> set xs" "t = f u" "occ (f u)" "key (f u) = k"
          by (auto simp: view_iff)
        with f wf have "slot_view occ key bad xs k = Some u" by (simp add: view_iff)
        with Some u False show False by simp
      qed
      with Some False show ?thesis by (cases "slot_view occ key bad (map f xs) k") auto
    qed
  qed
qed

lemma map_ok_keep:
  assumes "slot_ok occ key bad n xs c" "\<And>s. occ (f s) = occ s" "\<And>s. occ s \<Longrightarrow> key (f s) = key s"
  shows "slot_ok occ key bad n (map f xs) c"
    and "slot_view occ key bad (map f xs) k = map_option f (slot_view occ key bad xs k)"
proof -
  have "length (filter occ (map f xs)) = length (filter occ xs)"
    using assms(2) by (induction xs) auto
  with assms show "slot_ok occ key bad n (map f xs) c"
    by (auto simp: slot_ok_def intro: map_wf)
  from assms have "\<And>s. occ (f s) \<Longrightarrow> occ s \<and> key (f s) = key s" by simp
  with assms(1) have eq: "slot_view occ key bad (map f xs) k =
    (case slot_view occ key bad xs k of None \<Rightarrow> None
     | Some s \<Rightarrow> if occ (f s) then Some (f s) else None)"
    by (intro map_view) (simp add: slot_ok_def)
  show "slot_view occ key bad (map f xs) k = map_option f (slot_view occ key bad xs k)"
  proof (cases "slot_view occ key bad xs k")
    case (Some s)
    then have "occ s" by (auto dest: view_SomeD)
    with Some eq assms(2) show ?thesis by simp
  qed (simp add: eq)
qed

lemma clear_ok:
  assumes "slot_ok occ key bad n xs c"
  shows "slot_ok occ key bad n (map (\<lambda>s. if occ s \<and> P s then blank else s) xs)
      (c - of_nat (length (filter (\<lambda>s. occ s \<and> P s) xs)))"
    and "slot_view occ key bad (map (\<lambda>s. if occ s \<and> P s then blank else s) xs) k =
      (case slot_view occ key bad xs k of None \<Rightarrow> None | Some s \<Rightarrow> if P s then None else Some s)"
proof -
  let ?f = "\<lambda>s. if occ s \<and> P s then blank else s"
  have f: "\<And>s. occ (?f s) \<Longrightarrow> occ s \<and> key (?f s) = key s"
    using blank_free by (simp split: if_splits)
  have cnt: "length (filter occ (map ?f xs)) + length (filter (\<lambda>s. occ s \<and> P s) xs)
      = length (filter occ xs)"
    using blank_free by (induction xs) auto
  then have "c - of_nat (length (filter (\<lambda>s. occ s \<and> P s) xs))
      = of_nat (length (filter occ (map ?f xs)))"
    using assms by (simp add: slot_ok_def flip: cnt)
  with assms f show "slot_ok occ key bad n (map ?f xs)
      (c - of_nat (length (filter (\<lambda>s. occ s \<and> P s) xs)))"
    by (auto simp: slot_ok_def intro!: map_wf split: if_splits)
  from assms f have "slot_view occ key bad (map ?f xs) k =
    (case slot_view occ key bad xs k of None \<Rightarrow> None
     | Some s \<Rightarrow> if occ (?f s) then Some (?f s) else None)"
    by (intro map_view) (auto simp: slot_ok_def split: if_splits)
  moreover have "slot_view occ key bad xs k = Some s \<Longrightarrow> occ s" for s
    by (auto dest: view_SomeD)
  ultimately show "slot_view occ key bad (map ?f xs) k =
      (case slot_view occ key bad xs k of None \<Rightarrow> None | Some s \<Rightarrow> if P s then None else Some s)"
    using blank_free by (auto split: option.splits)
qed

lemma count_bound: "slot_ok occ key bad n xs c \<Longrightarrow> n < 2 ^ 64 \<Longrightarrow> unat c \<le> n"
proof -
  assume ok: "slot_ok occ key bad n xs c" and n: "n < 2 ^ 64"
  have "length (filter occ xs) \<le> n" using ok length_filter_le [of occ xs] by (simp add: slot_ok_def)
  with n ok show "unat c \<le> n" by (simp add: slot_ok_def unat_of_nat take_bit_nat_eq_self)
qed

lemma full_iff:
  "first_index (\<lambda>s. \<not> occ s) xs = None \<longleftrightarrow> length (filter occ xs) = length xs"
  by (induction xs) (auto simp: le_Suc_eq dest: length_filter_le [THEN order_trans]
      intro: antisym length_filter_le)

text \<open>A loop that rewrites slots in place, described slot by slot.\<close>

lemma all2_find:
  assumes "list_all2 (\<lambda>x y. occ x = occ y \<and> (occ x \<longrightarrow> key x = key y)) xs ys"
  shows "slot_find occ key bad ys k = slot_find occ key bad xs k"
proof -
  have "list_all2 (\<lambda>x y. (occ x \<and> key x = k) = (occ y \<and> key y = k)) xs ys"
    using assms by (rule list_all2_mono) auto
  then show ?thesis by (simp add: slot_find_def first_index_list_all2)
qed

lemma all2_ok:
  assumes "slot_ok occ key bad n xs c"
    and "list_all2 (\<lambda>x y. occ x = occ y \<and> (occ x \<longrightarrow> key x = key y)) xs ys"
  shows "slot_ok occ key bad n ys c"
proof -
  from assms(2) have nth: "length ys = length xs"
    "\<And>i. i < length xs \<Longrightarrow> occ (ys ! i) = occ (xs ! i) \<and> (occ (xs ! i) \<longrightarrow> key (ys ! i) = key (xs ! i))"
    by (auto simp: list_all2_conv_all_nth)
  have "slot_wf occ key bad ys"
    using assms(1) nth by (auto simp: slot_ok_def slot_wf_def)
  moreover have "length (filter occ ys) = length (filter occ xs)"
    using assms(2) by (induction rule: list_all2_induct) auto
  ultimately show ?thesis using assms(1) nth(1) by (simp add: slot_ok_def)
qed

lemma ok_wf: "slot_ok occ key bad n xs c \<Longrightarrow> slot_wf occ key bad xs"
  by (simp add: slot_ok_def)

end

section \<open>Words\<close>

text \<open>An object identifier packs a 16-bit tag, a 32-bit generation and a 16-bit slot.\<close>

lemma object_fields:
  fixes tag :: u64 and g :: u32 and k :: u16
  assumes "tag AND 0x0000FFFFFFFFFFFF = 0"
  shows "(tag OR push_bit 16 (ucast g) OR ucast k) AND 0xFFFF000000000000 = tag"
    and "(ucast (drop_bit 16 ((tag OR push_bit 16 (ucast g) OR ucast k) AND 0x0000FFFFFFFF0000)) :: u32) = g"
    and "(ucast ((tag OR push_bit 16 (ucast g) OR ucast k) AND 0x000000000000FFFF) :: u16) = k"
proof -
  have m: "(0x0000FFFFFFFFFFFF :: u64) = mask 48" "(0xFFFF000000000000 :: u64) = NOT (mask 48)"
    "(0x0000FFFFFFFF0000 :: u64) = push_bit 16 (mask 32)" "(0x000000000000FFFF :: u64) = mask 16"
    by (simp_all add: mask_eq_exp_minus_1 push_bit_eq_mult not_eq_complement)
  have t: "bit tag n \<Longrightarrow> 48 \<le> n" for n
    using assms bit_imp_le_length [of tag n] unfolding m by (auto simp: bit_eq_iff bit_simps not_less)
  have g: "bit g n \<Longrightarrow> n < 32" and k: "bit k n \<Longrightarrow> n < 16" for n
    using bit_imp_le_length [of g n] bit_imp_le_length [of k n] by auto
  show "(tag OR push_bit 16 (ucast g) OR ucast k) AND 0xFFFF000000000000 = tag"
    unfolding m by (rule bit_eqI) (use t g k in \<open>fastforce simp: bit_simps\<close>)
  show "(ucast (drop_bit 16 ((tag OR push_bit 16 (ucast g) OR ucast k) AND 0x0000FFFFFFFF0000)) :: u32) = g"
    unfolding m by (rule bit_eqI) (use t g k in \<open>fastforce simp: bit_simps\<close>)
  show "(ucast ((tag OR push_bit 16 (ucast g) OR ucast k) AND 0x000000000000FFFF) :: u16) = k"
    unfolding m by (rule bit_eqI) (use t g k in \<open>fastforce simp: bit_simps\<close>)
qed

text \<open>Bounds written with wrapping arithmetic, read as bounds on natural numbers.\<close>

lemma unat_less_64: "unat (a :: u64) < 2 ^ 64"
  using unsigned_less [of a] by simp

lemma max_minus_less:
  fixes a b :: u64
  shows "- 1 - a < b \<longleftrightarrow> 2 ^ 64 \<le> unat a + unat b"
proof -
  have m: "unat (- 1 :: u64) = 2 ^ 64 - 1"
    by transfer (simp add: take_bit_minus_one_eq_mask mask_eq_exp_minus_1)
  have "unat (- 1 - a) = unat (- 1 :: u64) - unat a" by (rule unat_sub) simp
  then show ?thesis using m unat_less_64 [of a] by (simp add: word_less_nat_alt) linarith
qed

lemma unat_plus_no_wrap:
  fixes a b :: u64
  shows "unat a + unat b < 2 ^ 64 \<Longrightarrow> unat (a + b) = unat a + unat b"
  by (simp add: unat_word_ariths)

lemma word_range_overlap:
  fixes a la b lb :: u64
  assumes "unat a + unat la < 2 ^ 64" "unat b + unat lb < 2 ^ 64"
  shows "a < b + lb \<and> b < a + la \<longleftrightarrow> unat a < unat b + unat lb \<and> unat b < unat a + unat la"
  using assms by (simp add: word_less_nat_alt unat_plus_no_wrap)

end
