(* ===== verification/Kernel_Contracts.thy ===== *)
theory Kernel_Contracts
  imports Kernel_Prelude
begin

text \<open>
  The two contracts that several kernel tables promise, as locales.  Each is interpreted on
  the tables themselves in the theory of the table.

  \<^item> \<open>identity_authority\<close>: an authority that hands out (slot, generation) identities.  Its law
    is that an identity which stops being live is spent, and a spent identity stays spent, so
    no later life of the same slot ever answers to an old identity.
  \<^item> \<open>mailbox\<close>: a one-shot table.  A message can be armed for a key that has none, is taken at
    most once, and operations on one key leave the others alone.
\<close>

section \<open>Identities that never come back\<close>

locale identity_authority =
  fixes inv :: "'s \<Rightarrow> bool"
    and live :: "'s \<Rightarrow> 'i \<Rightarrow> bool"
    and spent :: "'s \<Rightarrow> 'i \<Rightarrow> bool"
    and step :: "'s \<Rightarrow> 's \<Rightarrow> bool"
  assumes inv_step: "inv s \<Longrightarrow> step s t \<Longrightarrow> inv t"
    and spent_dead: "inv s \<Longrightarrow> spent s i \<Longrightarrow> \<not> live s i"
    and spent_step: "inv s \<Longrightarrow> step s t \<Longrightarrow> spent s i \<Longrightarrow> spent t i"
    and live_step: "inv s \<Longrightarrow> step s t \<Longrightarrow> live s i \<Longrightarrow> live t i \<or> spent t i"
begin

lemma inv_run: "step\<^sup>*\<^sup>* s t \<Longrightarrow> inv s \<Longrightarrow> inv t"
  by (induction rule: rtranclp_induct) (auto intro: inv_step)

lemma spent_run: "step\<^sup>*\<^sup>* s t \<Longrightarrow> inv s \<Longrightarrow> spent s i \<Longrightarrow> spent t i"
  by (induction rule: rtranclp_induct) (auto intro: spent_step inv_run)

lemma live_run: "step\<^sup>*\<^sup>* s t \<Longrightarrow> inv s \<Longrightarrow> live s i \<Longrightarrow> live t i \<or> spent t i"
proof (induction rule: rtranclp_induct)
  case base
  then show ?case by simp
next
  case (step t u)
  then have "inv t" by (blast intro: inv_run)
  note laws = live_step [OF this step.hyps(2)] spent_step [OF this step.hyps(2)]
  from step.IH step.prems have "live t i \<or> spent t i" by simp
  with laws show ?case by blast
qed

text \<open>No resurrection: once an identity that was live stops being live, it is gone for good.\<close>

lemma no_resurrection:
  assumes "inv s" "live s i" "step\<^sup>*\<^sup>* s t" "\<not> live t i" "step\<^sup>*\<^sup>* t u"
  shows "\<not> live u i"
proof -
  have t: "inv t" using assms inv_run by blast
  have "spent t i" using assms live_run by blast
  with t assms(5) have "spent u i" by (blast intro: spent_run)
  moreover have "inv u" using t assms(5) by (blast intro: inv_run)
  ultimately show ?thesis by (blast dest: spent_dead)
qed

end

section \<open>One-shot mailboxes\<close>

locale mailbox =
  fixes inv :: "'s \<Rightarrow> bool"
    and armed :: "'s \<Rightarrow> 'k \<Rightarrow> 'm option"
    and arm :: "'s \<Rightarrow> 'k \<Rightarrow> 'm \<Rightarrow> unit result \<times> 's"
    and take :: "'s \<Rightarrow> 'k \<Rightarrow> 'm result \<times> 's"
  assumes arm_inv: "inv s \<Longrightarrow> inv (snd (arm s k m))"
    and take_inv: "inv s \<Longrightarrow> inv (snd (take s k))"
    and arm_ok: "inv s \<Longrightarrow> fst (arm s k m) = Inr () \<Longrightarrow>
      armed s k = None \<and> armed (snd (arm s k m)) = (armed s)(k \<mapsto> m)"
    and arm_refused: "inv s \<Longrightarrow> fst (arm s k m) = Inl e \<Longrightarrow> snd (arm s k m) = s"
    and take_some: "inv s \<Longrightarrow> armed s k = Some m \<Longrightarrow>
      fst (take s k) = Inr m \<and> armed (snd (take s k)) = (armed s)(k := None)"
    and take_none: "inv s \<Longrightarrow> armed s k = None \<Longrightarrow> \<exists>e. take s k = (Inl e, s)"
begin

lemma arm_take:
  assumes "inv s" "fst (arm s k m) = Inr ()"
  shows "fst (take (snd (arm s k m)) k) = Inr m"
    and "armed (snd (take (snd (arm s k m)) k)) = armed s"
proof -
  from assms have "armed s k = None" and a: "armed (snd (arm s k m)) = (armed s)(k \<mapsto> m)"
    by (auto dest: arm_ok)
  moreover have "inv (snd (arm s k m))" using assms arm_inv by blast
  ultimately show "fst (take (snd (arm s k m)) k) = Inr m"
    and "armed (snd (take (snd (arm s k m)) k)) = armed s"
    using take_some [of "snd (arm s k m)" k m] by auto
qed

lemma take_once:
  assumes "inv s" "fst (take s k) = Inr m"
  shows "\<exists>e. take (snd (take s k)) k = (Inl e, snd (take s k))"
proof -
  obtain n where "armed s k = Some n"
    using assms take_none [of s k] by (cases "armed s k") auto
  with assms have "armed (snd (take s k)) k = None" by (auto dest: take_some)
  moreover have "inv (snd (take s k))" using assms take_inv by blast
  ultimately show ?thesis by (rule take_none [rotated])
qed

lemma arm_busy: "inv s \<Longrightarrow> armed s k \<noteq> None \<Longrightarrow> \<exists>e. arm s k m = (Inl e, s)"
proof -
  assume i: "inv s" and b: "armed s k \<noteq> None"
  then have "fst (arm s k m) \<noteq> Inr ()" by (auto dest: arm_ok)
  then obtain e where "fst (arm s k m) = Inl e" by (cases "fst (arm s k m)") auto
  with arm_refused [OF i this] show ?thesis by (metis prod.collapse)
qed

end

end
