(* ===== verification/Rendezvous.thy ===== *)
theory Rendezvous
  imports Kernel_Contracts
begin

text \<open>
  The synchronous message-passing state machine:
  src/core/oskernel/include/os/kernel/rendezvous.hpp and src/core/oskernel/src/rendezvous.cpp.
  One definition per method of \<open>class Rendezvous\<close>, prefixed \<open>rz_\<close>.  A pointer returned by
  \<open>find\<close> is an index into the slot array.  The lemmas show the slot table as a map from
  thread identifiers to slots, the invariant that nobody waits on itself or on a thread that is
  gone, priority inheritance as a maximum, and the call / receive / reply round trip.
\<close>

section \<open>Data\<close>

type_synonym ThreadId = u32
type_synonym Priority = u8

abbreviation invalid_thread :: ThreadId where "invalid_thread \<equiv> 0"
abbreviation default_priority :: Priority where "default_priority \<equiv> 0"
abbreviation max_threads :: nat where "max_threads \<equiv> 64"

abbreviation "rz_invalid_thread_id \<equiv> kernel_error 1"
abbreviation "rz_unknown_thread \<equiv> kernel_error 2"
abbreviation "rz_thread_exists \<equiv> kernel_error 3"
abbreviation "rz_thread_limit \<equiv> kernel_error 4"
abbreviation "rz_not_runnable \<equiv> kernel_error 5"
abbreviation "rz_self_addressed \<equiv> kernel_error 6"
abbreviation "rz_not_awaiting_reply \<equiv> kernel_error 7"
abbreviation "rz_not_waiting_on_peer \<equiv> kernel_error 9"

datatype ThreadState =
  ts_ready | ts_send_blocked | ts_reply_blocked | ts_receive_blocked | ts_exited | ts_admitted

datatype WakeReason =
  wake_none | wake_replied | wake_peer_exited | wake_endpoint_retired | wake_deadline_expired

record RzSlot =
  rs_thread :: ThreadId
  rs_state :: ThreadState
  rs_partner :: ThreadId
  rs_wake :: WakeReason
  rs_base :: Priority
  rs_occupied :: bool

record Rendezvous =
  rz_slots :: "RzSlot list"
  rz_occupied :: size_t

definition rz_blank :: RzSlot where
  "rz_blank = \<lparr>rs_thread = invalid_thread, rs_state = ts_exited, rs_partner = invalid_thread,
     rs_wake = wake_none, rs_base = default_priority, rs_occupied = False\<rparr>"

definition rz_empty :: Rendezvous where
  "rz_empty = \<lparr>rz_slots = replicate max_threads rz_blank, rz_occupied = 0\<rparr>"

section \<open>Operations\<close>

definition rz_find :: "Rendezvous \<Rightarrow> ThreadId \<Rightarrow> nat option" where
  "rz_find r t = slot_find rs_occupied rs_thread invalid_thread (rz_slots r) t"

abbreviation rz_at :: "Rendezvous \<Rightarrow> nat \<Rightarrow> RzSlot" where
  "rz_at r i \<equiv> rz_slots r ! i"

abbreviation rz_put :: "Rendezvous \<Rightarrow> nat \<Rightarrow> RzSlot \<Rightarrow> Rendezvous" where
  "rz_put r i s \<equiv> r\<lparr>rz_slots := (rz_slots r)[i := s]\<rparr>"

definition rz_live_thread_count :: "Rendezvous \<Rightarrow> size_t" where
  "rz_live_thread_count r = rz_occupied r"

definition rz_waits_on :: "RzSlot \<Rightarrow> ThreadId \<Rightarrow> bool" where
  "rz_waits_on other t \<longleftrightarrow>
     (rs_state other = ts_send_blocked \<or> rs_state other = ts_reply_blocked) \<and>
     rs_partner other = t"

fun rz_highest :: "ThreadId \<Rightarrow> RzSlot list \<Rightarrow> Priority \<Rightarrow> Priority" where
  "rz_highest t [] highest = highest"
| "rz_highest t (other # rest) highest =
     (if \<not> rs_occupied other \<or> rs_thread other = t then rz_highest t rest highest
      else if rz_waits_on other t \<and> rs_base other > highest
           then rz_highest t rest (rs_base other)
           else rz_highest t rest highest)"

definition rz_inherited_priority :: "Rendezvous \<Rightarrow> ThreadId \<Rightarrow> Priority" where
  "rz_inherited_priority r t =
     (case rz_find r t of
        None \<Rightarrow> default_priority
      | Some i \<Rightarrow> rz_highest t (rz_slots r) (rs_base (rz_at r i)))"

definition rz_effective_priority_of :: "Rendezvous \<Rightarrow> ThreadId \<Rightarrow> Priority result" where
  "rz_effective_priority_of r t =
     (if rz_find r t = None then Inl rz_unknown_thread else Inr (rz_inherited_priority r t))"

definition rz_base_priority_of :: "Rendezvous \<Rightarrow> ThreadId \<Rightarrow> Priority result" where
  "rz_base_priority_of r t =
     (case rz_find r t of None \<Rightarrow> Inl rz_unknown_thread | Some i \<Rightarrow> Inr (rs_base (rz_at r i)))"

definition rz_create_thread ::
  "Rendezvous \<Rightarrow> ThreadId \<Rightarrow> Priority \<Rightarrow> unit result \<times> Rendezvous" where
  "rz_create_thread r t priority =
     (if t = invalid_thread then (Inl rz_invalid_thread_id, r)
      else if rz_find r t \<noteq> None then (Inl rz_thread_exists, r)
      else case first_index (\<lambda>s. \<not> rs_occupied s) (rz_slots r) of
          Some i \<Rightarrow>
            (Inr (), r\<lparr>rz_slots := (rz_slots r)[i :=
                \<lparr>rs_thread = t, rs_state = ts_ready, rs_partner = invalid_thread,
                 rs_wake = wake_none, rs_base = priority, rs_occupied = True\<rparr>],
               rz_occupied := rz_occupied r + 1\<rparr>)
        | None \<Rightarrow> (Inl rz_thread_limit, r))"

definition rz_create_admitted_thread ::
  "Rendezvous \<Rightarrow> ThreadId \<Rightarrow> Priority \<Rightarrow> unit result \<times> Rendezvous" where
  "rz_create_admitted_thread r t priority =
     (if t = invalid_thread then (Inl rz_invalid_thread_id, r)
      else if rz_find r t \<noteq> None then (Inl rz_thread_exists, r)
      else case first_index (\<lambda>s. \<not> rs_occupied s) (rz_slots r) of
          Some i \<Rightarrow>
            (Inr (), r\<lparr>rz_slots := (rz_slots r)[i :=
                \<lparr>rs_thread = t, rs_state = ts_admitted, rs_partner = invalid_thread,
                 rs_wake = wake_none, rs_base = priority, rs_occupied = True\<rparr>],
               rz_occupied := rz_occupied r + 1\<rparr>)
        | None \<Rightarrow> (Inl rz_thread_limit, r))"

definition rz_start_thread :: "Rendezvous \<Rightarrow> ThreadId \<Rightarrow> unit result \<times> Rendezvous" where
  "rz_start_thread r t =
     (case rz_find r t of
        None \<Rightarrow> (Inl rz_unknown_thread, r)
      | Some i \<Rightarrow>
          if rs_state (rz_at r i) \<noteq> ts_admitted then (Inl rz_not_runnable, r)
          else (Inr (), rz_put r i ((rz_at r i)\<lparr>rs_state := ts_ready\<rparr>)))"

definition rz_released_by :: "ThreadId \<Rightarrow> RzSlot \<Rightarrow> bool" where
  "rz_released_by t other \<longleftrightarrow>
     rs_occupied other \<and> rs_thread other \<noteq> t \<and>
     (rs_state other = ts_send_blocked \<or> rs_state other = ts_reply_blocked \<or>
      rs_state other = ts_receive_blocked) \<and>
     rs_partner other = t"

definition rz_exit_thread :: "Rendezvous \<Rightarrow> ThreadId \<Rightarrow> size_t result \<times> Rendezvous" where
  "rz_exit_thread r t =
     (case rz_find r t of
        None \<Rightarrow> (Inl rz_unknown_thread, r)
      | Some i \<Rightarrow>
          let slots = map (\<lambda>other. if rz_released_by t other
                then other\<lparr>rs_state := ts_ready, rs_partner := invalid_thread,
                           rs_wake := wake_peer_exited\<rparr>
                else other) (rz_slots r);
              released = of_nat (length (filter (rz_released_by t) (rz_slots r)))
          in (Inr released,
              r\<lparr>rz_slots := slots[i := (slots ! i)\<lparr>rs_state := ts_exited,
                   rs_partner := invalid_thread, rs_wake := wake_none, rs_occupied := False\<rparr>],
                rz_occupied := rz_occupied r - 1\<rparr>))"

definition rz_block_send :: "Rendezvous \<Rightarrow> ThreadId \<Rightarrow> ThreadId \<Rightarrow> unit result \<times> Rendezvous" where
  "rz_block_send r from to =
     (if from = invalid_thread \<or> to = invalid_thread then (Inl rz_invalid_thread_id, r)
      else if from = to then (Inl rz_self_addressed, r)
      else case (rz_find r from, rz_find r to) of
          (Some i, Some j) \<Rightarrow>
            (if rs_state (rz_at r i) \<noteq> ts_ready then (Inl rz_not_runnable, r)
             else (Inr (), rz_put r i ((rz_at r i)\<lparr>rs_wake := wake_none,
                     rs_state := ts_send_blocked, rs_partner := to\<rparr>)))
        | _ \<Rightarrow> (Inl rz_unknown_thread, r))"

definition rz_wait_receive :: "Rendezvous \<Rightarrow> ThreadId \<Rightarrow> unit result \<times> Rendezvous" where
  "rz_wait_receive r self =
     (if self = invalid_thread then (Inl rz_invalid_thread_id, r)
      else case rz_find r self of
          None \<Rightarrow> (Inl rz_unknown_thread, r)
        | Some i \<Rightarrow>
            (if rs_state (rz_at r i) \<noteq> ts_ready \<or> rs_partner (rz_at r i) \<noteq> invalid_thread
             then (Inl rz_not_runnable, r)
             else (Inr (), rz_put r i ((rz_at r i)\<lparr>rs_wake := wake_none,
                     rs_state := ts_receive_blocked\<rparr>))))"

definition rz_deliver_waiting_receiver ::
  "Rendezvous \<Rightarrow> ThreadId \<Rightarrow> ThreadId \<Rightarrow> unit result \<times> Rendezvous" where
  "rz_deliver_waiting_receiver r from to =
     (if from = invalid_thread \<or> to = invalid_thread then (Inl rz_invalid_thread_id, r)
      else if from = to then (Inl rz_self_addressed, r)
      else case (rz_find r from, rz_find r to) of
          (Some i, Some j) \<Rightarrow>
            (if rs_state (rz_at r i) \<noteq> ts_ready then (Inl rz_not_runnable, r)
             else if rs_state (rz_at r j) \<noteq> ts_receive_blocked \<or>
                     rs_partner (rz_at r j) \<noteq> invalid_thread
               then (Inl rz_not_waiting_on_peer, r)
             else (Inr (),
               rz_put (rz_put r i ((rz_at r i)\<lparr>rs_wake := wake_none,
                         rs_state := ts_reply_blocked, rs_partner := to\<rparr>))
                 j ((rz_at r j)\<lparr>rs_state := ts_ready, rs_partner := from\<rparr>)))
        | _ \<Rightarrow> (Inl rz_unknown_thread, r))"

definition rz_accept_sender ::
  "Rendezvous \<Rightarrow> ThreadId \<Rightarrow> ThreadId \<Rightarrow> unit result \<times> Rendezvous" where
  "rz_accept_sender r self caller =
     (if self = invalid_thread \<or> caller = invalid_thread then (Inl rz_invalid_thread_id, r)
      else if self = caller then (Inl rz_self_addressed, r)
      else case (rz_find r self, rz_find r caller) of
          (Some i, Some j) \<Rightarrow>
            (if rs_state (rz_at r i) \<noteq> ts_ready then (Inl rz_not_runnable, r)
             else if rs_state (rz_at r j) \<noteq> ts_send_blocked \<or> rs_partner (rz_at r j) \<noteq> self
               then (Inl rz_not_waiting_on_peer, r)
             else (Inr (),
               rz_put (rz_put r i ((rz_at r i)\<lparr>rs_wake := wake_none\<rparr>))
                 j ((rz_at r j)\<lparr>rs_state := ts_reply_blocked\<rparr>)))
        | _ \<Rightarrow> (Inl rz_unknown_thread, r))"

definition rz_cancel_receive :: "Rendezvous \<Rightarrow> ThreadId \<Rightarrow> unit result \<times> Rendezvous" where
  "rz_cancel_receive r self =
     (if self = invalid_thread then (Inl rz_invalid_thread_id, r)
      else case rz_find r self of
          None \<Rightarrow> (Inl rz_unknown_thread, r)
        | Some i \<Rightarrow>
            (if rs_state (rz_at r i) \<noteq> ts_receive_blocked \<or> rs_partner (rz_at r i) \<noteq> invalid_thread
             then (Inl rz_not_waiting_on_peer, r)
             else (Inr (), rz_put r i ((rz_at r i)\<lparr>rs_state := ts_ready,
                     rs_wake := wake_endpoint_retired\<rparr>))))"

definition rz_expire_receive :: "Rendezvous \<Rightarrow> ThreadId \<Rightarrow> unit result \<times> Rendezvous" where
  "rz_expire_receive r self =
     (if self = invalid_thread then (Inl rz_invalid_thread_id, r)
      else case rz_find r self of
          None \<Rightarrow> (Inl rz_unknown_thread, r)
        | Some i \<Rightarrow>
            (if rs_state (rz_at r i) \<noteq> ts_receive_blocked \<or> rs_partner (rz_at r i) \<noteq> invalid_thread
             then (Inl rz_not_waiting_on_peer, r)
             else (Inr (), rz_put r i ((rz_at r i)\<lparr>rs_state := ts_ready,
                     rs_wake := wake_deadline_expired\<rparr>))))"

definition rz_take_deadline_expiry :: "Rendezvous \<Rightarrow> ThreadId \<Rightarrow> bool result \<times> Rendezvous" where
  "rz_take_deadline_expiry r self =
     (if self = invalid_thread then (Inl rz_invalid_thread_id, r)
      else case rz_find r self of
          None \<Rightarrow> (Inl rz_unknown_thread, r)
        | Some i \<Rightarrow>
            (if rs_wake (rz_at r i) \<noteq> wake_deadline_expired then (Inr False, r)
             else (Inr True, rz_put r i ((rz_at r i)\<lparr>rs_wake := wake_none\<rparr>))))"

definition rz_send :: "Rendezvous \<Rightarrow> ThreadId \<Rightarrow> ThreadId \<Rightarrow> unit result \<times> Rendezvous" where
  "rz_send r from to =
     (case rz_find r to of
        Some j \<Rightarrow>
          (if rs_state (rz_at r j) = ts_receive_blocked \<and> rs_partner (rz_at r j) = invalid_thread
           then rz_deliver_waiting_receiver r from to
           else rz_block_send r from to)
      | None \<Rightarrow> rz_block_send r from to)"

definition rz_receive :: "Rendezvous \<Rightarrow> ThreadId \<Rightarrow> ThreadId result \<times> Rendezvous" where
  "rz_receive r self =
     (if self = invalid_thread then (Inl rz_invalid_thread_id, r)
      else case rz_find r self of
          None \<Rightarrow> (Inl rz_unknown_thread, r)
        | Some i \<Rightarrow>
            if rs_state (rz_at r i) \<noteq> ts_ready then (Inl rz_not_runnable, r)
            else let r1 = rz_put r i ((rz_at r i)\<lparr>rs_wake := wake_none\<rparr>) in
              if rs_partner (rz_at r1 i) \<noteq> invalid_thread
              then (Inr (rs_partner (rz_at r1 i)),
                    rz_put r1 i ((rz_at r1 i)\<lparr>rs_partner := invalid_thread\<rparr>))
              else case first_index (\<lambda>s. rs_occupied s \<and> rs_state s = ts_send_blocked \<and>
                                         rs_partner s = self) (rz_slots r1) of
                  Some j \<Rightarrow>
                    (let caller = rs_thread (rz_at r1 j) in
                     case rz_accept_sender r1 self caller of
                       (Inl e, r2) \<Rightarrow> (Inl e, r2)
                     | (Inr _, r2) \<Rightarrow> (Inr caller, r2))
                | None \<Rightarrow>
                    (case rz_wait_receive r1 self of
                       (Inl e, r2) \<Rightarrow> (Inl e, r2)
                     | (Inr _, r2) \<Rightarrow> (Inr invalid_thread, r2)))"

definition rz_reply :: "Rendezvous \<Rightarrow> ThreadId \<Rightarrow> ThreadId \<Rightarrow> unit result \<times> Rendezvous" where
  "rz_reply r self caller =
     (if self = invalid_thread \<or> caller = invalid_thread then (Inl rz_invalid_thread_id, r)
      else if self = caller then (Inl rz_self_addressed, r)
      else case (rz_find r self, rz_find r caller) of
          (Some i, Some j) \<Rightarrow>
            (if rs_state (rz_at r j) \<noteq> ts_reply_blocked \<or> rs_partner (rz_at r j) \<noteq> self
             then (Inl rz_not_awaiting_reply, r)
             else (Inr (), rz_put r j ((rz_at r j)\<lparr>rs_state := ts_ready,
                     rs_partner := invalid_thread, rs_wake := wake_replied\<rparr>)))
        | _ \<Rightarrow> (Inl rz_unknown_thread, r))"

definition rz_cancel_call ::
  "Rendezvous \<Rightarrow> ThreadId \<Rightarrow> ThreadId \<Rightarrow> unit result \<times> Rendezvous" where
  "rz_cancel_call r caller expected_server =
     (if caller = invalid_thread \<or> expected_server = invalid_thread
      then (Inl rz_invalid_thread_id, r)
      else case (rz_find r caller, rz_find r expected_server) of
          (Some i, Some j) \<Rightarrow>
            (if \<not> rz_waits_on (rz_at r i) expected_server then (Inl rz_not_waiting_on_peer, r)
             else let r1 = rz_put r i ((rz_at r i)\<lparr>rs_state := ts_ready,
                         rs_partner := invalid_thread, rs_wake := wake_endpoint_retired\<rparr>);
                      r2 = (if rs_state (rz_at r1 j) = ts_ready \<and> rs_partner (rz_at r1 j) = caller
                            then rz_put r1 j ((rz_at r1 j)\<lparr>rs_partner := invalid_thread\<rparr>)
                            else r1)
                  in (Inr (), r2))
        | _ \<Rightarrow> (Inl rz_unknown_thread, r))"

definition rz_state_of :: "Rendezvous \<Rightarrow> ThreadId \<Rightarrow> ThreadState result" where
  "rz_state_of r t =
     (case rz_find r t of None \<Rightarrow> Inl rz_unknown_thread | Some i \<Rightarrow> Inr (rs_state (rz_at r i)))"

definition rz_wake_reason_of :: "Rendezvous \<Rightarrow> ThreadId \<Rightarrow> WakeReason result" where
  "rz_wake_reason_of r t =
     (case rz_find r t of None \<Rightarrow> Inl rz_unknown_thread | Some i \<Rightarrow> Inr (rs_wake (rz_at r i)))"

definition rz_partner_of :: "Rendezvous \<Rightarrow> ThreadId \<Rightarrow> ThreadId result" where
  "rz_partner_of r t =
     (case rz_find r t of None \<Rightarrow> Inl rz_unknown_thread | Some i \<Rightarrow> Inr (rs_partner (rz_at r i)))"


section \<open>The table as a map\<close>

definition rz_ok :: "Rendezvous \<Rightarrow> bool" where
  "rz_ok r \<longleftrightarrow>
     slot_ok rs_occupied rs_thread invalid_thread max_threads (rz_slots r) (rz_occupied r)"

definition rz_view :: "Rendezvous \<Rightarrow> ThreadId \<Rightarrow> RzSlot option" where
  "rz_view r = slot_view rs_occupied rs_thread invalid_thread (rz_slots r)"

interpretation rzt: slot_table rs_occupied rs_thread invalid_thread rz_blank
  by unfold_locales (simp add: rz_blank_def)

lemma rz_ok_empty: "rz_ok rz_empty"
  by (simp add: rz_ok_def rz_empty_def rzt.ok_blank)

lemma rz_view_empty: "rz_view rz_empty = Map.empty"
  by (simp add: rz_view_def rz_empty_def rzt.view_blank)

lemma rz_find_None [kernel_simps]: "rz_find r t = None \<longleftrightarrow> rz_view r t = None"
  by (simp add: rz_find_def rz_view_def rzt.find_view_None)

lemma rz_find_Some: "rz_find r t = Some i \<Longrightarrow> rz_view r t = Some (rz_at r i)"
  by (simp add: rz_find_def rz_view_def rzt.find_view_Some)

lemma rz_view_find: "rz_view r t = Some s \<Longrightarrow> \<exists>i. rz_find r t = Some i \<and> rz_at r i = s"
  by (auto simp: rz_find_def rz_view_def slot_view_def)

lemma rz_view_SomeD: "rz_view r t = Some s \<Longrightarrow> rs_occupied s \<and> rs_thread s = t \<and> t \<noteq> 0"
  unfolding rz_view_def by (drule rzt.view_SomeD) simp

lemma rz_view_zero [simp]: "rz_view r 0 = None"
  by (simp add: rz_view_def)

lemma rz_find_zero [simp]: "rz_find r 0 = None"
  by (simp add: rz_find_None)

lemma rz_put_ok:
  assumes "rz_ok r" "rz_find r t = Some i" "rs_occupied s" "rs_thread s = t"
  shows "rz_ok (rz_put r i s)" "rz_view (rz_put r i s) = (rz_view r)(t \<mapsto> s)"
  using assms rzt.store_ok [of max_threads "rz_slots r" "rz_occupied r" t i s]
  by (simp_all add: rz_ok_def rz_view_def rz_find_def)

lemma rz_find_put:
  assumes "rz_ok r" "rz_find r t = Some i" "rs_occupied s" "rs_thread s = t"
  shows "rz_find (rz_put r i s) u = rz_find r u"
proof -
  have wf: "slot_wf rs_occupied rs_thread 0 (rz_slots r)"
    using assms(1) by (simp add: rz_ok_def slot_ok_def)
  have wf': "slot_wf rs_occupied rs_thread 0 (rz_slots (rz_put r i s))"
    using rz_put_ok(1) [OF assms] by (simp add: rz_ok_def slot_ok_def)
  have i: "i < length (rz_slots r)" "rs_occupied (rz_at r i)" "rs_thread (rz_at r i) = t"
    using assms(2) rzt.find_SomeD [of "rz_slots r" t i] by (simp_all add: rz_find_def)
  have "rz_find (rz_put r i s) u = Some j \<longleftrightarrow> rz_find r u = Some j" for j
    using wf wf' i assms(3,4)
    by (cases "j = i") (auto simp: rz_find_def rzt.find_iff)
  then show ?thesis by (metis not_None_eq)
qed

lemma rz_find_distinct:
  assumes "rz_find r t = Some i" "rz_find r u = Some j" "t \<noteq> u"
  shows "i \<noteq> j"
  using assms by (auto simp: rz_find_def dest: rzt.find_key)

section \<open>The abstract machine\<close>

text \<open>
  What the rendezvous promises, over the map alone: one rule per transition, with no slots,
  no search and no counters.  Every method is simulated by it.
\<close>

inductive rdv_step :: "(ThreadId \<rightharpoonup> RzSlot) \<Rightarrow> (ThreadId \<rightharpoonup> RzSlot) \<Rightarrow> bool" where
  create: "\<lbrakk>v t = None; t \<noteq> 0; st = ts_ready \<or> st = ts_admitted\<rbrakk> \<Longrightarrow>
     rdv_step v (v(t \<mapsto> \<lparr>rs_thread = t, rs_state = st, rs_partner = 0, rs_wake = wake_none,
                       rs_base = p, rs_occupied = True\<rparr>))"
| start: "\<lbrakk>v t = Some s; rs_state s = ts_admitted\<rbrakk> \<Longrightarrow>
     rdv_step v (v(t \<mapsto> s\<lparr>rs_state := ts_ready\<rparr>))"
| exit: "\<lbrakk>v t = Some s\<rbrakk> \<Longrightarrow>
     rdv_step v (\<lambda>u. if u = t then None else map_option (\<lambda>other. if rz_released_by t other
         then other\<lparr>rs_state := ts_ready, rs_partner := 0, rs_wake := wake_peer_exited\<rparr>
         else other) (v u))"
| call: "\<lbrakk>v a = Some s; v b = Some d; a \<noteq> b; rs_state s = ts_ready\<rbrakk> \<Longrightarrow>
     rdv_step v (v(a \<mapsto> s\<lparr>rs_wake := wake_none, rs_state := ts_send_blocked, rs_partner := b\<rparr>))"
| wait: "\<lbrakk>v a = Some s; rs_state s = ts_ready; rs_partner s = 0\<rbrakk> \<Longrightarrow>
     rdv_step v (v(a \<mapsto> s\<lparr>rs_wake := wake_none, rs_state := ts_receive_blocked\<rparr>))"
| deliver: "\<lbrakk>v a = Some s; v b = Some d; a \<noteq> b; rs_state s = ts_ready;
      rs_state d = ts_receive_blocked; rs_partner d = 0\<rbrakk> \<Longrightarrow>
     rdv_step v (v(a \<mapsto> s\<lparr>rs_wake := wake_none, rs_state := ts_reply_blocked, rs_partner := b\<rparr>,
                   b \<mapsto> d\<lparr>rs_state := ts_ready, rs_partner := a\<rparr>))"
| accept: "\<lbrakk>v b = Some d; v a = Some s; a \<noteq> b; rs_state d = ts_ready;
      rs_state s = ts_send_blocked; rs_partner s = b\<rbrakk> \<Longrightarrow>
     rdv_step v (v(b \<mapsto> d\<lparr>rs_wake := wake_none\<rparr>, a \<mapsto> s\<lparr>rs_state := ts_reply_blocked\<rparr>))"
| collect: "\<lbrakk>v b = Some d; rs_state d = ts_ready; rs_partner d \<noteq> 0\<rbrakk> \<Longrightarrow>
     rdv_step v (v(b \<mapsto> d\<lparr>rs_wake := wake_none, rs_partner := 0\<rparr>))"
| unblock: "\<lbrakk>v b = Some d; rs_state d = ts_receive_blocked; rs_partner d = 0;
      w = wake_endpoint_retired \<or> w = wake_deadline_expired\<rbrakk> \<Longrightarrow>
     rdv_step v (v(b \<mapsto> d\<lparr>rs_state := ts_ready, rs_wake := w\<rparr>))"
| reply: "\<lbrakk>v b = Some d; v a = Some s; a \<noteq> b; rs_state s = ts_reply_blocked; rs_partner s = b\<rbrakk> \<Longrightarrow>
     rdv_step v (v(a \<mapsto> s\<lparr>rs_state := ts_ready, rs_partner := 0, rs_wake := wake_replied\<rparr>))"
| cancel: "\<lbrakk>v a = Some s; v b = Some d; a \<noteq> b; rz_waits_on s b\<rbrakk> \<Longrightarrow>
     rdv_step v (v(a \<mapsto> s\<lparr>rs_state := ts_ready, rs_partner := 0, rs_wake := wake_endpoint_retired\<rparr>,
                   b \<mapsto> (if rs_state d = ts_ready \<and> rs_partner d = a
                         then d\<lparr>rs_partner := 0\<rparr> else d)))"
| quiet: "v a = Some s \<Longrightarrow> rdv_step v (v(a \<mapsto> s\<lparr>rs_wake := wake_none\<rparr>))"

inductive_simps rdv_step_from_empty: "rdv_step Map.empty v"

text \<open>The invariant of the abstract machine: nobody waits on itself or on a dead thread.\<close>

definition rdv_slot_ok :: "(ThreadId \<rightharpoonup> RzSlot) \<Rightarrow> ThreadId \<Rightarrow> RzSlot \<Rightarrow> bool" where
  "rdv_slot_ok v t s \<longleftrightarrow>
     t \<noteq> 0 \<and> rs_occupied s \<and> rs_thread s = t \<and> rs_state s \<noteq> ts_exited \<and> rs_partner s \<noteq> t \<and>
     (rs_state s = ts_send_blocked \<or> rs_state s = ts_reply_blocked \<longrightarrow>
        rs_partner s \<noteq> 0 \<and> v (rs_partner s) \<noteq> None) \<and>
     (rs_state s = ts_receive_blocked \<or> rs_state s = ts_admitted \<longrightarrow> rs_partner s = 0)"

definition rdv_inv :: "(ThreadId \<rightharpoonup> RzSlot) \<Rightarrow> bool" where
  "rdv_inv v \<longleftrightarrow> (\<forall>t s. v t = Some s \<longrightarrow> rdv_slot_ok v t s)"

lemma rdv_inv_empty: "rdv_inv Map.empty"
  by (simp add: rdv_inv_def)

lemma rdv_invD: "rdv_inv v \<Longrightarrow> v t = Some s \<Longrightarrow> rdv_slot_ok v t s"
  by (simp add: rdv_inv_def)

lemma rdv_slot_ok_grow:
  "rdv_slot_ok v t s \<Longrightarrow> dom v \<subseteq> dom w \<Longrightarrow> rdv_slot_ok w t s"
  unfolding rdv_slot_ok_def by (metis domIff in_mono)

lemma rdv_inv_upd:
  assumes "rdv_inv v" "rdv_slot_ok (v(t \<mapsto> s)) t s"
  shows "rdv_inv (v(t \<mapsto> s))"
  unfolding rdv_inv_def
proof (intro allI impI)
  fix u x
  assume "(v(t \<mapsto> s)) u = Some x"
  then show "rdv_slot_ok (v(t \<mapsto> s)) u x"
    using assms by (cases "u = t") (auto dest: rdv_invD intro: rdv_slot_ok_grow)
qed

lemma rdv_inv_exit:
  assumes "rdv_inv v" "v t = Some s"
  shows "rdv_inv (\<lambda>u. if u = t then None else map_option (\<lambda>other. if rz_released_by t other
         then other\<lparr>rs_state := ts_ready, rs_partner := 0, rs_wake := wake_peer_exited\<rparr>
         else other) (v u))" (is "rdv_inv ?w")
  unfolding rdv_inv_def
proof (intro allI impI)
  fix u x
  assume u: "?w u = Some x"
  then obtain y where y: "v u = Some y" "u \<noteq> t" by (auto split: if_splits)
  have ok: "rdv_slot_ok v u y" using assms(1) y(1) by (rule rdv_invD)
  show "rdv_slot_ok ?w u x"
  proof (cases "rz_released_by t y")
    case True
    with u y ok show ?thesis by (auto simp: rdv_slot_ok_def)
  next
    case False
    with u y have x: "x = y" by simp
    have "rs_state y = ts_send_blocked \<or> rs_state y = ts_reply_blocked \<Longrightarrow> rs_partner y \<noteq> t"
      using False ok y by (auto simp: rz_released_by_def rdv_slot_ok_def)
    with ok show ?thesis unfolding x by (auto simp: rdv_slot_ok_def)
  qed
qed

lemma rdv_step_inv: "rdv_step v w \<Longrightarrow> rdv_inv v \<Longrightarrow> rdv_inv w"
proof (induction rule: rdv_step.induct)
  case (create v t st p)
  then show ?case by (intro rdv_inv_upd) (auto simp: rdv_slot_ok_def)
next
  case (exit v t s)
  then show ?case by (intro rdv_inv_exit)
next
  case (call v a s b d)
  then have "rdv_slot_ok v a s" "rdv_slot_ok v b d" by (auto dest: rdv_invD)
  with call show ?case by (intro rdv_inv_upd) (auto simp: rdv_slot_ok_def)
next
  case (deliver v a s b d)
  then have "rdv_slot_ok v a s" "rdv_slot_ok v b d" by (auto dest: rdv_invD)
  with deliver show ?case by (intro rdv_inv_upd) (auto simp: rdv_slot_ok_def)
next
  case (accept v b d a s)
  then have "rdv_slot_ok v a s" "rdv_slot_ok v b d" by (auto dest: rdv_invD)
  with accept show ?case by (intro rdv_inv_upd) (auto simp: rdv_slot_ok_def)
next
  case (cancel v a s b d)
  then have "rdv_slot_ok v a s" "rdv_slot_ok v b d" by (auto dest: rdv_invD)
  with cancel show ?case by (intro rdv_inv_upd) (auto simp: rdv_slot_ok_def)
qed (auto intro!: rdv_inv_upd dest: rdv_invD simp: rdv_slot_ok_def)

lemma rdv_run_inv: "rdv_step\<^sup>*\<^sup>* v w \<Longrightarrow> rdv_inv v \<Longrightarrow> rdv_inv w"
  by (induction rule: rtranclp_induct) (auto intro: rdv_step_inv)

section \<open>Simulation: every method follows the abstract machine\<close>

definition rz_sim :: "Rendezvous \<Rightarrow> Rendezvous \<Rightarrow> bool" where
  "rz_sim r r' \<longleftrightarrow> rz_ok r' \<and> rdv_step\<^sup>*\<^sup>* (rz_view r) (rz_view r')"

lemma rz_sim_refl: "rz_ok r \<Longrightarrow> rz_sim r r"
  by (simp add: rz_sim_def)

lemma rz_sim_trans: "rz_sim r r1 \<Longrightarrow> rz_sim r1 r2 \<Longrightarrow> rz_sim r r2"
  by (auto simp: rz_sim_def)

lemma rz_sim_put:
  assumes "rz_ok r" "rz_find r t = Some i" "rs_occupied s" "rs_thread s = t"
    and "rdv_step (rz_view r) ((rz_view r)(t \<mapsto> s))"
  shows "rz_sim r (rz_put r i s)"
  using assms(5) rz_put_ok [OF assms(1-4)] by (auto simp: rz_sim_def)

lemma rz_put_put:
  assumes "rz_ok r" "rz_find r t = Some i" "rz_find r u = Some j" "t \<noteq> u"
    and "rs_occupied s" "rs_thread s = t" "rs_occupied d" "rs_thread d = u"
  shows "rz_ok (r\<lparr>rz_slots := (rz_slots r)[i := s, j := d]\<rparr>)"
    and "rz_view (r\<lparr>rz_slots := (rz_slots r)[i := s, j := d]\<rparr>) = (rz_view r)(t \<mapsto> s, u \<mapsto> d)"
proof -
  have "rz_ok (rz_put r i s)" "rz_view (rz_put r i s) = (rz_view r)(t \<mapsto> s)"
    using assms by (auto intro: rz_put_ok)
  moreover have "rz_find (rz_put r i s) u = Some j"
    using rz_find_put [of r t i s u] assms by simp
  ultimately show "rz_ok (r\<lparr>rz_slots := (rz_slots r)[i := s, j := d]\<rparr>)"
    and "rz_view (r\<lparr>rz_slots := (rz_slots r)[i := s, j := d]\<rparr>) = (rz_view r)(t \<mapsto> s, u \<mapsto> d)"
    using rz_put_ok [of "rz_put r i s" u j d] assms by simp_all
qed

lemma rz_at_fields:
  assumes "rz_find r t = Some i"
  shows "rs_occupied (rz_at r i)" "rs_thread (rz_at r i) = t" "rz_view r t = Some (rz_at r i)"
    "i < length (rz_slots r)"
  using assms rz_find_Some [OF assms] rz_view_SomeD
  by (auto simp: rz_find_def dest: rzt.find_less)

lemma rz_start_thread_sim: "rz_ok r \<Longrightarrow> rz_sim r (snd (rz_start_thread r t))"
  by (auto simp: rz_start_thread_def rz_sim_refl rz_at_fields split: option.splits
      intro!: rz_sim_put [where t = t] rdv_step.start)

lemma rz_create_sim:
  assumes "rz_ok r" "t \<noteq> 0" "rz_view r t = None" "first_index (\<lambda>s. \<not> rs_occupied s) (rz_slots r) = Some i"
    and "s = \<lparr>rs_thread = t, rs_state = st, rs_partner = 0, rs_wake = wake_none,
               rs_base = p, rs_occupied = True\<rparr>" "st = ts_ready \<or> st = ts_admitted"
  shows "rz_ok (r\<lparr>rz_slots := (rz_slots r)[i := s], rz_occupied := rz_occupied r + 1\<rparr>)"
    and "rz_view (r\<lparr>rz_slots := (rz_slots r)[i := s], rz_occupied := rz_occupied r + 1\<rparr>)
      = (rz_view r)(t \<mapsto> s)"
  using assms rzt.insert_ok [of max_threads "rz_slots r" "rz_occupied r" i s]
  by (auto simp: rz_ok_def rz_view_def)

lemma rz_create_thread_sim: "rz_ok r \<Longrightarrow> rz_sim r (snd (rz_create_thread r t p))"
  using rz_create_sim [of r t _ _ ts_ready p]
  by (auto simp: rz_create_thread_def rz_sim_refl rz_find_None rz_sim_def split: option.splits
      intro!: r_into_rtranclp rdv_step.create)

lemma rz_create_admitted_thread_sim: "rz_ok r \<Longrightarrow> rz_sim r (snd (rz_create_admitted_thread r t p))"
  using rz_create_sim [of r t _ _ ts_admitted p]
  by (auto simp: rz_create_admitted_thread_def rz_sim_refl rz_find_None rz_sim_def
      split: option.splits intro!: r_into_rtranclp rdv_step.create)

lemma rz_block_send_sim: "rz_ok r \<Longrightarrow> rz_sim r (snd (rz_block_send r a b))"
  by (auto simp: rz_block_send_def rz_sim_refl rz_at_fields split: option.splits
      intro!: rz_sim_put [where t = a] rdv_step.call)

lemma rz_wait_receive_sim: "rz_ok r \<Longrightarrow> rz_sim r (snd (rz_wait_receive r a))"
  by (auto simp: rz_wait_receive_def rz_sim_refl rz_at_fields split: option.splits
      intro!: rz_sim_put [where t = a] rdv_step.wait)

lemma rz_cancel_receive_sim: "rz_ok r \<Longrightarrow> rz_sim r (snd (rz_cancel_receive r a))"
  by (auto simp: rz_cancel_receive_def rz_sim_refl rz_at_fields split: option.splits
      intro!: rz_sim_put [where t = a] rdv_step.unblock)

lemma rz_expire_receive_sim: "rz_ok r \<Longrightarrow> rz_sim r (snd (rz_expire_receive r a))"
  by (auto simp: rz_expire_receive_def rz_sim_refl rz_at_fields split: option.splits
      intro!: rz_sim_put [where t = a] rdv_step.unblock)

lemma rz_take_deadline_expiry_sim: "rz_ok r \<Longrightarrow> rz_sim r (snd (rz_take_deadline_expiry r a))"
  by (auto simp: rz_take_deadline_expiry_def rz_sim_refl rz_at_fields split: option.splits
      intro!: rz_sim_put [where t = a] rdv_step.quiet)

lemma rz_reply_sim: "rz_ok r \<Longrightarrow> rz_sim r (snd (rz_reply r b a))"
  by (auto simp: rz_reply_def rz_sim_refl rz_at_fields split: option.splits
      intro!: rz_sim_put [where t = a] rdv_step.reply [where b = b])

lemma rz_sim_put2:
  assumes "rz_ok r" "rz_find r t = Some i" "rz_find r u = Some j" "t \<noteq> u"
    and "rs_occupied s" "rs_thread s = t" "rs_occupied d" "rs_thread d = u"
    and "rdv_step (rz_view r) ((rz_view r)(t \<mapsto> s, u \<mapsto> d))"
  shows "rz_sim r (r\<lparr>rz_slots := (rz_slots r)[i := s, j := d]\<rparr>)"
  using assms(9) rz_put_put [OF assms(1-8)] by (auto simp: rz_sim_def)

lemma rz_deliver_sim: "rz_ok r \<Longrightarrow> rz_sim r (snd (rz_deliver_waiting_receiver r a b))"
  by (auto simp: rz_deliver_waiting_receiver_def rz_sim_refl rz_at_fields
      split: option.splits intro!: rz_sim_put2 [where t = a and u = b] rdv_step.deliver)

lemma rz_accept_sim: "rz_ok r \<Longrightarrow> rz_sim r (snd (rz_accept_sender r b a))"
  by (auto simp: rz_accept_sender_def rz_sim_refl rz_at_fields
      split: option.splits intro!: rz_sim_put2 [where t = b and u = a] rdv_step.accept)

lemma rz_send_sim: "rz_ok r \<Longrightarrow> rz_sim r (snd (rz_send r a b))"
  by (simp add: rz_send_def rz_deliver_sim rz_block_send_sim split: option.split)


lemma rz_exit_thread_ok:
  assumes "rz_ok r" "rz_find r t = Some i"
  shows "rz_ok (snd (rz_exit_thread r t))"
    and "rz_view (snd (rz_exit_thread r t)) =
      (\<lambda>u. if u = t then None else map_option (\<lambda>other. if rz_released_by t other
         then other\<lparr>rs_state := ts_ready, rs_partner := 0, rs_wake := wake_peer_exited\<rparr>
         else other) (rz_view r u))"
proof -
  let ?f = "\<lambda>other. if rz_released_by t other
         then other\<lparr>rs_state := ts_ready, rs_partner := 0, rs_wake := wake_peer_exited\<rparr>
         else other"
  let ?m = "map ?f (rz_slots r)"
  have ok: "slot_ok rs_occupied rs_thread 0 max_threads (rz_slots r) (rz_occupied r)"
    using assms(1) by (simp add: rz_ok_def)
  have keep: "\<And>s. rs_occupied (?f s) = rs_occupied s" "\<And>s. rs_occupied s \<Longrightarrow> rs_thread (?f s) = rs_thread s"
    by simp_all
  note m = rzt.map_ok_keep [OF ok keep]
  have i: "i < length (rz_slots r)" "rs_occupied (rz_at r i)" "rs_thread (rz_at r i) = t"
    using rz_at_fields [OF assms(2)] by auto
  have "slot_find rs_occupied rs_thread 0 ?m t = Some i"
    using i m(1) by (subst rzt.find_iff) (auto simp: slot_ok_def)
  note d = rzt.remove_ok [OF m(1) this]
  have "rz_ok (snd (rz_exit_thread r t)) \<and> rz_view (snd (rz_exit_thread r t)) =
      (slot_view rs_occupied rs_thread 0 ?m)(t := None)"
    using assms(2) d by (simp add: rz_exit_thread_def rz_ok_def rz_view_def Let_def)
  then show "rz_ok (snd (rz_exit_thread r t))"
    and "rz_view (snd (rz_exit_thread r t)) = (\<lambda>u. if u = t then None else map_option ?f (rz_view r u))"
    using m(2) by (auto simp: rz_view_def fun_eq_iff)
qed

lemma rz_exit_thread_sim: "rz_ok r \<Longrightarrow> rz_sim r (snd (rz_exit_thread r t))"
proof (cases "rz_find r t")
  case (Some i)
  assume "rz_ok r"
  with Some show ?thesis
    using rz_exit_thread_ok [of r t i] rdv_step.exit [of "rz_view r" t "rz_at r i"]
    by (simp add: rz_sim_def rz_at_fields r_into_rtranclp)
qed (simp add: rz_exit_thread_def rz_sim_refl)

lemma rz_cancel_call_sim:
  assumes inv: "rz_ok r" "rdv_inv (rz_view r)"
  shows "rz_sim r (snd (rz_cancel_call r a b))"
proof (cases "a = 0 \<or> b = 0 \<or> rz_find r a = None \<or> rz_find r b = None")
  case True
  then show ?thesis using inv by (auto simp: rz_cancel_call_def rz_sim_refl split: option.splits)
next
  case False
  then obtain i j where ij: "rz_find r a = Some i" "rz_find r b = Some j" "a \<noteq> 0" "b \<noteq> 0" by auto
  show ?thesis
  proof (cases "rz_waits_on (rz_at r i) b")
    case waits: True
    have ab: "a \<noteq> b"
      using waits inv(2) rz_at_fields(3) [OF ij(1)]
      by (auto simp: rz_waits_on_def rdv_slot_ok_def dest!: rdv_invD)
    have neq: "i \<noteq> j" using rz_find_distinct ij ab by blast
    let ?s = "(rz_at r i)\<lparr>rs_state := ts_ready, rs_partner := 0, rs_wake := wake_endpoint_retired\<rparr>"
    let ?d = "if rs_state (rz_at r j) = ts_ready \<and> rs_partner (rz_at r j) = a
              then (rz_at r j)\<lparr>rs_partner := 0\<rparr> else rz_at r j"
    have "snd (rz_cancel_call r a b) = r\<lparr>rz_slots := (rz_slots r)[i := ?s, j := ?d]\<rparr>"
      using ij waits neq by (simp add: rz_cancel_call_def Let_def list_update_swap [of i j])
    moreover have "rz_sim r (r\<lparr>rz_slots := (rz_slots r)[i := ?s, j := ?d]\<rparr>)"
      using inv ij ab waits
      by (intro rz_sim_put2 [where t = a and u = b] rdv_step.cancel) (auto simp: rz_at_fields)
    ultimately show ?thesis by simp
  qed (use ij inv in \<open>simp add: rz_cancel_call_def rz_sim_refl\<close>)
qed

lemma rz_receive_sim: "rz_ok r \<Longrightarrow> rz_sim r (snd (rz_receive r b))"
proof -
  assume ok: "rz_ok r"
  show ?thesis
  proof (cases "b = 0 \<or> rz_find r b = None \<or>
      (\<exists>i. rz_find r b = Some i \<and> rs_state (rz_at r i) \<noteq> ts_ready)")
    case True
    then show ?thesis using ok by (auto simp: rz_receive_def rz_sim_refl)
  next
    case False
    then obtain i where i: "rz_find r b = Some i" "rs_state (rz_at r i) = ts_ready" "b \<noteq> 0" by auto
    let ?r1 = "rz_put r i ((rz_at r i)\<lparr>rs_wake := wake_none\<rparr>)"
    have q: "rz_sim r ?r1"
      using ok i by (intro rz_sim_put [where t = b] rdv_step.quiet) (auto simp: rz_at_fields)
    then have ok1: "rz_ok ?r1" by (simp add: rz_sim_def)
    show ?thesis
    proof (cases "rs_partner (rz_at r i) = 0")
      case True
      let ?P = "\<lambda>s. rs_occupied s \<and> rs_state s = ts_send_blocked \<and> rs_partner s = b"
      have "snd (rz_receive r b) = (case first_index ?P (rz_slots ?r1) of
          Some j \<Rightarrow> snd (rz_accept_sender ?r1 b (rs_thread (rz_at ?r1 j)))
        | None \<Rightarrow> snd (rz_wait_receive ?r1 b))"
        using i True rz_at_fields(4) [OF i(1)]
        by (simp add: rz_receive_def Let_def split: option.split sum.split prod.split)
      moreover have "rz_sim r (case first_index ?P (rz_slots ?r1) of
          Some j \<Rightarrow> snd (rz_accept_sender ?r1 b (rs_thread (rz_at ?r1 j)))
        | None \<Rightarrow> snd (rz_wait_receive ?r1 b))"
        using rz_sim_trans [OF q rz_accept_sim [OF ok1]] rz_sim_trans [OF q rz_wait_receive_sim [OF ok1]]
        by (simp split: option.split)
      ultimately show ?thesis by simp
    next
      case False
      then have "snd (rz_receive r b) =
          rz_put r i ((rz_at r i)\<lparr>rs_wake := wake_none, rs_partner := 0\<rparr>)"
        using i rz_at_fields(4) [OF i(1)] by (simp add: rz_receive_def Let_def)
      moreover have "rz_sim r (rz_put r i ((rz_at r i)\<lparr>rs_wake := wake_none, rs_partner := 0\<rparr>))"
        using ok i False
        by (intro rz_sim_put [where t = b] rdv_step.collect) (auto simp: rz_at_fields)
      ultimately show ?thesis by simp
    qed
  qed
qed

lemmas rz_sims =
  rz_create_thread_sim rz_create_admitted_thread_sim rz_start_thread_sim rz_exit_thread_sim
  rz_block_send_sim rz_wait_receive_sim rz_deliver_sim rz_accept_sim rz_cancel_receive_sim
  rz_expire_receive_sim rz_take_deadline_expiry_sim rz_send_sim rz_receive_sim rz_reply_sim
  rz_cancel_call_sim

definition rz_inv :: "Rendezvous \<Rightarrow> bool" where
  "rz_inv r \<longleftrightarrow> rz_ok r \<and> rdv_inv (rz_view r)"

lemma rz_inv_empty: "rz_inv rz_empty"
  by (simp add: rz_inv_def rz_ok_empty rz_view_empty rdv_inv_empty)

lemma rz_sim_inv: "rz_inv r \<Longrightarrow> rz_sim r r' \<Longrightarrow> rz_inv r'"
  by (auto simp: rz_inv_def rz_sim_def intro: rdv_run_inv)


section \<open>Runs of the state machine\<close>

inductive rz_method :: "Rendezvous \<Rightarrow> Rendezvous \<Rightarrow> bool" where
  "rz_method r (snd (rz_create_thread r t p))"
| "rz_method r (snd (rz_create_admitted_thread r t p))"
| "rz_method r (snd (rz_start_thread r t))"
| "rz_method r (snd (rz_exit_thread r t))"
| "rz_method r (snd (rz_send r a b))"
| "rz_method r (snd (rz_receive r b))"
| "rz_method r (snd (rz_reply r b a))"
| "rz_method r (snd (rz_block_send r a b))"
| "rz_method r (snd (rz_wait_receive r b))"
| "rz_method r (snd (rz_deliver_waiting_receiver r a b))"
| "rz_method r (snd (rz_accept_sender r b a))"
| "rz_method r (snd (rz_cancel_receive r b))"
| "rz_method r (snd (rz_expire_receive r b))"
| "rz_method r (snd (rz_take_deadline_expiry r b))"
| "rz_method r (snd (rz_cancel_call r a b))"

lemma rz_method_inv: "rz_method r r' \<Longrightarrow> rz_inv r \<Longrightarrow> rz_inv r'"
  by (induction rule: rz_method.induct)
    (auto simp: rz_inv_def intro: rz_sims [THEN [2] rz_sim_inv, unfolded rz_inv_def, THEN conjunct1]
      rz_sims [THEN [2] rz_sim_inv, unfolded rz_inv_def, THEN conjunct2])

lemma rz_run_inv: "rz_method\<^sup>*\<^sup>* rz_empty r \<Longrightarrow> rz_inv r"
  by (induction rule: rtranclp_induct) (auto intro: rz_method_inv rz_inv_empty)

lemma rz_state_of_iff: "rz_state_of r t = Inr st \<longleftrightarrow> (\<exists>s. rz_view r t = Some s \<and> rs_state s = st)"
  by (auto simp: rz_state_of_def rz_find_Some rz_find_None split: option.splits
      dest: rz_view_find)

lemma rz_partner_of_iff: "rz_partner_of r t = Inr p \<longleftrightarrow> (\<exists>s. rz_view r t = Some s \<and> rs_partner s = p)"
  by (auto simp: rz_partner_of_def rz_find_Some rz_find_None split: option.splits
      dest: rz_view_find)

text \<open>In every state the rendezvous can reach through its methods, whatever their arguments,
  a thread blocked in a call (waiting to be received, or waiting for its reply) waits on another
  thread that is alive: nobody waits on itself and nobody waits on a thread that has exited.\<close>

theorem rz_blocked_on_live:
  assumes "rz_method\<^sup>*\<^sup>* rz_empty r" "rz_state_of r t = Inr st"
    and "st = ts_send_blocked \<or> st = ts_reply_blocked" "rz_partner_of r t = Inr p"
  shows "p \<noteq> t \<and> p \<noteq> invalid_thread \<and> (\<exists>st'. rz_state_of r p = Inr st' \<and> st' \<noteq> ts_exited)"
proof -
  from assms(1) have inv: "rdv_inv (rz_view r)" using rz_run_inv by (auto simp: rz_inv_def)
  from assms obtain s where s: "rz_view r t = Some s" "rs_state s = st" "rs_partner s = p"
    by (auto simp: rz_state_of_iff rz_partner_of_iff)
  from inv s(1) have ok: "rdv_slot_ok (rz_view r) t s" by (rule rdv_invD)
  with s assms(3) obtain d where "rz_view r p = Some d" "p \<noteq> t" "p \<noteq> 0"
    by (auto simp: rdv_slot_ok_def)
  with inv show ?thesis
    by (auto simp: rz_state_of_iff rdv_slot_ok_def dest!: rdv_invD [of _ p])
qed

definition rz_example :: Rendezvous where
  "rz_example = snd (rz_send (snd (rz_create_thread (snd (rz_create_thread rz_empty 1 7)) 2 3)) 1 2)"

lemma rz_example_reachable: "rz_method\<^sup>*\<^sup>* rz_empty rz_example"
  unfolding rz_example_def
  by (rule rtranclp.rtrancl_into_rtrancl [OF rtranclp.rtrancl_into_rtrancl
        [OF r_into_rtranclp]]) (rule rz_method.intros)+

theorem rz_blocked_on_live_witness:
  "rz_state_of rz_example 1 = Inr ts_send_blocked \<and> rz_partner_of rz_example 1 = Inr 2 \<and>
   (\<exists>st'. rz_state_of rz_example 2 = Inr st' \<and> st' \<noteq> ts_exited)"
proof -
  have a: "rz_state_of rz_example 1 = Inr ts_send_blocked" by code_simp
  have b: "rz_partner_of rz_example 1 = Inr 2" by code_simp
  from a b rz_blocked_on_live [OF rz_example_reachable a _ b] show ?thesis by blast
qed

section \<open>Priority inheritance\<close>

text \<open>The specification: the most urgent of the thread's own priority and its waiters'.\<close>

definition rdv_priority :: "(ThreadId \<rightharpoonup> RzSlot) \<Rightarrow> ThreadId \<Rightarrow> Priority" where
  "rdv_priority v t =
     (case v t of None \<Rightarrow> default_priority
      | Some s \<Rightarrow> Max (insert (rs_base s)
          {rs_base other | u other. v u = Some other \<and> u \<noteq> t \<and> rz_waits_on other t}))"

lemma Max_insert_insert:
  "finite S \<Longrightarrow> Max (insert h (insert b S)) = Max (insert (max h b) S)"
  by (cases "S = {}") (simp_all add: max.assoc)

lemma rz_highest_Max:
  "rz_highest t xs h =
     Max (insert h {rs_base other | other. other \<in> set xs \<and> rs_occupied other \<and>
            rs_thread other \<noteq> t \<and> rz_waits_on other t})"
proof (induction xs arbitrary: h)
  case Nil
  then show ?case by simp
next
  case (Cons x xs)
  let ?S = "\<lambda>ys. {rs_base other | other. other \<in> set ys \<and> rs_occupied other \<and>
            rs_thread other \<noteq> t \<and> rz_waits_on other t}"
  show ?case
  proof (cases "rs_occupied x \<and> rs_thread x \<noteq> t \<and> rz_waits_on x t")
    case True
    then have "?S (x # xs) = insert (rs_base x) (?S xs)" by auto
    then have "Max (insert h (?S (x # xs))) = Max (insert (max h (rs_base x)) (?S xs))"
      by (simp only: Max_insert_insert [OF finite])
    moreover have "rz_highest t (x # xs) h = rz_highest t xs (max h (rs_base x))"
      using True by (auto simp: max_def)
    ultimately show ?thesis using Cons.IH by simp
  next
    case False
    then have "?S (x # xs) = ?S xs" by auto
    with False Cons.IH show ?thesis by auto
  qed
qed

lemma rz_effective_priority_view:
  assumes "rz_ok r"
  shows "rz_effective_priority_of r t =
    (if rz_view r t = None then Inl rz_unknown_thread else Inr (rdv_priority (rz_view r) t))"
proof (cases "rz_find r t")
  case None
  then show ?thesis by (simp add: rz_effective_priority_of_def rz_find_None)
next
  case (Some i)
  have wf: "slot_wf rs_occupied rs_thread 0 (rz_slots r)"
    using assms by (simp add: rz_ok_def slot_ok_def)
  have "{rs_base other | other. other \<in> set (rz_slots r) \<and> rs_occupied other \<and>
            rs_thread other \<noteq> t \<and> rz_waits_on other t} =
        {rs_base other | u other. rz_view r u = Some other \<and> u \<noteq> t \<and> rz_waits_on other t}"
    using wf by (auto simp: rz_view_def rzt.view_iff)
  with Some show ?thesis
    by (simp add: rz_effective_priority_of_def rz_inherited_priority_def rz_highest_Max
        rdv_priority_def rz_at_fields)
qed

definition rz_example_served :: Rendezvous where
  "rz_example_served = snd (rz_receive rz_example 2)"

lemma rz_example_served_reachable: "rz_method\<^sup>*\<^sup>* rz_empty rz_example_served"
  unfolding rz_example_served_def
  by (rule rtranclp.rtrancl_into_rtrancl [OF rz_example_reachable]) (rule rz_method.intros)

text \<open>C34: In every state the rendezvous' methods can reach, the effective priority of a live
  thread is exactly the maximum of its own priority and the own priorities of all other threads that
  name it as their partner while they wait to be received (\<open>send_blocked\<close>) or wait for its reply
  (\<open>reply_blocked\<close>); so a server inherits from a client from the send until the reply, also
  after it has taken the message.  Any other thread is refused as unknown.\<close>

theorem rz_priority_inheritance:
  assumes "rz_method\<^sup>*\<^sup>* rz_empty r"
  shows "rz_effective_priority_of r t =
    (case rz_view r t of
       None \<Rightarrow> Inl rz_unknown_thread
     | Some s \<Rightarrow> Inr (Max (insert (rs_base s)
         {rs_base other | u other. rz_view r u = Some other \<and> u \<noteq> t \<and> rs_partner other = t \<and>
            rs_state other \<in> {ts_send_blocked, ts_reply_blocked}})))"
proof -
  have "rz_ok r" using rz_run_inv [OF assms] by (simp add: rz_inv_def)
  moreover have "rz_waits_on other t \<longleftrightarrow> rs_partner other = t \<and>
      rs_state other \<in> {ts_send_blocked, ts_reply_blocked}" for other
    by (auto simp: rz_waits_on_def)
  ultimately show ?thesis
    by (simp only: rz_effective_priority_view rdv_priority_def) (simp split: option.split)
qed

theorem rz_priority_inheritance_witness:
  "rz_state_of rz_example 1 = Inr ts_send_blocked \<and> rz_effective_priority_of rz_example 2 = Inr 7 \<and>
   rz_state_of rz_example_served 1 = Inr ts_reply_blocked \<and>
   rz_effective_priority_of rz_example_served 2 = Inr 7 \<and>
   rz_effective_priority_of rz_example_served 2 =
    (case rz_view rz_example_served 2 of
       None \<Rightarrow> Inl rz_unknown_thread
     | Some s \<Rightarrow> Inr (Max (insert (rs_base s)
         {rs_base other | u other. rz_view rz_example_served u = Some other \<and> u \<noteq> 2 \<and>
            rs_partner other = 2 \<and> rs_state other \<in> {ts_send_blocked, ts_reply_blocked}})))"
proof (intro conjI)
  show "rz_effective_priority_of rz_example_served 2 =
    (case rz_view rz_example_served 2 of
       None \<Rightarrow> Inl rz_unknown_thread
     | Some s \<Rightarrow> Inr (Max (insert (rs_base s)
         {rs_base other | u other. rz_view rz_example_served u = Some other \<and> u \<noteq> 2 \<and>
            rs_partner other = 2 \<and> rs_state other \<in> {ts_send_blocked, ts_reply_blocked}})))"
    by (rule rz_priority_inheritance [OF rz_example_served_reachable])
qed code_simp+

section \<open>Exit and the call round trip\<close>

text \<open>When a thread exits it leaves the table, and every thread that was blocked on it (and
  nobody else) becomes ready with the reason \<open>peer_exited\<close> and no partner; the number returned is the
  number of slots released; an unknown thread is refused and changes nothing.\<close>

theorem rz_exit_releases_waiters:
  assumes "rz_ok r"
  shows "fst (rz_exit_thread r t) =
      (if rz_view r t = None then Inl rz_unknown_thread
       else Inr (of_nat (length (filter (rz_released_by t) (rz_slots r))))) \<and>
     rz_view (snd (rz_exit_thread r t)) =
      (\<lambda>u. if rz_view r t = None then rz_view r u
           else if u = t then None
           else map_option (\<lambda>s. if rz_released_by t s
             then s\<lparr>rs_state := ts_ready, rs_partner := invalid_thread, rs_wake := wake_peer_exited\<rparr>
             else s) (rz_view r u))"
proof (cases "rz_find r t")
  case None
  moreover have "rz_view r t = None" using None by (simp add: rz_find_None)
  ultimately show ?thesis by (simp add: rz_exit_thread_def)
next
  case (Some i)
  have "rz_view r t = Some (rz_at r i)" using Some by (rule rz_find_Some)
  then show ?thesis
    using Some rz_exit_thread_ok(2) [OF assms Some]
    by (simp add: rz_exit_thread_def Let_def cong: if_cong)
qed

theorem rz_exit_releases_waiters_witness:
  "fst (rz_exit_thread rz_example 2) = Inr 1 \<and>
   rz_wake_reason_of (snd (rz_exit_thread rz_example 2)) 1 = Inr wake_peer_exited \<and>
   rz_view (snd (rz_exit_thread rz_example 2)) =
      (\<lambda>u. if rz_view rz_example 2 = None then rz_view rz_example u
           else if u = 2 then None
           else map_option (\<lambda>s. if rz_released_by 2 s
             then s\<lparr>rs_state := ts_ready, rs_partner := invalid_thread, rs_wake := wake_peer_exited\<rparr>
             else s) (rz_view rz_example u))"
proof (intro conjI)
  have "rz_ok rz_example"
    using rz_run_inv [OF rz_example_reachable] by (simp add: rz_inv_def)
  then show "rz_view (snd (rz_exit_thread rz_example 2)) =
      (\<lambda>u. if rz_view rz_example 2 = None then rz_view rz_example u
           else if u = 2 then None
           else map_option (\<lambda>s. if rz_released_by 2 s
             then s\<lparr>rs_state := ts_ready, rs_partner := invalid_thread, rs_wake := wake_peer_exited\<rparr>
             else s) (rz_view rz_example u))"
    by (rule rz_exit_releases_waiters [THEN conjunct2])
qed code_simp+

text \<open>A call that finds its server ready with nothing to collect, received and answered.\<close>

lemma rz_reply_ok:
  assumes "rz_ok r" "rz_view r b = Some d" "rz_view r a = Some s" "a \<noteq> b"
    and "rs_state s = ts_reply_blocked" "rs_partner s = b"
  shows "fst (rz_reply r b a) = Inr ()" "rz_ok (snd (rz_reply r b a))"
    and "rz_view (snd (rz_reply r b a)) =
      (rz_view r)(a \<mapsto> s\<lparr>rs_state := ts_ready, rs_partner := 0, rs_wake := wake_replied\<rparr>)"
proof -
  obtain i j where ij: "rz_find r b = Some i" "rz_find r a = Some j" "rz_at r j = s"
    using assms rz_view_find by meson
  have nz: "a \<noteq> 0" "b \<noteq> 0" using assms rz_view_SomeD by metis+
  show "fst (rz_reply r b a) = Inr ()" "rz_ok (snd (rz_reply r b a))"
    and "rz_view (snd (rz_reply r b a)) =
      (rz_view r)(a \<mapsto> s\<lparr>rs_state := ts_ready, rs_partner := 0, rs_wake := wake_replied\<rparr>)"
    using assms ij nz rz_put_ok [of r a j] rz_at_fields [OF ij(2)] by (auto simp: rz_reply_def)
qed

lemma rz_accept_ok:
  assumes "rz_ok r" "rz_view r b = Some d" "rz_view r a = Some s" "a \<noteq> b"
    and "rs_state d = ts_ready" "rs_state s = ts_send_blocked" "rs_partner s = b"
  shows "fst (rz_accept_sender r b a) = Inr ()" "rz_ok (snd (rz_accept_sender r b a))"
    and "rz_view (snd (rz_accept_sender r b a)) =
      (rz_view r)(b \<mapsto> d\<lparr>rs_wake := wake_none\<rparr>, a \<mapsto> s\<lparr>rs_state := ts_reply_blocked\<rparr>)"
proof -
  obtain i j where ij: "rz_find r b = Some i" "rz_find r a = Some j" "rz_at r i = d" "rz_at r j = s"
    using assms rz_view_find by meson
  have nz: "a \<noteq> 0" "b \<noteq> 0" using assms rz_view_SomeD by metis+
  have fl: "rs_occupied d" "rs_thread d = b" "rs_occupied s" "rs_thread s = a"
    using assms rz_view_SomeD by metis+
  have "rz_accept_sender r b a = (Inr (), r\<lparr>rz_slots := (rz_slots r)
      [i := d\<lparr>rs_wake := wake_none\<rparr>, j := s\<lparr>rs_state := ts_reply_blocked\<rparr>]\<rparr>)"
    using assms ij nz by (simp add: rz_accept_sender_def)
  then show "fst (rz_accept_sender r b a) = Inr ()" "rz_ok (snd (rz_accept_sender r b a))"
    and "rz_view (snd (rz_accept_sender r b a)) =
      (rz_view r)(b \<mapsto> d\<lparr>rs_wake := wake_none\<rparr>, a \<mapsto> s\<lparr>rs_state := ts_reply_blocked\<rparr>)"
    using rz_put_put [OF assms(1) ij(1,2)] assms(4) fl by simp_all
qed

lemma rz_block_send_ok:
  assumes "rz_ok r" "rz_view r a = Some s" "rz_view r b = Some d" "a \<noteq> b" "rs_state s = ts_ready"
  shows "fst (rz_block_send r a b) = Inr ()" "rz_ok (snd (rz_block_send r a b))"
    and "rz_view (snd (rz_block_send r a b)) = (rz_view r)
      (a \<mapsto> s\<lparr>rs_wake := wake_none, rs_state := ts_send_blocked, rs_partner := b\<rparr>)"
proof -
  obtain i j where ij: "rz_find r a = Some i" "rz_find r b = Some j" "rz_at r i = s"
    using assms rz_view_find by meson
  have nz: "a \<noteq> 0" "b \<noteq> 0" using assms rz_view_SomeD by metis+
  show "fst (rz_block_send r a b) = Inr ()" "rz_ok (snd (rz_block_send r a b))"
    and "rz_view (snd (rz_block_send r a b)) = (rz_view r)
      (a \<mapsto> s\<lparr>rs_wake := wake_none, rs_state := ts_send_blocked, rs_partner := b\<rparr>)"
    using assms ij nz rz_put_ok [of r a i] rz_at_fields [OF ij(1)] by (auto simp: rz_block_send_def)
qed

lemma rz_deliver_ok:
  assumes "rz_ok r" "rz_view r a = Some s" "rz_view r b = Some d" "a \<noteq> b" "rs_state s = ts_ready"
    and "rs_state d = ts_receive_blocked" "rs_partner d = 0"
  shows "fst (rz_deliver_waiting_receiver r a b) = Inr ()"
    and "rz_ok (snd (rz_deliver_waiting_receiver r a b))"
    and "rz_view (snd (rz_deliver_waiting_receiver r a b)) = (rz_view r)
      (a \<mapsto> s\<lparr>rs_wake := wake_none, rs_state := ts_reply_blocked, rs_partner := b\<rparr>,
       b \<mapsto> d\<lparr>rs_state := ts_ready, rs_partner := a\<rparr>)"
proof -
  obtain i j where ij: "rz_find r a = Some i" "rz_find r b = Some j" "rz_at r i = s" "rz_at r j = d"
    using assms rz_view_find by meson
  have nz: "a \<noteq> 0" "b \<noteq> 0" using assms rz_view_SomeD by metis+
  have fl: "rs_occupied d" "rs_thread d = b" "rs_occupied s" "rs_thread s = a"
    using assms rz_view_SomeD by metis+
  have "rz_deliver_waiting_receiver r a b = (Inr (), r\<lparr>rz_slots := (rz_slots r)
      [i := s\<lparr>rs_wake := wake_none, rs_state := ts_reply_blocked, rs_partner := b\<rparr>,
       j := d\<lparr>rs_state := ts_ready, rs_partner := a\<rparr>]\<rparr>)"
    using assms ij nz by (simp add: rz_deliver_waiting_receiver_def)
  then show "fst (rz_deliver_waiting_receiver r a b) = Inr ()"
    and "rz_ok (snd (rz_deliver_waiting_receiver r a b))"
    and "rz_view (snd (rz_deliver_waiting_receiver r a b)) = (rz_view r)
      (a \<mapsto> s\<lparr>rs_wake := wake_none, rs_state := ts_reply_blocked, rs_partner := b\<rparr>,
       b \<mapsto> d\<lparr>rs_state := ts_ready, rs_partner := a\<rparr>)"
    using rz_put_put [OF assms(1) ij(1,2)] assms(4) fl by simp_all
qed

lemma rz_receive_collect_ok:
  assumes "rz_ok r" "rz_view r b = Some d" "rs_state d = ts_ready" "rs_partner d = a" "a \<noteq> 0"
  shows "fst (rz_receive r b) = Inr a" "rz_ok (snd (rz_receive r b))"
    and "rz_view (snd (rz_receive r b)) =
      (rz_view r)(b \<mapsto> d\<lparr>rs_wake := wake_none, rs_partner := 0\<rparr>)"
proof -
  obtain i where i: "rz_find r b = Some i" "rz_at r i = d" using assms rz_view_find by meson
  have nz: "b \<noteq> 0" and fl: "rs_occupied d" "rs_thread d = b" using assms rz_view_SomeD by metis+
  have "i < length (rz_slots r)" using i(1) by (simp add: rz_find_def rzt.find_less)
  then have "rz_receive r b = (Inr a, rz_put r i (d\<lparr>rs_wake := wake_none, rs_partner := 0\<rparr>))"
    using assms i nz by (simp add: rz_receive_def Let_def)
  then show "fst (rz_receive r b) = Inr a" "rz_ok (snd (rz_receive r b))"
    and "rz_view (snd (rz_receive r b)) =
      (rz_view r)(b \<mapsto> d\<lparr>rs_wake := wake_none, rs_partner := 0\<rparr>)"
    using rz_put_ok [OF assms(1) i(1)] fl by simp_all
qed

lemma rz_receive_accept_ok:
  assumes "rz_ok r" "rz_view r b = Some d" "rz_view r a = Some s" "a \<noteq> b"
    and "rs_state d = ts_ready" "rs_partner d = 0" "rs_state s = ts_send_blocked" "rs_partner s = b"
    and only: "\<And>u t. rz_view r u = Some t \<Longrightarrow> rs_state t = ts_send_blocked \<Longrightarrow>
      rs_partner t = b \<Longrightarrow> u = a"
  shows "fst (rz_receive r b) = Inr a" "rz_ok (snd (rz_receive r b))"
    and "rz_view (snd (rz_receive r b)) =
      (rz_view r)(b \<mapsto> d\<lparr>rs_wake := wake_none\<rparr>, a \<mapsto> s\<lparr>rs_state := ts_reply_blocked\<rparr>)"
proof -
  obtain i j where ij: "rz_find r b = Some i" "rz_at r i = d" "rz_find r a = Some j" "rz_at r j = s"
    using assms rz_view_find by meson
  have nz: "b \<noteq> 0" "a \<noteq> 0" and fl: "rs_occupied d" "rs_thread d = b" "rs_occupied s" "rs_thread s = a"
    using assms rz_view_SomeD by metis+
  have less: "i < length (rz_slots r)" "j < length (rz_slots r)" and ne: "i \<noteq> j"
    using ij assms(4) rz_find_distinct by (auto simp: rz_find_def rzt.find_less)
  let ?r1 = "rz_put r i (d\<lparr>rs_wake := wake_none\<rparr>)"
  let ?P = "\<lambda>s. rs_occupied s \<and> rs_state s = ts_send_blocked \<and> rs_partner s = b"
  have ok1: "rz_ok ?r1" and v1: "rz_view ?r1 = (rz_view r)(b \<mapsto> d\<lparr>rs_wake := wake_none\<rparr>)"
    using rz_put_ok [OF assms(1) ij(1)] fl by simp_all
  have "first_index ?P (rz_slots ?r1) = Some j"
  proof (rule first_index_unique)
    fix k assume k: "k < length (rz_slots ?r1)" "?P (rz_slots ?r1 ! k)"
    with assms(5) less have "k \<noteq> i" by auto
    with k have k': "k < length (rz_slots r)" "?P (rz_slots r ! k)" by simp_all
    then have "rz_find r (rs_thread (rz_slots r ! k)) = Some k"
      using assms(1) by (simp add: rz_find_def rzt.find_iff rz_ok_def slot_ok_def)
    with only [OF rz_find_Some [OF this]] k' ij(3) show "k = j" by auto
  qed (use less ne ij fl assms(7,8) in simp_all)
  then have "rz_receive r b = (case rz_accept_sender ?r1 b a of
      (Inl e, r2) \<Rightarrow> (Inl e, r2) | (Inr _, r2) \<Rightarrow> (Inr a, r2))"
    using assms(5,6) ij nz less ne fl by (simp add: rz_receive_def Let_def)
  moreover have "fst (rz_accept_sender ?r1 b a) = Inr ()" "rz_ok (snd (rz_accept_sender ?r1 b a))"
    and "rz_view (snd (rz_accept_sender ?r1 b a)) =
      (rz_view r)(b \<mapsto> d\<lparr>rs_wake := wake_none\<rparr>, a \<mapsto> s\<lparr>rs_state := ts_reply_blocked\<rparr>)"
    using rz_accept_ok [OF ok1, of b "d\<lparr>rs_wake := wake_none\<rparr>" a s] v1 assms(3-8) by simp_all
  ultimately show "fst (rz_receive r b) = Inr a" "rz_ok (snd (rz_receive r b))"
    and "rz_view (snd (rz_receive r b)) =
      (rz_view r)(b \<mapsto> d\<lparr>rs_wake := wake_none\<rparr>, a \<mapsto> s\<lparr>rs_state := ts_reply_blocked\<rparr>)"
    by (cases "rz_accept_sender ?r1 b a"; simp)+
qed

text \<open>A call completes whichever side arrives first.  If the caller is ready and the server
  either already waits to receive, or is ready with nothing to collect and no other sender, then
  send, receive and reply all succeed, the receive names the caller, the caller ends ready with the
  reason \<open>replied\<close>, the server ends ready, and no other thread changed.\<close>

theorem rz_call_round_trip:
  assumes "rz_ok r" "rz_view r a = Some s" "rz_view r b = Some d" "a \<noteq> b" "rs_state s = ts_ready"
    and "rs_partner d = 0"
    and "rs_state d = ts_receive_blocked \<or>
      rs_state d = ts_ready \<and> (\<forall>u t. rz_view r u = Some t \<longrightarrow> rs_state t = ts_send_blocked \<longrightarrow>
        rs_partner t \<noteq> b)"
  shows "let (sent, r1) = rz_send r a b; (got, r2) = rz_receive r1 b; (done, r3) = rz_reply r2 b a
     in sent = Inr () \<and> got = Inr a \<and> done = Inr () \<and>
        rz_view r3 = (rz_view r)
          (b \<mapsto> d\<lparr>rs_state := ts_ready, rs_wake := wake_none\<rparr>,
           a \<mapsto> s\<lparr>rs_state := ts_ready, rs_partner := 0, rs_wake := wake_replied\<rparr>)"
proof -
  let ?r1 = "snd (rz_send r a b)" let ?r2 = "snd (rz_receive ?r1 b)"
  obtain j where j: "rz_find r b = Some j" "rz_at r j = d" using assms rz_view_find by meson
  have nz: "a \<noteq> 0" using assms rz_view_SomeD by metis
  have fin: ?thesis if "fst (rz_send r a b) = Inr ()" "fst (rz_receive ?r1 b) = Inr a" "rz_ok ?r2"
    "rz_view ?r2 = (rz_view r)(b \<mapsto> d\<lparr>rs_state := ts_ready, rs_wake := wake_none\<rparr>,
       a \<mapsto> s\<lparr>rs_wake := wake_none, rs_state := ts_reply_blocked, rs_partner := b\<rparr>)"
    using that rz_reply_ok [OF that(3), of b _ a, OF _ _ assms(4)] assms(4)
    by (simp add: Let_def split_beta)
  show ?thesis
  proof (cases "rs_state d = ts_receive_blocked")
    case True
    then have eq: "rz_send r a b = rz_deliver_waiting_receiver r a b"
      using j assms by (simp add: rz_send_def)
    note del = rz_deliver_ok [OF assms(1,2,3,4,5) True assms(6), folded eq]
    show ?thesis
      by (rule fin) (use del rz_receive_collect_ok [OF del(2), of b _ a] assms(4,6) nz in
        \<open>simp_all add: fun_eq_iff\<close>)
  next
    case False
    then have st: "rs_state d = ts_ready" and eq: "rz_send r a b = rz_block_send r a b"
      using j assms by (auto simp: rz_send_def)
    note blk = rz_block_send_ok [OF assms(1,2,3,4,5), folded eq]
    have only: "u = a" if "rz_view ?r1 u = Some t" "rs_state t = ts_send_blocked"
      "rs_partner t = b" for u t
      using that blk(3) assms(7) False by (auto split: if_splits)
    note rcv = rz_receive_accept_ok [OF blk(2), of b d a, OF _ _ _ st assms(6) _ _ only]
    show ?thesis
      by (rule fin) (use blk rcv assms(3,4) st in \<open>simp_all add: fun_eq_iff\<close>)
  qed
qed

definition rz_waiting :: Rendezvous where
  "rz_waiting = snd (rz_receive (snd (rz_create_thread (snd (rz_create_thread rz_empty 1 7)) 2 3)) 2)"

lemma rz_waiting_reachable: "rz_method\<^sup>*\<^sup>* rz_empty rz_waiting"
  unfolding rz_waiting_def
  by (rule rtranclp.rtrancl_into_rtrancl [OF rtranclp.rtrancl_into_rtrancl
        [OF r_into_rtranclp]]) (rule rz_method.intros)+

theorem rz_call_round_trip_witness:
  "let (sent, r1) = rz_send rz_waiting 1 2; (got, r2) = rz_receive r1 2; (done, r3) = rz_reply r2 2 1
   in sent = Inr () \<and> got = Inr 1 \<and> done = Inr ()"
proof -
  have ok: "rz_ok rz_waiting" using rz_run_inv [OF rz_waiting_reachable] by (simp add: rz_inv_def)
  have states: "rz_state_of rz_waiting 1 = Inr ts_ready" "rz_state_of rz_waiting 2 = Inr ts_receive_blocked"
    "rz_partner_of rz_waiting 2 = Inr 0" by code_simp+
  obtain s where s: "rz_view rz_waiting 1 = Some s" "rs_state s = ts_ready"
    using states by (auto simp: rz_state_of_iff)
  obtain d where d: "rz_view rz_waiting 2 = Some d" "rs_state d = ts_receive_blocked" "rs_partner d = 0"
    using states by (auto simp: rz_state_of_iff rz_partner_of_iff)
  show ?thesis
    using rz_call_round_trip [OF ok s(1) d(1) _ s(2) d(3)] d(2) by (simp add: Let_def split_beta)
qed

end
