(* ===== verification/Rendezvous_Protocol.thy ===== *)
theory Rendezvous_Protocol
  imports Rendezvous
begin

text \<open>
  The rendezvous (src/core/oskernel/include/os/kernel/rendezvous.hpp) against an abstract protocol.
  The protocol is a labelled transition system over a map from thread identifiers to slots: for each
  call it says which error is answered, under which conditions, and otherwise exactly which entries
  change.  It knows no slots, no search and no counters, and it uses none of the table's helper
  definitions.  The refinement is by label: every call of a method is the protocol step of that very
  call, with the same answer.
\<close>

section \<open>Calls and answers\<close>

text \<open>One constructor per mutating method of \<open>class Rendezvous\<close>.\<close>

datatype rdv_call =
    Create_thread ThreadId Priority
  | Create_admitted_thread ThreadId Priority
  | Start_thread ThreadId
  | Exit_thread ThreadId
  | Send ThreadId ThreadId
  | Receive ThreadId
  | Reply ThreadId ThreadId
  | Block_send ThreadId ThreadId
  | Wait_receive ThreadId
  | Deliver_waiting_receiver ThreadId ThreadId
  | Accept_sender ThreadId ThreadId
  | Cancel_receive ThreadId
  | Expire_receive ThreadId
  | Take_deadline_expiry ThreadId
  | Cancel_call ThreadId ThreadId

datatype rdv_answer =
    Refused Error | Done | Released size_t | Caller ThreadId | Expired bool

definition rdv_unit :: "unit result \<times> 's \<Rightarrow> rdv_answer \<times> 's" where
  "rdv_unit p = (case fst p of Inl e \<Rightarrow> Refused e | Inr _ \<Rightarrow> Done, snd p)"

definition rdv_value :: "('a \<Rightarrow> rdv_answer) \<Rightarrow> 'a result \<times> 's \<Rightarrow> rdv_answer \<times> 's" where
  "rdv_value f p = (case fst p of Inl e \<Rightarrow> Refused e | Inr x \<Rightarrow> f x, snd p)"

fun rz_exec :: "rdv_call \<Rightarrow> Rendezvous \<Rightarrow> rdv_answer \<times> Rendezvous" where
  "rz_exec (Create_thread t p) r = rdv_unit (rz_create_thread r t p)"
| "rz_exec (Create_admitted_thread t p) r = rdv_unit (rz_create_admitted_thread r t p)"
| "rz_exec (Start_thread t) r = rdv_unit (rz_start_thread r t)"
| "rz_exec (Exit_thread t) r = rdv_value Released (rz_exit_thread r t)"
| "rz_exec (Send a b) r = rdv_unit (rz_send r a b)"
| "rz_exec (Receive b) r = rdv_value Caller (rz_receive r b)"
| "rz_exec (Reply b a) r = rdv_unit (rz_reply r b a)"
| "rz_exec (Block_send a b) r = rdv_unit (rz_block_send r a b)"
| "rz_exec (Wait_receive b) r = rdv_unit (rz_wait_receive r b)"
| "rz_exec (Deliver_waiting_receiver a b) r = rdv_unit (rz_deliver_waiting_receiver r a b)"
| "rz_exec (Accept_sender b a) r = rdv_unit (rz_accept_sender r b a)"
| "rz_exec (Cancel_receive b) r = rdv_unit (rz_cancel_receive r b)"
| "rz_exec (Expire_receive b) r = rdv_unit (rz_expire_receive r b)"
| "rz_exec (Take_deadline_expiry b) r = rdv_value Expired (rz_take_deadline_expiry r b)"
| "rz_exec (Cancel_call a b) r = rdv_unit (rz_cancel_call r a b)"

fun rz_run :: "rdv_call list \<Rightarrow> Rendezvous \<Rightarrow> rdv_answer list \<times> Rendezvous" where
  "rz_run [] r = ([], r)"
| "rz_run (c # cs) r =
     (let (a, r1) = rz_exec c r; (as, r2) = rz_run cs r1 in (a # as, r2))"

section \<open>The protocol\<close>

type_synonym rdv_state = "ThreadId \<rightharpoonup> RzSlot"

text \<open>What is asked of two threads that are to meet: both named, different, both alive.\<close>

definition rdv_pair_error :: "rdv_state \<Rightarrow> ThreadId \<Rightarrow> ThreadId \<Rightarrow> Error option" where
  "rdv_pair_error v a b =
     (if a = 0 \<or> b = 0 then Some rz_invalid_thread_id
      else if a = b then Some rz_self_addressed
      else if v a = None \<or> v b = None then Some rz_unknown_thread
      else None)"

definition rdv_self_error :: "rdv_state \<Rightarrow> ThreadId \<Rightarrow> Error option" where
  "rdv_self_error v b =
     (if b = 0 then Some rz_invalid_thread_id
      else if v b = None then Some rz_unknown_thread
      else None)"

definition rdv_refuses :: "rdv_state \<Rightarrow> Error \<Rightarrow> rdv_answer \<Rightarrow> rdv_state \<Rightarrow> bool" where
  "rdv_refuses v e ans w \<longleftrightarrow> ans = Refused e \<and> w = v"

definition rdv_created :: "ThreadId \<Rightarrow> ThreadState \<Rightarrow> Priority \<Rightarrow> RzSlot" where
  "rdv_created t st p = \<lparr>rs_thread = t, rs_state = st, rs_partner = 0, rs_wake = wake_none,
     rs_base = p, rs_occupied = True\<rparr>"

definition rdv_create ::
  "ThreadState \<Rightarrow> ThreadId \<Rightarrow> Priority \<Rightarrow> rdv_state \<Rightarrow> rdv_answer \<Rightarrow> rdv_state \<Rightarrow> bool" where
  "rdv_create st t p v ans w \<longleftrightarrow>
     (if t = 0 then rdv_refuses v rz_invalid_thread_id ans w
      else if v t \<noteq> None then rdv_refuses v rz_thread_exists ans w
      else if card (dom v) \<ge> 64 then rdv_refuses v rz_thread_limit ans w
      else ans = Done \<and> w = v(t \<mapsto> rdv_created t st p))"

definition rdv_blocked_on :: "rdv_state \<Rightarrow> ThreadId \<Rightarrow> ThreadId set" where
  "rdv_blocked_on v t = {u. u \<noteq> t \<and> (\<exists>s. v u = Some s \<and> rs_partner s = t \<and>
     rs_state s \<in> {ts_send_blocked, ts_reply_blocked, ts_receive_blocked})}"

definition rdv_call_send ::
  "ThreadId \<Rightarrow> ThreadId \<Rightarrow> rdv_state \<Rightarrow> rdv_answer \<Rightarrow> rdv_state \<Rightarrow> bool" where
  "rdv_call_send a b v ans w \<longleftrightarrow>
     (case rdv_pair_error v a b of Some e \<Rightarrow> rdv_refuses v e ans w
      | None \<Rightarrow>
          if rs_state (the (v a)) \<noteq> ts_ready then rdv_refuses v rz_not_runnable ans w
          else ans = Done \<and> w = v(a \<mapsto> (the (v a))
                 \<lparr>rs_wake := wake_none, rs_state := ts_send_blocked, rs_partner := b\<rparr>))"

definition rdv_idle_receiver :: "rdv_state \<Rightarrow> ThreadId \<Rightarrow> bool" where
  "rdv_idle_receiver v b \<longleftrightarrow>
     (\<exists>d. v b = Some d \<and> rs_state d = ts_receive_blocked \<and> rs_partner d = 0)"

definition rdv_deliver ::
  "ThreadId \<Rightarrow> ThreadId \<Rightarrow> rdv_state \<Rightarrow> rdv_answer \<Rightarrow> rdv_state \<Rightarrow> bool" where
  "rdv_deliver a b v ans w \<longleftrightarrow>
     (case rdv_pair_error v a b of Some e \<Rightarrow> rdv_refuses v e ans w
      | None \<Rightarrow>
          if rs_state (the (v a)) \<noteq> ts_ready then rdv_refuses v rz_not_runnable ans w
          else if \<not> rdv_idle_receiver v b then rdv_refuses v rz_not_waiting_on_peer ans w
          else ans = Done \<and> w = v
            (a \<mapsto> (the (v a))\<lparr>rs_wake := wake_none, rs_state := ts_reply_blocked, rs_partner := b\<rparr>,
             b \<mapsto> (the (v b))\<lparr>rs_state := ts_ready, rs_partner := a\<rparr>))"

definition rdv_wake_receiver ::
  "WakeReason \<Rightarrow> ThreadId \<Rightarrow> rdv_state \<Rightarrow> rdv_answer \<Rightarrow> rdv_state \<Rightarrow> bool" where
  "rdv_wake_receiver reason b v ans w \<longleftrightarrow>
     (case rdv_self_error v b of Some e \<Rightarrow> rdv_refuses v e ans w
      | None \<Rightarrow>
          if \<not> rdv_idle_receiver v b then rdv_refuses v rz_not_waiting_on_peer ans w
          else ans = Done \<and> w = v(b \<mapsto> (the (v b))\<lparr>rs_state := ts_ready, rs_wake := reason\<rparr>))"

text \<open>A receive takes what was delivered to it; failing that it accepts a thread that is blocked
  sending to it (the protocol leaves open which); failing that it waits.\<close>

definition rdv_receives :: "ThreadId \<Rightarrow> rdv_state \<Rightarrow> rdv_answer \<Rightarrow> rdv_state \<Rightarrow> bool" where
  "rdv_receives b v ans w \<longleftrightarrow>
     (case rdv_self_error v b of Some e \<Rightarrow> rdv_refuses v e ans w
      | None \<Rightarrow>
         (let d = (the (v b))\<lparr>rs_wake := wake_none\<rparr>;
              senders = {a. \<exists>s. v a = Some s \<and> rs_state s = ts_send_blocked \<and> rs_partner s = b}
          in if rs_state d \<noteq> ts_ready then rdv_refuses v rz_not_runnable ans w
             else if rs_partner d \<noteq> 0
               then ans = Caller (rs_partner d) \<and> w = v(b \<mapsto> d\<lparr>rs_partner := 0\<rparr>)
             else if senders = {}
               then ans = Caller 0 \<and> w = v(b \<mapsto> d\<lparr>rs_state := ts_receive_blocked\<rparr>)
             else \<exists>a \<in> senders. ans = Caller a \<and>
                    w = v(b \<mapsto> d, a \<mapsto> (the (v a))\<lparr>rs_state := ts_reply_blocked\<rparr>)))"

fun rdv_trans :: "rdv_call \<Rightarrow> rdv_state \<Rightarrow> rdv_answer \<Rightarrow> rdv_state \<Rightarrow> bool" where
  "rdv_trans (Create_thread t p) v ans w = rdv_create ts_ready t p v ans w"
| "rdv_trans (Create_admitted_thread t p) v ans w = rdv_create ts_admitted t p v ans w"
| "rdv_trans (Start_thread t) v ans w =
     (case v t of None \<Rightarrow> rdv_refuses v rz_unknown_thread ans w
      | Some s \<Rightarrow>
          if rs_state s \<noteq> ts_admitted then rdv_refuses v rz_not_runnable ans w
          else ans = Done \<and> w = v(t \<mapsto> s\<lparr>rs_state := ts_ready\<rparr>))"
| "rdv_trans (Exit_thread t) v ans w =
     (if v t = None then rdv_refuses v rz_unknown_thread ans w
      else ans = Released (of_nat (card (rdv_blocked_on v t))) \<and>
           w = (\<lambda>u. if u = t then None
                    else if u \<in> rdv_blocked_on v t
                      then Some ((the (v u))\<lparr>rs_state := ts_ready, rs_partner := 0,
                                            rs_wake := wake_peer_exited\<rparr>)
                    else v u))"
| "rdv_trans (Send a b) v ans w =
     (if rdv_idle_receiver v b then rdv_deliver a b v ans w else rdv_call_send a b v ans w)"
| "rdv_trans (Receive b) v ans w = rdv_receives b v ans w"
| "rdv_trans (Reply b a) v ans w =
     (case rdv_pair_error v b a of Some e \<Rightarrow> rdv_refuses v e ans w
      | None \<Rightarrow>
          if rs_state (the (v a)) \<noteq> ts_reply_blocked \<or> rs_partner (the (v a)) \<noteq> b
          then rdv_refuses v rz_not_awaiting_reply ans w
          else ans = Done \<and> w = v(a \<mapsto> (the (v a))
                 \<lparr>rs_state := ts_ready, rs_partner := 0, rs_wake := wake_replied\<rparr>))"
| "rdv_trans (Block_send a b) v ans w = rdv_call_send a b v ans w"
| "rdv_trans (Wait_receive b) v ans w =
     (case rdv_self_error v b of Some e \<Rightarrow> rdv_refuses v e ans w
      | None \<Rightarrow>
          if rs_state (the (v b)) \<noteq> ts_ready \<or> rs_partner (the (v b)) \<noteq> 0
          then rdv_refuses v rz_not_runnable ans w
          else ans = Done \<and>
            w = v(b \<mapsto> (the (v b))\<lparr>rs_wake := wake_none, rs_state := ts_receive_blocked\<rparr>))"
| "rdv_trans (Deliver_waiting_receiver a b) v ans w = rdv_deliver a b v ans w"
| "rdv_trans (Accept_sender b a) v ans w =
     (case rdv_pair_error v b a of Some e \<Rightarrow> rdv_refuses v e ans w
      | None \<Rightarrow>
          if rs_state (the (v b)) \<noteq> ts_ready then rdv_refuses v rz_not_runnable ans w
          else if rs_state (the (v a)) \<noteq> ts_send_blocked \<or> rs_partner (the (v a)) \<noteq> b
          then rdv_refuses v rz_not_waiting_on_peer ans w
          else ans = Done \<and> w = v(b \<mapsto> (the (v b))\<lparr>rs_wake := wake_none\<rparr>,
                                  a \<mapsto> (the (v a))\<lparr>rs_state := ts_reply_blocked\<rparr>))"
| "rdv_trans (Cancel_receive b) v ans w = rdv_wake_receiver wake_endpoint_retired b v ans w"
| "rdv_trans (Expire_receive b) v ans w = rdv_wake_receiver wake_deadline_expired b v ans w"
| "rdv_trans (Take_deadline_expiry b) v ans w =
     (case rdv_self_error v b of Some e \<Rightarrow> rdv_refuses v e ans w
      | None \<Rightarrow>
          if rs_wake (the (v b)) \<noteq> wake_deadline_expired then ans = Expired False \<and> w = v
          else ans = Expired True \<and> w = v(b \<mapsto> (the (v b))\<lparr>rs_wake := wake_none\<rparr>))"
| "rdv_trans (Cancel_call a b) v ans w =
     (if a = 0 \<or> b = 0 then rdv_refuses v rz_invalid_thread_id ans w
      else if v a = None \<or> v b = None then rdv_refuses v rz_unknown_thread ans w
      else if rs_partner (the (v a)) \<noteq> b \<or>
              rs_state (the (v a)) \<notin> {ts_send_blocked, ts_reply_blocked}
        then rdv_refuses v rz_not_waiting_on_peer ans w
      else ans = Done \<and> w = v
        (a \<mapsto> (the (v a))\<lparr>rs_state := ts_ready, rs_partner := 0, rs_wake := wake_endpoint_retired\<rparr>,
         b \<mapsto> (if rs_state (the (v b)) = ts_ready \<and> rs_partner (the (v b)) = a
               then (the (v b))\<lparr>rs_partner := 0\<rparr> else the (v b))))"

fun rdv_run :: "rdv_state \<Rightarrow> rdv_call list \<Rightarrow> rdv_answer list \<Rightarrow> rdv_state \<Rightarrow> bool" where
  "rdv_run v [] [] w \<longleftrightarrow> w = v"
| "rdv_run v (c # cs) (a # as) w \<longleftrightarrow> (\<exists>u. rdv_trans c v a u \<and> rdv_run u cs as w)"
| "rdv_run v _ _ w \<longleftrightarrow> False"

section \<open>Counting threads\<close>

lemma rz_filter_card:
  assumes "rz_ok r"
  shows "length (filter (\<lambda>s. rs_occupied s \<and> P s) (rz_slots r)) =
    card {u. \<exists>s. rz_view r u = Some s \<and> P s}"
proof -
  have wf: "slot_wf rs_occupied rs_thread 0 (rz_slots r)"
    using assms by (simp add: rz_ok_def slot_ok_def)
  let ?I = "{i. i < length (rz_slots r) \<and> rs_occupied (rz_at r i) \<and> P (rz_at r i)}"
  have found: "rz_find r (rs_thread (rz_at r i)) = Some i" if "i \<in> ?I" for i
    using that wf by (simp add: rz_find_def rzt.find_iff)
  have "inj_on (\<lambda>i. rs_thread (rz_at r i)) ?I"
    by (rule inj_onI) (metis (no_types, lifting) found option.inject)
  moreover have "(\<lambda>i. rs_thread (rz_at r i)) ` ?I = {u. \<exists>s. rz_view r u = Some s \<and> P s}" (is "?l = ?r")
  proof (intro set_eqI iffI)
    fix u assume "u \<in> ?l"
    then show "u \<in> ?r" using found rz_find_Some by blast
  next
    fix u assume "u \<in> ?r"
    then obtain s where s: "rz_view r u = Some s" "P s" by blast
    then obtain i where i: "rz_find r u = Some i" "rz_at r i = s" using rz_view_find by blast
    with rz_at_fields [OF i(1)] s show "u \<in> ?l" by auto
  qed
  ultimately have "card ?I = card {u. \<exists>s. rz_view r u = Some s \<and> P s}"
    using card_image [of "\<lambda>i. rs_thread (rz_at r i)" ?I] by simp
  then show ?thesis by (simp add: length_filter_conv_card)
qed

lemma rz_full_card:
  assumes "rz_ok r"
  shows "first_index (\<lambda>s. \<not> rs_occupied s) (rz_slots r) = None \<longleftrightarrow> 64 \<le> card (dom (rz_view r))"
proof -
  have "card (dom (rz_view r)) = length (filter rs_occupied (rz_slots r))"
    using rz_filter_card [OF assms, of "\<lambda>_. True"] by (simp add: dom_def)
  moreover have "length (rz_slots r) = 64" using assms by (simp add: rz_ok_def slot_ok_def)
  ultimately show ?thesis
    using rzt.full_iff [of "rz_slots r"] length_filter_le [of rs_occupied "rz_slots r"] by simp
qed

lemma rz_released_card:
  assumes "rz_ok r"
  shows "length (filter (rz_released_by t) (rz_slots r)) = card (rdv_blocked_on (rz_view r) t)"
proof -
  let ?P = "\<lambda>s. rs_thread s \<noteq> t \<and> rs_partner s = t \<and>
    rs_state s \<in> {ts_send_blocked, ts_reply_blocked, ts_receive_blocked}"
  have "rz_released_by t = (\<lambda>s. rs_occupied s \<and> ?P s)" by (auto simp: rz_released_by_def fun_eq_iff)
  moreover have "{u. \<exists>s. rz_view r u = Some s \<and> ?P s} = rdv_blocked_on (rz_view r) t"
    using rz_view_SomeD by (fastforce simp: rdv_blocked_on_def)
  ultimately show ?thesis using rz_filter_card [OF assms, of ?P] by simp
qed

section \<open>Each method is its protocol step\<close>

definition rdv_simulates :: "rdv_call \<Rightarrow> Rendezvous \<Rightarrow> bool" where
  "rdv_simulates c r \<longleftrightarrow>
     rdv_trans c (rz_view r) (fst (rz_exec c r)) (rz_view (snd (rz_exec c r)))"

lemma rdv_unit_simps [simp]:
  "rdv_unit (Inl e, r) = (Refused e, r)" "rdv_unit (Inr x, r) = (Done, r)"
  "rdv_value f (Inl e, r) = (Refused e, r)" "rdv_value f (Inr y, r) = (f y, r)"
  by (simp_all add: rdv_unit_def rdv_value_def)

lemma rdv_refuses_self [simp]: "rdv_refuses v e (Refused e') v \<longleftrightarrow> e' = e"
  by (auto simp: rdv_refuses_def)

lemmas rdv_sim_simps = rdv_simulates_def rdv_pair_error_def rdv_self_error_def rz_find_None rz_at_fields

lemma rdv_sim_create: "rz_ok r \<Longrightarrow> rdv_simulates (Create_thread t p) r"
  "rz_ok r \<Longrightarrow> rdv_simulates (Create_admitted_thread t p) r"
  using rz_create_sim(2) [of r t _ _ ts_ready p] rz_create_sim(2) [of r t _ _ ts_admitted p]
    rz_full_card [of r]
  by (auto simp: rdv_sim_simps rdv_create_def rz_create_thread_def rz_create_admitted_thread_def
      rdv_created_def split: option.splits)

lemma rdv_sim_start: "rz_ok r \<Longrightarrow> rdv_simulates (Start_thread t) r"
  using rz_put_ok(2) [of r t] rz_find_None [of r t]
  by (auto simp: rdv_sim_simps rz_start_thread_def split: option.splits)

lemma rdv_sim_take: "rz_ok r \<Longrightarrow> rdv_simulates (Take_deadline_expiry b) r"
  using rz_put_ok(2) [of r b] rz_find_None [of r b]
  by (auto simp: rdv_sim_simps rz_take_deadline_expiry_def split: option.splits)

lemma rdv_sim_wake: "rz_ok r \<Longrightarrow> rdv_simulates (Cancel_receive b) r"
  "rz_ok r \<Longrightarrow> rdv_simulates (Expire_receive b) r"
  using rz_put_ok(2) [of r b] rz_find_None [of r b]
  by (auto simp: rdv_sim_simps rz_cancel_receive_def rz_expire_receive_def rdv_wake_receiver_def
      rdv_idle_receiver_def split: option.splits)

lemma rdv_sim_wait: "rz_ok r \<Longrightarrow> rdv_simulates (Wait_receive b) r"
  using rz_put_ok(2) [of r b] rz_find_None [of r b]
  by (auto simp: rdv_sim_simps rz_wait_receive_def split: option.splits)

lemma rdv_sim_reply: "rz_ok r \<Longrightarrow> rdv_simulates (Reply b a) r"
  using rz_put_ok(2) [of r a] rz_find_None [of r a] rz_find_None [of r b]
  by (auto simp: rdv_sim_simps rz_reply_def split: option.splits)

lemma rdv_sim_block_send: "rz_ok r \<Longrightarrow> rdv_simulates (Block_send a b) r"
  using rz_put_ok(2) [of r a] rz_find_None [of r a] rz_find_None [of r b]
  by (auto simp: rdv_sim_simps rz_block_send_def rdv_call_send_def split: option.splits)

lemma rdv_sim_deliver: "rz_ok r \<Longrightarrow> rdv_simulates (Deliver_waiting_receiver a b) r"
  using rz_put_put(2) [of r a _ b] rz_find_None [of r a] rz_find_None [of r b]
  by (auto simp: rdv_sim_simps rz_deliver_waiting_receiver_def rdv_deliver_def rdv_idle_receiver_def
      split: option.splits)

lemma rdv_sim_accept: "rz_ok r \<Longrightarrow> rdv_simulates (Accept_sender b a) r"
  using rz_put_put(2) [of r b _ a] rz_find_None [of r a] rz_find_None [of r b]
  by (auto simp: rdv_sim_simps rz_accept_sender_def split: option.splits)

lemma rdv_sim_send:
  assumes "rz_ok r"
  shows "rdv_simulates (Send a b) r"
proof -
  have "rz_send r a b = (if rdv_idle_receiver (rz_view r) b
      then rz_deliver_waiting_receiver r a b else rz_block_send r a b)"
    using rz_find_None [of r b] by (auto simp: rz_send_def rdv_idle_receiver_def rz_at_fields split: option.splits)
  with rdv_sim_deliver [OF assms, of a b] rdv_sim_block_send [OF assms, of a b] show ?thesis
    by (simp add: rdv_simulates_def)
qed

lemma rdv_sim_exit:
  assumes "rz_ok r"
  shows "rdv_simulates (Exit_thread t) r"
proof (cases "rz_find r t")
  case None
  then show ?thesis by (simp add: rdv_simulates_def rz_exit_thread_def rz_find_None [symmetric])
next
  case (Some i)
  have released: "rz_released_by t s \<longleftrightarrow> u \<in> rdv_blocked_on (rz_view r) t"
    if "rz_view r u = Some s" "u \<noteq> t" for u s
    using that rz_view_SomeD [OF that(1)] by (auto simp: rdv_blocked_on_def rz_released_by_def)
  have "fst (rz_exit_thread r t) = Inr (of_nat (card (rdv_blocked_on (rz_view r) t)))"
    using Some rz_released_card [OF assms, of t] by (simp add: rz_exit_thread_def Let_def)
  moreover have "rz_view (snd (rz_exit_thread r t)) =
      (\<lambda>u. if u = t then None
           else if u \<in> rdv_blocked_on (rz_view r) t
             then Some ((the (rz_view r u))\<lparr>rs_state := ts_ready, rs_partner := 0,
                                            rs_wake := wake_peer_exited\<rparr>)
           else rz_view r u)"
    unfolding rz_exit_thread_ok(2) [OF assms Some]
  proof (rule ext, goal_cases)
    case (1 u)
    show ?case
    proof (cases "rz_view r u")
      case None
      then have "u \<notin> rdv_blocked_on (rz_view r) t" by (simp add: rdv_blocked_on_def)
      with None show ?thesis by simp
    next
      case (Some s)
      with released [of u s] show ?thesis by simp
    qed
  qed
  ultimately show ?thesis
    using rz_at_fields(3) [OF Some] by (cases "rz_exit_thread r t") (simp add: rdv_simulates_def)
qed

lemma rdv_sim_cancel_call:
  assumes "rz_ok r" "rdv_inv (rz_view r)"
  shows "rdv_simulates (Cancel_call a b) r"
proof (cases "a = 0 \<or> b = 0 \<or> rz_find r a = None \<or> rz_find r b = None")
  case True
  then show ?thesis
    using rz_find_None [of r a] rz_find_None [of r b]
    by (cases "rz_find r a"; cases "rz_find r b") (auto simp: rdv_simulates_def rz_cancel_call_def)
next
  case False
  then obtain i j where ij: "rz_find r a = Some i" "rz_find r b = Some j" "a \<noteq> 0" "b \<noteq> 0" by auto
  note at = rz_at_fields [OF ij(1)] rz_at_fields [OF ij(2)]
  show ?thesis
  proof (cases "rs_partner (rz_at r i) = b \<and> rs_state (rz_at r i) \<in> {ts_send_blocked, ts_reply_blocked}")
    case waits: True
    have ab: "a \<noteq> b"
      using waits assms(2) at(3) by (auto simp: rdv_slot_ok_def dest!: rdv_invD)
    have neq: "i \<noteq> j" using rz_find_distinct ij ab by blast
    let ?s = "(rz_at r i)\<lparr>rs_state := ts_ready, rs_partner := 0, rs_wake := wake_endpoint_retired\<rparr>"
    let ?d = "if rs_state (rz_at r j) = ts_ready \<and> rs_partner (rz_at r j) = a
              then (rz_at r j)\<lparr>rs_partner := 0\<rparr> else rz_at r j"
    have "rz_cancel_call r a b = (Inr (), r\<lparr>rz_slots := (rz_slots r)[i := ?s, j := ?d]\<rparr>)"
      using ij waits neq
      by (auto simp: rz_cancel_call_def rz_waits_on_def Let_def list_update_swap [of i j])
    moreover have "rz_view (r\<lparr>rz_slots := (rz_slots r)[i := ?s, j := ?d]\<rparr>) =
        (rz_view r)(a \<mapsto> ?s, b \<mapsto> ?d)"
      using rz_put_put(2) [OF assms(1) ij(1,2) ab] at by simp
    ultimately show ?thesis using at ij waits by (simp add: rdv_simulates_def)
  next
    case False
    then have "\<not> rz_waits_on (rz_at r i) b" by (auto simp: rz_waits_on_def)
    then show ?thesis using ij at False by (simp add: rdv_simulates_def rz_cancel_call_def)
  qed
qed

text \<open>The slot that the search of a receive finds is a sender of the protocol.\<close>

lemma rz_first_sender:
  assumes "rz_ok r" "rz_find r b = Some i" "rs_state (rz_at r i) = ts_ready"
    and "r1 = rz_put r i ((rz_at r i)\<lparr>rs_wake := wake_none\<rparr>)"
    and "P = (\<lambda>s. rs_occupied s \<and> rs_state s = ts_send_blocked \<and> rs_partner s = b)"
  shows "first_index P (rz_slots r1) = None \<longleftrightarrow>
      {a. \<exists>s. rz_view r a = Some s \<and> rs_state s = ts_send_blocked \<and> rs_partner s = b} = {}"
    and "first_index P (rz_slots r1) = Some j \<Longrightarrow> rz_find r (rs_thread (rz_at r1 j)) = Some j \<and>
      j \<noteq> i \<and> rz_at r1 j = rz_at r j \<and> rs_state (rz_at r j) = ts_send_blocked \<and> rs_partner (rz_at r j) = b"
proof -
  have wf: "slot_wf rs_occupied rs_thread 0 (rz_slots r)"
    using assms(1) by (simp add: rz_ok_def slot_ok_def)
  note at = rz_at_fields [OF assms(2)]
  have hit: "P (rz_at r1 k) \<longleftrightarrow> k \<noteq> i \<and> P (rz_at r k)" if "k < length (rz_slots r)" for k
    using that at assms(3-5) by (cases "k = i") auto
  show two: "rz_find r (rs_thread (rz_at r1 j)) = Some j \<and> j \<noteq> i \<and> rz_at r1 j = rz_at r j \<and>
      rs_state (rz_at r j) = ts_send_blocked \<and> rs_partner (rz_at r j) = b"
    if j: "first_index P (rz_slots r1) = Some j" for j
  proof -
    have less: "j < length (rz_slots r)" and "P (rz_at r1 j)"
      using first_index_SomeD [OF j] assms(4) by auto
    then have "j \<noteq> i" "P (rz_at r j)" using hit by auto
    then show ?thesis using less wf assms(4,5) by (simp add: rz_find_def rzt.find_iff)
  qed
  show "first_index P (rz_slots r1) = None \<longleftrightarrow>
      {a. \<exists>s. rz_view r a = Some s \<and> rs_state s = ts_send_blocked \<and> rs_partner s = b} = {}" (is "?none \<longleftrightarrow> ?S = {}")
  proof
    assume none: ?none
    have False if a: "a \<in> ?S" for a
    proof -
      obtain s where s: "rz_view r a = Some s" "rs_state s = ts_send_blocked" "rs_partner s = b"
        using a by blast
      then obtain k where k: "rz_find r a = Some k" "rz_at r k = s" using rz_view_find by blast
      note atk = rz_at_fields [OF k(1)]
      have "k \<noteq> i" using s k assms(3) by auto
      then have "P (rz_at r1 k)" using hit [OF atk(4)] s k atk assms(5) by simp
      moreover have "rz_at r1 k \<in> set (rz_slots r1)" using atk(4) assms(4) by simp
      ultimately show False using none by (auto simp: first_index_None)
    qed
    then show "?S = {}" by blast
  next
    assume empty: "?S = {}"
    show ?none
    proof (cases "first_index P (rz_slots r1)")
      case (Some j)
      with two [OF Some] empty show ?thesis using rz_find_Some by blast
    qed
  qed
qed

lemma rdv_sim_receive:
  assumes ok: "rz_ok r"
  shows "rdv_simulates (Receive b) r"
proof (cases "b = 0 \<or> rz_find r b = None \<or>
    (\<exists>i. rz_find r b = Some i \<and> rs_state (rz_at r i) \<noteq> ts_ready)")
  case True
  then show ?thesis
    by (auto simp: rdv_sim_simps rdv_receives_def rz_receive_def split: option.split)
next
  case False
  then obtain i where i: "rz_find r b = Some i" "rs_state (rz_at r i) = ts_ready" "b \<noteq> 0" by auto
  let ?d = "(rz_at r i)\<lparr>rs_wake := wake_none\<rparr>"
  let ?r1 = "rz_put r i ?d"
  let ?P = "\<lambda>s. rs_occupied s \<and> rs_state s = ts_send_blocked \<and> rs_partner s = b"
  note at = rz_at_fields [OF i(1)]
  have ok1: "rz_ok ?r1" and v1: "rz_view ?r1 = (rz_view r)(b \<mapsto> ?d)"
    using rz_put_ok [OF ok i(1)] at by simp_all
  note sender = rz_first_sender [OF ok i(1,2) refl refl]
  have goal: "rdv_simulates (Receive b) r \<longleftrightarrow>
      rdv_receives b (rz_view r) (fst (rdv_value Caller (rz_receive r b))) (rz_view (snd (rz_receive r b)))"
    by (simp add: rdv_simulates_def rdv_value_def)
  show ?thesis
  proof (cases "rs_partner (rz_at r i) = 0")
    case False
    then have "rz_receive r b = (Inr (rs_partner (rz_at r i)), rz_put r i (?d\<lparr>rs_partner := 0\<rparr>))"
      using i at(4) by (simp add: rz_receive_def Let_def)
    then show ?thesis
      using rz_put_ok(2) [OF ok i(1), of "?d\<lparr>rs_partner := 0\<rparr>"] at i False
      by (simp add: goal rdv_receives_def rdv_self_error_def)
  next
    case idle: True
    show ?thesis
    proof (cases "first_index ?P (rz_slots ?r1)")
      case None
      let ?w = "?d\<lparr>rs_state := ts_receive_blocked\<rparr>"
      have f1: "rz_find ?r1 b = Some i" using rz_find_put [OF ok i(1), of ?d b] at i(1) by simp
      have "rz_receive r b = (Inr 0, rz_put ?r1 i ?w)"
        using i at(4) None idle f1 by (simp add: rz_receive_def rz_wait_receive_def Let_def)
      moreover have "rz_view (rz_put ?r1 i ?w) = (rz_view r)(b \<mapsto> ?w)"
        using rz_put_ok(2) [OF ok1 f1, of ?w] v1 at by simp
      ultimately show ?thesis
        using sender(1) None at i idle by (simp add: goal rdv_receives_def rdv_self_error_def)
    next
      case (Some j)
      let ?a = "rs_thread (rz_at ?r1 j)"
      note s = sender(2) [OF Some]
      note atj = rz_at_fields [OF conjunct1 [OF s]]
      have ab: "?a \<noteq> b" using s i(1) by auto
      have view: "rz_view ?r1 ?a = Some (rz_at r j)" using v1 ab atj(3) by simp
      note acc = rz_accept_ok [OF ok1, of b ?d ?a "rz_at r j"]
      have "fst (rz_receive r b) = Inr ?a \<and> snd (rz_receive r b) = snd (rz_accept_sender ?r1 b ?a)"
        using i at(4) Some idle acc(1) v1 view ab s
        by (cases "rz_accept_sender ?r1 b ?a") (simp add: rz_receive_def Let_def)
      moreover have "rz_view (snd (rz_accept_sender ?r1 b ?a)) =
          (rz_view r)(b \<mapsto> ?d, ?a \<mapsto> (rz_at r j)\<lparr>rs_state := ts_reply_blocked\<rparr>)"
        using acc(3) v1 view ab s i(2) by simp
      ultimately show ?thesis
        using at i idle atj(3) s
        by (auto simp: goal rdv_receives_def rdv_self_error_def rdv_value_def Let_def)
    qed
  qed
qed

lemma rdv_sim:
  assumes "rz_inv r"
  shows "rdv_simulates c r"
  using assms
  by (cases c) (simp_all add: rz_inv_def rdv_sim_create rdv_sim_start rdv_sim_exit rdv_sim_send
      rdv_sim_receive rdv_sim_reply rdv_sim_block_send rdv_sim_wait rdv_sim_deliver rdv_sim_accept
      rdv_sim_wake rdv_sim_take rdv_sim_cancel_call)

section \<open>Runs\<close>

lemma rz_exec_method: "rz_method r (snd (rz_exec c r))"
  by (cases c) (simp_all add: rdv_unit_def rdv_value_def rz_method.intros)

lemma rdv_run_sim:
  "rz_inv r \<Longrightarrow> rdv_run (rz_view r) cs (fst (rz_run cs r)) (rz_view (snd (rz_run cs r)))"
proof (induction cs arbitrary: r)
  case Nil
  then show ?case by simp
next
  case (Cons c cs)
  let ?r1 = "snd (rz_exec c r)"
  have "rz_inv ?r1" using rz_method_inv [OF rz_exec_method] Cons.prems by blast
  note ih = Cons.IH [OF this]
  have "rdv_trans c (rz_view r) (fst (rz_exec c r)) (rz_view ?r1)"
    using rdv_sim [OF Cons.prems] by (simp add: rdv_simulates_def)
  with ih show ?case by (auto simp: split_beta Let_def)
qed

text \<open>C33: The rendezvous refines the protocol call by call.  Whatever sequence of its methods is
  called, with whatever arguments, starting from the empty table, the answers (every error code and
  every returned value) and the threads' entries are those of a run of the protocol that takes, for
  each call, the protocol's step of that same call: each call is refused, with its error and nothing
  changed, exactly under the protocol's conditions, and otherwise changes exactly the entries the
  protocol changes.  The protocol leaves open only which of several blocked senders a receive accepts.
  State, partner and wake reason are reported from the protocol's entry.\<close>

theorem rz_refines_protocol:
  "case rz_run calls rz_empty of (answers, r) \<Rightarrow>
     rdv_run Map.empty calls answers (rz_view r) \<and>
     rz_state_of r t =
       (case rz_view r t of None \<Rightarrow> Inl rz_unknown_thread | Some s \<Rightarrow> Inr (rs_state s)) \<and>
     rz_partner_of r t =
       (case rz_view r t of None \<Rightarrow> Inl rz_unknown_thread | Some s \<Rightarrow> Inr (rs_partner s)) \<and>
     rz_wake_reason_of r t =
       (case rz_view r t of None \<Rightarrow> Inl rz_unknown_thread | Some s \<Rightarrow> Inr (rs_wake s))"
proof -
  have view: "rz_view r t = map_option (rz_at r) (rz_find r t)" for r
    by (cases "rz_find r t") (simp_all add: rz_find_None [symmetric] rz_find_Some)
  show ?thesis
    using rdv_run_sim [OF rz_inv_empty, of calls]
    by (auto simp: rz_view_empty view rz_state_of_def rz_partner_of_def rz_wake_reason_of_def
        split: prod.split option.split)
qed

end
