(* ===== verification/Address_Space_Epoch.thy ===== *)
theory Address_Space_Epoch
  imports Rendezvous
begin

text \<open>
  The lifetime authority for address spaces and their ASIDs, and the identities built on it:
  address_space_epoch.hpp/.cpp and execution_authority.hpp of src/core/oskernel.  One definition
  per method of \<open>class AddressSpaceEpochAuthority\<close>, prefixed \<open>ep_\<close>.  The lemmas show the
  invariant of the slot array and its two counters, that an ASID is quarantined until its
  retirement completes, and that an identity which stops resolving never resolves again (the
  contract \<open>identity_authority\<close>, interpreted here).
\<close>

section \<open>Data\<close>

type_synonym AddressSpaceSlot = u16
type_synonym AddressSpaceGeneration = u32
type_synonym AddressSpaceAsid = u16

abbreviation max_address_space_epochs :: nat where "max_address_space_epochs \<equiv> 63"
abbreviation kernel_reserved_asid :: AddressSpaceAsid where "kernel_reserved_asid \<equiv> 0"

abbreviation "ep_exhausted \<equiv> kernel_error 1"
abbreviation "ep_stale \<equiv> kernel_error 2"
abbreviation "ep_not_active \<equiv> kernel_error 3"
abbreviation "ep_not_retiring \<equiv> kernel_error 4"
abbreviation "ep_generation_exhausted \<equiv> kernel_error 5"

record AddressSpaceIdentity =
  asi_slot :: AddressSpaceSlot
  asi_generation :: AddressSpaceGeneration

definition no_identity :: AddressSpaceIdentity where
  "no_identity = \<lparr>asi_slot = 0, asi_generation = 0\<rparr>"

definition identity_valid :: "AddressSpaceIdentity \<Rightarrow> bool" where
  "identity_valid i \<longleftrightarrow> unat (asi_slot i) < max_address_space_epochs \<and> asi_generation i \<noteq> 0"

record AddressSpaceEpoch =
  ae_slot :: AddressSpaceSlot
  ae_generation :: AddressSpaceGeneration
  ae_asid :: AddressSpaceAsid

definition epoch_valid :: "AddressSpaceEpoch \<Rightarrow> bool" where
  "epoch_valid e \<longleftrightarrow> unat (ae_slot e) < max_address_space_epochs \<and> ae_generation e \<noteq> 0 \<and>
     ae_asid e \<noteq> kernel_reserved_asid"

definition epoch_identity :: "AddressSpaceEpoch \<Rightarrow> AddressSpaceIdentity" where
  "epoch_identity e =
     (if \<not> epoch_valid e then no_identity
      else \<lparr>asi_slot = ae_slot e, asi_generation = ae_generation e\<rparr>)"

record RetiringAddressSpaceEpoch =
  re_epoch :: AddressSpaceEpoch

definition retiring_valid :: "RetiringAddressSpaceEpoch \<Rightarrow> bool" where
  "retiring_valid r = epoch_valid (re_epoch r)"

record ExecutionAuthority =
  ea_thread :: ThreadId
  ea_space :: AddressSpaceIdentity

definition no_authority :: ExecutionAuthority where
  "no_authority = \<lparr>ea_thread = invalid_thread, ea_space = no_identity\<rparr>"

definition authority_valid :: "ExecutionAuthority \<Rightarrow> bool" where
  "authority_valid a \<longleftrightarrow> ea_thread a \<noteq> invalid_thread \<and> identity_valid (ea_space a)"

datatype EpState = ep_free | ep_active_state | ep_retiring_state

record EpSlot =
  es_generation :: AddressSpaceGeneration
  es_state :: EpState

record AddressSpaceEpochAuthority =
  ep_slots :: "EpSlot list"
  ep_active_n :: size_t
  ep_retiring_n :: size_t

definition ep_blank :: EpSlot where
  "ep_blank = \<lparr>es_generation = 0, es_state = ep_free\<rparr>"

definition ep_empty :: AddressSpaceEpochAuthority where
  "ep_empty = \<lparr>ep_slots = replicate max_address_space_epochs ep_blank,
     ep_active_n = 0, ep_retiring_n = 0\<rparr>"

section \<open>Operations\<close>

definition asid_for_slot :: "nat \<Rightarrow> AddressSpaceAsid" where
  "asid_for_slot index = of_nat (index + 1)"

definition ep_acquire ::
  "AddressSpaceEpochAuthority \<Rightarrow> AddressSpaceEpoch result \<times> AddressSpaceEpochAuthority" where
  "ep_acquire a =
     (case first_index (\<lambda>s. es_state s = ep_free) (ep_slots a) of
        None \<Rightarrow> (Inl ep_exhausted, a)
      | Some i \<Rightarrow>
          let slot = ep_slots a ! i in
          if es_generation slot = - 1 then (Inl ep_generation_exhausted, a)
          else
            let slot = slot\<lparr>es_generation := es_generation slot + 1\<rparr> in
            if es_generation slot = 0
            then (Inl ep_generation_exhausted, a\<lparr>ep_slots := (ep_slots a)[i := slot]\<rparr>)
            else (Inr \<lparr>ae_slot = of_nat i, ae_generation = es_generation slot,
                       ae_asid = asid_for_slot i\<rparr>,
                  a\<lparr>ep_slots := (ep_slots a)[i := slot\<lparr>es_state := ep_active_state\<rparr>],
                    ep_active_n := ep_active_n a + 1\<rparr>))"

definition ep_resolve ::
  "AddressSpaceEpochAuthority \<Rightarrow> AddressSpaceIdentity \<Rightarrow> AddressSpaceEpoch result" where
  "ep_resolve a i =
     (if \<not> identity_valid i \<or> unat (asi_slot i) \<ge> length (ep_slots a) then Inl ep_stale
      else let slot = ep_slots a ! unat (asi_slot i) in
        if es_state slot \<noteq> ep_active_state \<or> es_generation slot \<noteq> asi_generation i
        then Inl ep_stale
        else Inr \<lparr>ae_slot = asi_slot i, ae_generation = es_generation slot,
                  ae_asid = asid_for_slot (unat (asi_slot i))\<rparr>)"

definition ep_active :: "AddressSpaceEpochAuthority \<Rightarrow> AddressSpaceEpoch \<Rightarrow> bool" where
  "ep_active a e =
     (if \<not> epoch_valid e \<or> unat (ae_slot e) \<ge> length (ep_slots a) then False
      else let slot = ep_slots a ! unat (ae_slot e) in
        es_state slot = ep_active_state \<and> es_generation slot = ae_generation e \<and>
        ae_asid e = asid_for_slot (unat (ae_slot e)))"

definition ep_retiring :: "AddressSpaceEpochAuthority \<Rightarrow> RetiringAddressSpaceEpoch \<Rightarrow> bool" where
  "ep_retiring a r =
     (let e = re_epoch r in
      if \<not> epoch_valid e \<or> unat (ae_slot e) \<ge> length (ep_slots a) then False
      else let slot = ep_slots a ! unat (ae_slot e) in
        es_state slot = ep_retiring_state \<and> es_generation slot = ae_generation e \<and>
        ae_asid e = asid_for_slot (unat (ae_slot e)))"

definition ep_begin_retire ::
  "AddressSpaceEpochAuthority \<Rightarrow> AddressSpaceEpoch \<Rightarrow>
   RetiringAddressSpaceEpoch result \<times> AddressSpaceEpochAuthority" where
  "ep_begin_retire a e =
     (if \<not> epoch_valid e \<or> unat (ae_slot e) \<ge> length (ep_slots a) then (Inl ep_stale, a)
      else let i = unat (ae_slot e); slot = ep_slots a ! i in
        if es_generation slot \<noteq> ae_generation e \<or> ae_asid e \<noteq> asid_for_slot i
        then (Inl ep_stale, a)
        else if es_state slot \<noteq> ep_active_state then (Inl ep_not_active, a)
        else (Inr \<lparr>re_epoch = e\<rparr>,
              a\<lparr>ep_slots := (ep_slots a)[i := slot\<lparr>es_state := ep_retiring_state\<rparr>],
                ep_active_n := ep_active_n a - 1, ep_retiring_n := ep_retiring_n a + 1\<rparr>))"

definition ep_complete_retire ::
  "AddressSpaceEpochAuthority \<Rightarrow> RetiringAddressSpaceEpoch \<Rightarrow>
   unit result \<times> AddressSpaceEpochAuthority" where
  "ep_complete_retire a r =
     (if \<not> ep_retiring a r then (Inl ep_not_retiring, a)
      else let i = unat (ae_slot (re_epoch r)) in
        (Inr (), a\<lparr>ep_slots := (ep_slots a)[i := (ep_slots a ! i)\<lparr>es_state := ep_free\<rparr>],
                   ep_retiring_n := ep_retiring_n a - 1\<rparr>))"

definition ep_active_count :: "AddressSpaceEpochAuthority \<Rightarrow> size_t" where
  "ep_active_count a = ep_active_n a"

definition ep_retiring_count :: "AddressSpaceEpochAuthority \<Rightarrow> size_t" where
  "ep_retiring_count a = ep_retiring_n a"

section \<open>Invariant\<close>

definition ep_count :: "EpState \<Rightarrow> AddressSpaceEpochAuthority \<Rightarrow> nat" where
  "ep_count st a = length (filter (\<lambda>s. es_state s = st) (ep_slots a))"

definition ep_ok :: "AddressSpaceEpochAuthority \<Rightarrow> bool" where
  "ep_ok a \<longleftrightarrow> length (ep_slots a) = max_address_space_epochs \<and>
     ep_active_n a = of_nat (ep_count ep_active_state a) \<and>
     ep_retiring_n a = of_nat (ep_count ep_retiring_state a) \<and>
     (\<forall>i < max_address_space_epochs. es_state (ep_slots a ! i) \<noteq> ep_free \<longrightarrow>
        es_generation (ep_slots a ! i) \<noteq> 0)"

text \<open>Every change is one store that moves one slot to another state.\<close>

lemma ep_count_store:
  assumes "i < length (ep_slots a)" "es_state (ep_slots a ! i) \<noteq> es_state s"
  shows "ep_count st (a\<lparr>ep_slots := (ep_slots a)[i := s], ep_active_n := m, ep_retiring_n := n\<rparr>) =
    (if st = es_state s then Suc (ep_count st a)
     else if st = es_state (ep_slots a ! i) then ep_count st a - 1 else ep_count st a)"
  using assms length_filter_update [of i "ep_slots a" "\<lambda>s. es_state s = st" s]
  by (auto simp: ep_count_def split: if_splits)

lemma ep_count_pos:
  "i < length (ep_slots a) \<Longrightarrow> 0 < ep_count (es_state (ep_slots a ! i)) a"
  by (auto simp: ep_count_def filter_empty_conv)

lemma ep_store_ok:
  assumes "ep_ok a" "i < max_address_space_epochs" "es_state (ep_slots a ! i) \<noteq> es_state s"
    and "es_state s \<noteq> ep_free \<Longrightarrow> es_generation s \<noteq> 0"
  shows "ep_ok (a\<lparr>ep_slots := (ep_slots a)[i := s],
     ep_active_n := (if es_state s = ep_active_state then ep_active_n a + 1
        else if es_state (ep_slots a ! i) = ep_active_state then ep_active_n a - 1 else ep_active_n a),
     ep_retiring_n := (if es_state s = ep_retiring_state then ep_retiring_n a + 1
        else if es_state (ep_slots a ! i) = ep_retiring_state then ep_retiring_n a - 1
        else ep_retiring_n a)\<rparr>)"
proof -
  have len: "i < length (ep_slots a)" using assms(1,2) by (simp add: ep_ok_def)
  have pos: "(of_nat (n - 1) :: size_t) = of_nat n - 1" if "0 < n" for n :: nat
    using that by (simp add: of_nat_diff)
  show ?thesis
    using assms ep_count_pos [OF len]
    unfolding ep_ok_def
    by (auto simp: ep_count_store [OF len assms(3)] pos nth_list_update)
qed

lemma ep_ok_empty: "ep_ok ep_empty"
  by (simp add: ep_ok_def ep_empty_def ep_count_def ep_blank_def)

lemma unat_slot [simp]: "i < max_address_space_epochs \<Longrightarrow> unat (of_nat i :: u16) = i"
  by (simp add: unat_of_nat take_bit_nat_eq_self)

lemma asid_for_slot_eq:
  "\<lbrakk>i < max_address_space_epochs; j < max_address_space_epochs\<rbrakk> \<Longrightarrow>
   asid_for_slot i = asid_for_slot j \<longleftrightarrow> i = j"
  by (simp add: asid_for_slot_def flip: of_nat_Suc)
     (auto dest!: arg_cong [of _ _ unat] simp: unat_of_nat take_bit_nat_eq_self simp del: of_nat_Suc)

lemma asid_for_slot_nonzero: "i < max_address_space_epochs \<Longrightarrow> asid_for_slot i \<noteq> kernel_reserved_asid"
proof -
  assume "i < max_address_space_epochs"
  then have "unat (asid_for_slot i) = i + 1"
    by (simp add: asid_for_slot_def unat_of_nat take_bit_nat_eq_self del: of_nat_Suc flip: of_nat_Suc)
  then show ?thesis by auto
qed

section \<open>What each operation does\<close>

lemma ep_acquire_cases:
  assumes "ep_ok a"
  obtains (full) "ep_acquire a = (Inl ep_exhausted, a)"
      "\<forall>s \<in> set (ep_slots a). es_state s \<noteq> ep_free"
    | (worn) i where "ep_acquire a = (Inl ep_generation_exhausted, a)"
      "i < max_address_space_epochs" "es_state (ep_slots a ! i) = ep_free"
      "es_generation (ep_slots a ! i) = - 1"
    | (fresh) i where "i < max_address_space_epochs" "es_state (ep_slots a ! i) = ep_free"
      "es_generation (ep_slots a ! i) \<noteq> - 1"
      "ep_acquire a = (Inr \<lparr>ae_slot = of_nat i, ae_generation = es_generation (ep_slots a ! i) + 1,
           ae_asid = asid_for_slot i\<rparr>,
         a\<lparr>ep_slots := (ep_slots a)[i := \<lparr>es_generation = es_generation (ep_slots a ! i) + 1,
             es_state = ep_active_state\<rparr>], ep_active_n := ep_active_n a + 1\<rparr>)"
proof (cases "first_index (\<lambda>s. es_state s = ep_free) (ep_slots a)")
  case None
  then have "\<forall>s \<in> set (ep_slots a). es_state s \<noteq> ep_free" by (simp add: first_index_None)
  with None full show ?thesis by (simp add: ep_acquire_def)
next
  case (Some i)
  then have i: "i < max_address_space_epochs" "es_state (ep_slots a ! i) = ep_free"
    using assms by (auto dest!: first_index_SomeD simp: ep_ok_def)
  show ?thesis
  proof (cases "es_generation (ep_slots a ! i) = - 1")
    case True
    with Some i worn show ?thesis by (simp add: ep_acquire_def)
  next
    case False
    then have "es_generation (ep_slots a ! i) + 1 \<noteq> 0" by (metis eq_neg_iff_add_eq_0)
    with Some False have "ep_acquire a =
        (Inr \<lparr>ae_slot = of_nat i, ae_generation = es_generation (ep_slots a ! i) + 1,
           ae_asid = asid_for_slot i\<rparr>,
         a\<lparr>ep_slots := (ep_slots a)[i := \<lparr>es_generation = es_generation (ep_slots a ! i) + 1,
             es_state = ep_active_state\<rparr>], ep_active_n := ep_active_n a + 1\<rparr>)"
      by (cases "ep_slots a ! i") (simp add: ep_acquire_def Let_def)
    with fresh i False show ?thesis by blast
  qed
qed

definition ep_names :: "AddressSpaceEpochAuthority \<Rightarrow> EpState \<Rightarrow> AddressSpaceEpoch \<Rightarrow> bool" where
  "ep_names a st e \<longleftrightarrow> epoch_valid e \<and> unat (ae_slot e) < length (ep_slots a) \<and>
     es_state (ep_slots a ! unat (ae_slot e)) = st \<and>
     es_generation (ep_slots a ! unat (ae_slot e)) = ae_generation e \<and>
     ae_asid e = asid_for_slot (unat (ae_slot e))"

lemma ep_active_iff: "ep_active a e \<longleftrightarrow> ep_names a ep_active_state e"
  by (auto simp: ep_active_def ep_names_def Let_def)

lemma ep_retiring_iff: "ep_retiring a r \<longleftrightarrow> ep_names a ep_retiring_state (re_epoch r)"
  by (auto simp: ep_retiring_def ep_names_def Let_def)

lemma ep_begin_retire_cases:
  obtains (refused) e' where "ep_begin_retire a e = (Inl e', a)" "\<not> ep_active a e"
    | (moved) "ep_active a e" "ep_begin_retire a e = (Inr \<lparr>re_epoch = e\<rparr>,
         a\<lparr>ep_slots := (ep_slots a)[unat (ae_slot e) :=
              (ep_slots a ! unat (ae_slot e))\<lparr>es_state := ep_retiring_state\<rparr>],
           ep_active_n := ep_active_n a - 1, ep_retiring_n := ep_retiring_n a + 1\<rparr>)"
proof (cases "ep_active a e")
  case False
  then have "\<exists>e'. ep_begin_retire a e = (Inl e', a)"
    by (auto simp: ep_begin_retire_def ep_active_iff ep_names_def Let_def)
  with False refused show ?thesis by blast
next
  case True
  with moved show ?thesis by (auto simp: ep_begin_retire_def ep_active_iff ep_names_def Let_def)
qed

lemma ep_complete_retire_cases:
  obtains (refused) "ep_complete_retire a r = (Inl ep_not_retiring, a)" "\<not> ep_retiring a r"
    | (moved) "ep_retiring a r" "ep_complete_retire a r = (Inr (),
         a\<lparr>ep_slots := (ep_slots a)[unat (ae_slot (re_epoch r)) :=
              (ep_slots a ! unat (ae_slot (re_epoch r)))\<lparr>es_state := ep_free\<rparr>],
           ep_retiring_n := ep_retiring_n a - 1\<rparr>)"
  by (cases "ep_retiring a r") (auto simp: ep_complete_retire_def Let_def)

inductive ep_method :: "AddressSpaceEpochAuthority \<Rightarrow> AddressSpaceEpochAuthority \<Rightarrow> bool" where
  acquire: "ep_method a (snd (ep_acquire a))"
| begin_retire: "ep_method a (snd (ep_begin_retire a e))"
| complete_retire: "ep_method a (snd (ep_complete_retire a r))"

text \<open>One slot step: what any method does to any single slot.  A slot is untouched, goes on
  to the next generation from free, or loses its state at the same generation.\<close>

definition ep_slot_step :: "EpSlot \<Rightarrow> EpSlot \<Rightarrow> bool" where
  "ep_slot_step s t \<longleftrightarrow> t = s \<or>
     es_state s = ep_free \<and> es_generation s \<noteq> - 1 \<and>
       t = \<lparr>es_generation = es_generation s + 1, es_state = ep_active_state\<rparr> \<or>
     es_state s = ep_active_state \<and> t = s\<lparr>es_state := ep_retiring_state\<rparr> \<or>
     es_state s = ep_retiring_state \<and> t = s\<lparr>es_state := ep_free\<rparr>"

lemma ep_method_inv: "ep_method a b \<Longrightarrow> ep_ok a \<Longrightarrow> ep_ok b"
proof (induction rule: ep_method.induct)
  case (acquire a)
  show ?case using acquire
  proof (cases rule: ep_acquire_cases)
    case (fresh i)
    have "es_generation (ep_slots a ! i) + 1 \<noteq> 0" using fresh(3) by (metis eq_neg_iff_add_eq_0)
    with ep_store_ok [OF acquire fresh(1), of "\<lparr>es_generation = es_generation (ep_slots a ! i) + 1,
        es_state = ep_active_state\<rparr>"] fresh
    show ?thesis by simp
  qed (use acquire in simp_all)
next
  case (begin_retire a e)
  show ?case
  proof (cases rule: ep_begin_retire_cases [of a e])
    case moved
    then have e: "unat (ae_slot e) < max_address_space_epochs"
      "es_state (ep_slots a ! unat (ae_slot e)) = ep_active_state"
      "es_generation (ep_slots a ! unat (ae_slot e)) \<noteq> 0"
      by (auto simp: ep_active_iff ep_names_def epoch_valid_def)
    with ep_store_ok [OF begin_retire e(1),
        of "(ep_slots a ! unat (ae_slot e))\<lparr>es_state := ep_retiring_state\<rparr>"] moved
    show ?thesis by simp
  qed (use begin_retire in simp)
next
  case (complete_retire a r)
  show ?case
  proof (cases rule: ep_complete_retire_cases [of a r])
    case moved
    then have e: "unat (ae_slot (re_epoch r)) < max_address_space_epochs"
      "es_state (ep_slots a ! unat (ae_slot (re_epoch r))) = ep_retiring_state"
      by (auto simp: ep_retiring_iff ep_names_def epoch_valid_def)
    with ep_store_ok [OF complete_retire e(1),
        of "(ep_slots a ! unat (ae_slot (re_epoch r)))\<lparr>es_state := ep_free\<rparr>"] moved
    show ?thesis by simp
  qed (use complete_retire in simp)
qed

lemma ep_method_slot:
  assumes "ep_method a b" "ep_ok a" "i < max_address_space_epochs"
  shows "ep_slot_step (ep_slots a ! i) (ep_slots b ! i)"
  using assms
proof (induction rule: ep_method.induct)
  case (acquire a)
  have len: "length (ep_slots a) = max_address_space_epochs" using acquire by (simp add: ep_ok_def)
  show ?case
    by (cases rule: ep_acquire_cases [OF acquire(1)])
       (use acquire(2) len in \<open>auto simp: ep_slot_step_def nth_list_update\<close>)
next
  case (begin_retire a e)
  show ?case
    by (cases rule: ep_begin_retire_cases [of a e])
       (use begin_retire in \<open>auto simp: ep_slot_step_def nth_list_update ep_ok_def ep_active_iff
          ep_names_def\<close>)
next
  case (complete_retire a r)
  show ?case
    by (cases rule: ep_complete_retire_cases [of a r])
       (use complete_retire in \<open>auto simp: ep_slot_step_def nth_list_update ep_ok_def ep_retiring_iff
          ep_names_def\<close>)
qed

section \<open>Identities never come back\<close>

definition ep_live :: "AddressSpaceEpochAuthority \<Rightarrow> AddressSpaceIdentity \<Rightarrow> bool" where
  "ep_live a i \<longleftrightarrow> is_ok (ep_resolve a i)"

definition ep_spent :: "AddressSpaceEpochAuthority \<Rightarrow> AddressSpaceIdentity \<Rightarrow> bool" where
  "ep_spent a i \<longleftrightarrow> identity_valid i \<and>
     (let s = ep_slots a ! unat (asi_slot i) in
      asi_generation i < es_generation s \<or>
      asi_generation i = es_generation s \<and> es_state s \<noteq> ep_active_state)"

lemma ep_live_iff:
  assumes "ep_ok a"
  shows "ep_live a i \<longleftrightarrow> identity_valid i \<and>
    es_generation (ep_slots a ! unat (asi_slot i)) = asi_generation i \<and>
    es_state (ep_slots a ! unat (asi_slot i)) = ep_active_state"
  using assms
  by (auto simp: ep_live_def ep_resolve_def ep_ok_def identity_valid_def Let_def)

lemma word_less_plus_one: "(g :: 'a::len word) \<noteq> - 1 \<Longrightarrow> h \<le> g \<Longrightarrow> h < g + 1"
  using unatSuc [of g]
  by (auto simp: word_less_nat_alt word_le_nat_alt add.commute eq_neg_iff_add_eq_0)

interpretation eid: identity_authority ep_ok ep_live ep_spent ep_method
proof
  fix s t i
  show "ep_ok s \<Longrightarrow> ep_method s t \<Longrightarrow> ep_ok t" by (rule ep_method_inv)
  show "ep_ok s \<Longrightarrow> ep_spent s i \<Longrightarrow> \<not> ep_live s i"
    by (auto simp: ep_live_iff ep_spent_def Let_def)
  assume st: "ep_ok s" "ep_method s t"
  note t = ep_method_inv [OF st(2,1)]
  have step: "identity_valid i \<Longrightarrow>
      ep_slot_step (ep_slots s ! unat (asi_slot i)) (ep_slots t ! unat (asi_slot i))"
    using ep_method_slot [OF st(2,1)] by (simp add: identity_valid_def)
  show "ep_spent s i \<Longrightarrow> ep_spent t i"
    using step by (auto simp: ep_spent_def ep_slot_step_def Let_def word_less_plus_one
        dest: order_less_imp_le)
  show "ep_live s i \<Longrightarrow> ep_live t i \<or> ep_spent t i"
    using step
    by (auto simp: ep_live_iff st(1) t ep_spent_def ep_slot_step_def Let_def)
qed

text \<open>An address-space identity never comes back.  If an identity resolves in some reachable
  state and later stops resolving, then no sequence of acquisitions and retirements, however slots
  and ASIDs are reused, makes it resolve again.\<close>

theorem ep_no_resurrection:
  assumes "ep_method\<^sup>*\<^sup>* ep_empty a" "is_ok (ep_resolve a i)"
    and "ep_method\<^sup>*\<^sup>* a b" "\<not> is_ok (ep_resolve b i)" "ep_method\<^sup>*\<^sup>* b c"
  shows "\<not> is_ok (ep_resolve c i)"
  using eid.no_resurrection [OF eid.inv_run [OF assms(1) ep_ok_empty], of i b c] assms
  by (simp add: ep_live_def)

text \<open>A free slot is handed out with an ASID nobody holds.  Whatever \<open>acquire\<close> returns is valid,
  is active afterwards, carries a non-zero ASID that no active epoch and no epoch still awaiting
  its TLB invalidation carries, and every epoch that was active or retiring stays so.\<close>

theorem ep_acquire_exclusive:
  assumes "ep_ok a" "ep_acquire a = (Inr e, b)"
  shows "epoch_valid e \<and> ep_active b e \<and> \<not> ep_active a e \<and>
    (\<forall>f. ep_active a f \<or> ep_retiring a \<lparr>re_epoch = f\<rparr> \<longrightarrow> ae_asid f \<noteq> ae_asid e) \<and>
    (\<forall>f. ep_active b f \<longleftrightarrow> f = e \<or> ep_active a f) \<and> (\<forall>r. ep_retiring b r \<longleftrightarrow> ep_retiring a r)"
  using assms(1)
proof (cases rule: ep_acquire_cases)
  case (fresh i)
  have len: "length (ep_slots a) = max_address_space_epochs" using assms(1) by (simp add: ep_ok_def)
  have g: "es_generation (ep_slots a ! i) + 1 \<noteq> 0" using fresh(3) by (metis eq_neg_iff_add_eq_0)
  have e: "e = \<lparr>ae_slot = of_nat i, ae_generation = es_generation (ep_slots a ! i) + 1,
      ae_asid = asid_for_slot i\<rparr>"
    and b: "ep_slots b = (ep_slots a)[i := \<lparr>es_generation = es_generation (ep_slots a ! i) + 1,
      es_state = ep_active_state\<rparr>]"
    using fresh(4) assms(2) by auto
  have valid: "epoch_valid e"
    using fresh(1) g asid_for_slot_nonzero [OF fresh(1)] by (simp add: e epoch_valid_def)
  have slot: "unat (ae_slot f) < max_address_space_epochs" if "epoch_valid f" for f
    using that by (simp add: epoch_valid_def)
  have names: "ep_names b st f \<longleftrightarrow> ep_names a st f \<or> st = ep_active_state \<and> f = e"
    if "st \<noteq> ep_free" for st f
  proof (cases "unat (ae_slot f) = i")
    case True
    then have sl: "ae_slot f = of_nat i" by (simp flip: True)
    show ?thesis
      using True that fresh(1,2) sl valid len
      by (cases f) (auto simp: ep_names_def b e)
  next
    case False
    then have "f \<noteq> e" using fresh(1) by (auto simp: e)
    with False show ?thesis by (simp add: ep_names_def b)
  qed
  have asid: "ae_asid f \<noteq> ae_asid e" if "ep_names a st f" "st \<noteq> ep_free" for st f
    using that fresh(1,2) slot [of f] asid_for_slot_eq [of "unat (ae_slot f)" i]
    by (auto simp: ep_names_def e)
  have "\<not> ep_names a ep_active_state e" using asid [of ep_active_state e] by auto
  with valid names asid show ?thesis
    by (auto simp: ep_active_iff ep_retiring_iff)
qed (use assms(2) in simp_all)

text \<open>A whole life.  An acquired epoch can be retired and completed; its ASID and slot count as
  retiring in between, it is refused as stale for new work at once, and completion gives the slot
  back, with the counters what they were before.\<close>

theorem ep_lifecycle:
  assumes "ep_ok a" "ep_acquire a = (Inr e, b)"
  shows "\<exists>c d. ep_begin_retire b e = (Inr \<lparr>re_epoch = e\<rparr>, c) \<and>
     ep_complete_retire c \<lparr>re_epoch = e\<rparr> = (Inr (), d) \<and>
     ep_resolve c (epoch_identity e) = Inl ep_stale \<and> ep_resolve d (epoch_identity e) = Inl ep_stale \<and>
     ep_active_count d = ep_active_count a \<and> ep_retiring_count d = ep_retiring_count a \<and>
     ep_retiring_count c = ep_retiring_count a + 1"
  using assms(1)
proof (cases rule: ep_acquire_cases)
  case (fresh i)
  have len: "length (ep_slots a) = max_address_space_epochs" using assms(1) by (simp add: ep_ok_def)
  have g: "es_generation (ep_slots a ! i) + 1 \<noteq> 0" using fresh(3) by (metis eq_neg_iff_add_eq_0)
  have valid: "epoch_valid e"
    using fresh g asid_for_slot_nonzero [OF fresh(1)] assms(2) by (auto simp: epoch_valid_def)
  obtain c where c: "ep_begin_retire b e = (Inr \<lparr>re_epoch = e\<rparr>, c)"
    "c = a\<lparr>ep_slots := (ep_slots a)[i := \<lparr>es_generation = es_generation (ep_slots a ! i) + 1,
       es_state = ep_retiring_state\<rparr>], ep_retiring_n := ep_retiring_n a + 1\<rparr>"
    using fresh assms(2) valid len by (simp add: ep_begin_retire_def Let_def)
  obtain d where d: "ep_complete_retire c \<lparr>re_epoch = e\<rparr> = (Inr (), d)"
    "d = a\<lparr>ep_slots := (ep_slots a)[i := \<lparr>es_generation = es_generation (ep_slots a ! i) + 1,
       es_state = ep_free\<rparr>]\<rparr>"
    using fresh assms(2) valid len c(2)
    by (simp add: ep_complete_retire_def ep_retiring_def Let_def)
  have "ep_resolve c (epoch_identity e) = Inl ep_stale" "ep_resolve d (epoch_identity e) = Inl ep_stale"
    using fresh assms(2) valid len c(2) d(2)
    by (auto simp: ep_resolve_def epoch_identity_def Let_def)
  with c d show ?thesis by (simp add: ep_active_count_def ep_retiring_count_def)
qed (use assms(2) in simp_all)

section \<open>Concrete runs\<close>

definition ep_one :: AddressSpaceEpochAuthority where
  "ep_one = snd (ep_acquire ep_empty)"

definition ep_one_epoch :: AddressSpaceEpoch where
  "ep_one_epoch = \<lparr>ae_slot = 0, ae_generation = 1, ae_asid = 1\<rparr>"

definition ep_quarantined :: AddressSpaceEpochAuthority where
  "ep_quarantined = snd (ep_begin_retire ep_one ep_one_epoch)"

definition ep_reused :: AddressSpaceEpochAuthority where
  "ep_reused = snd (ep_acquire (snd (ep_complete_retire ep_quarantined \<lparr>re_epoch = ep_one_epoch\<rparr>)))"

lemma ep_one_reachable: "ep_method\<^sup>*\<^sup>* ep_empty ep_one"
  unfolding ep_one_def by (rule r_into_rtranclp) (rule ep_method.acquire)

lemma ep_quarantined_step: "ep_method ep_one ep_quarantined"
  unfolding ep_quarantined_def by (rule ep_method.begin_retire)

lemma ep_reused_run: "ep_method\<^sup>*\<^sup>* ep_quarantined ep_reused"
  unfolding ep_reused_def
  by (rule rtranclp.rtrancl_into_rtrancl [OF r_into_rtranclp]) (rule ep_method.intros)+

theorem ep_no_resurrection_witness:
  "is_ok (ep_resolve ep_one \<lparr>asi_slot = 0, asi_generation = 1\<rparr>) \<and>
   is_ok (ep_resolve ep_reused \<lparr>asi_slot = 0, asi_generation = 2\<rparr>) \<and>
   \<not> is_ok (ep_resolve ep_reused \<lparr>asi_slot = 0, asi_generation = 1\<rparr>)"
proof -
  have live: "is_ok (ep_resolve ep_one \<lparr>asi_slot = 0, asi_generation = 1\<rparr>)" by code_simp
  have gone: "\<not> is_ok (ep_resolve ep_quarantined \<lparr>asi_slot = 0, asi_generation = 1\<rparr>)" by code_simp
  have fresh: "is_ok (ep_resolve ep_reused \<lparr>asi_slot = 0, asi_generation = 2\<rparr>)" by code_simp
  show ?thesis
    using live fresh ep_no_resurrection [OF ep_one_reachable live
        r_into_rtranclp [of ep_method, OF ep_quarantined_step] gone ep_reused_run] by blast
qed

theorem ep_acquire_exclusive_witness:
  "epoch_valid \<lparr>ae_slot = 1, ae_generation = 1, ae_asid = 2\<rparr> \<and>
   ep_retiring ep_quarantined \<lparr>re_epoch = ep_one_epoch\<rparr> \<and>
   ae_asid ep_one_epoch \<noteq> ae_asid \<lparr>ae_slot = 1, ae_generation = 1, ae_asid = 2\<rparr>"
proof -
  have ok: "ep_ok ep_quarantined"
    using ep_method_inv [OF ep_quarantined_step eid.inv_run [OF ep_one_reachable ep_ok_empty]] .
  have "fst (ep_acquire ep_quarantined) = Inr \<lparr>ae_slot = 1, ae_generation = 1, ae_asid = 2\<rparr>"
    by code_simp
  then have acq: "ep_acquire ep_quarantined = (Inr \<lparr>ae_slot = 1, ae_generation = 1, ae_asid = 2\<rparr>,
      snd (ep_acquire ep_quarantined))" by (metis prod.collapse)
  have "ep_retiring ep_quarantined \<lparr>re_epoch = ep_one_epoch\<rparr>" by code_simp
  with ep_acquire_exclusive [OF ok acq] show ?thesis by blast
qed

theorem ep_lifecycle_witness:
  "\<exists>c d. ep_begin_retire ep_one ep_one_epoch = (Inr \<lparr>re_epoch = ep_one_epoch\<rparr>, c) \<and>
     ep_complete_retire c \<lparr>re_epoch = ep_one_epoch\<rparr> = (Inr (), d) \<and> ep_active_count d = 0"
proof -
  have "fst (ep_acquire ep_empty) = Inr ep_one_epoch" by code_simp
  then have acq: "ep_acquire ep_empty = (Inr ep_one_epoch, ep_one)"
    by (metis ep_one_def prod.collapse)
  have "ep_active_count ep_empty = 0" by code_simp
  with ep_lifecycle [OF ep_ok_empty acq] show ?thesis by metis
qed

text \<open>Wearing one slot out: the authority after \<open>n\<close> whole lives of its first slot.\<close>

definition ep_worn :: "nat \<Rightarrow> AddressSpaceEpochAuthority" where
  "ep_worn n = ep_empty\<lparr>ep_slots := \<lparr>es_generation = of_nat n, es_state = ep_free\<rparr> #
     replicate 62 ep_blank\<rparr>"

lemma ep_worn_Suc:
  assumes "Suc n < 2 ^ 32"
  shows "ep_method\<^sup>*\<^sup>* (ep_worn n) (ep_worn (Suc n))"
proof -
  have "unat (of_nat (Suc n) :: u32) = Suc n"
    using assms by (simp add: unat_of_nat take_bit_nat_eq_self del: of_nat_Suc)
  then have nz: "(of_nat n + 1 :: u32) \<noteq> 0" by (metis add.commute nat.distinct(1) of_nat_Suc unat_0)
  then have g: "(of_nat n :: u32) \<noteq> - 1" "(of_nat n + 1 :: u32) \<noteq> 0"
    by (auto simp: eq_neg_iff_add_eq_0)
  let ?e = "\<lparr>ae_slot = 0, ae_generation = of_nat (Suc n), ae_asid = 1\<rparr>"
  have asid: "asid_for_slot 0 = 1" by (simp add: asid_for_slot_def)
  have "snd (ep_complete_retire (snd (ep_begin_retire (snd (ep_acquire (ep_worn n))) ?e))
      \<lparr>re_epoch = ?e\<rparr>) = ep_worn (Suc n)"
    using g by (simp add: ep_worn_def ep_acquire_def ep_begin_retire_def ep_complete_retire_def
        ep_retiring_def epoch_valid_def asid ep_empty_def add.commute)
  then show ?thesis
    by (metis ep_method.intros rtranclp.rtrancl_into_rtrancl rtranclp.rtrancl_refl)
qed

lemma ep_worn_reachable: "n < 2 ^ 32 \<Longrightarrow> ep_method\<^sup>*\<^sup>* ep_empty (ep_worn n)"
proof (induction n)
  case 0
  have "ep_worn 0 = ep_empty"
    by (simp add: ep_worn_def ep_empty_def ep_blank_def numeral_eq_Suc)
  then show ?case by simp
next
  case (Suc n)
  then show ?case using ep_worn_Suc [of n] by (meson Suc_lessD rtranclp_trans)
qed

text \<open>A slot whose generations are used up blocks the authority.  There is a reachable state in
  which every one of the 63 slots is free and yet \<open>acquire\<close> refuses with \<open>generation_exhausted\<close>: the
  loop returns at the first free slot when that slot has reached the last generation, instead of
  going on to the next one.\<close>

theorem ep_acquire_worn_slot_blocks:
  "\<exists>a. ep_method\<^sup>*\<^sup>* ep_empty a \<and> ep_count ep_free a = max_address_space_epochs \<and>
     ep_acquire a = (Inl ep_generation_exhausted, a)"
proof (intro exI conjI)
  show "ep_method\<^sup>*\<^sup>* ep_empty (ep_worn (2 ^ 32 - 1))" by (rule ep_worn_reachable) simp
  show "ep_count ep_free (ep_worn (2 ^ 32 - 1)) = max_address_space_epochs"
    by (simp add: ep_count_def ep_worn_def ep_blank_def)
  have "(of_nat (2 ^ 32 - 1) :: u32) = - 1" by (simp add: of_nat_diff)
  then show "ep_acquire (ep_worn (2 ^ 32 - 1)) = (Inl ep_generation_exhausted, ep_worn (2 ^ 32 - 1))"
    by (simp add: ep_worn_def ep_acquire_def)
qed

end
