(* ===== verification/Capability.thy ===== *)
theory Capability
  imports Address_Space_Epoch
begin

text \<open>
  The capability table: capability.hpp and capability.cpp of src/core/oskernel.  One definition
  per method of \<open>class CapabilityTable\<close>, prefixed \<open>cap_\<close>; the overloads that take an
  \<open>ExecutionAuthority\<close> carry the suffix \<open>_ctx\<close>.  The lemmas show the derivation forest: every
  derived capability has a live parent with at least its rights over the same object, at most
  eight levels deep; the bounded marking loop of \<open>sweep_doomed\<close> removes exactly the subtree of
  the capabilities it starts from; identifiers are never reused (\<open>identity_authority\<close>).
\<close>

section \<open>Data\<close>

abbreviation max_capabilities :: nat where "max_capabilities \<equiv> 256"
abbreviation max_derivation_depth :: nat where "max_derivation_depth \<equiv> 8"

type_synonym CapabilityId = u64
type_synonym ObjectId = u64
type_synonym Rights = u32

abbreviation invalid_capability :: CapabilityId where "invalid_capability \<equiv> 0"
abbreviation invalid_object :: ObjectId where "invalid_object \<equiv> 0"
abbreviation no_rights :: Rights where "no_rights \<equiv> 0"
abbreviation all_rights :: Rights where "all_rights \<equiv> 0xFFFFFFFF"

abbreviation "cap_invalid_capability_id \<equiv> kernel_error 1"
abbreviation "cap_unknown_capability \<equiv> kernel_error 2"
abbreviation "cap_capability_limit \<equiv> kernel_error 3"
abbreviation "cap_not_holder \<equiv> kernel_error 4"
abbreviation "cap_not_transferable \<equiv> kernel_error 5"
abbreviation "cap_rights_escalation \<equiv> kernel_error 6"
abbreviation "cap_derivation_too_deep \<equiv> kernel_error 7"
abbreviation "cap_self_addressed \<equiv> kernel_error 8"
abbreviation "cap_invalid_object_id \<equiv> kernel_error 9"
abbreviation "cap_not_revocable \<equiv> kernel_error 10"
abbreviation "cap_identifier_exhausted \<equiv> kernel_error 11"
abbreviation "cap_invalid_holder \<equiv> kernel_error 12"

record CapabilityInfo =
  ci_id :: CapabilityId
  ci_parent :: CapabilityId
  ci_object :: ObjectId
  ci_rights :: Rights
  ci_holder :: ThreadId
  ci_transferable :: bool
  ci_depth :: u8
  ci_space :: AddressSpaceIdentity
  ci_bound :: bool

definition ci_holder_authority :: "CapabilityInfo \<Rightarrow> ExecutionAuthority" where
  "ci_holder_authority c =
     (if \<not> ci_bound c then no_authority else \<lparr>ea_thread = ci_holder c, ea_space = ci_space c\<rparr>)"

record CapSlot =
  cs_id :: CapabilityId
  cs_parent :: CapabilityId
  cs_object :: ObjectId
  cs_rights :: Rights
  cs_holder :: ThreadId
  cs_parent_slot :: size_t
  cs_transferable :: bool
  cs_depth :: u8
  cs_occupied :: bool
  cs_doomed :: bool
  cs_space :: AddressSpaceIdentity
  cs_bound :: bool

record CapabilityTable =
  cap_slots :: "CapSlot list"
  cap_occupied :: size_t
  cap_next_id :: CapabilityId

definition cap_blank :: CapSlot where
  "cap_blank = \<lparr>cs_id = invalid_capability, cs_parent = invalid_capability,
     cs_object = invalid_object, cs_rights = no_rights, cs_holder = invalid_thread,
     cs_parent_slot = 0, cs_transferable = False, cs_depth = 0, cs_occupied = False,
     cs_doomed = False, cs_space = no_identity, cs_bound = False\<rparr>"

definition cap_empty :: CapabilityTable where
  "cap_empty = \<lparr>cap_slots = replicate max_capabilities cap_blank, cap_occupied = 0, cap_next_id = 1\<rparr>"

section \<open>Queries\<close>

definition cap_find :: "CapabilityTable \<Rightarrow> CapabilityId \<Rightarrow> nat option" where
  "cap_find t c = slot_find cs_occupied cs_id invalid_capability (cap_slots t) c"

definition cap_parent_of :: "CapSlot list \<Rightarrow> CapSlot \<Rightarrow> nat option" where
  "cap_parent_of slots slot =
     (if cs_parent slot = invalid_capability then None
      else if unat (cs_parent_slot slot) \<ge> length slots then None
      else let candidate = slots ! unat (cs_parent_slot slot) in
        if \<not> cs_occupied candidate \<or> cs_id candidate \<noteq> cs_parent slot then None
        else Some (unat (cs_parent_slot slot)))"

definition cap_held_by :: "CapSlot \<Rightarrow> ExecutionAuthority \<Rightarrow> bool" where
  "cap_held_by slot a \<longleftrightarrow> cs_bound slot \<and> authority_valid a \<and> cs_holder slot = ea_thread a \<and>
     cs_space slot = ea_space a"

definition cap_live_capability_count :: "CapabilityTable \<Rightarrow> size_t" where
  "cap_live_capability_count t = cap_occupied t"

definition cap_count_held_by :: "CapabilityTable \<Rightarrow> ThreadId \<Rightarrow> size_t" where
  "cap_count_held_by t holder =
     (if holder = invalid_thread then 0
      else of_nat (length (filter (\<lambda>s. cs_occupied s \<and> cs_holder s = holder) (cap_slots t))))"

definition cap_holds :: "CapabilityTable \<Rightarrow> ThreadId \<Rightarrow> CapabilityId \<Rightarrow> bool" where
  "cap_holds t thread c =
     (if thread = invalid_thread then False
      else case cap_find t c of
          None \<Rightarrow> False
        | Some i \<Rightarrow> \<not> cs_bound (cap_slots t ! i) \<and> cs_holder (cap_slots t ! i) = thread)"

definition cap_holds_ctx :: "CapabilityTable \<Rightarrow> ExecutionAuthority \<Rightarrow> CapabilityId \<Rightarrow> bool" where
  "cap_holds_ctx t a c =
     (if \<not> authority_valid a then False
      else case cap_find t c of None \<Rightarrow> False | Some i \<Rightarrow> cap_held_by (cap_slots t ! i) a)"

definition cap_describe :: "CapabilityTable \<Rightarrow> CapabilityId \<Rightarrow> CapabilityInfo result" where
  "cap_describe t c =
     (if c = invalid_capability then Inl cap_invalid_capability_id
      else case cap_find t c of
          None \<Rightarrow> Inl cap_unknown_capability
        | Some i \<Rightarrow> let slot = cap_slots t ! i in
            Inr \<lparr>ci_id = cs_id slot, ci_parent = cs_parent slot, ci_object = cs_object slot,
                 ci_rights = cs_rights slot, ci_holder = cs_holder slot,
                 ci_transferable = cs_transferable slot, ci_depth = cs_depth slot,
                 ci_space = cs_space slot, ci_bound = cs_bound slot\<rparr>)"

section \<open>Minting and granting\<close>

text \<open>The loop that ends every \<open>mint\<close> and \<open>grant\<close>: the first free slot takes the new entry.\<close>

definition cap_place :: "CapabilityTable \<Rightarrow> CapSlot \<Rightarrow> CapabilityId result \<times> CapabilityTable" where
  "cap_place t entry =
     (case first_index (\<lambda>s. \<not> cs_occupied s) (cap_slots t) of
        Some i \<Rightarrow>
          (Inr (cs_id entry),
           t\<lparr>cap_slots := (cap_slots t)[i := entry], cap_next_id := cap_next_id t + 1,
             cap_occupied := cap_occupied t + 1\<rparr>)
      | None \<Rightarrow> (Inl cap_capability_limit, t))"

definition cap_mint ::
  "CapabilityTable \<Rightarrow> ThreadId \<Rightarrow> ObjectId \<Rightarrow> Rights \<Rightarrow> bool \<Rightarrow>
   CapabilityId result \<times> CapabilityTable" where
  "cap_mint t holder object rights transferable =
     (if holder = invalid_thread then (Inl cap_invalid_holder, t)
      else if object = invalid_object then (Inl cap_invalid_object_id, t)
      else if cap_next_id t = invalid_capability then (Inl cap_identifier_exhausted, t)
      else cap_place t
        \<lparr>cs_id = cap_next_id t, cs_parent = invalid_capability, cs_object = object,
         cs_rights = rights, cs_holder = holder, cs_parent_slot = 0,
         cs_transferable = transferable, cs_depth = 0, cs_occupied = True, cs_doomed = False,
         cs_space = no_identity, cs_bound = False\<rparr>)"

definition cap_mint_ctx ::
  "CapabilityTable \<Rightarrow> ExecutionAuthority \<Rightarrow> ObjectId \<Rightarrow> Rights \<Rightarrow> bool \<Rightarrow>
   CapabilityId result \<times> CapabilityTable" where
  "cap_mint_ctx t holder object rights transferable =
     (if \<not> authority_valid holder then (Inl cap_invalid_holder, t)
      else if object = invalid_object then (Inl cap_invalid_object_id, t)
      else if cap_next_id t = invalid_capability then (Inl cap_identifier_exhausted, t)
      else cap_place t
        \<lparr>cs_id = cap_next_id t, cs_parent = invalid_capability, cs_object = object,
         cs_rights = rights, cs_holder = ea_thread holder, cs_parent_slot = 0,
         cs_transferable = transferable, cs_depth = 0, cs_occupied = True, cs_doomed = False,
         cs_space = ea_space holder, cs_bound = True\<rparr>)"

definition cap_grant ::
  "CapabilityTable \<Rightarrow> ThreadId \<Rightarrow> CapabilityId \<Rightarrow> ThreadId \<Rightarrow> Rights \<Rightarrow> bool \<Rightarrow>
   CapabilityId result \<times> CapabilityTable" where
  "cap_grant t granter capability recipient rights transferable =
     (if granter = invalid_thread \<or> recipient = invalid_thread then (Inl cap_invalid_holder, t)
      else if granter = recipient then (Inl cap_self_addressed, t)
      else if capability = invalid_capability then (Inl cap_invalid_capability_id, t)
      else case cap_find t capability of
          None \<Rightarrow> (Inl cap_unknown_capability, t)
        | Some p \<Rightarrow>
            let parent = cap_slots t ! p in
            if cs_bound parent \<or> cs_holder parent \<noteq> granter then (Inl cap_not_holder, t)
            else if \<not> cs_transferable parent then (Inl cap_not_transferable, t)
            else if rights AND NOT (cs_rights parent) \<noteq> no_rights
              then (Inl cap_rights_escalation, t)
            else if unat (cs_depth parent) + 1 > max_derivation_depth
              then (Inl cap_derivation_too_deep, t)
            else if cap_next_id t = invalid_capability then (Inl cap_identifier_exhausted, t)
            else cap_place t
              \<lparr>cs_id = cap_next_id t, cs_parent = capability, cs_object = cs_object parent,
               cs_rights = rights, cs_holder = recipient, cs_parent_slot = of_nat p,
               cs_transferable = transferable, cs_depth = cs_depth parent + 1,
               cs_occupied = True, cs_doomed = False, cs_space = no_identity, cs_bound = False\<rparr>)"

definition cap_grant_ctx ::
  "CapabilityTable \<Rightarrow> ExecutionAuthority \<Rightarrow> CapabilityId \<Rightarrow> ExecutionAuthority \<Rightarrow> Rights \<Rightarrow>
   bool \<Rightarrow> CapabilityId result \<times> CapabilityTable" where
  "cap_grant_ctx t granter capability recipient rights transferable =
     (if \<not> authority_valid granter \<or> \<not> authority_valid recipient then (Inl cap_invalid_holder, t)
      else if ea_thread granter = ea_thread recipient then (Inl cap_self_addressed, t)
      else if capability = invalid_capability then (Inl cap_invalid_capability_id, t)
      else case cap_find t capability of
          None \<Rightarrow> (Inl cap_unknown_capability, t)
        | Some p \<Rightarrow>
            let parent = cap_slots t ! p in
            if \<not> cap_held_by parent granter then (Inl cap_not_holder, t)
            else if \<not> cs_transferable parent then (Inl cap_not_transferable, t)
            else if rights AND NOT (cs_rights parent) \<noteq> no_rights
              then (Inl cap_rights_escalation, t)
            else if unat (cs_depth parent) + 1 > max_derivation_depth
              then (Inl cap_derivation_too_deep, t)
            else if cap_next_id t = invalid_capability then (Inl cap_identifier_exhausted, t)
            else cap_place t
              \<lparr>cs_id = cap_next_id t, cs_parent = capability, cs_object = cs_object parent,
               cs_rights = rights, cs_holder = ea_thread recipient, cs_parent_slot = of_nat p,
               cs_transferable = transferable, cs_depth = cs_depth parent + 1,
               cs_occupied = True, cs_doomed = False, cs_space = ea_space recipient,
               cs_bound = True\<rparr>)"

section \<open>Revocation\<close>

text \<open>One marking pass over the array, in place: a slot later in the pass sees the marks of the
  slots before it.  The second component is \<open>spread\<close>.\<close>

fun cap_spread :: "CapSlot list \<Rightarrow> nat list \<Rightarrow> bool \<Rightarrow> CapSlot list \<times> bool" where
  "cap_spread slots [] spread = (slots, spread)"
| "cap_spread slots (i # rest) spread =
     (let slot = slots ! i in
      if \<not> cs_occupied slot \<or> cs_doomed slot then cap_spread slots rest spread
      else case cap_parent_of slots slot of
          None \<Rightarrow> cap_spread slots rest spread
        | Some p \<Rightarrow>
            if \<not> cs_doomed (slots ! p) then cap_spread slots rest spread
            else cap_spread (slots[i := slot\<lparr>cs_doomed := True\<rparr>]) rest True)"

fun cap_passes :: "nat \<Rightarrow> CapSlot list \<Rightarrow> CapSlot list" where
  "cap_passes 0 slots = slots"
| "cap_passes (Suc n) slots =
     (let (slots', spread) = cap_spread slots [0..<length slots] False in
      if \<not> spread then slots' else cap_passes n slots')"

definition cap_sweep_doomed :: "CapabilityTable \<Rightarrow> size_t \<times> CapabilityTable" where
  "cap_sweep_doomed t =
     (let marked = cap_passes max_derivation_depth (cap_slots t);
          removed = of_nat (length (filter (\<lambda>s. cs_occupied s \<and> cs_doomed s) marked))
      in (removed,
          t\<lparr>cap_slots := map (\<lambda>s. if cs_occupied s \<and> cs_doomed s then cap_blank else s) marked,
            cap_occupied := cap_occupied t - removed\<rparr>))"

definition cap_revoke ::
  "CapabilityTable \<Rightarrow> ThreadId \<Rightarrow> CapabilityId \<Rightarrow> size_t result \<times> CapabilityTable" where
  "cap_revoke t revoker capability =
     (if revoker = invalid_thread then (Inl cap_invalid_holder, t)
      else if capability = invalid_capability then (Inl cap_invalid_capability_id, t)
      else case cap_find t capability of
          None \<Rightarrow> (Inl cap_unknown_capability, t)
        | Some i \<Rightarrow>
            let target = cap_slots t ! i;
                by_holder = (\<not> cs_bound target \<and> cs_holder target = revoker);
                by_grantor = (case cap_parent_of (cap_slots t) target of
                    None \<Rightarrow> False
                  | Some p \<Rightarrow> \<not> cs_bound (cap_slots t ! p) \<and> cs_holder (cap_slots t ! p) = revoker)
            in if \<not> by_holder \<and> \<not> by_grantor then (Inl cap_not_revocable, t)
               else map_prod Inr id (cap_sweep_doomed
                 (t\<lparr>cap_slots := (cap_slots t)[i := target\<lparr>cs_doomed := True\<rparr>]\<rparr>)))"

definition cap_revoke_ctx ::
  "CapabilityTable \<Rightarrow> ExecutionAuthority \<Rightarrow> CapabilityId \<Rightarrow> size_t result \<times> CapabilityTable" where
  "cap_revoke_ctx t revoker capability =
     (if \<not> authority_valid revoker then (Inl cap_invalid_holder, t)
      else if capability = invalid_capability then (Inl cap_invalid_capability_id, t)
      else case cap_find t capability of
          None \<Rightarrow> (Inl cap_unknown_capability, t)
        | Some i \<Rightarrow>
            let target = cap_slots t ! i;
                by_holder = cap_held_by target revoker;
                by_grantor = (case cap_parent_of (cap_slots t) target of
                    None \<Rightarrow> False | Some p \<Rightarrow> cap_held_by (cap_slots t ! p) revoker)
            in if \<not> by_holder \<and> \<not> by_grantor then (Inl cap_not_revocable, t)
               else map_prod Inr id (cap_sweep_doomed
                 (t\<lparr>cap_slots := (cap_slots t)[i := target\<lparr>cs_doomed := True\<rparr>]\<rparr>)))"

definition cap_revoke_all_held_by :: "CapabilityTable \<Rightarrow> ThreadId \<Rightarrow> size_t \<times> CapabilityTable" where
  "cap_revoke_all_held_by t holder =
     (if holder = invalid_thread then (0, t)
      else let marked = map (\<lambda>s. if \<not> cs_occupied s \<or> cs_holder s \<noteq> holder then s
                                 else s\<lparr>cs_doomed := True\<rparr>) (cap_slots t);
               any = list_ex (\<lambda>s. cs_occupied s \<and> cs_holder s = holder) (cap_slots t)
           in if \<not> any then (0, t\<lparr>cap_slots := marked\<rparr>)
              else cap_sweep_doomed (t\<lparr>cap_slots := marked\<rparr>))"

section \<open>Marking\<close>

text \<open>Two arrays that differ in their marks only have the same erasure; lookups of parents, and so
  the derivation forest, depend on the erasure alone.\<close>

definition cap_erase :: "CapSlot list \<Rightarrow> CapSlot list" where
  "cap_erase slots = map (\<lambda>s. s\<lparr>cs_doomed := False\<rparr>) slots"

definition cap_up :: "CapSlot list \<Rightarrow> nat \<Rightarrow> nat \<Rightarrow> bool" where
  "cap_up slots i j \<longleftrightarrow> i < length slots \<and> cs_occupied (slots ! i) \<and>
     cap_parent_of slots (slots ! i) = Some j"

lemma cap_unmark: "\<not> cs_doomed s \<Longrightarrow> s\<lparr>cs_doomed := False\<rparr> = s"
  by (cases s) simp

lemma cap_erase_length: "cap_erase s = cap_erase s' \<Longrightarrow> length s = length s'"
  by (metis cap_erase_def length_map)

lemma cap_erase_nth:
  "cap_erase s = cap_erase s' \<Longrightarrow> i < length s \<Longrightarrow>
   (s ! i)\<lparr>cs_doomed := False\<rparr> = (s' ! i)\<lparr>cs_doomed := False\<rparr>"
  by (metis cap_erase_def cap_erase_length nth_map)

lemma cap_erase_fields:
  assumes "cap_erase s = cap_erase s'" "i < length s"
  shows "cs_occupied (s ! i) = cs_occupied (s' ! i)" "cs_id (s ! i) = cs_id (s' ! i)"
    "cs_parent (s ! i) = cs_parent (s' ! i)" "cs_parent_slot (s ! i) = cs_parent_slot (s' ! i)"
  using cap_erase_nth [OF assms] by (metis CapSlot.select_convs CapSlot.surjective CapSlot.update_convs)+

lemma cap_erase_parent_of:
  assumes "cap_erase s = cap_erase s'"
  shows "cap_parent_of s x = cap_parent_of s' x"
  using cap_erase_fields(1,2) [OF assms, of "unat (cs_parent_slot x)"] cap_erase_length [OF assms]
  by (simp add: cap_parent_of_def Let_def)

lemma cap_parent_of_cong:
  "cs_parent x = cs_parent y \<Longrightarrow> cs_parent_slot x = cs_parent_slot y \<Longrightarrow>
   cap_parent_of s x = cap_parent_of s y"
  by (simp add: cap_parent_of_def Let_def)

lemma cap_erase_up:
  assumes "cap_erase s = cap_erase s'"
  shows "cap_up s = cap_up s'"
proof (intro ext)
  fix i j
  show "cap_up s i j = cap_up s' i j"
  proof (cases "i < length s")
    case True
    with assms have "cap_parent_of s (s ! i) = cap_parent_of s' (s' ! i)"
      using cap_erase_fields(3,4) [OF assms True] cap_erase_parent_of [OF assms, of "s' ! i"]
        cap_parent_of_cong [of "s ! i" "s' ! i" s] by simp
    with True assms show ?thesis
      using cap_erase_fields(1) [OF assms True] cap_erase_length [OF assms] by (simp add: cap_up_def)
  qed (use cap_erase_length [OF assms] in \<open>simp add: cap_up_def\<close>)
qed

lemma cap_erase_mark:
  "i < length s \<Longrightarrow> cap_erase (s[i := (s ! i)\<lparr>cs_doomed := d\<rparr>]) = cap_erase s"
  by (rule nth_equalityI) (auto simp: cap_erase_def nth_list_update)

lemma cap_parent_of_SomeD:
  "cap_parent_of s x = Some p \<Longrightarrow> p < length s \<and> cs_occupied (s ! p) \<and> cs_id (s ! p) = cs_parent x \<and>
   cs_parent x \<noteq> 0"
  by (auto simp: cap_parent_of_def Let_def split: if_splits)

abbreviation cap_marked :: "CapSlot list \<Rightarrow> nat \<Rightarrow> bool" where
  "cap_marked s i \<equiv> i < length s \<and> cs_doomed (s ! i)"

lemma cap_spread_True: "cap_spread s is True = (s', b') \<Longrightarrow> b'"
  by (induction "is" arbitrary: s) (auto simp: Let_def split: if_splits option.splits)

lemma cap_spread_facts:
  assumes "cap_spread s is b = (s', b')" "\<forall>i \<in> set is. i < length s"
  shows "cap_erase s' = cap_erase s \<and> (\<forall>i. cap_marked s i \<longrightarrow> cap_marked s' i) \<and>
    (\<forall>i \<in> set is. \<forall>p. cap_up s i p \<longrightarrow> cap_marked s p \<longrightarrow> cap_marked s' i) \<and>
    (\<forall>i. cap_marked s' i \<longrightarrow> (\<exists>j. (cap_up s)\<^sup>*\<^sup>* i j \<and> cap_marked s j)) \<and> (\<not> b' \<longrightarrow> s' = s)"
  using assms
proof (induction "is" arbitrary: s b)
  case Nil
  then show ?case by auto
next
  case (Cons i "is")
  have i: "i < length s" and rest: "\<forall>i \<in> set is. i < length s" using Cons.prems(2) by simp_all
  consider (skip) "cap_spread s is b = (s', b')"
      "\<And>p. cap_up s i p \<Longrightarrow> cap_marked s p \<Longrightarrow> cap_marked s i"
    | (mark) p where "cap_up s i p" "cap_marked s p"
      "cap_spread (s[i := (s ! i)\<lparr>cs_doomed := True\<rparr>]) is True = (s', b')"
  proof (cases "\<exists>p. cap_up s i p \<and> cap_marked s p \<and> \<not> cs_doomed (s ! i)")
    case True
    then show ?thesis using Cons.prems(1) mark by (auto simp: cap_up_def Let_def)
  next
    case False
    have "cap_spread s is b = (s', b')"
      using Cons.prems(1) False i
      by (auto simp: cap_up_def Let_def split: if_splits option.splits dest: cap_parent_of_SomeD)
    then show ?thesis using skip False i by blast
  qed
  then show ?case
  proof cases
    case skip
    note ih = Cons.IH [OF skip(1) rest]
    have "\<forall>p. cap_up s i p \<longrightarrow> cap_marked s p \<longrightarrow> cap_marked s' i" using ih skip(2) by blast
    with ih show ?thesis by simp
  next
    case (mark p)
    let ?t = "s[i := (s ! i)\<lparr>cs_doomed := True\<rparr>]"
    have er: "cap_erase ?t = cap_erase s" using i by (rule cap_erase_mark)
    have up: "cap_up ?t = cap_up s" using er by (rule cap_erase_up)
    have ih: "cap_erase s' = cap_erase ?t \<and> (\<forall>i. cap_marked ?t i \<longrightarrow> cap_marked s' i) \<and>
      (\<forall>i \<in> set is. \<forall>p. cap_up ?t i p \<longrightarrow> cap_marked ?t p \<longrightarrow> cap_marked s' i) \<and>
      (\<forall>i. cap_marked s' i \<longrightarrow> (\<exists>j. (cap_up ?t)\<^sup>*\<^sup>* i j \<and> cap_marked ?t j)) \<and> (\<not> b' \<longrightarrow> s' = ?t)"
      using Cons.IH [OF mark(3)] rest by simp
    have mt: "cap_marked ?t k \<longleftrightarrow> cap_marked s k \<or> k = i" for k
      using i by (auto simp: nth_list_update)
    have b': b' using mark(3) by (rule cap_spread_True)
    show ?thesis
    proof (intro conjI)
      show "\<forall>k. cap_marked s' k \<longrightarrow> (\<exists>j. (cap_up s)\<^sup>*\<^sup>* k j \<and> cap_marked s j)"
      proof (intro allI impI)
        fix k assume "cap_marked s' k"
        with ih up obtain j where j: "(cap_up s)\<^sup>*\<^sup>* k j" "cap_marked s j \<or> j = i"
          unfolding mt by metis
        then show "\<exists>j. (cap_up s)\<^sup>*\<^sup>* k j \<and> cap_marked s j"
          using mark(1,2) by (meson rtranclp.rtrancl_into_rtrancl)
      qed
    qed (use ih er up mt b' in auto)
  qed
qed

text \<open>The loop stops early only at a fixed point, so it is the plain iteration of the pass.\<close>

definition cap_pass :: "CapSlot list \<Rightarrow> CapSlot list" where
  "cap_pass s = fst (cap_spread s [0..<length s] False)"

lemma cap_passes_iterate: "cap_passes n s = (cap_pass ^^ n) s"
proof (induction n arbitrary: s)
  case (Suc n)
  obtain s' b where sp: "cap_spread s [0..<length s] False = (s', b)" by fastforce
  show ?case
  proof (cases b)
    case True
    with sp have "cap_passes (Suc n) s = cap_passes n s'" "cap_pass s = s'"
      by (simp_all add: cap_pass_def)
    with Suc show ?thesis by (simp add: funpow_Suc_right del: funpow.simps)
  next
    case False
    then have "s' = s" using cap_spread_facts [OF sp] by simp
    then have "cap_pass s = s" using sp by (simp add: cap_pass_def)
    then have "(cap_pass ^^ m) s = s" for m by (induction m) simp_all
    with False sp \<open>s' = s\<close> \<open>cap_pass s = s\<close> show ?thesis by simp
  qed
qed simp

lemma cap_pass_facts:
  shows "cap_erase (cap_pass s) = cap_erase s" "cap_marked s i \<Longrightarrow> cap_marked (cap_pass s) i"
    and "cap_up s i p \<Longrightarrow> cap_marked s p \<Longrightarrow> cap_marked (cap_pass s) i"
    and "cap_marked (cap_pass s) i \<Longrightarrow> \<exists>j. (cap_up s)\<^sup>*\<^sup>* i j \<and> cap_marked s j"
proof -
  obtain s' b where sp: "cap_spread s [0..<length s] False = (s', b)" by fastforce
  note f = cap_spread_facts [OF sp]
  show "cap_erase (cap_pass s) = cap_erase s" "cap_marked s i \<Longrightarrow> cap_marked (cap_pass s) i"
    and "cap_marked (cap_pass s) i \<Longrightarrow> \<exists>j. (cap_up s)\<^sup>*\<^sup>* i j \<and> cap_marked s j"
    using f sp by (auto simp: cap_pass_def)
  show "cap_up s i p \<Longrightarrow> cap_marked s p \<Longrightarrow> cap_marked (cap_pass s) i"
    using f sp by (simp add: cap_pass_def cap_up_def)
qed

lemma cap_passes_erase: "cap_erase (cap_passes n s) = cap_erase s"
  unfolding cap_passes_iterate by (induction n) (simp_all add: cap_pass_facts)

lemma cap_passes_up: "cap_up (cap_passes n s) = cap_up s"
  by (rule cap_erase_up) (rule cap_passes_erase)

lemma cap_passes_sound:
  "cap_marked (cap_passes n s) i \<Longrightarrow> \<exists>j. (cap_up s)\<^sup>*\<^sup>* i j \<and> cap_marked s j"
proof (induction n arbitrary: i)
  case (Suc n)
  let ?t = "(cap_pass ^^ n) s"
  have up: "cap_up ?t = cap_up s" using cap_passes_up [of n s] by (simp add: cap_passes_iterate)
  from Suc.prems have "cap_marked (cap_pass ?t) i" by (simp add: cap_passes_iterate)
  from cap_pass_facts(4) [OF this] up obtain j where j: "(cap_up s)\<^sup>*\<^sup>* i j" "cap_marked ?t j" by auto
  from Suc.IH [of j] j(2) obtain k where "(cap_up s)\<^sup>*\<^sup>* j k" "cap_marked s k"
    by (auto simp: cap_passes_iterate)
  with j(1) show ?case by (meson rtranclp_trans)
qed auto

lemma cap_passes_complete:
  assumes "(cap_up s ^^ k) i j" "cap_marked s j" "k \<le> n"
  shows "cap_marked (cap_passes n s) i"
  using assms
proof (induction n arbitrary: i k)
  case 0
  then show ?case by simp
next
  case (Suc n)
  let ?t = "(cap_pass ^^ n) s"
  have up: "cap_up ?t = cap_up s" using cap_passes_up [of n s] by (simp add: cap_passes_iterate)
  have "cap_marked (cap_pass ?t) i"
  proof (cases "k \<le> n")
    case True
    with Suc.IH [OF Suc.prems(1,2)] show ?thesis
      using cap_pass_facts(2) by (simp add: cap_passes_iterate)
  next
    case False
    with Suc.prems(3) have k: "k = Suc n" by simp
    from Suc.prems(1) obtain m where m: "cap_up s i m" "(cap_up s ^^ n) m j"
      unfolding k by (metis relpowp_Suc_D2)
    from Suc.IH [OF m(2) Suc.prems(2)] have "cap_marked ?t m" by (simp add: cap_passes_iterate)
    with m(1) up show ?thesis by (metis cap_pass_facts(3))
  qed
  then show ?case by (simp add: cap_passes_iterate)
qed

section \<open>The derivation forest\<close>

definition cap_view :: "CapabilityTable \<Rightarrow> CapabilityId \<Rightarrow> CapSlot option" where
  "cap_view t = slot_view cs_occupied cs_id invalid_capability (cap_slots t)"

interpretation capt: slot_table cs_occupied cs_id invalid_capability cap_blank
  by unfold_locales (simp add: cap_blank_def)

text \<open>What a derived capability keeps of the one it was derived from.\<close>

definition cap_attenuates :: "CapSlot \<Rightarrow> CapSlot \<Rightarrow> bool" where
  "cap_attenuates child parent \<longleftrightarrow>
     cs_rights child AND NOT (cs_rights parent) = no_rights \<and> cs_object child = cs_object parent \<and>
     cs_bound child = cs_bound parent \<and> unat (cs_depth child) = unat (cs_depth parent) + 1 \<and>
     cs_transferable parent"

definition cap_slot_ok :: "CapSlot list \<Rightarrow> CapabilityId \<Rightarrow> CapSlot \<Rightarrow> bool" where
  "cap_slot_ok slots next s \<longleftrightarrow>
     \<not> cs_doomed s \<and> cs_holder s \<noteq> invalid_thread \<and> cs_object s \<noteq> invalid_object \<and>
     (next \<noteq> 0 \<longrightarrow> cs_id s < next) \<and> unat (cs_depth s) \<le> max_derivation_depth \<and>
     (cs_parent s = 0 \<longrightarrow> cs_depth s = 0) \<and>
     (cs_parent s \<noteq> 0 \<longrightarrow> (\<exists>p. cap_parent_of slots s = Some p \<and> cap_attenuates s (slots ! p)))"

definition cap_ok :: "CapabilityTable \<Rightarrow> bool" where
  "cap_ok t \<longleftrightarrow>
     slot_ok cs_occupied cs_id invalid_capability max_capabilities (cap_slots t) (cap_occupied t) \<and>
     (\<forall>s \<in> set (cap_slots t). cs_occupied s \<longrightarrow> cap_slot_ok (cap_slots t) (cap_next_id t) s) \<and>
     (\<forall>s \<in> set (cap_slots t). \<not> cs_occupied s \<longrightarrow> \<not> cs_doomed s)"

lemma cap_ok_empty: "cap_ok cap_empty"
  using capt.ok_blank [of max_capabilities]
  by (auto simp: cap_ok_def cap_empty_def cap_blank_def in_set_replicate)

lemma cap_ok_slot:
  assumes "cap_ok t" "i < length (cap_slots t)" "cs_occupied (cap_slots t ! i)"
  shows "cap_slot_ok (cap_slots t) (cap_next_id t) (cap_slots t ! i)"
  using assms by (simp add: cap_ok_def)

lemma cap_ok_unmarked: "cap_ok t \<Longrightarrow> i < length (cap_slots t) \<Longrightarrow> \<not> cs_doomed (cap_slots t ! i)"
  by (metis cap_ok_def cap_slot_ok_def nth_mem)

lemma cap_find_iff:
  "cap_ok t \<Longrightarrow> cap_find t c = Some i \<longleftrightarrow>
   i < length (cap_slots t) \<and> cs_occupied (cap_slots t ! i) \<and> cs_id (cap_slots t ! i) = c"
  unfolding cap_find_def cap_ok_def slot_ok_def by (simp add: capt.find_iff)

lemma cap_find_None: "cap_find t c = None \<longleftrightarrow> cap_view t c = None"
  by (simp add: cap_find_def cap_view_def capt.find_view_None)

lemma cap_find_view: "cap_find t c = Some i \<Longrightarrow> cap_view t c = Some (cap_slots t ! i)"
  by (simp add: cap_find_def cap_view_def capt.find_view_Some)

lemma cap_view_iff:
  "cap_ok t \<Longrightarrow> cap_view t c = Some s \<longleftrightarrow> s \<in> set (cap_slots t) \<and> cs_occupied s \<and> cs_id s = c"
  unfolding cap_view_def cap_ok_def slot_ok_def by (simp add: capt.view_iff)

lemma cap_view_slot_ok:
  "cap_ok t \<Longrightarrow> cap_view t c = Some s \<Longrightarrow> cap_slot_ok (cap_slots t) (cap_next_id t) s"
  by (simp add: cap_view_iff cap_ok_def)

text \<open>One derivation step, on identifiers: \<open>c\<close> was derived from \<open>p\<close>.\<close>

definition cap_child :: "(CapabilityId \<rightharpoonup> CapSlot) \<Rightarrow> CapabilityId \<Rightarrow> CapabilityId \<Rightarrow> bool" where
  "cap_child v c p \<longleftrightarrow> (\<exists>s. v c = Some s \<and> cs_parent s = p \<and> p \<noteq> 0)"

lemma cap_child_up:
  assumes "cap_ok t" "cap_find t c = Some i"
  shows "cap_child (cap_view t) c p \<longleftrightarrow> (\<exists>j. cap_up (cap_slots t) i j \<and> cap_find t p = Some j)"
proof -
  have i: "i < length (cap_slots t)" "cs_occupied (cap_slots t ! i)"
    using assms by (auto simp: cap_find_iff)
  note ok = cap_ok_slot [OF assms(1) i]
  show ?thesis
    using assms i ok cap_find_view [OF assms(2)]
    by (auto simp: cap_child_def cap_up_def cap_slot_ok_def cap_find_iff dest: cap_parent_of_SomeD)
qed

lemma cap_child_parent:
  assumes "cap_ok t" "cap_child (cap_view t) c p"
  obtains s q where "cap_view t c = Some s" "cap_view t p = Some q" "cap_attenuates s q"
proof -
  from assms(2) obtain s where s: "cap_view t c = Some s" "cs_parent s = p" "p \<noteq> 0"
    by (auto simp: cap_child_def)
  from cap_view_slot_ok [OF assms(1) s(1)] s obtain j
    where j: "cap_parent_of (cap_slots t) s = Some j" "cap_attenuates s (cap_slots t ! j)"
    by (auto simp: cap_slot_ok_def)
  from cap_parent_of_SomeD [OF j(1)] s have "cap_view t p = Some (cap_slots t ! j)"
    using assms(1) by (auto simp: cap_view_iff)
  with s j that show ?thesis by blast
qed

lemma cap_descends_up:
  assumes "cap_ok t" "cap_find t c = Some i" "(cap_child (cap_view t))\<^sup>*\<^sup>* c a"
  shows "\<exists>j. (cap_up (cap_slots t))\<^sup>*\<^sup>* i j \<and> cap_find t a = Some j"
  using assms(3)
proof (induction rule: rtranclp_induct)
  case base
  with assms(2) show ?case by blast
next
  case (step b a)
  then obtain j where j: "(cap_up (cap_slots t))\<^sup>*\<^sup>* i j" "cap_find t b = Some j" by blast
  with step.hyps(2) cap_child_up [OF assms(1) j(2)] show ?case
    by (meson rtranclp.rtrancl_into_rtrancl)
qed

lemma cap_up_descends:
  assumes "cap_ok t" "(cap_up (cap_slots t))\<^sup>*\<^sup>* i j" "cap_find t c = Some i" "cap_find t a = Some j"
  shows "(cap_child (cap_view t))\<^sup>*\<^sup>* c a"
  using assms(2,4)
proof (induction arbitrary: a rule: rtranclp_induct)
  case base
  with assms(1,3) show ?case by (auto simp: cap_find_iff)
next
  case (step k j)
  from step.hyps(2) have "cap_find t (cs_id (cap_slots t ! k)) = Some k"
    using assms(1) by (simp add: cap_find_iff cap_up_def)
  with step cap_child_up [OF assms(1) this] show ?case
    by (meson rtranclp.rtrancl_into_rtrancl)
qed

lemma cap_up_depth:
  assumes "cap_ok t" "(cap_up (cap_slots t) ^^ k) i j" "i < length (cap_slots t)"
    "cs_occupied (cap_slots t ! i)"
  shows "unat (cs_depth (cap_slots t ! i)) = k + unat (cs_depth (cap_slots t ! j)) \<and>
    k \<le> max_derivation_depth"
proof -
  have "unat (cs_depth (cap_slots t ! i)) = k + unat (cs_depth (cap_slots t ! j))"
    using assms(2-4)
  proof (induction k arbitrary: i)
    case (Suc k)
    from Suc.prems(1) obtain m where m: "cap_up (cap_slots t) i m" "(cap_up (cap_slots t) ^^ k) m j"
      by (metis relpowp_Suc_D2)
    from m(1) have pm: "cap_parent_of (cap_slots t) (cap_slots t ! i) = Some m" by (simp add: cap_up_def)
    from cap_parent_of_SomeD [OF pm] cap_ok_slot [OF assms(1) Suc.prems(2,3)] pm
    have "unat (cs_depth (cap_slots t ! i)) = unat (cs_depth (cap_slots t ! m)) + 1"
      by (auto simp: cap_slot_ok_def cap_attenuates_def)
    with Suc.IH [OF m(2)] cap_parent_of_SomeD [OF pm] show ?case by simp
  qed simp
  with cap_ok_slot [OF assms(1,3,4)] show ?thesis by (simp add: cap_slot_ok_def)
qed

text \<open>Removing a set of capabilities that contains the children of its members.\<close>

abbreviation cap_without :: "(CapabilityId \<Rightarrow> bool) \<Rightarrow> CapSlot list \<Rightarrow> CapSlot list" where
  "cap_without R slots \<equiv> map (\<lambda>s. if cs_occupied s \<and> R (cs_id s) then cap_blank else s) slots"

definition cap_removed :: "(CapabilityId \<Rightarrow> bool) \<Rightarrow> CapabilityTable \<Rightarrow> size_t" where
  "cap_removed R t = of_nat (length (filter (\<lambda>s. cs_occupied s \<and> R (cs_id s)) (cap_slots t)))"

lemma cap_without_parent_of:
  assumes "cap_parent_of slots s = Some p" "\<not> R (cs_parent s)"
  shows "cap_parent_of (cap_without R slots) s = Some p \<and> cap_without R slots ! p = slots ! p"
  using assms by (auto simp: cap_parent_of_def Let_def split: if_splits)

lemma cap_without_ok:
  assumes ok: "cap_ok t" and closed: "\<And>c p. cap_child (cap_view t) c p \<Longrightarrow> R p \<Longrightarrow> R c"
  shows "cap_ok (t\<lparr>cap_slots := cap_without R (cap_slots t),
      cap_occupied := cap_occupied t - cap_removed R t\<rparr>)"
    and "cap_view (t\<lparr>cap_slots := cap_without R (cap_slots t),
      cap_occupied := cap_occupied t - cap_removed R t\<rparr>) = (\<lambda>c. if R c then None else cap_view t c)"
proof -
  let ?t = "t\<lparr>cap_slots := cap_without R (cap_slots t),
    cap_occupied := cap_occupied t - cap_removed R t\<rparr>"
  have so: "slot_ok cs_occupied cs_id 0 max_capabilities (cap_slots t) (cap_occupied t)"
    using ok by (simp add: cap_ok_def)
  note cl = capt.clear_ok [OF so, where P = "\<lambda>s. R (cs_id s)", folded cap_removed_def]
  have keep: "cap_slot_ok (cap_without R (cap_slots t)) (cap_next_id t) s"
    if s: "s \<in> set (cap_slots t)" "cs_occupied s" "\<not> R (cs_id s)" for s
  proof -
    have so': "cap_slot_ok (cap_slots t) (cap_next_id t) s" using ok s by (simp add: cap_ok_def)
    show ?thesis
    proof (cases "cs_parent s = 0")
      case False
      then obtain p where p: "cap_parent_of (cap_slots t) s = Some p"
        "cap_attenuates s (cap_slots t ! p)" using so' by (auto simp: cap_slot_ok_def)
      have "cap_child (cap_view t) (cs_id s) (cs_parent s)"
        using ok s False by (auto simp: cap_child_def cap_view_iff)
      with closed s(3) have "\<not> R (cs_parent s)" by blast
      with cap_without_parent_of [OF p(1)] p(2) so' show ?thesis by (simp add: cap_slot_ok_def)
    qed (use so' in \<open>simp add: cap_slot_ok_def\<close>)
  qed
  have blank: "\<not> cs_occupied cap_blank" "\<not> cs_doomed cap_blank" by (simp_all add: cap_blank_def)
  show "cap_ok ?t"
    unfolding cap_ok_def
  proof (intro conjI)
    show "slot_ok cs_occupied cs_id 0 max_capabilities (cap_slots ?t) (cap_occupied ?t)"
      using cl(1) by simp
    show "\<forall>s \<in> set (cap_slots ?t). cs_occupied s \<longrightarrow> cap_slot_ok (cap_slots ?t) (cap_next_id ?t) s"
      using keep blank by auto
    show "\<forall>s \<in> set (cap_slots ?t). \<not> cs_occupied s \<longrightarrow> \<not> cs_doomed s"
      using ok blank by (auto simp: cap_ok_def)
  qed
  show "cap_view ?t = (\<lambda>c. if R c then None else cap_view t c)"
  proof
    fix c
    show "cap_view ?t c = (if R c then None else cap_view t c)"
      using cl(2) [of c] ok
      by (cases "cap_view t c") (auto simp: cap_view_def dest!: capt.view_SomeD)
  qed
qed

text \<open>The capabilities that have one of the marked ones above them (or are marked themselves).\<close>

definition cap_under :: "CapabilityTable \<Rightarrow> (CapabilityId \<Rightarrow> bool) \<Rightarrow> CapabilityId \<Rightarrow> bool" where
  "cap_under t M c \<longleftrightarrow> (\<exists>a. (cap_child (cap_view t))\<^sup>*\<^sup>* c a \<and> M a)"

lemma cap_sweep_marked:
  assumes ok: "cap_ok t" and er: "cap_erase s1 = cap_erase (cap_slots t)"
    and M: "\<And>i. i < length s1 \<Longrightarrow> cs_doomed (s1 ! i) \<longleftrightarrow>
      cs_occupied (cap_slots t ! i) \<and> M (cs_id (cap_slots t ! i))"
    and live: "\<And>a. M a \<Longrightarrow> cap_view t a \<noteq> None"
    and i: "i < length (cap_slots t)"
  shows "cs_doomed (cap_passes max_derivation_depth s1 ! i) \<longleftrightarrow>
    cs_occupied (cap_slots t ! i) \<and> cap_under t M (cs_id (cap_slots t ! i))"
proof -
  have len: "length s1 = length (cap_slots t)" "length (cap_passes n s1) = length (cap_slots t)" for n
    using cap_erase_length er cap_passes_erase by metis+
  have up: "cap_up s1 = cap_up (cap_slots t)" using er by (rule cap_erase_up)
  show ?thesis
  proof
    assume "cs_doomed (cap_passes max_derivation_depth s1 ! i)"
    with cap_passes_sound [where n = max_derivation_depth and s = s1 and i = i] i len up obtain j
      where j: "(cap_up (cap_slots t))\<^sup>*\<^sup>* i j" "cap_marked s1 j" by auto
    then have jo: "cs_occupied (cap_slots t ! j)" "M (cs_id (cap_slots t ! j))" using M [of j] by blast+
    have io: "cs_occupied (cap_slots t ! i)"
      using j(1) jo(1) by (cases rule: converse_rtranclpE) (auto simp: cap_up_def)
    have "cap_find t (cs_id (cap_slots t ! i)) = Some i" "cap_find t (cs_id (cap_slots t ! j)) = Some j"
      using ok i io j(2) jo len by (auto simp: cap_find_iff)
    with cap_up_descends [OF ok j(1)] jo io show "cs_occupied (cap_slots t ! i) \<and>
        cap_under t M (cs_id (cap_slots t ! i))" by (auto simp: cap_under_def)
  next
    assume a: "cs_occupied (cap_slots t ! i) \<and> cap_under t M (cs_id (cap_slots t ! i))"
    then obtain a where a: "(cap_child (cap_view t))\<^sup>*\<^sup>* (cs_id (cap_slots t ! i)) a" "M a"
      "cs_occupied (cap_slots t ! i)" by (auto simp: cap_under_def)
    have "cap_find t (cs_id (cap_slots t ! i)) = Some i" using ok i a(3) by (simp add: cap_find_iff)
    from cap_descends_up [OF ok this a(1)] obtain j
      where j: "(cap_up (cap_slots t))\<^sup>*\<^sup>* i j" "cap_find t a = Some j" by blast
    then obtain k where k: "(cap_up s1 ^^ k) i j" unfolding up by (auto simp: rtranclp_power)
    with cap_up_depth [OF ok _ i a(3), of k j] up have "k \<le> max_derivation_depth" by simp
    moreover have "cap_marked s1 j" using j(2) a(2) M [of j] ok len by (auto simp: cap_find_iff)
    ultimately show "cs_doomed (cap_passes max_derivation_depth s1 ! i)"
      using cap_passes_complete [OF k] by simp
  qed
qed

lemma cap_sweep_slots:
  assumes ok: "cap_ok t" and er: "cap_erase s1 = cap_erase (cap_slots t)"
    and M: "\<And>i. i < length s1 \<Longrightarrow> cs_doomed (s1 ! i) \<longleftrightarrow>
      cs_occupied (cap_slots t ! i) \<and> M (cs_id (cap_slots t ! i))"
    and live: "\<And>a. M a \<Longrightarrow> cap_view t a \<noteq> None"
  shows "cap_sweep_doomed (t\<lparr>cap_slots := s1\<rparr>) =
    (cap_removed (cap_under t M) t,
     t\<lparr>cap_slots := cap_without (cap_under t M) (cap_slots t),
       cap_occupied := cap_occupied t - cap_removed (cap_under t M) t\<rparr>)"
proof -
  define m where "m = cap_passes max_derivation_depth s1"
  let ?R = "cap_under t M"
  have erm: "cap_erase m = cap_erase (cap_slots t)" using er cap_passes_erase by (simp add: m_def)
  have len: "length m = length (cap_slots t)" using erm by (rule cap_erase_length)
  have d: "cs_doomed (m ! i) \<longleftrightarrow> cs_occupied (cap_slots t ! i) \<and> ?R (cs_id (cap_slots t ! i))"
    if "i < length (cap_slots t)" for i
    unfolding m_def by (rule cap_sweep_marked [OF ok er M live that]) auto
  have o: "cs_occupied (m ! i) = cs_occupied (cap_slots t ! i)" if "i < length (cap_slots t)" for i
    using cap_erase_fields(1) [OF erm] that len by simp
  have keep: "m ! i = cap_slots t ! i" if "i < length (cap_slots t)" "\<not> cs_doomed (m ! i)" for i
    using cap_erase_nth [OF erm, of i] that len cap_ok_unmarked [OF ok that(1)]
    by (simp add: cap_unmark)
  have slots: "map (\<lambda>s. if cs_occupied s \<and> cs_doomed s then cap_blank else s) m =
      cap_without ?R (cap_slots t)" (is "?l = ?r")
  proof (rule nth_equalityI)
    fix i assume "i < length ?l"
    then have i: "i < length (cap_slots t)" "i < length m" using len by simp_all
    show "?l ! i = ?r ! i"
    proof (cases "cs_doomed (m ! i)")
      case True
      with d [OF i(1)] o [OF i(1)] i show ?thesis by simp
    next
      case False
      with d [OF i(1)] keep [OF i(1)] i show ?thesis by auto
    qed
  qed (simp add: len)
  have "length (filter (\<lambda>s. cs_occupied s \<and> cs_doomed s) m) =
      length (filter (\<lambda>s. cs_occupied s \<and> ?R (cs_id s)) (cap_slots t))"
    unfolding length_filter_conv_card using len d o by (intro arg_cong [of _ _ card]) auto
  with slots show ?thesis
    by (simp add: cap_sweep_doomed_def cap_removed_def Let_def flip: m_def)
qed

section \<open>Every operation keeps the forest\<close>

lemma cap_parent_of_insert:
  assumes "cap_parent_of slots s = Some p" "\<not> cs_occupied (slots ! i)"
  shows "cap_parent_of (slots[i := e]) s = Some p \<and> slots[i := e] ! p = slots ! p"
proof -
  have "unat (cs_parent_slot s) \<noteq> i" using assms
    by (auto simp: cap_parent_of_def Let_def split: if_splits)
  with assms(1) show ?thesis by (auto simp: cap_parent_of_def Let_def split: if_splits)
qed

lemma cap_slot_ok_insert:
  assumes "cap_slot_ok slots next s" "\<not> cs_occupied (slots ! i)"
    and "next' \<noteq> 0 \<Longrightarrow> next \<noteq> 0 \<longrightarrow> cs_id s < next \<Longrightarrow> cs_id s < next'"
  shows "cap_slot_ok (slots[i := e]) next' s"
proof (cases "cs_parent s = 0")
  case False
  then obtain p where "cap_parent_of slots s = Some p" "cap_attenuates s (slots ! p)"
    using assms(1) by (auto simp: cap_slot_ok_def)
  with cap_parent_of_insert [OF _ assms(2), of s p e] False assms(1,3) show ?thesis
    by (simp add: cap_slot_ok_def)
qed (use assms(1,3) in \<open>simp add: cap_slot_ok_def\<close>)

lemma cap_next_fresh: "cap_ok t \<Longrightarrow> cap_next_id t \<noteq> 0 \<Longrightarrow> cap_view t (cap_next_id t) = None"
proof (rule ccontr)
  assume a: "cap_ok t" "cap_next_id t \<noteq> 0" "cap_view t (cap_next_id t) \<noteq> None"
  then obtain s where s: "cap_view t (cap_next_id t) = Some s" by blast
  with a(1) have "cs_id s = cap_next_id t" by (simp add: cap_view_iff)
  with cap_view_slot_ok [OF a(1) s] a(2) show False by (simp add: cap_slot_ok_def)
qed

lemma cap_place_cases:
  assumes ok: "cap_ok t" and e: "cs_id e = cap_next_id t" "cap_next_id t \<noteq> 0" "cs_occupied e"
    and so: "cap_slot_ok (cap_slots t) 0 e"
  obtains (full) "cap_place t e = (Inl cap_capability_limit, t)"
    | (placed) u where "cap_place t e = (Inr (cap_next_id t), u)" "cap_ok u"
      "cap_view u = (cap_view t)(cap_next_id t \<mapsto> e)" "cap_next_id u = cap_next_id t + 1"
proof (cases "first_index (\<lambda>s. \<not> cs_occupied s) (cap_slots t)")
  case None
  with full show ?thesis by (simp add: cap_place_def)
next
  case (Some i)
  let ?u = "t\<lparr>cap_slots := (cap_slots t)[i := e], cap_next_id := cap_next_id t + 1,
             cap_occupied := cap_occupied t + 1\<rparr>"
  have i: "i < length (cap_slots t)" "\<not> cs_occupied (cap_slots t ! i)"
    using first_index_SomeD [OF Some] by simp_all
  have sok: "slot_ok cs_occupied cs_id 0 max_capabilities (cap_slots t) (cap_occupied t)"
    using ok by (simp add: cap_ok_def)
  note ins = capt.insert_ok [OF sok Some, of e, unfolded e(1), folded cap_view_def,
      OF cap_next_fresh [OF ok e(2)] e(2,3)]
  have grow: "n + 1 \<noteq> 0 \<Longrightarrow> c \<le> n \<Longrightarrow> c < n + 1" for c n :: u64
    by (rule word_less_plus_one) (auto simp: eq_neg_iff_add_eq_0)
  have "cap_slot_ok (cap_slots ?u) (cap_next_id ?u) s" if "s \<in> set (cap_slots ?u)" "cs_occupied s" for s
  proof (cases "s = e")
    case True
    with so e(1,2) cap_slot_ok_insert [OF so i(2), of 0 e] grow show ?thesis
      by (auto simp: cap_slot_ok_def)
  next
    case False
    with that set_update_subset_insert [of "cap_slots t" i e] have s: "s \<in> set (cap_slots t)" by auto
    with ok that(2) have "cap_slot_ok (cap_slots t) (cap_next_id t) s" by (simp add: cap_ok_def)
    from cap_slot_ok_insert [OF this i(2), of "cap_next_id t + 1" e] grow e(2)
    show ?thesis by (simp add: less_imp_le)
  qed
  moreover have "\<not> cs_doomed s" if "s \<in> set (cap_slots ?u)" "\<not> cs_occupied s" for s
    using that ok e(3) set_update_subset_insert [of "cap_slots t" i e] by (auto simp: cap_ok_def)
  ultimately have "cap_ok ?u" using ins(1) by (simp add: cap_ok_def)
  moreover have "cap_view ?u = (cap_view t)(cap_next_id t \<mapsto> e)"
    using ins(2) by (simp add: cap_view_def)
  moreover have "cap_place t e = (Inr (cap_next_id t), ?u)" using Some e by (simp add: cap_place_def)
  ultimately show ?thesis using placed [of ?u] by simp
qed

text \<open>A derived entry as \<open>grant\<close> builds it is well formed.\<close>

lemma cap_derived_slot_ok:
  assumes "cap_ok t" "cap_find t c = Some p" "cs_parent e = c" "cs_parent_slot e = of_nat p"
    and "cs_rights e AND NOT (cs_rights (cap_slots t ! p)) = 0"
    and "unat (cs_depth (cap_slots t ! p)) + 1 \<le> max_derivation_depth"
    and "cs_depth e = cs_depth (cap_slots t ! p) + 1" "cs_object e = cs_object (cap_slots t ! p)"
    and "cs_bound e = cs_bound (cap_slots t ! p)" "\<not> cs_doomed e" "cs_holder e \<noteq> 0"
    and "cs_transferable (cap_slots t ! p)"
  shows "cap_slot_ok (cap_slots t) 0 e"
proof -
  have p: "p < max_capabilities" "p < length (cap_slots t)" "cs_occupied (cap_slots t ! p)"
    "cs_id (cap_slots t ! p) = c"
    using assms(1,2) by (auto simp: cap_find_iff cap_ok_def slot_ok_def)
  have c: "c \<noteq> 0" using assms(2) by (auto simp: cap_find_def)
  have up: "unat (of_nat p :: size_t) = p" using p(1) by (simp add: unat_of_nat take_bit_nat_eq_self)
  have "unat (cs_depth (cap_slots t ! p) + 1) = unat (cs_depth (cap_slots t ! p)) + 1"
    using assms(6) by (simp add: unat_word_ariths)
  with assms p c up cap_ok_slot [OF assms(1) p(2,3)] show ?thesis
    by (simp add: cap_slot_ok_def cap_attenuates_def cap_parent_of_def)
qed

lemma cap_root_slot_ok:
  "\<lbrakk>cs_parent e = 0; cs_depth e = 0; \<not> cs_doomed e; cs_holder e \<noteq> 0; cs_object e \<noteq> 0\<rbrakk> \<Longrightarrow>
   cap_slot_ok slots 0 e"
  by (simp add: cap_slot_ok_def)

text \<open>What one operation may do to the table as a map: nothing, add one fresh identifier, or
  remove a set of capabilities closed under derivation.\<close>

inductive cap_change :: "CapabilityTable \<Rightarrow> CapabilityTable \<Rightarrow> bool" where
  same: "cap_change t t"
| add: "\<lbrakk>cap_next_id t \<noteq> 0; cap_ok u; cap_view u = (cap_view t)(cap_next_id t \<mapsto> e);
     cs_id e = cap_next_id t; cap_next_id u = cap_next_id t + 1\<rbrakk> \<Longrightarrow> cap_change t u"
| drop: "\<lbrakk>cap_ok u; cap_view u = (\<lambda>c. if R c then None else cap_view t c);
     cap_next_id u = cap_next_id t\<rbrakk> \<Longrightarrow> cap_change t u"

lemma cap_place_change:
  assumes "cap_ok t" "cs_id e = cap_next_id t" "cap_next_id t \<noteq> 0" "cs_occupied e"
    "cap_slot_ok (cap_slots t) 0 e"
  shows "cap_change t (snd (cap_place t e))"
  by (cases rule: cap_place_cases [OF assms]) (use assms(2,3) in \<open>auto intro: cap_change.intros\<close>)

lemma cap_mint_change: "cap_ok t \<Longrightarrow> cap_change t (snd (cap_mint t h obj r tr))"
  unfolding cap_mint_def
  by (auto intro!: cap_change.same cap_place_change cap_root_slot_ok)

lemma cap_mint_ctx_change: "cap_ok t \<Longrightarrow> cap_change t (snd (cap_mint_ctx t h obj r tr))"
  unfolding cap_mint_ctx_def
  by (auto intro!: cap_change.same cap_place_change cap_root_slot_ok simp: authority_valid_def)

lemma cap_grant_change: "cap_ok t \<Longrightarrow> cap_change t (snd (cap_grant t g c h r tr))"
  unfolding cap_grant_def
  by (auto intro!: cap_change.same cap_place_change cap_derived_slot_ok simp: Let_def
      split: option.split)

lemma cap_grant_ctx_change: "cap_ok t \<Longrightarrow> cap_change t (snd (cap_grant_ctx t g c h r tr))"
  unfolding cap_grant_ctx_def
  by (auto intro!: cap_change.same cap_place_change cap_derived_slot_ok
      simp: Let_def cap_held_by_def authority_valid_def split: option.split)

lemma cap_sweep_ok:
  assumes "cap_ok t" "cap_erase s1 = cap_erase (cap_slots t)"
    and "\<And>i. i < length s1 \<Longrightarrow> cs_doomed (s1 ! i) \<longleftrightarrow>
      cs_occupied (cap_slots t ! i) \<and> M (cs_id (cap_slots t ! i))"
    and "\<And>a. M a \<Longrightarrow> cap_view t a \<noteq> None"
  shows "fst (cap_sweep_doomed (t\<lparr>cap_slots := s1\<rparr>)) = cap_removed (cap_under t M) t"
    and "cap_ok (snd (cap_sweep_doomed (t\<lparr>cap_slots := s1\<rparr>)))"
    and "cap_view (snd (cap_sweep_doomed (t\<lparr>cap_slots := s1\<rparr>))) =
      (\<lambda>c. if cap_under t M c then None else cap_view t c)"
    and "cap_next_id (snd (cap_sweep_doomed (t\<lparr>cap_slots := s1\<rparr>))) = cap_next_id t"
proof -
  have closed: "cap_under t M c" if "cap_child (cap_view t) c p" "cap_under t M p" for c p
    using that by (auto simp: cap_under_def intro: converse_rtranclp_into_rtranclp)
  note sw = cap_sweep_slots [OF assms]
  show "fst (cap_sweep_doomed (t\<lparr>cap_slots := s1\<rparr>)) = cap_removed (cap_under t M) t"
    and "cap_next_id (snd (cap_sweep_doomed (t\<lparr>cap_slots := s1\<rparr>))) = cap_next_id t"
    by (simp_all add: sw)
  show "cap_ok (snd (cap_sweep_doomed (t\<lparr>cap_slots := s1\<rparr>)))"
    and "cap_view (snd (cap_sweep_doomed (t\<lparr>cap_slots := s1\<rparr>))) =
      (\<lambda>c. if cap_under t M c then None else cap_view t c)"
    using cap_without_ok [OF assms(1) closed] by (simp_all add: sw)
qed

lemma cap_removed_card:
  assumes "cap_ok t"
  shows "cap_removed R t = of_nat (card {c. cap_view t c \<noteq> None \<and> R c})"
proof -
  let ?I = "{i. i < length (cap_slots t) \<and> cs_occupied (cap_slots t ! i) \<and> R (cs_id (cap_slots t ! i))}"
  have "inj_on (\<lambda>i. cs_id (cap_slots t ! i)) ?I"
  proof (rule inj_onI)
    fix i j
    assume "i \<in> ?I" "j \<in> ?I" "cs_id (cap_slots t ! i) = cs_id (cap_slots t ! j)"
    with cap_find_iff [OF assms, of "cs_id (cap_slots t ! j)" i]
      cap_find_iff [OF assms, of "cs_id (cap_slots t ! j)" j] show "i = j" by simp
  qed
  moreover have "(\<lambda>i. cs_id (cap_slots t ! i)) ` ?I = {c. cap_view t c \<noteq> None \<and> R c}" (is "?l = ?r")
  proof (rule set_eqI)
    fix c
    have "c \<in> ?r \<longleftrightarrow> (\<exists>i. cap_find t c = Some i) \<and> R c" by (simp flip: cap_find_None)
    also have "\<dots> \<longleftrightarrow> (\<exists>i. i \<in> ?I \<and> c = cs_id (cap_slots t ! i))"
      by (auto simp: cap_find_iff [OF assms])
    also have "\<dots> \<longleftrightarrow> c \<in> ?l" by (auto simp only: image_iff Bex_def)
    finally show "c \<in> ?l \<longleftrightarrow> c \<in> ?r" by (rule sym)
  qed
  ultimately have "card ?I = card {c. cap_view t c \<noteq> None \<and> R c}"
    using card_image [of "\<lambda>i. cs_id (cap_slots t ! i)" ?I] by simp
  then show ?thesis by (simp add: cap_removed_def length_filter_conv_card)
qed

abbreviation cap_descends :: "CapabilityTable \<Rightarrow> CapabilityId \<Rightarrow> CapabilityId \<Rightarrow> bool" where
  "cap_descends t d c \<equiv> (cap_child (cap_view t))\<^sup>*\<^sup>* d c"

lemma cap_doom_one:
  assumes "cap_ok t" "cap_find t c = Some i"
  shows "let u = cap_sweep_doomed (t\<lparr>cap_slots := (cap_slots t)[i := (cap_slots t ! i)\<lparr>cs_doomed := True\<rparr>]\<rparr>)
    in fst u = of_nat (card {d. cap_view t d \<noteq> None \<and> cap_descends t d c}) \<and> cap_ok (snd u) \<and>
       cap_view (snd u) = (\<lambda>d. if cap_descends t d c then None else cap_view t d) \<and>
       cap_next_id (snd u) = cap_next_id t"
proof -
  let ?s1 = "(cap_slots t)[i := (cap_slots t ! i)\<lparr>cs_doomed := True\<rparr>]"
  have i: "i < length (cap_slots t)" "cs_occupied (cap_slots t ! i)" "cs_id (cap_slots t ! i) = c"
    using assms by (auto simp: cap_find_iff)
  have er: "cap_erase ?s1 = cap_erase (cap_slots t)" using i(1) by (rule cap_erase_mark)
  have M: "cs_doomed (?s1 ! k) \<longleftrightarrow> cs_occupied (cap_slots t ! k) \<and> cs_id (cap_slots t ! k) = c"
    if "k < length ?s1" for k
  proof (cases "k = i")
    case False
    with that assms i cap_ok_unmarked [OF assms(1), of k] cap_find_iff [OF assms(1), of c k]
    show ?thesis by auto
  qed (use i in auto)
  have v: "a = c \<Longrightarrow> cap_view t a \<noteq> None" for a using cap_find_view [OF assms(2)] by simp
  have under: "cap_under t (\<lambda>a. a = c) d \<longleftrightarrow> cap_descends t d c" for d by (auto simp: cap_under_def)
  show ?thesis
    using cap_sweep_ok [OF assms(1) er M v] cap_removed_card [OF assms(1)]
    by (simp add: under Let_def)
qed

text \<open>The two conditions under which a revocation is allowed.\<close>

definition cap_over :: "CapabilityTable \<Rightarrow> (CapSlot \<Rightarrow> bool) \<Rightarrow> CapabilityId \<Rightarrow> bool" where
  "cap_over t H c \<longleftrightarrow> (\<exists>s. cap_view t c = Some s \<and>
     (H s \<or> (\<exists>p. cap_child (cap_view t) c (cs_parent s) \<and> cap_view t (cs_parent s) = Some p \<and> H p)))"

lemma cap_over_find:
  assumes "cap_ok t" "cap_find t c = Some i"
  shows "cap_over t H c \<longleftrightarrow> H (cap_slots t ! i) \<or>
    (case cap_parent_of (cap_slots t) (cap_slots t ! i) of None \<Rightarrow> False | Some p \<Rightarrow> H (cap_slots t ! p))"
proof -
  have i: "i < length (cap_slots t)" "cs_occupied (cap_slots t ! i)"
    using assms by (auto simp: cap_find_iff)
  have v: "cap_view t c = Some (cap_slots t ! i)" using assms(2) by (rule cap_find_view)
  show ?thesis
  proof (cases "cap_parent_of (cap_slots t) (cap_slots t ! i)")
    case None
    then have "cs_parent (cap_slots t ! i) = 0"
      using cap_ok_slot [OF assms(1) i] by (auto simp: cap_slot_ok_def)
    with None v show ?thesis by (simp add: cap_over_def cap_child_def)
  next
    case (Some p)
    note pd = cap_parent_of_SomeD [OF Some]
    have "cap_view t (cs_parent (cap_slots t ! i)) = Some (cap_slots t ! p)"
      using pd assms(1) by (simp add: cap_view_iff)
    with Some v pd show ?thesis by (auto simp: cap_over_def cap_child_def)
  qed
qed

lemma cap_over_None: "cap_find t c = None \<Longrightarrow> \<not> cap_over t H c"
  by (simp add: cap_over_def cap_find_None)

text \<open>Both overloads of \<open>revoke\<close> in one form.\<close>

lemma cap_revoke_form:
  assumes "cap_ok t" "revoker \<noteq> 0" "c \<noteq> 0"
  shows "cap_revoke t revoker c =
    (case cap_find t c of None \<Rightarrow> (Inl cap_unknown_capability, t)
     | Some i \<Rightarrow> if cap_over t (\<lambda>s. \<not> cs_bound s \<and> cs_holder s = revoker) c
        then map_prod Inr id (cap_sweep_doomed
          (t\<lparr>cap_slots := (cap_slots t)[i := (cap_slots t ! i)\<lparr>cs_doomed := True\<rparr>]\<rparr>))
        else (Inl cap_not_revocable, t))"
  using assms by (auto simp: cap_revoke_def Let_def cap_over_find split: option.splits)

lemma cap_revoke_ctx_form:
  assumes "cap_ok t" "authority_valid revoker" "c \<noteq> 0"
  shows "cap_revoke_ctx t revoker c =
    (case cap_find t c of None \<Rightarrow> (Inl cap_unknown_capability, t)
     | Some i \<Rightarrow> if cap_over t (\<lambda>s. cap_held_by s revoker) c
        then map_prod Inr id (cap_sweep_doomed
          (t\<lparr>cap_slots := (cap_slots t)[i := (cap_slots t ! i)\<lparr>cs_doomed := True\<rparr>]\<rparr>))
        else (Inl cap_not_revocable, t))"
  using assms by (auto simp: cap_revoke_ctx_def Let_def cap_over_find split: option.splits)

lemma cap_revoke_invalid:
  "revoker = 0 \<or> c = 0 \<Longrightarrow> \<exists>e. cap_revoke t revoker c = (Inl e, t)"
  "\<not> authority_valid a \<or> c = 0 \<Longrightarrow> \<exists>e. cap_revoke_ctx t a c = (Inl e, t)"
  by (auto simp: cap_revoke_def cap_revoke_ctx_def)

text \<open>What a sweep from one target establishes, for either overload.\<close>

definition cap_revoked ::
  "CapabilityTable \<Rightarrow> CapabilityId \<Rightarrow> size_t result \<times> CapabilityTable \<Rightarrow> bool" where
  "cap_revoked t c res \<longleftrightarrow>
     fst res = Inr (of_nat (card {d. cap_view t d \<noteq> None \<and> cap_descends t d c})) \<and>
     cap_view (snd res) = (\<lambda>d. if cap_descends t d c then None else cap_view t d)"

lemma cap_revoke_result:
  assumes "cap_ok t" "revoker \<noteq> 0" "c \<noteq> 0"
  shows "if cap_over t (\<lambda>s. \<not> cs_bound s \<and> cs_holder s = revoker) c
    then cap_revoked t c (cap_revoke t revoker c)
    else \<exists>e. cap_revoke t revoker c = (Inl e, t)"
  using cap_over_None [of t c] cap_doom_one [OF assms(1), of c]
  by (auto simp: cap_revoke_form [OF assms] cap_revoked_def Let_def split: option.splits)

lemma cap_revoke_ctx_result:
  assumes "cap_ok t" "authority_valid revoker" "c \<noteq> 0"
  shows "if cap_over t (\<lambda>s. cap_held_by s revoker) c
    then cap_revoked t c (cap_revoke_ctx t revoker c)
    else \<exists>e. cap_revoke_ctx t revoker c = (Inl e, t)"
  using cap_over_None [of t c] cap_doom_one [OF assms(1), of c]
  by (auto simp: cap_revoke_ctx_form [OF assms] cap_revoked_def Let_def split: option.splits)

lemma cap_doom_one_change:
  assumes "cap_ok t" "cap_find t c = Some i"
  shows "cap_change t (snd (cap_sweep_doomed
    (t\<lparr>cap_slots := (cap_slots t)[i := (cap_slots t ! i)\<lparr>cs_doomed := True\<rparr>]\<rparr>)))"
  using cap_doom_one [OF assms] cap_change.drop [where R = "\<lambda>d. cap_descends t d c" and t = t]
  by (simp add: Let_def)

lemma cap_revoke_change: "cap_ok t \<Longrightarrow> cap_change t (snd (cap_revoke t revoker c))"
proof (cases "revoker = 0 \<or> c = 0")
  case True
  with cap_revoke_invalid(1) [OF True, of t] show ?thesis by (auto intro: cap_change.same)
next
  case False
  assume "cap_ok t"
  with False show ?thesis
    by (auto simp: cap_revoke_form intro: cap_change.same cap_doom_one_change split: option.split)
qed

lemma cap_revoke_ctx_change: "cap_ok t \<Longrightarrow> cap_change t (snd (cap_revoke_ctx t revoker c))"
proof (cases "\<not> authority_valid revoker \<or> c = 0")
  case True
  with cap_revoke_invalid(2) [OF True, of t] show ?thesis by (auto intro: cap_change.same)
next
  case False
  assume "cap_ok t"
  with False show ?thesis
    by (auto simp: cap_revoke_ctx_form intro: cap_change.same cap_doom_one_change split: option.split)
qed

text \<open>Administrative teardown.\<close>

definition cap_held_id :: "CapabilityTable \<Rightarrow> ThreadId \<Rightarrow> CapabilityId \<Rightarrow> bool" where
  "cap_held_id t h c \<longleftrightarrow> (\<exists>s. cap_view t c = Some s \<and> cs_holder s = h)"

lemma cap_revoke_all_ok:
  assumes "cap_ok t" "h \<noteq> 0"
  shows "fst (cap_revoke_all_held_by t h) =
      of_nat (card {c. cap_view t c \<noteq> None \<and> cap_under t (cap_held_id t h) c})"
    and "cap_ok (snd (cap_revoke_all_held_by t h))"
    and "cap_view (snd (cap_revoke_all_held_by t h)) =
      (\<lambda>c. if cap_under t (cap_held_id t h) c then None else cap_view t c)"
    and "cap_next_id (snd (cap_revoke_all_held_by t h)) = cap_next_id t"
proof -
  let ?f = "\<lambda>s. if \<not> cs_occupied s \<or> cs_holder s \<noteq> h then s else s\<lparr>cs_doomed := True\<rparr>"
  let ?s1 = "map ?f (cap_slots t)"
  have er: "cap_erase ?s1 = cap_erase (cap_slots t)" by (simp add: cap_erase_def)
  have M: "cs_doomed (?s1 ! k) \<longleftrightarrow>
      cs_occupied (cap_slots t ! k) \<and> cap_held_id t h (cs_id (cap_slots t ! k))"
    if k: "k < length ?s1" for k
  proof -
    have "cs_occupied (cap_slots t ! k) \<Longrightarrow>
        cap_view t (cs_id (cap_slots t ! k)) = Some (cap_slots t ! k)"
      using k assms(1) by (simp add: cap_view_iff)
    with k cap_ok_unmarked [OF assms(1), of k] show ?thesis by (auto simp: cap_held_id_def)
  qed
  have v: "cap_held_id t h a \<Longrightarrow> cap_view t a \<noteq> None" for a by (auto simp: cap_held_id_def)
  note sw = cap_sweep_ok [OF assms(1) er M v] cap_removed_card [OF assms(1)]
  have "fst (cap_revoke_all_held_by t h) =
      of_nat (card {c. cap_view t c \<noteq> None \<and> cap_under t (cap_held_id t h) c}) \<and>
    cap_ok (snd (cap_revoke_all_held_by t h)) \<and>
    cap_view (snd (cap_revoke_all_held_by t h)) =
      (\<lambda>c. if cap_under t (cap_held_id t h) c then None else cap_view t c) \<and>
    cap_next_id (snd (cap_revoke_all_held_by t h)) = cap_next_id t"
  proof (cases "list_ex (\<lambda>s. cs_occupied s \<and> cs_holder s = h) (cap_slots t)")
    case True
    with sw assms show ?thesis by (simp add: cap_revoke_all_held_by_def)
  next
    case False
    then have "\<not> cap_held_id t h c" for c
      using assms(1) by (auto simp: cap_held_id_def cap_view_iff list_ex_iff)
    then have none: "\<not> cap_under t (cap_held_id t h) c" for c by (simp add: cap_under_def)
    have "?s1 = cap_slots t" using False by (intro map_idI) (auto simp: list_ex_iff)
    with False none assms show ?thesis by (simp add: cap_revoke_all_held_by_def)
  qed
  then show "fst (cap_revoke_all_held_by t h) =
      of_nat (card {c. cap_view t c \<noteq> None \<and> cap_under t (cap_held_id t h) c})"
    and "cap_ok (snd (cap_revoke_all_held_by t h))"
    and "cap_view (snd (cap_revoke_all_held_by t h)) =
      (\<lambda>c. if cap_under t (cap_held_id t h) c then None else cap_view t c)"
    and "cap_next_id (snd (cap_revoke_all_held_by t h)) = cap_next_id t"
    by blast+
qed

lemma cap_revoke_all_change: "cap_ok t \<Longrightarrow> cap_change t (snd (cap_revoke_all_held_by t h))"
proof (cases "h = 0")
  case True
  then show ?thesis by (simp add: cap_revoke_all_held_by_def cap_change.same)
next
  case False
  assume "cap_ok t"
  from cap_revoke_all_ok [OF this False] show ?thesis by (auto intro: cap_change.drop)
qed

section \<open>Runs of the table\<close>

inductive cap_method :: "CapabilityTable \<Rightarrow> CapabilityTable \<Rightarrow> bool" where
  "cap_method t (snd (cap_mint t h obj r tr))"
| "cap_method t (snd (cap_mint_ctx t ha obj r tr))"
| "cap_method t (snd (cap_grant t g c h r tr))"
| "cap_method t (snd (cap_grant_ctx t ga c ha r tr))"
| "cap_method t (snd (cap_revoke t h c))"
| "cap_method t (snd (cap_revoke_ctx t ha c))"
| "cap_method t (snd (cap_revoke_all_held_by t h))"

lemmas cap_changes = cap_mint_change cap_mint_ctx_change cap_grant_change cap_grant_ctx_change
  cap_revoke_change cap_revoke_ctx_change cap_revoke_all_change

lemma cap_method_change: "cap_method t u \<Longrightarrow> cap_ok t \<Longrightarrow> cap_change t u"
  by (induction rule: cap_method.induct) (simp_all add: cap_changes)

lemma cap_change_ok: "cap_change t u \<Longrightarrow> cap_ok t \<Longrightarrow> cap_ok u"
  by (induction rule: cap_change.induct) simp_all

definition cap_live :: "CapabilityTable \<Rightarrow> CapabilityId \<Rightarrow> bool" where
  "cap_live t c \<longleftrightarrow> is_ok (cap_describe t c)"

definition cap_spent :: "CapabilityTable \<Rightarrow> CapabilityId \<Rightarrow> bool" where
  "cap_spent t c \<longleftrightarrow> (cap_next_id t = 0 \<or> c < cap_next_id t) \<and> \<not> cap_live t c"

lemma cap_live_view: "cap_live t c \<longleftrightarrow> cap_view t c \<noteq> None"
proof (cases "c = 0")
  case True
  then show ?thesis by (simp add: cap_live_def cap_describe_def cap_view_def)
next
  case False
  then show ?thesis
    using cap_find_None [of t c]
    by (auto simp: cap_live_def cap_describe_def Let_def split: option.splits)
qed

interpretation capid: identity_authority cap_ok cap_live cap_spent cap_method
proof
  fix t u c
  show "cap_ok t \<Longrightarrow> cap_method t u \<Longrightarrow> cap_ok u"
    using cap_method_change cap_change_ok by blast
  show "cap_ok t \<Longrightarrow> cap_spent t c \<Longrightarrow> \<not> cap_live t c" by (simp add: cap_spent_def)
  assume ok: "cap_ok t" and m: "cap_method t u"
  have grow: "n \<noteq> 0 \<Longrightarrow> c < n \<Longrightarrow> n + 1 \<noteq> 0 \<Longrightarrow> c < n + 1" for n :: u64
    by (rule word_less_plus_one) (auto simp: eq_neg_iff_add_eq_0)
  have below: "cap_live t c \<Longrightarrow> cap_next_id t = 0 \<or> c < cap_next_id t"
    using ok by (auto simp: cap_live_view cap_view_iff cap_ok_def cap_slot_ok_def)
  from m ok have "cap_change t u" by (rule cap_method_change)
  then have "(cap_spent t c \<longrightarrow> cap_spent u c) \<and> (cap_live t c \<longrightarrow> cap_live u c \<or> cap_spent u c)"
    using below grow
    by (induction rule: cap_change.induct) (auto simp: cap_spent_def cap_live_view)
  then show "cap_spent t c \<Longrightarrow> cap_spent u c" "cap_live t c \<Longrightarrow> cap_live u c \<or> cap_spent u c"
    by blast+
qed

lemma cap_run_ok: "cap_method\<^sup>*\<^sup>* cap_empty t \<Longrightarrow> cap_ok t"
  by (erule capid.inv_run) (rule cap_ok_empty)

text \<open>A capability identifier is never reused.  Once a capability that could be described has
  been revoked, no later sequence of minting, granting and revoking makes its identifier name a
  capability again.\<close>

theorem cap_id_never_reused:
  assumes "cap_method\<^sup>*\<^sup>* cap_empty t" "is_ok (cap_describe t c)"
    and "cap_method\<^sup>*\<^sup>* t u" "\<not> is_ok (cap_describe u c)" "cap_method\<^sup>*\<^sup>* u w"
  shows "\<not> is_ok (cap_describe w c)"
  using capid.no_resurrection [OF cap_run_ok [OF assms(1)], of c u w] assms
  by (simp add: cap_live_def)

lemma subset_rights_trans:
  "\<lbrakk>(a :: Rights) AND NOT b = 0; b AND NOT c = 0\<rbrakk> \<Longrightarrow> a AND NOT c = 0"
  by (simp add: bit_eq_iff bit_simps)

text \<open>C36: Authority only shrinks along a derivation.  In every reachable state, a capability derived
  (in any number of steps) from another names the same object, carries no right the other lacks,
  is bound to an execution context exactly when the other is, and sits at most eight levels down.\<close>

theorem cap_no_amplification:
  assumes "cap_method\<^sup>*\<^sup>* cap_empty t" "(cap_child (cap_view t))\<^sup>*\<^sup>* d c"
    and "cap_view t d = Some x" "cap_view t c = Some y"
  shows "cs_rights x AND NOT (cs_rights y) = no_rights \<and> cs_object x = cs_object y \<and>
    cs_bound x = cs_bound y \<and> unat (cs_depth y) \<le> unat (cs_depth x) \<and>
    unat (cs_depth x) \<le> max_derivation_depth"
proof -
  note ok = cap_run_ok [OF assms(1)]
  from assms(2,4) have "cs_rights x AND NOT (cs_rights y) = no_rights \<and> cs_object x = cs_object y \<and>
    cs_bound x = cs_bound y \<and> unat (cs_depth y) \<le> unat (cs_depth x)"
  proof (induction arbitrary: y rule: rtranclp_induct)
    case base
    with assms(3) show ?case by (simp add: bit_eq_iff bit_simps)
  next
    case (step b a)
    from cap_child_parent [OF ok step.hyps(2)] step.prems obtain s
      where s: "cap_view t b = Some s" "cap_attenuates s y" by auto
    from step.IH [OF s(1)] s(2) show ?case
      by (auto simp: cap_attenuates_def intro: subset_rights_trans)
  qed
  with cap_view_slot_ok [OF ok assms(3)] show ?thesis by (simp add: cap_slot_ok_def)
qed

text \<open>C35: Revocation is exact.  In every reachable state and for every valid execution authority,
  \<open>revoke\<close> either changes nothing, or the caller held the capability or the one it was derived
  from, and then exactly the capability and everything derived from it, at whatever distance,
  is gone; every other capability is as it was; the number returned is the number removed.\<close>

theorem cap_revoke_ctx_exact:
  assumes "cap_method\<^sup>*\<^sup>* cap_empty t" "authority_valid a" "c \<noteq> invalid_capability"
  shows "if cap_over t (\<lambda>s. cap_held_by s a) c
    then fst (cap_revoke_ctx t a c) =
           Inr (of_nat (card {d. cap_view t d \<noteq> None \<and> (cap_child (cap_view t))\<^sup>*\<^sup>* d c})) \<and>
         cap_view (snd (cap_revoke_ctx t a c)) =
           (\<lambda>d. if (cap_child (cap_view t))\<^sup>*\<^sup>* d c then None else cap_view t d)
    else \<exists>e. cap_revoke_ctx t a c = (Inl e, t)"
  using cap_revoke_ctx_result [OF cap_run_ok [OF assms(1)] assms(2,3)]
  unfolding cap_revoked_def .

text \<open>The operations that name a bare thread cannot touch a context-bound capability, in any
  reachable state: they do not see it as held, cannot derive from it, and cannot revoke it.\<close>

theorem cap_context_isolation:
  assumes "cap_method\<^sup>*\<^sup>* cap_empty t" "cap_view t c = Some s" "cs_bound s"
  shows "\<not> cap_holds t h c \<and> (\<exists>e. cap_grant t h c to r tr = (Inl e, t)) \<and>
    (\<exists>e. cap_revoke t h c = (Inl e, t))"
proof -
  note ok = cap_run_ok [OF assms(1)]
  obtain i where i: "cap_find t c = Some i" "cap_slots t ! i = s"
    using assms(2) by (auto simp: cap_view_def cap_find_def slot_view_def)
  have c: "c \<noteq> 0" using i(1) by (auto simp: cap_find_def)
  have "\<not> cap_over t (\<lambda>s. \<not> cs_bound s \<and> cs_holder s = h) c"
  proof
    assume "cap_over t (\<lambda>s. \<not> cs_bound s \<and> cs_holder s = h) c"
    with assms(2,3) obtain p where p: "cap_child (cap_view t) c (cs_parent s)"
      "cap_view t (cs_parent s) = Some p" "\<not> cs_bound p" by (auto simp: cap_over_def)
    from cap_child_parent [OF ok p(1)] obtain s' q where
      "cap_view t c = Some s'" "cap_view t (cs_parent s) = Some q" "cap_attenuates s' q" by blast
    with p(2,3) assms(2,3) show False by (simp add: cap_attenuates_def)
  qed
  then have "\<exists>e. cap_revoke t h c = (Inl e, t)"
    using cap_revoke_result [OF ok, of h c] cap_revoke_invalid(1) [of h c t] c by auto
  moreover have "\<exists>e. cap_grant t h c to r tr = (Inl e, t)"
    using i assms(3) by (simp add: cap_grant_def)
  ultimately show ?thesis using i assms(3) by (simp add: cap_holds_def)
qed

text \<open>Teardown of a thread leaves it nothing.  In every reachable state revoke_all_held_by
  removes exactly the capabilities the thread holds, bound or not, and everything derived from
  them, whoever holds that; afterwards the thread holds nothing.\<close>

theorem cap_revoke_all_exact:
  assumes "cap_method\<^sup>*\<^sup>* cap_empty t" "h \<noteq> invalid_thread"
  shows "cap_view (snd (cap_revoke_all_held_by t h)) =
      (\<lambda>d. if \<exists>c s. (cap_child (cap_view t))\<^sup>*\<^sup>* d c \<and> cap_view t c = Some s \<and> cs_holder s = h
           then None else cap_view t d) \<and>
    cap_count_held_by (snd (cap_revoke_all_held_by t h)) h = 0"
proof -
  note ok = cap_run_ok [OF assms(1)]
  let ?u = "snd (cap_revoke_all_held_by t h)"
  note all = cap_revoke_all_ok [OF ok assms(2)]
  have v: "cap_view ?u = (\<lambda>d. if \<exists>c s. (cap_child (cap_view t))\<^sup>*\<^sup>* d c \<and> cap_view t c = Some s \<and>
      cs_holder s = h then None else cap_view t d)"
    unfolding all(3) by (simp add: cap_under_def cap_held_id_def)
  have "cs_holder s \<noteq> h" if "s \<in> set (cap_slots ?u)" "cs_occupied s" for s
  proof
    assume h: "cs_holder s = h"
    have "cap_view ?u (cs_id s) = Some s" using all(2) that by (simp add: cap_view_iff)
    with h show False unfolding v by (auto split: if_splits)
  qed
  then have "filter (\<lambda>s. cs_occupied s \<and> cs_holder s = h) (cap_slots ?u) = []"
    by (auto simp: filter_empty_conv)
  with v show ?thesis by (simp add: cap_count_held_by_def)
qed

text \<open>What a successful grant proves and does.  If \<open>grant\<close> returns an identifier, the granter
  held the capability in its exact execution context, the capability was transferable, the rights
  asked for were among its rights and it was less than eight levels deep; the table gains exactly
  one capability, under an identifier that named nothing, for the same object, held by the recipient.\<close>

theorem cap_grant_ctx_spec:
  assumes "cap_method\<^sup>*\<^sup>* cap_empty t" "cap_grant_ctx t g c to r tr = (Inr d, u)"
  shows "cap_holds_ctx t g c \<and> cap_holds_ctx u to d \<and> cap_view t d = None \<and>
    (\<exists>p e. cap_view t c = Some p \<and> cs_transferable p \<and> r AND NOT (cs_rights p) = no_rights \<and>
       unat (cs_depth p) < max_derivation_depth \<and>
       cap_view u = (cap_view t)(d \<mapsto> e) \<and> cs_parent e = c \<and> cs_object e = cs_object p \<and>
       cs_rights e = r \<and> cs_transferable e = tr \<and> cs_depth e = cs_depth p + 1)"
proof -
  note ok = cap_run_ok [OF assms(1)]
  obtain i where i: "cap_find t c = Some i"
    using assms(2) by (cases "cap_find t c") (auto simp: cap_grant_ctx_def split: if_splits)
  let ?p = "cap_slots t ! i"
  let ?e = "\<lparr>cs_id = cap_next_id t, cs_parent = c, cs_object = cs_object ?p,
    cs_rights = r, cs_holder = ea_thread to, cs_parent_slot = of_nat i, cs_transferable = tr,
    cs_depth = cs_depth ?p + 1, cs_occupied = True, cs_doomed = False, cs_space = ea_space to,
    cs_bound = True\<rparr>"
  have g: "authority_valid g" "authority_valid to" "cap_held_by ?p g" "cs_transferable ?p"
    "r AND NOT (cs_rights ?p) = no_rights" "unat (cs_depth ?p) + 1 \<le> max_derivation_depth"
    "cap_next_id t \<noteq> 0" "cap_place t ?e = (Inr d, u)"
    using assms(2) i by (auto simp: cap_grant_ctx_def Let_def split: if_splits)
  have so: "cap_slot_ok (cap_slots t) 0 ?e"
    by (rule cap_derived_slot_ok [OF ok i]) (use g in \<open>simp_all add: cap_held_by_def authority_valid_def\<close>)
  have u: "d = cap_next_id t" "cap_view u = (cap_view t)(d \<mapsto> ?e)"
    by (cases rule: cap_place_cases [OF ok _ g(7) _ so]; use g(8) in simp)+
  have fresh: "cap_view t d = None" using cap_next_fresh [OF ok g(7)] u(1) by simp
  have "cap_view u d = Some ?e" using u by simp
  then have "cap_holds_ctx u to d"
    using g(2) by (auto simp: cap_holds_ctx_def cap_held_by_def cap_view_def cap_find_def slot_view_def)
  moreover have "cap_holds_ctx t g c" using g i by (simp add: cap_holds_ctx_def)
  ultimately show ?thesis using fresh u(2) g cap_find_view [OF i] by auto
qed

section \<open>A concrete run\<close>

text \<open>Three execution contexts; the first mints a capability, passes a weaker one to the second,
  which passes a still weaker one to the third.\<close>

definition cap_who :: "ThreadId \<Rightarrow> ExecutionAuthority" where
  "cap_who n = \<lparr>ea_thread = n, ea_space = \<lparr>asi_slot = ucast n, asi_generation = 1\<rparr>\<rparr>"

definition cap_example :: CapabilityTable where
  "cap_example =
     snd (cap_grant_ctx
       (snd (cap_grant_ctx (snd (cap_mint_ctx cap_empty (cap_who 1) 9 7 True))
          (cap_who 1) 1 (cap_who 2) 3 True))
       (cap_who 2) 2 (cap_who 3) 1 False)"

definition cap_example_slot ::
  "CapabilityId \<Rightarrow> CapabilityId \<Rightarrow> size_t \<Rightarrow> ThreadId \<Rightarrow> Rights \<Rightarrow> u8 \<Rightarrow> bool \<Rightarrow> CapSlot" where
  "cap_example_slot c p ps h r d tr =
     \<lparr>cs_id = c, cs_parent = p, cs_object = 9, cs_rights = r, cs_holder = h, cs_parent_slot = ps,
      cs_transferable = tr, cs_depth = d, cs_occupied = True, cs_doomed = False,
      cs_space = ea_space (cap_who h), cs_bound = True\<rparr>"

lemma cap_example_reachable: "cap_method\<^sup>*\<^sup>* cap_empty cap_example"
  unfolding cap_example_def
  by (rule rtranclp.rtrancl_into_rtrancl [OF rtranclp.rtrancl_into_rtrancl
        [OF r_into_rtranclp]]) (rule cap_method.intros)+

lemma cap_example_view:
  "cap_view cap_example 1 = Some (cap_example_slot 1 0 0 1 7 0 True)"
  "cap_view cap_example 2 = Some (cap_example_slot 2 1 0 2 3 1 True)"
  "cap_view cap_example 3 = Some (cap_example_slot 3 2 1 3 1 2 False)"
  by code_simp+

lemma cap_example_chain: "(cap_child (cap_view cap_example))\<^sup>*\<^sup>* 3 1"
proof -
  have "cap_child (cap_view cap_example) 3 2" "cap_child (cap_view cap_example) 2 1"
    by (simp_all add: cap_child_def cap_example_view cap_example_slot_def)
  then show ?thesis by (meson converse_rtranclp_into_rtranclp rtranclp.rtrancl_refl)
qed

theorem cap_no_amplification_witness:
  "(1 :: Rights) AND NOT 7 = no_rights \<and> cs_object (cap_example_slot 3 2 1 3 1 2 False) = 9"
  using cap_no_amplification [OF cap_example_reachable cap_example_chain
      cap_example_view(3) cap_example_view(1)]
  by (simp add: cap_example_slot_def)

theorem cap_revoke_ctx_exact_witness:
  "cap_view (snd (cap_revoke_ctx cap_example (cap_who 1) 1)) 3 = None \<and>
   is_ok (fst (cap_revoke_ctx cap_example (cap_who 1) 1))"
proof -
  have v: "authority_valid (cap_who 1)" by code_simp
  have "cap_held_by (cap_example_slot 1 0 0 1 7 0 True) (cap_who 1)" by code_simp
  then have o: "cap_over cap_example (\<lambda>s. cap_held_by s (cap_who 1)) 1"
    by (auto simp: cap_over_def cap_example_view)
  from cap_revoke_ctx_exact [OF cap_example_reachable v, of 1] o cap_example_chain
  show ?thesis by (simp split: if_splits)
qed

theorem cap_context_isolation_witness:
  "cs_bound (cap_example_slot 1 0 0 1 7 0 True) \<and> \<not> cap_holds cap_example 1 1 \<and>
   (\<exists>e. cap_revoke cap_example 1 1 = (Inl e, cap_example))"
proof -
  have b: "cs_bound (cap_example_slot 1 0 0 1 7 0 True)" by code_simp
  from cap_context_isolation [OF cap_example_reachable cap_example_view(1) b, of 1] b
  show ?thesis by blast
qed

theorem cap_revoke_all_exact_witness:
  "cap_count_held_by cap_example 1 = 1 \<and>
   cap_count_held_by (snd (cap_revoke_all_held_by cap_example 1)) 1 = 0 \<and>
   cap_view (snd (cap_revoke_all_held_by cap_example 1)) 3 = None"
proof -
  have "cs_holder (cap_example_slot 1 0 0 1 7 0 True) = 1" by code_simp
  moreover have "cap_count_held_by cap_example 1 = 1" by code_simp
  ultimately show ?thesis
    using cap_revoke_all_exact [OF cap_example_reachable, of 1] cap_example_chain
      cap_example_view(1) by auto
qed

definition cap_example_gone :: CapabilityTable where
  "cap_example_gone = snd (cap_revoke_ctx cap_example (cap_who 3) 3)"

theorem cap_id_never_reused_witness:
  "is_ok (cap_describe cap_example 3) \<and>
   \<not> is_ok (cap_describe (snd (cap_mint_ctx cap_example_gone (cap_who 3) 9 1 False)) 3)"
proof -
  have live: "is_ok (cap_describe cap_example 3)" by code_simp
  have step: "cap_method\<^sup>*\<^sup>* cap_example cap_example_gone"
    unfolding cap_example_gone_def by (rule r_into_rtranclp) (rule cap_method.intros)
  have "cap_over cap_example (\<lambda>s. cap_held_by s (cap_who 3)) 3"
    by (auto simp: cap_over_def cap_example_view cap_held_by_def cap_example_slot_def cap_who_def
        authority_valid_def identity_valid_def)
  moreover have v: "authority_valid (cap_who 3)" by code_simp
  ultimately have "cap_view cap_example_gone 3 = None"
    using cap_revoke_ctx_result [OF cap_run_ok [OF cap_example_reachable] v, of 3]
    by (simp add: cap_revoked_def cap_example_gone_def)
  then have gone: "\<not> is_ok (cap_describe cap_example_gone 3)"
    using cap_live_view [of cap_example_gone 3] by (simp add: cap_live_def)
  have again: "cap_method\<^sup>*\<^sup>* cap_example_gone (snd (cap_mint_ctx cap_example_gone (cap_who 3) 9 1 False))"
    by (rule r_into_rtranclp) (rule cap_method.intros)
  from live cap_id_never_reused [OF cap_example_reachable live step gone again] show ?thesis by blast
qed

theorem cap_grant_ctx_spec_witness:
  "\<exists>u. cap_grant_ctx cap_example (cap_who 1) 1 (cap_who 4) 5 True = (Inr 4, u) \<and>
     cap_holds_ctx u (cap_who 4) 4"
proof -
  have "fst (cap_grant_ctx cap_example (cap_who 1) 1 (cap_who 4) 5 True) = Inr 4" by code_simp
  then obtain u where u: "cap_grant_ctx cap_example (cap_who 1) 1 (cap_who 4) 5 True = (Inr 4, u)"
    by (metis prod.collapse)
  with cap_grant_ctx_spec [OF cap_example_reachable u] show ?thesis by blast
qed

end
