(* ===== verification/Fault.thy ===== *)
theory Fault
  imports Capability
begin

text \<open>
  What userland may learn about a page fault and how the question reaches a pager:
  fault_region.hpp/.cpp and fault_delivery.hpp/.cpp of src/core/oskernel.  Prefixes: \<open>fr_\<close> for
  \<open>FaultRegionTable\<close>, \<open>fd_\<close> for \<open>FaultDeliveryTable\<close>.  The lemmas show that declared regions are
  disjoint, that a region is announced at most twice in its life and only for its own addresses,
  and that a question is collected once and answered to the thread that faulted.
\<close>

section \<open>Regions\<close>

type_synonym FaultRegionId = u16

abbreviation invalid_fault_region :: FaultRegionId where "invalid_fault_region \<equiv> 0"
abbreviation max_fault_regions :: nat where "max_fault_regions \<equiv> 32"

abbreviation "fr_invalid_range \<equiv> kernel_error 1"
abbreviation "fr_overlaps \<equiv> kernel_error 2"
abbreviation "fr_exhausted \<equiv> kernel_error 3"
abbreviation "fr_not_found \<equiv> kernel_error 4"
abbreviation "fr_wrong_state \<equiv> kernel_error 5"

datatype FaultDisclosure = fdc_paged | fdc_sealed
datatype FaultRegionState = frs_unbacked | frs_backed_shared | frs_backed_private
datatype FaultDisposition = fdp_deliver | fdp_terminate

record FaultReport =
  frp_region :: FaultRegionId
  frp_disposition :: FaultDisposition
  frp_write :: bool

definition report_deliverable :: "FaultReport \<Rightarrow> bool" where
  "report_deliverable r \<longleftrightarrow> frp_disposition r = fdp_deliver \<and> frp_region r \<noteq> invalid_fault_region"

record FrSlot =
  fr_base :: u64
  fr_length :: u64
  fr_id :: FaultRegionId
  fr_disclosure :: FaultDisclosure
  fr_state :: FaultRegionState
  fr_announced_backing :: bool
  fr_announced_private :: bool
  fr_occupied :: bool

record FaultRegionTable =
  fr_slots :: "FrSlot list"
  fr_occupied_n :: size_t
  fr_next_id :: FaultRegionId

definition fr_blank :: FrSlot where
  "fr_blank = \<lparr>fr_base = 0, fr_length = 0, fr_id = invalid_fault_region, fr_disclosure = fdc_sealed,
     fr_state = frs_unbacked, fr_announced_backing = False, fr_announced_private = False,
     fr_occupied = False\<rparr>"

definition fr_empty :: FaultRegionTable where
  "fr_empty = \<lparr>fr_slots = replicate max_fault_regions fr_blank, fr_occupied_n = 0, fr_next_id = 1\<rparr>"

abbreviation fault_region_granule :: u64 where "fault_region_granule \<equiv> 4096"

definition fr_aligned :: "u64 \<Rightarrow> bool" where
  "fr_aligned value \<longleftrightarrow> value AND (fault_region_granule - 1) = 0"

definition fr_overlap :: "u64 \<Rightarrow> u64 \<Rightarrow> u64 \<Rightarrow> u64 \<Rightarrow> bool" where
  "fr_overlap a_base a_length b_base b_length \<longleftrightarrow>
     a_base < b_base + b_length \<and> b_base < a_base + a_length"

definition fr_find :: "FaultRegionTable \<Rightarrow> FaultRegionId \<Rightarrow> nat option" where
  "fr_find t region = slot_find fr_occupied fr_id invalid_fault_region (fr_slots t) region"

definition fr_declare ::
  "FaultRegionTable \<Rightarrow> u64 \<Rightarrow> u64 \<Rightarrow> FaultDisclosure \<Rightarrow> FaultRegionId result \<times> FaultRegionTable" where
  "fr_declare t base len disclosure =
     (if len = 0 \<or> \<not> fr_aligned base \<or> \<not> fr_aligned len \<or> base > - 1 - len
      then (Inl fr_invalid_range, t)
      else if list_ex (\<lambda>s. fr_occupied s \<and> fr_overlap (fr_base s) (fr_length s) base len) (fr_slots t)
      then (Inl fr_overlaps, t)
      else if fr_next_id t = - 1 then (Inl fr_exhausted, t)
      else case first_index (\<lambda>s. \<not> fr_occupied s) (fr_slots t) of
          None \<Rightarrow> (Inl fr_exhausted, t)
        | Some i \<Rightarrow>
            (Inr (fr_next_id t),
             t\<lparr>fr_slots := (fr_slots t)[i := \<lparr>fr_base = base, fr_length = len, fr_id = fr_next_id t,
                  fr_disclosure = disclosure, fr_state = frs_unbacked, fr_announced_backing = False,
                  fr_announced_private = False, fr_occupied = True\<rparr>],
               fr_occupied_n := fr_occupied_n t + 1, fr_next_id := fr_next_id t + 1\<rparr>))"

definition fr_mark_backed ::
  "FaultRegionTable \<Rightarrow> FaultRegionId \<Rightarrow> FaultRegionState \<Rightarrow> unit result \<times> FaultRegionTable" where
  "fr_mark_backed t region state =
     (case fr_find t region of
        None \<Rightarrow> (Inl fr_not_found, t)
      | Some i \<Rightarrow>
          if state = frs_unbacked then (Inl fr_wrong_state, t)
          else (Inr (), t\<lparr>fr_slots := (fr_slots t)[i := (fr_slots t ! i)\<lparr>fr_state := state\<rparr>]\<rparr>))"

definition fr_hit :: "u64 \<Rightarrow> FrSlot \<Rightarrow> bool" where
  "fr_hit va s \<longleftrightarrow> fr_occupied s \<and> va \<ge> fr_base s \<and> va - fr_base s < fr_length s"

definition fr_resolve :: "FaultRegionTable \<Rightarrow> u64 \<Rightarrow> bool \<Rightarrow> FaultReport \<times> FaultRegionTable" where
  "fr_resolve t va w =
     (let report = \<lparr>frp_region = invalid_fault_region, frp_disposition = fdp_terminate, frp_write = w\<rparr> in
      case first_index (fr_hit va) (fr_slots t) of
        None \<Rightarrow> (report, t)
      | Some i \<Rightarrow>
          let hit = fr_slots t ! i;
              told = \<lparr>frp_region = fr_id hit, frp_disposition = fdp_deliver, frp_write = w\<rparr> in
          if fr_disclosure hit = fdc_sealed then (report, t)
          else if fr_state hit = frs_unbacked then
            (if fr_announced_backing hit then (report, t)
             else (told, t\<lparr>fr_slots := (fr_slots t)[i := hit\<lparr>fr_announced_backing := True\<rparr>]\<rparr>))
          else if w \<and> fr_state hit = frs_backed_shared then
            (if fr_announced_private hit then (report, t)
             else (told, t\<lparr>fr_slots := (fr_slots t)[i := hit\<lparr>fr_announced_private := True\<rparr>]\<rparr>))
          else (report, t))"

definition fr_state_of :: "FaultRegionTable \<Rightarrow> FaultRegionId \<Rightarrow> FaultRegionState result" where
  "fr_state_of t region =
     (case fr_find t region of None \<Rightarrow> Inl fr_not_found | Some i \<Rightarrow> Inr (fr_state (fr_slots t ! i)))"

definition fr_count :: "FaultRegionTable \<Rightarrow> size_t" where
  "fr_count t = fr_occupied_n t"

section \<open>The invariant of the region table\<close>

interpretation frt: slot_table fr_occupied fr_id invalid_fault_region fr_blank
  by unfold_locales (simp add: fr_blank_def)

definition fr_apart :: "FrSlot \<Rightarrow> FrSlot \<Rightarrow> bool" where
  "fr_apart s r \<longleftrightarrow> unat (fr_base s) + unat (fr_length s) \<le> unat (fr_base r) \<or>
     unat (fr_base r) + unat (fr_length r) \<le> unat (fr_base s)"

definition fr_view :: "FaultRegionTable \<Rightarrow> FaultRegionId \<Rightarrow> FrSlot option" where
  "fr_view t = slot_view fr_occupied fr_id invalid_fault_region (fr_slots t)"

definition fr_ok :: "FaultRegionTable \<Rightarrow> bool" where
  "fr_ok t \<longleftrightarrow>
     slot_ok fr_occupied fr_id invalid_fault_region max_fault_regions (fr_slots t) (fr_occupied_n t) \<and>
     fr_next_id t \<noteq> 0 \<and>
     (\<forall>k s. fr_view t k = Some s \<longrightarrow> k < fr_next_id t \<and> unat (fr_base s) + unat (fr_length s) < 2 ^ 64) \<and>
     (\<forall>j k s r. fr_view t j = Some s \<longrightarrow> fr_view t k = Some r \<longrightarrow> j \<noteq> k \<longrightarrow> fr_apart s r)"

lemma fr_ok_empty: "fr_ok fr_empty"
  using frt.ok_blank [of max_fault_regions] frt.view_blank [of max_fault_regions]
  by (simp add: fr_ok_def fr_empty_def fr_view_def)

lemma fr_slot_ok:
  "fr_ok t \<Longrightarrow> slot_ok fr_occupied fr_id invalid_fault_region max_fault_regions (fr_slots t) (fr_occupied_n t)"
  by (simp add: fr_ok_def)

lemma fr_find_view:
  "fr_find t k = None \<longleftrightarrow> fr_view t k = None"
  "fr_find t k = Some i \<Longrightarrow> fr_view t k = Some (fr_slots t ! i)"
  by (simp_all add: fr_find_def fr_view_def frt.find_view_None frt.find_view_Some)

lemma fr_view_mem:
  assumes "fr_ok t"
  shows "fr_view t k = Some s \<longleftrightarrow> s \<in> set (fr_slots t) \<and> fr_occupied s \<and> fr_id s = k"
proof -
  have "slot_wf fr_occupied fr_id 0 (fr_slots t)" using fr_slot_ok [OF assms] by (simp add: slot_ok_def)
  then show ?thesis by (force simp: fr_view_def frt.view_iff in_set_conv_nth)
qed

text \<open>Rewriting the slot of one region, range and identifier kept.\<close>

lemma fr_ok_touch:
  assumes "fr_ok t" "fr_find t k = Some i" "fr_view t k = Some s"
    and "fr_occupied s'" "fr_id s' = k" "fr_base s' = fr_base s" "fr_length s' = fr_length s"
  shows "fr_ok (t\<lparr>fr_slots := (fr_slots t)[i := s']\<rparr>)"
    and "fr_view (t\<lparr>fr_slots := (fr_slots t)[i := s']\<rparr>) = (fr_view t)(k \<mapsto> s')"
proof -
  note st = frt.store_ok [OF fr_slot_ok [OF assms(1)] assms(2) [unfolded fr_find_def] assms(4,5)]
  show v: "fr_view (t\<lparr>fr_slots := (fr_slots t)[i := s']\<rparr>) = (fr_view t)(k \<mapsto> s')"
    using st(2) by (simp add: fr_view_def)
  have "unat (fr_base r) + unat (fr_length r) < 2 ^ 64 \<and> j < fr_next_id t"
    if "((fr_view t)(k \<mapsto> s')) j = Some r" for j r
    using that assms(1,3,6,7) by (auto simp: fr_ok_def split: if_splits)
  moreover have "fr_apart x y" if "((fr_view t)(k \<mapsto> s')) a = Some x" "((fr_view t)(k \<mapsto> s')) b = Some y"
    "a \<noteq> b" for a b x y
  proof -
    have "\<exists>x' y'. fr_view t a = Some x' \<and> fr_view t b = Some y' \<and> fr_base x = fr_base x' \<and>
        fr_length x = fr_length x' \<and> fr_base y = fr_base y' \<and> fr_length y = fr_length y'"
      using that assms(3,6,7) by (auto split: if_splits)
    with that(3) assms(1) show ?thesis unfolding fr_ok_def fr_apart_def by metis
  qed
  ultimately show "fr_ok (t\<lparr>fr_slots := (fr_slots t)[i := s']\<rparr>)"
    using st(1) assms(1) unfolding fr_ok_def v by simp
qed

lemma fr_declare_cases:
  assumes "fr_ok t"
  obtains (refused) e where "fr_declare t b l d = (Inl e, t)"
    | (declared) u s where "fr_declare t b l d = (Inr (fr_next_id t), u)" "fr_ok u"
      "fr_view t (fr_next_id t) = None" "fr_view u = (fr_view t)(fr_next_id t \<mapsto> s)"
      "s = \<lparr>fr_base = b, fr_length = l, fr_id = fr_next_id t, fr_disclosure = d, fr_state = frs_unbacked,
         fr_announced_backing = False, fr_announced_private = False, fr_occupied = True\<rparr>"
proof (cases "l = 0 \<or> \<not> fr_aligned b \<or> \<not> fr_aligned l \<or> b > - 1 - l \<or>
    list_ex (\<lambda>s. fr_occupied s \<and> fr_overlap (fr_base s) (fr_length s) b l) (fr_slots t) \<or>
    fr_next_id t = - 1 \<or> first_index (\<lambda>s. \<not> fr_occupied s) (fr_slots t) = None")
  case True
  then have "\<exists>e. fr_declare t b l d = (Inl e, t)" by (auto simp: fr_declare_def)
  with refused show ?thesis by blast
next
  case False
  then obtain i where i: "first_index (\<lambda>s. \<not> fr_occupied s) (fr_slots t) = Some i" by auto
  let ?n = "fr_next_id t"
  define s where "s = \<lparr>fr_base = b, fr_length = l, fr_id = ?n, fr_disclosure = d, fr_state = frs_unbacked,
     fr_announced_backing = False, fr_announced_private = False, fr_occupied = True\<rparr>"
  define u where "u = t\<lparr>fr_slots := (fr_slots t)[i := s], fr_occupied_n := fr_occupied_n t + 1,
    fr_next_id := ?n + 1\<rparr>"
  have free: "fr_view t ?n = None" using assms by (cases "fr_view t ?n") (auto simp: fr_ok_def)
  have nz: "?n \<noteq> 0" "?n + 1 \<noteq> 0" using assms False by (simp_all add: fr_ok_def) (metis eq_neg_iff_add_eq_0)
  note ins = frt.insert_ok [OF fr_slot_ok [OF assms] i, of s]
  have v: "fr_view u = (fr_view t)(?n \<mapsto> s)" using ins(2) free nz by (simp add: fr_view_def u_def s_def)
  have small: "unat b + unat l < 2 ^ 64" using False by (simp add: max_minus_less not_le add.commute)
  have new: "fr_apart s r" if "fr_view t k = Some r" for k r
  proof -
    have "unat (fr_base r) + unat (fr_length r) < 2 ^ 64" using assms that by (auto simp: fr_ok_def)
    note dis = word_range_overlap [OF this small]
    have "\<not> fr_overlap (fr_base r) (fr_length r) b l"
      using False that fr_view_mem [OF assms, of k r] by (auto simp: list_ex_iff)
    then show ?thesis unfolding fr_overlap_def dis by (auto simp: fr_apart_def s_def not_less)
  qed
  have below: "j < ?n + 1" if "j \<le> ?n" for j using that False word_less_plus_one by blast
  have "k < ?n + 1 \<and> unat (fr_base r) + unat (fr_length r) < 2 ^ 64" if "fr_view u k = Some r" for k r
    using that assms small below unfolding v
    by (auto simp: fr_ok_def s_def less_imp_le split: if_splits)
  moreover have "fr_apart x y" if "fr_view u j = Some x" "fr_view u k = Some y" "j \<noteq> k" for j k x y
    using that assms new unfolding v fr_ok_def by (auto simp: fr_apart_def disj_commute split: if_splits)
  ultimately have "fr_ok u" using ins(1) free nz unfolding fr_ok_def by (simp add: u_def s_def fr_view_def)
  moreover have "fr_declare t b l d = (Inr ?n, u)"
    using False i by (simp add: fr_declare_def u_def s_def)
  ultimately show ?thesis using declared [OF _ _ free v s_def] by blast
qed

lemma fr_mark_backed_cases:
  assumes "fr_ok t"
  obtains (refused) e where "fr_mark_backed t k st = (Inl e, t)"
    | (marked) u s where "fr_mark_backed t k st = (Inr (), u)" "fr_ok u" "st \<noteq> frs_unbacked"
      "fr_view t k = Some s" "fr_view u = (fr_view t)(k \<mapsto> s\<lparr>fr_state := st\<rparr>)"
proof (cases "fr_find t k")
  case None
  with refused show ?thesis by (simp add: fr_mark_backed_def)
next
  case (Some i)
  note v = fr_find_view(2) [OF Some]
  have oc: "fr_occupied (fr_slots t ! i)" "fr_id (fr_slots t ! i) = k"
    using fr_view_mem [OF assms] v by auto
  note touch = fr_ok_touch [OF assms Some v, of "(fr_slots t ! i)\<lparr>fr_state := st\<rparr>"]
  show ?thesis
  proof (cases "st = frs_unbacked")
    case True
    with Some refused show ?thesis by (simp add: fr_mark_backed_def)
  next
    case False
    with Some touch oc marked [OF _ _ False v] show ?thesis by (simp add: fr_mark_backed_def)
  qed
qed

lemma fr_resolve_cases:
  assumes "fr_ok t"
  obtains (silent) "fr_resolve t va w =
      (\<lparr>frp_region = invalid_fault_region, frp_disposition = fdp_terminate, frp_write = w\<rparr>, t)"
    | (told) k s s' u where "fr_resolve t va w =
        (\<lparr>frp_region = k, frp_disposition = fdp_deliver, frp_write = w\<rparr>, u)" "fr_ok u"
      "fr_view t k = Some s" "fr_hit va s" "fr_disclosure s = fdc_paged" "fr_view u = (fr_view t)(k \<mapsto> s')"
      "fr_state s = frs_unbacked \<and> \<not> fr_announced_backing s \<and> s' = s\<lparr>fr_announced_backing := True\<rparr> \<or>
       fr_state s = frs_backed_shared \<and> w \<and> \<not> fr_announced_private s \<and> s' = s\<lparr>fr_announced_private := True\<rparr>"
proof (cases "first_index (fr_hit va) (fr_slots t)")
  case None
  with silent show ?thesis by (simp add: fr_resolve_def)
next
  case (Some i)
  define s where "s = fr_slots t ! i"
  have i: "i < length (fr_slots t)" "fr_hit va s" using first_index_SomeD [OF Some] by (simp_all add: s_def)
  then have v: "fr_view t (fr_id s) = Some s"
    using fr_view_mem [OF assms, of "fr_id s" s] by (simp add: s_def fr_hit_def)
  have f: "fr_find t (fr_id s) = Some i"
    using fr_slot_ok [OF assms] i v fr_view_mem [OF assms, of "fr_id s" s]
    by (auto simp: fr_find_def frt.find_iff slot_ok_def slot_wf_def s_def fr_hit_def)
  have oc: "fr_occupied s" using i(2) by (simp add: fr_hit_def)
  note touch = fr_ok_touch [OF assms f v]
  consider "fr_disclosure s = fdc_sealed \<or> fr_state s = frs_unbacked \<and> fr_announced_backing s \<or>
      fr_state s \<noteq> frs_unbacked \<and> (\<not> w \<or> fr_state s \<noteq> frs_backed_shared \<or> fr_announced_private s)"
    | "fr_disclosure s = fdc_paged" "fr_state s = frs_unbacked" "\<not> fr_announced_backing s"
    | "fr_disclosure s = fdc_paged" "fr_state s = frs_backed_shared" w "\<not> fr_announced_private s"
    by (cases "fr_disclosure s"; cases "fr_state s") auto
  then show ?thesis
  proof cases
    case 1
    then have "fr_resolve t va w =
        (\<lparr>frp_region = invalid_fault_region, frp_disposition = fdp_terminate, frp_write = w\<rparr>, t)"
      using Some by (auto simp: fr_resolve_def Let_def s_def [symmetric])
    then show ?thesis by (rule silent)
  next
    case 2
    note t2 = touch [of "s\<lparr>fr_announced_backing := True\<rparr>"]
    have "fr_resolve t va w = (\<lparr>frp_region = fr_id s, frp_disposition = fdp_deliver, frp_write = w\<rparr>,
        t\<lparr>fr_slots := (fr_slots t)[i := s\<lparr>fr_announced_backing := True\<rparr>]\<rparr>)"
      using 2 Some by (simp add: fr_resolve_def Let_def s_def [symmetric])
    then show ?thesis by (rule told [OF _ t2(1) v i(2) 2(1) t2(2)]) (use 2 oc in simp_all)
  next
    case 3
    note t3 = touch [of "s\<lparr>fr_announced_private := True\<rparr>"]
    have "fr_resolve t va w = (\<lparr>frp_region = fr_id s, frp_disposition = fdp_deliver, frp_write = w\<rparr>,
        t\<lparr>fr_slots := (fr_slots t)[i := s\<lparr>fr_announced_private := True\<rparr>]\<rparr>)"
      using 3 Some by (simp add: fr_resolve_def Let_def s_def [symmetric])
    then show ?thesis by (rule told [OF _ t3(1) v i(2) 3(1) t3(2)]) (use 3 oc in simp_all)
  qed
qed

section \<open>A region is announced at most twice\<close>

datatype FrEvent = fe_declare u64 u64 FaultDisclosure | fe_backed FaultRegionId FaultRegionState
  | fe_fault u64 bool

fun fr_event :: "FrEvent \<Rightarrow> FaultRegionTable \<Rightarrow> FaultReport list \<times> FaultRegionTable" where
  "fr_event (fe_declare b l d) t = ([], snd (fr_declare t b l d))"
| "fr_event (fe_backed k st) t = ([], snd (fr_mark_backed t k st))"
| "fr_event (fe_fault va w) t = (let (r, u) = fr_resolve t va w in ([r], u))"

fun fr_events :: "FrEvent list \<Rightarrow> FaultRegionTable \<Rightarrow> FaultReport list \<times> FaultRegionTable" where
  "fr_events [] t = ([], t)"
| "fr_events (e # es) t =
     (let (rs, u) = fr_event e t; (qs, v) = fr_events es u in (rs @ qs, v))"

definition fr_told :: "FaultRegionId \<Rightarrow> FaultReport list \<Rightarrow> nat" where
  "fr_told k rs = length (filter (\<lambda>r. report_deliverable r \<and> frp_region r = k) rs)"

definition fr_budget :: "FaultRegionTable \<Rightarrow> FaultRegionId \<Rightarrow> nat" where
  "fr_budget t k = (case fr_view t k of None \<Rightarrow> 2 | Some s \<Rightarrow>
     (if fr_announced_backing s then 0 else 1) + (if fr_announced_private s then 0 else 1))"

lemma fr_event_ok:
  assumes "fr_ok t"
  shows "fr_ok (snd (fr_event e t)) \<and> fr_told k (fst (fr_event e t)) + fr_budget (snd (fr_event e t)) k \<le> fr_budget t k"
proof (cases e)
  case (fe_declare b l d)
  with assms show ?thesis
    by (cases rule: fr_declare_cases [OF assms, of b l d])
       (auto simp: fr_told_def fr_budget_def split: option.split)
next
  case (fe_backed j st)
  with assms show ?thesis
    by (cases rule: fr_mark_backed_cases [OF assms, of j st])
       (auto simp: fr_told_def fr_budget_def split: option.split)
next
  case (fe_fault va w)
  with assms show ?thesis
    by (cases rule: fr_resolve_cases [OF assms, of va w])
       (auto simp: fr_told_def fr_budget_def report_deliverable_def split: option.split)
qed

lemma fr_told_append: "fr_told k (xs @ ys) = fr_told k xs + fr_told k ys"
  by (simp add: fr_told_def)

lemma fr_events_ok:
  "fr_ok t \<Longrightarrow> fr_ok (snd (fr_events es t)) \<and>
     fr_told k (fst (fr_events es t)) + fr_budget (snd (fr_events es t)) k \<le> fr_budget t k"
proof (induction es arbitrary: t)
  case (Cons e es)
  note step = fr_event_ok [OF Cons.prems, of e k]
  with Cons.IH [of "snd (fr_event e t)"] show ?case by (simp add: split_beta fr_told_append Let_def)
qed (simp add: fr_told_def)

text \<open>What a pager can learn about a region is bounded.  Whatever regions are declared, whatever is
  backed and whichever addresses fault, in any order, each region is announced at most twice in
  its whole life; a fault is announced only if a declared region that is not sealed contains its
  address, it is announced under that region's identifier, and no other region contains the
  address.\<close>

theorem fr_announced_at_most_twice:
  "fr_told k (fst (fr_events es fr_empty)) \<le> 2 \<and>
   (case fr_resolve (snd (fr_events es fr_empty)) va w of (r, _) \<Rightarrow>
      \<not> report_deliverable r \<or>
      (\<exists>s. fr_view (snd (fr_events es fr_empty)) (frp_region r) = Some s \<and> fr_hit va s \<and>
         fr_disclosure s = fdc_paged \<and>
         (\<forall>j x. fr_view (snd (fr_events es fr_empty)) j = Some x \<and> fr_hit va x \<longrightarrow> j = frp_region r)))"
proof -
  define t where "t = snd (fr_events es fr_empty)"
  have ok: "fr_ok t" and told: "fr_told k (fst (fr_events es fr_empty)) \<le> 2"
    using fr_events_ok [OF fr_ok_empty, of es k] frt.view_blank [of max_fault_regions]
    by (simp_all add: t_def fr_budget_def fr_view_def fr_empty_def)
  have bounds: "unat (fr_base x) \<le> unat va \<and> unat va < unat (fr_base x) + unat (fr_length x)"
    if "fr_hit va x" for x
    using that unat_sub [of "fr_base x" va] by (auto simp: fr_hit_def word_le_nat_alt word_less_nat_alt)
  have uniq: "j = i" if "fr_view t i = Some s" "fr_hit va s" "fr_view t j = Some x" "fr_hit va x" for i j s x
  proof (rule ccontr)
    assume "j \<noteq> i"
    then have "fr_apart x s" using ok that(1,3) unfolding fr_ok_def by blast
    with bounds [OF that(2)] bounds [OF that(4)] show False unfolding fr_apart_def by linarith
  qed
  have "case fr_resolve t va w of (r, _) \<Rightarrow> \<not> report_deliverable r \<or>
      (\<exists>s. fr_view t (frp_region r) = Some s \<and> fr_hit va s \<and> fr_disclosure s = fdc_paged \<and>
         (\<forall>j x. fr_view t j = Some x \<and> fr_hit va x \<longrightarrow> j = frp_region r))"
    using ok
  proof (cases rule: fr_resolve_cases [where va = va and w = w])
    case silent
    then show ?thesis by (simp add: report_deliverable_def)
  next
    case (told k s s' u)
    have "\<forall>j x. fr_view t j = Some x \<and> fr_hit va x \<longrightarrow> j = k" using uniq [OF told(3,4)] by blast
    with told(3,4,5) have "\<exists>s. fr_view t k = Some s \<and> fr_hit va s \<and> fr_disclosure s = fdc_paged \<and>
         (\<forall>j x. fr_view t j = Some x \<and> fr_hit va x \<longrightarrow> j = k)" by blast
    with told(1) show ?thesis by (simp only: prod.case FaultReport.simps simp_thms)
  qed
  with told show ?thesis by (simp add: t_def)
qed

theorem fr_announced_at_most_twice_witness:
  "fr_told 1 (fst (fr_events [fe_declare 4096 8192 fdc_paged, fe_fault 5000 False, fe_fault 6000 True,
       fe_backed 1 frs_backed_shared, fe_fault 7000 True, fe_fault 8000 True] fr_empty)) = 2 \<and>
   fr_told 1 (fst (fr_events [fe_declare 4096 8192 fdc_paged, fe_fault 5000 False, fe_fault 6000 True,
       fe_backed 1 frs_backed_shared, fe_fault 7000 True, fe_fault 8000 True] fr_empty)) \<le> 2"
proof (intro conjI)
  show "fr_told 1 (fst (fr_events [fe_declare 4096 8192 fdc_paged, fe_fault 5000 False, fe_fault 6000 True,
       fe_backed 1 frs_backed_shared, fe_fault 7000 True, fe_fault 8000 True] fr_empty)) \<le> 2"
    by (rule fr_announced_at_most_twice [THEN conjunct1])
qed code_simp

section \<open>Deliveries\<close>

abbreviation "fd_invalid_thread \<equiv> kernel_error 300"
abbreviation "fd_already_armed \<equiv> kernel_error 301"
abbreviation "fd_not_armed \<equiv> kernel_error 302"
abbreviation "fd_not_delivered \<equiv> kernel_error 303"
abbreviation "fd_exhausted \<equiv> kernel_error 304"
abbreviation "fd_invalid_capability \<equiv> kernel_error 305"

abbreviation max_fault_deliveries :: nat where "max_fault_deliveries \<equiv> 16"

record FaultDelivery =
  fdl_region :: FaultRegionId
  fdl_faulting :: ThreadId
  fdl_write :: bool

definition no_delivery :: FaultDelivery where
  "no_delivery = \<lparr>fdl_region = invalid_fault_region, fdl_faulting = invalid_thread, fdl_write = False\<rparr>"

definition delivery_valid :: "FaultDelivery \<Rightarrow> bool" where
  "delivery_valid d \<longleftrightarrow> fdl_region d \<noteq> invalid_fault_region \<and> fdl_faulting d \<noteq> invalid_thread"

record FaultSupplySyscall =
  fsp_backing :: CapabilityId

definition decode_fault_supply_syscall :: "u64 \<Rightarrow> FaultSupplySyscall result" where
  "decode_fault_supply_syscall x0_backing =
     (if x0_backing = 0 then Inl fd_invalid_capability else Inr \<lparr>fsp_backing = ucast x0_backing\<rparr>)"

datatype FdState = fds_free | fds_pending | fds_delivered

record FdSlot =
  fd_pager :: ThreadId
  fd_delivery :: FaultDelivery
  fd_state :: FdState

record FaultDeliveryTable =
  fd_slots :: "FdSlot list"
  fd_occupied :: size_t

definition fd_blank :: FdSlot where
  "fd_blank = \<lparr>fd_pager = invalid_thread, fd_delivery = no_delivery, fd_state = fds_free\<rparr>"

definition fd_empty :: FaultDeliveryTable where
  "fd_empty = \<lparr>fd_slots = replicate max_fault_deliveries fd_blank, fd_occupied = 0\<rparr>"

definition fd_find :: "FaultDeliveryTable \<Rightarrow> ThreadId \<Rightarrow> nat option" where
  "fd_find t pager = first_index (\<lambda>s. fd_state s \<noteq> fds_free \<and> fd_pager s = pager) (fd_slots t)"

definition fd_armed :: "FaultDeliveryTable \<Rightarrow> ThreadId \<Rightarrow> bool" where
  "fd_armed t pager = (if pager = invalid_thread then False else fd_find t pager \<noteq> None)"

definition fd_arm ::
  "FaultDeliveryTable \<Rightarrow> ThreadId \<Rightarrow> ThreadId \<Rightarrow> FaultReport \<Rightarrow> unit result \<times> FaultDeliveryTable" where
  "fd_arm t pager faulting report =
     (if pager = invalid_thread \<or> faulting = invalid_thread then (Inl fd_invalid_thread, t)
      else if pager = faulting then (Inl fd_invalid_thread, t)
      else if \<not> report_deliverable report then (Inl fd_not_armed, t)
      else if fd_find t pager \<noteq> None then (Inl fd_already_armed, t)
      else case first_index (\<lambda>s. fd_state s = fds_free) (fd_slots t) of
          None \<Rightarrow> (Inl fd_exhausted, t)
        | Some i \<Rightarrow>
            (Inr (), t\<lparr>fd_slots := (fd_slots t)[i := \<lparr>fd_pager = pager, fd_delivery =
                \<lparr>fdl_region = frp_region report, fdl_faulting = faulting, fdl_write = frp_write report\<rparr>,
                fd_state = fds_pending\<rparr>], fd_occupied := fd_occupied t + 1\<rparr>))"

definition fd_take :: "FaultDeliveryTable \<Rightarrow> ThreadId \<Rightarrow> FaultDelivery result \<times> FaultDeliveryTable" where
  "fd_take t pager =
     (if pager = invalid_thread then (Inl fd_invalid_thread, t)
      else case fd_find t pager of
          None \<Rightarrow> (Inl fd_not_armed, t)
        | Some i \<Rightarrow>
            let slot = fd_slots t ! i in
            if fd_state slot \<noteq> fds_pending then (Inl fd_not_armed, t)
            else (Inr (fd_delivery slot),
                  t\<lparr>fd_slots := (fd_slots t)[i := slot\<lparr>fd_state := fds_delivered\<rparr>]\<rparr>))"

definition fd_answer :: "FaultDeliveryTable \<Rightarrow> ThreadId \<Rightarrow> FaultDelivery result \<times> FaultDeliveryTable" where
  "fd_answer t pager =
     (if pager = invalid_thread then (Inl fd_invalid_thread, t)
      else case fd_find t pager of
          None \<Rightarrow> (Inl fd_not_armed, t)
        | Some i \<Rightarrow>
            let slot = fd_slots t ! i in
            if fd_state slot \<noteq> fds_delivered then (Inl fd_not_delivered, t)
            else (Inr (fd_delivery slot),
                  t\<lparr>fd_slots := (fd_slots t)[i := fd_blank], fd_occupied := fd_occupied t - 1\<rparr>))"

definition fd_release :: "FaultDeliveryTable \<Rightarrow> ThreadId \<Rightarrow> FaultDelivery \<times> FaultDeliveryTable" where
  "fd_release t pager =
     (if pager = invalid_thread then (no_delivery, t)
      else case fd_find t pager of
          None \<Rightarrow> (no_delivery, t)
        | Some i \<Rightarrow> (fd_delivery (fd_slots t ! i),
                     t\<lparr>fd_slots := (fd_slots t)[i := fd_blank], fd_occupied := fd_occupied t - 1\<rparr>))"

definition fd_outstanding :: "FaultDeliveryTable \<Rightarrow> size_t" where
  "fd_outstanding t = fd_occupied t"

abbreviation fd_used :: "FdSlot \<Rightarrow> bool" where "fd_used s \<equiv> fd_state s \<noteq> fds_free"

interpretation fdt: slot_table fd_used fd_pager invalid_thread fd_blank
  by unfold_locales (simp add: fd_blank_def)

definition fd_view :: "FaultDeliveryTable \<Rightarrow> ThreadId \<Rightarrow> FdSlot option" where
  "fd_view t = slot_view fd_used fd_pager invalid_thread (fd_slots t)"

definition fd_ok :: "FaultDeliveryTable \<Rightarrow> bool" where
  "fd_ok t \<longleftrightarrow> slot_ok fd_used fd_pager invalid_thread max_fault_deliveries (fd_slots t) (fd_occupied t)"

lemma fd_ok_empty: "fd_ok fd_empty"
  using fdt.ok_blank [of max_fault_deliveries] by (simp add: fd_ok_def fd_empty_def)

lemma fd_find_slot: "p \<noteq> 0 \<Longrightarrow> fd_find t p = slot_find fd_used fd_pager invalid_thread (fd_slots t) p"
  by (simp add: fd_find_def slot_find_def)

lemma fd_find_view:
  "p \<noteq> 0 \<Longrightarrow> fd_find t p = None \<longleftrightarrow> fd_view t p = None"
  "p \<noteq> 0 \<Longrightarrow> fd_find t p = Some i \<Longrightarrow> fd_view t p = Some (fd_slots t ! i)"
  by (simp_all add: fd_find_slot fd_view_def fdt.find_view_None fdt.find_view_Some)

lemma fd_view_SomeD: "fd_view t p = Some s \<Longrightarrow> fd_used s \<and> fd_pager s = p \<and> p \<noteq> 0"
  using fdt.view_SomeD [of "fd_slots t" p s] by (auto simp: fd_view_def)

lemma fd_arm_cases:
  assumes "fd_ok t"
  obtains (refused) e where "fd_arm t p f r = (Inl e, t)"
    | (armed) u where "fd_arm t p f r = (Inr (), u)" "fd_ok u" "fd_view t p = None" "p \<noteq> 0"
      "fd_view u = (fd_view t)(p \<mapsto> \<lparr>fd_pager = p, fd_delivery = \<lparr>fdl_region = frp_region r,
         fdl_faulting = f, fdl_write = frp_write r\<rparr>, fd_state = fds_pending\<rparr>)"
proof (cases "p = 0 \<or> f = 0 \<or> p = f \<or> \<not> report_deliverable r \<or> fd_find t p \<noteq> None \<or>
    first_index (\<lambda>s. fd_state s = fds_free) (fd_slots t) = None")
  case True
  then have "\<exists>e. fd_arm t p f r = (Inl e, t)" by (auto simp: fd_arm_def)
  with refused show ?thesis by blast
next
  case False
  then obtain i where i: "first_index (\<lambda>s. fd_state s = fds_free) (fd_slots t) = Some i" by auto
  then have i': "first_index (\<lambda>s. \<not> fd_used s) (fd_slots t) = Some i" by simp
  let ?s = "\<lparr>fd_pager = p, fd_delivery = \<lparr>fdl_region = frp_region r, fdl_faulting = f,
    fdl_write = frp_write r\<rparr>, fd_state = fds_pending\<rparr>"
  have free: "fd_view t p = None" using False fd_find_view(1) [of p t] by simp
  from fdt.insert_ok [OF assms [unfolded fd_ok_def] i', of ?s] free False i armed show ?thesis
    by (simp add: fd_ok_def fd_view_def fd_arm_def)
qed

lemma fd_take_view:
  assumes "fd_ok t" "fd_view t p = Some s"
  shows "fd_state s = fds_pending \<Longrightarrow> fst (fd_take t p) = Inr (fd_delivery s) \<and> fd_ok (snd (fd_take t p)) \<and>
      fd_view (snd (fd_take t p)) = (fd_view t)(p \<mapsto> s\<lparr>fd_state := fds_delivered\<rparr>)"
    and "fd_state s = fds_delivered \<Longrightarrow> fd_take t p = (Inl fd_not_armed, t)"
    and "fd_state s = fds_delivered \<Longrightarrow> fst (fd_answer t p) = Inr (fd_delivery s)"
    and "fd_state s = fds_delivered \<Longrightarrow> fd_ok (snd (fd_answer t p)) \<and>
      fd_view (snd (fd_answer t p)) = (fd_view t)(p := None)"
    and "fd_state s = fds_pending \<Longrightarrow> fd_answer t p = (Inl fd_not_delivered, t)"
    and "fst (fd_release t p) = fd_delivery s \<and> fd_ok (snd (fd_release t p)) \<and>
      fd_view (snd (fd_release t p)) = (fd_view t)(p := None)"
proof -
  have p: "p \<noteq> 0" "fd_pager s = p" using fd_view_SomeD [OF assms(2)] by simp_all
  obtain i where i: "fd_find t p = Some i" "fd_slots t ! i = s"
    using fd_find_view [OF p(1), of t] assms(2) by (cases "fd_find t p") auto
  note i' = i(1) [unfolded fd_find_slot [OF p(1)]]
  note st = fdt.store_ok [OF assms(1) [unfolded fd_ok_def] i', of "s\<lparr>fd_state := fds_delivered\<rparr>"]
  note rem = fdt.remove_ok [OF assms(1) [unfolded fd_ok_def] i' fdt.blank_free]
  show "fd_state s = fds_pending \<Longrightarrow> fst (fd_take t p) = Inr (fd_delivery s) \<and> fd_ok (snd (fd_take t p)) \<and>
      fd_view (snd (fd_take t p)) = (fd_view t)(p \<mapsto> s\<lparr>fd_state := fds_delivered\<rparr>)"
    using st p i by (simp add: fd_take_def Let_def fd_ok_def fd_view_def)
  show "fd_state s = fds_delivered \<Longrightarrow> fd_take t p = (Inl fd_not_armed, t)"
    "fd_state s = fds_delivered \<Longrightarrow> fst (fd_answer t p) = Inr (fd_delivery s)"
    "fd_state s = fds_pending \<Longrightarrow> fd_answer t p = (Inl fd_not_delivered, t)"
    using p i by (simp_all add: fd_take_def fd_answer_def)
  show "fd_state s = fds_delivered \<Longrightarrow> fd_ok (snd (fd_answer t p)) \<and>
      fd_view (snd (fd_answer t p)) = (fd_view t)(p := None)"
    "fst (fd_release t p) = fd_delivery s \<and> fd_ok (snd (fd_release t p)) \<and>
      fd_view (snd (fd_release t p)) = (fd_view t)(p := None)"
    using rem p i by (simp_all add: fd_answer_def fd_release_def Let_def fd_ok_def fd_view_def)
qed

lemma fd_none:
  assumes "fd_view t p = None"
  shows "\<exists>e. fd_take t p = (Inl e, t)" "\<exists>e. fd_answer t p = (Inl e, t)" "fd_release t p = (no_delivery, t)"
  using assms fd_find_view(1) [of p t]
  by (auto simp: fd_take_def fd_answer_def fd_release_def)

text \<open>A fault question is put once and its answer goes to the thread that faulted.  After a report
  is armed for a pager, the pager cannot be asked anything else, and it cannot answer before
  collecting; collecting gives the region, the faulting thread and the access of the report and
  succeeds once; then answering gives the same and frees the pager's slot, and so does the pager's
  death at either point; other pagers' questions are not touched.\<close>

theorem fd_question_answered:
  assumes "fd_ok t" "fst (fd_arm t p f r) = Inr ()"
  defines "q \<equiv> \<lparr>fdl_region = frp_region r, fdl_faulting = f, fdl_write = frp_write r\<rparr>"
  shows "let t1 = snd (fd_arm t p f r); t2 = snd (fd_take t1 p); t3 = snd (fd_answer t2 p) in
    fst (fd_take t1 p) = Inr q \<and> fst (fd_answer t2 p) = Inr q \<and> fd_view t3 = fd_view t \<and>
    fd_answer t1 p = (Inl fd_not_delivered, t1) \<and> fd_take t2 p = (Inl fd_not_armed, t2) \<and>
    (\<forall>f' r'. \<exists>e. fd_arm t1 p f' r' = (Inl e, t1)) \<and> (\<exists>e. fd_answer t3 p = (Inl e, t3)) \<and>
    fst (fd_release t1 p) = q \<and> fst (fd_release t2 p) = q \<and>
    fd_view (snd (fd_release t1 p)) = fd_view t \<and> fd_view (snd (fd_release t2 p)) = fd_view t"
  using assms(1)
proof (cases rule: fd_arm_cases [where p = p and f = f and r = r])
  case (armed u)
  let ?s = "\<lparr>fd_pager = p, fd_delivery = q, fd_state = fds_pending\<rparr>"
  have v1: "fd_view u p = Some ?s" using armed(5) by (simp add: q_def)
  note a = fd_take_view [OF armed(2) v1]
  define t2 where "t2 = snd (fd_take u p)"
  have t2: "fd_ok t2" "fd_view t2 p = Some (?s\<lparr>fd_state := fds_delivered\<rparr>)"
    using a(1) by (simp_all add: t2_def)
  note b = fd_take_view [OF t2]
  have restored: "(fd_view u)(p := None) = fd_view t" "(fd_view t2)(p := None) = fd_view t"
    using armed(3,5) a(1) by (auto simp: t2_def fun_eq_iff)
  have busy: "\<exists>e. fd_arm u p f' r' = (Inl e, u)" for f' r'
    using fd_find_view(1) [OF armed(4), of u] v1 by (auto simp: fd_arm_def)
  have gone: "\<exists>e. fd_answer (snd (fd_answer t2 p)) p = (Inl e, snd (fd_answer t2 p))"
    by (rule fd_none) (use b(4) in simp)
  show ?thesis
    using a b restored busy gone armed(1) by (simp add: Let_def t2_def [symmetric])
qed (use assms(2) in simp)

theorem fd_question_answered_witness:
  "fst (fd_take (snd (fd_arm fd_empty 5 9 \<lparr>frp_region = 2, frp_disposition = fdp_deliver, frp_write = True\<rparr>)) 5) =
     Inr \<lparr>fdl_region = 2, fdl_faulting = 9, fdl_write = True\<rparr>"
proof -
  have "fst (fd_arm fd_empty 5 9 \<lparr>frp_region = 2, frp_disposition = fdp_deliver, frp_write = True\<rparr>) = Inr ()"
    by code_simp
  from fd_question_answered [OF fd_ok_empty this] show ?thesis by (simp add: Let_def)
qed

end
