(* ===== verification/Memory_Grant.thy ===== *)
theory Memory_Grant
  imports Capability
begin

text \<open>
  Authority over physical memory: memory_grant.hpp/.cpp of src/core/oskernel.  One definition per
  method of \<open>class MemoryGrantAuthority\<close>, prefixed \<open>mg_\<close>.  The lemmas show that live grants are
  pairwise disjoint and never wrap, that containment is containment of address ranges, and that a
  revoked grant never resolves again (the contract \<open>identity_authority\<close>, interpreted here).
\<close>

section \<open>Data\<close>

type_synonym MemoryGrantSlot = u16
type_synonym MemoryGrantGeneration = u32

abbreviation max_memory_grants :: nat where "max_memory_grants \<equiv> 64"

record MemoryGrantIdentity =
  mgi_slot :: MemoryGrantSlot
  mgi_generation :: MemoryGrantGeneration

definition mg_identity_valid :: "MemoryGrantIdentity \<Rightarrow> bool" where
  "mg_identity_valid i \<longleftrightarrow> unat (mgi_slot i) < max_memory_grants \<and> mgi_generation i \<noteq> 0"

record MemoryGrant =
  gr_identity :: MemoryGrantIdentity
  gr_base :: u64
  gr_length :: u64

definition grant_valid :: "MemoryGrant \<Rightarrow> bool" where
  "grant_valid g \<longleftrightarrow> mg_identity_valid (gr_identity g) \<and> gr_length g \<noteq> 0"

definition grant_contains :: "MemoryGrant \<Rightarrow> u64 \<Rightarrow> u64 \<Rightarrow> bool" where
  "grant_contains g range_base range_length =
     (if \<not> grant_valid g \<or> range_length = 0 then False
      else if range_base < gr_base g then False
      else if range_length > - 1 - range_base then False
      else if gr_length g > - 1 - gr_base g then False
      else range_base + range_length \<le> gr_base g + gr_length g)"

abbreviation "mg_exhausted \<equiv> kernel_error 1"
abbreviation "mg_stale \<equiv> kernel_error 2"
abbreviation "mg_invalid_range \<equiv> kernel_error 3"
abbreviation "mg_generation_exhausted \<equiv> kernel_error 4"
abbreviation "mg_overlapping \<equiv> kernel_error 5"

abbreviation memory_grant_object_tag :: ObjectId where
  "memory_grant_object_tag \<equiv> 0x0E1F000000000000"

definition memory_grant_object_id :: "MemoryGrantIdentity \<Rightarrow> ObjectId" where
  "memory_grant_object_id i =
     (if \<not> mg_identity_valid i then invalid_object
      else memory_grant_object_tag OR push_bit 16 (ucast (mgi_generation i)) OR ucast (mgi_slot i))"

definition memory_right_map :: Rights where "memory_right_map = push_bit 0 1"
definition memory_right_donate :: Rights where "memory_right_donate = push_bit 1 1"

record MgSlot =
  ms_base :: u64
  ms_length :: u64
  ms_generation :: MemoryGrantGeneration
  ms_occupied :: bool

record MemoryGrantAuthority =
  mg_slots :: "MgSlot list"
  mg_live :: size_t

definition mg_blank :: MgSlot where
  "mg_blank = \<lparr>ms_base = 0, ms_length = 0, ms_generation = 0, ms_occupied = False\<rparr>"

definition mg_empty :: MemoryGrantAuthority where
  "mg_empty = \<lparr>mg_slots = replicate max_memory_grants mg_blank, mg_live = 0\<rparr>"

section \<open>Operations\<close>

definition mg_overlaps :: "u64 \<Rightarrow> u64 \<Rightarrow> u64 \<Rightarrow> u64 \<Rightarrow> bool" where
  "mg_overlaps a_base a_length b_base b_length \<longleftrightarrow>
     a_base < b_base + b_length \<and> b_base < a_base + a_length"

definition mg_create ::
  "MemoryGrantAuthority \<Rightarrow> u64 \<Rightarrow> u64 \<Rightarrow> MemoryGrant result \<times> MemoryGrantAuthority" where
  "mg_create a base len =
     (if len = 0 \<or> len > - 1 - base then (Inl mg_invalid_range, a)
      else if list_ex (\<lambda>s. ms_occupied s \<and> mg_overlaps (ms_base s) (ms_length s) base len) (mg_slots a)
      then (Inl mg_overlapping, a)
      else case first_index (\<lambda>s. \<not> ms_occupied s) (mg_slots a) of
          None \<Rightarrow> (Inl mg_exhausted, a)
        | Some i \<Rightarrow>
            let slot = mg_slots a ! i in
            if ms_generation slot = - 1 then (Inl mg_generation_exhausted, a)
            else
              let slot = slot\<lparr>ms_generation := ms_generation slot + 1\<rparr> in
              if ms_generation slot = 0
              then (Inl mg_generation_exhausted, a\<lparr>mg_slots := (mg_slots a)[i := slot]\<rparr>)
              else (Inr \<lparr>gr_identity = \<lparr>mgi_slot = of_nat i, mgi_generation = ms_generation slot\<rparr>,
                         gr_base = base, gr_length = len\<rparr>,
                    a\<lparr>mg_slots := (mg_slots a)[i := slot\<lparr>ms_occupied := True, ms_base := base,
                        ms_length := len\<rparr>], mg_live := mg_live a + 1\<rparr>))"

definition mg_resolve :: "MemoryGrantAuthority \<Rightarrow> MemoryGrantIdentity \<Rightarrow> MemoryGrant result" where
  "mg_resolve a i =
     (if \<not> mg_identity_valid i \<or> unat (mgi_slot i) \<ge> length (mg_slots a) then Inl mg_stale
      else let slot = mg_slots a ! unat (mgi_slot i) in
        if \<not> ms_occupied slot \<or> ms_generation slot \<noteq> mgi_generation i then Inl mg_stale
        else Inr \<lparr>gr_identity = i, gr_base = ms_base slot, gr_length = ms_length slot\<rparr>)"

definition mg_revoke ::
  "MemoryGrantAuthority \<Rightarrow> MemoryGrantIdentity \<Rightarrow> unit result \<times> MemoryGrantAuthority" where
  "mg_revoke a i =
     (if \<not> mg_identity_valid i \<or> unat (mgi_slot i) \<ge> length (mg_slots a) then (Inl mg_stale, a)
      else let k = unat (mgi_slot i); slot = mg_slots a ! k in
        if \<not> ms_occupied slot \<or> ms_generation slot \<noteq> mgi_generation i then (Inl mg_stale, a)
        else (Inr (), a\<lparr>mg_slots := (mg_slots a)[k := slot\<lparr>ms_occupied := False, ms_base := 0,
                          ms_length := 0\<rparr>], mg_live := mg_live a - 1\<rparr>))"

definition mg_live_count :: "MemoryGrantAuthority \<Rightarrow> size_t" where
  "mg_live_count a = mg_live a"

section \<open>Containment\<close>

lemma grant_contains_iff:
  "grant_contains g b l \<longleftrightarrow> grant_valid g \<and> l \<noteq> 0 \<and>
     unat b + unat l < 2 ^ 64 \<and> unat (gr_base g) + unat (gr_length g) < 2 ^ 64 \<and>
     {unat b ..< unat b + unat l} \<subseteq> {unat (gr_base g) ..< unat (gr_base g) + unat (gr_length g)}"
proof (cases "grant_valid g \<and> l \<noteq> 0 \<and> unat b + unat l < 2 ^ 64 \<and>
    unat (gr_base g) + unat (gr_length g) < 2 ^ 64")
  case True
  then have "unat l \<noteq> 0" by (simp add: unat_eq_zero)
  with True show ?thesis
    unfolding grant_contains_def max_minus_less
    by (auto simp: not_le word_less_nat_alt word_le_nat_alt unat_plus_no_wrap not_less)
qed (auto simp: grant_contains_def max_minus_less not_le not_less)

text \<open>A grant contains a range exactly when the bytes of the range are bytes of the grant.  The test is
  written with 64-bit additions that could wrap; it accepts a non-empty range exactly when neither the
  range nor the grant reaches past the end of the address space and every address of the range
  lies in the grant.\<close>

theorem grant_contains_sound:
  "grant_contains g b l \<longleftrightarrow> grant_valid g \<and> l \<noteq> 0 \<and>
     unat b + unat l < 2 ^ 64 \<and> unat (gr_base g) + unat (gr_length g) < 2 ^ 64 \<and>
     {unat b ..< unat b + unat l} \<subseteq> {unat (gr_base g) ..< unat (gr_base g) + unat (gr_length g)}"
  by (rule grant_contains_iff)

section \<open>Invariant\<close>

definition mg_slot_ok :: "MgSlot \<Rightarrow> bool" where
  "mg_slot_ok s \<longleftrightarrow> (ms_occupied s \<longrightarrow> ms_generation s \<noteq> 0 \<and> ms_length s \<noteq> 0 \<and>
     unat (ms_base s) + unat (ms_length s) < 2 ^ 64)"

definition mg_apart :: "MgSlot \<Rightarrow> MgSlot \<Rightarrow> bool" where
  "mg_apart s r \<longleftrightarrow> (ms_occupied s \<and> ms_occupied r \<longrightarrow>
     unat (ms_base s) + unat (ms_length s) \<le> unat (ms_base r) \<or>
     unat (ms_base r) + unat (ms_length r) \<le> unat (ms_base s))"

definition mg_ok :: "MemoryGrantAuthority \<Rightarrow> bool" where
  "mg_ok a \<longleftrightarrow> length (mg_slots a) = max_memory_grants \<and>
     mg_live a = of_nat (length (filter ms_occupied (mg_slots a))) \<and>
     (\<forall>i < max_memory_grants. mg_slot_ok (mg_slots a ! i)) \<and>
     (\<forall>i < max_memory_grants. \<forall>j < max_memory_grants. i \<noteq> j \<longrightarrow> mg_apart (mg_slots a ! i) (mg_slots a ! j))"

lemma mg_ok_empty: "mg_ok mg_empty"
  by (simp add: mg_ok_def mg_empty_def mg_blank_def mg_slot_ok_def mg_apart_def)

lemma mg_apart_sym: "mg_apart s r \<Longrightarrow> mg_apart r s" by (auto simp: mg_apart_def)

lemma mg_ok_store:
  assumes "mg_ok a" "i < max_memory_grants" "mg_slot_ok s"
    and "\<And>j. j < max_memory_grants \<Longrightarrow> j \<noteq> i \<Longrightarrow> mg_apart s (mg_slots a ! j)"
    and "n = of_nat (length (filter ms_occupied ((mg_slots a)[i := s])))"
  shows "mg_ok (a\<lparr>mg_slots := (mg_slots a)[i := s], mg_live := n\<rparr>)"
  using assms mg_apart_sym by (auto simp: mg_ok_def nth_list_update)

lemma mg_create_cases:
  obtains (refused) e where "mg_create a b l = (Inl e, a)"
    | (created) i where "first_index (\<lambda>s. \<not> ms_occupied s) (mg_slots a) = Some i"
      "ms_generation (mg_slots a ! i) \<noteq> - 1" "l \<noteq> 0" "unat b + unat l < 2 ^ 64"
      "\<And>s. s \<in> set (mg_slots a) \<Longrightarrow> ms_occupied s \<Longrightarrow> \<not> mg_overlaps (ms_base s) (ms_length s) b l"
      "mg_create a b l =
        (Inr \<lparr>gr_identity = \<lparr>mgi_slot = of_nat i, mgi_generation = ms_generation (mg_slots a ! i) + 1\<rparr>,
              gr_base = b, gr_length = l\<rparr>,
         a\<lparr>mg_slots := (mg_slots a)[i := \<lparr>ms_base = b, ms_length = l,
              ms_generation = ms_generation (mg_slots a ! i) + 1, ms_occupied = True\<rparr>],
           mg_live := mg_live a + 1\<rparr>)"
proof (cases "l = 0 \<or> l > - 1 - b \<or>
    list_ex (\<lambda>s. ms_occupied s \<and> mg_overlaps (ms_base s) (ms_length s) b l) (mg_slots a) \<or>
    first_index (\<lambda>s. \<not> ms_occupied s) (mg_slots a) = None")
  case True
  then have "\<exists>e. mg_create a b l = (Inl e, a)" by (auto simp: mg_create_def)
  with refused show ?thesis by blast
next
  case False
  then obtain i where i: "first_index (\<lambda>s. \<not> ms_occupied s) (mg_slots a) = Some i" by auto
  show ?thesis
  proof (cases "ms_generation (mg_slots a ! i) = - 1")
    case True
    with i False have "mg_create a b l = (Inl mg_generation_exhausted, a)" by (simp add: mg_create_def Let_def)
    with refused show ?thesis by blast
  next
    case g: False
    then have "ms_generation (mg_slots a ! i) + 1 \<noteq> 0" by (metis eq_neg_iff_add_eq_0)
    with created [OF i g] False i g show ?thesis
      by (cases "mg_slots a ! i") (simp add: mg_create_def Let_def max_minus_less not_le list_ex_iff not_less)
  qed
qed

lemma mg_ok_create: "mg_ok a \<Longrightarrow> mg_ok (snd (mg_create a b l))"
proof -
  assume ok: "mg_ok a"
  then have len: "length (mg_slots a) = max_memory_grants" by (simp add: mg_ok_def)
  show ?thesis
  proof (cases rule: mg_create_cases [of a b l])
    case (created i)
    have i: "i < max_memory_grants" "\<not> ms_occupied (mg_slots a ! i)"
      using first_index_SomeD [OF created(1)] len by auto
    let ?s = "\<lparr>ms_base = b, ms_length = l, ms_generation = ms_generation (mg_slots a ! i) + 1,
      ms_occupied = True\<rparr>"
    have "mg_apart ?s (mg_slots a ! j)" if j: "j < max_memory_grants" for j
    proof (cases "ms_occupied (mg_slots a ! j)")
      case True
      with j ok have "unat (ms_base (mg_slots a ! j)) + unat (ms_length (mg_slots a ! j)) < 2 ^ 64"
        by (simp add: mg_ok_def mg_slot_ok_def)
      note dis = word_range_overlap [OF this created(4)]
      from created(5) [OF nth_mem, of j] True j len show ?thesis
        unfolding mg_overlaps_def dis by (auto simp: mg_apart_def not_less)
    qed (simp add: mg_apart_def)
    moreover have "ms_generation (mg_slots a ! i) + 1 \<noteq> 0" using created(2) by (metis eq_neg_iff_add_eq_0)
    moreover have "mg_live a + 1 = of_nat (length (filter ms_occupied ((mg_slots a)[i := ?s])))"
      using i len ok by (simp add: length_filter_update_add mg_ok_def)
    ultimately show ?thesis
      using mg_ok_store [OF ok i(1), of ?s] created(3,4,6) by (simp add: mg_slot_ok_def)
  qed (use ok in simp)
qed

lemma mg_revoke_cases:
  obtains (refused) "mg_revoke a i = (Inl mg_stale, a)" "\<not> is_ok (mg_resolve a i)"
    | (revoked) k where "k = unat (mgi_slot i)" "k < length (mg_slots a)" "mg_identity_valid i"
      "ms_occupied (mg_slots a ! k)" "ms_generation (mg_slots a ! k) = mgi_generation i"
      "mg_revoke a i = (Inr (), a\<lparr>mg_slots := (mg_slots a)[k := (mg_slots a ! k)\<lparr>ms_occupied := False,
         ms_base := 0, ms_length := 0\<rparr>], mg_live := mg_live a - 1\<rparr>)"
  by (cases "\<not> mg_identity_valid i \<or> unat (mgi_slot i) \<ge> length (mg_slots a) \<or>
        \<not> ms_occupied (mg_slots a ! unat (mgi_slot i)) \<or>
        ms_generation (mg_slots a ! unat (mgi_slot i)) \<noteq> mgi_generation i")
     (auto simp: mg_revoke_def mg_resolve_def Let_def not_le)

lemma mg_ok_revoke: "mg_ok a \<Longrightarrow> mg_ok (snd (mg_revoke a i))"
proof -
  assume ok: "mg_ok a"
  then have len: "length (mg_slots a) = max_memory_grants" by (simp add: mg_ok_def)
  show ?thesis
  proof (cases rule: mg_revoke_cases [of a i])
    case (revoked k)
    let ?s = "(mg_slots a ! k)\<lparr>ms_occupied := False, ms_base := 0, ms_length := 0\<rparr>"
    have "length (filter ms_occupied (mg_slots a)) = Suc (length (filter ms_occupied ((mg_slots a)[k := ?s])))"
      using revoked(2,4) by (intro length_filter_update_sub [symmetric]) simp_all
    then have "mg_live a - 1 = of_nat (length (filter ms_occupied ((mg_slots a)[k := ?s])))"
      using ok by (simp add: mg_ok_def)
    then show ?thesis
      using mg_ok_store [OF ok, of k ?s] revoked(2,6) len by (simp add: mg_slot_ok_def mg_apart_def)
  qed (use ok in simp)
qed

inductive mg_method :: "MemoryGrantAuthority \<Rightarrow> MemoryGrantAuthority \<Rightarrow> bool" where
  create: "mg_method a (snd (mg_create a b l))"
| revoke: "mg_method a (snd (mg_revoke a i))"

lemma mg_method_ok: "mg_method a b \<Longrightarrow> mg_ok a \<Longrightarrow> mg_ok b"
  by (induction rule: mg_method.induct) (auto intro: mg_ok_create mg_ok_revoke)

section \<open>Grants never come back\<close>

definition mg_resolves :: "MemoryGrantAuthority \<Rightarrow> MemoryGrantIdentity \<Rightarrow> bool" where
  "mg_resolves a i \<longleftrightarrow> is_ok (mg_resolve a i)"

definition mg_spent :: "MemoryGrantAuthority \<Rightarrow> MemoryGrantIdentity \<Rightarrow> bool" where
  "mg_spent a i \<longleftrightarrow> mg_identity_valid i \<and>
     (let s = mg_slots a ! unat (mgi_slot i) in
      mgi_generation i < ms_generation s \<or> mgi_generation i = ms_generation s \<and> \<not> ms_occupied s)"

lemma mg_resolves_iff:
  "mg_ok a \<Longrightarrow> mg_resolves a i \<longleftrightarrow> mg_identity_valid i \<and>
     ms_occupied (mg_slots a ! unat (mgi_slot i)) \<and>
     ms_generation (mg_slots a ! unat (mgi_slot i)) = mgi_generation i"
  by (auto simp: mg_resolves_def mg_resolve_def Let_def mg_ok_def mg_identity_valid_def)

lemma mg_method_slot:
  assumes "mg_method a b" "mg_ok a" "k < max_memory_grants"
  shows "mg_slots b ! k = mg_slots a ! k \<or>
    ms_occupied (mg_slots a ! k) \<and> \<not> ms_occupied (mg_slots b ! k) \<and>
      ms_generation (mg_slots b ! k) = ms_generation (mg_slots a ! k) \<or>
    \<not> ms_occupied (mg_slots a ! k) \<and> ms_generation (mg_slots a ! k) \<noteq> - 1 \<and>
      ms_generation (mg_slots b ! k) = ms_generation (mg_slots a ! k) + 1"
  using assms
proof (induction rule: mg_method.induct)
  case (create a b l)
  then have len: "length (mg_slots a) = max_memory_grants" by (simp add: mg_ok_def)
  show ?case
  proof (cases rule: mg_create_cases [of a b l])
    case (created i)
    with first_index_SomeD [OF created(1)] create(2) len show ?thesis by (cases "i = k") simp_all
  qed simp
next
  case (revoke a i)
  then have len: "length (mg_slots a) = max_memory_grants" by (simp add: mg_ok_def)
  show ?case
  proof (cases rule: mg_revoke_cases [of a i])
    case (revoked j)
    with revoke(2) len show ?thesis by (cases "j = k") simp_all
  qed simp
qed

interpretation mgid: identity_authority mg_ok mg_resolves mg_spent mg_method
proof
  fix s t i
  show "mg_ok s \<Longrightarrow> mg_method s t \<Longrightarrow> mg_ok t" by (rule mg_method_ok)
  show "mg_ok s \<Longrightarrow> mg_spent s i \<Longrightarrow> \<not> mg_resolves s i"
    by (auto simp: mg_resolves_iff mg_spent_def Let_def)
  assume st: "mg_ok s" "mg_method s t"
  note t = mg_method_ok [OF st(2,1)]
  show "mg_spent s i \<Longrightarrow> mg_spent t i" "mg_resolves s i \<Longrightarrow> mg_resolves t i \<or> mg_spent t i"
    using mg_method_slot [OF st(2,1), of "unat (mgi_slot i)"]
    by (auto simp: mg_resolves_iff st(1) t mg_spent_def Let_def mg_identity_valid_def
        word_less_plus_one less_imp_le)
qed

text \<open>No two holders can spend the same memory.  In every reachable state of the grant authority,
  two different identities that both resolve name disjoint ranges that do not wrap, so no address range
  is contained in both grants; and an identity that was revoked does not resolve again, whatever
  grants are created afterwards.\<close>

theorem mg_grants_exclusive:
  assumes "mg_method\<^sup>*\<^sup>* mg_empty a" "mg_resolve a i = Inr g" "mg_resolve a j = Inr h" "i \<noteq> j"
  shows "{unat (gr_base g) ..< unat (gr_base g) + unat (gr_length g)} \<inter>
      {unat (gr_base h) ..< unat (gr_base h) + unat (gr_length h)} = {} \<and>
    \<not> (grant_contains g b l \<and> grant_contains h b l) \<and>
    fst (mg_revoke a i) = Inr () \<and>
    (\<forall>c. mg_method\<^sup>*\<^sup>* (snd (mg_revoke a i)) c \<longrightarrow> \<not> is_ok (mg_resolve c i))"
proof -
  note ok = mgid.inv_run [OF assms(1) mg_ok_empty]
  have ri: "mg_resolves a i" "mg_resolves a j" using assms(2,3) by (simp_all add: mg_resolves_def)
  note r = ri [unfolded mg_resolves_iff [OF ok]]
  have ne: "unat (mgi_slot i) \<noteq> unat (mgi_slot j)"
    using r assms(4) by (metis MemoryGrantIdentity.equality unsigned_word_eqI old.unit.exhaust)
  have gh: "gr_base g = ms_base (mg_slots a ! unat (mgi_slot i))"
    "gr_length g = ms_length (mg_slots a ! unat (mgi_slot i))"
    "gr_base h = ms_base (mg_slots a ! unat (mgi_slot j))"
    "gr_length h = ms_length (mg_slots a ! unat (mgi_slot j))"
    using assms(2,3) by (auto simp: mg_resolve_def Let_def split: if_splits)
  have "mg_apart (mg_slots a ! unat (mgi_slot i)) (mg_slots a ! unat (mgi_slot j))"
    using ok r ne by (simp add: mg_ok_def mg_identity_valid_def)
  then have dis: "{unat (gr_base g) ..< unat (gr_base g) + unat (gr_length g)} \<inter>
      {unat (gr_base h) ..< unat (gr_base h) + unat (gr_length h)} = {}"
    using r by (auto simp: mg_apart_def gh)
  have "unat b \<in> {unat (gr_base x) ..< unat (gr_base x) + unat (gr_length x)}"
    if "grant_contains x b l" for x
  proof -
    from that have "l \<noteq> 0" and sub: "{unat b ..< unat b + unat l} \<subseteq>
        {unat (gr_base x) ..< unat (gr_base x) + unat (gr_length x)}" by (auto simp: grant_contains_iff)
    then have "unat b \<in> {unat b ..< unat b + unat l}" by (simp add: unat_gt_0)
    with sub show ?thesis by blast
  qed
  with dis have "\<not> (grant_contains g b l \<and> grant_contains h b l)" by blast
  moreover have rev: "fst (mg_revoke a i) = Inr ()" "\<not> mg_resolves (snd (mg_revoke a i)) i"
    using r(1) ok
    by (auto simp: mg_revoke_def Let_def mg_ok_def mg_identity_valid_def mg_resolves_def mg_resolve_def)
  moreover have "\<not> is_ok (mg_resolve c i)" if "mg_method\<^sup>*\<^sup>* (snd (mg_revoke a i)) c" for c
    using mgid.no_resurrection [OF ok ri(1) _ rev(2) that] mg_method.revoke
    by (auto simp: mg_resolves_def)
  ultimately show ?thesis using dis by blast
qed

definition mg_example :: MemoryGrantAuthority where
  "mg_example = snd (mg_create (snd (mg_create mg_empty 4096 4096)) 8192 4096)"

theorem mg_grants_exclusive_witness:
  "is_ok (mg_resolve mg_example \<lparr>mgi_slot = 0, mgi_generation = 1\<rparr>) \<and>
   fst (mg_revoke mg_example \<lparr>mgi_slot = 0, mgi_generation = 1\<rparr>) = Inr ()"
proof -
  have run: "mg_method\<^sup>*\<^sup>* mg_empty mg_example"
    unfolding mg_example_def
    by (rule rtranclp.rtrancl_into_rtrancl [OF r_into_rtranclp]) (rule mg_method.intros)+
  have r: "mg_resolve mg_example \<lparr>mgi_slot = 0, mgi_generation = 1\<rparr> =
      Inr \<lparr>gr_identity = \<lparr>mgi_slot = 0, mgi_generation = 1\<rparr>, gr_base = 4096, gr_length = 4096\<rparr>"
    "mg_resolve mg_example \<lparr>mgi_slot = 1, mgi_generation = 1\<rparr> =
      Inr \<lparr>gr_identity = \<lparr>mgi_slot = 1, mgi_generation = 1\<rparr>, gr_base = 8192, gr_length = 4096\<rparr>"
    by code_simp+
  from mg_grants_exclusive [OF run r] r(1) show ?thesis by simp
qed

end
