(* ===== verification/Memory_Syscall.thy ===== *)
theory Memory_Syscall
  imports Memory_Grant
begin

text \<open>
  The register-level front of the memory calls: address_space_syscall.hpp/.cpp (object identifiers of
  address spaces, rights, the create and destroy decoders) and map_syscall.hpp/.cpp (permissions,
  the map and unmap decoders and what an authorised call resolves to) of src/core/oskernel.  The
  lemmas show that an address-space identity survives its object identifier and that a decoder accepts
  exactly the register sets it should.
\<close>

section \<open>Address spaces as objects\<close>

abbreviation address_space_object_tag :: ObjectId where
  "address_space_object_tag \<equiv> 0xADD5000000000000"
abbreviation address_space_object_tag_mask :: ObjectId where
  "address_space_object_tag_mask \<equiv> 0xFFFF000000000000"

definition address_space_object_id :: "AddressSpaceIdentity \<Rightarrow> ObjectId" where
  "address_space_object_id i =
     (if \<not> identity_valid i then invalid_object
      else address_space_object_tag OR push_bit 16 (ucast (asi_generation i)) OR ucast (asi_slot i))"

definition address_space_right_hold :: Rights where "address_space_right_hold = push_bit 0 1"
definition address_space_right_destroy :: Rights where "address_space_right_destroy = push_bit 1 1"
definition address_space_right_create :: Rights where "address_space_right_create = push_bit 2 1"
definition address_space_right_admit :: Rights where "address_space_right_admit = push_bit 3 1"

abbreviation address_space_authority_object :: ObjectId where
  "address_space_authority_object \<equiv> address_space_object_tag"

abbreviation "as_invalid_capability \<equiv> kernel_error 260"

record AddressSpaceCreateSyscall =
  asc_authority :: CapabilityId
  asc_root_grant :: CapabilityId

record AddressSpaceDestroySyscall =
  asd_space :: CapabilityId

definition decode_address_space_create_syscall :: "u64 \<Rightarrow> u64 \<Rightarrow> AddressSpaceCreateSyscall result" where
  "decode_address_space_create_syscall x0_authority x1_root_grant =
     (if x0_authority = 0 \<or> x1_root_grant = 0 then Inl as_invalid_capability
      else Inr \<lparr>asc_authority = ucast x0_authority, asc_root_grant = ucast x1_root_grant\<rparr>)"

definition decode_address_space_destroy_syscall :: "u64 \<Rightarrow> AddressSpaceDestroySyscall result" where
  "decode_address_space_destroy_syscall x0_space =
     (if x0_space = 0 then Inl as_invalid_capability else Inr \<lparr>asd_space = ucast x0_space\<rparr>)"

text \<open>Reading an identity back out of an object identifier, the two casts the kernel writes at every
  use.\<close>

definition identity_of_object :: "ObjectId \<Rightarrow> AddressSpaceIdentity" where
  "identity_of_object obj =
     \<lparr>asi_slot = ucast (obj AND 0xFFFF), asi_generation = ucast (drop_bit 16 obj AND 0xFFFFFFFF)\<rparr>"

definition grant_of_object :: "ObjectId \<Rightarrow> MemoryGrantIdentity" where
  "grant_of_object obj =
     \<lparr>mgi_slot = ucast (obj AND 0xFFFF), mgi_generation = ucast (drop_bit 16 obj AND 0xFFFFFFFF)\<rparr>"

section \<open>Map and unmap\<close>

abbreviation "map_invalid_capability \<equiv> kernel_error 1"
abbreviation "map_invalid_address \<equiv> kernel_error 2"
abbreviation "map_invalid_permissions \<equiv> kernel_error 3"
abbreviation "map_range_overflows \<equiv> kernel_error 4"
abbreviation "map_executable_region_immutable \<equiv> kernel_error 5"

datatype MapPermissions = perm_read | perm_read_write | perm_read_execute

fun perm_code :: "MapPermissions \<Rightarrow> u8" where
  "perm_code perm_read = 1"
| "perm_code perm_read_write = 2"
| "perm_code perm_read_execute = 3"

definition valid_map_permissions :: "u64 \<Rightarrow> bool" where
  "valid_map_permissions value \<longleftrightarrow> value = ucast (perm_code perm_read) \<or>
     value = ucast (perm_code perm_read_write) \<or> value = ucast (perm_code perm_read_execute)"

text \<open>The cast of a value that passed \<open>valid_map_permissions\<close>.\<close>

definition perm_of :: "u64 \<Rightarrow> MapPermissions" where
  "perm_of value = (if value = 1 then perm_read else if value = 2 then perm_read_write
     else perm_read_execute)"

record MapSyscall =
  mp_space :: CapabilityId
  mp_address :: u64
  mp_backing :: CapabilityId
  mp_permissions :: MapPermissions

definition decode_map_syscall :: "u64 \<Rightarrow> u64 \<Rightarrow> u64 \<Rightarrow> u64 \<Rightarrow> MapSyscall result" where
  "decode_map_syscall x0_space x1_virtual_address x2_backing x3_permissions =
     (if x0_space = 0 \<or> x2_backing = 0 then Inl map_invalid_capability
      else if x1_virtual_address = 0 then Inl map_invalid_address
      else if \<not> valid_map_permissions x3_permissions then Inl map_invalid_permissions
      else Inr \<lparr>mp_space = ucast x0_space, mp_address = x1_virtual_address,
                mp_backing = ucast x2_backing, mp_permissions = perm_of x3_permissions\<rparr>)"

record UnmapSyscall =
  um_space :: CapabilityId
  um_address :: u64
  um_backing :: CapabilityId

definition decode_unmap_syscall :: "u64 \<Rightarrow> u64 \<Rightarrow> u64 \<Rightarrow> UnmapSyscall result" where
  "decode_unmap_syscall x0_space x1_virtual_address x2_backing =
     (if x0_space = 0 \<or> x2_backing = 0 then Inl map_invalid_capability
      else if x1_virtual_address = 0 then Inl map_invalid_address
      else Inr \<lparr>um_space = ucast x0_space, um_address = x1_virtual_address, um_backing = ucast x2_backing\<rparr>)"

record MapAuthorization =
  ma_space :: AddressSpaceIdentity
  ma_virtual :: u64
  ma_physical :: u64
  ma_length :: u64
  ma_permissions :: MapPermissions

definition map_authorization_valid :: "MapAuthorization \<Rightarrow> bool" where
  "map_authorization_valid m \<longleftrightarrow> identity_valid (ma_space m) \<and> ma_virtual m \<noteq> 0 \<and> ma_length m \<noteq> 0"

record UnmapAuthorization =
  ua_space :: AddressSpaceIdentity
  ua_virtual :: u64
  ua_length :: u64

definition unmap_authorization_valid :: "UnmapAuthorization \<Rightarrow> bool" where
  "unmap_authorization_valid m \<longleftrightarrow> identity_valid (ua_space m) \<and> ua_virtual m \<noteq> 0 \<and> ua_length m \<noteq> 0"

section \<open>Lemmas\<close>

lemma drop_mask_16_32: "drop_bit 16 (x :: u64) AND 0xFFFFFFFF = drop_bit 16 (x AND 0x0000FFFFFFFF0000)"
proof -
  have m: "(0xFFFFFFFF :: u64) = mask 32" "(0x0000FFFFFFFF0000 :: u64) = push_bit 16 (mask 32)"
    by (simp_all add: mask_eq_exp_minus_1 push_bit_eq_mult)
  show ?thesis unfolding m by (rule bit_eqI) (auto simp: bit_simps)
qed

lemma identity_of_space_object:
  assumes "identity_valid i"
  shows "identity_of_object (address_space_object_id i) = i"
    and "address_space_object_id i AND address_space_object_tag_mask = address_space_object_tag"
proof -
  have "address_space_object_tag AND 0x0000FFFFFFFFFFFF = 0" by simp
  note f = object_fields [OF this, of "asi_generation i" "asi_slot i"]
  show "identity_of_object (address_space_object_id i) = i"
    and "address_space_object_id i AND address_space_object_tag_mask = address_space_object_tag"
    using assms f by (simp_all add: identity_of_object_def address_space_object_id_def drop_mask_16_32)
qed

lemma grant_of_grant_object:
  assumes "mg_identity_valid i"
  shows "grant_of_object (memory_grant_object_id i) = i"
    and "memory_grant_object_id i AND address_space_object_tag_mask = memory_grant_object_tag"
proof -
  have "memory_grant_object_tag AND 0x0000FFFFFFFFFFFF = 0" by simp
  note f = object_fields [OF this, of "mgi_generation i" "mgi_slot i"]
  show "grant_of_object (memory_grant_object_id i) = i"
    and "memory_grant_object_id i AND address_space_object_tag_mask = memory_grant_object_tag"
    using assms f by (simp_all add: grant_of_object_def memory_grant_object_id_def drop_mask_16_32)
qed

lemma valid_map_permissions_iff: "valid_map_permissions v \<longleftrightarrow> v = ucast (perm_code (perm_of v))"
  by (auto simp: valid_map_permissions_def perm_of_def)

lemma decode_map_iff:
  "decode_map_syscall x0 x1 x2 x3 = Inr m \<longleftrightarrow>
     x0 \<noteq> 0 \<and> x1 \<noteq> 0 \<and> x2 \<noteq> 0 \<and> mp_space m = x0 \<and> mp_address m = x1 \<and> mp_backing m = x2 \<and>
     x3 = ucast (perm_code (mp_permissions m))"
proof (cases m)
  case (fields a b c d)
  show ?thesis
    unfolding fields decode_map_syscall_def
    by (cases d) (auto simp: valid_map_permissions_def perm_of_def)
qed

end
