(* ===== verification/Process_Space.thy ===== *)
theory Process_Space
  imports Capability
begin

text \<open>
  What ties a thread to the memory it runs in: executable_region.hpp/.cpp (where a space begins),
  translation_root.hpp and process_translation.hpp/.cpp (which thread runs under which epoch and root),
  thread_admission.hpp/.cpp (kernel-issued thread identifiers) of src/core/oskernel, with the address
  predicates of aarch64_translation.hpp they use.  Prefixes: \<open>xr_\<close> for \<open>ExecutableRegionTable\<close>,
  \<open>pt_\<close> for \<open>ProcessTranslationTable\<close>, \<open>tid_\<close> for \<open>ThreadIdentifierIssuer\<close>.  The lemmas show
  that the entry of a space is fixed while the space lives, that two threads never run under one
  ASID, and that an identifier is issued at most once.
\<close>

section \<open>Executable regions\<close>

abbreviation "xr_already_executable \<equiv> kernel_error 1"
abbreviation "xr_not_executable \<equiv> kernel_error 2"
abbreviation "xr_invalid_space \<equiv> kernel_error 3"
abbreviation "xr_exhausted \<equiv> kernel_error 4"

record ExecutableRegion =
  xr_space :: AddressSpaceIdentity
  xr_base :: u64
  xr_length :: u64

definition region_valid :: "ExecutableRegion \<Rightarrow> bool" where
  "region_valid r \<longleftrightarrow> identity_valid (xr_space r) \<and> xr_length r \<noteq> 0"

record ExecutableRegionTable =
  xr_regions :: "ExecutableRegion list"
  xr_live :: size_t

definition region_blank :: ExecutableRegion where
  "region_blank = \<lparr>xr_space = no_identity, xr_base = 0, xr_length = 0\<rparr>"

definition xr_empty :: ExecutableRegionTable where
  "xr_empty = \<lparr>xr_regions = replicate max_address_space_epochs region_blank, xr_live = 0\<rparr>"

definition xr_would_refuse :: "ExecutableRegionTable \<Rightarrow> AddressSpaceIdentity \<Rightarrow> bool" where
  "xr_would_refuse t space =
     (if \<not> identity_valid space then True
      else list_ex (\<lambda>r. region_valid r \<and> xr_space r = space) (xr_regions t))"

definition xr_record ::
  "ExecutableRegionTable \<Rightarrow> AddressSpaceIdentity \<Rightarrow> u64 \<Rightarrow> u64 \<Rightarrow> unit result \<times> ExecutableRegionTable" where
  "xr_record t space base len =
     (if \<not> identity_valid space \<or> len = 0 then (Inl xr_invalid_space, t)
      else if list_ex (\<lambda>r. region_valid r \<and> xr_space r = space) (xr_regions t)
      then (Inl xr_already_executable, t)
      else case first_index (\<lambda>r. \<not> region_valid r) (xr_regions t) of
          Some i \<Rightarrow> (Inr (), t\<lparr>xr_regions := (xr_regions t)[i :=
                       \<lparr>xr_space = space, xr_base = base, xr_length = len\<rparr>],
                     xr_live := xr_live t + 1\<rparr>)
        | None \<Rightarrow> (Inl xr_exhausted, t))"

definition xr_region_for :: "ExecutableRegionTable \<Rightarrow> AddressSpaceIdentity \<Rightarrow> ExecutableRegion result" where
  "xr_region_for t space =
     (if \<not> identity_valid space then Inl xr_invalid_space
      else case first_index (\<lambda>r. region_valid r \<and> xr_space r = space) (xr_regions t) of
          Some i \<Rightarrow> Inr (xr_regions t ! i)
        | None \<Rightarrow> Inl xr_not_executable)"

definition xr_forget ::
  "ExecutableRegionTable \<Rightarrow> AddressSpaceIdentity \<Rightarrow> unit result \<times> ExecutableRegionTable" where
  "xr_forget t space =
     (if \<not> identity_valid space then (Inl xr_invalid_space, t)
      else case first_index (\<lambda>r. region_valid r \<and> xr_space r = space) (xr_regions t) of
          Some i \<Rightarrow> (Inr (), t\<lparr>xr_regions := (xr_regions t)[i := region_blank], xr_live := xr_live t - 1\<rparr>)
        | None \<Rightarrow> (Inr (), t))"

definition xr_live_count :: "ExecutableRegionTable \<Rightarrow> size_t" where
  "xr_live_count t = xr_live t"

interpretation xrt: slot_table region_valid xr_space no_identity region_blank
  by unfold_locales (simp add: region_valid_def region_blank_def)

definition xr_view :: "ExecutableRegionTable \<Rightarrow> AddressSpaceIdentity \<Rightarrow> ExecutableRegion option" where
  "xr_view t = slot_view region_valid xr_space no_identity (xr_regions t)"

definition xr_ok :: "ExecutableRegionTable \<Rightarrow> bool" where
  "xr_ok t \<longleftrightarrow>
     slot_ok region_valid xr_space no_identity max_address_space_epochs (xr_regions t) (xr_live t)"

lemma no_identity_invalid [simp]: "\<not> identity_valid no_identity"
  by (simp add: identity_valid_def no_identity_def)

lemma xr_ok_empty: "xr_ok xr_empty"
  using xrt.ok_blank [of max_address_space_epochs] by (simp add: xr_ok_def xr_empty_def)

lemma xr_first_find:
  "identity_valid sp \<Longrightarrow> first_index (\<lambda>r. region_valid r \<and> xr_space r = sp) (xr_regions t) =
     slot_find region_valid xr_space no_identity (xr_regions t) sp"
  by (auto simp: slot_find_def)

lemma xr_ex_view:
  "identity_valid sp \<Longrightarrow>
   list_ex (\<lambda>r. region_valid r \<and> xr_space r = sp) (xr_regions t) \<longleftrightarrow> xr_view t sp \<noteq> None"
  using xr_first_find [of sp t] first_index_None [of "\<lambda>r. region_valid r \<and> xr_space r = sp" "xr_regions t"]
  unfolding xr_view_def xrt.find_view_None [symmetric] list_ex_iff by auto

lemma xr_view_space: "xr_view t sp = Some r \<Longrightarrow> xr_space r = sp \<and> identity_valid sp"
  using xrt.view_SomeD [of "xr_regions t" sp r] by (auto simp: xr_view_def region_valid_def)

lemma xr_region_for_view:
  "xr_region_for t sp = (if \<not> identity_valid sp then Inl xr_invalid_space
     else case xr_view t sp of None \<Rightarrow> Inl xr_not_executable | Some r \<Rightarrow> Inr r)"
  by (auto simp: xr_region_for_def xr_first_find xr_view_def xrt.find_view_None xrt.find_view_Some
      split: option.split)

lemma xr_record_cases:
  assumes "xr_ok t"
  obtains (refused) e where "xr_record t sp b l = (Inl e, t)"
    | (recorded) u where "xr_record t sp b l = (Inr (), u)" "xr_ok u" "xr_view t sp = None"
      "identity_valid sp" "xr_view u = (xr_view t)(sp \<mapsto> \<lparr>xr_space = sp, xr_base = b, xr_length = l\<rparr>)"
proof (cases "\<not> identity_valid sp \<or> l = 0 \<or>
    list_ex (\<lambda>r. region_valid r \<and> xr_space r = sp) (xr_regions t) \<or>
    first_index (\<lambda>r. \<not> region_valid r) (xr_regions t) = None")
  case True
  then have "\<exists>e. xr_record t sp b l = (Inl e, t)" by (auto simp: xr_record_def)
  with refused show ?thesis by blast
next
  case False
  then obtain i where i: "first_index (\<lambda>r. \<not> region_valid r) (xr_regions t) = Some i" by auto
  let ?r = "\<lparr>xr_space = sp, xr_base = b, xr_length = l\<rparr>"
  have free: "xr_view t sp = None" using False xr_ex_view [of sp t] by simp
  have "sp \<noteq> no_identity" using False by auto
  with xrt.insert_ok [OF assms [unfolded xr_ok_def] i, of ?r] False free i recorded show ?thesis
    by (simp add: xr_ok_def xr_view_def region_valid_def xr_record_def)
qed

lemma xr_forget_spec:
  assumes "xr_ok t"
  shows "xr_ok (snd (xr_forget t sp)) \<and> xr_view (snd (xr_forget t sp)) = (xr_view t)(sp := None)"
proof (cases "identity_valid sp")
  case True
  show ?thesis
  proof (cases "first_index (\<lambda>r. region_valid r \<and> xr_space r = sp) (xr_regions t)")
    case None
    then have "xr_view t sp = None"
      using True by (simp add: xr_first_find xr_view_def xrt.find_view_None)
    with None True assms show ?thesis by (simp add: xr_forget_def fun_upd_idem)
  next
    case (Some i)
    then have f: "slot_find region_valid xr_space no_identity (xr_regions t) sp = Some i"
      using True by (simp add: xr_first_find)
    from xrt.remove_ok [OF assms [unfolded xr_ok_def] f xrt.blank_free] Some True show ?thesis
      by (simp add: xr_forget_def xr_ok_def xr_view_def)
  qed
next
  case False
  then have "xr_view t sp = None" using xr_view_space by (metis not_None_eq)
  with False assms show ?thesis by (simp add: xr_forget_def fun_upd_idem)
qed

text \<open>The operations, but for forgetting the space in question.\<close>

inductive xr_method_keep :: "AddressSpaceIdentity \<Rightarrow> ExecutableRegionTable \<Rightarrow> ExecutableRegionTable \<Rightarrow> bool" where
  recording: "xr_method_keep sp t (snd (xr_record t s b l))"
| forget: "s \<noteq> sp \<Longrightarrow> xr_method_keep sp t (snd (xr_forget t s))"

lemma xr_keep_step:
  assumes "xr_method_keep sp t u" "xr_ok t"
  shows "xr_ok u \<and> (xr_view t sp \<noteq> None \<longrightarrow> xr_view u sp = xr_view t sp)"
  using assms
proof (induction rule: xr_method_keep.induct)
  case (recording sp t s b l)
  then show ?case by (cases rule: xr_record_cases [OF recording, of s b l]) auto
next
  case (forget s sp t)
  then show ?case using xr_forget_spec [of t s] by simp
qed

lemma xr_keep_run:
  "(xr_method_keep sp)\<^sup>*\<^sup>* t u \<Longrightarrow> xr_ok t \<Longrightarrow> xr_ok u \<and> (xr_view t sp \<noteq> None \<longrightarrow> xr_view u sp = xr_view t sp)"
  by (induction rule: rtranclp_induct) (auto dest: xr_keep_step)

text \<open>The entry of a space is fixed while the space lives.  Once a region was recorded for a space,
  the region found for it is that one, through any sequence of recordings (for this space or any
  other) and of teardowns of other spaces; every further recording for the space is refused, and
  is announced as refused beforehand; when the space is forgotten it has no entry.\<close>

theorem xr_entry_fixed:
  assumes "xr_ok t" "fst (xr_record t sp b l) = Inr ()"
    and "(xr_method_keep sp)\<^sup>*\<^sup>* (snd (xr_record t sp b l)) u"
  shows "xr_region_for u sp = Inr \<lparr>xr_space = sp, xr_base = b, xr_length = l\<rparr> \<and>
    xr_would_refuse u sp \<and> (\<forall>b' l'. \<exists>e. xr_record u sp b' l' = (Inl e, u)) \<and>
    xr_region_for (snd (xr_forget u sp)) sp = Inl xr_not_executable"
  using assms(1)
proof (cases rule: xr_record_cases [where sp = sp and b = b and l = l])
  case (recorded w)
  have u: "xr_ok u" "xr_view u sp = Some \<lparr>xr_space = sp, xr_base = b, xr_length = l\<rparr>"
    using xr_keep_run [of sp w u] assms(3) recorded by simp_all
  then have "list_ex (\<lambda>r. region_valid r \<and> xr_space r = sp) (xr_regions u)"
    using xr_ex_view [OF recorded(4)] by simp
  then have "xr_would_refuse u sp" "\<exists>e. xr_record u sp b' l' = (Inl e, u)" for b' l'
    by (auto simp: xr_would_refuse_def xr_record_def)
  with u xr_forget_spec [OF u(1), of sp] recorded(4) show ?thesis by (auto simp: xr_region_for_view)
qed (use assms in simp)

theorem xr_entry_fixed_witness:
  "xr_region_for (snd (xr_record (snd (xr_record xr_empty \<lparr>asi_slot = 1, asi_generation = 4\<rparr> 4096 64))
       \<lparr>asi_slot = 1, asi_generation = 4\<rparr> 8192 64)) \<lparr>asi_slot = 1, asi_generation = 4\<rparr> =
     Inr \<lparr>xr_space = \<lparr>asi_slot = 1, asi_generation = 4\<rparr>, xr_base = 4096, xr_length = 64\<rparr>"
proof -
  have "fst (xr_record xr_empty \<lparr>asi_slot = 1, asi_generation = 4\<rparr> 4096 64) = Inr ()" by code_simp
  from xr_entry_fixed [OF xr_ok_empty this r_into_rtranclp [of "xr_method_keep _"], OF xr_method_keep.recording]
  show ?thesis by blast
qed

section \<open>Translation roots and bindings\<close>

abbreviation page_mask :: u64 where "page_mask \<equiv> 4096 - 1"
abbreviation page_address_mask :: u64 where "page_address_mask \<equiv> 0x0000FFFFFFFFF000"

definition page_aligned :: "u64 \<Rightarrow> bool" where
  "page_aligned value \<longleftrightarrow> value AND page_mask = 0"

definition stage1_physical_address :: "u64 \<Rightarrow> bool" where
  "stage1_physical_address value \<longleftrightarrow> page_aligned value \<and> value AND NOT page_address_mask = 0"

record SealedTranslationRoot =
  root_physical :: u64
  root_entry :: u64

definition root_valid :: "SealedTranslationRoot \<Rightarrow> bool" where
  "root_valid r \<longleftrightarrow> root_physical r \<noteq> 0 \<and> root_entry r \<noteq> 0"

abbreviation "pt_invalid_thread \<equiv> kernel_error 1"
abbreviation "pt_invalid_epoch \<equiv> kernel_error 2"
abbreviation "pt_invalid_root \<equiv> kernel_error 3"
abbreviation "pt_duplicate_thread \<equiv> kernel_error 4"
abbreviation "pt_duplicate_epoch \<equiv> kernel_error 5"
abbreviation "pt_exhausted \<equiv> kernel_error 6"
abbreviation "pt_not_found \<equiv> kernel_error 7"
abbreviation "pt_stale \<equiv> kernel_error 8"

record ProcessTranslationBinding =
  pb_thread :: ThreadId
  pb_epoch :: AddressSpaceEpoch
  pb_root :: u64

definition binding_valid :: "ProcessTranslationBinding \<Rightarrow> bool" where
  "binding_valid b \<longleftrightarrow> pb_thread b \<noteq> invalid_thread \<and> epoch_valid (pb_epoch b) \<and> pb_root b \<noteq> 0"

definition binding_authority :: "ProcessTranslationBinding \<Rightarrow> ExecutionAuthority" where
  "binding_authority b =
     (if \<not> binding_valid b then no_authority
      else \<lparr>ea_thread = pb_thread b, ea_space = epoch_identity (pb_epoch b)\<rparr>)"

record PtSlot =
  pts_occupied :: bool
  pts_binding :: ProcessTranslationBinding

record ProcessTranslationTable =
  pt_slots :: "PtSlot list"
  pt_occupied :: size_t

definition pt_blank :: PtSlot where
  "pt_blank = \<lparr>pts_occupied = False, pts_binding = \<lparr>pb_thread = invalid_thread,
     pb_epoch = \<lparr>ae_slot = 0, ae_generation = 0, ae_asid = kernel_reserved_asid\<rparr>, pb_root = 0\<rparr>\<rparr>"

definition pt_empty :: ProcessTranslationTable where
  "pt_empty = \<lparr>pt_slots = replicate max_threads pt_blank, pt_occupied = 0\<rparr>"

abbreviation pts_thread :: "PtSlot \<Rightarrow> ThreadId" where "pts_thread s \<equiv> pb_thread (pts_binding s)"
abbreviation pts_epoch :: "PtSlot \<Rightarrow> AddressSpaceEpoch" where "pts_epoch s \<equiv> pb_epoch (pts_binding s)"

definition pt_bind ::
  "ProcessTranslationTable \<Rightarrow> ThreadId \<Rightarrow> AddressSpaceEpoch \<Rightarrow> SealedTranslationRoot \<Rightarrow>
   AddressSpaceEpochAuthority \<Rightarrow> unit result \<times> ProcessTranslationTable" where
  "pt_bind t thread epoch root epochs =
     (if thread = invalid_thread then (Inl pt_invalid_thread, t)
      else if \<not> epoch_valid epoch then (Inl pt_invalid_epoch, t)
      else if \<not> ep_active epochs epoch then (Inl pt_stale, t)
      else if \<not> root_valid root \<or> \<not> stage1_physical_address (root_physical root)
      then (Inl pt_invalid_root, t)
      else case first_index (\<lambda>s. pts_occupied s \<and> (pts_thread s = thread \<or> pts_epoch s = epoch)) (pt_slots t) of
          Some i \<Rightarrow> (Inl (if pts_thread (pt_slots t ! i) = thread then pt_duplicate_thread
                          else pt_duplicate_epoch), t)
        | None \<Rightarrow>
            (case first_index (\<lambda>s. \<not> pts_occupied s) (pt_slots t) of
               Some i \<Rightarrow> (Inr (), t\<lparr>pt_slots := (pt_slots t)[i := \<lparr>pts_occupied = True, pts_binding =
                            \<lparr>pb_thread = thread, pb_epoch = epoch, pb_root = root_physical root\<rparr>\<rparr>],
                          pt_occupied := pt_occupied t + 1\<rparr>)
             | None \<Rightarrow> (Inl pt_exhausted, t)))"

definition pt_resolve ::
  "ProcessTranslationTable \<Rightarrow> ThreadId \<Rightarrow> AddressSpaceEpochAuthority \<Rightarrow> ProcessTranslationBinding result" where
  "pt_resolve t thread epochs =
     (if thread = invalid_thread then Inl pt_invalid_thread
      else case first_index (\<lambda>s. pts_occupied s \<and> pts_thread s = thread) (pt_slots t) of
          None \<Rightarrow> Inl pt_not_found
        | Some i \<Rightarrow> if \<not> ep_active epochs (pts_epoch (pt_slots t ! i)) then Inl pt_stale
                    else Inr (pts_binding (pt_slots t ! i)))"

definition pt_retire ::
  "ProcessTranslationTable \<Rightarrow> ThreadId \<Rightarrow> AddressSpaceEpoch \<Rightarrow> unit result \<times> ProcessTranslationTable" where
  "pt_retire t thread epoch =
     (if thread = invalid_thread then (Inl pt_invalid_thread, t)
      else if \<not> epoch_valid epoch then (Inl pt_invalid_epoch, t)
      else case first_index (\<lambda>s. pts_occupied s \<and> pts_thread s = thread) (pt_slots t) of
          None \<Rightarrow> (Inl pt_not_found, t)
        | Some i \<Rightarrow> if pts_epoch (pt_slots t ! i) \<noteq> epoch then (Inl pt_stale, t)
                    else (Inr (), t\<lparr>pt_slots := (pt_slots t)[i := pt_blank],
                                    pt_occupied := pt_occupied t - 1\<rparr>))"

definition pt_count :: "ProcessTranslationTable \<Rightarrow> size_t" where
  "pt_count t = pt_occupied t"

interpretation ptt: slot_table pts_occupied pts_thread invalid_thread pt_blank
  by unfold_locales (simp add: pt_blank_def)

text \<open>The table is a partial map from threads to bindings, injective in the epoch.\<close>

definition pt_view :: "ProcessTranslationTable \<Rightarrow> ThreadId \<Rightarrow> ProcessTranslationBinding option" where
  "pt_view t k = map_option pts_binding (slot_view pts_occupied pts_thread invalid_thread (pt_slots t) k)"

definition pt_ok :: "ProcessTranslationTable \<Rightarrow> bool" where
  "pt_ok t \<longleftrightarrow> slot_ok pts_occupied pts_thread invalid_thread max_threads (pt_slots t) (pt_occupied t) \<and>
     (\<forall>a b x y. pt_view t a = Some x \<longrightarrow> pt_view t b = Some y \<longrightarrow> pb_epoch x = pb_epoch y \<longrightarrow> a = b)"

lemma pt_ok_empty: "pt_ok pt_empty"
  using ptt.ok_blank [of max_threads] ptt.view_blank [of max_threads]
  by (simp add: pt_ok_def pt_empty_def pt_view_def)

lemma pt_first_find:
  "th \<noteq> invalid_thread \<Longrightarrow> first_index (\<lambda>s. pts_occupied s \<and> pts_thread s = th) (pt_slots t) =
     slot_find pts_occupied pts_thread invalid_thread (pt_slots t) th"
  by (simp add: slot_find_def)

lemma pt_view_mem:
  assumes "pt_ok t"
  shows "pt_view t k = Some b \<longleftrightarrow>
    (\<exists>s \<in> set (pt_slots t). pts_occupied s \<and> pts_binding s = b \<and> pb_thread b = k)"
proof -
  have wf: "slot_wf pts_occupied pts_thread 0 (pt_slots t)" using assms by (auto simp: pt_ok_def slot_ok_def)
  then show ?thesis by (force simp: pt_view_def ptt.view_iff in_set_conv_nth)
qed

lemma pt_resolve_view:
  "pt_resolve t k eps = (if k = invalid_thread then Inl pt_invalid_thread
     else case pt_view t k of None \<Rightarrow> Inl pt_not_found
       | Some b \<Rightarrow> if ep_active eps (pb_epoch b) then Inr b else Inl pt_stale)"
proof (cases "k = invalid_thread")
  case False
  then show ?thesis
    using ptt.find_view_None [of "pt_slots t" k] ptt.find_view_Some [of "pt_slots t" k]
    by (auto simp: pt_resolve_def pt_first_find pt_view_def split: option.split)
qed (simp add: pt_resolve_def)

lemma pt_bind_cases:
  assumes "pt_ok t"
  obtains (refused) e where "pt_bind t k ep r eps = (Inl e, t)"
    | (bound) u where "pt_bind t k ep r eps = (Inr (), u)" "pt_ok u" "pt_view t k = None"
      "k \<noteq> invalid_thread" "ep_active eps ep"
      "pt_view u = (pt_view t)(k \<mapsto> \<lparr>pb_thread = k, pb_epoch = ep, pb_root = root_physical r\<rparr>)"
proof (cases "k = invalid_thread \<or> \<not> epoch_valid ep \<or> \<not> ep_active eps ep \<or> \<not> root_valid r \<or>
    \<not> stage1_physical_address (root_physical r) \<or>
    first_index (\<lambda>s. pts_occupied s \<and> (pts_thread s = k \<or> pts_epoch s = ep)) (pt_slots t) \<noteq> None \<or>
    first_index (\<lambda>s. \<not> pts_occupied s) (pt_slots t) = None")
  case True
  then have "\<exists>e. pt_bind t k ep r eps = (Inl e, t)" by (auto simp: pt_bind_def split: option.split)
  with refused show ?thesis by blast
next
  case False
  then obtain i where i: "first_index (\<lambda>s. \<not> pts_occupied s) (pt_slots t) = Some i" by auto
  define b where "b = \<lparr>pb_thread = k, pb_epoch = ep, pb_root = root_physical r\<rparr>"
  define u where "u = t\<lparr>pt_slots := (pt_slots t)[i := \<lparr>pts_occupied = True, pts_binding = b\<rparr>],
    pt_occupied := pt_occupied t + 1\<rparr>"
  have dup: "first_index (\<lambda>s. pts_occupied s \<and> (pts_thread s = k \<or> pts_epoch s = ep)) (pt_slots t) = None"
    using False by blast
  then have none: "pt_view t k = None" and ep: "pt_view t a = Some x \<Longrightarrow> pb_epoch x \<noteq> ep" for a x
    using pt_view_mem [OF assms] unfolding first_index_None by (metis not_None_eq, metis)
  then have free: "slot_view pts_occupied pts_thread 0 (pt_slots t) k = None" by (simp add: pt_view_def)
  have sok: "slot_ok pts_occupied pts_thread 0 max_threads (pt_slots t) (pt_occupied t)"
    using assms by (simp add: pt_ok_def)
  note ins = ptt.insert_ok [OF sok i, of "\<lparr>pts_occupied = True, pts_binding = b\<rparr>"]
  have v: "pt_view u = (pt_view t)(k \<mapsto> b)"
    using ins(2) free False by (simp add: pt_view_def u_def b_def fun_eq_iff)
  have "\<forall>a c x y. pt_view u a = Some x \<longrightarrow> pt_view u c = Some y \<longrightarrow> pb_epoch x = pb_epoch y \<longrightarrow> a = c"
    using assms ep unfolding v pt_ok_def by (auto simp: b_def)
  then have "pt_ok u" using ins(1) free False by (simp add: pt_ok_def u_def b_def)
  moreover have "pt_bind t k ep r eps = (Inr (), u)"
    using False dup i by (simp add: pt_bind_def u_def b_def)
  ultimately show ?thesis using bound none v False unfolding b_def by blast
qed

lemma pt_retire_cases:
  assumes "pt_ok t"
  obtains (refused) e where "pt_retire t k ep = (Inl e, t)"
    | (retired) b u where "pt_retire t k ep = (Inr (), u)" "pt_ok u" "pt_view t k = Some b" "pb_epoch b = ep"
      "pt_view u = (pt_view t)(k := None)"
proof (cases "k = invalid_thread \<or> \<not> epoch_valid ep")
  case True
  with refused show ?thesis by (cases "k = invalid_thread") (auto simp: pt_retire_def)
next
  case k: False
  show ?thesis
  proof (cases "slot_find pts_occupied pts_thread invalid_thread (pt_slots t) k")
    case None
    with k refused show ?thesis by (simp add: pt_retire_def pt_first_find)
  next
    case (Some i)
    have sok: "slot_ok pts_occupied pts_thread 0 max_threads (pt_slots t) (pt_occupied t)"
      using assms by (simp add: pt_ok_def)
    note rem = ptt.remove_ok [OF sok Some ptt.blank_free]
    define u where "u = t\<lparr>pt_slots := (pt_slots t)[i := pt_blank], pt_occupied := pt_occupied t - 1\<rparr>"
    have v: "pt_view u = (pt_view t)(k := None)" using rem(2) by (simp add: pt_view_def u_def fun_eq_iff)
    have "pt_ok u" using assms rem(1) unfolding pt_ok_def v by (simp add: u_def)
    moreover have "pt_view t k = Some (pts_binding (pt_slots t ! i))"
      using ptt.find_view_Some [OF Some] by (simp add: pt_view_def)
    ultimately show ?thesis
      using refused retired v k Some
      by (cases "pts_epoch (pt_slots t ! i) = ep") (simp_all add: pt_retire_def pt_first_find u_def)
  qed
qed

inductive pt_method :: "ProcessTranslationTable \<Rightarrow> ProcessTranslationTable \<Rightarrow> bool" where
  bind: "pt_method t (snd (pt_bind t k ep r eps))"
| retire: "pt_method t (snd (pt_retire t k ep))"

lemma pt_method_ok: "pt_method t u \<Longrightarrow> pt_ok t \<Longrightarrow> pt_ok u"
proof (induction rule: pt_method.induct)
  case (bind t k ep r eps)
  then show ?case by (cases rule: pt_bind_cases [OF bind, of k ep r eps]) simp_all
next
  case (retire t k ep)
  then show ?case by (cases rule: pt_retire_cases [OF retire, of k ep]) simp_all
qed

lemma pt_run_ok: "pt_method\<^sup>*\<^sup>* pt_empty t \<Longrightarrow> pt_ok t"
  by (induction rule: rtranclp_induct) (auto intro: pt_method_ok pt_ok_empty)

lemma ep_active_asid_inj:
  assumes "ep_active a e" "ep_active a f" "ae_asid e = ae_asid f"
  shows "e = f"
proof -
  have l: "unat (ae_slot e) < 63" "unat (ae_slot f) < 63"
    and s: "ae_asid e = asid_for_slot (unat (ae_slot e))" "ae_asid f = asid_for_slot (unat (ae_slot f))"
    and g: "es_generation (ep_slots a ! unat (ae_slot e)) = ae_generation e"
      "es_generation (ep_slots a ! unat (ae_slot f)) = ae_generation f"
    using assms(1,2) by (auto simp: ep_active_def epoch_valid_def Let_def split: if_splits)
  have "unat (ae_slot e) = unat (ae_slot f)"
    using s l assms(3) asid_for_slot_eq by simp
  then have "ae_slot e = ae_slot f" by (rule unsigned_word_eqI)
  with g assms(3) show ?thesis by (cases e; cases f) simp
qed

text \<open>C40: Two threads never run under one ASID.  In every reachable state of the binding table, whatever
  the state of the epoch authority, two different threads whose translations both resolve have
  different epochs and different ASIDs; a thread whose epoch is no longer active does not resolve,
  even though it is still bound; and what resolves is a binding of that thread with an active epoch.\<close>

theorem pt_asid_exclusive:
  assumes "pt_method\<^sup>*\<^sup>* pt_empty t" "pt_resolve t k eps = Inr b"
  shows "pb_thread b = k \<and> ep_active eps (pb_epoch b) \<and>
    (\<forall>j c. j \<noteq> k \<longrightarrow> pt_resolve t j eps = Inr c \<longrightarrow>
       pb_epoch c \<noteq> pb_epoch b \<and> ae_asid (pb_epoch c) \<noteq> ae_asid (pb_epoch b)) \<and>
    (\<forall>eps'. \<not> ep_active eps' (pb_epoch b) \<longrightarrow> pt_resolve t k eps' = Inl pt_stale)"
proof -
  note ok = pt_run_ok [OF assms(1)]
  have r: "pt_view t j = Some c \<and> ep_active eps (pb_epoch c) \<and> pb_thread c = j"
    if "pt_resolve t j eps = Inr c" for j c
    using that pt_view_mem [OF ok, of j c] by (auto simp: pt_resolve_view split: if_splits option.splits)
  note k = r [OF assms(2)]
  have "pb_epoch c \<noteq> pb_epoch b \<and> ae_asid (pb_epoch c) \<noteq> ae_asid (pb_epoch b)"
    if "j \<noteq> k" "pt_resolve t j eps = Inr c" for j c
    using r [OF that(2)] k that(1) ok ep_active_asid_inj unfolding pt_ok_def by metis
  moreover have "k \<noteq> 0" using assms(2) by (auto simp: pt_resolve_def split: if_splits)
  ultimately show ?thesis using k by (auto simp: pt_resolve_view)
qed

definition pt_example :: ProcessTranslationTable where
  "pt_example = snd (pt_bind pt_empty 7 ep_one_epoch \<lparr>root_physical = 4096, root_entry = 64\<rparr> ep_one)"

theorem pt_asid_exclusive_witness:
  "pt_resolve pt_example 7 ep_one = Inr \<lparr>pb_thread = 7, pb_epoch = ep_one_epoch, pb_root = 4096\<rparr> \<and>
   pt_resolve pt_example 7 ep_empty = Inl pt_stale"
proof -
  have run: "pt_method\<^sup>*\<^sup>* pt_empty pt_example"
    unfolding pt_example_def by (intro r_into_rtranclp pt_method.intros)
  have r: "pt_resolve pt_example 7 ep_one = Inr \<lparr>pb_thread = 7, pb_epoch = ep_one_epoch, pb_root = 4096\<rparr>"
    by code_simp
  have "\<not> ep_active ep_empty ep_one_epoch" by code_simp
  with pt_asid_exclusive [OF run r] r show ?thesis by simp
qed

section \<open>Thread admission\<close>

abbreviation "ta_invalid_capability \<equiv> kernel_error 320"
abbreviation "ta_invalid_stack \<equiv> kernel_error 321"
abbreviation "ta_identifier_exhausted \<equiv> kernel_error 322"
abbreviation "ta_creation_incomplete \<equiv> kernel_error 323"
abbreviation "ta_no_executable_region \<equiv> kernel_error 324"
abbreviation "ta_entry_not_region_base \<equiv> kernel_error 325"

abbreviation first_admitted_thread :: ThreadId where "first_admitted_thread \<equiv> 0x1000"

record ThreadAdmission =
  ta_thread :: ThreadId
  ta_entry :: u64
  ta_stack :: u64

definition admission_valid :: "ThreadAdmission \<Rightarrow> bool" where
  "admission_valid a \<longleftrightarrow> ta_thread a \<noteq> invalid_thread \<and> ta_entry a \<noteq> 0 \<and> ta_stack a \<noteq> 0"

record ThreadCreateSyscall =
  tc_space :: CapabilityId
  tc_stack :: u64

definition decode_thread_create_syscall :: "u64 \<Rightarrow> u64 \<Rightarrow> ThreadCreateSyscall result" where
  "decode_thread_create_syscall x0_space x1_stack =
     (if x0_space = 0 then Inl ta_invalid_capability
      else if x1_stack = 0 then Inl ta_invalid_stack
      else Inr \<lparr>tc_space = ucast x0_space, tc_stack = x1_stack\<rparr>)"

record ThreadIdentifierIssuer =
  tid_next :: ThreadId

definition tid_empty :: ThreadIdentifierIssuer where
  "tid_empty = \<lparr>tid_next = first_admitted_thread\<rparr>"

definition tid_issue :: "ThreadIdentifierIssuer \<Rightarrow> ThreadId result \<times> ThreadIdentifierIssuer" where
  "tid_issue s =
     (if tid_next s = 0xFFFFFFFF then (Inl ta_identifier_exhausted, s)
      else (Inr (tid_next s), s\<lparr>tid_next := tid_next s + 1\<rparr>))"

text \<open>The identifiers a boot hands out: \<open>n\<close> calls of \<open>issue\<close>, the refused ones left out.\<close>

fun tid_issued :: "nat \<Rightarrow> ThreadIdentifierIssuer \<Rightarrow> ThreadId list" where
  "tid_issued 0 s = []"
| "tid_issued (Suc n) s =
     (case tid_issue s of (Inr t, s') \<Rightarrow> t # tid_issued n s' | (Inl _, s') \<Rightarrow> tid_issued n s')"

lemma word_minus_one_32: "- 1 = (0xFFFFFFFF :: u32)" by simp

lemma tid_issued_sorted:
  "sorted_wrt (<) (tid_issued n s) \<and> (\<forall>t \<in> set (tid_issued n s). tid_next s \<le> t \<and> t < - 1)"
proof (induction n arbitrary: s)
  case (Suc n)
  show ?case
  proof (cases "tid_next s = - 1")
    case True
    then show ?thesis using Suc.IH [of s] by (simp add: tid_issue_def)
  next
    case False
    then have lt: "tid_next s < tid_next s + 1" "tid_next s < - 1"
      using word_less_plus_one [of "tid_next s" "tid_next s"] word_order.not_eq_extremum by auto
    with False Suc.IH [of "s\<lparr>tid_next := tid_next s + 1\<rparr>"] show ?thesis
      by (auto simp: tid_issue_def intro: order.strict_trans2 order.trans less_imp_le)
  qed
qed simp

text \<open>A thread identifier is issued at most once in a boot.  However often the kernel asks for one,
  the identifiers it gets are strictly increasing, hence pairwise different, never below the floor
  reserved for boot's own threads, and never the invalid one; when they run out the answer is an
  error.\<close>

theorem tid_never_reused:
  "distinct (tid_issued n tid_empty) \<and> sorted_wrt (<) (tid_issued n tid_empty) \<and>
   set (tid_issued n tid_empty) \<subseteq> {first_admitted_thread ..< 0xFFFFFFFF} \<and>
   invalid_thread \<notin> set (tid_issued n tid_empty)"
proof -
  note s = tid_issued_sorted [of n tid_empty]
  have "distinct (tid_issued n tid_empty)"
    using s by (metis strict_sorted_iff)
  moreover have "set (tid_issued n tid_empty) \<subseteq> {first_admitted_thread ..< 0xFFFFFFFF}"
    using s by (auto simp: tid_empty_def simp flip: word_minus_one_32)
  ultimately show ?thesis using s by auto
qed

end
