(* ===== verification/Ipc_Endpoint.thy ===== *)
theory Ipc_Endpoint
  imports Capability
begin

text \<open>
  Endpoints, pending calls, one-shot reply seals and completed replies: ipc_endpoint.hpp/.cpp of
  src/core/oskernel.  One definition per method of \<open>class IpcEndpointTable\<close>, prefixed \<open>ipc_\<close>; the
  overloads that take an \<open>ExecutionAuthority\<close> carry the suffix \<open>_ctx\<close>.  A method that is handed the
  rendezvous by reference returns it as the third component.  The lemmas show the object identifier
  round trip, the counters, that an endpoint that was retired stays retired under reuse of its slot,
  that a seal answers once, that a stale incarnation learns nothing, and the whole call.
\<close>

section \<open>Data\<close>

type_synonym IpcEndpointSlot = u16
type_synonym IpcEndpointGeneration = u32
type_synonym IpcTransactionId = u64

abbreviation max_ipc_endpoints :: nat where "max_ipc_endpoints \<equiv> 64"
abbreviation max_ipc_reply_seals :: nat where "max_ipc_reply_seals \<equiv> 64"
abbreviation max_ipc_pending_calls :: nat where "max_ipc_pending_calls \<equiv> 64"
abbreviation max_ipc_inline_bytes :: nat where "max_ipc_inline_bytes \<equiv> 64"

definition ipc_right_send :: Rights where "ipc_right_send = push_bit 0 1"
definition ipc_right_receive :: Rights where "ipc_right_receive = push_bit 1 1"
definition ipc_right_all :: Rights where "ipc_right_all = ipc_right_send OR ipc_right_receive"

record IpcEndpoint =
  ie_slot :: IpcEndpointSlot
  ie_generation :: IpcEndpointGeneration

definition no_endpoint :: IpcEndpoint where
  "no_endpoint = \<lparr>ie_slot = 0, ie_generation = 0\<rparr>"

definition endpoint_valid :: "IpcEndpoint \<Rightarrow> bool" where
  "endpoint_valid e \<longleftrightarrow> ie_generation e \<noteq> 0"

abbreviation ipc_object_tag :: ObjectId where "ipc_object_tag \<equiv> 0xC1C0000000000000"
abbreviation ipc_object_tag_mask :: ObjectId where "ipc_object_tag_mask \<equiv> 0xFFFF000000000000"
abbreviation ipc_object_generation_mask :: ObjectId where
  "ipc_object_generation_mask \<equiv> 0x0000FFFFFFFF0000"
abbreviation ipc_object_slot_mask :: ObjectId where "ipc_object_slot_mask \<equiv> 0x000000000000FFFF"

definition ipc_object_id :: "IpcEndpoint \<Rightarrow> ObjectId" where
  "ipc_object_id e =
     (if \<not> endpoint_valid e \<or> unat (ie_slot e) \<ge> max_ipc_endpoints then invalid_object
      else ipc_object_tag OR push_bit 16 (ucast (ie_generation e)) OR ucast (ie_slot e + 1))"

record IpcEnvelope =
  env_bytes :: "u8 list"
  env_size :: u8

definition env_empty :: IpcEnvelope where
  "env_empty = \<lparr>env_bytes = replicate max_ipc_inline_bytes 0, env_size = 0\<rparr>"

definition env_valid :: "IpcEnvelope \<Rightarrow> bool" where
  "env_valid e \<longleftrightarrow> unat (env_size e) \<le> max_ipc_inline_bytes"

definition env_view :: "IpcEnvelope \<Rightarrow> u8 list" where
  "env_view e = take (unat (env_size e)) (env_bytes e)"

record IpcReplySeal =
  seal_endpoint :: IpcEndpoint
  seal_transaction :: IpcTransactionId
  seal_caller :: ThreadId
  seal_server :: ThreadId
  seal_caller_space :: AddressSpaceIdentity
  seal_server_space :: AddressSpaceIdentity

definition no_seal :: IpcReplySeal where
  "no_seal = \<lparr>seal_endpoint = no_endpoint, seal_transaction = 0, seal_caller = invalid_thread,
     seal_server = invalid_thread, seal_caller_space = no_identity, seal_server_space = no_identity\<rparr>"

definition seal_valid :: "IpcReplySeal \<Rightarrow> bool" where
  "seal_valid s \<longleftrightarrow> endpoint_valid (seal_endpoint s) \<and> seal_transaction s \<noteq> 0 \<and>
     seal_caller s \<noteq> invalid_thread \<and> seal_server s \<noteq> invalid_thread"

record IpcReceived =
  rcv_caller :: ThreadId
  rcv_reply :: IpcReplySeal
  rcv_request :: IpcEnvelope

definition no_received :: IpcReceived where
  "no_received = \<lparr>rcv_caller = invalid_thread, rcv_reply = no_seal, rcv_request = env_empty\<rparr>"

definition received_valid :: "IpcReceived \<Rightarrow> bool" where
  "received_valid r \<longleftrightarrow> rcv_caller r \<noteq> invalid_thread \<and> seal_valid (rcv_reply r) \<and>
     seal_caller (rcv_reply r) = rcv_caller r \<and> env_valid (rcv_request r)"

abbreviation "ipc_invalid_endpoint \<equiv> kernel_error 160"
abbreviation "ipc_endpoint_limit \<equiv> kernel_error 161"
abbreviation "ipc_stale_endpoint \<equiv> kernel_error 162"
abbreviation "ipc_not_endpoint_owner \<equiv> kernel_error 163"
abbreviation "ipc_invalid_capability \<equiv> kernel_error 164"
abbreviation "ipc_wrong_rights \<equiv> kernel_error 165"
abbreviation "ipc_reply_seal_limit \<equiv> kernel_error 166"
abbreviation "ipc_stale_reply_seal \<equiv> kernel_error 167"
abbreviation "ipc_wrong_reply_server \<equiv> kernel_error 168"
abbreviation "ipc_transaction_exhausted \<equiv> kernel_error 169"
abbreviation "ipc_pending_call_limit \<equiv> kernel_error 170"
abbreviation "ipc_pending_call_missing \<equiv> kernel_error 171"
abbreviation "ipc_payload_too_large \<equiv> kernel_error 172"
abbreviation "ipc_reply_unavailable \<equiv> kernel_error 173"
abbreviation "ipc_receive_already_waiting \<equiv> kernel_error 174"

record EndpointSlot =
  en_server :: ThreadId
  en_generation :: IpcEndpointGeneration
  en_active :: bool
  en_receive_waiting :: bool

record ReplySlot =
  rp_seal :: IpcReplySeal
  rp_active :: bool

record PendingSlot =
  pn_endpoint :: IpcEndpoint
  pn_caller :: ThreadId
  pn_server :: ThreadId
  pn_caller_space :: AddressSpaceIdentity
  pn_request :: IpcEnvelope
  pn_active :: bool

record CompletedSlot =
  cm_caller :: ThreadId
  cm_caller_space :: AddressSpaceIdentity
  cm_response :: IpcEnvelope
  cm_active :: bool

record IpcEndpointTable =
  ipc_endpoints :: "EndpointSlot list"
  ipc_replies :: "ReplySlot list"
  ipc_pending :: "PendingSlot list"
  ipc_completed :: "CompletedSlot list"
  ipc_active_n :: size_t
  ipc_reply_seals :: size_t
  ipc_pending_calls :: size_t
  ipc_next_transaction :: IpcTransactionId

definition endpoint_blank :: EndpointSlot where
  "endpoint_blank = \<lparr>en_server = invalid_thread, en_generation = 0, en_active = False,
     en_receive_waiting = False\<rparr>"

definition reply_blank :: ReplySlot where
  "reply_blank = \<lparr>rp_seal = no_seal, rp_active = False\<rparr>"

definition pending_blank :: PendingSlot where
  "pending_blank = \<lparr>pn_endpoint = no_endpoint, pn_caller = invalid_thread, pn_server = invalid_thread,
     pn_caller_space = no_identity, pn_request = env_empty, pn_active = False\<rparr>"

definition completed_blank :: CompletedSlot where
  "completed_blank = \<lparr>cm_caller = invalid_thread, cm_caller_space = no_identity,
     cm_response = env_empty, cm_active = False\<rparr>"

definition ipc_empty :: IpcEndpointTable where
  "ipc_empty = \<lparr>ipc_endpoints = replicate max_ipc_endpoints endpoint_blank,
     ipc_replies = replicate max_ipc_reply_seals reply_blank,
     ipc_pending = replicate max_ipc_pending_calls pending_blank,
     ipc_completed = replicate max_threads completed_blank,
     ipc_active_n = 0, ipc_reply_seals = 0, ipc_pending_calls = 0, ipc_next_transaction = 1\<rparr>"

section \<open>Helpers\<close>

definition has_rights :: "Rights \<Rightarrow> Rights \<Rightarrow> bool" where
  "has_rights actual required \<longleftrightarrow> actual AND required = required"

definition decode_endpoint_object :: "ObjectId \<Rightarrow> IpcEndpoint result" where
  "decode_endpoint_object object =
     (if object AND ipc_object_tag_mask \<noteq> ipc_object_tag then Inl ipc_invalid_capability
      else let encoded_slot = (ucast (object AND ipc_object_slot_mask) :: u16);
               generation = (ucast (drop_bit 16 (object AND ipc_object_generation_mask)) :: u32)
           in if encoded_slot = 0 \<or> unat encoded_slot > max_ipc_endpoints \<or> generation = 0
              then Inl ipc_invalid_endpoint
              else Inr \<lparr>ie_slot = encoded_slot - 1, ie_generation = generation\<rparr>)"

definition env_from :: "u8 list \<Rightarrow> IpcEnvelope result" where
  "env_from source =
     (if length source > max_ipc_inline_bytes then Inl ipc_payload_too_large
      else Inr \<lparr>env_bytes = source @ replicate (max_ipc_inline_bytes - length source) 0,
                env_size = of_nat (length source)\<rparr>)"

definition ipc_slot_for :: "IpcEndpointTable \<Rightarrow> IpcEndpoint \<Rightarrow> nat option" where
  "ipc_slot_for t e =
     (if \<not> endpoint_valid e \<or> unat (ie_slot e) \<ge> length (ipc_endpoints t) then None
      else let slot = ipc_endpoints t ! unat (ie_slot e) in
        if \<not> en_active slot \<or> en_generation slot \<noteq> ie_generation e then None
        else Some (unat (ie_slot e)))"

definition ipc_reply_slot :: "IpcEndpointTable \<Rightarrow> IpcReplySeal \<Rightarrow> nat option" where
  "ipc_reply_slot t seal =
     (if \<not> seal_valid seal then None
      else first_index (\<lambda>s. rp_active s \<and> rp_seal s = seal) (ipc_replies t))"

definition ipc_reply_slot_transaction ::
  "IpcEndpointTable \<Rightarrow> ThreadId \<Rightarrow> IpcTransactionId \<Rightarrow> nat option" where
  "ipc_reply_slot_transaction t server transaction =
     (if server = invalid_thread \<or> transaction = 0 then None
      else first_index (\<lambda>s. rp_active s \<and> seal_server (rp_seal s) = server \<and>
                            seal_transaction (rp_seal s) = transaction) (ipc_replies t))"

definition ipc_pending_slot :: "IpcEndpointTable \<Rightarrow> ThreadId \<Rightarrow> IpcEndpoint \<Rightarrow> nat option" where
  "ipc_pending_slot t caller e =
     first_index (\<lambda>s. pn_active s \<and> pn_caller s = caller \<and> pn_endpoint s = e) (ipc_pending t)"

definition ipc_pending_slot_endpoint :: "IpcEndpointTable \<Rightarrow> IpcEndpoint \<Rightarrow> nat option" where
  "ipc_pending_slot_endpoint t e =
     first_index (\<lambda>s. pn_active s \<and> pn_endpoint s = e) (ipc_pending t)"

definition ipc_free_pending_slot :: "IpcEndpointTable \<Rightarrow> nat option" where
  "ipc_free_pending_slot t = first_index (\<lambda>s. \<not> pn_active s) (ipc_pending t)"

definition ipc_completed_slot :: "IpcEndpointTable \<Rightarrow> ThreadId \<Rightarrow> nat option" where
  "ipc_completed_slot t caller = first_index (\<lambda>s. cm_active s \<and> cm_caller s = caller) (ipc_completed t)"

definition ipc_free_completed_slot :: "IpcEndpointTable \<Rightarrow> nat option" where
  "ipc_free_completed_slot t = first_index (\<lambda>s. \<not> cm_active s) (ipc_completed t)"

definition ipc_discard_completed_for :: "IpcEndpointTable \<Rightarrow> ThreadId \<Rightarrow> IpcEndpointTable" where
  "ipc_discard_completed_for t caller =
     (case ipc_completed_slot t caller of
        None \<Rightarrow> t
      | Some i \<Rightarrow> t\<lparr>ipc_completed := (ipc_completed t)[i := completed_blank]\<rparr>)"

text \<open>The loop shape of every bulk invalidation of reply seals.\<close>

definition ipc_drop_replies :: "(IpcReplySeal \<Rightarrow> bool) \<Rightarrow> IpcEndpointTable \<Rightarrow> IpcEndpointTable" where
  "ipc_drop_replies P t =
     t\<lparr>ipc_replies := map (\<lambda>s. if rp_active s \<and> P (rp_seal s) then reply_blank else s) (ipc_replies t),
       ipc_reply_seals := ipc_reply_seals t -
         of_nat (length (filter (\<lambda>s. rp_active s \<and> P (rp_seal s)) (ipc_replies t)))\<rparr>"

definition ipc_invalidate_replies_for :: "IpcEndpointTable \<Rightarrow> IpcEndpoint \<Rightarrow> IpcEndpointTable" where
  "ipc_invalidate_replies_for t e = ipc_drop_replies (\<lambda>seal. seal_endpoint seal = e) t"

fun ipc_cancel_pending ::
  "IpcEndpoint \<Rightarrow> PendingSlot list \<Rightarrow> size_t \<Rightarrow> Rendezvous \<Rightarrow> PendingSlot list \<times> size_t \<times> Rendezvous" where
  "ipc_cancel_pending e [] n r = ([], n, r)"
| "ipc_cancel_pending e (p # ps) n r =
     (if \<not> pn_active p \<or> pn_endpoint p \<noteq> e
      then (let (qs, m, r') = ipc_cancel_pending e ps n r in (p # qs, m, r'))
      else (let r1 = snd (rz_cancel_call r (pn_caller p) (pn_server p));
                (qs, m, r') = ipc_cancel_pending e ps (n - 1) r1
            in (pending_blank # qs, m, r')))"

definition ipc_cancel_pending_for ::
  "IpcEndpointTable \<Rightarrow> IpcEndpoint \<Rightarrow> Rendezvous \<Rightarrow> IpcEndpointTable \<times> Rendezvous" where
  "ipc_cancel_pending_for t e r =
     (let (ps, n, r') = ipc_cancel_pending e (ipc_pending t) (ipc_pending_calls t) r
      in (t\<lparr>ipc_pending := ps, ipc_pending_calls := n\<rparr>, r'))"

section \<open>Endpoints\<close>

text \<open>A slot whose generation has reached the last value is passed over; any other value plus one
  is not zero, so the second \<open>continue\<close> of the source is never taken.\<close>

definition ipc_create :: "IpcEndpointTable \<Rightarrow> ThreadId \<Rightarrow> IpcEndpoint result \<times> IpcEndpointTable" where
  "ipc_create t server =
     (if server = invalid_thread then (Inl ipc_not_endpoint_owner, t)
      else case first_index (\<lambda>s. \<not> en_active s \<and> en_generation s \<noteq> - 1) (ipc_endpoints t) of
          Some i \<Rightarrow>
            let generation = en_generation (ipc_endpoints t ! i) + 1 in
            (Inr \<lparr>ie_slot = of_nat i, ie_generation = generation\<rparr>,
             t\<lparr>ipc_endpoints := (ipc_endpoints t)[i :=
                  \<lparr>en_server = server, en_generation = generation, en_active = True,
                   en_receive_waiting = False\<rparr>],
               ipc_active_n := ipc_active_n t + 1\<rparr>)
        | None \<Rightarrow> (Inl ipc_endpoint_limit, t))"

definition ipc_retire ::
  "IpcEndpointTable \<Rightarrow> ThreadId \<Rightarrow> IpcEndpoint \<Rightarrow> Rendezvous \<Rightarrow>
   unit result \<times> IpcEndpointTable \<times> Rendezvous" where
  "ipc_retire t server e r =
     (case ipc_slot_for t e of
        None \<Rightarrow> (Inl ipc_stale_endpoint, t, r)
      | Some i \<Rightarrow>
          let slot = ipc_endpoints t ! i in
          if server = invalid_thread \<or> en_server slot \<noteq> server then (Inl ipc_not_endpoint_owner, t, r)
          else case (if en_receive_waiting slot then rz_cancel_receive r server else (Inr (), r)) of
              (Inl err, r1) \<Rightarrow> (Inl err, t, r1)
            | (Inr _, r1) \<Rightarrow>
                let t1 = t\<lparr>ipc_endpoints := (ipc_endpoints t)[i := slot\<lparr>en_receive_waiting := False,
                             en_server := invalid_thread, en_active := False\<rparr>],
                           ipc_active_n := ipc_active_n t - 1\<rparr>;
                    t2 = ipc_invalidate_replies_for t1 e;
                    (t3, r2) = ipc_cancel_pending_for t2 e r1
                in (Inr (), t3, r2))"

fun ipc_retire_owned ::
  "ThreadId \<Rightarrow> nat list \<Rightarrow> IpcEndpointTable \<Rightarrow> Rendezvous \<Rightarrow> size_t \<Rightarrow>
   size_t \<times> IpcEndpointTable \<times> Rendezvous" where
  "ipc_retire_owned server [] t r retired = (retired, t, r)"
| "ipc_retire_owned server (i # rest) t r retired =
     (let slot = ipc_endpoints t ! i in
      if \<not> en_active slot \<or> en_server slot \<noteq> server then ipc_retire_owned server rest t r retired
      else let (res, t', r') =
             ipc_retire t server \<lparr>ie_slot = of_nat i, ie_generation = en_generation slot\<rparr> r
           in ipc_retire_owned server rest t' r' (if is_ok res then retired + 1 else retired))"

definition ipc_retire_all_owned_by ::
  "IpcEndpointTable \<Rightarrow> ThreadId \<Rightarrow> Rendezvous \<Rightarrow> size_t \<times> IpcEndpointTable \<times> Rendezvous" where
  "ipc_retire_all_owned_by t server r =
     (if server = invalid_thread then (0, t, r)
      else ipc_retire_owned server [0..<length (ipc_endpoints t)] t r 0)"

fun ipc_release_pending :: "ThreadId \<Rightarrow> nat list \<Rightarrow> IpcEndpointTable \<Rightarrow> IpcEndpointTable" where
  "ipc_release_pending thread [] t = t"
| "ipc_release_pending thread (i # rest) t =
     (let p = ipc_pending t ! i in
      if \<not> pn_active p \<or> pn_caller p \<noteq> thread then ipc_release_pending thread rest t
      else ipc_release_pending thread rest
        (ipc_drop_replies (\<lambda>seal. seal_caller seal = thread \<and> seal_endpoint seal = pn_endpoint p)
          (t\<lparr>ipc_pending := (ipc_pending t)[i := pending_blank],
             ipc_pending_calls := ipc_pending_calls t - 1\<rparr>)))"

definition ipc_release_thread ::
  "IpcEndpointTable \<Rightarrow> ThreadId \<Rightarrow> Rendezvous \<Rightarrow> size_t \<times> IpcEndpointTable \<times> Rendezvous" where
  "ipc_release_thread t thread r =
     (if thread = invalid_thread then (0, t, r)
      else let (retired, t1, r1) = ipc_retire_all_owned_by t thread r;
               t2 = ipc_release_pending thread [0..<length (ipc_pending t1)] t1;
               t3 = ipc_drop_replies (\<lambda>seal. seal_caller seal = thread \<or> seal_server seal = thread) t2
           in (retired, ipc_discard_completed_for t3 thread, r1))"

definition ipc_active :: "IpcEndpointTable \<Rightarrow> IpcEndpoint \<Rightarrow> bool" where
  "ipc_active t e \<longleftrightarrow> ipc_slot_for t e \<noteq> None"

definition ipc_receive_waiting :: "IpcEndpointTable \<Rightarrow> IpcEndpoint \<Rightarrow> bool" where
  "ipc_receive_waiting t e =
     (case ipc_slot_for t e of None \<Rightarrow> False | Some i \<Rightarrow> en_receive_waiting (ipc_endpoints t ! i))"

section \<open>Calls\<close>

definition ipc_endpoint_for_capability ::
  "IpcEndpointTable \<Rightarrow> ThreadId \<Rightarrow> CapabilityId \<Rightarrow> Rights \<Rightarrow> CapabilityTable \<Rightarrow> IpcEndpoint result" where
  "ipc_endpoint_for_capability t holder capability required caps =
     (if holder = invalid_thread \<or> capability = invalid_capability then Inl ipc_invalid_capability
      else case cap_describe caps capability of
          Inl _ \<Rightarrow> Inl ipc_invalid_capability
        | Inr d \<Rightarrow>
            if ci_bound d \<or> \<not> cap_holds caps holder capability then Inl ipc_invalid_capability
            else if \<not> has_rights (ci_rights d) required then Inl ipc_wrong_rights
            else case decode_endpoint_object (ci_object d) of
                Inl err \<Rightarrow> Inl err
              | Inr e \<Rightarrow> if \<not> ipc_active t e then Inl ipc_stale_endpoint else Inr e)"

definition ipc_endpoint_for_capability_ctx ::
  "IpcEndpointTable \<Rightarrow> ExecutionAuthority \<Rightarrow> CapabilityId \<Rightarrow> Rights \<Rightarrow> CapabilityTable \<Rightarrow>
   IpcEndpoint result" where
  "ipc_endpoint_for_capability_ctx t holder capability required caps =
     (if \<not> authority_valid holder \<or> capability = invalid_capability then Inl ipc_invalid_capability
      else case cap_describe caps capability of
          Inl _ \<Rightarrow> Inl ipc_invalid_capability
        | Inr d \<Rightarrow>
            if \<not> cap_holds_ctx caps holder capability then Inl ipc_invalid_capability
            else if \<not> has_rights (ci_rights d) required then Inl ipc_wrong_rights
            else case decode_endpoint_object (ci_object d) of
                Inl err \<Rightarrow> Inl err
              | Inr e \<Rightarrow> if \<not> ipc_active t e then Inl ipc_stale_endpoint else Inr e)"

definition ipc_send_to_endpoint ::
  "IpcEndpointTable \<Rightarrow> ThreadId \<Rightarrow> AddressSpaceIdentity \<Rightarrow> IpcEndpoint \<Rightarrow> Rendezvous \<Rightarrow>
   IpcEnvelope \<Rightarrow> unit result \<times> IpcEndpointTable \<times> Rendezvous" where
  "ipc_send_to_endpoint t caller space e r request =
     (if \<not> env_valid request then (Inl ipc_payload_too_large, t, r)
      else if ipc_completed_slot t caller \<noteq> None then (Inl ipc_reply_unavailable, t, r)
      else case ipc_slot_for t e of
          None \<Rightarrow> (Inl ipc_stale_endpoint, t, r)
        | Some i \<Rightarrow>
            (case ipc_free_pending_slot t of
               None \<Rightarrow> (Inl ipc_pending_call_limit, t, r)
             | Some p \<Rightarrow>
                 let owner = ipc_endpoints t ! i in
                 case (if en_receive_waiting owner
                       then rz_deliver_waiting_receiver r caller (en_server owner)
                       else rz_block_send r caller (en_server owner)) of
                   (Inl err, r1) \<Rightarrow> (Inl err, t, r1)
                 | (Inr _, r1) \<Rightarrow>
                     (Inr (),
                      t\<lparr>ipc_endpoints := (ipc_endpoints t)[i := owner\<lparr>en_receive_waiting := False\<rparr>],
                        ipc_pending := (ipc_pending t)[p :=
                          \<lparr>pn_endpoint = e, pn_caller = caller, pn_server = en_server owner,
                           pn_caller_space = space, pn_request = request, pn_active = True\<rparr>],
                        ipc_pending_calls := ipc_pending_calls t + 1\<rparr>,
                      r1)))"

definition ipc_send ::
  "IpcEndpointTable \<Rightarrow> ThreadId \<Rightarrow> CapabilityId \<Rightarrow> CapabilityTable \<Rightarrow> Rendezvous \<Rightarrow> IpcEnvelope \<Rightarrow>
   unit result \<times> IpcEndpointTable \<times> Rendezvous" where
  "ipc_send t caller capability caps r request =
     (case ipc_endpoint_for_capability t caller capability ipc_right_send caps of
        Inl err \<Rightarrow> (Inl err, t, r)
      | Inr e \<Rightarrow> ipc_send_to_endpoint t caller no_identity e r request)"

definition ipc_send_ctx ::
  "IpcEndpointTable \<Rightarrow> ExecutionAuthority \<Rightarrow> CapabilityId \<Rightarrow> CapabilityTable \<Rightarrow> Rendezvous \<Rightarrow>
   IpcEnvelope \<Rightarrow> unit result \<times> IpcEndpointTable \<times> Rendezvous" where
  "ipc_send_ctx t caller capability caps r request =
     (case ipc_endpoint_for_capability_ctx t caller capability ipc_right_send caps of
        Inl err \<Rightarrow> (Inl err, t, r)
      | Inr e \<Rightarrow> ipc_send_to_endpoint t (ea_thread caller) (ea_space caller) e r request)"

definition ipc_receive_from_endpoint ::
  "IpcEndpointTable \<Rightarrow> ThreadId \<Rightarrow> AddressSpaceIdentity \<Rightarrow> IpcEndpoint \<Rightarrow> Rendezvous \<Rightarrow>
   IpcReceived result \<times> IpcEndpointTable \<times> Rendezvous" where
  "ipc_receive_from_endpoint t server space e r =
     (case ipc_slot_for t e of
        None \<Rightarrow> (Inl ipc_stale_endpoint, t, r)
      | Some i \<Rightarrow>
          let owner = ipc_endpoints t ! i in
          if en_server owner \<noteq> server then (Inl ipc_not_endpoint_owner, t, r)
          else if en_receive_waiting owner then (Inl ipc_receive_already_waiting, t, r)
          else case rz_partner_of r server of
              Inl err \<Rightarrow> (Inl err, t, r)
            | Inr delivered \<Rightarrow>
                (case (if delivered \<noteq> invalid_thread then ipc_pending_slot t delivered e
                       else ipc_pending_slot_endpoint t e) of
                   None \<Rightarrow>
                     (if delivered \<noteq> invalid_thread then (Inl ipc_pending_call_missing, t, r)
                      else case rz_wait_receive r server of
                          (Inl err, r1) \<Rightarrow> (Inl err, t, r1)
                        | (Inr _, r1) \<Rightarrow>
                            (Inr no_received,
                             t\<lparr>ipc_endpoints := (ipc_endpoints t)[i :=
                                 owner\<lparr>en_receive_waiting := True\<rparr>]\<rparr>, r1))
                 | Some p \<Rightarrow>
                     let pending = ipc_pending t ! p in
                     if ipc_next_transaction t = 0 \<or> ipc_next_transaction t = - 1
                     then (Inl ipc_transaction_exhausted, t, r)
                     else case first_index (\<lambda>s. \<not> rp_active s) (ipc_replies t) of
                         None \<Rightarrow> (Inl ipc_reply_seal_limit, t, r)
                       | Some f \<Rightarrow>
                           let (taken, r1) =
                             (if delivered \<noteq> invalid_thread
                              then (case rz_receive r server of
                                  (Inl _, r1) \<Rightarrow> (Inl ipc_pending_call_missing, r1)
                                | (Inr consumed, r1) \<Rightarrow>
                                    (if consumed \<noteq> delivered then Inl ipc_pending_call_missing
                                     else Inr (), r1))
                              else rz_accept_sender r server (pn_caller pending))
                           in case taken of
                               Inl err \<Rightarrow> (Inl err, t, r1)
                             | Inr _ \<Rightarrow>
                                 let seal = \<lparr>seal_endpoint = e,
                                       seal_transaction = ipc_next_transaction t,
                                       seal_caller = pn_caller pending, seal_server = server,
                                       seal_caller_space = pn_caller_space pending,
                                       seal_server_space = space\<rparr>
                                 in (Inr \<lparr>rcv_caller = pn_caller pending, rcv_reply = seal,
                                          rcv_request = pn_request pending\<rparr>,
                                     t\<lparr>ipc_next_transaction := ipc_next_transaction t + 1,
                                       ipc_replies := (ipc_replies t)[f :=
                                         \<lparr>rp_seal = seal, rp_active = True\<rparr>],
                                       ipc_reply_seals := ipc_reply_seals t + 1\<rparr>, r1)))"

definition ipc_receive ::
  "IpcEndpointTable \<Rightarrow> ThreadId \<Rightarrow> CapabilityId \<Rightarrow> CapabilityTable \<Rightarrow> Rendezvous \<Rightarrow>
   IpcReceived result \<times> IpcEndpointTable \<times> Rendezvous" where
  "ipc_receive t server capability caps r =
     (case ipc_endpoint_for_capability t server capability ipc_right_receive caps of
        Inl err \<Rightarrow> (Inl err, t, r)
      | Inr e \<Rightarrow> ipc_receive_from_endpoint t server no_identity e r)"

definition ipc_receive_ctx ::
  "IpcEndpointTable \<Rightarrow> ExecutionAuthority \<Rightarrow> CapabilityId \<Rightarrow> CapabilityTable \<Rightarrow> Rendezvous \<Rightarrow>
   IpcReceived result \<times> IpcEndpointTable \<times> Rendezvous" where
  "ipc_receive_ctx t server capability caps r =
     (case ipc_endpoint_for_capability_ctx t server capability ipc_right_receive caps of
        Inl err \<Rightarrow> (Inl err, t, r)
      | Inr e \<Rightarrow> ipc_receive_from_endpoint t (ea_thread server) (ea_space server) e r)"

definition ipc_reply ::
  "IpcEndpointTable \<Rightarrow> ThreadId \<Rightarrow> IpcReplySeal \<Rightarrow> Rendezvous \<Rightarrow> IpcEnvelope \<Rightarrow>
   unit result \<times> IpcEndpointTable \<times> Rendezvous" where
  "ipc_reply t server seal r response =
     (if \<not> env_valid response then (Inl ipc_payload_too_large, t, r)
      else if \<not> seal_valid seal then (Inl ipc_stale_reply_seal, t, r)
      else if server \<noteq> seal_server seal then (Inl ipc_wrong_reply_server, t, r)
      else if (case ipc_slot_for t (seal_endpoint seal) of
                 None \<Rightarrow> True | Some i \<Rightarrow> en_server (ipc_endpoints t ! i) \<noteq> server)
        then (Inl ipc_stale_reply_seal, t, r)
      else case (ipc_reply_slot t seal, ipc_pending_slot t (seal_caller seal) (seal_endpoint seal)) of
          (Some s, Some p) \<Rightarrow>
            (if ipc_completed_slot t (seal_caller seal) \<noteq> None then (Inl ipc_reply_unavailable, t, r)
             else case ipc_free_completed_slot t of
                 None \<Rightarrow> (Inl ipc_reply_unavailable, t, r)
               | Some c \<Rightarrow>
                   let t1 = t\<lparr>ipc_completed := (ipc_completed t)[c :=
                              \<lparr>cm_caller = seal_caller seal, cm_caller_space = seal_caller_space seal,
                               cm_response = response, cm_active = True\<rparr>]\<rparr>
                   in case rz_reply r server (seal_caller seal) of
                       (Inl err, r1) \<Rightarrow>
                         (Inl err,
                          t1\<lparr>ipc_completed := (ipc_completed t1)[c := completed_blank]\<rparr>, r1)
                     | (Inr _, r1) \<Rightarrow>
                         (Inr (),
                          t1\<lparr>ipc_replies := (ipc_replies t1)[s := reply_blank],
                             ipc_reply_seals := ipc_reply_seals t1 - 1,
                             ipc_pending := (ipc_pending t1)[p := pending_blank],
                             ipc_pending_calls := ipc_pending_calls t1 - 1\<rparr>, r1))
        | _ \<Rightarrow> (Inl ipc_stale_reply_seal, t, r))"

definition ipc_reply_ctx ::
  "IpcEndpointTable \<Rightarrow> ExecutionAuthority \<Rightarrow> IpcReplySeal \<Rightarrow> Rendezvous \<Rightarrow> IpcEnvelope \<Rightarrow>
   unit result \<times> IpcEndpointTable \<times> Rendezvous" where
  "ipc_reply_ctx t server seal r response =
     (if \<not> authority_valid server then (Inl ipc_wrong_reply_server, t, r)
      else if identity_valid (seal_server_space seal) \<and> ea_space server \<noteq> seal_server_space seal
        then (Inl ipc_wrong_reply_server, t, r)
      else ipc_reply t (ea_thread server) seal r response)"

definition ipc_reply_transaction ::
  "IpcEndpointTable \<Rightarrow> ThreadId \<Rightarrow> IpcTransactionId \<Rightarrow> Rendezvous \<Rightarrow> IpcEnvelope \<Rightarrow>
   unit result \<times> IpcEndpointTable \<times> Rendezvous" where
  "ipc_reply_transaction t server transaction r response =
     (case ipc_reply_slot_transaction t server transaction of
        None \<Rightarrow> (Inl ipc_stale_reply_seal, t, r)
      | Some s \<Rightarrow> ipc_reply t server (rp_seal (ipc_replies t ! s)) r response)"

definition ipc_reply_transaction_ctx ::
  "IpcEndpointTable \<Rightarrow> ExecutionAuthority \<Rightarrow> IpcTransactionId \<Rightarrow> Rendezvous \<Rightarrow> IpcEnvelope \<Rightarrow>
   unit result \<times> IpcEndpointTable \<times> Rendezvous" where
  "ipc_reply_transaction_ctx t server transaction r response =
     (case ipc_reply_slot_transaction t (ea_thread server) transaction of
        None \<Rightarrow> (Inl ipc_stale_reply_seal, t, r)
      | Some s \<Rightarrow> ipc_reply_ctx t server (rp_seal (ipc_replies t ! s)) r response)"

definition ipc_take_reply :: "IpcEndpointTable \<Rightarrow> ThreadId \<Rightarrow> IpcEnvelope result \<times> IpcEndpointTable" where
  "ipc_take_reply t caller =
     (case ipc_completed_slot t caller of
        None \<Rightarrow> (Inl ipc_reply_unavailable, t)
      | Some i \<Rightarrow> (Inr (cm_response (ipc_completed t ! i)),
                   t\<lparr>ipc_completed := (ipc_completed t)[i := completed_blank]\<rparr>))"

definition ipc_take_reply_ctx ::
  "IpcEndpointTable \<Rightarrow> ExecutionAuthority \<Rightarrow> IpcEnvelope result \<times> IpcEndpointTable" where
  "ipc_take_reply_ctx t caller =
     (if \<not> authority_valid caller then (Inl ipc_reply_unavailable, t)
      else case ipc_completed_slot t (ea_thread caller) of
          None \<Rightarrow> (Inl ipc_reply_unavailable, t)
        | Some i \<Rightarrow>
            let slot = ipc_completed t ! i in
            if identity_valid (cm_caller_space slot) \<and> ea_space caller \<noteq> cm_caller_space slot
            then (Inl ipc_reply_unavailable, t)
            else ipc_take_reply t (ea_thread caller))"

definition ipc_reply_available :: "IpcEndpointTable \<Rightarrow> ThreadId \<Rightarrow> bool" where
  "ipc_reply_available t caller \<longleftrightarrow> caller \<noteq> invalid_thread \<and> ipc_completed_slot t caller \<noteq> None"

definition ipc_active_endpoint_count :: "IpcEndpointTable \<Rightarrow> size_t" where
  "ipc_active_endpoint_count t = ipc_active_n t"

definition ipc_active_reply_seal_count :: "IpcEndpointTable \<Rightarrow> size_t" where
  "ipc_active_reply_seal_count t = ipc_reply_seals t"

definition ipc_pending_call_count :: "IpcEndpointTable \<Rightarrow> size_t" where
  "ipc_pending_call_count t = ipc_pending_calls t"

section \<open>Object identifiers\<close>

text \<open>An endpoint survives the trip through an object identifier.  The identifier of every endpoint
  the table can hand out decodes to exactly that endpoint, so two endpoints, or two lives of one
  slot, never share an identifier; what is not a valid endpoint has the invalid identifier.\<close>

theorem ipc_object_round_trip:
  "decode_endpoint_object (ipc_object_id e) =
     (if endpoint_valid e \<and> unat (ie_slot e) < max_ipc_endpoints then Inr e
      else Inl ipc_invalid_capability)"
proof (cases "endpoint_valid e \<and> unat (ie_slot e) < max_ipc_endpoints")
  case True
  have "ipc_object_tag AND 0x0000FFFFFFFFFFFF = 0" by simp
  note f = object_fields [OF this, of "ie_generation e" "ie_slot e + 1"]
  have "unat (ie_slot e + 1) = unat (ie_slot e) + 1" using True by (simp add: unat_word_ariths)
  then have "ie_slot e + 1 \<noteq> 0" "\<not> unat (ie_slot e + 1) > max_ipc_endpoints" using True by auto
  with True f show ?thesis
    by (simp add: decode_endpoint_object_def ipc_object_id_def endpoint_valid_def Let_def)
qed (auto simp: decode_endpoint_object_def ipc_object_id_def)

section \<open>Invariant\<close>

abbreviation rp_key :: "ReplySlot \<Rightarrow> IpcTransactionId" where
  "rp_key s \<equiv> seal_transaction (rp_seal s)"

interpretation rpt: slot_table rp_active rp_key 0 reply_blank
  by unfold_locales (simp add: reply_blank_def)

interpretation cmt: slot_table cm_active cm_caller invalid_thread completed_blank
  by unfold_locales (simp add: completed_blank_def)

definition en_ok :: "EndpointSlot \<Rightarrow> bool" where
  "en_ok s \<longleftrightarrow> (en_active s \<longrightarrow> en_server s \<noteq> invalid_thread \<and> en_generation s \<noteq> 0)"

definition rp_ok :: "IpcTransactionId \<Rightarrow> ReplySlot \<Rightarrow> bool" where
  "rp_ok next s \<longleftrightarrow> (rp_active s \<longrightarrow> seal_valid (rp_seal s) \<and> rp_key s < next)"

definition ipc_ok :: "IpcEndpointTable \<Rightarrow> bool" where
  "ipc_ok t \<longleftrightarrow>
     length (ipc_endpoints t) = max_ipc_endpoints \<and>
     ipc_active_n t = of_nat (length (filter en_active (ipc_endpoints t))) \<and>
     (\<forall>s \<in> set (ipc_endpoints t). en_ok s) \<and>
     slot_ok rp_active rp_key 0 max_ipc_reply_seals (ipc_replies t) (ipc_reply_seals t) \<and>
     ipc_next_transaction t \<noteq> 0 \<and> (\<forall>s \<in> set (ipc_replies t). rp_ok (ipc_next_transaction t) s) \<and>
     length (ipc_pending t) = max_ipc_pending_calls \<and>
     ipc_pending_calls t = of_nat (length (filter pn_active (ipc_pending t))) \<and>
     slot_ok cm_active cm_caller invalid_thread max_threads (ipc_completed t)
       (of_nat (length (filter cm_active (ipc_completed t))))"

lemma ipc_ok_empty: "ipc_ok ipc_empty"
  using rpt.ok_blank [of max_ipc_reply_seals] cmt.ok_blank [of max_threads]
  by (simp add: ipc_ok_def ipc_empty_def en_ok_def rp_ok_def slot_ok_def endpoint_blank_def
      reply_blank_def pending_blank_def completed_blank_def)

text \<open>The four parts of the table change independently.\<close>

lemma ball_set_update: "\<forall>s \<in> set xs. P s \<Longrightarrow> P y \<Longrightarrow> \<forall>s \<in> set (xs[i := y]). P s"
  using set_update_subset_insert [of xs i y] by auto

lemma ipc_ok_endpoint_store:
  assumes "ipc_ok t" "i < max_ipc_endpoints" "en_ok s"
    and "n = (if en_active s then 1 else 0) - (if en_active (ipc_endpoints t ! i) then 1 else 0)"
  shows "ipc_ok (t\<lparr>ipc_endpoints := (ipc_endpoints t)[i := s], ipc_active_n := ipc_active_n t + n\<rparr>)"
proof -
  have i: "i < length (ipc_endpoints t)" using assms(1,2) by (simp add: ipc_ok_def)
  have "(of_nat (length (filter en_active ((ipc_endpoints t)[i := s]))) :: size_t) =
      ipc_active_n t + n"
  proof -
    have "(of_nat (length (filter en_active ((ipc_endpoints t)[i := s]))) :: size_t) +
        (if en_active (ipc_endpoints t ! i) then 1 else 0) =
        of_nat (length (filter en_active (ipc_endpoints t))) + (if en_active s then 1 else 0)"
      using arg_cong [OF length_filter_update [OF i, of en_active s], of "of_nat :: nat \<Rightarrow> size_t"]
      by (auto split: if_splits)
    moreover have "ipc_active_n t = of_nat (length (filter en_active (ipc_endpoints t)))"
      using assms(1) by (simp add: ipc_ok_def)
    ultimately show ?thesis unfolding assms(4) by (simp only: add_diff_eq eq_diff_eq)
  qed
  moreover have "\<forall>s \<in> set ((ipc_endpoints t)[i := s]). en_ok s"
    using assms(1,3) by (intro ball_set_update) (simp_all add: ipc_ok_def)
  ultimately show ?thesis using assms(1) by (simp add: ipc_ok_def)
qed

lemma ipc_ok_drop_replies: "ipc_ok t \<Longrightarrow> ipc_ok (ipc_drop_replies P t)"
proof -
  assume ok: "ipc_ok t"
  have "slot_ok rp_active rp_key 0 max_ipc_reply_seals (ipc_replies t) (ipc_reply_seals t)"
    using ok by (simp add: ipc_ok_def)
  note cl = rpt.clear_ok(1) [OF this, where P = "\<lambda>s. P (rp_seal s)"]
  have "rp_ok n reply_blank" for n by (simp add: rp_ok_def reply_blank_def)
  with cl ok show ?thesis by (auto simp: ipc_ok_def ipc_drop_replies_def)
qed

lemma ipc_cancel_pending_count:
  "ipc_cancel_pending e ps n r = (qs, m, r') \<Longrightarrow>
   length qs = length ps \<and>
   m + of_nat (length (filter pn_active ps)) = n + of_nat (length (filter pn_active qs))"
proof (induction ps arbitrary: n r qs)
  case (Cons p ps)
  show ?case
  proof (cases "pn_active p \<and> pn_endpoint p = e")
    case True
    let ?r = "snd (rz_cancel_call r (pn_caller p) (pn_server p))"
    obtain zs where z: "ipc_cancel_pending e ps (n - 1) ?r = (zs, m, r')" "qs = pending_blank # zs"
      using Cons.prems True by (auto simp: Let_def split: prod.splits)
    from Cons.IH [OF z(1)] have h: "length zs = length ps"
      "m + of_nat (length (filter pn_active ps)) = n - 1 + of_nat (length (filter pn_active zs))"
      by auto
    have "m + (1 + of_nat (length (filter pn_active ps))) = n + of_nat (length (filter pn_active zs))"
      using h(2) by (simp add: algebra_simps)
    with True z(2) h(1) show ?thesis by (simp add: pending_blank_def)
  next
    case False
    then obtain zs where z: "ipc_cancel_pending e ps n r = (zs, m, r')" "qs = p # zs"
      using Cons.prems by (auto simp: Let_def split: prod.splits if_splits)
    from Cons.IH [OF z(1)] z(2) show ?thesis by auto
  qed
qed auto

lemma ipc_ok_cancel_pending_for: "ipc_ok t \<Longrightarrow> ipc_ok (fst (ipc_cancel_pending_for t e r))"
proof -
  assume ok: "ipc_ok t"
  obtain qs m r' where c: "ipc_cancel_pending e (ipc_pending t) (ipc_pending_calls t) r = (qs, m, r')"
    by (cases "ipc_cancel_pending e (ipc_pending t) (ipc_pending_calls t) r") auto
  from ipc_cancel_pending_count [OF c] ok
  have "length qs = max_ipc_pending_calls" "m = of_nat (length (filter pn_active qs))"
    by (auto simp: ipc_ok_def add.commute)
  with ok c show ?thesis by (simp add: ipc_cancel_pending_for_def ipc_ok_def)
qed

lemma ipc_slot_for_iff:
  "ipc_slot_for t e = Some i \<longleftrightarrow> endpoint_valid e \<and> i = unat (ie_slot e) \<and> i < length (ipc_endpoints t) \<and>
     en_active (ipc_endpoints t ! i) \<and> en_generation (ipc_endpoints t ! i) = ie_generation e"
  by (auto simp: ipc_slot_for_def Let_def)

lemma ipc_ok_endpoint: "ipc_ok t \<Longrightarrow> i < max_ipc_endpoints \<Longrightarrow> en_ok (ipc_endpoints t ! i)"
  by (simp add: ipc_ok_def)

lemma ipc_ok_create: "ipc_ok t \<Longrightarrow> ipc_ok (snd (ipc_create t server))"
proof (cases "first_index (\<lambda>s. \<not> en_active s \<and> en_generation s \<noteq> - 1) (ipc_endpoints t)")
  case (Some i)
  assume ok: "ipc_ok t"
  let ?g = "en_generation (ipc_endpoints t ! i) + 1"
  let ?s = "\<lparr>en_server = server, en_generation = ?g, en_active = True, en_receive_waiting = False\<rparr>"
  from first_index_SomeD [OF Some] ok have i: "i < max_ipc_endpoints" "\<not> en_active (ipc_endpoints t ! i)"
    "en_generation (ipc_endpoints t ! i) \<noteq> - 1" by (auto simp: ipc_ok_def)
  then have "?g \<noteq> 0" by (metis eq_neg_iff_add_eq_0)
  then have "server \<noteq> 0 \<Longrightarrow> en_ok ?s" by (simp add: en_ok_def)
  with ipc_ok_endpoint_store [OF ok i(1), of ?s 1] i(2) Some ok show ?thesis
    by (simp add: ipc_create_def Let_def)
qed (simp add: ipc_create_def)

lemma ipc_retire_cases:
  obtains (refused) err r' where "ipc_retire t server e r = (Inl err, t, r')"
    | (retired) i r1 where "ipc_slot_for t e = Some i" "en_server (ipc_endpoints t ! i) = server"
      "ipc_retire t server e r = (Inr (), ipc_cancel_pending_for (ipc_invalidate_replies_for
         (t\<lparr>ipc_endpoints := (ipc_endpoints t)[i := (ipc_endpoints t ! i)\<lparr>en_receive_waiting := False,
              en_server := invalid_thread, en_active := False\<rparr>],
            ipc_active_n := ipc_active_n t - 1\<rparr>) e) e r1)"
proof (cases "ipc_slot_for t e")
  case None
  with refused show ?thesis by (simp add: ipc_retire_def)
next
  case (Some i)
  define slot where "slot = ipc_endpoints t ! i"
  obtain c r1 where c: "(if en_receive_waiting slot then rz_cancel_receive r server else (Inr (), r)) = (c, r1)"
    by (cases "if en_receive_waiting slot then rz_cancel_receive r server else (Inr (), r)") auto
  show ?thesis
  proof (cases "server = 0 \<or> en_server slot \<noteq> server")
    case True
    with Some refused show ?thesis by (auto simp: ipc_retire_def Let_def slot_def)
  next
    case False
    show ?thesis
    proof (cases c)
      case (Inl err)
      with Some False c refused show ?thesis by (simp add: ipc_retire_def Let_def slot_def)
    next
      case (Inr u)
      with Some False c retired [of i r1] show ?thesis
        by (simp add: ipc_retire_def Let_def slot_def split_beta)
    qed
  qed
qed

lemma ipc_ok_retire: "ipc_ok t \<Longrightarrow> ipc_ok (fst (snd (ipc_retire t server e r)))"
proof -
  assume ok: "ipc_ok t"
  show ?thesis
  proof (cases rule: ipc_retire_cases [of t server e r])
    case (retired i r1)
    have i: "i < max_ipc_endpoints" "en_active (ipc_endpoints t ! i)"
      using retired(1) ok by (auto simp: ipc_slot_for_iff ipc_ok_def)
    let ?s = "(ipc_endpoints t ! i)\<lparr>en_receive_waiting := False, en_server := invalid_thread, en_active := False\<rparr>"
    have "en_ok ?s" by (simp add: en_ok_def)
    from ipc_ok_endpoint_store [OF ok i(1) this, of "- 1"] i(2)
    have "ipc_ok (t\<lparr>ipc_endpoints := (ipc_endpoints t)[i := ?s], ipc_active_n := ipc_active_n t - 1\<rparr>)"
      by simp
    then show ?thesis
      by (simp add: retired(3) ipc_invalidate_replies_for_def ipc_ok_drop_replies ipc_ok_cancel_pending_for)
  qed (use ok in simp)
qed

lemma ipc_ok_retire_owned:
  "ipc_ok t \<Longrightarrow> ipc_ok (fst (snd (ipc_retire_owned server is t r n)))"
proof (induction "is" arbitrary: t r n)
  case (Cons i "is")
  show ?case
    using Cons.IH Cons.prems ipc_ok_retire
    by (auto simp: Let_def split_beta)
qed simp

lemma ipc_ok_release_pending:
  "ipc_ok t \<Longrightarrow> \<forall>i \<in> set is. i < max_ipc_pending_calls \<Longrightarrow> ipc_ok (ipc_release_pending th is t)"
proof (induction "is" arbitrary: t)
  case (Cons i "is")
  show ?case
  proof (cases "pn_active (ipc_pending t ! i) \<and> pn_caller (ipc_pending t ! i) = th")
    case True
    have i: "i < length (ipc_pending t)" using Cons.prems by (simp add: ipc_ok_def)
    have "Suc (length (filter pn_active ((ipc_pending t)[i := pending_blank]))) =
        length (filter pn_active (ipc_pending t))"
      using True by (intro length_filter_update_sub [OF i]) (simp_all add: pending_blank_def)
    then have "ipc_pending_calls t - 1 = of_nat (length (filter pn_active ((ipc_pending t)[i := pending_blank])))"
      using Cons.prems(1) by (simp add: ipc_ok_def flip: \<open>Suc _ = _\<close>)
    with Cons.prems(1) have "ipc_ok (t\<lparr>ipc_pending := (ipc_pending t)[i := pending_blank],
        ipc_pending_calls := ipc_pending_calls t - 1\<rparr>)" by (simp add: ipc_ok_def)
    with True Cons show ?thesis by (simp add: Let_def ipc_ok_drop_replies)
  next
    case False
    with Cons show ?thesis by (auto simp: Let_def)
  qed
qed simp

lemma ipc_ok_completed_clear:
  "ipc_ok t \<Longrightarrow> i < max_threads \<Longrightarrow> ipc_ok (t\<lparr>ipc_completed := (ipc_completed t)[i := completed_blank]\<rparr>)"
proof -
  assume ok: "ipc_ok t" and i: "i < max_threads"
  have c: "slot_wf cm_active cm_caller 0 (ipc_completed t)" "length (ipc_completed t) = max_threads"
    using ok by (simp_all add: ipc_ok_def slot_ok_def)
  have "\<not> cm_active completed_blank" by (simp add: completed_blank_def)
  then have "slot_wf cm_active cm_caller 0 ((ipc_completed t)[i := completed_blank])"
    using c i by (auto simp: slot_wf_def nth_list_update split: if_splits)
  with ok show ?thesis by (simp add: ipc_ok_def slot_ok_def)
qed

lemma ipc_ok_discard: "ipc_ok t \<Longrightarrow> ipc_ok (ipc_discard_completed_for t c)"
  using ipc_ok_completed_clear
  by (auto simp: ipc_discard_completed_for_def ipc_completed_slot_def ipc_ok_def slot_ok_def
      dest!: first_index_SomeD split: option.split)

lemma ipc_ok_release_thread: "ipc_ok t \<Longrightarrow> ipc_ok (fst (snd (ipc_release_thread t th r)))"
proof -
  assume ok: "ipc_ok t"
  let ?t1 = "fst (snd (ipc_retire_all_owned_by t th r))"
  have ok1: "ipc_ok ?t1" using ok by (simp add: ipc_retire_all_owned_by_def ipc_ok_retire_owned)
  have "length (ipc_pending ?t1) = max_ipc_pending_calls" using ok1 by (simp add: ipc_ok_def)
  then have "ipc_ok (ipc_release_pending th [0..<length (ipc_pending ?t1)] ?t1)"
    using ok1 by (intro ipc_ok_release_pending) auto
  then show ?thesis
    using ok by (simp add: ipc_release_thread_def Let_def split_beta ipc_ok_drop_replies ipc_ok_discard)
qed

lemma ipc_send_to_endpoint_cases:
  obtains (refused) err r' where "ipc_send_to_endpoint t a sp e r req = (Inl err, t, r')"
    | (sent) i p r' where "ipc_slot_for t e = Some i" "ipc_free_pending_slot t = Some p"
      "ipc_completed_slot t a = None" "env_valid req"
      "(if en_receive_waiting (ipc_endpoints t ! i)
        then rz_deliver_waiting_receiver r a (en_server (ipc_endpoints t ! i))
        else rz_block_send r a (en_server (ipc_endpoints t ! i))) = (Inr (), r')"
      "ipc_send_to_endpoint t a sp e r req = (Inr (),
         t\<lparr>ipc_endpoints := (ipc_endpoints t)[i := (ipc_endpoints t ! i)\<lparr>en_receive_waiting := False\<rparr>],
           ipc_pending := (ipc_pending t)[p :=
             \<lparr>pn_endpoint = e, pn_caller = a, pn_server = en_server (ipc_endpoints t ! i),
              pn_caller_space = sp, pn_request = req, pn_active = True\<rparr>],
           ipc_pending_calls := ipc_pending_calls t + 1\<rparr>, r')"
proof (cases "env_valid req \<and> ipc_completed_slot t a = None \<and> ipc_slot_for t e \<noteq> None \<and>
    ipc_free_pending_slot t \<noteq> None")
  case False
  then have "\<exists>err r'. ipc_send_to_endpoint t a sp e r req = (Inl err, t, r')"
    by (auto simp: ipc_send_to_endpoint_def split: option.split)
  with refused show ?thesis by blast
next
  case True
  then obtain i p where ip: "ipc_slot_for t e = Some i" "ipc_free_pending_slot t = Some p" by auto
  obtain c r' where c: "(if en_receive_waiting (ipc_endpoints t ! i)
        then rz_deliver_waiting_receiver r a (en_server (ipc_endpoints t ! i))
        else rz_block_send r a (en_server (ipc_endpoints t ! i))) = (c, r')"
    by (cases "if en_receive_waiting (ipc_endpoints t ! i)
        then rz_deliver_waiting_receiver r a (en_server (ipc_endpoints t ! i))
        else rz_block_send r a (en_server (ipc_endpoints t ! i))") auto
  show ?thesis
  proof (cases c)
    case (Inl err)
    with True ip c refused show ?thesis by (simp add: ipc_send_to_endpoint_def Let_def)
  next
    case (Inr u)
    show ?thesis
      by (rule sent [OF ip]) (use True ip c Inr in \<open>simp_all add: ipc_send_to_endpoint_def Let_def\<close>)
  qed
qed

lemma ipc_ok_pending_store:
  assumes "ipc_ok t" "ipc_free_pending_slot t = Some p" "pn_active x"
  shows "ipc_ok (t\<lparr>ipc_pending := (ipc_pending t)[p := x], ipc_pending_calls := ipc_pending_calls t + 1\<rparr>)"
proof -
  have p: "p < length (ipc_pending t)" "\<not> pn_active (ipc_pending t ! p)"
    using first_index_SomeD [OF assms(2) [unfolded ipc_free_pending_slot_def]] by simp_all
  have "length (filter pn_active ((ipc_pending t)[p := x])) = Suc (length (filter pn_active (ipc_pending t)))"
    using length_filter_update_add [OF p(1), of pn_active x] p(2) assms(3) by simp
  with assms(1) show ?thesis by (simp add: ipc_ok_def)
qed

lemma ipc_ok_waiting:
  assumes "ipc_ok t" "ipc_slot_for t e = Some i"
  shows "ipc_ok (t\<lparr>ipc_endpoints := (ipc_endpoints t)[i := (ipc_endpoints t ! i)\<lparr>en_receive_waiting := w\<rparr>]\<rparr>)"
proof -
  have i: "i < max_ipc_endpoints" using assms by (auto simp: ipc_slot_for_iff ipc_ok_def)
  have "en_ok ((ipc_endpoints t ! i)\<lparr>en_receive_waiting := w\<rparr>)"
    using ipc_ok_endpoint [OF assms(1) i] by (simp add: en_ok_def)
  from ipc_ok_endpoint_store [OF assms(1) i this, of 0] show ?thesis by simp
qed

lemma ipc_ok_send: "ipc_ok t \<Longrightarrow> ipc_ok (fst (snd (ipc_send_to_endpoint t a sp e r req)))"
proof -
  assume ok: "ipc_ok t"
  show ?thesis
  proof (cases rule: ipc_send_to_endpoint_cases [of t a sp e r req])
    case (sent i p r')
    have "ipc_free_pending_slot (t\<lparr>ipc_endpoints := es\<rparr>) = Some p" for es
      using sent(2) by (simp add: ipc_free_pending_slot_def)
    from ipc_ok_pending_store [OF ipc_ok_waiting [OF ok sent(1)] this] sent(6) show ?thesis by simp
  qed (use ok in simp)
qed

lemma ipc_ok_seal:
  assumes "ipc_ok t" "first_index (\<lambda>s. \<not> rp_active s) (ipc_replies t) = Some f"
    and "ipc_next_transaction t \<noteq> - 1" "seal_transaction seal = ipc_next_transaction t" "seal_valid seal"
  shows "ipc_ok (t\<lparr>ipc_next_transaction := ipc_next_transaction t + 1,
     ipc_replies := (ipc_replies t)[f := \<lparr>rp_seal = seal, rp_active = True\<rparr>],
     ipc_reply_seals := ipc_reply_seals t + 1\<rparr>)"
proof -
  let ?n = "ipc_next_transaction t"
  have sok: "slot_ok rp_active rp_key 0 max_ipc_reply_seals (ipc_replies t) (ipc_reply_seals t)"
    and nz: "?n \<noteq> 0" and ro: "\<forall>s \<in> set (ipc_replies t). rp_ok ?n s"
    using assms(1) by (simp_all add: ipc_ok_def)
  have "slot_view rp_active rp_key 0 (ipc_replies t) ?n = None"
  proof (rule ccontr)
    assume "slot_view rp_active rp_key 0 (ipc_replies t) ?n \<noteq> None"
    then obtain s where "slot_view rp_active rp_key 0 (ipc_replies t) ?n = Some s" by blast
    with rpt.view_SomeD [OF this] ro show False by (auto simp: rp_ok_def)
  qed
  with rpt.insert_ok(1) [OF sok assms(2), of "\<lparr>rp_seal = seal, rp_active = True\<rparr>"] assms(4) nz
  have "slot_ok rp_active rp_key 0 max_ipc_reply_seals
      ((ipc_replies t)[f := \<lparr>rp_seal = seal, rp_active = True\<rparr>]) (ipc_reply_seals t + 1)" by simp
  moreover have "\<forall>s \<in> set ((ipc_replies t)[f := \<lparr>rp_seal = seal, rp_active = True\<rparr>]). rp_ok (?n + 1) s"
  proof (rule ball_set_update)
    show "\<forall>s \<in> set (ipc_replies t). rp_ok (?n + 1) s"
      using ro word_less_plus_one [OF assms(3)] by (auto simp: rp_ok_def less_imp_le)
    show "rp_ok (?n + 1) \<lparr>rp_seal = seal, rp_active = True\<rparr>"
      using assms(4,5) word_less_plus_one [OF assms(3), of ?n] by (simp add: rp_ok_def)
  qed
  moreover have "?n + 1 \<noteq> 0" using assms(3) by (metis eq_neg_iff_add_eq_0)
  ultimately show ?thesis using assms(1) by (simp add: ipc_ok_def)
qed

text \<open>What \<open>receive\<close> does: refuse (perhaps after the rendezvous moved), start waiting, or hand over
  the pending call it found together with a fresh seal.\<close>

lemma ipc_receive_cases:
  obtains (refused) err r' where "ipc_receive_from_endpoint t b sp e r = (Inl err, t, r')"
    | (waits) i r' where "ipc_slot_for t e = Some i"
      "ipc_receive_from_endpoint t b sp e r = (Inr no_received,
         t\<lparr>ipc_endpoints := (ipc_endpoints t)[i := (ipc_endpoints t ! i)\<lparr>en_receive_waiting := True\<rparr>]\<rparr>, r')"
    | (received) i p f r' seal where "ipc_slot_for t e = Some i" "en_server (ipc_endpoints t ! i) = b"
      "p < length (ipc_pending t)" "pn_active (ipc_pending t ! p)" "pn_endpoint (ipc_pending t ! p) = e"
      "first_index (\<lambda>s. \<not> rp_active s) (ipc_replies t) = Some f" "ipc_next_transaction t \<noteq> - 1"
      "seal = \<lparr>seal_endpoint = e, seal_transaction = ipc_next_transaction t,
         seal_caller = pn_caller (ipc_pending t ! p), seal_server = b,
         seal_caller_space = pn_caller_space (ipc_pending t ! p), seal_server_space = sp\<rparr>"
      "pn_caller (ipc_pending t ! p) \<noteq> invalid_thread"
      "ipc_receive_from_endpoint t b sp e r =
         (Inr \<lparr>rcv_caller = pn_caller (ipc_pending t ! p), rcv_reply = seal,
               rcv_request = pn_request (ipc_pending t ! p)\<rparr>,
          t\<lparr>ipc_next_transaction := ipc_next_transaction t + 1,
            ipc_replies := (ipc_replies t)[f := \<lparr>rp_seal = seal, rp_active = True\<rparr>],
            ipc_reply_seals := ipc_reply_seals t + 1\<rparr>, r')"
proof (cases "ipc_slot_for t e")
  case None
  with refused show ?thesis by (simp add: ipc_receive_from_endpoint_def)
next
  case i: (Some i)
  define owner where "owner = ipc_endpoints t ! i"
  show ?thesis
  proof (cases "en_server owner \<noteq> b \<or> en_receive_waiting owner \<or> \<not> is_ok (rz_partner_of r b)")
    case True
    then have "\<exists>err. ipc_receive_from_endpoint t b sp e r = (Inl err, t, r)"
      using i by (cases "rz_partner_of r b") (auto simp: ipc_receive_from_endpoint_def Let_def owner_def)
    with refused show ?thesis by blast
  next
    case False
    then obtain del where del: "rz_partner_of r b = Inr del" by (cases "rz_partner_of r b") auto
    define look where "look = (if del \<noteq> 0 then ipc_pending_slot t del e else ipc_pending_slot_endpoint t e)"
    note base = ipc_receive_from_endpoint_def [of t b sp e r] i del False owner_def
    show ?thesis
    proof (cases look)
      case None
      show ?thesis
      proof (cases "del \<noteq> 0")
        case True
        with base None refused show ?thesis by (simp add: Let_def look_def split: if_splits)
      next
        case d0: False
        obtain c r' where c: "rz_wait_receive r b = (c, r')" by fastforce
        show ?thesis
          using base None d0 c refused waits [OF i, of r']
          by (cases c) (simp_all add: Let_def look_def split: if_splits)
      qed
    next
      case (Some p)
      have p: "p < length (ipc_pending t)" "pn_active (ipc_pending t ! p)"
        "pn_endpoint (ipc_pending t ! p) = e" "del \<noteq> 0 \<Longrightarrow> pn_caller (ipc_pending t ! p) = del"
        using Some by (auto simp: look_def ipc_pending_slot_def ipc_pending_slot_endpoint_def
            split: if_splits dest!: first_index_SomeD)
      define take where "take = (if del \<noteq> 0
          then (case rz_receive r b of (Inl _, r1) \<Rightarrow> (Inl ipc_pending_call_missing, r1)
              | (Inr consumed, r1) \<Rightarrow> (if consumed \<noteq> del then Inl ipc_pending_call_missing else Inr (), r1))
          else rz_accept_sender r b (pn_caller (ipc_pending t ! p)))"
      have eq: "ipc_receive_from_endpoint t b sp e r =
        (if ipc_next_transaction t = 0 \<or> ipc_next_transaction t = - 1
         then (Inl ipc_transaction_exhausted, t, r)
         else case first_index (\<lambda>s. \<not> rp_active s) (ipc_replies t) of
             None \<Rightarrow> (Inl ipc_reply_seal_limit, t, r)
           | Some f \<Rightarrow> (case take of (Inl err, r1) \<Rightarrow> (Inl err, t, r1)
               | (Inr _, r1) \<Rightarrow>
                  (Inr \<lparr>rcv_caller = pn_caller (ipc_pending t ! p),
                    rcv_reply = \<lparr>seal_endpoint = e, seal_transaction = ipc_next_transaction t,
                      seal_caller = pn_caller (ipc_pending t ! p), seal_server = b,
                      seal_caller_space = pn_caller_space (ipc_pending t ! p), seal_server_space = sp\<rparr>,
                    rcv_request = pn_request (ipc_pending t ! p)\<rparr>,
                   t\<lparr>ipc_next_transaction := ipc_next_transaction t + 1,
                     ipc_replies := (ipc_replies t)[f := \<lparr>rp_seal =
                       \<lparr>seal_endpoint = e, seal_transaction = ipc_next_transaction t,
                        seal_caller = pn_caller (ipc_pending t ! p), seal_server = b,
                        seal_caller_space = pn_caller_space (ipc_pending t ! p), seal_server_space = sp\<rparr>,
                       rp_active = True\<rparr>],
                     ipc_reply_seals := ipc_reply_seals t + 1\<rparr>, r1)))"
        using i del False Some unfolding ipc_receive_from_endpoint_def look_def take_def owner_def
        by (auto simp: Let_def split_beta split: option.split sum.split)
      obtain c r' where c: "take = (c, r')" by fastforce
      show ?thesis
      proof (cases "ipc_next_transaction t = 0 \<or> ipc_next_transaction t = - 1 \<or>
          first_index (\<lambda>s. \<not> rp_active s) (ipc_replies t) = None \<or> (\<exists>err. c = Inl err)")
        case True
        then have "\<exists>err r'. ipc_receive_from_endpoint t b sp e r = (Inl err, t, r')"
          using c by (auto simp: eq split: option.splits)
        with refused show ?thesis by blast
      next
        case go: False
        then obtain f where f: "first_index (\<lambda>s. \<not> rp_active s) (ipc_replies t) = Some f" by auto
        from go obtain u where u: "c = Inr u" by (cases c) auto
        have nz: "pn_caller (ipc_pending t ! p) \<noteq> 0"
        proof (cases "del \<noteq> 0")
          case False
          with c u show ?thesis by (auto simp: take_def rz_accept_sender_def split: if_splits)
        qed (use p in simp)
        show ?thesis
          by (rule received [OF i _ p(1,2,3) f _ refl nz, where r' = r'])
             (use False go f u c in \<open>simp_all add: eq owner_def\<close>)
      qed
    qed
  qed
qed

lemma ipc_ok_receive: "ipc_ok t \<Longrightarrow> ipc_ok (fst (snd (ipc_receive_from_endpoint t b sp e r)))"
proof -
  assume ok: "ipc_ok t"
  show ?thesis
  proof (cases rule: ipc_receive_cases [of t b sp e r])
    case (waits i r')
    with ipc_ok_waiting [OF ok waits(1)] show ?thesis by simp
  next
    case (received i p f r' seal)
    have "en_ok (ipc_endpoints t ! i)" "i < length (ipc_endpoints t)" "en_active (ipc_endpoints t ! i)"
      "endpoint_valid e"
      using received(1) ok by (auto simp: ipc_slot_for_iff ipc_ok_def)
    then have "seal_valid seal"
      using received(2,8,9) ok by (simp add: seal_valid_def en_ok_def ipc_ok_def)
    from ipc_ok_seal [OF ok received(6,7) _ this] received(8,10) show ?thesis by simp
  qed (use ok in simp)
qed

lemma ipc_reply_cases:
  obtains (refused) err r' where "ipc_reply t b seal r resp = (Inl err, t, r')"
    | (undone) err c r' where "ipc_free_completed_slot t = Some c"
      "ipc_reply t b seal r resp =
         (Inl err, t\<lparr>ipc_completed := (ipc_completed t)[c := completed_blank]\<rparr>, r')"
    | (replied) s p c r' where "seal_valid seal" "seal_server seal = b" "env_valid resp"
      "ipc_reply_slot t seal = Some s" "ipc_pending_slot t (seal_caller seal) (seal_endpoint seal) = Some p"
      "ipc_completed_slot t (seal_caller seal) = None" "ipc_free_completed_slot t = Some c"
      "rz_reply r b (seal_caller seal) = (Inr (), r')"
      "ipc_reply t b seal r resp = (Inr (),
         t\<lparr>ipc_completed := (ipc_completed t)[c :=
              \<lparr>cm_caller = seal_caller seal, cm_caller_space = seal_caller_space seal,
               cm_response = resp, cm_active = True\<rparr>],
           ipc_replies := (ipc_replies t)[s := reply_blank], ipc_reply_seals := ipc_reply_seals t - 1,
           ipc_pending := (ipc_pending t)[p := pending_blank],
           ipc_pending_calls := ipc_pending_calls t - 1\<rparr>, r')"
proof (cases "env_valid resp \<and> seal_valid seal \<and> b = seal_server seal \<and>
    (\<exists>i. ipc_slot_for t (seal_endpoint seal) = Some i \<and> en_server (ipc_endpoints t ! i) = b) \<and>
    ipc_reply_slot t seal \<noteq> None \<and> ipc_pending_slot t (seal_caller seal) (seal_endpoint seal) \<noteq> None \<and>
    ipc_completed_slot t (seal_caller seal) = None \<and> ipc_free_completed_slot t \<noteq> None")
  case False
  then have "\<exists>err. ipc_reply t b seal r resp = (Inl err, t, r)"
    by (auto simp: ipc_reply_def split: option.splits)
  with refused show ?thesis by blast
next
  case True
  then obtain i s p c where x: "ipc_slot_for t (seal_endpoint seal) = Some i"
    "en_server (ipc_endpoints t ! i) = b" "ipc_reply_slot t seal = Some s"
    "ipc_pending_slot t (seal_caller seal) (seal_endpoint seal) = Some p"
    "ipc_free_completed_slot t = Some c" by auto
  obtain q r' where q: "rz_reply r b (seal_caller seal) = (q, r')" by fastforce
  show ?thesis
  proof (cases q)
    case (Inl err)
    have "ipc_reply t b seal r resp =
        (Inl err, t\<lparr>ipc_completed := (ipc_completed t)[c := completed_blank]\<rparr>, r')"
      using True x q Inl by (simp add: ipc_reply_def Let_def)
    with undone x(5) show ?thesis by blast
  next
    case (Inr u)
    show ?thesis
      by (rule replied [OF _ _ _ x(3,4) _ x(5), where r' = r'])
         (use True x q Inr in \<open>simp_all add: ipc_reply_def Let_def\<close>)
  qed
qed

lemma ipc_free_completed_less:
  "ipc_ok t \<Longrightarrow> ipc_free_completed_slot t = Some c \<Longrightarrow> c < max_threads"
  by (auto simp: ipc_free_completed_slot_def ipc_ok_def slot_ok_def dest!: first_index_SomeD)

lemma ipc_reply_slot_find:
  assumes "ipc_ok t" "ipc_reply_slot t seal = Some s"
  shows "slot_find rp_active rp_key 0 (ipc_replies t) (seal_transaction seal) = Some s"
    and "s < length (ipc_replies t)" "rp_active (ipc_replies t ! s)" "rp_seal (ipc_replies t ! s) = seal"
proof -
  show x: "s < length (ipc_replies t)" "rp_active (ipc_replies t ! s)" "rp_seal (ipc_replies t ! s) = seal"
    using assms(2) by (auto simp: ipc_reply_slot_def split: if_splits dest!: first_index_SomeD)
  have "slot_wf rp_active rp_key 0 (ipc_replies t)" using assms(1) by (simp add: ipc_ok_def slot_ok_def)
  with x show "slot_find rp_active rp_key 0 (ipc_replies t) (seal_transaction seal) = Some s"
    by (simp add: rpt.find_iff)
qed

lemma ipc_ok_completed_store:
  assumes "ipc_ok t" "ipc_free_completed_slot t = Some c" "cm_active x" "cm_caller x \<noteq> 0"
    and "ipc_completed_slot t (cm_caller x) = None"
  shows "ipc_ok (t\<lparr>ipc_completed := (ipc_completed t)[c := x]\<rparr>)"
proof -
  have sok: "slot_ok cm_active cm_caller 0 max_threads (ipc_completed t)
      (of_nat (length (filter cm_active (ipc_completed t))))" using assms(1) by (simp add: ipc_ok_def)
  have "slot_view cm_active cm_caller 0 (ipc_completed t) (cm_caller x) = None"
    using assms(5) by (simp add: ipc_completed_slot_def slot_view_def slot_find_def)
  from cmt.insert_ok(1) [OF sok assms(2) [unfolded ipc_free_completed_slot_def] this assms(4,3)]
  show ?thesis using assms(1) by (simp add: ipc_ok_def slot_ok_def)
qed

lemma ipc_ok_reply: "ipc_ok t \<Longrightarrow> ipc_ok (fst (snd (ipc_reply t b seal r resp)))"
proof -
  assume ok: "ipc_ok t"
  show ?thesis
  proof (cases rule: ipc_reply_cases [of t b seal r resp])
    case (undone err c r')
    with ipc_ok_completed_clear [OF ok ipc_free_completed_less [OF ok undone(1)]] show ?thesis by simp
  next
    case (replied s p c r')
    let ?x = "\<lparr>cm_caller = seal_caller seal, cm_caller_space = seal_caller_space seal,
      cm_response = resp, cm_active = True\<rparr>"
    let ?t1 = "t\<lparr>ipc_completed := (ipc_completed t)[c := ?x]\<rparr>"
    have ok1: "ipc_ok ?t1"
      by (rule ipc_ok_completed_store [OF ok replied(7)])
         (use replied(1,6) in \<open>simp_all add: seal_valid_def\<close>)
    have sok: "slot_ok rp_active rp_key 0 max_ipc_reply_seals (ipc_replies ?t1) (ipc_reply_seals ?t1)"
      using ok1 by (simp add: ipc_ok_def)
    have nb: "\<not> rp_active reply_blank" "\<not> pn_active pending_blank" "rp_ok n reply_blank" for n
      by (simp_all add: reply_blank_def pending_blank_def rp_ok_def)
    have rp: "slot_ok rp_active rp_key 0 max_ipc_reply_seals ((ipc_replies t)[s := reply_blank])
        (ipc_reply_seals t - 1)"
      using rpt.remove_ok(1) [OF sok _ nb(1), of "seal_transaction seal" s]
        ipc_reply_slot_find(1) [OF ok replied(4)] by simp
    have p: "p < length (ipc_pending t)" "pn_active (ipc_pending t ! p)"
      using replied(5) by (auto simp: ipc_pending_slot_def dest!: first_index_SomeD)
    have cnt: "Suc (length (filter pn_active ((ipc_pending t)[p := pending_blank]))) =
        length (filter pn_active (ipc_pending t))"
      using p nb by (intro length_filter_update_sub) simp_all
    then have "ipc_pending_calls t - 1 = of_nat (length (filter pn_active ((ipc_pending t)[p := pending_blank])))"
      using ok by (simp add: ipc_ok_def flip: cnt)
    moreover have "\<forall>s \<in> set ((ipc_replies t)[s := reply_blank]). rp_ok (ipc_next_transaction t) s"
      using ok nb(3) by (intro ball_set_update) (simp_all add: ipc_ok_def)
    ultimately show ?thesis using ok1 rp by (simp add: replied(9) ipc_ok_def)
  qed (use ok in simp)
qed

lemma ipc_ok_take_reply: "ipc_ok t \<Longrightarrow> ipc_ok (snd (ipc_take_reply t a))"
  using ipc_ok_completed_clear
  by (auto simp: ipc_take_reply_def ipc_completed_slot_def ipc_ok_def slot_ok_def
      dest!: first_index_SomeD split: option.split)

section \<open>Runs of the table\<close>

text \<open>One step is one public method, with any arguments, any capability table and any rendezvous.\<close>

inductive ipc_method :: "IpcEndpointTable \<Rightarrow> IpcEndpointTable \<Rightarrow> bool" where
  create: "ipc_method t (snd (ipc_create t b))"
| retire: "ipc_method t (fst (snd (ipc_retire t b e r)))"
| retire_all: "ipc_method t (fst (snd (ipc_retire_all_owned_by t b r)))"
| release: "ipc_method t (fst (snd (ipc_release_thread t b r)))"
| send: "ipc_method t (fst (snd (ipc_send_to_endpoint t a sp e r req)))"
| receive: "ipc_method t (fst (snd (ipc_receive_from_endpoint t b sp e r)))"
| reply: "ipc_method t (fst (snd (ipc_reply t b seal r resp)))"
| take_reply: "ipc_method t (snd (ipc_take_reply t a))"

text \<open>The entry points that check a capability or a generation first are such steps, or none.\<close>

lemma ipc_entry_points:
  "fst (snd (ipc_send t a c caps r req)) = t \<or> ipc_method t (fst (snd (ipc_send t a c caps r req)))"
  "fst (snd (ipc_send_ctx t x c caps r req)) = t \<or> ipc_method t (fst (snd (ipc_send_ctx t x c caps r req)))"
  "fst (snd (ipc_receive t a c caps r)) = t \<or> ipc_method t (fst (snd (ipc_receive t a c caps r)))"
  "fst (snd (ipc_receive_ctx t x c caps r)) = t \<or> ipc_method t (fst (snd (ipc_receive_ctx t x c caps r)))"
  "fst (snd (ipc_reply_ctx t x seal r resp)) = t \<or> ipc_method t (fst (snd (ipc_reply_ctx t x seal r resp)))"
  "fst (snd (ipc_reply_transaction t a n r resp)) = t \<or>
     ipc_method t (fst (snd (ipc_reply_transaction t a n r resp)))"
  "fst (snd (ipc_reply_transaction_ctx t x n r resp)) = t \<or>
     ipc_method t (fst (snd (ipc_reply_transaction_ctx t x n r resp)))"
  "snd (ipc_take_reply_ctx t x) = t \<or> ipc_method t (snd (ipc_take_reply_ctx t x))"
  by (auto simp: ipc_send_def ipc_send_ctx_def ipc_receive_def ipc_receive_ctx_def ipc_reply_ctx_def
      ipc_reply_transaction_def ipc_reply_transaction_ctx_def ipc_take_reply_ctx_def Let_def
      intro: ipc_method.intros split: sum.split option.split)

lemma ipc_method_ok: "ipc_method t u \<Longrightarrow> ipc_ok t \<Longrightarrow> ipc_ok u"
  by (induction rule: ipc_method.induct)
     (auto intro: ipc_ok_create ipc_ok_retire ipc_ok_retire_owned ipc_ok_release_thread ipc_ok_send
        ipc_ok_receive ipc_ok_reply ipc_ok_take_reply simp: ipc_retire_all_owned_by_def)

lemma ipc_run_ok: "ipc_method\<^sup>*\<^sup>* ipc_empty t \<Longrightarrow> ipc_ok t"
  by (induction rule: rtranclp_induct) (auto intro: ipc_method_ok ipc_ok_empty)

section \<open>Endpoints never come back\<close>

definition ipc_shrinks :: "IpcEndpointTable \<Rightarrow> IpcEndpointTable \<Rightarrow> bool" where
  "ipc_shrinks t u \<longleftrightarrow> length (ipc_endpoints u) = length (ipc_endpoints t) \<and>
     (\<forall>i < length (ipc_endpoints t).
        en_generation (ipc_endpoints u ! i) = en_generation (ipc_endpoints t ! i) \<and>
        (en_active (ipc_endpoints u ! i) \<longrightarrow> en_active (ipc_endpoints t ! i)))"

lemma ipc_shrinks_refl: "ipc_shrinks t t" by (simp add: ipc_shrinks_def)

lemma ipc_shrinks_trans: "ipc_shrinks t u \<Longrightarrow> ipc_shrinks u w \<Longrightarrow> ipc_shrinks t w"
  by (simp add: ipc_shrinks_def)

lemma ipc_shrinks_same: "ipc_endpoints u = ipc_endpoints t \<Longrightarrow> ipc_shrinks t u"
  by (simp add: ipc_shrinks_def)

lemma ipc_shrinks_store:
  "en_generation s = en_generation (ipc_endpoints t ! i) \<Longrightarrow>
   (en_active s \<Longrightarrow> en_active (ipc_endpoints t ! i)) \<Longrightarrow>
   ipc_endpoints u = (ipc_endpoints t)[i := s] \<Longrightarrow> ipc_shrinks t u"
  unfolding ipc_shrinks_def
proof (intro conjI allI impI)
  fix j
  assume a: "en_generation s = en_generation (ipc_endpoints t ! i)"
    "en_active s \<Longrightarrow> en_active (ipc_endpoints t ! i)" "ipc_endpoints u = (ipc_endpoints t)[i := s]"
    "j < length (ipc_endpoints t)"
  then show "en_generation (ipc_endpoints u ! j) = en_generation (ipc_endpoints t ! j)"
    by (cases "i = j") simp_all
  assume "en_active (ipc_endpoints u ! j)"
  with a show "en_active (ipc_endpoints t ! j)" by (cases "i = j") simp_all
qed simp

lemma ipc_cancel_pending_for_endpoints [simp]:
  "ipc_endpoints (fst (ipc_cancel_pending_for t e r)) = ipc_endpoints t"
  by (simp add: ipc_cancel_pending_for_def split_beta)

lemma ipc_drop_replies_endpoints [simp]: "ipc_endpoints (ipc_drop_replies P t) = ipc_endpoints t"
  by (simp add: ipc_drop_replies_def)

lemma ipc_discard_endpoints [simp]: "ipc_endpoints (ipc_discard_completed_for t a) = ipc_endpoints t"
  by (simp add: ipc_discard_completed_for_def split: option.split)

lemma ipc_retire_shrinks: "ipc_shrinks t (fst (snd (ipc_retire t b e r)))"
proof (cases rule: ipc_retire_cases [of t b e r])
  case (retired i r1)
  then show ?thesis
    by (intro ipc_shrinks_store [of "(ipc_endpoints t ! i)\<lparr>en_receive_waiting := False,
          en_server := invalid_thread, en_active := False\<rparr>" _ i])
       (simp_all add: ipc_invalidate_replies_for_def)
qed (simp add: ipc_shrinks_refl)

lemma ipc_retire_owned_shrinks: "ipc_shrinks t (fst (snd (ipc_retire_owned b is t r n)))"
proof (induction "is" arbitrary: t r n)
  case (Cons i "is")
  show ?case
  proof (cases "en_active (ipc_endpoints t ! i) \<and> en_server (ipc_endpoints t ! i) = b")
    case True
    show ?thesis
      using ipc_shrinks_trans [OF ipc_retire_shrinks Cons.IH] True
      by (simp add: Let_def split_beta)
  qed (use Cons.IH in \<open>simp add: Let_def\<close>)
qed (simp add: ipc_shrinks_refl)

lemma ipc_release_pending_endpoints [simp]:
  "ipc_endpoints (ipc_release_pending th is t) = ipc_endpoints t"
  by (induction "is" arbitrary: t) (simp_all add: Let_def)

lemma ipc_retire_all_shrinks: "ipc_shrinks t (fst (snd (ipc_retire_all_owned_by t b r)))"
  by (simp add: ipc_retire_all_owned_by_def ipc_retire_owned_shrinks ipc_shrinks_refl)

lemma ipc_method_endpoints:
  assumes "ipc_method t u" "ipc_ok t"
  shows "ipc_shrinks t u \<or>
    (\<exists>i < max_ipc_endpoints. \<not> en_active (ipc_endpoints t ! i) \<and> en_generation (ipc_endpoints t ! i) \<noteq> - 1 \<and>
       (\<exists>b. ipc_endpoints u = (ipc_endpoints t)[i := \<lparr>en_server = b,
          en_generation = en_generation (ipc_endpoints t ! i) + 1, en_active = True,
          en_receive_waiting = False\<rparr>]))"
  using assms
proof (induction rule: ipc_method.induct)
  case (create t b)
  then show ?case
    by (auto simp: ipc_create_def Let_def ipc_shrinks_refl ipc_ok_def dest!: first_index_SomeD
        split: option.split)
next
  case (release t b r)
  have "ipc_endpoints (fst (snd (ipc_release_thread t b r))) =
      ipc_endpoints (fst (snd (ipc_retire_all_owned_by t b r)))"
    by (simp add: ipc_release_thread_def ipc_retire_all_owned_by_def Let_def split_beta)
  with ipc_retire_all_shrinks [of t b r] show ?case by (simp add: ipc_shrinks_def)
next
  case (send t a sp e r req)
  have "ipc_shrinks t (fst (snd (ipc_send_to_endpoint t a sp e r req)))"
  proof (cases rule: ipc_send_to_endpoint_cases [of t a sp e r req])
    case (sent i p r')
    then show ?thesis
      by (intro ipc_shrinks_store [of "(ipc_endpoints t ! i)\<lparr>en_receive_waiting := False\<rparr>" _ i]) simp_all
  qed (simp add: ipc_shrinks_refl)
  then show ?case by blast
next
  case (receive t b sp e r)
  have "ipc_shrinks t (fst (snd (ipc_receive_from_endpoint t b sp e r)))"
  proof (cases rule: ipc_receive_cases [of t b sp e r])
    case (waits i r')
    then show ?thesis
      by (intro ipc_shrinks_store [of "(ipc_endpoints t ! i)\<lparr>en_receive_waiting := True\<rparr>" _ i]) simp_all
  qed (simp_all add: ipc_shrinks_same)
  then show ?case by blast
next
  case (reply t b seal r resp)
  have "ipc_shrinks t (fst (snd (ipc_reply t b seal r resp)))"
    by (cases rule: ipc_reply_cases [of t b seal r resp]) (simp_all add: ipc_shrinks_same)
  then show ?case by blast
next
  case (take_reply t a)
  have "ipc_shrinks t (snd (ipc_take_reply t a))"
    by (intro ipc_shrinks_same) (simp add: ipc_take_reply_def split: option.split)
  then show ?case by blast
qed (use ipc_retire_shrinks ipc_retire_all_shrinks in blast)+

definition ipc_spent :: "IpcEndpointTable \<Rightarrow> IpcEndpoint \<Rightarrow> bool" where
  "ipc_spent t e \<longleftrightarrow> endpoint_valid e \<and> unat (ie_slot e) < max_ipc_endpoints \<and>
     (let s = ipc_endpoints t ! unat (ie_slot e) in
      ie_generation e < en_generation s \<or> ie_generation e = en_generation s \<and> \<not> en_active s)"

lemma ipc_active_iff:
  "ipc_ok t \<Longrightarrow> ipc_active t e \<longleftrightarrow> endpoint_valid e \<and> unat (ie_slot e) < max_ipc_endpoints \<and>
     en_active (ipc_endpoints t ! unat (ie_slot e)) \<and>
     en_generation (ipc_endpoints t ! unat (ie_slot e)) = ie_generation e"
  using ipc_slot_for_iff [of t e "unat (ie_slot e)"]
  by (auto simp: ipc_active_def ipc_ok_def ipc_slot_for_def Let_def)

interpretation ipcid: identity_authority ipc_ok ipc_active ipc_spent ipc_method
proof
  fix t u e
  show "ipc_ok t \<Longrightarrow> ipc_method t u \<Longrightarrow> ipc_ok u" by (rule ipc_method_ok)
  show "ipc_ok t \<Longrightarrow> ipc_spent t e \<Longrightarrow> \<not> ipc_active t e"
    by (auto simp: ipc_active_iff ipc_spent_def Let_def)
  assume ok: "ipc_ok t" and m: "ipc_method t u"
  let ?i = "unat (ie_slot e)"
  have ok': "ipc_ok u" using m ok by (rule ipc_method_ok)
  have len: "length (ipc_endpoints t) = max_ipc_endpoints" using ok by (simp add: ipc_ok_def)
  have step: "en_generation (ipc_endpoints u ! ?i) = en_generation (ipc_endpoints t ! ?i) \<and>
        (en_active (ipc_endpoints u ! ?i) \<longrightarrow> en_active (ipc_endpoints t ! ?i)) \<or>
      \<not> en_active (ipc_endpoints t ! ?i) \<and> en_generation (ipc_endpoints t ! ?i) \<noteq> - 1 \<and>
        en_generation (ipc_endpoints u ! ?i) = en_generation (ipc_endpoints t ! ?i) + 1"
    if i: "?i < max_ipc_endpoints"
    using ipc_method_endpoints [OF m ok]
  proof (elim disjE exE conjE)
    fix j b
    assume "\<not> en_active (ipc_endpoints t ! j)" "en_generation (ipc_endpoints t ! j) \<noteq> - 1"
      "ipc_endpoints u = (ipc_endpoints t)[j := \<lparr>en_server = b,
          en_generation = en_generation (ipc_endpoints t ! j) + 1, en_active = True,
          en_receive_waiting = False\<rparr>]"
    then show ?thesis using i len by (cases "j = ?i") simp_all
  qed (use i len in \<open>simp add: ipc_shrinks_def\<close>)
  then show "ipc_spent t e \<Longrightarrow> ipc_spent u e" "ipc_active t e \<Longrightarrow> ipc_active u e \<or> ipc_spent u e"
    by (auto simp: ipc_active_iff ok ok' ipc_spent_def Let_def word_less_plus_one less_imp_le)
qed

text \<open>A retired endpoint stays retired.  Once an endpoint that was active stops being active, no
  sequence of operations, whatever slots it reuses, makes the same slot and generation active
  again; so a capability naming it keeps failing as stale.\<close>

theorem ipc_endpoint_no_resurrection:
  assumes "ipc_method\<^sup>*\<^sup>* ipc_empty t" "ipc_active t e" "ipc_method\<^sup>*\<^sup>* t u" "\<not> ipc_active u e"
    "ipc_method\<^sup>*\<^sup>* u w"
  shows "\<not> ipc_active w e"
  using ipcid.no_resurrection [OF ipc_run_ok [OF assms(1)] assms(2-5)] .

section \<open>Replies\<close>

lemma ipc_reply_slot_None:
  assumes "ipc_ok t" "ipc_reply_slot t seal = Some s"
    and "ipc_replies u = (ipc_replies t)[s := reply_blank]"
  shows "ipc_reply_slot u seal = None"
proof -
  note f = ipc_reply_slot_find [OF assms(1,2)]
  have sok: "slot_ok rp_active rp_key 0 max_ipc_reply_seals (ipc_replies t) (ipc_reply_seals t)"
    using assms(1) by (simp add: ipc_ok_def)
  have "slot_view rp_active rp_key 0 (ipc_replies u) (seal_transaction seal) = None"
    using rpt.remove_ok(2) [OF sok f(1), of reply_blank] assms(3) by (simp add: reply_blank_def)
  then have "slot_find rp_active rp_key 0 (ipc_replies u) (seal_transaction seal) = None"
    by (simp add: rpt.find_view_None)
  then show ?thesis
    by (auto simp: ipc_reply_slot_def rpt.find_None_iff first_index_None seal_valid_def)
qed

text \<open>C39: A reply seal answers once.  After a successful reply in a reachable state, the same seal, or
  the same transaction number from the same server, is refused as stale, and the seal, the pending
  call and their counts are gone while the response waits for the caller.\<close>

theorem ipc_reply_one_shot:
  assumes "ipc_method\<^sup>*\<^sup>* ipc_empty t" "ipc_reply t b seal r resp = (Inr (), u, r')"
    and "env_valid resp'"
  shows "ipc_reply u b seal r'' resp' = (Inl ipc_stale_reply_seal, u, r'') \<and>
    ipc_reply_transaction u b (seal_transaction seal) r'' resp' = (Inl ipc_stale_reply_seal, u, r'') \<and>
    fst (ipc_take_reply u (seal_caller seal)) = Inr resp \<and>
    ipc_active_reply_seal_count u = ipc_active_reply_seal_count t - 1 \<and>
    ipc_pending_call_count u = ipc_pending_call_count t - 1"
proof -
  note ok = ipc_run_ok [OF assms(1)]
  show ?thesis
  proof (cases rule: ipc_reply_cases [of t b seal r resp])
    case (replied s p c r1)
    let ?x = "\<lparr>cm_caller = seal_caller seal, cm_caller_space = seal_caller_space seal,
      cm_response = resp, cm_active = True\<rparr>"
    have u: "u = t\<lparr>ipc_completed := (ipc_completed t)[c := ?x],
       ipc_replies := (ipc_replies t)[s := reply_blank], ipc_reply_seals := ipc_reply_seals t - 1,
       ipc_pending := (ipc_pending t)[p := pending_blank], ipc_pending_calls := ipc_pending_calls t - 1\<rparr>"
      using replied(9) assms(2) by simp
    note f = ipc_reply_slot_find [OF ok replied(4)]
    have none: "ipc_reply_slot u seal = None" by (rule ipc_reply_slot_None [OF ok replied(4)]) (simp add: u)
    have sok: "slot_ok rp_active rp_key 0 max_ipc_reply_seals (ipc_replies t) (ipc_reply_seals t)"
      using ok by (simp add: ipc_ok_def)
    have "slot_find rp_active rp_key 0 (ipc_replies u) (seal_transaction seal) = None"
      using rpt.remove_ok(2) [OF sok f(1), of reply_blank] u
      by (simp add: reply_blank_def rpt.find_view_None)
    then have none': "ipc_reply_slot_transaction u b (seal_transaction seal) = None"
      by (auto simp: ipc_reply_slot_transaction_def rpt.find_None_iff first_index_None)
    have c: "c < length (ipc_completed t)"
      using replied(7) by (auto simp: ipc_free_completed_slot_def dest!: first_index_SomeD)
    have cn: "\<And>j. j < length (ipc_completed t) \<Longrightarrow>
        \<not> (cm_active (ipc_completed t ! j) \<and> cm_caller (ipc_completed t ! j) = seal_caller seal)"
      using replied(6) nth_mem by (auto simp: ipc_completed_slot_def first_index_None)
    have "ipc_completed_slot u (seal_caller seal) = Some c"
      unfolding ipc_completed_slot_def
      by (rule first_index_unique) (use c cn in \<open>auto simp: u nth_list_update split: if_splits\<close>)
    then have "fst (ipc_take_reply u (seal_caller seal)) = Inr resp"
      using c by (simp add: ipc_take_reply_def u)
    with none none' replied(1,2) assms(3) show ?thesis
      by (auto simp: ipc_reply_def ipc_reply_transaction_def u ipc_active_reply_seal_count_def
          ipc_pending_call_count_def split: option.split)
  qed (use assms(2) in auto)
qed

text \<open>A stale incarnation learns nothing and changes nothing.  A reply under an execution authority
  that is not the one recorded in the seal is refused exactly as a wrong server is; collecting a
  reply under an authority that is not the caller's recorded one gives exactly the answer
  of there being no reply.\<close>

theorem ipc_stale_incarnation_refused:
  assumes "authority_valid x"
  shows "(identity_valid (seal_server_space seal) \<and> ea_space x \<noteq> seal_server_space seal \<longrightarrow>
      ipc_reply_ctx t x seal r resp = (Inl ipc_wrong_reply_server, t, r)) \<and>
    (\<forall>i. ipc_completed_slot t (ea_thread x) = Some i \<longrightarrow>
      identity_valid (cm_caller_space (ipc_completed t ! i)) \<longrightarrow>
      ea_space x \<noteq> cm_caller_space (ipc_completed t ! i) \<longrightarrow>
      ipc_take_reply_ctx t x = (Inl ipc_reply_unavailable, t)) \<and>
    (ipc_completed_slot t (ea_thread x) = None \<longrightarrow>
      ipc_take_reply_ctx t x = (Inl ipc_reply_unavailable, t))"
  using assms by (simp add: ipc_reply_ctx_def ipc_take_reply_ctx_def Let_def)

section \<open>The whole call\<close>

lemma ipc_send_ok:
  assumes "ipc_slot_for t e = Some i" "ipc_free_pending_slot t = Some p" "ipc_completed_slot t a = None"
    and "env_valid req"
    and "(if en_receive_waiting (ipc_endpoints t ! i)
       then rz_deliver_waiting_receiver r a (en_server (ipc_endpoints t ! i))
       else rz_block_send r a (en_server (ipc_endpoints t ! i))) = (Inr (), r1)"
  shows "ipc_send_to_endpoint t a sp e r req = (Inr (),
     t\<lparr>ipc_endpoints := (ipc_endpoints t)[i := (ipc_endpoints t ! i)\<lparr>en_receive_waiting := False\<rparr>],
       ipc_pending := (ipc_pending t)[p :=
         \<lparr>pn_endpoint = e, pn_caller = a, pn_server = en_server (ipc_endpoints t ! i),
          pn_caller_space = sp, pn_request = req, pn_active = True\<rparr>],
       ipc_pending_calls := ipc_pending_calls t + 1\<rparr>, r1)"
  unfolding ipc_send_to_endpoint_def using assms by (simp add: Let_def)

lemma ipc_receive_ok:
  assumes "ipc_slot_for t e = Some i" "en_server (ipc_endpoints t ! i) = b"
    and "\<not> en_receive_waiting (ipc_endpoints t ! i)" "rz_partner_of r b = Inr q"
    and "(if q \<noteq> 0 then ipc_pending_slot t q e else ipc_pending_slot_endpoint t e) = Some p"
    and "ipc_next_transaction t \<noteq> 0" "ipc_next_transaction t \<noteq> - 1"
    and "first_index (\<lambda>s. \<not> rp_active s) (ipc_replies t) = Some f"
    and "if q \<noteq> 0 then rz_receive r b = (Inr q, r1)
         else rz_accept_sender r b (pn_caller (ipc_pending t ! p)) = (Inr (), r1)"
    and "seal = \<lparr>seal_endpoint = e, seal_transaction = ipc_next_transaction t,
       seal_caller = pn_caller (ipc_pending t ! p), seal_server = b,
       seal_caller_space = pn_caller_space (ipc_pending t ! p), seal_server_space = sp\<rparr>"
  shows "ipc_receive_from_endpoint t b sp e r =
    (Inr \<lparr>rcv_caller = pn_caller (ipc_pending t ! p), rcv_reply = seal,
          rcv_request = pn_request (ipc_pending t ! p)\<rparr>,
     t\<lparr>ipc_next_transaction := ipc_next_transaction t + 1,
       ipc_replies := (ipc_replies t)[f := \<lparr>rp_seal = seal, rp_active = True\<rparr>],
       ipc_reply_seals := ipc_reply_seals t + 1\<rparr>, r1)"
  unfolding ipc_receive_from_endpoint_def using assms by (cases "q = 0") (simp_all add: Let_def)

lemma ipc_reply_ok:
  assumes "env_valid resp" "seal_valid seal" "seal_server seal = b"
    and "ipc_slot_for t (seal_endpoint seal) = Some i" "en_server (ipc_endpoints t ! i) = b"
    and "ipc_reply_slot t seal = Some s" "ipc_pending_slot t (seal_caller seal) (seal_endpoint seal) = Some p"
    and "ipc_completed_slot t (seal_caller seal) = None" "ipc_free_completed_slot t = Some c"
    and "rz_reply r b (seal_caller seal) = (Inr (), r1)"
  shows "ipc_reply t b seal r resp = (Inr (),
     t\<lparr>ipc_completed := (ipc_completed t)[c :=
          \<lparr>cm_caller = seal_caller seal, cm_caller_space = seal_caller_space seal,
           cm_response = resp, cm_active = True\<rparr>],
       ipc_replies := (ipc_replies t)[s := reply_blank], ipc_reply_seals := ipc_reply_seals t - 1,
       ipc_pending := (ipc_pending t)[p := pending_blank],
       ipc_pending_calls := ipc_pending_calls t - 1\<rparr>, r1)"
  unfolding ipc_reply_def using assms by (simp add: Let_def)

text \<open>What a call needs of the state: both threads exist, the caller is ready, the table has room,
  and the server either waits on the endpoint or is ready with no earlier call to take.\<close>

definition ipc_call_ready ::
  "IpcEndpointTable \<Rightarrow> Rendezvous \<Rightarrow> IpcEndpoint \<Rightarrow> ThreadId \<Rightarrow> ThreadId \<Rightarrow> bool" where
  "ipc_call_ready t r e a b \<longleftrightarrow> a \<noteq> b \<and>
     rz_state_of r a = Inr ts_ready \<and> rz_partner_of r b = Inr invalid_thread \<and>
     ipc_active t e \<and> en_server (ipc_endpoints t ! unat (ie_slot e)) = b \<and>
     (if ipc_receive_waiting t e
      then rz_state_of r b = Inr ts_receive_blocked \<and> ipc_pending_slot t a e = None
      else rz_state_of r b = Inr ts_ready \<and> ipc_pending_slot_endpoint t e = None) \<and>
     ipc_completed_slot t a = None \<and> ipc_free_completed_slot t \<noteq> None \<and>
     ipc_free_pending_slot t \<noteq> None \<and> first_index (\<lambda>s. \<not> rp_active s) (ipc_replies t) \<noteq> None \<and>
     ipc_next_transaction t \<noteq> - 1"

lemma ipc_call_taken:
  assumes rok: "rz_ok r" and ready: "ipc_call_ready t r e a b" and req: "env_valid req"
    and nt: "ipc_next_transaction t \<noteq> 0"
    and v: "rz_view r a = Some s" "rz_view r b = Some d"
    and slots: "ipc_free_pending_slot t = Some p" "first_index (\<lambda>s. \<not> rp_active s) (ipc_replies t) = Some f"
    and t1: "t1 = t\<lparr>ipc_endpoints := (ipc_endpoints t)[unat (ie_slot e) :=
         (ipc_endpoints t ! unat (ie_slot e))\<lparr>en_receive_waiting := False\<rparr>],
       ipc_pending := (ipc_pending t)[p := \<lparr>pn_endpoint = e, pn_caller = a, pn_server = b,
          pn_caller_space = sa, pn_request = req, pn_active = True\<rparr>],
       ipc_pending_calls := ipc_pending_calls t + 1\<rparr>"
    and seal: "seal = \<lparr>seal_endpoint = e, seal_transaction = ipc_next_transaction t,
       seal_caller = a, seal_server = b, seal_caller_space = sa, seal_server_space = sb\<rparr>"
    and t2: "t2 = t1\<lparr>ipc_next_transaction := ipc_next_transaction t + 1,
       ipc_replies := (ipc_replies t)[f := \<lparr>rp_seal = seal, rp_active = True\<rparr>],
       ipc_reply_seals := ipc_reply_seals t + 1\<rparr>"
  shows "\<exists>r1 r2. ipc_send_to_endpoint t a sa e r req = (Inr (), t1, r1) \<and>
    ipc_receive_from_endpoint t1 b sb e r1 =
      (Inr \<lparr>rcv_caller = a, rcv_reply = seal, rcv_request = req\<rparr>, t2, r2) \<and> rz_ok r2 \<and>
    rz_view r2 = (rz_view r)(b \<mapsto> d\<lparr>rs_state := ts_ready, rs_wake := wake_none\<rparr>,
       a \<mapsto> s\<lparr>rs_wake := wake_none, rs_state := ts_reply_blocked, rs_partner := b\<rparr>)"
proof -
  let ?i = "unat (ie_slot e)"
  have i: "ipc_slot_for t e = Some ?i" and ne: "a \<noteq> b" and srv: "en_server (ipc_endpoints t ! ?i) = b"
    and sst: "rs_state s = ts_ready" and dp: "rs_partner d = 0" and cm: "ipc_completed_slot t a = None"
    and nt': "ipc_next_transaction t \<noteq> - 1"
    using ready v by (auto simp: ipc_call_ready_def ipc_active_def ipc_slot_for_def Let_def
        rz_state_of_iff rz_partner_of_iff split: if_splits)
  have il: "?i < length (ipc_endpoints t)" using i by (simp add: ipc_slot_for_def Let_def split: if_splits)
  have i1: "ipc_slot_for t1 e = Some ?i" using i il by (simp add: t1 ipc_slot_for_def Let_def split: if_splits)
  have o1: "en_server (ipc_endpoints t1 ! ?i) = b" "\<not> en_receive_waiting (ipc_endpoints t1 ! ?i)"
    using il srv by (simp_all add: t1)
  have p: "p < length (ipc_pending t)" using slots(1) by (auto simp: ipc_free_pending_slot_def first_index_less)
  have pp: "ipc_pending t1 ! p = \<lparr>pn_endpoint = e, pn_caller = a, pn_server = b,
      pn_caller_space = sa, pn_request = req, pn_active = True\<rparr>" using p by (simp add: t1)
  have nz: "a \<noteq> 0" using v rz_view_SomeD by blast
  have t1': "ipc_next_transaction t1 = ipc_next_transaction t" "ipc_replies t1 = ipc_replies t"
    "ipc_reply_seals t1 = ipc_reply_seals t" by (simp_all add: t1)
  have dd: "d\<lparr>rs_state := ts_ready, rs_wake := wake_none, rs_partner := 0\<rparr> =
      d\<lparr>rs_state := ts_ready, rs_wake := wake_none\<rparr>" using dp by (cases d) simp
  note snd_ok = ipc_send_ok [OF i slots(1) cm req, unfolded srv, of _ _ sa, folded t1]
  show ?thesis
  proof (cases "en_receive_waiting (ipc_endpoints t ! ?i)")
    case True
    with ready i v have dst: "rs_state d = ts_receive_blocked" and pn: "ipc_pending_slot t a e = None"
      by (auto simp: ipc_call_ready_def ipc_receive_waiting_def rz_state_of_iff)
    note del = rz_deliver_ok [OF rok v(1,2) ne sst dst dp]
    define r1 where "r1 = snd (rz_deliver_waiting_receiver r a b)"
    note col = rz_receive_collect_ok [OF del(2), of b "d\<lparr>rs_state := ts_ready, rs_partner := a\<rparr>" a,
        folded r1_def]
    have "ipc_pending_slot t1 a e = Some p"
      using pn p by (simp add: ipc_pending_slot_def t1 first_index_store_new)
    then have rcv: "ipc_receive_from_endpoint t1 b sb e r1 =
        (Inr \<lparr>rcv_caller = a, rcv_reply = seal, rcv_request = req\<rparr>, t2, snd (rz_receive r1 b))"
      using ipc_receive_ok [OF i1 o1, of r1 a p f "snd (rz_receive r1 b)" seal sb] col(1) nz nt nt' slots(2)
        del(3) by (simp add: pp seal t1' t2 rz_partner_of_iff r1_def prod_eq_iff)
    have "rz_deliver_waiting_receiver r a b = (Inr (), r1)" using del(1) by (simp add: r1_def prod_eq_iff)
    then have sent: "ipc_send_to_endpoint t a sa e r req = (Inr (), t1, r1)"
      using snd_ok [of r r1] True by simp
    have v1: "rz_view r1 b = Some (d\<lparr>rs_state := ts_ready, rs_partner := a\<rparr>)"
      using del(3) by (simp add: r1_def)
    have "rz_view (snd (rz_receive r1 b)) =
        (rz_view r)(b \<mapsto> d\<lparr>rs_state := ts_ready, rs_wake := wake_none\<rparr>,
           a \<mapsto> s\<lparr>rs_wake := wake_none, rs_state := ts_reply_blocked, rs_partner := b\<rparr>)"
      using col(3) [OF v1] del(3) nz dd by (simp add: r1_def fun_upd_twist [OF ne])
    moreover have "rz_ok (snd (rz_receive r1 b))" using col(2) [OF v1] nz by simp
    ultimately show ?thesis using sent rcv by blast
  next
    case False
    with ready i v have dst: "rs_state d = ts_ready" and pn: "ipc_pending_slot_endpoint t e = None"
      by (auto simp: ipc_call_ready_def ipc_receive_waiting_def rz_state_of_iff)
    note blk = rz_block_send_ok [OF rok v(1,2) ne sst]
    define r1 where "r1 = snd (rz_block_send r a b)"
    note acc = rz_accept_ok [OF blk(2), of b d a
        "s\<lparr>rs_wake := wake_none, rs_state := ts_send_blocked, rs_partner := b\<rparr>", folded r1_def]
    have "ipc_pending_slot_endpoint t1 e = Some p"
      using pn p by (simp add: ipc_pending_slot_endpoint_def t1 first_index_store_new)
    moreover have "rz_partner_of r1 b = Inr 0" using blk(3) v(2) ne dp by (simp add: rz_partner_of_iff r1_def)
    ultimately have rcv: "ipc_receive_from_endpoint t1 b sb e r1 =
        (Inr \<lparr>rcv_caller = a, rcv_reply = seal, rcv_request = req\<rparr>, t2, snd (rz_accept_sender r1 b a))"
      using ipc_receive_ok [OF i1 o1, of r1 0 p f "snd (rz_accept_sender r1 b a)" seal sb] acc(1) nt nt'
        slots(2) blk(3) v ne dst by (simp add: pp seal t1' t2 r1_def prod_eq_iff)
    have "rz_block_send r a b = (Inr (), r1)" using blk(1) by (simp add: r1_def prod_eq_iff)
    then have sent: "ipc_send_to_endpoint t a sa e r req = (Inr (), t1, r1)"
      using snd_ok [of r r1] False by simp
    have v1: "rz_view r1 b = Some d"
      "rz_view r1 a = Some (s\<lparr>rs_wake := wake_none, rs_state := ts_send_blocked, rs_partner := b\<rparr>)"
      using blk(3) v ne by (simp_all add: r1_def)
    have "rz_view (snd (rz_accept_sender r1 b a)) =
        (rz_view r)(b \<mapsto> d\<lparr>rs_state := ts_ready, rs_wake := wake_none\<rparr>,
           a \<mapsto> s\<lparr>rs_wake := wake_none, rs_state := ts_reply_blocked, rs_partner := b\<rparr>)"
      using acc(3) [OF v1 ne dst] blk(3) dst
      by (cases d; cases s) (simp add: r1_def fun_upd_twist [OF ne])
    moreover have "rz_ok (snd (rz_accept_sender r1 b a))" using acc(2) [OF v1 ne dst] by simp
    ultimately show ?thesis using sent rcv by blast
  qed
qed

lemma ipc_call_steps:
  assumes ok: "ipc_ok t" and rok: "rz_ok r" and ready: "ipc_call_ready t r e a b"
    and env: "env_valid req" "env_valid resp"
    and v: "rz_view r a = Some s" "rz_view r b = Some d"
  and seal: "seal = \<lparr>seal_endpoint = e, seal_transaction = ipc_next_transaction t,
       seal_caller = a, seal_server = b, seal_caller_space = sa, seal_server_space = sb\<rparr>"
  shows "\<exists>t1 r1 t2 r2 t3 r3 t4 f. ipc_send_to_endpoint t a sa e r req = (Inr (), t1, r1) \<and> ipc_active t1 e \<and>
    ipc_receive_from_endpoint t1 b sb e r1 = (Inr \<lparr>rcv_caller = a, rcv_reply = seal, rcv_request = req\<rparr>, t2, r2) \<and>
    ipc_reply_slot_transaction t2 b (ipc_next_transaction t) = Some f \<and> rp_seal (ipc_replies t2 ! f) = seal \<and>
    ipc_reply t2 b seal r2 resp = (Inr (), t3, r3) \<and> ipc_take_reply t3 a = (Inr resp, t4) \<and>
    ipc_pending_call_count t4 = ipc_pending_call_count t \<and>
    ipc_active_reply_seal_count t4 = ipc_active_reply_seal_count t \<and> seal_valid seal \<and> rz_ok r3 \<and>
    rz_view r3 = (rz_view r)(b \<mapsto> d\<lparr>rs_state := ts_ready, rs_wake := wake_none\<rparr>,
      a \<mapsto> s\<lparr>rs_state := ts_ready, rs_partner := 0, rs_wake := wake_replied\<rparr>)"
proof -
  let ?i = "unat (ie_slot e)"
  have i: "ipc_slot_for t e = Some ?i" and ne: "a \<noteq> b" and srv: "en_server (ipc_endpoints t ! ?i) = b"
    and cm: "ipc_completed_slot t a = None" and pn: "ipc_pending_slot t a e = None"
    using ready by (auto simp: ipc_call_ready_def ipc_active_def ipc_slot_for_def Let_def first_index_None
        ipc_pending_slot_def ipc_pending_slot_endpoint_def split: if_splits)
  obtain p f c where slots: "ipc_free_pending_slot t = Some p"
      "first_index (\<lambda>s. \<not> rp_active s) (ipc_replies t) = Some f" "ipc_free_completed_slot t = Some c"
    using ready by (auto simp: ipc_call_ready_def)
  define t1 where t1: "t1 = t\<lparr>ipc_endpoints := (ipc_endpoints t)[?i :=
         (ipc_endpoints t ! ?i)\<lparr>en_receive_waiting := False\<rparr>],
       ipc_pending := (ipc_pending t)[p := \<lparr>pn_endpoint = e, pn_caller = a, pn_server = b,
          pn_caller_space = sa, pn_request = req, pn_active = True\<rparr>],
       ipc_pending_calls := ipc_pending_calls t + 1\<rparr>"
  define t2 where t2: "t2 = t1\<lparr>ipc_next_transaction := ipc_next_transaction t + 1,
       ipc_replies := (ipc_replies t)[f := \<lparr>rp_seal = seal, rp_active = True\<rparr>],
       ipc_reply_seals := ipc_reply_seals t + 1\<rparr>"
  have nt: "ipc_next_transaction t \<noteq> 0" using ok by (simp add: ipc_ok_def)
  obtain r1 r2 where taken: "ipc_send_to_endpoint t a sa e r req = (Inr (), t1, r1)"
      "ipc_receive_from_endpoint t1 b sb e r1 =
         (Inr \<lparr>rcv_caller = a, rcv_reply = seal, rcv_request = req\<rparr>, t2, r2)" "rz_ok r2"
      "rz_view r2 = (rz_view r)(b \<mapsto> d\<lparr>rs_state := ts_ready, rs_wake := wake_none\<rparr>,
         a \<mapsto> s\<lparr>rs_wake := wake_none, rs_state := ts_reply_blocked, rs_partner := b\<rparr>)"
    using ipc_call_taken [OF rok ready env(1) nt v slots(1,2) t1 seal t2] by blast
  have il: "?i < length (ipc_endpoints t)" using i by (simp add: ipc_slot_for_def Let_def split: if_splits)
  have bounds: "p < length (ipc_pending t)" "f < length (ipc_replies t)" "c < length (ipc_completed t)"
    using slots by (auto simp: ipc_free_pending_slot_def ipc_free_completed_slot_def first_index_less)
  have nz: "a \<noteq> 0" "b \<noteq> 0" using v rz_view_SomeD by blast+
  have sv: "seal_valid seal"
    using i nz nt by (simp add: seal seal_valid_def ipc_slot_for_def split: if_splits)
  have fresh: "\<not> (rp_active x \<and> rp_seal x = seal)" if "x \<in> set (ipc_replies t)" for x
    using ok that by (auto simp: ipc_ok_def rp_ok_def seal)
  have s2: "ipc_slot_for t2 e = Some ?i" "en_server (ipc_endpoints t2 ! ?i) = b"
    "ipc_reply_slot t2 seal = Some f" "ipc_pending_slot t2 a e = Some p" "ipc_completed_slot t2 a = None"
    "ipc_free_completed_slot t2 = Some c"
    using i il srv sv cm slots(3) bounds pn fresh
    by (auto simp: t1 t2 ipc_slot_for_def Let_def ipc_reply_slot_def ipc_pending_slot_def
        ipc_completed_slot_def ipc_free_completed_slot_def first_index_None
        intro!: first_index_store_new split: if_splits)
  have b2: "rz_view r2 b = Some (d\<lparr>rs_state := ts_ready, rs_wake := wake_none\<rparr>)"
    "rz_view r2 a = Some (s\<lparr>rs_wake := wake_none, rs_state := ts_reply_blocked, rs_partner := b\<rparr>)"
    using taken(4) ne by simp_all
  note rep = rz_reply_ok [OF taken(3) b2 ne]
  define r3 where "r3 = snd (rz_reply r2 b a)"
  have rr: "rz_reply r2 b a = (Inr (), r3)" using rep(1) by (simp add: r3_def prod_eq_iff)
  have fin: "rz_view r3 = (rz_view r)(b \<mapsto> d\<lparr>rs_state := ts_ready, rs_wake := wake_none\<rparr>,
       a \<mapsto> s\<lparr>rs_state := ts_ready, rs_partner := 0, rs_wake := wake_replied\<rparr>)"
    using rep(3) taken(4) by (cases s) (simp add: r3_def)
  define t3 where "t3 = t2\<lparr>ipc_completed := (ipc_completed t2)[c :=
          \<lparr>cm_caller = a, cm_caller_space = sa, cm_response = resp, cm_active = True\<rparr>],
       ipc_replies := (ipc_replies t2)[f := reply_blank], ipc_reply_seals := ipc_reply_seals t2 - 1,
       ipc_pending := (ipc_pending t2)[p := pending_blank],
       ipc_pending_calls := ipc_pending_calls t2 - 1\<rparr>"
  have ans: "ipc_reply t2 b seal r2 resp = (Inr (), t3, r3)"
    using ipc_reply_ok [OF env(2) sv, of b t2 ?i f p c r2 r3] s2 rr by (simp add: seal t3_def)
  have "ipc_completed_slot t3 a = Some c"
    using cm bounds by (simp add: ipc_completed_slot_def t3_def t1 t2 first_index_store_new)
  then have out: "ipc_take_reply t3 a = (Inr resp, t3\<lparr>ipc_completed := (ipc_completed t3)[c := completed_blank]\<rparr>)"
    using bounds by (simp add: ipc_take_reply_def t3_def t1 t2)
  have counts: "ipc_pending_calls t3 = ipc_pending_calls t" "ipc_reply_seals t3 = ipc_reply_seals t"
    by (simp_all add: t3_def t1 t2)
  have act: "ipc_active t1 e" using i il by (simp add: t1 ipc_active_def ipc_slot_for_def Let_def split: if_splits)
  have "first_index (\<lambda>s. rp_active s \<and> seal_server (rp_seal s) = b \<and> rp_key s = ipc_next_transaction t)
      (ipc_replies t) = None"
    using ok unfolding first_index_None ipc_ok_def rp_ok_def by fastforce
  then have tr: "ipc_reply_slot_transaction t2 b (ipc_next_transaction t) = Some f" "rp_seal (ipc_replies t2 ! f) = seal"
    using nz nt bounds by (simp_all add: t1 t2 seal ipc_reply_slot_transaction_def first_index_store_new)
  have rok3: "rz_ok r3" using rep(2) by (simp add: r3_def)
  show ?thesis
    by (intro exI conjI) (rule taken act tr ans out sv rok3 fin | simp add: counts ipc_pending_call_count_def
        ipc_active_reply_seal_count_def)+
qed

text \<open>C38: A call through an endpoint carries the request to the server and the response back, whichever
  side arrives first.  From a state that is ready for the call, the caller's send, the server's
  receive, the server's reply and the caller's collection of the reply all succeed; the receive
  returns the caller, the request as sent and a seal recording caller, server and both address
  spaces under a new transaction number; the collection returns the response as replied; afterwards
  the counts of pending calls and reply seals are as before, the caller is ready and was woken by a
  reply, the server is ready, and no other thread changed.\<close>

theorem ipc_call_delivers:
  assumes run: "ipc_method\<^sup>*\<^sup>* ipc_empty t" and rok: "rz_ok r" and ready: "ipc_call_ready t r e a b"
    and env: "env_valid req" "env_valid resp"
    and v: "rz_view r a = Some s" "rz_view r b = Some d"
  shows "let (sent, t1, r1) = ipc_send_to_endpoint t a sa e r req;
             (got, t2, r2) = ipc_receive_from_endpoint t1 b sb e r1;
             seal = \<lparr>seal_endpoint = e, seal_transaction = ipc_next_transaction t,
               seal_caller = a, seal_server = b, seal_caller_space = sa, seal_server_space = sb\<rparr>;
             (ans, t3, r3) = ipc_reply t2 b seal r2 resp;
             (out, t4) = ipc_take_reply t3 a
         in sent = Inr () \<and> got = Inr \<lparr>rcv_caller = a, rcv_reply = seal, rcv_request = req\<rparr> \<and>
            ans = Inr () \<and> out = Inr resp \<and> ipc_pending_call_count t4 = ipc_pending_call_count t \<and>
            ipc_active_reply_seal_count t4 = ipc_active_reply_seal_count t \<and>
            rz_view r3 = (rz_view r)(b \<mapsto> d\<lparr>rs_state := ts_ready, rs_wake := wake_none\<rparr>,
              a \<mapsto> s\<lparr>rs_state := ts_ready, rs_partner := 0, rs_wake := wake_replied\<rparr>)"
  using ipc_call_steps [OF ipc_run_ok [OF run] rok ready env v refl, of sa sb] by (auto simp: Let_def)

section \<open>Concrete runs\<close>

definition ipc_threads :: Rendezvous where
  "ipc_threads = snd (rz_create_thread (snd (rz_create_thread rz_empty 1 7)) 2 3)"

definition ipc_open :: IpcEndpointTable where "ipc_open = snd (ipc_create ipc_empty 2)"

definition ipc_e1 :: IpcEndpoint where "ipc_e1 = \<lparr>ie_slot = 0, ie_generation = 1\<rparr>"

definition ipc_seal1 :: IpcReplySeal where
  "ipc_seal1 = \<lparr>seal_endpoint = ipc_e1, seal_transaction = 1, seal_caller = 1, seal_server = 2,
     seal_caller_space = no_identity, seal_server_space = no_identity\<rparr>"

definition ipc_called :: "IpcEndpointTable \<times> Rendezvous" where
  "ipc_called = (let (_, t1, r1) = ipc_send_to_endpoint ipc_open 1 no_identity ipc_e1 ipc_threads env_empty;
                     (_, t2, r2) = ipc_receive_from_endpoint t1 2 no_identity ipc_e1 r1 in (t2, r2))"

lemma ipc_open_run: "ipc_method\<^sup>*\<^sup>* ipc_empty ipc_open"
  unfolding ipc_open_def by (intro r_into_rtranclp ipc_method.intros)

lemma ipc_called_run: "ipc_method\<^sup>*\<^sup>* ipc_empty (fst ipc_called)"
  unfolding ipc_called_def Let_def split_beta fst_conv
  by (rule rtranclp.rtrancl_into_rtrancl [OF rtranclp.rtrancl_into_rtrancl [OF ipc_open_run]])
     (rule ipc_method.intros)+

lemma ipc_threads_ok: "rz_ok ipc_threads"
  unfolding ipc_threads_def using rz_ok_empty rz_create_thread_sim rz_sim_def by metis

theorem ipc_endpoint_no_resurrection_witness:
  "ipc_active ipc_open ipc_e1 \<and>
   \<not> ipc_active (snd (ipc_create (fst (snd (ipc_retire ipc_open 2 ipc_e1 ipc_threads))) 2)) ipc_e1"
proof -
  let ?u = "fst (snd (ipc_retire ipc_open 2 ipc_e1 ipc_threads))"
  have act: "ipc_active ipc_open ipc_e1" by code_simp
  have gone: "\<not> ipc_active ?u ipc_e1" by code_simp
  have "\<not> ipc_active (snd (ipc_create ?u 2)) ipc_e1"
    by (rule ipc_endpoint_no_resurrection [OF ipc_open_run act _ gone])
       (intro r_into_rtranclp ipc_method.intros)+
  with act show ?thesis by simp
qed

theorem ipc_reply_one_shot_witness:
  "case ipc_reply (fst ipc_called) 2 ipc_seal1 (snd ipc_called) env_empty of (a, u, r') \<Rightarrow>
     a = Inr () \<and> ipc_reply u 2 ipc_seal1 r' env_empty = (Inl ipc_stale_reply_seal, u, r')"
proof -
  have "fst (ipc_reply (fst ipc_called) 2 ipc_seal1 (snd ipc_called) env_empty) = Inr ()" by code_simp
  then obtain u r' where rep: "ipc_reply (fst ipc_called) 2 ipc_seal1 (snd ipc_called) env_empty =
      (Inr (), u, r')" by (metis prod.collapse)
  have "env_valid env_empty" by code_simp
  with ipc_reply_one_shot [OF ipc_called_run rep] rep show ?thesis by simp
qed

theorem ipc_stale_incarnation_refused_witness:
  "ipc_reply_ctx (fst ipc_called) \<lparr>ea_thread = 2, ea_space = \<lparr>asi_slot = 1, asi_generation = 9\<rparr>\<rparr>
     (ipc_seal1\<lparr>seal_server_space := \<lparr>asi_slot = 1, asi_generation = 8\<rparr>\<rparr>) (snd ipc_called) env_empty =
     (Inl ipc_wrong_reply_server, fst ipc_called, snd ipc_called)"
  using ipc_stale_incarnation_refused [of "\<lparr>ea_thread = 2, ea_space = \<lparr>asi_slot = 1, asi_generation = 9\<rparr>\<rparr>"
     "ipc_seal1\<lparr>seal_server_space := \<lparr>asi_slot = 1, asi_generation = 8\<rparr>\<rparr>" "fst ipc_called" "snd ipc_called" env_empty]
  by (simp add: authority_valid_def identity_valid_def)

theorem ipc_call_delivers_witness:
  "case ipc_send_to_endpoint ipc_open 1 no_identity ipc_e1 ipc_threads env_empty of (sent, t1, r1) \<Rightarrow>
     sent = Inr () \<and> fst (ipc_receive_from_endpoint t1 2 no_identity ipc_e1 r1) =
       Inr \<lparr>rcv_caller = 1, rcv_reply = ipc_seal1, rcv_request = env_empty\<rparr>"
proof -
  have ready: "ipc_call_ready ipc_open ipc_threads ipc_e1 1 2" by code_simp
  have env: "env_valid env_empty" by code_simp
  have n: "ipc_next_transaction ipc_open = 1" by code_simp
  have "rz_state_of ipc_threads 1 = Inr ts_ready" "rz_state_of ipc_threads 2 = Inr ts_ready" by code_simp+
  then obtain s d where v: "rz_view ipc_threads 1 = Some s" "rz_view ipc_threads 2 = Some d"
    by (auto simp: rz_state_of_iff)
  show ?thesis
    using ipc_call_delivers [OF ipc_open_run ipc_threads_ok ready env env v, of no_identity no_identity]
    by (auto simp: Let_def split_beta n ipc_seal1_def)
qed

end
