(* ===== verification/System_Calls.thy ===== *)
theory System_Calls
  imports Memory_Syscall Process_Space Fault Ipc_Endpoint
begin

text \<open>
  The system call boundary, both halves: the call table and the outcome registers (abi.hpp/.cpp,
  syscall_outcome.hpp/.cpp and the exception frame of aarch64_exception.hpp in src/core/oskernel), the
  IPC register decoders (ipc_syscall.hpp/.cpp), and the user side that builds a call and reads what
  came back (src/core/osabi: syscall.hpp, syscall.cpp and the register contract of
  trap_aarch64.cpp).  The lemmas show that the two halves agree: the kernel decodes what the user
  encodes, and the user reads exactly the answer or the refusal that the kernel wrote.
\<close>

section \<open>The call table\<close>

datatype KernelCall =
    call_send | call_receive | call_reply | call_yield | call_thread_exit | call_thread_create
  | call_address_space_create | call_address_space_destroy | call_map | call_unmap
  | call_interrupt_attach | call_interrupt_detach | call_interrupt_complete
  | call_capability_grant | call_capability_revoke | call_fault_supply

fun call_number :: "KernelCall \<Rightarrow> u16" where
  "call_number call_send = 1"
| "call_number call_receive = 2"
| "call_number call_reply = 3"
| "call_number call_yield = 4"
| "call_number call_thread_exit = 5"
| "call_number call_thread_create = 6"
| "call_number call_address_space_create = 7"
| "call_number call_address_space_destroy = 8"
| "call_number call_map = 9"
| "call_number call_unmap = 10"
| "call_number call_interrupt_attach = 11"
| "call_number call_interrupt_detach = 12"
| "call_number call_interrupt_complete = 13"
| "call_number call_capability_grant = 14"
| "call_number call_capability_revoke = 15"
| "call_number call_fault_supply = 16"

datatype CallAuthority =
    auth_unprivileged | auth_process_control | auth_memory_control | auth_interrupt_control
  | auth_capability_control

record CallDescriptor =
  cd_call :: KernelCall
  cd_authority :: CallAuthority
  cd_argument_count :: u8
  cd_blocking :: bool

abbreviation max_kernel_calls :: nat where "max_kernel_calls \<equiv> 16"
abbreviation max_call_arguments :: nat where "max_call_arguments \<equiv> 4"
abbreviation "abi_unknown_kernel_call \<equiv> kernel_error 1"

definition call_entry :: "KernelCall \<Rightarrow> CallAuthority \<Rightarrow> u8 \<Rightarrow> bool \<Rightarrow> CallDescriptor" where
  "call_entry call authority count blocking =
     \<lparr>cd_call = call, cd_authority = authority, cd_argument_count = count, cd_blocking = blocking\<rparr>"

definition call_table :: "CallDescriptor list" where
  "call_table =
    [call_entry call_send auth_unprivileged 3 True,
     call_entry call_receive auth_unprivileged 3 True,
     call_entry call_reply auth_unprivileged 3 False,
     call_entry call_yield auth_unprivileged 0 False,
     call_entry call_thread_exit auth_unprivileged 1 False,
     call_entry call_thread_create auth_process_control 2 False,
     call_entry call_address_space_create auth_process_control 2 False,
     call_entry call_address_space_destroy auth_process_control 1 False,
     call_entry call_map auth_memory_control 4 False,
     call_entry call_unmap auth_memory_control 3 False,
     call_entry call_interrupt_attach auth_interrupt_control 1 False,
     call_entry call_interrupt_detach auth_interrupt_control 1 False,
     call_entry call_interrupt_complete auth_interrupt_control 1 False,
     call_entry call_capability_grant auth_capability_control 4 False,
     call_entry call_capability_revoke auth_capability_control 2 False,
     call_entry call_fault_supply auth_memory_control 1 False]"

definition kernel_call_count :: nat where
  "kernel_call_count = length call_table"

definition call_at :: "nat \<Rightarrow> CallDescriptor result" where
  "call_at index = (if index \<ge> length call_table then Inl abi_unknown_kernel_call else Inr (call_table ! index))"

definition describe_call :: "KernelCall \<Rightarrow> CallDescriptor result" where
  "describe_call call =
     (case find (\<lambda>descriptor. cd_call descriptor = call) call_table of
        Some descriptor \<Rightarrow> Inr descriptor
      | None \<Rightarrow> Inl abi_unknown_kernel_call)"

definition decode_call :: "u16 \<Rightarrow> CallDescriptor result" where
  "decode_call raw =
     (case find (\<lambda>descriptor. call_number (cd_call descriptor) = raw) call_table of
        Some descriptor \<Rightarrow> Inr descriptor
      | None \<Rightarrow> Inl abi_unknown_kernel_call)"

section \<open>Errors in a register\<close>

fun domain_code :: "ErrorDomain \<Rightarrow> u16" where
  "domain_code dom_core = 1"
| "domain_code dom_ipc = 2"
| "domain_code dom_service = 3"
| "domain_code dom_storage = 4"
| "domain_code dom_package = 5"
| "domain_code dom_security = 6"
| "domain_code dom_key = 7"
| "domain_code dom_display = 8"
| "domain_code dom_ui = 9"
| "domain_code dom_shell = 10"
| "domain_code dom_kernel = 11"
| "domain_code dom_image = 12"
| "domain_code (dom_unnamed w) = w"

text \<open>The cast of a number to the enumeration.\<close>

definition domain_of :: "u16 \<Rightarrow> ErrorDomain" where
  "domain_of w =
     (case find (\<lambda>d. domain_code d = w)
        [dom_core, dom_ipc, dom_service, dom_storage, dom_package, dom_security, dom_key, dom_display,
         dom_ui, dom_shell, dom_kernel, dom_image] of
        Some d \<Rightarrow> d | None \<Rightarrow> dom_unnamed w)"

definition encode_call_error :: "Error \<Rightarrow> u64" where
  "encode_call_error error =
     push_bit 48 (ucast (domain_code (err_domain error))) OR
     push_bit 32 (ucast (err_reserved error)) OR ucast (err_code error)"

abbreviation outcome_register :: nat where "outcome_register \<equiv> 7"

definition outcome_answered :: u64 where "outcome_answered = 0xC00C1EA511ED0001"
definition outcome_refused :: u64 where "outcome_refused = NOT outcome_answered"

section \<open>Outcomes in the exception frame\<close>

record ExceptionFrame =
  fx :: "u64 list"
  sp_el0 :: u64
  elr_el1 :: u64
  spsr_el1 :: u64
  esr_el1 :: u64
  far_el1 :: u64

definition frame_wf :: "ExceptionFrame \<Rightarrow> bool" where
  "frame_wf frame \<longleftrightarrow> length (fx frame) = 31"

definition set_x :: "ExceptionFrame \<Rightarrow> nat \<Rightarrow> u64 \<Rightarrow> ExceptionFrame" where
  "set_x frame i v = frame\<lparr>fx := (fx frame)[i := v]\<rparr>"

definition clear_results :: "ExceptionFrame \<Rightarrow> ExceptionFrame" where
  "clear_results frame = set_x (set_x frame 0 0) 1 0"

definition answer :: "ExceptionFrame \<Rightarrow> ExceptionFrame" where
  "answer frame = set_x (clear_results frame) outcome_register outcome_answered"

definition answer1 :: "ExceptionFrame \<Rightarrow> u64 \<Rightarrow> ExceptionFrame" where
  "answer1 frame x0 = set_x (set_x (clear_results frame) 0 x0) outcome_register outcome_answered"

definition answer2 :: "ExceptionFrame \<Rightarrow> u64 \<Rightarrow> u64 \<Rightarrow> ExceptionFrame" where
  "answer2 frame x0 x1 =
     set_x (set_x (set_x (clear_results frame) 0 x0) 1 x1) outcome_register outcome_answered"

definition refuse :: "ExceptionFrame \<Rightarrow> Error \<Rightarrow> ExceptionFrame" where
  "refuse frame error =
     set_x (set_x (clear_results frame) 0 (encode_call_error error)) outcome_register outcome_refused"

definition answered :: "ExceptionFrame \<Rightarrow> bool" where
  "answered frame \<longleftrightarrow> fx frame ! outcome_register = outcome_answered \<or>
     fx frame ! outcome_register = outcome_refused"

definition clear_outcome :: "ExceptionFrame \<Rightarrow> ExceptionFrame" where
  "clear_outcome frame = set_x frame outcome_register 0"

section \<open>The IPC calls' registers\<close>

record IpcUserExchange =
  ux_address :: u64
  ux_length :: size_t

definition exchange_valid_input :: "IpcUserExchange \<Rightarrow> bool" where
  "exchange_valid_input x \<longleftrightarrow> ux_address x \<noteq> 0 \<and> ux_length x \<le> of_nat max_ipc_inline_bytes"

record IpcSendSyscall =
  is_capability :: CapabilityId
  is_request :: IpcUserExchange

record IpcReceiveSyscall =
  ir_capability :: CapabilityId
  ir_address :: u64
  ir_deadline :: u64

definition receive_bounded :: "IpcReceiveSyscall \<Rightarrow> bool" where
  "receive_bounded r \<longleftrightarrow> ir_deadline r \<noteq> 0"

record IpcReplySyscall =
  ip_transaction :: IpcTransactionId
  ip_response :: IpcUserExchange

abbreviation "is_invalid_capability \<equiv> kernel_error 240"
abbreviation "is_invalid_exchange \<equiv> kernel_error 241"
abbreviation "is_invalid_transaction \<equiv> kernel_error 242"

definition decode_ipc_send_syscall :: "u64 \<Rightarrow> u64 \<Rightarrow> u64 \<Rightarrow> IpcSendSyscall result" where
  "decode_ipc_send_syscall x0_capability x1_exchange_address x2_request_length =
     (if x0_capability = 0 then Inl is_invalid_capability
      else if x1_exchange_address = 0 \<or> x2_request_length > of_nat max_ipc_inline_bytes
      then Inl is_invalid_exchange
      else Inr \<lparr>is_capability = ucast x0_capability,
                is_request = \<lparr>ux_address = x1_exchange_address, ux_length = ucast x2_request_length\<rparr>\<rparr>)"

definition decode_ipc_receive_syscall :: "u64 \<Rightarrow> u64 \<Rightarrow> u64 \<Rightarrow> IpcReceiveSyscall result" where
  "decode_ipc_receive_syscall x0_capability x1_exchange_address x2_deadline =
     (if x0_capability = 0 then Inl is_invalid_capability
      else if x1_exchange_address = 0 then Inl is_invalid_exchange
      else Inr \<lparr>ir_capability = ucast x0_capability, ir_address = x1_exchange_address,
                ir_deadline = x2_deadline\<rparr>)"

definition decode_ipc_reply_syscall :: "u64 \<Rightarrow> u64 \<Rightarrow> u64 \<Rightarrow> IpcReplySyscall result" where
  "decode_ipc_reply_syscall x0_transaction x1_exchange_address x2_response_length =
     (if x0_transaction = 0 then Inl is_invalid_transaction
      else if x1_exchange_address = 0 \<or> x2_response_length > of_nat max_ipc_inline_bytes
      then Inl is_invalid_exchange
      else Inr \<lparr>ip_transaction = x0_transaction,
                ip_response = \<lparr>ux_address = x1_exchange_address, ux_length = ucast x2_response_length\<rparr>\<rparr>)"

section \<open>The user side\<close>

abbreviation "abi_unknown_call \<equiv> kernel_error 340"
abbreviation "abi_argument_count \<equiv> kernel_error 341"
abbreviation "abi_no_answer \<equiv> kernel_error 342"
abbreviation "abi_malformed_error \<equiv> kernel_error 343"

record SyscallRequest =
  sr_arguments :: "u64 list"
  sr_call :: u16

record SyscallAnswer =
  sa_results :: "u64 list"

record Refusal =
  rf_reason :: Error

definition abi_decode_error :: "u64 \<Rightarrow> Refusal result" where
  "abi_decode_error raw =
     (if (ucast (drop_bit 32 raw AND 0xFFFF) :: u16) \<noteq> 0 then Inl abi_malformed_error
      else Inr \<lparr>rf_reason = \<lparr>err_domain = domain_of (ucast (drop_bit 48 raw AND 0xFFFF)),
                              err_reserved = 0, err_code = ucast (raw AND 0xFFFFFFFF)\<rparr>\<rparr>)"

definition encode_call :: "KernelCall \<Rightarrow> u64 list \<Rightarrow> nat \<Rightarrow> SyscallRequest result" where
  "encode_call call arguments argument_count =
     (case describe_call call of
        Inl _ \<Rightarrow> Inl abi_unknown_call
      | Inr descriptor \<Rightarrow>
          if argument_count \<noteq> unat (cd_argument_count descriptor) then Inl abi_argument_count
          else Inr \<lparr>sr_arguments = take argument_count arguments @ replicate (max_call_arguments - argument_count) 0,
                    sr_call = call_number call\<rparr>)"

definition decode_outcome :: "u64 \<Rightarrow> u64 list \<Rightarrow> SyscallAnswer result" where
  "decode_outcome outcome registers =
     (if outcome = outcome_answered then Inr \<lparr>sa_results = registers\<rparr>
      else if outcome = outcome_refused
      then (case abi_decode_error (registers ! 0) of
              Inl err \<Rightarrow> Inl err | Inr refusal \<Rightarrow> Inl (rf_reason refusal))
      else Inl abi_no_answer)"

definition calls_with_stubs :: "KernelCall list" where
  "calls_with_stubs =
    [call_send, call_receive, call_reply, call_yield, call_thread_create, call_address_space_create,
     call_address_space_destroy, call_fault_supply, call_map, call_unmap]"

definition calls_without_stubs :: "KernelCall list" where
  "calls_without_stubs =
    [call_thread_exit, call_interrupt_attach, call_interrupt_detach, call_interrupt_complete,
     call_capability_grant, call_capability_revoke]"

definition call_has_stub :: "KernelCall \<Rightarrow> bool" where
  "call_has_stub call \<longleftrightarrow> call \<in> set calls_with_stubs"

definition encode_send :: "IpcSendSyscall \<Rightarrow> SyscallRequest result" where
  "encode_send r = encode_call call_send
     [ucast (is_capability r), ux_address (is_request r), ucast (ux_length (is_request r)), 0] 3"

definition encode_receive :: "IpcReceiveSyscall \<Rightarrow> SyscallRequest result" where
  "encode_receive r = encode_call call_receive [ucast (ir_capability r), ir_address r, ir_deadline r, 0] 3"

definition encode_reply :: "IpcReplySyscall \<Rightarrow> SyscallRequest result" where
  "encode_reply r = encode_call call_reply
     [ucast (ip_transaction r), ux_address (ip_response r), ucast (ux_length (ip_response r)), 0] 3"

definition encode_yield :: "SyscallRequest result" where
  "encode_yield = encode_call call_yield [0, 0, 0, 0] 0"

definition encode_thread_create :: "ThreadCreateSyscall \<Rightarrow> SyscallRequest result" where
  "encode_thread_create r = encode_call call_thread_create [ucast (tc_space r), tc_stack r, 0, 0] 2"

definition encode_address_space_create :: "AddressSpaceCreateSyscall \<Rightarrow> SyscallRequest result" where
  "encode_address_space_create r =
     encode_call call_address_space_create [ucast (asc_authority r), ucast (asc_root_grant r), 0, 0] 2"

definition encode_address_space_destroy :: "AddressSpaceDestroySyscall \<Rightarrow> SyscallRequest result" where
  "encode_address_space_destroy r = encode_call call_address_space_destroy [ucast (asd_space r), 0, 0, 0] 1"

definition encode_fault_supply :: "FaultSupplySyscall \<Rightarrow> SyscallRequest result" where
  "encode_fault_supply r = encode_call call_fault_supply [ucast (fsp_backing r), 0, 0, 0] 1"

definition encode_map :: "MapSyscall \<Rightarrow> SyscallRequest result" where
  "encode_map r = encode_call call_map
     [ucast (mp_space r), mp_address r, ucast (mp_backing r), ucast (perm_code (mp_permissions r))] 4"

definition encode_unmap :: "UnmapSyscall \<Rightarrow> SyscallRequest result" where
  "encode_unmap r = encode_call call_unmap [ucast (um_space r), um_address r, ucast (um_backing r), 0] 3"

text \<open>The trap: the machine takes the four argument registers, the cleared outcome register and the
  call number, and gives back four result registers and the outcome.  What happens in between is the
  parameter \<open>svc\<close>.\<close>

definition trap :: "(u64 list \<Rightarrow> u64 \<Rightarrow> u64 \<Rightarrow> u64 list \<times> u64) \<Rightarrow> SyscallRequest \<Rightarrow> SyscallAnswer result" where
  "trap svc request =
     (let (registers, outcome) = svc (sr_arguments request) 0 (ucast (sr_call request))
      in decode_outcome outcome registers)"

section \<open>The table is the surface\<close>

lemma call_entry_found:
  "\<exists>d. describe_call call = Inr d \<and> cd_call d = call \<and> decode_call (call_number call) = Inr d \<and>
     call_at (unat (call_number call) - 1) = Inr d \<and> unat (cd_argument_count d) \<le> 4"
proof -
  have "describe_call call = call_at (unat (call_number call) - 1)"
    "decode_call (call_number call) = call_at (unat (call_number call) - 1)"
    "map_sum id cd_call (call_at (unat (call_number call) - 1)) = Inr call"
    "map_sum id (\<lambda>d. unat (cd_argument_count d) \<le> 4) (call_at (unat (call_number call) - 1)) = Inr True"
    by (cases call; simp add: describe_call_def decode_call_def call_at_def call_table_def call_entry_def)+
  then show ?thesis by (cases "call_at (unat (call_number call) - 1)") auto
qed

lemma word_in_of_nat_range:
  fixes w :: "'a::len word"
  assumes "n < 2 ^ LENGTH('a)" "m \<le> n"
  shows "w \<in> set (map of_nat [m..<Suc n]) \<longleftrightarrow> of_nat m \<le> w \<and> w \<le> of_nat n"
proof
  assume "w \<in> set (map of_nat [m..<Suc n])"
  then obtain k where k: "w = of_nat k" "m \<le> k" "k \<le> n" by auto
  with assms show "of_nat m \<le> w \<and> w \<le> of_nat n"
    by (simp add: word_le_nat_alt unat_of_nat take_bit_nat_eq_self)
next
  assume "of_nat m \<le> w \<and> w \<le> of_nat n"
  with assms have "m \<le> unat w" "unat w \<le> n"
    by (simp_all add: word_le_nat_alt unat_of_nat take_bit_nat_eq_self)
  then show "w \<in> set (map of_nat [m..<Suc n])"
    unfolding set_map by (intro image_eqI [of w of_nat "unat w"]) auto
qed

text \<open>The call table is the whole surface and each call is in it once.  Every call of the
  enumeration has exactly the one table entry that \<open>describe_call\<close>, \<open>decode_call\<close> on its number and
  the enumeration by index find; a number is decoded if and only if it is 1 to 16, so zero and every
  unknown number are refused; no call takes more than four arguments; and each call either has a
  stub or is listed as having none, never both.\<close>

theorem call_table_is_surface:
  "(\<exists>d. describe_call call = Inr d \<and> cd_call d = call \<and> decode_call (call_number call) = Inr d \<and>
      (\<exists>i < kernel_call_count. call_at i = Inr d) \<and> unat (cd_argument_count d) \<le> max_call_arguments) \<and>
   (is_ok (decode_call raw) \<longleftrightarrow> 1 \<le> raw \<and> raw \<le> 16) \<and>
   kernel_call_count = max_kernel_calls \<and>
   (call_has_stub call \<longleftrightarrow> call \<notin> set calls_without_stubs)"
proof -
  obtain d where d: "describe_call call = Inr d" "cd_call d = call" "decode_call (call_number call) = Inr d"
    "call_at (unat (call_number call) - 1) = Inr d" "unat (cd_argument_count d) \<le> 4"
    using call_entry_found by blast
  have idx: "unat (call_number call) - 1 < kernel_call_count" "kernel_call_count = 16"
    by (cases call; simp add: kernel_call_count_def call_table_def)+
  have "is_ok (decode_call raw) \<longleftrightarrow> raw \<in> set (map (call_number \<circ> cd_call) call_table)"
  proof -
    have "is_ok (decode_call raw) \<longleftrightarrow> find (\<lambda>d. call_number (cd_call d) = raw) call_table \<noteq> None"
      by (simp add: decode_call_def split: option.split)
    then show ?thesis unfolding find_None_iff by auto
  qed
  also have "map (call_number \<circ> cd_call) call_table = map of_nat [1..<17]"
    by (simp add: call_table_def call_entry_def upt_rec)
  also have "raw \<in> set (map of_nat [1..<17]) \<longleftrightarrow> 1 \<le> raw \<and> raw \<le> 16"
    using word_in_of_nat_range [of 16 1 raw] by simp
  finally have dec: "is_ok (decode_call raw) \<longleftrightarrow> 1 \<le> raw \<and> raw \<le> 16" .
  have "call_has_stub call \<longleftrightarrow> call \<notin> set calls_without_stubs"
    by (cases call) (simp_all add: call_has_stub_def calls_with_stubs_def calls_without_stubs_def)
  with d dec idx show ?thesis by blast
qed

section \<open>Errors and outcomes\<close>

lemma encode_call_error_fields:
  "(ucast (drop_bit 48 (encode_call_error e) AND 0xFFFF) :: u16) = domain_code (err_domain e)"
  "(ucast (drop_bit 32 (encode_call_error e) AND 0xFFFF) :: u16) = err_reserved e"
  "(ucast (encode_call_error e AND 0xFFFFFFFF) :: u32) = err_code e"
proof -
  have m: "(0xFFFF :: u64) = mask 16" "(0xFFFFFFFF :: u64) = mask 32" by (simp_all add: mask_eq_exp_minus_1)
  show "(ucast (drop_bit 48 (encode_call_error e) AND 0xFFFF) :: u16) = domain_code (err_domain e)"
    "(ucast (drop_bit 32 (encode_call_error e) AND 0xFFFF) :: u16) = err_reserved e"
    "(ucast (encode_call_error e AND 0xFFFFFFFF) :: u32) = err_code e"
    unfolding encode_call_error_def m
    by (rule bit_eqI, auto simp: bit_simps dest: bit_imp_le_length)+
qed

text \<open>A domain that some value of the enumeration's underlying type stands for.\<close>

definition domain_canonical :: "ErrorDomain \<Rightarrow> bool" where
  "domain_canonical d \<longleftrightarrow> domain_of (domain_code d) = d"

lemma domain_named [simp]: "domain_canonical d" if "\<And>w. d \<noteq> dom_unnamed w"
  using that by (cases d) (simp_all add: domain_canonical_def domain_of_def)

lemma outcome_tags [simp]: "outcome_answered \<noteq> outcome_refused" "outcome_refused \<noteq> outcome_answered"
  "outcome_answered \<noteq> 0" "outcome_refused \<noteq> 0"
  by (simp_all add: outcome_refused_def outcome_answered_def)

text \<open>What the user side reads from a frame the kernel returns.\<close>

definition user_reads :: "ExceptionFrame \<Rightarrow> SyscallAnswer result" where
  "user_reads frame = decode_outcome (fx frame ! outcome_register) (take max_call_arguments (fx frame))"

text \<open>The user reads what the kernel wrote.  From a frame the kernel answered, the user side reads
  the values answered (and zero in the result registers not used, never its own arguments), with
  the registers of out-of-band delivery untouched; from a frame it refused, exactly the error, domain
  and code, when its reserved field is zero, and otherwise a malformed error; and from a frame whose
  outcome was cleared and not written since, that there was no answer, which no answer and
  no refusal of the kernel ever looks like.\<close>

theorem outcome_round_trip:
  assumes "frame_wf f"
  shows "user_reads (answer f) = Inr \<lparr>sa_results = [0, 0, fx f ! 2, fx f ! 3]\<rparr> \<and>
    user_reads (answer1 f a) = Inr \<lparr>sa_results = [a, 0, fx f ! 2, fx f ! 3]\<rparr> \<and>
    user_reads (answer2 f a b) = Inr \<lparr>sa_results = [a, b, fx f ! 2, fx f ! 3]\<rparr> \<and>
    (err_reserved e = 0 \<longrightarrow> domain_canonical (err_domain e) \<longrightarrow> user_reads (refuse f e) = Inl e) \<and>
    (err_reserved e \<noteq> 0 \<longrightarrow> user_reads (refuse f e) = Inl abi_malformed_error) \<and>
    user_reads (clear_outcome f) = Inl abi_no_answer \<and> \<not> answered (clear_outcome f) \<and>
    answered (answer f) \<and> answered (answer1 f a) \<and> answered (answer2 f a b) \<and> answered (refuse f e)"
proof -
  note d = user_reads_def decode_outcome_def answer_def answer1_def answer2_def refuse_def answered_def
    clear_outcome_def clear_results_def set_x_def
  obtain x0 x1 x2 x3 x4 x5 x6 x7 xs where x: "fx f = x0 # x1 # x2 # x3 # x4 # x5 # x6 # x7 # xs"
    using assms by (auto simp: frame_wf_def numeral_eq_Suc length_Suc_conv)
  have ref: "abi_decode_error (encode_call_error e) =
      (if err_reserved e \<noteq> 0 then Inl abi_malformed_error
       else Inr \<lparr>rf_reason = \<lparr>err_domain = domain_of (domain_code (err_domain e)), err_reserved = 0,
         err_code = err_code e\<rparr>\<rparr>)"
    by (simp only: abi_decode_error_def encode_call_error_fields)
  have "\<lparr>err_domain = err_domain e, err_reserved = 0, err_code = err_code e\<rparr> = e" if "err_reserved e = 0"
    using that by (cases e) simp
  then show ?thesis by (simp add: d x ref domain_canonical_def)
qed

section \<open>Arguments\<close>

text \<open>What the kernel makes of the registers of an encoded call.  Nothing, if the stub built none, if
  they are not four or if the number in them is not that call's in the kernel's table; otherwise what
  the decoder of the call answers, be it a request or an error.\<close>

definition kernel_reads ::
  "SyscallRequest result \<Rightarrow> KernelCall \<Rightarrow> (u64 \<Rightarrow> u64 \<Rightarrow> u64 \<Rightarrow> u64 \<Rightarrow> 'a result) \<Rightarrow> 'a result option" where
  "kernel_reads enc call dec =
     (case enc of
        Inl _ \<Rightarrow> None
      | Inr q \<Rightarrow>
          if length (sr_arguments q) = max_call_arguments \<and> decode_call (sr_call q) = describe_call call
          then Some (dec (sr_arguments q ! 0) (sr_arguments q ! 1) (sr_arguments q ! 2) (sr_arguments q ! 3))
          else None)"

lemma kernel_reads_call:
  assumes "describe_call call = Inr d" "n = unat (cd_argument_count d)" "length args = 4" "n \<le> 4"
    and "\<forall>i < 4. n \<le> i \<longrightarrow> args ! i = 0"
  shows "kernel_reads (encode_call call args n) call dec =
    Some (dec (args ! 0) (args ! 1) (args ! 2) (args ! 3))"
proof -
  have "take n args @ replicate (4 - n) 0 = args"
  proof (rule nth_equalityI)
    fix i assume "i < length (take n args @ replicate (4 - n) 0)"
    with assms show "(take n args @ replicate (4 - n) 0) ! i = args ! i" by (auto simp: nth_append)
  qed (use assms in simp)
  then have "encode_call call args n = Inr \<lparr>sr_arguments = args, sr_call = call_number call\<rparr>"
    using assms(1,2) by (simp add: encode_call_def)
  moreover have "decode_call (call_number call) = describe_call call"
    using call_entry_found [of call] by auto
  ultimately show ?thesis using assms(3) by (simp add: kernel_reads_def)
qed

lemma describe_calls:
  "describe_call call_send = Inr (call_entry call_send auth_unprivileged 3 True)"
  "describe_call call_receive = Inr (call_entry call_receive auth_unprivileged 3 True)"
  "describe_call call_reply = Inr (call_entry call_reply auth_unprivileged 3 False)"
  "describe_call call_yield = Inr (call_entry call_yield auth_unprivileged 0 False)"
  "describe_call call_thread_create = Inr (call_entry call_thread_create auth_process_control 2 False)"
  "describe_call call_address_space_create = Inr (call_entry call_address_space_create auth_process_control 2 False)"
  "describe_call call_address_space_destroy = Inr (call_entry call_address_space_destroy auth_process_control 1 False)"
  "describe_call call_fault_supply = Inr (call_entry call_fault_supply auth_memory_control 1 False)"
  "describe_call call_map = Inr (call_entry call_map auth_memory_control 4 False)"
  "describe_call call_unmap = Inr (call_entry call_unmap auth_memory_control 3 False)"
  by (simp_all add: describe_call_def call_table_def call_entry_def)

lemma all_less_4: "(\<forall>i < (4::nat). P i) \<longleftrightarrow> P 0 \<and> P 1 \<and> P 2 \<and> P 3"
  by (auto simp: numeral_eq_Suc less_Suc_eq)

lemma decode_map_encoded:
  "decode_map_syscall (mp_space m) (mp_address m) (mp_backing m) (ucast (perm_code (mp_permissions m))) =
     (if mp_space m = 0 \<or> mp_backing m = 0 then Inl map_invalid_capability
      else if mp_address m = 0 then Inl map_invalid_address else Inr m)"
  by (cases m; cases "mp_permissions m") (auto simp: decode_map_syscall_def valid_map_permissions_def perm_of_def)

text \<open>C28: The kernel decodes what the user encodes.  For every call with a stub, the registers the stub
  builds name that call in the kernel's table, and what the kernel's decoder answers from them is, for
  every request: the very request the stub was given, when its capabilities, transaction and addresses
  are not null and its payload is at most 64 bytes long; otherwise an error, the one stated for the first
  of these rules it breaks.  It never answers with a different request.  A yield carries four zero
  registers.\<close>

theorem syscall_round_trip:
  "kernel_reads (encode_send s) call_send (\<lambda>a b c _. decode_ipc_send_syscall a b c) =
     Some (if is_capability s = 0 then Inl is_invalid_capability
           else if ux_address (is_request s) = 0 \<or> unat (ux_length (is_request s)) > 64 then Inl is_invalid_exchange
           else Inr s) \<and>
   kernel_reads (encode_receive v) call_receive (\<lambda>a b c _. decode_ipc_receive_syscall a b c) =
     Some (if ir_capability v = 0 then Inl is_invalid_capability
           else if ir_address v = 0 then Inl is_invalid_exchange
           else Inr v) \<and>
   kernel_reads (encode_reply p) call_reply (\<lambda>a b c _. decode_ipc_reply_syscall a b c) =
     Some (if ip_transaction p = 0 then Inl is_invalid_transaction
           else if ux_address (ip_response p) = 0 \<or> unat (ux_length (ip_response p)) > 64 then Inl is_invalid_exchange
           else Inr p) \<and>
   encode_yield = Inr \<lparr>sr_arguments = [0, 0, 0, 0], sr_call = call_number call_yield\<rparr> \<and>
   kernel_reads (encode_thread_create t) call_thread_create (\<lambda>a b _ _. decode_thread_create_syscall a b) =
     Some (if tc_space t = 0 then Inl ta_invalid_capability
           else if tc_stack t = 0 then Inl ta_invalid_stack
           else Inr t) \<and>
   kernel_reads (encode_address_space_create c) call_address_space_create (\<lambda>a b _ _. decode_address_space_create_syscall a b) =
     Some (if asc_authority c = 0 \<or> asc_root_grant c = 0 then Inl as_invalid_capability else Inr c) \<and>
   kernel_reads (encode_address_space_destroy d) call_address_space_destroy (\<lambda>a _ _ _. decode_address_space_destroy_syscall a) =
     Some (if asd_space d = 0 then Inl as_invalid_capability else Inr d) \<and>
   kernel_reads (encode_fault_supply f) call_fault_supply (\<lambda>a _ _ _. decode_fault_supply_syscall a) =
     Some (if fsp_backing f = 0 then Inl fd_invalid_capability else Inr f) \<and>
   kernel_reads (encode_map m) call_map decode_map_syscall =
     Some (if mp_space m = 0 \<or> mp_backing m = 0 then Inl map_invalid_capability
           else if mp_address m = 0 then Inl map_invalid_address
           else Inr m) \<and>
   kernel_reads (encode_unmap u) call_unmap (\<lambda>a b c _. decode_unmap_syscall a b c) =
     Some (if um_space u = 0 \<or> um_backing u = 0 then Inl map_invalid_capability
           else if um_address u = 0 then Inl map_invalid_address
           else Inr u)"
proof (intro conjI)
  show "kernel_reads (encode_send s) call_send (\<lambda>a b c _. decode_ipc_send_syscall a b c) =
     Some (if is_capability s = 0 then Inl is_invalid_capability
           else if ux_address (is_request s) = 0 \<or> unat (ux_length (is_request s)) > 64 then Inl is_invalid_exchange
           else Inr s)"
    unfolding encode_send_def
    by (subst kernel_reads_call [OF describe_calls(1)])
       (auto simp: all_less_4 call_entry_def decode_ipc_send_syscall_def word_less_nat_alt)
  show "kernel_reads (encode_receive v) call_receive (\<lambda>a b c _. decode_ipc_receive_syscall a b c) =
     Some (if ir_capability v = 0 then Inl is_invalid_capability
           else if ir_address v = 0 then Inl is_invalid_exchange
           else Inr v)"
    unfolding encode_receive_def
    by (subst kernel_reads_call [OF describe_calls(2)])
       (auto simp: all_less_4 call_entry_def decode_ipc_receive_syscall_def)
  show "kernel_reads (encode_reply p) call_reply (\<lambda>a b c _. decode_ipc_reply_syscall a b c) =
     Some (if ip_transaction p = 0 then Inl is_invalid_transaction
           else if ux_address (ip_response p) = 0 \<or> unat (ux_length (ip_response p)) > 64 then Inl is_invalid_exchange
           else Inr p)"
    unfolding encode_reply_def
    by (subst kernel_reads_call [OF describe_calls(3)])
       (auto simp: all_less_4 call_entry_def decode_ipc_reply_syscall_def word_less_nat_alt)
  show "encode_yield = Inr \<lparr>sr_arguments = [0, 0, 0, 0], sr_call = call_number call_yield\<rparr>"
    by (simp add: encode_yield_def encode_call_def describe_calls call_entry_def numeral_eq_Suc)
  show "kernel_reads (encode_thread_create t) call_thread_create (\<lambda>a b _ _. decode_thread_create_syscall a b) =
     Some (if tc_space t = 0 then Inl ta_invalid_capability
           else if tc_stack t = 0 then Inl ta_invalid_stack
           else Inr t)"
    unfolding encode_thread_create_def
    by (subst kernel_reads_call [OF describe_calls(5)])
       (auto simp: all_less_4 call_entry_def decode_thread_create_syscall_def)
  show "kernel_reads (encode_address_space_create c) call_address_space_create (\<lambda>a b _ _. decode_address_space_create_syscall a b) =
     Some (if asc_authority c = 0 \<or> asc_root_grant c = 0 then Inl as_invalid_capability else Inr c)"
    unfolding encode_address_space_create_def
    by (subst kernel_reads_call [OF describe_calls(6)])
       (auto simp: all_less_4 call_entry_def decode_address_space_create_syscall_def)
  show "kernel_reads (encode_address_space_destroy d) call_address_space_destroy (\<lambda>a _ _ _. decode_address_space_destroy_syscall a) =
     Some (if asd_space d = 0 then Inl as_invalid_capability else Inr d)"
    unfolding encode_address_space_destroy_def
    by (subst kernel_reads_call [OF describe_calls(7)])
       (auto simp: all_less_4 call_entry_def decode_address_space_destroy_syscall_def)
  show "kernel_reads (encode_fault_supply f) call_fault_supply (\<lambda>a _ _ _. decode_fault_supply_syscall a) =
     Some (if fsp_backing f = 0 then Inl fd_invalid_capability else Inr f)"
    unfolding encode_fault_supply_def
    by (subst kernel_reads_call [OF describe_calls(8)])
       (auto simp: all_less_4 call_entry_def decode_fault_supply_syscall_def)
  show "kernel_reads (encode_map m) call_map decode_map_syscall =
     Some (if mp_space m = 0 \<or> mp_backing m = 0 then Inl map_invalid_capability
           else if mp_address m = 0 then Inl map_invalid_address
           else Inr m)"
    unfolding encode_map_def
    by (subst kernel_reads_call [OF describe_calls(9)])
       (auto simp: all_less_4 call_entry_def decode_map_encoded)
  show "kernel_reads (encode_unmap u) call_unmap (\<lambda>a b c _. decode_unmap_syscall a b c) =
     Some (if um_space u = 0 \<or> um_backing u = 0 then Inl map_invalid_capability
           else if um_address u = 0 then Inl map_invalid_address
           else Inr u)"
    unfolding encode_unmap_def
    by (subst kernel_reads_call [OF describe_calls(10)])
       (auto simp: all_less_4 call_entry_def decode_unmap_syscall_def)
qed

definition frame_example :: ExceptionFrame where
  "frame_example = \<lparr>fx = replicate 31 9, sp_el0 = 0, elr_el1 = 0, spsr_el1 = 0, esr_el1 = 0, far_el1 = 0\<rparr>"

theorem outcome_round_trip_witness:
  "user_reads (refuse frame_example (kernel_error 260)) = Inl (kernel_error 260) \<and>
   user_reads (answer1 frame_example 5) = Inr \<lparr>sa_results = [5, 0, 9, 9]\<rparr>"
proof -
  have "frame_wf frame_example" by (simp add: frame_wf_def frame_example_def)
  from outcome_round_trip [OF this, where e = "kernel_error 260" and a = 5] show ?thesis
    by (simp add: frame_example_def numeral_eq_Suc)
qed

end
