(* ===== verification/Scheduler.thy ===== *)
theory Scheduler
  imports Rendezvous
begin

text \<open>
  The tickless priority scheduler and the authority over its one timer deadline: scheduler.hpp/.cpp
  and scheduler_deadline.hpp/.cpp of src/core/oskernel.  One definition per method, prefixed
  \<open>sched_\<close> and \<open>sdl_\<close>.  The lemmas show what \<open>choose\<close> chooses (strict priority, then round-robin
  position), when it asks for a timer, that time is charged and never refunded, that a thread that
  used or gave up its slice goes behind its peers, and that a deadline is accepted only for the
  decision that armed it.
\<close>

section \<open>Data\<close>

abbreviation default_slice_nanoseconds :: u64 where "default_slice_nanoseconds \<equiv> 2000000"

abbreviation "sched_invalid_thread_id \<equiv> kernel_error 1"
abbreviation "sched_unknown_thread \<equiv> kernel_error 2"
abbreviation "sched_thread_exists \<equiv> kernel_error 3"
abbreviation "sched_thread_limit \<equiv> kernel_error 4"

record Decision =
  dec_thread :: ThreadId
  dec_timer :: u64
  dec_preempted :: bool

record SchedSlot =
  ss_thread :: ThreadId
  ss_effective :: Priority
  ss_runnable :: bool
  ss_remaining :: u64
  ss_sequence :: u64
  ss_occupied :: bool

record Scheduler =
  sched_slots :: "SchedSlot list"
  sched_occupied :: size_t
  sched_running_thread :: ThreadId
  sched_last_decision :: u64
  sched_have_decided :: bool
  sched_next_sequence :: u64

definition sched_blank :: SchedSlot where
  "sched_blank = \<lparr>ss_thread = invalid_thread, ss_effective = default_priority, ss_runnable = True,
     ss_remaining = default_slice_nanoseconds, ss_sequence = 0, ss_occupied = False\<rparr>"

definition sched_empty :: Scheduler where
  "sched_empty = \<lparr>sched_slots = replicate max_threads sched_blank, sched_occupied = 0,
     sched_running_thread = invalid_thread, sched_last_decision = 0, sched_have_decided = False,
     sched_next_sequence = 1\<rparr>"

section \<open>Operations\<close>

definition sched_find :: "Scheduler \<Rightarrow> ThreadId \<Rightarrow> nat option" where
  "sched_find s t = slot_find ss_occupied ss_thread invalid_thread (sched_slots s) t"

definition sched_admitted_thread_count :: "Scheduler \<Rightarrow> size_t" where
  "sched_admitted_thread_count s = sched_occupied s"

definition sched_runnable_thread_count :: "Scheduler \<Rightarrow> size_t" where
  "sched_runnable_thread_count s =
     of_nat (length (filter (\<lambda>x. ss_occupied x \<and> ss_runnable x) (sched_slots s)))"

definition sched_running :: "Scheduler \<Rightarrow> ThreadId" where
  "sched_running s = sched_running_thread s"

definition sched_remaining_slice_of :: "Scheduler \<Rightarrow> ThreadId \<Rightarrow> u64 result" where
  "sched_remaining_slice_of s t =
     (case sched_find s t of None \<Rightarrow> Inl sched_unknown_thread
      | Some i \<Rightarrow> Inr (ss_remaining (sched_slots s ! i)))"

definition sched_is_runnable :: "Scheduler \<Rightarrow> ThreadId \<Rightarrow> bool result" where
  "sched_is_runnable s t =
     (case sched_find s t of None \<Rightarrow> Inl sched_unknown_thread
      | Some i \<Rightarrow> Inr (ss_runnable (sched_slots s ! i)))"

definition sched_admit :: "Scheduler \<Rightarrow> ThreadId \<Rightarrow> Priority \<Rightarrow> unit result \<times> Scheduler" where
  "sched_admit s t effective =
     (if t = invalid_thread then (Inl sched_invalid_thread_id, s)
      else if sched_find s t \<noteq> None then (Inl sched_thread_exists, s)
      else case first_index (\<lambda>x. \<not> ss_occupied x) (sched_slots s) of
          Some i \<Rightarrow>
            (Inr (), s\<lparr>sched_slots := (sched_slots s)[i :=
                 \<lparr>ss_thread = t, ss_effective = effective, ss_runnable = True,
                  ss_remaining = default_slice_nanoseconds, ss_sequence = sched_next_sequence s,
                  ss_occupied = True\<rparr>],
               sched_next_sequence := sched_next_sequence s + 1,
               sched_occupied := sched_occupied s + 1\<rparr>)
        | None \<Rightarrow> (Inl sched_thread_limit, s))"

definition sched_retire :: "Scheduler \<Rightarrow> ThreadId \<Rightarrow> unit result \<times> Scheduler" where
  "sched_retire s t =
     (if t = invalid_thread then (Inl sched_invalid_thread_id, s)
      else case sched_find s t of
          None \<Rightarrow> (Inl sched_unknown_thread, s)
        | Some i \<Rightarrow>
            (Inr (), s\<lparr>sched_slots := (sched_slots s)[i := sched_blank],
               sched_occupied := sched_occupied s - 1,
               sched_running_thread := (if sched_running_thread s = t then invalid_thread
                                        else sched_running_thread s)\<rparr>))"

definition sched_update ::
  "Scheduler \<Rightarrow> ThreadId \<Rightarrow> bool \<Rightarrow> Priority \<Rightarrow> unit result \<times> Scheduler" where
  "sched_update s t runnable effective =
     (if t = invalid_thread then (Inl sched_invalid_thread_id, s)
      else case sched_find s t of
          None \<Rightarrow> (Inl sched_unknown_thread, s)
        | Some i \<Rightarrow>
            (Inr (), s\<lparr>sched_slots := (sched_slots s)[i := (sched_slots s ! i)
                 \<lparr>ss_runnable := runnable, ss_effective := effective\<rparr>]\<rparr>))"

definition sched_yield_slice :: "Scheduler \<Rightarrow> ThreadId \<Rightarrow> unit result \<times> Scheduler" where
  "sched_yield_slice s t =
     (if t = invalid_thread then (Inl sched_invalid_thread_id, s)
      else case sched_find s t of
          None \<Rightarrow> (Inl sched_unknown_thread, s)
        | Some i \<Rightarrow>
            (Inr (), s\<lparr>sched_slots := (sched_slots s)[i := (sched_slots s ! i)\<lparr>ss_remaining := 0\<rparr>]\<rparr>))"

text \<open>The parts of \<open>choose\<close>: charging the running thread, the refill loop, the selection loop.\<close>

definition sched_charge :: "Scheduler \<Rightarrow> u64 \<Rightarrow> Scheduler" where
  "sched_charge s now =
     (if sched_have_decided s \<and> sched_running_thread s \<noteq> invalid_thread
      then case sched_find s (sched_running_thread s) of
          None \<Rightarrow> s
        | Some i \<Rightarrow>
            let current = sched_slots s ! i;
                elapsed = (if now \<ge> sched_last_decision s then now - sched_last_decision s else 0)
            in s\<lparr>sched_slots := (sched_slots s)[i := current\<lparr>ss_remaining :=
                  (if elapsed \<ge> ss_remaining current then 0 else ss_remaining current - elapsed)\<rparr>]\<rparr>
      else s)"

fun sched_refill :: "SchedSlot list \<Rightarrow> u64 \<Rightarrow> SchedSlot list \<times> u64" where
  "sched_refill [] n = ([], n)"
| "sched_refill (x # xs) n =
     (if \<not> ss_occupied x \<or> ss_remaining x \<noteq> 0
      then (let (ys, m) = sched_refill xs n in (x # ys, m))
      else (let (ys, m) = sched_refill xs (n + 1) in
        (x\<lparr>ss_remaining := default_slice_nanoseconds, ss_sequence := n\<rparr> # ys, m)))"

fun sched_pick :: "SchedSlot list \<Rightarrow> SchedSlot option \<Rightarrow> SchedSlot option" where
  "sched_pick [] chosen = chosen"
| "sched_pick (x # xs) chosen =
     (if \<not> ss_occupied x \<or> \<not> ss_runnable x then sched_pick xs chosen
      else case chosen of
          None \<Rightarrow> sched_pick xs (Some x)
        | Some c \<Rightarrow>
            if ss_effective x > ss_effective c then sched_pick xs (Some x)
            else if ss_effective x = ss_effective c \<and> ss_sequence x < ss_sequence c
              then sched_pick xs (Some x)
            else sched_pick xs chosen)"

definition sched_contended :: "SchedSlot list \<Rightarrow> SchedSlot \<Rightarrow> bool" where
  "sched_contended slots chosen =
     list_ex (\<lambda>x. ss_occupied x \<and> ss_runnable x \<and> ss_thread x \<noteq> ss_thread chosen \<and>
        ss_effective x = ss_effective chosen) slots"

definition sched_choose :: "Scheduler \<Rightarrow> u64 \<Rightarrow> Decision \<times> Scheduler" where
  "sched_choose s now =
     (let s1 = sched_charge s now;
          (slots, next_sequence) = sched_refill (sched_slots s1) (sched_next_sequence s1);
          s2 = s1\<lparr>sched_slots := slots, sched_next_sequence := next_sequence\<rparr>;
          chosen = sched_pick slots None;
          previous = sched_running_thread s2;
          next = (case chosen of None \<Rightarrow> invalid_thread | Some c \<Rightarrow> ss_thread c);
          preempted = (if previous \<noteq> invalid_thread \<and> previous \<noteq> next
             then (case sched_find s2 previous of None \<Rightarrow> False
                   | Some i \<Rightarrow> ss_runnable (sched_slots s2 ! i))
             else False);
          timer = (case chosen of None \<Rightarrow> 0
                   | Some c \<Rightarrow> if sched_contended slots c then ss_remaining c else 0)
      in (\<lparr>dec_thread = next, dec_timer = timer, dec_preempted = preempted\<rparr>,
          s2\<lparr>sched_running_thread := next, sched_last_decision := now, sched_have_decided := True\<rparr>))"

section \<open>The deadline authority\<close>

abbreviation "sdl_overflow \<equiv> kernel_error 100"
abbreviation "sdl_stale \<equiv> kernel_error 101"
abbreviation "sdl_early \<equiv> kernel_error 102"
abbreviation "sdl_inactive \<equiv> kernel_error 103"
abbreviation "sdl_stale_prepare \<equiv> kernel_error 104"

record SchedulerDeadline =
  dl_generation :: u64
  dl_absolute :: u64
  dl_active :: bool

definition no_deadline :: SchedulerDeadline where
  "no_deadline = \<lparr>dl_generation = 0, dl_absolute = 0, dl_active = False\<rparr>"

definition deadline_valid :: "SchedulerDeadline \<Rightarrow> bool" where
  "deadline_valid d \<longleftrightarrow> dl_generation d \<noteq> 0 \<and> dl_active d"

record PreparedSchedulerDeadline =
  pd_deadline :: SchedulerDeadline
  pd_base_generation :: u64

definition prepared_valid :: "PreparedSchedulerDeadline \<Rightarrow> bool" where
  "prepared_valid p \<longleftrightarrow> pd_base_generation p \<noteq> 0 \<and> dl_generation (pd_deadline p) \<noteq> 0"

definition narrow_decision_timer :: "Decision \<Rightarrow> u64 \<Rightarrow> u64 \<Rightarrow> Decision" where
  "narrow_decision_timer d earliest_absolute now =
     (if earliest_absolute = 0 then d
      else let remaining = (if earliest_absolute \<le> now then 1 else earliest_absolute - now)
           in if dec_timer d = 0 \<or> remaining < dec_timer d then d\<lparr>dec_timer := remaining\<rparr> else d)"

record SchedulerDeadlineAuthority =
  sdl_generation :: u64
  sdl_current :: SchedulerDeadline

definition sdl_empty :: SchedulerDeadlineAuthority where
  "sdl_empty = \<lparr>sdl_generation = 1, sdl_current = no_deadline\<rparr>"

definition sdl_next_generation :: "u64 \<Rightarrow> u64" where
  "sdl_next_generation current = (if current = - 1 then 1 else current + 1)"

definition sdl_prepare ::
  "SchedulerDeadlineAuthority \<Rightarrow> Decision \<Rightarrow> u64 \<Rightarrow> PreparedSchedulerDeadline result" where
  "sdl_prepare a d now =
     (let generation = sdl_next_generation (sdl_generation a) in
      if dec_timer d = 0
      then Inr \<lparr>pd_deadline = \<lparr>dl_generation = generation, dl_absolute = 0, dl_active = False\<rparr>,
                pd_base_generation = sdl_generation a\<rparr>
      else if dec_timer d > - 1 - now then Inl sdl_overflow
      else Inr \<lparr>pd_deadline = \<lparr>dl_generation = generation, dl_absolute = now + dec_timer d,
                               dl_active = True\<rparr>,
                pd_base_generation = sdl_generation a\<rparr>)"

definition sdl_commit ::
  "SchedulerDeadlineAuthority \<Rightarrow> PreparedSchedulerDeadline \<Rightarrow>
   SchedulerDeadline result \<times> SchedulerDeadlineAuthority" where
  "sdl_commit a p =
     (if \<not> prepared_valid p \<or> pd_base_generation p \<noteq> sdl_generation a \<or>
         dl_generation (pd_deadline p) \<noteq> sdl_next_generation (sdl_generation a)
      then (Inl sdl_stale_prepare, a)
      else (Inr (pd_deadline p),
            a\<lparr>sdl_generation := dl_generation (pd_deadline p), sdl_current := pd_deadline p\<rparr>))"

definition sdl_apply ::
  "SchedulerDeadlineAuthority \<Rightarrow> Decision \<Rightarrow> u64 \<Rightarrow>
   SchedulerDeadline result \<times> SchedulerDeadlineAuthority" where
  "sdl_apply a d now =
     (case sdl_prepare a d now of Inl e \<Rightarrow> (Inl e, a) | Inr p \<Rightarrow> sdl_commit a p)"

definition sdl_accept_interrupt ::
  "SchedulerDeadlineAuthority \<Rightarrow> SchedulerDeadline \<Rightarrow> u64 \<Rightarrow> unit result" where
  "sdl_accept_interrupt a delivered now =
     (if \<not> dl_active (sdl_current a) then Inl sdl_inactive
      else if \<not> dl_active delivered \<or> dl_generation delivered \<noteq> dl_generation (sdl_current a) \<or>
              dl_absolute delivered \<noteq> dl_absolute (sdl_current a)
        then Inl sdl_stale
      else if now < dl_absolute (sdl_current a) then Inl sdl_early
      else Inr ())"

section \<open>The table as a map\<close>

definition sched_view :: "Scheduler \<Rightarrow> ThreadId \<Rightarrow> SchedSlot option" where
  "sched_view s = slot_view ss_occupied ss_thread invalid_thread (sched_slots s)"

interpretation sct: slot_table ss_occupied ss_thread invalid_thread sched_blank
  by unfold_locales (simp add: sched_blank_def)

definition sched_ok :: "Scheduler \<Rightarrow> bool" where
  "sched_ok s \<longleftrightarrow>
     slot_ok ss_occupied ss_thread invalid_thread max_threads (sched_slots s) (sched_occupied s)"

lemma sched_ok_empty: "sched_ok sched_empty"
  by (simp add: sched_ok_def sched_empty_def sct.ok_blank)

lemma sched_find_None: "sched_find s t = None \<longleftrightarrow> sched_view s t = None"
  by (simp add: sched_find_def sched_view_def sct.find_view_None)

lemma sched_find_view: "sched_find s t = Some i \<Longrightarrow> sched_view s t = Some (sched_slots s ! i)"
  by (simp add: sched_find_def sched_view_def sct.find_view_Some)

lemma sched_view_find: "sched_view s t = Some x \<Longrightarrow> \<exists>i. sched_find s t = Some i \<and> sched_slots s ! i = x"
  by (auto simp: sched_find_def sched_view_def slot_view_def)

lemma sched_view_iff:
  "sched_ok s \<Longrightarrow> sched_view s t = Some x \<longleftrightarrow> x \<in> set (sched_slots s) \<and> ss_occupied x \<and> ss_thread x = t"
  unfolding sched_view_def sched_ok_def slot_ok_def by (simp add: sct.view_iff)

lemma sched_view_SomeD: "sched_view s t = Some x \<Longrightarrow> ss_occupied x \<and> ss_thread x = t \<and> t \<noteq> 0"
  unfolding sched_view_def by (drule sct.view_SomeD) simp

lemma sched_view_zero [simp]: "sched_view s 0 = None" by (simp add: sched_view_def)

lemma sched_find_fields:
  "sched_find s t = Some i \<Longrightarrow> ss_occupied (sched_slots s ! i) \<and> ss_thread (sched_slots s ! i) = t \<and>
     t \<noteq> 0 \<and> i < length (sched_slots s)"
  by (auto simp: sched_find_def dest: sct.find_SomeD)

lemma sched_store_ok:
  assumes "sched_ok s" "sched_find s t = Some i" "ss_occupied x" "ss_thread x = t"
  shows "sched_ok (s\<lparr>sched_slots := (sched_slots s)[i := x]\<rparr>)"
    and "sched_view (s\<lparr>sched_slots := (sched_slots s)[i := x]\<rparr>) = (sched_view s)(t \<mapsto> x)"
  using assms sct.store_ok [of max_threads "sched_slots s" "sched_occupied s" t i x]
  by (simp_all add: sched_ok_def sched_view_def sched_find_def)

text \<open>What each of the simple operations does to the map.\<close>

lemma sched_update_view:
  assumes "sched_ok s"
  shows "sched_ok (snd (sched_update s t r p))"
    and "sched_view (snd (sched_update s t r p)) = (\<lambda>u. if u = t
      then map_option (\<lambda>x. x\<lparr>ss_runnable := r, ss_effective := p\<rparr>) (sched_view s t) else sched_view s u)"
    and "fst (sched_update s t r p) = Inr () \<longleftrightarrow> sched_view s t \<noteq> None"
proof -
  have "sched_ok (snd (sched_update s t r p)) \<and>
    sched_view (snd (sched_update s t r p)) = (\<lambda>u. if u = t
      then map_option (\<lambda>x. x\<lparr>ss_runnable := r, ss_effective := p\<rparr>) (sched_view s t) else sched_view s u) \<and>
    (fst (sched_update s t r p) = Inr () \<longleftrightarrow> sched_view s t \<noteq> None)"
  proof (cases "sched_find s t")
    case None
    then show ?thesis using assms sched_find_None [of s t] by (auto simp: sched_update_def fun_eq_iff)
  next
    case (Some i)
    note f = sched_find_fields [OF Some]
    show ?thesis
      using sched_store_ok [OF assms Some] f sched_find_view [OF Some]
      by (auto simp: sched_update_def Some fun_eq_iff)
  qed
  then show "sched_ok (snd (sched_update s t r p))"
    and "sched_view (snd (sched_update s t r p)) = (\<lambda>u. if u = t
      then map_option (\<lambda>x. x\<lparr>ss_runnable := r, ss_effective := p\<rparr>) (sched_view s t) else sched_view s u)"
    and "fst (sched_update s t r p) = Inr () \<longleftrightarrow> sched_view s t \<noteq> None" by blast+
qed

lemma sched_yield_view:
  assumes "sched_ok s"
  shows "sched_ok (snd (sched_yield_slice s t))"
    and "sched_view (snd (sched_yield_slice s t)) = (\<lambda>u. if u = t
      then map_option (\<lambda>x. x\<lparr>ss_remaining := 0\<rparr>) (sched_view s t) else sched_view s u)"
proof -
  have "sched_ok (snd (sched_yield_slice s t)) \<and>
    sched_view (snd (sched_yield_slice s t)) = (\<lambda>u. if u = t
      then map_option (\<lambda>x. x\<lparr>ss_remaining := 0\<rparr>) (sched_view s t) else sched_view s u)"
  proof (cases "sched_find s t")
    case None
    then show ?thesis using assms sched_find_None [of s t]
      by (auto simp: sched_yield_slice_def fun_eq_iff)
  next
    case (Some i)
    note f = sched_find_fields [OF Some]
    show ?thesis
      using sched_store_ok [OF assms Some] f sched_find_view [OF Some]
      by (auto simp: sched_yield_slice_def Some fun_eq_iff)
  qed
  then show "sched_ok (snd (sched_yield_slice s t))"
    and "sched_view (snd (sched_yield_slice s t)) = (\<lambda>u. if u = t
      then map_option (\<lambda>x. x\<lparr>ss_remaining := 0\<rparr>) (sched_view s t) else sched_view s u)" by blast+
qed

lemma sched_admit_view:
  assumes "sched_ok s"
  shows "sched_ok (snd (sched_admit s t p))"
    and "fst (sched_admit s t p) = Inr () \<Longrightarrow> sched_view s t = None \<and>
      sched_view (snd (sched_admit s t p)) = (sched_view s)(t \<mapsto>
        \<lparr>ss_thread = t, ss_effective = p, ss_runnable = True,
         ss_remaining = default_slice_nanoseconds, ss_sequence = sched_next_sequence s,
         ss_occupied = True\<rparr>)"
    and "fst (sched_admit s t p) \<noteq> Inr () \<Longrightarrow> snd (sched_admit s t p) = s"
proof -
  have sok: "slot_ok ss_occupied ss_thread 0 max_threads (sched_slots s) (sched_occupied s)"
    using assms by (simp add: sched_ok_def)
  show "fst (sched_admit s t p) \<noteq> Inr () \<Longrightarrow> snd (sched_admit s t p) = s"
    by (auto simp: sched_admit_def split: option.splits if_splits)
  have "sched_ok (snd (sched_admit s t p)) \<and>
    (fst (sched_admit s t p) = Inr () \<longrightarrow> sched_view s t = None \<and>
      sched_view (snd (sched_admit s t p)) = (sched_view s)(t \<mapsto>
        \<lparr>ss_thread = t, ss_effective = p, ss_runnable = True,
         ss_remaining = default_slice_nanoseconds, ss_sequence = sched_next_sequence s,
         ss_occupied = True\<rparr>))"
  proof (cases "t = 0 \<or> sched_find s t \<noteq> None \<or>
      first_index (\<lambda>x. \<not> ss_occupied x) (sched_slots s) = None")
    case True
    then show ?thesis using assms by (auto simp: sched_admit_def)
  next
    case False
    then obtain i where i: "first_index (\<lambda>x. \<not> ss_occupied x) (sched_slots s) = Some i" by blast
    let ?x = "\<lparr>ss_thread = t, ss_effective = p, ss_runnable = True,
      ss_remaining = default_slice_nanoseconds, ss_sequence = sched_next_sequence s,
      ss_occupied = True\<rparr>"
    have v: "sched_view s t = None" using False sched_find_None [of s t] by simp
    note ins = sct.insert_ok [OF sok i, of ?x]
    show ?thesis using False i v ins by (simp add: sched_admit_def sched_ok_def sched_view_def)
  qed
  then show "sched_ok (snd (sched_admit s t p))"
    and "fst (sched_admit s t p) = Inr () \<Longrightarrow> sched_view s t = None \<and>
      sched_view (snd (sched_admit s t p)) = (sched_view s)(t \<mapsto>
        \<lparr>ss_thread = t, ss_effective = p, ss_runnable = True,
         ss_remaining = default_slice_nanoseconds, ss_sequence = sched_next_sequence s,
         ss_occupied = True\<rparr>)" by blast+
qed

lemma sched_retire_view:
  assumes "sched_ok s"
  shows "sched_ok (snd (sched_retire s t))"
    and "sched_view (snd (sched_retire s t)) = (sched_view s)(t := None)"
    and "sched_running_thread (snd (sched_retire s t)) =
      (if sched_view s t \<noteq> None \<and> sched_running_thread s = t then 0 else sched_running_thread s)"
proof -
  have sok: "slot_ok ss_occupied ss_thread 0 max_threads (sched_slots s) (sched_occupied s)"
    using assms by (simp add: sched_ok_def)
  have "sched_ok (snd (sched_retire s t)) \<and>
    sched_view (snd (sched_retire s t)) = (sched_view s)(t := None) \<and>
    sched_running_thread (snd (sched_retire s t)) =
      (if sched_view s t \<noteq> None \<and> sched_running_thread s = t then 0 else sched_running_thread s)"
  proof (cases "sched_find s t")
    case None
    then show ?thesis using assms sched_find_None [of s t]
      by (auto simp: sched_retire_def fun_upd_idem)
  next
    case (Some i)
    note f = sched_find_fields [OF Some] sched_find_view [OF Some]
    note rm = sct.remove_ok [OF sok Some [unfolded sched_find_def], of sched_blank]
    show ?thesis
      using f rm Some by (simp add: sched_retire_def sched_ok_def sched_view_def sched_blank_def)
  qed
  then show "sched_ok (snd (sched_retire s t))"
    and "sched_view (snd (sched_retire s t)) = (sched_view s)(t := None)"
    and "sched_running_thread (snd (sched_retire s t)) =
      (if sched_view s t \<noteq> None \<and> sched_running_thread s = t then 0 else sched_running_thread s)"
    by blast+
qed

section \<open>What a decision does\<close>

text \<open>Charging, as a function of one slot.\<close>

definition sched_charged :: "Scheduler \<Rightarrow> u64 \<Rightarrow> SchedSlot \<Rightarrow> SchedSlot" where
  "sched_charged s now x =
     (if sched_have_decided s \<and> sched_running_thread s = ss_thread x
      then let elapsed = (if now \<ge> sched_last_decision s then now - sched_last_decision s else 0)
           in x\<lparr>ss_remaining := (if elapsed \<ge> ss_remaining x then 0 else ss_remaining x - elapsed)\<rparr>
      else x)"

lemma sched_charged_fields [simp]:
  "ss_thread (sched_charged s now x) = ss_thread x" "ss_occupied (sched_charged s now x) = ss_occupied x"
  "ss_runnable (sched_charged s now x) = ss_runnable x" "ss_sequence (sched_charged s now x) = ss_sequence x"
  "ss_effective (sched_charged s now x) = ss_effective x"
  by (simp_all add: sched_charged_def Let_def)

lemma sched_charge_ok:
  assumes "sched_ok s"
  shows "sched_ok (sched_charge s now)"
    and "sched_view (sched_charge s now) t = map_option (sched_charged s now) (sched_view s t)"
    and "sched_next_sequence (sched_charge s now) = sched_next_sequence s"
    and "sched_running_thread (sched_charge s now) = sched_running_thread s"
proof -
  have id: "sched_charged s now x = x" if "sched_view s t = Some x"
    "\<not> (sched_have_decided s \<and> sched_running_thread s \<noteq> 0 \<and> sched_running_thread s = t)" for x
    using that sched_view_SomeD [OF that(1)] by (auto simp: sched_charged_def)
  have "sched_ok (sched_charge s now) \<and>
    sched_view (sched_charge s now) t = map_option (sched_charged s now) (sched_view s t) \<and>
    sched_next_sequence (sched_charge s now) = sched_next_sequence s \<and>
    sched_running_thread (sched_charge s now) = sched_running_thread s"
  proof (cases "sched_have_decided s \<and> sched_running_thread s \<noteq> 0 \<and>
      sched_find s (sched_running_thread s) \<noteq> None")
    case False
    then have eq: "sched_charge s now = s" by (auto simp: sched_charge_def)
    have "map_option (sched_charged s now) (sched_view s t) = sched_view s t"
    proof (cases "sched_view s t")
      case (Some x)
      with sched_find_None [of s t] have "sched_find s t \<noteq> None" by simp
      with False have "\<not> (sched_have_decided s \<and> sched_running_thread s \<noteq> 0 \<and>
          sched_running_thread s = t)" by auto
      with id [OF Some] Some show ?thesis by simp
    qed simp
    with assms eq show ?thesis by simp
  next
    case True
    then obtain i where i: "sched_find s (sched_running_thread s) = Some i" by blast
    note f = sched_find_fields [OF i] sched_find_view [OF i]
    let ?x = "sched_charged s now (sched_slots s ! i)"
    have eq: "sched_charge s now = s\<lparr>sched_slots := (sched_slots s)[i := ?x]\<rparr>"
      using True i f(1) by (simp add: sched_charge_def sched_charged_def Let_def)
    have x: "ss_occupied ?x" "ss_thread ?x = sched_running_thread s"
      using f(1) by (simp_all add: sched_charged_def Let_def)
    note st = sched_store_ok [OF assms i x]
    show ?thesis
    proof (cases "t = sched_running_thread s")
      case False
      then have "map_option (sched_charged s now) (sched_view s t) = sched_view s t"
        using id by (cases "sched_view s t") auto
      with st False show ?thesis by (simp add: eq)
    qed (use st f(2) in \<open>simp add: eq\<close>)
  qed
  then show "sched_ok (sched_charge s now)"
    and "sched_view (sched_charge s now) t = map_option (sched_charged s now) (sched_view s t)"
    and "sched_next_sequence (sched_charge s now) = sched_next_sequence s"
    and "sched_running_thread (sched_charge s now) = sched_running_thread s" by blast+
qed

text \<open>Refilling, slot by slot: a spent slot gets a full slice and one of the next positions.\<close>

definition sched_refilled :: "nat \<Rightarrow> u64 \<Rightarrow> SchedSlot \<Rightarrow> SchedSlot \<Rightarrow> bool" where
  "sched_refilled c n x y \<longleftrightarrow>
     (if ss_occupied x \<and> ss_remaining x = 0
      then \<exists>k < c. y = x\<lparr>ss_remaining := default_slice_nanoseconds, ss_sequence := n + of_nat k\<rparr>
      else y = x)"

lemma sched_refilled_shift:
  assumes "sched_refilled c (n + 1) x y"
  shows "sched_refilled (Suc c) n x y"
proof (cases "ss_occupied x \<and> ss_remaining x = 0")
  case True
  then obtain k where k: "k < c"
    "y = x\<lparr>ss_remaining := default_slice_nanoseconds, ss_sequence := n + 1 + of_nat k\<rparr>"
    using assms by (auto simp: sched_refilled_def)
  then have "Suc k < Suc c \<and>
      y = x\<lparr>ss_remaining := default_slice_nanoseconds, ss_sequence := n + of_nat (Suc k)\<rparr>"
    by (simp add: add.assoc)
  with True show ?thesis unfolding sched_refilled_def by (simp only: simp_thms if_True) blast
qed (use assms in \<open>auto simp: sched_refilled_def\<close>)

lemma sched_refill_all2:
  "sched_refill xs n = (ys, m) \<Longrightarrow>
   (\<exists>c \<le> length xs. m = n + of_nat c \<and> list_all2 (sched_refilled c n) xs ys)"
proof (induction xs arbitrary: n ys m)
  case (Cons x xs)
  show ?case
  proof (cases "ss_occupied x \<and> ss_remaining x = 0")
    case False
    then obtain zs where z: "sched_refill xs n = (zs, m)" "ys = x # zs"
      using Cons.prems by (auto split: prod.splits if_splits)
    from Cons.IH [OF z(1)] obtain c where "c \<le> length xs" "m = n + of_nat c"
      "list_all2 (sched_refilled c n) xs zs" by blast
    moreover have "sched_refilled c n x x" using False by (auto simp: sched_refilled_def)
    ultimately show ?thesis using z(2) by (intro exI [of _ c]) simp
  next
    case True
    then obtain zs where z: "sched_refill xs (n + 1) = (zs, m)"
      "ys = x\<lparr>ss_remaining := default_slice_nanoseconds, ss_sequence := n\<rparr> # zs"
      using Cons.prems by (auto split: prod.splits if_splits)
    from Cons.IH [OF z(1)] obtain c where c: "c \<le> length xs" "m = n + 1 + of_nat c"
      "list_all2 (sched_refilled c (n + 1)) xs zs" by blast
    have "list_all2 (sched_refilled (Suc c) n) xs zs"
      using c(3) by (rule list_all2_mono) (rule sched_refilled_shift)
    moreover have "sched_refilled (Suc c) n x
        (x\<lparr>ss_remaining := default_slice_nanoseconds, ss_sequence := n\<rparr>)"
      using True by (auto simp: sched_refilled_def intro!: exI [of _ 0])
    ultimately show ?thesis using c z(2) by (intro exI [of _ "Suc c"]) simp
  qed
qed simp

lemma sched_refilled_keys:
  "sched_refilled c n x y \<Longrightarrow> ss_occupied x = ss_occupied y \<and> (ss_occupied x \<longrightarrow> ss_thread x = ss_thread y)"
  by (auto simp: sched_refilled_def split: if_splits)

text \<open>The slot of every thread after a decision, in terms of its slot before.\<close>

definition sched_after :: "Scheduler \<Rightarrow> u64 \<Rightarrow> nat \<Rightarrow> Scheduler \<Rightarrow> bool" where
  "sched_after s now c s' \<longleftrightarrow> c \<le> max_threads \<and>
     sched_next_sequence s' = sched_next_sequence s + of_nat c \<and>
     (\<forall>t. case sched_view s t of
        None \<Rightarrow> sched_view s' t = None
      | Some x \<Rightarrow> \<exists>y. sched_view s' t = Some y \<and>
          sched_refilled c (sched_next_sequence s) (sched_charged s now x) y)"

lemma sched_after_Some:
  "sched_after s now c s' \<Longrightarrow> sched_view s t = Some x \<Longrightarrow>
   \<exists>y. sched_view s' t = Some y \<and> sched_refilled c (sched_next_sequence s) (sched_charged s now x) y"
  unfolding sched_after_def by (auto dest!: spec [of _ t])

lemma sched_after_None: "sched_after s now c s' \<Longrightarrow> sched_view s t = None \<Longrightarrow> sched_view s' t = None"
  unfolding sched_after_def by (auto dest!: spec [of _ t])

lemma sched_choose_after:
  assumes "sched_ok s"
  shows "sched_ok (snd (sched_choose s now)) \<and> (\<exists>c. sched_after s now c (snd (sched_choose s now)))"
proof -
  let ?s1 = "sched_charge s now"
  obtain ys m where r: "sched_refill (sched_slots ?s1) (sched_next_sequence s) = (ys, m)" by fastforce
  have ok1: "sched_ok ?s1" and nx: "sched_next_sequence ?s1 = sched_next_sequence s"
    using sched_charge_ok [OF assms] by simp_all
  from sched_refill_all2 [OF r] obtain c where c: "c \<le> length (sched_slots ?s1)"
    "m = sched_next_sequence s + of_nat c"
    "list_all2 (sched_refilled c (sched_next_sequence s)) (sched_slots ?s1) ys" by blast
  have keys: "list_all2 (\<lambda>x y. ss_occupied x = ss_occupied y \<and> (ss_occupied x \<longrightarrow> ss_thread x = ss_thread y))
      (sched_slots ?s1) ys"
    using c(3) by (rule list_all2_mono) (rule sched_refilled_keys)
  let ?s' = "snd (sched_choose s now)"
  have s': "sched_slots ?s' = ys" "sched_next_sequence ?s' = m" "sched_occupied ?s' = sched_occupied ?s1"
    using r nx by (simp_all add: sched_choose_def Let_def)
  have ok': "sched_ok ?s'"
    using sct.all2_ok [OF ok1 [unfolded sched_ok_def] keys] s' by (simp add: sched_ok_def)
  have refl: "case sched_view ?s1 t of None \<Rightarrow> sched_view ?s' t = None
      | Some x \<Rightarrow> \<exists>y. sched_view ?s' t = Some y \<and> sched_refilled c (sched_next_sequence s) x y" for t
  proof (cases "sched_find ?s1 t")
    case None
    then have "sched_find ?s' t = None" using sct.all2_find [OF keys] s' by (simp add: sched_find_def)
    with None show ?thesis by (simp add: sched_find_None)
  next
    case (Some i)
    then have "sched_find ?s' t = Some i" using sct.all2_find [OF keys] s' by (simp add: sched_find_def)
    with Some sched_find_fields [OF Some] c(3) s' show ?thesis
      by (simp add: sched_find_view list_all2_nthD)
  qed
  then have "case sched_view s t of None \<Rightarrow> sched_view ?s' t = None
      | Some x \<Rightarrow> \<exists>y. sched_view ?s' t = Some y \<and>
          sched_refilled c (sched_next_sequence s) (sched_charged s now x) y" for t
    using refl [of t] unfolding sched_charge_ok(2) [OF assms] by (cases "sched_view s t") auto
  moreover have "c \<le> max_threads" using c(1) ok1 by (simp add: sched_ok_def slot_ok_def)
  ultimately have "sched_after s now c ?s'" unfolding sched_after_def using c(2) s'(2) by simp
  with ok' show ?thesis by blast
qed

text \<open>The selection loop finds the best of what it has seen.\<close>

definition sched_beats :: "SchedSlot \<Rightarrow> SchedSlot \<Rightarrow> bool" where
  "sched_beats c x \<longleftrightarrow> ss_effective x < ss_effective c \<or>
     ss_effective x = ss_effective c \<and> ss_sequence c \<le> ss_sequence x"

lemma sched_beats_trans: "sched_beats a b \<Longrightarrow> sched_beats b c \<Longrightarrow> sched_beats a c"
  by (auto simp: sched_beats_def)

lemma sched_beats_refl: "sched_beats a a"
  by (simp add: sched_beats_def)

abbreviation sched_ready :: "SchedSlot list \<Rightarrow> SchedSlot set" where
  "sched_ready xs \<equiv> {x \<in> set xs. ss_occupied x \<and> ss_runnable x}"

lemma sched_pick_best:
  "(case sched_pick xs acc of
      None \<Rightarrow> acc = None \<and> sched_ready xs = {}
    | Some c \<Rightarrow> (acc = Some c \<or> c \<in> sched_ready xs) \<and>
        (\<forall>x \<in> sched_ready xs. sched_beats c x) \<and> (\<forall>a. acc = Some a \<longrightarrow> sched_beats c a))"
proof (induction xs arbitrary: acc)
  case Nil
  then show ?case by (auto simp: sched_beats_refl split: option.split)
next
  case (Cons x xs)
  show ?case
  proof (cases "ss_occupied x \<and> ss_runnable x")
    case False
    then have "sched_ready (x # xs) = sched_ready xs" by auto
    moreover have "sched_pick (x # xs) acc = sched_pick xs acc" using False by auto
    ultimately show ?thesis using Cons.IH [of acc] by (simp only:)
  next
    case True
    define acc' where "acc' = (case acc of None \<Rightarrow> Some x | Some c \<Rightarrow>
        if sched_beats c x then Some c else Some x)"
    have step: "sched_pick (x # xs) acc = sched_pick xs acc'"
      using True by (auto simp: acc'_def sched_beats_def split: option.split)
    have ready: "sched_ready (x # xs) = insert x (sched_ready xs)" using True by auto
    obtain a' where a': "acc' = Some a'" "sched_beats a' x" "acc = Some a' \<or> a' = x"
      "\<And>a. acc = Some a \<Longrightarrow> sched_beats a' a"
    proof (cases acc)
      case None
      then show ?thesis using that [of x] by (simp add: acc'_def sched_beats_refl)
    next
      case (Some a)
      have "sched_beats a x \<or> sched_beats x a" by (auto simp: sched_beats_def)
      then show ?thesis
        using that [of "if sched_beats a x then a else x"] Some
        by (auto simp: acc'_def sched_beats_refl)
    qed
    show ?thesis
    proof (cases "sched_pick xs acc'")
      case None
      with Cons.IH [of acc'] a'(1) show ?thesis by simp
    next
      case (Some c)
      with Cons.IH [of acc'] a'(1) have c: "c = a' \<or> c \<in> sched_ready xs"
        "\<forall>x \<in> sched_ready xs. sched_beats c x" "sched_beats c a'" by auto
      have "acc = Some c \<or> c \<in> insert x (sched_ready xs)" using c(1) a'(3) by blast
      moreover have "\<forall>y \<in> insert x (sched_ready xs). sched_beats c y"
        using c(2) sched_beats_trans [OF c(3) a'(2)] by blast
      moreover have "\<forall>a. acc = Some a \<longrightarrow> sched_beats c a"
        using sched_beats_trans [OF c(3) a'(4)] by blast
      ultimately show ?thesis unfolding step ready Some by simp
    qed
  qed
qed

lemma sched_choose_fields:
  fixes now :: u64
  assumes "sched_ok s"
  defines "d \<equiv> fst (sched_choose s now)" and "s' \<equiv> snd (sched_choose s now)"
  shows "dec_thread d = (case sched_pick (sched_slots s') None of None \<Rightarrow> 0 | Some c \<Rightarrow> ss_thread c)"
    and "dec_timer d = (case sched_pick (sched_slots s') None of None \<Rightarrow> 0
      | Some c \<Rightarrow> if sched_contended (sched_slots s') c then ss_remaining c else 0)"
    and "dec_preempted d \<longleftrightarrow> sched_running_thread s \<noteq> 0 \<and> sched_running_thread s \<noteq> dec_thread d \<and>
      (\<exists>x. sched_view s' (sched_running_thread s) = Some x \<and> ss_runnable x)"
    and "sched_running_thread s' = dec_thread d"
    and "sched_last_decision s' = now" and "sched_have_decided s'"
proof -
  obtain ys m where r: "sched_refill (sched_slots (sched_charge s now))
      (sched_next_sequence (sched_charge s now)) = (ys, m)" by fastforce
  have s': "sched_slots s' = ys" using r by (simp add: s'_def sched_choose_def Let_def)
  show "dec_thread d = (case sched_pick (sched_slots s') None of None \<Rightarrow> 0 | Some c \<Rightarrow> ss_thread c)"
    and "dec_timer d = (case sched_pick (sched_slots s') None of None \<Rightarrow> 0
      | Some c \<Rightarrow> if sched_contended (sched_slots s') c then ss_remaining c else 0)"
    and "sched_running_thread s' = dec_thread d" "sched_last_decision s' = now" "sched_have_decided s'"
    using r unfolding s' by (simp_all add: s'_def d_def sched_choose_def Let_def)
  have pre: "dec_preempted d \<longleftrightarrow> sched_running_thread s \<noteq> 0 \<and> sched_running_thread s \<noteq> dec_thread d \<and>
      (case sched_find s' (sched_running_thread s) of None \<Rightarrow> False
       | Some i \<Rightarrow> ss_runnable (sched_slots s' ! i))"
    using r sched_charge_ok(4) [OF assms(1)]
    by (auto simp: s'_def d_def sched_choose_def Let_def sched_find_def split: option.splits)
  show "dec_preempted d \<longleftrightarrow> sched_running_thread s \<noteq> 0 \<and> sched_running_thread s \<noteq> dec_thread d \<and>
      (\<exists>x. sched_view s' (sched_running_thread s) = Some x \<and> ss_runnable x)"
  proof (cases "sched_find s' (sched_running_thread s)")
    case None
    with pre sched_find_None [of s' "sched_running_thread s"] show ?thesis by simp
  next
    case (Some i)
    with pre sched_find_view [OF Some] show ?thesis by simp
  qed
qed

section \<open>Runs of the scheduler\<close>

inductive sched_method :: "Scheduler \<Rightarrow> Scheduler \<Rightarrow> bool" where
  admit: "sched_method s (snd (sched_admit s t p))"
| retire: "sched_method s (snd (sched_retire s t))"
| update: "sched_method s (snd (sched_update s t r p))"
| yield_slice: "sched_method s (snd (sched_yield_slice s t))"
| choose: "sched_method s (snd (sched_choose s now))"

lemma sched_method_ok: "sched_method s s' \<Longrightarrow> sched_ok s \<Longrightarrow> sched_ok s'"
  by (induction rule: sched_method.induct)
     (simp_all add: sched_admit_view sched_retire_view sched_update_view sched_yield_view
        sched_choose_after)

lemma sched_run_ok: "sched_method\<^sup>*\<^sup>* sched_empty s \<Longrightarrow> sched_ok s"
  by (induction rule: rtranclp_induct) (auto intro: sched_method_ok sched_ok_empty)

text \<open>Round-robin positions stay below the counter while the counter has room.\<close>

definition sched_fresh :: "Scheduler \<Rightarrow> bool" where
  "sched_fresh s \<longleftrightarrow> (\<forall>t x. sched_view s t = Some x \<longrightarrow> ss_sequence x < sched_next_sequence s)"

lemma word_add_of_nat_bound:
  "unat (n :: u64) + k < 2 ^ 64 \<Longrightarrow> unat (n + of_nat k) = unat n + k"
  by (simp add: unat_word_ariths unat_of_nat take_bit_nat_eq_self)

lemma sched_after_fresh:
  assumes "sched_after s now c s'" "sched_fresh s" "unat (sched_next_sequence s) + 64 < 2 ^ 64"
  shows "sched_fresh s' \<and> unat (sched_next_sequence s') \<le> unat (sched_next_sequence s) + 64"
proof -
  let ?n = "sched_next_sequence s"
  have c: "c \<le> 64" and n': "sched_next_sequence s' = ?n + of_nat c"
    using assms(1) by (simp_all add: sched_after_def)
  have un: "unat (?n + of_nat k) = unat ?n + k" if "k \<le> 64" for k
    using that assms(3) by (intro word_add_of_nat_bound) simp
  have "ss_sequence y < sched_next_sequence s'" if y: "sched_view s' t = Some y" for t y
  proof (cases "sched_view s t")
    case None
    with sched_after_None [OF assms(1)] y show ?thesis by simp
  next
    case (Some x)
    with sched_after_Some [OF assms(1)] y have r: "sched_refilled c ?n (sched_charged s now x) y"
      by fastforce
    have x: "ss_sequence (sched_charged s now x) = ss_sequence x"
      by (simp add: sched_charged_def Let_def)
    have "unat (ss_sequence x) < unat ?n"
      using assms(2) Some by (auto simp: sched_fresh_def word_less_nat_alt)
    then have "unat (ss_sequence y) < unat ?n + c \<or> unat (ss_sequence y) < unat ?n"
      using r x c un by (auto simp: sched_refilled_def split: if_splits)
    then show ?thesis using un [OF c] n' by (auto simp: word_less_nat_alt)
  qed
  then show ?thesis using un [OF c] n' c by (simp add: sched_fresh_def)
qed

lemma sched_method_fresh:
  assumes "sched_method s s'" "sched_ok s" "sched_fresh s" "unat (sched_next_sequence s) + 64 < 2 ^ 64"
  shows "sched_fresh s' \<and> unat (sched_next_sequence s') \<le> unat (sched_next_sequence s) + 64"
  using assms
proof (induction rule: sched_method.induct)
  case (admit s t p)
  show ?case
  proof (cases "fst (sched_admit s t p) = Inr ()")
    case False
    with sched_admit_view(3) [OF admit(1)] admit show ?thesis by simp
  next
    case True
    then have n: "sched_next_sequence (snd (sched_admit s t p)) = sched_next_sequence s + 1"
      by (auto simp: sched_admit_def split: option.splits if_splits)
    have "unat (sched_next_sequence s + 1) = unat (sched_next_sequence s) + 1"
      using admit(3) word_add_of_nat_bound [of "sched_next_sequence s" 1] by simp
    then show ?thesis
      using sched_admit_view(2) [OF admit(1) True] admit(2)
      by (auto simp: n sched_fresh_def word_less_nat_alt less_Suc_eq)
  qed
next
  case (retire s t)
  have "sched_next_sequence (snd (sched_retire s t)) = sched_next_sequence s"
    by (simp add: sched_retire_def split: option.split)
  then show ?case using sched_retire_view(2) [OF retire(1)] retire(2) by (auto simp: sched_fresh_def)
next
  case (update s t r p)
  have "sched_next_sequence (snd (sched_update s t r p)) = sched_next_sequence s"
    by (simp add: sched_update_def split: option.split)
  then show ?case using sched_update_view(2) [OF update(1)] update(2)
    by (auto simp: sched_fresh_def split: if_splits)
next
  case (yield_slice s t)
  have "sched_next_sequence (snd (sched_yield_slice s t)) = sched_next_sequence s"
    by (simp add: sched_yield_slice_def split: option.split)
  then show ?case using sched_yield_view(2) [OF yield_slice(1)] yield_slice(2)
    by (auto simp: sched_fresh_def split: if_splits)
next
  case (choose s now)
  with sched_choose_after [OF choose(1)] sched_after_fresh show ?case by blast
qed

lemma sched_run_fresh:
  "(sched_method ^^ n) sched_empty s \<Longrightarrow> n < 2 ^ 57 \<Longrightarrow>
   sched_ok s \<and> sched_fresh s \<and> unat (sched_next_sequence s) \<le> 1 + 64 * n"
proof (induction n arbitrary: s)
  case 0
  have "sched_fresh sched_empty" "unat (sched_next_sequence sched_empty) = 1"
    by (simp_all add: sched_fresh_def sched_empty_def sched_view_def sct.view_blank)
  with 0 show ?case by (simp add: sched_ok_empty)
next
  case (Suc n)
  from Suc.prems(1) obtain r where r: "(sched_method ^^ n) sched_empty r" "sched_method r s" by auto
  with Suc have ih: "sched_ok r" "sched_fresh r" "unat (sched_next_sequence r) \<le> 1 + 64 * n" by auto
  then have "unat (sched_next_sequence r) + 64 < 2 ^ 64" using Suc.prems(2) by simp
  from sched_method_fresh [OF r(2) ih(1,2) this] sched_method_ok [OF r(2) ih(1)] ih(3)
  show ?case by simp
qed

section \<open>Properties\<close>

lemma sched_choose_decision:
  assumes ok: "sched_ok s" and choose: "sched_choose s now = (d, s')"
  shows "(dec_thread d = invalid_thread \<longleftrightarrow> (\<forall>t x. sched_view s' t = Some x \<longrightarrow> \<not> ss_runnable x)) \<and>
    (dec_thread d \<noteq> invalid_thread \<longrightarrow> (\<exists>c. sched_view s' (dec_thread d) = Some c \<and> ss_runnable c \<and>
       (\<forall>t x. sched_view s' t = Some x \<longrightarrow> ss_runnable x \<longrightarrow>
          ss_effective x < ss_effective c \<or>
          ss_effective x = ss_effective c \<and> ss_sequence c \<le> ss_sequence x) \<and>
       dec_timer d = (if \<exists>t x. t \<noteq> dec_thread d \<and> sched_view s' t = Some x \<and> ss_runnable x \<and>
                            ss_effective x = ss_effective c then ss_remaining c else 0))) \<and>
    (dec_preempted d \<longleftrightarrow> sched_running s \<noteq> invalid_thread \<and> sched_running s \<noteq> dec_thread d \<and>
       (\<exists>x. sched_view s' (sched_running s) = Some x \<and> ss_runnable x)) \<and>
    sched_running s' = dec_thread d"
proof -
  have ok': "sched_ok s'" using sched_choose_after [OF ok, of now] assms(2) by simp
  note f = sched_choose_fields [OF ok, of now, unfolded assms(2) fst_conv snd_conv]
  have ready: "x \<in> sched_ready (sched_slots s') \<longleftrightarrow> (\<exists>t. sched_view s' t = Some x \<and> ss_runnable x)" for x
    using ok' by (auto simp: sched_view_iff)
  have pos: "dec_preempted d \<longleftrightarrow> sched_running s \<noteq> invalid_thread \<and> sched_running s \<noteq> dec_thread d \<and>
       (\<exists>x. sched_view s' (sched_running s) = Some x \<and> ss_runnable x)"
    "sched_running s' = dec_thread d"
    using f(3,4) by (simp_all add: sched_running_def)
  note best = sched_pick_best [where xs = "sched_slots s'" and acc = None]
  show ?thesis
  proof (cases "sched_pick (sched_slots s') None")
    case None
    then have "sched_ready (sched_slots s') = {}" using best by simp
    then have "\<forall>t x. sched_view s' t = Some x \<longrightarrow> \<not> ss_runnable x" using ready by blast
    with None f(1) pos show ?thesis by simp
  next
    case (Some c)
    then have c: "c \<in> sched_ready (sched_slots s')" "\<forall>x \<in> sched_ready (sched_slots s'). sched_beats c x"
      using best by auto
    then obtain t where t: "sched_view s' t = Some c" "ss_runnable c" using ready by blast
    have th: "ss_thread c = t" "t \<noteq> 0" using sched_view_SomeD [OF t(1)] by simp_all
    have d: "dec_thread d = t" using f(1) Some th by simp
    have con: "sched_contended (sched_slots s') c \<longleftrightarrow>
        (\<exists>u x. u \<noteq> t \<and> sched_view s' u = Some x \<and> ss_runnable x \<and> ss_effective x = ss_effective c)"
      using ok' th by (auto simp: sched_contended_def list_ex_iff sched_view_iff)
    have "\<forall>u x. sched_view s' u = Some x \<longrightarrow> ss_runnable x \<longrightarrow> ss_effective x < ss_effective c \<or>
        ss_effective x = ss_effective c \<and> ss_sequence c \<le> ss_sequence x"
      using c(2) ready unfolding sched_beats_def by blast
    with t th d con f(2) Some pos show ?thesis by auto
  qed
qed

text \<open>A scheduling decision is right.  In every reachable state \<open>choose\<close> names no thread exactly
  when no admitted thread is runnable; otherwise it names a runnable thread such that every other
  runnable thread is less urgent, or as urgent and not earlier in the round-robin order.  It asks
  for a timer only when another runnable thread is exactly as urgent, for what is left of the chosen
  slice; and it reports a preemption exactly when the thread that was running is still runnable
  and is not the one chosen.\<close>

theorem sched_choose_correct:
  assumes "sched_method\<^sup>*\<^sup>* sched_empty s" "sched_choose s now = (d, s')"
  shows "(dec_thread d = invalid_thread \<longleftrightarrow> (\<forall>t x. sched_view s' t = Some x \<longrightarrow> \<not> ss_runnable x)) \<and>
    (dec_thread d \<noteq> invalid_thread \<longrightarrow> (\<exists>c. sched_view s' (dec_thread d) = Some c \<and> ss_runnable c \<and>
       (\<forall>t x. sched_view s' t = Some x \<longrightarrow> ss_runnable x \<longrightarrow>
          ss_effective x < ss_effective c \<or>
          ss_effective x = ss_effective c \<and> ss_sequence c \<le> ss_sequence x) \<and>
       dec_timer d = (if \<exists>t x. t \<noteq> dec_thread d \<and> sched_view s' t = Some x \<and> ss_runnable x \<and>
                            ss_effective x = ss_effective c then ss_remaining c else 0))) \<and>
    (dec_preempted d \<longleftrightarrow> sched_running s \<noteq> invalid_thread \<and> sched_running s \<noteq> dec_thread d \<and>
       (\<exists>x. sched_view s' (sched_running s) = Some x \<and> ss_runnable x)) \<and>
    sched_running s' = dec_thread d"
  using sched_run_ok [OF assms(1)] assms(2) by (rule sched_choose_decision)

text \<open>A thread that has used up or given up its slice goes behind its peers.  In any state reached
  by fewer than 2^57 operations (the round-robin counter has not wrapped), if the running thread's
  slice is exhausted by the time it ran, or any thread has yielded, then \<open>choose\<close> does not pick that
  thread while an equally urgent runnable thread with slice left exists.\<close>

theorem sched_exhausted_goes_behind:
  assumes "(sched_method ^^ n) sched_empty s" "n < 2 ^ 57"
    and "sched_view s t = Some x" "ss_remaining (sched_charged s now x) = 0"
    and "sched_view s u = Some y" "ss_runnable y" "ss_effective y = ss_effective x"
    and "ss_remaining (sched_charged s now y) \<noteq> 0"
  shows "dec_thread (fst (sched_choose s now)) \<noteq> t"
proof
  assume ch: "dec_thread (fst (sched_choose s now)) = t"
  let ?s' = "snd (sched_choose s now)"
  from sched_run_fresh [OF assms(1,2)] have ok: "sched_ok s" and fr: "sched_fresh s"
    and room: "unat (sched_next_sequence s) + 64 < 2 ^ 64" using assms(2) by auto
  obtain c where c: "sched_after s now c ?s'" using sched_choose_after [OF ok] by blast
  have occ: "ss_occupied (sched_charged s now x)"
    using sched_view_SomeD [OF assms(3)] by (simp add: sched_charged_def Let_def)
  obtain x' k where x': "sched_view ?s' t = Some x'" "k < c"
    "ss_sequence x' = sched_next_sequence s + of_nat k" "ss_effective x' = ss_effective x"
    using sched_after_Some [OF c assms(3)] assms(4) occ by (auto simp: sched_refilled_def)
  have y': "sched_view ?s' u = Some (sched_charged s now y)"
    using sched_after_Some [OF c assms(5)] assms(8) by (auto simp: sched_refilled_def)
  have "c \<le> 64" using c by (simp add: sched_after_def)
  then have "unat (ss_sequence x') = unat (sched_next_sequence s) + k"
    unfolding x'(3) using x'(2) room by (intro word_add_of_nat_bound) simp
  moreover have "unat (ss_sequence y) < unat (sched_next_sequence s)"
    using fr assms(5) by (auto simp: sched_fresh_def word_less_nat_alt)
  ultimately have lt: "ss_sequence y < ss_sequence x'" by (simp add: word_less_nat_alt)
  have t: "t \<noteq> 0" using sched_view_SomeD [OF assms(3)] by simp
  have ch': "sched_choose s now = (fst (sched_choose s now), ?s')" by simp
  from sched_choose_decision [OF ok ch'] ch t x'(1) have
    "\<forall>u z. sched_view ?s' u = Some z \<longrightarrow> ss_runnable z \<longrightarrow> ss_effective z < ss_effective x' \<or>
       ss_effective z = ss_effective x' \<and> ss_sequence x' \<le> ss_sequence z"
    by simp
  with y' assms(6,7) x'(4) lt show False by fastforce
qed

text \<open>Time is charged and never refunded.  Whatever operation runs from a reachable state, a thread
  that stays admitted never gains slice and keeps its place in the round-robin order, except that a
  scheduling decision that finds its slice spent gives it a full slice and a place behind everyone.\<close>

theorem sched_time_never_refunded:
  assumes "sched_method\<^sup>*\<^sup>* sched_empty s" "sched_method s s'"
    and "sched_view s t = Some x" "sched_view s' t = Some y"
  shows "ss_remaining y \<le> ss_remaining x \<and> ss_sequence y = ss_sequence x \<or>
    (\<exists>now. s' = snd (sched_choose s now) \<and> ss_remaining (sched_charged s now x) = 0 \<and>
       ss_remaining y = default_slice_nanoseconds \<and>
       (\<exists>k < max_threads. ss_sequence y = sched_next_sequence s + of_nat k))"
  using assms(2)
proof cases
  case (admit u p)
  show ?thesis
  proof (cases "fst (sched_admit s u p) = Inr ()")
    case True
    from sched_admit_view(2) [OF sched_run_ok [OF assms(1)] True] assms(3,4) admit
    show ?thesis by (auto split: if_splits)
  next
    case False
    from sched_admit_view(3) [OF sched_run_ok [OF assms(1)] False] assms(3,4) admit show ?thesis by simp
  qed
next
  case (retire u)
  with sched_retire_view(2) [OF sched_run_ok [OF assms(1)], of u] assms(3,4) show ?thesis
    by (auto split: if_splits)
next
  case (update u r p)
  with sched_update_view(2) [OF sched_run_ok [OF assms(1)], of u r p] assms(3,4) show ?thesis
    by (auto split: if_splits)
next
  case (yield_slice u)
  with sched_yield_view(2) [OF sched_run_ok [OF assms(1)], of u] assms(3,4) show ?thesis
    by (auto split: if_splits)
next
  case (choose now)
  obtain c where c: "sched_after s now c s'"
    using sched_choose_after [OF sched_run_ok [OF assms(1)]] choose by blast
  have r: "sched_refilled c (sched_next_sequence s) (sched_charged s now x) y"
    using sched_after_Some [OF c assms(3)] assms(4) by simp
  have le: "ss_remaining (sched_charged s now x) \<le> ss_remaining x"
    by (auto simp: sched_charged_def Let_def not_le intro: word_sub_le dest: less_imp_le)
  have c64: "c \<le> max_threads" using c by (simp add: sched_after_def)
  show ?thesis
  proof (cases "ss_occupied x \<and> ss_remaining (sched_charged s now x) = 0")
    case True
    with r obtain k where k: "k < c" "y = (sched_charged s now x)
        \<lparr>ss_remaining := default_slice_nanoseconds, ss_sequence := sched_next_sequence s + of_nat k\<rparr>"
      by (auto simp: sched_refilled_def)
    have "k < max_threads" "ss_remaining y = default_slice_nanoseconds"
      "ss_sequence y = sched_next_sequence s + of_nat k" using k c64 by simp_all
    with choose True show ?thesis by blast
  next
    case False
    with r have "y = sched_charged s now x" by (simp add: sched_refilled_def)
    with le show ?thesis by simp
  qed
qed

subsection \<open>Deadlines\<close>

inductive sdl_method :: "SchedulerDeadlineAuthority \<Rightarrow> SchedulerDeadlineAuthority \<Rightarrow> bool" where
  commit: "sdl_method a (snd (sdl_commit a p))"
| applied: "sdl_method a (snd (sdl_apply a d now))"

definition sdl_ok :: "SchedulerDeadlineAuthority \<Rightarrow> bool" where
  "sdl_ok a \<longleftrightarrow> sdl_generation a \<noteq> 0 \<and>
     (dl_active (sdl_current a) \<longrightarrow> dl_generation (sdl_current a) = sdl_generation a)"

lemma sdl_next_generation_facts:
  "sdl_next_generation g \<noteq> 0" "g \<noteq> 0 \<Longrightarrow> sdl_next_generation g \<noteq> g"
  by (auto simp: sdl_next_generation_def eq_neg_iff_add_eq_0)

lemma sdl_commit_ok: "sdl_ok a \<Longrightarrow> sdl_ok (snd (sdl_commit a p))"
  by (auto simp: sdl_ok_def sdl_commit_def prepared_valid_def)

lemma sdl_run_ok: "sdl_method\<^sup>*\<^sup>* sdl_empty a \<Longrightarrow> sdl_ok a"
proof (induction rule: rtranclp_induct)
  case base
  then show ?case by (simp add: sdl_ok_def sdl_empty_def no_deadline_def)
next
  case (step a b)
  from step.hyps(2) step.IH show ?case
    by cases (auto simp: sdl_commit_ok sdl_apply_def split: sum.split)
qed

text \<open>A timer interrupt is accepted only for the deadline that is armed.  After any committed
  decision the authority accepts an interrupt exactly when it carries that decision's generation and
  absolute time and that time has come; whatever was armed before is refused at any later time.\<close>

theorem sdl_commit_supersedes:
  assumes "sdl_method\<^sup>*\<^sup>* sdl_empty a" "sdl_commit a p = (Inr d, a')"
  shows "(\<forall>e t. sdl_accept_interrupt a' e t = Inr () \<longleftrightarrow>
        dl_active d \<and> e = d \<and> dl_absolute d \<le> t) \<and>
    (\<forall>t. sdl_accept_interrupt a' (sdl_current a) t \<noteq> Inr ()) \<and>
    sdl_commit a' p = (Inl sdl_stale_prepare, a')"
proof -
  note ok = sdl_run_ok [OF assms(1)]
  have p: "prepared_valid p" "pd_base_generation p = sdl_generation a"
    "dl_generation d = sdl_next_generation (sdl_generation a)" "d = pd_deadline p"
    "a' = a\<lparr>sdl_generation := dl_generation d, sdl_current := d\<rparr>"
    using assms(2) by (auto simp: sdl_commit_def split: if_splits)
  have g: "dl_generation d \<noteq> sdl_generation a"
    using ok p(3) sdl_next_generation_facts by (simp add: sdl_ok_def)
  have acc: "sdl_accept_interrupt a' e t = Inr () \<longleftrightarrow> dl_active d \<and> e = d \<and> dl_absolute d \<le> t" for e t
    using p(5) by (cases e; cases d) (auto simp: sdl_accept_interrupt_def not_less)
  moreover have "dl_active d \<Longrightarrow> sdl_current a \<noteq> d" using ok g by (auto simp: sdl_ok_def)
  moreover have "sdl_commit a' p = (Inl sdl_stale_prepare, a')"
    using p g by (simp add: sdl_commit_def)
  ultimately show ?thesis by auto
qed

text \<open>An earlier wakeup is never lost.  Narrowing a decision to an absolute deadline never removes
  or postpones its own timer, and once the narrowed decision is applied, the armed deadline is no
  later than the requested time (or the next nanosecond, if that has passed) and an interrupt
  at that time is accepted.\<close>

theorem sdl_narrow_fires:
  assumes "e \<noteq> 0" "sdl_apply a (narrow_decision_timer d e now) now = (Inr dl, a')"
  shows "dec_timer (narrow_decision_timer d e now) \<noteq> 0 \<and>
    (dec_timer d \<noteq> 0 \<longrightarrow> dec_timer (narrow_decision_timer d e now) \<le> dec_timer d) \<and>
    dl_active dl \<and> dl_absolute dl \<le> max e (now + 1) \<and>
    sdl_accept_interrupt a' dl (max e (now + 1)) = Inr ()"
proof -
  let ?t = "dec_timer (narrow_decision_timer d e now)"
  let ?r = "if e \<le> now then 1 else e - now"
  have r: "?r \<noteq> 0" by auto
  have t: "?t \<noteq> 0" "?t \<le> ?r" "dec_timer d \<noteq> 0 \<Longrightarrow> ?t \<le> dec_timer d"
    using assms(1) r by (auto simp: narrow_decision_timer_def Let_def split: if_splits)
  have room: "?t \<le> - 1 - now" and dl: "dl_active dl" "dl_absolute dl = now + ?t" "sdl_current a' = dl"
    using assms(2) t(1)
    by (auto simp: sdl_apply_def sdl_prepare_def sdl_commit_def Let_def not_less split: if_splits)
  have top: "unat (- 1 - now) = 2 ^ 64 - 1 - unat now"
    by (simp add: unat_sub unsigned_minus_1_eq_mask mask_eq_exp_minus_1)
  have "unat now < 2 ^ 64" using unsigned_less [of now] by simp
  then have "unat now + unat ?t < 2 ^ 64" using room top by (simp add: word_le_nat_alt)
  then have sum: "unat (now + ?t) = unat now + unat ?t" by (simp add: unat_word_ariths)
  have bound: "now + ?t \<le> max e (now + 1)"
  proof (cases "e \<le> now")
    case True
    with t(2) have "?t \<le> 1" by simp
    with t(1) have "?t = 1" by (metis antisym unat_1 unat_eq_zero less_one linorder_not_le word_le_nat_alt)
    then show ?thesis by simp
  next
    case False
    then have "unat (e - now) = unat e - unat now" "unat now \<le> unat e"
      by (simp_all add: unat_sub word_le_nat_alt)
    with t(2) False sum have "now + ?t \<le> e" by (simp add: word_le_nat_alt)
    then show ?thesis by (simp add: le_max_iff_disj)
  qed
  show ?thesis using t(1,3) dl bound [unfolded le_max_iff_disj]
    by (simp add: sdl_accept_interrupt_def not_less le_max_iff_disj)
qed

section \<open>Concrete runs\<close>

text \<open>Two equally urgent threads; the first has been chosen.\<close>

definition sched_example :: Scheduler where
  "sched_example = snd (sched_choose (snd (sched_admit (snd (sched_admit sched_empty 1 5)) 2 5)) 100)"

lemma sched_example_run: "(sched_method ^^ 3) sched_empty sched_example"
proof -
  have "sched_method sched_empty (snd (sched_admit sched_empty 1 5))" by (rule sched_method.admit)
  moreover have "sched_method (snd (sched_admit sched_empty 1 5))
      (snd (sched_admit (snd (sched_admit sched_empty 1 5)) 2 5))" by (rule sched_method.admit)
  moreover have "sched_method (snd (sched_admit (snd (sched_admit sched_empty 1 5)) 2 5)) sched_example"
    unfolding sched_example_def by (rule sched_method.choose)
  ultimately show ?thesis by (auto simp: numeral_3_eq_3 relcompp_apply)
qed

lemma sched_example_reachable: "sched_method\<^sup>*\<^sup>* sched_empty sched_example"
  using sched_example_run by (rule relpowp_imp_rtranclp)

definition sched_example_slot :: "ThreadId \<Rightarrow> u64 \<Rightarrow> SchedSlot" where
  "sched_example_slot t n = \<lparr>ss_thread = t, ss_effective = 5, ss_runnable = True,
     ss_remaining = default_slice_nanoseconds, ss_sequence = n, ss_occupied = True\<rparr>"

lemma sched_example_view:
  "sched_view sched_example 1 = Some (sched_example_slot 1 1)"
  "sched_view sched_example 2 = Some (sched_example_slot 2 2)"
  by code_simp+

theorem sched_choose_correct_witness:
  "dec_thread (fst (sched_choose sched_example 2000100)) = 2 \<and>
   dec_preempted (fst (sched_choose sched_example 2000100)) \<and>
   sched_running (snd (sched_choose sched_example 2000100)) = 2"
proof -
  have d: "fst (sched_choose sched_example 2000100) =
      \<lparr>dec_thread = 2, dec_timer = default_slice_nanoseconds, dec_preempted = True\<rparr>" by code_simp
  then have c: "sched_choose sched_example 2000100 =
      (\<lparr>dec_thread = 2, dec_timer = default_slice_nanoseconds, dec_preempted = True\<rparr>,
       snd (sched_choose sched_example 2000100))" by (metis prod.collapse)
  from sched_choose_correct [OF sched_example_reachable c] d show ?thesis by simp
qed

theorem sched_exhausted_goes_behind_witness:
  "dec_thread (fst (sched_choose sched_example 2000100)) \<noteq> 1"
proof (rule sched_exhausted_goes_behind [OF sched_example_run _ sched_example_view(1) _
      sched_example_view(2)])
  show "ss_remaining (sched_charged sched_example 2000100 (sched_example_slot 1 1)) = 0"
    "ss_remaining (sched_charged sched_example 2000100 (sched_example_slot 2 2)) \<noteq> 0" by code_simp+
qed (simp_all add: sched_example_slot_def)

theorem sched_time_never_refunded_witness:
  "\<exists>y. sched_view (snd (sched_yield_slice sched_example 1)) 1 = Some y \<and>
     ss_remaining y \<le> default_slice_nanoseconds"
proof -
  obtain y where y: "sched_view (snd (sched_yield_slice sched_example 1)) 1 = Some y"
    using sched_yield_view(2) [OF sched_run_ok [OF sched_example_reachable], of 1] sched_example_view(1)
    by simp
  from sched_time_never_refunded [OF sched_example_reachable sched_method.yield_slice
      sched_example_view(1) y] y show ?thesis by (auto simp: sched_example_slot_def)
qed

definition sdl_example_decision :: Decision where
  "sdl_example_decision = \<lparr>dec_thread = 1, dec_timer = 50, dec_preempted = False\<rparr>"

theorem sdl_commit_supersedes_witness:
  "\<exists>d a'. sdl_apply sdl_empty sdl_example_decision 100 = (Inr d, a') \<and>
     sdl_accept_interrupt a' d 150 = Inr () \<and> sdl_accept_interrupt a' (sdl_current sdl_empty) 150 \<noteq> Inr ()"
proof -
  let ?d = "\<lparr>dl_generation = 2, dl_absolute = 150, dl_active = True\<rparr>"
  let ?p = "\<lparr>pd_deadline = ?d, pd_base_generation = 1\<rparr>"
  let ?a = "\<lparr>sdl_generation = 2, sdl_current = ?d\<rparr>"
  have c: "sdl_commit sdl_empty ?p = (Inr ?d, ?a)" by code_simp
  have "sdl_apply sdl_empty sdl_example_decision 100 = (Inr ?d, ?a)" by code_simp
  moreover note sup = sdl_commit_supersedes [OF rtranclp.rtrancl_refl c]
  have "sdl_accept_interrupt ?a ?d 150 = Inr ()" using sup by simp
  moreover have "sdl_accept_interrupt ?a (sdl_current sdl_empty) 150 \<noteq> Inr ()" using sup by blast
  ultimately show ?thesis by blast
qed

theorem sdl_narrow_fires_witness:
  "\<exists>dl a'. sdl_apply sdl_empty (narrow_decision_timer sdl_example_decision 120 100) 100 = (Inr dl, a') \<and>
     sdl_accept_interrupt a' dl (max 120 (100 + 1)) = Inr ()"
proof -
  let ?d = "\<lparr>dl_generation = 2, dl_absolute = 120, dl_active = True\<rparr>"
  let ?a = "\<lparr>sdl_generation = 2, sdl_current = ?d\<rparr>"
  have c: "sdl_apply sdl_empty (narrow_decision_timer sdl_example_decision 120 100) 100 = (Inr ?d, ?a)"
    by code_simp
  from c sdl_narrow_fires [OF _ c] show ?thesis by auto
qed

end
