(* ===== verification/Context_Switch.thy ===== *)
theory Context_Switch
  imports System_Calls Scheduler
begin

text \<open>
  The context switch of the AArch64 kernel: aarch64_user_frames.hpp/.cpp (\<open>UserFrameTable\<close>, the saved
  registers of every thread that can run at EL0, prefix \<open>uf_\<close>), aarch64_preemption.hpp/.cpp
  (\<open>PreemptionCoordinator\<close>, which turns a scheduling decision into a change of the live frame, prefix
  \<open>pc_\<close>) and aarch64_execution_universe.hpp/.cpp with aarch64_execution_universe_machine.cpp (what is
  programmed into the machine afterwards) of src/core/oskernel.  The live exception frame is an
  argument and a result; the scheduler is too, since the coordinator calls it.  The lemmas show
  that a failed switch leaves the frames as they were, that a thread is resumed with exactly the
  registers it was stopped with, and that what is installed is the translation of the thread
  that runs.
\<close>

section \<open>Saved frames\<close>

abbreviation "uf_invalid_thread \<equiv> kernel_error 110"
abbreviation "uf_duplicate_thread \<equiv> kernel_error 111"
abbreviation "uf_unknown_thread \<equiv> kernel_error 112"
abbreviation "uf_exhausted \<equiv> kernel_error 113"
abbreviation "uf_invalid_el0_frame \<equiv> kernel_error 114"

record UfSlot =
  ufs_thread :: ThreadId
  ufs_frame :: ExceptionFrame
  ufs_occupied :: bool

record UserFrameTable =
  uf_slots :: "UfSlot list"
  uf_occupied :: size_t

definition zero_frame :: ExceptionFrame where
  "zero_frame = \<lparr>fx = replicate 31 0, sp_el0 = 0, elr_el1 = 0, spsr_el1 = 0, esr_el1 = 0, far_el1 = 0\<rparr>"

definition uf_blank :: UfSlot where
  "uf_blank = \<lparr>ufs_thread = invalid_thread, ufs_frame = zero_frame, ufs_occupied = False\<rparr>"

definition uf_empty :: UserFrameTable where
  "uf_empty = \<lparr>uf_slots = replicate max_threads uf_blank, uf_occupied = 0\<rparr>"

definition uf_find :: "UserFrameTable \<Rightarrow> ThreadId \<Rightarrow> nat option" where
  "uf_find t thread = first_index (\<lambda>s. ufs_occupied s \<and> ufs_thread s = thread) (uf_slots t)"

definition valid_el0_frame :: "ExceptionFrame \<Rightarrow> bool" where
  "valid_el0_frame f \<longleftrightarrow> and (spsr_el1 f) 0xF = 0 \<and> elr_el1 f \<noteq> 0 \<and> sp_el0 f \<noteq> 0"

definition uf_admit :: "UserFrameTable \<Rightarrow> ThreadId \<Rightarrow> ExceptionFrame \<Rightarrow> unit result \<times> UserFrameTable" where
  "uf_admit t thread initial =
     (if thread = invalid_thread then (Inl uf_invalid_thread, t)
      else if \<not> valid_el0_frame initial then (Inl uf_invalid_el0_frame, t)
      else if uf_find t thread \<noteq> None then (Inl uf_duplicate_thread, t)
      else case first_index (\<lambda>s. \<not> ufs_occupied s) (uf_slots t) of
          Some i \<Rightarrow> (Inr (), t\<lparr>uf_slots := (uf_slots t)[i :=
                       \<lparr>ufs_thread = thread, ufs_frame = initial, ufs_occupied = True\<rparr>],
                     uf_occupied := uf_occupied t + 1\<rparr>)
        | None \<Rightarrow> (Inl uf_exhausted, t))"

definition uf_validate_capture :: "UserFrameTable \<Rightarrow> ThreadId \<Rightarrow> ExceptionFrame \<Rightarrow> unit result" where
  "uf_validate_capture t thread live =
     (if thread = invalid_thread then Inl uf_invalid_thread
      else if \<not> valid_el0_frame live then Inl uf_invalid_el0_frame
      else if uf_find t thread = None then Inl uf_unknown_thread
      else Inr ())"

definition uf_validate_restore :: "UserFrameTable \<Rightarrow> ThreadId \<Rightarrow> unit result" where
  "uf_validate_restore t thread =
     (if thread = invalid_thread then Inl uf_invalid_thread
      else case uf_find t thread of
          None \<Rightarrow> Inl uf_unknown_thread
        | Some i \<Rightarrow> if \<not> valid_el0_frame (ufs_frame (uf_slots t ! i)) then Inl uf_invalid_el0_frame
                    else Inr ())"

definition uf_capture :: "UserFrameTable \<Rightarrow> ThreadId \<Rightarrow> ExceptionFrame \<Rightarrow> unit result \<times> UserFrameTable" where
  "uf_capture t thread live =
     (case uf_validate_capture t thread live of
        Inl e \<Rightarrow> (Inl e, t)
      | Inr _ \<Rightarrow>
          (case uf_find t thread of
             None \<Rightarrow> (Inl uf_unknown_thread, t)
           | Some i \<Rightarrow> (Inr (), t\<lparr>uf_slots := (uf_slots t)[i := (uf_slots t ! i)\<lparr>ufs_frame := live\<rparr>]\<rparr>)))"

definition uf_restore :: "UserFrameTable \<Rightarrow> ThreadId \<Rightarrow> ExceptionFrame \<Rightarrow> unit result \<times> ExceptionFrame" where
  "uf_restore t thread live =
     (case uf_validate_restore t thread of
        Inl e \<Rightarrow> (Inl e, live)
      | Inr _ \<Rightarrow>
          (case uf_find t thread of
             None \<Rightarrow> (Inl uf_unknown_thread, live)
           | Some i \<Rightarrow> (Inr (), ufs_frame (uf_slots t ! i))))"

definition uf_retire :: "UserFrameTable \<Rightarrow> ThreadId \<Rightarrow> unit result \<times> UserFrameTable" where
  "uf_retire t thread =
     (case uf_find t thread of
        None \<Rightarrow> (Inl uf_unknown_thread, t)
      | Some i \<Rightarrow> (Inr (), t\<lparr>uf_slots := (uf_slots t)[i := uf_blank], uf_occupied := uf_occupied t - 1\<rparr>))"

definition uf_contains :: "UserFrameTable \<Rightarrow> ThreadId \<Rightarrow> bool" where
  "uf_contains t thread \<longleftrightarrow> uf_find t thread \<noteq> None"

definition uf_size :: "UserFrameTable \<Rightarrow> size_t" where
  "uf_size t = uf_occupied t"

section \<open>The coordinator\<close>

abbreviation "pc_no_runnable_thread \<equiv> kernel_error 120"
abbreviation "pc_running_thread_missing \<equiv> kernel_error 121"
abbreviation "pc_wrong_running_thread \<equiv> kernel_error 122"
abbreviation "pc_translation_unavailable \<equiv> kernel_error 123"

record PreemptionResult =
  pr_previous :: ThreadId
  pr_next :: ThreadId
  pr_deadline :: SchedulerDeadline
  pr_translation :: ProcessTranslationBinding
  pr_switched :: bool
  pr_preempted :: bool

record PreemptionCoordinator =
  pc_frames :: UserFrameTable
  pc_deadlines :: SchedulerDeadlineAuthority
  pc_running :: ThreadId

definition pc_empty :: PreemptionCoordinator where
  "pc_empty = \<lparr>pc_frames = uf_empty, pc_deadlines = sdl_empty, pc_running = invalid_thread\<rparr>"

definition pc_admit_frame ::
  "PreemptionCoordinator \<Rightarrow> ThreadId \<Rightarrow> ExceptionFrame \<Rightarrow> unit result \<times> PreemptionCoordinator" where
  "pc_admit_frame c thread initial =
     (case uf_admit (pc_frames c) thread initial of (r, t) \<Rightarrow> (r, c\<lparr>pc_frames := t\<rparr>))"

text \<open>The second half of \<open>apply_decision\<close>, once every authority has been consulted: it may still fail in
  the code, and then keeps what it has already changed.\<close>

definition pc_switch ::
  "PreemptionCoordinator \<Rightarrow> Decision \<Rightarrow> ProcessTranslationBinding \<Rightarrow> SchedulerDeadline \<Rightarrow> ExceptionFrame \<Rightarrow>
   bool \<Rightarrow> PreemptionResult result \<times> PreemptionCoordinator \<times> ExceptionFrame" where
  "pc_switch c decision translation deadline live capture_current =
     (let previous = pc_running c;
          (captured, frames) =
            (if capture_current then uf_capture (pc_frames c) previous live else (Inr (), pc_frames c));
          c1 = c\<lparr>pc_frames := frames\<rparr>
      in case captured of
          Inl e \<Rightarrow> (Inl e, c1, live)
        | Inr _ \<Rightarrow>
            (let switched = (previous \<noteq> dec_thread decision);
                 (restored, live1) =
                   (if switched \<or> previous = invalid_thread then uf_restore frames (dec_thread decision) live
                    else (Inr (), live))
             in case restored of
                 Inl e \<Rightarrow> (Inl e, c1, live1)
               | Inr _ \<Rightarrow>
                   (Inr \<lparr>pr_previous = previous, pr_next = dec_thread decision, pr_deadline = deadline,
                      pr_translation = translation, pr_switched = switched,
                      pr_preempted = dec_preempted decision\<rparr>,
                    c1\<lparr>pc_running := dec_thread decision\<rparr>, live1)))"

definition pc_apply_decision ::
  "PreemptionCoordinator \<Rightarrow> ProcessTranslationTable \<Rightarrow> AddressSpaceEpochAuthority \<Rightarrow> Decision \<Rightarrow> u64 \<Rightarrow>
   ExceptionFrame \<Rightarrow> bool \<Rightarrow> u64 \<Rightarrow> PreemptionResult result \<times> PreemptionCoordinator \<times> ExceptionFrame" where
  "pc_apply_decision c translations epochs decision now live capture_current earliest =
     (if dec_thread decision = invalid_thread then (Inl pc_no_runnable_thread, c, live)
      else case pt_resolve translations (dec_thread decision) epochs of
        Inl _ \<Rightarrow> (Inl pc_translation_unavailable, c, live)
      | Inr translation \<Rightarrow>
      if capture_current \<and> pc_running c = invalid_thread then (Inl pc_running_thread_missing, c, live)
      else case (if capture_current then uf_validate_capture (pc_frames c) (pc_running c) live else Inr ()) of
        Inl e \<Rightarrow> (Inl e, c, live)
      | Inr _ \<Rightarrow>
      (case uf_validate_restore (pc_frames c) (dec_thread decision) of
        Inl e \<Rightarrow> (Inl e, c, live)
      | Inr _ \<Rightarrow>
      (case sdl_prepare (pc_deadlines c) (narrow_decision_timer decision earliest now) now of
        Inl e \<Rightarrow> (Inl e, c, live)
      | Inr prepared \<Rightarrow>
      (case sdl_commit (pc_deadlines c) prepared of
        (Inl e, deadlines) \<Rightarrow> (Inl e, c\<lparr>pc_deadlines := deadlines\<rparr>, live)
      | (Inr deadline, deadlines) \<Rightarrow>
          pc_switch (c\<lparr>pc_deadlines := deadlines\<rparr>) decision translation deadline live capture_current))))"

definition pc_start ::
  "PreemptionCoordinator \<Rightarrow> Scheduler \<Rightarrow> ProcessTranslationTable \<Rightarrow> AddressSpaceEpochAuthority \<Rightarrow> u64 \<Rightarrow>
   ExceptionFrame \<Rightarrow> u64 \<Rightarrow> PreemptionResult result \<times> PreemptionCoordinator \<times> Scheduler \<times> ExceptionFrame" where
  "pc_start c s translations epochs now live earliest =
     (if pc_running c \<noteq> invalid_thread then (Inl pc_wrong_running_thread, c, s, live)
      else let (decision, s') = sched_choose s now;
               (r, c', live') = pc_apply_decision c translations epochs decision now live False earliest
           in (r, c', s', live'))"

definition pc_reschedule ::
  "PreemptionCoordinator \<Rightarrow> Scheduler \<Rightarrow> ProcessTranslationTable \<Rightarrow> AddressSpaceEpochAuthority \<Rightarrow> u64 \<Rightarrow>
   ExceptionFrame \<Rightarrow> u64 \<Rightarrow> PreemptionResult result \<times> PreemptionCoordinator \<times> Scheduler \<times> ExceptionFrame" where
  "pc_reschedule c s translations epochs now live earliest =
     (if pc_running c = invalid_thread \<or> sched_running s \<noteq> pc_running c
      then (Inl pc_wrong_running_thread, c, s, live)
      else let (decision, s') = sched_choose s now;
               (r, c', live') = pc_apply_decision c translations epochs decision now live True earliest
           in (r, c', s', live'))"

definition pc_on_timer ::
  "PreemptionCoordinator \<Rightarrow> Scheduler \<Rightarrow> ProcessTranslationTable \<Rightarrow> AddressSpaceEpochAuthority \<Rightarrow>
   SchedulerDeadline \<Rightarrow> u64 \<Rightarrow> ExceptionFrame \<Rightarrow> u64 \<Rightarrow>
   PreemptionResult result \<times> PreemptionCoordinator \<times> Scheduler \<times> ExceptionFrame" where
  "pc_on_timer c s translations epochs delivered now live earliest =
     (case sdl_accept_interrupt (pc_deadlines c) delivered now of
        Inl e \<Rightarrow> (Inl e, c, s, live)
      | Inr _ \<Rightarrow>
          if pc_running c = invalid_thread \<or> sched_running s \<noteq> pc_running c
          then (Inl pc_wrong_running_thread, c, s, live)
          else let (decision, s') = sched_choose s now;
                   (r, c', live') = pc_apply_decision c translations epochs decision now live True earliest
               in (r, c', s', live'))"

section \<open>The execution universe\<close>

abbreviation "eu_invalid_plan \<equiv> kernel_error 130"
abbreviation "eu_stale_deadline \<equiv> kernel_error 131"
abbreviation "eu_machine_commit_failed \<equiv> kernel_error 132"

record ExecutionUniversePlan =
  eu_thread :: ThreadId
  eu_epoch :: AddressSpaceEpoch
  eu_root :: u64
  eu_deadline :: SchedulerDeadline

definition plan_valid :: "ExecutionUniversePlan \<Rightarrow> bool" where
  "plan_valid p \<longleftrightarrow> eu_thread p \<noteq> invalid_thread \<and> epoch_valid (eu_epoch p) \<and> eu_root p \<noteq> 0 \<and>
     dl_generation (eu_deadline p) \<noteq> 0"

definition prepare_execution_universe :: "PreemptionResult \<Rightarrow> ExecutionUniversePlan result" where
  "prepare_execution_universe r =
     (if \<not> binding_valid (pr_translation r) \<or> pr_next r = invalid_thread \<or>
         pr_next r \<noteq> pb_thread (pr_translation r) \<or> dl_generation (pr_deadline r) = 0
      then Inl eu_invalid_plan
      else Inr \<lparr>eu_thread = pr_next r, eu_epoch = pb_epoch (pr_translation r),
                eu_root = pb_root (pr_translation r), eu_deadline = pr_deadline r\<rparr>)"

text \<open>What is asked of the machine, in order.  Whether the machine does what it is asked is the
  parameter \<open>ok\<close>: it may refuse any single request.\<close>

datatype MachineRequest = set_timer u64 | cancel_timer | install_translation u64 AddressSpaceEpoch

definition commit_execution_universe ::
  "(MachineRequest \<Rightarrow> bool) \<Rightarrow> ExecutionUniversePlan \<Rightarrow> u64 \<Rightarrow> unit result \<times> MachineRequest list" where
  "commit_execution_universe ok plan now =
     (if \<not> plan_valid plan then (Inl eu_invalid_plan, [])
      else if dl_active (eu_deadline plan) \<and> dl_absolute (eu_deadline plan) \<le> now
      then (Inl eu_stale_deadline, [])
      else let timer = (if dl_active (eu_deadline plan)
                        then set_timer (dl_absolute (eu_deadline plan) - now) else cancel_timer);
               install = install_translation (eu_root plan) (eu_epoch plan)
           in if \<not> ok timer then (Inl eu_machine_commit_failed, [timer])
              else if \<not> ok install then (Inl eu_machine_commit_failed, [timer, install, cancel_timer])
              else (Inr (), [timer, install]))"

definition commit_result ::
  "(MachineRequest \<Rightarrow> bool) \<Rightarrow> PreemptionResult \<Rightarrow> u64 \<Rightarrow> bool \<times> MachineRequest list" where
  "commit_result ok result now =
     (case prepare_execution_universe result of
        Inl _ \<Rightarrow> (False, [])
      | Inr plan \<Rightarrow> (case commit_execution_universe ok plan now of (r, ops) \<Rightarrow> (\<not> isl r, ops)))"

section \<open>The frame table as a map\<close>

interpretation uft: slot_table ufs_occupied ufs_thread invalid_thread uf_blank
  by unfold_locales (simp add: uf_blank_def)

definition uf_view :: "UserFrameTable \<Rightarrow> ThreadId \<Rightarrow> ExceptionFrame option" where
  "uf_view t k = map_option ufs_frame (slot_view ufs_occupied ufs_thread invalid_thread (uf_slots t) k)"

definition uf_ok :: "UserFrameTable \<Rightarrow> bool" where
  "uf_ok t \<longleftrightarrow> slot_ok ufs_occupied ufs_thread invalid_thread max_threads (uf_slots t) (uf_occupied t) \<and>
     (\<forall>k f. uf_view t k = Some f \<longrightarrow> valid_el0_frame f)"

lemma uf_ok_empty: "uf_ok uf_empty" and uf_view_empty [simp]: "uf_view uf_empty = Map.empty"
  using uft.ok_blank [of max_threads] uft.view_blank [of max_threads]
  by (simp_all add: uf_ok_def uf_empty_def uf_view_def fun_eq_iff)

lemma uf_view_zero [simp]: "uf_view t 0 = None"
  by (simp add: uf_view_def)

lemma uf_find_slot:
  assumes "uf_ok t"
  shows "uf_find t k = slot_find ufs_occupied ufs_thread invalid_thread (uf_slots t) k"
proof (cases "k = 0")
  case True
  have "first_index (\<lambda>s. ufs_occupied s \<and> ufs_thread s = 0) (uf_slots t) = None"
    using assms by (auto simp: first_index_None uf_ok_def slot_ok_def slot_wf_def in_set_conv_nth)
  with True show ?thesis by (simp add: uf_find_def)
qed (simp add: uf_find_def slot_find_def)

lemma uf_find_view:
  assumes "uf_ok t"
  shows "uf_find t k = None \<longleftrightarrow> uf_view t k = None"
    and "uf_find t k = Some i \<Longrightarrow> uf_view t k = Some (ufs_frame (uf_slots t ! i))"
  using uft.find_view_None [of "uf_slots t" k] uft.find_view_Some [of "uf_slots t" k]
  by (auto simp: uf_find_slot [OF assms] uf_view_def)

lemma uf_admit_cases:
  assumes "uf_ok t"
  obtains (refused) e where "uf_admit t k f = (Inl e, t)"
    | (admitted) u where "uf_admit t k f = (Inr (), u)" "uf_ok u" "k \<noteq> invalid_thread"
      "valid_el0_frame f" "uf_view t k = None" "uf_view u = (uf_view t)(k \<mapsto> f)"
proof (cases "k = invalid_thread \<or> \<not> valid_el0_frame f \<or> uf_find t k \<noteq> None \<or>
    first_index (\<lambda>s. \<not> ufs_occupied s) (uf_slots t) = None")
  case True
  then have "\<exists>e. uf_admit t k f = (Inl e, t)" by (auto simp: uf_admit_def)
  with refused show ?thesis by blast
next
  case False
  then obtain i where i: "first_index (\<lambda>s. \<not> ufs_occupied s) (uf_slots t) = Some i" by auto
  define s where "s = \<lparr>ufs_thread = k, ufs_frame = f, ufs_occupied = True\<rparr>"
  define u where "u = t\<lparr>uf_slots := (uf_slots t)[i := s], uf_occupied := uf_occupied t + 1\<rparr>"
  have free: "uf_view t k = None" using False uf_find_view(1) [OF assms, of k] by simp
  then have free': "slot_view ufs_occupied ufs_thread 0 (uf_slots t) (ufs_thread s) = None"
    by (simp add: uf_view_def s_def)
  have sok: "slot_ok ufs_occupied ufs_thread 0 max_threads (uf_slots t) (uf_occupied t)"
    using assms by (simp add: uf_ok_def)
  note ins = uft.insert_ok [OF sok i free']
  have v: "uf_view u = (uf_view t)(k \<mapsto> f)"
    using ins(2) False by (simp add: uf_view_def u_def s_def fun_eq_iff)
  have "uf_ok u" using ins(1) assms False unfolding uf_ok_def v by (auto simp: u_def s_def)
  moreover have "uf_admit t k f = (Inr (), u)" using False i by (simp add: uf_admit_def u_def s_def)
  ultimately show ?thesis using admitted v free False by blast
qed

lemma uf_validate_capture_iff:
  assumes "uf_ok t"
  shows "uf_validate_capture t k live = Inr () \<longleftrightarrow> valid_el0_frame live \<and> k \<in> dom (uf_view t)"
  using uf_find_view(1) [OF assms, of k] by (auto simp: uf_validate_capture_def)

lemma uf_validate_restore_iff:
  assumes "uf_ok t"
  shows "uf_validate_restore t k = Inr () \<longleftrightarrow> k \<in> dom (uf_view t)"
proof (cases "uf_find t k")
  case None
  then show ?thesis using uf_find_view(1) [OF assms, of k] by (auto simp: uf_validate_restore_def)
next
  case (Some i)
  then have v: "uf_view t k = Some (ufs_frame (uf_slots t ! i))" by (rule uf_find_view(2) [OF assms])
  then have "valid_el0_frame (ufs_frame (uf_slots t ! i))" using assms by (auto simp: uf_ok_def)
  moreover have "k \<noteq> 0" using v by (auto intro: ccontr)
  ultimately show ?thesis using Some v by (auto simp: uf_validate_restore_def)
qed

lemma uf_capture_ok:
  assumes "uf_ok t" "uf_validate_capture t k live = Inr ()"
  shows "\<exists>u. uf_capture t k live = (Inr (), u) \<and> uf_ok u \<and> uf_view u = (uf_view t)(k \<mapsto> live)"
proof -
  have live: "valid_el0_frame live" "k \<in> dom (uf_view t)"
    using assms by (simp_all add: uf_validate_capture_iff)
  then obtain i where i: "uf_find t k = Some i" using uf_find_view(1) [OF assms(1), of k] by auto
  define u where "u = t\<lparr>uf_slots := (uf_slots t)[i := (uf_slots t ! i)\<lparr>ufs_frame := live\<rparr>]\<rparr>"
  have sok: "slot_ok ufs_occupied ufs_thread 0 max_threads (uf_slots t) (uf_occupied t)"
    using assms by (simp add: uf_ok_def)
  have f: "slot_find ufs_occupied ufs_thread 0 (uf_slots t) k = Some i"
    using i by (simp add: uf_find_slot [OF assms(1)])
  note st = uft.store_ok [OF sok f, of "(uf_slots t ! i)\<lparr>ufs_frame := live\<rparr>"]
  have k: "ufs_occupied (uf_slots t ! i)" "ufs_thread (uf_slots t ! i) = k"
    using uft.find_SomeD [OF f] by simp_all
  have v: "uf_view u = (uf_view t)(k \<mapsto> live)" using st(2) k by (simp add: uf_view_def u_def fun_eq_iff)
  have "uf_ok u" using st(1) k assms(1) live(1) unfolding uf_ok_def v by (auto simp: u_def)
  moreover have "uf_capture t k live = (Inr (), u)" using assms(2) i by (simp add: uf_capture_def u_def)
  ultimately show ?thesis using v by blast
qed

lemma uf_restore_view:
  assumes "uf_ok t" "uf_view t k = Some f"
  shows "uf_restore t k live = (Inr (), f)"
proof -
  have "uf_validate_restore t k = Inr ()" using assms by (auto simp: uf_validate_restore_iff)
  moreover obtain i where i: "uf_find t k = Some i" using uf_find_view(1) [OF assms(1), of k] assms(2) by auto
  ultimately show ?thesis using uf_find_view(2) [OF assms(1) i] assms(2) by (simp add: uf_restore_def)
qed

lemma uf_retire_cases:
  assumes "uf_ok t"
  obtains (refused) "uf_retire t k = (Inl uf_unknown_thread, t)" "uf_view t k = None"
    | (retired) u where "uf_retire t k = (Inr (), u)" "uf_ok u" "uf_view u = (uf_view t)(k := None)"
proof (cases "uf_find t k")
  case None
  with refused uf_find_view(1) [OF assms, of k] show ?thesis by (simp add: uf_retire_def)
next
  case (Some i)
  have sok: "slot_ok ufs_occupied ufs_thread 0 max_threads (uf_slots t) (uf_occupied t)"
    using assms by (simp add: uf_ok_def)
  note rem = uft.remove_ok [OF sok Some [unfolded uf_find_slot [OF assms]] uft.blank_free]
  define u where "u = t\<lparr>uf_slots := (uf_slots t)[i := uf_blank], uf_occupied := uf_occupied t - 1\<rparr>"
  have v: "uf_view u = (uf_view t)(k := None)" using rem(2) by (simp add: uf_view_def u_def fun_eq_iff)
  have "uf_ok u" using assms rem(1) unfolding uf_ok_def v by (auto simp: u_def)
  with retired v Some show ?thesis by (simp add: uf_retire_def u_def)
qed

section \<open>The coordinator's invariant\<close>

text \<open>The running thread has a saved frame (which is stale while it runs).\<close>

definition pc_ok :: "PreemptionCoordinator \<Rightarrow> bool" where
  "pc_ok c \<longleftrightarrow> uf_ok (pc_frames c) \<and> sdl_ok (pc_deadlines c) \<and>
     (pc_running c \<noteq> invalid_thread \<longrightarrow> pc_running c \<in> dom (uf_view (pc_frames c)))"

lemma pc_ok_empty: "pc_ok pc_empty"
  by (simp add: pc_ok_def pc_empty_def uf_ok_empty sdl_ok_def sdl_empty_def no_deadline_def)

lemma pc_ok_deadlines: "pc_ok c \<Longrightarrow> sdl_ok a \<Longrightarrow> pc_ok (c\<lparr>pc_deadlines := a\<rparr>)"
  by (simp add: pc_ok_def)

text \<open>The registers of a thread: the live frame's while it runs, its saved frame's otherwise.\<close>

definition pc_context :: "PreemptionCoordinator \<Rightarrow> ExceptionFrame \<Rightarrow> ThreadId \<Rightarrow> ExceptionFrame option" where
  "pc_context c live t =
     (if t \<noteq> invalid_thread \<and> t = pc_running c then Some live else uf_view (pc_frames c) t)"

lemma pc_admit_frame_cases:
  assumes "pc_ok c"
  obtains (refused) e where "pc_admit_frame c k f = (Inl e, c)"
    | (admitted) c' where "pc_admit_frame c k f = (Inr (), c')" "pc_ok c'" "valid_el0_frame f"
      "pc_context c live k = None" "pc_context c' live = (pc_context c live)(k \<mapsto> f)"
      "pc_running c' = pc_running c" "pc_deadlines c' = pc_deadlines c"
proof -
  have ok: "uf_ok (pc_frames c)" using assms by (simp add: pc_ok_def)
  show ?thesis
  proof (cases rule: uf_admit_cases [OF ok, of k f])
    case (1 e)
    with refused show ?thesis by (simp add: pc_admit_frame_def)
  next
    case (2 u)
    let ?c = "c\<lparr>pc_frames := u\<rparr>"
    have run: "pc_running c \<noteq> 0 \<Longrightarrow> pc_running c \<noteq> k" using assms 2(5) by (auto simp: pc_ok_def)
    have "pc_ok ?c" using assms 2 by (auto simp: pc_ok_def)
    moreover have "pc_context ?c live = (pc_context c live)(k \<mapsto> f)" "pc_context c live k = None"
      using run 2(3,5,6) by (auto simp: pc_context_def fun_eq_iff)
    ultimately show ?thesis using admitted [of ?c] 2(1,4) by (simp add: pc_admit_frame_def)
  qed
qed

text \<open>Once the authorities have agreed, the switch itself cannot fail.\<close>

lemma pc_switch_ok:
  assumes "pc_ok c" "dec_thread d \<noteq> invalid_thread" "dec_thread d \<in> dom (uf_view (pc_frames c))"
    and "capture \<Longrightarrow> uf_validate_capture (pc_frames c) (pc_running c) live = Inr ()"
    and "\<not> capture \<Longrightarrow> pc_running c = invalid_thread"
  shows "\<exists>c' live'. pc_switch c d tr dl live capture =
      (Inr \<lparr>pr_previous = pc_running c, pr_next = dec_thread d, pr_deadline = dl, pr_translation = tr,
         pr_switched = (pc_running c \<noteq> dec_thread d), pr_preempted = dec_preempted d\<rparr>, c', live') \<and>
    pc_ok c' \<and> pc_running c' = dec_thread d \<and> pc_deadlines c' = pc_deadlines c \<and>
    pc_context c' live' = pc_context c live \<and>
    uf_view (pc_frames c') =
      (if capture then (uf_view (pc_frames c))(pc_running c \<mapsto> live) else uf_view (pc_frames c))"
proof -
  have ok: "uf_ok (pc_frames c)" using assms(1) by (simp add: pc_ok_def)
  define u where "u = (if capture then snd (uf_capture (pc_frames c) (pc_running c) live) else pc_frames c)"
  have u: "(if capture then uf_capture (pc_frames c) (pc_running c) live else (Inr (), pc_frames c)) = (Inr (), u)"
    "uf_ok u" "uf_view u =
      (if capture then (uf_view (pc_frames c))(pc_running c \<mapsto> live) else uf_view (pc_frames c))"
    using uf_capture_ok [OF ok, of "pc_running c" live] assms(4) ok by (auto simp: u_def)
  have prev: "capture \<Longrightarrow> pc_running c \<noteq> 0"
    using assms(4) by (auto simp: uf_validate_capture_def split: if_splits)
  obtain f where f: "uf_view u (dec_thread d) = Some f" using assms(3) u(3)
    by (cases "capture \<and> dec_thread d = pc_running c") auto
  define live' where "live' = (if pc_running c \<noteq> dec_thread d then f else live)"
  have res: "(if pc_running c \<noteq> dec_thread d \<or> pc_running c = invalid_thread
      then uf_restore u (dec_thread d) live else (Inr (), live)) = (Inr (), live')"
    using uf_restore_view [OF u(2) f] assms(2) by (auto simp: live'_def)
  define c' where "c' = c\<lparr>pc_frames := u, pc_running := dec_thread d\<rparr>"
  have "pc_switch c d tr dl live capture =
      (Inr \<lparr>pr_previous = pc_running c, pr_next = dec_thread d, pr_deadline = dl, pr_translation = tr,
         pr_switched = (pc_running c \<noteq> dec_thread d), pr_preempted = dec_preempted d\<rparr>, c', live')"
    unfolding pc_switch_def Let_def u(1) prod.case sum.case res by (simp add: c'_def)
  moreover have "pc_ok c'" using assms(1) u(2) f by (auto simp: pc_ok_def c'_def)
  moreover have "pc_context c' live' t = pc_context c live t" for t
    using assms(2,5) prev f u(3) by (auto simp: pc_context_def c'_def live'_def split: if_splits)
  ultimately show ?thesis using u(3) by (intro exI [of _ c'] exI [of _ live']) (auto simp: c'_def)
qed

lemma pc_apply_cases:
  assumes "pc_ok c" "capture \<longleftrightarrow> pc_running c \<noteq> invalid_thread"
  obtains (refused) e where "pc_apply_decision c pt eps d now live capture e0 = (Inl e, c, live)"
    | (switched) r c' live' where "pc_apply_decision c pt eps d now live capture e0 = (Inr r, c', live')"
      "dec_thread d \<noteq> invalid_thread" "pr_previous r = pc_running c" "pr_next r = dec_thread d"
      "pt_resolve pt (dec_thread d) eps = Inr (pr_translation r)"
      "pr_switched r \<longleftrightarrow> pc_running c \<noteq> dec_thread d" "pr_preempted r = dec_preempted d"
      "sdl_apply (pc_deadlines c) (narrow_decision_timer d e0 now) now = (Inr (pr_deadline r), pc_deadlines c')"
      "pc_ok c'" "pc_running c' = dec_thread d" "pc_context c' live' = pc_context c live"
      "capture \<longrightarrow> valid_el0_frame live"
      "uf_view (pc_frames c') =
        (if capture then (uf_view (pc_frames c))(pc_running c \<mapsto> live) else uf_view (pc_frames c))"
proof -
  have ok: "uf_ok (pc_frames c)" and sok: "sdl_ok (pc_deadlines c)" using assms(1) by (simp_all add: pc_ok_def)
  let ?vc = "if capture then uf_validate_capture (pc_frames c) (pc_running c) live else Inr ()"
  let ?vr = "uf_validate_restore (pc_frames c) (dec_thread d)"
  let ?n = "narrow_decision_timer d e0 now"
  let ?a = "sdl_apply (pc_deadlines c) ?n now"
  show ?thesis
  proof (cases "dec_thread d = 0 \<or> (\<exists>e. pt_resolve pt (dec_thread d) eps = Inl e) \<or>
      (\<exists>e. ?vc = Inl e) \<or> (\<exists>e. ?vr = Inl e) \<or> (\<exists>e a. ?a = (Inl e, a))")
    case True
    have "\<exists>e. pc_apply_decision c pt eps d now live capture e0 = (Inl e, c, live)"
      using True assms(2)
      by (auto simp: pc_apply_decision_def sdl_apply_def sdl_commit_def split: sum.splits if_splits)
    with refused show ?thesis by blast
  next
    case False
    then obtain tr where tr: "pt_resolve pt (dec_thread d) eps = Inr tr"
      by (cases "pt_resolve pt (dec_thread d) eps") auto
    have v: "?vc = Inr ()" "?vr = Inr ()" using False by (cases ?vc; cases ?vr; simp)+
    obtain dl a where a: "?a = (Inr dl, a)" using False by (metis obj_sumE old.prod.exhaust)
    have cm: "\<exists>p. sdl_prepare (pc_deadlines c) ?n now = Inr p \<and> sdl_commit (pc_deadlines c) p = (Inr dl, a)"
      using a by (auto simp: sdl_apply_def split: sum.splits)
    then have aok: "sdl_ok a" using sdl_commit_ok [OF sok] by (metis snd_conv)
    let ?c = "c\<lparr>pc_deadlines := a\<rparr>"
    have eq: "pc_apply_decision c pt eps d now live capture e0 = pc_switch ?c d tr dl live capture"
      using False tr v cm assms(2) by (auto simp: pc_apply_decision_def)
    have pok: "pc_ok ?c" using pc_ok_deadlines [OF assms(1) aok] .
    have dom: "dec_thread d \<in> dom (uf_view (pc_frames ?c))" using v(2) ok by (simp add: uf_validate_restore_iff)
    have live: "capture \<Longrightarrow> valid_el0_frame live" using v(1) uf_validate_capture_iff [OF ok] by simp
    obtain c' live' where sw: "pc_switch ?c d tr dl live capture =
        (Inr \<lparr>pr_previous = pc_running c, pr_next = dec_thread d, pr_deadline = dl, pr_translation = tr,
           pr_switched = (pc_running c \<noteq> dec_thread d), pr_preempted = dec_preempted d\<rparr>, c', live')"
      "pc_ok c'" "pc_running c' = dec_thread d" "pc_deadlines c' = a"
      "pc_context c' live' = pc_context ?c live" "uf_view (pc_frames c') =
        (if capture then (uf_view (pc_frames c))(pc_running c \<mapsto> live) else uf_view (pc_frames c))"
      using pc_switch_ok [OF pok _ dom, of capture live tr dl] v(1) False assms(2) by auto
    have "pc_context ?c live = pc_context c live" by (simp add: pc_context_def fun_eq_iff)
    then show ?thesis
      by (intro switched [OF eq [unfolded sw(1)]]) (use sw tr a live False in simp_all)
  qed
qed

section \<open>Runs\<close>

type_synonym pc_state = "PreemptionCoordinator \<times> Scheduler \<times> ExceptionFrame"

text \<open>The three methods that switch, at a time, with whatever translations, epochs and receive
  deadline the caller passes.\<close>

inductive pc_coordinate ::
  "ProcessTranslationTable \<Rightarrow> AddressSpaceEpochAuthority \<Rightarrow> u64 \<Rightarrow> pc_state \<Rightarrow> PreemptionResult result \<Rightarrow>
   pc_state \<Rightarrow> bool" for pt eps now where
  start: "pc_start c s pt eps now live e = (r, c', s', live') \<Longrightarrow>
    pc_coordinate pt eps now (c, s, live) r (c', s', live')"
| reschedule: "pc_reschedule c s pt eps now live e = (r, c', s', live') \<Longrightarrow>
    pc_coordinate pt eps now (c, s, live) r (c', s', live')"
| on_timer: "pc_on_timer c s pt eps delivered now live e = (r, c', s', live') \<Longrightarrow>
    pc_coordinate pt eps now (c, s, live) r (c', s', live')"

text \<open>Everything that happens to the coordinator, the scheduler and the live frame: a switch, the admission
  of a frame, a method of the scheduler, and the running thread (or a call it makes) changing the
  live registers in any way.\<close>

inductive pc_step :: "pc_state \<Rightarrow> pc_state \<Rightarrow> bool" where
  coordinate: "pc_coordinate pt eps now st r st' \<Longrightarrow> pc_step st st'"
| admit_frame: "pc_step (c, s, live) (snd (pc_admit_frame c k f), s, live)"
| schedule: "sched_method s s' \<Longrightarrow> pc_step (c, s, live) (c, s', live)"
| execute: "pc_step (c, s, live) (c, s, live')"

definition pc_state_ok :: "pc_state \<Rightarrow> bool" where
  "pc_state_ok st \<longleftrightarrow> pc_ok (fst st) \<and> sched_ok (fst (snd st))"

lemma pc_coordinate_cases:
  assumes ok: "pc_state_ok (c, s, live)"
    and co: "pc_coordinate pt eps now (c, s, live) r (c', s', live')"
  obtains (refused) e where "r = Inl e" "c' = c" "live' = live"
      "s' = s \<or> s' = snd (sched_choose s now)"
    | (switched) p d e0 where "r = Inr p" "sched_choose s now = (d, s')"
      "dec_thread d \<noteq> invalid_thread" "pr_previous p = pc_running c" "pr_next p = dec_thread d"
      "pt_resolve pt (dec_thread d) eps = Inr (pr_translation p)"
      "pr_switched p \<longleftrightarrow> pc_running c \<noteq> dec_thread d" "pr_preempted p = dec_preempted d"
      "sdl_apply (pc_deadlines c) (narrow_decision_timer d e0 now) now = (Inr (pr_deadline p), pc_deadlines c')"
      "pc_ok c'" "pc_running c' = dec_thread d" "pc_context c' live' = pc_context c live"
      "pc_running c \<noteq> invalid_thread \<longrightarrow> valid_el0_frame live \<and> sched_running s = pc_running c"
proof -
  have c: "pc_ok c" using ok by (simp add: pc_state_ok_def)
  obtain d sd where ch: "sched_choose s now = (d, sd)" by fastforce
  have *: thesis if cap: "capture \<longleftrightarrow> pc_running c \<noteq> invalid_thread"
      and ap: "pc_apply_decision c pt eps d now live capture e0 = (r, c', live')" and s': "s' = sd"
      and run: "pc_running c \<noteq> invalid_thread \<Longrightarrow> sched_running s = pc_running c" for capture e0
  proof (cases rule: pc_apply_cases [OF c cap, of pt eps d now live e0])
    case (1 e)
    then have "r = Inl e" "c' = c" "live' = live" using ap by simp_all
    then show ?thesis by (rule refused) (use s' ch in simp)
  next
    case (2 p u l)
    then have "r = Inr p" "c' = u" "live' = l" using ap by simp_all
    with 2 show ?thesis by (intro switched [of p d e0]) (use s' ch cap run in simp_all)
  qed
  from co show ?thesis
  proof cases
    case (start e)
    with * [of False e] refused ch show ?thesis by (auto simp: pc_start_def split: if_splits prod.splits)
  next
    case (reschedule e)
    with * [of True e] refused ch show ?thesis by (auto simp: pc_reschedule_def split: if_splits prod.splits)
  next
    case (on_timer delivered e)
    with * [of True e] refused ch show ?thesis
      by (auto simp: pc_on_timer_def split: if_splits prod.splits sum.splits)
  qed
qed

lemma pc_coordinate_ok:
  assumes "pc_state_ok st" "pc_coordinate pt eps now st r st'"
  shows "pc_state_ok st'"
proof -
  obtain c s live c' s' live' where st: "st = (c, s, live)" "st' = (c', s', live')" by (metis prod_cases3)
  have "sched_ok (snd (sched_choose s now))"
    using sched_choose_after assms(1) by (auto simp: pc_state_ok_def st)
  with assms [unfolded st] show ?thesis unfolding st
    by (cases rule: pc_coordinate_cases) (use assms(1) in \<open>auto simp: pc_state_ok_def st\<close>)
qed

lemma pc_step_ok:
  assumes "pc_step st st'" "pc_state_ok st"
  shows "pc_state_ok st'"
  using assms
proof cases
  case (coordinate pt eps now r)
  then show ?thesis using pc_coordinate_ok assms(2) by blast
next
  case (admit_frame c s live k f)
  then have "pc_ok c" using assms(2) by (simp add: pc_state_ok_def)
  then show ?thesis using assms(2) admit_frame
    by (cases rule: pc_admit_frame_cases [where k = k and f = f]) (auto simp: pc_state_ok_def)
qed (auto simp: pc_state_ok_def intro: sched_method_ok)

lemma pc_run_ok: "pc_step\<^sup>*\<^sup>* (pc_empty, sched_empty, live0) st \<Longrightarrow> pc_state_ok st"
proof (induction rule: rtranclp_induct)
  case base
  show ?case by (simp add: pc_state_ok_def pc_ok_empty sched_ok_empty)
qed (rule pc_step_ok)

text \<open>Only the running thread's registers change, and only by running.\<close>

lemma pc_step_context:
  assumes "pc_step (c, s, live) (c', s', live')" "pc_state_ok (c, s, live)"
    and "pc_context c live t = Some f" "pc_running c \<noteq> t"
  shows "pc_context c' live' t = Some f"
  using assms(1)
proof cases
  case (coordinate pt eps now r)
  from assms(2) coordinate show ?thesis
    by (cases rule: pc_coordinate_cases) (use assms(3) in simp_all)
next
  case (admit_frame k g)
  have "pc_ok c" using assms(2) by (simp add: pc_state_ok_def)
  then show ?thesis using admit_frame assms(3)
    by (cases rule: pc_admit_frame_cases [where k = k and f = g and live = live]) auto
qed (use assms(3,4) in \<open>auto simp: pc_context_def\<close>)

lemma pc_away_context:
  assumes "(\<lambda>a b. pc_step a b \<and> pc_running (fst a) \<noteq> t)\<^sup>*\<^sup>* (c, s, live) st"
    and "pc_state_ok (c, s, live)" "pc_context c live t = Some f"
  shows "pc_state_ok st \<and> pc_context (fst st) (snd (snd st)) t = Some f"
  using assms(1)
proof (induction rule: rtranclp_induct)
  case (step a b)
  obtain c1 s1 l1 c2 s2 l2 where ab: "a = (c1, s1, l1)" "b = (c2, s2, l2)" by (metis prod_cases3)
  with step show ?case using pc_step_context [of c1 s1 l1 c2 s2 l2 t f] pc_step_ok [of a b] by simp
qed (use assms in simp)

section \<open>Properties\<close>

lemma word_less_add:
  fixes a b :: u64
  assumes "b \<noteq> 0" "b \<le> - 1 - a"
  shows "a < a + b"
proof -
  have "unat (- 1 - a) = 2 ^ 64 - 1 - unat a"
    by (simp add: unat_sub unsigned_minus_1_eq_mask mask_eq_exp_minus_1)
  moreover have "unat a < 2 ^ 64" using unsigned_less [of a] by simp
  ultimately have "unat a + unat b < 2 ^ 64" using assms(2) by (simp add: word_le_nat_alt)
  then have "unat (a + b) = unat a + unat b" by (simp add: unat_word_ariths)
  moreover have "unat b \<noteq> 0" using assms(1) by (simp add: unat_eq_0)
  ultimately show ?thesis by (simp add: word_less_nat_alt)
qed

lemma sdl_apply_deadline:
  assumes "sdl_apply a d now = (Inr dl, a')"
  shows "sdl_current a' = dl \<and> dl_generation dl \<noteq> 0 \<and> (dl_active dl \<longleftrightarrow> dec_timer d \<noteq> 0) \<and>
    (dl_active dl \<longrightarrow> now < dl_absolute dl)"
  using assms word_less_add [of "dec_timer d" now] sdl_next_generation_facts(1)
  by (auto simp: sdl_apply_def sdl_prepare_def sdl_commit_def Let_def not_less split: if_splits)

text \<open>C7: A switch happens entirely or not at all.  Whatever has happened before, a call of \<open>start\<close>,
  \<open>reschedule\<close> or \<open>on_timer\<close> that fails leaves the coordinator (saved frames, armed deadline, running
  thread) and the live frame exactly as they were.  One that succeeds leaves the scheduler and the
  coordinator agreeing on the running thread, which is the scheduler's choice and whose translation
  resolves to an active epoch; the registers of every thread, the one stopped and the one
  resumed included, are what they were; and a timer interrupt is from then on accepted exactly for the
  deadline it reports.\<close>

theorem pc_switch_atomic:
  assumes "pc_step\<^sup>*\<^sup>* (pc_empty, sched_empty, live0) (c, s, live)"
    and "pc_coordinate pt eps now (c, s, live) r (c', s', live')"
  shows "case r of
      Inl e \<Rightarrow> c' = c \<and> live' = live
    | Inr p \<Rightarrow> pr_previous p = pc_running c \<and> pc_running c' = pr_next p \<and> sched_running s' = pr_next p \<and>
        pr_next p = dec_thread (fst (sched_choose s now)) \<and> pr_next p \<noteq> invalid_thread \<and>
        pt_resolve pt (pr_next p) eps = Inr (pr_translation p) \<and>
        pc_context c' live' = pc_context c live \<and> pc_context c live (pr_next p) = Some live' \<and>
        valid_el0_frame live' \<and> (\<not> pr_switched p \<longrightarrow> live' = live) \<and>
        (\<forall>d t. sdl_accept_interrupt (pc_deadlines c') d t = Inr () \<longleftrightarrow>
           dl_active d \<and> d = pr_deadline p \<and> dl_absolute d \<le> t)"
proof -
  have ok: "pc_state_ok (c, s, live)" using pc_run_ok [OF assms(1)] .
  from ok assms(2) show ?thesis
  proof (cases rule: pc_coordinate_cases)
    case (switched p d e0)
    have sok: "sched_ok s" using ok by (simp add: pc_state_ok_def)
    have run: "sched_running s' = dec_thread d"
      using sched_choose_decision [OF sok switched(2)] by blast
    have "pc_context c' live' (pr_next p) = Some live'"
      using switched(3,5,11) by (simp add: pc_context_def)
    then have live: "pc_context c live (pr_next p) = Some live'" by (simp only: switched(12))
    have valid: "valid_el0_frame live'"
    proof (cases "pr_next p = pc_running c")
      case True
      with switched(3,5,13) live show ?thesis by (auto simp: pc_context_def)
    next
      case False
      with live have "uf_view (pc_frames c) (pr_next p) = Some live'"
        by (auto simp: pc_context_def)
      with ok show ?thesis by (auto simp: pc_state_ok_def pc_ok_def uf_ok_def)
    qed
    have same: "live' = live" if "\<not> pr_switched p"
      using that live switched(3,5,7) by (auto simp: pc_context_def)
    have cur: "sdl_current (pc_deadlines c') = pr_deadline p"
      using sdl_apply_deadline [OF switched(9)] by blast
    have "sdl_accept_interrupt (pc_deadlines c') d t = Inr () \<longleftrightarrow>
        dl_active d \<and> d = pr_deadline p \<and> dl_absolute d \<le> t" for d t
      using cur by (cases d; cases "pr_deadline p") (auto simp: sdl_accept_interrupt_def not_less)
    with switched run live valid same show ?thesis by simp
  qed simp
qed

text \<open>C6: A thread is resumed with exactly the registers it was stopped with.  Take any reachable state,
  stop the running thread by \<open>reschedule\<close> or a timer interrupt, and let anything happen while other
  threads run: switches in any number and order, other threads changing the live registers, new
  frames, scheduler updates.  When the thread runs again, the live frame is the one it was
  stopped with, register for register.\<close>

theorem pc_registers_survive:
  assumes "pc_step\<^sup>*\<^sup>* (pc_empty, sched_empty, live0) (c, s, live)" "pc_running c = t" "t \<noteq> invalid_thread"
    and "pc_coordinate pt eps now (c, s, live) r (c1, s1, live1)"
    and "(\<lambda>a b. pc_step a b \<and> pc_running (fst a) \<noteq> t)\<^sup>*\<^sup>* (c1, s1, live1) (c2, s2, live2)"
    and "pc_running c2 = t"
  shows "live2 = live"
proof -
  have ok: "pc_state_ok (c, s, live)" using pc_run_ok [OF assms(1)] .
  have ok1: "pc_state_ok (c1, s1, live1)" using ok assms(4) by (rule pc_coordinate_ok)
  have t: "pc_context c live t = Some live" using assms(2,3) by (simp add: pc_context_def)
  from ok assms(4) have "pc_context c1 live1 = pc_context c live"
    by (cases rule: pc_coordinate_cases) simp_all
  with t have "pc_context c1 live1 t = Some live" by simp
  from pc_away_context [OF assms(5) ok1 this] have "pc_context c2 live2 t = Some live" by simp
  with assms(3,6) show ?thesis by (simp add: pc_context_def)
qed

lemma pt_bindings_valid:
  assumes "pt_method\<^sup>*\<^sup>* pt_empty pt" "pt_resolve pt k eps = Inr b"
  shows "binding_valid b \<and> pb_thread b = k"
proof -
  have "\<forall>k b. pt_view pt k = Some b \<longrightarrow> binding_valid b \<and> pb_thread b = k"
    using assms(1)
  proof (induction rule: rtranclp_induct)
    case base
    show ?case using ptt.view_blank [of max_threads] by (simp add: pt_view_def pt_empty_def)
  next
    case (step t u)
    have ok: "pt_ok t" using step.hyps(1) by (rule pt_run_ok)
    from step.hyps(2) show ?case
    proof cases
      case (bind k ep r eps)
      have "root_physical r \<noteq> 0" if "pt_bind t k ep r eps = (Inr (), v)" for v
        using that by (auto simp: pt_bind_def root_valid_def split: if_splits)
      then show ?thesis using bind step.IH
        by (cases rule: pt_bind_cases [OF ok, of k ep r eps])
           (auto simp: binding_valid_def ep_active_def split: if_splits)
    next
      case (retire k ep)
      then show ?thesis using step.IH by (cases rule: pt_retire_cases [OF ok, of k ep]) auto
    qed
  qed
  then show ?thesis using assms(2) by (auto simp: pt_resolve_view split: if_splits option.splits)
qed

text \<open>C8: What the machine is told is what was decided.  After a successful switch of a reachable
  state, under a reachable binding table, \<open>commit_result\<close> at the same time asks the machine for exactly
  two things: the timer of the deadline just committed (a positive distance that ends at it, or
  no timer when none is armed), then the root and epoch of the thread that now runs, an epoch that is
  active.  It reports success exactly when the machine does both, and a failed installation cancels the
  timer again.\<close>

theorem pc_universe_matches:
  assumes "pc_step\<^sup>*\<^sup>* (pc_empty, sched_empty, live0) (c, s, live)" "pt_method\<^sup>*\<^sup>* pt_empty pt"
    and "pc_coordinate pt eps now (c, s, live) (Inr p) (c', s', live')"
  shows "let timer = (if dl_active (sdl_current (pc_deadlines c'))
               then set_timer (dl_absolute (sdl_current (pc_deadlines c')) - now) else cancel_timer);
           install = install_translation (pb_root (pr_translation p)) (pb_epoch (pr_translation p))
         in ep_active eps (pb_epoch (pr_translation p)) \<and> pb_thread (pr_translation p) = pc_running c' \<and>
           timer \<noteq> set_timer 0 \<and>
           commit_result ok p now =
             (if \<not> ok timer then (False, [timer])
              else if \<not> ok install then (False, [timer, install, cancel_timer])
              else (True, [timer, install]))"
proof -
  have okc: "pc_state_ok (c, s, live)" using pc_run_ok [OF assms(1)] .
  from okc assms(3) show ?thesis
  proof (cases rule: pc_coordinate_cases)
    case (switched q d e0)
    then have q: "q = p" by simp
    note sw = switched [unfolded q]
    have b: "binding_valid (pr_translation p)" "pb_thread (pr_translation p) = pr_next p"
      using pt_bindings_valid [OF assms(2) sw(6)] sw(5) by simp_all
    have act: "ep_active eps (pb_epoch (pr_translation p))"
      using sw(6) by (auto simp: pt_resolve_view split: if_splits option.splits)
    have dl: "sdl_current (pc_deadlines c') = pr_deadline p" "dl_generation (pr_deadline p) \<noteq> 0"
      "dl_active (pr_deadline p) \<Longrightarrow> now < dl_absolute (pr_deadline p)"
      using sdl_apply_deadline [OF sw(9)] by blast+
    have nz: "dl_active (pr_deadline p) \<Longrightarrow> dl_absolute (pr_deadline p) - now \<noteq> 0"
      and late: "\<not> (dl_active (pr_deadline p) \<and> dl_absolute (pr_deadline p) \<le> now)" using dl(3) by auto
    have pl: "prepare_execution_universe p = Inr \<lparr>eu_thread = pr_next p,
        eu_epoch = pb_epoch (pr_translation p), eu_root = pb_root (pr_translation p), eu_deadline = pr_deadline p\<rparr>"
      using b sw(3,5) dl(2) by (simp add: prepare_execution_universe_def)
    show ?thesis
      unfolding dl(1) commit_result_def pl sum.case
      using b sw(3,5,11) dl(2) late nz act
      by (auto simp: commit_execution_universe_def plan_valid_def binding_valid_def Let_def)
  qed simp
qed

text \<open>C30: When no thread can run, the coordinator does not come back.  \<open>choose\<close> commits the scheduler
  before the coordinator has checked anything: in a reachable state in which no admitted thread is
  runnable, \<open>reschedule\<close> is refused with \<open>no_runnable_thread\<close> but the scheduler already has no running
  thread while the coordinator still has one.  Whatever threads then become runnable, every later
  call of \<open>start\<close>, \<open>reschedule\<close> and \<open>on_timer\<close> is refused and changes nothing.\<close>

theorem pc_idle_wedges:
  assumes "pc_step\<^sup>*\<^sup>* (pc_empty, sched_empty, live0) (c, s, live)"
    and "pc_running c \<noteq> invalid_thread" "sched_running s = pc_running c"
    and "\<forall>t x. sched_view s t = Some x \<longrightarrow> \<not> ss_runnable x"
    and "pc_reschedule c s pt eps now live e0 = (r, c', s', live')"
    and "(\<lambda>a b. \<exists>t q p. b = snd (sched_update a t q p))\<^sup>*\<^sup>* s' s''"
    and "pc_coordinate pt' eps' now' (c', s'', live'') r' st"
  shows "r = Inl pc_no_runnable_thread \<and> (\<exists>e. r' = Inl e) \<and> st = (c', s'', live'')"
proof -
  have sok: "sched_ok s" using pc_run_ok [OF assms(1)] by (simp add: pc_state_ok_def)
  obtain d sd where ch: "sched_choose s now = (d, sd)" by fastforce
  obtain k where k: "sched_after s now k sd" using sched_choose_after [OF sok, of now] ch by auto
  have "\<not> ss_runnable y" if y: "sched_view sd t = Some y" for t y
  proof (cases "sched_view s t")
    case None
    with sched_after_None [OF k] y show ?thesis by simp
  next
    case (Some x)
    with sched_after_Some [OF k Some] y assms(4) show ?thesis
      by (auto simp: sched_refilled_def split: if_splits)
  qed
  then have d: "dec_thread d = 0" "sched_running sd = 0"
    using sched_choose_decision [OF sok ch] by auto
  have res: "r = Inl pc_no_runnable_thread" "c' = c" "s' = sd"
    using assms(2,3,5) ch d(1) by (auto simp: pc_reschedule_def pc_apply_decision_def)
  have "sched_running s'' = 0"
    using assms(6)
  proof (induction rule: rtranclp_induct)
    case (step a b)
    then show ?case by (auto simp: sched_running_def sched_update_def Let_def split: option.splits)
  qed (use res d in simp)
  with assms(2) res(2) have ne: "sched_running s'' \<noteq> pc_running c'" "pc_running c' \<noteq> 0" by auto
  from assms(7) have "(\<exists>e. r' = Inl e) \<and> st = (c', s'', live'')"
    by cases (use ne in \<open>auto simp: pc_start_def pc_reschedule_def pc_on_timer_def split: sum.splits\<close>)
  with res(1) show ?thesis by blast
qed

section \<open>A concrete run\<close>

text \<open>Two equally urgent threads in two spaces.  The first is started, runs for one instruction and
  blocks; the second runs and changes the live frame; the first becomes runnable, the second blocks.\<close>

definition frame_at :: "u64 \<Rightarrow> ExceptionFrame" where
  "frame_at pc = zero_frame\<lparr>elr_el1 := pc, sp_el0 := 0x8000\<rparr>"

definition cs_epochs :: AddressSpaceEpochAuthority where
  "cs_epochs = snd (ep_acquire ep_one)"

definition cs_translations :: ProcessTranslationTable where
  "cs_translations = snd (pt_bind pt_example 2 \<lparr>ae_slot = 1, ae_generation = 1, ae_asid = 2\<rparr>
     \<lparr>root_physical = 8192, root_entry = 64\<rparr> cs_epochs)"

definition cs_sched :: Scheduler where
  "cs_sched = snd (sched_admit (snd (sched_admit sched_empty 7 5)) 2 5)"

definition cs_admitted :: PreemptionCoordinator where
  "cs_admitted = snd (pc_admit_frame (snd (pc_admit_frame pc_empty 7 (frame_at 0x1000))) 2 (frame_at 0x2000))"

definition cs_started :: pc_state where
  "cs_started = snd (pc_start cs_admitted cs_sched cs_translations cs_epochs 100 zero_frame 0)"

definition cs_waiting :: pc_state where
  "cs_waiting = (case cs_started of (c, s, live) \<Rightarrow> (c, snd (sched_update s 7 False 5), frame_at 0x1004))"

definition cs_other :: pc_state where
  "cs_other = (case cs_waiting of (c, s, live) \<Rightarrow> snd (pc_reschedule c s cs_translations cs_epochs 200 live 0))"

definition cs_woken :: pc_state where
  "cs_woken = (case cs_other of (c, s, live) \<Rightarrow>
     (c, snd (sched_update (snd (sched_update s 7 True 5)) 2 False 5), frame_at 0x2F00))"

definition cs_resumed :: pc_state where
  "cs_resumed = (case cs_woken of (c, s, live) \<Rightarrow> snd (pc_reschedule c s cs_translations cs_epochs 300 live 900))"

lemma coordinate_start:
  "pc_coordinate pt eps now (c, s, live) (fst (pc_start c s pt eps now live e)) (snd (pc_start c s pt eps now live e))"
  by (metis pc_coordinate.start prod.collapse)

lemma coordinate_reschedule:
  "pc_coordinate pt eps now (c, s, live) (fst (pc_reschedule c s pt eps now live e))
     (snd (pc_reschedule c s pt eps now live e))"
  by (metis pc_coordinate.reschedule prod.collapse)

lemma pc_steps_update:
  "pc_step\<^sup>*\<^sup>* (c, s, live) (c, snd (sched_update s t q p), live')"
  by (meson pc_step.execute pc_step.schedule r_into_rtranclp rtranclp_trans sched_method.update)

lemma cs_started_reachable: "pc_step\<^sup>*\<^sup>* (pc_empty, sched_empty, zero_frame) cs_started"
proof -
  have "pc_step\<^sup>*\<^sup>* (pc_empty, sched_empty, zero_frame) (cs_admitted, sched_empty, zero_frame)"
    unfolding cs_admitted_def
    by (rule rtranclp_trans [OF r_into_rtranclp [of pc_step] r_into_rtranclp [of pc_step]])
       (rule pc_step.admit_frame)+
  also have "pc_step\<^sup>*\<^sup>* (cs_admitted, sched_empty, zero_frame) (cs_admitted, cs_sched, zero_frame)"
    unfolding cs_sched_def
    by (rule rtranclp_trans [OF r_into_rtranclp [of pc_step] r_into_rtranclp [of pc_step]])
       (rule pc_step.schedule [OF sched_method.admit])+
  also have "pc_step (cs_admitted, cs_sched, zero_frame) cs_started"
    unfolding cs_started_def by (rule pc_step.coordinate) (rule coordinate_start)
  finally show ?thesis .
qed

lemma cs_waiting_reachable: "pc_step\<^sup>*\<^sup>* (pc_empty, sched_empty, zero_frame) cs_waiting"
proof -
  obtain c s l where st: "cs_started = (c, s, l)" by (metis prod_cases3)
  have "pc_step\<^sup>*\<^sup>* cs_started cs_waiting" unfolding cs_waiting_def st prod.case by (rule pc_steps_update)
  with cs_started_reachable show ?thesis by (rule rtranclp_trans)
qed

lemma cs_switches:
  "pc_coordinate cs_translations cs_epochs 200 cs_waiting
     (fst (pc_reschedule (fst cs_waiting) (fst (snd cs_waiting)) cs_translations cs_epochs 200 (snd (snd cs_waiting)) 0))
     cs_other"
  "pc_coordinate cs_translations cs_epochs 300 cs_woken
     (fst (pc_reschedule (fst cs_woken) (fst (snd cs_woken)) cs_translations cs_epochs 300 (snd (snd cs_woken)) 900))
     cs_resumed"
  using coordinate_reschedule [where c = "fst cs_waiting" and s = "fst (snd cs_waiting)" and live = "snd (snd cs_waiting)"]
    coordinate_reschedule [where c = "fst cs_woken" and s = "fst (snd cs_woken)" and live = "snd (snd cs_woken)"]
  by (simp_all add: cs_other_def cs_resumed_def split_beta)

lemma cs_evaluated:
  "pc_running (fst cs_waiting) = 7" "pc_running (fst cs_other) = 2" "pc_running (fst cs_resumed) = 7"
  "pc_running (fst cs_woken) = 2" "snd (snd cs_waiting) = frame_at 0x1004"
  "map_sum id pr_next (fst (pc_reschedule (fst cs_waiting) (fst (snd cs_waiting)) cs_translations cs_epochs 200
     (snd (snd cs_waiting)) 0)) = Inr 2"
  by code_simp+

theorem pc_switch_atomic_witness:
  "\<exists>p. pc_reschedule (fst cs_waiting) (fst (snd cs_waiting)) cs_translations cs_epochs 200 (snd (snd cs_waiting)) 0 =
      (Inr p, cs_other) \<and> pr_next p = 2 \<and> sched_running (fst (snd cs_other)) = 2 \<and>
      pc_context (fst cs_other) (snd (snd cs_other)) 7 = Some (frame_at 0x1004)"
proof -
  obtain c s live c' s' live' where st: "cs_waiting = (c, s, live)" "cs_other = (c', s', live')"
    by (metis prod_cases3)
  let ?r = "fst (pc_reschedule c s cs_translations cs_epochs 200 live 0)"
  have run: "pc_step\<^sup>*\<^sup>* (pc_empty, sched_empty, zero_frame) (c, s, live)"
    using cs_waiting_reachable by (simp add: st)
  have co: "pc_coordinate cs_translations cs_epochs 200 (c, s, live) ?r (c', s', live')"
    using cs_switches(1) by (simp add: st)
  obtain p where p: "?r = Inr p" "pr_next p = 2" using cs_evaluated(6) by (cases ?r) (auto simp: st)
  have live: "pc_running c = 7" "live = frame_at 0x1004" using cs_evaluated(1,5) by (simp_all add: st)
  have "pc_context c live 7 = Some (frame_at 0x1004)" using live by (simp add: pc_context_def)
  moreover have "pc_reschedule c s cs_translations cs_epochs 200 live 0 = (Inr p, c', s', live')"
    using p(1) st(2) by (simp add: cs_other_def st(1) prod_eq_iff)
  ultimately show ?thesis using pc_switch_atomic [OF run co] p by (simp add: st)
qed

theorem pc_registers_survive_witness: "snd (snd cs_resumed) = frame_at 0x1004"
proof -
  obtain c s live c1 s1 live1 c2 s2 live2 where st: "cs_waiting = (c, s, live)" "cs_other = (c1, s1, live1)"
    "cs_resumed = (c2, s2, live2)" by (metis prod_cases3)
  let ?away = "\<lambda>a b. pc_step a b \<and> pc_running (fst a) \<noteq> 7"
  have run: "pc_step\<^sup>*\<^sup>* (pc_empty, sched_empty, zero_frame) (c, s, live)"
    using cs_waiting_reachable by (simp add: st)
  have c1: "pc_running c1 = 2" using cs_evaluated(2) by (simp add: st)
  let ?s = "snd (sched_update s1 7 True 5)" let ?t = "snd (sched_update ?s 2 False 5)"
  have wk: "cs_woken = (c1, ?t, frame_at 0x2F00)" by (simp add: cs_woken_def st)
  have "?away\<^sup>*\<^sup>* (c1, s1, live1) (c1, ?s, live1)"
    using c1 by (intro r_into_rtranclp) (auto intro: pc_step.schedule sched_method.update)
  also have "?away (c1, ?s, live1) (c1, ?t, live1)"
    using c1 by (auto intro: pc_step.schedule sched_method.update)
  also have "?away (c1, ?t, live1) cs_woken" using c1 unfolding wk by (auto intro: pc_step.execute)
  also have "?away cs_woken (c2, s2, live2)"
    using c1 pc_step.coordinate [OF cs_switches(2)] by (simp add: wk st)
  finally have away: "?away\<^sup>*\<^sup>* (c1, s1, live1) (c2, s2, live2)" .
  have "live2 = live"
    by (rule pc_registers_survive [OF run _ _ _ away])
       (use cs_evaluated(1,3) cs_switches(1) in \<open>simp_all add: st\<close>)
  then show ?thesis using cs_evaluated(5) by (simp add: st)
qed

lemma cs_translations_reachable: "pt_method\<^sup>*\<^sup>* pt_empty cs_translations"
  unfolding cs_translations_def pt_example_def
  by (rule rtranclp_trans [OF r_into_rtranclp [of pt_method] r_into_rtranclp [of pt_method]])
     (rule pt_method.bind)+

lemma cs_woken_reachable: "pc_step\<^sup>*\<^sup>* (pc_empty, sched_empty, zero_frame) cs_woken"
proof -
  obtain c s live where st: "cs_other = (c, s, live)" by (metis prod_cases3)
  have "pc_step\<^sup>*\<^sup>* (pc_empty, sched_empty, zero_frame) cs_other"
    using cs_waiting_reachable pc_step.coordinate [OF cs_switches(1)] by (rule rtranclp.rtrancl_into_rtrancl)
  also have "pc_step\<^sup>*\<^sup>* cs_other (c, snd (sched_update s 7 True 5), live)"
    unfolding st by (rule pc_steps_update)
  also have "pc_step\<^sup>*\<^sup>* (c, snd (sched_update s 7 True 5), live) cs_woken"
    unfolding cs_woken_def st prod.case by (rule pc_steps_update)
  finally show ?thesis .
qed

lemma cs_resumed_evaluated:
  "map_sum id (\<lambda>p. (pb_root (pr_translation p), pb_epoch (pr_translation p)))
     (fst (pc_reschedule (fst cs_woken) (fst (snd cs_woken)) cs_translations cs_epochs 300 (snd (snd cs_woken)) 900)) =
     Inr (4096, ep_one_epoch)"
  "dl_active (sdl_current (pc_deadlines (fst cs_resumed)))"
  "dl_absolute (sdl_current (pc_deadlines (fst cs_resumed))) = 900"
  by code_simp+

theorem pc_universe_matches_witness:
  "\<exists>p. fst (pc_reschedule (fst cs_woken) (fst (snd cs_woken)) cs_translations cs_epochs 300 (snd (snd cs_woken)) 900) = Inr p \<and>
     commit_result (\<lambda>_. True) p 300 = (True, [set_timer 600, install_translation 4096 ep_one_epoch])"
proof -
  let ?r = "fst (pc_reschedule (fst cs_woken) (fst (snd cs_woken)) cs_translations cs_epochs 300 (snd (snd cs_woken)) 900)"
  obtain p where p: "?r = Inr p" "pb_root (pr_translation p) = 4096" "pb_epoch (pr_translation p) = ep_one_epoch"
    using cs_resumed_evaluated(1) by (cases ?r) auto
  have co: "pc_coordinate cs_translations cs_epochs 300 (fst cs_woken, fst (snd cs_woken), snd (snd cs_woken)) (Inr p)
      (fst cs_resumed, fst (snd cs_resumed), snd (snd cs_resumed))"
    using cs_switches(2) p(1) by simp
  have run: "pc_step\<^sup>*\<^sup>* (pc_empty, sched_empty, zero_frame) (fst cs_woken, fst (snd cs_woken), snd (snd cs_woken))"
    using cs_woken_reachable by simp
  show ?thesis
    using pc_universe_matches [OF run cs_translations_reachable co, where ok = "\<lambda>_. True"] p cs_resumed_evaluated(2,3)
    by (simp add: Let_def)
qed

text \<open>Both threads block: the coordinator is not asked again with success.\<close>

definition cs_idle :: pc_state where
  "cs_idle = (case cs_waiting of (c, s, live) \<Rightarrow> (c, snd (sched_update s 2 False 5), live))"

lemma cs_idle_reachable: "pc_step\<^sup>*\<^sup>* (pc_empty, sched_empty, zero_frame) cs_idle"
proof -
  obtain c s l where st: "cs_waiting = (c, s, l)" by (metis prod_cases3)
  have "pc_step\<^sup>*\<^sup>* cs_waiting cs_idle" unfolding cs_idle_def st prod.case by (rule pc_steps_update)
  with cs_waiting_reachable show ?thesis by (rule rtranclp_trans)
qed

lemma cs_idle_evaluated:
  "pc_running (fst cs_idle) = 7" "sched_running (fst (snd cs_idle)) = 7"
  "list_all (\<lambda>x. ss_occupied x \<longrightarrow> \<not> ss_runnable x) (sched_slots (fst (snd cs_idle)))"
  by code_simp+

theorem pc_idle_wedges_witness:
  "fst (pc_reschedule (fst cs_idle) (fst (snd cs_idle)) cs_translations cs_epochs 200 (snd (snd cs_idle)) 0) =
     Inl pc_no_runnable_thread \<and>
   (let (c, s, live) = snd (pc_reschedule (fst cs_idle) (fst (snd cs_idle)) cs_translations cs_epochs 200
          (snd (snd cs_idle)) 0);
        s2 = snd (sched_update s 7 True 5)
    in \<exists>e. pc_reschedule c s2 cs_translations cs_epochs 300 live 0 = (Inl e, c, s2, live))"
proof -
  obtain c s live where st: "cs_idle = (c, s, live)" by (metis prod_cases3)
  obtain r c' s' live' where re: "pc_reschedule c s cs_translations cs_epochs 200 live 0 = (r, c', s', live')"
    by (metis prod_cases4)
  let ?s2 = "snd (sched_update s' 7 True 5)"
  obtain r2 st2 where re2: "pc_reschedule c' ?s2 cs_translations cs_epochs 300 live' 0 = (r2, st2)" by (metis surj_pair)
  have co: "pc_coordinate cs_translations cs_epochs 300 (c', ?s2, live') r2 st2"
    using coordinate_reschedule [of cs_translations cs_epochs 300 c' ?s2 live' 0] re2 by simp
  have run: "pc_step\<^sup>*\<^sup>* (pc_empty, sched_empty, zero_frame) (c, s, live)"
    using cs_idle_reachable by (simp add: st)
  have sok: "sched_ok s" using pc_run_ok [OF run] by (simp add: pc_state_ok_def)
  have no: "\<forall>t x. sched_view s t = Some x \<longrightarrow> \<not> ss_runnable x"
    using cs_idle_evaluated(3) sched_view_iff [OF sok] by (auto simp: st list_all_iff)
  have up: "(\<lambda>a b. \<exists>t q p. b = snd (sched_update a t q p))\<^sup>*\<^sup>* s' ?s2" by (intro r_into_rtranclp) blast
  have "r = Inl pc_no_runnable_thread \<and> (\<exists>e. r2 = Inl e) \<and> st2 = (c', ?s2, live')"
    by (rule pc_idle_wedges [OF run _ _ no re up co]) (use cs_idle_evaluated in \<open>simp_all add: st\<close>)
  then show ?thesis using re re2 by (simp add: st Let_def)
qed

end
