(* ===== verification/Scheduler_Fairness.thy ===== *)
theory Scheduler_Fairness
  imports Scheduler
begin

text \<open>
  That the scheduler of scheduler.hpp/.cpp starves nobody it should serve: among the most urgent runnable
  threads the turn comes round.  The argument counts the threads that are at least as early
  in the round-robin order; every decision after a used slice takes one of them away.
\<close>

section \<open>Slices are bounded\<close>

definition sched_slices :: "Scheduler \<Rightarrow> bool" where
  "sched_slices s \<longleftrightarrow> (\<forall>t x. sched_view s t = Some x \<longrightarrow> ss_remaining x \<le> default_slice_nanoseconds)"

lemma sched_charged_remaining: "ss_remaining (sched_charged s now x) \<le> ss_remaining x"
proof -
  have "a - b \<le> a" if "\<not> b \<ge> a" for a b :: u64
    using that by (simp add: not_le word_sub_le less_imp_le)
  then show ?thesis by (simp add: sched_charged_def Let_def)
qed

lemma sched_method_slices:
  assumes "sched_method s s'" "sched_ok s" "sched_slices s"
  shows "sched_slices s'"
  using assms
proof (induction rule: sched_method.induct)
  case (admit s t p)
  show ?case
  proof (cases "fst (sched_admit s t p) = Inr ()")
    case False
    with sched_admit_view(3) [OF admit(1)] admit show ?thesis by simp
  next
    case True
    then show ?thesis using sched_admit_view(2) [OF admit(1) True] admit(2) by (auto simp: sched_slices_def)
  qed
next
  case (retire s t)
  then show ?case using sched_retire_view(2) [OF retire(1)] by (auto simp: sched_slices_def)
next
  case (update s t r p)
  then show ?case using sched_update_view(2) [OF update(1)] by (auto simp: sched_slices_def split: if_splits)
next
  case (yield_slice s t)
  then show ?case using sched_yield_view(2) [OF yield_slice(1)] by (auto simp: sched_slices_def split: if_splits)
next
  case (choose s now)
  obtain c where c: "sched_after s now c (snd (sched_choose s now))" using sched_choose_after [OF choose(1)] by blast
  have "ss_remaining y \<le> 2000000" if y: "sched_view (snd (sched_choose s now)) t = Some y" for t y
  proof (cases "sched_view s t")
    case None
    with sched_after_None [OF c] y show ?thesis by simp
  next
    case (Some x)
    with sched_after_Some [OF c] y have r: "sched_refilled c (sched_next_sequence s) (sched_charged s now x) y"
      by fastforce
    have "ss_remaining x \<le> 2000000" using choose(2) Some by (auto simp: sched_slices_def)
    then show ?thesis using r sched_charged_remaining [of s now x]
      by (auto simp: sched_refilled_def split: if_splits)
  qed
  then show ?case by (simp add: sched_slices_def)
qed

lemma sched_run_slices: "(sched_method ^^ n) sched_empty s \<Longrightarrow> sched_slices s"
proof (induction n arbitrary: s)
  case 0
  then have "s = sched_empty" by simp
  then show ?case by (simp add: sched_slices_def sched_empty_def sched_view_def sct.view_blank)
next
  case (Suc n)
  then obtain r where r: "(sched_method ^^ n) sched_empty r" "sched_method r s" by auto
  then have "sched_ok r" using sched_run_ok relpowp_imp_rtranclp by metis
  with sched_method_slices [OF r(2)] Suc.IH [OF r(1)] show ?case by simp
qed

section \<open>One decision after a used slice\<close>

text \<open>The threads, other than \<open>t\<close>, that come no later than \<open>t\<close> at its own urgency.\<close>

definition sched_ahead :: "Scheduler \<Rightarrow> ThreadId \<Rightarrow> SchedSlot \<Rightarrow> ThreadId set" where
  "sched_ahead s t x = {u. u \<noteq> t \<and> (\<exists>y. sched_view s u = Some y \<and> ss_runnable y \<and>
     ss_effective y = ss_effective x \<and> ss_sequence y \<le> ss_sequence x)}"

text \<open>A state just after a decision, in which \<open>t\<close> waits for its turn among the most urgent.\<close>

definition sched_waiting :: "Scheduler \<Rightarrow> u64 \<Rightarrow> ThreadId \<Rightarrow> SchedSlot \<Rightarrow> bool" where
  "sched_waiting s now t x \<longleftrightarrow> sched_ok s \<and> sched_fresh s \<and> sched_slices s \<and> sched_have_decided s \<and>
     sched_last_decision s = now \<and> (\<forall>u y. sched_view s u = Some y \<longrightarrow> ss_remaining y \<noteq> 0) \<and>
     sched_view s t = Some x \<and> ss_runnable x \<and>
     (\<forall>u y. sched_view s u = Some y \<longrightarrow> ss_runnable y \<longrightarrow> ss_effective y \<le> ss_effective x) \<and>
     (\<exists>c. sched_view s (sched_running s) = Some c \<and> ss_runnable c \<and> sched_beats c x)"

lemma finite_sched_view: "finite (dom (sched_view s))" and card_sched_view: "sched_ok s \<Longrightarrow> card (dom (sched_view s)) \<le> 64"
proof -
  have sub: "dom (sched_view s) \<subseteq> ss_thread ` set (sched_slots s)"
  proof
    fix t assume "t \<in> dom (sched_view s)"
    then obtain x where x: "sched_view s t = Some x" by auto
    then obtain i where "sched_find s t = Some i" "sched_slots s ! i = x" using sched_view_find by blast
    then have "x \<in> set (sched_slots s)" by (auto simp: sched_find_def dest: sct.find_SomeD)
    then show "t \<in> ss_thread ` set (sched_slots s)" using sched_view_SomeD [OF x] by auto
  qed
  then show fin: "finite (dom (sched_view s))" by (rule finite_subset) simp
  assume "sched_ok s"
  then have len: "length (sched_slots s) = 64" by (simp add: sched_ok_def slot_ok_def)
  have "card (dom (sched_view s)) \<le> card (ss_thread ` set (sched_slots s))" using sub by (intro card_mono) auto
  also have "\<dots> \<le> card (set (sched_slots s))" by (rule card_image_le) simp
  also have "\<dots> \<le> 64" using card_length [of "sched_slots s"] len by simp
  finally show "card (dom (sched_view s)) \<le> 64" .
qed

lemma sched_ahead_finite: "finite (sched_ahead s t x)"
  by (rule finite_subset [OF _ finite_sched_view [of s]]) (auto simp: sched_ahead_def)

lemma sched_ahead_bound:
  assumes "sched_ok s" "sched_view s t = Some x"
  shows "card (sched_ahead s t x) \<le> 63"
proof -
  have "sched_ahead s t x \<subseteq> dom (sched_view s) - {t}" by (auto simp: sched_ahead_def)
  then have "card (sched_ahead s t x) \<le> card (dom (sched_view s) - {t})"
    using finite_sched_view by (intro card_mono) auto
  then show ?thesis using card_sched_view [OF assms(1)] assms(2) finite_sched_view [of s]
    by (simp add: domI)
qed

text \<open>Every decision gives every slot back unspent and serves somebody at least as early.\<close>

lemma sched_choose_waiting:
  assumes "sched_ok s" "sched_fresh s" "sched_slices s" "unat (sched_next_sequence s) + 64 < 2 ^ 64"
    and "sched_view s t = Some x" "ss_runnable x"
    and "\<forall>u y. sched_view s u = Some y \<longrightarrow> ss_runnable y \<longrightarrow> ss_effective y \<le> ss_effective x"
    and "sched_choose s now = (d, s')"
  shows "sched_running s' = dec_thread d \<and> unat (sched_next_sequence s') \<le> unat (sched_next_sequence s) + 64 \<and>
    (\<exists>x'. sched_waiting s' now t x')"
proof -
  obtain c where c: "sched_after s now c s'" and ok': "sched_ok s'"
    using sched_choose_after [OF assms(1), of now] assms(8) by auto
  have fresh: "sched_fresh s'" "unat (sched_next_sequence s') \<le> unat (sched_next_sequence s) + 64"
    using sched_after_fresh [OF c assms(2,4)] by simp_all
  have slices: "sched_slices s'"
    using sched_method_slices [OF sched_method.choose assms(1,3), of now] assms(8) by simp
  have slot: "\<exists>y. sched_view s u = Some y \<and> ss_remaining z \<noteq> 0 \<and> ss_runnable z = ss_runnable y \<and>
      ss_effective z = ss_effective y" if z: "sched_view s' u = Some z" for u z
  proof (cases "sched_view s u")
    case None
    with sched_after_None [OF c] z show ?thesis by simp
  next
    case (Some y)
    have occ: "ss_occupied y" using sched_view_SomeD [OF Some] by simp
    from Some sched_after_Some [OF c] z have "sched_refilled c (sched_next_sequence s) (sched_charged s now y) z"
      by fastforce
    with Some occ show ?thesis by (auto simp: sched_refilled_def split: if_splits)
  qed
  obtain x' where x': "sched_view s' t = Some x'" using sched_after_Some [OF c assms(5)] by blast
  with slot [OF x'] assms(5) have x'e: "ss_runnable x'" "ss_effective x' = ss_effective x" using assms(6) by auto
  have top: "ss_effective z \<le> ss_effective x'" if "sched_view s' u = Some z" "ss_runnable z" for u z
    using slot [OF that(1)] that(2) assms(7) x'e(2) by auto
  note dec = sched_choose_decision [OF assms(1,8)]
  have "dec_thread d \<noteq> invalid_thread" using dec x' x'e(1) by blast
  with dec obtain b where b: "sched_view s' (dec_thread d) = Some b" "ss_runnable b"
    "\<forall>u z. sched_view s' u = Some z \<longrightarrow> ss_runnable z \<longrightarrow> ss_effective z < ss_effective b \<or>
       ss_effective z = ss_effective b \<and> ss_sequence b \<le> ss_sequence z" by blast
  have run: "sched_running s' = dec_thread d" using dec by blast
  have "sched_beats b x'" using b(3) x' x'e(1) by (auto simp: sched_beats_def)
  moreover have "sched_have_decided s'" "sched_last_decision s' = now"
    using sched_choose_fields(5,6) [OF assms(1), of now] assms(8) by simp_all
  ultimately have "sched_waiting s' now t x'"
    unfolding sched_waiting_def run using ok' fresh(1) slices slot x' x'e(1) top b(1,2) by blast
  with run fresh(2) show ?thesis by blast
qed

lemma sched_waiting_step:
  assumes "sched_waiting s now t x" "sched_running s \<noteq> t" "unat (sched_next_sequence s) + 64 < 2 ^ 64"
    and "unat now + 2000000 \<le> unat now'" "sched_choose s now' = (d, s')"
  shows "sched_waiting s' now' t x \<and> sched_running s' = dec_thread d \<and>
    unat (sched_next_sequence s') \<le> unat (sched_next_sequence s) + 64 \<and>
    card (sched_ahead s' t x) < card (sched_ahead s t x)"
proof -
  let ?r = "sched_running s"
  have ok: "sched_ok s" and fr: "sched_fresh s" and sl: "sched_slices s"
    and st: "sched_have_decided s" "sched_last_decision s = now"
    and full: "\<And>u y. sched_view s u = Some y \<Longrightarrow> ss_remaining y \<noteq> 0"
    and x: "sched_view s t = Some x" "ss_runnable x"
    and top: "\<forall>u y. sched_view s u = Some y \<longrightarrow> ss_runnable y \<longrightarrow> ss_effective y \<le> ss_effective x"
    using assms(1) unfolding sched_waiting_def by blast+
  obtain b where b: "sched_view s ?r = Some b" "ss_runnable b" "sched_beats b x"
    using assms(1) by (auto simp: sched_waiting_def)
  obtain c where c: "sched_after s now' c s'"
    using sched_choose_after [OF ok, of now'] assms(5) by auto
  from sched_choose_waiting [OF ok fr sl assms(3) x top assms(5)] obtain x' where
    w: "sched_running s' = dec_thread d" "unat (sched_next_sequence s') \<le> unat (sched_next_sequence s) + 64"
      "sched_waiting s' now' t x'" by blast
  have other: "sched_view s' u = sched_view s u" if "u \<noteq> ?r" for u
  proof (cases "sched_view s u")
    case None
    with sched_after_None [OF c] show ?thesis by simp
  next
    case (Some y)
    have "ss_thread y = u" using sched_view_SomeD [OF Some] by simp
    then have "sched_charged s now' y = y" using that by (simp add: sched_charged_def sched_running_def)
    with sched_after_Some [OF c Some] full [OF Some] Some show ?thesis by (auto simp: sched_refilled_def)
  qed
  have x': "x' = x" using w(3) other [of t] x(1) assms(2) by (auto simp: sched_waiting_def)
  have "unat (now' - now) = unat now' - unat now" using assms(4) by (intro unat_sub) (simp add: word_le_nat_alt)
  then have el: "now' \<ge> now" "now' - now \<ge> 2000000"
    using assms(4) by (simp_all add: word_le_nat_alt)
  have "ss_remaining b \<le> 2000000" using sl b(1) by (auto simp: sched_slices_def)
  then have "ss_remaining (sched_charged s now' b) = 0"
    using el st sched_view_SomeD [OF b(1)] by (auto simp: sched_charged_def Let_def sched_running_def)
  then obtain k where k: "k < c" "sched_view s' ?r =
      Some ((sched_charged s now' b)\<lparr>ss_remaining := 2000000, ss_sequence := sched_next_sequence s + of_nat k\<rparr>)"
    using sched_after_Some [OF c b(1)] sched_view_SomeD [OF b(1)] by (auto simp: sched_refilled_def)
  have "unat (sched_next_sequence s + of_nat k) = unat (sched_next_sequence s) + k"
    using k(1) c assms(3) by (intro word_add_of_nat_bound) (simp add: sched_after_def)
  moreover have "ss_sequence x < sched_next_sequence s" using fr x(1) by (auto simp: sched_fresh_def)
  ultimately have late: "\<not> sched_next_sequence s + of_nat k \<le> ss_sequence x"
    by (simp add: word_le_nat_alt word_less_nat_alt)
  have "?r \<in> sched_ahead s t x"
    using b top assms(2) by (fastforce simp: sched_ahead_def sched_beats_def)
  moreover have "sched_ahead s' t x \<subseteq> sched_ahead s t x - {?r}"
  proof
    fix u assume u: "u \<in> sched_ahead s' t x"
    then have "u \<noteq> ?r" using k(2) late by (auto simp: sched_ahead_def)
    with u other [of u] show "u \<in> sched_ahead s t x - {?r}" by (auto simp: sched_ahead_def)
  qed
  ultimately have "card (sched_ahead s' t x) < card (sched_ahead s t x)"
    by (intro psubset_card_mono sched_ahead_finite) auto
  with w x' show ?thesis by simp
qed

section \<open>The turn comes round\<close>

fun sched_decisions :: "Scheduler \<Rightarrow> u64 list \<Rightarrow> ThreadId list" where
  "sched_decisions s [] = []"
| "sched_decisions s (now # ts) =
     (let (d, s') = sched_choose s now in dec_thread d # sched_decisions s' ts)"

text \<open>Times that are at least a slice apart.\<close>

fun slices_apart :: "u64 \<Rightarrow> u64 list \<Rightarrow> bool" where
  "slices_apart now [] = True"
| "slices_apart now (t # ts) \<longleftrightarrow> unat now + 2000000 \<le> unat t \<and> slices_apart t ts"

lemma sched_waiting_served:
  assumes "sched_waiting s now t x" "sched_running s \<noteq> t" "slices_apart now ts"
    and "card (sched_ahead s t x) \<le> length ts"
    and "unat (sched_next_sequence s) + 64 * length ts < 2 ^ 64"
  shows "t \<in> set (sched_decisions s ts)"
  using assms
proof (induction ts arbitrary: s now)
  case Nil
  then obtain b where "sched_view s (sched_running s) = Some b" "ss_runnable b" "sched_beats b x"
    and "\<forall>u y. sched_view s u = Some y \<longrightarrow> ss_runnable y \<longrightarrow> ss_effective y \<le> ss_effective x"
    by (auto simp: sched_waiting_def)
  then have "sched_running s \<in> sched_ahead s t x"
    using Nil(2) by (fastforce simp: sched_ahead_def sched_beats_def)
  with Nil(4) sched_ahead_finite [of s t x] show ?case by auto
next
  case (Cons now' ts)
  obtain d s' where ch: "sched_choose s now' = (d, s')" by fastforce
  have "unat (sched_next_sequence s) + 64 < 2 ^ 64" "unat now + 2000000 \<le> unat now'"
    using Cons.prems(3,5) by simp_all
  from sched_waiting_step [OF Cons.prems(1,2) this ch]
  have w: "sched_waiting s' now' t x" "sched_running s' = dec_thread d"
    "unat (sched_next_sequence s') \<le> unat (sched_next_sequence s) + 64"
    "card (sched_ahead s' t x) < card (sched_ahead s t x)" by blast+
  show ?case
  proof (cases "dec_thread d = t")
    case True
    then show ?thesis by (simp add: ch)
  next
    case False
    with Cons.IH [OF w(1)] w Cons.prems show ?thesis by (simp add: ch)
  qed
qed

text \<open>C9: The scheduler starves no thread it should serve.  Take any state reached by fewer than 2^57
  operations and a runnable thread such that no runnable thread is more urgent.  If decisions are then
  taken at any times at least a slice apart (every chosen thread uses its slice up), the thread is
  among the first 64 chosen.\<close>

theorem sched_round_robin:
  assumes "(sched_method ^^ n) sched_empty s" "n < 2 ^ 57"
    and "sched_view s t = Some x" "ss_runnable x"
    and "\<forall>u y. sched_view s u = Some y \<longrightarrow> ss_runnable y \<longrightarrow> ss_effective y \<le> ss_effective x"
    and "slices_apart now ts" "length ts = 63"
  shows "t \<in> set (sched_decisions s (now # ts))"
proof -
  have s: "sched_ok s" "sched_fresh s" "sched_slices s" "unat (sched_next_sequence s) \<le> 1 + 64 * n"
    using sched_run_fresh [OF assms(1,2)] sched_run_slices [OF assms(1)] by simp_all
  then have room: "unat (sched_next_sequence s) + 64 * 65 < 2 ^ 64" using assms(2) by simp
  obtain d s' where ch: "sched_choose s now = (d, s')" by fastforce
  from sched_choose_waiting [OF s(1-3) _ assms(3,4,5) ch] room obtain x' where
    w: "sched_running s' = dec_thread d" "unat (sched_next_sequence s') \<le> unat (sched_next_sequence s) + 64"
      "sched_waiting s' now t x'" by auto
  show ?thesis
  proof (cases "dec_thread d = t")
    case False
    have "card (sched_ahead s' t x') \<le> 63"
      using w(3) by (intro sched_ahead_bound) (simp_all add: sched_waiting_def)
    with sched_waiting_served [OF w(3) _ assms(6)] False w room assms(7) show ?thesis by (simp add: ch)
  qed (simp add: ch)
qed

definition fair_times :: "u64 list" where
  "fair_times = map (\<lambda>k. of_nat (3000000 * k)) [1..<64]"

lemma slices_apart_multiples:
  "unat now + 2000000 \<le> 3000000 * m \<Longrightarrow> 3000000 * n < 2 ^ 64 \<Longrightarrow>
   slices_apart now (map (\<lambda>k. of_nat (3000000 * k)) [m..<n])"
proof (induction "n - m" arbitrary: now m)
  case (Suc l)
  then have "m < n" by simp
  moreover have u: "unat (of_nat (3000000 * m) :: u64) = 3000000 * m"
    using Suc.prems(2) \<open>m < n\<close> by (subst unat_of_nat) (simp add: take_bit_nat_eq_self del: of_nat_mult)
  moreover have "slices_apart (of_nat (3000000 * m)) (map (\<lambda>k. of_nat (3000000 * k)) [Suc m..<n])"
    using Suc u by (intro Suc.hyps(1)) simp_all
  ultimately show ?case using Suc.prems(1) by (simp add: upt_conv_Cons del: of_nat_mult)
qed simp

theorem sched_round_robin_witness: "2 \<in> set (sched_decisions sched_example (100 # fair_times))"
proof (rule sched_round_robin [OF sched_example_run _ sched_example_view(2)])
  have ok: "sched_ok sched_example" using sched_run_ok [OF sched_example_reachable] .
  have "list_all (\<lambda>y. ss_occupied y \<longrightarrow> ss_effective y \<le> 5) (sched_slots sched_example)" by code_simp
  then show "\<forall>u y. sched_view sched_example u = Some y \<longrightarrow> ss_runnable y \<longrightarrow>
      ss_effective y \<le> ss_effective (sched_example_slot 2 2)"
    using sched_view_iff [OF ok] by (auto simp: list_all_iff sched_example_slot_def)
  show "slices_apart 100 fair_times"
    unfolding fair_times_def by (rule slices_apart_multiples) simp_all
qed (simp_all add: sched_example_slot_def fair_times_def)

end
