(* ===== verification/Stage1_Descriptors.thy ===== *)
theory Stage1_Descriptors
  imports Process_Space
begin

text \<open>
  The pure part of aarch64_translation.hpp of src/core/oskernel: virtual and physical address
  predicates, table indices, stage-1 descriptors and the control register values built from them, with
  \<open>MachinePermissions\<close> and \<open>MachineMemoryKind\<close> of machine.hpp.  The lemmas show that a
  descriptor carries the physical page it was made from, that no descriptor is both writable and
  executable, that kernel pages are invisible and never executable at EL0 and user pages never
  executable at EL1, and that three indices determine a page of a region.
\<close>

section \<open>Addresses and indices\<close>

abbreviation architectural_page_size :: u64 where "architectural_page_size \<equiv> 4096"
abbreviation user_virtual_limit :: u64 where "user_virtual_limit \<equiv> 0x8000000000"
abbreviation kernel_virtual_base :: u64 where "kernel_virtual_base \<equiv> - 1 - (user_virtual_limit - 1)"

definition user_stage1_virtual_address :: "u64 \<Rightarrow> bool" where
  "user_stage1_virtual_address value \<longleftrightarrow> value < user_virtual_limit"

definition kernel_stage1_virtual_address :: "u64 \<Rightarrow> bool" where
  "kernel_stage1_virtual_address value \<longleftrightarrow> value \<ge> kernel_virtual_base"

definition stage1_regions_disjoint :: bool where
  "stage1_regions_disjoint \<longleftrightarrow> user_virtual_limit \<le> kernel_virtual_base"

definition level1_index :: "u64 \<Rightarrow> u16" where
  "level1_index va = ucast (and (drop_bit 30 va) 0x1FF)"

definition level2_index :: "u64 \<Rightarrow> u16" where
  "level2_index va = ucast (and (drop_bit 21 va) 0x1FF)"

definition level3_index :: "u64 \<Rightarrow> u16" where
  "level3_index va = ucast (and (drop_bit 12 va) 0x1FF)"

section \<open>Descriptors\<close>

datatype MachinePermissions = mp_read | mp_read_write | mp_read_execute | mp_unnamed u8
datatype MachineMemoryKind = mk_normal | mk_device | mk_unnamed u8

abbreviation d_valid :: u64 where "d_valid \<equiv> 1"
abbreviation d_table_or_page :: u64 where "d_table_or_page \<equiv> 2"
abbreviation d_attr_index_shift :: nat where "d_attr_index_shift \<equiv> 2"
abbreviation d_ap_el1_rw_el0_none :: u64 where "d_ap_el1_rw_el0_none \<equiv> 0"
abbreviation d_ap_el1_rw_el0_rw :: u64 where "d_ap_el1_rw_el0_rw \<equiv> 0x40"
abbreviation d_ap_el1_ro_el0_none :: u64 where "d_ap_el1_ro_el0_none \<equiv> 0x80"
abbreviation d_ap_el1_ro_el0_ro :: u64 where "d_ap_el1_ro_el0_ro \<equiv> 0xC0"
abbreviation d_share_outer :: u64 where "d_share_outer \<equiv> 0x200"
abbreviation d_share_inner :: u64 where "d_share_inner \<equiv> 0x300"
abbreviation d_access_flag :: u64 where "d_access_flag \<equiv> 0x400"
abbreviation d_not_global :: u64 where "d_not_global \<equiv> 0x800"
abbreviation d_privileged_execute_never :: u64 where "d_privileged_execute_never \<equiv> 0x20000000000000"
abbreviation d_unprivileged_execute_never :: u64 where "d_unprivileged_execute_never \<equiv> 0x40000000000000"

abbreviation mair_normal_index :: u64 where "mair_normal_index \<equiv> 0"
abbreviation mair_device_index :: u64 where "mair_device_index \<equiv> 1"

definition table_descriptor :: "u64 \<Rightarrow> u64" where
  "table_descriptor next_table_pa =
     (if \<not> stage1_physical_address next_table_pa then 0
      else (next_table_pa AND page_address_mask) OR d_valid OR d_table_or_page)"

definition page_descriptor :: "u64 \<Rightarrow> MachinePermissions \<Rightarrow> MachineMemoryKind \<Rightarrow> u64" where
  "page_descriptor pa permissions kind =
     (if \<not> stage1_physical_address pa then 0
      else let value = (pa AND page_address_mask) OR d_valid OR d_table_or_page OR d_access_flag OR
                 d_not_global OR d_unprivileged_execute_never
      in case (case kind of
                 mk_normal \<Rightarrow> Some (value OR push_bit d_attr_index_shift mair_normal_index OR d_share_inner)
               | mk_device \<Rightarrow> Some (value OR push_bit d_attr_index_shift mair_device_index OR d_share_outer)
               | mk_unnamed _ \<Rightarrow> None) of
           None \<Rightarrow> 0
         | Some value \<Rightarrow>
             (case permissions of
                mp_read \<Rightarrow> value OR (d_ap_el1_ro_el0_none OR d_privileged_execute_never)
              | mp_read_write \<Rightarrow> value OR (d_ap_el1_rw_el0_none OR d_privileged_execute_never)
              | mp_read_execute \<Rightarrow> if kind \<noteq> mk_normal then 0 else value OR d_ap_el1_ro_el0_none
              | mp_unnamed _ \<Rightarrow> 0))"

definition user_page_descriptor :: "u64 \<Rightarrow> MachinePermissions \<Rightarrow> u64" where
  "user_page_descriptor pa permissions =
     (if \<not> stage1_physical_address pa then 0
      else let value = (pa AND page_address_mask) OR d_valid OR d_table_or_page OR d_access_flag OR
                 d_not_global OR push_bit d_attr_index_shift mair_normal_index OR d_share_inner OR
                 d_privileged_execute_never
      in case permissions of
           mp_read \<Rightarrow> value OR d_ap_el1_ro_el0_ro OR d_unprivileged_execute_never
         | mp_read_write \<Rightarrow> value OR d_ap_el1_rw_el0_rw OR d_unprivileged_execute_never
         | mp_read_execute \<Rightarrow> value OR d_ap_el1_ro_el0_ro
         | mp_unnamed _ \<Rightarrow> 0)"

section \<open>Control registers\<close>

abbreviation stage1_t0sz :: u64 where "stage1_t0sz \<equiv> 25"
abbreviation stage1_t1sz :: u64 where "stage1_t1sz \<equiv> 25"

definition cookie_ips :: "u8 \<Rightarrow> u8" where
  "cookie_ips hardware_parange = (if hardware_parange \<le> 5 then hardware_parange else 5)"

definition tcr_el1_for_ips :: "u8 \<Rightarrow> u64" where
  "tcr_el1_for_ips ips =
     (if ips > 5 then 0
      else stage1_t0sz OR push_bit 8 1 OR push_bit 10 1 OR push_bit 12 3 OR push_bit 23 1 OR
           push_bit 32 (ucast ips))"

definition split_tcr_el1_for_ips :: "u8 \<Rightarrow> u64" where
  "split_tcr_el1_for_ips ips =
     (if ips > 5 then 0
      else stage1_t0sz OR push_bit 8 1 OR push_bit 10 1 OR push_bit 12 3 OR
           push_bit 16 stage1_t1sz OR push_bit 24 1 OR push_bit 26 1 OR push_bit 28 3 OR push_bit 30 2 OR
           push_bit 32 (ucast ips))"

definition cookie_sctlr_el1 :: "bool \<Rightarrow> u64" where
  "cookie_sctlr_el1 privileged_access_never =
     (let established = 0x30D00800 OR push_bit 0 1 OR push_bit 2 1 OR push_bit 3 1 OR push_bit 4 1 OR
            push_bit 12 1 OR push_bit 16 1 OR push_bit 18 1 OR push_bit 19 1
      in if privileged_access_never then established AND NOT (push_bit 23 1) else established)"

definition cookie_cpacr_el1 :: u64 where
  "cookie_cpacr_el1 = push_bit 28 1"

section \<open>Words and pages\<close>

lemma page_masks: "(4096 - 1 :: u64) = mask 12" "(0x0000FFFFFFFFF000 :: u64) = mask 48 AND NOT (mask 12)"
  by (simp_all add: mask_eq_exp_minus_1)

lemma page_aligned_mod: "page_aligned v \<longleftrightarrow> unat v mod 4096 = 0"
proof -
  have "v AND page_mask = take_bit 12 v" by (simp only: page_masks(1) take_bit_eq_mask)
  moreover have "unat (take_bit 12 v) = unat v mod 4096"
    by (simp add: take_bit_eq_mod unat_mod)
  ultimately show ?thesis unfolding page_aligned_def by (metis unat_eq_0)
qed

lemma physical_bits:
  "stage1_physical_address v \<longleftrightarrow> (\<forall>n. n < 64 \<longrightarrow> (n < 12 \<or> 48 \<le> n) \<longrightarrow> \<not> bit v n)"
proof
  assume a: "stage1_physical_address v"
  show "\<forall>n. n < 64 \<longrightarrow> (n < 12 \<or> 48 \<le> n) \<longrightarrow> \<not> bit v n"
  proof (intro allI impI notI)
    fix n assume n: "n < 64" "n < 12 \<or> 48 \<le> n" "bit v n"
    have "bit (v AND NOT (mask 48 AND NOT (mask 12))) n"
      using n by (auto simp: bit_and_iff bit_or_iff bit_not_iff bit_mask_iff)
    then show False using a by (simp add: stage1_physical_address_def page_masks(2) [symmetric])
  qed
next
  assume b: "\<forall>n. n < 64 \<longrightarrow> (n < 12 \<or> 48 \<le> n) \<longrightarrow> \<not> bit v n"
  have "v AND mask 12 = 0"
    using b by (auto intro!: bit_word_eqI simp: bit_and_iff bit_mask_iff)
  moreover have "v AND NOT (mask 48 AND NOT (mask 12)) = 0"
    using b by (auto intro!: bit_word_eqI simp: bit_and_iff bit_or_iff bit_not_iff bit_mask_iff)
  ultimately show "stage1_physical_address v"
    unfolding stage1_physical_address_def page_aligned_def page_masks by simp
qed

lemma physical_mod: "stage1_physical_address v \<longleftrightarrow> unat v mod 4096 = 0 \<and> unat v < 2 ^ 48"
proof -
  have low: "(\<forall>n < 12. \<not> bit v n) \<longleftrightarrow> unat v mod 4096 = 0"
  proof -
    have "take_bit 12 v = 0 \<longleftrightarrow> (\<forall>n < 12. \<not> bit v n)"
      by (auto simp: bit_eq_iff bit_take_bit_iff)
    moreover have "unat (take_bit 12 v) = unat v mod 4096" by (simp add: take_bit_eq_mod unat_mod)
    ultimately show ?thesis by (metis unat_eq_0)
  qed
  have high: "(\<forall>n. n < 64 \<longrightarrow> 48 \<le> n \<longrightarrow> \<not> bit v n) \<longleftrightarrow> unat v < 2 ^ 48"
  proof -
    have "take_bit 48 v = v \<longleftrightarrow> (\<forall>n. n < 64 \<longrightarrow> 48 \<le> n \<longrightarrow> \<not> bit v n)"
      by (auto simp: bit_eq_iff bit_take_bit_iff not_le dest: bit_imp_le_length)
    moreover have "unat (take_bit 48 v) = unat v mod 2 ^ 48" by (simp add: take_bit_eq_mod unat_mod)
    ultimately show ?thesis by (metis mod_less mod_less_divisor word_unat_eq_iff zero_less_numeral zero_less_power)
  qed
  show ?thesis unfolding physical_bits low [symmetric] high [symmetric] by fastforce
qed

text \<open>The page a descriptor names is always a physical page address, whatever its other bits.\<close>

lemma masked_physical [simp]: "stage1_physical_address (e AND page_address_mask)"
  unfolding physical_bits page_masks(2) by (auto simp: bit_and_iff bit_not_iff bit_mask_iff)

lemma physical_masked: "stage1_physical_address p \<Longrightarrow> p AND page_address_mask = p"
  unfolding physical_bits page_masks(2)
  by (rule bit_word_eqI) (auto simp: bit_and_iff bit_not_iff bit_mask_iff not_le not_less)

lemma physical_and_zero:
  assumes "stage1_physical_address p" "page_address_mask AND k = 0"
  shows "p AND k = 0"
proof -
  have "p AND k = (p AND page_address_mask) AND k" by (simp only: physical_masked [OF assms(1)])
  also have "\<dots> = p AND (page_address_mask AND k)" by (simp only: and.assoc)
  finally show ?thesis by (simp only: assms(2) and_zero_eq)
qed

text \<open>A descriptor is a physical page and a constant that does not touch the address bits.\<close>

lemma physical_or_page:
  assumes "stage1_physical_address p" "page_address_mask AND c = 0"
  shows "(p OR c) AND page_address_mask = p"
  using assms by (simp only: bit.conj_disj_distrib2 physical_masked and.commute [of c] or.right_neutral)

lemma physical_or_bits:
  assumes "stage1_physical_address p" "page_address_mask AND k = 0"
  shows "(p OR c) AND k = c AND k"
  using physical_and_zero [OF assms] by (simp only: bit.conj_disj_distrib2 or.left_neutral)

definition user_constant :: "MachinePermissions \<Rightarrow> u64 option" where
  "user_constant permissions =
     (case permissions of
        mp_read \<Rightarrow> Some 0x60000000000FC3
      | mp_read_write \<Rightarrow> Some 0x60000000000F43
      | mp_read_execute \<Rightarrow> Some 0x20000000000FC3
      | mp_unnamed _ \<Rightarrow> None)"

lemma user_page_descriptor_constant:
  "user_page_descriptor p permissions =
     (if stage1_physical_address p
      then case user_constant permissions of None \<Rightarrow> 0 | Some c \<Rightarrow> p OR c else 0)"
  by (cases permissions)
     (simp_all add: user_page_descriptor_def user_constant_def Let_def physical_masked or.assoc)

definition kernel_constant :: "MachinePermissions \<Rightarrow> MachineMemoryKind \<Rightarrow> u64 option" where
  "kernel_constant permissions kind =
     (case (kind, permissions) of
        (mk_normal, mp_read) \<Rightarrow> Some 0x60000000000F83
      | (mk_normal, mp_read_write) \<Rightarrow> Some 0x60000000000F03
      | (mk_normal, mp_read_execute) \<Rightarrow> Some 0x40000000000F83
      | (mk_device, mp_read) \<Rightarrow> Some 0x60000000000E87
      | (mk_device, mp_read_write) \<Rightarrow> Some 0x60000000000E07
      | _ \<Rightarrow> None)"

lemma page_descriptor_constant:
  "page_descriptor p permissions kind =
     (if stage1_physical_address p
      then case kernel_constant permissions kind of None \<Rightarrow> 0 | Some c \<Rightarrow> p OR c else 0)"
  by (cases permissions; cases kind)
     (simp_all add: page_descriptor_def kernel_constant_def Let_def physical_masked or.assoc)

lemma descriptor_constants:
  "user_constant permissions = Some c \<Longrightarrow> page_address_mask AND c = 0 \<and> c AND 3 = 3"
  "kernel_constant permissions kind = Some c \<Longrightarrow> page_address_mask AND c = 0 \<and> c AND 3 = 3"
  by (auto simp: user_constant_def kernel_constant_def
      split: MachinePermissions.splits MachineMemoryKind.splits)

section \<open>What a descriptor permits\<close>

text \<open>The architecture's reading of a page descriptor: AP[1] opens the page to EL0, AP[2] makes it
  read-only, UXN and PXN forbid execution at EL0 and at EL1.\<close>

definition el0_accessible :: "u64 \<Rightarrow> bool" where "el0_accessible d \<longleftrightarrow> d AND 0x40 \<noteq> 0"
definition writable :: "u64 \<Rightarrow> bool" where "writable d \<longleftrightarrow> d AND 0x80 = 0"
definition el0_executable :: "u64 \<Rightarrow> bool" where "el0_executable d \<longleftrightarrow> d AND d_unprivileged_execute_never = 0"
definition el1_executable :: "u64 \<Rightarrow> bool" where "el1_executable d \<longleftrightarrow> d AND d_privileged_execute_never = 0"

lemmas descriptor_bits = el0_accessible_def writable_def el0_executable_def el1_executable_def

lemma physical_or_nonzero:
  assumes "stage1_physical_address p" "c AND 3 = 3"
  shows "p OR c \<noteq> 0"
proof -
  have "(p OR c) AND 3 = 3" using physical_or_bits [OF assms(1), of 3 c] assms(2) by simp
  then show ?thesis by auto
qed

text \<open>No page is writable and executable, and the two privilege levels do not run each other's pages.
  A user descriptor is made exactly for a physical page address and one of the three named permissions;
  it names that page, is open to EL0, tagged with the address space (not global), never executable in
  the kernel, writable exactly for read-write and executable exactly for read-execute.  A kernel
  descriptor (never for executable device memory) names its page, is closed to EL0, never executable
  at EL0, writable exactly for read-write and executable in the kernel exactly for
  read-execute.\<close>

theorem descriptors_write_xor_execute:
  "(user_page_descriptor p perm \<noteq> 0 \<longleftrightarrow>
      stage1_physical_address p \<and> perm \<in> {mp_read, mp_read_write, mp_read_execute}) \<and>
   (page_descriptor p perm kind \<noteq> 0 \<longleftrightarrow>
      stage1_physical_address p \<and> perm \<in> {mp_read, mp_read_write, mp_read_execute} \<and>
      kind \<in> {mk_normal, mk_device} \<and> (perm, kind) \<noteq> (mp_read_execute, mk_device)) \<and>
   (let d = user_page_descriptor p perm in d = 0 \<or>
      d AND page_address_mask = p \<and> d AND 3 = 3 \<and> d AND d_not_global \<noteq> 0 \<and> el0_accessible d \<and>
      \<not> el1_executable d \<and> (writable d \<longleftrightarrow> perm = mp_read_write) \<and> (el0_executable d \<longleftrightarrow> perm = mp_read_execute)) \<and>
   (let d = page_descriptor p perm kind in d = 0 \<or>
      d AND page_address_mask = p \<and> d AND 3 = 3 \<and> d AND d_not_global \<noteq> 0 \<and> \<not> el0_accessible d \<and>
      \<not> el0_executable d \<and> (writable d \<longleftrightarrow> perm = mp_read_write) \<and> (el1_executable d \<longleftrightarrow> perm = mp_read_execute))"
proof (cases "stage1_physical_address p")
  case True
  note phys = physical_or_nonzero [OF True] physical_or_page [OF True] physical_or_bits [OF True]
  note cdef = user_constant_def kernel_constant_def
  have "user_page_descriptor p perm \<noteq> 0 \<longleftrightarrow> perm \<in> {mp_read, mp_read_write, mp_read_execute}"
    by (cases perm) (simp_all add: user_page_descriptor_constant True cdef phys(1))
  moreover have "page_descriptor p perm kind \<noteq> 0 \<longleftrightarrow> perm \<in> {mp_read, mp_read_write, mp_read_execute} \<and>
      kind \<in> {mk_normal, mk_device} \<and> (perm, kind) \<noteq> (mp_read_execute, mk_device)"
    by (cases perm; cases kind) (simp_all add: page_descriptor_constant True cdef phys(1))
  moreover have "let d = user_page_descriptor p perm in d = 0 \<or>
      d AND page_address_mask = p \<and> d AND 3 = 3 \<and> d AND d_not_global \<noteq> 0 \<and> el0_accessible d \<and>
      \<not> el1_executable d \<and> (writable d \<longleftrightarrow> perm = mp_read_write) \<and> (el0_executable d \<longleftrightarrow> perm = mp_read_execute)"
    by (cases perm)
       (simp_all add: user_page_descriptor_constant True cdef phys(2,3) Let_def descriptor_bits)
  moreover have "let d = page_descriptor p perm kind in d = 0 \<or>
      d AND page_address_mask = p \<and> d AND 3 = 3 \<and> d AND d_not_global \<noteq> 0 \<and> \<not> el0_accessible d \<and>
      \<not> el0_executable d \<and> (writable d \<longleftrightarrow> perm = mp_read_write) \<and> (el1_executable d \<longleftrightarrow> perm = mp_read_execute)"
    by (cases perm; cases kind)
       (simp_all add: page_descriptor_constant True cdef phys(2,3) Let_def descriptor_bits)
  ultimately show ?thesis using True by blast
qed (simp add: user_page_descriptor_constant page_descriptor_constant Let_def)

section \<open>Indices and entries\<close>

lemma index_nat:
  "unat (level1_index va) = unat va div 2 ^ 30 mod 512"
  "unat (level2_index va) = unat va div 2 ^ 21 mod 512"
  "unat (level3_index va) = unat va div 2 ^ 12 mod 512"
proof -
  have m: "unat (ucast (and (drop_bit k va) 0x1FF) :: u16) = unat va div 2 ^ k mod 512" for k
  proof -
    have "and (drop_bit k va) 0x1FF = take_bit 9 (drop_bit k va)"
      by (simp add: take_bit_eq_mask mask_eq_exp_minus_1)
    moreover have "unat (take_bit 9 (drop_bit k va)) = unat va div 2 ^ k mod 512"
    proof -
      have "unat va < 2 ^ 64" using unsigned_less [of va] by simp
      then have "take_bit 64 (unat va) = unat va" by (rule take_bit_nat_eq_self)
      then have "unat (drop_bit k va) = unat va div 2 ^ k"
        unfolding unsigned_drop_bit_eq by (simp add: drop_bit_eq_div)
      then show ?thesis by (simp add: take_bit_eq_mod unat_mod)
    qed
    ultimately show ?thesis by (simp add: unsigned_ucast_eq take_bit_nat_eq_self)
  qed
  show "unat (level1_index va) = unat va div 2 ^ 30 mod 512"
    "unat (level2_index va) = unat va div 2 ^ 21 mod 512"
    "unat (level3_index va) = unat va div 2 ^ 12 mod 512"
    by (simp_all only: level1_index_def level2_index_def level3_index_def m)
qed

lemma index_bound: "unat (level1_index va) < 512" "unat (level2_index va) < 512" "unat (level3_index va) < 512"
  by (simp_all add: index_nat)

text \<open>The three indices of a page of one region determine the page.\<close>

lemma indices_determine_page:
  assumes "page_aligned v" "page_aligned w"
    and "user_stage1_virtual_address v \<and> user_stage1_virtual_address w \<or>
      kernel_stage1_virtual_address v \<and> kernel_stage1_virtual_address w"
    and "level1_index v = level1_index w" "level2_index v = level2_index w" "level3_index v = level3_index w"
  shows "v = w"
proof -
  have parts: "x mod 2 ^ 39 = x div 2 ^ 30 mod 512 * 2 ^ 30 + x div 2 ^ 21 mod 512 * 2 ^ 21 +
      x div 2 ^ 12 mod 512 * 2 ^ 12 + x mod 4096" for x :: nat
  proof -
    have "x mod (2 ^ 30 * 512) = 2 ^ 30 * (x div 2 ^ 30 mod 512) + x mod 2 ^ 30" by (rule mod_mult2_eq)
    moreover have "x mod (2 ^ 21 * 512) = 2 ^ 21 * (x div 2 ^ 21 mod 512) + x mod 2 ^ 21" by (rule mod_mult2_eq)
    moreover have "x mod (2 ^ 12 * 512) = 2 ^ 12 * (x div 2 ^ 12 mod 512) + x mod 2 ^ 12" by (rule mod_mult2_eq)
    ultimately show ?thesis by simp
  qed
  have "unat v mod 2 ^ 39 = unat w mod 2 ^ 39"
    using assms(1,2) assms(4-6) [THEN arg_cong [where f = unat]]
    by (simp only: parts index_nat page_aligned_mod)
  moreover have "unat v div 2 ^ 39 = unat w div 2 ^ 39"
  proof -
    have k: "unat x div 2 ^ 39 = 2 ^ 25 - 1" if "kernel_stage1_virtual_address x" for x
    proof -
      have "unat x \<ge> 2 ^ 64 - 2 ^ 39" "unat x < 2 ^ 64"
        using that unsigned_less [of x] by (simp_all add: kernel_stage1_virtual_address_def word_le_nat_alt)
      then show ?thesis by simp
    qed
    have u: "unat x div 2 ^ 39 = 0" if "user_stage1_virtual_address x" for x
      using that by (simp add: user_stage1_virtual_address_def word_less_nat_alt)
    from assms(3) k u show ?thesis by auto
  qed
  ultimately have "unat v = unat w" by (metis div_mult_mod_eq)
  then show ?thesis by (rule unsigned_word_eqI)
qed

text \<open>Where an entry of a table lies: tables on different pages share none.\<close>

definition entry_at :: "u64 \<Rightarrow> u16 \<Rightarrow> u64" where
  "entry_at table i = table + 8 * ucast i"

lemma entry_at_nat:
  assumes "stage1_physical_address t" "unat i < 512"
  shows "unat (entry_at t i) = unat t + 8 * unat i"
proof -
  have "unat (8 * ucast i :: u64) = 8 * unat i"
    using assms(2) by (simp add: unat_word_ariths unsigned_ucast_eq take_bit_nat_eq_self)
  moreover have "unat t < 2 ^ 48" using assms(1) by (simp add: physical_mod)
  ultimately show ?thesis using assms(2) by (simp add: entry_at_def unat_word_ariths)
qed

lemma entry_at_page:
  assumes "stage1_physical_address t" "unat i < 512"
  shows "unat (entry_at t i) div 4096 * 4096 = unat t" "unat (entry_at t i) mod 4096 = 8 * unat i"
proof -
  obtain k where k: "unat t = 4096 * k" using assms(1) by (auto simp: physical_mod)
  then have "unat (entry_at t i) = 4096 * k + 8 * unat i" using entry_at_nat [OF assms] by simp
  moreover have "8 * unat i < 4096" using assms(2) by simp
  ultimately show "unat (entry_at t i) div 4096 * 4096 = unat t" "unat (entry_at t i) mod 4096 = 8 * unat i"
    using k by simp_all
qed

lemma entry_at_inj:
  assumes "stage1_physical_address s" "unat i < 512" "stage1_physical_address t" "unat j < 512"
  shows "entry_at s i = entry_at t j \<longleftrightarrow> s = t \<and> i = j"
proof
  assume e: "entry_at s i = entry_at t j"
  have "unat s = unat t" using entry_at_page(1) [OF assms(1,2)] entry_at_page(1) [OF assms(3,4)] e by simp
  moreover have "unat i = unat j" using entry_at_page(2) [OF assms(1,2)] entry_at_page(2) [OF assms(3,4)] e by simp
  ultimately show "s = t \<and> i = j" by (simp add: unsigned_word_eqI)
qed simp

end
