(* ===== verification/Page_Tables.thy ===== *)
theory Page_Tables
  imports Stage1_Descriptors
begin

text \<open>
  aarch64_page_tables.hpp of src/core/oskernel: \<open>EarlyPageArena\<close> (prefix \<open>ar_\<close>), which hands out the pages
  translation tables are made of, and \<open>EarlyStage1Builder\<close> (prefix \<open>sb_\<close>), which builds a three-level
  translation tree in them.  Physical memory is a function from the address of a 64-bit word to the
  word; a builder's methods take and return it and the arena the builder is attached to.  The
  lemmas show that the tree implements a partial map from pages to descriptors: installing adds
  exactly one translation, removing takes exactly one away, a failure changes none, and a
  sealed tree keeps every translation it has.
\<close>

section \<open>The page arena\<close>

abbreviation max_donated_table_pages :: nat where "max_donated_table_pages \<equiv> 64"

abbreviation "me_invalid_range \<equiv> kernel_error 2"
abbreviation "me_alignment \<equiv> kernel_error 3"
abbreviation "me_exhausted \<equiv> kernel_error 4"
abbreviation "me_already_mapped \<equiv> kernel_error 5"
abbreviation "me_not_mapped \<equiv> kernel_error 6"
abbreviation "me_address_space_unbound \<equiv> kernel_error 10"
abbreviation "me_mapping_ledger_inconsistent \<equiv> kernel_error 12"

record EarlyPageArena =
  ar_next :: u64
  ar_end :: u64
  ar_donated :: "u64 list"
  ar_donated_count :: size_t

definition ar_empty :: EarlyPageArena where
  "ar_empty = \<lparr>ar_next = 0, ar_end = 0, ar_donated = replicate max_donated_table_pages 0, ar_donated_count = 0\<rparr>"

definition ar_bump_valid :: "EarlyPageArena \<Rightarrow> bool" where
  "ar_bump_valid a \<longleftrightarrow> page_aligned (ar_next a) \<and> page_aligned (ar_end a) \<and> ar_next a < ar_end a \<and>
     stage1_physical_address (ar_next a) \<and> ar_end a - architectural_page_size \<le> page_address_mask"

definition ar_bind :: "EarlyPageArena \<Rightarrow> u64 \<Rightarrow> u64 \<Rightarrow> unit result \<times> EarlyPageArena" where
  "ar_bind a lo hi =
     (if ar_next a \<noteq> 0 \<or> ar_end a \<noteq> 0 then (Inl me_already_mapped, a)
      else let b = a\<lparr>ar_next := lo, ar_end := hi\<rparr>
           in if \<not> ar_bump_valid b then (Inl me_invalid_range, b\<lparr>ar_next := 0, ar_end := 0\<rparr>)
              else (Inr (), b))"

definition ar_valid :: "EarlyPageArena \<Rightarrow> bool" where
  "ar_valid a \<longleftrightarrow> ar_bump_valid a \<or> ar_donated_count a \<noteq> 0"

definition ar_donate :: "EarlyPageArena \<Rightarrow> u64 \<Rightarrow> unit result \<times> EarlyPageArena" where
  "ar_donate a physical =
     (if \<not> page_aligned physical \<or> \<not> stage1_physical_address physical \<or> physical = 0
      then (Inl me_invalid_range, a)
      else if list_ex (\<lambda>p. p = physical) (take (unat (ar_donated_count a)) (ar_donated a))
      then (Inl me_already_mapped, a)
      else if ar_bump_valid a \<and> physical \<ge> ar_next a \<and> physical < ar_end a then (Inl me_already_mapped, a)
      else if unat (ar_donated_count a) \<ge> max_donated_table_pages then (Inl me_exhausted, a)
      else (Inr (), a\<lparr>ar_donated := (ar_donated a)[unat (ar_donated_count a) := physical],
                      ar_donated_count := ar_donated_count a + 1\<rparr>))"

definition ar_allocate_page :: "EarlyPageArena \<Rightarrow> u64 result \<times> EarlyPageArena" where
  "ar_allocate_page a =
     (if ar_donated_count a \<noteq> 0
      then let n = ar_donated_count a - 1
           in (Inr (ar_donated a ! unat n), a\<lparr>ar_donated_count := n\<rparr>)
      else if \<not> ar_bump_valid a \<or> ar_next a > ar_end a - architectural_page_size then (Inl me_exhausted, a)
      else (Inr (ar_next a), a\<lparr>ar_next := ar_next a + architectural_page_size\<rparr>))"

definition ar_remaining_pages :: "EarlyPageArena \<Rightarrow> size_t" where
  "ar_remaining_pages a =
     (if ar_bump_valid a then (ar_end a - ar_next a) div architectural_page_size else 0) + ar_donated_count a"

section \<open>The builder\<close>

abbreviation "tr_sealed \<equiv> kernel_error 100"
abbreviation "tr_not_sealed \<equiv> kernel_error 101"
abbreviation "tr_retiring \<equiv> kernel_error 102"
abbreviation "tr_wrong_region \<equiv> kernel_error 103"

datatype Stage1Region = region_lower | region_upper
datatype Lifecycle = lc_uninitialized | lc_building | lc_sealed | lc_retiring

type_synonym memory = "u64 \<Rightarrow> u64"

text \<open>\<open>sb_attached\<close> says that the builder holds a pointer to an arena; the arena itself is passed along.\<close>

record EarlyStage1Builder =
  sb_attached :: bool
  sb_root :: u64
  sb_lifecycle :: Lifecycle
  sb_region :: Stage1Region

definition sb_empty :: EarlyStage1Builder where
  "sb_empty = \<lparr>sb_attached = False, sb_root = 0, sb_lifecycle = lc_uninitialized, sb_region = region_lower\<rparr>"

definition sb_attach_arena ::
  "EarlyStage1Builder \<Rightarrow> EarlyPageArena \<Rightarrow> Stage1Region \<Rightarrow> unit result \<times> EarlyStage1Builder" where
  "sb_attach_arena b arena region =
     (if sb_attached b \<or> sb_root b \<noteq> 0 \<or> sb_lifecycle b \<noteq> lc_uninitialized then (Inl me_already_mapped, b)
      else if \<not> ar_valid arena then (Inl me_invalid_range, b)
      else (Inr (), b\<lparr>sb_attached := True, sb_region := region\<rparr>))"

definition zero_table :: "memory \<Rightarrow> u64 \<Rightarrow> memory" where
  "zero_table mem physical = fold (\<lambda>i m. m(entry_at physical (of_nat i) := 0)) [0..<512] mem"

definition sb_initialize ::
  "EarlyStage1Builder \<Rightarrow> EarlyPageArena \<Rightarrow> memory \<Rightarrow>
   u64 result \<times> EarlyStage1Builder \<times> EarlyPageArena \<times> memory" where
  "sb_initialize b arena mem =
     (if \<not> sb_attached b \<or> \<not> ar_valid arena then (Inl me_invalid_range, b, arena, mem)
      else if sb_root b \<noteq> 0 \<or> sb_lifecycle b \<noteq> lc_uninitialized then (Inl me_already_mapped, b, arena, mem)
      else case ar_allocate_page arena of
          (Inl e, arena) \<Rightarrow> (Inl e, b, arena, mem)
        | (Inr page, arena) \<Rightarrow>
            (Inr page, b\<lparr>sb_root := page, sb_lifecycle := lc_building\<rparr>, arena, zero_table mem page))"

definition sb_seal :: "EarlyStage1Builder \<Rightarrow> unit result \<times> EarlyStage1Builder" where
  "sb_seal b =
     (if sb_lifecycle b = lc_sealed then (Inl tr_sealed, b)
      else if sb_lifecycle b = lc_retiring then (Inl tr_retiring, b)
      else if sb_lifecycle b \<noteq> lc_building \<or> sb_root b = 0 then (Inl me_address_space_unbound, b)
      else (Inr (), b\<lparr>sb_lifecycle := lc_sealed\<rparr>))"

definition sb_begin_retire :: "EarlyStage1Builder \<Rightarrow> unit result \<times> EarlyStage1Builder" where
  "sb_begin_retire b =
     (if sb_lifecycle b = lc_retiring then (Inl tr_retiring, b)
      else if sb_lifecycle b \<noteq> lc_sealed then (Inl tr_not_sealed, b)
      else (Inr (), b\<lparr>sb_lifecycle := lc_retiring\<rparr>))"

definition sb_accepts_virtual_address :: "EarlyStage1Builder \<Rightarrow> u64 \<Rightarrow> bool" where
  "sb_accepts_virtual_address b va =
     (if sb_region b = region_lower then user_stage1_virtual_address va else kernel_stage1_virtual_address va)"

definition sb_require_backable :: "EarlyStage1Builder \<Rightarrow> unit result" where
  "sb_require_backable b =
     (if sb_lifecycle b = lc_retiring then Inl tr_retiring
      else if sb_lifecycle b \<noteq> lc_building \<and> sb_lifecycle b \<noteq> lc_sealed then Inl me_address_space_unbound
      else Inr ())"

definition sb_require_building :: "EarlyStage1Builder \<Rightarrow> unit result" where
  "sb_require_building b =
     (if sb_lifecycle b = lc_sealed then Inl tr_sealed
      else if sb_lifecycle b = lc_retiring then Inl tr_retiring
      else if sb_lifecycle b \<noteq> lc_building then Inl me_address_space_unbound
      else Inr ())"

text \<open>\<open>ensure_next_table\<close> takes the entry by reference: here, by its address.\<close>

definition sb_ensure_next_table ::
  "EarlyStage1Builder \<Rightarrow> EarlyPageArena \<Rightarrow> memory \<Rightarrow> u64 \<Rightarrow> u64 result \<times> EarlyPageArena \<times> memory" where
  "sb_ensure_next_table b arena mem entry =
     (if mem entry AND d_valid \<noteq> 0
      then if mem entry AND d_table_or_page = 0 then (Inl me_mapping_ledger_inconsistent, arena, mem)
           else if \<not> stage1_physical_address (mem entry AND page_address_mask)
           then (Inl me_mapping_ledger_inconsistent, arena, mem)
           else (Inr (mem entry AND page_address_mask), arena, mem)
      else if \<not> sb_attached b then (Inl me_address_space_unbound, arena, mem)
      else case ar_allocate_page arena of
          (Inl e, arena) \<Rightarrow> (Inl e, arena, mem)
        | (Inr page, arena) \<Rightarrow>
            (Inr page, arena, (zero_table mem page)(entry := page OR d_valid OR d_table_or_page)))"

definition sb_install_leaf ::
  "EarlyStage1Builder \<Rightarrow> EarlyPageArena \<Rightarrow> memory \<Rightarrow> u64 \<Rightarrow> u64 \<Rightarrow> unit result \<times> EarlyPageArena \<times> memory" where
  "sb_install_leaf b arena mem va leaf =
     (if sb_root b = 0 then (Inl me_address_space_unbound, arena, mem)
      else if \<not> page_aligned va \<or> \<not> sb_accepts_virtual_address b va then (Inl me_alignment, arena, mem)
      else if leaf = 0 then (Inl me_invalid_range, arena, mem)
      else case sb_ensure_next_table b arena mem (entry_at (sb_root b) (level1_index va)) of
          (Inl e, arena, mem) \<Rightarrow> (Inl e, arena, mem)
        | (Inr l2, arena, mem) \<Rightarrow>
      (case sb_ensure_next_table b arena mem (entry_at l2 (level2_index va)) of
          (Inl e, arena, mem) \<Rightarrow> (Inl e, arena, mem)
        | (Inr l3, arena, mem) \<Rightarrow>
            (let entry = entry_at l3 (level3_index va)
             in if mem entry AND d_valid \<noteq> 0 then (Inl me_already_mapped, arena, mem)
                else (Inr (), arena, mem(entry := leaf)))))"

text \<open>\<open>leaf_pointer\<close> returns a pointer: here, an address.\<close>

definition sb_leaf_pointer :: "EarlyStage1Builder \<Rightarrow> memory \<Rightarrow> u64 \<Rightarrow> u64 result" where
  "sb_leaf_pointer b mem va =
     (if sb_root b = 0 then Inl me_address_space_unbound
      else if \<not> page_aligned va \<or> \<not> sb_accepts_virtual_address b va then Inl me_alignment
      else let l1_entry = mem (entry_at (sb_root b) (level1_index va)) in
      if l1_entry AND d_valid = 0 then Inl me_not_mapped
      else if l1_entry AND d_table_or_page = 0 then Inl me_mapping_ledger_inconsistent
      else let l2 = l1_entry AND page_address_mask in
      if \<not> stage1_physical_address l2 then Inl me_mapping_ledger_inconsistent
      else let l2_entry = mem (entry_at l2 (level2_index va)) in
      if l2_entry AND d_valid = 0 then Inl me_not_mapped
      else if l2_entry AND d_table_or_page = 0 then Inl me_mapping_ledger_inconsistent
      else let l3 = l2_entry AND page_address_mask in
      if \<not> stage1_physical_address l3 then Inl me_mapping_ledger_inconsistent
      else let leaf = entry_at l3 (level3_index va) in
      if mem leaf AND d_valid \<noteq> 0 \<and> mem leaf AND d_table_or_page = 0 then Inl me_mapping_ledger_inconsistent
      else Inr leaf)"

definition sb_map_page ::
  "EarlyStage1Builder \<Rightarrow> EarlyPageArena \<Rightarrow> memory \<Rightarrow> u64 \<Rightarrow> u64 \<Rightarrow> MachinePermissions \<Rightarrow> MachineMemoryKind \<Rightarrow>
   unit result \<times> EarlyPageArena \<times> memory" where
  "sb_map_page b arena mem va pa permissions kind =
     (case sb_require_building b of Inl e \<Rightarrow> (Inl e, arena, mem)
      | Inr _ \<Rightarrow> sb_install_leaf b arena mem va (page_descriptor pa permissions kind))"

definition sb_map_user_page ::
  "EarlyStage1Builder \<Rightarrow> EarlyPageArena \<Rightarrow> memory \<Rightarrow> u64 \<Rightarrow> u64 \<Rightarrow> MachinePermissions \<Rightarrow>
   unit result \<times> EarlyPageArena \<times> memory" where
  "sb_map_user_page b arena mem va pa permissions =
     (case sb_require_building b of Inl e \<Rightarrow> (Inl e, arena, mem)
      | Inr _ \<Rightarrow> if sb_region b \<noteq> region_lower then (Inl tr_wrong_region, arena, mem)
                 else sb_install_leaf b arena mem va (user_page_descriptor pa permissions))"

definition sb_back_absent_user_page ::
  "EarlyStage1Builder \<Rightarrow> EarlyPageArena \<Rightarrow> memory \<Rightarrow> u64 \<Rightarrow> u64 \<Rightarrow> MachinePermissions \<Rightarrow>
   unit result \<times> EarlyPageArena \<times> memory" where
  "sb_back_absent_user_page b arena mem va pa permissions =
     (case sb_require_backable b of Inl e \<Rightarrow> (Inl e, arena, mem)
      | Inr _ \<Rightarrow> if sb_region b \<noteq> region_lower then (Inl tr_wrong_region, arena, mem)
                 else sb_install_leaf b arena mem va (user_page_descriptor pa permissions))"

definition sb_mapped :: "EarlyStage1Builder \<Rightarrow> memory \<Rightarrow> u64 \<Rightarrow> bool result" where
  "sb_mapped b mem va =
     (case sb_leaf_pointer b mem va of
        Inl e \<Rightarrow> if err_code e = err_code me_not_mapped then Inr False else Inl e
      | Inr leaf \<Rightarrow> Inr (mem leaf AND d_valid \<noteq> 0))"

definition sb_unmap_page :: "EarlyStage1Builder \<Rightarrow> memory \<Rightarrow> u64 \<Rightarrow> unit result \<times> memory" where
  "sb_unmap_page b mem va =
     (if sb_lifecycle b = lc_sealed then (Inl tr_sealed, mem)
      else if sb_lifecycle b \<noteq> lc_building \<and> sb_lifecycle b \<noteq> lc_retiring
      then (Inl me_address_space_unbound, mem)
      else case sb_leaf_pointer b mem va of
          Inl e \<Rightarrow> (Inl e, mem)
        | Inr leaf \<Rightarrow> if mem leaf AND d_valid = 0 then (Inl me_not_mapped, mem) else (Inr (), mem(leaf := 0)))"

definition sb_remaining_table_pages :: "EarlyStage1Builder \<Rightarrow> EarlyPageArena \<Rightarrow> size_t" where
  "sb_remaining_table_pages b arena = (if \<not> sb_attached b then 0 else ar_remaining_pages arena)"

definition sb_executable_process_root :: "EarlyStage1Builder \<Rightarrow> bool" where
  "sb_executable_process_root b \<longleftrightarrow> sb_region b = region_lower \<and> sb_root b \<noteq> 0 \<and> sb_lifecycle b = lc_sealed"

definition sb_sealed_kernel_root :: "EarlyStage1Builder \<Rightarrow> bool" where
  "sb_sealed_kernel_root b \<longleftrightarrow> sb_region b = region_upper \<and> sb_root b \<noteq> 0 \<and> sb_lifecycle b = lc_sealed"

section \<open>What the arena still has\<close>

definition ar_pool :: "EarlyPageArena \<Rightarrow> u64 set" where
  "ar_pool a = set (take (unat (ar_donated_count a)) (ar_donated a))"

definition ar_bump :: "EarlyPageArena \<Rightarrow> u64 set" where
  "ar_bump a = (if ar_bump_valid a then {p. page_aligned p \<and> ar_next a \<le> p \<and> p < ar_end a} else {})"

definition ar_free :: "EarlyPageArena \<Rightarrow> u64 set" where
  "ar_free a = ar_pool a \<union> ar_bump a"

definition ar_ok :: "EarlyPageArena \<Rightarrow> bool" where
  "ar_ok a \<longleftrightarrow> length (ar_donated a) = max_donated_table_pages \<and>
     unat (ar_donated_count a) \<le> max_donated_table_pages \<and>
     distinct (take (unat (ar_donated_count a)) (ar_donated a)) \<and>
     (\<forall>p \<in> ar_pool a. stage1_physical_address p \<and> p \<noteq> 0) \<and> ar_pool a \<inter> ar_bump a = {} \<and>
     (ar_bump_valid a \<longrightarrow> ar_next a \<noteq> 0)"

lemma ar_bump_valid_nat:
  "ar_bump_valid a \<longleftrightarrow> unat (ar_next a) mod 4096 = 0 \<and> unat (ar_end a) mod 4096 = 0 \<and>
     unat (ar_next a) < unat (ar_end a) \<and> unat (ar_end a) \<le> 2 ^ 48"
proof (cases "unat (ar_next a) mod 4096 = 0 \<and> unat (ar_end a) mod 4096 = 0 \<and> unat (ar_next a) < unat (ar_end a)")
  case True
  then have "4096 \<le> unat (ar_end a)" by (metis dvd_imp_le gr_implies_not0 mod_0_imp_dvd not_gr_zero)
  then have "unat (ar_end a - 4096) = unat (ar_end a) - 4096" by (simp add: unat_sub word_le_nat_alt)
  then show ?thesis using True
    by (auto simp: ar_bump_valid_def page_aligned_mod physical_mod word_less_nat_alt word_le_nat_alt)
qed (auto simp: ar_bump_valid_def page_aligned_mod word_less_nat_alt)

lemma ar_bump_nat:
  "ar_bump a = (if ar_bump_valid a
     then {p. unat p mod 4096 = 0 \<and> unat (ar_next a) \<le> unat p \<and> unat p < unat (ar_end a)} else {})"
  by (simp add: ar_bump_def page_aligned_mod word_le_nat_alt word_less_nat_alt)

lemma ar_free_physical:
  assumes "ar_ok a" "p \<in> ar_free a"
  shows "stage1_physical_address p \<and> p \<noteq> 0"
proof (cases "p \<in> ar_pool a")
  case False
  then have v: "ar_bump_valid a" "p \<in> ar_bump a" using assms(2) by (auto simp: ar_free_def ar_bump_def split: if_splits)
  then have "ar_next a \<noteq> 0" using assms(1) by (simp add: ar_ok_def)
  then have "unat (ar_next a) \<noteq> 0" by (simp add: unat_eq_0)
  then show ?thesis using v by (auto simp: ar_bump_nat ar_bump_valid_nat physical_mod)
qed (use assms in \<open>auto simp: ar_ok_def\<close>)

lemma ar_allocate_cases:
  assumes ok: "ar_ok a"
  obtains (exhausted) "ar_allocate_page a = (Inl me_exhausted, a)" "ar_free a = {}"
    | (page) p a' where "ar_allocate_page a = (Inr p, a')" "ar_ok a'" "p \<in> ar_free a"
      "ar_free a' = ar_free a - {p}"
proof (cases "ar_donated_count a = 0")
  case False
  define n where "n = unat (ar_donated_count a) - 1"
  have nz: "unat (ar_donated_count a) \<noteq> 0" using False by (simp add: unat_eq_0)
  have n: "unat (ar_donated_count a - 1) = n" "unat (ar_donated_count a) = Suc n" "n < length (ar_donated a)"
    using False nz ok by (auto simp: n_def ar_ok_def unat_minus_one)
  define p where "p = ar_donated a ! n"
  define a' where "a' = a\<lparr>ar_donated_count := ar_donated_count a - 1\<rparr>"
  have take: "take (Suc n) (ar_donated a) = take n (ar_donated a) @ [p]"
    using n(3) by (simp add: take_Suc_conv_app_nth p_def)
  have d: "distinct (take n (ar_donated a))" "p \<notin> set (take n (ar_donated a))"
    using ok n(2) take by (auto simp: ar_ok_def)
  have bump: "ar_bump a' = ar_bump a" "ar_bump_valid a' = ar_bump_valid a"
    by (simp_all add: a'_def ar_bump_def ar_bump_valid_def)
  have pool: "ar_pool a' = ar_pool a - {p}" "p \<in> ar_pool a"
    using n(1,2) take d(2) by (auto simp: ar_pool_def a'_def)
  have "ar_ok a'"
    using ok d n bump pool unfolding ar_ok_def by (auto simp: a'_def)
  moreover have "p \<in> ar_free a" "ar_free a' = ar_free a - {p}"
    using ok pool bump by (auto simp: ar_free_def ar_ok_def)
  moreover have "ar_allocate_page a = (Inr p, a')"
    using False n(1) by (simp add: ar_allocate_page_def Let_def a'_def p_def)
  ultimately show ?thesis using page by blast
next
  case True
  then have pool: "ar_pool a = {}" by (simp add: ar_pool_def)
  show ?thesis
  proof (cases "ar_bump_valid a")
    case False
    then show ?thesis using exhausted True pool by (simp add: ar_allocate_page_def ar_free_def ar_bump_def)
  next
    case v: True
    then have v': "unat (ar_next a) mod 4096 = 0" "unat (ar_end a) mod 4096 = 0"
      "unat (ar_next a) < unat (ar_end a)" "unat (ar_end a) \<le> 2 ^ 48" by (simp_all add: ar_bump_valid_nat)
    then obtain k m where km: "unat (ar_next a) = 4096 * k" "unat (ar_end a) = 4096 * m" "k < m"
      by (metis dvd_def mod_0_imp_dvd mult_less_cancel1)
    have e: "unat (ar_end a - 4096) = unat (ar_end a) - 4096"
      using km by (simp add: unat_sub word_le_nat_alt)
    have s: "unat (ar_next a + 4096) = unat (ar_next a) + 4096"
      using v'(3,4) by (simp add: unat_word_ariths)
    define a' where "a' = a\<lparr>ar_next := ar_next a + 4096\<rparr>"
    have bv: "ar_bump_valid a' \<longleftrightarrow> k + 1 < m"
      using v'(4) km by (auto simp: ar_bump_valid_nat a'_def s)
    have bump: "ar_bump a' = ar_bump a - {ar_next a}"
    proof (rule set_eqI)
      fix p
      show "p \<in> ar_bump a' \<longleftrightarrow> p \<in> ar_bump a - {ar_next a}"
      proof (cases "unat p mod 4096 = 0")
        case True
        then obtain l where l: "unat p = 4096 * l" by auto
        have "p = ar_next a \<longleftrightarrow> l = k" using l km(1) by (auto simp: word_unat_eq_iff)
        then show ?thesis using v bv km l by (auto simp: ar_bump_nat a'_def s)
      qed (auto simp: ar_bump_nat)
    qed
    have p: "ar_next a \<in> ar_bump a" using v v' by (simp add: ar_bump_nat)
    have pool': "ar_pool a' = {}" using True by (simp add: ar_pool_def a'_def)
    have "ar_next a + 4096 \<noteq> 0" using s by (metis add_is_0 unat_0 zero_neq_numeral)
    then have "ar_ok a'" using ok pool' unfolding ar_ok_def by (auto simp: a'_def)
    moreover have "ar_allocate_page a = (Inr (ar_next a), a')"
      using True v e km by (simp add: ar_allocate_page_def a'_def word_less_nat_alt not_less)
    ultimately show ?thesis using page p bump pool pool' by (auto simp: ar_free_def)
  qed
qed

lemma ar_donate_cases:
  assumes ok: "ar_ok a"
  obtains (refused) e where "ar_donate a p = (Inl e, a)"
    | (donated) a' where "ar_donate a p = (Inr (), a')" "ar_ok a'" "p \<notin> ar_free a"
      "ar_free a' = insert p (ar_free a)"
proof (cases "\<exists>e. ar_donate a p = (Inl e, a)")
  case False
  let ?n = "unat (ar_donated_count a)"
  define a' where "a' = a\<lparr>ar_donated := (ar_donated a)[?n := p], ar_donated_count := ar_donated_count a + 1\<rparr>"
  have d: "page_aligned p" "stage1_physical_address p" "p \<noteq> 0" "p \<notin> ar_pool a"
    "\<not> (ar_bump_valid a \<and> p \<ge> ar_next a \<and> p < ar_end a)" "?n < 64" "ar_donate a p = (Inr (), a')"
    using False by (auto simp: ar_donate_def a'_def ar_pool_def list_ex_iff split: if_splits)
  have n: "unat (ar_donated_count a + 1) = Suc ?n" using d(6) by (simp add: unat_word_ariths)
  have len: "?n < length (ar_donated a)" using ok d(6) by (simp add: ar_ok_def)
  have take: "take (Suc ?n) ((ar_donated a)[?n := p]) = take ?n (ar_donated a) @ [p]"
    using len by (simp add: take_Suc_conv_app_nth)
  have pool: "ar_pool a' = insert p (ar_pool a)" using n take by (simp add: ar_pool_def a'_def)
  have bump: "ar_bump a' = ar_bump a" "ar_bump_valid a' = ar_bump_valid a"
    by (simp_all add: a'_def ar_bump_def ar_bump_valid_def)
  have nb: "p \<notin> ar_bump a" using d(5) by (auto simp: ar_bump_def split: if_splits)
  have "distinct (take (Suc ?n) ((ar_donated a)[?n := p]))"
    using ok d(4) take by (simp add: ar_ok_def ar_pool_def)
  then have "ar_ok a'" using ok d(2,3,6) n nb pool bump unfolding ar_ok_def by (auto simp: a'_def)
  then show ?thesis using donated [OF d(7)] d(4) nb pool bump by (simp add: ar_free_def)
qed (use refused in blast)

section \<open>The tree in memory\<close>

text \<open>A path lists table indices, the last one first; \<open>table_of\<close> follows the entries as the hardware
  does.  \<open>walk\<close> is the whole translation of a virtual address.\<close>

definition next_table :: "u64 \<Rightarrow> u64 option" where
  "next_table e = (if e AND 3 = 3 then Some (e AND page_address_mask) else None)"

fun table_of :: "memory \<Rightarrow> u64 \<Rightarrow> u16 list \<Rightarrow> u64 option" where
  "table_of mem root [] = Some root"
| "table_of mem root (i # path) =
     (case table_of mem root path of None \<Rightarrow> None | Some t \<Rightarrow> next_table (mem (entry_at t i)))"

definition walk :: "memory \<Rightarrow> u64 \<Rightarrow> u64 \<Rightarrow> u64 option" where
  "walk mem root va =
     (case table_of mem root [level2_index va, level1_index va] of
        None \<Rightarrow> None
      | Some t \<Rightarrow> let e = mem (entry_at t (level3_index va)) in if e AND 3 = 3 then Some e else None)"

definition path_ok :: "u16 list \<Rightarrow> bool" where
  "path_ok p \<longleftrightarrow> length p \<le> 2 \<and> (\<forall>i \<in> set p. unat i < 512)"

text \<open>The tree is a tree: different paths lead to different tables, none of them a page that is still
  to be handed out, and a valid entry is a table (or, at the last level, a page).\<close>

definition tree_ok :: "memory \<Rightarrow> u64 \<Rightarrow> u64 set \<Rightarrow> bool" where
  "tree_ok mem root free \<longleftrightarrow> stage1_physical_address root \<and> (\<forall>f \<in> free. stage1_physical_address f) \<and>
     (\<forall>p q t. path_ok p \<longrightarrow> path_ok q \<longrightarrow> table_of mem root p = Some t \<longrightarrow> table_of mem root q = Some t \<longrightarrow> p = q) \<and>
     (\<forall>p t. path_ok p \<longrightarrow> table_of mem root p = Some t \<longrightarrow> t \<notin> free) \<and>
     (\<forall>p t i. path_ok p \<longrightarrow> table_of mem root p = Some t \<longrightarrow> unat i < 512 \<longrightarrow>
        mem (entry_at t i) AND 1 \<noteq> 0 \<longrightarrow> mem (entry_at t i) AND 2 \<noteq> 0)"

lemma tree_okD:
  assumes "tree_ok mem root free"
  shows "stage1_physical_address root" "f \<in> free \<Longrightarrow> stage1_physical_address f"
    "\<lbrakk>path_ok p; path_ok q; table_of mem root p = Some t; table_of mem root q = Some t\<rbrakk> \<Longrightarrow> p = q"
    "\<lbrakk>path_ok p; table_of mem root p = Some t\<rbrakk> \<Longrightarrow> t \<notin> free"
    "\<lbrakk>path_ok p; table_of mem root p = Some t; unat i < 512; mem (entry_at t i) AND 1 \<noteq> 0\<rbrakk> \<Longrightarrow>
       mem (entry_at t i) AND 2 \<noteq> 0"
  using assms unfolding tree_ok_def by blast+

lemma path_ok_Cons [simp]: "path_ok (i # p) \<longleftrightarrow> length p \<le> 1 \<and> unat i < 512 \<and> path_ok p"
  and path_ok_Nil [simp]: "path_ok []"
  by (auto simp: path_ok_def)

lemma and_3: "(e :: u64) AND 3 = 3 \<longleftrightarrow> e AND 1 \<noteq> 0 \<and> e AND 2 \<noteq> 0"
proof -
  have m: "(3 :: u64) = mask 2" by (simp add: mask_eq_exp_minus_1)
  have "e AND 3 = 3 \<longleftrightarrow> (\<forall>n < 2. bit e n)"
  proof
    assume eq: "e AND 3 = 3"
    show "\<forall>n < 2. bit e n"
    proof (intro allI impI)
      fix n :: nat assume "n < 2"
      then have "bit (3 :: u64) n" by (simp add: m bit_mask_iff)
      with eq have "bit (e AND 3) n" by simp
      then show "bit e n" by (simp add: bit_and_iff)
    qed
  qed (auto simp: m bit_and_iff bit_mask_iff intro!: bit_word_eqI)
  moreover have "e AND 1 \<noteq> 0 \<longleftrightarrow> bit e 0" "e AND 2 \<noteq> 0 \<longleftrightarrow> bit e 1"
    using and_exp_eq_0_iff_not_bit [of e 0] and_exp_eq_0_iff_not_bit [of e 1] by simp_all
  ultimately show ?thesis by (auto simp: less_2_cases_iff)
qed

lemma table_physical:
  "stage1_physical_address root \<Longrightarrow> table_of mem root p = Some t \<Longrightarrow> stage1_physical_address t"
  by (cases p) (auto simp: next_table_def split: option.splits if_splits)

lemma table_of_append_None: "table_of mem root p = None \<Longrightarrow> table_of mem root (r @ p) = None"
  by (induction r) auto

lemma table_of_cong:
  assumes "\<And>j q t r. p = r @ j # q \<Longrightarrow> table_of mem root q = Some t \<Longrightarrow> mem' (entry_at t j) = mem (entry_at t j)"
  shows "table_of mem' root p = table_of mem root p"
  using assms
proof (induction p)
  case (Cons i p)
  have "table_of mem' root p = table_of mem root p"
  proof (rule Cons.IH)
    fix j q t r assume "p = r @ j # q" "table_of mem root q = Some t"
    then show "mem' (entry_at t j) = mem (entry_at t j)" using Cons.prems [of "i # r" j q t] by simp
  qed
  then show ?case using Cons.prems [of "[]" i p] by (auto split: option.splits)
qed simp

lemma zero_table_at:
  assumes "stage1_physical_address f"
  shows "zero_table mem f x = (if \<exists>i. unat i < 512 \<and> x = entry_at f i then 0 else mem x)"
proof -
  have fold: "fold (\<lambda>i m. m(g i := 0)) xs mem x = (if x \<in> g ` set xs then 0 else mem x)"
    for g :: "nat \<Rightarrow> u64" and xs and mem :: memory
    by (induction xs arbitrary: mem) auto
  have "x \<in> (\<lambda>i. entry_at f (of_nat i)) ` set [0..<512] \<longleftrightarrow> (\<exists>i. unat i < 512 \<and> x = entry_at f i)"
  proof
    assume "\<exists>i. unat i < 512 \<and> x = entry_at f i"
    then obtain i :: u16 where i: "unat i < 512" "x = entry_at f i" by blast
    then have "x = entry_at f (of_nat (unat i))" by simp
    with i(1) show "x \<in> (\<lambda>i. entry_at f (of_nat i)) ` set [0..<512]" by (intro image_eqI) simp_all
  next
    assume "x \<in> (\<lambda>i. entry_at f (of_nat i)) ` set [0..<512]"
    then obtain n where "n < 512" "x = entry_at f (of_nat n)" by auto
    moreover from this have "unat (of_nat n :: u16) = n" by (simp add: unat_of_nat take_bit_nat_eq_self)
    ultimately show "\<exists>i. unat i < 512 \<and> x = entry_at f i" by metis
  qed
  then show ?thesis unfolding zero_table_def fold by simp
qed

subsection \<open>Linking a fresh table\<close>

lemma path_ok_append: "path_ok (r @ q) \<Longrightarrow> path_ok q"
  by (auto simp: path_ok_def)

lemma walk_path_ok: "path_ok [level2_index va, level1_index va]"
  by (simp add: index_bound)

lemma link_table:
  assumes ok: "tree_ok mem root free" and p: "path_ok p" "length p \<le> 1" "table_of mem root p = Some t"
    and i: "unat i < 512" and e: "mem (entry_at t i) AND 1 = 0" and f: "f \<in> free"
  defines "mem' \<equiv> (zero_table mem f)(entry_at t i := f OR 1 OR 2)"
  shows "tree_ok mem' root (free - {f})" "table_of mem' root (i # p) = Some f"
    "walk mem' root = walk mem root"
    "\<And>q. path_ok q \<Longrightarrow> table_of mem root q \<noteq> None \<Longrightarrow> table_of mem' root q = table_of mem root q"
    "\<And>x. mem' x \<noteq> mem x \<Longrightarrow> x = entry_at t i \<or> (\<exists>j. unat j < 512 \<and> x = entry_at f j)"
    "\<And>q u. path_ok q \<Longrightarrow> table_of mem' root q = Some u \<Longrightarrow> table_of mem root q = Some u \<or> q = i # p \<and> u = f"
proof -
  have phys: "stage1_physical_address root" "stage1_physical_address f" "stage1_physical_address t"
    using tree_okD(1,2) [OF ok] f table_physical p(3) by blast+
  have ft: "f \<noteq> t" using tree_okD(4) [OF ok p(1,3)] f by blast
  have at: "mem' (entry_at u j) = (if u = t \<and> j = i then f OR 3 else if u = f then 0 else mem (entry_at u j))"
    if "stage1_physical_address u" "unat j < 512" for u j
  proof -
    have "zero_table mem f (entry_at u j) = (if u = f then 0 else mem (entry_at u j))"
      using that phys(2) by (auto simp: zero_table_at entry_at_inj)
    then show ?thesis using that phys(3) i by (auto simp: mem'_def entry_at_inj)
  qed
  have old: "u \<noteq> f" if "path_ok q" "table_of mem root q = Some u" for q u
    using tree_okD(4) [OF ok that] f by blast
  have other: "table_of mem' root q = table_of mem root q" if q: "path_ok q" "\<nexists>r. q = r @ i # p" for q
  proof (rule table_of_cong)
    fix j q' u r assume s: "q = r @ j # q'" "table_of mem root q' = Some u"
    have q': "path_ok q'" "unat j < 512" using q(1) s(1) path_ok_append [of r "j # q'"] by simp_all
    have "\<not> (u = t \<and> j = i)" using tree_okD(3) [OF ok q'(1) p(1) _ p(3)] s q(2) by blast
    then show "mem' (entry_at u j) = mem (entry_at u j)"
      using at [OF table_physical [OF phys(1) s(2)] q'(2)] old [OF q'(1) s(2)] by auto
  qed
  have "table_of mem' root p = Some t" using other [OF p(1)] p(3) by auto
  moreover have nf: "next_table (f OR 3) = Some f"
    using physical_or_bits [OF phys(2), of 3 3] physical_or_page [OF phys(2), of 3] by (simp add: next_table_def)
  ultimately show self: "table_of mem' root (i # p) = Some f" using at [OF phys(3) i] by simp
  have child: "table_of mem' root (j # i # p) = None" if "unat j < 512" for j
    using self at [OF phys(2) that] ft by (simp add: next_table_def)
  have "mem (entry_at t i) AND 3 \<noteq> 3" using e and_3 by blast
  then have "table_of mem root (i # p) = None" using p(3) by (simp add: next_table_def)
  then have before: "table_of mem root (r @ i # p) = None" for r by (rule table_of_append_None)
  have through: "table_of mem' root q = (if q = i # p then Some f else None)" if "path_ok q" "q = r @ i # p" for q r
  proof (cases r)
    case (Cons j r')
    then have "r' = []" "unat j < 512" using that by (auto simp: path_ok_def)
    then show ?thesis using that(2) Cons child by simp
  qed (use that self in simp)
  show keep: "table_of mem' root q = table_of mem root q" if "path_ok q" "table_of mem root q \<noteq> None" for q
    using that other before by (cases "\<exists>r. q = r @ i # p") auto
  show chara: "table_of mem root q = Some u \<or> q = i # p \<and> u = f"
    if "path_ok q" "table_of mem' root q = Some u" for q u
    using that other [OF that(1)] through [OF that(1)] by (cases "\<exists>r. q = r @ i # p") (auto split: if_splits)
  show "tree_ok mem' root (free - {f})"
    unfolding tree_ok_def
  proof (intro conjI allI impI ballI)
    show "stage1_physical_address root" by fact
    show "stage1_physical_address g" if "g \<in> free - {f}" for g using tree_okD(2) [OF ok] that by blast
    show "q = q'" if "path_ok q" "path_ok q'" "table_of mem' root q = Some u" "table_of mem' root q' = Some u" for q q' u
      using chara [OF that(1,3)] chara [OF that(2,4)] old that(1,2) tree_okD(3) [OF ok that(1,2)] by blast
    show "u \<notin> free - {f}" if "path_ok q" "table_of mem' root q = Some u" for q u
      using chara [OF that] tree_okD(4) [OF ok that(1)] by blast
    show "mem' (entry_at u j) AND 2 \<noteq> 0"
      if q: "path_ok q" "table_of mem' root q = Some u" "unat j < 512" "mem' (entry_at u j) AND 1 \<noteq> 0" for q u j
    proof (cases "u = t \<and> j = i")
      case True
      then show ?thesis using at [OF phys(3) i] physical_or_bits [OF phys(2), of 2 3] by simp
    next
      case False
      note u = at [OF table_physical [OF phys(1) q(2)] q(3)]
      show ?thesis
      proof (cases "u = f")
        case True
        with u ft q(4) show ?thesis by simp
      next
        case uf: False
        then have "table_of mem root q = Some u" using chara [OF q(1,2)] by blast
        with tree_okD(5) [OF ok q(1) _ q(3)] q(4) u False uf show ?thesis by simp
      qed
    qed
  qed
  show "walk mem' root = walk mem root"
  proof
    fix va
    let ?q = "[level2_index va, level1_index va]"
    show "walk mem' root va = walk mem root va"
    proof (cases "\<exists>r. ?q = r @ i # p")
      case True
      then obtain r where r: "?q = r @ i # p" by blast
      have "table_of mem root ?q = None" unfolding r by (rule before)
      moreover have "table_of mem' root ?q = (if ?q = i # p then Some f else None)"
        by (rule through [OF walk_path_ok r])
      ultimately show ?thesis
        using at [OF phys(2) index_bound(3)] ft by (simp add: walk_def Let_def del: table_of.simps)
    next
      case False
      note same = other [OF walk_path_ok False]
      show ?thesis
      proof (cases "table_of mem root ?q")
        case (Some u)
        have "u \<noteq> t" using tree_okD(3) [OF ok walk_path_ok p(1) Some] p(2,3) by force
        then show ?thesis
          using same Some old [OF walk_path_ok Some] at [OF table_physical [OF phys(1) Some] index_bound(3)]
          by (simp add: walk_def del: table_of.simps)
      qed (use same in \<open>simp add: walk_def del: table_of.simps\<close>)
    qed
  qed
  show "x = entry_at t i \<or> (\<exists>j. unat j < 512 \<and> x = entry_at f j)" if "mem' x \<noteq> mem x" for x
    using that zero_table_at [OF phys(2), of mem x] by (auto simp: mem'_def split: if_splits)
qed

text \<open>The words of this tree, and of a set of pages.\<close>

definition tree_words :: "memory \<Rightarrow> u64 \<Rightarrow> u64 set" where
  "tree_words mem root = {entry_at t i |p t i. path_ok p \<and> table_of mem root p = Some t \<and> unat i < 512}"

definition page_words :: "u64 set \<Rightarrow> u64 set" where
  "page_words pages = {entry_at t i |t i. t \<in> pages \<and> unat i < 512}"

lemma tree_words_cong:
  assumes "\<And>q. path_ok q \<Longrightarrow> table_of mem' root q = table_of mem root q"
  shows "tree_words mem' root = tree_words mem root"
  unfolding tree_words_def by (simp add: assms cong: conj_cong)

lemma ensure_next_cases:
  assumes ok: "tree_ok mem root (ar_free a)" "ar_ok a"
    and p: "path_ok p" "length p \<le> 1" "table_of mem root p = Some t" "unat i < 512"
  obtains (refused) e where "sb_ensure_next_table b a mem (entry_at t i) = (Inl e, a, mem)"
      "sb_attached b \<longrightarrow> ar_free a = {}" "table_of mem root (i # p) = None"
    | (table) n a' mem' where "sb_ensure_next_table b a mem (entry_at t i) = (Inr n, a', mem')"
      "tree_ok mem' root (ar_free a')" "ar_ok a'" "ar_free a' \<subseteq> ar_free a" "card (ar_free a) \<le> card (ar_free a') + 1"
      "table_of mem' root (i # p) = Some n"
      "walk mem' root = walk mem root"
      "\<And>x. mem' x \<noteq> mem x \<Longrightarrow> x \<in> tree_words mem root \<union> page_words (ar_free a)"
      "tree_words mem' root \<subseteq> tree_words mem root \<union> page_words (ar_free a)"
      "\<And>q u. path_ok q \<Longrightarrow> table_of mem root q = Some u \<Longrightarrow> table_of mem' root q = Some u"
      "table_of mem root (i # p) \<noteq> None \<longrightarrow> a' = a"
proof (cases "mem (entry_at t i) AND 1 = 0")
  case False
  then have "mem (entry_at t i) AND 2 \<noteq> 0" using tree_okD(5) [OF ok(1) p(1,3,4)] by blast
  with False have "mem (entry_at t i) AND 3 = 3" by (simp add: and_3)
  with p(3) have "table_of mem root (i # p) = Some (mem (entry_at t i) AND page_address_mask)"
    by (simp add: next_table_def)
  moreover have "sb_ensure_next_table b a mem (entry_at t i) = (Inr (mem (entry_at t i) AND page_address_mask), a, mem)"
    using False \<open>mem (entry_at t i) AND 2 \<noteq> 0\<close> by (simp add: sb_ensure_next_table_def)
  ultimately show ?thesis using table [of "mem (entry_at t i) AND page_address_mask" a mem] ok by simp
next
  case True
  then have none: "table_of mem root (i # p) = None" using p(3) and_3 [of "mem (entry_at t i)"] by (simp add: next_table_def)
  show ?thesis
  proof (cases "sb_attached b")
    case False
    with True none refused show ?thesis by (simp add: sb_ensure_next_table_def)
  next
    case att: True
    show ?thesis
    proof (cases rule: ar_allocate_cases [OF ok(2)])
      case 1
      with True att none refused show ?thesis by (simp add: sb_ensure_next_table_def)
    next
      case (2 f a')
      note link = link_table [OF ok(1) p(1-3) p(4) True 2(3)]
      let ?mem = "(zero_table mem f)(entry_at t i := f OR 1 OR 2)"
      have eq: "sb_ensure_next_table b a mem (entry_at t i) = (Inr f, a', ?mem)"
        using True att 2(1) by (simp add: sb_ensure_next_table_def)
      have ti: "entry_at t i \<in> tree_words mem root" using p by (auto simp: tree_words_def)
      have ch: "x \<in> tree_words mem root \<union> page_words (ar_free a)" if "?mem x \<noteq> mem x" for x
        using link(5) [OF that] ti 2(3) by (auto simp: page_words_def)
      have sub: "tree_words ?mem root \<subseteq> tree_words mem root \<union> page_words (ar_free a)"
      proof
        fix x assume "x \<in> tree_words ?mem root"
        then obtain q u j where x: "x = entry_at u j" "path_ok q" "table_of ?mem root q = Some u" "unat j < 512"
          by (auto simp: tree_words_def)
        show "x \<in> tree_words mem root \<union> page_words (ar_free a)"
        proof (cases "u = f")
          case True
          then show ?thesis using x 2(3) by (auto simp: page_words_def)
        next
          case uf: False
          have "table_of mem root q = Some u"
            using link(6) [OF x(2,3)] uf by blast
          then show ?thesis using x by (auto simp: tree_words_def)
        qed
      qed
      show ?thesis
        by (rule table [OF eq _ 2(2) _ _ link(2,3) ch sub])
           (use link(1,4) 2(3,4) none in \<open>auto simp: card_Diff_singleton\<close>)
    qed
  qed
qed

text \<open>Writing an entry of a last-level table changes one translation and no table.\<close>

lemma write_leaf:
  assumes ok: "tree_ok mem root free" and p: "path_ok p" "length p = 2" "table_of mem root p = Some t"
    and i: "unat i < 512" and v: "v AND 1 \<noteq> 0 \<longrightarrow> v AND 2 \<noteq> 0"
  defines "mem' \<equiv> mem(entry_at t i := v)"
  shows "tree_ok mem' root free" "path_ok q \<Longrightarrow> table_of mem' root q = table_of mem root q"
    "walk mem' root va = (if [level2_index va, level1_index va] = p \<and> level3_index va = i
       then if v AND 3 = 3 then Some v else None else walk mem root va)"
proof -
  have phys: "stage1_physical_address root" "stage1_physical_address t"
    using tree_okD(1) [OF ok] table_physical p(3) by blast+
  have at: "mem' (entry_at u j) = (if u = t \<and> j = i then v else mem (entry_at u j))"
    if "stage1_physical_address u" "unat j < 512" for u j
    using that phys(2) i by (simp add: mem'_def entry_at_inj)
  have same: "table_of mem' root q = table_of mem root q" if q: "path_ok q" for q
  proof (rule table_of_cong)
    fix j q' u r assume s: "q = r @ j # q'" "table_of mem root q' = Some u"
    have q': "path_ok q'" "unat j < 512" "length q' \<le> 1"
      using q s(1) path_ok_append [of r "j # q'"] by simp_all
    have "u \<noteq> t" using tree_okD(3) [OF ok q'(1) p(1) s(2)] p(2,3) q'(3) by force
    then show "mem' (entry_at u j) = mem (entry_at u j)"
      using at [OF table_physical [OF phys(1) s(2)] q'(2)] by simp
  qed
  then show "path_ok q \<Longrightarrow> table_of mem' root q = table_of mem root q" by blast
  show "tree_ok mem' root free"
    unfolding tree_ok_def
  proof (intro conjI allI impI ballI)
    show "mem' (entry_at u j) AND 2 \<noteq> 0"
      if q: "path_ok q" "table_of mem' root q = Some u" "unat j < 512" "mem' (entry_at u j) AND 1 \<noteq> 0" for q u j
      using at [OF table_physical [OF phys(1) q(2)] q(3)] q(4) v
        tree_okD(5) [OF ok q(1) q(2) [unfolded same [OF q(1)]] q(3)] by (auto split: if_splits)
  qed (use tree_okD [OF ok] same in \<open>auto 0 3\<close>)
  show "walk mem' root va = (if [level2_index va, level1_index va] = p \<and> level3_index va = i
       then if v AND 3 = 3 then Some v else None else walk mem root va)"
  proof (cases "table_of mem root [level2_index va, level1_index va]")
    case None
    with same [OF walk_path_ok, of va] p(3) show ?thesis by (auto simp: walk_def simp del: table_of.simps)
  next
    case (Some u)
    have "u = t \<longleftrightarrow> [level2_index va, level1_index va] = p"
      using tree_okD(3) [OF ok walk_path_ok p(1) Some] p(3) Some by auto
    then show ?thesis
      using same [OF walk_path_ok, of va] Some at [OF table_physical [OF phys(1) Some] index_bound(3)]
      by (auto simp: walk_def Let_def simp del: table_of.simps)
  qed
qed

section \<open>The tree as a map from pages to descriptors\<close>

definition sb_ok :: "EarlyStage1Builder \<Rightarrow> EarlyPageArena \<Rightarrow> memory \<Rightarrow> bool" where
  "sb_ok b a mem \<longleftrightarrow> ar_ok a \<and> (sb_root b = 0 \<longleftrightarrow> sb_lifecycle b = lc_uninitialized) \<and>
     (sb_root b \<noteq> 0 \<longrightarrow> sb_attached b \<and> tree_ok mem (sb_root b) (ar_free a))"

definition sb_pages :: "EarlyStage1Builder \<Rightarrow> memory \<Rightarrow> u64 \<Rightarrow> u64 option" where
  "sb_pages b mem va =
     (if sb_root b \<noteq> 0 \<and> page_aligned va \<and> sb_accepts_virtual_address b va then walk mem (sb_root b) va else None)"

text \<open>What one call may touch: its own tables and pages it takes from the arena.\<close>

definition sb_frame :: "u64 \<Rightarrow> EarlyPageArena \<Rightarrow> memory \<Rightarrow> EarlyPageArena \<Rightarrow> memory \<Rightarrow> bool" where
  "sb_frame root a mem a' mem' \<longleftrightarrow> ar_free a' \<subseteq> ar_free a \<and>
     (\<forall>x. mem' x \<noteq> mem x \<longrightarrow> x \<in> tree_words mem root \<union> page_words (ar_free a)) \<and>
     tree_words mem' root \<subseteq> tree_words mem root \<union> page_words (ar_free a)"

lemma sb_frame_refl [simp]: "sb_frame root a mem a mem"
  by (auto simp: sb_frame_def)

lemma page_words_mono: "A \<subseteq> B \<Longrightarrow> page_words A \<subseteq> page_words B"
  by (auto simp: page_words_def)

lemma sb_frame_trans:
  assumes "sb_frame root a m b n" "sb_frame root b n c l"
  shows "sb_frame root a m c l"
proof -
  note w = page_words_mono [of "ar_free b" "ar_free a"]
  have "x \<in> tree_words m root \<union> page_words (ar_free a)" if "l x \<noteq> m x" for x
    using assms that w unfolding sb_frame_def by (cases "l x = n x") auto
  then show ?thesis using assms w unfolding sb_frame_def by blast
qed

lemma sb_pages_same_indices:
  assumes "page_aligned va" "sb_accepts_virtual_address b va" "page_aligned w" "sb_accepts_virtual_address b w"
  shows "[level2_index w, level1_index w] = [level2_index va, level1_index va] \<and> level3_index w = level3_index va
    \<longleftrightarrow> w = va"
  using indices_determine_page [of w va] assms
  by (auto simp: sb_accepts_virtual_address_def split: if_splits)

lemma sb_install_cases:
  assumes ok: "sb_ok b a mem" and leaf: "leaf = 0 \<or> leaf AND 3 = 3"
  obtains (refused) e a' mem' where "sb_install_leaf b a mem va leaf = (Inl e, a', mem')" "sb_ok b a' mem'"
      "sb_pages b mem' = sb_pages b mem" "sb_root b \<noteq> 0 \<longrightarrow> sb_frame (sb_root b) a mem a' mem'"
      "sb_root b = 0 \<longrightarrow> a' = a \<and> mem' = mem"
      "sb_root b = 0 \<or> leaf = 0 \<or> \<not> page_aligned va \<or> \<not> sb_accepts_virtual_address b va \<or>
         sb_pages b mem va \<noteq> None \<or> \<not> sb_attached b \<or> card (ar_free a) < 2"
    | (installed) a' mem' where "sb_install_leaf b a mem va leaf = (Inr (), a', mem')" "sb_ok b a' mem'"
      "sb_pages b mem va = None" "sb_pages b mem' = (sb_pages b mem)(va \<mapsto> leaf)" "sb_root b \<noteq> 0"
      "sb_frame (sb_root b) a mem a' mem'"
proof (cases "sb_root b = 0 \<or> \<not> page_aligned va \<or> \<not> sb_accepts_virtual_address b va \<or> leaf = 0")
  case True
  then have "\<exists>e. sb_install_leaf b a mem va leaf = (Inl e, a, mem)"
    by (cases "sb_root b = 0"; cases "page_aligned va \<and> sb_accepts_virtual_address b va")
       (auto simp: sb_install_leaf_def)
  then obtain e where "sb_install_leaf b a mem va leaf = (Inl e, a, mem)" by blast
  then show ?thesis by (rule refused) (use True ok in auto)
next
  case False
  let ?root = "sb_root b" and ?l1 = "level1_index va" and ?l2 = "level2_index va" and ?l3 = "level3_index va"
  have va: "?root \<noteq> 0" "page_aligned va" "sb_accepts_virtual_address b va" "leaf AND 3 = 3" using False leaf by auto
  have t: "tree_ok mem ?root (ar_free a)" "ar_ok a" using ok va(1) by (simp_all add: sb_ok_def)
  have lift: "sb_ok b a1 m1" if "tree_ok m1 ?root (ar_free a1)" "ar_ok a1" for a1 m1
    using that va(1) ok by (simp add: sb_ok_def)
  have pages: "sb_pages b m1 = sb_pages b mem" if "walk m1 ?root = walk mem ?root" for m1
    using that by (simp add: sb_pages_def fun_eq_iff)
  have p1: "path_ok []" "length ([] :: u16 list) \<le> 1" "table_of mem ?root [] = Some ?root" by simp_all
  show ?thesis
  proof (cases rule: ensure_next_cases [OF t p1 index_bound(1), of b va])
    case (1 e)
    have "sb_install_leaf b a mem va leaf = (Inl e, a, mem)"
      using False 1(1) by (simp add: sb_install_leaf_def)
    then show ?thesis by (rule refused) (use ok 1(2) va(1) in auto)
  next
    case (2 l2 a1 m1)
    note first = 2
    have f1: "sb_frame ?root a mem a1 m1" using first by (simp add: sb_frame_def)
    have p2: "path_ok [?l1]" "length [?l1] \<le> 1" using index_bound by simp_all
    show ?thesis
    proof (cases rule: ensure_next_cases [OF first(2,3) p2 first(6) index_bound(2), of b va])
      case (1 e)
      have "sb_install_leaf b a mem va leaf = (Inl e, a1, m1)"
        using False first(1) 1(1) by (simp add: sb_install_leaf_def)
      moreover have "sb_ok b a1 m1" using lift first(2,3) .
      moreover have "sb_pages b m1 = sb_pages b mem" using pages first(7) .
      moreover have "sb_attached b \<longrightarrow> card (ar_free a) < 2" using first(5) 1(2) by auto
      ultimately show ?thesis using f1 va(1) by (intro refused) auto
    next
      case table: (2 l3 a2 m2)
      have f2: "sb_frame ?root a mem a2 m2"
        using table by (intro sb_frame_trans [OF f1]) (simp add: sb_frame_def)
      have w: "walk m2 ?root = walk mem ?root" using table(7) first(7) by simp
      have path: "path_ok [?l2, ?l1]" "table_of m2 ?root [?l2, ?l1] = Some l3"
        using walk_path_ok table(6) by simp_all
      define x where "x = entry_at l3 ?l3"
      have w3: "walk m2 ?root va = (if m2 x AND 3 = 3 then Some (m2 x) else None)"
        using path(2) by (simp add: walk_def Let_def x_def del: table_of.simps)
      have red: "sb_install_leaf b a mem va leaf =
          (if m2 x AND 1 \<noteq> 0 then (Inl me_already_mapped, a2, m2) else (Inr (), a2, m2(x := leaf)))"
        using False first(1) table(1) by (simp add: sb_install_leaf_def Let_def x_def)
      show ?thesis
      proof (cases "m2 x AND 1 = 0")
        case False
        then have "m2 x AND 3 = 3"
          using tree_okD(5) [OF table(2) path index_bound(3), of va] by (simp add: and_3 x_def)
        then have "sb_pages b mem va \<noteq> None" using w3 w va by (simp add: sb_pages_def)
        moreover have "sb_install_leaf b a mem va leaf = (Inl me_already_mapped, a2, m2)"
          using False red by simp
        ultimately show ?thesis
          using lift [OF table(2,3)] pages [OF w] f2 va(1) by (intro refused) simp_all
      next
        case True
        have new: "sb_install_leaf b a mem va leaf = (Inr (), a2, m2(x := leaf))" using True red by simp
        note wr = write_leaf [OF table(2) path(1) _ path(2) index_bound(3) [of va], where v = leaf, folded x_def]
        have v: "leaf AND 1 \<noteq> 0 \<longrightarrow> leaf AND 2 \<noteq> 0" using va(4) by (simp add: and_3)
        have none: "sb_pages b mem va = None" using w3 w True by (simp add: sb_pages_def and_3)
        have upd: "sb_pages b (m2(x := leaf)) = (sb_pages b mem)(va \<mapsto> leaf)"
        proof
          fix u
          show "sb_pages b (m2(x := leaf)) u = ((sb_pages b mem)(va \<mapsto> leaf)) u"
          proof (cases "page_aligned u \<and> sb_accepts_virtual_address b u")
            case True
            then show ?thesis
              using wr(3) [OF _ v, of u] sb_pages_same_indices [OF va(2,3), of u] va w
              by (simp add: sb_pages_def del: list.inject)
          qed (use va in \<open>auto simp: sb_pages_def\<close>)
        qed
        have tw: "tree_words (m2(x := leaf)) ?root = tree_words m2 ?root"
          by (rule tree_words_cong) (rule wr(2) [OF _ v], simp_all)
        have "x \<in> tree_words m2 ?root" using path index_bound(3) unfolding tree_words_def x_def by blast
        then have "sb_frame ?root a2 m2 a2 (m2(x := leaf))"
          using tw by (auto simp: sb_frame_def)
        then have fr: "sb_frame ?root a mem a2 (m2(x := leaf))" by (rule sb_frame_trans [OF f2])
        show ?thesis
          by (rule installed [OF new _ none upd va(1) fr]) (use lift wr(1) [OF _ v] table(3) in simp)
      qed
    qed
  qed
qed

lemma sb_leaf_pointer_cases:
  assumes ok: "sb_ok b a mem"
  obtains (unusable) "sb_root b = 0 \<or> \<not> page_aligned va \<or> \<not> sb_accepts_virtual_address b va"
      "\<exists>e \<in> {me_address_space_unbound, me_alignment}. sb_leaf_pointer b mem va = Inl e" "sb_pages b mem va = None"
    | (absent) "sb_leaf_pointer b mem va = Inl me_not_mapped" "sb_pages b mem va = None" "sb_root b \<noteq> 0"
    | (leaf) t where "sb_leaf_pointer b mem va = Inr (entry_at t (level3_index va))" "sb_root b \<noteq> 0"
      "page_aligned va" "sb_accepts_virtual_address b va"
      "table_of mem (sb_root b) [level2_index va, level1_index va] = Some t"
      "sb_pages b mem va = (if mem (entry_at t (level3_index va)) AND 1 = 0 then None
         else Some (mem (entry_at t (level3_index va))))"
      "mem (entry_at t (level3_index va)) AND 1 \<noteq> 0 \<longrightarrow> mem (entry_at t (level3_index va)) AND 2 \<noteq> 0"
proof (cases "sb_root b = 0 \<or> \<not> page_aligned va \<or> \<not> sb_accepts_virtual_address b va")
  case True
  then have "\<exists>e \<in> {me_address_space_unbound, me_alignment}. sb_leaf_pointer b mem va = Inl e"
    by (cases "sb_root b = 0") (auto simp: sb_leaf_pointer_def)
  then show ?thesis using unusable True by (auto simp: sb_pages_def)
next
  case False
  let ?root = "sb_root b" and ?l1 = "level1_index va" and ?l2 = "level2_index va" and ?l3 = "level3_index va"
  have va: "?root \<noteq> 0" "page_aligned va" "sb_accepts_virtual_address b va" using False by auto
  have t: "tree_ok mem ?root (ar_free a)" using ok va(1) by (simp add: sb_ok_def)
  define e1 where "e1 = mem (entry_at ?root ?l1)"
  define e2 where "e2 = mem (entry_at (e1 AND page_address_mask) ?l2)"
  define x where "x = entry_at (e2 AND page_address_mask) ?l3"
  have g1: "e1 AND 1 \<noteq> 0 \<Longrightarrow> e1 AND 2 \<noteq> 0"
    using tree_okD(5) [OF t, of "[]" ?root ?l1] index_bound by (simp add: e1_def)
  have t1: "table_of mem ?root [?l1] = (if e1 AND 1 = 0 then None else Some (e1 AND page_address_mask))"
    using g1 by (auto simp: next_table_def e1_def [symmetric] and_3)
  have g2: "e2 AND 2 \<noteq> 0" if "e1 AND 1 \<noteq> 0" "e2 AND 1 \<noteq> 0"
    using tree_okD(5) [OF t, of "[?l1]" _ ?l2] t1 that index_bound by (simp add: e2_def)
  have t2: "table_of mem ?root [?l2, ?l1] =
      (if e1 AND 1 = 0 \<or> e2 AND 1 = 0 then None else Some (e2 AND page_address_mask))"
    using g2 t1 by (auto simp: next_table_def e2_def [symmetric] and_3 simp del: table_of.simps(2)
        intro: table_of.simps(2) [THEN trans])
  have ptr: "sb_leaf_pointer b mem va =
      (if e1 AND 1 = 0 \<or> e2 AND 1 = 0 then Inl me_not_mapped
       else if mem x AND 1 \<noteq> 0 \<and> mem x AND 2 = 0 then Inl me_mapping_ledger_inconsistent else Inr x)"
    using False g1 g2 by (auto simp: sb_leaf_pointer_def Let_def e1_def e2_def x_def)
  show ?thesis
  proof (cases "e1 AND 1 = 0 \<or> e2 AND 1 = 0")
    case True
    then show ?thesis using absent ptr t2 va by (simp add: sb_pages_def walk_def del: table_of.simps)
  next
    case some: False
    have g3: "mem x AND 2 \<noteq> 0" if "mem x AND 1 \<noteq> 0"
      using tree_okD(5) [OF t walk_path_ok, of va _ ?l3] t2 some that index_bound(3) by (simp add: x_def del: table_of.simps)
    have pages: "sb_pages b mem va = (if mem x AND 1 = 0 then None else Some (mem x))"
      using t2 some va g3 by (auto simp: sb_pages_def walk_def Let_def x_def [symmetric] and_3 simp del: table_of.simps)
    have "sb_leaf_pointer b mem va = Inr x" using ptr some g3 by auto
    then show ?thesis
      by (rule leaf [of "e2 AND page_address_mask", folded x_def, OF _ va _ pages])
         (use t2 some g3 in \<open>simp_all del: table_of.simps\<close>)
  qed
qed

lemma sb_mapped_pages:
  assumes "sb_ok b a mem" "sb_root b \<noteq> 0" "page_aligned va" "sb_accepts_virtual_address b va"
  shows "sb_mapped b mem va = Inr (sb_pages b mem va \<noteq> None)"
  by (cases rule: sb_leaf_pointer_cases [OF assms(1), of va]) (use assms in \<open>auto simp: sb_mapped_def\<close>)

lemma sb_unmap_cases:
  assumes ok: "sb_ok b a mem"
  obtains (refused) e where "sb_unmap_page b mem va = (Inl e, mem)"
      "sb_lifecycle b = lc_sealed \<or> sb_pages b mem va = None"
    | (unmapped) mem' where "sb_unmap_page b mem va = (Inr (), mem')" "sb_ok b a mem'"
      "sb_pages b mem va \<noteq> None" "sb_pages b mem' = (sb_pages b mem)(va := None)"
      "sb_lifecycle b \<in> {lc_building, lc_retiring}" "sb_frame (sb_root b) a mem a mem'"
proof (cases "sb_lifecycle b \<in> {lc_building, lc_retiring}")
  case False
  then have "\<exists>e. sb_unmap_page b mem va = (Inl e, mem)"
    by (cases "sb_lifecycle b") (auto simp: sb_unmap_page_def)
  moreover have "sb_lifecycle b = lc_sealed \<or> sb_pages b mem va = None"
    using False ok by (cases "sb_lifecycle b") (auto simp: sb_ok_def sb_pages_def)
  ultimately show ?thesis using refused by blast
next
  case True
  then have lc: "sb_lifecycle b \<noteq> lc_sealed" "sb_lifecycle b = lc_building \<or> sb_lifecycle b = lc_retiring" by auto
  show ?thesis
  proof (cases rule: sb_leaf_pointer_cases [OF ok, of va])
    case 1
    then show ?thesis using refused lc by (auto simp: sb_unmap_page_def)
  next
    case 2
    then show ?thesis using refused lc by (auto simp: sb_unmap_page_def)
  next
    case (3 t)
    let ?root = "sb_root b" and ?x = "entry_at t (level3_index va)"
    have tr: "tree_ok mem ?root (ar_free a)" using ok 3(2) by (simp add: sb_ok_def)
    show ?thesis
    proof (cases "mem ?x AND 1 = 0")
      case True
      then show ?thesis using refused [of me_not_mapped] 3(1,6) lc by (auto simp: sb_unmap_page_def)
    next
      case False
      note wr = write_leaf [OF tr walk_path_ok _ 3(5) index_bound(3) [of va], where v = 0]
      let ?mem = "mem(?x := 0)"
      have upd: "sb_pages b ?mem = (sb_pages b mem)(va := None)"
      proof
        fix u
        show "sb_pages b ?mem u = ((sb_pages b mem)(va := None)) u"
        proof (cases "page_aligned u \<and> sb_accepts_virtual_address b u")
          case True
          then show ?thesis
            using wr(3) [of u] sb_pages_same_indices [OF 3(3,4), of u] 3(2)
            by (simp add: sb_pages_def del: list.inject)
        qed (auto simp: sb_pages_def)
      qed
      have tw: "tree_words ?mem ?root = tree_words mem ?root"
        by (rule tree_words_cong) (rule wr(2), simp_all)
      have "?x \<in> tree_words mem ?root"
        using 3(5) walk_path_ok index_bound(3) unfolding tree_words_def by blast
      then have "sb_frame ?root a mem a ?mem" using tw by (auto simp: sb_frame_def)
      moreover have "sb_ok b a ?mem" using ok wr(1) by (simp add: sb_ok_def)
      moreover have "sb_unmap_page b mem va = (Inr (), ?mem)" using False 3(1) lc by (auto simp: sb_unmap_page_def)
      ultimately show ?thesis using unmapped upd False 3(6) \<open>sb_lifecycle b \<in> {lc_building, lc_retiring}\<close> by simp
    qed
  qed
qed

section \<open>Runs\<close>

definition sb_tables :: "EarlyStage1Builder \<Rightarrow> memory \<Rightarrow> u64 set" where
  "sb_tables b mem = (if sb_root b = 0 then {} else {t. \<exists>p. path_ok p \<and> table_of mem (sb_root b) p = Some t})"

type_synonym st_state = "EarlyStage1Builder \<times> EarlyPageArena \<times> memory"

text \<open>The methods of one builder and its arena, and what the rest of the kernel may do meanwhile: give
  the arena pages that are not tables of this tree, take pages from it (another builder may
  share it), and write to memory outside this tree.\<close>

inductive st_step :: "st_state \<Rightarrow> st_state \<Rightarrow> bool" where
  attach: "st_step (b, a, m) (snd (sb_attach_arena b a region), a, m)"
| initialize: "st_step (b, a, m) (snd (sb_initialize b a m))"
| seal: "st_step (b, a, m) (snd (sb_seal b), a, m)"
| begin_retire: "st_step (b, a, m) (snd (sb_begin_retire b), a, m)"
| map_page: "st_step (b, a, m) (b, snd (sb_map_page b a m va pa perm kind))"
| map_user_page: "st_step (b, a, m) (b, snd (sb_map_user_page b a m va pa perm))"
| back_absent: "st_step (b, a, m) (b, snd (sb_back_absent_user_page b a m va pa perm))"
| unmap: "st_step (b, a, m) (b, a, snd (sb_unmap_page b m va))"
| donate: "p \<notin> sb_tables b m \<Longrightarrow> st_step (b, a, m) (b, snd (ar_donate a p), m)"
| bind: "lo \<noteq> 0 \<Longrightarrow> ar_bump (snd (ar_bind a lo hi)) \<inter> (sb_tables b m \<union> ar_pool a) = {} \<Longrightarrow>
    st_step (b, a, m) (b, snd (ar_bind a lo hi), m)"
| environment: "ar_ok a' \<Longrightarrow> ar_free a' \<subseteq> ar_free a \<Longrightarrow>
    (\<forall>x \<in> tree_words m (sb_root b). m' x = m x) \<Longrightarrow> st_step (b, a, m) (b, a', m')"

definition st_empty :: "memory \<Rightarrow> st_state" where
  "st_empty mem = (sb_empty, ar_empty, mem)"

abbreviation st_ok :: "st_state \<Rightarrow> bool" where
  "st_ok st \<equiv> (case st of (b, a, m) \<Rightarrow> sb_ok b a m)"

lemma ar_ok_empty: "ar_ok ar_empty"
  by (simp add: ar_ok_def ar_empty_def ar_pool_def ar_bump_def ar_bump_valid_def)

lemma sb_ok_arena:
  assumes "sb_ok b a m" "ar_ok a'" "ar_free a' \<inter> sb_tables b m = {}"
  shows "sb_ok b a' m"
proof -
  have "tree_ok m (sb_root b) (ar_free a')" if "sb_root b \<noteq> 0"
  proof -
    have t: "tree_ok m (sb_root b) (ar_free a)" using assms(1) that by (simp add: sb_ok_def)
    have "u \<notin> ar_free a'" if "path_ok p" "table_of m (sb_root b) p = Some u" for p u
      using assms(3) that \<open>sb_root b \<noteq> 0\<close> by (auto simp: sb_tables_def)
    then show ?thesis
      using tree_okD(1,3,5) [OF t] ar_free_physical [OF assms(2)] unfolding tree_ok_def by blast
  qed
  then show ?thesis using assms by (simp add: sb_ok_def)
qed

lemma tree_environment:
  assumes "tree_ok m root free" "\<forall>x \<in> tree_words m root. m' x = m x"
  shows "tree_ok m' root free" "walk m' root = walk m root"
proof -
  have at: "m' (entry_at u i) = m (entry_at u i)"
    if "path_ok p" "table_of m root p = Some u" "unat i < 512" for p u i
    using assms(2) that unfolding tree_words_def by blast
  have same: "table_of m' root q = table_of m root q" if "path_ok q" for q
    by (rule table_of_cong) (use that path_ok_append at in fastforce)
  show "tree_ok m' root free"
    unfolding tree_ok_def
  proof (intro conjI allI impI ballI)
    show "m' (entry_at u j) AND 2 \<noteq> 0"
      if q: "path_ok q" "table_of m' root q = Some u" "unat j < 512" "m' (entry_at u j) AND 1 \<noteq> 0" for q u j
      using q at same tree_okD(5) [OF assms(1) q(1) _ q(3)] by metis
  qed (use tree_okD [OF assms(1)] same in \<open>auto 0 3\<close>)
  show "walk m' root = walk m root"
  proof
    fix va
    show "walk m' root va = walk m root va"
      using same [OF walk_path_ok, of va] at [OF walk_path_ok _ index_bound(3), of va]
      by (auto simp: walk_def Let_def simp del: table_of.simps split: option.splits)
  qed
qed

lemma ar_bind_ok:
  assumes "ar_ok a" "lo \<noteq> 0" "ar_bump (snd (ar_bind a lo hi)) \<inter> (T \<union> ar_pool a) = {}" "ar_free a \<inter> T = {}"
  shows "ar_ok (snd (ar_bind a lo hi)) \<and> ar_free (snd (ar_bind a lo hi)) \<inter> T = {}"
proof -
  let ?a = "snd (ar_bind a lo hi)"
  have f: "ar_donated ?a = ar_donated a" "ar_donated_count ?a = ar_donated_count a" "ar_next ?a \<in> {ar_next a, lo, 0}"
    by (auto simp: ar_bind_def Let_def)
  have "\<not> ar_bump_valid ?a" if "ar_next ?a = 0"
    using that assms(1,2) by (auto simp: ar_bind_def Let_def ar_bump_valid_def ar_ok_def split: if_splits)
  moreover have "ar_pool ?a = ar_pool a" using f by (simp add: ar_pool_def)
  ultimately show ?thesis using assms f unfolding ar_ok_def ar_free_def by auto
qed

lemma sb_initialize_cases:
  assumes "sb_ok b a m"
  obtains (refused) e where "sb_initialize b a m = (Inl e, b, a, m)"
    | (root) f a' where "sb_initialize b a m =
        (Inr f, b\<lparr>sb_root := f, sb_lifecycle := lc_building\<rparr>, a', zero_table m f)"
      "sb_ok (b\<lparr>sb_root := f, sb_lifecycle := lc_building\<rparr>) a' (zero_table m f)"
      "sb_root b = 0" "sb_lifecycle b = lc_uninitialized" "walk (zero_table m f) f = Map.empty"
proof (cases "\<not> sb_attached b \<or> \<not> ar_valid a \<or> sb_root b \<noteq> 0 \<or> sb_lifecycle b \<noteq> lc_uninitialized")
  case True
  then have "\<exists>e. sb_initialize b a m = (Inl e, b, a, m)" by (auto simp: sb_initialize_def)
  then show ?thesis using refused by blast
next
  case False
  have ok: "ar_ok a" using assms by (simp add: sb_ok_def)
  show ?thesis
  proof (cases rule: ar_allocate_cases [OF ok])
    case 1
    with False refused show ?thesis by (simp add: sb_initialize_def)
  next
    case (2 f a')
    have f: "stage1_physical_address f" "f \<noteq> 0" using ar_free_physical [OF ok 2(3)] by simp_all
    have z: "zero_table m f (entry_at f i) = 0" if "unat i < 512" for i
      using that f(1) by (auto simp: zero_table_at)
    have tb: "table_of (zero_table m f) f p = (if p = [] then Some f else None)" if "path_ok p" for p
    proof -
      have "table_of (zero_table m f) f [i] = None" if "unat i < 512" for i
        using z [OF that] by (simp add: next_table_def)
      then show ?thesis using that table_of_append_None [of "zero_table m f" f "[last p]" "butlast p"]
        by (cases "p = []") (auto simp: path_ok_def)
    qed
    have "tree_ok (zero_table m f) f (ar_free a')"
      using tb f z 2(4) ar_free_physical [OF 2(2)] by (auto simp: tree_ok_def split: if_splits)
    then have "sb_ok (b\<lparr>sb_root := f, sb_lifecycle := lc_building\<rparr>) a' (zero_table m f)"
      using False 2 f by (simp add: sb_ok_def)
    moreover have "walk (zero_table m f) f = Map.empty"
      using tb [OF walk_path_ok] by (auto simp: walk_def fun_eq_iff simp del: table_of.simps)
    ultimately show ?thesis using root False 2(1) by (simp add: sb_initialize_def)
  qed
qed

lemma descriptor_leaf:
  "user_page_descriptor pa perm = 0 \<or> user_page_descriptor pa perm AND 3 = 3"
  "page_descriptor pa perm kind = 0 \<or> page_descriptor pa perm kind AND 3 = 3"
  using physical_or_bits [of pa 3] descriptor_constants
  by (auto simp: user_page_descriptor_constant page_descriptor_constant split: option.splits)

lemma sb_ok_tables_used: "sb_ok b a m \<Longrightarrow> ar_free a \<inter> sb_tables b m = {}"
  using tree_okD(4) by (fastforce simp: sb_tables_def sb_ok_def)

text \<open>The three mapping methods, through their guards, are \<open>install_leaf\<close> or nothing.\<close>

lemma sb_map_guards:
  "sb_map_page b a m va pa perm kind = (if sb_lifecycle b = lc_building
     then sb_install_leaf b a m va (page_descriptor pa perm kind)
     else (fst (sb_map_page b a m va pa perm kind), a, m))"
  "sb_map_user_page b a m va pa perm = (if sb_lifecycle b = lc_building \<and> sb_region b = region_lower
     then sb_install_leaf b a m va (user_page_descriptor pa perm)
     else (fst (sb_map_user_page b a m va pa perm), a, m))"
  "sb_back_absent_user_page b a m va pa perm =
     (if sb_lifecycle b \<in> {lc_building, lc_sealed} \<and> sb_region b = region_lower
      then sb_install_leaf b a m va (user_page_descriptor pa perm)
      else (fst (sb_back_absent_user_page b a m va pa perm), a, m))"
  by (cases "sb_lifecycle b"; simp add: sb_map_page_def sb_map_user_page_def sb_back_absent_user_page_def
      sb_require_building_def sb_require_backable_def)+

lemma sb_map_refused:
  "sb_lifecycle b \<noteq> lc_building \<Longrightarrow> \<exists>e. sb_map_page b a m va pa perm kind = (Inl e, a, m)"
  "\<not> (sb_lifecycle b = lc_building \<and> sb_region b = region_lower) \<Longrightarrow>
     \<exists>e. sb_map_user_page b a m va pa perm = (Inl e, a, m)"
  "\<not> (sb_lifecycle b \<in> {lc_building, lc_sealed} \<and> sb_region b = region_lower) \<Longrightarrow>
     \<exists>e. sb_back_absent_user_page b a m va pa perm = (Inl e, a, m)"
  by (cases "sb_lifecycle b"; simp add: sb_map_page_def sb_map_user_page_def sb_back_absent_user_page_def
      sb_require_building_def sb_require_backable_def)+

lemma sb_install_ok:
  assumes "sb_ok b a m" "leaf = 0 \<or> leaf AND 3 = 3" "sb_install_leaf b a m va leaf = (r, a', m')"
  shows "sb_ok b a' m' \<and> sb_pages b m' =
    (case r of Inl _ \<Rightarrow> sb_pages b m | Inr _ \<Rightarrow> (sb_pages b m)(va \<mapsto> leaf)) \<and>
    (r = Inr () \<longrightarrow> sb_pages b m va = None \<and> leaf \<noteq> 0) \<and>
    (sb_root b \<noteq> 0 \<longrightarrow> sb_frame (sb_root b) a m a' m') \<and> (sb_root b = 0 \<longrightarrow> a' = a \<and> m' = m)"
proof (cases rule: sb_install_cases [OF assms(1,2), of va])
  case (1 e a1 m1)
  then show ?thesis using assms(3) by simp
next
  case (2 a1 m1)
  moreover have "leaf \<noteq> 0" using 2(1) by (auto simp: sb_install_leaf_def split: if_splits)
  ultimately show ?thesis using assms(3) by simp
qed

text \<open>What a method does to the translations, as a step of the abstract map.\<close>

definition pages_gain :: "Lifecycle \<Rightarrow> (u64 \<Rightarrow> u64 option) \<Rightarrow> (u64 \<Rightarrow> u64 option) \<Rightarrow> bool" where
  "pages_gain l P Q \<longleftrightarrow> (\<exists>va d. P va = None \<and> Q = P(va \<mapsto> d) \<and> d \<noteq> 0 \<and> l \<in> {lc_building, lc_sealed} \<and>
     ((\<exists>pa perm. d = user_page_descriptor pa perm) \<or>
      l = lc_building \<and> (\<exists>pa perm kind. d = page_descriptor pa perm kind)))"

definition pages_lose :: "Lifecycle \<Rightarrow> (u64 \<Rightarrow> u64 option) \<Rightarrow> (u64 \<Rightarrow> u64 option) \<Rightarrow> bool" where
  "pages_lose l P Q \<longleftrightarrow> (\<exists>va. P va \<noteq> None \<and> Q = P(va := None) \<and> l \<in> {lc_building, lc_retiring})"

lemma pages_gain_user:
  "P va = None \<Longrightarrow> user_page_descriptor pa perm \<noteq> 0 \<Longrightarrow> l = lc_building \<or> l = lc_sealed \<Longrightarrow>
   pages_gain l P (P(va \<mapsto> user_page_descriptor pa perm))"
  unfolding pages_gain_def by blast

lemma pages_gain_kernel:
  "P va = None \<Longrightarrow> page_descriptor pa perm kind \<noteq> 0 \<Longrightarrow>
   pages_gain lc_building P (P(va \<mapsto> page_descriptor pa perm kind))"
  unfolding pages_gain_def by blast

lemma st_step_effect:
  assumes "st_step (b, a, m) (b', a', m')" "sb_ok b a m"
  shows "sb_ok b' a' m' \<and>
    (sb_pages b' m' = sb_pages b m \<or> pages_gain (sb_lifecycle b) (sb_pages b m) (sb_pages b' m') \<or>
     pages_lose (sb_lifecycle b) (sb_pages b m) (sb_pages b' m')) \<and>
    (sb_lifecycle b, sb_lifecycle b') \<in> {(l, l) |l. True} \<union>
      {(lc_uninitialized, lc_building), (lc_building, lc_sealed), (lc_sealed, lc_retiring)}"
  using assms(1)
proof cases
  case (attach region)
  have "sb_root b' = sb_root b" "sb_lifecycle b' = sb_lifecycle b" "sb_attached b \<Longrightarrow> sb_attached b'"
    "sb_root b \<noteq> 0 \<Longrightarrow> b' = b"
    using attach by (auto simp: sb_attach_arena_def split: if_splits)
  then show ?thesis using assms(2) attach by (auto simp: sb_ok_def sb_pages_def)
next
  case initialize
  show ?thesis
  proof (cases rule: sb_initialize_cases [OF assms(2)])
    case (1 e)
    then show ?thesis using initialize assms(2) by simp
  next
    case (2 f a1)
    then have st: "b' = b\<lparr>sb_root := f, sb_lifecycle := lc_building\<rparr>" "a' = a1" "m' = zero_table m f"
      using initialize by simp_all
    have "sb_pages b' m' = sb_pages b m" using 2(3,5) by (simp add: st sb_pages_def fun_eq_iff)
    then show ?thesis using 2(2,4) st by simp
  qed
next
  case seal
  then have "sb_root b' = sb_root b" "sb_attached b' = sb_attached b" "sb_region b' = sb_region b"
    "sb_lifecycle b' = sb_lifecycle b \<or> sb_lifecycle b = lc_building \<and> sb_lifecycle b' = lc_sealed"
    by (auto simp: sb_seal_def split: if_splits)
  then show ?thesis using assms(2) seal
    by (auto simp: sb_ok_def sb_pages_def sb_accepts_virtual_address_def)
next
  case begin_retire
  then have "sb_root b' = sb_root b" "sb_attached b' = sb_attached b" "sb_region b' = sb_region b"
    "sb_lifecycle b' = sb_lifecycle b \<or> sb_lifecycle b = lc_sealed \<and> sb_lifecycle b' = lc_retiring"
    by (auto simp: sb_begin_retire_def split: if_splits)
  then show ?thesis using assms(2) begin_retire
    by (auto simp: sb_ok_def sb_pages_def sb_accepts_virtual_address_def)
next
  case (map_page va pa perm kind)
  show ?thesis
  proof (cases "sb_lifecycle b = lc_building")
    case True
    have "sb_map_page b a m va pa perm kind = (fst (sb_map_page b a m va pa perm kind), a', m')"
      using map_page by (simp add: prod_eq_iff)
    then obtain r where "sb_install_leaf b a m va (page_descriptor pa perm kind) = (r, a', m')"
      using sb_map_guards(1) [of b a m va pa perm kind] True by simp
    from sb_install_ok [OF assms(2) descriptor_leaf(2) this] show ?thesis
      using map_page(1) True by (cases r) (auto simp: pages_gain_kernel)
  qed (use map_page sb_map_refused(1) [of b a m va pa perm kind] assms(2) in auto)
next
  case (map_user_page va pa perm)
  show ?thesis
  proof (cases "sb_lifecycle b = lc_building \<and> sb_region b = region_lower")
    case True
    have "sb_map_user_page b a m va pa perm = (fst (sb_map_user_page b a m va pa perm), a', m')"
      using map_user_page by (simp add: prod_eq_iff)
    then obtain r where "sb_install_leaf b a m va (user_page_descriptor pa perm) = (r, a', m')"
      using sb_map_guards(2) [of b a m va pa perm] True by simp
    from sb_install_ok [OF assms(2) descriptor_leaf(1) this] show ?thesis
      using map_user_page(1) True by (cases r) (auto simp: pages_gain_user)
  qed (use map_user_page sb_map_refused(2) [of b a m va pa perm] assms(2) in auto)
next
  case (back_absent va pa perm)
  show ?thesis
  proof (cases "sb_lifecycle b \<in> {lc_building, lc_sealed} \<and> sb_region b = region_lower")
    case True
    have "sb_back_absent_user_page b a m va pa perm = (fst (sb_back_absent_user_page b a m va pa perm), a', m')"
      using back_absent by (simp add: prod_eq_iff)
    then obtain r where "sb_install_leaf b a m va (user_page_descriptor pa perm) = (r, a', m')"
      using sb_map_guards(3) [of b a m va pa perm] True by simp
    from sb_install_ok [OF assms(2) descriptor_leaf(1) this] show ?thesis
      using back_absent(1) True by (cases r) (auto simp: pages_gain_user)
  qed (use back_absent sb_map_refused(3) [of b a m va pa perm] assms(2) in auto)
next
  case (unmap va)
  show ?thesis
  proof (cases rule: sb_unmap_cases [OF assms(2), of va])
    case (1 e)
    then show ?thesis using unmap assms(2) by auto
  next
    case (2 m1)
    then show ?thesis using unmap by (auto simp: pages_lose_def)
  qed
next
  case (donate p)
  have ok: "ar_ok a" using assms(2) by (simp add: sb_ok_def)
  have "sb_ok b a' m"
  proof (cases rule: ar_donate_cases [OF ok, of p])
    case (1 e)
    then show ?thesis using donate assms(2) by simp
  next
    case (2 a1)
    then have "ar_free a' \<inter> sb_tables b m = {}" using donate sb_ok_tables_used [OF assms(2)] by auto
    then show ?thesis using sb_ok_arena [OF assms(2)] 2 donate by simp
  qed
  then show ?thesis using donate by auto
next
  case (bind lo hi)
  have "sb_ok b a' m"
    using ar_bind_ok [OF _ bind(4,5) sb_ok_tables_used [OF assms(2)]] assms(2) bind(2)
    by (intro sb_ok_arena [OF assms(2)]) (simp_all add: sb_ok_def)
  then show ?thesis using bind by auto
next
  case environment
  have "sb_ok b a' m"
    using environment sb_ok_tables_used [OF assms(2)] by (intro sb_ok_arena [OF assms(2)]) auto
  then have "sb_ok b a' m' \<and> sb_pages b m' = sb_pages b m"
    using tree_environment [of m "sb_root b" "ar_free a'" m'] environment
    by (auto simp: sb_ok_def sb_pages_def fun_eq_iff)
  then show ?thesis using environment by auto
qed

lemma st_ok_empty: "st_ok (st_empty m)"
  by (simp add: st_empty_def sb_ok_def sb_empty_def ar_ok_empty)

lemma st_run_ok: "st_step\<^sup>*\<^sup>* (st_empty m0) st \<Longrightarrow> st_ok st"
proof (induction rule: rtranclp_induct)
  case (step s t)
  obtain b a m b' a' m' where st: "s = (b, a, m)" "t = (b', a', m')" by (metis prod_cases3)
  then show ?case using st_step_effect [of b a m b' a' m'] step by simp
qed (rule st_ok_empty)

section \<open>Properties\<close>

text \<open>The contract of a method that installs \<open>d\<close> at \<open>va\<close> when \<open>permitted\<close>.\<close>

definition installs ::
  "EarlyStage1Builder \<Rightarrow> EarlyPageArena \<Rightarrow> memory \<Rightarrow> u64 \<Rightarrow> u64 \<Rightarrow> bool \<Rightarrow>
   unit result \<times> EarlyPageArena \<times> memory \<Rightarrow> bool" where
  "installs b a m va d permitted res \<longleftrightarrow>
     (let (r, a', m') = res;
          wanted = (permitted \<and> d \<noteq> 0 \<and> page_aligned va \<and> sb_accepts_virtual_address b va \<and> sb_pages b m va = None)
      in sb_pages b m' = (if r = Inr () then (sb_pages b m)(va \<mapsto> d) else sb_pages b m) \<and>
         (r = Inr () \<longrightarrow> wanted) \<and> (wanted \<longrightarrow> 2 \<le> card (ar_free a) \<longrightarrow> r = Inr ()) \<and>
         (a' = a \<and> m' = m \<or> sb_frame (sb_root b) a m a' m'))"

lemma sb_install_installs:
  assumes "sb_ok b a m" "d = 0 \<or> d AND 3 = 3" "sb_root b \<noteq> 0"
  shows "installs b a m va d True (sb_install_leaf b a m va d)"
proof (cases rule: sb_install_cases [OF assms(1,2), of va])
  case (1 e a1 m1)
  then show ?thesis using assms(1,3) by (auto simp: installs_def sb_ok_def)
next
  case (2 a1 m1)
  moreover have "d \<noteq> 0" "page_aligned va" "sb_accepts_virtual_address b va"
    using 2(1) by (auto simp: sb_install_leaf_def split: if_splits)
  ultimately show ?thesis by (simp add: installs_def)
qed

lemma installs_success:
  assumes "installs b a m va d permitted res" permitted "d \<noteq> 0" "page_aligned va" "sb_accepts_virtual_address b va"
    and "sb_pages b m va = None" "2 \<le> card (ar_free a)"
  shows "fst res = Inr () \<and> sb_pages b (snd (snd res)) = (sb_pages b m)(va \<mapsto> d)"
  using assms by (cases res) (auto simp: installs_def Let_def)

lemma installs_refused: "\<not> permitted \<Longrightarrow> \<exists>e. res = (Inl e, a, m) \<Longrightarrow> installs b a m va d permitted res"
  by (auto simp: installs_def)

text \<open>C17: The translation tree implements a map from pages to descriptors.  In every reachable state,
  whatever else writes to the rest of memory: the methods \<open>map_page\<close>, \<open>map_user_page\<close> and
  \<open>back_absent_user_page\<close> add exactly the translation asked for, and only where there was none, or leave every translation as it
  was (even when they fail half-way, with a table allocated); in the right phase and region, for a valid
  page and descriptor, they succeed whenever the arena has two pages left; \<open>unmap_page\<close> removes
  exactly one, exactly when there is one and the tree is being built or retired; \<open>mapped\<close> tells which
  pages are translated; and nothing is written outside the tree's own tables and pages taken from
  the arena.\<close>

theorem page_map_refinement:
  assumes "st_step\<^sup>*\<^sup>* (st_empty m0) (b, a, m)"
  shows "installs b a m va (page_descriptor pa perm kind) (sb_lifecycle b = lc_building)
           (sb_map_page b a m va pa perm kind) \<and>
    installs b a m va (user_page_descriptor pa perm) (sb_lifecycle b = lc_building \<and> sb_region b = region_lower)
      (sb_map_user_page b a m va pa perm) \<and>
    installs b a m va (user_page_descriptor pa perm)
      (sb_lifecycle b \<in> {lc_building, lc_sealed} \<and> sb_region b = region_lower)
      (sb_back_absent_user_page b a m va pa perm) \<and>
    (let (r, m') = sb_unmap_page b m va
     in (r = Inr () \<longleftrightarrow> sb_lifecycle b \<in> {lc_building, lc_retiring} \<and> sb_pages b m va \<noteq> None) \<and>
        sb_pages b m' = (if r = Inr () then (sb_pages b m)(va := None) else sb_pages b m) \<and>
        (m' = m \<or> sb_frame (sb_root b) a m a m')) \<and>
    (sb_lifecycle b \<noteq> lc_uninitialized \<longrightarrow> page_aligned va \<longrightarrow> sb_accepts_virtual_address b va \<longrightarrow>
       sb_mapped b m va = Inr (sb_pages b m va \<noteq> None))"
proof -
  have ok: "sb_ok b a m" using st_run_ok [OF assms] by simp
  have root: "sb_root b \<noteq> 0 \<longleftrightarrow> sb_lifecycle b \<noteq> lc_uninitialized" using ok by (simp add: sb_ok_def)
  note inst = sb_install_installs [OF ok]
  have "installs b a m va (page_descriptor pa perm kind) (sb_lifecycle b = lc_building)
      (sb_map_page b a m va pa perm kind)"
  proof (cases "sb_lifecycle b = lc_building")
    case True
    then show ?thesis using inst [OF descriptor_leaf(2)] root sb_map_guards(1) [of b a m va pa perm kind] by simp
  next
    case False
    then show ?thesis using sb_map_refused(1) [OF False] by (rule installs_refused)
  qed
  moreover have "installs b a m va (user_page_descriptor pa perm)
      (sb_lifecycle b = lc_building \<and> sb_region b = region_lower) (sb_map_user_page b a m va pa perm)"
  proof (cases "sb_lifecycle b = lc_building \<and> sb_region b = region_lower")
    case True
    then show ?thesis using inst [OF descriptor_leaf(1)] root sb_map_guards(2) [of b a m va pa perm] by simp
  next
    case False
    then show ?thesis using sb_map_refused(2) [OF False] by (rule installs_refused)
  qed
  moreover have "installs b a m va (user_page_descriptor pa perm)
      (sb_lifecycle b \<in> {lc_building, lc_sealed} \<and> sb_region b = region_lower)
      (sb_back_absent_user_page b a m va pa perm)"
  proof (cases "sb_lifecycle b \<in> {lc_building, lc_sealed} \<and> sb_region b = region_lower")
    case True
    then show ?thesis using inst [OF descriptor_leaf(1)] root sb_map_guards(3) [of b a m va pa perm] by auto
  next
    case False
    then show ?thesis using sb_map_refused(3) [OF False] by (rule installs_refused)
  qed
  moreover have "let (r, m') = sb_unmap_page b m va
     in (r = Inr () \<longleftrightarrow> sb_lifecycle b \<in> {lc_building, lc_retiring} \<and> sb_pages b m va \<noteq> None) \<and>
        sb_pages b m' = (if r = Inr () then (sb_pages b m)(va := None) else sb_pages b m) \<and>
        (m' = m \<or> sb_frame (sb_root b) a m a m')"
    by (cases rule: sb_unmap_cases [OF ok, of va]) auto
  ultimately show ?thesis using sb_mapped_pages [OF ok] root by simp
qed

text \<open>C18: A sealed tree keeps every translation it has.  From a reachable sealed state, however long it
  stays sealed and whatever is called on it meanwhile, a page that is translated stays translated by
  the same descriptor: pages can only be added where there was none.\<close>

theorem sealed_translations_stable:
  assumes "st_step\<^sup>*\<^sup>* (st_empty m0) (b, a, m)" "sb_lifecycle b = lc_sealed"
    and "st_step\<^sup>*\<^sup>* (b, a, m) (b', a', m')" "sb_lifecycle b' = lc_sealed"
    and "sb_pages b m va = Some d"
  shows "sb_pages b' m' va = Some d"
proof -
  have ok: "st_ok (b, a, m)" using st_run_ok [OF assms(1)] .
  have "st_ok st \<and> sb_lifecycle (fst st) \<in> {lc_sealed, lc_retiring} \<and>
      (sb_lifecycle (fst st) = lc_sealed \<longrightarrow> sb_pages (fst st) (snd (snd st)) va = Some d)"
    if "st_step\<^sup>*\<^sup>* (b, a, m) st" for st
    using that
  proof (induction rule: rtranclp_induct)
    case base
    then show ?case using ok assms(2,5) by simp
  next
    case (step s t)
    obtain b1 a1 m1 b2 a2 m2 where st: "s = (b1, a1, m1)" "t = (b2, a2, m2)" by (metis prod_cases3)
    then have eff: "sb_ok b2 a2 m2" "sb_pages b2 m2 = sb_pages b1 m1 \<or>
        pages_gain (sb_lifecycle b1) (sb_pages b1 m1) (sb_pages b2 m2) \<or>
        pages_lose (sb_lifecycle b1) (sb_pages b1 m1) (sb_pages b2 m2)"
      "(sb_lifecycle b1, sb_lifecycle b2) \<in> {(l, l) |l. True} \<union>
        {(lc_uninitialized, lc_building), (lc_building, lc_sealed), (lc_sealed, lc_retiring)}"
      using st_step_effect [of b1 a1 m1 b2 a2 m2] step by simp_all
    have "sb_lifecycle b1 \<in> {lc_sealed, lc_retiring}" using step.IH st by simp
    then have lc: "sb_lifecycle b2 \<in> {lc_sealed, lc_retiring}"
      "sb_lifecycle b2 = lc_sealed \<Longrightarrow> sb_lifecycle b1 = lc_sealed" using eff(3) by auto
    have "sb_pages b2 m2 va = Some d" if "sb_lifecycle b2 = lc_sealed"
      using eff(2) lc(2) [OF that] step.IH st by (auto simp: pages_gain_def pages_lose_def)
    then show ?case using eff(1) lc(1) st by simp
  qed
  from this [OF assms(3)] assms(4) show ?thesis by simp
qed

text \<open>No reachable tree translates any page as both writable and executable.  Every translation
  of every reachable tree is tagged with its address space (not global), is not writable when
  it is executable at either privilege level, and is executable in the kernel only when it is
  closed to EL0.\<close>

theorem tree_write_xor_execute:
  assumes "st_step\<^sup>*\<^sup>* (st_empty m0) (b, a, m)" "sb_pages b m va = Some d"
  shows "d AND d_not_global \<noteq> 0 \<and> \<not> (writable d \<and> (el0_executable d \<or> el1_executable d)) \<and>
    \<not> (el0_accessible d \<and> el1_executable d) \<and> stage1_physical_address (d AND page_address_mask)"
proof -
  let ?safe = "\<lambda>d. d AND d_not_global \<noteq> 0 \<and> \<not> (writable d \<and> (el0_executable d \<or> el1_executable d)) \<and>
    \<not> (el0_accessible d \<and> el1_executable d)"
  have user: "?safe (user_page_descriptor pa perm)" if "user_page_descriptor pa perm \<noteq> 0" for pa perm
    using that descriptors_write_xor_execute [of pa perm mk_normal] by (auto simp: Let_def)
  have kernel: "?safe (page_descriptor pa perm kind)" if "page_descriptor pa perm kind \<noteq> 0" for pa perm kind
    using that descriptors_write_xor_execute [of pa perm kind] by (auto simp: Let_def)
  have "st_ok st \<and> (\<forall>va d. sb_pages (fst st) (snd (snd st)) va = Some d \<longrightarrow> ?safe d)"
    if "st_step\<^sup>*\<^sup>* (st_empty m0) st" for st
    using that
  proof (induction rule: rtranclp_induct)
    case base
    then show ?case using st_ok_empty by (simp add: st_empty_def sb_pages_def sb_empty_def)
  next
    case (step s t)
    obtain b1 a1 m1 b2 a2 m2 where st: "s = (b1, a1, m1)" "t = (b2, a2, m2)" by (metis prod_cases3)
    then have eff: "sb_ok b2 a2 m2" "sb_pages b2 m2 = sb_pages b1 m1 \<or>
        pages_gain (sb_lifecycle b1) (sb_pages b1 m1) (sb_pages b2 m2) \<or>
        pages_lose (sb_lifecycle b1) (sb_pages b1 m1) (sb_pages b2 m2)"
      using st_step_effect [of b1 a1 m1 b2 a2 m2] step by simp_all
    have old: "?safe e" if "sb_pages b1 m1 v = Some e" for v e using step.IH st that by simp
    have "?safe e" if e: "sb_pages b2 m2 v = Some e" for v e
    proof (cases "sb_pages b1 m1 v = Some e")
      case False
      then have "pages_gain (sb_lifecycle b1) (sb_pages b1 m1) (sb_pages b2 m2)"
        using eff(2) e by (auto simp: pages_lose_def split: if_splits)
      with False e user kernel show ?thesis unfolding pages_gain_def by (auto split: if_splits)
    qed (use old in blast)
    then show ?case using eff(1) st by simp
  qed
  from this [OF assms(1)] assms(2) show ?thesis by simp
qed

section \<open>A concrete tree\<close>

text \<open>An arena of sixteen pages, a lower-region root in the first of them, one code page, then sealed.\<close>

definition tree_arena :: EarlyPageArena where
  "tree_arena = snd (ar_bind ar_empty 0x100000 0x110000)"

definition tree_builder :: EarlyStage1Builder where
  "tree_builder = \<lparr>sb_attached = True, sb_root = 0x100000, sb_lifecycle = lc_building, sb_region = region_lower\<rparr>"

definition tree_code :: u64 where "tree_code = user_page_descriptor 0x200000 mp_read_execute"

definition tree_mapped :: "unit result \<times> EarlyPageArena \<times> memory" where
  "tree_mapped = sb_map_user_page tree_builder (tree_arena\<lparr>ar_next := 0x101000\<rparr>) (\<lambda>_. 0)
     0x400000 0x200000 mp_read_execute"

lemma tree_arena_fields: "tree_arena = ar_empty\<lparr>ar_next := 0x100000, ar_end := 0x110000\<rparr>"
  by (simp add: tree_arena_def ar_bind_def ar_empty_def ar_bump_valid_def page_aligned_def
      stage1_physical_address_def Let_def)

lemma zero_table_zero: "zero_table (\<lambda>_. 0) f = (\<lambda>_. 0)"
proof -
  have "fold (\<lambda>i m. m(g i := 0)) xs (\<lambda>_. 0) = (\<lambda>_. 0)" for g :: "nat \<Rightarrow> u64" and xs
    by (induction xs) (simp_all add: fun_upd_idem)
  then show ?thesis by (simp add: zero_table_def)
qed

lemma tree_built:
  "sb_initialize (snd (sb_attach_arena sb_empty tree_arena region_lower)) tree_arena (\<lambda>_. 0) =
     (Inr 0x100000, tree_builder, tree_arena\<lparr>ar_next := 0x101000\<rparr>, \<lambda>_. 0)"
  by (simp add: tree_arena_fields sb_initialize_def sb_attach_arena_def sb_empty_def ar_valid_def ar_empty_def
      ar_bump_valid_def page_aligned_def stage1_physical_address_def ar_allocate_page_def tree_builder_def
      zero_table_zero)

lemma tree_reachable:
  "st_step\<^sup>*\<^sup>* (st_empty (\<lambda>_. 0)) (tree_builder, tree_arena\<lparr>ar_next := 0x101000\<rparr>, \<lambda>_. 0)"
proof -
  have "st_step (st_empty (\<lambda>_. 0)) (sb_empty, tree_arena, \<lambda>_. 0)"
    unfolding st_empty_def tree_arena_def
    by (rule st_step.bind) (simp_all add: sb_tables_def sb_empty_def ar_pool_def ar_empty_def)
  moreover have "st_step (sb_empty, tree_arena, \<lambda>_. 0)
      (snd (sb_attach_arena sb_empty tree_arena region_lower), tree_arena, \<lambda>_. 0)"
    by (rule st_step.attach)
  moreover have "st_step (snd (sb_attach_arena sb_empty tree_arena region_lower), tree_arena, \<lambda>_. 0)
      (tree_builder, tree_arena\<lparr>ar_next := 0x101000\<rparr>, \<lambda>_. 0)"
    using st_step.initialize [of "snd (sb_attach_arena sb_empty tree_arena region_lower)" tree_arena "\<lambda>_. 0"]
    by (simp add: tree_built)
  ultimately show ?thesis by (meson converse_rtranclp_into_rtranclp rtranclp.rtrancl_refl)
qed

lemma tree_facts:
  "sb_pages tree_builder (\<lambda>_. 0) = Map.empty" "tree_code \<noteq> 0" "page_aligned 0x400000"
  "sb_accepts_virtual_address tree_builder 0x400000" "sb_lifecycle tree_builder = lc_building"
  "sb_region tree_builder = region_lower"
  "2 \<le> card (ar_free (tree_arena\<lparr>ar_next := 0x101000\<rparr>))"
proof -
  show "sb_pages tree_builder (\<lambda>_. 0) = Map.empty"
    by (simp add: sb_pages_def walk_def next_table_def fun_eq_iff)
  show "tree_code \<noteq> 0"
    using descriptors_write_xor_execute [of "0x200000" mp_read_execute mk_normal]
    by (simp add: tree_code_def stage1_physical_address_def page_aligned_def)
  show "page_aligned 0x400000" "sb_accepts_virtual_address tree_builder 0x400000"
    "sb_lifecycle tree_builder = lc_building" "sb_region tree_builder = region_lower"
    by (simp_all add: page_aligned_def sb_accepts_virtual_address_def tree_builder_def user_stage1_virtual_address_def)
  have "{0x101000, 0x102000} \<subseteq> ar_free (tree_arena\<lparr>ar_next := 0x101000\<rparr>)"
    by (simp add: tree_arena_fields ar_free_def ar_bump_def ar_bump_valid_def page_aligned_def
        stage1_physical_address_def)
  then have "card {0x101000, 0x102000 :: u64} \<le> card (ar_free (tree_arena\<lparr>ar_next := 0x101000\<rparr>))"
    by (intro card_mono) simp_all
  then show "2 \<le> card (ar_free (tree_arena\<lparr>ar_next := 0x101000\<rparr>))" by simp
qed

lemma tree_mapped_pages:
  "fst tree_mapped = Inr () \<and> sb_pages tree_builder (snd (snd tree_mapped)) = [0x400000 \<mapsto> tree_code]"
proof -
  have "sb_ok tree_builder (tree_arena\<lparr>ar_next := 0x101000\<rparr>) (\<lambda>_. 0)" using st_run_ok [OF tree_reachable] by simp
  then have "installs tree_builder (tree_arena\<lparr>ar_next := 0x101000\<rparr>) (\<lambda>_. 0) 0x400000 tree_code True
      (sb_install_leaf tree_builder (tree_arena\<lparr>ar_next := 0x101000\<rparr>) (\<lambda>_. 0) 0x400000 tree_code)"
    unfolding tree_code_def
    by (rule sb_install_installs) (simp_all add: tree_builder_def descriptor_leaf)
  moreover have "tree_mapped =
      sb_install_leaf tree_builder (tree_arena\<lparr>ar_next := 0x101000\<rparr>) (\<lambda>_. 0) 0x400000 tree_code"
    by (simp add: tree_mapped_def tree_code_def sb_map_user_page_def sb_require_building_def tree_builder_def)
  ultimately show ?thesis using installs_success tree_facts by fastforce
qed

lemma tree_mapped_reachable:
  "st_step\<^sup>*\<^sup>* (st_empty (\<lambda>_. 0)) (tree_builder, snd tree_mapped)"
  using tree_reachable unfolding tree_mapped_def
  by (rule rtranclp.rtrancl_into_rtrancl) (rule st_step.map_user_page)

theorem page_map_refinement_witness:
  "fst tree_mapped = Inr () \<and> sb_pages tree_builder (snd (snd tree_mapped)) = [0x400000 \<mapsto> tree_code]"
proof -
  have "installs tree_builder (tree_arena\<lparr>ar_next := 0x101000\<rparr>) (\<lambda>_. 0) 0x400000 tree_code True tree_mapped"
    using page_map_refinement [OF tree_reachable, of "0x400000" "0x200000" mp_read_execute mk_normal] tree_facts
    by (simp add: tree_mapped_def tree_code_def)
  from installs_success [OF this] show ?thesis using tree_facts by simp
qed

theorem sealed_translations_stable_witness:
  "sb_pages (snd (sb_seal tree_builder)) (snd (snd (sb_back_absent_user_page (snd (sb_seal tree_builder))
     (fst (snd tree_mapped)) (snd (snd tree_mapped)) 0x401000 0x300000 mp_read_write))) 0x400000 = Some tree_code"
proof -
  let ?b = "snd (sb_seal tree_builder)" and ?a = "fst (snd tree_mapped)" and ?m = "snd (snd tree_mapped)"
  let ?r = "sb_back_absent_user_page ?b ?a ?m 0x401000 0x300000 mp_read_write"
  have b: "?b = tree_builder\<lparr>sb_lifecycle := lc_sealed\<rparr>" by (simp add: sb_seal_def tree_builder_def)
  have "st_step (tree_builder, ?a, ?m) (?b, ?a, ?m)" by (rule st_step.seal)
  with tree_mapped_reachable have run: "st_step\<^sup>*\<^sup>* (st_empty (\<lambda>_. 0)) (?b, ?a, ?m)" by simp
  have more: "st_step\<^sup>*\<^sup>* (?b, ?a, ?m) (?b, fst (snd ?r), snd (snd ?r))"
    using st_step.back_absent [of ?b ?a ?m "0x401000" "0x300000" mp_read_write] by simp
  have "sb_pages ?b ?m = sb_pages tree_builder ?m"
    by (simp add: b sb_pages_def sb_accepts_virtual_address_def fun_eq_iff)
  then have d: "sb_pages ?b ?m 0x400000 = Some tree_code" using tree_mapped_pages by simp
  have "sb_lifecycle ?b = lc_sealed" by (simp add: b)
  from sealed_translations_stable [OF run this more this d] show ?thesis .
qed

theorem tree_write_xor_execute_witness:
  "el0_executable tree_code \<and> \<not> writable tree_code \<and> \<not> (el0_accessible tree_code \<and> el1_executable tree_code)"
proof -
  have "sb_pages tree_builder (snd (snd tree_mapped)) 0x400000 = Some tree_code" using tree_mapped_pages by simp
  moreover have "st_step\<^sup>*\<^sup>* (st_empty (\<lambda>_. 0)) (tree_builder, fst (snd tree_mapped), snd (snd tree_mapped))"
    using tree_mapped_reachable by simp
  moreover have "el0_executable tree_code"
    using descriptors_write_xor_execute [of "0x200000" mp_read_execute mk_normal] tree_facts(2)
    by (auto simp: tree_code_def Let_def)
  ultimately show ?thesis using tree_write_xor_execute by blast
qed

text \<open>\<open>bind\<close> does not look at the pages that were donated before: a page inside the new range is then
  handed out twice.\<close>

lemma ar_bind_after_donate_aliases:
  defines "a0 \<equiv> snd (ar_donate ar_empty 0x100000)"
  defines "a \<equiv> snd (ar_bind a0 0x100000 0x110000)"
  shows "fst (ar_bind a0 0x100000 0x110000) = Inr ()"
    "fst (ar_allocate_page a) = Inr 0x100000" "fst (ar_allocate_page (snd (ar_allocate_page a))) = Inr 0x100000"
proof -
  have pages: "page_aligned 0x100000" "page_aligned 0x110000" "stage1_physical_address 0x100000"
    by (simp_all add: page_aligned_def stage1_physical_address_def)
  have a0: "ar_next a0 = 0" "ar_end a0 = 0" "ar_donated a0 ! 0 = 0x100000" "ar_donated_count a0 = 1"
    using pages by (simp_all add: a0_def ar_donate_def ar_empty_def ar_bump_valid_def)
  have bv: "ar_bump_valid (a0\<lparr>ar_next := 0x100000, ar_end := 0x110000\<rparr>)"
    using pages by (simp add: ar_bump_valid_def)
  then have a: "a = a0\<lparr>ar_next := 0x100000, ar_end := 0x110000\<rparr>"
    and "fst (ar_bind a0 0x100000 0x110000) = Inr ()"
    using a0 by (simp_all add: a_def ar_bind_def Let_def)
  then show "fst (ar_bind a0 0x100000 0x110000) = Inr ()" by simp
  have p: "ar_allocate_page a = (Inr 0x100000, a\<lparr>ar_donated_count := 0\<rparr>)"
    using a0 by (simp add: ar_allocate_page_def a Let_def)
  then show "fst (ar_allocate_page a) = Inr 0x100000" by simp
  have "ar_bump_valid (a\<lparr>ar_donated_count := 0\<rparr>)" using bv by (simp add: a ar_bump_valid_def)
  then show "fst (ar_allocate_page (snd (ar_allocate_page a))) = Inr 0x100000"
    unfolding p by (simp add: ar_allocate_page_def a)
qed

end
