(* ===== verification/Mapping_State.thy ===== *)
theory Mapping_State
  imports Page_Tables
begin

text \<open>
  aarch64_mapping_state.hpp of src/core/oskernel: what each address space has mapped (\<open>NativeAddressSpaceState\<close>, prefix
  \<open>na_\<close>) and the ledger of physical memory that all spaces share (\<open>NativePhysicalLedger\<close>, prefix \<open>nl_\<close>).  The
  pointer \<open>this\<close> that the ledger records as an owner is a number, \<open>None\<close> the null pointer; a space's own pointers to its ledger and builder are
  flags, and the ledger, the builder, its arena and memory are passed along.  \<open>invariant_violated()\<close>, which stops the
  machine, is the outcome \<open>None\<close>.

  The lemmas show that the ledger keeps physical memory from being writable and executable at once, in
  whatever spaces, and keeps kernel state away from user code; and that mapping is all or nothing: the checks before
  the point of no return are enough, so the stop is never reached while a space is being built.
\<close>

section \<open>The ledger and the space\<close>

abbreviation max_native_mappings :: nat where "max_native_mappings \<equiv> 64"
abbreviation max_native_physical_mappings :: nat where "max_native_physical_mappings \<equiv> 256"
abbreviation max_native_physical_reservations :: nat where "max_native_physical_reservations \<equiv> 64"

abbreviation "me_unsupported \<equiv> kernel_error 1"
abbreviation "me_writable_executable_alias \<equiv> kernel_error 7"
abbreviation "me_missing_guard_page \<equiv> kernel_error 8"
abbreviation "me_not_a_kernel_stack \<equiv> kernel_error 9"
abbreviation "me_address_space_already_bound \<equiv> kernel_error 11"
abbreviation "me_kernel_object_alias \<equiv> kernel_error 13"
abbreviation "me_sealed_root \<equiv> kernel_error 14"

record NativeMapping =
  nm_virtual_base :: u64
  nm_physical_base :: u64
  nm_length :: u64
  nm_permissions :: MachinePermissions
  nm_kind :: MachineMemoryKind
  nm_kernel_stack :: bool
  nm_user_stack :: bool
  nm_user_accessible :: bool
  nm_occupied :: bool

definition nm_empty :: NativeMapping where
  "nm_empty = \<lparr>nm_virtual_base = 0, nm_physical_base = 0, nm_length = 0, nm_permissions = mp_read, nm_kind = mk_normal,
     nm_kernel_stack = False, nm_user_stack = False, nm_user_accessible = False, nm_occupied = False\<rparr>"

record NativePhysicalMapping =
  np_owner :: "nat option"
  np_physical_base :: u64
  np_length :: u64
  np_permissions :: MachinePermissions
  np_user_accessible :: bool
  np_occupied :: bool

definition np_empty :: NativePhysicalMapping where
  "np_empty = \<lparr>np_owner = None, np_physical_base = 0, np_length = 0, np_permissions = mp_read, np_user_accessible = False,
     np_occupied = False\<rparr>"

datatype PhysicalReservationKind = kernel_object | kernel_private

record NativePhysicalReservation =
  nr_owner :: "nat option"
  nr_physical_base :: u64
  nr_length :: u64
  nr_kind :: PhysicalReservationKind
  nr_occupied :: bool

definition nr_empty :: NativePhysicalReservation where
  "nr_empty = \<lparr>nr_owner = None, nr_physical_base = 0, nr_length = 0, nr_kind = kernel_object, nr_occupied = False\<rparr>"

record NativePhysicalLedger =
  nl_mappings :: "NativePhysicalMapping list"
  nl_reservations :: "NativePhysicalReservation list"
  nl_occupied :: size_t
  nl_reserved :: size_t

definition nl_empty :: NativePhysicalLedger where
  "nl_empty = \<lparr>nl_mappings = replicate max_native_physical_mappings np_empty,
     nl_reservations = replicate max_native_physical_reservations nr_empty, nl_occupied = 0, nl_reserved = 0\<rparr>"

record NativeAddressSpaceState =
  na_mappings :: "NativeMapping list"
  na_occupied :: size_t
  na_ledger :: bool
  na_builder :: bool

definition na_empty :: NativeAddressSpaceState where
  "na_empty = \<lparr>na_mappings = replicate max_native_mappings nm_empty, na_occupied = 0, na_ledger = False, na_builder = False\<rparr>"

section \<open>Helpers\<close>

definition mp_writable :: "MachinePermissions \<Rightarrow> bool" where
  "mp_writable p \<longleftrightarrow> p = mp_read_write"

definition mp_executable :: "MachinePermissions \<Rightarrow> bool" where
  "mp_executable p \<longleftrightarrow> p = mp_read_execute"

definition forbidden_by_reservation ::
  "PhysicalReservationKind \<Rightarrow> nat option \<Rightarrow> nat option \<Rightarrow> MachinePermissions \<Rightarrow> bool \<Rightarrow> bool" where
  "forbidden_by_reservation kind reservation_owner mapping_owner permissions user_accessible \<longleftrightarrow>
     user_accessible \<or> mp_executable permissions \<or>
     kind = kernel_object \<and> mp_writable permissions \<and> mapping_owner \<noteq> reservation_owner"

definition overlap :: "u64 \<Rightarrow> u64 \<Rightarrow> u64 \<Rightarrow> u64 \<Rightarrow> bool" where
  "overlap a_base a_length b_base b_length \<longleftrightarrow> a_base < b_base + b_length \<and> b_base < a_base + a_length"

definition free_local :: "NativeAddressSpaceState \<Rightarrow> nat option" where
  "free_local s = first_index (\<lambda>e. \<not> nm_occupied e) (na_mappings s)"

definition free_physical :: "NativePhysicalLedger \<Rightarrow> nat option" where
  "free_physical l = first_index (\<lambda>e. \<not> np_occupied e) (nl_mappings l)"

definition free_reservation :: "NativePhysicalLedger \<Rightarrow> nat option" where
  "free_reservation l = first_index (\<lambda>e. \<not> nr_occupied e) (nl_reservations l)"

abbreviation page_at :: "u64 \<Rightarrow> nat \<Rightarrow> u64" where
  "page_at base i \<equiv> base + of_nat i * architectural_page_size"

text \<open>The loop of \<open>required_table_pages\<close>: \<open>n\<close> pages left, the page to look at, the indices seen last, the counts.\<close>

fun required_from :: "nat \<Rightarrow> u64 \<Rightarrow> nat \<Rightarrow> u16 \<Rightarrow> u16 \<Rightarrow> nat \<Rightarrow> nat \<Rightarrow> nat" where
  "required_from 0 base i previous_l1 previous_l2 l1_regions l2_regions = l1_regions + l2_regions"
| "required_from (Suc n) base i previous_l1 previous_l2 l1_regions l2_regions =
     (let l1 = level1_index (page_at base i); l2 = level2_index (page_at base i);
          new_l1 = (l1 \<noteq> previous_l1);
          previous_l2 = (if new_l1 then 0xFFFF else previous_l2);
          new_l2 = (l2 \<noteq> previous_l2)
      in required_from n base (i + 1) (if new_l1 then l1 else previous_l1) (if new_l2 then l2 else previous_l2)
           (if new_l1 then l1_regions + 1 else l1_regions) (if new_l2 then l2_regions + 1 else l2_regions))"

definition required_table_pages :: "u64 \<Rightarrow> u64 \<Rightarrow> nat" where
  "required_table_pages virtual_base page_count = required_from (unat page_count) virtual_base 0 0xFFFF 0xFFFF 0 0"

section \<open>Methods\<close>

definition na_bind :: "NativeAddressSpaceState \<Rightarrow> unit result \<times> NativeAddressSpaceState" where
  "na_bind s =
     (if na_ledger s \<or> na_builder s then (Inl me_address_space_already_bound, s)
      else (Inr (), s\<lparr>na_ledger := True, na_builder := True\<rparr>))"

definition na_reserve_physical ::
  "nat \<Rightarrow> NativeAddressSpaceState \<Rightarrow> NativePhysicalLedger \<Rightarrow> u64 \<Rightarrow> u64 \<Rightarrow> PhysicalReservationKind \<Rightarrow>
   unit result \<times> NativePhysicalLedger" where
  "na_reserve_physical self s l physical_base len kind =
     (if \<not> na_ledger s \<or> \<not> na_builder s then (Inl me_address_space_unbound, l)
      else if len = 0 \<or> \<not> page_aligned len \<or> \<not> page_aligned physical_base \<or> \<not> stage1_physical_address physical_base \<or>
              physical_base > - 1 - (len - 1) \<or> \<not> stage1_physical_address (physical_base + len - architectural_page_size)
      then (Inl me_invalid_range, l)
      else if list_ex (\<lambda>e. nr_occupied e \<and> overlap (nr_physical_base e) (nr_length e) physical_base len) (nl_reservations l)
      then (Inl me_already_mapped, l)
      else if list_ex (\<lambda>e. np_occupied e \<and> overlap (np_physical_base e) (np_length e) physical_base len \<and>
                forbidden_by_reservation kind (Some self) (np_owner e) (np_permissions e) (np_user_accessible e)) (nl_mappings l)
      then (Inl me_kernel_object_alias, l)
      else case free_reservation l of None \<Rightarrow> (Inl me_exhausted, l)
      | Some i \<Rightarrow> (Inr (), l\<lparr>nl_reservations := (nl_reservations l)[i :=
            \<lparr>nr_owner = Some self, nr_physical_base = physical_base, nr_length = len, nr_kind = kind, nr_occupied = True\<rparr>],
          nl_reserved := nl_reserved l + 1\<rparr>))"

text \<open>The loop that asks for each page whether it is mapped: the error it returns, if any.\<close>

fun na_probe_pages :: "EarlyStage1Builder \<Rightarrow> memory \<Rightarrow> u64 \<Rightarrow> nat \<Rightarrow> nat \<Rightarrow> bool \<Rightarrow> Error \<Rightarrow> unit result" where
  "na_probe_pages b mem base i 0 wanted err = Inr ()"
| "na_probe_pages b mem base i (Suc n) wanted err =
     (case sb_mapped b mem (page_at base i) of Inl e \<Rightarrow> Inl e
      | Inr state \<Rightarrow> if state \<noteq> wanted then Inl err else na_probe_pages b mem base (i + 1) n wanted err)"

text \<open>The loop that installs the pages; \<open>None\<close> when a page is refused and the machine stops.\<close>

fun na_install_pages ::
  "EarlyStage1Builder \<Rightarrow> EarlyPageArena \<Rightarrow> memory \<Rightarrow> u64 \<Rightarrow> u64 \<Rightarrow> MachinePermissions \<Rightarrow> MachineMemoryKind \<Rightarrow> bool \<Rightarrow> bool \<Rightarrow>
   nat \<Rightarrow> nat \<Rightarrow> (EarlyPageArena \<times> memory) option" where
  "na_install_pages b a mem vbase pbase perm kind user_accessible backing i 0 = Some (a, mem)"
| "na_install_pages b a mem vbase pbase perm kind user_accessible backing i (Suc n) =
     (case (if backing then sb_back_absent_user_page b a mem (page_at vbase i) (page_at pbase i) perm
            else if user_accessible then sb_map_user_page b a mem (page_at vbase i) (page_at pbase i) perm
            else sb_map_page b a mem (page_at vbase i) (page_at pbase i) perm kind) of
        (Inl e, a, mem) \<Rightarrow> None
      | (Inr _, a, mem) \<Rightarrow> na_install_pages b a mem vbase pbase perm kind user_accessible backing (i + 1) n)"

type_synonym na_state = "NativeAddressSpaceState \<times> NativePhysicalLedger \<times> EarlyPageArena \<times> memory"

definition na_map_impl ::
  "nat \<Rightarrow> EarlyStage1Builder \<Rightarrow> na_state \<Rightarrow> u64 \<Rightarrow> u64 \<Rightarrow> u64 \<Rightarrow> MachinePermissions \<Rightarrow> MachineMemoryKind \<Rightarrow>
   bool \<Rightarrow> bool \<Rightarrow> bool \<Rightarrow> bool \<Rightarrow> (unit result \<times> na_state) option" where
  "na_map_impl self b st virtual_base physical_base len permissions kind kernel_stack user_stack user_accessible backing =
     (case st of (s, l, a, mem) \<Rightarrow>
      if \<not> na_ledger s \<or> \<not> na_builder s then Some (Inl me_address_space_unbound, st)
      else if user_accessible \<and> kind \<noteq> mk_normal then Some (Inl me_invalid_range, st)
      else if user_stack \<and> (\<not> user_accessible \<or> permissions \<noteq> mp_read_write) then Some (Inl me_invalid_range, st)
      else if len = 0 \<or> \<not> page_aligned len \<or> \<not> page_aligned virtual_base \<or> \<not> page_aligned physical_base \<or>
              \<not> user_stage1_virtual_address virtual_base \<or> \<not> stage1_physical_address physical_base \<or>
              virtual_base > - 1 - (len - 1) \<or> physical_base > - 1 - (len - 1) \<or>
              \<not> user_stage1_virtual_address (virtual_base + len - architectural_page_size) \<or>
              \<not> stage1_physical_address (physical_base + len - architectural_page_size)
      then Some (Inl me_invalid_range, st)
      else if list_ex (\<lambda>e. nm_occupied e \<and> overlap (nm_virtual_base e) (nm_length e) virtual_base len) (na_mappings s)
      then Some (Inl me_already_mapped, st)
      else if list_ex (\<lambda>e. np_occupied e \<and> overlap (np_physical_base e) (np_length e) physical_base len \<and>
                (mp_writable (np_permissions e) \<and> mp_executable permissions \<or>
                 mp_executable (np_permissions e) \<and> mp_writable permissions)) (nl_mappings l)
      then Some (Inl me_writable_executable_alias, st)
      else if list_ex (\<lambda>e. nr_occupied e \<and> overlap (nr_physical_base e) (nr_length e) physical_base len \<and>
                forbidden_by_reservation (nr_kind e) (nr_owner e) (Some self) permissions user_accessible) (nl_reservations l)
      then Some (Inl me_kernel_object_alias, st)
      else case (free_local s, free_physical l) of
        (Some i, Some j) \<Rightarrow>
          let page_count = len div architectural_page_size in
          if required_table_pages virtual_base page_count > unat (sb_remaining_table_pages b a)
          then Some (Inl me_exhausted, st)
          else (case na_probe_pages b mem virtual_base 0 (unat page_count) False me_already_mapped of
              Inl e \<Rightarrow> Some (Inl e, st)
            | Inr _ \<Rightarrow>
              (case na_install_pages b a mem virtual_base physical_base permissions kind user_accessible backing 0
                      (unat page_count) of
                 None \<Rightarrow> None
               | Some (a, mem) \<Rightarrow>
                   Some (Inr (),
                     s\<lparr>na_mappings := (na_mappings s)[i := \<lparr>nm_virtual_base = virtual_base, nm_physical_base = physical_base,
                          nm_length = len, nm_permissions = permissions, nm_kind = kind, nm_kernel_stack = kernel_stack,
                          nm_user_stack = user_stack, nm_user_accessible = user_accessible, nm_occupied = True\<rparr>],
                        na_occupied := na_occupied s + 1\<rparr>,
                     l\<lparr>nl_mappings := (nl_mappings l)[j := \<lparr>np_owner = Some self, np_physical_base = physical_base,
                          np_length = len, np_permissions = permissions, np_user_accessible = user_accessible,
                          np_occupied = True\<rparr>],
                        nl_occupied := nl_occupied l + 1\<rparr>,
                     a, mem)))
      | _ \<Rightarrow> Some (Inl me_exhausted, st))"

definition na_map ::
  "nat \<Rightarrow> EarlyStage1Builder \<Rightarrow> na_state \<Rightarrow> u64 \<Rightarrow> u64 \<Rightarrow> u64 \<Rightarrow> MachinePermissions \<Rightarrow> MachineMemoryKind \<Rightarrow> bool \<Rightarrow>
   (unit result \<times> na_state) option" where
  "na_map self b st virtual_base physical_base len permissions kind kernel_stack =
     na_map_impl self b st virtual_base physical_base len permissions kind kernel_stack False False False"

definition na_map_user ::
  "nat \<Rightarrow> EarlyStage1Builder \<Rightarrow> na_state \<Rightarrow> u64 \<Rightarrow> u64 \<Rightarrow> u64 \<Rightarrow> MachinePermissions \<Rightarrow> (unit result \<times> na_state) option" where
  "na_map_user self b st virtual_base physical_base len permissions =
     na_map_impl self b st virtual_base physical_base len permissions mk_normal False False True False"

definition na_map_user_backing ::
  "nat \<Rightarrow> EarlyStage1Builder \<Rightarrow> na_state \<Rightarrow> u64 \<Rightarrow> u64 \<Rightarrow> u64 \<Rightarrow> MachinePermissions \<Rightarrow> (unit result \<times> na_state) option" where
  "na_map_user_backing self b st virtual_base physical_base len permissions =
     na_map_impl self b st virtual_base physical_base len permissions mk_normal False False True True"

definition na_require_guard_page ::
  "EarlyStage1Builder \<Rightarrow> na_state \<Rightarrow> u64 \<Rightarrow> unit result" where
  "na_require_guard_page b st virtual_base =
     (case st of (s, l, a, mem) \<Rightarrow>
      if virtual_base < architectural_page_size then Inl me_missing_guard_page
      else let guard = virtual_base - architectural_page_size in
      if list_ex (\<lambda>e. nm_occupied e \<and> overlap (nm_virtual_base e) (nm_length e) guard architectural_page_size) (na_mappings s)
      then Inl me_missing_guard_page
      else if na_builder s
      then (case sb_mapped b mem guard of Inl e \<Rightarrow> Inl e
            | Inr guard_state \<Rightarrow> if guard_state then Inl me_missing_guard_page else Inr ())
      else Inr ())"

definition na_map_kernel_stack ::
  "nat \<Rightarrow> EarlyStage1Builder \<Rightarrow> na_state \<Rightarrow> u64 \<Rightarrow> u64 \<Rightarrow> u64 \<Rightarrow> (unit result \<times> na_state) option" where
  "na_map_kernel_stack self b st virtual_base physical_base len =
     (case na_require_guard_page b st virtual_base of Inl e \<Rightarrow> Some (Inl e, st)
      | Inr _ \<Rightarrow> na_map_impl self b st virtual_base physical_base len mp_read_write mk_normal True False False False)"

definition na_map_user_stack ::
  "nat \<Rightarrow> EarlyStage1Builder \<Rightarrow> na_state \<Rightarrow> u64 \<Rightarrow> u64 \<Rightarrow> u64 \<Rightarrow> (unit result \<times> na_state) option" where
  "na_map_user_stack self b st virtual_base physical_base len =
     (case na_require_guard_page b st virtual_base of Inl e \<Rightarrow> Some (Inl e, st)
      | Inr _ \<Rightarrow> na_map_impl self b st virtual_base physical_base len mp_read_write mk_normal False True True False)"

definition na_valid_kernel_stack_top :: "NativeAddressSpaceState \<Rightarrow> u64 \<Rightarrow> bool" where
  "na_valid_kernel_stack_top s stack_top \<longleftrightarrow>
     list_ex (\<lambda>e. nm_occupied e \<and> nm_kernel_stack e \<and> nm_virtual_base e \<le> - 1 - nm_length e \<and>
       nm_virtual_base e + nm_length e = stack_top) (na_mappings s)"

definition na_valid_user_stack_top :: "NativeAddressSpaceState \<Rightarrow> u64 \<Rightarrow> bool" where
  "na_valid_user_stack_top s stack_top \<longleftrightarrow>
     list_ex (\<lambda>e. nm_occupied e \<and> nm_user_stack e \<and> nm_user_accessible e \<and> nm_virtual_base e \<le> - 1 - nm_length e \<and>
       nm_virtual_base e + nm_length e = stack_top) (na_mappings s)"

definition na_valid_user_entry :: "NativeAddressSpaceState \<Rightarrow> u64 \<Rightarrow> bool" where
  "na_valid_user_entry s entry \<longleftrightarrow>
     list_ex (\<lambda>e. nm_occupied e \<and> nm_user_accessible e \<and> nm_permissions e = mp_read_execute \<and>
       entry \<ge> nm_virtual_base e \<and> entry < nm_virtual_base e + nm_length e) (na_mappings s)"

definition na_exact_index :: "NativeAddressSpaceState \<Rightarrow> u64 \<Rightarrow> u64 \<Rightarrow> nat option" where
  "na_exact_index s virtual_base len =
     first_index (\<lambda>e. nm_occupied e \<and> nm_virtual_base e = virtual_base \<and> nm_length e = len) (na_mappings s)"

definition na_exact_mapping :: "NativeAddressSpaceState \<Rightarrow> u64 \<Rightarrow> u64 \<Rightarrow> NativeMapping result" where
  "na_exact_mapping s virtual_base len =
     (if \<not> na_ledger s \<or> \<not> na_builder s then Inl me_address_space_unbound
      else case na_exact_index s virtual_base len of None \<Rightarrow> Inl me_not_mapped | Some i \<Rightarrow> Inr (na_mappings s ! i))"

definition na_retire_unmapped ::
  "nat \<Rightarrow> EarlyStage1Builder \<Rightarrow> memory \<Rightarrow> NativeAddressSpaceState \<Rightarrow> NativePhysicalLedger \<Rightarrow> u64 \<Rightarrow> u64 \<Rightarrow>
   unit result \<times> NativeAddressSpaceState \<times> NativePhysicalLedger" where
  "na_retire_unmapped self b mem s l virtual_base len =
     (if \<not> na_ledger s \<or> \<not> na_builder s then (Inl me_address_space_unbound, s, l)
      else case na_exact_index s virtual_base len of None \<Rightarrow> (Inl me_not_mapped, s, l)
      | Some i \<Rightarrow>
        (let here = na_mappings s ! i in
         case first_index (\<lambda>e. np_occupied e \<and> np_owner e = Some self \<and> np_physical_base e = nm_physical_base here \<and>
                np_length e = nm_length here \<and> np_permissions e = nm_permissions here) (nl_mappings l) of
           None \<Rightarrow> (Inl me_mapping_ledger_inconsistent, s, l)
         | Some j \<Rightarrow>
           (case na_probe_pages b mem (nm_virtual_base here) 0 (unat (nm_length here div architectural_page_size)) False
                   me_mapping_ledger_inconsistent of
              Inl e \<Rightarrow> (Inl e, s, l)
            | Inr _ \<Rightarrow> (Inr (),
                s\<lparr>na_mappings := (na_mappings s)[i := nm_empty], na_occupied := na_occupied s - 1\<rparr>,
                l\<lparr>nl_mappings := (nl_mappings l)[j := np_empty], nl_occupied := nl_occupied l - 1\<rparr>))))"

definition na_any_mapping :: "NativeAddressSpaceState \<Rightarrow> NativeMapping result" where
  "na_any_mapping s =
     (if \<not> na_ledger s \<or> \<not> na_builder s then Inl me_address_space_unbound
      else case first_index nm_occupied (na_mappings s) of None \<Rightarrow> Inl me_not_mapped | Some i \<Rightarrow> Inr (na_mappings s ! i))"

definition na_any_reservation :: "nat \<Rightarrow> NativeAddressSpaceState \<Rightarrow> NativePhysicalLedger \<Rightarrow> NativePhysicalReservation result" where
  "na_any_reservation self s l =
     (if \<not> na_ledger s then Inl me_address_space_unbound
      else case first_index (\<lambda>e. nr_occupied e \<and> nr_owner e = Some self) (nl_reservations l) of
          None \<Rightarrow> Inl me_not_mapped | Some i \<Rightarrow> Inr (nl_reservations l ! i))"

definition na_release_one_reservation ::
  "nat \<Rightarrow> NativeAddressSpaceState \<Rightarrow> NativePhysicalLedger \<Rightarrow> u64 \<Rightarrow> u64 \<Rightarrow> unit result \<times> NativePhysicalLedger" where
  "na_release_one_reservation self s l physical_base len =
     (if \<not> na_ledger s then (Inl me_address_space_unbound, l)
      else case first_index (\<lambda>e. nr_occupied e \<and> nr_owner e = Some self \<and> nr_physical_base e = physical_base \<and> nr_length e = len)
                  (nl_reservations l) of
          None \<Rightarrow> (Inl me_not_mapped, l)
        | Some i \<Rightarrow> (Inr (), l\<lparr>nl_reservations := (nl_reservations l)[i := nr_empty], nl_reserved := nl_reserved l - 1\<rparr>))"

definition na_release_reservations ::
  "nat \<Rightarrow> NativeAddressSpaceState \<Rightarrow> NativePhysicalLedger \<Rightarrow> unit result \<times> NativePhysicalLedger" where
  "na_release_reservations self s l =
     (if \<not> na_ledger s then (Inl me_address_space_unbound, l)
      else (Inr (), l\<lparr>nl_reservations := map (\<lambda>e. if nr_occupied e \<and> nr_owner e = Some self then nr_empty else e) (nl_reservations l),
          nl_reserved := nl_reserved l -
            of_nat (length (filter (\<lambda>e. nr_occupied e \<and> nr_owner e = Some self) (nl_reservations l)))\<rparr>))"

definition na_unbind :: "nat \<Rightarrow> NativeAddressSpaceState \<Rightarrow> NativePhysicalLedger \<Rightarrow> unit result \<times> NativeAddressSpaceState" where
  "na_unbind self s l =
     (if \<not> na_ledger s \<or> \<not> na_builder s then (Inl me_address_space_unbound, s)
      else if na_occupied s \<noteq> 0 then (Inl me_mapping_ledger_inconsistent, s)
      else if list_ex (\<lambda>e. np_occupied e \<and> np_owner e = Some self) (nl_mappings l)
      then (Inl me_mapping_ledger_inconsistent, s)
      else if list_ex (\<lambda>e. nr_occupied e \<and> nr_owner e = Some self) (nl_reservations l)
      then (Inl me_mapping_ledger_inconsistent, s)
      else (Inr (), s\<lparr>na_ledger := False, na_builder := False\<rparr>))"

definition na_bound :: "NativeAddressSpaceState \<Rightarrow> bool" where
  "na_bound s \<longleftrightarrow> na_ledger s \<and> na_builder s"

section \<open>Physical ranges\<close>

definition pages_of :: "u64 \<Rightarrow> u64 \<Rightarrow> nat set" where
  "pages_of base len = {unat base ..< unat base + unat len}"

definition range_ok :: "u64 \<Rightarrow> u64 \<Rightarrow> nat \<Rightarrow> bool" where
  "range_ok base len limit \<longleftrightarrow> len \<noteq> 0 \<and> unat len mod 4096 = 0 \<and> unat base mod 4096 = 0 \<and> unat base + unat len \<le> limit"

lemma unat_below: "unat (x :: u64) < 18446744073709551616"
  using unsigned_less [of x] by simp

lemma no_wrap_sum:
  assumes "\<not> base > - 1 - (len - 1)" "len \<noteq> (0 :: u64)"
  shows "unat base + unat len \<le> 2 ^ 64"
proof -
  have "unat (len - 1) = unat len - 1" "unat len > 0" using assms(2) by (simp_all add: unat_minus_one unat_gt_0)
  moreover have "unat (- 1 - (len - 1)) = 2 ^ 64 - 1 - unat (len - 1)"
    using unat_sub [of "len - 1" "- 1"] by (simp add: unsigned_minus_1_eq_mask mask_eq_exp_minus_1)
  ultimately show ?thesis using assms(1) unat_below [of len] by (simp add: word_less_nat_alt)
qed

text \<open>The check that the last page of a range lies below a limit bounds its end.\<close>

lemma last_page_bound:
  assumes "len \<noteq> 0" "page_aligned len" "page_aligned base" "\<not> base > - 1 - (len - 1)"
    "unat (base + len - 4096) < limit" "limit mod 4096 = 0" "limit \<le> 2 ^ 48"
  shows "range_ok base len limit" "unat (base + len - 4096) = unat base + unat len - 4096"
proof -
  have m: "unat len mod 4096 = 0" "unat base mod 4096 = 0" using assms(2,3) by (simp_all add: page_aligned_mod)
  have pos: "unat len > 0" using assms(1) by (simp add: unat_gt_0)
  then have len: "unat len \<ge> 4096" using m(1) by (metis dvd_imp_le mod_0_imp_dvd)
  have sum: "unat base + unat len \<le> 2 ^ 64" using no_wrap_sum [OF assms(4,1)] .
  have "unat (base + len - 4096) = (unat base + unat len - 4096) mod 2 ^ 64"
  proof -
    have le: "(4096 :: u64) \<le> len" using len by (simp add: word_le_nat_alt)
    have "base + len - 4096 = base + (len - 4096)" by simp
    also have "unat \<dots> = (unat base + (unat len - 4096)) mod 2 ^ 64"
      using unat_sub [OF le] by (simp add: unat_word_ariths)
    finally show ?thesis using len by simp
  qed
  moreover have "unat base + unat len - 4096 < 2 ^ 64" using sum len by simp
  ultimately show eq: "unat (base + len - 4096) = unat base + unat len - 4096" by simp
  obtain q where q: "unat base + unat len = 4096 * q" using m by (metis dvd_add dvdE mod_0_imp_dvd)
  obtain k where k: "limit = 4096 * k" using assms(6) by auto
  have "4096 * q < 4096 * k + 4096" using assms(5) unfolding eq q k using len by simp
  then have "q \<le> k" by simp
  then show "range_ok base len limit" using assms(1) m q k by (simp add: range_ok_def)
qed

lemma overlap_iff:
  assumes "range_ok a n la" "range_ok b m lb" "la < 2 ^ 64" "lb < 2 ^ 64"
  shows "overlap a n b m \<longleftrightarrow> pages_of a n \<inter> pages_of b m \<noteq> {}"
proof -
  have "unat (a + n) = unat a + unat n" "unat (b + m) = unat b + unat m"
    using assms by (simp_all add: range_ok_def unat_word_ariths)
  moreover have "unat n > 0" "unat m > 0" using assms by (simp_all add: range_ok_def unat_gt_0)
  ultimately show ?thesis by (auto simp: overlap_def word_less_nat_alt pages_of_def)
qed

lemma physical_limit:
  "len \<noteq> 0 \<Longrightarrow> page_aligned len \<Longrightarrow> page_aligned base \<Longrightarrow> \<not> base > - 1 - (len - 1) \<Longrightarrow>
   stage1_physical_address (base + len - architectural_page_size) \<Longrightarrow> range_ok base len (2 ^ 48)"
  by (rule last_page_bound) (simp_all add: physical_mod)

lemma overlap_physical:
  "range_ok a n (2 ^ 48) \<Longrightarrow> range_ok b m (2 ^ 48) \<Longrightarrow> overlap a n b m \<longleftrightarrow> pages_of a n \<inter> pages_of b m \<noteq> {}"
  by (erule (1) overlap_iff) simp_all

lemma overlap_virtual:
  "range_ok a n (2 ^ 39) \<Longrightarrow> range_ok b m (2 ^ 39) \<Longrightarrow> overlap a n b m \<longleftrightarrow> pages_of a n \<inter> pages_of b m \<noteq> {}"
  by (erule (1) overlap_iff) simp_all

lemma virtual_limit:
  "len \<noteq> 0 \<Longrightarrow> page_aligned len \<Longrightarrow> page_aligned base \<Longrightarrow> \<not> base > - 1 - (len - 1) \<Longrightarrow>
   user_stage1_virtual_address (base + len - architectural_page_size) \<Longrightarrow> range_ok base len (2 ^ 39)"
  by (rule last_page_bound) (simp_all add: user_stage1_virtual_address_def word_less_nat_alt)

section \<open>What the ledger guarantees\<close>

definition separate :: "NativePhysicalReservation list \<Rightarrow> bool" where
  "separate rs \<longleftrightarrow> (\<forall>i < length rs. \<forall>j < length rs. i \<noteq> j \<longrightarrow> nr_occupied (rs ! i) \<longrightarrow> nr_occupied (rs ! j) \<longrightarrow>
     pages_of (nr_physical_base (rs ! i)) (nr_length (rs ! i)) \<inter> pages_of (nr_physical_base (rs ! j)) (nr_length (rs ! j)) = {})"

lemma separate_update:
  assumes "separate rs" "i < length rs"
    and "\<And>q. q \<in> set rs \<Longrightarrow> nr_occupied q \<Longrightarrow> nr_occupied r \<Longrightarrow>
      pages_of (nr_physical_base q) (nr_length q) \<inter> pages_of (nr_physical_base r) (nr_length r) = {}"
  shows "separate (rs[i := r])"
  unfolding separate_def
proof (intro allI impI)
  fix j k assume jk: "j < length (rs[i := r])" "k < length (rs[i := r])" "j \<noteq> k"
    "nr_occupied (rs[i := r] ! j)" "nr_occupied (rs[i := r] ! k)"
  consider "j = i" | "k = i" | "j \<noteq> i" "k \<noteq> i" by blast
  then show "pages_of (nr_physical_base (rs[i := r] ! j)) (nr_length (rs[i := r] ! j)) \<inter>
      pages_of (nr_physical_base (rs[i := r] ! k)) (nr_length (rs[i := r] ! k)) = {}"
  proof cases
    case 1 then show ?thesis using jk assms(3) [of "rs ! k"] by (simp add: Int_commute)
  next
    case 2 then show ?thesis using jk assms(3) [of "rs ! j"] by simp
  next
    case 3 then show ?thesis using jk assms(1) unfolding separate_def by simp
  qed
qed

lemma separate_map:
  "separate rs \<Longrightarrow> (\<And>r. nr_occupied (f r) \<Longrightarrow> f r = r) \<Longrightarrow> separate (map f rs)"
  unfolding separate_def by (metis length_map nth_map)

definition nl_ok :: "NativePhysicalLedger \<Rightarrow> bool" where
  "nl_ok l \<longleftrightarrow> separate (nl_reservations l) \<and> length (nl_mappings l) = max_native_physical_mappings \<and>
     length (nl_reservations l) = max_native_physical_reservations \<and>
     (\<forall>e \<in> set (nl_mappings l). np_occupied e \<longrightarrow> range_ok (np_physical_base e) (np_length e) (2 ^ 48)) \<and>
     (\<forall>r \<in> set (nl_reservations l). nr_occupied r \<longrightarrow> range_ok (nr_physical_base r) (nr_length r) (2 ^ 48)) \<and>
     (\<forall>e \<in> set (nl_mappings l). \<forall>f \<in> set (nl_mappings l). np_occupied e \<longrightarrow> np_occupied f \<longrightarrow>
        mp_writable (np_permissions e) \<longrightarrow> mp_executable (np_permissions f) \<longrightarrow>
        pages_of (np_physical_base e) (np_length e) \<inter> pages_of (np_physical_base f) (np_length f) = {}) \<and>
     (\<forall>r \<in> set (nl_reservations l). \<forall>e \<in> set (nl_mappings l). nr_occupied r \<longrightarrow> np_occupied e \<longrightarrow>
        forbidden_by_reservation (nr_kind r) (nr_owner r) (np_owner e) (np_permissions e) (np_user_accessible e) \<longrightarrow>
        pages_of (nr_physical_base r) (nr_length r) \<inter> pages_of (np_physical_base e) (np_length e) = {})"

lemma nl_ok_empty: "nl_ok nl_empty"
  by (simp add: nl_ok_def nl_empty_def np_empty_def nr_empty_def separate_def)

lemma nl_ok_mapping:
  assumes "nl_ok l" "j < length (nl_mappings l)"
    and "np_occupied e \<Longrightarrow> range_ok (np_physical_base e) (np_length e) (2 ^ 48)"
    and "\<And>f. np_occupied e \<Longrightarrow> f \<in> set (nl_mappings l) \<Longrightarrow> np_occupied f \<Longrightarrow>
      mp_writable (np_permissions e) \<and> mp_executable (np_permissions f) \<or>
      mp_executable (np_permissions e) \<and> mp_writable (np_permissions f) \<Longrightarrow>
      pages_of (np_physical_base f) (np_length f) \<inter> pages_of (np_physical_base e) (np_length e) = {}"
    and "\<And>r. np_occupied e \<Longrightarrow> r \<in> set (nl_reservations l) \<Longrightarrow> nr_occupied r \<Longrightarrow>
      forbidden_by_reservation (nr_kind r) (nr_owner r) (np_owner e) (np_permissions e) (np_user_accessible e) \<Longrightarrow>
      pages_of (nr_physical_base r) (nr_length r) \<inter> pages_of (np_physical_base e) (np_length e) = {}"
  shows "nl_ok (l\<lparr>nl_mappings := (nl_mappings l)[j := e], nl_occupied := n\<rparr>)"
proof -
  have mem: "f \<in> set ((nl_mappings l)[j := e]) \<Longrightarrow> f = e \<or> f \<in> set (nl_mappings l)" for f
    using set_update_subset_insert by fastforce
  have self: "\<not> (mp_writable (np_permissions e) \<and> mp_executable (np_permissions e))"
    by (simp add: mp_writable_def mp_executable_def)
  show ?thesis
    unfolding nl_ok_def
  proof (intro conjI ballI impI)
    fix f g assume "f \<in> set (nl_mappings (l\<lparr>nl_mappings := (nl_mappings l)[j := e], nl_occupied := n\<rparr>))"
      "g \<in> set (nl_mappings (l\<lparr>nl_mappings := (nl_mappings l)[j := e], nl_occupied := n\<rparr>))"
      "np_occupied f" "np_occupied g" "mp_writable (np_permissions f)" "mp_executable (np_permissions g)"
    then have fg: "f = e \<or> f \<in> set (nl_mappings l)" "g = e \<or> g \<in> set (nl_mappings l)" "np_occupied f" "np_occupied g"
      "mp_writable (np_permissions f)" "mp_executable (np_permissions g)"
      using mem [of f] mem [of g] by simp_all
    consider "f = e" "g = e" | "f = e" "g \<in> set (nl_mappings l)" | "f \<in> set (nl_mappings l)" "g = e"
      | "f \<in> set (nl_mappings l)" "g \<in> set (nl_mappings l)"
      using fg(1,2) by blast
    then show "pages_of (np_physical_base f) (np_length f) \<inter> pages_of (np_physical_base g) (np_length g) = {}"
    proof cases
      case 1 then show ?thesis using fg self by simp
    next
      case 2 then show ?thesis using fg assms(4) [of g] by (simp add: Int_commute)
    next
      case 3 then show ?thesis using fg assms(4) [of f] by simp
    next
      case 4 then show ?thesis using fg assms(1) unfolding nl_ok_def by blast
    qed
  next
    fix r f assume "r \<in> set (nl_reservations (l\<lparr>nl_mappings := (nl_mappings l)[j := e], nl_occupied := n\<rparr>))"
      "f \<in> set (nl_mappings (l\<lparr>nl_mappings := (nl_mappings l)[j := e], nl_occupied := n\<rparr>))"
      "nr_occupied r" "np_occupied f"
      "forbidden_by_reservation (nr_kind r) (nr_owner r) (np_owner f) (np_permissions f) (np_user_accessible f)"
    then have rf: "r \<in> set (nl_reservations l)" "f = e \<or> f \<in> set (nl_mappings l)" "nr_occupied r" "np_occupied f"
      "forbidden_by_reservation (nr_kind r) (nr_owner r) (np_owner f) (np_permissions f) (np_user_accessible f)"
      using mem [of f] by simp_all
    then show "pages_of (nr_physical_base r) (nr_length r) \<inter> pages_of (np_physical_base f) (np_length f) = {}"
      using assms(1) assms(5) [of r] unfolding nl_ok_def by blast
  qed (use assms(1,3) mem in \<open>auto simp: nl_ok_def\<close>)
qed

lemma nl_ok_reservations:
  assumes "nl_ok l" "length rs = max_native_physical_reservations" "separate rs"
    and "\<And>r. r \<in> set rs \<Longrightarrow> nr_occupied r \<Longrightarrow> r \<in> set (nl_reservations l) \<or>
      range_ok (nr_physical_base r) (nr_length r) (2 ^ 48) \<and>
      (\<forall>e \<in> set (nl_mappings l). np_occupied e \<longrightarrow>
        forbidden_by_reservation (nr_kind r) (nr_owner r) (np_owner e) (np_permissions e) (np_user_accessible e) \<longrightarrow>
        pages_of (nr_physical_base r) (nr_length r) \<inter> pages_of (np_physical_base e) (np_length e) = {})"
  shows "nl_ok (l\<lparr>nl_reservations := rs, nl_reserved := n\<rparr>)"
proof -
  have a: "range_ok (nr_physical_base r) (nr_length r) (2 ^ 48)" if "r \<in> set rs" "nr_occupied r" for r
    using assms(1) assms(4) [OF that] that(2) unfolding nl_ok_def by blast
  have b: "pages_of (nr_physical_base r) (nr_length r) \<inter> pages_of (np_physical_base e) (np_length e) = {}"
    if "r \<in> set rs" "nr_occupied r" "e \<in> set (nl_mappings l)" "np_occupied e"
      "forbidden_by_reservation (nr_kind r) (nr_owner r) (np_owner e) (np_permissions e) (np_user_accessible e)" for r e
    using assms(1) assms(4) [OF that(1,2)] that unfolding nl_ok_def by blast
  show ?thesis using assms(1,2,3) a b unfolding nl_ok_def by simp
qed


lemma nl_ok_reserve:
  assumes "nl_ok l" "na_reserve_physical self s l base len kind = (r, l')"
  shows "nl_ok l'"
proof (cases "l' = l")
  case False
  let ?new = "\<lparr>nr_owner = Some self, nr_physical_base = base, nr_length = len, nr_kind = kind, nr_occupied = True\<rparr>"
  from False assms(2) obtain i where
    range: "len \<noteq> 0" "page_aligned len" "page_aligned base" "\<not> base > - 1 - (len - 1)"
      "stage1_physical_address (base + len - architectural_page_size)"
    and new: "\<And>e. e \<in> set (nl_reservations l) \<Longrightarrow> nr_occupied e \<Longrightarrow> \<not> overlap (nr_physical_base e) (nr_length e) base len"
    and apart: "\<And>e. e \<in> set (nl_mappings l) \<Longrightarrow> np_occupied e \<Longrightarrow> overlap (np_physical_base e) (np_length e) base len \<Longrightarrow>
      \<not> forbidden_by_reservation kind (Some self) (np_owner e) (np_permissions e) (np_user_accessible e)"
    and i: "free_reservation l = Some i"
    and l': "l' = l\<lparr>nl_reservations := (nl_reservations l)[i := ?new], nl_reserved := nl_reserved l + 1\<rparr>"
    by (auto simp: na_reserve_physical_def list_ex_iff split: if_splits option.splits)
  have ok: "range_ok base len (2 ^ 48)" by (rule physical_limit) (use range in simp_all)
  have disjoint: "pages_of base len \<inter> pages_of (np_physical_base e) (np_length e) = {}"
    if e: "e \<in> set (nl_mappings l)" "np_occupied e"
      "forbidden_by_reservation kind (Some self) (np_owner e) (np_permissions e) (np_user_accessible e)" for e
  proof -
    have "range_ok (np_physical_base e) (np_length e) (2 ^ 48)" using assms(1) e(1,2) unfolding nl_ok_def by blast
    then show ?thesis using overlap_physical [OF _ ok] apart [OF e(1,2)] e(3) by (metis Int_commute)
  qed
  have "separate ((nl_reservations l)[i := ?new])"
  proof (rule separate_update)
    show "separate (nl_reservations l)" using assms(1) by (simp add: nl_ok_def)
    show "i < length (nl_reservations l)" using i by (simp add: free_reservation_def first_index_less)
  next
    fix q assume q: "q \<in> set (nl_reservations l)" "nr_occupied q"
    then have "range_ok (nr_physical_base q) (nr_length q) (2 ^ 48)" using assms(1) unfolding nl_ok_def by blast
    then show "pages_of (nr_physical_base q) (nr_length q) \<inter> pages_of (nr_physical_base ?new) (nr_length ?new) = {}"
      using overlap_physical [OF _ ok] new [OF q] by auto
  qed
  then show ?thesis unfolding l'
  proof (rule nl_ok_reservations [OF assms(1), rotated])
    show "length ((nl_reservations l)[i := ?new]) = max_native_physical_reservations" using assms(1) by (simp add: nl_ok_def)
  next
    fix r assume "r \<in> set ((nl_reservations l)[i := ?new])" "nr_occupied r"
    then have "r = ?new \<or> r \<in> set (nl_reservations l)" using set_update_subset_insert by fastforce
    then show "r \<in> set (nl_reservations l) \<or> range_ok (nr_physical_base r) (nr_length r) (2 ^ 48) \<and>
      (\<forall>e \<in> set (nl_mappings l). np_occupied e \<longrightarrow>
        forbidden_by_reservation (nr_kind r) (nr_owner r) (np_owner e) (np_permissions e) (np_user_accessible e) \<longrightarrow>
        pages_of (nr_physical_base r) (nr_length r) \<inter> pages_of (np_physical_base e) (np_length e) = {})"
      using ok disjoint by (elim disjE) simp_all
  qed
qed (use assms(1) in simp)

text \<open>What a call of \<open>map_impl\<close> that returns does: it refuses and changes nothing, or it has passed every check, the
pages are installed and both tables have the entry.\<close>

lemma na_map_impl_cases:
  assumes "na_map_impl self b (s, l, a, mem) vb pb len perm kind ks us ua backing = Some (r, st')"
  obtains (refused) e where "r = Inl e" "st' = (s, l, a, mem)"
  | (mapped) i j a' mem' where "r = Inr ()"
      "st' = (s\<lparr>na_mappings := (na_mappings s)[i := \<lparr>nm_virtual_base = vb, nm_physical_base = pb,
                nm_length = len, nm_permissions = perm, nm_kind = kind, nm_kernel_stack = ks,
                nm_user_stack = us, nm_user_accessible = ua, nm_occupied = True\<rparr>], na_occupied := na_occupied s + 1\<rparr>,
              l\<lparr>nl_mappings := (nl_mappings l)[j := \<lparr>np_owner = Some self, np_physical_base = pb, np_length = len,
                np_permissions = perm, np_user_accessible = ua, np_occupied = True\<rparr>], nl_occupied := nl_occupied l + 1\<rparr>,
              a', mem')"
      "free_local s = Some i" "free_physical l = Some j" "na_bound s"
      "na_install_pages b a mem vb pb perm kind ua backing 0 (unat (len div architectural_page_size)) = Some (a', mem')"
      "range_ok vb len (2 ^ 39)" "range_ok pb len (2 ^ 48)"
      "\<forall>e \<in> set (na_mappings s). nm_occupied e \<longrightarrow> \<not> overlap (nm_virtual_base e) (nm_length e) vb len"
      "\<forall>e \<in> set (nl_mappings l). np_occupied e \<longrightarrow> overlap (np_physical_base e) (np_length e) pb len \<longrightarrow>
         \<not> (mp_writable (np_permissions e) \<and> mp_executable perm \<or> mp_executable (np_permissions e) \<and> mp_writable perm)"
      "\<forall>e \<in> set (nl_reservations l). nr_occupied e \<longrightarrow> overlap (nr_physical_base e) (nr_length e) pb len \<longrightarrow>
         \<not> forbidden_by_reservation (nr_kind e) (nr_owner e) (Some self) perm ua"
proof -
  note unfolded = assms [unfolded na_map_impl_def prod.case Let_def list_ex_iff]
  show thesis
  proof (cases "r")
    case (Inl e)
    then have "st' = (s, l, a, mem)" using unfolded by (simp split: if_splits option.splits sum.splits prod.splits)
    then show ?thesis using refused Inl by blast
  next
    case (Inr u)
    note facts = unfolded [unfolded Inr]
    obtain i j a' mem' where
      new: "free_local s = Some i" "free_physical l = Some j"
        "na_install_pages b a mem vb pb perm kind ua backing 0 (unat (len div architectural_page_size)) = Some (a', mem')"
      using facts by (auto split: if_splits option.splits sum.splits prod.splits)
    have ranges: "len \<noteq> 0" "page_aligned len" "page_aligned vb" "page_aligned pb" "\<not> vb > - 1 - (len - 1)"
      "\<not> pb > - 1 - (len - 1)" "user_stage1_virtual_address (vb + len - architectural_page_size)"
      "stage1_physical_address (pb + len - architectural_page_size)"
      using facts by (simp_all split: if_splits)
    show ?thesis
    proof (rule mapped [OF _ _ new(1,2) _ new(3)])
      show "na_bound s" using facts unfolding na_bound_def by (simp split: if_splits)
      show "range_ok vb len (2 ^ 39)" by (rule virtual_limit) (use ranges in simp_all)
      show "range_ok pb len (2 ^ 48)" by (rule physical_limit) (use ranges in simp_all)
    qed (use facts new Inr in \<open>simp_all split: if_splits sum.splits\<close>)
  qed
qed

lemma nl_ok_map:
  assumes "nl_ok l" "na_map_impl self b (s, l, a, mem) vb pb len perm kind ks us ua backing = Some (r, s', l', a', mem')"
  shows "nl_ok l'"
  using assms(2)
proof (cases rule: na_map_impl_cases)
  case (mapped i j a'' mem'')
  let ?new = "\<lparr>np_owner = Some self, np_physical_base = pb, np_length = len, np_permissions = perm,
    np_user_accessible = ua, np_occupied = True\<rparr>"
  have ranges: "\<And>e. e \<in> set (nl_mappings l) \<Longrightarrow> np_occupied e \<Longrightarrow> range_ok (np_physical_base e) (np_length e) (2 ^ 48)"
    "\<And>r. r \<in> set (nl_reservations l) \<Longrightarrow> nr_occupied r \<Longrightarrow> range_ok (nr_physical_base r) (nr_length r) (2 ^ 48)"
    using assms(1) unfolding nl_ok_def by blast+
  have l': "l' = l\<lparr>nl_mappings := (nl_mappings l)[j := ?new], nl_occupied := nl_occupied l + 1\<rparr>" using mapped(2) by simp
  have "j < length (nl_mappings l)" using mapped(4) by (simp add: free_physical_def first_index_less)
  then show ?thesis unfolding l'
  proof (rule nl_ok_mapping [OF assms(1)], goal_cases)
    case 1 show ?case using mapped(8) by simp
  next
    case (2 f)
    then show ?case using overlap_physical [OF ranges(1) [of f] mapped(8)] mapped(10) by auto
  next
    case (3 r)
    then show ?case using overlap_physical [OF ranges(2) [of r] mapped(8)] mapped(11) by auto
  qed
qed (use assms(1) in simp)

lemma nl_ok_retire:
  assumes "nl_ok l" "na_retire_unmapped self b mem s l vb len = (r, s', l')"
  shows "nl_ok l'"
proof (cases "l' = l")
  case False
  with assms(2) obtain j where j: "j < length (nl_mappings l)"
    "l' = l\<lparr>nl_mappings := (nl_mappings l)[j := np_empty], nl_occupied := nl_occupied l - 1\<rparr>"
    by (auto simp: na_retire_unmapped_def Let_def dest: first_index_less split: if_splits option.splits sum.splits)
  show ?thesis unfolding j(2) by (rule nl_ok_mapping [OF assms(1) j(1)]) (simp_all add: np_empty_def)
qed (use assms(1) in simp)

lemma nl_ok_release_one:
  assumes "nl_ok l" "na_release_one_reservation self s l base len = (r, l')"
  shows "nl_ok l'"
proof (cases "l' = l")
  case False
  with assms(2) obtain i where l': "l' = l\<lparr>nl_reservations := (nl_reservations l)[i := nr_empty], nl_reserved := nl_reserved l - 1\<rparr>"
    and i: "i < length (nl_reservations l)"
    by (auto simp: na_release_one_reservation_def dest: first_index_less split: if_splits option.splits)
  have "separate ((nl_reservations l)[i := nr_empty])"
    by (rule separate_update [OF _ i]) (use assms(1) in \<open>simp_all add: nl_ok_def nr_empty_def\<close>)
  moreover have "r \<in> set (nl_reservations l)" if "r \<in> set ((nl_reservations l)[i := nr_empty])" "nr_occupied r" for r
    using that set_update_subset_insert by (fastforce simp: nr_empty_def)
  ultimately show ?thesis unfolding l'
    using nl_ok_reservations [OF assms(1)] assms(1) by (simp add: nl_ok_def)
qed (use assms(1) in simp)

lemma nl_ok_release_all:
  assumes "nl_ok l" "na_release_reservations self s l = (r, l')"
  shows "nl_ok l'"
proof (cases "na_ledger s")
  case True
  let ?rs = "map (\<lambda>e. if nr_occupied e \<and> nr_owner e = Some self then nr_empty else e) (nl_reservations l)"
  have kept: "r \<in> set (nl_reservations l)" if "r \<in> set ?rs" "nr_occupied r" for r
    using that by (auto simp: nr_empty_def split: if_splits)
  have "separate ?rs"
    by (rule separate_map) (use assms(1) in \<open>auto simp: nl_ok_def nr_empty_def split: if_splits\<close>)
  moreover have "length ?rs = max_native_physical_reservations" using assms(1) by (simp add: nl_ok_def)
  ultimately have "nl_ok (l\<lparr>nl_reservations := ?rs, nl_reserved := n\<rparr>)" for n
    using nl_ok_reservations [OF assms(1)] kept by blast
  then show ?thesis using assms(2) True by (auto simp: na_release_reservations_def)
qed (use assms in \<open>simp add: na_release_reservations_def\<close>)

section \<open>Installing pages\<close>

text \<open>The tables a page still needs.\<close>

definition missing :: "memory \<Rightarrow> u64 \<Rightarrow> u64 \<Rightarrow> nat" where
  "missing mem root va =
     (if table_of mem root [level1_index va] = None then 2
      else if table_of mem root [level2_index va, level1_index va] = None then 1 else 0)"

lemma sb_install_budget:
  assumes ok: "sb_ok b a mem" and leaf: "leaf AND 3 = 3" and va: "sb_root b \<noteq> 0" "page_aligned va" "sb_accepts_virtual_address b va"
    and none: "sb_pages b mem va = None" and budget: "missing mem (sb_root b) va \<le> card (ar_free a)"
  obtains a' mem' where "sb_install_leaf b a mem va leaf = (Inr (), a', mem')"
    "card (ar_free a) \<le> card (ar_free a') + missing mem (sb_root b) va"
    "\<And>q u. path_ok q \<Longrightarrow> table_of mem (sb_root b) q = Some u \<Longrightarrow> table_of mem' (sb_root b) q = Some u"
    "table_of mem' (sb_root b) [level1_index va] \<noteq> None"
    "table_of mem' (sb_root b) [level2_index va, level1_index va] \<noteq> None"
proof -
  let ?root = "sb_root b" and ?l1 = "level1_index va" and ?l2 = "level2_index va" and ?l3 = "level3_index va"
  have t: "tree_ok mem ?root (ar_free a)" "ar_ok a" "sb_attached b" using ok va(1) by (simp_all add: sb_ok_def)
  have nz: "leaf \<noteq> 0" "leaf AND 1 \<noteq> 0 \<longrightarrow> leaf AND 2 \<noteq> 0" using leaf by (auto simp: and_3)
  have p1: "path_ok []" "length ([] :: u16 list) \<le> 1" "table_of mem ?root [] = Some ?root" by simp_all
  show ?thesis
  proof (cases rule: ensure_next_cases [OF t(1,2) p1 index_bound(1), of b va])
    case (1 e)
    then show ?thesis using budget t(3) by (simp add: missing_def)
  next
    case first: (2 l2 a1 m1)
    have p2: "path_ok [?l1]" "length [?l1] \<le> 1" using index_bound by simp_all
    have kept: "table_of mem ?root [?l2, ?l1] \<noteq> None \<longrightarrow> table_of m1 ?root [?l2, ?l1] \<noteq> None"
      using first(10) [OF walk_path_ok] by auto
    have l1: "table_of mem ?root [?l1] = None \<longrightarrow> table_of mem ?root [?l2, ?l1] = None"
      using table_of_append_None [of mem ?root "[?l1]" "[?l2]"] by simp
    show ?thesis
    proof (cases rule: ensure_next_cases [OF first(2,3) p2 first(6) index_bound(2), of b va])
      case (1 e)
      have "card (ar_free a1) = 0" "table_of mem ?root [?l2, ?l1] = None" using 1(2,3) t(3) kept by auto
      then show ?thesis using budget first(5,11) by (simp add: missing_def split: if_splits del: table_of.simps)
    next
      case second: (2 l3 a2 m2)
      let ?x = "entry_at l3 ?l3"
      have path: "path_ok [?l2, ?l1]" "table_of m2 ?root [?l2, ?l1] = Some l3" using walk_path_ok second(6) by simp_all
      have "walk m2 ?root va = None"
        using none va second(7) first(7) by (simp add: sb_pages_def)
      then have "m2 ?x AND 3 \<noteq> 3" using path(2) by (simp add: walk_def Let_def del: table_of.simps split: if_splits)
      then have free: "m2 ?x AND 1 = 0"
        using tree_okD(5) [OF second(2) path index_bound(3), of va] by (auto simp: and_3)
      have eq: "sb_install_leaf b a mem va leaf = (Inr (), a2, m2(?x := leaf))"
        using va nz(1) first(1) second(1) free by (simp add: sb_install_leaf_def Let_def)
      have same: "table_of (m2(?x := leaf)) ?root q = table_of m2 ?root q" if "path_ok q" for q
        by (rule write_leaf(2) [OF second(2) path(1) _ path(2) index_bound(3) nz(2) that]) simp
      have "card (ar_free a) \<le> card (ar_free a2) + missing mem ?root va"
        using first(5,11) second(5,11) kept by (auto simp: missing_def simp del: table_of.simps)
      then show ?thesis
      proof (rule that [OF eq])
        fix q u assume "path_ok q" "table_of mem ?root q = Some u"
        then show "table_of (m2(?x := leaf)) ?root q = Some u" using same first(10) second(10) by presburger
      next
        show "table_of (m2(?x := leaf)) ?root [?l1] \<noteq> None"
          using same [OF p2(1)] second(10) [OF p2(1) first(6)] by simp
        show "table_of (m2(?x := leaf)) ?root [?l2, ?l1] \<noteq> None" using same [OF path(1)] path(2) by simp
      qed
    qed
  qed
qed

lemma ar_bump_card:
  "card (ar_bump a) = (if ar_bump_valid a then unat (ar_end a) div 4096 - unat (ar_next a) div 4096 else 0)"
proof (cases "ar_bump_valid a")
  case True
  let ?page = "\<lambda>k. of_nat (4096 * k) :: u64" and ?K = "{unat (ar_next a) div 4096 ..< unat (ar_end a) div 4096}"
  have v: "unat (ar_next a) mod 4096 = 0" "unat (ar_end a) mod 4096 = 0" "unat (ar_end a) \<le> 2 ^ 48"
    using True by (simp_all add: ar_bump_valid_nat)
  have at: "unat (?page k) = 4096 * k" if "k \<in> ?K" for k
  proof -
    have "4096 * k < 2 ^ 64" using that div_le_mono [OF v(3), of 4096] by simp
    then show ?thesis by (simp add: unsigned_of_nat take_bit_eq_mod del: of_nat_mult)
  qed
  have "ar_bump a = ?page ` ?K"
  proof (intro set_eqI iffI)
    fix p assume "p \<in> ar_bump a"
    then have p: "unat p mod 4096 = 0" "unat (ar_next a) \<le> unat p" "unat p < unat (ar_end a)"
      using True by (simp_all add: ar_bump_nat)
    have "p = ?page (unat p div 4096)" using p(1) by (simp add: mult_div_mod_eq [of 4096 "unat p", simplified p(1), simplified] del: of_nat_mult)
    moreover have "unat p div 4096 \<in> ?K" using p v by (auto simp: div_le_mono)
    ultimately show "p \<in> ?page ` ?K" by blast
  next
    fix p assume "p \<in> ?page ` ?K"
    then obtain k where k: "p = ?page k" "k \<in> ?K" by blast
    then show "p \<in> ar_bump a" using at [of k] v(1,2) True by (auto simp: ar_bump_nat elim!: dvdE simp flip: dvd_eq_mod_eq_0)
  qed
  moreover have "inj_on ?page ?K" using at by (auto simp: inj_on_def dest: arg_cong [where f = unat])
  ultimately show ?thesis using True by (simp add: card_image)
qed (simp add: ar_bump_def)

lemma ar_free_card:
  assumes "ar_ok a"
  shows "card (ar_free a) = unat (ar_remaining_pages a)"
proof -
  have pool: "card (ar_pool a) = unat (ar_donated_count a)"
    using assms by (simp add: ar_ok_def ar_pool_def distinct_card)
  have bump: "unat ((ar_end a - ar_next a) div architectural_page_size) = card (ar_bump a)"
    and small: "card (ar_bump a) \<le> 2 ^ 48" if "ar_bump_valid a"
  proof -
    have v: "unat (ar_next a) mod 4096 = 0" "unat (ar_end a) mod 4096 = 0" "unat (ar_next a) < unat (ar_end a)"
      "unat (ar_end a) \<le> 2 ^ 48"
      using that by (simp_all add: ar_bump_valid_nat)
    then have "unat (ar_end a - ar_next a) = unat (ar_end a) - unat (ar_next a)" by (simp add: unat_sub word_le_nat_alt)
    then show "unat ((ar_end a - ar_next a) div architectural_page_size) = card (ar_bump a)"
      using v that by (auto simp: unat_div ar_bump_card elim!: dvdE simp flip: dvd_eq_mod_eq_0)
    show "card (ar_bump a) \<le> 2 ^ 48" using that v(4) div_le_dividend [of "unat (ar_end a)" 4096] by (simp add: ar_bump_card)
  qed
  have "card (ar_free a) = card (ar_pool a) + card (ar_bump a)"
    unfolding ar_free_def by (rule card_Un_disjoint) (use assms in \<open>simp_all add: ar_ok_def\<close>)
  moreover have "unat (ar_donated_count a) \<le> 64" using assms by (simp add: ar_ok_def)
  ultimately show ?thesis
  proof (cases "ar_bump_valid a")
    case True
    then show ?thesis
      using bump small pool \<open>card (ar_free a) = _\<close> \<open>unat (ar_donated_count a) \<le> 64\<close>
      by (simp add: ar_remaining_pages_def unat_word_ariths)
  qed (use pool in \<open>simp add: ar_remaining_pages_def ar_bump_card\<close>)
qed

text \<open>The descriptor that page \<open>va\<close> of a mapping gets.\<close>

definition page_leaf :: "bool \<Rightarrow> MachinePermissions \<Rightarrow> MachineMemoryKind \<Rightarrow> u64 \<Rightarrow> u64" where
  "page_leaf user_accessible perm kind pa = (if user_accessible then user_page_descriptor pa perm else page_descriptor pa perm kind)"

lemma page_leaf_valid: "page_leaf ua perm kind pa = 0 \<or> page_leaf ua perm kind pa AND 3 = 3"
  using descriptor_leaf by (simp add: page_leaf_def)

text \<open>When a builder takes pages of this kind at all.\<close>

definition can_install :: "EarlyStage1Builder \<Rightarrow> bool \<Rightarrow> bool \<Rightarrow> bool" where
  "can_install b user_accessible backing \<longleftrightarrow>
     (if backing then sb_lifecycle b \<in> {lc_building, lc_sealed} \<and> sb_region b = region_lower
      else if user_accessible then sb_lifecycle b = lc_building \<and> sb_region b = region_lower else sb_lifecycle b = lc_building)"

definition na_install_one ::
  "EarlyStage1Builder \<Rightarrow> EarlyPageArena \<Rightarrow> memory \<Rightarrow> u64 \<Rightarrow> u64 \<Rightarrow> MachinePermissions \<Rightarrow> MachineMemoryKind \<Rightarrow> bool \<Rightarrow> bool \<Rightarrow>
   unit result \<times> EarlyPageArena \<times> memory" where
  "na_install_one b a mem va pa perm kind user_accessible backing =
     (if backing then sb_back_absent_user_page b a mem va pa perm
      else if user_accessible then sb_map_user_page b a mem va pa perm
      else sb_map_page b a mem va pa perm kind)"

lemma na_install_one_guard:
  assumes "backing \<longrightarrow> ua"
  shows "can_install b ua backing \<Longrightarrow>
      na_install_one b a mem va pa perm kind ua backing = sb_install_leaf b a mem va (page_leaf ua perm kind pa)"
    "\<not> can_install b ua backing \<Longrightarrow> \<exists>e. na_install_one b a mem va pa perm kind ua backing = (Inl e, a, mem)"
  using assms sb_map_guards [of b a mem va pa perm] sb_map_refused [of b a mem va pa perm]
  by (auto simp: na_install_one_def can_install_def page_leaf_def split: if_splits)

text \<open>The pages \<open>i\<close> to \<open>i + n - 1\<close> of a mapping, over an older map.\<close>

definition with_pages :: "u64 \<Rightarrow> u64 \<Rightarrow> (u64 \<Rightarrow> u64) \<Rightarrow> nat \<Rightarrow> nat \<Rightarrow> (u64 \<Rightarrow> u64 option) \<Rightarrow> u64 \<Rightarrow> u64 option" where
  "with_pages vb pb leaf i n P va =
     (if \<exists>k. i \<le> k \<and> k < i + n \<and> va = page_at vb k
      then Some (leaf (pb + (va - vb))) else P va)"

lemma interval_split: "(\<exists>k. i \<le> k \<and> k < i + Suc n \<and> Q k) \<longleftrightarrow> Q i \<or> (\<exists>k. i + 1 \<le> k \<and> k < i + 1 + n \<and> Q k)"
proof (intro iffI)
  assume "\<exists>k. i \<le> k \<and> k < i + Suc n \<and> Q k"
  then obtain k where k: "i \<le> k" "k < i + Suc n" "Q k" by blast
  then show "Q i \<or> (\<exists>k. i + 1 \<le> k \<and> k < i + 1 + n \<and> Q k)" by (cases "k = i") (auto intro: exI [of _ k])
next
  assume "Q i \<or> (\<exists>k. i + 1 \<le> k \<and> k < i + 1 + n \<and> Q k)"
  then show "\<exists>k. i \<le> k \<and> k < i + Suc n \<and> Q k" by (elim disjE exE) (auto intro: exI [of _ i] Suc_leD)
qed

lemma na_install_pages_ok:
  assumes "na_install_pages b a mem vb pb perm kind ua backing i n = Some (a', mem')" "sb_ok b a mem" "backing \<longrightarrow> ua"
  shows "sb_ok b a' mem' \<and> sb_pages b mem' = with_pages vb pb (page_leaf ua perm kind) i n (sb_pages b mem) \<and>
    (sb_root b \<noteq> 0 \<longrightarrow> sb_frame (sb_root b) a mem a' mem') \<and> (sb_root b = 0 \<longrightarrow> a' = a \<and> mem' = mem)"
  using assms(1,2)
proof (induction n arbitrary: i a mem)
  case 0
  then show ?case by (auto simp: with_pages_def fun_eq_iff)
next
  case (Suc n)
  let ?leaf = "page_leaf ua perm kind"
  obtain a1 m1 where one: "na_install_one b a mem (page_at vb i) (page_at pb i) perm kind ua backing = (Inr (), a1, m1)"
    and rest: "na_install_pages b a1 m1 vb pb perm kind ua backing (i + 1) n = Some (a', mem')"
    using Suc.prems(1) by (auto simp: na_install_one_def split: sum.splits prod.splits if_splits)
  have "can_install b ua backing" using na_install_one_guard(2) [OF assms(3)] one by (metis Inl_Inr_False Pair_inject)
  then have "sb_install_leaf b a mem (page_at vb i) (?leaf (page_at pb i)) = (Inr (), a1, m1)"
    using na_install_one_guard(1) [OF assms(3)] one by simp
  from sb_install_ok [OF Suc.prems(2) page_leaf_valid this]
  have first: "sb_ok b a1 m1" "sb_pages b m1 = (sb_pages b mem)(page_at vb i \<mapsto> ?leaf (page_at pb i))"
    "sb_root b \<noteq> 0 \<longrightarrow> sb_frame (sb_root b) a mem a1 m1" "sb_root b = 0 \<longrightarrow> a1 = a \<and> m1 = mem" by simp_all
  have "with_pages vb pb ?leaf (i + 1) n (sb_pages b m1) = with_pages vb pb ?leaf i (Suc n) (sb_pages b mem)"
  proof
    fix va
    note split = interval_split [of i n "\<lambda>k. va = page_at vb k"]
    show "with_pages vb pb ?leaf (i + 1) n (sb_pages b m1) va = with_pages vb pb ?leaf i (Suc n) (sb_pages b mem) va"
      unfolding with_pages_def split first(2) by auto
  qed
  with Suc.IH [OF rest first(1)] have ih: "sb_ok b a' mem'" "sb_pages b mem' = with_pages vb pb ?leaf i (Suc n) (sb_pages b mem)"
    "sb_root b \<noteq> 0 \<longrightarrow> sb_frame (sb_root b) a1 m1 a' mem'" "sb_root b = 0 \<longrightarrow> a' = a1 \<and> mem' = m1" by metis+
  show ?case using ih first(3,4) sb_frame_trans by blast
qed

text \<open>The count of \<open>required_table_pages\<close> is enough for the loop: what a page needs beyond the tables of the
page before it is counted.\<close>

lemma required_from_add: "required_from n base i p1 p2 x y = x + y + required_from n base i p1 p2 0 0"
proof (induction n arbitrary: i p1 p2 x y)
  case (Suc n)
  show ?case
    unfolding required_from.simps Let_def by (subst (1 2) Suc) simp
qed simp

lemma required_from_Suc:
  "required_from (Suc n) base i p1 p2 0 0 =
     (if level1_index (page_at base i) \<noteq> p1 then 2 else if level2_index (page_at base i) \<noteq> p2 then 1 else 0) +
     required_from n base (i + 1) (level1_index (page_at base i)) (level2_index (page_at base i)) 0 0"
proof -
  have "level2_index (page_at base i) \<noteq> 0xFFFF" using index_bound(2) [of "page_at base i"] by auto
  then show ?thesis
    unfolding required_from.simps Let_def by (subst required_from_add) auto
qed

lemma na_install_pages_total:
  assumes "sb_ok b a mem" "backing \<longrightarrow> ua" "can_install b ua backing" "sb_root b \<noteq> 0"
    and "\<And>k. i \<le> k \<Longrightarrow> k < i + n \<Longrightarrow> page_aligned (page_at vb k) \<and> sb_accepts_virtual_address b (page_at vb k) \<and>
      sb_pages b mem (page_at vb k) = None \<and> page_leaf ua perm kind (page_at pb k) \<noteq> 0"
    and "\<And>j k. i \<le> j \<Longrightarrow> j < k \<Longrightarrow> k < i + n \<Longrightarrow> page_at vb j \<noteq> page_at vb k"
    and "p1 \<noteq> 0xFFFF \<Longrightarrow> table_of mem (sb_root b) [p1] \<noteq> None"
    and "p2 \<noteq> 0xFFFF \<Longrightarrow> table_of mem (sb_root b) [p2, p1] \<noteq> None"
    and "required_from n vb i p1 p2 0 0 \<le> card (ar_free a)"
  shows "\<exists>a' mem'. na_install_pages b a mem vb pb perm kind ua backing i n = Some (a', mem')"
  using assms(1,5-9)
proof (induction n arbitrary: i a mem p1 p2)
  case (Suc n)
  let ?va = "page_at vb i" and ?leaf = "page_leaf ua perm kind (page_at pb i)" and ?root = "sb_root b"
  let ?l1 = "level1_index ?va" and ?l2 = "level2_index ?va"
  have here: "page_aligned ?va" "sb_accepts_virtual_address b ?va" "sb_pages b mem ?va = None" "?leaf AND 3 = 3"
    using Suc.prems(2) [of i] page_leaf_valid [of ua perm kind "page_at pb i"] by auto
  have "missing mem ?root ?va + required_from n vb (i + 1) ?l1 ?l2 0 0 \<le> required_from (Suc n) vb i p1 p2 0 0"
  proof -
    have "?l1 \<noteq> 0xFFFF" "?l2 \<noteq> 0xFFFF" using index_bound(1,2) [of ?va] by auto
    then have "?l1 = p1 \<Longrightarrow> table_of mem ?root [?l1] \<noteq> None" "?l1 = p1 \<Longrightarrow> ?l2 = p2 \<Longrightarrow> table_of mem ?root [?l2, ?l1] \<noteq> None"
      using Suc.prems(4,5) by simp_all
    then have "missing mem ?root ?va \<le> (if ?l1 \<noteq> p1 then 2 else if ?l2 \<noteq> p2 then 1 else 0)"
      unfolding missing_def by (cases "?l1 = p1"; cases "?l2 = p2") (simp_all del: table_of.simps)
    then show ?thesis unfolding required_from_Suc by (rule add_right_mono)
  qed
  then have budget: "missing mem ?root ?va + required_from n vb (i + 1) ?l1 ?l2 0 0 \<le> card (ar_free a)"
    using Suc.prems(6) by linarith
  obtain a1 m1 where one: "sb_install_leaf b a mem ?va ?leaf = (Inr (), a1, m1)"
    and left: "card (ar_free a) \<le> card (ar_free a1) + missing mem ?root ?va"
    and tables: "table_of m1 ?root [?l1] \<noteq> None" "table_of m1 ?root [?l2, ?l1] \<noteq> None"
    by (rule sb_install_budget [OF Suc.prems(1) here(4) assms(4) here(1,2,3)]) (use budget in linarith, rule that)
  from sb_install_ok [OF Suc.prems(1) page_leaf_valid one]
  have upd: "sb_ok b a1 m1" "sb_pages b m1 = (sb_pages b mem)(?va \<mapsto> ?leaf)" by simp_all
  have "\<exists>a' mem'. na_install_pages b a1 m1 vb pb perm kind ua backing (i + 1) n = Some (a', mem')"
  proof (rule Suc.IH [OF upd(1)])
    show "required_from n vb (i + 1) ?l1 ?l2 0 0 \<le> card (ar_free a1)" using budget left by linarith
    fix k assume k: "i + 1 \<le> k" "k < i + 1 + n"
    then show "page_aligned (page_at vb k) \<and> sb_accepts_virtual_address b (page_at vb k) \<and>
      sb_pages b m1 (page_at vb k) = None \<and> page_leaf ua perm kind (page_at pb k) \<noteq> 0"
      using Suc.prems(2) [of k] Suc.prems(3) [of i k] by (simp add: upd(2))
  next
    fix j k assume "i + 1 \<le> j" "j < k" "k < i + 1 + n"
    then show "page_at vb j \<noteq> page_at vb k" using Suc.prems(3) [of j k] by simp
  qed (use tables in simp_all)
  moreover have "na_install_one b a mem ?va (page_at pb i) perm kind ua backing = (Inr (), a1, m1)"
    using na_install_one_guard(1) [OF assms(2,3)] one by simp
  ultimately show ?case by (simp add: na_install_one_def)
qed simp

section \<open>Mapping is all or nothing\<close>

lemma page_count_nat: "unat (len div architectural_page_size) = unat len div 4096"
  by (simp add: unat_div)

lemma page_at_nat:
  assumes "range_ok base len limit" "limit < 2 ^ 64" "k < unat len div 4096"
  shows "unat (page_at base k) = unat base + 4096 * k" "unat base + 4096 * k + 4096 \<le> unat base + unat len"
proof -
  have "4096 * k + 4096 \<le> unat len" using assms(3) by (simp add: less_eq_div_iff_mult_less_eq flip: Suc_le_eq)
  then show "unat base + 4096 * k + 4096 \<le> unat base + unat len" by simp
  then have sum: "unat base + 4096 * k < 2 ^ 64" using assms(1,2) by (simp add: range_ok_def)
  have eq: "page_at base k = of_nat (unat base + 4096 * k)" by (simp add: mult.commute)
  show "unat (page_at base k) = unat base + 4096 * k"
    unfolding eq using sum by (simp add: unsigned_of_nat take_bit_eq_mod del: of_nat_add of_nat_mult)
qed

lemma page_at_facts:
  assumes "range_ok base len limit" "limit < 2 ^ 64" "k < unat len div 4096"
  shows "page_aligned (page_at base k)" "unat (page_at base k) < limit" "unat (page_at base k) \<in> pages_of base len"
    "j < unat len div 4096 \<Longrightarrow> page_at base j = page_at base k \<longleftrightarrow> j = k"
proof -
  note at = page_at_nat [OF assms(1,2)]
  show "page_aligned (page_at base k)" using at(1) [OF assms(3)] assms(1) by (simp add: page_aligned_mod range_ok_def mod_add_eq flip: mod_add_left_eq)
  show "unat (page_at base k) < limit" "unat (page_at base k) \<in> pages_of base len"
    using at [OF assms(3)] assms(1) by (simp_all add: range_ok_def pages_of_def)
  show "page_at base j = page_at base k \<longleftrightarrow> j = k" if "j < unat len div 4096"
    using at(1) [OF assms(3)] at(1) [OF that] by (metis add_left_cancel mult_cancel1 zero_neq_numeral)
qed

lemma na_probe_ok:
  "na_probe_pages b mem base i n wanted err = Inr () \<longleftrightarrow>
   (\<forall>k. i \<le> k \<and> k < i + n \<longrightarrow> sb_mapped b mem (page_at base k) = Inr wanted)"
proof (induction n arbitrary: i)
  case (Suc n)
  have "(\<forall>k. i \<le> k \<and> k < i + Suc n \<longrightarrow> Q k) \<longleftrightarrow> Q i \<and> (\<forall>k. i + 1 \<le> k \<and> k < i + 1 + n \<longrightarrow> Q k)" for Q
    using interval_split [of i n "\<lambda>k. \<not> Q k"] by blast
  then show ?case by (simp add: Suc split: sum.splits)
qed auto

definition leaf_possible :: "bool \<Rightarrow> MachinePermissions \<Rightarrow> MachineMemoryKind \<Rightarrow> bool" where
  "leaf_possible user_accessible perm kind \<longleftrightarrow> perm \<in> {mp_read, mp_read_write, mp_read_execute} \<and>
     (\<not> user_accessible \<longrightarrow> kind \<in> {mk_normal, mk_device} \<and> (perm, kind) \<noteq> (mp_read_execute, mk_device))"

lemma page_leaf_nonzero: "page_leaf ua perm kind pa \<noteq> 0 \<longleftrightarrow> stage1_physical_address pa \<and> leaf_possible ua perm kind"
  using descriptors_write_xor_execute [of pa perm kind] by (auto simp: page_leaf_def leaf_possible_def)

lemma page_leaf_reads:
  assumes "page_leaf ua perm kind pa \<noteq> 0"
  shows "page_leaf ua perm kind pa AND page_address_mask = pa" "el0_accessible (page_leaf ua perm kind pa) \<longleftrightarrow> ua"
    "writable (page_leaf ua perm kind pa) \<longleftrightarrow> mp_writable perm"
    "el0_executable (page_leaf ua perm kind pa) \<or> el1_executable (page_leaf ua perm kind pa) \<longleftrightarrow> mp_executable perm"
  using assms descriptors_write_xor_execute [of pa perm kind]
  by (auto simp: page_leaf_def mp_writable_def mp_executable_def Let_def split: if_splits)

lemma na_map_never_stops:
  assumes "sb_ok b a mem" "backing \<longrightarrow> ua" "can_install b ua backing" "sb_region b = region_lower" "leaf_possible ua perm kind"
  shows "na_map_impl self b (s, l, a, mem) vb pb len perm kind ks us ua backing \<noteq> None"
proof
  let ?n = "unat (len div architectural_page_size)"
  assume "na_map_impl self b (s, l, a, mem) vb pb len perm kind ks us ua backing = None"
  note facts = this [unfolded na_map_impl_def prod.case Let_def]
  have ranges: "len \<noteq> 0" "page_aligned len" "page_aligned vb" "page_aligned pb" "\<not> vb > - 1 - (len - 1)"
    "\<not> pb > - 1 - (len - 1)" "user_stage1_virtual_address (vb + len - architectural_page_size)"
    "stage1_physical_address (pb + len - architectural_page_size)"
    using facts by (simp_all split: if_splits)
  have rv: "range_ok vb len (2 ^ 39)" and rp: "range_ok pb len (2 ^ 48)"
    by (rule virtual_limit physical_limit; use ranges in simp)+
  have stop: "na_install_pages b a mem vb pb perm kind ua backing 0 ?n = None"
    and budget: "required_table_pages vb (len div architectural_page_size) \<le> unat (sb_remaining_table_pages b a)"
    and probe: "na_probe_pages b mem vb 0 ?n False me_already_mapped = Inr ()"
    using facts by (auto split: if_splits option.splits sum.splits)
  have root: "sb_root b \<noteq> 0" "sb_attached b" "ar_ok a"
    using assms(1,3) by (auto simp: sb_ok_def can_install_def split: if_splits)
  have "\<exists>a' mem'. na_install_pages b a mem vb pb perm kind ua backing 0 ?n = Some (a', mem')"
  proof (rule na_install_pages_total [OF assms(1-3) root(1)])
    fix k assume k: "k < 0 + ?n"
    then have k': "k < unat len div 4096" by (simp add: page_count_nat)
    have va: "page_aligned (page_at vb k)" "sb_accepts_virtual_address b (page_at vb k)"
      using page_at_facts [OF rv _ k'] assms(4)
      by (simp_all add: sb_accepts_virtual_address_def user_stage1_virtual_address_def word_less_nat_alt)
    have "sb_mapped b mem (page_at vb k) = Inr False" using probe k by (simp add: na_probe_ok)
    then have "sb_pages b mem (page_at vb k) = None" using sb_mapped_pages [OF assms(1) root(1) va] by simp
    moreover have "stage1_physical_address (page_at pb k)"
      using page_at_facts(1,2) [OF rp _ k'] by (simp add: physical_mod page_aligned_mod)
    ultimately show "page_aligned (page_at vb k) \<and> sb_accepts_virtual_address b (page_at vb k) \<and>
      sb_pages b mem (page_at vb k) = None \<and> page_leaf ua perm kind (page_at pb k) \<noteq> 0"
      using va assms(5) by (simp add: page_leaf_nonzero)
  next
    fix j k assume "j < k" "k < 0 + ?n"
    then show "page_at vb j \<noteq> page_at vb k" using page_at_facts(4) [OF rv, of k j] by (simp add: page_count_nat)
  next
    show "required_from ?n vb 0 0xFFFF 0xFFFF 0 0 \<le> card (ar_free a)"
      using budget root by (simp add: required_table_pages_def sb_remaining_table_pages_def ar_free_card)
  qed simp_all
  then show False using stop by simp
qed

end
