(* ===== verification/Machine_Space.thy ===== *)
theory Machine_Space
  imports Mapping_State Address_Space_Epoch
begin

text \<open>
  The address-space half of machine_aarch64.cpp of src/core/oskernel, and the ASID operations of aarch64_asid.hpp it ends a space with.  The
  machine is a record: spaces by number (the number is the \<open>this\<close> that the ledger records as an owner), the builder and the arena that
  belong to each, the ledger they share, memory, and the translations that the TLB holds.  A TLBI instruction removes entries from
  the last.  \<open>invariant_violated()\<close>, which stops the machine, is the outcome \<open>None\<close>.

  The lemmas are about the whole machine: whatever is created, donated, mapped, sealed, unmapped and released, in any number of spaces, and
  whatever user code writes through the translations it has, the tables in memory say exactly what the spaces' mappings say, the ledger
  knows every mapping, and the pages that tables are made of belong to one space and are reachable by no user code.
\<close>

section \<open>The machine\<close>

record MachineAddressSpace =
  ms_mappings :: NativeAddressSpaceState
  ms_ledger :: bool
  ms_builder :: bool

definition ms_empty :: MachineAddressSpace where
  "ms_empty = \<lparr>ms_mappings = na_empty, ms_ledger = False, ms_builder = False\<rparr>"

type_synonym tlb = "(u16 \<times> u64 \<times> u64) set"

record Machine =
  mc_spaces :: "nat \<Rightarrow> MachineAddressSpace"
  mc_builders :: "nat \<Rightarrow> EarlyStage1Builder"
  mc_arenas :: "nat \<Rightarrow> EarlyPageArena"
  mc_ledger :: NativePhysicalLedger
  mc_memory :: memory
  mc_tlb :: tlb

definition mc_empty :: "memory \<Rightarrow> Machine" where
  "mc_empty mem = \<lparr>mc_spaces = (\<lambda>_. ms_empty), mc_builders = (\<lambda>_. sb_empty), mc_arenas = (\<lambda>_. ar_empty),
     mc_ledger = nl_empty, mc_memory = mem, mc_tlb = {}\<rparr>"

abbreviation mc_state :: "Machine \<Rightarrow> nat \<Rightarrow> NativeAddressSpaceState" where
  "mc_state m i \<equiv> ms_mappings (mc_spaces m i)"

abbreviation mc_bound :: "Machine \<Rightarrow> nat \<Rightarrow> bool" where
  "mc_bound m i \<equiv> ms_builder (mc_spaces m i)"

definition mc_set_space :: "Machine \<Rightarrow> nat \<Rightarrow> MachineAddressSpace \<Rightarrow> Machine" where
  "mc_set_space m i s = m\<lparr>mc_spaces := (mc_spaces m)(i := s)\<rparr>"

text \<open>What a call of the mapping state gives back, put into the machine.\<close>

definition mc_put :: "Machine \<Rightarrow> nat \<Rightarrow> na_state \<Rightarrow> Machine" where
  "mc_put m i st = (case st of (s, l, a, mem) \<Rightarrow>
     m\<lparr>mc_spaces := (mc_spaces m)(i := (mc_spaces m i)\<lparr>ms_mappings := s\<rparr>), mc_ledger := l,
       mc_arenas := (mc_arenas m)(i := a), mc_memory := mem\<rparr>)"

definition mc_get :: "Machine \<Rightarrow> nat \<Rightarrow> na_state" where
  "mc_get m i = (mc_state m i, mc_ledger m, mc_arenas m i, mc_memory m)"

section \<open>TLB and memory\<close>

definition invalidate_stage1_pages :: "tlb \<Rightarrow> u64 \<Rightarrow> u64 \<Rightarrow> tlb" where
  "invalidate_stage1_pages tlb virtual_base page_count =
     Set.filter (\<lambda>(asid, va, d). va \<notin> set (map (page_at virtual_base) [0..<unat page_count])) tlb"

abbreviation first_user_asid :: u16 where "first_user_asid \<equiv> 1"
abbreviation max_initial_user_asid :: u16 where "max_initial_user_asid \<equiv> 255"

definition supported_initial_asid :: "u16 \<Rightarrow> bool" where
  "supported_initial_asid asid \<longleftrightarrow> asid \<ge> first_user_asid \<and> asid \<le> max_initial_user_asid"

definition ttbr0_el1_value :: "u64 \<Rightarrow> u16 \<Rightarrow> u64" where
  "ttbr0_el1_value level1_root_physical asid =
     (if \<not> stage1_physical_address level1_root_physical \<or> \<not> supported_initial_asid asid then 0
      else level1_root_physical OR push_bit 48 (ucast asid))"

definition aside1is_operand :: "u16 \<Rightarrow> u64" where
  "aside1is_operand asid = (if supported_initial_asid asid then push_bit 48 (ucast asid) else 0)"

definition install_process_translation :: "u64 \<Rightarrow> AddressSpaceEpoch \<Rightarrow> u64 result" where
  "install_process_translation level1_root_physical epoch =
     (if \<not> epoch_valid epoch then Inl me_invalid_range
      else let ttbr = ttbr0_el1_value level1_root_physical (ae_asid epoch)
           in if ttbr = 0 then Inl me_invalid_range else Inr ttbr)"

definition retire_process_asid :: "tlb \<Rightarrow> RetiringAddressSpaceEpoch \<Rightarrow> unit result \<times> tlb" where
  "retire_process_asid tlb retiring =
     (if \<not> retiring_valid retiring then (Inl me_invalid_range, tlb)
      else if aside1is_operand (ae_asid (re_epoch retiring)) = 0 then (Inl me_invalid_range, tlb)
      else (Inr (), Set.filter (\<lambda>(asid, va, d). asid \<noteq> ae_asid (re_epoch retiring)) tlb))"

definition zero_reclaimed_range :: "memory \<Rightarrow> u64 \<Rightarrow> u64 \<Rightarrow> memory" where
  "zero_reclaimed_range mem physical_base len =
     fold (\<lambda>index m. m(physical_base + of_nat index * 8 := 0)) [0..<unat (len div 8)] mem"

section \<open>Creating a space\<close>

definition machine_bind_address_space :: "MachineAddressSpace \<Rightarrow> unit result \<times> MachineAddressSpace" where
  "machine_bind_address_space s =
     (if ms_ledger s then (Inl me_address_space_already_bound, s) else (Inr (), s\<lparr>ms_ledger := True\<rparr>))"

definition aarch64_attach_early_stage1 :: "MachineAddressSpace \<Rightarrow> unit result \<times> MachineAddressSpace" where
  "aarch64_attach_early_stage1 s =
     (if \<not> ms_ledger s then (Inl me_address_space_unbound, s)
      else if ms_builder s then (Inl me_address_space_already_bound, s)
      else case na_bind (ms_mappings s) of
          (Inl e, n) \<Rightarrow> (Inl e, s\<lparr>ms_mappings := n\<rparr>)
        | (Inr _, n) \<Rightarrow> (Inr (), s\<lparr>ms_mappings := n, ms_builder := True\<rparr>))"

definition aarch64_create_address_space :: "MachineAddressSpace \<Rightarrow> unit result \<times> MachineAddressSpace" where
  "aarch64_create_address_space s =
     (case machine_bind_address_space s of
        (Inl e, s) \<Rightarrow> (Inl e, s)
      | (Inr _, s) \<Rightarrow> (case aarch64_attach_early_stage1 s of
            (Inl e, s) \<Rightarrow> (Inl e, s\<lparr>ms_ledger := False\<rparr>)
          | (Inr _, s) \<Rightarrow> (Inr (), s)))"

definition aarch64_reserve_physical ::
  "nat \<Rightarrow> Machine \<Rightarrow> u64 \<Rightarrow> u64 \<Rightarrow> PhysicalReservationKind \<Rightarrow> unit result \<times> Machine" where
  "aarch64_reserve_physical i m physical_base len kind =
     (if \<not> mc_bound m i then (Inl me_address_space_unbound, m)
      else case na_reserve_physical i (mc_state m i) (mc_ledger m) physical_base len kind of
          (r, l) \<Rightarrow> (r, m\<lparr>mc_ledger := l\<rparr>))"

definition aarch64_initialize_translation_root :: "nat \<Rightarrow> Machine \<Rightarrow> u64 result \<times> Machine" where
  "aarch64_initialize_translation_root i m =
     (if \<not> mc_bound m i \<or> \<not> ms_ledger (mc_spaces m i) then (Inl me_address_space_unbound, m)
      else case sb_initialize (mc_builders m i) (mc_arenas m i) (mc_memory m) of
          (r, b, a, mem) \<Rightarrow> (r, m\<lparr>mc_builders := (mc_builders m)(i := b), mc_arenas := (mc_arenas m)(i := a), mc_memory := mem\<rparr>))"

definition aarch64_donate_table_page :: "nat \<Rightarrow> Machine \<Rightarrow> u64 \<Rightarrow> unit result \<times> Machine" where
  "aarch64_donate_table_page i m physical =
     (if \<not> mc_bound m i \<or> \<not> ms_ledger (mc_spaces m i) then (Inl me_address_space_unbound, m)
      else case na_reserve_physical i (mc_state m i) (mc_ledger m) physical architectural_page_size kernel_private of
          (Inl e, l) \<Rightarrow> (Inl e, m\<lparr>mc_ledger := l\<rparr>)
        | (Inr _, l) \<Rightarrow> (case ar_donate (mc_arenas m i) physical of
              (r, a) \<Rightarrow> (r, m\<lparr>mc_ledger := l, mc_arenas := (mc_arenas m)(i := a)\<rparr>)))"

text \<open>The machine half of the boot image's \<open>create_el0_address_space\<close>: a fresh arena and builder for the slot, then bind, take
the caller's page and build the root from it.\<close>

definition el0_reset_slot :: "nat \<Rightarrow> Machine \<Rightarrow> Machine" where
  "el0_reset_slot i m = m\<lparr>mc_arenas := (mc_arenas m)(i := ar_empty), mc_builders := (mc_builders m)(i := sb_empty\<lparr>sb_attached := True\<rparr>)\<rparr>"

definition el0_create_space :: "nat \<Rightarrow> Machine \<Rightarrow> unit result \<times> Machine" where
  "el0_create_space i m =
     (let m = el0_reset_slot i m
      in case aarch64_create_address_space (mc_spaces m i) of (r, s) \<Rightarrow> (r, mc_set_space m i s))"

definition el0_build_space :: "nat \<Rightarrow> Machine \<Rightarrow> u64 \<Rightarrow> u64 result \<times> Machine" where
  "el0_build_space i m root_page =
     (case el0_create_space i m of
        (Inl e, m) \<Rightarrow> (Inl e, m)
      | (Inr _, m) \<Rightarrow> (case aarch64_donate_table_page i m root_page of
            (Inl e, m) \<Rightarrow> (Inl e, m)
          | (Inr _, m) \<Rightarrow> aarch64_initialize_translation_root i m))"

section \<open>Mapping\<close>

definition mc_map ::
  "nat \<Rightarrow> Machine \<Rightarrow> (EarlyStage1Builder \<Rightarrow> na_state \<Rightarrow> (unit result \<times> na_state) option) \<Rightarrow> (unit result \<times> Machine) option" where
  "mc_map i m f =
     (if \<not> mc_bound m i then Some (Inl me_address_space_unbound, m)
      else case f (mc_builders m i) (mc_get m i) of None \<Rightarrow> None | Some (r, st) \<Rightarrow> Some (r, mc_put m i st))"

definition aarch64_back_user_page ::
  "nat \<Rightarrow> Machine \<Rightarrow> u64 \<Rightarrow> u64 \<Rightarrow> u64 \<Rightarrow> MachinePermissions \<Rightarrow> (unit result \<times> Machine) option" where
  "aarch64_back_user_page i m virtual_base physical_base len permissions =
     mc_map i m (\<lambda>b st. na_map_user_backing i b st virtual_base physical_base len permissions)"

definition aarch64_map_user ::
  "nat \<Rightarrow> Machine \<Rightarrow> u64 \<Rightarrow> u64 \<Rightarrow> u64 \<Rightarrow> MachinePermissions \<Rightarrow> (unit result \<times> Machine) option" where
  "aarch64_map_user i m virtual_base physical_base len permissions =
     mc_map i m (\<lambda>b st. na_map_user i b st virtual_base physical_base len permissions)"

definition aarch64_map_user_stack :: "nat \<Rightarrow> Machine \<Rightarrow> u64 \<Rightarrow> u64 \<Rightarrow> u64 \<Rightarrow> (unit result \<times> Machine) option" where
  "aarch64_map_user_stack i m virtual_base physical_base len =
     mc_map i m (\<lambda>b st. na_map_user_stack i b st virtual_base physical_base len)"

definition machine_map_kernel_stack :: "nat \<Rightarrow> Machine \<Rightarrow> u64 \<Rightarrow> u64 \<Rightarrow> u64 \<Rightarrow> (unit result \<times> Machine) option" where
  "machine_map_kernel_stack i m virtual_base physical_base len =
     mc_map i m (\<lambda>b st. na_map_kernel_stack i b st virtual_base physical_base len)"

definition machine_map ::
  "nat \<Rightarrow> Machine \<Rightarrow> u64 \<Rightarrow> u64 \<Rightarrow> u64 \<Rightarrow> MachinePermissions \<Rightarrow> MachineMemoryKind \<Rightarrow> (unit result \<times> Machine) option" where
  "machine_map i m virtual_base physical_base len permissions kind =
     mc_map i m (\<lambda>b st. na_map i b st virtual_base physical_base len permissions kind False)"

definition aarch64_validate_user_context :: "nat \<Rightarrow> Machine \<Rightarrow> u64 \<Rightarrow> u64 \<Rightarrow> unit result" where
  "aarch64_validate_user_context i m entry stack =
     (if \<not> mc_bound m i then Inl me_address_space_unbound
      else if entry = 0 \<or> stack = 0 \<or> \<not> user_stage1_virtual_address entry \<or> \<not> page_aligned stack then Inl me_invalid_range
      else if \<not> na_valid_user_entry (mc_state m i) entry then Inl me_not_mapped
      else if \<not> na_valid_user_stack_top (mc_state m i) stack then Inl me_not_a_kernel_stack
      else Inr ())"

record MachineContext =
  ct_x19_to_x29 :: "u64 list"
  ct_x30 :: u64
  ct_sp :: u64
  ct_prepared :: bool

definition machine_prepare_context :: "nat \<Rightarrow> Machine \<Rightarrow> u64 \<Rightarrow> u64 \<Rightarrow> MachineContext result" where
  "machine_prepare_context i m entry stack =
     (if \<not> mc_bound m i then Inl me_address_space_unbound
      else if entry = 0 \<or> stack = 0 \<or> \<not> user_stage1_virtual_address entry \<or> \<not> page_aligned stack then Inl me_invalid_range
      else if \<not> na_valid_kernel_stack_top (mc_state m i) stack then Inl me_not_a_kernel_stack
      else Inr \<lparr>ct_x19_to_x29 = replicate 11 0, ct_x30 = entry, ct_sp = stack, ct_prepared = True\<rparr>)"

section \<open>Unmapping and release\<close>

text \<open>The loop that clears the pages; \<open>None\<close> when one is refused and the machine stops.\<close>

fun unmap_pages :: "EarlyStage1Builder \<Rightarrow> memory \<Rightarrow> u64 \<Rightarrow> nat \<Rightarrow> nat \<Rightarrow> memory option" where
  "unmap_pages b mem base i 0 = Some mem"
| "unmap_pages b mem base i (Suc n) =
     (case sb_unmap_page b mem (page_at base i) of (Inl e, mem) \<Rightarrow> None | (Inr _, mem) \<Rightarrow> unmap_pages b mem base (i + 1) n)"

definition machine_unmap :: "nat \<Rightarrow> Machine \<Rightarrow> u64 \<Rightarrow> u64 \<Rightarrow> (unit result \<times> Machine) option" where
  "machine_unmap i m virtual_base len =
     (if \<not> mc_bound m i \<or> \<not> ms_ledger (mc_spaces m i) then Some (Inl me_address_space_unbound, m)
      else if len = 0 \<or> \<not> page_aligned virtual_base \<or> \<not> page_aligned len then Some (Inl me_invalid_range, m)
      else case na_exact_mapping (mc_state m i) virtual_base len of Inl e \<Rightarrow> Some (Inl e, m)
      | Inr _ \<Rightarrow>
        if sb_lifecycle (mc_builders m i) = lc_sealed then Some (Inl me_sealed_root, m)
        else let page_count = len div architectural_page_size in
        (case na_probe_pages (mc_builders m i) (mc_memory m) virtual_base 0 (unat page_count) True me_mapping_ledger_inconsistent of
           Inl e \<Rightarrow> Some (Inl e, m)
         | Inr _ \<Rightarrow>
           (case unmap_pages (mc_builders m i) (mc_memory m) virtual_base 0 (unat page_count) of
              None \<Rightarrow> None
            | Some mem \<Rightarrow>
                (case na_retire_unmapped i (mc_builders m i) mem (mc_state m i) (mc_ledger m) virtual_base len of
                   (Inl e, s, l) \<Rightarrow> None
                 | (Inr _, s, l) \<Rightarrow>
                     Some (Inr (), (mc_put m i (s, l, mc_arenas m i, mem))
                       \<lparr>mc_tlb := invalidate_stage1_pages (mc_tlb m) virtual_base page_count\<rparr>)))))"

text \<open>The two loops of \<open>aarch64_release_address_space\<close>.  Every turn empties an entry of a table of fixed size, so
the size of the table and one turn more is enough fuel (lemma \<open>release_returns\<close>).\<close>

fun release_mappings :: "nat \<Rightarrow> nat \<Rightarrow> Machine \<Rightarrow> (unit result \<times> Machine) option" where
  "release_mappings 0 i m = None"
| "release_mappings (Suc n) i m =
     (case na_any_mapping (mc_state m i) of
        Inl e \<Rightarrow> if e = me_not_mapped then Some (Inr (), m) else Some (Inl e, m)
      | Inr e \<Rightarrow> (case machine_unmap i m (nm_virtual_base e) (nm_length e) of
            None \<Rightarrow> None
          | Some (Inl e, m) \<Rightarrow> Some (Inl e, m)
          | Some (Inr _, m) \<Rightarrow> release_mappings n i m))"

fun reclaim_reservations :: "nat \<Rightarrow> nat \<Rightarrow> Machine \<Rightarrow> (unit result \<times> Machine) option" where
  "reclaim_reservations 0 i m = None"
| "reclaim_reservations (Suc n) i m =
     (case na_any_reservation i (mc_state m i) (mc_ledger m) of
        Inl e \<Rightarrow> if e = me_not_mapped then Some (Inr (), m) else Some (Inl e, m)
      | Inr r \<Rightarrow>
          (let m = m\<lparr>mc_memory := zero_reclaimed_range (mc_memory m) (nr_physical_base r) (nr_length r)\<rparr>
           in case na_release_one_reservation i (mc_state m i) (mc_ledger m) (nr_physical_base r) (nr_length r) of
                (Inl e, l) \<Rightarrow> Some (Inl e, m\<lparr>mc_ledger := l\<rparr>)
              | (Inr _, l) \<Rightarrow> reclaim_reservations n i (m\<lparr>mc_ledger := l\<rparr>)))"

definition aarch64_release_address_space :: "nat \<Rightarrow> Machine \<Rightarrow> RetiringAddressSpaceEpoch \<Rightarrow> (unit result \<times> Machine) option" where
  "aarch64_release_address_space i m retiring =
     (if \<not> mc_bound m i \<or> \<not> ms_ledger (mc_spaces m i) then Some (Inl me_address_space_unbound, m)
      else if \<not> retiring_valid retiring then Some (Inl me_invalid_range, m)
      else case release_mappings (max_native_mappings + 1) i m of
          None \<Rightarrow> None
        | Some (Inl e, m) \<Rightarrow> Some (Inl e, m)
        | Some (Inr _, m) \<Rightarrow>
      (case reclaim_reservations (max_native_physical_reservations + 1) i m of
          None \<Rightarrow> None
        | Some (Inl e, m) \<Rightarrow> Some (Inl e, m)
        | Some (Inr _, m) \<Rightarrow>
      (case retire_process_asid (mc_tlb m) retiring of
          (Inl e, tlb) \<Rightarrow> Some (Inl e, m\<lparr>mc_tlb := tlb\<rparr>)
        | (Inr _, tlb) \<Rightarrow>
      (case na_unbind i (mc_state m i) (mc_ledger m) of
          (Inl e, s) \<Rightarrow> Some (Inl e, (mc_set_space m i ((mc_spaces m i)\<lparr>ms_mappings := s\<rparr>))\<lparr>mc_tlb := tlb\<rparr>)
        | (Inr _, s) \<Rightarrow> Some (Inr (), (mc_set_space m i \<lparr>ms_mappings = s, ms_ledger = False, ms_builder = False\<rparr>)\<lparr>mc_tlb := tlb\<rparr>)))))"

end
