(* ===== verification/Machine_Invariant.thy ===== *)
theory Machine_Invariant
  imports Machine_Space "HOL-Library.Multiset"
begin

text \<open>
  The invariant of the machine of theory \<open>Machine_Space\<close> and that every operation keeps it.  For each space the
  translations that its tables hold are those of its mappings, its mappings are in the shared ledger, and its tables and
  the free pages of its arena lie in ranges that the ledger reserves for it.  An operation on one space is then a
  change that no other space sees, because reservations are disjoint; that argument is made once (lemma \<open>mc_ok_local\<close>).
\<close>

section \<open>One space\<close>

definition page_of :: "NativeMapping \<Rightarrow> u64 \<Rightarrow> u64 \<Rightarrow> bool" where
  "page_of e va d \<longleftrightarrow> nm_occupied e \<and> (\<exists>k < unat (nm_length e) div 4096. va = page_at (nm_virtual_base e) k \<and>
     d = page_leaf (nm_user_accessible e) (nm_permissions e) (nm_kind e) (page_at (nm_physical_base e) k))"

definition entry_ok :: "NativeMapping \<Rightarrow> bool" where
  "entry_ok e \<longleftrightarrow> range_ok (nm_virtual_base e) (nm_length e) (2 ^ 39) \<and> range_ok (nm_physical_base e) (nm_length e) (2 ^ 48) \<and>
     leaf_possible (nm_user_accessible e) (nm_permissions e) (nm_kind e)"

definition na_ok :: "(u64 \<Rightarrow> u64 option) \<Rightarrow> NativeAddressSpaceState \<Rightarrow> bool" where
  "na_ok P s \<longleftrightarrow> length (na_mappings s) = max_native_mappings \<and>
     unat (na_occupied s) = length (filter nm_occupied (na_mappings s)) \<and>
     (\<forall>e \<in> set (na_mappings s). nm_occupied e \<longrightarrow> entry_ok e) \<and>
     (\<forall>i < max_native_mappings. \<forall>j < max_native_mappings. i \<noteq> j \<longrightarrow> nm_occupied (na_mappings s ! i) \<longrightarrow> nm_occupied (na_mappings s ! j) \<longrightarrow>
        pages_of (nm_virtual_base (na_mappings s ! i)) (nm_length (na_mappings s ! i)) \<inter>
        pages_of (nm_virtual_base (na_mappings s ! j)) (nm_length (na_mappings s ! j)) = {}) \<and>
     (\<forall>va d. P va = Some d \<longleftrightarrow> (\<exists>e \<in> set (na_mappings s). page_of e va d))"

text \<open>What of a mapping the ledger is told.\<close>

definition local_keys :: "NativeAddressSpaceState \<Rightarrow> (u64 \<times> u64 \<times> MachinePermissions \<times> bool) multiset" where
  "local_keys s = image_mset (\<lambda>e. (nm_physical_base e, nm_length e, nm_permissions e, nm_user_accessible e))
     (mset (filter nm_occupied (na_mappings s)))"

definition ledger_keys :: "nat \<Rightarrow> NativePhysicalLedger \<Rightarrow> (u64 \<times> u64 \<times> MachinePermissions \<times> bool) multiset" where
  "ledger_keys i l = image_mset (\<lambda>e. (np_physical_base e, np_length e, np_permissions e, np_user_accessible e))
     (mset (filter (\<lambda>e. np_occupied e \<and> np_owner e = Some i) (nl_mappings l)))"

text \<open>\<open>retire_unmapped\<close> looks its entry up without the user flag, so the entry it takes is the mapping's
own as long as a space has no range mapped both for the kernel and for user code with equal permissions.\<close>

definition uniform :: "NativeAddressSpaceState \<Rightarrow> bool" where
  "uniform s \<longleftrightarrow> (\<forall>e \<in> set (na_mappings s). \<forall>f \<in> set (na_mappings s). nm_occupied e \<longrightarrow> nm_occupied f \<longrightarrow>
     nm_physical_base e = nm_physical_base f \<longrightarrow> nm_length e = nm_length f \<longrightarrow> nm_permissions e = nm_permissions f \<longrightarrow>
     nm_user_accessible e = nm_user_accessible f)"

definition reserved_by :: "NativePhysicalLedger \<Rightarrow> nat \<Rightarrow> u64 \<Rightarrow> bool" where
  "reserved_by l i x \<longleftrightarrow> (\<exists>r \<in> set (nl_reservations l). nr_occupied r \<and> nr_owner r = Some i \<and>
     unat x \<in> pages_of (nr_physical_base r) (nr_length r))"

section \<open>The machine\<close>

text \<open>The builder a space translates with: none while it is unbound.\<close>

definition mc_builder :: "Machine \<Rightarrow> nat \<Rightarrow> EarlyStage1Builder" where
  "mc_builder m i = (if mc_bound m i then mc_builders m i else sb_empty)"

definition mc_pages :: "Machine \<Rightarrow> nat \<Rightarrow> u64 \<Rightarrow> u64 option" where
  "mc_pages m i = sb_pages (mc_builder m i) (mc_memory m)"

definition space_ok :: "Machine \<Rightarrow> nat \<Rightarrow> bool" where
  "space_ok m i \<longleftrightarrow> ms_ledger (mc_spaces m i) = mc_bound m i \<and> na_ledger (mc_state m i) = mc_bound m i \<and>
     na_builder (mc_state m i) = mc_bound m i \<and>
     local_keys (mc_state m i) = ledger_keys i (mc_ledger m) \<and> uniform (mc_state m i) \<and> na_ok (mc_pages m i) (mc_state m i) \<and>
     (if mc_bound m i
      then sb_ok (mc_builders m i) (mc_arenas m i) (mc_memory m) \<and> sb_region (mc_builders m i) = region_lower \<and>
        (\<forall>t \<in> sb_tables (mc_builders m i) (mc_memory m) \<union> ar_free (mc_arenas m i). reserved_by (mc_ledger m) i t)
      else \<forall>x. \<not> reserved_by (mc_ledger m) i x)"

definition tlb_ok :: "Machine \<Rightarrow> bool" where
  "tlb_ok m \<longleftrightarrow> (\<forall>(asid, va, d) \<in> mc_tlb m. \<exists>i. mc_bound m i \<and> mc_pages m i va = Some d)"

definition mc_ok :: "Machine \<Rightarrow> bool" where
  "mc_ok m \<longleftrightarrow> nl_ok (mc_ledger m) \<and> (\<forall>i. space_ok m i) \<and> tlb_ok m"

section \<open>Reservations separate spaces\<close>

lemma reserved_once:
  assumes "nl_ok l" "reserved_by l i x" "reserved_by l j x"
  shows "i = j"
proof -
  obtain r q where rq: "r \<in> set (nl_reservations l)" "nr_occupied r" "nr_owner r = Some i" "unat x \<in> pages_of (nr_physical_base r) (nr_length r)"
    "q \<in> set (nl_reservations l)" "nr_occupied q" "nr_owner q = Some j" "unat x \<in> pages_of (nr_physical_base q) (nr_length q)"
    using assms(2,3) unfolding reserved_by_def by blast
  have sep: "separate (nl_reservations l)" using assms(1) by (simp add: nl_ok_def)
  obtain a b where ab: "a < length (nl_reservations l)" "r = nl_reservations l ! a" "b < length (nl_reservations l)" "q = nl_reservations l ! b"
    using rq(1,5) by (metis in_set_conv_nth)
  have "a = b" using sep [unfolded separate_def, rule_format, OF ab(1,3)] rq ab by blast
  then show ?thesis using rq ab by simp
qed

lemma pages_of_page:
  assumes "range_ok base len limit" "unat t mod 4096 = 0" "unat t \<in> pages_of base len" "unat t \<le> y" "y < unat t + 4096"
  shows "y \<in> pages_of base len"
proof -
  have "(unat base + unat len) mod 4096 = 0" using assms(1) by (auto simp: range_ok_def mod_add_eq [symmetric])
  then obtain q where q: "unat base + unat len = 4096 * q" by auto
  obtain k where k: "unat t = 4096 * k" using assms(2) by auto
  have "4096 * k < 4096 * q" using assms(3) k q by (simp add: pages_of_def)
  then have "4096 * k + 4096 \<le> 4096 * q" by simp
  then show ?thesis using assms(3-5) k q by (simp add: pages_of_def)
qed

lemma reserved_page:
  assumes "nl_ok l" "reserved_by l i t" "stage1_physical_address t" "unat t \<le> unat x" "unat x < unat t + 4096"
  shows "reserved_by l i x"
proof -
  obtain r where r: "r \<in> set (nl_reservations l)" "nr_occupied r" "nr_owner r = Some i" "unat t \<in> pages_of (nr_physical_base r) (nr_length r)"
    using assms(2) unfolding reserved_by_def by blast
  have "range_ok (nr_physical_base r) (nr_length r) (2 ^ 48)" using assms(1) r(1,2) unfolding nl_ok_def by blast
  from pages_of_page [OF this _ r(4) assms(4,5)] r assms(3) show ?thesis
    unfolding reserved_by_def by (auto simp: physical_mod)
qed

lemma reserved_entry:
  assumes "nl_ok l" "reserved_by l i t" "stage1_physical_address t" "unat k < 512"
  shows "reserved_by l i (entry_at t k)"
  by (rule reserved_page [OF assms(1-3)]) (use entry_at_nat [OF assms(3,4)] assms(4) in simp_all)

section \<open>What a change of memory leaves alone\<close>

lemma sb_tables_physical:
  assumes "sb_ok b a mem" "t \<in> sb_tables b mem"
  shows "stage1_physical_address t"
proof -
  obtain p where p: "sb_root b \<noteq> 0" "table_of mem (sb_root b) p = Some t" using assms(2) by (auto simp: sb_tables_def split: if_splits)
  then have "tree_ok mem (sb_root b) (ar_free a)" using assms(1) by (simp add: sb_ok_def)
  from table_physical [OF tree_okD(1) [OF this] p(2)] show ?thesis .
qed

lemma tree_kept:
  assumes "sb_ok b a mem" "nl_ok l" "\<forall>t \<in> sb_tables b mem. reserved_by l j t" "\<And>x. mem' x \<noteq> mem x \<Longrightarrow> \<not> reserved_by l j x"
  shows "sb_ok b a mem'" "sb_pages b mem' = sb_pages b mem" "sb_tables b mem' = sb_tables b mem"
proof -
  have "sb_ok b a mem' \<and> sb_pages b mem' = sb_pages b mem \<and> sb_tables b mem' = sb_tables b mem"
  proof (cases "sb_root b = 0")
    case True
    then show ?thesis using assms(1) by (simp add: sb_ok_def sb_pages_def sb_tables_def fun_eq_iff)
  next
    case False
    let ?root = "sb_root b"
    have t: "tree_ok mem ?root (ar_free a)" using assms(1) False by (simp add: sb_ok_def)
    have at: "mem' (entry_at t k) = mem (entry_at t k)" if "path_ok p" "table_of mem ?root p = Some t" "unat k < 512" for p t k
    proof -
      have m: "t \<in> sb_tables b mem" using that False by (auto simp: sb_tables_def)
      show ?thesis using reserved_entry [OF assms(2) _ sb_tables_physical [OF assms(1) m] that(3)] assms(3,4) m by blast
    qed
    have "\<forall>x \<in> tree_words mem ?root. mem' x = mem x" using at unfolding tree_words_def by blast
    note env = tree_environment [OF t this]
    have same: "table_of mem' ?root q = table_of mem ?root q" if "path_ok q" for q
      by (rule table_of_cong) (use that path_ok_append at in fastforce)
    show ?thesis using assms(1) False env same by (auto simp: sb_ok_def sb_pages_def sb_tables_def fun_eq_iff)
  qed
  then show "sb_ok b a mem'" "sb_pages b mem' = sb_pages b mem" "sb_tables b mem' = sb_tables b mem" by blast+
qed

lemma space_kept:
  assumes "space_ok m j" "nl_ok (mc_ledger m)"
    and eq: "mc_spaces m' j = mc_spaces m j" "mc_builders m' j = mc_builders m j" "mc_arenas m' j = mc_arenas m j"
      "ledger_keys j (mc_ledger m') = ledger_keys j (mc_ledger m)" "\<And>x. reserved_by (mc_ledger m') j x = reserved_by (mc_ledger m) j x"
    and mem: "\<And>x. mc_memory m' x \<noteq> mc_memory m x \<Longrightarrow> \<not> reserved_by (mc_ledger m) j x"
  shows "space_ok m' j" "mc_pages m' j = mc_pages m j"
proof -
  have "space_ok m' j \<and> mc_pages m' j = mc_pages m j"
  proof (cases "mc_bound m j")
    case False
    then have "mc_pages m' j = mc_pages m j" using eq by (simp add: mc_pages_def mc_builder_def sb_pages_def sb_empty_def fun_eq_iff)
    then show ?thesis using assms(1) eq False by (simp add: space_ok_def)
  next
    case True
    then have tr: "sb_ok (mc_builders m j) (mc_arenas m j) (mc_memory m)"
      "\<forall>t \<in> sb_tables (mc_builders m j) (mc_memory m). reserved_by (mc_ledger m) j t"
      using assms(1) by (auto simp: space_ok_def)
    note kept = tree_kept [OF tr(1) assms(2) tr(2), of "mc_memory m'", OF mem]
    have "mc_pages m' j = mc_pages m j" using eq True kept(2) by (simp add: mc_pages_def mc_builder_def)
    then show ?thesis using assms(1) eq True kept(1,3) by (simp add: space_ok_def)
  qed
  then show "space_ok m' j" "mc_pages m' j = mc_pages m j" by blast+
qed

lemma mc_ok_local:
  assumes ok: "mc_ok m" and l: "nl_ok (mc_ledger m')" and here: "space_ok m' i"
    and same: "\<And>j. j \<noteq> i \<Longrightarrow> mc_spaces m' j = mc_spaces m j \<and> mc_builders m' j = mc_builders m j \<and> mc_arenas m' j = mc_arenas m j"
    and keys: "\<And>j. j \<noteq> i \<Longrightarrow> ledger_keys j (mc_ledger m') = ledger_keys j (mc_ledger m)"
    and res: "\<And>j x. j \<noteq> i \<Longrightarrow> reserved_by (mc_ledger m') j x = reserved_by (mc_ledger m) j x"
    and mem: "\<And>j x. mc_memory m' x \<noteq> mc_memory m x \<Longrightarrow> j \<noteq> i \<Longrightarrow> \<not> reserved_by (mc_ledger m) j x"
    and tlb: "\<And>g va d. (g, va, d) \<in> mc_tlb m' \<Longrightarrow> (g, va, d) \<in> mc_tlb m \<and>
      (mc_bound m i \<and> mc_pages m i va = Some d \<longrightarrow> mc_bound m' i \<and> mc_pages m' i va = Some d)"
  shows "mc_ok m'"
proof -
  have other: "space_ok m' j" "mc_pages m' j = mc_pages m j" if j: "j \<noteq> i" for j
    using space_kept [of m j m'] ok same [OF j] keys [OF j] res [OF j] mem [OF _ j] by (auto simp: mc_ok_def)
  have "\<exists>k. mc_bound m' k \<and> mc_pages m' k va = Some d" if g: "(g, va, d) \<in> mc_tlb m'" for g va d
  proof -
    obtain k where k: "mc_bound m k" "mc_pages m k va = Some d"
      using ok conjunct1 [OF tlb [OF g]] unfolding mc_ok_def tlb_ok_def by blast
    show ?thesis
    proof (cases "k = i")
      case True then show ?thesis using k tlb [OF g] by blast
    next
      case False then show ?thesis using k other [OF False] same [OF False] by (intro exI [of _ k]) simp
    qed
  qed
  then have "tlb_ok m'" unfolding tlb_ok_def by blast
  moreover have "\<forall>j. space_ok m' j" using here other by metis
  ultimately show ?thesis using l by (simp add: mc_ok_def)
qed

text \<open>What a builder writes and takes lies in its own space's reservations.\<close>

lemma frame_reserved:
  assumes "sb_frame root a mem a' mem'" "root = sb_root b" "root \<noteq> 0" "sb_ok b a mem" "sb_ok b a' mem'" "nl_ok l"
    and "\<forall>t \<in> sb_tables b mem \<union> ar_free a. reserved_by l i t"
  shows "mem' x \<noteq> mem x \<Longrightarrow> reserved_by l i x" "t \<in> sb_tables b mem' \<union> ar_free a' \<Longrightarrow> reserved_by l i t"
proof -
  have phys: "stage1_physical_address u" if "u \<in> sb_tables b mem \<union> ar_free a" for u
    using that sb_tables_physical [OF assms(4)] ar_free_physical assms(4) by (auto simp: sb_ok_def)
  have words: "\<exists>u k. x = entry_at u k \<and> unat k < 512 \<and> u \<in> sb_tables b mem \<union> ar_free a"
    if "x \<in> tree_words mem root \<union> page_words (ar_free a)" for x
    using that assms(2,3) unfolding tree_words_def page_words_def sb_tables_def by auto
  have res: "reserved_by l i x" if "x \<in> tree_words mem root \<union> page_words (ar_free a)" for x
    using words [OF that] reserved_entry [OF assms(6)] assms(7) phys by metis
  show "reserved_by l i x" if "mem' x \<noteq> mem x" using assms(1) that res unfolding sb_frame_def by blast
  show "reserved_by l i t" if t: "t \<in> sb_tables b mem' \<union> ar_free a'"
  proof (cases "t \<in> ar_free a'")
    case True
    then show ?thesis using assms(1,7) by (auto simp: sb_frame_def)
  next
    case False
    then obtain p where p: "path_ok p" "table_of mem' root p = Some t" using t assms(2,3) by (auto simp: sb_tables_def)
    have "t = entry_at t 0" by (simp add: entry_at_def)
    then have "t \<in> tree_words mem' root" using p unfolding tree_words_def by (metis (mono_tags, lifting) mem_Collect_eq unat_0 zero_less_numeral)
    then show ?thesis using assms(1) res unfolding sb_frame_def by blast
  qed
qed

section \<open>Entering and removing a mapping\<close>

lemma filter_update:
  assumes "i < length xs"
  shows "mset (filter P (xs[i := v])) =
    mset (filter P xs) - (if P (xs ! i) then {#xs ! i#} else {#}) + (if P v then {#v#} else {#})"
  using assms by (auto simp: mset_update mset_filter filter_diff_mset)

lemma ex_update:
  assumes "i < length xs" "\<not> R (xs ! i)"
  shows "(\<exists>f \<in> set (xs[i := e]). R f) \<longleftrightarrow> R e \<or> (\<exists>f \<in> set xs. R f)"
proof
  assume "\<exists>f \<in> set (xs[i := e]). R f"
  then show "R e \<or> (\<exists>f \<in> set xs. R f)" using set_update_subset_insert [of xs i e] by blast
next
  assume "R e \<or> (\<exists>f \<in> set xs. R f)"
  then show "\<exists>f \<in> set (xs[i := e]). R f"
  proof
    assume "\<exists>f \<in> set xs. R f"
    then obtain k where k: "k < length xs" "R (xs ! k)" by (auto simp: in_set_conv_nth)
    then have "xs[i := e] ! k = xs ! k" using assms(2) by (cases "k = i") simp_all
    then show ?thesis using k by (metis length_list_update nth_mem)
  qed (use assms(1) set_update_memI in fastforce)
qed

lemma filter_count:
  "i < length xs \<Longrightarrow> length (filter P (xs[i := v])) + (if P (xs ! i) then 1 else 0) = length (filter P xs) + (if P v then 1 else 0)"
proof (induction xs arbitrary: i)
  case (Cons x xs)
  show ?case
  proof (cases i)
    case (Suc k)
    then show ?thesis using Cons.IH [of k] Cons.prems by simp
  qed simp
qed simp

lemma page_of_range:
  assumes "entry_ok e" "page_of e va d"
  shows "unat va \<in> pages_of (nm_virtual_base e) (nm_length e)" "page_aligned va"
  using assms page_at_facts(1,3) [of "nm_virtual_base e" "nm_length e" "2 ^ 39"] by (auto simp: page_of_def entry_ok_def)

lemma na_ok_keep: "na_ok P s \<Longrightarrow> na_mappings s' = na_mappings s \<Longrightarrow> na_occupied s' = na_occupied s \<Longrightarrow> na_ok P s'"
  by (simp add: na_ok_def)

lemma na_ok_enter:
  assumes ok: "na_ok P s" and i: "free_local s = Some i" and e: "nm_occupied e" "entry_ok e"
    and apart: "\<forall>f \<in> set (na_mappings s). nm_occupied f \<longrightarrow> \<not> overlap (nm_virtual_base f) (nm_length f) (nm_virtual_base e) (nm_length e)"
  shows "na_ok (with_pages (nm_virtual_base e) (nm_physical_base e) (page_leaf (nm_user_accessible e) (nm_permissions e) (nm_kind e))
      0 (unat (nm_length e div architectural_page_size)) P)
    (s\<lparr>na_mappings := (na_mappings s)[i := e], na_occupied := na_occupied s + 1\<rparr>)"
    (is "na_ok ?Q ?s")
proof -
  let ?xs = "na_mappings s"
  have len: "length ?xs = max_native_mappings" using ok by (simp add: na_ok_def)
  have il: "i < length ?xs" "\<not> nm_occupied (?xs ! i)" using i by (auto simp: free_local_def dest: first_index_SomeD)
  have range: "range_ok (nm_virtual_base e) (nm_length e) (2 ^ 39)" using e(2) by (simp add: entry_ok_def)
  have old: "entry_ok f" if "f \<in> set ?xs" "nm_occupied f" for f using ok that unfolding na_ok_def by blast
  have disjoint: "pages_of (nm_virtual_base f) (nm_length f) \<inter> pages_of (nm_virtual_base e) (nm_length e) = {}"
    if "f \<in> set ?xs" "nm_occupied f" for f
    using overlap_virtual [OF _ range] old [OF that] apart that by (auto simp: entry_ok_def)
  have pages: "?Q va = Some d \<longleftrightarrow> (\<exists>f \<in> set (?xs[i := e]). page_of f va d)" for va d
  proof -
    let ?N = "\<exists>k. 0 \<le> k \<and> k < 0 + unat (nm_length e div architectural_page_size) \<and> va = page_at (nm_virtual_base e) k"
    let ?L = "page_leaf (nm_user_accessible e) (nm_permissions e) (nm_kind e) (nm_physical_base e + (va - nm_virtual_base e))"
    have new: "page_of e va d \<longleftrightarrow> ?N \<and> d = ?L" for d using e(1) by (auto simp: page_of_def page_count_nat)
    have P: "P va = Some d \<longleftrightarrow> (\<exists>f \<in> set ?xs. page_of f va d)" using ok unfolding na_ok_def by blast
    have excl: "\<not> ?N" if pv: "P va = Some d"
    proof
      obtain f where f: "f \<in> set ?xs" "page_of f va d" using pv P by blast
      then have occ: "nm_occupied f" by (simp add: page_of_def)
      assume ?N
      then have "page_of e va ?L" using new by blast
      then show False
        using page_of_range(1) [OF old [OF f(1) occ] f(2)] page_of_range(1) [OF e(2)] disjoint [OF f(1) occ] by blast
    qed
    have "(\<exists>f \<in> set (?xs[i := e]). page_of f va d) \<longleftrightarrow> page_of e va d \<or> P va = Some d"
      unfolding P by (rule ex_update [OF il(1)]) (simp add: page_of_def il(2))
    also have "\<dots> \<longleftrightarrow> ?Q va = Some d"
      unfolding new with_pages_def using excl by (metis option.inject)
    finally show ?thesis by blast
  qed
  have count: "length (filter nm_occupied (?xs[i := e])) = Suc (length (filter nm_occupied ?xs))"
    using filter_count [OF il(1), of nm_occupied e] il(2) e(1) by simp
  have "length (filter nm_occupied ?xs) < max_native_mappings" using length_filter_less [of "?xs ! i" ?xs nm_occupied] il len by simp
  then have occ: "unat (na_occupied s + 1) = length (filter nm_occupied (?xs[i := e]))"
    using ok count by (simp add: na_ok_def unat_word_ariths)
  have "pages_of (nm_virtual_base (?xs[i := e] ! j)) (nm_length (?xs[i := e] ! j)) \<inter>
      pages_of (nm_virtual_base (?xs[i := e] ! k)) (nm_length (?xs[i := e] ! k)) = {}"
    if jk: "j < max_native_mappings" "k < max_native_mappings" "j \<noteq> k" "nm_occupied (?xs[i := e] ! j)" "nm_occupied (?xs[i := e] ! k)" for j k
  proof -
    consider "j = i" | "k = i" | "j \<noteq> i" "k \<noteq> i" by blast
    then show ?thesis
    proof cases
      case 1 then show ?thesis using jk disjoint [of "?xs ! k"] len by (simp add: Int_commute)
    next
      case 2 then show ?thesis using jk disjoint [of "?xs ! j"] len by simp
    next
      case 3 then show ?thesis using jk ok unfolding na_ok_def by simp
    qed
  qed
  moreover have "entry_ok f" if "f \<in> set (?xs[i := e])" "nm_occupied f" for f
    using that old e set_update_subset_insert [of ?xs i e] by blast
  ultimately show ?thesis using len occ pages unfolding na_ok_def by simp
qed

definition without_pages :: "u64 \<Rightarrow> nat \<Rightarrow> nat \<Rightarrow> (u64 \<Rightarrow> u64 option) \<Rightarrow> u64 \<Rightarrow> u64 option" where
  "without_pages vb i n P va = (if \<exists>k. i \<le> k \<and> k < i + n \<and> va = page_at vb k then None else P va)"

lemma na_ok_leave:
  assumes ok: "na_ok P s" and i: "i < max_native_mappings" "nm_occupied (na_mappings s ! i)"
  shows "na_ok (without_pages (nm_virtual_base (na_mappings s ! i)) 0 (unat (nm_length (na_mappings s ! i) div architectural_page_size)) P)
    (s\<lparr>na_mappings := (na_mappings s)[i := nm_empty], na_occupied := na_occupied s - 1\<rparr>)"
    (is "na_ok ?Q ?s")
proof -
  let ?xs = "na_mappings s"
  have len: "length ?xs = max_native_mappings" and il: "i < length ?xs" using ok i(1) by (simp_all add: na_ok_def)
  have empty: "\<not> nm_occupied nm_empty" by (simp add: nm_empty_def)
  have old: "entry_ok f" if "f \<in> set ?xs" "nm_occupied f" for f using ok that unfolding na_ok_def by blast
  have left: "(\<exists>f \<in> set (?xs[i := nm_empty]). page_of f va d) \<longleftrightarrow> (\<exists>k < max_native_mappings. k \<noteq> i \<and> page_of (?xs ! k) va d)" for va d
  proof
    assume "\<exists>f \<in> set (?xs[i := nm_empty]). page_of f va d"
    then obtain k where "k < length ?xs" "page_of (?xs[i := nm_empty] ! k) va d" by (auto simp: in_set_conv_nth)
    then show "\<exists>k < max_native_mappings. k \<noteq> i \<and> page_of (?xs ! k) va d"
      using empty len by (cases "k = i") (auto simp: page_of_def)
  next
    assume "\<exists>k < max_native_mappings. k \<noteq> i \<and> page_of (?xs ! k) va d"
    then obtain k where k: "k < length ?xs" "k \<noteq> i" "page_of (?xs ! k) va d" using len by auto
    moreover have "?xs[i := nm_empty] ! k \<in> set (?xs[i := nm_empty])" using k(1) by (intro nth_mem) simp
    ultimately show "\<exists>f \<in> set (?xs[i := nm_empty]). page_of f va d" by auto
  qed
  have pages: "?Q va = Some d \<longleftrightarrow> (\<exists>f \<in> set (?xs[i := nm_empty]). page_of f va d)" for va d
  proof -
    let ?N = "\<exists>k. 0 \<le> k \<and> k < 0 + unat (nm_length (?xs ! i) div architectural_page_size) \<and> va = page_at (nm_virtual_base (?xs ! i)) k"
    have P: "P va = Some d \<longleftrightarrow> (\<exists>k < max_native_mappings. page_of (?xs ! k) va d)"
      using ok len unfolding na_ok_def by (metis in_set_conv_nth)
    have N: "?N \<longleftrightarrow> (\<exists>d. page_of (?xs ! i) va d)" using i(2) by (auto simp: page_of_def page_count_nat)
    have one: "\<not> (page_of (?xs ! i) va d' \<and> k < max_native_mappings \<and> k \<noteq> i \<and> page_of (?xs ! k) va d)" for k d'
    proof
      assume a: "page_of (?xs ! i) va d' \<and> k < max_native_mappings \<and> k \<noteq> i \<and> page_of (?xs ! k) va d"
      then have occ: "nm_occupied (?xs ! k)" by (simp add: page_of_def)
      have "unat va \<in> pages_of (nm_virtual_base (?xs ! i)) (nm_length (?xs ! i)) \<inter> pages_of (nm_virtual_base (?xs ! k)) (nm_length (?xs ! k))"
        using a i(2) occ len il page_of_range(1) [OF old [of "?xs ! i"]] page_of_range(1) [OF old [of "?xs ! k"]] by auto
      then show False using ok i a occ unfolding na_ok_def by blast
    qed
    show ?thesis unfolding left without_pages_def using P N one by auto
  qed
  have "length (filter nm_occupied (?xs[i := nm_empty])) + 1 = length (filter nm_occupied ?xs)"
    using filter_count [OF il, of nm_occupied nm_empty] i(2) empty by simp
  moreover from this have "na_occupied s \<noteq> 0" using ok by (auto simp: na_ok_def)
  ultimately have occ: "unat (na_occupied s - 1) = length (filter nm_occupied (?xs[i := nm_empty]))"
    using ok by (simp add: na_ok_def unat_minus_one)
  have "f = nm_empty \<or> f \<in> set ?xs" if "f \<in> set (?xs[i := nm_empty])" for f using that set_update_subset_insert [of ?xs i nm_empty] by blast
  then have "entry_ok f" if "f \<in> set (?xs[i := nm_empty])" "nm_occupied f" for f using that old empty by blast
  moreover have "pages_of (nm_virtual_base (?xs[i := nm_empty] ! j)) (nm_length (?xs[i := nm_empty] ! j)) \<inter>
      pages_of (nm_virtual_base (?xs[i := nm_empty] ! k)) (nm_length (?xs[i := nm_empty] ! k)) = {}"
    if jk: "j < max_native_mappings" "k < max_native_mappings" "j \<noteq> k" "nm_occupied (?xs[i := nm_empty] ! j)" "nm_occupied (?xs[i := nm_empty] ! k)" for j k
  proof -
    have "j \<noteq> i" "k \<noteq> i" using jk empty len by auto
    then show ?thesis using jk ok unfolding na_ok_def by simp
  qed
  ultimately show ?thesis using len occ pages unfolding na_ok_def by simp
qed

abbreviation local_key :: "NativeMapping \<Rightarrow> u64 \<times> u64 \<times> MachinePermissions \<times> bool" where
  "local_key e \<equiv> (nm_physical_base e, nm_length e, nm_permissions e, nm_user_accessible e)"

abbreviation ledger_key :: "NativePhysicalMapping \<Rightarrow> u64 \<times> u64 \<times> MachinePermissions \<times> bool" where
  "ledger_key e \<equiv> (np_physical_base e, np_length e, np_permissions e, np_user_accessible e)"

lemma keys_update:
  assumes "i < length xs"
  shows "image_mset f (mset (filter P (xs[i := v]))) =
    image_mset f (mset (filter P xs)) - (if P (xs ! i) then {#f (xs ! i)#} else {#}) + (if P v then {#f v#} else {#})"
proof -
  have "image_mset f (mset (filter P xs) - {#xs ! i#}) = image_mset f (mset (filter P xs)) - {#f (xs ! i)#}" if "P (xs ! i)"
    using that assms by (subst image_mset_Diff) simp_all
  then show ?thesis unfolding filter_update [OF assms] by (simp add: mset_filter)
qed

lemma local_keys_enter:
  assumes "free_local s = Some i" "nm_occupied e"
  shows "local_keys (s\<lparr>na_mappings := (na_mappings s)[i := e], na_occupied := n\<rparr>) = add_mset (local_key e) (local_keys s)"
  using assms first_index_SomeD [of "\<lambda>e. \<not> nm_occupied e" "na_mappings s" i] by (simp add: local_keys_def free_local_def keys_update del: mset_filter)

lemma local_keys_leave:
  assumes "i < length (na_mappings s)" "nm_occupied (na_mappings s ! i)"
  shows "local_keys (s\<lparr>na_mappings := (na_mappings s)[i := nm_empty], na_occupied := n\<rparr>) =
    local_keys s - {#local_key (na_mappings s ! i)#}"
  using assms by (simp add: local_keys_def keys_update nm_empty_def del: mset_filter)

lemma ledger_keys_enter:
  assumes "free_physical l = Some j" "np_occupied e" "np_owner e = Some k"
  shows "ledger_keys i (l\<lparr>nl_mappings := (nl_mappings l)[j := e], nl_occupied := n\<rparr>) =
    (if i = k then add_mset (ledger_key e) (ledger_keys i l) else ledger_keys i l)"
  using assms first_index_SomeD [of "\<lambda>e. \<not> np_occupied e" "nl_mappings l" j] by (simp add: ledger_keys_def free_physical_def keys_update del: mset_filter)

lemma ledger_keys_leave:
  assumes "j < length (nl_mappings l)" "np_occupied (nl_mappings l ! j)" "np_owner (nl_mappings l ! j) = Some k"
  shows "ledger_keys i (l\<lparr>nl_mappings := (nl_mappings l)[j := np_empty], nl_occupied := n\<rparr>) =
    (if i = k then ledger_keys i l - {#ledger_key (nl_mappings l ! j)#} else ledger_keys i l)"
  using assms by (simp add: ledger_keys_def keys_update np_empty_def del: mset_filter)

lemma reserved_mappings [simp]: "reserved_by (l\<lparr>nl_mappings := xs, nl_occupied := n\<rparr>) i x = reserved_by l i x"
  by (simp add: reserved_by_def)

lemma ledger_keys_reservations [simp]: "ledger_keys i (l\<lparr>nl_reservations := rs, nl_reserved := n\<rparr>) = ledger_keys i l"
  by (simp add: ledger_keys_def)

lemma pages_positive: "range_ok base len limit \<Longrightarrow> 0 < unat len div 4096"
  using unat_gt_0 [of len] by (cases "unat len < 4096") (simp_all add: range_ok_def div_greater_zero_iff)

lemma sb_pages_valid: "sb_pages b mem va = Some d \<Longrightarrow> d AND 3 = 3"
  by (auto simp: sb_pages_def walk_def Let_def split: if_splits option.splits)

section \<open>Mapping keeps the invariant\<close>

lemma mc_put_get [simp]: "mc_put m i (mc_get m i) = m"
  by (simp add: mc_put_def mc_get_def)

lemma mc_put_fields [simp]:
  "mc_spaces (mc_put m i (s, l, a, mem)) = (mc_spaces m)(i := (mc_spaces m i)\<lparr>ms_mappings := s\<rparr>)"
  "mc_builders (mc_put m i (s, l, a, mem)) = mc_builders m" "mc_arenas (mc_put m i (s, l, a, mem)) = (mc_arenas m)(i := a)"
  "mc_ledger (mc_put m i (s, l, a, mem)) = l" "mc_memory (mc_put m i (s, l, a, mem)) = mem"
  "mc_tlb (mc_put m i (s, l, a, mem)) = mc_tlb m"
  by (simp_all add: mc_put_def)

lemma space_okD:
  assumes "mc_ok m" "mc_bound m i"
  shows "nl_ok (mc_ledger m)" "space_ok m i" "sb_ok (mc_builders m i) (mc_arenas m i) (mc_memory m)"
    "sb_region (mc_builders m i) = region_lower"
    "\<forall>t \<in> sb_tables (mc_builders m i) (mc_memory m) \<union> ar_free (mc_arenas m i). reserved_by (mc_ledger m) i t"
    "na_ok (sb_pages (mc_builders m i) (mc_memory m)) (mc_state m i)" "uniform (mc_state m i)"
    "local_keys (mc_state m i) = ledger_keys i (mc_ledger m)" "na_bound (mc_state m i)" "ms_ledger (mc_spaces m i)"
proof -
  show ok: "space_ok m i" and "nl_ok (mc_ledger m)" using assms(1) by (simp_all add: mc_ok_def)
  note facts = ok [unfolded space_ok_def mc_pages_def mc_builder_def]
  show "sb_ok (mc_builders m i) (mc_arenas m i) (mc_memory m)" "sb_region (mc_builders m i) = region_lower"
    "\<forall>t \<in> sb_tables (mc_builders m i) (mc_memory m) \<union> ar_free (mc_arenas m i). reserved_by (mc_ledger m) i t"
    "na_ok (sb_pages (mc_builders m i) (mc_memory m)) (mc_state m i)" "uniform (mc_state m i)"
    "local_keys (mc_state m i) = ledger_keys i (mc_ledger m)" "na_bound (mc_state m i)" "ms_ledger (mc_spaces m i)"
    using facts assms(2) unfolding na_bound_def by simp_all
qed

text \<open>What an installed range shows of the builder and the permissions, and what the installation writes.\<close>

lemma installed:
  assumes ok: "mc_ok m" "mc_bound m i" and ua: "backing \<longrightarrow> ua" and n: "0 < n"
    and pages: "na_install_pages (mc_builders m i) (mc_arenas m i) (mc_memory m) vb pb perm kind ua backing 0 n = Some (a', mem')"
  shows "page_leaf ua perm kind pb \<noteq> 0" "can_install (mc_builders m i) ua backing"
    "mem' x \<noteq> mc_memory m x \<Longrightarrow> reserved_by (mc_ledger m) i x"
    "t \<in> sb_tables (mc_builders m i) mem' \<union> ar_free a' \<Longrightarrow> reserved_by (mc_ledger m) i t"
proof -
  let ?b = "mc_builders m i"
  note sp = space_okD [OF ok]
  from na_install_pages_ok [OF pages sp(3) ua]
  have inst: "sb_ok ?b a' mem'" "sb_pages ?b mem' = with_pages vb pb (page_leaf ua perm kind) 0 n (sb_pages ?b (mc_memory m))"
    "sb_root ?b \<noteq> 0 \<longrightarrow> sb_frame (sb_root ?b) (mc_arenas m i) (mc_memory m) a' mem'" by blast+
  have first: "sb_pages ?b mem' (page_at vb 0) = Some (page_leaf ua perm kind pb)" unfolding inst(2) with_pages_def using n by auto
  then have "page_leaf ua perm kind pb AND 3 = 3" by (rule sb_pages_valid)
  then show "page_leaf ua perm kind pb \<noteq> 0" by auto
  obtain k where k: "n = Suc k" using n by (cases n) auto
  show "can_install ?b ua backing"
    using pages na_install_one_guard(2) [OF ua, of ?b "mc_arenas m i" "mc_memory m" "page_at vb 0" "page_at pb 0" perm kind] unfolding k na_install_one_def
    by (fastforce split: sum.splits prod.splits if_splits)
  have root: "sb_root ?b \<noteq> 0" using first by (auto simp: sb_pages_def split: if_splits)
  note fr = frame_reserved [OF inst(3) [rule_format, OF root] refl root sp(3) inst(1) sp(1,5)]
  show "reserved_by (mc_ledger m) i x" if "mem' x \<noteq> mc_memory m x" using fr(1) that .
  show "reserved_by (mc_ledger m) i t" if "t \<in> sb_tables ?b mem' \<union> ar_free a'" using fr(2) that .
qed

lemma map_impl_ok:
  assumes ok: "mc_ok m" "mc_bound m i" and ua: "backing \<longrightarrow> ua" and fit: "uniform (mc_state (mc_put m i st) i)"
    and call: "na_map_impl i (mc_builders m i) (mc_get m i) vb pb len perm kind ks us ua backing = Some (r, st)"
  shows "mc_ok (mc_put m i st)"
  using call [unfolded mc_get_def]
proof (cases rule: na_map_impl_cases)
  case (refused e)
  then show ?thesis using ok(1) by (simp flip: mc_get_def)
next
  case (mapped k j a' mem')
  let ?b = "mc_builders m i" and ?s = "mc_state m i" and ?l = "mc_ledger m" and ?n = "unat (len div architectural_page_size)"
  let ?e = "\<lparr>nm_virtual_base = vb, nm_physical_base = pb, nm_length = len, nm_permissions = perm, nm_kind = kind,
    nm_kernel_stack = ks, nm_user_stack = us, nm_user_accessible = ua, nm_occupied = True\<rparr>"
  let ?p = "\<lparr>np_owner = Some i, np_physical_base = pb, np_length = len, np_permissions = perm, np_user_accessible = ua, np_occupied = True\<rparr>"
  define l' where "l' = ?l\<lparr>nl_mappings := (nl_mappings ?l)[j := ?p], nl_occupied := nl_occupied ?l + 1\<rparr>"
  define s' where "s' = ?s\<lparr>na_mappings := (na_mappings ?s)[k := ?e], na_occupied := na_occupied ?s + 1\<rparr>"
  have st: "st = (s', l', a', mem')" using mapped(2) by (simp add: l'_def s'_def)
  note sp = space_okD [OF ok]
  from na_install_pages_ok [OF mapped(6) sp(3) ua]
  have inst: "sb_ok ?b a' mem'" "sb_pages ?b mem' = with_pages vb pb (page_leaf ua perm kind) 0 ?n (sb_pages ?b (mc_memory m))"
    "sb_root ?b \<noteq> 0 \<longrightarrow> sb_frame (sb_root ?b) (mc_arenas m i) (mc_memory m) a' mem'"
    "sb_root ?b = 0 \<longrightarrow> a' = mc_arenas m i \<and> mem' = mc_memory m" by blast+
  have "0 < ?n" using pages_positive [OF mapped(7)] by (simp only: page_count_nat)
  note fr = installed(1,3,4) [OF ok ua this mapped(6)]
  have eok: "entry_ok ?e" using mapped(7,8) fr(1) by (simp add: entry_ok_def page_leaf_nonzero)
  have nok: "na_ok (sb_pages ?b mem') s'"
    unfolding s'_def inst(2) using na_ok_enter [OF sp(6) mapped(3), of ?e] eok mapped(9) by simp
  have lok: "nl_ok l'" using nl_ok_map [OF sp(1) call [unfolded mc_get_def st]] .
  show ?thesis
  proof (rule mc_ok_local [OF ok(1)])
    show "nl_ok (mc_ledger (mc_put m i st))" using lok by (simp add: st)
    have "local_keys s' = ledger_keys i l'"
      unfolding s'_def l'_def using local_keys_enter [OF mapped(3), of ?e] ledger_keys_enter [OF mapped(4), of ?p] sp(8) by simp
    moreover have "uniform s'" using fit by (simp add: st)
    moreover have "na_ledger s'" "na_builder s'" using mapped(5) by (simp_all add: s'_def na_bound_def)
    moreover have "mc_pages (mc_put m i st) i = sb_pages ?b mem'" using ok(2) by (simp add: mc_pages_def mc_builder_def st)
    ultimately show "space_ok (mc_put m i st) i"
      unfolding space_ok_def using ok(2) sp(4,10) inst(1) nok fr(3) by (simp add: st l'_def)
    show "ledger_keys j (mc_ledger (mc_put m i st)) = ledger_keys j (mc_ledger m)" if "j \<noteq> i" for j
      using ledger_keys_enter [OF mapped(4), of ?p] that by (simp add: st l'_def)
    show "\<not> reserved_by (mc_ledger m) j x" if "mc_memory (mc_put m i st) x \<noteq> mc_memory m x" "j \<noteq> i" for j x
      using fr(2) [of x] reserved_once [OF sp(1)] that by (auto simp: st)
    show "(g, va, d) \<in> mc_tlb m \<and> (mc_bound m i \<and> mc_pages m i va = Some d \<longrightarrow>
        mc_bound (mc_put m i st) i \<and> mc_pages (mc_put m i st) i va = Some d)"
      if "(g, va, d) \<in> mc_tlb (mc_put m i st)" for g va d
    proof -
      have "sb_pages ?b mem' va = Some d" if "sb_pages ?b (mc_memory m) va = Some d"
      proof -
        have "\<exists>f \<in> set (na_mappings ?s). page_of f va d" using that sp(6) unfolding na_ok_def by blast
        then have "\<exists>f \<in> set (na_mappings s'). page_of f va d"
          using ex_update [of k "na_mappings ?s" "\<lambda>f. page_of f va d" ?e] mapped(3)
          by (auto simp: s'_def page_of_def free_local_def dest: first_index_SomeD)
        then show ?thesis using nok unfolding na_ok_def by blast
      qed
      then show ?thesis using that ok(2) by (simp add: st mc_pages_def mc_builder_def)
    qed
  qed (simp_all add: st l'_def)
qed

section \<open>Unmapping keeps the invariant\<close>

lemma unmap_pages_ok:
  assumes "unmap_pages b mem vb i n = Some mem'" "sb_ok b a mem"
  shows "sb_ok b a mem' \<and> sb_pages b mem' = without_pages vb i n (sb_pages b mem) \<and> sb_frame (sb_root b) a mem a mem'"
  using assms
proof (induction n arbitrary: i mem)
  case 0
  then show ?case by (auto simp: without_pages_def fun_eq_iff)
next
  case (Suc n)
  obtain m1 where one: "sb_unmap_page b mem (page_at vb i) = (Inr (), m1)" and rest: "unmap_pages b m1 vb (i + 1) n = Some mem'"
    using Suc.prems(1) by (auto split: sum.splits prod.splits)
  have first: "sb_ok b a m1" "sb_pages b m1 = (sb_pages b mem)(page_at vb i := None)" "sb_frame (sb_root b) a mem a m1"
    using one by (cases rule: sb_unmap_cases [OF Suc.prems(2), of "page_at vb i"]; simp)+
  have "without_pages vb (i + 1) n (sb_pages b m1) = without_pages vb i (Suc n) (sb_pages b mem)"
  proof
    fix va
    note split = interval_split [of i n "\<lambda>k. va = page_at vb k"]
    show "without_pages vb (i + 1) n (sb_pages b m1) va = without_pages vb i (Suc n) (sb_pages b mem) va"
      unfolding without_pages_def split first(2) by auto
  qed
  then show ?case using Suc.IH [OF rest first(1)] sb_frame_trans [OF first(3)] by simp
qed

lemma unmap_pages_total:
  assumes "sb_ok b a mem" "sb_lifecycle b \<noteq> lc_sealed"
    and "\<And>k. i \<le> k \<Longrightarrow> k < i + n \<Longrightarrow> sb_pages b mem (page_at vb k) \<noteq> None"
    and "\<And>j k. i \<le> j \<Longrightarrow> j < k \<Longrightarrow> k < i + n \<Longrightarrow> page_at vb j \<noteq> page_at vb k"
  shows "\<exists>mem'. unmap_pages b mem vb i n = Some mem'"
  using assms(1,3,4)
proof (induction n arbitrary: i mem)
  case (Suc n)
  show ?case
  proof (cases rule: sb_unmap_cases [OF Suc.prems(1), of "page_at vb i"])
    case (1 e)
    then show ?thesis using assms(2) Suc.prems(2) [of i] by simp
  next
    case (2 m1)
    have "\<exists>mem'. unmap_pages b m1 vb (i + 1) n = Some mem'"
    proof (rule Suc.IH [OF 2(2)])
      fix k assume "i + 1 \<le> k" "k < i + 1 + n"
      then show "sb_pages b m1 (page_at vb k) \<noteq> None"
        using Suc.prems(2) [of k] Suc.prems(3) [of i k] by (simp add: 2(4))
    next
      fix j k assume "i + 1 \<le> j" "j < k" "k < i + 1 + n"
      then show "page_at vb j \<noteq> page_at vb k" using Suc.prems(3) [of j k] by simp
    qed
    then show ?thesis using 2(1) by simp
  qed
qed simp

text \<open>The entry of the ledger that \<open>retire_unmapped\<close> takes exists and is that of the mapping.\<close>

lemma ledger_entry:
  assumes keys: "local_keys s = ledger_keys i l" and uni: "uniform s" and here: "here \<in> set (na_mappings s)" "nm_occupied here"
  obtains j where "first_index (\<lambda>e. np_occupied e \<and> np_owner e = Some i \<and> np_physical_base e = nm_physical_base here \<and>
      np_length e = nm_length here \<and> np_permissions e = nm_permissions here) (nl_mappings l) = Some j"
    "j < length (nl_mappings l)" "np_occupied (nl_mappings l ! j)" "np_owner (nl_mappings l ! j) = Some i"
    "ledger_key (nl_mappings l ! j) = local_key here"
proof -
  let ?P = "\<lambda>e. np_occupied e \<and> np_owner e = Some i \<and> np_physical_base e = nm_physical_base here \<and>
      np_length e = nm_length here \<and> np_permissions e = nm_permissions here"
  have "local_key here \<in># local_keys s" using here by (auto simp: local_keys_def)
  then have "local_key here \<in># ledger_keys i l" using keys by simp
  then obtain e where "e \<in> set (nl_mappings l)" "?P e" by (auto simp: ledger_keys_def)
  then obtain j where j: "first_index ?P (nl_mappings l) = Some j" 
    by (cases "first_index ?P (nl_mappings l)") (auto simp: first_index_None)
  then have le: "j < length (nl_mappings l)" "?P (nl_mappings l ! j)" by (auto dest: first_index_SomeD)
  have "nl_mappings l ! j \<in># mset (filter (\<lambda>e. np_occupied e \<and> np_owner e = Some i) (nl_mappings l))" using le by simp
  then have "ledger_key (nl_mappings l ! j) \<in># ledger_keys i l" unfolding ledger_keys_def in_image_mset by (rule imageI)
  then obtain f where f: "f \<in> set (na_mappings s)" "nm_occupied f" "local_key f = ledger_key (nl_mappings l ! j)"
    unfolding keys [symmetric] by (auto simp: local_keys_def)
  then have "nm_user_accessible f = nm_user_accessible here" using uni here le(2) unfolding uniform_def by (metis prod.inject)
  then have "ledger_key (nl_mappings l ! j) = local_key here" using f(3) le(2) by auto
  then show ?thesis using that [OF j le(1)] le(2) by blast
qed

lemma uniform_leave: "uniform s \<Longrightarrow> uniform (s\<lparr>na_mappings := (na_mappings s)[k := nm_empty], na_occupied := n\<rparr>)"
proof -
  assume "uniform s"
  moreover have "f = nm_empty \<or> f \<in> set (na_mappings s)" if "f \<in> set ((na_mappings s)[k := nm_empty])" for f
    using that set_update_subset_insert [of "na_mappings s" k nm_empty] by blast
  moreover have "\<not> nm_occupied nm_empty" by (simp add: nm_empty_def)
  ultimately have "f \<in> set (na_mappings s)" if "f \<in> set ((na_mappings s)[k := nm_empty])" "nm_occupied f" for f using that by blast
  with \<open>uniform s\<close> show ?thesis unfolding uniform_def by simp
qed

lemma invalidate_in:
  "(g, va, d) \<in> invalidate_stage1_pages tlb vb n \<longleftrightarrow> (g, va, d) \<in> tlb \<and> \<not> (\<exists>k < unat n. va = page_at vb k)"
  by (auto simp: invalidate_stage1_pages_def)

text \<open>An occupied entry's pages are translated, and its bounds are what \<open>machine_unmap\<close> wants.\<close>

lemma occupied_entry:
  assumes "na_ok P s" "e \<in> set (na_mappings s)" "nm_occupied e"
  shows "entry_ok e" "k < unat (nm_length e) div 4096 \<Longrightarrow> P (page_at (nm_virtual_base e) k) \<noteq> None"
proof -
  show "entry_ok e" using assms unfolding na_ok_def by blast
  assume "k < unat (nm_length e) div 4096"
  then have "page_of e (page_at (nm_virtual_base e) k)
      (page_leaf (nm_user_accessible e) (nm_permissions e) (nm_kind e) (page_at (nm_physical_base e) k))"
    using assms(3) by (auto simp: page_of_def)
  then have "P (page_at (nm_virtual_base e) k) =
      Some (page_leaf (nm_user_accessible e) (nm_permissions e) (nm_kind e) (page_at (nm_physical_base e) k))"
    using assms(1,2) unfolding na_ok_def by blast
  then show "P (page_at (nm_virtual_base e) k) \<noteq> None" by simp
qed

text \<open>Past its checks \<open>machine_unmap\<close> does not stop: it clears the pages, retires the mapping, and the
machine is as it should be.\<close>

lemma machine_unmap_commits:
  assumes ok: "mc_ok m" "mc_bound m i" and live: "sb_lifecycle (mc_builders m i) \<noteq> lc_sealed"
    and k: "na_exact_index (mc_state m i) vb len = Some k"
  obtains m' where "machine_unmap i m vb len = Some (Inr (), m')" "mc_ok m'" "mc_bound m' i"
    "mc_pages m' i = without_pages vb 0 (unat len div 4096) (mc_pages m i)"
    "mc_state m' i = (mc_state m i)\<lparr>na_mappings := (na_mappings (mc_state m i))[k := nm_empty], na_occupied := na_occupied (mc_state m i) - 1\<rparr>"
    "mc_builders m' = mc_builders m" "mc_arenas m' = mc_arenas m" "nl_reservations (mc_ledger m') = nl_reservations (mc_ledger m)"
    "mc_tlb m' = invalidate_stage1_pages (mc_tlb m) vb (len div architectural_page_size)"
    "\<And>j. j \<noteq> i \<Longrightarrow> mc_pages m' j = mc_pages m j"
proof -
  let ?b = "mc_builders m i" and ?s = "mc_state m i" and ?l = "mc_ledger m" and ?n = "unat (len div architectural_page_size)"
  let ?here = "na_mappings ?s ! k"
  note sp = space_okD [OF ok]
  have here: "k < length (na_mappings ?s)" "nm_occupied ?here" "nm_virtual_base ?here = vb" "nm_length ?here = len"
    using k by (auto simp: na_exact_index_def dest: first_index_SomeD)
  note entry = occupied_entry [OF sp(6) nth_mem [OF here(1)] here(2)]
  have rv: "range_ok vb len (2 ^ 39)" using entry(1) here by (simp add: entry_ok_def)
  have al: "len \<noteq> 0" "page_aligned vb" "page_aligned len" using rv by (simp_all add: range_ok_def page_aligned_mod)
  have mapped: "sb_pages ?b (mc_memory m) (page_at vb q) \<noteq> None" if "q < ?n" for q using entry(2) [of q] that here by (simp add: page_count_nat)
  have root: "sb_root ?b \<noteq> 0"
    using mapped [of 0] pages_positive [OF rv] by (auto simp: sb_pages_def page_count_nat split: if_splits)
  have va: "page_aligned (page_at vb q)" "sb_accepts_virtual_address ?b (page_at vb q)" if "q < ?n" for q
    using page_at_facts [OF rv, of q] that sp(4)
    by (simp_all add: page_count_nat sb_accepts_virtual_address_def user_stage1_virtual_address_def word_less_nat_alt)
  have probe: "na_probe_pages ?b (mc_memory m) vb 0 ?n True me_mapping_ledger_inconsistent = Inr ()"
    using sb_mapped_pages [OF sp(3) root va] mapped by (simp add: na_probe_ok)
  obtain mem' where mem': "unmap_pages ?b (mc_memory m) vb 0 ?n = Some mem'"
    using unmap_pages_total [OF sp(3) live, of 0 ?n vb] mapped page_at_facts(4) [OF rv] by (fastforce simp: page_count_nat)
  from unmap_pages_ok [OF mem' sp(3)]
  have um: "sb_ok ?b (mc_arenas m i) mem'" "sb_pages ?b mem' = without_pages vb 0 ?n (sb_pages ?b (mc_memory m))"
    "sb_frame (sb_root ?b) (mc_arenas m i) (mc_memory m) (mc_arenas m i) mem'" by blast+
  note fr = frame_reserved [OF um(3) refl root sp(3) um(1) sp(1,5)]
  obtain j where j: "first_index (\<lambda>e. np_occupied e \<and> np_owner e = Some i \<and> np_physical_base e = nm_physical_base ?here \<and>
      np_length e = nm_length ?here \<and> np_permissions e = nm_permissions ?here) (nl_mappings ?l) = Some j"
    "j < length (nl_mappings ?l)" "np_occupied (nl_mappings ?l ! j)" "np_owner (nl_mappings ?l ! j) = Some i"
    "ledger_key (nl_mappings ?l ! j) = local_key ?here"
    by (rule ledger_entry [OF sp(8,7) nth_mem [OF here(1)] here(2)])
  define s' where "s' = ?s\<lparr>na_mappings := (na_mappings ?s)[k := nm_empty], na_occupied := na_occupied ?s - 1\<rparr>"
  define l' where "l' = ?l\<lparr>nl_mappings := (nl_mappings ?l)[j := np_empty], nl_occupied := nl_occupied ?l - 1\<rparr>"
  define m' where "m' = (mc_put m i (s', l', mc_arenas m i, mem'))\<lparr>mc_tlb := invalidate_stage1_pages (mc_tlb m) vb (len div architectural_page_size)\<rparr>"
  have clear: "na_probe_pages ?b mem' vb 0 ?n False me_mapping_ledger_inconsistent = Inr ()"
    unfolding na_probe_ok using sb_mapped_pages [OF um(1) root va] by (auto simp: um(2) without_pages_def)
  have retire: "na_retire_unmapped i ?b mem' ?s ?l vb len = (Inr (), s', l')"
    unfolding na_retire_unmapped_def using sp(9) k j(1) here clear by (simp add: na_bound_def Let_def s'_def l'_def)
  have eq: "machine_unmap i m vb len = Some (Inr (), m')"
    using ok(2) sp(9,10) al k live probe mem' retire here
    by (simp add: machine_unmap_def na_exact_mapping_def na_bound_def Let_def m'_def)
  have pages: "mc_pages m' i = without_pages vb 0 ?n (mc_pages m i)" using ok(2) um(2) by (simp add: m'_def mc_pages_def mc_builder_def)
  have keys: "ledger_keys q (mc_ledger m') = ledger_keys q (mc_ledger m)" if "q \<noteq> i" for q
    using ledger_keys_leave [OF j(2-4)] that by (simp add: m'_def l'_def)
  have outside: "\<not> reserved_by (mc_ledger m) q x" if "mc_memory m' x \<noteq> mc_memory m x" "q \<noteq> i" for q x
    using fr(1) [of x] reserved_once [OF sp(1)] that by (auto simp: m'_def)
  have others: "mc_pages m' q = mc_pages m q" if q: "q \<noteq> i" for q
    by (rule space_kept) (use ok(1) q keys [OF q] outside [OF _ q] in \<open>auto simp: mc_ok_def m'_def l'_def\<close>)
  have "mc_ok m'"
  proof (rule mc_ok_local [OF ok(1)])
    show "nl_ok (mc_ledger m')" using nl_ok_retire [OF sp(1) retire] by (simp add: m'_def)
    have "na_ok (mc_pages m' i) s'"
      unfolding pages s'_def using na_ok_leave [OF sp(6), of k] here sp(6) ok(2) by (simp add: na_ok_def mc_pages_def mc_builder_def)
    moreover have "local_keys s' = ledger_keys i l'"
      unfolding s'_def l'_def using local_keys_leave [OF here(1,2)] ledger_keys_leave [OF j(2-4), of i] j(5) sp(8) by simp
    moreover have "uniform s'" unfolding s'_def using sp(7) by (rule uniform_leave)
    moreover have "na_ledger s'" "na_builder s'" using sp(9) by (simp_all add: s'_def na_bound_def)
    ultimately show "space_ok m' i" unfolding space_ok_def using ok(2) sp(4,10) um(1) fr(2) by (simp add: m'_def l'_def)
    show "(g, va, d) \<in> mc_tlb m \<and> (mc_bound m i \<and> mc_pages m i va = Some d \<longrightarrow> mc_bound m' i \<and> mc_pages m' i va = Some d)"
      if "(g, va, d) \<in> mc_tlb m'" for g va d
      using that ok(2) unfolding pages without_pages_def by (auto simp: m'_def invalidate_in)
  qed (use keys outside in \<open>simp_all add: m'_def l'_def\<close>)
  then show ?thesis using that [OF eq] pages ok(2) others by (simp add: m'_def s'_def l'_def page_count_nat)
qed

lemma machine_unmap_cases:
  assumes ok: "mc_ok m"
  obtains (refused) e where "machine_unmap i m vb len = Some (Inl e, m)"
    | (unmapped) m' where "machine_unmap i m vb len = Some (Inr (), m')" "mc_ok m'"
proof (cases "mc_bound m i \<and> ms_ledger (mc_spaces m i) \<and> len \<noteq> 0 \<and> page_aligned vb \<and> page_aligned len \<and>
    sb_lifecycle (mc_builders m i) \<noteq> lc_sealed \<and> na_exact_index (mc_state m i) vb len \<noteq> None")
  case True
  then obtain k where "na_exact_index (mc_state m i) vb len = Some k" by blast
  then show ?thesis using machine_unmap_commits [OF ok] True unmapped by metis
next
  case False
  have "na_bound (mc_state m i)" if "mc_bound m i" using space_okD(9) [OF ok that] .
  then have "\<exists>e. machine_unmap i m vb len = Some (Inl e, m)"
    using False by (auto simp: machine_unmap_def na_exact_mapping_def na_bound_def split: option.splits)
  then show ?thesis using refused by blast
qed

section \<open>Reserving, donating and building keep the invariant\<close>

text \<open>A new reservation adds exactly its own range, to its owner, and touches nothing that was reserved.\<close>

lemma reserve_cases:
  assumes l: "nl_ok l"
  obtains (refused) e where "na_reserve_physical i s l base len kind = (Inl e, l)"
    | (reserved) l' where "na_reserve_physical i s l base len kind = (Inr (), l')" "nl_ok l'"
      "\<And>j x. reserved_by l' j x \<longleftrightarrow> reserved_by l j x \<or> j = i \<and> unat x \<in> pages_of base len"
      "\<And>j x. unat x \<in> pages_of base len \<Longrightarrow> \<not> reserved_by l j x" "nl_mappings l' = nl_mappings l" "range_ok base len (2 ^ 48)"
proof (cases "na_reserve_physical i s l base len kind")
  case (Pair r l')
  show ?thesis
  proof (cases r)
    case (Inl e)
    then have "l' = l" using Pair by (auto simp: na_reserve_physical_def split: if_splits option.splits)
    then show ?thesis using refused Pair Inl by blast
  next
    case (Inr u)
    let ?new = "\<lparr>nr_owner = Some i, nr_physical_base = base, nr_length = len, nr_kind = kind, nr_occupied = True\<rparr>"
    from Pair Inr obtain k where
      range: "len \<noteq> 0" "page_aligned len" "page_aligned base" "\<not> base > - 1 - (len - 1)"
        "stage1_physical_address (base + len - architectural_page_size)"
      and new: "\<And>e. e \<in> set (nl_reservations l) \<Longrightarrow> nr_occupied e \<Longrightarrow> \<not> overlap (nr_physical_base e) (nr_length e) base len"
      and k: "free_reservation l = Some k"
      and l': "l' = l\<lparr>nl_reservations := (nl_reservations l)[k := ?new], nl_reserved := nl_reserved l + 1\<rparr>"
      by (auto simp: na_reserve_physical_def list_ex_iff split: if_splits option.splits)
    have ok: "range_ok base len (2 ^ 48)" by (rule physical_limit) (use range in simp_all)
    have kl: "k < length (nl_reservations l)" "\<not> nr_occupied (nl_reservations l ! k)"
      using k by (auto simp: free_reservation_def dest: first_index_SomeD)
    have "reserved_by l' j x \<longleftrightarrow> reserved_by l j x \<or> j = i \<and> unat x \<in> pages_of base len" for j x
      unfolding reserved_by_def l'
      using ex_update [OF kl(1), of "\<lambda>r. nr_occupied r \<and> nr_owner r = Some j \<and> unat x \<in> pages_of (nr_physical_base r) (nr_length r)" ?new] kl(2)
      by auto
    moreover have "\<not> reserved_by l j x" if "unat x \<in> pages_of base len" for j x
    proof
      assume "reserved_by l j x"
      then obtain r where r: "r \<in> set (nl_reservations l)" "nr_occupied r" "unat x \<in> pages_of (nr_physical_base r) (nr_length r)"
        unfolding reserved_by_def by blast
      then have "range_ok (nr_physical_base r) (nr_length r) (2 ^ 48)" using l unfolding nl_ok_def by blast
      then show False using overlap_physical [OF _ ok] new [OF r(1,2)] r(3) that by blast
    qed
    ultimately show ?thesis using reserved [OF _ nl_ok_reserve [OF l Pair]] Pair Inr ok l' by simp
  qed
qed

lemma ledger_keys_cong: "nl_mappings l' = nl_mappings l \<Longrightarrow> ledger_keys i l' = ledger_keys i l"
  by (simp add: ledger_keys_def)

lemma mc_ok_reserve:
  assumes ok: "mc_ok m" "mc_bound m i"
    and l': "nl_ok l'" "\<And>j x. reserved_by l' j x \<longleftrightarrow> reserved_by (mc_ledger m) j x \<or> j = i \<and> R x" "nl_mappings l' = nl_mappings (mc_ledger m)"
    and a': "sb_ok (mc_builders m i) a' (mc_memory m)" "\<And>t. t \<in> ar_free a' \<Longrightarrow> t \<in> ar_free (mc_arenas m i) \<or> R t"
  shows "mc_ok (m\<lparr>mc_ledger := l', mc_arenas := (mc_arenas m)(i := a')\<rparr>)"
proof (rule mc_ok_local [OF ok(1)])
  let ?m = "m\<lparr>mc_ledger := l', mc_arenas := (mc_arenas m)(i := a')\<rparr>"
  note sp = space_okD [OF ok]
  have keys: "ledger_keys j l' = ledger_keys j (mc_ledger m)" for j using l'(3) by (rule ledger_keys_cong)
  have pages: "mc_pages ?m i = mc_pages m i" by (simp add: mc_pages_def mc_builder_def)
  have "\<forall>t \<in> sb_tables (mc_builders m i) (mc_memory m) \<union> ar_free a'. reserved_by l' i t" using sp(5) l'(2) a'(2) by blast
  then show "space_ok ?m i"
    unfolding space_ok_def pages using sp(2,4,7,8,9,10) ok(2) a'(1) keys by (simp add: na_bound_def space_ok_def)
  show "(g, va, d) \<in> mc_tlb m \<and> (mc_bound m i \<and> mc_pages m i va = Some d \<longrightarrow> mc_bound ?m i \<and> mc_pages ?m i va = Some d)"
    if "(g, va, d) \<in> mc_tlb ?m" for g va d using that unfolding pages by simp
  show "ledger_keys j (mc_ledger ?m) = ledger_keys j (mc_ledger m)" for j by (simp add: keys)
qed (use l' in simp_all)

lemma reserve_ok:
  assumes ok: "mc_ok m"
  shows "mc_ok (snd (aarch64_reserve_physical i m base len kind))"
proof (cases "mc_bound m i")
  case True
  note sp = space_okD [OF ok True]
  show ?thesis
  proof (cases rule: reserve_cases [OF sp(1), of i "mc_state m i" base len kind])
    case (1 e)
    then show ?thesis using ok True by (simp add: aarch64_reserve_physical_def)
  next
    case (2 l')
    have "mc_ok (m\<lparr>mc_ledger := l', mc_arenas := (mc_arenas m)(i := mc_arenas m i)\<rparr>)"
      by (rule mc_ok_reserve [OF ok True 2(2,3,5) sp(3)]) simp
    then show ?thesis using True 2(1) by (simp add: aarch64_reserve_physical_def)
  qed
qed (use ok in \<open>simp add: aarch64_reserve_physical_def\<close>)

lemma donate_ok:
  assumes ok: "mc_ok m"
  shows "mc_ok (snd (aarch64_donate_table_page i m p))"
proof (cases "mc_bound m i \<and> ms_ledger (mc_spaces m i)")
  case True
  then have b: "mc_bound m i" by blast
  note sp = space_okD [OF ok b]
  have aok: "ar_ok (mc_arenas m i)" using sp(3) by (simp add: sb_ok_def)
  show ?thesis
  proof (cases rule: reserve_cases [OF sp(1), of i "mc_state m i" p architectural_page_size kernel_private])
    case (1 e)
    then show ?thesis using ok True by (simp add: aarch64_donate_table_page_def)
  next
    case (2 l')
    have here: "unat p \<in> pages_of p architectural_page_size" by (simp add: pages_of_def)
    have "sb_ok (mc_builders m i) a' (mc_memory m) \<and> (\<forall>t \<in> ar_free a'. t \<in> ar_free (mc_arenas m i) \<or> t = p)"
      if a': "ar_donate (mc_arenas m i) p = (r, a')" for r a'
    proof (cases rule: ar_donate_cases [OF aok, of p])
      case (1 e)
      then show ?thesis using a' sp(3) by simp
    next
      case (2 a1)
      have "p \<notin> sb_tables (mc_builders m i) (mc_memory m)"
        using sp(5) \<open>\<And>j x. unat x \<in> pages_of p architectural_page_size \<Longrightarrow> \<not> reserved_by (mc_ledger m) j x\<close> here by blast
      then have "sb_ok (mc_builders m i) a1 (mc_memory m)"
        using sb_ok_arena [OF sp(3) 2(2)] sb_ok_tables_used [OF sp(3)] 2(4) by auto
      then show ?thesis using a' 2 by simp
    qed
    moreover obtain r a' where a': "ar_donate (mc_arenas m i) p = (r, a')" by fastforce
    ultimately have "mc_ok (m\<lparr>mc_ledger := l', mc_arenas := (mc_arenas m)(i := a')\<rparr>)"
      using here by (intro mc_ok_reserve [OF ok b 2(2,3,5)]) auto
    then show ?thesis using True 2(1) a' by (simp add: aarch64_donate_table_page_def)
  qed
qed (use ok in \<open>auto simp: aarch64_donate_table_page_def\<close>)

lemma zeroed_tables:
  assumes "stage1_physical_address f" "path_ok p" "table_of (zero_table mem f) f p = Some t"
  shows "t = f"
  using assms(2,3)
proof (induction p arbitrary: t)
  case (Cons i p)
  then obtain u where u: "table_of (zero_table mem f) f p = Some u" "next_table (zero_table mem f (entry_at u i)) = Some t"
    by (auto split: option.splits)
  then have "u = f" using Cons by simp
  then have "zero_table mem f (entry_at u i) = 0" using Cons.prems(1) assms(1) by (auto simp: zero_table_at)
  then show ?case using u(2) by (simp add: next_table_def)
qed simp

lemma initialize_ok:
  assumes ok: "mc_ok m"
  shows "mc_ok (snd (aarch64_initialize_translation_root i m))"
proof (cases "mc_bound m i \<and> ms_ledger (mc_spaces m i)")
  case True
  then have b: "mc_bound m i" by blast
  let ?b = "mc_builders m i" and ?a = "mc_arenas m i"
  note sp = space_okD [OF ok b]
  show ?thesis
  proof (cases rule: sb_initialize_cases [OF sp(3)])
    case (1 e)
    then show ?thesis using ok True by (simp add: aarch64_initialize_translation_root_def)
  next
    case (2 f a')
    let ?b' = "?b\<lparr>sb_root := f, sb_lifecycle := lc_building\<rparr>" and ?mem = "zero_table (mc_memory m) f"
    let ?m = "m\<lparr>mc_builders := (mc_builders m)(i := ?b'), mc_arenas := (mc_arenas m)(i := a'), mc_memory := ?mem\<rparr>"
    have aok: "ar_ok ?a" using sp(3) by (simp add: sb_ok_def)
    have alloc: "ar_allocate_page ?a = (Inr f, a')"
      using 2(1) by (auto simp: sb_initialize_def split: if_splits sum.splits prod.splits)
    then have f: "f \<in> ar_free ?a" "ar_free a' \<subseteq> ar_free ?a" "stage1_physical_address f" "f \<noteq> 0"
      using ar_allocate_cases [OF aok] ar_free_physical [OF aok] by (metis Diff_subset Inl_Inr_False Inr_inject Pair_inject)+
    have res: "reserved_by (mc_ledger m) i x" if "?mem x \<noteq> mc_memory m x" for x
      using that zero_table_at [OF f(3), of "mc_memory m" x] reserved_entry [OF sp(1) _ f(3)] sp(5) f(1) by (auto split: if_splits)
    have tables: "t = f" if "t \<in> sb_tables ?b' ?mem" for t
      using that zeroed_tables [OF f(3)] by (auto simp: sb_tables_def split: if_splits)
    have pages: "mc_pages ?m i = mc_pages m i"
      using 2(3,5) b by (simp add: mc_pages_def mc_builder_def sb_pages_def fun_eq_iff)
    have "mc_ok ?m"
    proof (rule mc_ok_local [OF ok])
      show "space_ok ?m i"
        unfolding space_ok_def pages using sp b 2(2) tables f(1,2) by (auto simp: na_bound_def mc_pages_def mc_builder_def)
      show "\<not> reserved_by (mc_ledger m) j x" if "mc_memory ?m x \<noteq> mc_memory m x" "j \<noteq> i" for j x
        using res [of x] reserved_once [OF sp(1)] that by auto
      show "(g, va, d) \<in> mc_tlb m \<and> (mc_bound m i \<and> mc_pages m i va = Some d \<longrightarrow> mc_bound ?m i \<and> mc_pages ?m i va = Some d)"
        if "(g, va, d) \<in> mc_tlb ?m" for g va d using that unfolding pages by simp
    qed (use sp(1) in simp_all)
    then show ?thesis using True 2(1) by (simp add: aarch64_initialize_translation_root_def)
  qed
qed (use ok in \<open>auto simp: aarch64_initialize_translation_root_def\<close>)

text \<open>A space without mappings translates nothing.\<close>

lemma na_ok_none:
  assumes "na_ok P s" "na_occupied s = 0"
  shows "P = Map.empty" "\<And>e. e \<in> set (na_mappings s) \<Longrightarrow> \<not> nm_occupied e" "local_keys s = {#}"
proof -
  have "filter nm_occupied (na_mappings s) = []" using assms by (simp add: na_ok_def)
  then show free: "\<And>e. e \<in> set (na_mappings s) \<Longrightarrow> \<not> nm_occupied e" and "local_keys s = {#}"
    by (auto simp: filter_empty_conv local_keys_def)
  have "P va = None" for va
  proof (rule ccontr)
    assume "P va \<noteq> None"
    then obtain d where "P va = Some d" by blast
    then show False using assms(1) free unfolding na_ok_def page_of_def by blast
  qed
  then show "P = Map.empty" by blast
qed

lemma create_ok:
  assumes ok: "mc_ok m" "na_occupied (mc_state m i) = 0"
  shows "mc_ok (snd (el0_create_space i m))"
proof -
  let ?fresh = "sb_empty\<lparr>sb_attached := True\<rparr>"
  have sp: "space_ok m i" "nl_ok (mc_ledger m)" using ok(1) by (simp_all add: mc_ok_def)
  then have nok: "na_ok (mc_pages m i) (mc_state m i)" by (simp add: space_ok_def)
  note none = na_ok_none [OF nok ok(2)]
  define m' where "m' = snd (el0_create_space i m)"
  have st: "na_mappings (mc_state m' i) = na_mappings (mc_state m i)" "na_occupied (mc_state m' i) = na_occupied (mc_state m i)"
    "mc_bound m' i" "ms_ledger (mc_spaces m' i)" "na_ledger (mc_state m' i)" "na_builder (mc_state m' i)"
    "mc_builders m' = (mc_builders m)(i := ?fresh)" "mc_arenas m' = (mc_arenas m)(i := ar_empty)"
    "mc_ledger m' = mc_ledger m" "mc_memory m' = mc_memory m" "mc_tlb m' = mc_tlb m" "j \<noteq> i \<Longrightarrow> mc_spaces m' j = mc_spaces m j" for j
    using sp(1) unfolding m'_def
    by (auto simp: space_ok_def el0_create_space_def el0_reset_slot_def mc_set_space_def aarch64_create_address_space_def
        machine_bind_address_space_def aarch64_attach_early_stage1_def na_bind_def)
  have pages: "mc_pages m' i = Map.empty" using st by (simp add: mc_pages_def mc_builder_def sb_pages_def sb_empty_def fun_eq_iff)
  have "mc_ok m'"
  proof (rule mc_ok_local [OF ok(1)])
    have "sb_ok ?fresh ar_empty (mc_memory m)" using ar_ok_empty by (simp add: sb_ok_def sb_empty_def)
    moreover have "sb_tables ?fresh (mc_memory m) \<union> ar_free ar_empty = {}"
      by (simp add: sb_tables_def sb_empty_def ar_free_def ar_pool_def ar_bump_def ar_empty_def ar_bump_valid_def)
    moreover have "sb_region ?fresh = region_lower" by (simp add: sb_empty_def)
    moreover have "na_ok Map.empty (mc_state m' i)" using na_ok_keep [OF nok, of "mc_state m' i"] st(1,2) none(1) by simp
    moreover have "local_keys (mc_state m' i) = ledger_keys i (mc_ledger m)" "uniform (mc_state m' i)"
    proof -
      have "local_keys (mc_state m i) = ledger_keys i (mc_ledger m)" using sp(1) unfolding space_ok_def by blast
      then show "local_keys (mc_state m' i) = ledger_keys i (mc_ledger m)" unfolding local_keys_def st(1) .
      have "uniform (mc_state m i)" using sp(1) unfolding space_ok_def by blast
      then show "uniform (mc_state m' i)" unfolding uniform_def st(1) .
    qed
    ultimately show "space_ok m' i" unfolding space_ok_def pages using st by simp
    show "(g, va, d) \<in> mc_tlb m \<and> (mc_bound m i \<and> mc_pages m i va = Some d \<longrightarrow> mc_bound m' i \<and> mc_pages m' i va = Some d)"
      if "(g, va, d) \<in> mc_tlb m'" for g va d using that none(1) st(11) by simp
  qed (use st(7-12) sp in simp_all)
  then show ?thesis by (simp add: m'_def)
qed

text \<open>Sealing and retiring a root change its phase only.\<close>

lemma lifecycle_ok:
  assumes ok: "mc_ok m" and b': "b' = snd (sb_seal (mc_builders m i)) \<or> b' = snd (sb_begin_retire (mc_builders m i))"
  shows "mc_ok (m\<lparr>mc_builders := (mc_builders m)(i := b')\<rparr>)"
proof (rule mc_ok_local [OF ok])
  let ?m = "m\<lparr>mc_builders := (mc_builders m)(i := b')\<rparr>"
  have eq: "sb_root b' = sb_root (mc_builders m i)" "sb_region b' = sb_region (mc_builders m i)" "sb_attached b' = sb_attached (mc_builders m i)"
    "sb_lifecycle b' = lc_uninitialized \<longleftrightarrow> sb_lifecycle (mc_builders m i) = lc_uninitialized"
    using b' by (auto simp: sb_seal_def sb_begin_retire_def split: if_splits)
  have pages: "mc_pages ?m i = mc_pages m i"
    using eq by (simp add: mc_pages_def mc_builder_def sb_pages_def sb_accepts_virtual_address_def fun_eq_iff)
  have same: "sb_ok b' a mem = sb_ok (mc_builders m i) a mem" "sb_tables b' mem = sb_tables (mc_builders m i) mem" for a mem
    using eq by (simp_all add: sb_ok_def sb_tables_def)
  have "space_ok m i" using ok by (simp add: mc_ok_def)
  then show "space_ok ?m i" unfolding space_ok_def pages by (simp add: same eq(2))
  show "(g, va, d) \<in> mc_tlb m \<and> (mc_bound m i \<and> mc_pages m i va = Some d \<longrightarrow> mc_bound ?m i \<and> mc_pages ?m i va = Some d)"
    if "(g, va, d) \<in> mc_tlb ?m" for g va d using that unfolding pages by simp
qed (use ok in \<open>simp_all add: mc_ok_def\<close>)

end
