(* ===== verification/Machine_Safety.thy ===== *)
theory Machine_Safety
  imports Machine_Invariant
begin

text \<open>
  What the machine of theory \<open>Machine_Space\<close> guarantees in every state it can reach.  Releasing a space ends its two loops, leaves nothing of
  it and hands its pages back zeroed.  Over all runs, with user code writing through every translation it
  has: no physical page is writable through one translation and executable through another, in whatever spaces and even through the TLB; no
  user translation reaches a page of a translation table; \<open>machine_unmap\<close> and the release never stop the machine.
\<close>

section \<open>Releasing a space\<close>

abbreviation used :: "Machine \<Rightarrow> nat \<Rightarrow> nat" where
  "used m i \<equiv> length (filter nm_occupied (na_mappings (mc_state m i)))"

lemma exact_of_occupied:
  assumes "e \<in> set (na_mappings s)" "nm_occupied e"
  obtains k where "na_exact_index s (nm_virtual_base e) (nm_length e) = Some k"
  using assms by (cases "na_exact_index s (nm_virtual_base e) (nm_length e)") (auto simp: na_exact_index_def first_index_None)

lemma release_mappings_returns:
  assumes "mc_ok m" "mc_bound m i" "used m i < n"
  obtains (released) m' where "release_mappings n i m = Some (Inr (), m')" "mc_ok m'" "mc_bound m' i" "na_occupied (mc_state m' i) = 0"
      "nl_reservations (mc_ledger m') = nl_reservations (mc_ledger m)" "sb_lifecycle (mc_builders m i) = lc_sealed \<longrightarrow> used m i = 0"
    | (sealed) "release_mappings n i m = Some (Inl me_sealed_root, m)" "sb_lifecycle (mc_builders m i) = lc_sealed" "used m i \<noteq> 0"
proof -
  have "(\<exists>m'. release_mappings n i m = Some (Inr (), m') \<and> mc_ok m' \<and> mc_bound m' i \<and> na_occupied (mc_state m' i) = 0 \<and>
      nl_reservations (mc_ledger m') = nl_reservations (mc_ledger m) \<and> (sb_lifecycle (mc_builders m i) = lc_sealed \<longrightarrow> used m i = 0)) \<or>
    release_mappings n i m = Some (Inl me_sealed_root, m) \<and> sb_lifecycle (mc_builders m i) = lc_sealed \<and> used m i \<noteq> 0"
    using assms
  proof (induction n arbitrary: m)
    case (Suc n)
    note sp = space_okD [OF Suc.prems(1,2)]
    show ?case
    proof (cases "first_index nm_occupied (na_mappings (mc_state m i))")
      case None
      then have "filter nm_occupied (na_mappings (mc_state m i)) = []" by (simp add: first_index_None filter_empty_conv)
      moreover from this have "na_occupied (mc_state m i) = 0" using sp(6) by (simp add: na_ok_def unat_eq_0)
      ultimately show ?thesis using None sp(9) Suc.prems by (simp add: na_any_mapping_def na_bound_def)
    next
      case (Some q)
      let ?e = "na_mappings (mc_state m i) ! q"
      have e: "?e \<in> set (na_mappings (mc_state m i))" "nm_occupied ?e" using Some by (auto dest: first_index_SomeD)
      have any: "na_any_mapping (mc_state m i) = Inr ?e" using Some sp(9) by (simp add: na_any_mapping_def na_bound_def)
      obtain k where k: "na_exact_index (mc_state m i) (nm_virtual_base ?e) (nm_length ?e) = Some k"
        by (rule exact_of_occupied [OF e])
      have eok: "entry_ok ?e" by (rule occupied_entry(1) [OF sp(6) e])
      show ?thesis
      proof (cases "sb_lifecycle (mc_builders m i) = lc_sealed")
        case True
        have "machine_unmap i m (nm_virtual_base ?e) (nm_length ?e) = Some (Inl me_sealed_root, m)"
          using True Suc.prems(2) sp(9,10) k eok
          by (simp add: machine_unmap_def na_exact_mapping_def na_bound_def entry_ok_def range_ok_def page_aligned_mod)
        moreover have "used m i \<noteq> 0" using e by (auto simp: filter_empty_conv)
        ultimately show ?thesis using True any by simp
      next
        case False
        obtain m1 where m1: "machine_unmap i m (nm_virtual_base ?e) (nm_length ?e) = Some (Inr (), m1)" "mc_ok m1" "mc_bound m1 i"
          "mc_state m1 i = (mc_state m i)\<lparr>na_mappings := (na_mappings (mc_state m i))[k := nm_empty],
             na_occupied := na_occupied (mc_state m i) - 1\<rparr>"
          "mc_builders m1 = mc_builders m" "nl_reservations (mc_ledger m1) = nl_reservations (mc_ledger m)"
          by (rule machine_unmap_commits [OF Suc.prems(1,2) False k])
        have kl: "k < length (na_mappings (mc_state m i))" "nm_occupied (na_mappings (mc_state m i) ! k)"
          using k by (auto simp: na_exact_index_def dest: first_index_SomeD)
        have "used m1 i < n"
          using filter_count [OF kl(1), of nm_occupied nm_empty] kl(2) Suc.prems(3) by (simp add: m1(4) nm_empty_def)
        from Suc.IH [OF m1(2,3) this] show ?thesis using False m1(1,5,6) any by simp
      qed
    qed
  qed simp
  then show ?thesis using released sealed by blast
qed

lemma zero_reclaimed_at:
  assumes "range_ok base len (2 ^ 48)"
  shows "zero_reclaimed_range mem base len x = (if unat x \<in> pages_of base len \<and> unat x mod 8 = 0 then 0 else mem x)"
proof -
  have fold: "fold (\<lambda>i m. m(g i := 0)) xs mem x = (if x \<in> g ` set xs then 0 else mem x)" for g :: "nat \<Rightarrow> u64" and xs mem
    by (induction xs arbitrary: mem) auto
  obtain q where q: "unat base = 4096 * q" using assms by (auto simp: range_ok_def)
  obtain n where n: "unat len = 4096 * n" using assms by (auto simp: range_ok_def)
  have at: "unat (base + of_nat k * 8) = unat base + k * 8" if "k < unat len div 8" for k
  proof -
    have "k * 8 < unat len" using that n by simp
    then have "unat base + k * 8 < 2 ^ 64" using assms by (simp add: range_ok_def)
    moreover have "base + of_nat k * 8 = of_nat (unat base + k * 8)" by simp
    ultimately show ?thesis by (simp add: unsigned_of_nat take_bit_eq_mod del: of_nat_add of_nat_mult)
  qed
  have "x \<in> (\<lambda>k. base + of_nat k * 8) ` set [0..<unat (len div 8)] \<longleftrightarrow> unat x \<in> pages_of base len \<and> unat x mod 8 = 0"
  proof
    assume "x \<in> (\<lambda>k. base + of_nat k * 8) ` set [0..<unat (len div 8)]"
    then obtain k where "k < unat len div 8" "x = base + of_nat k * 8" by (auto simp: unat_div)
    then show "unat x \<in> pages_of base len \<and> unat x mod 8 = 0" using at [of k] q by (simp add: pages_of_def mod_add_eq [symmetric])
  next
    assume x: "unat x \<in> pages_of base len \<and> unat x mod 8 = 0"
    then obtain r where r: "unat x = 8 * r" by auto
    let ?k = "r - 512 * q"
    have k: "?k < unat len div 8" "unat base + ?k * 8 = unat x" using x q n r by (auto simp: pages_of_def)
    then have "x = base + of_nat ?k * 8" using at [OF k(1)] by (metis word_unat_eq_iff)
    then show "x \<in> (\<lambda>k. base + of_nat k * 8) ` set [0..<unat (len div 8)]" using k(1) by (intro image_eqI [of _ _ ?k]) (simp_all add: unat_div)
  qed
  then show ?thesis unfolding zero_reclaimed_range_def fold by simp
qed

text \<open>The state while a space's reservations are handed back: every other space is as it should be, this one has no mapping
left.\<close>

definition reclaiming :: "nat \<Rightarrow> Machine \<Rightarrow> bool" where
  "reclaiming i m \<longleftrightarrow> nl_ok (mc_ledger m) \<and> (\<forall>j. j \<noteq> i \<longrightarrow> space_ok m j) \<and>
     (\<forall>(g, va, d) \<in> mc_tlb m. \<exists>j. j \<noteq> i \<and> mc_bound m j \<and> mc_pages m j va = Some d) \<and>
     na_bound (mc_state m i) \<and> na_ok Map.empty (mc_state m i) \<and> na_occupied (mc_state m i) = 0 \<and> ledger_keys i (mc_ledger m) = {#}"

abbreviation held :: "Machine \<Rightarrow> nat \<Rightarrow> nat" where
  "held m i \<equiv> length (filter (\<lambda>r. nr_occupied r \<and> nr_owner r = Some i) (nl_reservations (mc_ledger m)))"

lemma reclaiming_start:
  assumes "mc_ok m" "mc_bound m i" "na_occupied (mc_state m i) = 0"
  shows "reclaiming i m"
proof -
  note sp = space_okD [OF assms(1,2)]
  note none = na_ok_none [OF sp(6) assms(3)]
  have "mc_pages m i = Map.empty" using none(1) assms(2) by (simp add: mc_pages_def mc_builder_def)
  then have "j \<noteq> i" if "mc_pages m j va = Some d" for j va d using that by auto
  then have "\<forall>(g, va, d) \<in> mc_tlb m. \<exists>j. j \<noteq> i \<and> mc_bound m j \<and> mc_pages m j va = Some d"
    using assms(1) unfolding mc_ok_def tlb_ok_def by fast
  moreover have "ledger_keys i (mc_ledger m) = {#}" using sp(8) none(3) by simp
  moreover have "na_ok Map.empty (mc_state m i)" using sp(6) unfolding none(1) .
  moreover have "\<forall>j. j \<noteq> i \<longrightarrow> space_ok m j" using assms(1) by (simp add: mc_ok_def)
  ultimately show ?thesis using sp(1,9) assms(3) unfolding reclaiming_def by blast
qed

lemma reclaim_step:
  assumes rec: "reclaiming i m" and r: "na_any_reservation i (mc_state m i) (mc_ledger m) = Inr r"
  obtains l' where "na_release_one_reservation i (mc_state m i) (mc_ledger m) (nr_physical_base r) (nr_length r) = (Inr (), l')"
    "range_ok (nr_physical_base r) (nr_length r) (2 ^ 48)"
    "reclaiming i (m\<lparr>mc_memory := zero_reclaimed_range (mc_memory m) (nr_physical_base r) (nr_length r), mc_ledger := l'\<rparr>)"
    "held (m\<lparr>mc_memory := zero_reclaimed_range (mc_memory m) (nr_physical_base r) (nr_length r), mc_ledger := l'\<rparr>) i < held m i"
    "\<And>x. reserved_by (mc_ledger m) i x \<Longrightarrow> reserved_by l' i x \<or> unat x \<in> pages_of (nr_physical_base r) (nr_length r)"
proof -
  let ?l = "mc_ledger m" and ?rs = "nl_reservations (mc_ledger m)"
  let ?P = "\<lambda>e. nr_occupied e \<and> nr_owner e = Some i \<and> nr_physical_base e = nr_physical_base r \<and> nr_length e = nr_length r"
  have nl: "nl_ok ?l" and led: "na_ledger (mc_state m i)" using rec by (simp_all add: reclaiming_def na_bound_def)
  obtain q where q: "first_index (\<lambda>e. nr_occupied e \<and> nr_owner e = Some i) ?rs = Some q" "r = ?rs ! q"
    using r led by (auto simp: na_any_reservation_def split: option.splits)
  have rq: "r \<in> set ?rs" "nr_occupied r" "nr_owner r = Some i" using q by (auto dest: first_index_SomeD)
  have range: "range_ok (nr_physical_base r) (nr_length r) (2 ^ 48)" using nl rq(1,2) unfolding nl_ok_def by blast
  obtain k where k: "first_index ?P ?rs = Some k" using rq by (cases "first_index ?P ?rs") (auto simp: first_index_None)
  then have kl: "k < length ?rs" "?P (?rs ! k)" by (auto dest: first_index_SomeD)
  define l' where "l' = ?l\<lparr>nl_reservations := ?rs[k := nr_empty], nl_reserved := nl_reserved ?l - 1\<rparr>"
  let ?m = "m\<lparr>mc_memory := zero_reclaimed_range (mc_memory m) (nr_physical_base r) (nr_length r), mc_ledger := l'\<rparr>"
  have eq: "na_release_one_reservation i (mc_state m i) ?l (nr_physical_base r) (nr_length r) = (Inr (), l')"
    using k led by (simp add: na_release_one_reservation_def l'_def)
  have nl': "nl_ok l'" by (rule nl_ok_release_one [OF nl eq])
  have empty: "\<not> nr_occupied nr_empty" by (simp add: nr_empty_def)
  have other: "(\<exists>e \<in> set (?rs[k := nr_empty]). R e) \<longleftrightarrow> (\<exists>e \<in> set ?rs. R e)" if "\<not> R nr_empty" "\<not> R (?rs ! k)" for R
    using ex_update [OF kl(1), of R nr_empty] that by blast
  have res: "reserved_by l' j x = reserved_by ?l j x" if "j \<noteq> i" for j x
    unfolding reserved_by_def l'_def using other [of "\<lambda>e. nr_occupied e \<and> nr_owner e = Some j \<and> unat x \<in> pages_of (nr_physical_base e) (nr_length e)"]
      empty kl(2) that by simp
  have keys: "ledger_keys j l' = ledger_keys j ?l" for j by (simp add: l'_def)
  have mem: "\<not> reserved_by ?l j x" if "mc_memory ?m x \<noteq> mc_memory m x" "j \<noteq> i" for j x
  proof -
    have "reserved_by ?l i x" using that(1) zero_reclaimed_at [OF range] rq unfolding reserved_by_def by (auto split: if_splits)
    then show ?thesis using reserved_once [OF nl] that(2) by blast
  qed
  have sp: "space_ok ?m j" "mc_pages ?m j = mc_pages m j" if j: "j \<noteq> i" for j
    using space_kept [of m j ?m] rec j res [OF j] mem [OF _ j] keys by (auto simp: reclaiming_def)
  have "\<exists>j. j \<noteq> i \<and> mc_bound ?m j \<and> mc_pages ?m j va = Some d" if g: "(g, va, d) \<in> mc_tlb ?m" for g va d
  proof -
    obtain j where "j \<noteq> i" "mc_bound m j" "mc_pages m j va = Some d" using g rec unfolding reclaiming_def by fastforce
    then show ?thesis using sp(2) [of j] by (intro exI [of _ j]) simp
  qed
  then have rec': "reclaiming i ?m" using rec nl' sp(1) keys unfolding reclaiming_def by auto
  have less: "held ?m i < held m i"
    using filter_count [OF kl(1), of "\<lambda>r. nr_occupied r \<and> nr_owner r = Some i" nr_empty] kl(2) empty by (simp add: l'_def)
  have "reserved_by l' i x \<or> unat x \<in> pages_of (nr_physical_base r) (nr_length r)" if "reserved_by ?l i x" for x
  proof (cases "unat x \<in> pages_of (nr_physical_base r) (nr_length r)")
    case False
    then show ?thesis using that unfolding reserved_by_def l'_def
      using other [of "\<lambda>e. nr_occupied e \<and> nr_owner e = Some i \<and> unat x \<in> pages_of (nr_physical_base e) (nr_length e)"] empty kl(2) by simp
  qed simp
  then show ?thesis using that [OF eq range rec' less] by blast
qed

lemma reclaim_returns:
  assumes "reclaiming i m" "held m i < n"
  obtains m' where "reclaim_reservations n i m = Some (Inr (), m')" "reclaiming i m'" "\<And>x. \<not> reserved_by (mc_ledger m') i x"
    "held m' i = 0" "mc_spaces m' = mc_spaces m" "mc_tlb m' = mc_tlb m"
    "\<And>x. reserved_by (mc_ledger m) i x \<Longrightarrow> unat x mod 8 = 0 \<Longrightarrow> mc_memory m' x = 0"
    "\<And>x. mc_memory m x = 0 \<Longrightarrow> mc_memory m' x = 0"
proof -
  have "\<exists>m'. reclaim_reservations n i m = Some (Inr (), m') \<and> reclaiming i m' \<and> held m' i = 0 \<and>
      mc_spaces m' = mc_spaces m \<and> mc_tlb m' = mc_tlb m \<and>
      (\<forall>x. reserved_by (mc_ledger m) i x \<longrightarrow> unat x mod 8 = 0 \<longrightarrow> mc_memory m' x = 0) \<and>
      (\<forall>x. mc_memory m x = 0 \<longrightarrow> mc_memory m' x = 0)"
    using assms
  proof (induction n arbitrary: m)
    case (Suc n)
    have led: "na_ledger (mc_state m i)" using Suc.prems(1) by (simp add: reclaiming_def na_bound_def)
    show ?case
    proof (cases "na_any_reservation i (mc_state m i) (mc_ledger m)")
      case (Inl e)
      then have "e = me_not_mapped" and none: "\<forall>r \<in> set (nl_reservations (mc_ledger m)). \<not> (nr_occupied r \<and> nr_owner r = Some i)"
        using led by (auto simp: na_any_reservation_def first_index_None split: option.splits)
      moreover have "\<not> reserved_by (mc_ledger m) i x" for x using none unfolding reserved_by_def by blast
      ultimately show ?thesis using Inl Suc.prems(1) by (simp add: filter_empty_conv)
    next
      case (Inr r)
      obtain l' where l': "na_release_one_reservation i (mc_state m i) (mc_ledger m) (nr_physical_base r) (nr_length r) = (Inr (), l')"
        "range_ok (nr_physical_base r) (nr_length r) (2 ^ 48)"
        "reclaiming i (m\<lparr>mc_memory := zero_reclaimed_range (mc_memory m) (nr_physical_base r) (nr_length r), mc_ledger := l'\<rparr>)"
        "held (m\<lparr>mc_memory := zero_reclaimed_range (mc_memory m) (nr_physical_base r) (nr_length r), mc_ledger := l'\<rparr>) i < held m i"
        "\<And>x. reserved_by (mc_ledger m) i x \<Longrightarrow> reserved_by l' i x \<or> unat x \<in> pages_of (nr_physical_base r) (nr_length r)"
        by (rule reclaim_step [OF Suc.prems(1) Inr]) (rule that)
      let ?m = "m\<lparr>mc_memory := zero_reclaimed_range (mc_memory m) (nr_physical_base r) (nr_length r), mc_ledger := l'\<rparr>"
      have "held ?m i < n" using l'(4) Suc.prems(2) by linarith
      from Suc.IH [OF l'(3) this] obtain m' where m': "reclaim_reservations n i ?m = Some (Inr (), m')" "reclaiming i m'" "held m' i = 0"
        "mc_spaces m' = mc_spaces m" "mc_tlb m' = mc_tlb m"
        "\<And>x. reserved_by l' i x \<Longrightarrow> unat x mod 8 = 0 \<Longrightarrow> mc_memory m' x = 0" "\<And>x. mc_memory ?m x = 0 \<Longrightarrow> mc_memory m' x = 0"
        by auto
      have "mc_memory m' x = 0" if "reserved_by (mc_ledger m) i x" "unat x mod 8 = 0" for x
        using l'(5) [OF that(1)] m'(6,7) [of x] that(2) zero_reclaimed_at [OF l'(2)] by auto
      moreover have "mc_memory m' x = 0" if "mc_memory m x = 0" for x using m'(7) [of x] that zero_reclaimed_at [OF l'(2)] by simp
      moreover have "reclaim_reservations (Suc n) i m = Some (Inr (), m')" using Inr l'(1) m'(1) by (simp add: Let_def)
      ultimately show ?thesis using m' by blast
    qed
  qed simp
  then obtain m' where m': "reclaim_reservations n i m = Some (Inr (), m')" "reclaiming i m'" "held m' i = 0"
      "mc_spaces m' = mc_spaces m" "mc_tlb m' = mc_tlb m"
      "\<And>x. reserved_by (mc_ledger m) i x \<Longrightarrow> unat x mod 8 = 0 \<Longrightarrow> mc_memory m' x = 0" "\<And>x. mc_memory m x = 0 \<Longrightarrow> mc_memory m' x = 0"
    by blast
  moreover have "\<not> reserved_by (mc_ledger m') i x" for x using m'(3) by (auto simp: reserved_by_def filter_empty_conv)
  ultimately show ?thesis using that by blast
qed

lemma aside1is_nonzero:
  assumes "supported_initial_asid asid"
  shows "aside1is_operand asid \<noteq> 0"
proof -
  have "asid \<le> 255" "asid \<noteq> 0" using assms by (auto simp: supported_initial_asid_def)
  have "unat (push_bit 48 (ucast asid) :: u64) = unat asid * 2 ^ 48"
    using \<open>asid \<le> 255\<close> by (simp add: push_bit_eq_mult unat_word_ariths unsigned_ucast_eq word_le_nat_alt take_bit_nat_eq_self)
  moreover have "unat asid \<noteq> 0" using \<open>asid \<noteq> 0\<close> by (simp add: unat_eq_0)
  ultimately show ?thesis using assms by (auto simp: aside1is_operand_def)
qed

text \<open>The release as a whole.\<close>

lemma release_cases:
  assumes ok: "mc_ok m" and asid: "supported_initial_asid (ae_asid (re_epoch retiring))"
  obtains (refused) e where "aarch64_release_address_space i m retiring = Some (Inl e, m)"
      "\<not> mc_bound m i \<or> \<not> retiring_valid retiring \<or> sb_lifecycle (mc_builders m i) = lc_sealed \<and> used m i \<noteq> 0"
    | (released) m' where "aarch64_release_address_space i m retiring = Some (Inr (), m')" "mc_ok m'" "\<not> mc_bound m' i"
      "\<And>x. reserved_by (mc_ledger m) i x \<Longrightarrow> unat x mod 8 = 0 \<Longrightarrow> mc_memory m' x = 0" "mc_bound m i" "retiring_valid retiring"
      "sb_lifecycle (mc_builders m i) = lc_sealed \<longrightarrow> used m i = 0"
proof (cases "mc_bound m i \<and> retiring_valid retiring")
  case False
  then have "\<exists>e. aarch64_release_address_space i m retiring = Some (Inl e, m)"
    by (auto simp: aarch64_release_address_space_def)
  then show ?thesis using refused False by blast
next
  case True
  then have b: "mc_bound m i" by blast
  note sp = space_okD [OF ok b]
  have bound: "used m i < max_native_mappings + 1" using sp(6) length_filter_le [of nm_occupied "na_mappings (mc_state m i)"] by (simp add: na_ok_def)
  show ?thesis
  proof (cases rule: release_mappings_returns [OF ok b bound])
    case 2
    then have "aarch64_release_address_space i m retiring = Some (Inl me_sealed_root, m)"
      using True sp(10) by (simp add: aarch64_release_address_space_def)
    then show ?thesis using refused 2 by blast
  next
    case (1 m1)
    note sp1 = space_okD [OF 1(2,3)]
    have few: "held m1 i < max_native_physical_reservations + 1"
      using sp1(1) length_filter_le [of "\<lambda>r. nr_occupied r \<and> nr_owner r = Some i" "nl_reservations (mc_ledger m1)"] by (simp add: nl_ok_def)
    obtain m2 where m2: "reclaim_reservations (max_native_physical_reservations + 1) i m1 = Some (Inr (), m2)" "reclaiming i m2"
      "\<And>x. \<not> reserved_by (mc_ledger m2) i x" "held m2 i = 0" "mc_spaces m2 = mc_spaces m1" "mc_tlb m2 = mc_tlb m1"
      "\<And>x. reserved_by (mc_ledger m1) i x \<Longrightarrow> unat x mod 8 = 0 \<Longrightarrow> mc_memory m2 x = 0"
      by (rule reclaim_returns [OF reclaiming_start [OF 1(2,3,4)] few]) (rule that)
    let ?s = "(mc_state m2 i)\<lparr>na_ledger := False, na_builder := False\<rparr>"
    let ?tlb = "Set.filter (\<lambda>(asid, va, d). asid \<noteq> ae_asid (re_epoch retiring)) (mc_tlb m2)"
    define m' where "m' = (mc_set_space m2 i \<lparr>ms_mappings = ?s, ms_ledger = False, ms_builder = False\<rparr>)\<lparr>mc_tlb := ?tlb\<rparr>"
    have rec: "nl_ok (mc_ledger m2)" "\<And>j. j \<noteq> i \<Longrightarrow> space_ok m2 j" "na_bound (mc_state m2 i)" "na_ok Map.empty (mc_state m2 i)"
      "na_occupied (mc_state m2 i) = 0" "ledger_keys i (mc_ledger m2) = {#}"
      "\<forall>(g, va, d) \<in> mc_tlb m2. \<exists>j. j \<noteq> i \<and> mc_bound m2 j \<and> mc_pages m2 j va = Some d"
      using m2(2) by (simp_all add: reclaiming_def)
    have "aside1is_operand (ae_asid (re_epoch retiring)) \<noteq> 0" using asid by (rule aside1is_nonzero)
    then have asid': "retire_process_asid (mc_tlb m2) retiring = (Inr (), ?tlb)" using True by (simp add: retire_process_asid_def)
    have "\<not> list_ex (\<lambda>e. np_occupied e \<and> np_owner e = Some i) (nl_mappings (mc_ledger m2))"
      using rec(6) by (auto simp: ledger_keys_def list_ex_iff filter_empty_conv)
    moreover have "\<not> list_ex (\<lambda>e. nr_occupied e \<and> nr_owner e = Some i) (nl_reservations (mc_ledger m2))"
      using m2(4) by (auto simp: list_ex_iff filter_empty_conv)
    ultimately have un: "na_unbind i (mc_state m2 i) (mc_ledger m2) = (Inr (), ?s)" using rec(3,5) by (simp add: na_unbind_def na_bound_def)
    have eq: "aarch64_release_address_space i m retiring = Some (Inr (), m')"
      using True sp(10) 1(1) m2(1) asid' un by (simp add: aarch64_release_address_space_def m'_def)
    have same: "space_ok m' j = space_ok m2 j" "mc_pages m' j = mc_pages m2 j" "mc_bound m' j = mc_bound m2 j" if "j \<noteq> i" for j
      using that by (simp_all add: m'_def mc_set_space_def space_ok_def mc_pages_def mc_builder_def)
    have "mc_pages m' i = Map.empty" by (simp add: m'_def mc_set_space_def mc_pages_def mc_builder_def sb_pages_def sb_empty_def fun_eq_iff)
    moreover have "local_keys ?s = {#}" "uniform ?s" "na_ok Map.empty ?s"
      using na_ok_none(2) [OF rec(4,5)] na_ok_keep [OF rec(4), of ?s] by (auto simp: local_keys_def uniform_def filter_empty_conv)
    ultimately have "space_ok m' i" unfolding space_ok_def using rec(6) m2(3) by (simp add: m'_def mc_set_space_def)
    then have "\<forall>j. space_ok m' j" using same(1) rec(2) by metis
    moreover have "tlb_ok m'" unfolding tlb_ok_def
    proof (intro ballI, clarify)
      fix g va d assume "(g, va, d) \<in> mc_tlb m'"
      then have "(g, va, d) \<in> mc_tlb m2" by (simp add: m'_def)
      then obtain j where "j \<noteq> i" "mc_bound m2 j" "mc_pages m2 j va = Some d" using rec(7) by fastforce
      then show "\<exists>j. mc_bound m' j \<and> mc_pages m' j va = Some d" using same [of j] by (intro exI [of _ j]) simp
    qed
    moreover have "nl_ok (mc_ledger m')" using rec(1) by (simp add: m'_def mc_set_space_def)
    ultimately have "mc_ok m'" by (simp add: mc_ok_def)
    moreover have "reserved_by (mc_ledger m1) i x = reserved_by (mc_ledger m) i x" for x using 1(5) by (simp add: reserved_by_def)
    ultimately show ?thesis using released [OF eq] m2(7) True 1(6) by (simp add: m'_def mc_set_space_def)
  qed
qed

section \<open>Runs\<close>

text \<open>A translation the hardware may use: in the tables of a bound space, or cached.\<close>

definition visible :: "Machine \<Rightarrow> u64 \<Rightarrow> u64 \<Rightarrow> bool" where
  "visible m va d \<longleftrightarrow> (\<exists>i. mc_bound m i \<and> mc_pages m i va = Some d) \<or> (\<exists>asid. (asid, va, d) \<in> mc_tlb m)"

text \<open>Everything that happens to the machine: the operations, on any space with any arguments; the hardware caching a translation of a
bound space; user code writing anything anywhere in a page that a visible translation lets it write; and
whatever else writes to memory that no space has reserved.  A slot is reset only without mappings, and an ASID is one that the epoch
authority hands out.  The tables of a space are made of pages donated to that space, as \<open>create_el0_address_space\<close> makes them; the
three spaces that the boot image builds from one arena over a range of RAM are not among these machines.\<close>

inductive mc_op :: "Machine \<Rightarrow> Machine \<Rightarrow> bool" where
  create: "na_occupied (mc_state m i) = 0 \<Longrightarrow> mc_op m (snd (el0_create_space i m))"
| donate: "mc_op m (snd (aarch64_donate_table_page i m p))"
| initialize: "mc_op m (snd (aarch64_initialize_translation_root i m))"
| reserve: "mc_op m (snd (aarch64_reserve_physical i m base len kind))"
| map_user: "aarch64_map_user i m vb pb len perm = Some (r, m') \<Longrightarrow> mc_op m m'"
| back_user: "aarch64_back_user_page i m vb pb len perm = Some (r, m') \<Longrightarrow> mc_op m m'"
| user_stack: "aarch64_map_user_stack i m vb pb len = Some (r, m') \<Longrightarrow> mc_op m m'"
| kernel_stack: "machine_map_kernel_stack i m vb pb len = Some (r, m') \<Longrightarrow> mc_op m m'"
| map_kernel: "machine_map i m vb pb len perm kind = Some (r, m') \<Longrightarrow> mc_op m m'"
| seal: "mc_op m (m\<lparr>mc_builders := (mc_builders m)(i := snd (sb_seal (mc_builders m i)))\<rparr>)"
| begin_retire: "mc_op m (m\<lparr>mc_builders := (mc_builders m)(i := snd (sb_begin_retire (mc_builders m i)))\<rparr>)"
| unmap: "machine_unmap i m vb len = Some (r, m') \<Longrightarrow> mc_op m m'"
| release: "supported_initial_asid (ae_asid (re_epoch retiring)) \<Longrightarrow> aarch64_release_address_space i m retiring = Some (r, m') \<Longrightarrow> mc_op m m'"
| tlb_fill: "mc_bound m i \<Longrightarrow> mc_pages m i va = Some d \<Longrightarrow> mc_op m (m\<lparr>mc_tlb := insert (asid, va, d) (mc_tlb m)\<rparr>)"
| user_write: "visible m va d \<Longrightarrow> el0_accessible d \<Longrightarrow> writable d \<Longrightarrow> unat (d AND page_address_mask) \<le> unat x \<Longrightarrow>
    unat x < unat (d AND page_address_mask) + 4096 \<Longrightarrow> mc_op m (m\<lparr>mc_memory := (mc_memory m)(x := v)\<rparr>)"
| environment: "(\<And>x j. mem' x \<noteq> mc_memory m x \<Longrightarrow> \<not> reserved_by (mc_ledger m) j x) \<Longrightarrow> mc_op m (m\<lparr>mc_memory := mem'\<rparr>)"

text \<open>A step of a machine in which no space ever has one physical range mapped twice with equal permissions, once for the kernel and once for user code.
The code accepts such a pair, and when the kernel's mapping of it is removed, \<open>retire_unmapped\<close> may take the user's entry out of the
ledger; what the ledger guards is then no longer guarded (\<open>pair_loses_entry\<close> below).\<close>

definition mc_step :: "Machine \<Rightarrow> Machine \<Rightarrow> bool" where
  "mc_step m m' \<longleftrightarrow> mc_op m m' \<and> (\<forall>i. uniform (mc_state m' i))"

lemma mc_ok_empty: "mc_ok (mc_empty mem)"
proof -
  have "space_ok (mc_empty mem) i" for i
    by (auto simp: space_ok_def mc_empty_def ms_empty_def na_empty_def local_keys_def ledger_keys_def nl_empty_def uniform_def na_ok_def
        mc_pages_def mc_builder_def sb_pages_def sb_empty_def nm_empty_def np_empty_def reserved_by_def nr_empty_def page_of_def)
  then show ?thesis using nl_ok_empty by (simp add: mc_ok_def tlb_ok_def mc_empty_def)
qed

text \<open>What the ledger knows of a translation.\<close>

lemma visible_space:
  assumes "mc_ok m" "visible m va d"
  obtains i where "mc_bound m i" "mc_pages m i va = Some d"
  using assms unfolding visible_def mc_ok_def tlb_ok_def by blast

lemma visible_ledger:
  assumes ok: "mc_ok m" and vis: "visible m va d"
  obtains e where "e \<in> set (nl_mappings (mc_ledger m))" "np_occupied e"
    "\<And>x. unat (d AND page_address_mask) \<le> x \<Longrightarrow> x < unat (d AND page_address_mask) + 4096 \<Longrightarrow> x \<in> pages_of (np_physical_base e) (np_length e)"
    "el0_accessible d \<longleftrightarrow> np_user_accessible e" "writable d \<longleftrightarrow> mp_writable (np_permissions e)"
    "el0_executable d \<or> el1_executable d \<longleftrightarrow> mp_executable (np_permissions e)"
proof -
  obtain i where i: "mc_bound m i" "mc_pages m i va = Some d" by (rule visible_space [OF ok vis])
  note sp = space_okD [OF ok i(1)]
  have "sb_pages (mc_builders m i) (mc_memory m) va = Some d" using i by (simp add: mc_pages_def mc_builder_def)
  then obtain f where f: "f \<in> set (na_mappings (mc_state m i))" "page_of f va d" using sp(6) unfolding na_ok_def by blast
  then have occ: "nm_occupied f" by (simp add: page_of_def)
  obtain k where k: "k < unat (nm_length f) div 4096"
    "d = page_leaf (nm_user_accessible f) (nm_permissions f) (nm_kind f) (page_at (nm_physical_base f) k)"
    using f(2) by (auto simp: page_of_def)
  have rp: "range_ok (nm_physical_base f) (nm_length f) (2 ^ 48)" and lp: "leaf_possible (nm_user_accessible f) (nm_permissions f) (nm_kind f)"
    using occupied_entry(1) [OF sp(6) f(1) occ] by (simp_all add: entry_ok_def)
  note at = page_at_facts [OF rp _ k(1)]
  have "stage1_physical_address (page_at (nm_physical_base f) k)" using at(1,2) by (simp add: physical_mod page_aligned_mod)
  then have "page_leaf (nm_user_accessible f) (nm_permissions f) (nm_kind f) (page_at (nm_physical_base f) k) \<noteq> 0"
    using lp by (simp add: page_leaf_nonzero)
  note reads = page_leaf_reads [OF this, folded k(2)]
  obtain j where j: "j < length (nl_mappings (mc_ledger m))" "np_occupied (nl_mappings (mc_ledger m) ! j)"
    "ledger_key (nl_mappings (mc_ledger m) ! j) = local_key f"
    by (rule ledger_entry [OF sp(8,7) f(1) occ])
  show ?thesis
  proof (rule that [of "nl_mappings (mc_ledger m) ! j"])
    fix x assume "unat (d AND page_address_mask) \<le> x" "x < unat (d AND page_address_mask) + 4096"
    then show "x \<in> pages_of (np_physical_base (nl_mappings (mc_ledger m) ! j)) (np_length (nl_mappings (mc_ledger m) ! j))"
      using pages_of_page [OF rp _ at(3)] at(1) j(3) by (simp add: reads(1) page_aligned_mod)
  qed (use j reads in simp_all)
qed

lemma user_not_reserved:
  assumes ok: "mc_ok m" and vis: "visible m va d" and shown: "el0_accessible d \<or> el0_executable d \<or> el1_executable d"
    and x: "unat (d AND page_address_mask) \<le> unat x" "unat x < unat (d AND page_address_mask) + 4096"
  shows "\<not> reserved_by (mc_ledger m) j x"
proof
  assume "reserved_by (mc_ledger m) j x"
  then obtain r where r: "r \<in> set (nl_reservations (mc_ledger m))" "nr_occupied r" "unat x \<in> pages_of (nr_physical_base r) (nr_length r)"
    unfolding reserved_by_def by blast
  obtain e where e: "e \<in> set (nl_mappings (mc_ledger m))" "np_occupied e" "unat x \<in> pages_of (np_physical_base e) (np_length e)"
    "np_user_accessible e \<or> mp_executable (np_permissions e)"
    using visible_ledger [OF ok vis] shown x by (metis (full_types))
  then have "forbidden_by_reservation (nr_kind r) (nr_owner r) (np_owner e) (np_permissions e) (np_user_accessible e)"
    by (auto simp: forbidden_by_reservation_def)
  moreover have "nl_ok (mc_ledger m)" using ok by (simp add: mc_ok_def)
  ultimately show False using r e unfolding nl_ok_def by blast
qed

lemma mc_ok_memory:
  assumes ok: "mc_ok m" and mem: "\<And>x j. mem' x \<noteq> mc_memory m x \<Longrightarrow> \<not> reserved_by (mc_ledger m) j x"
  shows "mc_ok (m\<lparr>mc_memory := mem'\<rparr>)"
proof -
  let ?m = "m\<lparr>mc_memory := mem'\<rparr>"
  have kept: "space_ok ?m j \<and> mc_pages ?m j = mc_pages m j" for j
    using space_kept [of m j ?m] ok mem by (simp add: mc_ok_def)
  then show ?thesis using ok by (simp add: mc_ok_def tlb_ok_def)
qed

lemma mc_map_calls:
  assumes "mc_map i m f = Some (r, m')"
  obtains "m' = m" | st where "mc_bound m i" "f (mc_builders m i) (mc_get m i) = Some (r, st)" "m' = mc_put m i st"
  using assms by (auto simp: mc_map_def split: if_splits option.splits)

lemma plain_map_ok:
  assumes ok: "mc_ok m" and fit: "uniform (mc_state m' i)" and ua: "backing \<longrightarrow> ua"
    and call: "mc_map i m (\<lambda>b st. na_map_impl i b st vb pb len perm kind ks us ua backing) = Some (r, m')"
  shows "mc_ok m'"
  using call
proof (cases rule: mc_map_calls)
  case (2 st)
  then show ?thesis using map_impl_ok [OF ok 2(1) ua fit [unfolded 2(3)] 2(2)] by simp
qed (use ok in simp)

text \<open>The two stack mappings are one call behind a guard-page check.\<close>

lemma guarded_map_ok:
  assumes ok: "mc_ok m" and fit: "uniform (mc_state m' i)"
    and call: "mc_map i m (\<lambda>b st. case na_require_guard_page b st vb of Inl e \<Rightarrow> Some (Inl e, st)
      | Inr _ \<Rightarrow> na_map_impl i b st vb pb len perm kind ks us ua False) = Some (r, m')"
  shows "mc_ok m'"
  using call
proof (cases rule: mc_map_calls)
  case (2 st)
  show ?thesis
  proof (cases "na_require_guard_page (mc_builders m i) (mc_get m i) vb")
    case (Inl e)
    then show ?thesis using 2(2,3) ok by auto
  next
    case (Inr u)
    then have "na_map_impl i (mc_builders m i) (mc_get m i) vb pb len perm kind ks us ua False = Some (r, st)" using 2(2) by simp
    from map_impl_ok [OF ok 2(1) _ fit [unfolded 2(3)] this] show ?thesis using 2(3) by simp
  qed
qed (use ok in simp)

lemma mc_op_ok:
  assumes "mc_op m m'" "mc_ok m" and fit: "\<And>i. uniform (mc_state m' i)"
  shows "mc_ok m'"
  using assms(1)
proof cases
  case (map_user i vb pb len perm r)
  from map_user [unfolded aarch64_map_user_def na_map_user_def] show ?thesis by (rule plain_map_ok [OF assms(2) fit, rotated]) simp
next
  case (back_user i vb pb len perm r)
  from back_user [unfolded aarch64_back_user_page_def na_map_user_backing_def] show ?thesis
    by (rule plain_map_ok [OF assms(2) fit, rotated]) simp
next
  case (map_kernel i vb pb len perm kind r)
  from map_kernel [unfolded machine_map_def na_map_def] show ?thesis by (rule plain_map_ok [OF assms(2) fit, rotated]) simp
next
  case (user_stack i vb pb len r)
  then show ?thesis
    using guarded_map_ok [OF assms(2) fit] by (simp add: aarch64_map_user_stack_def na_map_user_stack_def [abs_def])
next
  case (kernel_stack i vb pb len r)
  then show ?thesis
    using guarded_map_ok [OF assms(2) fit] by (simp add: machine_map_kernel_stack_def na_map_kernel_stack_def [abs_def])
next
  case (unmap i vb len r)
  then show ?thesis using assms(2) by (cases rule: machine_unmap_cases [OF assms(2), of i vb len]) auto
next
  case (release retiring i r)
  then show ?thesis using assms(2) by (cases rule: release_cases [OF assms(2) release(1), of i]) auto
next
  case (tlb_fill i va d asid)
  have "mc_pages m' = mc_pages m" "mc_spaces m' = mc_spaces m" unfolding tlb_fill(1) by (simp_all add: fun_eq_iff mc_pages_def mc_builder_def)
  moreover have "space_ok m' j = space_ok m j" for j unfolding tlb_fill(1) by (simp add: space_ok_def mc_pages_def mc_builder_def)
  ultimately show ?thesis using assms(2) tlb_fill(2,3) unfolding mc_ok_def tlb_ok_def by (auto simp: tlb_fill(1))
next
  case (user_write va d x v)
  show ?thesis unfolding user_write(1)
    by (rule mc_ok_memory [OF assms(2)]) (use user_not_reserved [OF assms(2) user_write(2) _ user_write(5,6)] user_write(3) in \<open>auto split: if_splits\<close>)
next
  case (environment mem')
  show ?thesis unfolding environment(1) by (rule mc_ok_memory [OF assms(2)]) (rule environment(2))
qed (use assms(2) create_ok donate_ok initialize_ok reserve_ok lifecycle_ok in blast)+

lemma mc_run_ok: "mc_step\<^sup>*\<^sup>* (mc_empty mem) m \<Longrightarrow> mc_ok m"
  by (induction rule: rtranclp_induct) (auto simp: mc_step_def intro: mc_ok_empty mc_op_ok)

text \<open>What a call that maps user memory may answer: it stops the machine only when the root's phase or the permissions do not admit the
mapping; a refusal changes nothing; a success is admitted and adds exactly the range to one space.\<close>

definition maps_exactly ::
  "bool \<Rightarrow> Machine \<Rightarrow> nat \<Rightarrow> u64 \<Rightarrow> u64 \<Rightarrow> u64 \<Rightarrow> MachinePermissions \<Rightarrow> (unit result \<times> Machine) option \<Rightarrow> bool" where
  "maps_exactly admitted m i vb pb len perm out \<longleftrightarrow> (case out of
     None \<Rightarrow> mc_bound m i \<and> \<not> admitted
   | Some (Inl e, m') \<Rightarrow> m' = m
   | Some (Inr _, m') \<Rightarrow> mc_bound m i \<and> admitted \<and>
       mc_pages m' i = with_pages vb pb (\<lambda>p. user_page_descriptor p perm) 0 (unat len div 4096) (mc_pages m i) \<and>
       (\<forall>j. j \<noteq> i \<longrightarrow> mc_pages m' j = mc_pages m j) \<and> mc_tlb m' = mc_tlb m)"

lemma map_call_exact:
  assumes ok: "mc_ok m"
  shows "maps_exactly (leaf_possible True perm mk_normal \<and> can_install (mc_builders m i) True backing) m i vb pb len perm
    (mc_map i m (\<lambda>b st. na_map_impl i b st vb pb len perm mk_normal ks us True backing))"
proof (cases "mc_bound m i")
  case False
  then show ?thesis by (auto simp: maps_exactly_def mc_map_def)
next
  case bound: True
  let ?b = "mc_builders m i"
  note sp = space_okD [OF ok bound]
  show ?thesis
  proof (cases "na_map_impl i ?b (mc_get m i) vb pb len perm mk_normal ks us True backing")
    case None
    then have "\<not> (leaf_possible True perm mk_normal \<and> can_install ?b True backing)"
      using na_map_never_stops [OF sp(3) _ _ sp(4)] unfolding mc_get_def by blast
    then show ?thesis using None bound by (simp add: maps_exactly_def mc_map_def)
  next
    case (Some out)
    obtain r st where call: "na_map_impl i ?b (mc_get m i) vb pb len perm mk_normal ks us True backing = Some (r, st)"
      using Some by (cases out) auto
    have eq: "mc_map i m (\<lambda>b st. na_map_impl i b st vb pb len perm mk_normal ks us True backing) = Some (r, mc_put m i st)"
      using bound call by (simp add: mc_map_def)
    from call [unfolded mc_get_def] show ?thesis
    proof (cases rule: na_map_impl_cases)
      case (refused e)
      then have "mc_put m i st = m" using mc_put_get [of m i] by (simp add: mc_get_def)
      then show ?thesis using eq refused(1) by (simp add: maps_exactly_def)
    next
      case (mapped k j a' mem')
      let ?m = "mc_put m i st" and ?n = "unat (len div architectural_page_size)"
      have "0 < ?n" using pages_positive [OF mapped(7)] by (simp only: page_count_nat)
      note new = installed [OF ok bound _ this mapped(6)]
      have adm: "leaf_possible True perm mk_normal \<and> can_install ?b True backing" using new(1,2) by (simp add: page_leaf_nonzero)
      have leaf: "page_leaf True perm mk_normal = (\<lambda>p. user_page_descriptor p perm)" by (simp add: page_leaf_def fun_eq_iff)
      have "sb_pages ?b mem' = with_pages vb pb (page_leaf True perm mk_normal) 0 ?n (sb_pages ?b (mc_memory m))"
        using na_install_pages_ok [OF mapped(6) sp(3)] by simp
      then have own: "mc_pages ?m i = with_pages vb pb (\<lambda>p. user_page_descriptor p perm) 0 (unat len div 4096) (mc_pages m i)"
        using bound mapped(2) by (simp add: mc_pages_def mc_builder_def leaf page_count_nat)
      have "mc_pages ?m q = mc_pages m q" if q: "q \<noteq> i" for q
      proof (rule space_kept(2))
        show "space_ok m q" "nl_ok (mc_ledger m)" using ok by (simp_all add: mc_ok_def)
        show "\<not> reserved_by (mc_ledger m) q x" if "mc_memory ?m x \<noteq> mc_memory m x" for x
          using new(3) [of x] that q reserved_once [OF sp(1)] mapped(2) by auto
      qed (use q mapped(2) ledger_keys_enter [OF mapped(4)] in simp_all)
      then show ?thesis using eq mapped(1,2) bound adm own by (simp add: maps_exactly_def)
    qed
  qed
qed

section \<open>Properties\<close>


text \<open>C13: User code cannot reach a translation table, in a machine where no space ever has the same physical range mapped with equal
  permissions both for the kernel and for user code, and where the tables of each space are pages donated to it.  In every state
  of such a run, whatever user code has written so far, a translation that is open to EL0 or executable, in the tables or in the TLB, leads to no
  page that any space's tables are made of, and to no page that waits in an arena to become one.  The first condition is needed and the code does not
  enforce it: with such a pair, removing the kernel's mapping can take the user's entry out of the ledger, and the page is
  then accepted for kernel state while user code still writes it (\<open>pair_loses_entry\<close>).  The second says what the model covers: the
  spaces of \<open>create_el0_address_space\<close>, not the three that the boot image builds from one shared arena.\<close>

theorem tables_unreachable:
  assumes "(\<lambda>m m'. mc_op m m' \<and> (\<forall>i. uniform (mc_state m' i)))\<^sup>*\<^sup>* (mc_empty mem) m"
    and "visible m va d" "el0_accessible d \<or> el0_executable d \<or> el1_executable d" "mc_bound m j"
    and "t \<in> sb_tables (mc_builders m j) (mc_memory m) \<union> ar_free (mc_arenas m j)"
  shows "d AND page_address_mask \<noteq> t"
proof
  have ok: "mc_ok m" by (rule mc_run_ok [OF assms(1) [folded mc_step_def]])
  assume "d AND page_address_mask = t"
  then have "\<not> reserved_by (mc_ledger m) j t" using user_not_reserved [OF ok assms(2,3), of t j] by simp
  then show False using space_okD(5) [OF ok assms(4)] assms(5) by blast
qed



text \<open>C14: Mapping user memory is all or nothing.  In every state reached by \<open>mc_step\<close>, \<open>aarch64_map_user\<close> and \<open>aarch64_back_user_page\<close>, on any space
  with any range and permissions, either return or stop the machine, and they stop it only when the permissions
  have no name or the root's phase does not admit the mapping: for \<open>aarch64_map_user\<close> a root that is sealed or retiring, for
  \<open>aarch64_back_user_page\<close> one that is retiring.  In the admitted cases they return: the checks before the point of no return, the count of table pages among them,
  are enough for every page to be installed.  A refusal changes nothing; a success happens only in an admitted case, adds exactly the translations of
  the range to that space, each to the page at the same offset, and changes no translation of another space and nothing in the TLB.  That
  the code stops the machine in the other cases, instead of refusing, is a flaw of its checks.\<close>

theorem map_exact:
  assumes "mc_step\<^sup>*\<^sup>* (mc_empty mem) m" and named: "named \<longleftrightarrow> perm \<in> {mp_read, mp_read_write, mp_read_execute}"
  shows "maps_exactly (named \<and> sb_lifecycle (mc_builders m i) = lc_building) m i vb pb len perm (aarch64_map_user i m vb pb len perm) \<and>
    maps_exactly (named \<and> sb_lifecycle (mc_builders m i) \<in> {lc_building, lc_sealed}) m i vb pb len perm
      (aarch64_back_user_page i m vb pb len perm)"
proof -
  have ok: "mc_ok m" by (rule mc_run_ok [OF assms(1)])
  have perm: "leaf_possible True perm mk_normal \<longleftrightarrow> named" using named by (simp add: leaf_possible_def)
  have phase: "can_install (mc_builders m i) True backing \<longleftrightarrow> sb_lifecycle (mc_builders m i) \<in> (if backing then {lc_building, lc_sealed} else {lc_building})"
    if "mc_bound m i" for backing
    using space_okD(4) [OF ok that] by (auto simp: can_install_def)
  note exact = map_call_exact [OF ok, of perm i _ vb pb len False False, unfolded perm]
  have "maps_exactly (named \<and> sb_lifecycle (mc_builders m i) \<in> (if backing then {lc_building, lc_sealed} else {lc_building})) m i vb pb len perm
      (mc_map i m (\<lambda>b st. na_map_impl i b st vb pb len perm mk_normal False False True backing))" for backing
  proof (cases "mc_bound m i")
    case True
    then show ?thesis using exact [of backing] by (simp add: phase)
  qed (simp add: maps_exactly_def mc_map_def)
  from this [of False] this [of True] show ?thesis
    by (simp add: aarch64_map_user_def aarch64_back_user_page_def na_map_user_def na_map_user_backing_def)
qed

section \<open>A concrete machine\<close>

lemma map_user_call:
  assumes "aarch64_map_user i m vb pb len perm = Some (r, m')" "mc_bound m i"
  shows "\<exists>st. na_map_impl i (mc_builders m i) (mc_get m i) vb pb len perm mk_normal False False True False = Some (r, st) \<and> m' = mc_put m i st"
  using assms by (auto simp: aarch64_map_user_def na_map_user_def mc_map_def split: option.splits)

text \<open>Space 0 is created, given three table pages and a root, and one writable page is mapped for user code.\<close>

lemma first_index_replicate: "first_index P (replicate n x) = (if n \<noteq> 0 \<and> P x then Some 0 else None)"
  by (cases n) (auto simp: first_index_None)
lemma list_ex_replicate: "list_ex P (replicate n x) \<longleftrightarrow> n \<noteq> 0 \<and> P x" by (auto simp: list_ex_iff)
lemma update_replicate: "0 < n \<Longrightarrow> (replicate n x)[0 := y] = y # replicate (n - 1) x" by (cases n) simp_all

definition demo_1 :: Machine where "demo_1 = snd (el0_create_space 0 (mc_empty (\<lambda>_. 0)))"
definition demo_2 :: Machine where "demo_2 = snd (aarch64_donate_table_page 0 demo_1 0x100000)"
definition demo_3 :: Machine where "demo_3 = snd (aarch64_donate_table_page 0 demo_2 0x101000)"
definition demo_4 :: Machine where "demo_4 = snd (aarch64_donate_table_page 0 demo_3 0x102000)"
definition demo_5 :: Machine where "demo_5 = snd (aarch64_initialize_translation_root 0 demo_4)"
abbreviation demo_state :: NativeAddressSpaceState where "demo_state \<equiv> na_empty\<lparr>na_ledger := True, na_builder := True\<rparr>"
abbreviation demo_reservation :: "u64 \<Rightarrow> NativePhysicalReservation" where "demo_reservation p \<equiv> \<lparr>nr_owner = Some 0, nr_physical_base = p, nr_length = 0x1000, nr_kind = kernel_private, nr_occupied = True\<rparr>"
lemma demo_1_is: "demo_1 = \<lparr>mc_spaces = (\<lambda>_. ms_empty)(0 := \<lparr>ms_mappings = demo_state, ms_ledger = True, ms_builder = True\<rparr>),
   mc_builders = (\<lambda>_. sb_empty)(0 := sb_empty\<lparr>sb_attached := True\<rparr>), mc_arenas = (\<lambda>_. ar_empty), mc_ledger = nl_empty, mc_memory = (\<lambda>_. 0), mc_tlb = {}\<rparr>"
  by (simp add: demo_1_def el0_create_space_def el0_reset_slot_def mc_set_space_def mc_empty_def aarch64_create_address_space_def
        machine_bind_address_space_def aarch64_attach_early_stage1_def na_bind_def ms_empty_def na_empty_def fun_eq_iff)
lemma demo_reserve_1: "na_reserve_physical 0 demo_state nl_empty 0x100000 0x1000 kernel_private = (Inr (), nl_empty\<lparr>nl_reservations := demo_reservation 0x100000 # replicate 63 nr_empty, nl_reserved := 1\<rparr>)"
  by (simp add: na_reserve_physical_def nl_empty_def list_ex_replicate free_reservation_def first_index_replicate update_replicate nr_empty_def np_empty_def page_aligned_mod physical_mod na_empty_def)

abbreviation demo_ledger :: "u64 list \<Rightarrow> NativePhysicalLedger" where "demo_ledger ps \<equiv> nl_empty\<lparr>nl_reservations := map demo_reservation ps @ replicate (64 - length ps) nr_empty, nl_reserved := of_nat (length ps)\<rparr>"
abbreviation demo_arena :: "u64 list \<Rightarrow> EarlyPageArena" where "demo_arena ps \<equiv> ar_empty\<lparr>ar_donated := ps @ replicate (64 - length ps) 0, ar_donated_count := of_nat (length ps)\<rparr>"
lemmas demo_concrete = na_reserve_physical_def nl_empty_def list_ex_replicate free_reservation_def first_index_replicate update_replicate
  nr_empty_def np_empty_def page_aligned_mod physical_mod na_empty_def overlap_def
lemma demo_reserve_2: "na_reserve_physical 0 demo_state (demo_ledger [0x100000]) 0x101000 0x1000 kernel_private = (Inr (), demo_ledger [0x100000, 0x101000])"
  by (simp add: demo_concrete)
lemma demo_reserve_3: "na_reserve_physical 0 demo_state (demo_ledger [0x100000, 0x101000]) 0x102000 0x1000 kernel_private = (Inr (), demo_ledger [0x100000, 0x101000, 0x102000])"
  by (simp add: demo_concrete)
lemma demo_donate_1: "ar_donate (ar_empty) 0x100000 = (Inr (), demo_arena [0x100000])"
  by (simp add: ar_donate_def ar_empty_def page_aligned_mod physical_mod update_replicate ar_bump_valid_def)
lemma demo_donate_2: "ar_donate (demo_arena [0x100000]) 0x101000 = (Inr (), demo_arena [0x100000,0x101000])"
  by (simp add: ar_donate_def ar_empty_def page_aligned_mod physical_mod update_replicate ar_bump_valid_def)
lemma demo_donate_3: "ar_donate (demo_arena [0x100000,0x101000]) 0x102000 = (Inr (), demo_arena [0x100000,0x101000,0x102000])"
  by (simp add: ar_donate_def ar_empty_def page_aligned_mod physical_mod update_replicate ar_bump_valid_def)

abbreviation demo_machine :: "u64 list \<Rightarrow> EarlyStage1Builder \<Rightarrow> Machine" where "demo_machine ps b \<equiv> \<lparr>mc_spaces = (\<lambda>_. ms_empty)(0 := \<lparr>ms_mappings = demo_state, ms_ledger = True, ms_builder = True\<rparr>),
   mc_builders = (\<lambda>_. sb_empty)(0 := b), mc_arenas = (\<lambda>_. ar_empty)(0 := demo_arena ps), mc_ledger = demo_ledger ps, mc_memory = (\<lambda>_. 0), mc_tlb = {}\<rparr>"
lemma demo_2_is: "demo_2 = demo_machine [0x100000] (sb_empty\<lparr>sb_attached := True\<rparr>)"
  using demo_reserve_1 demo_donate_1 by (simp add: demo_2_def demo_1_is aarch64_donate_table_page_def)
lemma demo_3_is: "demo_3 = demo_machine [0x100000, 0x101000] (sb_empty\<lparr>sb_attached := True\<rparr>)"
  using demo_reserve_2 demo_donate_2 by (simp add: demo_3_def demo_2_is aarch64_donate_table_page_def)
lemma demo_4_is: "demo_4 = demo_machine [0x100000, 0x101000, 0x102000] (sb_empty\<lparr>sb_attached := True\<rparr>)"
  using demo_reserve_3 demo_donate_3 by (simp add: demo_4_def demo_3_is aarch64_donate_table_page_def)
definition demo_root :: EarlyStage1Builder where "demo_root = \<lparr>sb_attached = True, sb_root = 0x102000, sb_lifecycle = lc_building, sb_region = region_lower\<rparr>"
lemma demo_5_is: "demo_5 = (demo_machine [0x100000, 0x101000, 0x102000] demo_root)\<lparr>mc_arenas := (\<lambda>_. ar_empty)(0 := (demo_arena [0x100000, 0x101000, 0x102000])\<lparr>ar_donated_count := 2\<rparr>)\<rparr>"
  by (simp add: demo_5_def demo_4_is aarch64_initialize_translation_root_def sb_initialize_def ar_valid_def ar_allocate_page_def sb_empty_def demo_root_def zero_table_zero)

text \<open>As long as at most one mapping is recorded there is no pair.\<close>

lemma uniform_single: "(\<And>f. f \<in> set (na_mappings s) \<Longrightarrow> nm_occupied f \<Longrightarrow> f = e) \<Longrightarrow> uniform s"
  by (metis uniform_def)

lemma demo_uniform:
  "uniform (mc_state demo_1 i)" "uniform (mc_state demo_2 i)" "uniform (mc_state demo_3 i)" "uniform (mc_state demo_4 i)" "uniform (mc_state demo_5 i)"
  by (auto simp: demo_1_is demo_2_is demo_3_is demo_4_is demo_5_is ms_empty_def na_empty_def nm_empty_def uniform_def)

lemma demo_5_reachable: "mc_step\<^sup>*\<^sup>* (mc_empty (\<lambda>_. 0)) demo_5"
proof -
  have "mc_op (mc_empty (\<lambda>_. 0)) demo_1" unfolding demo_1_def by (rule create) (simp add: mc_empty_def ms_empty_def na_empty_def)
  moreover have "mc_op demo_1 demo_2" "mc_op demo_2 demo_3" "mc_op demo_3 demo_4" unfolding demo_2_def demo_3_def demo_4_def by (rule donate)+
  moreover have "mc_op demo_4 demo_5" unfolding demo_5_def by (rule initialize)
  ultimately have "mc_step (mc_empty (\<lambda>_. 0)) demo_1" "mc_step demo_1 demo_2" "mc_step demo_2 demo_3" "mc_step demo_3 demo_4"
    "mc_step demo_4 demo_5" using demo_uniform by (simp_all add: mc_step_def)
  then show ?thesis by (meson rtranclp.rtrancl_refl rtranclp.rtrancl_into_rtrancl)
qed

definition demo_6 :: Machine where "demo_6 = snd (the (aarch64_map_user 0 demo_5 0x400000 0x200000 0x1000 mp_read_write))"

lemma demo_checks: "na_map_impl 0 demo_root (demo_state, demo_ledger [0x100000, 0x101000, 0x102000], (demo_arena [0x100000, 0x101000, 0x102000])\<lparr>ar_donated_count := 2\<rparr>, \<lambda>_. 0)
     0x400000 0x200000 0x1000 mp_read_write mk_normal False False True False \<noteq> Some (Inl e, st)"
  by (simp add: na_map_impl_def Let_def demo_concrete user_stage1_virtual_address_def forbidden_by_reservation_def free_local_def free_physical_def nm_empty_def
     required_table_pages_def numeral_eq_Suc[of num.One] level1_index_def level2_index_def sb_remaining_table_pages_def ar_remaining_pages_def demo_root_def ar_empty_def ar_bump_valid_def
     sb_mapped_def sb_leaf_pointer_def sb_accepts_virtual_address_def split: option.splits)

lemma demo_5_space: "mc_bound demo_5 0" "mc_builders demo_5 0 = demo_root"
  by (simp_all add: demo_5_is)

abbreviation demo_page :: u64 where "demo_page \<equiv> user_page_descriptor 0x200000 mp_read_write"

lemma demo_6_is:
  "aarch64_map_user 0 demo_5 0x400000 0x200000 0x1000 mp_read_write = Some (Inr (), demo_6)" "mc_pages demo_6 0 0x400000 = Some demo_page"
proof -
  have get: "mc_get demo_5 0 = (demo_state, demo_ledger [0x100000, 0x101000, 0x102000],
      (demo_arena [0x100000, 0x101000, 0x102000])\<lparr>ar_donated_count := 2\<rparr>, \<lambda>_. 0)"
    by (simp add: mc_get_def demo_5_is)
  have adm: "leaf_possible True mp_read_write mk_normal \<and> can_install (mc_builders demo_5 0) True False"
    by (simp add: demo_5_space demo_root_def can_install_def leaf_possible_def)
  obtain r m where call: "aarch64_map_user 0 demo_5 0x400000 0x200000 0x1000 mp_read_write = Some (r, m)"
    and pages: "r = Inr () \<longrightarrow> mc_pages m 0 = with_pages 0x400000 0x200000 (\<lambda>p. user_page_descriptor p mp_read_write) 0
      (unat (0x1000 :: u64) div 4096) (mc_pages demo_5 0)"
    using map_call_exact [OF mc_run_ok [OF demo_5_reachable], of mp_read_write 0 False "0x400000" "0x200000" "0x1000" False False] adm
    by (auto simp: aarch64_map_user_def na_map_user_def maps_exactly_def split: option.splits prod.splits sum.splits)
  have "r \<noteq> Inl e" for e
    using call demo_checks [of e] demo_5_space(1,2)
    by (auto simp: aarch64_map_user_def na_map_user_def mc_map_def get split: option.splits)
  then have r: "r = Inr ()" by (cases r) auto
  then show eq: "aarch64_map_user 0 demo_5 0x400000 0x200000 0x1000 mp_read_write = Some (Inr (), demo_6)"
    using call by (simp add: demo_6_def)
  have "m = demo_6" using call r by (simp add: demo_6_def)
  then show "mc_pages demo_6 0 0x400000 = Some demo_page" using pages r by (auto simp: with_pages_def)
qed

lemma demo_6_space: "mc_bound demo_6 0" "mc_builders demo_6 0 = demo_root" "na_exact_index (mc_state demo_6 0) 0x400000 0x1000 \<noteq> None"
  "uniform (mc_state demo_6 k)"
proof -
  obtain st where st: "na_map_impl 0 (mc_builders demo_5 0) (mc_get demo_5 0) 0x400000 0x200000 0x1000 mp_read_write mk_normal
      False False True False = Some (Inr (), st)" "demo_6 = mc_put demo_5 0 st"
    using map_user_call [OF demo_6_is(1) demo_5_space(1)] by blast
  show "mc_bound demo_6 0" "mc_builders demo_6 0 = demo_root"
  proof -
    obtain s l a mem where "st = (s, l, a, mem)" by (cases st)
    then show "mc_bound demo_6 0" "mc_builders demo_6 0 = demo_root" unfolding st(2) using demo_5_space(1,2) by simp_all
  qed
  from st(1) [unfolded mc_get_def] have "na_exact_index (mc_state demo_6 0) 0x400000 0x1000 \<noteq> None \<and> uniform (mc_state demo_6 k)"
  proof (cases rule: na_map_impl_cases)
    case (mapped i j a mem)
    let ?e = "\<lparr>nm_virtual_base = 0x400000, nm_physical_base = 0x200000, nm_length = 0x1000, nm_permissions = mp_read_write,
      nm_kind = mk_normal, nm_kernel_stack = False, nm_user_stack = False, nm_user_accessible = True, nm_occupied = True\<rparr>"
    have "na_mappings (mc_state demo_6 0) = (na_mappings (mc_state demo_5 0))[i := ?e]" unfolding st(2) mapped(2) by simp
    moreover have "i < length (na_mappings (mc_state demo_5 0))" using mapped(3) by (simp add: free_local_def first_index_less)
    moreover have "\<not> nm_occupied f" if "f \<in> set (na_mappings (mc_state demo_5 0))" for f
      using that by (auto simp: demo_5_is na_empty_def nm_empty_def)
    ultimately have e: "?e \<in> set (na_mappings (mc_state demo_6 0))" "\<And>f. f \<in> set (na_mappings (mc_state demo_6 0)) \<Longrightarrow> nm_occupied f \<Longrightarrow> f = ?e"
      using set_update_subset_insert [of "na_mappings (mc_state demo_5 0)" i ?e] by (auto simp: set_update_memI)
    moreover have "uniform (mc_state demo_6 k)" if "k \<noteq> 0"
      using that demo_uniform(5) [of k] unfolding st(2) mapped(2) by simp
    ultimately show ?thesis using uniform_single [OF e(2)] unfolding na_exact_index_def first_index_None by force
  qed simp
  then show "na_exact_index (mc_state demo_6 0) 0x400000 0x1000 \<noteq> None" "uniform (mc_state demo_6 k)" by simp_all
qed

lemma demo_6_reachable: "mc_step\<^sup>*\<^sup>* (mc_empty (\<lambda>_. 0)) demo_6"
  using demo_5_reachable map_user [OF demo_6_is(1)] demo_6_space(4)
  by (auto simp: mc_step_def intro: rtranclp.rtrancl_into_rtrancl)

lemma demo_page_bits: "writable demo_page" "el0_accessible demo_page" "demo_page AND page_address_mask = 0x200000"
  by (simp_all add: user_page_descriptor_constant user_constant_def physical_mod descriptor_bits)

lemma demo_visible: "visible demo_6 0x400000 demo_page"
  using demo_6_space(1) demo_6_is(2) by (auto simp: visible_def)


theorem tables_unreachable_witness:
  "visible demo_6 0x400000 demo_page \<and> 0x102000 \<in> sb_tables (mc_builders demo_6 0) (mc_memory demo_6) \<and> demo_page AND page_address_mask \<noteq> 0x102000"
proof -
  have t: "0x102000 \<in> sb_tables (mc_builders demo_6 0) (mc_memory demo_6)"
    by (auto simp: sb_tables_def demo_6_space(2) demo_root_def intro!: exI [of _ "[]"])
  then show ?thesis
    using tables_unreachable [OF demo_6_reachable [unfolded mc_step_def] demo_visible _ demo_6_space(1), where t = "0x102000"] demo_page_bits(2) demo_visible by blast
qed



theorem map_exact_witness:
  "\<exists>m'. aarch64_map_user 0 demo_5 0x400000 0x200000 0x1000 mp_read_write = Some (Inr (), m') \<and>
     mc_pages m' 0 = with_pages 0x400000 0x200000 (\<lambda>p. user_page_descriptor p mp_read_write) 0 1 (mc_pages demo_5 0) \<and>
     mc_pages m' 1 = mc_pages demo_5 1"
  using map_exact [OF demo_5_reachable, of True mp_read_write 0 "0x400000" "0x200000" "0x1000"] demo_6_is(1)
  by (simp add: maps_exactly_def)

text \<open>The pair that \<open>mc_step\<close> leaves out.  A space has the page at 0x200000 writable for user code at 0x400000 and for the kernel at
0x500000; both are in the ledger.  Retiring the kernel's mapping removes the user's entry: the space still has the user's mapping, and the
ledger lets the page be reserved for the kernel.\<close>

definition pair_mapping :: "u64 \<Rightarrow> bool \<Rightarrow> NativeMapping" where
  "pair_mapping va ua = \<lparr>nm_virtual_base = va, nm_physical_base = 0x200000, nm_length = 0x1000, nm_permissions = mp_read_write,
     nm_kind = mk_normal, nm_kernel_stack = False, nm_user_stack = False, nm_user_accessible = ua, nm_occupied = True\<rparr>"

definition pair_entry :: "bool \<Rightarrow> NativePhysicalMapping" where
  "pair_entry ua = \<lparr>np_owner = Some 0, np_physical_base = 0x200000, np_length = 0x1000, np_permissions = mp_read_write,
     np_user_accessible = ua, np_occupied = True\<rparr>"

definition pair_state :: NativeAddressSpaceState where
  "pair_state = demo_state\<lparr>na_mappings := (na_mappings na_empty)[0 := pair_mapping 0x400000 True, 1 := pair_mapping 0x500000 False], na_occupied := 2\<rparr>"

definition pair_ledger :: NativePhysicalLedger where
  "pair_ledger = nl_empty\<lparr>nl_mappings := (nl_mappings nl_empty)[0 := pair_entry True, 1 := pair_entry False], nl_occupied := 2\<rparr>"

lemma pair_loses_entry:
  "case na_retire_unmapped 0 demo_root (\<lambda>_. 0) pair_state pair_ledger 0x500000 0x1000 of (r, s, l) \<Rightarrow>
     r = Inr () \<and> pair_mapping 0x400000 True \<in> set (na_mappings s) \<and> pair_entry True \<notin> set (nl_mappings l) \<and>
     fst (na_reserve_physical 0 s l 0x200000 0x1000 kernel_private) = Inr ()"
  by code_simp

end
