(* ===== verification/Interrupt.thy ===== *)
theory Interrupt
  imports Capability
begin

text \<open>
  Interrupt ownership, coalescing and delivery: interrupt.hpp/.cpp and interrupt_delivery.hpp/.cpp of
  src/core/oskernel.  One definition per method of \<open>class InterruptTable\<close> (prefix \<open>irq_\<close>) and of
  \<open>class InterruptDeliveryTable\<close> (prefix \<open>idl_\<close>).  The lemmas show that only the owner moves a source,
  that a source is masked from the assertion that wakes its driver until the driver says the device
  is quiet, that every assertion is accounted for, and that the delivery table is a one-shot mailbox.
\<close>

section \<open>Data\<close>

abbreviation max_interrupt_sources :: nat where "max_interrupt_sources \<equiv> 64"

type_synonym InterruptSource = u32
abbreviation invalid_interrupt_source :: InterruptSource where "invalid_interrupt_source \<equiv> 0"

definition interrupt_object_tag :: ObjectId where
  "interrupt_object_tag = 0x1EC0000000000000"

definition interrupt_object_id :: "InterruptSource \<Rightarrow> ObjectId" where
  "interrupt_object_id source =
     (if source = invalid_interrupt_source then invalid_object
      else interrupt_object_tag OR ucast source)"

definition interrupt_right_attach :: Rights where
  "interrupt_right_attach = push_bit 0 1"

abbreviation "irq_invalid_source \<equiv> kernel_error 1"
abbreviation "irq_invalid_driver \<equiv> kernel_error 2"
abbreviation "irq_source_taken \<equiv> kernel_error 3"
abbreviation "irq_not_attached \<equiv> kernel_error 4"
abbreviation "irq_not_owner \<equiv> kernel_error 5"
abbreviation "irq_source_limit \<equiv> kernel_error 6"
abbreviation "irq_not_pending \<equiv> kernel_error 7"
abbreviation "irq_not_in_service \<equiv> kernel_error 8"
abbreviation "irq_invalid_capability \<equiv> kernel_error 9"
abbreviation "irq_wrong_rights \<equiv> kernel_error 10"
abbreviation "irq_wrong_object \<equiv> kernel_error 11"

datatype InterruptState = is_attached | is_pending | is_in_service

record Dispatch =
  dsp_owner :: ThreadId
  dsp_wake :: bool
  dsp_coalesced :: bool

record Service =
  svc_assertions :: u32
  svc_saturated :: bool

record IrqSlot =
  iq_source :: InterruptSource
  iq_owner :: ThreadId
  iq_state :: InterruptState
  iq_assertions :: u32
  iq_saturated :: bool
  iq_occupied :: bool

record InterruptTable =
  irq_slots :: "IrqSlot list"
  irq_occupied :: size_t
  irq_spurious :: u32

definition irq_blank :: IrqSlot where
  "irq_blank = \<lparr>iq_source = invalid_interrupt_source, iq_owner = invalid_thread,
     iq_state = is_attached, iq_assertions = 0, iq_saturated = False, iq_occupied = False\<rparr>"

definition irq_empty :: InterruptTable where
  "irq_empty = \<lparr>irq_slots = replicate max_interrupt_sources irq_blank, irq_occupied = 0,
     irq_spurious = 0\<rparr>"

section \<open>The table\<close>

abbreviation assertion_ceiling :: u32 where "assertion_ceiling \<equiv> 0xFFFFFFFF"

definition record_assertion :: "u32 \<times> bool \<Rightarrow> u32 \<times> bool" where
  "record_assertion cs =
     (case cs of (count, saturated) \<Rightarrow>
        if count = assertion_ceiling then (count, True) else (count + 1, saturated))"

definition irq_find :: "InterruptTable \<Rightarrow> InterruptSource \<Rightarrow> nat option" where
  "irq_find t source = slot_find iq_occupied iq_source invalid_interrupt_source (irq_slots t) source"

abbreviation irq_put :: "InterruptTable \<Rightarrow> nat \<Rightarrow> IrqSlot \<Rightarrow> InterruptTable" where
  "irq_put t i s \<equiv> t\<lparr>irq_slots := (irq_slots t)[i := s]\<rparr>"

definition irq_attached_source_count :: "InterruptTable \<Rightarrow> size_t" where
  "irq_attached_source_count t = irq_occupied t"

definition irq_spurious_count :: "InterruptTable \<Rightarrow> u32" where
  "irq_spurious_count t = irq_spurious t"

definition irq_attach ::
  "InterruptTable \<Rightarrow> ThreadId \<Rightarrow> InterruptSource \<Rightarrow> unit result \<times> InterruptTable" where
  "irq_attach t driver source =
     (if driver = invalid_thread then (Inl irq_invalid_driver, t)
      else if source = invalid_interrupt_source then (Inl irq_invalid_source, t)
      else if irq_find t source \<noteq> None then (Inl irq_source_taken, t)
      else case first_index (\<lambda>s. \<not> iq_occupied s) (irq_slots t) of
          Some i \<Rightarrow>
            (Inr (), t\<lparr>irq_slots := (irq_slots t)[i :=
                 \<lparr>iq_source = source, iq_owner = driver, iq_state = is_attached, iq_assertions = 0,
                  iq_saturated = False, iq_occupied = True\<rparr>],
               irq_occupied := irq_occupied t + 1\<rparr>)
        | None \<Rightarrow> (Inl irq_source_limit, t))"

definition irq_detach ::
  "InterruptTable \<Rightarrow> ThreadId \<Rightarrow> InterruptSource \<Rightarrow> unit result \<times> InterruptTable" where
  "irq_detach t driver source =
     (if driver = invalid_thread then (Inl irq_invalid_driver, t)
      else if source = invalid_interrupt_source then (Inl irq_invalid_source, t)
      else case irq_find t source of
          None \<Rightarrow> (Inl irq_not_attached, t)
        | Some i \<Rightarrow>
            if iq_owner (irq_slots t ! i) \<noteq> driver then (Inl irq_not_owner, t)
            else (Inr (), t\<lparr>irq_slots := (irq_slots t)[i := irq_blank],
                            irq_occupied := irq_occupied t - 1\<rparr>))"

definition irq_dispatch :: "InterruptTable \<Rightarrow> InterruptSource \<Rightarrow> Dispatch result \<times> InterruptTable" where
  "irq_dispatch t source =
     (if source = invalid_interrupt_source then (Inl irq_invalid_source, t)
      else case irq_find t source of
          None \<Rightarrow>
            (Inr \<lparr>dsp_owner = invalid_thread, dsp_wake = False, dsp_coalesced = False\<rparr>,
             if irq_spurious t \<noteq> assertion_ceiling then t\<lparr>irq_spurious := irq_spurious t + 1\<rparr> else t)
        | Some i \<Rightarrow>
            let slot = irq_slots t ! i in
            if iq_state slot = is_attached
            then (Inr \<lparr>dsp_owner = iq_owner slot, dsp_wake = True, dsp_coalesced = False\<rparr>,
                  irq_put t i (slot\<lparr>iq_state := is_pending, iq_assertions := 1,
                                    iq_saturated := False\<rparr>))
            else let (count, saturated) = record_assertion (iq_assertions slot, iq_saturated slot)
                 in (Inr \<lparr>dsp_owner = iq_owner slot, dsp_wake = False, dsp_coalesced = True\<rparr>,
                     irq_put t i (slot\<lparr>iq_assertions := count, iq_saturated := saturated\<rparr>)))"

definition irq_begin_service ::
  "InterruptTable \<Rightarrow> ThreadId \<Rightarrow> InterruptSource \<Rightarrow> Service result \<times> InterruptTable" where
  "irq_begin_service t driver source =
     (if driver = invalid_thread then (Inl irq_invalid_driver, t)
      else if source = invalid_interrupt_source then (Inl irq_invalid_source, t)
      else case irq_find t source of
          None \<Rightarrow> (Inl irq_not_attached, t)
        | Some i \<Rightarrow>
            let slot = irq_slots t ! i in
            if iq_owner slot \<noteq> driver then (Inl irq_not_owner, t)
            else if iq_state slot \<noteq> is_pending then (Inl irq_not_pending, t)
            else (Inr \<lparr>svc_assertions = iq_assertions slot, svc_saturated = iq_saturated slot\<rparr>,
                  irq_put t i (slot\<lparr>iq_state := is_in_service, iq_assertions := 0,
                                    iq_saturated := False\<rparr>)))"

definition irq_end_service ::
  "InterruptTable \<Rightarrow> ThreadId \<Rightarrow> InterruptSource \<Rightarrow> bool result \<times> InterruptTable" where
  "irq_end_service t driver source =
     (if driver = invalid_thread then (Inl irq_invalid_driver, t)
      else if source = invalid_interrupt_source then (Inl irq_invalid_source, t)
      else case irq_find t source of
          None \<Rightarrow> (Inl irq_not_attached, t)
        | Some i \<Rightarrow>
            let slot = irq_slots t ! i in
            if iq_owner slot \<noteq> driver then (Inl irq_not_owner, t)
            else if iq_state slot \<noteq> is_in_service then (Inl irq_not_in_service, t)
            else if iq_assertions slot > 0
              then (Inr True, irq_put t i (slot\<lparr>iq_state := is_pending\<rparr>))
            else (Inr False, irq_put t i (slot\<lparr>iq_state := is_attached\<rparr>)))"

definition irq_detach_all_owned_by :: "InterruptTable \<Rightarrow> ThreadId \<Rightarrow> size_t \<times> InterruptTable" where
  "irq_detach_all_owned_by t driver =
     (if driver = invalid_thread then (0, t)
      else let released = of_nat (length (filter (\<lambda>s. iq_occupied s \<and> iq_owner s = driver)
                                            (irq_slots t)))
           in (released,
               t\<lparr>irq_slots := map (\<lambda>s. if iq_occupied s \<and> iq_owner s = driver then irq_blank else s)
                    (irq_slots t),
                 irq_occupied := irq_occupied t - released\<rparr>))"

definition irq_state_of :: "InterruptTable \<Rightarrow> InterruptSource \<Rightarrow> InterruptState result" where
  "irq_state_of t source =
     (case irq_find t source of None \<Rightarrow> Inl irq_not_attached
      | Some i \<Rightarrow> Inr (iq_state (irq_slots t ! i)))"

definition irq_owner_of :: "InterruptTable \<Rightarrow> InterruptSource \<Rightarrow> ThreadId result" where
  "irq_owner_of t source =
     (case irq_find t source of None \<Rightarrow> Inl irq_not_attached
      | Some i \<Rightarrow> Inr (iq_owner (irq_slots t ! i)))"

definition irq_is_masked :: "InterruptTable \<Rightarrow> InterruptSource \<Rightarrow> bool result" where
  "irq_is_masked t source =
     (case irq_find t source of None \<Rightarrow> Inl irq_not_attached
      | Some i \<Rightarrow> Inr (iq_state (irq_slots t ! i) \<noteq> is_attached))"

section \<open>Delivery to the driver's next resume\<close>

abbreviation "idl_invalid_thread \<equiv> kernel_error 280"
abbreviation "idl_already_armed \<equiv> kernel_error 281"
abbreviation "idl_not_armed \<equiv> kernel_error 282"
abbreviation "idl_exhausted \<equiv> kernel_error 283"

record IdlSlot =
  id_driver :: ThreadId
  id_source :: InterruptSource
  id_service :: Service
  id_occupied :: bool

record InterruptDeliveryTable =
  idl_slots :: "IdlSlot list"

definition idl_blank :: IdlSlot where
  "idl_blank = \<lparr>id_driver = invalid_thread, id_source = invalid_interrupt_source,
     id_service = \<lparr>svc_assertions = 0, svc_saturated = False\<rparr>, id_occupied = False\<rparr>"

definition idl_empty :: InterruptDeliveryTable where
  "idl_empty = \<lparr>idl_slots = replicate max_threads idl_blank\<rparr>"

definition idl_find :: "InterruptDeliveryTable \<Rightarrow> ThreadId \<Rightarrow> nat option" where
  "idl_find t driver = slot_find id_occupied id_driver invalid_thread (idl_slots t) driver"

definition idl_armed :: "InterruptDeliveryTable \<Rightarrow> ThreadId \<Rightarrow> bool" where
  "idl_armed t driver \<longleftrightarrow> idl_find t driver \<noteq> None"

definition idl_arm ::
  "InterruptDeliveryTable \<Rightarrow> ThreadId \<Rightarrow> InterruptSource \<Rightarrow> Service \<Rightarrow>
   unit result \<times> InterruptDeliveryTable" where
  "idl_arm t driver source service =
     (if driver = invalid_thread \<or> source = invalid_interrupt_source then (Inl idl_invalid_thread, t)
      else if idl_find t driver \<noteq> None then (Inl idl_already_armed, t)
      else case first_index (\<lambda>s. \<not> id_occupied s) (idl_slots t) of
          Some i \<Rightarrow>
            (Inr (), t\<lparr>idl_slots := (idl_slots t)[i := (idl_slots t ! i)\<lparr>id_occupied := True,
                 id_driver := driver, id_source := source, id_service := service\<rparr>]\<rparr>)
        | None \<Rightarrow> (Inl idl_exhausted, t))"

definition idl_take ::
  "InterruptDeliveryTable \<Rightarrow> ThreadId \<Rightarrow> Service result \<times> InterruptDeliveryTable" where
  "idl_take t driver =
     (case idl_find t driver of
        None \<Rightarrow> (Inl idl_not_armed, t)
      | Some i \<Rightarrow> (Inr (id_service (idl_slots t ! i)),
                   t\<lparr>idl_slots := (idl_slots t)[i := idl_blank]\<rparr>))"

definition idl_release :: "InterruptDeliveryTable \<Rightarrow> ThreadId \<Rightarrow> bool \<times> InterruptDeliveryTable" where
  "idl_release t driver =
     (case idl_find t driver of
        None \<Rightarrow> (False, t)
      | Some i \<Rightarrow> (True, t\<lparr>idl_slots := (idl_slots t)[i := idl_blank]\<rparr>))"

section \<open>The tables as maps\<close>

definition irq_view :: "InterruptTable \<Rightarrow> InterruptSource \<Rightarrow> IrqSlot option" where
  "irq_view t = slot_view iq_occupied iq_source invalid_interrupt_source (irq_slots t)"

interpretation irt: slot_table iq_occupied iq_source invalid_interrupt_source irq_blank
  by unfold_locales (simp add: irq_blank_def)

text \<open>The invariant: a quiet source has counted nothing, an outstanding one at least one.\<close>

definition irq_slot_ok :: "IrqSlot \<Rightarrow> bool" where
  "irq_slot_ok s \<longleftrightarrow> iq_owner s \<noteq> invalid_thread \<and>
     (iq_state s = is_attached \<longrightarrow> iq_assertions s = 0) \<and>
     (iq_assertions s = 0 \<longrightarrow> \<not> iq_saturated s) \<and>
     (iq_state s = is_pending \<longrightarrow> iq_assertions s \<noteq> 0)"

definition irq_ok :: "InterruptTable \<Rightarrow> bool" where
  "irq_ok t \<longleftrightarrow>
     slot_ok iq_occupied iq_source invalid_interrupt_source max_interrupt_sources
       (irq_slots t) (irq_occupied t) \<and>
     (\<forall>source s. irq_view t source = Some s \<longrightarrow> irq_slot_ok s)"

lemma irq_ok_empty: "irq_ok irq_empty"
  by (simp add: irq_ok_def irq_view_def irq_empty_def irt.ok_blank irt.view_blank)

lemma irq_find_None: "irq_find t c = None \<longleftrightarrow> irq_view t c = None"
  by (simp add: irq_find_def irq_view_def irt.find_view_None)

lemma irq_find_view: "irq_find t c = Some i \<Longrightarrow> irq_view t c = Some (irq_slots t ! i)"
  by (simp add: irq_find_def irq_view_def irt.find_view_Some)

lemma irq_view_find: "irq_view t c = Some s \<Longrightarrow> \<exists>i. irq_find t c = Some i \<and> irq_slots t ! i = s"
  by (auto simp: irq_find_def irq_view_def slot_view_def)

lemma irq_view_SomeD: "irq_view t c = Some s \<Longrightarrow> iq_occupied s \<and> iq_source s = c \<and> c \<noteq> 0"
  unfolding irq_view_def by (drule irt.view_SomeD) simp

lemma irq_view_zero [simp]: "irq_view t 0 = None" by (simp add: irq_view_def)

lemma irq_put_ok:
  assumes "irq_ok t" "irq_find t c = Some i" "iq_occupied s" "iq_source s = c" "irq_slot_ok s"
  shows "irq_ok (irq_put t i s)" "irq_view (irq_put t i s) = (irq_view t)(c \<mapsto> s)"
proof -
  have "slot_ok iq_occupied iq_source 0 max_interrupt_sources (irq_slots t) (irq_occupied t)"
    using assms(1) by (simp add: irq_ok_def)
  note st = irt.store_ok [OF this assms(2) [unfolded irq_find_def] assms(3,4)]
  show v: "irq_view (irq_put t i s) = (irq_view t)(c \<mapsto> s)" using st(2) by (simp add: irq_view_def)
  show "irq_ok (irq_put t i s)"
    using st(1) v assms(1,5) by (auto simp: irq_ok_def split: if_splits)
qed

section \<open>What each operation does to a source\<close>

text \<open>The operations on the map alone.\<close>

definition irq_dispatched :: "IrqSlot \<Rightarrow> IrqSlot" where
  "irq_dispatched s =
     (if iq_state s = is_attached
      then s\<lparr>iq_state := is_pending, iq_assertions := 1, iq_saturated := False\<rparr>
      else s\<lparr>iq_assertions := (if iq_assertions s = assertion_ceiling then iq_assertions s
                               else iq_assertions s + 1),
             iq_saturated := iq_saturated s \<or> iq_assertions s = assertion_ceiling\<rparr>)"

lemma irq_dispatched_ok: "irq_slot_ok s \<Longrightarrow> irq_slot_ok (irq_dispatched s)"
proof -
  have "x + 1 \<noteq> 0" if "x \<noteq> assertion_ceiling" for x :: u32
  proof
    assume "x + 1 = 0"
    then have "x = - 1" by (simp add: eq_neg_iff_add_eq_0)
    with that show False by simp
  qed
  then show "irq_slot_ok s \<Longrightarrow> irq_slot_ok (irq_dispatched s)"
    by (auto simp: irq_slot_ok_def irq_dispatched_def)
qed

lemma irq_dispatch_view:
  assumes "irq_ok t" "irq_view t c = Some s"
  shows "irq_dispatch t c = (Inr \<lparr>dsp_owner = iq_owner s, dsp_wake = (iq_state s = is_attached),
      dsp_coalesced = (iq_state s \<noteq> is_attached)\<rparr>, snd (irq_dispatch t c))"
    and "irq_ok (snd (irq_dispatch t c))"
    and "irq_view (snd (irq_dispatch t c)) = (irq_view t)(c \<mapsto> irq_dispatched s)"
proof -
  obtain i where i: "irq_find t c = Some i" "irq_slots t ! i = s" using irq_view_find [OF assms(2)] by blast
  note f = irq_view_SomeD [OF assms(2)]
  have eq: "irq_dispatch t c = (Inr \<lparr>dsp_owner = iq_owner s, dsp_wake = (iq_state s = is_attached),
      dsp_coalesced = (iq_state s \<noteq> is_attached)\<rparr>, irq_put t i (irq_dispatched s))"
    using i f by (cases s) (simp add: irq_dispatch_def irq_dispatched_def record_assertion_def)
  then show "irq_dispatch t c = (Inr \<lparr>dsp_owner = iq_owner s, dsp_wake = (iq_state s = is_attached),
      dsp_coalesced = (iq_state s \<noteq> is_attached)\<rparr>, snd (irq_dispatch t c))" by simp
  have "iq_occupied (irq_dispatched s)" "iq_source (irq_dispatched s) = c"
    using f by (simp_all add: irq_dispatched_def)
  moreover have "irq_slot_ok (irq_dispatched s)"
    using assms by (intro irq_dispatched_ok) (simp add: irq_ok_def)
  ultimately show "irq_ok (snd (irq_dispatch t c))"
    and "irq_view (snd (irq_dispatch t c)) = (irq_view t)(c \<mapsto> irq_dispatched s)"
    using irq_put_ok [OF assms(1) i(1)] by (simp_all add: eq)
qed

lemma irq_dispatch_spurious:
  assumes "irq_ok t" "irq_view t c = None"
  shows "irq_ok (snd (irq_dispatch t c))" "irq_view (snd (irq_dispatch t c)) = irq_view t"
  using assms irq_find_None [of t c] by (auto simp: irq_dispatch_def irq_ok_def irq_view_def)

lemma irq_begin_view:
  assumes "irq_ok t"
  shows "irq_ok (snd (irq_begin_service t d c))"
    and "fst (irq_begin_service t d c) = Inr v \<longleftrightarrow> (\<exists>s. irq_view t c = Some s \<and> iq_owner s = d \<and>
      iq_state s = is_pending \<and> v = \<lparr>svc_assertions = iq_assertions s, svc_saturated = iq_saturated s\<rparr>)"
    and "fst (irq_begin_service t d c) = Inr v \<Longrightarrow> irq_view t c = Some s \<Longrightarrow>
      irq_view (snd (irq_begin_service t d c)) =
        (irq_view t)(c \<mapsto> s\<lparr>iq_state := is_in_service, iq_assertions := 0, iq_saturated := False\<rparr>)"
    and "fst (irq_begin_service t d c) = Inl e \<Longrightarrow> snd (irq_begin_service t d c) = t"
proof -
  show "fst (irq_begin_service t d c) = Inl e \<Longrightarrow> snd (irq_begin_service t d c) = t"
    by (auto simp: irq_begin_service_def Let_def split: if_splits option.splits)
  show iff: "fst (irq_begin_service t d c) = Inr v \<longleftrightarrow> (\<exists>s. irq_view t c = Some s \<and> iq_owner s = d \<and>
      iq_state s = is_pending \<and> v = \<lparr>svc_assertions = iq_assertions s, svc_saturated = iq_saturated s\<rparr>)"
    for v
  proof (cases "irq_find t c")
    case None
    then show ?thesis using irq_find_None [of t c] by (simp add: irq_begin_service_def)
  next
    case (Some i)
    have sl: "irq_slot_ok (irq_slots t ! i)" and c: "c \<noteq> 0"
      using assms irq_find_view [OF Some] irq_view_SomeD [OF irq_find_view [OF Some]]
      by (auto simp: irq_ok_def)
    then show ?thesis using Some irq_find_view [OF Some]
      by (auto simp: irq_begin_service_def Let_def irq_slot_ok_def)
  qed
  have keep: "irq_ok (snd (irq_begin_service t d c)) \<and> irq_view (snd (irq_begin_service t d c)) =
        (irq_view t)(c \<mapsto> s\<lparr>iq_state := is_in_service, iq_assertions := 0, iq_saturated := False\<rparr>)"
    if r: "fst (irq_begin_service t d c) = Inr v" "irq_view t c = Some s" for v s
  proof -
    obtain i where i: "irq_find t c = Some i" "irq_slots t ! i = s" using irq_view_find [OF r(2)] by blast
    note f = irq_view_SomeD [OF r(2)]
    have o: "iq_owner s = d" "iq_state s = is_pending" using iff r by auto
    have sl: "irq_slot_ok s" using assms r(2) by (simp add: irq_ok_def)
    then have "irq_slot_ok (s\<lparr>iq_state := is_in_service, iq_assertions := 0, iq_saturated := False\<rparr>)"
      by (simp add: irq_slot_ok_def)
    with irq_put_ok [OF assms i(1)] f show ?thesis
      using i f o sl by (simp add: irq_begin_service_def irq_slot_ok_def)
  qed
  then show "fst (irq_begin_service t d c) = Inr v \<Longrightarrow> irq_view t c = Some s \<Longrightarrow>
      irq_view (snd (irq_begin_service t d c)) =
        (irq_view t)(c \<mapsto> s\<lparr>iq_state := is_in_service, iq_assertions := 0, iq_saturated := False\<rparr>)"
    by blast
  show "irq_ok (snd (irq_begin_service t d c))"
  proof (cases "fst (irq_begin_service t d c)")
    case (Inl e)
    then have "snd (irq_begin_service t d c) = t"
      by (auto simp: irq_begin_service_def Let_def split: if_splits option.splits)
    with assms show ?thesis by simp
  next
    case (Inr v)
    then obtain s where "irq_view t c = Some s" using iff by blast
    with keep [OF Inr this] show ?thesis by blast
  qed
qed

definition irq_ended :: "IrqSlot \<Rightarrow> IrqSlot" where
  "irq_ended s = s\<lparr>iq_state := (if iq_assertions s > 0 then is_pending else is_attached)\<rparr>"

lemma irq_end_view:
  assumes "irq_ok t"
  shows "irq_ok (snd (irq_end_service t d c))"
    and "fst (irq_end_service t d c) = Inr b \<longleftrightarrow> (\<exists>s. irq_view t c = Some s \<and> iq_owner s = d \<and>
      iq_state s = is_in_service \<and> b = (iq_assertions s > 0))"
    and "fst (irq_end_service t d c) = Inr b \<Longrightarrow> irq_view t c = Some s \<Longrightarrow>
      irq_view (snd (irq_end_service t d c)) = (irq_view t)(c \<mapsto> irq_ended s)"
    and "fst (irq_end_service t d c) = Inl e \<Longrightarrow> snd (irq_end_service t d c) = t"
proof -
  show same: "fst (irq_end_service t d c) = Inl e \<Longrightarrow> snd (irq_end_service t d c) = t" for e
    by (auto simp: irq_end_service_def Let_def split: if_splits option.splits)
  show iff: "fst (irq_end_service t d c) = Inr b \<longleftrightarrow> (\<exists>s. irq_view t c = Some s \<and> iq_owner s = d \<and>
      iq_state s = is_in_service \<and> b = (iq_assertions s > 0))" for b
  proof (cases "irq_find t c")
    case None
    then show ?thesis using irq_find_None [of t c] by (simp add: irq_end_service_def)
  next
    case (Some i)
    have "irq_slot_ok (irq_slots t ! i)" and "c \<noteq> 0"
      using assms irq_find_view [OF Some] irq_view_SomeD [OF irq_find_view [OF Some]]
      by (auto simp: irq_ok_def)
    then show ?thesis using Some irq_find_view [OF Some]
      by (auto simp: irq_end_service_def Let_def irq_slot_ok_def)
  qed
  have keep: "irq_ok (snd (irq_end_service t d c)) \<and>
      irq_view (snd (irq_end_service t d c)) = (irq_view t)(c \<mapsto> irq_ended s)"
    if r: "fst (irq_end_service t d c) = Inr b" "irq_view t c = Some s" for b s
  proof -
    obtain i where i: "irq_find t c = Some i" "irq_slots t ! i = s" using irq_view_find [OF r(2)] by blast
    note f = irq_view_SomeD [OF r(2)]
    have o: "iq_owner s = d" "iq_state s = is_in_service" using iff r by auto
    have sl: "irq_slot_ok s" using assms r(2) by (simp add: irq_ok_def)
    have ok: "irq_slot_ok (irq_ended s)"
      using sl by (auto simp: irq_slot_ok_def irq_ended_def not_less)
    have "snd (irq_end_service t d c) = irq_put t i (irq_ended s)"
      using i f o sl by (auto simp: irq_end_service_def irq_slot_ok_def irq_ended_def)
    with irq_put_ok [OF assms i(1), of "irq_ended s"] f ok show ?thesis by (simp add: irq_ended_def)
  qed
  then show "fst (irq_end_service t d c) = Inr b \<Longrightarrow> irq_view t c = Some s \<Longrightarrow>
      irq_view (snd (irq_end_service t d c)) = (irq_view t)(c \<mapsto> irq_ended s)" by blast
  show "irq_ok (snd (irq_end_service t d c))"
  proof (cases "fst (irq_end_service t d c)")
    case (Inl e)
    with same assms show ?thesis by simp
  next
    case (Inr b)
    then obtain s where "irq_view t c = Some s" using iff by blast
    with keep [OF Inr this] show ?thesis by blast
  qed
qed

lemma irq_attach_view:
  assumes "irq_ok t"
  shows "irq_ok (snd (irq_attach t d c))"
    and "fst (irq_attach t d c) = Inr () \<Longrightarrow> irq_view t c = None \<and>
      irq_view (snd (irq_attach t d c)) = (irq_view t)(c \<mapsto>
        \<lparr>iq_source = c, iq_owner = d, iq_state = is_attached, iq_assertions = 0,
         iq_saturated = False, iq_occupied = True\<rparr>)"
    and "fst (irq_attach t d c) \<noteq> Inr () \<Longrightarrow> snd (irq_attach t d c) = t"
proof -
  have sok: "slot_ok iq_occupied iq_source 0 max_interrupt_sources (irq_slots t) (irq_occupied t)"
    using assms by (simp add: irq_ok_def)
  let ?s = "\<lparr>iq_source = c, iq_owner = d, iq_state = is_attached, iq_assertions = 0,
    iq_saturated = False, iq_occupied = True\<rparr>"
  show same: "fst (irq_attach t d c) \<noteq> Inr () \<Longrightarrow> snd (irq_attach t d c) = t"
    by (auto simp: irq_attach_def split: option.splits if_splits)
  have put: "irq_ok (snd (irq_attach t d c)) \<and> irq_view t c = None \<and>
      irq_view (snd (irq_attach t d c)) = (irq_view t)(c \<mapsto> ?s)"
    if r: "fst (irq_attach t d c) = Inr ()"
  proof -
    obtain i where i: "first_index (\<lambda>s. \<not> iq_occupied s) (irq_slots t) = Some i" "d \<noteq> 0" "c \<noteq> 0"
      "irq_find t c = None" "snd (irq_attach t d c) = t\<lparr>irq_slots := (irq_slots t)[i := ?s],
         irq_occupied := irq_occupied t + 1\<rparr>"
      using r by (auto simp: irq_attach_def split: option.splits if_splits)
    have v: "irq_view t c = None" using i(4) by (simp add: irq_find_None)
    note ins = irt.insert_ok [OF sok i(1), of ?s]
    have "irq_view (snd (irq_attach t d c)) = (irq_view t)(c \<mapsto> ?s)"
      using ins v i by (simp add: irq_view_def)
    moreover have "irq_slot_ok ?s" using i(2) by (simp add: irq_slot_ok_def)
    ultimately show ?thesis using ins(1) v i assms by (auto simp: irq_ok_def irq_view_def split: if_splits)
  qed
  then show "fst (irq_attach t d c) = Inr () \<Longrightarrow> irq_view t c = None \<and>
      irq_view (snd (irq_attach t d c)) = (irq_view t)(c \<mapsto> ?s)" by blast
  show "irq_ok (snd (irq_attach t d c))"
    using put same assms by (cases "fst (irq_attach t d c) = Inr ()") auto
qed

lemma irq_detach_view:
  assumes "irq_ok t"
  shows "irq_ok (snd (irq_detach t d c))"
    and "fst (irq_detach t d c) = Inr () \<longleftrightarrow> d \<noteq> 0 \<and> (\<exists>s. irq_view t c = Some s \<and> iq_owner s = d)"
    and "irq_view (snd (irq_detach t d c)) =
      (if fst (irq_detach t d c) = Inr () then (irq_view t)(c := None) else irq_view t)"
proof -
  have sok: "slot_ok iq_occupied iq_source 0 max_interrupt_sources (irq_slots t) (irq_occupied t)"
    using assms by (simp add: irq_ok_def)
  have "irq_ok (snd (irq_detach t d c)) \<and>
    (fst (irq_detach t d c) = Inr () \<longleftrightarrow> d \<noteq> 0 \<and> (\<exists>s. irq_view t c = Some s \<and> iq_owner s = d)) \<and>
    irq_view (snd (irq_detach t d c)) =
      (if fst (irq_detach t d c) = Inr () then (irq_view t)(c := None) else irq_view t)"
  proof (cases "irq_find t c")
    case None
    then show ?thesis using assms irq_find_None [of t c] by (simp add: irq_detach_def)
  next
    case (Some i)
    note f = irq_find_view [OF Some] irq_view_SomeD [OF irq_find_view [OF Some]]
    note rm = irt.remove_ok [OF sok Some [unfolded irq_find_def], of irq_blank]
    have "irq_ok (t\<lparr>irq_slots := (irq_slots t)[i := irq_blank], irq_occupied := irq_occupied t - 1\<rparr>) \<and>
        irq_view (t\<lparr>irq_slots := (irq_slots t)[i := irq_blank], irq_occupied := irq_occupied t - 1\<rparr>) =
          (irq_view t)(c := None)"
      using rm assms by (auto simp: irq_ok_def irq_view_def irq_blank_def split: if_splits)
    with f Some assms show ?thesis by (simp add: irq_detach_def)
  qed
  then show "irq_ok (snd (irq_detach t d c))"
    and "fst (irq_detach t d c) = Inr () \<longleftrightarrow> d \<noteq> 0 \<and> (\<exists>s. irq_view t c = Some s \<and> iq_owner s = d)"
    and "irq_view (snd (irq_detach t d c)) =
      (if fst (irq_detach t d c) = Inr () then (irq_view t)(c := None) else irq_view t)" by blast+
qed

lemma irq_detach_all_view:
  assumes "irq_ok t"
  shows "irq_ok (snd (irq_detach_all_owned_by t d))"
    and "irq_view (snd (irq_detach_all_owned_by t d)) c =
      (case irq_view t c of None \<Rightarrow> None | Some s \<Rightarrow> if iq_owner s = d then None else Some s)"
proof -
  have sok: "slot_ok iq_occupied iq_source 0 max_interrupt_sources (irq_slots t) (irq_occupied t)"
    using assms by (simp add: irq_ok_def)
  note cl = irt.clear_ok [OF sok, where P = "\<lambda>s. iq_owner s = d"]
  have v: "irq_view (snd (irq_detach_all_owned_by t d)) c =
      (case irq_view t c of None \<Rightarrow> None | Some s \<Rightarrow> if iq_owner s = d then None else Some s)" for c
  proof (cases "d = 0")
    case True
    have "irq_view t c = Some s \<Longrightarrow> iq_owner s \<noteq> 0" for s
      using assms by (auto simp: irq_ok_def irq_slot_ok_def)
    with True show ?thesis by (auto simp: irq_detach_all_owned_by_def split: option.split)
  next
    case False
    with cl(2) [of c] show ?thesis by (simp add: irq_detach_all_owned_by_def irq_view_def Let_def)
  qed
  then show "irq_view (snd (irq_detach_all_owned_by t d)) c =
      (case irq_view t c of None \<Rightarrow> None | Some s \<Rightarrow> if iq_owner s = d then None else Some s)" .
  have "slot_ok iq_occupied iq_source 0 max_interrupt_sources
      (irq_slots (snd (irq_detach_all_owned_by t d))) (irq_occupied (snd (irq_detach_all_owned_by t d)))"
    using sok cl(1) by (simp add: irq_detach_all_owned_by_def Let_def)
  with v assms show "irq_ok (snd (irq_detach_all_owned_by t d))"
    by (auto simp: irq_ok_def split: option.splits if_splits)
qed

section \<open>Runs and properties\<close>

inductive irq_method :: "InterruptTable \<Rightarrow> InterruptTable \<Rightarrow> bool" where
  attach: "irq_method t (snd (irq_attach t d c))"
| detach: "irq_method t (snd (irq_detach t d c))"
| dispatch: "irq_method t (snd (irq_dispatch t c))"
| begin_service: "irq_method t (snd (irq_begin_service t d c))"
| end_service: "irq_method t (snd (irq_end_service t d c))"
| detach_all: "irq_method t (snd (irq_detach_all_owned_by t d))"

lemma irq_dispatch_ok: "irq_ok t \<Longrightarrow> irq_ok (snd (irq_dispatch t c))"
  by (cases "irq_view t c") (auto intro: irq_dispatch_view irq_dispatch_spurious)

lemma irq_method_ok: "irq_method t u \<Longrightarrow> irq_ok t \<Longrightarrow> irq_ok u"
  by (induction rule: irq_method.induct)
     (auto intro: irq_attach_view irq_detach_view irq_dispatch_ok irq_begin_view irq_end_view
        irq_detach_all_view)

lemma irq_run_ok: "irq_method\<^sup>*\<^sup>* irq_empty t \<Longrightarrow> irq_ok t"
  by (induction rule: rtranclp_induct) (auto intro: irq_method_ok irq_ok_empty)

text \<open>What the hardware and the drivers do to sources once they are attached, in any order, and the run
  of the table over a sequence of it.  The run returns every batch that a driver was handed.\<close>

datatype IrqEvent =
    ev_assert InterruptSource
  | ev_begin ThreadId InterruptSource
  | ev_end ThreadId InterruptSource

fun irq_events :: "InterruptTable \<Rightarrow> IrqEvent list \<Rightarrow> (InterruptSource \<times> Service) list \<times> InterruptTable" where
  "irq_events t [] = ([], t)"
| "irq_events t (ev_assert c # es) = irq_events (snd (irq_dispatch t c)) es"
| "irq_events t (ev_begin d c # es) =
     (case irq_begin_service t d c of
        (Inl _, u) \<Rightarrow> irq_events u es
      | (Inr v, u) \<Rightarrow> (let (told, w) = irq_events u es in ((c, v) # told, w)))"
| "irq_events t (ev_end d c # es) = irq_events (snd (irq_end_service t d c)) es"

definition irq_told :: "InterruptSource \<Rightarrow> (InterruptSource \<times> Service) list \<Rightarrow> Service list" where
  "irq_told c told = map snd (filter (\<lambda>p. fst p = c) told)"

text \<open>The same events for one source with a count that has no limit: the batches its owner
  collects, the state, and how many assertions are outstanding.\<close>

fun irq_ideal :: "ThreadId \<Rightarrow> InterruptSource \<Rightarrow> InterruptState \<times> nat \<Rightarrow> IrqEvent list \<Rightarrow>
    nat list \<times> InterruptState \<times> nat" where
  "irq_ideal owner c (st, n) [] = ([], st, n)"
| "irq_ideal owner c (st, n) (ev_assert e # es) =
     (if e \<noteq> c then irq_ideal owner c (st, n) es
      else irq_ideal owner c (if st = is_attached then is_pending else st, n + 1) es)"
| "irq_ideal owner c (st, n) (ev_begin d e # es) =
     (if e = c \<and> d = owner \<and> st = is_pending
      then (let (told, fin) = irq_ideal owner c (is_in_service, 0) es in (n # told, fin))
      else irq_ideal owner c (st, n) es)"
| "irq_ideal owner c (st, n) (ev_end d e # es) =
     irq_ideal owner c (if e = c \<and> d = owner \<and> st = is_in_service
       then (if n > 0 then is_pending else is_attached) else st, n) es"

text \<open>How a count without limit is reported in 32 bits: exactly up to the ceiling, and beyond it as
  the ceiling with the flag set.\<close>

definition irq_report :: "nat \<Rightarrow> Service" where
  "irq_report n = \<lparr>svc_assertions = of_nat (min n (2 ^ 32 - 1)), svc_saturated = (n > 2 ^ 32 - 1)\<rparr>"

definition irq_tracks :: "IrqSlot \<Rightarrow> ThreadId \<Rightarrow> InterruptState \<times> nat \<Rightarrow> bool" where
  "irq_tracks s owner x \<longleftrightarrow> iq_owner s = owner \<and> iq_state s = fst x \<and>
     \<lparr>svc_assertions = iq_assertions s, svc_saturated = iq_saturated s\<rparr> = irq_report (snd x)"

lemma irq_report_unat: "unat (of_nat (min n (2 ^ 32 - 1)) :: u32) = min n (2 ^ 32 - 1)"
  by (simp add: unat_of_nat take_bit_nat_eq_self_iff min_def)

lemma irq_report_ceiling: "(of_nat (min n (2 ^ 32 - 1)) :: u32) = assertion_ceiling \<longleftrightarrow> n \<ge> 2 ^ 32 - 1"
proof -
  have "(of_nat (min n (2 ^ 32 - 1)) :: u32) = assertion_ceiling \<longleftrightarrow> min n (2 ^ 32 - 1) = 2 ^ 32 - 1"
    by (simp only: word_unat_eq_iff irq_report_unat) simp
  then show ?thesis by (simp add: min_def)
qed

lemma irq_report_zero: "(of_nat (min n (2 ^ 32 - 1)) :: u32) = 0 \<longleftrightarrow> n = 0"
  by (simp only: word_unat_eq_iff irq_report_unat) (simp add: min_def)

lemma irq_tracks_dispatched:
  assumes "irq_slot_ok s" "irq_tracks s owner (st, n)"
  shows "irq_tracks (irq_dispatched s) owner (if st = is_attached then is_pending else st, n + 1)"
proof (cases "st = is_attached")
  case True
  with assms have "(of_nat (min n (2 ^ 32 - 1)) :: u32) = 0"
    by (auto simp: irq_tracks_def irq_report_def irq_slot_ok_def)
  then have "n = 0" by (simp only: irq_report_zero)
  with assms True show ?thesis by (simp add: irq_tracks_def irq_report_def irq_dispatched_def)
next
  case False
  with assms have s: "iq_assertions s = of_nat (min n (2 ^ 32 - 1))" "iq_saturated s = (n > 2 ^ 32 - 1)"
    by (simp_all add: irq_tracks_def irq_report_def)
  have "iq_assertions s = assertion_ceiling \<longleftrightarrow> n \<ge> 2 ^ 32 - 1" using irq_report_ceiling s(1) by simp
  then have "irq_report (n + 1) = \<lparr>svc_assertions = (if iq_assertions s = assertion_ceiling
      then iq_assertions s else iq_assertions s + 1),
      svc_saturated = (iq_saturated s \<or> iq_assertions s = assertion_ceiling)\<rparr>"
    using s by (auto simp: irq_report_def min_def)
  with False assms(2) show ?thesis by (simp add: irq_tracks_def irq_dispatched_def)
qed

lemma irq_tracks_ended:
  assumes "irq_tracks s owner (is_in_service, n)"
  shows "irq_tracks (irq_ended s) owner (if n > 0 then is_pending else is_attached, n)"
proof -
  have "iq_assertions s = of_nat (min n (2 ^ 32 - 1))" using assms by (simp add: irq_tracks_def irq_report_def)
  then have "iq_assertions s = 0 \<longleftrightarrow> n = 0" by (simp only: irq_report_zero)
  then have "iq_assertions s > 0 \<longleftrightarrow> n > 0" by (simp add: word_gt_0)
  with assms show ?thesis by (simp add: irq_tracks_def irq_ended_def)
qed

lemma irq_told_simps [simp]:
  "irq_told c [] = []" "irq_told c ((e, v) # told) = (if e = c then v # irq_told c told else irq_told c told)"
  by (simp_all add: irq_told_def)

text \<open>A driver's call on a source: what it does to the slot of \<open>c\<close>, whichever source it names.\<close>

lemma irq_dispatch_at:
  assumes "irq_ok t" "irq_view t c = Some s"
  shows "irq_view (snd (irq_dispatch t e)) c = Some (if e = c then irq_dispatched s else s)"
  using irq_dispatch_view(3) [OF assms(1)] irq_dispatch_spurious(2) [OF assms(1), of e] assms(2)
  by (cases "irq_view t e") auto

lemma irq_begin_at:
  assumes "irq_ok t" "irq_view t c = Some s" "irq_begin_service t d e = (res, u)"
  shows "irq_view u c = Some (if e = c \<and> d = iq_owner s \<and> iq_state s = is_pending
      then s\<lparr>iq_state := is_in_service, iq_assertions := 0, iq_saturated := False\<rparr> else s)"
    and "e = c \<Longrightarrow> res = Inr v \<longleftrightarrow> d = iq_owner s \<and> iq_state s = is_pending \<and>
      v = \<lparr>svc_assertions = iq_assertions s, svc_saturated = iq_saturated s\<rparr>"
proof -
  note b = irq_begin_view [OF assms(1), of d e, unfolded assms(3), simplified]
  show r: "res = Inr v \<longleftrightarrow> d = iq_owner s \<and> iq_state s = is_pending \<and>
      v = \<lparr>svc_assertions = iq_assertions s, svc_saturated = iq_saturated s\<rparr>" if "e = c" for v
    using b(2) [of v] assms(2) that by auto
  show "irq_view u c = Some (if e = c \<and> d = iq_owner s \<and> iq_state s = is_pending
      then s\<lparr>iq_state := is_in_service, iq_assertions := 0, iq_saturated := False\<rparr> else s)"
  proof (cases res)
    case (Inl x)
    with r have "\<not> (e = c \<and> d = iq_owner s \<and> iq_state s = is_pending)" by auto
    with Inl b(4) assms(2) show ?thesis by auto
  next
    case (Inr v)
    then obtain s' where "irq_view t e = Some s'" using b(2) [of v] by auto
    with b(3) [OF Inr this] Inr r assms(2) show ?thesis by auto
  qed
qed

lemma irq_end_at:
  assumes "irq_ok t" "irq_view t c = Some s"
  shows "irq_view (snd (irq_end_service t d e)) c =
    Some (if e = c \<and> d = iq_owner s \<and> iq_state s = is_in_service then irq_ended s else s)"
proof (cases "fst (irq_end_service t d e)")
  case (Inl x)
  then have "\<not> (e = c \<and> d = iq_owner s \<and> iq_state s = is_in_service)"
    using irq_end_view(2) [OF assms(1), of d e "iq_assertions s > 0"] assms(2) by auto
  with irq_end_view(4) [OF assms(1) Inl] assms(2) show ?thesis by auto
next
  case (Inr v)
  then obtain s' where s': "irq_view t e = Some s'" "iq_owner s' = d" "iq_state s' = is_in_service"
    using irq_end_view(2) [OF assms(1), of d e v] by blast
  with irq_end_view(3) [OF assms(1) Inr s'(1)] assms(2) show ?thesis by auto
qed

lemma irq_events_ideal:
  assumes "irq_ok t" "irq_view t c = Some s" "irq_tracks s owner (st, n)"
  shows "\<exists>s'. irq_view (snd (irq_events t es)) c = Some s' \<and>
    irq_tracks s' owner (snd (irq_ideal owner c (st, n) es)) \<and>
    irq_told c (fst (irq_events t es)) = map irq_report (fst (irq_ideal owner c (st, n) es))"
  using assms
proof (induction es arbitrary: t s st n)
  case Nil
  then show ?case by simp
next
  case (Cons e es)
  have sl: "irq_slot_ok s" using Cons.prems by (simp add: irq_ok_def)
  have own: "iq_owner s = owner" "iq_state s = st" using Cons.prems(3) by (simp_all add: irq_tracks_def)
  show ?case
  proof (cases e)
    case (ev_assert x)
    note d = irq_dispatch_ok [OF Cons.prems(1), of x] irq_dispatch_at [OF Cons.prems(1,2), of x]
    show ?thesis
      using Cons.IH [OF d] Cons.prems(3) irq_tracks_dispatched [OF sl Cons.prems(3)] ev_assert
      by (cases "x = c") simp_all
  next
    case (ev_begin d x)
    obtain res u where ru: "irq_begin_service t d x = (res, u)" by fastforce
    note b = irq_begin_at [OF Cons.prems(1,2) ru]
    have ok: "irq_ok u" using irq_begin_view(1) [OF Cons.prems(1), of d x] ru by simp
    note ih = Cons.IH [OF ok b(1)]
    show ?thesis
    proof (cases "x = c \<and> d = owner \<and> st = is_pending")
      case True
      then have res: "res = Inr (irq_report n)"
        using b(2) own Cons.prems(3) by (simp add: irq_tracks_def)
      have "irq_tracks (s\<lparr>iq_state := is_in_service, iq_assertions := 0, iq_saturated := False\<rparr>)
          owner (is_in_service, 0)" using own by (simp add: irq_tracks_def irq_report_def)
      with ih [of is_in_service 0] True own res ru ev_begin show ?thesis by (auto simp: split_beta Let_def)
    next
      case False
      then have "x = c \<Longrightarrow> \<exists>err. res = Inl err" using b(2) own by (cases res) auto
      with ih [of st n] False own Cons.prems(3) ru ev_begin show ?thesis
        by (cases res) (auto simp: split_beta Let_def)
    qed
  next
    case (ev_end d x)
    note en = irq_end_view(1) [OF Cons.prems(1), of d x] irq_end_at [OF Cons.prems(1,2), of d x]
    show ?thesis
      using Cons.IH [OF en] Cons.prems(3) irq_tracks_ended [of s owner n] own ev_end
      by (cases "x = c \<and> d = owner \<and> st = is_in_service") auto
  qed
qed

lemma irq_ideal_account:
  "irq_ideal owner c (st, n) es = (batches, st', n') \<Longrightarrow>
     sum_list batches + n' = n + count_list es (ev_assert c)"
proof (induction es arbitrary: st n batches)
  case Nil
  then show ?case by simp
next
  case (Cons e es)
  show ?case
  proof (cases e)
    case (ev_assert x)
    then show ?thesis using Cons.prems Cons.IH [of st n batches] Cons.IH [of _ "n + 1" batches]
      by (cases "x = c") auto
  next
    case (ev_begin d x)
    then show ?thesis using Cons.prems Cons.IH [of st n batches] Cons.IH [of is_in_service 0]
      by (cases "irq_ideal owner c (is_in_service, 0) es") (auto simp: Let_def split: if_splits)
  next
    case (ev_end d x)
    then show ?thesis using Cons.prems Cons.IH [of _ n batches] by auto
  qed
qed

text \<open>C37: No assertion is lost and none is invented, in any number.  After a source is attached in any
  reachable state, whatever interleaving of hardware assertions and of drivers' begin and end calls on
  this and all other sources follows, the batches its owner is handed and what is still outstanding
  are those of a count without limit, of which no assertion is missing; a batch is reported exactly
  while it is at most 2^32 - 1, and beyond that as 2^32 - 1 with the saturation flag set: the count
  never wraps.  Owner and service state follow the ideal run too.\<close>

theorem irq_no_assertion_lost:
  assumes "irq_method\<^sup>*\<^sup>* irq_empty t" "irq_attach t d c = (Inr (), u)"
  shows "case irq_events u es of (told, w) \<Rightarrow>
    case irq_ideal d c (is_attached, 0) es of (batches, state, outstanding) \<Rightarrow>
      sum_list batches + outstanding = count_list es (ev_assert c) \<and>
      irq_told c told = map (\<lambda>n. \<lparr>svc_assertions = of_nat (min n (2 ^ 32 - 1)),
                                  svc_saturated = (n > 2 ^ 32 - 1)\<rparr>) batches \<and>
      (\<exists>s. irq_view w c = Some s \<and> iq_owner s = d \<and> iq_state s = state \<and>
        iq_assertions s = of_nat (min outstanding (2 ^ 32 - 1)) \<and>
        iq_saturated s = (outstanding > 2 ^ 32 - 1))"
proof -
  note at = irq_attach_view [OF irq_run_ok [OF assms(1)], of d c, unfolded assms(2), simplified]
  let ?s = "\<lparr>iq_source = c, iq_owner = d, iq_state = is_attached, iq_assertions = 0,
    iq_saturated = False, iq_occupied = True\<rparr>"
  have v: "irq_view u c = Some ?s" using at(2) by simp
  have "irq_tracks ?s d (is_attached, 0)" by (simp add: irq_tracks_def irq_report_def)
  note run = irq_events_ideal [OF at(1) v this, of es]
  obtain batches state outstanding where i: "irq_ideal d c (is_attached, 0) es = (batches, state, outstanding)"
    using prod_cases3 by blast
  show ?thesis
    using run irq_ideal_account [OF i] unfolding i irq_tracks_def irq_report_def
    by (auto simp: split_beta)
qed

text \<open>One wakeup per burst.  In every reachable state an assertion wakes the owner exactly when the
  source was unmasked, and masks it; while it is masked assertions only count.  Nothing but the
  owner's own end of service with nothing outstanding unmasks an attached source again.\<close>

theorem irq_masked_until_quiet:
  assumes "irq_method\<^sup>*\<^sup>* irq_empty t" "irq_is_masked t c = Inr m"
  shows "(\<exists>o'. fst (irq_dispatch t c) = Inr \<lparr>dsp_owner = o', dsp_wake = (\<not> m), dsp_coalesced = m\<rparr> \<and>
      irq_owner_of t c = Inr o') \<and>
    irq_is_masked (snd (irq_dispatch t c)) c = Inr True \<and>
    (\<forall>u. irq_method t u \<longrightarrow> m \<longrightarrow> irq_is_masked u c = Inr False \<longrightarrow>
       (\<exists>d. u = snd (irq_end_service t d c) \<and> irq_owner_of t c = Inr d \<and>
            fst (irq_end_service t d c) = Inr False))"
proof -
  note ok = irq_run_ok [OF assms(1)]
  have masked: "irq_is_masked u e = Inr b \<longleftrightarrow> (\<exists>s. irq_view u e = Some s \<and> b = (iq_state s \<noteq> is_attached))"
    for u e b
    using irq_find_None [of u e] by (cases "irq_find u e") (auto simp: irq_is_masked_def irq_find_view)
  have owner: "irq_view u e = Some s \<Longrightarrow> irq_owner_of u e = Inr (iq_owner s)" for u e s
    by (auto simp: irq_owner_of_def dest: irq_view_find)
  obtain s where s: "irq_view t c = Some s" "m = (iq_state s \<noteq> is_attached)" using assms(2) masked by blast
  note d = irq_dispatch_view [OF ok s(1)]
  have one: "fst (irq_dispatch t c) = Inr \<lparr>dsp_owner = iq_owner s, dsp_wake = (\<not> m), dsp_coalesced = m\<rparr>"
    unfolding s(2) using d(1) by (metis fst_conv)
  have two: "irq_is_masked (snd (irq_dispatch t c)) c = Inr True"
    using d(3) by (simp add: masked irq_dispatched_def)
  have three: "\<exists>d. u = snd (irq_end_service t d c) \<and> irq_owner_of t c = Inr d \<and>
      fst (irq_end_service t d c) = Inr False"
    if u: "irq_method t u" "m" "irq_is_masked u c = Inr False" for u
  proof -
    obtain w where w: "irq_view u c = Some w" "iq_state w = is_attached" using u(3) masked by auto
    have st: "iq_state s \<noteq> is_attached" using u(2) s(2) by simp
    from u(1) show ?thesis
    proof cases
      case (attach d e)
      with irq_attach_view [OF ok, of d e] s(1) w st show ?thesis
        by (cases "fst (irq_attach t d e) = Inr ()") (auto split: if_splits)
    next
      case (detach d e)
      with irq_detach_view(3) [OF ok, of d e] s(1) w st show ?thesis by (auto split: if_splits)
    next
      case (dispatch e)
      show ?thesis
      proof (cases "irq_view t e")
        case None
        with irq_dispatch_spurious [OF ok None] dispatch s(1) w st show ?thesis by simp
      next
        case (Some x)
        with irq_dispatch_view(3) [OF ok Some] dispatch s(1) w st show ?thesis
          by (auto simp: irq_dispatched_def split: if_splits)
      qed
    next
      case (begin_service d e)
      show ?thesis
      proof (cases "fst (irq_begin_service t d e)")
        case (Inl x)
        with irq_begin_view(4) [OF ok Inl] begin_service s(1) w st show ?thesis by simp
      next
        case (Inr v)
        then obtain x where x: "irq_view t e = Some x" using irq_begin_view(2) [OF ok] by blast
        from irq_begin_view(3) [OF ok Inr x] begin_service s(1) w st show ?thesis
          by (auto split: if_splits)
      qed
    next
      case (end_service d e)
      show ?thesis
      proof (cases "fst (irq_end_service t d e)")
        case (Inl x)
        with irq_end_view(4) [OF ok Inl] end_service s(1) w st show ?thesis by simp
      next
        case (Inr v)
        then obtain x where x: "irq_view t e = Some x" "iq_owner x = d" "v = (iq_assertions x > 0)"
          using irq_end_view(2) [OF ok] by blast
        have e: "e = c"
          using irq_end_view(3) [OF ok Inr x(1)] end_service s(1) w st by (auto split: if_splits)
        with irq_end_view(3) [OF ok Inr x(1)] end_service w have "\<not> iq_assertions x > 0"
          by (auto simp: irq_ended_def split: if_splits)
        with x Inr e end_service owner [OF x(1)] show ?thesis by auto
      qed
    next
      case (detach_all d)
      with irq_detach_all_view(2) [OF ok, of d c] s(1) w st show ?thesis by (auto split: if_splits)
    qed
  qed
  from one two three owner [OF s(1)] show ?thesis by blast
qed

text \<open>Only the owner moves a source.  In every reachable state, attaching to an owned source,
  and detaching, beginning or ending service by any thread but its owner, is refused and changes
  nothing.\<close>

theorem irq_single_owner:
  assumes "irq_method\<^sup>*\<^sup>* irq_empty t" "irq_owner_of t c = Inr o'" "d \<noteq> o'"
  shows "(\<exists>e. irq_attach t d c = (Inl e, t)) \<and> (\<exists>e. irq_detach t d c = (Inl e, t)) \<and>
    (\<exists>e. irq_begin_service t d c = (Inl e, t)) \<and> (\<exists>e. irq_end_service t d c = (Inl e, t))"
proof -
  obtain i where i: "irq_find t c = Some i" "iq_owner (irq_slots t ! i) = o'"
    using assms(2) by (auto simp: irq_owner_of_def split: option.splits)
  then show ?thesis using assms(3)
    by (auto simp: irq_attach_def irq_detach_def irq_begin_service_def irq_end_service_def Let_def)
qed

section \<open>The delivery table is a mailbox\<close>

interpretation idt: slot_table id_occupied id_driver invalid_thread idl_blank
  by unfold_locales (simp add: idl_blank_def)

definition idl_ok :: "InterruptDeliveryTable \<Rightarrow> bool" where
  "idl_ok t \<longleftrightarrow> slot_ok id_occupied id_driver invalid_thread max_threads (idl_slots t)
     (of_nat (length (filter id_occupied (idl_slots t))))"

definition idl_view :: "InterruptDeliveryTable \<Rightarrow> ThreadId \<Rightarrow> Service option" where
  "idl_view t d = map_option id_service (slot_view id_occupied id_driver invalid_thread (idl_slots t) d)"

lemma idl_ok_empty: "idl_ok idl_empty"
  using idt.ok_blank [of max_threads] by (simp add: idl_ok_def idl_empty_def slot_ok_def)

lemma idl_find_view: "idl_find t d = None \<longleftrightarrow> idl_view t d = None"
  "idl_find t d = Some i \<Longrightarrow> idl_view t d = Some (id_service (idl_slots t ! i))"
  by (simp_all add: idl_find_def idl_view_def idt.find_view_None idt.find_view_Some)

lemma idl_arm_cases:
  assumes "idl_ok t"
  obtains (refused) e where "idl_arm t d c v = (Inl e, t)"
    | (armed) u where "idl_arm t d c v = (Inr (), u)" "idl_ok u" "idl_view t d = None"
      "idl_view u = (idl_view t)(d \<mapsto> v)"
proof (cases "d = 0 \<or> c = 0 \<or> idl_find t d \<noteq> None \<or>
    first_index (\<lambda>s. \<not> id_occupied s) (idl_slots t) = None")
  case True
  then have "\<exists>e. idl_arm t d c v = (Inl e, t)" by (auto simp: idl_arm_def)
  with refused show ?thesis by blast
next
  case False
  then obtain i where i: "first_index (\<lambda>s. \<not> id_occupied s) (idl_slots t) = Some i" by auto
  let ?s = "(idl_slots t ! i)\<lparr>id_occupied := True, id_driver := d, id_source := c, id_service := v\<rparr>"
  let ?u = "t\<lparr>idl_slots := (idl_slots t)[i := ?s]\<rparr>"
  have free: "slot_view id_occupied id_driver 0 (idl_slots t) d = None"
    using False idl_find_view(1) [of t d] by (simp add: idl_view_def)
  note ins = idt.insert_ok [OF assms [unfolded idl_ok_def] i, of ?s]
  have v: "idl_view ?u = (idl_view t)(d \<mapsto> v)"
    using ins(2) free False by (simp add: idl_view_def fun_eq_iff)
  have "idl_ok ?u" using ins(1) free False by (simp add: idl_ok_def slot_ok_def)
  moreover have "idl_view t d = None" using free by (simp add: idl_view_def)
  moreover have "idl_arm t d c v = (Inr (), ?u)" using False i by (simp add: idl_arm_def)
  ultimately show ?thesis using armed v by blast
qed

lemma idl_take_cases:
  assumes "idl_ok t"
  shows "idl_ok (snd (idl_take t d))"
    and "idl_view t d = Some v \<Longrightarrow> fst (idl_take t d) = Inr v \<and>
      idl_view (snd (idl_take t d)) = (idl_view t)(d := None)"
    and "idl_view t d = None \<Longrightarrow> idl_take t d = (Inl idl_not_armed, t)"
proof -
  show "idl_view t d = None \<Longrightarrow> idl_take t d = (Inl idl_not_armed, t)"
    using idl_find_view(1) [of t d] by (simp add: idl_take_def)
  have "idl_ok (snd (idl_take t d)) \<and> (idl_view t d = Some v \<longrightarrow> fst (idl_take t d) = Inr v \<and>
      idl_view (snd (idl_take t d)) = (idl_view t)(d := None))"
  proof (cases "idl_find t d")
    case None
    with assms idl_find_view(1) [of t d] show ?thesis by (simp add: idl_take_def)
  next
    case (Some i)
    note rm = idt.remove_ok [OF assms [unfolded idl_ok_def] Some [unfolded idl_find_def], of idl_blank]
    have "\<not> id_occupied idl_blank" by (simp add: idl_blank_def)
    with rm Some idl_find_view(2) [OF Some] show ?thesis
      by (auto simp: idl_take_def idl_ok_def idl_view_def slot_ok_def fun_eq_iff)
  qed
  then show "idl_ok (snd (idl_take t d))"
    and "idl_view t d = Some v \<Longrightarrow> fst (idl_take t d) = Inr v \<and>
      idl_view (snd (idl_take t d)) = (idl_view t)(d := None)" by blast+
qed

lemma idl_release_take: "idl_release t d = (idl_armed t d, snd (idl_take t d))"
  by (simp add: idl_release_def idl_take_def idl_armed_def split: option.split)

interpretation idm: mailbox idl_ok idl_view "\<lambda>t d v. idl_arm t d c v" idl_take for c
proof
  fix t d v e
  assume ok: "idl_ok t"
  show "idl_ok (snd (idl_arm t d c v))"
    using ok by (cases rule: idl_arm_cases [OF ok, of d c v]) simp_all
  show "fst (idl_arm t d c v) = Inr () \<Longrightarrow>
      idl_view t d = None \<and> idl_view (snd (idl_arm t d c v)) = (idl_view t)(d \<mapsto> v)"
    by (cases rule: idl_arm_cases [OF ok, of d c v]) simp_all
  show "fst (idl_arm t d c v) = Inl e \<Longrightarrow> snd (idl_arm t d c v) = t"
    by (cases rule: idl_arm_cases [OF ok, of d c v]) simp_all
  show "idl_ok (snd (idl_take t d))" by (rule idl_take_cases(1) [OF ok])
  show "idl_view t d = Some v \<Longrightarrow> fst (idl_take t d) = Inr v \<and>
      idl_view (snd (idl_take t d)) = (idl_view t)(d := None)" by (rule idl_take_cases(2) [OF ok])
  show "idl_view t d = None \<Longrightarrow> \<exists>e. idl_take t d = (Inl e, t)"
    using idl_take_cases(3) [OF ok] by blast
qed

text \<open>What the first-level handler learnt reaches the driver once.  In a well-formed delivery table,
  a count that was armed for a driver is what its next collection returns, the collection leaves
  the other drivers' deliveries as they were, and a second collection is refused; while one
  is uncollected no other can overwrite it.\<close>

theorem idl_delivers_once:
  assumes "idl_ok t" "fst (idl_arm t d c v) = Inr ()"
  shows "fst (idl_take (snd (idl_arm t d c v)) d) = Inr v \<and>
    idl_view (snd (idl_take (snd (idl_arm t d c v)) d)) = idl_view t \<and>
    (\<exists>e. idl_take (snd (idl_take (snd (idl_arm t d c v)) d)) d =
       (Inl e, snd (idl_take (snd (idl_arm t d c v)) d))) \<and>
    (\<forall>c' v'. \<exists>e. idl_arm (snd (idl_arm t d c v)) d c' v' = (Inl e, snd (idl_arm t d c v)))"
proof (intro conjI allI)
  note ok = idm.arm_inv [OF assms(1), of d c v]
  show "fst (idl_take (snd (idl_arm t d c v)) d) = Inr v"
    "idl_view (snd (idl_take (snd (idl_arm t d c v)) d)) = idl_view t"
    using idm.arm_take [OF assms] by simp_all
  then show "\<exists>e. idl_take (snd (idl_take (snd (idl_arm t d c v)) d)) d =
       (Inl e, snd (idl_take (snd (idl_arm t d c v)) d))"
    using idm.take_once [OF ok] by blast
  fix c' v'
  have "idl_view (snd (idl_arm t d c v)) d \<noteq> None" using idm.arm_ok [OF assms] by simp
  then show "\<exists>e. idl_arm (snd (idl_arm t d c v)) d c' v' = (Inl e, snd (idl_arm t d c v))"
    by (rule idm.arm_busy [OF ok])
qed

section \<open>Concrete runs\<close>

definition irq_example :: InterruptTable where
  "irq_example = snd (irq_dispatch (snd (irq_attach irq_empty 3 7)) 7)"

definition irq_example_slot :: IrqSlot where
  "irq_example_slot = \<lparr>iq_source = 7, iq_owner = 3, iq_state = is_pending, iq_assertions = 1,
     iq_saturated = False, iq_occupied = True\<rparr>"

lemma irq_example_reachable: "irq_method\<^sup>*\<^sup>* irq_empty irq_example"
  unfolding irq_example_def
  by (rule rtranclp.rtrancl_into_rtrancl [OF r_into_rtranclp]) (rule irq_method.intros)+

lemma irq_example_view: "irq_view irq_example 7 = Some irq_example_slot" by code_simp

lemma irq_ideal_burst:
  "irq_ideal owner c (is_pending, n) (replicate k (ev_assert c) @ es) =
     irq_ideal owner c (is_pending, n + k) es"
  by (induction k arbitrary: n) simp_all

text \<open>Two assertions collected and one left over; and a burst of 2^32 that is reported saturated.\<close>

theorem irq_no_assertion_lost_witness:
  "\<exists>u. irq_attach irq_empty 3 7 = (Inr (), u) \<and>
     irq_told 7 (fst (irq_events u [ev_assert 7, ev_assert 9, ev_assert 7, ev_begin 4 7, ev_begin 3 7,
       ev_assert 7, ev_end 3 7])) = [\<lparr>svc_assertions = 2, svc_saturated = False\<rparr>] \<and>
     (\<exists>s. irq_view (snd (irq_events u [ev_assert 7, ev_assert 9, ev_assert 7, ev_begin 4 7, ev_begin 3 7,
       ev_assert 7, ev_end 3 7])) 7 = Some s \<and> iq_state s = is_pending \<and> iq_assertions s = 1) \<and>
     irq_told 7 (fst (irq_events u (ev_assert 7 # replicate (2 ^ 32 - 1) (ev_assert 7) @ [ev_begin 3 7]))) =
       [\<lparr>svc_assertions = 0xFFFFFFFF, svc_saturated = True\<rparr>]"
proof -
  define u where "u = snd (irq_attach irq_empty 3 7)"
  have "fst (irq_attach irq_empty 3 7) = Inr ()" by code_simp
  then have at: "irq_attach irq_empty 3 7 = (Inr (), u)" by (simp add: prod_eq_iff u_def)
  note law = irq_no_assertion_lost [OF rtranclp.rtrancl_refl at]
  let ?es = "[ev_assert 7, ev_assert 9, ev_assert 7, ev_begin 4 7, ev_begin 3 7, ev_assert 7, ev_end 3 7]"
  let ?burst = "ev_assert 7 # replicate (2 ^ 32 - 1) (ev_assert 7) @ [ev_begin 3 7]"
  have i1: "irq_ideal 3 7 (is_attached, 0) ?es = ([2], is_pending, 1)" by simp
  have i2: "irq_ideal 3 7 (is_attached, 0) ?burst = ([1 + (2 ^ 32 - 1)], is_in_service, 0)"
    using irq_ideal_burst [of 3 7 1 "2 ^ 32 - 1" "[ev_begin 3 7]"]
    by (simp only: irq_ideal.simps) simp
  from at law [of ?es] law [of ?burst] show ?thesis unfolding i1 i2 by (auto simp: split_beta)
qed

theorem irq_masked_until_quiet_witness:
  "irq_is_masked irq_example 7 = Inr True \<and>
   (\<exists>o'. fst (irq_dispatch irq_example 7) = Inr \<lparr>dsp_owner = o', dsp_wake = False, dsp_coalesced = True\<rparr>)"
proof -
  have m: "irq_is_masked irq_example 7 = Inr True" by code_simp
  from m irq_masked_until_quiet [OF irq_example_reachable m] show ?thesis by auto
qed

theorem irq_single_owner_witness:
  "irq_owner_of irq_example 7 = Inr 3 \<and> (\<exists>e. irq_begin_service irq_example 4 7 = (Inl e, irq_example))"
proof -
  have o: "irq_owner_of irq_example 7 = Inr 3" by code_simp
  from o irq_single_owner [OF irq_example_reachable o, of 4] show ?thesis by simp
qed

theorem idl_delivers_once_witness:
  "fst (idl_take (snd (idl_arm idl_empty 3 7 \<lparr>svc_assertions = 2, svc_saturated = False\<rparr>)) 3) =
     Inr \<lparr>svc_assertions = 2, svc_saturated = False\<rparr>"
proof -
  have "fst (idl_arm idl_empty 3 7 \<lparr>svc_assertions = 2, svc_saturated = False\<rparr>) = Inr ()" by code_simp
  from idl_delivers_once [OF idl_ok_empty this] show ?thesis by blast
qed

end
