(* ===== verification/Ipc_Continuation.thy ===== *)
theory Ipc_Continuation
  imports Capability
begin

text \<open>
  The continuations of blocked send and receive system calls: ipc_continuation.hpp/.cpp of
  src/core/oskernel.  One definition per method of \<open>class IpcContinuationTable\<close>, prefixed \<open>ct_\<close>.
  The table reads the epoch authority and never changes it, so it is an argument.  The lemmas show
  the two slot arrays and their common counter, that a continuation is taken once and only by the
  incarnation that armed it, and that the deadline scan and the expiry are independent of where a
  waiter sits in the table.
\<close>

section \<open>Data\<close>

abbreviation "ct_invalid_thread \<equiv> kernel_error 250"
abbreviation "ct_invalid_epoch \<equiv> kernel_error 251"
abbreviation "ct_invalid_exchange \<equiv> kernel_error 252"
abbreviation "ct_already_armed \<equiv> kernel_error 253"
abbreviation "ct_exhausted \<equiv> kernel_error 254"
abbreviation "ct_not_armed \<equiv> kernel_error 255"
abbreviation "ct_stale \<equiv> kernel_error 256"
abbreviation "ct_invalid_capability \<equiv> kernel_error 257"

record IpcSendContinuation =
  sc_caller :: ThreadId
  sc_epoch :: AddressSpaceEpoch
  sc_exchange :: u64

definition send_continuation_valid :: "IpcSendContinuation \<Rightarrow> bool" where
  "send_continuation_valid c \<longleftrightarrow>
     sc_caller c \<noteq> invalid_thread \<and> epoch_valid (sc_epoch c) \<and> sc_exchange c \<noteq> 0"

record IpcReceiveContinuation =
  rc_server :: ThreadId
  rc_epoch :: AddressSpaceEpoch
  rc_capability :: CapabilityId
  rc_exchange :: u64
  rc_deadline :: u64

definition receive_continuation_valid :: "IpcReceiveContinuation \<Rightarrow> bool" where
  "receive_continuation_valid c \<longleftrightarrow> rc_server c \<noteq> invalid_thread \<and> epoch_valid (rc_epoch c) \<and>
     rc_capability c \<noteq> invalid_capability \<and> rc_exchange c \<noteq> 0"

definition rc_bounded :: "IpcReceiveContinuation \<Rightarrow> bool" where
  "rc_bounded c \<longleftrightarrow> rc_deadline c \<noteq> 0"

definition rc_expired_at :: "IpcReceiveContinuation \<Rightarrow> u64 \<Rightarrow> bool" where
  "rc_expired_at c now \<longleftrightarrow> rc_bounded c \<and> now \<ge> rc_deadline c"

definition no_epoch :: AddressSpaceEpoch where
  "no_epoch = \<lparr>ae_slot = 0, ae_generation = 0, ae_asid = kernel_reserved_asid\<rparr>"

record SendSlot =
  sn_occupied :: bool
  sn_continuation :: IpcSendContinuation

record ReceiveSlot =
  rv_occupied :: bool
  rv_continuation :: IpcReceiveContinuation

record IpcContinuationTable =
  ct_sends :: "SendSlot list"
  ct_receives :: "ReceiveSlot list"
  ct_occupied :: size_t

definition send_slot_blank :: SendSlot where
  "send_slot_blank = \<lparr>sn_occupied = False, sn_continuation =
     \<lparr>sc_caller = invalid_thread, sc_epoch = no_epoch, sc_exchange = 0\<rparr>\<rparr>"

definition receive_slot_blank :: ReceiveSlot where
  "receive_slot_blank = \<lparr>rv_occupied = False, rv_continuation =
     \<lparr>rc_server = invalid_thread, rc_epoch = no_epoch, rc_capability = invalid_capability,
      rc_exchange = 0, rc_deadline = 0\<rparr>\<rparr>"

definition ct_empty :: IpcContinuationTable where
  "ct_empty = \<lparr>ct_sends = replicate max_threads send_slot_blank,
     ct_receives = replicate max_threads receive_slot_blank, ct_occupied = 0\<rparr>"

section \<open>Operations\<close>

abbreviation sn_key :: "SendSlot \<Rightarrow> ThreadId" where "sn_key s \<equiv> sc_caller (sn_continuation s)"
abbreviation rv_key :: "ReceiveSlot \<Rightarrow> ThreadId" where "rv_key s \<equiv> rc_server (rv_continuation s)"

definition ct_send_slot_for :: "IpcContinuationTable \<Rightarrow> ThreadId \<Rightarrow> nat option" where
  "ct_send_slot_for t caller = slot_find sn_occupied sn_key invalid_thread (ct_sends t) caller"

definition ct_receive_slot_for :: "IpcContinuationTable \<Rightarrow> ThreadId \<Rightarrow> nat option" where
  "ct_receive_slot_for t server = slot_find rv_occupied rv_key invalid_thread (ct_receives t) server"

definition ct_arm ::
  "IpcContinuationTable \<Rightarrow> ThreadId \<Rightarrow> AddressSpaceEpoch \<Rightarrow> u64 \<Rightarrow> AddressSpaceEpochAuthority \<Rightarrow>
   unit result \<times> IpcContinuationTable" where
  "ct_arm t caller epoch exchange epochs =
     (if caller = invalid_thread then (Inl ct_invalid_thread, t)
      else if \<not> epoch_valid epoch \<or> \<not> ep_active epochs epoch then (Inl ct_invalid_epoch, t)
      else if exchange = 0 then (Inl ct_invalid_exchange, t)
      else if ct_send_slot_for t caller \<noteq> None then (Inl ct_already_armed, t)
      else case first_index (\<lambda>s. \<not> sn_occupied s) (ct_sends t) of
          None \<Rightarrow> (Inl ct_exhausted, t)
        | Some i \<Rightarrow>
            (Inr (), t\<lparr>ct_sends := (ct_sends t)[i := \<lparr>sn_occupied = True, sn_continuation =
                         \<lparr>sc_caller = caller, sc_epoch = epoch, sc_exchange = exchange\<rparr>\<rparr>],
                       ct_occupied := ct_occupied t + 1\<rparr>))"

definition ct_take ::
  "IpcContinuationTable \<Rightarrow> ThreadId \<Rightarrow> AddressSpaceEpoch \<Rightarrow> AddressSpaceEpochAuthority \<Rightarrow>
   IpcSendContinuation result \<times> IpcContinuationTable" where
  "ct_take t caller expected epochs =
     (case ct_send_slot_for t caller of
        None \<Rightarrow> (Inl ct_not_armed, t)
      | Some i \<Rightarrow>
          let continuation = sn_continuation (ct_sends t ! i);
              t' = t\<lparr>ct_sends := (ct_sends t)[i := send_slot_blank], ct_occupied := ct_occupied t - 1\<rparr>
          in if \<not> epoch_valid expected \<or> \<not> ep_active epochs expected \<or> sc_epoch continuation \<noteq> expected
             then (Inl ct_stale, t') else (Inr continuation, t'))"

definition ct_cancel :: "IpcContinuationTable \<Rightarrow> ThreadId \<Rightarrow> unit result \<times> IpcContinuationTable" where
  "ct_cancel t caller =
     (case ct_send_slot_for t caller of
        None \<Rightarrow> (Inl ct_not_armed, t)
      | Some i \<Rightarrow>
          (Inr (), t\<lparr>ct_sends := (ct_sends t)[i := send_slot_blank], ct_occupied := ct_occupied t - 1\<rparr>))"

definition ct_arm_receive ::
  "IpcContinuationTable \<Rightarrow> ThreadId \<Rightarrow> AddressSpaceEpoch \<Rightarrow> CapabilityId \<Rightarrow> u64 \<Rightarrow>
   AddressSpaceEpochAuthority \<Rightarrow> u64 \<Rightarrow> unit result \<times> IpcContinuationTable" where
  "ct_arm_receive t server epoch capability exchange epochs deadline =
     (if server = invalid_thread then (Inl ct_invalid_thread, t)
      else if \<not> epoch_valid epoch \<or> \<not> ep_active epochs epoch then (Inl ct_invalid_epoch, t)
      else if capability = invalid_capability then (Inl ct_invalid_capability, t)
      else if exchange = 0 then (Inl ct_invalid_exchange, t)
      else if ct_receive_slot_for t server \<noteq> None then (Inl ct_already_armed, t)
      else case first_index (\<lambda>s. \<not> rv_occupied s) (ct_receives t) of
          None \<Rightarrow> (Inl ct_exhausted, t)
        | Some i \<Rightarrow>
            (Inr (), t\<lparr>ct_receives := (ct_receives t)[i := \<lparr>rv_occupied = True, rv_continuation =
                         \<lparr>rc_server = server, rc_epoch = epoch, rc_capability = capability,
                          rc_exchange = exchange, rc_deadline = deadline\<rparr>\<rparr>],
                       ct_occupied := ct_occupied t + 1\<rparr>))"

definition ct_take_receive ::
  "IpcContinuationTable \<Rightarrow> ThreadId \<Rightarrow> AddressSpaceEpoch \<Rightarrow> AddressSpaceEpochAuthority \<Rightarrow>
   IpcReceiveContinuation result \<times> IpcContinuationTable" where
  "ct_take_receive t server expected epochs =
     (case ct_receive_slot_for t server of
        None \<Rightarrow> (Inl ct_not_armed, t)
      | Some i \<Rightarrow>
          let continuation = rv_continuation (ct_receives t ! i);
              t' = t\<lparr>ct_receives := (ct_receives t)[i := receive_slot_blank],
                     ct_occupied := ct_occupied t - 1\<rparr>
          in if \<not> epoch_valid expected \<or> \<not> ep_active epochs expected \<or> rc_epoch continuation \<noteq> expected
             then (Inl ct_stale, t') else (Inr continuation, t'))"

text \<open>The two scans over the receive slots, one list step per iteration of the source's loop.\<close>

fun ct_earliest :: "ReceiveSlot list \<Rightarrow> u64 \<Rightarrow> u64" where
  "ct_earliest [] earliest = earliest"
| "ct_earliest (s # ss) earliest =
     (if \<not> rv_occupied s \<or> \<not> rc_bounded (rv_continuation s) then ct_earliest ss earliest
      else if earliest = 0 \<or> rc_deadline (rv_continuation s) < earliest
      then ct_earliest ss (rc_deadline (rv_continuation s))
      else ct_earliest ss earliest)"

definition ct_earliest_receive_deadline :: "IpcContinuationTable \<Rightarrow> u64" where
  "ct_earliest_receive_deadline t = ct_earliest (ct_receives t) 0"

text \<open>\<open>chosen\<close> is the pointer of the source: the index and what it points to.\<close>

fun ct_pick_expired ::
  "u64 \<Rightarrow> nat \<Rightarrow> ReceiveSlot list \<Rightarrow> (nat \<times> IpcReceiveContinuation) option \<Rightarrow>
   (nat \<times> IpcReceiveContinuation) option" where
  "ct_pick_expired now i [] chosen = chosen"
| "ct_pick_expired now i (s # ss) chosen =
     (if \<not> rv_occupied s \<or> \<not> rc_expired_at (rv_continuation s) now
      then ct_pick_expired now (Suc i) ss chosen
      else case chosen of
          None \<Rightarrow> ct_pick_expired now (Suc i) ss (Some (i, rv_continuation s))
        | Some (j, c) \<Rightarrow>
            if rc_server (rv_continuation s) < rc_server c
            then ct_pick_expired now (Suc i) ss (Some (i, rv_continuation s))
            else ct_pick_expired now (Suc i) ss chosen)"

definition ct_take_expired_receive ::
  "IpcContinuationTable \<Rightarrow> u64 \<Rightarrow> IpcReceiveContinuation result \<times> IpcContinuationTable" where
  "ct_take_expired_receive t now =
     (case ct_pick_expired now 0 (ct_receives t) None of
        None \<Rightarrow> (Inl ct_not_armed, t)
      | Some (i, continuation) \<Rightarrow>
          (Inr continuation, t\<lparr>ct_receives := (ct_receives t)[i := receive_slot_blank],
                               ct_occupied := ct_occupied t - 1\<rparr>))"

definition ct_cancel_receive ::
  "IpcContinuationTable \<Rightarrow> ThreadId \<Rightarrow> unit result \<times> IpcContinuationTable" where
  "ct_cancel_receive t server =
     (case ct_receive_slot_for t server of
        None \<Rightarrow> (Inl ct_not_armed, t)
      | Some i \<Rightarrow>
          (Inr (), t\<lparr>ct_receives := (ct_receives t)[i := receive_slot_blank],
                     ct_occupied := ct_occupied t - 1\<rparr>))"

definition ct_release_thread :: "IpcContinuationTable \<Rightarrow> ThreadId \<Rightarrow> IpcContinuationTable" where
  "ct_release_thread t thread =
     (let t1 = (case ct_send_slot_for t thread of
                  None \<Rightarrow> t
                | Some i \<Rightarrow> t\<lparr>ct_sends := (ct_sends t)[i := send_slot_blank],
                             ct_occupied := ct_occupied t - 1\<rparr>)
      in case ct_receive_slot_for t1 thread of
           None \<Rightarrow> t1
         | Some i \<Rightarrow> t1\<lparr>ct_receives := (ct_receives t1)[i := receive_slot_blank],
                       ct_occupied := ct_occupied t1 - 1\<rparr>)"

definition ct_send_armed :: "IpcContinuationTable \<Rightarrow> ThreadId \<Rightarrow> bool" where
  "ct_send_armed t caller \<longleftrightarrow> caller \<noteq> invalid_thread \<and>
     list_ex (\<lambda>s. sn_occupied s \<and> sn_key s = caller) (ct_sends t)"

definition ct_receive_armed :: "IpcContinuationTable \<Rightarrow> ThreadId \<Rightarrow> bool" where
  "ct_receive_armed t server \<longleftrightarrow> server \<noteq> invalid_thread \<and>
     list_ex (\<lambda>s. rv_occupied s \<and> rv_key s = server) (ct_receives t)"

definition ct_count :: "IpcContinuationTable \<Rightarrow> size_t" where
  "ct_count t = ct_occupied t"

section \<open>The table as two maps\<close>

interpretation sst: slot_table sn_occupied sn_key invalid_thread send_slot_blank
  by unfold_locales (simp add: send_slot_blank_def)

interpretation rvt: slot_table rv_occupied rv_key invalid_thread receive_slot_blank
  by unfold_locales (simp add: receive_slot_blank_def)

definition ct_send_view :: "IpcContinuationTable \<Rightarrow> ThreadId \<Rightarrow> IpcSendContinuation option" where
  "ct_send_view t k = map_option sn_continuation (slot_view sn_occupied sn_key invalid_thread (ct_sends t) k)"

definition ct_receive_view :: "IpcContinuationTable \<Rightarrow> ThreadId \<Rightarrow> IpcReceiveContinuation option" where
  "ct_receive_view t k =
     map_option rv_continuation (slot_view rv_occupied rv_key invalid_thread (ct_receives t) k)"

definition ct_ok :: "IpcContinuationTable \<Rightarrow> bool" where
  "ct_ok t \<longleftrightarrow> (\<exists>m n. slot_ok sn_occupied sn_key invalid_thread max_threads (ct_sends t) m \<and>
     slot_ok rv_occupied rv_key invalid_thread max_threads (ct_receives t) n \<and> ct_occupied t = m + n)"

lemma ct_ok_empty: "ct_ok ct_empty"
  using sst.ok_blank [of max_threads] rvt.ok_blank [of max_threads]
  by (auto simp: ct_ok_def ct_empty_def)

lemma ct_send_find:
  "ct_send_slot_for t k = None \<longleftrightarrow> ct_send_view t k = None"
  "ct_send_slot_for t k = Some i \<Longrightarrow> ct_send_view t k = Some (sn_continuation (ct_sends t ! i))"
  by (simp_all add: ct_send_slot_for_def ct_send_view_def sst.find_view_None sst.find_view_Some)

lemma ct_receive_find:
  "ct_receive_slot_for t k = None \<longleftrightarrow> ct_receive_view t k = None"
  "ct_receive_slot_for t k = Some i \<Longrightarrow> ct_receive_view t k = Some (rv_continuation (ct_receives t ! i))"
  by (simp_all add: ct_receive_slot_for_def ct_receive_view_def rvt.find_view_None rvt.find_view_Some)

lemma ct_armed_view:
  "ct_send_armed t k \<longleftrightarrow> ct_send_view t k \<noteq> None"
  "ct_receive_armed t k \<longleftrightarrow> ct_receive_view t k \<noteq> None"
  unfolding ct_send_find(1) [symmetric] ct_receive_find(1) [symmetric]
  by (simp_all add: ct_send_armed_def ct_receive_armed_def list_ex_iff ct_send_slot_for_def
      ct_receive_slot_for_def slot_find_def first_index_None del: not_None_eq)

text \<open>Placing and clearing one slot of either array.\<close>

lemma ct_place_send:
  assumes "ct_ok t" "first_index (\<lambda>s. \<not> sn_occupied s) (ct_sends t) = Some i"
    and "ct_send_view t (sc_caller c) = None" "sc_caller c \<noteq> invalid_thread"
    and "u = t\<lparr>ct_sends := (ct_sends t)[i := \<lparr>sn_occupied = True, sn_continuation = c\<rparr>],
               ct_occupied := ct_occupied t + 1\<rparr>"
  shows "ct_ok u" "ct_send_view u = (ct_send_view t)(sc_caller c \<mapsto> c)"
    "ct_receive_view u = ct_receive_view t"
proof -
  obtain m n where mn: "slot_ok sn_occupied sn_key 0 max_threads (ct_sends t) m"
    "slot_ok rv_occupied rv_key 0 max_threads (ct_receives t) n" "ct_occupied t = m + n"
    using assms(1) by (auto simp: ct_ok_def)
  note ins = sst.insert_ok [OF mn(1) assms(2), of "\<lparr>sn_occupied = True, sn_continuation = c\<rparr>"]
  have free: "slot_view sn_occupied sn_key 0 (ct_sends t) (sc_caller c) = None"
    using assms(3) by (simp add: ct_send_view_def)
  have "ct_occupied u = (m + 1) + n" using mn(3) assms(5) by simp
  moreover have "slot_ok sn_occupied sn_key 0 max_threads (ct_sends u) (m + 1)"
    using ins(1) free assms(4,5) by simp
  moreover have "slot_ok rv_occupied rv_key 0 max_threads (ct_receives u) n" using mn(2) assms(5) by simp
  ultimately show "ct_ok u" unfolding ct_ok_def by blast
  show "ct_send_view u = (ct_send_view t)(sc_caller c \<mapsto> c)" "ct_receive_view u = ct_receive_view t"
    using ins(2) free assms(4,5) by (simp_all add: ct_send_view_def ct_receive_view_def fun_eq_iff)
qed

lemma ct_clear_send:
  assumes "ct_ok t" "ct_send_slot_for t k = Some i"
    and "u = t\<lparr>ct_sends := (ct_sends t)[i := send_slot_blank], ct_occupied := ct_occupied t - 1\<rparr>"
  shows "ct_ok u" "ct_send_view u = (ct_send_view t)(k := None)" "ct_receive_view u = ct_receive_view t"
proof -
  obtain m n where mn: "slot_ok sn_occupied sn_key 0 max_threads (ct_sends t) m"
    "slot_ok rv_occupied rv_key 0 max_threads (ct_receives t) n" "ct_occupied t = m + n"
    using assms(1) by (auto simp: ct_ok_def)
  note rem = sst.remove_ok [OF mn(1) assms(2) [unfolded ct_send_slot_for_def] sst.blank_free]
  have "ct_occupied u = (m - 1) + n" using mn(3) assms(3) by simp
  moreover have "slot_ok sn_occupied sn_key 0 max_threads (ct_sends u) (m - 1)"
    "slot_ok rv_occupied rv_key 0 max_threads (ct_receives u) n"
    using rem(1) mn(2) assms(3) by simp_all
  ultimately show "ct_ok u" unfolding ct_ok_def by blast
  show "ct_send_view u = (ct_send_view t)(k := None)" "ct_receive_view u = ct_receive_view t"
    using rem(2) assms(3) by (simp_all add: ct_send_view_def ct_receive_view_def fun_eq_iff)
qed

lemma ct_place_receive:
  assumes "ct_ok t" "first_index (\<lambda>s. \<not> rv_occupied s) (ct_receives t) = Some i"
    and "ct_receive_view t (rc_server c) = None" "rc_server c \<noteq> invalid_thread"
    and "u = t\<lparr>ct_receives := (ct_receives t)[i := \<lparr>rv_occupied = True, rv_continuation = c\<rparr>],
               ct_occupied := ct_occupied t + 1\<rparr>"
  shows "ct_ok u" "ct_receive_view u = (ct_receive_view t)(rc_server c \<mapsto> c)"
    "ct_send_view u = ct_send_view t"
proof -
  obtain m n where mn: "slot_ok sn_occupied sn_key 0 max_threads (ct_sends t) m"
    "slot_ok rv_occupied rv_key 0 max_threads (ct_receives t) n" "ct_occupied t = m + n"
    using assms(1) by (auto simp: ct_ok_def)
  note ins = rvt.insert_ok [OF mn(2) assms(2), of "\<lparr>rv_occupied = True, rv_continuation = c\<rparr>"]
  have free: "slot_view rv_occupied rv_key 0 (ct_receives t) (rc_server c) = None"
    using assms(3) by (simp add: ct_receive_view_def)
  have "ct_occupied u = m + (n + 1)" using mn(3) assms(5) by simp
  moreover have "slot_ok rv_occupied rv_key 0 max_threads (ct_receives u) (n + 1)"
    using ins(1) free assms(4,5) by simp
  moreover have "slot_ok sn_occupied sn_key 0 max_threads (ct_sends u) m" using mn(1) assms(5) by simp
  ultimately show "ct_ok u" unfolding ct_ok_def by blast
  show "ct_receive_view u = (ct_receive_view t)(rc_server c \<mapsto> c)" "ct_send_view u = ct_send_view t"
    using ins(2) free assms(4,5) by (simp_all add: ct_send_view_def ct_receive_view_def fun_eq_iff)
qed

lemma ct_clear_receive:
  assumes "ct_ok t" "ct_receive_slot_for t k = Some i"
    and "u = t\<lparr>ct_receives := (ct_receives t)[i := receive_slot_blank], ct_occupied := ct_occupied t - 1\<rparr>"
  shows "ct_ok u" "ct_receive_view u = (ct_receive_view t)(k := None)" "ct_send_view u = ct_send_view t"
proof -
  obtain m n where mn: "slot_ok sn_occupied sn_key 0 max_threads (ct_sends t) m"
    "slot_ok rv_occupied rv_key 0 max_threads (ct_receives t) n" "ct_occupied t = m + n"
    using assms(1) by (auto simp: ct_ok_def)
  note rem = rvt.remove_ok [OF mn(2) assms(2) [unfolded ct_receive_slot_for_def] rvt.blank_free]
  have "ct_occupied u = m + (n - 1)" using mn(3) assms(3) by simp
  moreover have "slot_ok rv_occupied rv_key 0 max_threads (ct_receives u) (n - 1)"
    "slot_ok sn_occupied sn_key 0 max_threads (ct_sends u) m"
    using rem(1) mn(1) assms(3) by simp_all
  ultimately show "ct_ok u" unfolding ct_ok_def by blast
  show "ct_receive_view u = (ct_receive_view t)(k := None)" "ct_send_view u = ct_send_view t"
    using rem(2) assms(3) by (simp_all add: ct_send_view_def ct_receive_view_def fun_eq_iff)
qed

section \<open>What each operation does\<close>

lemma ct_arm_cases:
  assumes "ct_ok t"
  obtains (refused) e where "ct_arm t k ep x eps = (Inl e, t)"
    | (armed) u where "ct_arm t k ep x eps = (Inr (), u)" "ct_ok u" "ct_send_view t k = None"
      "ct_send_view u = (ct_send_view t)(k \<mapsto> \<lparr>sc_caller = k, sc_epoch = ep, sc_exchange = x\<rparr>)"
      "ct_receive_view u = ct_receive_view t"
proof (cases "k = 0 \<or> \<not> epoch_valid ep \<or> \<not> ep_active eps ep \<or> x = 0 \<or> ct_send_slot_for t k \<noteq> None \<or>
    first_index (\<lambda>s. \<not> sn_occupied s) (ct_sends t) = None")
  case True
  then have "\<exists>e. ct_arm t k ep x eps = (Inl e, t)" by (auto simp: ct_arm_def)
  with refused show ?thesis by blast
next
  case False
  then obtain i where i: "first_index (\<lambda>s. \<not> sn_occupied s) (ct_sends t) = Some i" by auto
  let ?c = "\<lparr>sc_caller = k, sc_epoch = ep, sc_exchange = x\<rparr>"
  have free: "ct_send_view t k = None" using False ct_send_find(1) [of t k] by simp
  note pl = ct_place_send [OF assms i, of ?c, OF _ _ refl]
  from armed [OF _ pl(1) free] pl(2,3) False i free show ?thesis by (simp add: ct_arm_def)
qed

lemma ct_take_spec:
  assumes "ct_ok t"
  shows "ct_ok (snd (ct_take t k ep eps)) \<and>
    ct_send_view (snd (ct_take t k ep eps)) = (ct_send_view t)(k := None) \<and>
    ct_receive_view (snd (ct_take t k ep eps)) = ct_receive_view t \<and>
    fst (ct_take t k ep eps) =
      (case ct_send_view t k of
         None \<Rightarrow> Inl ct_not_armed
       | Some c \<Rightarrow> if epoch_valid ep \<and> ep_active eps ep \<and> sc_epoch c = ep then Inr c else Inl ct_stale)"
proof (cases "ct_send_slot_for t k")
  case None
  then show ?thesis using assms ct_send_find(1) [of t k] by (auto simp: ct_take_def fun_eq_iff)
next
  case (Some i)
  from ct_clear_send [OF assms Some refl] ct_send_find(2) [OF Some] Some show ?thesis
    by (auto simp: ct_take_def Let_def)
qed

lemma ct_cancel_take: "ct_cancel t k =
    (if ct_send_armed t k then Inr () else Inl ct_not_armed, snd (ct_take t k ep eps))"
  using ct_armed_view(1) [of t k] ct_send_find [of t k]
  by (auto simp: ct_cancel_def ct_take_def Let_def split: option.split)

lemma ct_arm_receive_cases:
  assumes "ct_ok t"
  obtains (refused) e where "ct_arm_receive t k ep cp x eps d = (Inl e, t)"
    | (armed) u where "ct_arm_receive t k ep cp x eps d = (Inr (), u)" "ct_ok u"
      "ct_receive_view t k = None"
      "ct_receive_view u = (ct_receive_view t)(k \<mapsto> \<lparr>rc_server = k, rc_epoch = ep, rc_capability = cp,
         rc_exchange = x, rc_deadline = d\<rparr>)"
      "ct_send_view u = ct_send_view t"
proof (cases "k = 0 \<or> \<not> epoch_valid ep \<or> \<not> ep_active eps ep \<or> cp = invalid_capability \<or> x = 0 \<or>
    ct_receive_slot_for t k \<noteq> None \<or> first_index (\<lambda>s. \<not> rv_occupied s) (ct_receives t) = None")
  case True
  then have "\<exists>e. ct_arm_receive t k ep cp x eps d = (Inl e, t)" by (auto simp: ct_arm_receive_def)
  with refused show ?thesis by blast
next
  case False
  then obtain i where i: "first_index (\<lambda>s. \<not> rv_occupied s) (ct_receives t) = Some i" by auto
  let ?c = "\<lparr>rc_server = k, rc_epoch = ep, rc_capability = cp, rc_exchange = x, rc_deadline = d\<rparr>"
  have free: "ct_receive_view t k = None" using False ct_receive_find(1) [of t k] by simp
  note pl = ct_place_receive [OF assms i, of ?c, OF _ _ refl]
  from armed [OF _ pl(1) free] pl(2,3) False i free show ?thesis by (simp add: ct_arm_receive_def)
qed

lemma ct_take_receive_spec:
  assumes "ct_ok t"
  shows "ct_ok (snd (ct_take_receive t k ep eps)) \<and>
    ct_receive_view (snd (ct_take_receive t k ep eps)) = (ct_receive_view t)(k := None) \<and>
    ct_send_view (snd (ct_take_receive t k ep eps)) = ct_send_view t \<and>
    fst (ct_take_receive t k ep eps) =
      (case ct_receive_view t k of
         None \<Rightarrow> Inl ct_not_armed
       | Some c \<Rightarrow> if epoch_valid ep \<and> ep_active eps ep \<and> rc_epoch c = ep then Inr c else Inl ct_stale)"
proof (cases "ct_receive_slot_for t k")
  case None
  then show ?thesis using assms ct_receive_find(1) [of t k] by (auto simp: ct_take_receive_def fun_eq_iff)
next
  case (Some i)
  from ct_clear_receive [OF assms Some refl] ct_receive_find(2) [OF Some] Some show ?thesis
    by (auto simp: ct_take_receive_def Let_def)
qed

lemma ct_cancel_receive_take: "ct_cancel_receive t k =
    (if ct_receive_armed t k then Inr () else Inl ct_not_armed, snd (ct_take_receive t k ep eps))"
  using ct_armed_view(2) [of t k] ct_receive_find [of t k]
  by (auto simp: ct_cancel_receive_def ct_take_receive_def Let_def split: option.split)

lemma ct_release_thread_take:
  "ct_release_thread t k = snd (ct_take_receive (snd (ct_take t k ep eps)) k ep eps)"
  by (auto simp: ct_release_thread_def ct_take_def ct_take_receive_def Let_def split: option.split)

lemma ct_release_thread_spec:
  assumes "ct_ok t"
  shows "ct_ok (ct_release_thread t k)"
    and "ct_send_view (ct_release_thread t k) = (ct_send_view t)(k := None)"
    and "ct_receive_view (ct_release_thread t k) = (ct_receive_view t)(k := None)"
  unfolding ct_release_thread_take [of t k no_epoch ep_empty]
  using ct_take_spec [OF assms, of k no_epoch ep_empty]
    ct_take_receive_spec [of "snd (ct_take t k no_epoch ep_empty)" k no_epoch ep_empty] by simp_all

section \<open>The scans\<close>

definition ct_expired :: "IpcContinuationTable \<Rightarrow> u64 \<Rightarrow> ThreadId set" where
  "ct_expired t now = {k. \<exists>c. ct_receive_view t k = Some c \<and> rc_expired_at c now}"

lemma ct_receive_view_mem:
  assumes "ct_ok t"
  shows "ct_receive_view t k = Some c \<longleftrightarrow>
    (\<exists>s \<in> set (ct_receives t). rv_occupied s \<and> rv_continuation s = c \<and> rc_server c = k)"
proof -
  have wf: "slot_wf rv_occupied rv_key 0 (ct_receives t)" using assms by (auto simp: ct_ok_def slot_ok_def)
  then show ?thesis
    by (force simp: ct_receive_view_def rvt.view_iff in_set_conv_nth)
qed

lemma Min_insert_insert:
  fixes d e :: "'a :: linorder"
  shows "finite D \<Longrightarrow> Min (insert d (insert e D)) = Min (insert (min d e) D)"
  by (cases "D = {}") (simp_all add: min.assoc [symmetric])

lemma ct_earliest_Min:
  "ct_earliest ss e =
     (let D = {rc_deadline (rv_continuation s) | s. s \<in> set ss \<and> rv_occupied s \<and>
                 rc_bounded (rv_continuation s)} \<union> (if e = 0 then {} else {e})
      in if D = {} then 0 else Min D)"
proof (induction ss arbitrary: e)
  case Nil
  then show ?case by simp
next
  case (Cons s ss)
  let ?D = "{rc_deadline (rv_continuation s) | s. s \<in> set ss \<and> rv_occupied s \<and>
      rc_bounded (rv_continuation s)}"
  have fin: "finite ?D" by (rule finite_subset [of _ "(\<lambda>s. rc_deadline (rv_continuation s)) ` set ss"]) auto
  let ?d = "rc_deadline (rv_continuation s)"
  show ?case
  proof (cases "rv_occupied s \<and> rc_bounded (rv_continuation s)")
    case False
    then have "{rc_deadline (rv_continuation x) | x. x \<in> set (s # ss) \<and> rv_occupied x \<and>
        rc_bounded (rv_continuation x)} = ?D" by auto
    with False Cons.IH [of e] show ?thesis by (auto simp: Let_def)
  next
    case True
    then have D: "{rc_deadline (rv_continuation x) | x. x \<in> set (s # ss) \<and> rv_occupied x \<and>
        rc_bounded (rv_continuation x)} = insert ?d ?D" by auto
    have d: "?d \<noteq> 0" using True by (simp add: rc_bounded_def)
    have m: "Min (insert ?d (insert e ?D)) = Min (insert (min ?d e) ?D)"
      using fin by (rule Min_insert_insert)
    have step: "ct_earliest (s # ss) e = ct_earliest ss (if e = 0 then ?d else min ?d e)"
      using True by (auto simp: min_def not_less)
    have un: "insert ?d ?D \<union> {e} = insert ?d (insert e ?D)" by blast
    show ?thesis
    proof (cases "e = 0")
      case True
      then show ?thesis unfolding D step using Cons.IH [of ?d] d by (simp add: Let_def)
    next
      case False
      with d have "min ?d e \<noteq> 0" by (simp add: min_def)
      with False show ?thesis unfolding D step using Cons.IH [of "min ?d e"] m un by (simp add: Let_def)
    qed
  qed
qed

definition ct_candidates :: "u64 \<Rightarrow> nat \<Rightarrow> ReceiveSlot list \<Rightarrow> (nat \<times> IpcReceiveContinuation) set" where
  "ct_candidates now n ss = {(n + j, rv_continuation (ss ! j)) | j. j < length ss \<and>
     rv_occupied (ss ! j) \<and> rc_expired_at (rv_continuation (ss ! j)) now}"

lemma ct_candidates_Nil [simp]: "ct_candidates now n [] = {}"
  by (simp add: ct_candidates_def)

lemma ct_candidates_Cons:
  "ct_candidates now n (s # ss) =
     (if rv_occupied s \<and> rc_expired_at (rv_continuation s) now then {(n, rv_continuation s)} else {}) \<union>
     ct_candidates now (Suc n) ss"
proof (intro set_eqI iffI)
  fix x assume "x \<in> ct_candidates now n (s # ss)"
  then obtain j where j: "x = (n + j, rv_continuation ((s # ss) ! j))" "j < length (s # ss)"
    "rv_occupied ((s # ss) ! j)" "rc_expired_at (rv_continuation ((s # ss) ! j)) now"
    by (auto simp: ct_candidates_def)
  then show "x \<in> (if rv_occupied s \<and> rc_expired_at (rv_continuation s) now
      then {(n, rv_continuation s)} else {}) \<union> ct_candidates now (Suc n) ss"
    by (cases j) (auto simp: ct_candidates_def)
next
  fix x assume "x \<in> (if rv_occupied s \<and> rc_expired_at (rv_continuation s) now
      then {(n, rv_continuation s)} else {}) \<union> ct_candidates now (Suc n) ss"
  then consider "x = (n, rv_continuation s)" "rv_occupied s" "rc_expired_at (rv_continuation s) now"
    | j where "x = (n + Suc j, rv_continuation (ss ! j))" "j < length ss" "rv_occupied (ss ! j)"
      "rc_expired_at (rv_continuation (ss ! j)) now"
    by (auto simp: ct_candidates_def split: if_splits)
  then show "x \<in> ct_candidates now n (s # ss)"
  proof cases
    case 1
    then show ?thesis by (force simp: ct_candidates_def)
  next
    case (2 j)
    then show ?thesis unfolding ct_candidates_def by (intro CollectI exI [of _ "Suc j"]) simp
  qed
qed

definition ct_best ::
  "(nat \<times> IpcReceiveContinuation) option \<Rightarrow> (nat \<times> IpcReceiveContinuation) set \<Rightarrow> bool" where
  "ct_best r C \<longleftrightarrow> (case r of None \<Rightarrow> C = {}
     | Some x \<Rightarrow> x \<in> C \<and> (\<forall>y \<in> C. rc_server (snd x) \<le> rc_server (snd y)))"

lemma ct_best_dominated:
  assumes "ct_best r C" "z \<in> C" "rc_server (snd z) \<le> rc_server (snd w)"
  shows "ct_best r (insert w C)"
proof (cases r)
  case None
  with assms show ?thesis by (auto simp: ct_best_def)
next
  case (Some x)
  with assms(1) have x: "x \<in> C" "\<forall>y \<in> C. rc_server (snd x) \<le> rc_server (snd y)"
    by (simp_all add: ct_best_def)
  then have "rc_server (snd x) \<le> rc_server (snd w)" using assms(2,3) by (meson order.trans)
  with x Some show ?thesis by (simp add: ct_best_def)
qed

lemma ct_pick_expired_spec:
  "ct_best (ct_pick_expired now n ss ch) (set_option ch \<union> ct_candidates now n ss)"
proof (induction ss arbitrary: n ch)
  case Nil
  then show ?case by (cases ch) (simp_all add: ct_best_def)
next
  case (Cons s ss)
  let ?c = "rv_continuation s" and ?C = "ct_candidates now (Suc n) ss"
  show ?case
  proof (cases "rv_occupied s \<and> rc_expired_at ?c now")
    case False
    then have "ct_candidates now n (s # ss) = ?C"
      and "ct_pick_expired now n (s # ss) ch = ct_pick_expired now (Suc n) ss ch"
      by (auto simp: ct_candidates_Cons)
    with Cons.IH [of "Suc n" ch] show ?thesis by (simp only:)
  next
    case True
    then have cand: "ct_candidates now n (s # ss) = insert (n, ?c) ?C" by (simp add: ct_candidates_Cons)
    note new = Cons.IH [of "Suc n" "Some (n, ?c)"] and old = Cons.IH [of "Suc n" ch]
    show ?thesis
    proof (cases ch)
      case None
      with True new cand show ?thesis by simp
    next
      case (Some jc)
      obtain j c where jc: "jc = (j, c)" by fastforce
      show ?thesis
      proof (cases "rc_server ?c < rc_server c")
        case less: True
        from ct_best_dominated [OF new, of "(n, ?c)" "(j, c)"] less True Some jc show ?thesis
          by (simp add: cand insert_commute)
      next
        case False
        from ct_best_dominated [OF old, of "(j, c)" "(n, ?c)"] False True Some jc show ?thesis
          by (simp add: cand insert_commute)
      qed
    qed
  qed
qed

lemma ct_take_expired_cases:
  assumes "ct_ok t"
  obtains (quiet) "ct_take_expired_receive t now = (Inl ct_not_armed, t)" "ct_expired t now = {}"
    | (fired) c u where "ct_take_expired_receive t now = (Inr c, u)" "ct_ok u"
      "ct_receive_view t (rc_server c) = Some c" "rc_expired_at c now"
      "\<And>k. k \<in> ct_expired t now \<Longrightarrow> rc_server c \<le> k"
      "ct_receive_view u = (ct_receive_view t)(rc_server c := None)" "ct_send_view u = ct_send_view t"
proof -
  have ex: "k \<in> ct_expired t now \<longleftrightarrow> (\<exists>x \<in> ct_candidates now 0 (ct_receives t). rc_server (snd x) = k)" for k
    by (force simp: ct_expired_def ct_receive_view_mem [OF assms] ct_candidates_def in_set_conv_nth)
  show thesis
  proof (cases "ct_pick_expired now 0 (ct_receives t) None")
    case None
    then have "ct_candidates now 0 (ct_receives t) = {}"
      using ct_pick_expired_spec [of now 0 "ct_receives t" None] by (simp add: ct_best_def)
    with ex None quiet show thesis by (auto simp: ct_take_expired_receive_def)
  next
    case (Some x)
    obtain i c where x: "x = (i, c)" by fastforce
    have pick: "(i, c) \<in> ct_candidates now 0 (ct_receives t)"
      "\<forall>y \<in> ct_candidates now 0 (ct_receives t). rc_server c \<le> rc_server (snd y)"
      using ct_pick_expired_spec [of now 0 "ct_receives t" None] Some x by (simp_all add: ct_best_def)
    then have i: "i < length (ct_receives t)" "rv_occupied (ct_receives t ! i)"
      "rv_continuation (ct_receives t ! i) = c" "rc_expired_at c now" by (auto simp: ct_candidates_def)
    have wf: "slot_wf rv_occupied rv_key 0 (ct_receives t)" using assms by (auto simp: ct_ok_def slot_ok_def)
    with i have f: "ct_receive_slot_for t (rc_server c) = Some i"
      by (simp add: ct_receive_slot_for_def rvt.find_iff slot_wf_def)
    note cl = ct_clear_receive [OF assms f refl]
    have "rc_server c \<le> k" if "k \<in> ct_expired t now" for k using that pick(2) ex by auto
    with fired [OF _ cl(1)] cl(2,3) ct_receive_find(2) [OF f] i x Some show thesis
      by (simp add: ct_take_expired_receive_def)
  qed
qed

section \<open>Runs of the table\<close>

inductive ct_method :: "IpcContinuationTable \<Rightarrow> IpcContinuationTable \<Rightarrow> bool" where
  arm: "ct_method t (snd (ct_arm t k ep x eps))"
| take: "ct_method t (snd (ct_take t k ep eps))"
| cancel: "ct_method t (snd (ct_cancel t k))"
| arm_receive: "ct_method t (snd (ct_arm_receive t k ep cp x eps d))"
| take_receive: "ct_method t (snd (ct_take_receive t k ep eps))"
| take_expired: "ct_method t (snd (ct_take_expired_receive t now))"
| cancel_receive: "ct_method t (snd (ct_cancel_receive t k))"
| release: "ct_method t (ct_release_thread t k)"

lemma ct_method_ok: "ct_method t u \<Longrightarrow> ct_ok t \<Longrightarrow> ct_ok u"
proof (induction rule: ct_method.induct)
  case (arm t k ep x eps)
  then show ?case by (cases rule: ct_arm_cases [OF arm, of k ep x eps]) simp_all
next
  case (cancel t k)
  then show ?case using ct_take_spec ct_cancel_take [of t k no_epoch ep_empty] by simp
next
  case (arm_receive t k ep cp x eps d)
  then show ?case by (cases rule: ct_arm_receive_cases [OF arm_receive, of k ep cp x eps d]) simp_all
next
  case (take_expired t now)
  then show ?case by (cases rule: ct_take_expired_cases [OF take_expired, of now]) simp_all
next
  case (cancel_receive t k)
  then show ?case using ct_take_receive_spec ct_cancel_receive_take [of t k no_epoch ep_empty] by simp
qed (simp_all add: ct_take_spec ct_take_receive_spec ct_release_thread_spec)

lemma ct_run_ok: "ct_method\<^sup>*\<^sup>* ct_empty t \<Longrightarrow> ct_ok t"
  by (induction rule: rtranclp_induct) (auto intro: ct_method_ok ct_ok_empty)

lemma ct_earliest_view:
  assumes "ct_ok t"
  shows "ct_earliest_receive_deadline t =
    (let D = {rc_deadline c | k c. ct_receive_view t k = Some c \<and> rc_bounded c}
     in if D = {} then 0 else Min D)"
proof -
  have "{rc_deadline (rv_continuation s) | s. s \<in> set (ct_receives t) \<and> rv_occupied s \<and>
      rc_bounded (rv_continuation s)} =
    {rc_deadline c | k c. ct_receive_view t k = Some c \<and> rc_bounded c}"
    unfolding ct_receive_view_mem [OF assms] by blast
  then show ?thesis
    unfolding ct_earliest_receive_deadline_def ct_earliest_Min by simp
qed

text \<open>A continuation is taken once and only by the incarnation that armed it.  In every reachable
  state, taking the send or the receive continuation of a thread returns it exactly when the caller
  presents the very epoch recorded at arm time and that epoch is still active; whatever the answer,
  the slot is empty afterwards, so a second taking finds nothing, and no other thread's continuation
  changed.\<close>

theorem ct_take_one_shot:
  assumes "ct_method\<^sup>*\<^sup>* ct_empty t"
  shows "fst (ct_take t k ep eps) =
      (case ct_send_view t k of
         None \<Rightarrow> Inl ct_not_armed
       | Some c \<Rightarrow> if epoch_valid ep \<and> ep_active eps ep \<and> sc_epoch c = ep then Inr c else Inl ct_stale) \<and>
    fst (ct_take_receive t k ep eps) =
      (case ct_receive_view t k of
         None \<Rightarrow> Inl ct_not_armed
       | Some c \<Rightarrow> if epoch_valid ep \<and> ep_active eps ep \<and> rc_epoch c = ep then Inr c else Inl ct_stale) \<and>
    ct_send_view (snd (ct_take t k ep eps)) = (ct_send_view t)(k := None) \<and>
    ct_receive_view (snd (ct_take t k ep eps)) = ct_receive_view t \<and>
    ct_receive_view (snd (ct_take_receive t k ep eps)) = (ct_receive_view t)(k := None) \<and>
    ct_send_view (snd (ct_take_receive t k ep eps)) = ct_send_view t \<and>
    fst (ct_take (snd (ct_take t k ep eps)) k ep' eps') = Inl ct_not_armed \<and>
    fst (ct_take_receive (snd (ct_take_receive t k ep eps)) k ep' eps') = Inl ct_not_armed"
proof -
  note ok = ct_run_ok [OF assms]
  note s = ct_take_spec [OF ok, of k ep eps] and r = ct_take_receive_spec [OF ok, of k ep eps]
  from s r ct_take_spec [of "snd (ct_take t k ep eps)" k ep' eps']
    ct_take_receive_spec [of "snd (ct_take_receive t k ep eps)" k ep' eps'] show ?thesis by simp
qed

text \<open>Expiry depends on deadlines and thread numbers only.  In every reachable state the deadline the
  timer is armed for is the least one among the waiting receives (zero when none is bounded); at any
  time an expired receive is taken exactly when that deadline has passed; what is taken is the
  continuation of the lowest-numbered expired thread, and only that one leaves the table.\<close>

theorem ct_expiry_order:
  assumes "ct_method\<^sup>*\<^sup>* ct_empty t"
  shows "ct_earliest_receive_deadline t =
      (let D = {rc_deadline c | k c. ct_receive_view t k = Some c \<and> rc_bounded c}
       in if D = {} then 0 else Min D) \<and>
    (case ct_take_expired_receive t now of
       (Inl e, u) \<Rightarrow> e = ct_not_armed \<and> u = t \<and>
         (ct_earliest_receive_deadline t = 0 \<or> now < ct_earliest_receive_deadline t)
     | (Inr c, u) \<Rightarrow> ct_earliest_receive_deadline t \<noteq> 0 \<and> ct_earliest_receive_deadline t \<le> now \<and>
         ct_receive_view t (rc_server c) = Some c \<and> rc_server c = Min (ct_expired t now) \<and>
         ct_receive_view u = (ct_receive_view t)(rc_server c := None) \<and> ct_send_view u = ct_send_view t)"
proof -
  note ok = ct_run_ok [OF assms]
  define D where "D = {rc_deadline c | k c. ct_receive_view t k = Some c \<and> rc_bounded c}"
  have fin: "finite D"
    by (rule finite_subset [of _ "(\<lambda>s. rc_deadline (rv_continuation s)) ` set (ct_receives t)"])
       (auto simp: D_def ct_receive_view_mem [OF ok])
  have nz: "x \<noteq> 0" if "x \<in> D" for x using that by (auto simp: D_def rc_bounded_def)
  have e: "ct_earliest_receive_deadline t = (if D = {} then 0 else Min D)"
    using ct_earliest_view [OF ok] unfolding D_def Let_def .
  have finx: "finite (ct_expired t now)"
    by (rule finite_subset [of _ "rv_key ` set (ct_receives t)"])
       (auto simp: ct_expired_def ct_receive_view_mem [OF ok])
  have mem: "rc_deadline c \<in> D" "rc_deadline c \<le> now" if "ct_receive_view t k = Some c" "rc_expired_at c now" for k c
    using that by (auto simp: D_def rc_expired_at_def)
  have part: "(case ct_take_expired_receive t now of
       (Inl e, u) \<Rightarrow> e = ct_not_armed \<and> u = t \<and>
         (ct_earliest_receive_deadline t = 0 \<or> now < ct_earliest_receive_deadline t)
     | (Inr c, u) \<Rightarrow> ct_earliest_receive_deadline t \<noteq> 0 \<and> ct_earliest_receive_deadline t \<le> now \<and>
         ct_receive_view t (rc_server c) = Some c \<and> rc_server c = Min (ct_expired t now) \<and>
         ct_receive_view u = (ct_receive_view t)(rc_server c := None) \<and> ct_send_view u = ct_send_view t)"
    using ok
  proof (cases rule: ct_take_expired_cases [where now = now])
    case quiet
    have "\<not> x \<le> now" if "x \<in> D" for x
      using that quiet(2) by (auto simp: D_def ct_expired_def rc_expired_at_def)
    with fin quiet(1) show ?thesis by (auto simp: e not_le)
  next
    case (fired c u)
    have d: "rc_deadline c \<in> D" "rc_deadline c \<le> now" using mem fired(3,4) by blast+
    then have "D \<noteq> {}" "Min D \<le> now" "Min D \<noteq> 0"
      using fin nz Min_in Min_le by (blast, meson order.trans, metis Min_in empty_iff)
    moreover have "rc_server c = Min (ct_expired t now)"
      using finx fired(3,4,5) by (intro Min_eqI [symmetric]) (auto simp: ct_expired_def)
    ultimately show ?thesis using fired(1,3,6,7) e by simp
  qed
  from e have "ct_earliest_receive_deadline t =
      (let D = {rc_deadline c | k c. ct_receive_view t k = Some c \<and> rc_bounded c}
       in if D = {} then 0 else Min D)" unfolding D_def Let_def .
  with part show ?thesis by blast
qed

section \<open>Concrete runs\<close>

definition ct_example :: IpcContinuationTable where
  "ct_example = snd (ct_arm_receive (snd (ct_arm_receive (snd (ct_arm ct_empty 9 ep_one_epoch 4096 ep_one))
     7 ep_one_epoch 3 4096 ep_one 50)) 5 ep_one_epoch 3 8192 ep_one 60)"

lemma ct_example_reachable: "ct_method\<^sup>*\<^sup>* ct_empty ct_example"
  unfolding ct_example_def
  by (rule rtranclp.rtrancl_into_rtrancl [OF rtranclp.rtrancl_into_rtrancl [OF r_into_rtranclp]])
     (rule ct_method.intros)+

theorem ct_take_one_shot_witness:
  "fst (ct_take ct_example 9 ep_one_epoch ep_one) =
     Inr \<lparr>sc_caller = 9, sc_epoch = ep_one_epoch, sc_exchange = 4096\<rparr> \<and>
   fst (ct_take (snd (ct_take ct_example 9 ep_one_epoch ep_one)) 9 ep_one_epoch ep_one) = Inl ct_not_armed"
proof -
  have v: "ct_send_view ct_example 9 = Some \<lparr>sc_caller = 9, sc_epoch = ep_one_epoch, sc_exchange = 4096\<rparr>"
    by code_simp
  have a: "epoch_valid ep_one_epoch" "ep_active ep_one ep_one_epoch" by code_simp+
  from ct_take_one_shot [OF ct_example_reachable, of 9 ep_one_epoch ep_one ep_one_epoch ep_one] v a
  show ?thesis by simp
qed

theorem ct_expiry_order_witness:
  "fst (ct_take_expired_receive ct_example 60) = Inr \<lparr>rc_server = 5, rc_epoch = ep_one_epoch,
     rc_capability = 3, rc_exchange = 8192, rc_deadline = 60\<rparr> \<and> ct_earliest_receive_deadline ct_example \<le> 60"
proof -
  have "fst (ct_take_expired_receive ct_example 60) = Inr \<lparr>rc_server = 5, rc_epoch = ep_one_epoch,
     rc_capability = 3, rc_exchange = 8192, rc_deadline = 60\<rparr>" by code_simp
  with ct_expiry_order [OF ct_example_reachable, of 60, THEN conjunct2] show ?thesis
    by (simp add: split_beta)
qed

end
