(* ===== verification/Kernel.thy ===== *)
theory Kernel
  imports Scheduler Interrupt Ipc_Endpoint Ipc_Continuation Memory_Syscall Process_Space
begin

text \<open>
  The composition: kernel.hpp/.cpp of src/core/oskernel.  \<open>Kernel\<close> owns one of each state machine and
  calls them in a fixed order; its own work is to check capabilities, to keep the run queue in
  agreement with the rendezvous, and to take everything a thread owns away when it dies.  One
  definition per method, prefixed \<open>k_\<close>; authorities that a method takes by reference
  (epochs, grants, translations, executable regions) are arguments and, when mutated, results.
  The agreement of the run queue, its invariants and what the operations achieve are in
  \<open>Kernel_Sync\<close> and \<open>Kernel_Authority\<close>.
\<close>

section \<open>Data\<close>

abbreviation "k_creation_incomplete \<equiv> kernel_error 1"

record AddressSpaceCreation =
  acr_epoch :: AddressSpaceEpoch
  acr_capability :: CapabilityId

definition creation_valid :: "AddressSpaceCreation \<Rightarrow> bool" where
  "creation_valid c \<longleftrightarrow> epoch_valid (acr_epoch c) \<and> acr_capability c \<noteq> invalid_capability"

record Teardown =
  td_threads_released :: size_t
  td_capabilities_revoked :: size_t
  td_interrupt_sources_released :: size_t
  td_interrupt_delivery_released :: bool
  td_ipc_endpoints_retired :: size_t

record Kernel =
  k_threads :: Rendezvous
  k_capabilities :: CapabilityTable
  k_interrupts :: InterruptTable
  k_interrupt_deliveries :: InterruptDeliveryTable
  k_ipc :: IpcEndpointTable
  k_ipc_continuations :: IpcContinuationTable
  k_scheduler :: Scheduler
  k_thread_identifiers :: ThreadIdentifierIssuer
  k_live :: "ThreadId list"
  k_live_count :: size_t

definition k_empty :: Kernel where
  "k_empty = \<lparr>k_threads = rz_empty, k_capabilities = cap_empty, k_interrupts = irq_empty,
     k_interrupt_deliveries = idl_empty, k_ipc = ipc_empty, k_ipc_continuations = ct_empty,
     k_scheduler = sched_empty, k_thread_identifiers = tid_empty,
     k_live = replicate max_threads invalid_thread, k_live_count = 0\<rparr>"

section \<open>Capability checks\<close>

definition address_space_capability ::
  "ThreadId \<Rightarrow> CapabilityId \<Rightarrow> CapabilityTable \<Rightarrow> Rights \<Rightarrow> ObjectId \<Rightarrow> unit result" where
  "address_space_capability thread capability capabilities required object =
     (if thread = invalid_thread \<or> capability = invalid_capability then Inl as_invalid_capability
      else if \<not> cap_holds capabilities thread capability then Inl as_invalid_capability
      else case cap_describe capabilities capability of
          Inl err \<Rightarrow> Inl err
        | Inr description \<Rightarrow>
            if ci_rights description AND required = 0 \<or> ci_object description \<noteq> object
            then Inl as_invalid_capability
            else Inr ())"

definition address_space_identity_for_capability ::
  "ThreadId \<Rightarrow> CapabilityId \<Rightarrow> CapabilityTable \<Rightarrow> Rights \<Rightarrow> AddressSpaceIdentity result" where
  "address_space_identity_for_capability thread capability capabilities required =
     (if thread = invalid_thread \<or> capability = invalid_capability then Inl as_invalid_capability
      else if \<not> cap_holds capabilities thread capability then Inl as_invalid_capability
      else case cap_describe capabilities capability of
          Inl err \<Rightarrow> Inl err
        | Inr description \<Rightarrow>
            if ci_rights description AND required = 0 \<or>
               ci_object description AND address_space_object_tag_mask \<noteq> address_space_object_tag
            then Inl as_invalid_capability
            else let identity = identity_of_object (ci_object description) in
              if \<not> identity_valid identity then Inl as_invalid_capability else Inr identity)"

abbreviation interrupt_object_tag_mask :: ObjectId where
  "interrupt_object_tag_mask \<equiv> 0xFFFF000000000000"

definition interrupt_source_for_capability ::
  "ThreadId \<Rightarrow> CapabilityId \<Rightarrow> CapabilityTable \<Rightarrow> InterruptSource result" where
  "interrupt_source_for_capability driver source_capability capabilities =
     (if driver = invalid_thread \<or> source_capability = invalid_capability
      then Inl irq_invalid_capability
      else if \<not> cap_holds capabilities driver source_capability then Inl irq_invalid_capability
      else case cap_describe capabilities source_capability of
          Inl err \<Rightarrow> Inl err
        | Inr description \<Rightarrow>
            if ci_rights description AND interrupt_right_attach = 0 then Inl irq_wrong_rights
            else if ci_object description AND interrupt_object_tag_mask \<noteq> interrupt_object_tag
            then Inl irq_wrong_object
            else let source = (ucast (ci_object description AND NOT interrupt_object_tag_mask) :: InterruptSource)
              in if source = invalid_interrupt_source then Inl irq_wrong_object else Inr source)"

section \<open>The live list and the run queue\<close>

text \<open>The live identifiers are the first \<open>k_live_count\<close> entries of the array.\<close>

definition k_living :: "Kernel \<Rightarrow> ThreadId list" where
  "k_living k = take (unat (k_live_count k)) (k_live k)"

definition k_tracks :: "Kernel \<Rightarrow> ThreadId \<Rightarrow> bool" where
  "k_tracks k thread \<longleftrightarrow> thread \<in> set (k_living k)"

definition k_untrack :: "Kernel \<Rightarrow> ThreadId \<Rightarrow> Kernel" where
  "k_untrack k thread =
     (case first_index (\<lambda>t. t = thread) (k_living k) of
        None \<Rightarrow> k
      | Some i \<Rightarrow>
          let last = unat (k_live_count k - 1);
              live = (k_live k)[i := k_live k ! last]
          in k\<lparr>k_live := live[last := invalid_thread], k_live_count := k_live_count k - 1\<rparr>)"

definition k_live_thread_count :: "Kernel \<Rightarrow> size_t" where
  "k_live_thread_count k = k_live_count k"

text \<open>\<open>synchronise_thread\<close> reads the rendezvous and writes the scheduler only.\<close>

definition synchronise_thread :: "Rendezvous \<Rightarrow> ThreadId \<Rightarrow> Scheduler \<Rightarrow> Scheduler" where
  "synchronise_thread r thread s =
     (case (rz_state_of r thread, rz_effective_priority_of r thread) of
        (Inr state, Inr priority) \<Rightarrow> snd (sched_update s thread (state = ts_ready) priority)
      | _ \<Rightarrow> s)"

definition k_synchronise_thread :: "Kernel \<Rightarrow> ThreadId \<Rightarrow> Kernel" where
  "k_synchronise_thread k thread =
     k\<lparr>k_scheduler := synchronise_thread (k_threads k) thread (k_scheduler k)\<rparr>"

definition k_synchronise_pair :: "Kernel \<Rightarrow> ThreadId \<Rightarrow> ThreadId \<Rightarrow> Kernel" where
  "k_synchronise_pair k a b =
     (let k1 = k_synchronise_thread k a in if b \<noteq> a then k_synchronise_thread k1 b else k1)"

definition k_synchronise :: "Kernel \<Rightarrow> Kernel" where
  "k_synchronise k = fold (\<lambda>thread k. k_synchronise_thread k thread) (k_living k) k"

section \<open>Threads\<close>

text \<open>The common second half of \<open>create_thread\<close> and \<open>create_admitted_thread\<close>: admit to the run
  queue, undo on failure, append to the live list.\<close>

definition k_enlist :: "Kernel \<Rightarrow> ThreadId \<Rightarrow> Priority \<Rightarrow> unit result \<times> Kernel" where
  "k_enlist k thread priority =
     (case sched_admit (k_scheduler k) thread priority of
        (Inl _, s) \<Rightarrow>
          (Inl k_creation_incomplete,
           k\<lparr>k_scheduler := s, k_threads := snd (rz_exit_thread (k_threads k) thread)\<rparr>)
      | (Inr _, s) \<Rightarrow>
          (Inr (), k_synchronise_thread
            (k\<lparr>k_scheduler := s, k_live := (k_live k)[unat (k_live_count k) := thread],
               k_live_count := k_live_count k + 1\<rparr>) thread))"

definition k_create_thread :: "Kernel \<Rightarrow> ThreadId \<Rightarrow> Priority \<Rightarrow> unit result \<times> Kernel" where
  "k_create_thread k thread priority =
     (case rz_create_thread (k_threads k) thread priority of
        (Inl err, r) \<Rightarrow> (Inl err, k\<lparr>k_threads := r\<rparr>)
      | (Inr _, r) \<Rightarrow> k_enlist (k\<lparr>k_threads := r\<rparr>) thread priority)"

definition k_create_admitted_thread :: "Kernel \<Rightarrow> ThreadId \<Rightarrow> Priority \<Rightarrow> unit result \<times> Kernel" where
  "k_create_admitted_thread k thread priority =
     (case rz_create_admitted_thread (k_threads k) thread priority of
        (Inl err, r) \<Rightarrow> (Inl err, k\<lparr>k_threads := r\<rparr>)
      | (Inr _, r) \<Rightarrow> k_enlist (k\<lparr>k_threads := r\<rparr>) thread priority)"

definition k_thread_start :: "Kernel \<Rightarrow> ThreadId \<Rightarrow> unit result \<times> Kernel" where
  "k_thread_start k thread =
     (case rz_start_thread (k_threads k) thread of
        (Inl err, r) \<Rightarrow> (Inl err, k\<lparr>k_threads := r\<rparr>)
      | (Inr _, r) \<Rightarrow> (Inr (), k_synchronise_thread (k\<lparr>k_threads := r\<rparr>) thread))"

definition k_destroy_thread :: "Kernel \<Rightarrow> ThreadId \<Rightarrow> Teardown result \<times> Kernel" where
  "k_destroy_thread k thread =
     (let cs = ct_release_thread (k_ipc_continuations k) thread;
          (retired_endpoints, ipc, r) = ipc_release_thread (k_ipc k) thread (k_threads k);
          k1 = k\<lparr>k_ipc_continuations := cs, k_ipc := ipc\<rparr>
      in case rz_exit_thread r thread of
          (Inl err, r1) \<Rightarrow> (Inl err, k1\<lparr>k_threads := r1\<rparr>)
        | (Inr released, r1) \<Rightarrow>
            let (revoked, caps) = cap_revoke_all_held_by (k_capabilities k1) thread;
                (sources, irqs) = irq_detach_all_owned_by (k_interrupts k1) thread;
                (delivery, idl) = idl_release (k_interrupt_deliveries k1) thread;
                s = snd (sched_retire (k_scheduler k1) thread);
                k2 = k_untrack (k1\<lparr>k_threads := r1, k_capabilities := caps, k_interrupts := irqs,
                       k_interrupt_deliveries := idl, k_scheduler := s\<rparr>) thread
            in (Inr \<lparr>td_threads_released = released, td_capabilities_revoked = revoked,
                     td_interrupt_sources_released = sources, td_interrupt_delivery_released = delivery,
                     td_ipc_endpoints_retired = retired_endpoints\<rparr>,
                k_synchronise k2))"

section \<open>Direct message passing\<close>

definition k_send :: "Kernel \<Rightarrow> ThreadId \<Rightarrow> ThreadId \<Rightarrow> unit result \<times> Kernel" where
  "k_send k from to =
     (case rz_send (k_threads k) from to of
        (Inl err, r) \<Rightarrow> (Inl err, k\<lparr>k_threads := r\<rparr>)
      | (Inr _, r) \<Rightarrow> (Inr (), k_synchronise_pair (k\<lparr>k_threads := r\<rparr>) from to))"

definition k_receive :: "Kernel \<Rightarrow> ThreadId \<Rightarrow> ThreadId result \<times> Kernel" where
  "k_receive k self =
     (case rz_receive (k_threads k) self of
        (Inl err, r) \<Rightarrow> (Inl err, k\<lparr>k_threads := r\<rparr>)
      | (Inr received, r) \<Rightarrow>
          (Inr received, k_synchronise_pair (k\<lparr>k_threads := r\<rparr>) self received))"

definition k_reply :: "Kernel \<Rightarrow> ThreadId \<Rightarrow> ThreadId \<Rightarrow> unit result \<times> Kernel" where
  "k_reply k self caller =
     (case rz_reply (k_threads k) self caller of
        (Inl err, r) \<Rightarrow> (Inl err, k\<lparr>k_threads := r\<rparr>)
      | (Inr _, r) \<Rightarrow> (Inr (), k_synchronise_pair (k\<lparr>k_threads := r\<rparr>) self caller))"

definition k_yield :: "Kernel \<Rightarrow> ThreadId \<Rightarrow> unit result \<times> Kernel" where
  "k_yield k self =
     (if \<not> k_tracks k self then (Inl rz_unknown_thread, k)
      else let (res, s) = sched_yield_slice (k_scheduler k) self in (res, k\<lparr>k_scheduler := s\<rparr>))"

section \<open>IPC\<close>

definition k_create_ipc_endpoint :: "Kernel \<Rightarrow> ThreadId \<Rightarrow> IpcEndpoint result \<times> Kernel" where
  "k_create_ipc_endpoint k server =
     (if \<not> k_tracks k server then (Inl rz_unknown_thread, k)
      else let (res, ipc) = ipc_create (k_ipc k) server in (res, k\<lparr>k_ipc := ipc\<rparr>))"

definition k_retire_ipc_endpoint :: "Kernel \<Rightarrow> ThreadId \<Rightarrow> IpcEndpoint \<Rightarrow> unit result \<times> Kernel" where
  "k_retire_ipc_endpoint k server endpoint =
     (let receiver_waiting = ipc_receive_waiting (k_ipc k) endpoint;
          (retired, ipc, r) = ipc_retire (k_ipc k) server endpoint (k_threads k);
          k1 = k\<lparr>k_ipc := ipc, k_threads := r\<rparr>
      in case retired of
          Inl err \<Rightarrow> (Inl err, k1)
        | Inr _ \<Rightarrow>
            let k2 = (if receiver_waiting \<and> ct_receive_armed (k_ipc_continuations k1) server
                      then k1\<lparr>k_ipc_continuations := snd (ct_cancel_receive (k_ipc_continuations k1) server)\<rparr>
                      else k1)
            in (Inr (), k_synchronise k2))"

text \<open>The shape shared by the operations that call into the endpoint table: store what it
  returned and, on success, reconcile the run queue with \<open>sync\<close>.\<close>

definition k_after_ipc ::
  "Kernel \<Rightarrow> ('a \<Rightarrow> Kernel \<Rightarrow> Kernel) \<Rightarrow> 'a result \<times> IpcEndpointTable \<times> Rendezvous \<Rightarrow> 'a result \<times> Kernel" where
  "k_after_ipc k sync out =
     (case out of (res, ipc, r) \<Rightarrow>
        let k1 = k\<lparr>k_ipc := ipc, k_threads := r\<rparr>
        in case res of Inl err \<Rightarrow> (Inl err, k1) | Inr v \<Rightarrow> (Inr v, sync v k1))"

definition k_ipc_send :: "Kernel \<Rightarrow> ThreadId \<Rightarrow> CapabilityId \<Rightarrow> IpcEnvelope \<Rightarrow> unit result \<times> Kernel" where
  "k_ipc_send k caller capability request =
     k_after_ipc k (\<lambda>_. k_synchronise)
       (ipc_send (k_ipc k) caller capability (k_capabilities k) (k_threads k) request)"

definition k_ipc_send_ctx ::
  "Kernel \<Rightarrow> ExecutionAuthority \<Rightarrow> CapabilityId \<Rightarrow> IpcEnvelope \<Rightarrow> unit result \<times> Kernel" where
  "k_ipc_send_ctx k caller capability request =
     k_after_ipc k (\<lambda>_. k_synchronise)
       (ipc_send_ctx (k_ipc k) caller capability (k_capabilities k) (k_threads k) request)"

definition k_ipc_receive :: "Kernel \<Rightarrow> ThreadId \<Rightarrow> CapabilityId \<Rightarrow> IpcReceived result \<times> Kernel" where
  "k_ipc_receive k server capability =
     k_after_ipc k (\<lambda>received k1. k_synchronise_pair k1 server (rcv_caller received))
       (ipc_receive (k_ipc k) server capability (k_capabilities k) (k_threads k))"

definition k_ipc_receive_ctx ::
  "Kernel \<Rightarrow> ExecutionAuthority \<Rightarrow> CapabilityId \<Rightarrow> IpcReceived result \<times> Kernel" where
  "k_ipc_receive_ctx k server capability =
     k_after_ipc k (\<lambda>received k1. k_synchronise_pair k1 (ea_thread server) (rcv_caller received))
       (ipc_receive_ctx (k_ipc k) server capability (k_capabilities k) (k_threads k))"

definition k_ipc_reply :: "Kernel \<Rightarrow> ThreadId \<Rightarrow> IpcReplySeal \<Rightarrow> IpcEnvelope \<Rightarrow> unit result \<times> Kernel" where
  "k_ipc_reply k server seal response =
     k_after_ipc k (\<lambda>_ k1. k_synchronise_pair k1 server (seal_caller seal))
       (ipc_reply (k_ipc k) server seal (k_threads k) response)"

definition k_ipc_reply_ctx ::
  "Kernel \<Rightarrow> ExecutionAuthority \<Rightarrow> IpcReplySeal \<Rightarrow> IpcEnvelope \<Rightarrow> unit result \<times> Kernel" where
  "k_ipc_reply_ctx k server seal response =
     k_after_ipc k (\<lambda>_ k1. k_synchronise_pair k1 (ea_thread server) (seal_caller seal))
       (ipc_reply_ctx (k_ipc k) server seal (k_threads k) response)"

definition k_ipc_reply_transaction ::
  "Kernel \<Rightarrow> ThreadId \<Rightarrow> IpcTransactionId \<Rightarrow> IpcEnvelope \<Rightarrow> unit result \<times> Kernel" where
  "k_ipc_reply_transaction k server transaction response =
     k_after_ipc k (\<lambda>_. k_synchronise)
       (ipc_reply_transaction (k_ipc k) server transaction (k_threads k) response)"

definition k_ipc_reply_transaction_ctx ::
  "Kernel \<Rightarrow> ExecutionAuthority \<Rightarrow> IpcTransactionId \<Rightarrow> IpcEnvelope \<Rightarrow> unit result \<times> Kernel" where
  "k_ipc_reply_transaction_ctx k server transaction response =
     k_after_ipc k (\<lambda>_. k_synchronise)
       (ipc_reply_transaction_ctx (k_ipc k) server transaction (k_threads k) response)"

definition k_ipc_take_reply :: "Kernel \<Rightarrow> ThreadId \<Rightarrow> IpcEnvelope result \<times> Kernel" where
  "k_ipc_take_reply k caller =
     (if \<not> k_tracks k caller then (Inl rz_unknown_thread, k)
      else let (res, ipc) = ipc_take_reply (k_ipc k) caller in (res, k\<lparr>k_ipc := ipc\<rparr>))"

definition k_ipc_take_reply_ctx :: "Kernel \<Rightarrow> ExecutionAuthority \<Rightarrow> IpcEnvelope result \<times> Kernel" where
  "k_ipc_take_reply_ctx k caller =
     (if \<not> k_tracks k (ea_thread caller) then (Inl rz_unknown_thread, k)
      else let (res, ipc) = ipc_take_reply_ctx (k_ipc k) caller in (res, k\<lparr>k_ipc := ipc\<rparr>))"

section \<open>Continuations\<close>

text \<open>The continuation wrappers differ only in the table operation behind the liveness check.\<close>

definition k_continuation ::
  "Kernel \<Rightarrow> ThreadId \<Rightarrow> (IpcContinuationTable \<Rightarrow> 'a result \<times> IpcContinuationTable) \<Rightarrow> 'a result \<times> Kernel" where
  "k_continuation k thread f =
     (if \<not> k_tracks k thread then (Inl rz_unknown_thread, k)
      else let (res, ct) = f (k_ipc_continuations k) in (res, k\<lparr>k_ipc_continuations := ct\<rparr>))"

definition k_ipc_arm_send_continuation ::
  "Kernel \<Rightarrow> ThreadId \<Rightarrow> AddressSpaceEpoch \<Rightarrow> u64 \<Rightarrow> AddressSpaceEpochAuthority \<Rightarrow> unit result \<times> Kernel" where
  "k_ipc_arm_send_continuation k caller epoch exchange epochs =
     k_continuation k caller (\<lambda>ct. ct_arm ct caller epoch exchange epochs)"

definition k_ipc_take_send_continuation ::
  "Kernel \<Rightarrow> ThreadId \<Rightarrow> AddressSpaceEpoch \<Rightarrow> AddressSpaceEpochAuthority \<Rightarrow>
   IpcSendContinuation result \<times> Kernel" where
  "k_ipc_take_send_continuation k caller expected epochs =
     k_continuation k caller (\<lambda>ct. ct_take ct caller expected epochs)"

definition k_ipc_cancel_send_continuation :: "Kernel \<Rightarrow> ThreadId \<Rightarrow> unit result \<times> Kernel" where
  "k_ipc_cancel_send_continuation k caller = k_continuation k caller (\<lambda>ct. ct_cancel ct caller)"

definition k_ipc_arm_receive_continuation ::
  "Kernel \<Rightarrow> ThreadId \<Rightarrow> AddressSpaceEpoch \<Rightarrow> CapabilityId \<Rightarrow> u64 \<Rightarrow> AddressSpaceEpochAuthority \<Rightarrow> u64 \<Rightarrow>
   unit result \<times> Kernel" where
  "k_ipc_arm_receive_continuation k server epoch capability exchange epochs deadline =
     k_continuation k server (\<lambda>ct. ct_arm_receive ct server epoch capability exchange epochs deadline)"

definition k_ipc_earliest_receive_deadline :: "Kernel \<Rightarrow> u64" where
  "k_ipc_earliest_receive_deadline k = ct_earliest_receive_deadline (k_ipc_continuations k)"

definition k_ipc_expire_one_receive :: "Kernel \<Rightarrow> u64 \<Rightarrow> bool result \<times> Kernel" where
  "k_ipc_expire_one_receive k now =
     (case ct_take_expired_receive (k_ipc_continuations k) now of
        (Inl err, ct) \<Rightarrow>
          (if err_domain err = dom_kernel \<and> err_code err = err_code ct_not_armed then Inr False else Inl err, k\<lparr>k_ipc_continuations := ct\<rparr>)
      | (Inr continuation, ct) \<Rightarrow>
          (case rz_expire_receive (k_threads k) (rc_server continuation) of
             (Inl err, r) \<Rightarrow> (Inl err, k\<lparr>k_ipc_continuations := ct, k_threads := r\<rparr>)
           | (Inr _, r) \<Rightarrow> (Inr True, k\<lparr>k_ipc_continuations := ct, k_threads := r\<rparr>)))"

definition k_ipc_take_deadline_expiry :: "Kernel \<Rightarrow> ThreadId \<Rightarrow> bool result \<times> Kernel" where
  "k_ipc_take_deadline_expiry k thread =
     (let (res, r) = rz_take_deadline_expiry (k_threads k) thread in (res, k\<lparr>k_threads := r\<rparr>))"

definition k_ipc_take_expired_receive_continuation ::
  "Kernel \<Rightarrow> u64 \<Rightarrow> IpcReceiveContinuation result \<times> Kernel" where
  "k_ipc_take_expired_receive_continuation k now =
     (let (res, ct) = ct_take_expired_receive (k_ipc_continuations k) now
      in (res, k\<lparr>k_ipc_continuations := ct\<rparr>))"

definition k_ipc_take_receive_continuation ::
  "Kernel \<Rightarrow> ThreadId \<Rightarrow> AddressSpaceEpoch \<Rightarrow> AddressSpaceEpochAuthority \<Rightarrow>
   IpcReceiveContinuation result \<times> Kernel" where
  "k_ipc_take_receive_continuation k server expected epochs =
     k_continuation k server (\<lambda>ct. ct_take_receive ct server expected epochs)"

definition k_ipc_cancel_receive_continuation :: "Kernel \<Rightarrow> ThreadId \<Rightarrow> unit result \<times> Kernel" where
  "k_ipc_cancel_receive_continuation k server =
     k_continuation k server (\<lambda>ct. ct_cancel_receive ct server)"

section \<open>Interrupts\<close>

definition k_interrupt_attach :: "Kernel \<Rightarrow> ThreadId \<Rightarrow> CapabilityId \<Rightarrow> unit result \<times> Kernel" where
  "k_interrupt_attach k driver source_capability =
     (case interrupt_source_for_capability driver source_capability (k_capabilities k) of
        Inl err \<Rightarrow> (Inl err, k)
      | Inr source \<Rightarrow>
          let (res, irqs) = irq_attach (k_interrupts k) driver source in (res, k\<lparr>k_interrupts := irqs\<rparr>))"

definition k_interrupt_detach :: "Kernel \<Rightarrow> ThreadId \<Rightarrow> CapabilityId \<Rightarrow> unit result \<times> Kernel" where
  "k_interrupt_detach k driver source_capability =
     (case interrupt_source_for_capability driver source_capability (k_capabilities k) of
        Inl err \<Rightarrow> (Inl err, k)
      | Inr source \<Rightarrow>
          let (res, irqs) = irq_detach (k_interrupts k) driver source in (res, k\<lparr>k_interrupts := irqs\<rparr>))"

definition k_interrupt_complete :: "Kernel \<Rightarrow> ThreadId \<Rightarrow> CapabilityId \<Rightarrow> bool result \<times> Kernel" where
  "k_interrupt_complete k driver source_capability =
     (case interrupt_source_for_capability driver source_capability (k_capabilities k) of
        Inl err \<Rightarrow> (Inl err, k)
      | Inr source \<Rightarrow>
          let (res, irqs) = irq_end_service (k_interrupts k) driver source in (res, k\<lparr>k_interrupts := irqs\<rparr>))"

definition k_dispatch_interrupt :: "Kernel \<Rightarrow> InterruptSource \<Rightarrow> Dispatch result \<times> Kernel" where
  "k_dispatch_interrupt k source =
     (case irq_dispatch (k_interrupts k) source of
        (Inl err, irqs) \<Rightarrow> (Inl err, k\<lparr>k_interrupts := irqs\<rparr>)
      | (Inr taken, irqs) \<Rightarrow>
          let k1 = k\<lparr>k_interrupts := irqs\<rparr>; owner = dsp_owner taken in
          (Inr taken,
           if dsp_wake taken \<and> owner \<noteq> invalid_thread
           then k_synchronise_thread
             (if idl_armed (k_interrupt_deliveries k1) owner then k1
              else case irq_begin_service (k_interrupts k1) owner source of
                  (Inl _, irqs1) \<Rightarrow> k1\<lparr>k_interrupts := irqs1\<rparr>
                | (Inr serviced, irqs1) \<Rightarrow>
                    k1\<lparr>k_interrupts := irqs1, k_interrupt_deliveries :=
                      snd (idl_arm (k_interrupt_deliveries k1) owner source serviced)\<rparr>) owner
           else k1))"

definition k_take_delivered_service :: "Kernel \<Rightarrow> ThreadId \<Rightarrow> Service result \<times> Kernel" where
  "k_take_delivered_service k driver =
     (let (res, idl) = idl_take (k_interrupt_deliveries k) driver
      in (res, k\<lparr>k_interrupt_deliveries := idl\<rparr>))"

definition k_schedule :: "Kernel \<Rightarrow> u64 \<Rightarrow> Decision \<times> Kernel" where
  "k_schedule k now =
     (let (decision, s) = sched_choose (k_scheduler k) now in (decision, k\<lparr>k_scheduler := s\<rparr>))"

section \<open>Memory and address spaces\<close>

abbreviation memory_grant_object_tag_mask :: ObjectId where
  "memory_grant_object_tag_mask \<equiv> 0xFFFF000000000000"

definition k_memory_for_capability ::
  "Kernel \<Rightarrow> ThreadId \<Rightarrow> CapabilityId \<Rightarrow> Rights \<Rightarrow> MemoryGrantAuthority \<Rightarrow> MemoryGrant result" where
  "k_memory_for_capability k holder capability required grants =
     (if holder = invalid_thread \<or> capability = invalid_capability then Inl as_invalid_capability
      else if \<not> cap_holds (k_capabilities k) holder capability then Inl as_invalid_capability
      else case cap_describe (k_capabilities k) capability of
          Inl err \<Rightarrow> Inl err
        | Inr description \<Rightarrow>
            if ci_rights description AND required = 0 \<or>
               ci_object description AND memory_grant_object_tag_mask \<noteq> memory_grant_object_tag
            then Inl as_invalid_capability
            else mg_resolve grants (grant_of_object (ci_object description)))"

definition k_map_authorize ::
  "Kernel \<Rightarrow> ThreadId \<Rightarrow> MapSyscall \<Rightarrow> AddressSpaceEpochAuthority \<Rightarrow> MemoryGrantAuthority \<Rightarrow>
   ExecutableRegionTable \<Rightarrow> MapAuthorization result" where
  "k_map_authorize k caller request epochs grants executables =
     (case address_space_identity_for_capability caller (mp_space request) (k_capabilities k)
             address_space_right_hold of
        Inl err \<Rightarrow> Inl err
      | Inr identity \<Rightarrow>
     (case ep_resolve epochs identity of
        Inl err \<Rightarrow> Inl err
      | Inr epoch \<Rightarrow>
     (case k_memory_for_capability k caller (mp_backing request) memory_right_map grants of
        Inl err \<Rightarrow> Inl err
      | Inr backing \<Rightarrow>
          if mp_permissions request = perm_read_execute \<and> xr_would_refuse executables identity
          then Inl xr_already_executable
          else let length = gr_length backing in
            if length > - 1 - mp_address request then Inl map_range_overflows
            else Inr \<lparr>ma_space = identity, ma_virtual = mp_address request,
                      ma_physical = gr_base backing, ma_length = length,
                      ma_permissions = mp_permissions request\<rparr>)))"

definition k_unmap_authorize ::
  "Kernel \<Rightarrow> ThreadId \<Rightarrow> UnmapSyscall \<Rightarrow> AddressSpaceEpochAuthority \<Rightarrow> MemoryGrantAuthority \<Rightarrow>
   ExecutableRegionTable \<Rightarrow> UnmapAuthorization result" where
  "k_unmap_authorize k caller request epochs grants executables =
     (case address_space_identity_for_capability caller (um_space request) (k_capabilities k)
             address_space_right_hold of
        Inl err \<Rightarrow> Inl err
      | Inr identity \<Rightarrow>
     (case ep_resolve epochs identity of
        Inl err \<Rightarrow> Inl err
      | Inr epoch \<Rightarrow>
     (case k_memory_for_capability k caller (um_backing request) memory_right_map grants of
        Inl err \<Rightarrow> Inl err
      | Inr backing \<Rightarrow>
          if (case xr_region_for executables identity of
                Inl _ \<Rightarrow> False | Inr region \<Rightarrow> xr_base region = um_address request)
          then Inl map_executable_region_immutable
          else let length = gr_length backing in
            if length > - 1 - um_address request then Inl map_range_overflows
            else Inr \<lparr>ua_space = identity, ua_virtual = um_address request, ua_length = length\<rparr>)))"

definition k_address_space_create ::
  "Kernel \<Rightarrow> ThreadId \<Rightarrow> CapabilityId \<Rightarrow> AddressSpaceEpochAuthority \<Rightarrow>
   AddressSpaceCreation result \<times> Kernel \<times> AddressSpaceEpochAuthority" where
  "k_address_space_create k creator authority epochs =
     (case address_space_capability creator authority (k_capabilities k)
             address_space_right_create address_space_authority_object of
        Inl err \<Rightarrow> (Inl err, k, epochs)
      | Inr _ \<Rightarrow>
     (case ep_acquire epochs of
        (Inl err, epochs1) \<Rightarrow> (Inl err, k, epochs1)
      | (Inr epoch, epochs1) \<Rightarrow>
     (case cap_mint (k_capabilities k) creator (address_space_object_id (epoch_identity epoch))
             (address_space_right_hold OR address_space_right_destroy OR address_space_right_admit) True of
        (Inl err, caps) \<Rightarrow>
          (Inl err, k\<lparr>k_capabilities := caps\<rparr>,
           case ep_begin_retire epochs1 epoch of
             (Inl _, epochs2) \<Rightarrow> epochs2
           | (Inr retiring, epochs2) \<Rightarrow> snd (ep_complete_retire epochs2 retiring))
      | (Inr minted, caps) \<Rightarrow>
          (Inr \<lparr>acr_epoch = epoch, acr_capability = minted\<rparr>, k\<lparr>k_capabilities := caps\<rparr>, epochs1))))"

definition k_address_space_begin_destroy ::
  "Kernel \<Rightarrow> ThreadId \<Rightarrow> CapabilityId \<Rightarrow> AddressSpaceEpochAuthority \<Rightarrow>
   RetiringAddressSpaceEpoch result \<times> AddressSpaceEpochAuthority" where
  "k_address_space_begin_destroy k owner space epochs =
     (case address_space_identity_for_capability owner space (k_capabilities k)
             address_space_right_destroy of
        Inl err \<Rightarrow> (Inl err, epochs)
      | Inr identity \<Rightarrow>
     (case ep_resolve epochs identity of
        Inl err \<Rightarrow> (Inl err, epochs)
      | Inr epoch \<Rightarrow> ep_begin_retire epochs epoch))"

definition k_address_space_complete_destroy ::
  "Kernel \<Rightarrow> ThreadId \<Rightarrow> CapabilityId \<Rightarrow> RetiringAddressSpaceEpoch \<Rightarrow> AddressSpaceEpochAuthority \<Rightarrow>
   unit result \<times> Kernel \<times> AddressSpaceEpochAuthority" where
  "k_address_space_complete_destroy k owner space retiring epochs =
     (case address_space_identity_for_capability owner space (k_capabilities k)
             address_space_right_destroy of
        Inl err \<Rightarrow> (Inl err, k, epochs)
      | Inr identity \<Rightarrow>
          if epoch_identity (re_epoch retiring) \<noteq> identity then (Inl as_invalid_capability, k, epochs)
          else (case ep_complete_retire epochs retiring of
                  (Inl err, epochs1) \<Rightarrow> (Inl err, k, epochs1)
                | (Inr _, epochs1) \<Rightarrow>
                    (case cap_revoke (k_capabilities k) owner space of
                       (Inl err, caps) \<Rightarrow> (Inl err, k\<lparr>k_capabilities := caps\<rparr>, epochs1)
                     | (Inr _, caps) \<Rightarrow> (Inr (), k\<lparr>k_capabilities := caps\<rparr>, epochs1))))"

definition k_thread_admit ::
  "Kernel \<Rightarrow> ThreadId \<Rightarrow> CapabilityId \<Rightarrow> u64 \<Rightarrow> SealedTranslationRoot \<Rightarrow> AddressSpaceEpochAuthority \<Rightarrow>
   ProcessTranslationTable \<Rightarrow> ExecutableRegionTable \<Rightarrow>
   ThreadAdmission result \<times> Kernel \<times> ProcessTranslationTable" where
  "k_thread_admit k creator space stack root epochs translations executables =
     (if stack = 0 then (Inl ta_invalid_stack, k, translations)
      else case address_space_identity_for_capability creator space (k_capabilities k)
                  address_space_right_admit of
        Inl err \<Rightarrow> (Inl err, k, translations)
      | Inr identity \<Rightarrow>
     (case ep_resolve epochs identity of
        Inl err \<Rightarrow> (Inl err, k, translations)
      | Inr epoch \<Rightarrow>
     (if \<not> root_valid root then (Inl ta_invalid_capability, k, translations)
      else case xr_region_for executables identity of
        Inl _ \<Rightarrow> (Inl ta_no_executable_region, k, translations)
      | Inr region \<Rightarrow>
     (let entry = xr_base region in
      if root_entry root \<noteq> entry then (Inl ta_entry_not_region_base, k, translations)
      else case tid_issue (k_thread_identifiers k) of
        (Inl err, ids) \<Rightarrow> (Inl err, k\<lparr>k_thread_identifiers := ids\<rparr>, translations)
      | (Inr issued, ids) \<Rightarrow>
     (let k1 = k\<lparr>k_thread_identifiers := ids\<rparr> in
      case rz_effective_priority_of (k_threads k1) creator of
        Inl err \<Rightarrow> (Inl err, k1, translations)
      | Inr creator_priority \<Rightarrow>
     (case k_create_admitted_thread k1 issued creator_priority of
        (Inl err, k2) \<Rightarrow> (Inl err, k2, translations)
      | (Inr _, k2) \<Rightarrow>
     (case pt_bind translations issued epoch root epochs of
        (Inl err, translations1) \<Rightarrow> (Inl err, snd (k_destroy_thread k2 issued), translations1)
      | (Inr _, translations1) \<Rightarrow>
          (Inr \<lparr>ta_thread = issued, ta_entry = entry, ta_stack = stack\<rparr>, k2, translations1))))))))"

end
