(* ===== verification/Kernel_Sync.thy ===== *)
theory Kernel_Sync
  imports Kernel
begin

text \<open>
  The run queue agrees with the rendezvous.  \<open>Kernel\<close> keeps two tables of threads, the rendezvous that
  decides who may run and at which priority, and the scheduler that picks; after an operation it
  reconciles either the two threads the operation named or all of them.  The lemmas show that the
  short form is enough: an operation on two threads changes the state and the priority of no other.
\<close>

section \<open>Operations on a few threads leave the others alone\<close>

definition rdv_local ::
  "ThreadId set \<Rightarrow> (ThreadId \<rightharpoonup> RzSlot) \<Rightarrow> (ThreadId \<rightharpoonup> RzSlot) \<Rightarrow> bool" where
  "rdv_local S v w \<longleftrightarrow> dom w = dom v \<and> (\<forall>u. u \<notin> S \<longrightarrow> w u = v u) \<and>
     (\<forall>u s s'. v u = Some s \<longrightarrow> w u = Some s' \<longrightarrow> rs_base s' = rs_base s \<and>
        (\<forall>t. t \<notin> S \<longrightarrow> rz_waits_on s' t = rz_waits_on s t))"

lemma rdv_local_refl: "rdv_local S v v"
  by (simp add: rdv_local_def)

lemma rdv_local_dom: "rdv_local S v w \<Longrightarrow> dom w = dom v"
  by (simp add: rdv_local_def)

lemma rdv_local_mono: "rdv_local S v w \<Longrightarrow> S \<subseteq> T \<Longrightarrow> rdv_local T v w"
  unfolding rdv_local_def by (metis subsetD)

lemma rdv_local_trans:
  assumes "rdv_local S v w" "rdv_local S w x"
  shows "rdv_local S v x"
  unfolding rdv_local_def
proof (intro conjI allI impI)
  show "dom x = dom v" using assms by (simp add: rdv_local_def)
  show "x u = v u" if "u \<notin> S" for u using assms that by (simp add: rdv_local_def)
next
  fix u s s'
  assume s: "v u = Some s" "x u = Some s'"
  then have "u \<in> dom w" using assms(1) by (auto simp: rdv_local_def)
  then obtain s1 where s1: "w u = Some s1" by blast
  show "rs_base s' = rs_base s" using assms s s1 by (auto simp: rdv_local_def)
  show "rz_waits_on s' t = rz_waits_on s t" if "t \<notin> S" for t
    using assms s s1 that unfolding rdv_local_def by (metis (no_types))
qed

lemma rdv_priority_cong:
  assumes "dom w = dom v"
    and "\<And>u s s'. v u = Some s \<Longrightarrow> w u = Some s' \<Longrightarrow>
      rs_base s' = rs_base s \<and> rz_waits_on s' t = rz_waits_on s t"
  shows "rdv_priority w t = rdv_priority v t"
proof -
  have older: "\<exists>s. v u = Some s \<and> rs_base s' = rs_base s \<and> rz_waits_on s' t = rz_waits_on s t"
    if "w u = Some s'" for u s'
    using assms that by (cases "v u") auto
  have newer: "\<exists>s'. w u = Some s' \<and> rs_base s' = rs_base s \<and> rz_waits_on s' t = rz_waits_on s t"
    if "v u = Some s" for u s
    using assms that by (cases "w u") auto
  have eq: "{rs_base other | u other. w u = Some other \<and> u \<noteq> t \<and> rz_waits_on other t} =
        {rs_base other | u other. v u = Some other \<and> u \<noteq> t \<and> rz_waits_on other t}"
    (is "?A = ?B")
  proof
    show "?A \<subseteq> ?B" using older by clarsimp metis
    show "?B \<subseteq> ?A" using newer by clarsimp metis
  qed
  show ?thesis
  proof (cases "v t")
    case None
    with older [of t] have "w t = None" by (cases "w t") auto
    with None show ?thesis by (simp add: rdv_priority_def)
  next
    case (Some s)
    with newer [of t] obtain s' where "w t = Some s'" "rs_base s' = rs_base s" by blast
    with Some show ?thesis unfolding rdv_priority_def eq by simp
  qed
qed

lemma rdv_local_priority:
  assumes "rdv_local S v w" "t \<notin> S"
  shows "w t = v t" "rdv_priority w t = rdv_priority v t"
proof -
  show "w t = v t" using assms by (simp add: rdv_local_def)
  show "rdv_priority w t = rdv_priority v t"
    using assms by (intro rdv_priority_cong) (simp_all add: rdv_local_def)
qed

text \<open>A new thread waits on nobody, so it changes nobody's priority.\<close>

lemma rdv_priority_new:
  assumes "v t = None" "\<And>u. \<not> rz_waits_on s u" "u \<noteq> t"
  shows "rdv_priority (v(t \<mapsto> s)) u = rdv_priority v u"
proof -
  have eq: "{rs_base other | x other. (v(t \<mapsto> s)) x = Some other \<and> x \<noteq> u \<and> rz_waits_on other u} =
        {rs_base other | x other. v x = Some other \<and> x \<noteq> u \<and> rz_waits_on other u}"
    using assms by (auto split: if_splits) (metis option.distinct(1))
  show ?thesis unfolding rdv_priority_def eq using assms(3) by simp
qed

lemma rz_local_put:
  assumes "rz_ok r" "rz_find r t = Some i" "rs_occupied s" "rs_thread s = t" "t \<in> S"
    and "rs_base s = rs_base (rz_at r i)"
    and "\<And>u. u \<notin> S \<Longrightarrow> rz_waits_on s u = rz_waits_on (rz_at r i) u"
  shows "rdv_local S (rz_view r) (rz_view (rz_put r i s))"
  using assms rz_put_ok [OF assms(1-4)] rz_find_Some [OF assms(2)] by (auto simp: rdv_local_def)

lemma rz_local_put2:
  assumes "rz_ok r" "rz_find r t = Some i" "rz_find r u = Some j" "t \<noteq> u"
    and "rs_occupied s" "rs_thread s = t" "rs_occupied d" "rs_thread d = u" "t \<in> S" "u \<in> S"
    and "rs_base s = rs_base (rz_at r i)" "rs_base d = rs_base (rz_at r j)"
    and "\<And>x. x \<notin> S \<Longrightarrow> rz_waits_on s x = rz_waits_on (rz_at r i) x"
    and "\<And>x. x \<notin> S \<Longrightarrow> rz_waits_on d x = rz_waits_on (rz_at r j) x"
  shows "rdv_local S (rz_view r) (rz_view (r\<lparr>rz_slots := (rz_slots r)[i := s, j := d]\<rparr>))"
proof -
  have "i \<noteq> j" using assms(2-4) rz_find_distinct by blast
  have 1: "rdv_local S (rz_view r) (rz_view (rz_put r i s))"
    using assms by (intro rz_local_put) auto
  have f: "rz_find (rz_put r i s) u = Some j"
    using rz_find_put [OF assms(1,2) assms(5,6)] assms(3) by simp
  have "rdv_local S (rz_view (rz_put r i s)) (rz_view (rz_put (rz_put r i s) j d))"
    using assms rz_put_ok(1) [OF assms(1,2) assms(5,6)] f \<open>i \<noteq> j\<close>
    by (intro rz_local_put [where t = u]) auto
  from rdv_local_trans [OF 1 this] show ?thesis by simp
qed

subsection \<open>The methods of the rendezvous\<close>

lemmas rz_local_simps = rdv_local_refl rz_at_fields rz_waits_on_def

lemma rz_block_send_local:
  "rz_ok r \<Longrightarrow> rdv_local {a, b} (rz_view r) (rz_view (snd (rz_block_send r a b)))"
  by (auto simp: rz_block_send_def rz_local_simps split: option.splits
      intro!: rz_local_put [where t = a])

lemma rz_deliver_local:
  "rz_ok r \<Longrightarrow> rdv_local {a, b} (rz_view r) (rz_view (snd (rz_deliver_waiting_receiver r a b)))"
  by (auto simp: rz_deliver_waiting_receiver_def rz_local_simps split: option.splits
      intro!: rz_local_put2 [where t = a and u = b])

lemma rz_accept_local:
  "rz_ok r \<Longrightarrow> rdv_local {b, a} (rz_view r) (rz_view (snd (rz_accept_sender r b a)))"
  by (auto simp: rz_accept_sender_def rz_local_simps split: option.splits
      intro!: rz_local_put2 [where t = b and u = a])

lemma rz_one_thread_local:
  assumes "rz_ok r"
  shows "rdv_local {a} (rz_view r) (rz_view (snd (rz_start_thread r a)))"
    and "rdv_local {a} (rz_view r) (rz_view (snd (rz_wait_receive r a)))"
    and "rdv_local {a} (rz_view r) (rz_view (snd (rz_cancel_receive r a)))"
    and "rdv_local {a} (rz_view r) (rz_view (snd (rz_expire_receive r a)))"
    and "rdv_local {a} (rz_view r) (rz_view (snd (rz_take_deadline_expiry r a)))"
  using assms
  by (auto simp: rz_start_thread_def rz_wait_receive_def rz_cancel_receive_def rz_expire_receive_def
      rz_take_deadline_expiry_def rz_local_simps split: option.splits intro!: rz_local_put [where t = a])

lemma rz_reply_local:
  "rz_ok r \<Longrightarrow> rdv_local {b, a} (rz_view r) (rz_view (snd (rz_reply r b a)))"
  by (auto simp: rz_reply_def rz_local_simps split: option.splits intro!: rz_local_put [where t = a])

lemma rz_send_local:
  "rz_ok r \<Longrightarrow> rdv_local {a, b} (rz_view r) (rz_view (snd (rz_send r a b)))"
  by (simp add: rz_send_def rz_deliver_local rz_block_send_local split: option.split)

lemma rz_cancel_call_local:
  assumes "rz_ok r"
  shows "rdv_local {a, b} (rz_view r) (rz_view (snd (rz_cancel_call r a b)))"
proof (cases "a = 0 \<or> b = 0 \<or> rz_find r a = None \<or> rz_find r b = None")
  case True
  then show ?thesis by (auto simp: rz_cancel_call_def rdv_local_refl split: option.splits)
next
  case False
  then obtain i j where ij: "rz_find r a = Some i" "rz_find r b = Some j" by auto
  show ?thesis
  proof (cases "rz_waits_on (rz_at r i) b")
    case waits: True
    let ?r1 = "rz_put r i ((rz_at r i)\<lparr>rs_state := ts_ready, rs_partner := 0, rs_wake := wake_endpoint_retired\<rparr>)"
    have 1: "rdv_local {a, b} (rz_view r) (rz_view ?r1)"
      using assms ij waits by (intro rz_local_put [where t = a]) (auto simp: rz_local_simps)
    have ok1: "rz_ok ?r1" and f: "rz_find ?r1 b = Some j"
      using ij rz_at_fields [OF ij(1)] rz_put_ok(1) [OF assms ij(1)] rz_find_put [OF assms ij(1)]
      by simp_all
    have "rdv_local {a, b} (rz_view ?r1) (rz_view (rz_put ?r1 j ((rz_at ?r1 j)\<lparr>rs_partner := 0\<rparr>)))"
      if "rs_state (rz_at ?r1 j) = ts_ready"
      using f ok1 that rz_at_fields [OF f]
      by (intro rz_local_put [where t = b]) (auto simp: rz_waits_on_def)
    from rdv_local_trans [OF 1 this] 1 show ?thesis
      using ij waits False by (simp add: rz_cancel_call_def Let_def)
  qed (use ij False in \<open>simp add: rz_cancel_call_def rdv_local_refl\<close>)
qed

lemma rz_receive_cases:
  assumes inv: "rz_inv r"
  obtains (refused) e where "rz_receive r b = (Inl e, r)"
    | (received) c r' where "rz_receive r b = (Inr c, r')" "rdv_local {b, c} (rz_view r) (rz_view r')"
      "\<And>s. rz_view r b = Some s \<Longrightarrow> rs_partner s \<noteq> 0 \<Longrightarrow> c = rs_partner s"
proof (cases "b = 0 \<or> rz_find r b = None \<or>
    (\<exists>i. rz_find r b = Some i \<and> rs_state (rz_at r i) \<noteq> ts_ready)")
  case True
  then have "\<exists>e. rz_receive r b = (Inl e, r)" by (auto simp: rz_receive_def)
  with refused show ?thesis by blast
next
  case False
  then obtain i where i: "rz_find r b = Some i" "rs_state (rz_at r i) = ts_ready" "b \<noteq> 0" by auto
  have ok: "rz_ok r" using inv by (simp add: rz_inv_def)
  note fi = rz_at_fields [OF i(1)]
  let ?d = "(rz_at r i)\<lparr>rs_wake := wake_none\<rparr>"
  let ?r1 = "rz_put r i ?d"
  have ok1: "rz_ok ?r1" and v1: "rz_view ?r1 = (rz_view r)(b \<mapsto> ?d)"
    using rz_put_ok [OF ok i(1), of ?d] fi by simp_all
  have l1: "rdv_local {b, c} (rz_view r) (rz_view ?r1)" for c
    using ok i fi by (intro rz_local_put [where t = b]) (auto simp: rz_waits_on_def)
  show ?thesis
  proof (cases "rs_partner (rz_at r i) = 0")
    case False
    have "rdv_local {b, rs_partner (rz_at r i)} (rz_view r)
        (rz_view (rz_put r i (?d\<lparr>rs_partner := 0\<rparr>)))"
      using ok i fi by (intro rz_local_put [where t = b]) (auto simp: rz_waits_on_def)
    with i False fi show ?thesis
      by (intro received [of "rs_partner (rz_at r i)"]) (auto simp: rz_receive_def Let_def)
  next
    case p0: True
    let ?P = "\<lambda>s. rs_occupied s \<and> rs_state s = ts_send_blocked \<and> rs_partner s = b"
    show ?thesis
    proof (cases "first_index ?P (rz_slots ?r1)")
      case None
      have "fst (rz_wait_receive ?r1 b) = Inr ()"
        using i p0 fi rz_find_put [OF ok i(1), of ?d b] by (simp add: rz_wait_receive_def)
      with None i p0 fi have "rz_receive r b = (Inr 0, snd (rz_wait_receive ?r1 b))"
        by (cases "rz_wait_receive ?r1 b") (simp add: rz_receive_def Let_def)
      moreover have "rdv_local {b, 0} (rz_view r) (rz_view (snd (rz_wait_receive ?r1 b)))"
        using rdv_local_trans [OF l1 [of 0] rdv_local_mono [OF rz_one_thread_local(2) [OF ok1, of b]]] by simp
      ultimately show ?thesis using p0 i fi by (intro received [of 0]) simp_all
    next
      case (Some j)
      let ?c = "rs_thread (rz_at ?r1 j)"
      have j: "j < length (rz_slots ?r1)" "?P (rz_at ?r1 j)" using first_index_SomeD [OF Some] by auto
      have "rz_find ?r1 ?c = Some j"
        using ok1 j unfolding rz_ok_def slot_ok_def by (simp add: rz_find_def rzt.find_iff)
      then have vc: "rz_view ?r1 ?c = Some (rz_at ?r1 j)" by (rule rz_find_Some)
      have cb: "?c \<noteq> b" using vc j(2) v1 i(2) by auto
      have "fst (rz_accept_sender ?r1 b ?c) = Inr ()"
        using rz_accept_ok(1) [OF ok1 _ vc cb, of ?d] v1 i j by simp
      with Some i p0 fi have "rz_receive r b = (Inr ?c, snd (rz_accept_sender ?r1 b ?c))"
        by (cases "rz_accept_sender ?r1 b ?c") (simp add: rz_receive_def Let_def)
      with rdv_local_trans [OF l1 rz_accept_local [OF ok1]] p0 i fi show ?thesis
        by (intro received [of ?c]) simp_all
    qed
  qed
qed

text \<open>A refused method changes nothing.\<close>

lemma rz_refused:
  "rz_send r a b = (Inl e, r') \<Longrightarrow> r' = r" "rz_reply r b a = (Inl e, r') \<Longrightarrow> r' = r"
  "rz_start_thread r a = (Inl e, r') \<Longrightarrow> r' = r" "rz_block_send r a b = (Inl e, r') \<Longrightarrow> r' = r"
  "rz_deliver_waiting_receiver r a b = (Inl e, r') \<Longrightarrow> r' = r"
  "rz_wait_receive r a = (Inl e, r') \<Longrightarrow> r' = r" "rz_accept_sender r b a = (Inl e, r') \<Longrightarrow> r' = r"
  "rz_cancel_receive r a = (Inl e, r') \<Longrightarrow> r' = r" "rz_expire_receive r a = (Inl e, r') \<Longrightarrow> r' = r"
  "rz_exit_thread r a = (Inl e, r'') \<Longrightarrow> r'' = r" "rz_create_thread r a p = (Inl e, r') \<Longrightarrow> r' = r"
  "rz_create_admitted_thread r a p = (Inl e, r') \<Longrightarrow> r' = r"
  by (auto simp: rz_send_def rz_block_send_def rz_deliver_waiting_receiver_def rz_reply_def
      rz_start_thread_def rz_wait_receive_def rz_accept_sender_def rz_cancel_receive_def
      rz_expire_receive_def rz_exit_thread_def rz_create_thread_def rz_create_admitted_thread_def
      Let_def split: option.splits if_splits)

section \<open>Agreement\<close>

text \<open>
  The scheduler's entry of a thread against the rendezvous: both know the thread or neither does, the
  priority is the effective one, and what the scheduler may run is ready.  With \<open>strict\<close>, a ready
  thread is runnable as well.  Of the threads in \<open>T\<close>, those whose entry somebody wrote directly in the
  run queue, only the first is asked.
\<close>

definition agrees :: "ThreadId set \<Rightarrow> bool \<Rightarrow> Rendezvous \<Rightarrow> Scheduler \<Rightarrow> ThreadId \<Rightarrow> bool" where
  "agrees T strict r s t \<longleftrightarrow>
     (case (rz_view r t, sched_view s t) of
        (None, None) \<Rightarrow> True
      | (Some x, Some y) \<Rightarrow> t \<in> T \<or> ss_effective y = rdv_priority (rz_view r) t \<and>
          (ss_runnable y \<longrightarrow> rs_state x = ts_ready) \<and> (strict \<longrightarrow> rs_state x = ts_ready \<longrightarrow> ss_runnable y)
      | _ \<Rightarrow> False)"

lemma agrees_known: "agrees T strict r s t \<Longrightarrow> rz_view r t = None \<longleftrightarrow> sched_view s t = None"
  by (auto simp: agrees_def split: option.splits)

lemma agrees_strict: "agrees T True r s t \<Longrightarrow> agrees T strict r s t"
  by (auto simp: agrees_def split: option.splits)

lemma agrees_frame:
  assumes "agrees T strict r s t" "rz_view r' t = rz_view r t" "sched_view s' t = sched_view s t"
    and "rdv_priority (rz_view r') t = rdv_priority (rz_view r) t"
  shows "agrees T strict r' s' t"
  using assms by (auto simp: agrees_def split: option.splits)

lemma synchronise_thread_view:
  assumes "rz_ok r" "sched_ok s"
  shows "sched_ok (synchronise_thread r t s)"
    and "sched_view (synchronise_thread r t s) = (\<lambda>u. if u = t
      then (case rz_view r t of None \<Rightarrow> sched_view s t
            | Some x \<Rightarrow> map_option (\<lambda>y. y\<lparr>ss_runnable := (rs_state x = ts_ready),
                ss_effective := rdv_priority (rz_view r) t\<rparr>) (sched_view s t))
      else sched_view s u)"
proof -
  have "sched_ok (synchronise_thread r t s) \<and> sched_view (synchronise_thread r t s) = (\<lambda>u. if u = t
      then (case rz_view r t of None \<Rightarrow> sched_view s t
            | Some x \<Rightarrow> map_option (\<lambda>y. y\<lparr>ss_runnable := (rs_state x = ts_ready),
                ss_effective := rdv_priority (rz_view r) t\<rparr>) (sched_view s t))
      else sched_view s u)"
  proof (cases "rz_view r t")
    case None
    then have "rz_find r t = None" by (simp add: rz_find_None)
    with None assms show ?thesis by (auto simp: synchronise_thread_def rz_state_of_def)
  next
    case (Some x)
    then have "rz_state_of r t = Inr (rs_state x)" by (simp add: rz_state_of_iff)
    with Some assms show ?thesis
      by (auto simp: synchronise_thread_def rz_effective_priority_view sched_update_view fun_eq_iff)
  qed
  then show "sched_ok (synchronise_thread r t s)"
    and "sched_view (synchronise_thread r t s) = (\<lambda>u. if u = t
      then (case rz_view r t of None \<Rightarrow> sched_view s t
            | Some x \<Rightarrow> map_option (\<lambda>y. y\<lparr>ss_runnable := (rs_state x = ts_ready),
                ss_effective := rdv_priority (rz_view r) t\<rparr>) (sched_view s t))
      else sched_view s u)" by blast+
qed

lemma synchronise_thread_agrees:
  assumes "rz_ok r" "sched_ok s" "rz_view r u = None \<longleftrightarrow> sched_view s u = None"
    and "u \<noteq> t \<Longrightarrow> agrees T strict r s u"
  shows "agrees T strict r (synchronise_thread r t s) u"
proof (cases "u = t")
  case True
  with assms(3) show ?thesis
    by (auto simp: agrees_def synchronise_thread_view [OF assms(1,2)] split: option.splits)
next
  case False
  with assms(4) have "agrees T strict r s u" by simp
  then show ?thesis
    by (rule agrees_frame) (simp_all add: synchronise_thread_view [OF assms(1,2)] False)
qed

lemma synchronise_thread_known:
  "rz_ok r \<Longrightarrow> sched_ok s \<Longrightarrow> sched_view (synchronise_thread r t s) u = None \<longleftrightarrow> sched_view s u = None"
  by (auto simp: synchronise_thread_view split: option.splits)

lemma synchronise_fold_ind:
  assumes "rz_ok r"
  shows "sched_ok s \<Longrightarrow> (\<And>u. rz_view r u = None \<longleftrightarrow> sched_view s u = None) \<Longrightarrow>
    sched_ok (fold (synchronise_thread r) ts s) \<and>
    ((u \<notin> set ts \<longrightarrow> agrees T strict r s u) \<longrightarrow> agrees T strict r (fold (synchronise_thread r) ts s) u)"
proof (induction ts arbitrary: s)
  case (Cons t ts)
  let ?s1 = "synchronise_thread r t s"
  have ok1: "sched_ok ?s1" using synchronise_thread_view(1) [OF assms Cons.prems(1)] .
  have kn1: "\<And>u. rz_view r u = None \<longleftrightarrow> sched_view ?s1 u = None"
    using synchronise_thread_known [OF assms Cons.prems(1)] Cons.prems(2) by simp
  have "agrees T strict r ?s1 u" if "u \<notin> set ts" "u \<notin> set (t # ts) \<longrightarrow> agrees T strict r s u"
    using that synchronise_thread_agrees [OF assms Cons.prems(1) Cons.prems(2)] by auto
  with Cons.IH [OF ok1 kn1] show ?case by simp
qed simp

lemma synchronise_fold:
  assumes "rz_ok r" "sched_ok s" "\<And>u. rz_view r u = None \<longleftrightarrow> sched_view s u = None"
  shows "sched_ok (fold (synchronise_thread r) ts s)"
    and "(u \<notin> set ts \<Longrightarrow> agrees T strict r s u) \<Longrightarrow> agrees T strict r (fold (synchronise_thread r) ts s) u"
  using synchronise_fold_ind [OF assms] by blast+

lemma k_synchronise_scheduler:
  "k_synchronise k = k\<lparr>k_scheduler := fold (synchronise_thread (k_threads k)) (k_living k) (k_scheduler k)\<rparr>"
proof -
  have "fold (\<lambda>t k. k_synchronise_thread k t) ts k =
      k\<lparr>k_scheduler := fold (synchronise_thread (k_threads k)) ts (k_scheduler k)\<rparr>" for ts
    by (induction ts arbitrary: k) (simp_all add: k_synchronise_thread_def)
  then show ?thesis by (simp add: k_synchronise_def)
qed

lemma k_synchronise_pair_scheduler:
  "k_synchronise_pair k a b = k\<lparr>k_scheduler :=
     fold (synchronise_thread (k_threads k)) (if b \<noteq> a then [a, b] else [a]) (k_scheduler k)\<rparr>"
  by (simp add: k_synchronise_pair_def k_synchronise_thread_def Let_def)

section \<open>What the endpoint table does to the rendezvous\<close>

definition rz_keeps :: "Rendezvous \<Rightarrow> Rendezvous \<Rightarrow> bool" where
  "rz_keeps r r' \<longleftrightarrow> rz_inv r' \<and> dom (rz_view r') = dom (rz_view r)"

lemma rz_keeps_refl: "rz_inv r \<Longrightarrow> rz_keeps r r" by (simp add: rz_keeps_def)

lemma rz_keeps_trans: "rz_keeps r r1 \<Longrightarrow> rz_keeps r1 r2 \<Longrightarrow> rz_keeps r r2"
  by (simp add: rz_keeps_def)

lemma rz_keepsI:
  "rz_inv r \<Longrightarrow> rz_sim r r' \<Longrightarrow> rdv_local S (rz_view r) (rz_view r') \<Longrightarrow> rz_keeps r r'"
  by (simp add: rz_keeps_def rdv_local_dom rz_sim_inv)

lemma rz_method_keeps:
  assumes "rz_inv r"
  shows "rz_keeps r (snd (rz_block_send r a b))" "rz_keeps r (snd (rz_deliver_waiting_receiver r a b))"
    and "rz_keeps r (snd (rz_accept_sender r b a))" "rz_keeps r (snd (rz_wait_receive r a))"
    and "rz_keeps r (snd (rz_cancel_receive r a))" "rz_keeps r (snd (rz_expire_receive r a))"
    and "rz_keeps r (snd (rz_take_deadline_expiry r a))" "rz_keeps r (snd (rz_reply r b a))"
    and "rz_keeps r (snd (rz_send r a b))" "rz_keeps r (snd (rz_cancel_call r a b))"
    and "rz_keeps r (snd (rz_start_thread r a))" "rz_keeps r (snd (rz_receive r b))"
proof -
  have ok: "rz_ok r" and inv: "rdv_inv (rz_view r)" using assms by (simp_all add: rz_inv_def)
  note k = rz_keepsI [OF assms]
  note o = rz_one_thread_local [OF ok]
  show "rz_keeps r (snd (rz_block_send r a b))" by (rule k [OF rz_block_send_sim [OF ok] rz_block_send_local [OF ok]])
  show "rz_keeps r (snd (rz_deliver_waiting_receiver r a b))" by (rule k [OF rz_deliver_sim [OF ok] rz_deliver_local [OF ok]])
  show "rz_keeps r (snd (rz_accept_sender r b a))" by (rule k [OF rz_accept_sim [OF ok] rz_accept_local [OF ok]])
  show "rz_keeps r (snd (rz_wait_receive r a))" by (rule k [OF rz_wait_receive_sim [OF ok] o(2)])
  show "rz_keeps r (snd (rz_cancel_receive r a))" by (rule k [OF rz_cancel_receive_sim [OF ok] o(3)])
  show "rz_keeps r (snd (rz_expire_receive r a))" by (rule k [OF rz_expire_receive_sim [OF ok] o(4)])
  show "rz_keeps r (snd (rz_take_deadline_expiry r a))" by (rule k [OF rz_take_deadline_expiry_sim [OF ok] o(5)])
  show "rz_keeps r (snd (rz_reply r b a))" by (rule k [OF rz_reply_sim [OF ok] rz_reply_local [OF ok]])
  show "rz_keeps r (snd (rz_send r a b))" by (rule k [OF rz_send_sim [OF ok] rz_send_local [OF ok]])
  show "rz_keeps r (snd (rz_cancel_call r a b))" by (rule k [OF rz_cancel_call_sim [OF ok inv] rz_cancel_call_local [OF ok]])
  show "rz_keeps r (snd (rz_start_thread r a))" by (rule k [OF rz_start_thread_sim [OF ok] o(1)])
  show "rz_keeps r (snd (rz_receive r b))"
    by (cases rule: rz_receive_cases [OF assms, of b])
       (use rz_keeps_refl [OF assms] k [OF rz_receive_sim [OF ok, of b]] in auto)
qed

text \<open>What every call into the endpoint table guarantees: a refusal leaves the rendezvous as it was, and
  no thread appears or disappears.\<close>

definition ipc_safe :: "Rendezvous \<Rightarrow> 'a result \<times> IpcEndpointTable \<times> Rendezvous \<Rightarrow> bool" where
  "ipc_safe r out \<longleftrightarrow>
     (case out of (res, t', r') \<Rightarrow> rz_keeps r r' \<and> (\<not> is_ok res \<longrightarrow> r' = r))"

lemma ipc_safe_refused: "rz_inv r \<Longrightarrow> ipc_safe r (Inl e, t, r)"
  by (simp add: ipc_safe_def rz_keeps_refl)

lemma ipc_safe_call:
  assumes "rz_keeps r (snd f)" "\<And>e r'. f = (Inl e, r') \<Longrightarrow> r' = r"
  shows "ipc_safe r (case f of (Inl err, r1) \<Rightarrow> (Inl err, t err, r1) | (Inr v, r1) \<Rightarrow> (Inr (g v), t' v, r1))"
  using assms by (cases f) (auto simp: ipc_safe_def split: sum.split)

lemma ipc_send_safe:
  assumes "rz_inv r"
  shows "ipc_safe r (ipc_send_to_endpoint t a sp e r req)"
    "ipc_safe r (ipc_send t a c caps r req)" "ipc_safe r (ipc_send_ctx t x c caps r req)"
proof -
  have 1: "ipc_safe r (ipc_send_to_endpoint t a sp e r req)" for a sp e
  proof -
    have "ipc_safe r (case (if w then rz_deliver_waiting_receiver r a b else rz_block_send r a b) of
        (Inl err, r1) \<Rightarrow> (Inl err, t, r1) | (Inr _, r1) \<Rightarrow> (Inr (), t', r1))" for w b t'
      using rz_method_keeps(1,2) [OF assms] rz_refused(4,5) by (intro ipc_safe_call) (auto split: if_splits)
    then show ?thesis
      by (simp add: ipc_send_to_endpoint_def ipc_safe_refused [OF assms] Let_def split: option.split)
  qed
  then show "ipc_safe r (ipc_send_to_endpoint t a sp e r req)" .
  show "ipc_safe r (ipc_send t a c caps r req)" "ipc_safe r (ipc_send_ctx t x c caps r req)"
    using 1 by (auto simp: ipc_send_def ipc_send_ctx_def ipc_safe_refused [OF assms] split: sum.split)
qed

lemma ipc_reply_safe:
  assumes "rz_inv r"
  shows "ipc_safe r (ipc_reply t b seal r resp)" "ipc_safe r (ipc_reply_ctx t x seal r resp)"
    "ipc_safe r (ipc_reply_transaction t b n r resp)" "ipc_safe r (ipc_reply_transaction_ctx t x n r resp)"
proof -
  have 1: "ipc_safe r (ipc_reply t b seal r resp)" for b seal
  proof -
    have "ipc_safe r (case rz_reply r b a of
        (Inl err, r1) \<Rightarrow> (Inl err, t1, r1) | (Inr _, r1) \<Rightarrow> (Inr (), t2, r1))" for a b t1 t2
      using rz_method_keeps(8) [OF assms] rz_refused(2) by (intro ipc_safe_call) auto
    then show ?thesis
      by (simp add: ipc_reply_def ipc_safe_refused [OF assms] Let_def split: option.split)
  qed
  then show "ipc_safe r (ipc_reply t b seal r resp)" .
  have 2: "ipc_safe r (ipc_reply_ctx t x seal r resp)" for seal
    using 1 by (simp add: ipc_reply_ctx_def ipc_safe_refused [OF assms])
  then show "ipc_safe r (ipc_reply_ctx t x seal r resp)" .
  show "ipc_safe r (ipc_reply_transaction t b n r resp)" "ipc_safe r (ipc_reply_transaction_ctx t x n r resp)"
    using 1 2 by (auto simp: ipc_reply_transaction_def ipc_reply_transaction_ctx_def
        ipc_safe_refused [OF assms] split: option.split)
qed

text \<open>A receive touches the server and the caller it names only, a reply the server and the caller of
  the seal.\<close>

definition rdv_pair :: "ThreadId \<Rightarrow> ThreadId \<Rightarrow> Rendezvous \<Rightarrow> Rendezvous \<Rightarrow> bool" where
  "rdv_pair a b r r' \<longleftrightarrow> rz_keeps r r' \<and> rdv_local {a, b} (rz_view r) (rz_view r')"

definition ipc_receive_pair :: "ThreadId \<Rightarrow> Rendezvous \<Rightarrow> IpcReceived result \<times> IpcEndpointTable \<times> Rendezvous \<Rightarrow> bool" where
  "ipc_receive_pair b r out \<longleftrightarrow>
     (case out of (Inl _, _, r') \<Rightarrow> r' = r | (Inr rc, _, r') \<Rightarrow> rdv_pair b (rcv_caller rc) r r')"

lemma ipc_receive_pair_refused: "ipc_receive_pair b r (Inl e, t, r)"
  by (simp add: ipc_receive_pair_def)

lemma ipc_receive_taken:
  assumes inv: "rz_inv r" and del: "rz_partner_of r b = Inr del" "del \<noteq> 0 \<longrightarrow> c = del"
    and taken: "(if del \<noteq> 0 then (case rz_receive r b of
         (Inl _, r1) \<Rightarrow> (Inl ipc_pending_call_missing, r1)
       | (Inr consumed, r1) \<Rightarrow> (if consumed \<noteq> del then Inl ipc_pending_call_missing else Inr (), r1))
       else rz_accept_sender r b c) = (x, r')"
  shows "case x of Inl _ \<Rightarrow> r' = r | Inr _ \<Rightarrow> rdv_pair b c r r'"
proof (cases "del = 0")
  case True
  then have "rz_accept_sender r b c = (x, r')" using taken by simp
  then show ?thesis
    using rz_refused(7) rz_method_keeps(3) [OF inv, of b c] rz_accept_local [of r b c] inv
    by (cases x) (auto simp: rdv_pair_def rz_inv_def)
next
  case False
  then have c: "c = del" using del by simp
  obtain d where d: "rz_view r b = Some d" "rs_partner d = del" using del by (auto simp: rz_partner_of_iff)
  show ?thesis
    using inv
  proof (cases rule: rz_receive_cases [where b = b])
    case (refused e)
    with taken False show ?thesis by auto
  next
    case (received c' r1)
    with d False have "c' = del" by simp
    with received taken False c rz_method_keeps(12) [OF inv, of b] show ?thesis
      by (auto simp: rdv_pair_def)
  qed
qed

lemma ipc_receive_endpoint_pair:
  assumes inv: "rz_inv r"
  shows "ipc_receive_pair b r (ipc_receive_from_endpoint t b sp e r)"
proof (cases "ipc_slot_for t e")
  case None
  then show ?thesis by (simp add: ipc_receive_from_endpoint_def ipc_receive_pair_refused)
next
  case i: (Some i)
  define owner where "owner = ipc_endpoints t ! i"
  show ?thesis
  proof (cases "en_server owner \<noteq> b \<or> en_receive_waiting owner \<or> \<not> is_ok (rz_partner_of r b)")
    case True
    then have "\<exists>err. ipc_receive_from_endpoint t b sp e r = (Inl err, t, r)"
      using i by (cases "rz_partner_of r b") (auto simp: ipc_receive_from_endpoint_def Let_def owner_def)
    then show ?thesis using ipc_receive_pair_refused by metis
  next
    case False
    then obtain del where del: "rz_partner_of r b = Inr del" by (cases "rz_partner_of r b") auto
    define look where "look = (if del \<noteq> 0 then ipc_pending_slot t del e else ipc_pending_slot_endpoint t e)"
    note base = ipc_receive_from_endpoint_def [of t b sp e r] i del False owner_def
    show ?thesis
    proof (cases look)
      case None
      obtain c r' where c: "rz_wait_receive r b = (c, r')" by fastforce
      have "rdv_local {b, 0} (rz_view r) (rz_view r')" "rz_keeps r r'"
        using c rdv_local_mono [OF rz_one_thread_local(2) [of r b], of "{b, 0}"] inv
          rz_method_keeps(4) [OF inv, of b] by (auto simp: rz_inv_def)
      with base None c rz_refused(6) show ?thesis
        by (cases c) (auto simp: Let_def look_def ipc_receive_pair_def rdv_pair_def no_received_def split: if_splits)
    next
      case (Some p)
      define caller where "caller = pn_caller (ipc_pending t ! p)"
      have p: "del \<noteq> 0 \<longrightarrow> caller = del"
        using Some by (auto simp: look_def caller_def ipc_pending_slot_def split: if_splits
            dest!: first_index_SomeD)
      obtain x r' where x: "(if del \<noteq> 0 then (case rz_receive r b of
         (Inl _, r1) \<Rightarrow> (Inl ipc_pending_call_missing, r1)
       | (Inr consumed, r1) \<Rightarrow> (if consumed \<noteq> del then Inl ipc_pending_call_missing else Inr (), r1))
       else rz_accept_sender r b caller) = (x, r')" by (rule prod.exhaust)
      note taken = ipc_receive_taken [OF inv del p x]
      have "\<exists>err. ipc_receive_from_endpoint t b sp e r = (Inl err, t, r) \<or>
        ipc_receive_from_endpoint t b sp e r = (Inl err, t, r') \<and> x = Inl err \<or>
        x = Inr () \<and> (\<exists>rc t'. ipc_receive_from_endpoint t b sp e r = (Inr rc, t', r') \<and> rcv_caller rc = caller)"
        using base Some x [unfolded caller_def]
        by (cases x) (auto simp: Let_def look_def caller_def split: option.split)
      with taken show ?thesis by (auto simp: ipc_receive_pair_def)
    qed
  qed
qed

lemma ipc_receive_pairs:
  assumes "rz_inv r"
  shows "ipc_receive_pair b r (ipc_receive t b c caps r)"
    "ipc_receive_pair (ea_thread x) r (ipc_receive_ctx t x c caps r)"
  using ipc_receive_endpoint_pair [OF assms]
  by (auto simp: ipc_receive_def ipc_receive_ctx_def ipc_receive_pair_refused split: sum.split)

lemma ipc_reply_pair:
  assumes "rz_inv r" "ipc_reply t b seal r resp = (Inr (), t', r')"
  shows "rdv_pair b (seal_caller seal) r r'"
proof (cases rule: ipc_reply_cases [of t b seal r resp])
  case (replied s p c r1)
  with assms rz_method_keeps(8) [OF assms(1), of b "seal_caller seal"]
    rz_reply_local [of r b "seal_caller seal"] show ?thesis
    by (auto simp: rdv_pair_def rz_inv_def)
qed (use assms in simp_all)

lemma ipc_reply_ctx_pair:
  assumes "rz_inv r" "ipc_reply_ctx t x seal r resp = (Inr (), t', r')"
  shows "rdv_pair (ea_thread x) (seal_caller seal) r r'"
  using assms ipc_reply_pair by (auto simp: ipc_reply_ctx_def split: if_splits)

subsection \<open>Retirement\<close>

lemma ipc_cancel_pending_keeps:
  "rz_inv r \<Longrightarrow> rz_keeps r (snd (snd (ipc_cancel_pending e ps n r)))"
proof (induction ps arbitrary: n r)
  case (Cons p ps)
  let ?r1 = "snd (rz_cancel_call r (pn_caller p) (pn_server p))"
  have k: "rz_keeps r ?r1" by (rule rz_method_keeps(10) [OF Cons.prems])
  then have "rz_keeps r (snd (snd (ipc_cancel_pending e ps (n - 1) ?r1)))"
    using Cons.IH [of ?r1 "n - 1"] rz_keeps_trans rz_keeps_def by blast
  with Cons.IH [OF Cons.prems, of n] show ?case by (simp add: Let_def split_beta)
qed (simp add: rz_keeps_refl)

lemma ipc_retire_safe:
  assumes "rz_inv r"
  shows "ipc_safe r (ipc_retire t b e r)"
    and "fst (ipc_retire t b e r) = Inl err \<Longrightarrow> ipc_retire t b e r = (Inl err, t, r)"
proof -
  have refused: "r' = r" if "ipc_retire t b e r = (Inl err, t', r')" for err t' r'
    using that rz_refused(8) by (auto simp: ipc_retire_def Let_def split: option.splits if_splits prod.splits sum.splits)
  have retired: "rz_keeps r r'" if ret: "ipc_retire t b e r = (Inr u, t', r')" for u t' r'
  proof -
    obtain i where i: "ipc_slot_for t e = Some i"
      using ret by (cases "ipc_slot_for t e") (auto simp: ipc_retire_def)
    obtain c r1 where c: "(if en_receive_waiting (ipc_endpoints t ! i) then rz_cancel_receive r b
        else (Inr (), r)) = (c, r1)" by (rule prod.exhaust)
    have own: "\<not> (b = 0 \<or> en_server (ipc_endpoints t ! i) \<noteq> b)"
    proof
      assume "b = 0 \<or> en_server (ipc_endpoints t ! i) \<noteq> b"
      then have "ipc_retire t b e r = (Inl ipc_not_endpoint_owner, t, r)"
        using i by (simp add: ipc_retire_def Let_def)
      with ret show False by simp
    qed
    have "\<exists>t1. ipc_retire t b e r = (case c of Inl err \<Rightarrow> (Inl err, t, r1)
        | Inr _ \<Rightarrow> (Inr (), ipc_cancel_pending_for t1 e r1))"
      using i own c by (cases c) (simp_all add: ipc_retire_def Let_def split_beta, metis)
    then have r': "\<exists>t1. r' = snd (ipc_cancel_pending_for t1 e r1)"
      using ret by (cases c) (simp_all, metis snd_conv)
    have "rz_keeps r r1"
      using c rz_method_keeps(5) [OF assms, of b] rz_keeps_refl [OF assms] by (auto split: if_splits)
    moreover have "rz_keeps r1 r'"
    proof -
      have "rz_inv r1" using \<open>rz_keeps r r1\<close> by (simp add: rz_keeps_def)
      from ipc_cancel_pending_keeps [OF this] r' show ?thesis
        by (auto simp: ipc_cancel_pending_for_def split_beta)
    qed
    ultimately show ?thesis by (rule rz_keeps_trans)
  qed
  show "ipc_safe r (ipc_retire t b e r)"
    using refused retired rz_keeps_refl [OF assms]
    by (cases "ipc_retire t b e r"; cases "fst (ipc_retire t b e r)") (auto simp: ipc_safe_def)
  show "ipc_retire t b e r = (Inl err, t, r)" if "fst (ipc_retire t b e r) = Inl err"
    using that refused by (cases rule: ipc_retire_cases [of t b e r]) auto
qed

lemma ipc_retire_endpoints:
  "ipc_endpoints (fst (snd (ipc_retire t b e r))) = ipc_endpoints t \<or>
   (\<exists>i x. i < length (ipc_endpoints t) \<and> ipc_slot_for t e = Some i \<and> \<not> en_active x \<and>
      ipc_endpoints (fst (snd (ipc_retire t b e r))) = (ipc_endpoints t)[i := x])"
proof (cases rule: ipc_retire_cases [of t b e r])
  case (retired i r1)
  let ?x = "(ipc_endpoints t ! i)\<lparr>en_receive_waiting := False, en_server := 0, en_active := False\<rparr>"
  have "ipc_endpoints (fst (snd (ipc_retire t b e r))) = (ipc_endpoints t)[i := ?x]"
    using retired by (simp add: ipc_invalidate_replies_for_def)
  moreover have "\<not> en_active ?x" "i < length (ipc_endpoints t)"
    using retired(1) by (simp_all add: ipc_slot_for_iff)
  ultimately show ?thesis using retired(1) by blast
qed simp

lemma ipc_retire_gone:
  assumes "fst (ipc_retire t b e r) = Inr u" "ipc_slot_for t e = Some i"
  shows "\<not> en_active (ipc_endpoints (fst (snd (ipc_retire t b e r))) ! i)"
proof (cases rule: ipc_retire_cases [of t b e r])
  case (retired j r1)
  with assms have "j = i" "i < length (ipc_endpoints t)" by (auto simp: ipc_slot_for_iff)
  with retired(3) show ?thesis by (simp add: ipc_invalidate_replies_for_def)
qed (use assms in simp)

lemma ipc_retire_idle:
  assumes "ipc_slot_for t e = Some i" "en_server (ipc_endpoints t ! i) = b" "b \<noteq> 0"
    and "\<not> en_receive_waiting (ipc_endpoints t ! i)"
  shows "fst (ipc_retire t b e r) = Inr ()"
  using assms by (simp add: ipc_retire_def Let_def split_beta)

text \<open>The loop over all endpoints of a dying thread: an endpoint is unchanged or dead, and one that is
  still the thread's was and is waiting on a receive that could not be cancelled.\<close>

lemma ipc_retire_owned_spec:
  assumes "b \<noteq> 0"
  shows "ipc_ok t \<Longrightarrow> rz_inv r \<Longrightarrow> set is \<subseteq> {..<max_ipc_endpoints} \<Longrightarrow>
    ipc_retire_owned b is t r n = (m, t', r') \<Longrightarrow>
    ipc_ok t' \<and> rz_keeps r r' \<and>
    (\<forall>j < max_ipc_endpoints. ipc_endpoints t' ! j = ipc_endpoints t ! j \<or> \<not> en_active (ipc_endpoints t' ! j)) \<and>
    (\<forall>j \<in> set is. en_active (ipc_endpoints t' ! j) \<and> en_server (ipc_endpoints t' ! j) = b \<longrightarrow>
       en_receive_waiting (ipc_endpoints t' ! j))"
proof (induction "is" arbitrary: t r n)
  case Nil
  then show ?case by (simp add: rz_keeps_refl)
next
  case (Cons i "is")
  let ?s = "ipc_endpoints t ! i"
  have i: "i < 64" and len: "length (ipc_endpoints t) = 64"
    using Cons.prems by (simp_all add: ipc_ok_def)
  show ?case
  proof (cases "\<not> en_active ?s \<or> en_server ?s \<noteq> b")
    case True
    then have "ipc_retire_owned b is t r n = (m, t', r')" using Cons.prems(4) by (simp add: Let_def)
    from Cons.IH [OF Cons.prems(1,2) _ this] Cons.prems(3) have
      ih: "ipc_ok t' \<and> rz_keeps r r' \<and>
        (\<forall>j < 64. ipc_endpoints t' ! j = ipc_endpoints t ! j \<or> \<not> en_active (ipc_endpoints t' ! j)) \<and>
        (\<forall>j \<in> set is. en_active (ipc_endpoints t' ! j) \<and> en_server (ipc_endpoints t' ! j) = b \<longrightarrow>
           en_receive_waiting (ipc_endpoints t' ! j))" by simp
    moreover have "en_active (ipc_endpoints t' ! i) \<and> en_server (ipc_endpoints t' ! i) = b \<longrightarrow>
        en_receive_waiting (ipc_endpoints t' ! i)" using ih True i by auto
    ultimately show ?thesis by auto
  next
    case False
    let ?e = "\<lparr>ie_slot = of_nat i, ie_generation = en_generation ?s\<rparr>"
    obtain res t1 r1 where ret: "ipc_retire t b ?e r = (res, t1, r1)" by (metis prod_cases3)
    have "en_ok ?s" using ipc_ok_endpoint [OF Cons.prems(1)] i by simp
    then have slot: "ipc_slot_for t ?e = Some i"
      using i len False by (simp add: ipc_slot_for_iff en_ok_def endpoint_valid_def take_bit_nat_eq_self unat_of_nat)
    have ok1: "ipc_ok t1" using ipc_ok_retire [OF Cons.prems(1), of b ?e r] ret by simp
    have k1: "rz_keeps r r1" using ipc_retire_safe(1) [OF Cons.prems(2), of t b ?e] ret
      by (simp add: ipc_safe_def)
    have e1: "ipc_endpoints t1 ! j = ipc_endpoints t ! j \<or> \<not> en_active (ipc_endpoints t1 ! j)" if "j < 64" for j
      using ipc_retire_endpoints [of t b ?e r] that len
      by (elim disjE exE conjE) (simp_all add: ret nth_list_update)
    have here: "\<not> en_active (ipc_endpoints t1 ! i) \<or> en_receive_waiting (ipc_endpoints t1 ! i)"
    proof (cases "en_receive_waiting ?s")
      case True
      then show ?thesis using e1 [OF i] by auto
    next
      case idle: False
      have "res = Inr ()" using ipc_retire_idle [OF slot _ assms idle, of r] False ret by simp
      with ipc_retire_gone [of t b ?e r, OF _ slot] ret show ?thesis by simp
    qed
    have "ipc_retire_owned b is t1 r1 (if is_ok res then n + 1 else n) = (m, t', r')"
      using Cons.prems(4) False ret by (simp add: Let_def)
    from Cons.IH [OF ok1 _ _ this] k1 Cons.prems(3) have
      ih: "ipc_ok t' \<and> rz_keeps r1 r' \<and>
        (\<forall>j < 64. ipc_endpoints t' ! j = ipc_endpoints t1 ! j \<or> \<not> en_active (ipc_endpoints t' ! j)) \<and>
        (\<forall>j \<in> set is. en_active (ipc_endpoints t' ! j) \<and> en_server (ipc_endpoints t' ! j) = b \<longrightarrow>
           en_receive_waiting (ipc_endpoints t' ! j))" by (simp add: rz_keeps_def)
    then have "en_active (ipc_endpoints t' ! i) \<Longrightarrow> en_receive_waiting (ipc_endpoints t' ! i)"
      using here i by metis
    moreover have "ipc_endpoints t' ! j = ipc_endpoints t ! j \<or> \<not> en_active (ipc_endpoints t' ! j)"
      if "j < 64" for j using ih e1 [OF that] that by metis
    ultimately show ?thesis using ih rz_keeps_trans [OF k1] by auto
  qed
qed

end
