(* ===== verification/Kernel_Invariant.thy ===== *)
theory Kernel_Invariant
  imports Kernel_Sync
begin

text \<open>
  The invariant of the composed kernel and that every method of \<open>class Kernel\<close> keeps it: the live list
  is exactly the set of threads the rendezvous knows and never outgrows its array, the run queue
  agrees with the rendezvous, every endpoint that is not waiting belongs to a live thread, and each
  table is well formed.
\<close>

section \<open>The live list\<close>

definition live_ok :: "ThreadId list \<Rightarrow> size_t \<Rightarrow> ThreadId set \<Rightarrow> bool" where
  "live_ok l n D \<longleftrightarrow> length l = max_threads \<and> unat n \<le> max_threads \<and>
     distinct (take (unat n) l) \<and> set (take (unat n) l) = D"

lemma live_ok_card: "live_ok l n D \<Longrightarrow> unat n = card D"
  by (auto simp: live_ok_def dest!: distinct_card)

lemma live_ok_push:
  assumes "live_ok l n D" "t \<notin> D" "card D < max_threads"
  shows "live_ok (l[unat n := t]) (n + 1) (insert t D)"
proof -
  have n: "unat n < 64" using assms live_ok_card by fastforce
  then have "unat (n + 1) = unat n + 1" by (simp add: unat_word_ariths)
  moreover have "take (unat n + 1) (l[unat n := t]) = take (unat n) l @ [t]"
    using n assms(1) by (simp add: live_ok_def take_Suc_conv_app_nth)
  ultimately show ?thesis using assms n by (simp add: live_ok_def)
qed

lemma live_ok_drop:
  assumes ok: "live_ok l n D" and i: "first_index (\<lambda>u. u = t) (take (unat n) l) = Some i"
  shows "live_ok (l[i := l ! unat (n - 1), unat (n - 1) := 0]) (n - 1) (D - {t})"
proof -
  let ?m = "unat (n - 1)"
  have it: "i < unat n" "l ! i = t" using first_index_SomeD [OF i] by auto
  then have "n \<noteq> 0" by auto
  then have m: "?m = unat n - 1" "?m < unat n" using it by (simp_all add: unat_minus_one)
  have len: "length l = 64" "unat n \<le> 64" using ok by (simp_all add: live_ok_def)
  let ?ys = "take ?m l" and ?z = "l ! ?m"
  have xs: "take (unat n) l = ?ys @ [?z]"
    using m len by (metis Suc_pred' gr0I not_less_zero order_less_le_trans take_Suc_conv_app_nth)
  have d: "distinct ?ys" "?z \<notin> set ?ys" "set ?ys \<union> {?z} = D"
    using ok xs by (auto simp: live_ok_def)
  have tk: "take ?m (l[i := ?z, ?m := 0]) = ?ys[i := ?z]"
    by (simp add: take_update_swap list_update_beyond)
  show ?thesis
  proof (cases "i = ?m")
    case True
    with it have z: "?z = t" by simp
    from True have "?ys[i := ?z] = ?ys" by (simp add: list_update_beyond)
    with tk d len m z show ?thesis by (auto simp: live_ok_def)
  next
    case False
    with it m len have i': "i < length ?ys" "?ys ! i = t" by auto
    then have "set (?ys[i := ?z]) = insert ?z (set ?ys - {t})"
      using d(1) by (simp add: set_update_distinct)
    moreover have "distinct (?ys[i := ?z])" using d by (simp add: distinct_list_update)
    moreover have "t \<in> set ?ys" using i' nth_mem by metis
    ultimately show ?thesis using tk d len m by (auto simp: live_ok_def)
  qed
qed

lemma k_untrack_live:
  assumes "live_ok (k_live k) (k_live_count k) D"
  shows "live_ok (k_live (k_untrack k t)) (k_live_count (k_untrack k t)) (D - {t})"
proof (cases "first_index (\<lambda>u. u = t) (k_living k)")
  case None
  then have "t \<notin> D" using assms by (auto simp: first_index_None k_living_def live_ok_def)
  with None assms show ?thesis by (simp add: k_untrack_def)
next
  case (Some i)
  with live_ok_drop [OF assms, of t i] show ?thesis by (simp add: k_untrack_def k_living_def Let_def)
qed

lemma k_untrack_fields [simp]:
  "k_threads (k_untrack k t) = k_threads k" "k_capabilities (k_untrack k t) = k_capabilities k"
  "k_interrupts (k_untrack k t) = k_interrupts k" "k_ipc (k_untrack k t) = k_ipc k"
  "k_interrupt_deliveries (k_untrack k t) = k_interrupt_deliveries k"
  "k_ipc_continuations (k_untrack k t) = k_ipc_continuations k"
  "k_scheduler (k_untrack k t) = k_scheduler k"
  "k_thread_identifiers (k_untrack k t) = k_thread_identifiers k"
  by (simp_all add: k_untrack_def Let_def split: option.split)

lemma rz_view_card:
  assumes "rz_ok r"
  shows "finite (dom (rz_view r))" "card (dom (rz_view r)) \<le> max_threads"
proof -
  have sub: "dom (rz_view r) \<subseteq> rs_thread ` set (rz_slots r)"
  proof
    fix t assume "t \<in> dom (rz_view r)"
    then obtain s where s: "rz_view r t = Some s" by blast
    then have "s \<in> set (rz_slots r)" "rs_thread s = t"
      using assms by (simp_all add: rz_view_def rz_ok_def slot_ok_def rzt.view_iff)
    then show "t \<in> rs_thread ` set (rz_slots r)" by blast
  qed
  then show "finite (dom (rz_view r))" by (rule finite_subset) simp
  have "card (rs_thread ` set (rz_slots r)) \<le> length (rz_slots r)"
    by (meson card_image_le card_length finite_set le_trans)
  with card_mono [OF _ sub] assms show "card (dom (rz_view r)) \<le> max_threads"
    by (simp add: rz_ok_def slot_ok_def)
qed

section \<open>Endpoints and their owners\<close>

definition ipc_owned :: "ThreadId set \<Rightarrow> IpcEndpointTable \<Rightarrow> bool" where
  "ipc_owned D t \<longleftrightarrow>
     (\<forall>s \<in> set (ipc_endpoints t). en_active s \<and> \<not> en_receive_waiting s \<longrightarrow> en_server s \<in> D)"

lemma ipc_owned_same: "ipc_owned D t \<Longrightarrow> ipc_endpoints t' = ipc_endpoints t \<Longrightarrow> ipc_owned D t'"
  by (simp add: ipc_owned_def)

lemma ipc_owned_store:
  assumes "ipc_owned D t" "ipc_endpoints t' = (ipc_endpoints t)[i := x]"
    and "en_active x \<Longrightarrow> \<not> en_receive_waiting x \<Longrightarrow> en_server x \<in> D"
  shows "ipc_owned D t'"
proof -
  have "\<forall>s \<in> set ((ipc_endpoints t)[i := x]). en_active s \<and> \<not> en_receive_waiting s \<longrightarrow> en_server s \<in> D"
    by (rule ball_set_update) (use assms(1,3) in \<open>auto simp: ipc_owned_def\<close>)
  with assms(2) show ?thesis by (simp only: ipc_owned_def)
qed

lemma ipc_owned_send:
  assumes "ipc_owned (dom (rz_view r)) t"
  shows "ipc_owned (dom (rz_view r)) (fst (snd (ipc_send_to_endpoint t a sp e r req)))"
proof (cases rule: ipc_send_to_endpoint_cases [of t a sp e r req])
  case (sent i p r')
  let ?b = "en_server (ipc_endpoints t ! i)"
  have "rz_view r ?b \<noteq> None"
    using sent(5) by (auto simp: rz_deliver_waiting_receiver_def rz_block_send_def rz_find_None [symmetric]
        split: if_splits option.splits)
  with sent(6) show ?thesis
    by (intro ipc_owned_store [OF assms, of _ i "(ipc_endpoints t ! i)\<lparr>en_receive_waiting := False\<rparr>"]) auto
qed (use assms in simp)

lemma ipc_owned_receive:
  assumes "ipc_owned D t"
  shows "ipc_owned D (fst (snd (ipc_receive_from_endpoint t b sp e r)))"
proof (cases rule: ipc_receive_cases [of t b sp e r])
  case (waits i r')
  then show ?thesis
    by (intro ipc_owned_store [OF assms, of _ i "(ipc_endpoints t ! i)\<lparr>en_receive_waiting := True\<rparr>"]) simp_all
qed (use assms in \<open>simp_all add: ipc_owned_def\<close>)

lemma ipc_owned_reply:
  "ipc_owned D t \<Longrightarrow> ipc_owned D (fst (snd (ipc_reply t b seal r resp)))"
  by (cases rule: ipc_reply_cases [of t b seal r resp]) (simp_all add: ipc_owned_def)

lemma ipc_owned_retire:
  "ipc_owned D t \<Longrightarrow> ipc_owned D (fst (snd (ipc_retire t b e r)))"
  using ipc_retire_endpoints [of t b e r] by (auto intro: ipc_owned_same ipc_owned_store)

lemma ipc_owned_entry_points:
  assumes "ipc_owned (dom (rz_view r)) t"
  shows "ipc_owned (dom (rz_view r)) (fst (snd (ipc_send t a c caps r req)))"
    "ipc_owned (dom (rz_view r)) (fst (snd (ipc_send_ctx t x c caps r req)))"
    "ipc_owned (dom (rz_view r)) (fst (snd (ipc_receive t a c caps r)))"
    "ipc_owned (dom (rz_view r)) (fst (snd (ipc_receive_ctx t x c caps r)))"
    "ipc_owned (dom (rz_view r)) (fst (snd (ipc_reply_ctx t x seal r resp)))"
    "ipc_owned (dom (rz_view r)) (fst (snd (ipc_reply_transaction t a n r resp)))"
    "ipc_owned (dom (rz_view r)) (fst (snd (ipc_reply_transaction_ctx t x n r resp)))"
    "ipc_owned (dom (rz_view r)) (snd (ipc_take_reply t a))"
    "ipc_owned (dom (rz_view r)) (snd (ipc_take_reply_ctx t x))"
  using assms
  by (auto simp: ipc_send_def ipc_send_ctx_def ipc_receive_def ipc_receive_ctx_def ipc_reply_ctx_def
      ipc_reply_transaction_def ipc_reply_transaction_ctx_def ipc_take_reply_ctx_def ipc_take_reply_def
      Let_def intro: ipc_owned_send ipc_owned_receive ipc_owned_reply ipc_owned_same
      split: sum.split option.split)

lemma ipc_owned_create:
  assumes "ipc_owned D t" "b \<in> D"
  shows "ipc_owned D (snd (ipc_create t b))"
  using assms
  by (auto simp: ipc_create_def Let_def intro: ipc_owned_store [OF assms(1)] split: option.split)

subsection \<open>Releasing a thread\<close>

lemma ipc_retire_owned_unknown:
  assumes "b \<noteq> 0" "rz_view r b = None" "ipc_ok t"
    and "\<forall>j < max_ipc_endpoints. en_active (ipc_endpoints t ! j) \<and> en_server (ipc_endpoints t ! j) = b \<longrightarrow>
      en_receive_waiting (ipc_endpoints t ! j)"
  shows "set is \<subseteq> {..<max_ipc_endpoints} \<Longrightarrow> ipc_retire_owned b is t r n = (n, t, r)"
proof (induction "is" arbitrary: n)
  case (Cons i "is")
  let ?s = "ipc_endpoints t ! i"
  show ?case
  proof (cases "\<not> en_active ?s \<or> en_server ?s \<noteq> b")
    case False
    let ?e = "\<lparr>ie_slot = of_nat i, ie_generation = en_generation ?s\<rparr>"
    have i: "i < 64" using Cons.prems by simp
    have "en_ok ?s" using ipc_ok_endpoint [OF assms(3)] i by simp
    then have slot: "ipc_slot_for t ?e = Some i"
      using i assms(3) False
      by (simp add: ipc_slot_for_iff en_ok_def endpoint_valid_def take_bit_nat_eq_self unat_of_nat ipc_ok_def)
    have "rz_cancel_receive r b = (Inl rz_unknown_thread, r)"
      using assms(1,2) by (simp add: rz_cancel_receive_def rz_find_None [symmetric])
    with slot False assms(1,4) i have "ipc_retire t b ?e r = (Inl rz_unknown_thread, t, r)"
      by (auto simp: ipc_retire_def Let_def)
    with Cons False show ?thesis by (simp add: Let_def)
  qed (use Cons in \<open>simp add: Let_def\<close>)
qed simp

lemma ipc_release_thread_spec:
  assumes ok: "ipc_ok t" and inv: "rz_inv r" and own: "ipc_owned D t"
    and rel: "ipc_release_thread t b r = (n, t', r')"
  shows "ipc_ok t'" "rz_keeps r r'" "ipc_owned (D - {b}) t'"
    and "rz_view r b = None \<Longrightarrow> D = dom (rz_view r) \<Longrightarrow> r' = r"
proof -
  show "ipc_ok t'" using ipc_ok_release_thread [OF ok, of b r] rel by simp
  have all: "rz_keeps r r' \<and> ipc_owned (D - {b}) t' \<and> (rz_view r b = None \<longrightarrow> D = dom (rz_view r) \<longrightarrow> r' = r)"
  proof (cases "b = 0")
    case True
    have "\<forall>s \<in> set (ipc_endpoints t). en_active s \<longrightarrow> en_server s \<noteq> 0" using ok by (auto simp: ipc_ok_def en_ok_def)
    with True rel own rz_keeps_refl [OF inv] show ?thesis
      by (auto simp: ipc_release_thread_def ipc_owned_def)
  next
    case False
    obtain t1 where r1: "ipc_retire_owned b [0..<max_ipc_endpoints] t r 0 = (n, t1, r')"
      and t': "ipc_endpoints t' = ipc_endpoints t1"
      using rel False ok
      by (auto simp: ipc_release_thread_def ipc_retire_all_owned_by_def ipc_ok_def Let_def split: prod.splits)
    have sub: "set [0..<max_ipc_endpoints] \<subseteq> {..<max_ipc_endpoints}" by auto
    note sp = ipc_retire_owned_spec [OF False ok inv sub r1]
    have len: "length (ipc_endpoints t1) = 64" "length (ipc_endpoints t) = 64" using sp ok by (simp_all add: ipc_ok_def)
    have "ipc_owned (D - {b}) t1"
      unfolding ipc_owned_def
    proof (intro ballI impI)
      fix s assume s: "s \<in> set (ipc_endpoints t1)" "en_active s \<and> \<not> en_receive_waiting s"
      then obtain j where j: "j < 64" "s = ipc_endpoints t1 ! j" using len by (metis in_set_conv_nth)
      with sp s have "s = ipc_endpoints t ! j" "en_server s \<noteq> b" by auto
      moreover have "ipc_endpoints t ! j \<in> set (ipc_endpoints t)" using j len by simp
      ultimately show "en_server s \<in> D - {b}" using own s(2) by (auto simp: ipc_owned_def)
    qed
    then have "ipc_owned (D - {b}) t'" by (rule ipc_owned_same) (rule t')
    moreover have "r' = r" if "rz_view r b = None" "D = dom (rz_view r)"
    proof -
      have "\<forall>j < max_ipc_endpoints. en_active (ipc_endpoints t ! j) \<and> en_server (ipc_endpoints t ! j) = b \<longrightarrow>
          en_receive_waiting (ipc_endpoints t ! j)"
        using own that len by (metis domIff ipc_owned_def nth_mem)
      from ipc_retire_owned_unknown [OF False that(1) ok this sub, of 0] r1
      show ?thesis by simp
    qed
    ultimately show ?thesis using sp by blast
  qed
  then show "rz_keeps r r'" "ipc_owned (D - {b}) t'"
    and "rz_view r b = None \<Longrightarrow> D = dom (rz_view r) \<Longrightarrow> r' = r" by blast+
qed

section \<open>The invariant\<close>

definition k_base :: "Kernel \<Rightarrow> bool" where
  "k_base k \<longleftrightarrow> rz_inv (k_threads k) \<and> sched_ok (k_scheduler k) \<and>
     dom (sched_view (k_scheduler k)) = dom (rz_view (k_threads k)) \<and>
     live_ok (k_live k) (k_live_count k) (dom (rz_view (k_threads k))) \<and>
     ipc_ok (k_ipc k) \<and> ipc_owned (dom (rz_view (k_threads k))) (k_ipc k) \<and>
     cap_ok (k_capabilities k) \<and> irq_ok (k_interrupts k) \<and> idl_ok (k_interrupt_deliveries k) \<and>
     ct_ok (k_ipc_continuations k)"

definition k_inv_on :: "ThreadId set \<Rightarrow> bool \<Rightarrow> Kernel \<Rightarrow> bool" where
  "k_inv_on T strict k \<longleftrightarrow> k_base k \<and> (\<forall>t. agrees T strict (k_threads k) (k_scheduler k) t)"

abbreviation k_inv :: "bool \<Rightarrow> Kernel \<Rightarrow> bool" where
  "k_inv \<equiv> k_inv_on {}"

lemmas k_inv_def = k_inv_on_def

lemma dom_eq_known: "dom f = dom g \<longleftrightarrow> (\<forall>u. f u = None \<longleftrightarrow> g u = None)"
  by (metis domIff set_eq_iff)

lemma k_inv_empty: "k_inv_on T strict k_empty"
proof -
  have "sched_view sched_empty = Map.empty" by (simp add: sched_view_def sched_empty_def sct.view_blank)
  moreover have "ipc_owned {} ipc_empty" by (simp add: ipc_owned_def ipc_empty_def endpoint_blank_def)
  moreover have "live_ok (replicate 64 0) 0 {}" by (simp add: live_ok_def)
  ultimately show ?thesis
    by (simp add: k_inv_on_def k_base_def k_empty_def rz_inv_empty sched_ok_empty rz_view_empty ipc_ok_empty
        cap_ok_empty irq_ok_empty idl_ok_empty ct_ok_empty agrees_def)
qed

lemma k_base_keeps:
  assumes "k_base k" "rz_keeps (k_threads k) r'" "ipc_ok t'" "ipc_owned (dom (rz_view r')) t'"
  shows "k_base (k\<lparr>k_ipc := t', k_threads := r'\<rparr>)"
  using assms by (simp add: k_base_def rz_keeps_def)

lemma k_synchronise_inv: "k_base k \<Longrightarrow> k_inv_on T strict (k_synchronise k)"
proof -
  assume b: "k_base k"
  let ?r = "k_threads k"
  let ?s = "fold (synchronise_thread ?r) (k_living k) (k_scheduler k)"
  have r: "rz_ok ?r" and s: "sched_ok (k_scheduler k)"
    and kn: "\<And>u. rz_view ?r u = None \<longleftrightarrow> sched_view (k_scheduler k) u = None"
    and dom: "set (k_living k) = dom (rz_view ?r)"
    using b by (auto simp: k_base_def rz_inv_def live_ok_def k_living_def dom_eq_known)
  note f = synchronise_fold [OF r s kn]
  have ag: "agrees T strict ?r ?s u" for u
  proof (rule f(2))
    assume "u \<notin> set (k_living k)"
    then have "rz_view ?r u = None" using dom by (simp add: domIff)
    with kn [of u] show "agrees T strict ?r (k_scheduler k) u" by (simp add: agrees_def)
  qed
  have "dom (sched_view ?s) = dom (rz_view ?r)" by (simp only: dom_eq_known agrees_known [OF ag]) simp
  with ag f(1) b show ?thesis
    unfolding k_synchronise_scheduler by (simp add: k_inv_on_def k_base_def)
qed

lemma k_synchronise_pair_inv:
  assumes inv: "k_inv_on T strict k" and pair: "rdv_pair a b (k_threads k) r'"
    and ipc: "ipc_ok t'" "ipc_owned (dom (rz_view r')) t'"
  shows "k_inv_on T strict (k_synchronise_pair (k\<lparr>k_ipc := t', k_threads := r'\<rparr>) a b)"
proof -
  let ?k = "k\<lparr>k_ipc := t', k_threads := r'\<rparr>"
  let ?ts = "if b \<noteq> a then [a, b] else [a]"
  let ?s = "fold (synchronise_thread r') ?ts (k_scheduler k)"
  have b: "k_base ?k" using inv pair ipc by (intro k_base_keeps) (simp_all add: k_inv_on_def rdv_pair_def)
  then have r: "rz_ok r'" and s: "sched_ok (k_scheduler k)"
    and kn: "\<And>u. rz_view r' u = None \<longleftrightarrow> sched_view (k_scheduler k) u = None"
    by (auto simp: k_base_def rz_inv_def dom_eq_known)
  note f = synchronise_fold [OF r s kn]
  have loc: "rdv_local {a, b} (rz_view (k_threads k)) (rz_view r')" using pair by (simp add: rdv_pair_def)
  have ag: "agrees T strict r' ?s u" for u
  proof (rule f(2))
    assume "u \<notin> set ?ts"
    then have u: "u \<notin> {a, b}" by (auto split: if_splits)
    have "agrees T strict (k_threads k) (k_scheduler k) u" using inv by (simp add: k_inv_on_def)
    then show "agrees T strict r' (k_scheduler k) u"
      by (rule agrees_frame) (simp_all only: rdv_local_priority [OF loc u])
  qed
  define s' where "s' = ?s"
  have "dom (sched_view s') = dom (rz_view r')"
    unfolding s'_def by (simp only: dom_eq_known agrees_known [OF ag]) simp
  moreover have "k_synchronise_pair ?k a b = ?k\<lparr>k_scheduler := s'\<rparr>"
    unfolding k_synchronise_pair_scheduler s'_def by simp
  ultimately show ?thesis using ag f(1) [of ?ts] b unfolding s'_def [symmetric]
    by (simp add: k_inv_on_def k_base_def)
qed

section \<open>Every method keeps the invariant\<close>

subsection \<open>Creating threads\<close>

lemma rz_create_view:
  assumes "rz_inv r" "rz_create_thread r t p = (Inr u, r') \<or> rz_create_admitted_thread r t p = (Inr u, r')"
  obtains s where "rz_view r t = None" "rz_inv r'" "rz_view r' = (rz_view r)(t \<mapsto> s)"
    "rs_state s = ts_ready \<or> rs_state s = ts_admitted" "rs_base s = p"
proof -
  have ok: "rz_ok r" using assms(1) by (simp add: rz_inv_def)
  have inv: "rz_inv r'"
    using assms(2) rz_sim_inv [OF assms(1) rz_create_thread_sim [OF ok, of t p]]
      rz_sim_inv [OF assms(1) rz_create_admitted_thread_sim [OF ok, of t p]] by auto
  from assms(2) show ?thesis
  proof
    assume "rz_create_thread r t p = (Inr u, r')"
    with rz_create_sim(2) [OF ok, of t _ _ ts_ready p] inv show ?thesis
      by (intro that [of "\<lparr>rs_thread = t, rs_state = ts_ready, rs_partner = 0, rs_wake = wake_none,
            rs_base = p, rs_occupied = True\<rparr>"])
         (auto simp: rz_create_thread_def rz_find_None split: if_splits option.splits)
  next
    assume "rz_create_admitted_thread r t p = (Inr u, r')"
    with rz_create_sim(2) [OF ok, of t _ _ ts_admitted p] inv show ?thesis
      by (intro that [of "\<lparr>rs_thread = t, rs_state = ts_admitted, rs_partner = 0, rs_wake = wake_none,
            rs_base = p, rs_occupied = True\<rparr>"])
         (auto simp: rz_create_admitted_thread_def rz_find_None split: if_splits option.splits)
  qed
qed

lemma rz_exit_fresh:
  assumes "rz_inv r" "rz_inv r'" "rz_view r t = None" "rz_view r' = (rz_view r)(t \<mapsto> s)"
  shows "rz_view (snd (rz_exit_thread r' t)) = rz_view r"
proof -
  obtain i where i: "rz_find r' t = Some i" using assms(4) rz_view_find [of r' t] by fastforce
  have "\<not> rz_released_by t other" if other: "rz_view r u = Some other" for u other
  proof -
    have "rdv_slot_ok (rz_view r) u other" using assms(1) other by (auto simp: rz_inv_def dest: rdv_invD)
    moreover have "t \<noteq> 0" using assms(4) rz_view_SomeD [of r' t s] by simp
    ultimately show ?thesis using assms(3) by (auto simp: rdv_slot_ok_def rz_released_by_def)
  qed
  then have "map_option (\<lambda>other. if rz_released_by t other then f other else other) (rz_view r u) = rz_view r u"
    for u f by (cases "rz_view r u") auto
  moreover have "rz_ok r'" using assms(2) by (simp add: rz_inv_def)
  ultimately show ?thesis
    using rz_exit_thread_ok(2) [OF _ i] assms(3,4) by (simp add: fun_eq_iff)
qed

lemma agrees_view: "rz_view r' = rz_view r \<Longrightarrow> agrees T strict r' s t \<longleftrightarrow> agrees T strict r s t"
  by (simp only: agrees_def)

lemma k_enlist_inv:
  assumes inv: "k_inv_on T strict k" and r: "rz_inv r" "rz_view (k_threads k) t = None"
    "rz_view r = (rz_view (k_threads k))(t \<mapsto> s)"
    and s: "rs_state s = ts_ready \<or> rs_state s = ts_admitted"
  shows "k_inv_on T strict (snd (k_enlist (k\<lparr>k_threads := r\<rparr>) t p))"
proof -
  have b: "k_base k" using inv by (simp add: k_inv_on_def)
  have rz: "rz_inv (k_threads k)" and sch: "sched_ok (k_scheduler k)" using b by (simp_all add: k_base_def)
  obtain res sc where ad: "sched_admit (k_scheduler k) t p = (res, sc)" by fastforce
  show ?thesis
  proof (cases res)
    case (Inl e)
    with ad have "sc = k_scheduler k" using sched_admit_view(3) [OF sch, of t p] by simp
    moreover have v: "rz_view (snd (rz_exit_thread r t)) = rz_view (k_threads k)"
      using rz_exit_fresh [OF rz r] .
    moreover have "rz_inv (snd (rz_exit_thread r t))"
      using r(1) by (intro rz_sim_inv [OF r(1)] rz_exit_thread_sim) (simp add: rz_inv_def)
    ultimately show ?thesis
      using inv ad Inl agrees_view [OF v] by (simp add: k_enlist_def k_inv_on_def k_base_def)
  next
    case (Inr u)
    let ?k = "k\<lparr>k_threads := r, k_scheduler := sc, k_live := (k_live k)[unat (k_live_count k) := t],
      k_live_count := k_live_count k + 1\<rparr>"
    have sc: "sched_ok sc" "sched_view sc = (sched_view (k_scheduler k))(t \<mapsto> \<lparr>ss_thread = t, ss_effective = p,
         ss_runnable = True, ss_remaining = default_slice_nanoseconds,
         ss_sequence = sched_next_sequence (k_scheduler k), ss_occupied = True\<rparr>)"
      using ad Inr sched_admit_view(1,2) [OF sch, of t p] by simp_all
    have rok: "rz_ok r" using r(1) by (simp add: rz_inv_def)
    let ?D = "dom (rz_view (k_threads k))"
    have "card (insert t ?D) \<le> 64" using rz_view_card(2) [OF rok] r(3) by simp
    moreover have "finite ?D" "t \<notin> ?D" using rz_view_card(1) rz r(2) by (auto simp: rz_inv_def)
    ultimately have card: "card ?D < 64" by simp
    have live: "live_ok (k_live ?k) (k_live_count ?k) (insert t ?D)"
      using live_ok_push [OF _ \<open>t \<notin> ?D\<close> card] b by (simp add: k_base_def)
    have own: "ipc_owned (insert t ?D) (k_ipc k)" using b by (auto simp: k_base_def ipc_owned_def)
    have agr: "agrees T strict r sc u" if "u \<noteq> t" for u
    proof (rule agrees_frame)
      show "agrees T strict (k_threads k) (k_scheduler k) u" using inv by (simp add: k_inv_on_def)
      show "rdv_priority (rz_view r) u = rdv_priority (rz_view (k_threads k)) u"
        unfolding r(3) using s that r(2) by (intro rdv_priority_new) (auto simp: rz_waits_on_def)
    qed (use that sc r in simp_all)
    have kn: "dom (sched_view sc) = dom (rz_view r)" using sc r(3) b by (simp add: k_base_def)
    let ?s = "synchronise_thread r t sc"
    have ag: "agrees T strict r ?s u" for u
      using kn agr by (intro synchronise_thread_agrees [OF rok sc(1)]) (simp_all add: dom_eq_known)
    have "dom (sched_view ?s) = dom (rz_view r)" by (simp only: dom_eq_known agrees_known [OF ag]) simp
    with ag synchronise_thread_view(1) [OF rok sc(1), of t] live own b r show ?thesis
      using ad Inr by (simp add: k_enlist_def k_inv_on_def k_base_def k_synchronise_thread_def)
  qed
qed

lemma k_create_inv:
  assumes "k_inv_on T strict k"
  shows "k_inv_on T strict (snd (k_create_thread k t p))" "k_inv_on T strict (snd (k_create_admitted_thread k t p))"
proof -
  have rz: "rz_inv (k_threads k)" using assms by (simp add: k_inv_on_def k_base_def)
  show "k_inv_on T strict (snd (k_create_thread k t p))"
  proof (cases "rz_create_thread (k_threads k) t p")
    case (Pair res r)
    show ?thesis
    proof (cases res)
      case (Inl e)
      with Pair rz_refused(11) [of "k_threads k" t p e r] assms show ?thesis by (simp add: k_create_thread_def)
    next
      case (Inr u)
      with Pair obtain s where "rz_view (k_threads k) t = None" "rz_inv r"
        "rz_view r = (rz_view (k_threads k))(t \<mapsto> s)" "rs_state s = ts_ready \<or> rs_state s = ts_admitted"
        using rz_create_view [OF rz, of t p u r] by metis
      from k_enlist_inv [OF assms this(2,1,3,4)] Inr Pair show ?thesis by (simp add: k_create_thread_def)
    qed
  qed
  show "k_inv_on T strict (snd (k_create_admitted_thread k t p))"
  proof (cases "rz_create_admitted_thread (k_threads k) t p")
    case (Pair res r)
    show ?thesis
    proof (cases res)
      case (Inl e)
      with Pair rz_refused(12) [of "k_threads k" t p e r] assms show ?thesis
        by (simp add: k_create_admitted_thread_def)
    next
      case (Inr u)
      with Pair obtain s where "rz_view (k_threads k) t = None" "rz_inv r"
        "rz_view r = (rz_view (k_threads k))(t \<mapsto> s)" "rs_state s = ts_ready \<or> rs_state s = ts_admitted"
        using rz_create_view [OF rz, of t p u r] by metis
      from k_enlist_inv [OF assms this(2,1,3,4)] Inr Pair show ?thesis
        by (simp add: k_create_admitted_thread_def)
    qed
  qed
qed

subsection \<open>Destroying threads\<close>

lemma rz_exit_known:
  assumes "rz_inv r" "rz_exit_thread r t = (Inr n, r')"
  shows "rz_view r t \<noteq> None" "rz_inv r'" "dom (rz_view r') = dom (rz_view r) - {t}"
proof -
  have ok: "rz_ok r" using assms(1) by (simp add: rz_inv_def)
  obtain i where i: "rz_find r t = Some i" using assms(2) by (cases "rz_find r t") (auto simp: rz_exit_thread_def)
  then show "rz_view r t \<noteq> None" by (simp add: rz_find_None [symmetric])
  show "rz_inv r'" using rz_sim_inv [OF assms(1) rz_exit_thread_sim [OF ok, of t]] assms(2) by simp
  show "dom (rz_view r') = dom (rz_view r) - {t}"
    using rz_exit_thread_ok(2) [OF ok i] assms(2) by (auto split: if_splits)
qed

lemma k_destroy_inv:
  assumes inv: "k_inv_on T strict k"
  shows "k_inv_on T strict (snd (k_destroy_thread k t))"
proof -
  have b: "k_base k" using inv by (simp add: k_inv_on_def)
  let ?D = "dom (rz_view (k_threads k))"
  obtain n ipc r where rel: "ipc_release_thread (k_ipc k) t (k_threads k) = (n, ipc, r)" by (metis prod_cases3)
  have rz: "rz_inv (k_threads k)" and own: "ipc_owned ?D (k_ipc k)" and ipk: "ipc_ok (k_ipc k)"
    using b by (simp_all add: k_base_def)
  note sp = ipc_release_thread_spec [OF ipk rz own rel]
  have rk: "rz_inv r" "dom (rz_view r) = ?D" using sp(2) by (simp_all add: rz_keeps_def)
  have ct: "ct_ok (ct_release_thread (k_ipc_continuations k) t)"
    using b by (simp add: k_base_def ct_release_thread_spec)
  obtain res r1 where ex: "rz_exit_thread r t = (res, r1)" by fastforce
  show ?thesis
  proof (cases res)
    case (Inl e)
    with ex have r1: "r1 = r" by (simp add: rz_refused(10))
    have none: "rz_view (k_threads k) t = None"
    proof (rule ccontr)
      assume "rz_view (k_threads k) t \<noteq> None"
      then have "rz_find r t \<noteq> None" using rk(2) by (auto simp: rz_find_None)
      then show False using ex Inl by (auto simp: rz_exit_thread_def Let_def)
    qed
    have "r = k_threads k" using sp(4) [OF none refl] .
    moreover have "ipc_owned ?D ipc" using sp(3) none by (simp add: domIff)
    ultimately show ?thesis
      using inv b sp(1) ct rel ex Inl r1
      by (simp add: k_destroy_thread_def Let_def k_inv_on_def k_base_def)
  next
    case (Inr m)
    note ex' = rz_exit_known [OF rk(1) ex [unfolded Inr]]
    let ?caps = "snd (cap_revoke_all_held_by (k_capabilities k) t)"
    let ?irqs = "snd (irq_detach_all_owned_by (k_interrupts k) t)"
    let ?idl = "snd (idl_release (k_interrupt_deliveries k) t)"
    let ?s = "snd (sched_retire (k_scheduler k) t)"
    let ?k2 = "k_untrack (k\<lparr>k_ipc_continuations := ct_release_thread (k_ipc_continuations k) t, k_ipc := ipc,
        k_threads := r1, k_capabilities := ?caps, k_interrupts := ?irqs,
        k_interrupt_deliveries := ?idl, k_scheduler := ?s\<rparr>) t"
    have caps: "cap_ok ?caps"
      using b cap_change_ok [OF cap_revoke_all_change] by (simp add: k_base_def)
    have irqs: "irq_ok ?irqs" using b irq_detach_all_view(1) by (simp add: k_base_def)
    have idl: "idl_ok ?idl" using b idl_take_cases(1) by (simp add: k_base_def idl_release_take)
    have s: "sched_ok ?s" "dom (sched_view ?s) = ?D - {t}"
      using b sched_retire_view [of "k_scheduler k" t] by (simp_all add: k_base_def)
    have live: "live_ok (k_live ?k2) (k_live_count ?k2) (?D - {t})"
      using b by (intro k_untrack_live) (simp add: k_base_def)
    have "k_base ?k2"
      using ex' rk caps irqs idl s live sp(1,3) ct by (simp add: k_base_def)
    then have "k_inv_on T strict (k_synchronise ?k2)" by (rule k_synchronise_inv)
    moreover have "snd (k_destroy_thread k t) = k_synchronise ?k2"
      using rel ex Inr by (simp add: k_destroy_thread_def Let_def split_beta)
    ultimately show ?thesis by simp
  qed
qed

subsection \<open>Message passing\<close>

lemma k_pair_direct:
  assumes inv: "k_inv_on T strict k" and "rdv_pair a b (k_threads k) r'"
  shows "k_inv_on T strict (k_synchronise_pair (k\<lparr>k_threads := r'\<rparr>) a b)"
  using k_synchronise_pair_inv [OF assms, of "k_ipc k"] assms
  by (simp add: k_inv_on_def k_base_def rdv_pair_def rz_keeps_def)

lemma k_pair_self: "k_synchronise_pair k a a = k_synchronise_thread k a"
  by (simp add: k_synchronise_pair_def)

lemma k_direct_inv:
  assumes "k_inv_on T strict k"
  shows "k_inv_on T strict (snd (k_send k a b))" "k_inv_on T strict (snd (k_receive k a))"
    "k_inv_on T strict (snd (k_reply k a b))" "k_inv_on T strict (snd (k_thread_start k a))"
proof -
  have rz: "rz_inv (k_threads k)" and ok: "rz_ok (k_threads k)"
    using assms by (simp_all add: k_inv_on_def k_base_def rz_inv_def)
  have same: "k\<lparr>k_threads := k_threads k\<rparr> = k" by simp
  show "k_inv_on T strict (snd (k_send k a b))"
    using rz_refused(1) [of "k_threads k" a b] k_pair_direct [OF assms, of a b] assms same
      rz_method_keeps(9) [OF rz, of a b] rz_send_local [OF ok, of a b]
    by (cases "rz_send (k_threads k) a b"; cases "fst (rz_send (k_threads k) a b)")
       (auto simp: k_send_def rdv_pair_def)
  show "k_inv_on T strict (snd (k_receive k a))"
    using rz
  proof (cases rule: rz_receive_cases [where b = a])
    case (refused e)
    then show ?thesis using assms by (simp add: k_receive_def)
  next
    case (received c r')
    with rz_method_keeps(12) [OF rz, of a] k_pair_direct [OF assms, of a c r'] show ?thesis
      by (simp add: k_receive_def rdv_pair_def)
  qed
  show "k_inv_on T strict (snd (k_reply k a b))"
    using rz_refused(2) [of "k_threads k" a b] k_pair_direct [OF assms, of a b] assms same
      rz_method_keeps(8) [OF rz, of a b] rz_reply_local [OF ok, of a b]
    by (cases "rz_reply (k_threads k) a b"; cases "fst (rz_reply (k_threads k) a b)")
       (auto simp: k_reply_def rdv_pair_def)
  show "k_inv_on T strict (snd (k_thread_start k a))"
    using rz_refused(3) [of "k_threads k" a] k_pair_direct [OF assms, of a a] assms same
      rz_method_keeps(11) [OF rz, of a] rz_one_thread_local(1) [OF ok, of a]
    by (cases "rz_start_thread (k_threads k) a"; cases "fst (rz_start_thread (k_threads k) a)")
       (auto simp: k_thread_start_def rdv_pair_def k_pair_self)
qed

subsection \<open>IPC\<close>

lemma k_after_ipc_all:
  assumes inv: "k_inv_on T strict k" and out: "out = (res, t', r')" and safe: "ipc_safe (k_threads k) out"
    and ipc: "ipc_ok t'" "ipc_owned (dom (rz_view (k_threads k))) t'"
  shows "k_inv_on T strict (snd (k_after_ipc k (\<lambda>_. k_synchronise) out))"
proof -
  have k: "rz_keeps (k_threads k) r'" "\<not> is_ok res \<longrightarrow> r' = k_threads k"
    using safe out by (simp_all add: ipc_safe_def)
  have b: "k_base (k\<lparr>k_ipc := t', k_threads := r'\<rparr>)"
    using inv k ipc by (intro k_base_keeps) (simp_all add: k_inv_on_def rz_keeps_def)
  show ?thesis
  proof (cases res)
    case (Inl e)
    with k b inv out show ?thesis by (simp add: k_after_ipc_def k_inv_on_def)
  next
    case (Inr v)
    with k_synchronise_inv [OF b, of T strict] out show ?thesis by (simp add: k_after_ipc_def)
  qed
qed

lemma k_after_ipc_pair:
  assumes inv: "k_inv_on T strict k" and out: "out = (res, t', r')"
    and refused: "\<And>e. res = Inl e \<Longrightarrow> r' = k_threads k"
    and pair: "\<And>v. res = Inr v \<Longrightarrow> rdv_pair a (f v) (k_threads k) r'"
    and ipc: "ipc_ok t'" "ipc_owned (dom (rz_view (k_threads k))) t'"
  shows "k_inv_on T strict (snd (k_after_ipc k (\<lambda>v k1. k_synchronise_pair k1 a (f v)) out))"
proof (cases res)
  case (Inl e)
  with refused [OF Inl] inv ipc out show ?thesis by (simp add: k_after_ipc_def k_inv_on_def k_base_def)
next
  case (Inr v)
  have "k_inv_on T strict (k_synchronise_pair (k\<lparr>k_ipc := t', k_threads := r'\<rparr>) a (f v))"
    using ipc pair [OF Inr] by (intro k_synchronise_pair_inv [OF inv pair [OF Inr]])
      (simp_all add: rdv_pair_def rz_keeps_def)
  with Inr out show ?thesis by (simp add: k_after_ipc_def)
qed

lemma ipc_entry_ok:
  assumes "ipc_ok t"
  shows "ipc_ok (fst (snd (ipc_send t a c caps r req)))" "ipc_ok (fst (snd (ipc_send_ctx t x c caps r req)))"
    "ipc_ok (fst (snd (ipc_receive t a c caps r)))" "ipc_ok (fst (snd (ipc_receive_ctx t x c caps r)))"
    "ipc_ok (fst (snd (ipc_reply t a seal r resp)))" "ipc_ok (fst (snd (ipc_reply_ctx t x seal r resp)))"
    "ipc_ok (fst (snd (ipc_reply_transaction t a n r resp)))"
    "ipc_ok (fst (snd (ipc_reply_transaction_ctx t x n r resp)))"
    "ipc_ok (snd (ipc_take_reply t a))" "ipc_ok (snd (ipc_take_reply_ctx t x))"
  using assms ipc_entry_points [of t] ipc_method_ok [OF _ assms] ipc_ok_reply [OF assms]
    ipc_ok_take_reply [OF assms] by (metis)+

lemma k_ipc_send_inv:
  assumes inv: "k_inv_on T strict k"
  shows "k_inv_on T strict (snd (k_ipc_send k a c req))" "k_inv_on T strict (snd (k_ipc_send_ctx k x c req))"
    "k_inv_on T strict (snd (k_ipc_reply_transaction k a n req))"
    "k_inv_on T strict (snd (k_ipc_reply_transaction_ctx k x n req))"
proof -
  have rz: "rz_inv (k_threads k)" and ok: "ipc_ok (k_ipc k)"
    and own: "ipc_owned (dom (rz_view (k_threads k))) (k_ipc k)"
    using inv by (simp_all add: k_inv_on_def k_base_def)
  have go: "k_inv_on T strict (snd (k_after_ipc k (\<lambda>_. k_synchronise) out))"
    if "ipc_safe (k_threads k) out" "ipc_ok (fst (snd out))"
      "ipc_owned (dom (rz_view (k_threads k))) (fst (snd out))" for out :: "unit result \<times> IpcEndpointTable \<times> Rendezvous"
    using k_after_ipc_all [OF inv _ that(1), of "fst out" "fst (snd out)" "snd (snd out)"] that by simp
  show "k_inv_on T strict (snd (k_ipc_send k a c req))" "k_inv_on T strict (snd (k_ipc_send_ctx k x c req))"
    "k_inv_on T strict (snd (k_ipc_reply_transaction k a n req))"
    "k_inv_on T strict (snd (k_ipc_reply_transaction_ctx k x n req))"
    unfolding k_ipc_send_def k_ipc_send_ctx_def k_ipc_reply_transaction_def k_ipc_reply_transaction_ctx_def
    by (rule go; intro ipc_send_safe [OF rz] ipc_reply_safe [OF rz] ipc_entry_ok [OF ok]
        ipc_owned_entry_points [OF own])+
qed

lemma k_ipc_receive_inv:
  assumes inv: "k_inv_on T strict k"
  shows "k_inv_on T strict (snd (k_ipc_receive k a c))" "k_inv_on T strict (snd (k_ipc_receive_ctx k x c))"
proof -
  have rz: "rz_inv (k_threads k)" and ok: "ipc_ok (k_ipc k)"
    and own: "ipc_owned (dom (rz_view (k_threads k))) (k_ipc k)"
    using inv by (simp_all add: k_inv_on_def k_base_def)
  have go: "k_inv_on T strict (snd (k_after_ipc k (\<lambda>v k1. k_synchronise_pair k1 a (rcv_caller v)) out))"
    if "ipc_receive_pair a (k_threads k) out" "ipc_ok (fst (snd out))"
      "ipc_owned (dom (rz_view (k_threads k))) (fst (snd out))" for a out
    using that by (intro k_after_ipc_pair [OF inv, of out "fst out" "fst (snd out)" "snd (snd out)"])
      (auto simp: ipc_receive_pair_def split: prod.splits sum.splits)
  show "k_inv_on T strict (snd (k_ipc_receive k a c))" "k_inv_on T strict (snd (k_ipc_receive_ctx k x c))"
    unfolding k_ipc_receive_def k_ipc_receive_ctx_def
    by (rule go; intro ipc_receive_pairs [OF rz] ipc_entry_ok [OF ok] ipc_owned_entry_points [OF own])+
qed

lemma k_ipc_reply_inv:
  assumes inv: "k_inv_on T strict k"
  shows "k_inv_on T strict (snd (k_ipc_reply k a seal resp))" "k_inv_on T strict (snd (k_ipc_reply_ctx k x seal resp))"
proof -
  have rz: "rz_inv (k_threads k)" and ok: "ipc_ok (k_ipc k)"
    and own: "ipc_owned (dom (rz_view (k_threads k))) (k_ipc k)"
    using inv by (simp_all add: k_inv_on_def k_base_def)
  have go: "k_inv_on T strict (snd (k_after_ipc k (\<lambda>v k1. k_synchronise_pair k1 a (seal_caller seal)) out))"
    if "ipc_safe (k_threads k) out" "ipc_ok (fst (snd out))"
      "ipc_owned (dom (rz_view (k_threads k))) (fst (snd out))"
      "\<And>t' r'. out = (Inr (), t', r') \<Longrightarrow> rdv_pair a (seal_caller seal) (k_threads k) r'"
    for a and out :: "unit result \<times> IpcEndpointTable \<times> Rendezvous"
    using that(1,2,3) that(4) [of "fst (snd out)" "snd (snd out)"]
    by (intro k_after_ipc_pair [OF inv, of out "fst out" "fst (snd out)" "snd (snd out)" a "\<lambda>_. seal_caller seal"])
      (auto simp: ipc_safe_def prod_eq_iff split: prod.splits)
  show "k_inv_on T strict (snd (k_ipc_reply k a seal resp))"
    unfolding k_ipc_reply_def
    by (rule go) (rule ipc_reply_safe [OF rz] ipc_entry_ok [OF ok] ipc_owned_reply [OF own]
        ipc_reply_pair [OF rz], assumption?)+
  show "k_inv_on T strict (snd (k_ipc_reply_ctx k x seal resp))"
    unfolding k_ipc_reply_ctx_def
    by (rule go) (rule ipc_reply_safe [OF rz] ipc_entry_ok [OF ok] ipc_owned_entry_points [OF own]
        ipc_reply_ctx_pair [OF rz], assumption?)+
qed

lemma k_tracks_live: "k_base k \<Longrightarrow> k_tracks k t \<longleftrightarrow> t \<in> dom (rz_view (k_threads k))"
  by (simp add: k_tracks_def k_base_def live_ok_def k_living_def)

lemma k_endpoint_inv:
  assumes inv: "k_inv_on T strict k"
  shows "k_inv_on T strict (snd (k_create_ipc_endpoint k a))" "k_inv_on T strict (snd (k_retire_ipc_endpoint k a e))"
    "k_inv_on T strict (snd (k_ipc_take_reply k a))" "k_inv_on T strict (snd (k_ipc_take_reply_ctx k x))"
proof -
  have b: "k_base k" using inv by (simp add: k_inv_on_def)
  have rz: "rz_inv (k_threads k)" and ok: "ipc_ok (k_ipc k)"
    and own: "ipc_owned (dom (rz_view (k_threads k))) (k_ipc k)" using b by (simp_all add: k_base_def)
  have ipc: "k_inv_on T strict (k\<lparr>k_ipc := t'\<rparr>)" if "ipc_ok t'" "ipc_owned (dom (rz_view (k_threads k))) t'" for t'
    using inv that by (simp add: k_inv_on_def k_base_def)
  show "k_inv_on T strict (snd (k_create_ipc_endpoint k a))"
    using ipc [OF ipc_ok_create [OF ok] ipc_owned_create [OF own]] k_tracks_live [OF b, of a] inv
    by (simp add: k_create_ipc_endpoint_def split_beta)
  show "k_inv_on T strict (snd (k_ipc_take_reply k a))" "k_inv_on T strict (snd (k_ipc_take_reply_ctx k x))"
    using ipc [OF ipc_entry_ok(9) [OF ok] ipc_owned_entry_points(8) [OF own]]
      ipc [OF ipc_entry_ok(10) [OF ok] ipc_owned_entry_points(9) [OF own]] inv
    by (simp_all add: k_ipc_take_reply_def k_ipc_take_reply_ctx_def split_beta)
  show "k_inv_on T strict (snd (k_retire_ipc_endpoint k a e))"
  proof -
    obtain res t' r' where ret: "ipc_retire (k_ipc k) a e (k_threads k) = (res, t', r')" by (metis prod_cases3)
    have "rz_keeps (k_threads k) r'" using ipc_retire_safe(1) [OF rz, of "k_ipc k" a e] ret
      by (simp add: ipc_safe_def)
    moreover have "ipc_ok t'" "ipc_owned (dom (rz_view (k_threads k))) t'"
      using ipc_ok_retire [OF ok, of a e "k_threads k"] ipc_owned_retire [OF own, of a e "k_threads k"] ret
      by simp_all
    ultimately have b1: "k_base (k\<lparr>k_ipc := t', k_threads := r'\<rparr>)"
      using b by (intro k_base_keeps) (simp_all add: rz_keeps_def)
    have ct: "ct_ok (snd (ct_cancel_receive (k_ipc_continuations k) a))"
      using b ct_method_ok [OF ct_method.cancel_receive] by (simp add: k_base_def)
    show ?thesis
    proof (cases res)
      case (Inl err)
      with ipc_retire_safe(2) [OF rz, of "k_ipc k" a e err] ret inv show ?thesis
        by (simp add: k_retire_ipc_endpoint_def Let_def)
    next
      case (Inr u)
      have "k_base (k\<lparr>k_ipc := t', k_threads := r',
          k_ipc_continuations := snd (ct_cancel_receive (k_ipc_continuations k) a)\<rparr>)"
        using b1 ct by (simp add: k_base_def)
      from k_synchronise_inv [OF this, of T strict] k_synchronise_inv [OF b1, of T strict] Inr ret
      show ?thesis by (simp add: k_retire_ipc_endpoint_def Let_def)
    qed
  qed
qed

subsection \<open>Continuations and deadlines\<close>

lemma k_continuation_inv:
  assumes "k_inv_on T strict k" "ct_method (k_ipc_continuations k) (snd (f (k_ipc_continuations k)))"
  shows "k_inv_on T strict (snd (k_continuation k t f))"
  using assms ct_method_ok [OF assms(2)]
  by (cases "k_tracks k t") (simp_all add: k_continuation_def split_beta k_inv_on_def k_base_def)

lemma k_continuations_inv:
  assumes "k_inv_on T strict k"
  shows "k_inv_on T strict (snd (k_ipc_arm_send_continuation k a ep y eps))"
    "k_inv_on T strict (snd (k_ipc_take_send_continuation k a ep eps))"
    "k_inv_on T strict (snd (k_ipc_cancel_send_continuation k a))"
    "k_inv_on T strict (snd (k_ipc_arm_receive_continuation k a ep c y eps d))"
    "k_inv_on T strict (snd (k_ipc_take_receive_continuation k a ep eps))"
    "k_inv_on T strict (snd (k_ipc_cancel_receive_continuation k a))"
  unfolding k_ipc_arm_send_continuation_def k_ipc_take_send_continuation_def
    k_ipc_cancel_send_continuation_def k_ipc_arm_receive_continuation_def
    k_ipc_take_receive_continuation_def k_ipc_cancel_receive_continuation_def
  by (rule k_continuation_inv [OF assms], rule ct_method.intros)+

lemma rz_wake_priority:
  assumes "rz_ok r" "rz_find r a = Some i" "rs_occupied s" "rs_thread s = a"
    and "rs_base s = rs_base (rz_at r i)" "\<And>u. rz_waits_on s u = rz_waits_on (rz_at r i) u"
  shows "rdv_priority (rz_view (rz_put r i s)) t = rdv_priority (rz_view r) t"
  using assms(5,6) rz_find_Some [OF assms(2)] unfolding rz_put_ok(2) [OF assms(1-4)]
  by (intro rdv_priority_cong) (auto split: if_splits)

lemma rz_expire_agrees:
  assumes ok: "rz_ok r" and ag: "agrees T False r s t"
  shows "agrees T False (snd (rz_expire_receive r a)) s t"
proof (cases "\<exists>i. rz_find r a = Some i \<and> rs_state (rz_at r i) = ts_receive_blocked \<and> rs_partner (rz_at r i) = 0 \<and> a \<noteq> 0")
  case False
  then have "snd (rz_expire_receive r a) = r" by (auto simp: rz_expire_receive_def split: option.split)
  with ag show ?thesis by simp
next
  case True
  then obtain i where i: "rz_find r a = Some i" "rs_state (rz_at r i) = ts_receive_blocked"
    "rs_partner (rz_at r i) = 0" "a \<noteq> 0" by blast
  let ?x = "(rz_at r i)\<lparr>rs_state := ts_ready, rs_wake := wake_deadline_expired\<rparr>"
  note fi = rz_at_fields [OF i(1)]
  have eq: "snd (rz_expire_receive r a) = rz_put r i ?x" using i by (simp add: rz_expire_receive_def)
  have pr: "rdv_priority (rz_view (rz_put r i ?x)) t = rdv_priority (rz_view r) t"
    using i fi by (intro rz_wake_priority [OF ok i(1)]) (auto simp: rz_waits_on_def)
  have v: "rz_view (rz_put r i ?x) = (rz_view r)(a \<mapsto> ?x)" using rz_put_ok(2) [OF ok i(1), of ?x] fi by simp
  show ?thesis
    using ag rz_find_Some [OF i(1)] unfolding eq agrees_def pr by (auto simp: v split: option.splits)
qed

lemma rz_take_expiry_agrees:
  assumes ok: "rz_ok r" and ag: "agrees T strict r s t"
  shows "agrees T strict (snd (rz_take_deadline_expiry r a)) s t"
proof (cases "\<exists>i. rz_find r a = Some i \<and> rs_wake (rz_at r i) = wake_deadline_expired \<and> a \<noteq> 0")
  case False
  then have "snd (rz_take_deadline_expiry r a) = r" by (auto simp: rz_take_deadline_expiry_def split: option.split)
  with ag show ?thesis by simp
next
  case True
  then obtain i where i: "rz_find r a = Some i" "rs_wake (rz_at r i) = wake_deadline_expired" "a \<noteq> 0" by blast
  let ?x = "(rz_at r i)\<lparr>rs_wake := wake_none\<rparr>"
  note fi = rz_at_fields [OF i(1)]
  have eq: "snd (rz_take_deadline_expiry r a) = rz_put r i ?x" using i by (simp add: rz_take_deadline_expiry_def)
  have pr: "rdv_priority (rz_view (rz_put r i ?x)) t = rdv_priority (rz_view r) t"
    using i fi by (intro rz_wake_priority [OF ok i(1)]) (auto simp: rz_waits_on_def)
  have v: "rz_view (rz_put r i ?x) = (rz_view r)(a \<mapsto> ?x)" using rz_put_ok(2) [OF ok i(1), of ?x] fi by simp
  show ?thesis
    using ag rz_find_Some [OF i(1)] unfolding eq agrees_def pr by (auto simp: v split: option.splits)
qed

lemma k_threads_inv:
  assumes "k_inv_on T strict k" "rz_keeps (k_threads k) r'" "\<And>t. agrees T strict r' (k_scheduler k) t"
  shows "k_inv_on T strict (k\<lparr>k_threads := r'\<rparr>)"
  using assms k_base_keeps [of k r' "k_ipc k"] by (simp add: k_inv_on_def k_base_def rz_keeps_def)

lemma k_expiry_inv:
  assumes inv: "k_inv_on T strict k"
  shows "k_inv_on T strict (snd (k_ipc_take_deadline_expiry k a))"
    "k_inv_on T strict (snd (k_ipc_take_expired_receive_continuation k now))"
    "k_inv_on T False (snd (k_ipc_expire_one_receive k now))"
proof -
  have rz: "rz_inv (k_threads k)" and ok: "rz_ok (k_threads k)"
    and ag: "\<And>t. agrees T strict (k_threads k) (k_scheduler k) t" and ctok: "ct_ok (k_ipc_continuations k)"
    using inv by (simp_all add: k_inv_on_def k_base_def rz_inv_def)
  show "k_inv_on T strict (snd (k_ipc_take_deadline_expiry k a))"
    using k_threads_inv [OF inv rz_method_keeps(7) [OF rz] rz_take_expiry_agrees [OF ok ag]]
    by (simp add: k_ipc_take_deadline_expiry_def split_beta)
  have ct: "ct_ok (snd (ct_take_expired_receive (k_ipc_continuations k) now))"
    using ct_method_ok [OF ct_method.take_expired ctok] .
  then show "k_inv_on T strict (snd (k_ipc_take_expired_receive_continuation k now))"
    using inv by (simp add: k_ipc_take_expired_receive_continuation_def split_beta k_inv_on_def k_base_def)
  have "agrees T False (k_threads k) (k_scheduler k) t" for t
    using ag [of t] by (auto simp: agrees_def split: option.splits)
  then have weak: "k_inv_on T False k" using inv by (simp add: k_inv_on_def)
  have thr: "k_inv_on T False (k\<lparr>k_threads := snd (rz_expire_receive (k_threads k) b)\<rparr>)" for b
    using weak by (intro k_threads_inv [OF weak rz_method_keeps(6) [OF rz]] rz_expire_agrees [OF ok])
      (simp add: k_inv_on_def)
  have both: "k_inv_on T False (k\<lparr>k_ipc_continuations := snd (ct_take_expired_receive (k_ipc_continuations k) now),
      k_threads := snd (rz_expire_receive (k_threads k) b)\<rparr>)" for b
    using thr [of b] ct by (simp add: k_inv_on_def k_base_def)
  have one: "k_inv_on T False (k\<lparr>k_ipc_continuations := snd (ct_take_expired_receive (k_ipc_continuations k) now)\<rparr>)"
    using weak ct by (simp add: k_inv_on_def k_base_def)
  obtain res ct' where take: "ct_take_expired_receive (k_ipc_continuations k) now = (res, ct')" by fastforce
  show "k_inv_on T False (snd (k_ipc_expire_one_receive k now))"
  proof (cases res)
    case (Inl e)
    with take one show ?thesis by (simp add: k_ipc_expire_one_receive_def)
  next
    case (Inr c)
    with take both [of "rc_server c"] show ?thesis
      by (cases "rz_expire_receive (k_threads k) (rc_server c)")
         (simp add: k_ipc_expire_one_receive_def split: sum.split)
  qed
qed

subsection \<open>Interrupts and scheduling\<close>

lemma k_irq_inv: "k_inv_on T strict k \<Longrightarrow> irq_ok q \<Longrightarrow> k_inv_on T strict (k\<lparr>k_interrupts := q\<rparr>)"
  by (simp add: k_inv_on_def k_base_def)

lemma k_synchronise_thread_inv: "k_inv_on T strict k \<Longrightarrow> k_inv_on T strict (k_synchronise_thread k t)"
proof -
  assume inv: "k_inv_on T strict k"
  then have "rdv_pair t t (k_threads k) (k_threads k)"
    by (simp add: rdv_pair_def rdv_local_refl rz_keeps_refl k_inv_on_def k_base_def)
  from k_pair_direct [OF inv this] show ?thesis by (simp add: k_pair_self)
qed

lemma k_interrupt_inv:
  assumes inv: "k_inv_on T strict k"
  shows "k_inv_on T strict (snd (k_interrupt_attach k a c))" "k_inv_on T strict (snd (k_interrupt_detach k a c))"
    "k_inv_on T strict (snd (k_interrupt_complete k a c))"
    "k_inv_on T strict (snd (k_take_delivered_service k a))"
proof -
  have ok: "irq_ok (k_interrupts k)" "idl_ok (k_interrupt_deliveries k)"
    using inv by (simp_all add: k_inv_on_def k_base_def)
  note m = k_irq_inv [OF inv irq_method_ok [OF _ ok(1)]]
  show "k_inv_on T strict (snd (k_interrupt_attach k a c))"
    using inv m [OF irq_method.attach] by (simp add: k_interrupt_attach_def split_beta split: sum.split)
  show "k_inv_on T strict (snd (k_interrupt_detach k a c))"
    using inv m [OF irq_method.detach] by (simp add: k_interrupt_detach_def split_beta split: sum.split)
  show "k_inv_on T strict (snd (k_interrupt_complete k a c))"
    using inv m [OF irq_method.end_service] by (simp add: k_interrupt_complete_def split_beta split: sum.split)
  show "k_inv_on T strict (snd (k_take_delivered_service k a))"
    using inv idl_take_cases(1) [OF ok(2), of a]
    by (simp add: k_take_delivered_service_def split_beta k_inv_on_def k_base_def)
qed

lemma k_dispatch_inv:
  assumes inv: "k_inv_on T strict k"
  shows "k_inv_on T strict (snd (k_dispatch_interrupt k c))"
proof -
  have ok: "irq_ok (k_interrupts k)" "idl_ok (k_interrupt_deliveries k)"
    using inv by (simp_all add: k_inv_on_def k_base_def)
  obtain res q where d: "irq_dispatch (k_interrupts k) c = (res, q)" by fastforce
  have q: "irq_ok q" using irq_dispatch_ok [OF ok(1), of c] d by simp
  have k1: "k_inv_on T strict (k\<lparr>k_interrupts := q\<rparr>)" using k_irq_inv [OF inv q] .
  show ?thesis
  proof (cases res)
    case (Inl e)
    with k1 d show ?thesis by (simp add: k_dispatch_interrupt_def)
  next
    case (Inr taken)
    obtain sres q1 where b: "irq_begin_service q (dsp_owner taken) c = (sres, q1)" by fastforce
    have q1: "irq_ok q1" using irq_begin_view(1) [OF q, of "dsp_owner taken" c] b by simp
    have "idl_ok (snd (idl_arm (k_interrupt_deliveries k) (dsp_owner taken) c v))" for v
      using ok(2) by (cases rule: idl_arm_cases [where d = "dsp_owner taken" and c = c and v = v])
        (use ok(2) in auto)
    with k1 k_irq_inv [OF inv q1] have "k_inv_on T strict
        (if idl_armed (k_interrupt_deliveries k) (dsp_owner taken) then k\<lparr>k_interrupts := q\<rparr>
         else case sres of Inl _ \<Rightarrow> k\<lparr>k_interrupts := q1\<rparr>
           | Inr serviced \<Rightarrow> k\<lparr>k_interrupts := q1, k_interrupt_deliveries :=
               snd (idl_arm (k_interrupt_deliveries k) (dsp_owner taken) c serviced)\<rparr>)"
      by (auto simp: k_inv_on_def k_base_def split: sum.split)
    from k_synchronise_thread_inv [OF this, of "dsp_owner taken"] k1 Inr d b show ?thesis
      by (cases sres; cases "idl_armed (k_interrupt_deliveries k) (dsp_owner taken)")
         (simp_all add: k_dispatch_interrupt_def Let_def)
  qed
qed

lemma agrees_scheduler:
  assumes "agrees T strict r s t"
    and "rel_option (\<lambda>x y. ss_runnable y = ss_runnable x \<and> ss_effective y = ss_effective x)
      (sched_view s t) (sched_view s' t)"
  shows "agrees T strict r s' t"
  using assms by (auto simp: agrees_def option_rel_Some1 split: option.splits)

lemma k_scheduler_inv:
  assumes "k_inv_on T strict k" "sched_ok s'"
    and "\<And>t. rel_option (\<lambda>x y. ss_runnable y = ss_runnable x \<and> ss_effective y = ss_effective x)
      (sched_view (k_scheduler k) t) (sched_view s' t)"
  shows "k_inv_on T strict (k\<lparr>k_scheduler := s'\<rparr>)"
proof -
  have ag: "agrees T strict (k_threads k) s' t" for t
  proof -
    have "agrees T strict (k_threads k) (k_scheduler k) t" using assms(1) by (simp add: k_inv_on_def)
    then show ?thesis using assms(3) [of t] by (rule agrees_scheduler)
  qed
  have "dom (sched_view s') = dom (rz_view (k_threads k))"
    by (simp only: dom_eq_known agrees_known [OF ag]) simp
  with ag assms(1,2) show ?thesis by (simp add: k_inv_on_def k_base_def)
qed

lemma sched_choose_same:
  assumes "sched_ok s"
  shows "rel_option (\<lambda>x y. ss_runnable y = ss_runnable x \<and> ss_effective y = ss_effective x)
    (sched_view s t) (sched_view (snd (sched_choose s now)) t)"
proof -
  obtain c where c: "sched_after s now c (snd (sched_choose s now))" using sched_choose_after [OF assms] by blast
  show ?thesis
    using sched_after_Some [OF c, of t] sched_after_None [OF c, of t]
    by (cases "sched_view s t") (auto simp: sched_refilled_def sched_charged_def Let_def split: if_splits)
qed

lemma k_schedule_inv:
  assumes inv: "k_inv_on T strict k"
  shows "k_inv_on T strict (snd (k_yield k a))" "k_inv_on T strict (snd (k_schedule k now))"
proof -
  have ok: "sched_ok (k_scheduler k)" using inv by (simp add: k_inv_on_def k_base_def)
  have "k_inv_on T strict (k\<lparr>k_scheduler := snd (sched_yield_slice (k_scheduler k) a)\<rparr>)"
    by (rule k_scheduler_inv [OF inv])
       (auto simp: sched_yield_view [OF ok] option_rel_Some1 rel_option_iff split: option.split)
  then show "k_inv_on T strict (snd (k_yield k a))" using inv by (simp add: k_yield_def split_beta)
  let ?s = "snd (sched_choose (k_scheduler k) now)"
  obtain c where c: "sched_ok ?s" "sched_after (k_scheduler k) now c ?s"
    using sched_choose_after [OF ok, of now] by blast
  have "k_inv_on T strict (k\<lparr>k_scheduler := ?s\<rparr>)" by (rule k_scheduler_inv [OF inv c(1) sched_choose_same [OF ok]])
  then show "k_inv_on T strict (snd (k_schedule k now))" by (simp add: k_schedule_def split_beta)
qed

subsection \<open>Memory and admission\<close>

lemma k_caps_inv: "k_inv_on T strict k \<Longrightarrow> cap_method (k_capabilities k) c \<Longrightarrow> k_inv_on T strict (k\<lparr>k_capabilities := c\<rparr>)"
  using cap_change_ok [OF cap_method_change] by (simp add: k_inv_on_def k_base_def)

lemma k_space_inv:
  assumes inv: "k_inv_on T strict k"
  shows "k_inv_on T strict (fst (snd (k_address_space_create k a c eps)))"
    "k_inv_on T strict (fst (snd (k_address_space_complete_destroy k a c ret eps)))"
  using inv k_caps_inv [OF inv cap_method.intros(1)] k_caps_inv [OF inv cap_method.intros(5)]
  by (auto simp: k_address_space_create_def k_address_space_complete_destroy_def
      split: sum.split prod.split) (metis snd_conv)+

lemma k_identifiers_inv: "k_inv_on T strict k \<Longrightarrow> k_inv_on T strict (k\<lparr>k_thread_identifiers := i\<rparr>)"
  by (simp add: k_inv_on_def k_base_def)

lemma k_thread_admit_inv:
  assumes inv: "k_inv_on T strict k"
  shows "k_inv_on T strict (fst (snd (k_thread_admit k a c stack root eps trs xrs)))"
proof -
  have 1: "k_inv_on T strict (k\<lparr>k_thread_identifiers := i\<rparr>)" for i using k_identifiers_inv [OF inv] .
  have 2: "k_inv_on T strict k2" if "k_create_admitted_thread (k\<lparr>k_thread_identifiers := i\<rparr>) t p = (res, k2)" for i t p res k2
    using k_create_inv(2) [OF 1, of i t p] that by simp
  have 3: "k_inv_on T strict (snd (k_destroy_thread k2 t))"
    if "k_create_admitted_thread (k\<lparr>k_thread_identifiers := i\<rparr>) t p = (res, k2)" for i t p res k2
    using k_destroy_inv [OF 2 [OF that]] .
  show ?thesis
    using inv 1 2 3 by (simp add: k_thread_admit_def Let_def split: sum.split prod.split)
qed

section \<open>Runs of the kernel\<close>

text \<open>
  One step is one public method of \<open>class Kernel\<close>, with any arguments and any authorities passed by
  reference, or a method of the capability or interrupt table through the accessors that expose
  them.  The flag says whether the expiry of a bounded receive is left out.  The mutable
  \<open>runqueue()\<close> is not one of these steps; \<open>k_driven\<close> below adds what is done through it.
\<close>

inductive k_method :: "bool \<Rightarrow> Kernel \<Rightarrow> Kernel \<Rightarrow> bool" where
  create_thread: "k_method strict k (snd (k_create_thread k t p))"
| create_admitted: "k_method strict k (snd (k_create_admitted_thread k t p))"
| thread_start: "k_method strict k (snd (k_thread_start k t))"
| destroy_thread: "k_method strict k (snd (k_destroy_thread k t))"
| send: "k_method strict k (snd (k_send k a b))"
| receive: "k_method strict k (snd (k_receive k a))"
| reply: "k_method strict k (snd (k_reply k a b))"
| yield_slice: "k_method strict k (snd (k_yield k a))"
| create_endpoint: "k_method strict k (snd (k_create_ipc_endpoint k a))"
| retire_endpoint: "k_method strict k (snd (k_retire_ipc_endpoint k a e))"
| ipc_send: "k_method strict k (snd (k_ipc_send k a c req))"
| ipc_send_ctx: "k_method strict k (snd (k_ipc_send_ctx k x c req))"
| ipc_receive: "k_method strict k (snd (k_ipc_receive k a c))"
| ipc_receive_ctx: "k_method strict k (snd (k_ipc_receive_ctx k x c))"
| ipc_reply: "k_method strict k (snd (k_ipc_reply k a seal req))"
| ipc_reply_ctx: "k_method strict k (snd (k_ipc_reply_ctx k x seal req))"
| ipc_reply_tx: "k_method strict k (snd (k_ipc_reply_transaction k a n req))"
| ipc_reply_tx_ctx: "k_method strict k (snd (k_ipc_reply_transaction_ctx k x n req))"
| ipc_take_reply: "k_method strict k (snd (k_ipc_take_reply k a))"
| ipc_take_reply_ctx: "k_method strict k (snd (k_ipc_take_reply_ctx k x))"
| arm_send: "k_method strict k (snd (k_ipc_arm_send_continuation k a ep y eps))"
| take_send: "k_method strict k (snd (k_ipc_take_send_continuation k a ep eps))"
| cancel_send: "k_method strict k (snd (k_ipc_cancel_send_continuation k a))"
| arm_receive: "k_method strict k (snd (k_ipc_arm_receive_continuation k a ep c y eps d))"
| take_receive: "k_method strict k (snd (k_ipc_take_receive_continuation k a ep eps))"
| cancel_receive: "k_method strict k (snd (k_ipc_cancel_receive_continuation k a))"
| expire_one: "k_method False k (snd (k_ipc_expire_one_receive k now))"
| take_expiry: "k_method strict k (snd (k_ipc_take_deadline_expiry k a))"
| take_expired: "k_method strict k (snd (k_ipc_take_expired_receive_continuation k now))"
| attach: "k_method strict k (snd (k_interrupt_attach k a c))"
| detach: "k_method strict k (snd (k_interrupt_detach k a c))"
| complete: "k_method strict k (snd (k_interrupt_complete k a c))"
| dispatch: "k_method strict k (snd (k_dispatch_interrupt k src))"
| take_service: "k_method strict k (snd (k_take_delivered_service k a))"
| schedule: "k_method strict k (snd (k_schedule k now))"
| space_create: "k_method strict k (fst (snd (k_address_space_create k a c eps)))"
| space_destroy: "k_method strict k (fst (snd (k_address_space_complete_destroy k a c ret eps)))"
| thread_admit: "k_method strict k (fst (snd (k_thread_admit k a c stack root eps trs xrs)))"
| capabilities: "cap_method (k_capabilities k) caps \<Longrightarrow> k_method strict k (k\<lparr>k_capabilities := caps\<rparr>)"
| interrupts: "irq_method (k_interrupts k) irqs \<Longrightarrow> k_method strict k (k\<lparr>k_interrupts := irqs\<rparr>)"

lemma k_method_inv: "k_method strict k k' \<Longrightarrow> k_inv_on T strict k \<Longrightarrow> k_inv_on T strict k'"
proof (induction rule: k_method.induct)
  case (capabilities k caps strict)
  then show ?case using k_caps_inv by blast
next
  case (interrupts k irqs strict)
  then have "irq_ok irqs" using irq_method_ok by (auto simp: k_inv_on_def k_base_def)
  with interrupts show ?case using k_irq_inv by blast
qed (intro k_create_inv k_destroy_inv k_direct_inv k_schedule_inv k_endpoint_inv k_ipc_send_inv
      k_ipc_receive_inv k_ipc_reply_inv k_continuations_inv k_expiry_inv k_interrupt_inv k_dispatch_inv
      k_space_inv k_thread_admit_inv; assumption)+

lemma k_run_inv: "(k_method strict)\<^sup>*\<^sup>* k_empty k \<Longrightarrow> k_inv strict k"
  by (induction rule: rtranclp_induct) (auto intro: k_method_inv k_inv_empty)

text \<open>
  \<open>Scheduler& runqueue()\<close> lets the machine layer write the run queue behind the kernel's back, and the boot
  image does: it takes decisions and yields slices on it through the preemption coordinator, and it
  stops and resumes threads with \<open>update\<close> (aarch64_boot.cpp).  A driven kernel is one whose methods
  are interleaved with such calls in any order and with any arguments; \<open>T\<close> collects the
  threads that an \<open>update\<close> named.
\<close>

inductive k_driven :: "bool \<Rightarrow> ThreadId set \<Rightarrow> Kernel \<Rightarrow> bool" where
  start: "k_driven strict {} k_empty"
| kernel_method: "k_driven strict T k \<Longrightarrow> k_method strict k k' \<Longrightarrow> k_driven strict T k'"
| runqueue_update: "k_driven strict T k \<Longrightarrow>
     k_driven strict (insert t T) (k\<lparr>k_scheduler := snd (sched_update (k_scheduler k) t runnable p)\<rparr>)"
| runqueue_yield: "k_driven strict T k \<Longrightarrow>
     k_driven strict T (k\<lparr>k_scheduler := snd (sched_yield_slice (k_scheduler k) t)\<rparr>)"
| runqueue_choose: "k_driven strict T k \<Longrightarrow>
     k_driven strict T (k\<lparr>k_scheduler := snd (sched_choose (k_scheduler k) now)\<rparr>)"

lemma k_run_driven: "(k_method strict)\<^sup>*\<^sup>* k_empty k \<Longrightarrow> k_driven strict {} k"
  by (induction rule: rtranclp_induct) (auto intro: k_driven.intros)

lemma agrees_insert:
  assumes "agrees T strict r s u" "sched_view s' u = None \<longleftrightarrow> sched_view s u = None"
    and "u \<noteq> t \<Longrightarrow> sched_view s' u = sched_view s u"
  shows "agrees (insert t T) strict r s' u"
  using assms by (cases "u = t") (auto simp: agrees_def split: option.splits)

lemma k_update_inv:
  assumes inv: "k_inv_on T strict k"
  shows "k_inv_on (insert t T) strict (k\<lparr>k_scheduler := snd (sched_update (k_scheduler k) t runnable p)\<rparr>)"
proof -
  have ok: "sched_ok (k_scheduler k)" using inv by (simp add: k_inv_on_def k_base_def)
  let ?s = "snd (sched_update (k_scheduler k) t runnable p)"
  note v = sched_update_view [OF ok, of t runnable p]
  have kn: "sched_view ?s u = None \<longleftrightarrow> sched_view (k_scheduler k) u = None" for u using v by auto
  have "agrees (insert t T) strict (k_threads k) ?s u" for u
    using inv v kn by (intro agrees_insert [of T strict _ "k_scheduler k"]) (auto simp: k_inv_on_def)
  moreover have "dom (sched_view ?s) = dom (rz_view (k_threads k))"
    using inv kn by (simp add: k_inv_on_def k_base_def dom_eq_known)
  ultimately show ?thesis using inv v by (simp add: k_inv_on_def k_base_def)
qed

lemma k_driven_inv: "k_driven strict T k \<Longrightarrow> k_inv_on T strict k"
proof (induction rule: k_driven.induct)
  case (start strict)
  then show ?case by (rule k_inv_empty)
next
  case (kernel_method strict T k k')
  then show ?case by (blast intro: k_method_inv)
next
  case (runqueue_update strict T k t runnable p)
  then show ?case by (blast intro: k_update_inv)
next
  case (runqueue_yield strict T k t)
  have ok: "sched_ok (k_scheduler k)" using runqueue_yield.IH by (simp add: k_inv_on_def k_base_def)
  show ?case
    by (rule k_scheduler_inv [OF runqueue_yield.IH])
       (auto simp: sched_yield_view [OF ok] option_rel_Some1 rel_option_iff split: option.split)
next
  case (runqueue_choose strict T k now)
  from k_schedule_inv(2) [OF runqueue_choose.IH, of now] show ?case by (simp add: k_schedule_def split_beta)
qed

end
