(* ===== verification/Exception_Syndrome.thy ===== *)
theory Exception_Syndrome
  imports Kernel_Prelude
begin

text \<open>
  The exception syndromes of aarch64_exception.hpp of src/core/oskernel: the fields of ESR_EL1, which of them is a system call, and the
  description of every other synchronous exception.  The lemmas show that decoding gives back the fields a syndrome was made of, and that
  a syndrome is described as a fault or is a system call, never both.
\<close>

section \<open>Fields\<close>

record ExceptionSyndrome =
  sy_class :: u8
  sy_long :: bool
  sy_iss :: u32

definition decode_exception_syndrome :: "u64 \<Rightarrow> ExceptionSyndrome" where
  "decode_exception_syndrome esr =
     \<lparr>sy_class = ucast (drop_bit 26 esr AND 0x3F), sy_long = (esr AND push_bit 25 1 \<noteq> 0), sy_iss = ucast (esr AND 0x01FFFFFF)\<rparr>"

definition is_aarch64_svc :: "ExceptionSyndrome \<Rightarrow> bool" where
  "is_aarch64_svc s \<longleftrightarrow> sy_class s = 0x15 \<and> sy_long s"

definition svc_immediate :: "ExceptionSyndrome \<Rightarrow> u16" where
  "svc_immediate s = ucast (sy_iss s AND 0xFFFF)"

definition valid_cookie_svc :: "ExceptionSyndrome \<Rightarrow> bool" where
  "valid_cookie_svc s \<longleftrightarrow> is_aarch64_svc s \<and> svc_immediate s = 0"

section \<open>Faults\<close>

datatype FaultKind =
    fault_unknown | fault_data_abort | fault_instruction_abort | fault_pc_alignment | fault_sp_alignment | fault_illegal_state
  | fault_simd_trap | fault_serror

datatype AbortCause =
    cause_unknown | cause_address_size | cause_translation | cause_access_flag | cause_permission | cause_external | cause_alignment
  | cause_tlb_conflict

record FaultDescription =
  fd_kind :: FaultKind
  fd_cause :: AbortCause
  fd_level :: u8
  fd_from_lower_el :: bool
  fd_write :: bool
  fd_far_valid :: bool

definition fd_empty :: FaultDescription where
  "fd_empty = \<lparr>fd_kind = fault_unknown, fd_cause = cause_unknown, fd_level = 0, fd_from_lower_el = False, fd_write = False,
     fd_far_valid = False\<rparr>"

definition level_meaningful :: "FaultDescription \<Rightarrow> bool" where
  "level_meaningful d \<longleftrightarrow> fd_cause d = cause_address_size \<or> fd_cause d = cause_translation \<or>
     fd_cause d = cause_access_flag \<or> fd_cause d = cause_permission"

definition decode_abort_cause :: "u32 \<Rightarrow> AbortCause" where
  "decode_abort_cause iss =
     (let group = iss AND 0x3F AND 0x3C; status = iss AND 0x3F in
      if group = 0x00 then cause_address_size
      else if group = 0x04 then cause_translation
      else if group = 0x08 then cause_access_flag
      else if group = 0x0C then cause_permission
      else if status = 0x10 then cause_external
      else if status = 0x21 then cause_alignment
      else if status = 0x30 then cause_tlb_conflict
      else cause_unknown)"

definition describe_fault :: "u64 \<Rightarrow> FaultDescription" where
  "describe_fault esr =
     (let s = decode_exception_syndrome esr in
      if sy_class s = 0x24 \<or> sy_class s = 0x25 then
        fd_empty\<lparr>fd_kind := fault_data_abort, fd_from_lower_el := (sy_class s = 0x24), fd_cause := decode_abort_cause (sy_iss s),
          fd_level := ucast (sy_iss s AND 0x3), fd_write := (sy_iss s AND push_bit 6 1 \<noteq> 0),
          fd_far_valid := (sy_iss s AND push_bit 10 1 = 0)\<rparr>
      else if sy_class s = 0x20 \<or> sy_class s = 0x21 then
        fd_empty\<lparr>fd_kind := fault_instruction_abort, fd_from_lower_el := (sy_class s = 0x20), fd_cause := decode_abort_cause (sy_iss s),
          fd_level := ucast (sy_iss s AND 0x3), fd_far_valid := (sy_iss s AND push_bit 10 1 = 0)\<rparr>
      else if sy_class s = 0x22 then fd_empty\<lparr>fd_kind := fault_pc_alignment, fd_far_valid := True\<rparr>
      else if sy_class s = 0x26 then fd_empty\<lparr>fd_kind := fault_sp_alignment\<rparr>
      else if sy_class s = 0x0E then fd_empty\<lparr>fd_kind := fault_illegal_state\<rparr>
      else if sy_class s = 0x07 then fd_empty\<lparr>fd_kind := fault_simd_trap\<rparr>
      else if sy_class s = 0x2F then fd_empty\<lparr>fd_kind := fault_serror\<rparr>
      else fd_empty)"

section \<open>Where a synchronous exception from user code goes\<close>

datatype SyncRoute = route_el0_fault | route_syscall

definition sync_exception_dispatch :: "u64 \<Rightarrow> SyncRoute" where
  "sync_exception_dispatch esr =
     (if \<not> valid_cookie_svc (decode_exception_syndrome esr) then route_el0_fault else route_syscall)"

section \<open>Decoding gives back the fields\<close>

definition encode_syndrome :: "u8 \<Rightarrow> bool \<Rightarrow> u32 \<Rightarrow> u64" where
  "encode_syndrome c il iss = push_bit 26 (ucast c) OR (if il then push_bit 25 1 else 0) OR ucast iss"

lemma bit_small:
  fixes x :: "'a::len word"
  assumes "unat x < 2 ^ n" "n \<le> i"
  shows "\<not> bit x i"
proof -
  have "take_bit n x = x" using assms(1) by (simp add: word_unat_eq_iff unsigned_take_bit_eq take_bit_nat_eq_self)
  then show ?thesis using assms(2) by (metis bit_take_bit_iff not_le)
qed

lemma decode_encode_syndrome:
  assumes c: "unat c < 64" and i: "unat iss < 2 ^ 25"
  shows "decode_exception_syndrome (encode_syndrome c il iss) = \<lparr>sy_class = c, sy_long = il, sy_iss = iss\<rparr>"
proof -
  have cb: "\<not> bit c n" if "6 \<le> n" for n using bit_small [of c 6 n] c that by simp
  have ib: "\<not> bit iss n" if "25 \<le> n" for n using bit_small [OF i that] .
  have m: "(0x3F :: u64) = mask 6" "(0x01FFFFFF :: u64) = mask 25" by (simp_all add: mask_eq_exp_minus_1)
  let ?e = "encode_syndrome c il iss"
  have p: "bit (33554432 :: int) n \<longleftrightarrow> n = 25" "bit (33554432 :: nat) n \<longleftrightarrow> n = 25" for n
  proof -
    have "(33554432 :: int) = 2 ^ 25" "(33554432 :: nat) = 2 ^ 25" by simp_all
    then show "bit (33554432 :: int) n \<longleftrightarrow> n = 25" "bit (33554432 :: nat) n \<longleftrightarrow> n = 25"
      by (simp_all only: bit_exp_iff) auto
  qed
  have "n < 6" if "bit c n" for n using cb [of n] that by (meson not_le)
  then have "ucast (drop_bit 26 ?e AND 0x3F) = c"
    unfolding m by (intro bit_eqI) (use cb ib in \<open>auto simp: encode_syndrome_def bit_simps p\<close>)
  moreover have "(?e AND push_bit 25 1 \<noteq> 0) = il"
  proof -
    have "bit ?e 25 = il" using ib by (auto simp: encode_syndrome_def bit_simps)
    then show ?thesis by (metis and_exp_eq_0_iff_not_bit push_bit_of_1)
  qed
  moreover have "n < 25" if "bit iss n" for n using ib [of n] that by (meson not_le)
  then have "ucast (?e AND 0x01FFFFFF) = iss"
    unfolding m by (intro bit_eqI) (use ib in \<open>auto simp: encode_syndrome_def bit_simps p\<close>)
  ultimately show ?thesis by (simp add: decode_exception_syndrome_def)
qed

text \<open>A system call is the SVC class with a zero immediate, and no syndrome of that class is described as a fault.\<close>

lemma svc_not_fault:
  assumes "sync_exception_dispatch esr = route_syscall"
  shows "describe_fault esr = fd_empty" "sy_class (decode_exception_syndrome esr) = 0x15"
  using assms
  by (simp_all add: sync_exception_dispatch_def valid_cookie_svc_def is_aarch64_svc_def describe_fault_def Let_def split: if_splits)

text \<open>An abort of a current-EL class comes from the kernel, one of a lower-EL class from user code.\<close>

lemma describe_abort:
  assumes "unat iss < 2 ^ 25" "c \<in> {0x20, 0x21, 0x24, 0x25}"
  shows "fd_kind (describe_fault (encode_syndrome c il iss)) =
      (if c = 0x24 \<or> c = 0x25 then fault_data_abort else fault_instruction_abort)"
    "fd_from_lower_el (describe_fault (encode_syndrome c il iss)) \<longleftrightarrow> c = 0x20 \<or> c = 0x24"
    "fd_cause (describe_fault (encode_syndrome c il iss)) = decode_abort_cause iss"
    "fd_write (describe_fault (encode_syndrome c il iss)) \<longrightarrow> c = 0x24 \<or> c = 0x25"
proof -
  have "unat c < 64" using assms(2) by auto
  note d = decode_encode_syndrome [OF this assms(1), of il]
  show "fd_kind (describe_fault (encode_syndrome c il iss)) =
      (if c = 0x24 \<or> c = 0x25 then fault_data_abort else fault_instruction_abort)"
    "fd_from_lower_el (describe_fault (encode_syndrome c il iss)) \<longleftrightarrow> c = 0x20 \<or> c = 0x24"
    "fd_cause (describe_fault (encode_syndrome c il iss)) = decode_abort_cause iss"
    "fd_write (describe_fault (encode_syndrome c il iss)) \<longrightarrow> c = 0x24 \<or> c = 0x25"
    using assms(2) by (auto simp: describe_fault_def d Let_def fd_empty_def)
qed

end
