(* ===== verification/User_Copy.thy ===== *)
theory User_Copy
  imports System_Calls Machine_Space Exception_Syndrome
begin

text \<open>
  How the kernel touches user memory: tickets (user_access.cpp), the fault guard (aarch64_user_copy_guard.cpp), the exception dispatch that
  consults it (aarch64_entry.cpp) and the copies themselves (aarch64_user_access.cpp), all of src/core/oskernel.

  A copy runs on a machine: physical memory, the value of TTBR0_EL1, and the translation it selects, a function from page numbers to a
  physical frame and a write permission.  The last is the processor's and is a parameter.  An LDTRB or STTRB that the translation does not
  permit raises a data abort: its frame goes to the exception dispatch, which resumes at the guard's recovery address or reports a fatal
  kernel fault, and the second is the outcome \<open>None\<close>.  The addresses of the two instructions and of their recovery code come from the linker
  and are parameters too.

  The lemmas show that a copy never ends in a fatal fault, leaves the guard disarmed, and moves the whole range or nothing: a ticket's range
  is inside one page, so that one translation decides for all of it.
\<close>

section \<open>Tickets\<close>

datatype UserAccessIntent = read_from_user | write_to_user

record UserRange =
  ur_address :: u64
  ur_length :: size_t

abbreviation user_access_page_size :: u64 where "user_access_page_size \<equiv> 4096"

definition range_valid :: "UserRange \<Rightarrow> bool" where
  "range_valid r \<longleftrightarrow>
     (if ur_address r = 0 \<or> ur_length r = 0 then False
      else if ur_length r > user_access_page_size then False
      else if ur_address r > - 1 - ur_length r then False
      else ur_address r div user_access_page_size = (ur_address r + ur_length r - 1) div user_access_page_size)"

record UserAccessTicket =
  ua_thread :: ThreadId
  ua_epoch :: AddressSpaceEpoch
  ua_root :: u64
  ua_range :: UserRange
  ua_intent :: UserAccessIntent

definition ticket_valid :: "UserAccessTicket \<Rightarrow> bool" where
  "ticket_valid t \<longleftrightarrow> ua_thread t \<noteq> invalid_thread \<and> epoch_valid (ua_epoch t) \<and> ua_root t \<noteq> 0 \<and> range_valid (ua_range t)"

abbreviation "ua_invalid_range \<equiv> kernel_error 200"
abbreviation "ua_stale_translation \<equiv> kernel_error 201"
abbreviation "ua_epoch_mismatch \<equiv> kernel_error 202"

definition prepare_user_access ::
  "ThreadId \<Rightarrow> AddressSpaceEpoch \<Rightarrow> UserRange \<Rightarrow> UserAccessIntent \<Rightarrow> ProcessTranslationTable \<Rightarrow>
   AddressSpaceEpochAuthority \<Rightarrow> UserAccessTicket result" where
  "prepare_user_access thread expected_epoch r intent bindings epochs =
     (if \<not> range_valid r then Inl ua_invalid_range
      else case pt_resolve bindings thread epochs of
          Inl _ \<Rightarrow> Inl ua_stale_translation
        | Inr b \<Rightarrow>
            if pb_epoch b \<noteq> expected_epoch then Inl ua_epoch_mismatch
            else Inr \<lparr>ua_thread = thread, ua_epoch = pb_epoch b, ua_root = pb_root b, ua_range = r, ua_intent = intent\<rparr>)"

definition user_access_still_live ::
  "UserAccessTicket \<Rightarrow> ProcessTranslationTable \<Rightarrow> AddressSpaceEpochAuthority \<Rightarrow> bool" where
  "user_access_still_live ticket bindings epochs =
     (if \<not> ticket_valid ticket then False
      else case pt_resolve bindings (ua_thread ticket) epochs of
          Inl _ \<Rightarrow> False
        | Inr b \<Rightarrow> pb_epoch b = ua_epoch ticket \<and> pb_root b = ua_root ticket)"

section \<open>The fault guard\<close>

record UserCopyFaultGuard =
  gd_fault_pc :: u64
  gd_recovery_pc :: u64
  gd_begin :: u64
  gd_end :: u64
  gd_armed :: bool

definition guard_disarmed :: UserCopyFaultGuard where
  "guard_disarmed = \<lparr>gd_fault_pc = 0, gd_recovery_pc = 0, gd_begin = 0, gd_end = 0, gd_armed = False\<rparr>"

definition arm_user_copy_fault_guard ::
  "UserCopyFaultGuard \<Rightarrow> u64 \<Rightarrow> u64 \<Rightarrow> u64 \<Rightarrow> u64 \<Rightarrow> bool \<times> UserCopyFaultGuard" where
  "arm_user_copy_fault_guard guard start end_exclusive fault_pc recovery_pc =
     (if gd_armed guard \<or> start = 0 \<or> end_exclusive \<le> start \<or> fault_pc = 0 \<or> recovery_pc = 0 then (False, guard)
      else (True, \<lparr>gd_fault_pc = fault_pc, gd_recovery_pc = recovery_pc, gd_begin = start, gd_end = end_exclusive, gd_armed = True\<rparr>))"

definition disarm_user_copy_fault_guard :: "UserCopyFaultGuard \<Rightarrow> UserCopyFaultGuard" where
  "disarm_user_copy_fault_guard _ = guard_disarmed"

definition recover_user_copy_fault ::
  "UserCopyFaultGuard \<Rightarrow> ExceptionFrame \<Rightarrow> bool \<times> ExceptionFrame \<times> UserCopyFaultGuard" where
  "recover_user_copy_fault guard frame =
     (if \<not> gd_armed guard then (False, frame, guard)
      else let syndrome = decode_exception_syndrome (esr_el1 frame)
           in if sy_class syndrome \<noteq> 0x25 \<or> elr_el1 frame \<noteq> gd_fault_pc guard \<or>
                far_el1 frame < gd_begin guard \<or> far_el1 frame \<ge> gd_end guard
              then (False, frame, guard)
              else (True, frame\<lparr>elr_el1 := gd_recovery_pc guard\<rparr>, guard_disarmed))"

text \<open>The dispatch of a synchronous exception taken inside the kernel: recovered, or a fatal fault.\<close>

definition current_sync_exception_dispatch ::
  "UserCopyFaultGuard \<Rightarrow> ExceptionFrame \<Rightarrow> (ExceptionFrame \<times> UserCopyFaultGuard) option" where
  "current_sync_exception_dispatch guard frame =
     (case recover_user_copy_fault guard frame of
        (False, _, _) \<Rightarrow> None
      | (True, frame', guard') \<Rightarrow> Some (frame', guard'))"

section \<open>The machine a copy runs on\<close>

record CopyLabels =
  cl_load_fault :: u64
  cl_load_recovery :: u64
  cl_store_fault :: u64
  cl_store_recovery :: u64

definition labels_placed :: "CopyLabels \<Rightarrow> bool" where
  "labels_placed l \<longleftrightarrow> cl_load_fault l \<noteq> 0 \<and> cl_load_recovery l \<noteq> 0 \<and> cl_store_fault l \<noteq> 0 \<and> cl_store_recovery l \<noteq> 0"

record UserMachine =
  um_memory :: "u64 \<Rightarrow> u8"
  um_ttbr0 :: u64
  um_walk :: "u64 \<Rightarrow> (u64 \<times> bool) option"
  um_guard :: UserCopyFaultGuard

text \<open>The physical address behind a user address, and whether user code may write it.\<close>

definition user_translate :: "UserMachine \<Rightarrow> u64 \<Rightarrow> (u64 \<times> bool) option" where
  "user_translate m a =
     (case um_walk m (a div user_access_page_size) of
        None \<Rightarrow> None
      | Some (frame, w) \<Rightarrow> Some (frame + a mod user_access_page_size, w))"

text \<open>A data abort of the instruction at \<open>pc\<close> for address \<open>a\<close>: the frame the vectors save, its dispatch, and the address at which the
  interrupted code goes on.  The general registers and the ISS of the frame are whatever the processor gives.\<close>

definition user_abort :: "ExceptionFrame \<Rightarrow> u64 \<Rightarrow> u64 \<Rightarrow> u64 \<Rightarrow> UserMachine \<Rightarrow> (bool \<times> UserMachine) option" where
  "user_abort saved pc recovery a m =
     (case current_sync_exception_dispatch (um_guard m)
             (saved\<lparr>elr_el1 := pc, far_el1 := a,
                    esr_el1 := push_bit 26 0x25 OR (esr_el1 saved AND 0x03FFFFFF)\<rparr>) of
        None \<Rightarrow> None
      | Some (frame, guard) \<Rightarrow>
          if elr_el1 frame = recovery then Some (False, m\<lparr>um_guard := guard\<rparr>) else None)"

definition ldtrb_user_byte ::
  "CopyLabels \<Rightarrow> ExceptionFrame \<Rightarrow> u64 \<Rightarrow> u8 list \<Rightarrow> nat \<Rightarrow> UserMachine \<Rightarrow> (bool \<times> u8 list \<times> UserMachine) option" where
  "ldtrb_user_byte l saved a destination i m =
     (case user_translate m a of
        Some (p, _) \<Rightarrow> Some (True, destination[i := um_memory m p], m)
      | None \<Rightarrow> map_option (\<lambda>(copied, m'). (copied, destination, m'))
                  (user_abort saved (cl_load_fault l) (cl_load_recovery l) a m))"

definition sttrb_user_byte ::
  "CopyLabels \<Rightarrow> ExceptionFrame \<Rightarrow> u64 \<Rightarrow> u8 \<Rightarrow> UserMachine \<Rightarrow> (bool \<times> UserMachine) option" where
  "sttrb_user_byte l saved a v m =
     (case user_translate m a of
        Some (p, True) \<Rightarrow> Some (True, m\<lparr>um_memory := (um_memory m)(p := v)\<rparr>)
      | _ \<Rightarrow> user_abort saved (cl_store_fault l) (cl_store_recovery l) a m)"

section \<open>Copies\<close>

abbreviation "uc_wrong_intent \<equiv> kernel_error 220"
abbreviation "uc_size_mismatch \<equiv> kernel_error 221"
abbreviation "uc_inactive_translation \<equiv> kernel_error 222"
abbreviation "uc_wrong_current_translation \<equiv> kernel_error 223"
abbreviation "uc_copy_fault \<equiv> kernel_error 224"

definition validate_current ::
  "UserAccessTicket \<Rightarrow> UserAccessIntent \<Rightarrow> size_t \<Rightarrow> ProcessTranslationTable \<Rightarrow> AddressSpaceEpochAuthority \<Rightarrow>
   UserMachine \<Rightarrow> unit result" where
  "validate_current ticket expected bytes bindings epochs m =
     (if ua_intent ticket \<noteq> expected then Inl uc_wrong_intent
      else if bytes \<noteq> ur_length (ua_range ticket) then Inl uc_size_mismatch
      else if \<not> user_access_still_live ticket bindings epochs then Inl uc_inactive_translation
      else let expected_ttbr = ttbr0_el1_value (ua_root ticket) (ae_asid (ua_epoch ticket))
           in if expected_ttbr = 0 \<or> um_ttbr0 m \<noteq> expected_ttbr then Inl uc_wrong_current_translation
              else Inr ())"

definition arm_byte :: "UserMachine \<Rightarrow> u64 \<Rightarrow> u64 \<Rightarrow> u64 \<Rightarrow> bool \<times> UserMachine" where
  "arm_byte m address fault_pc recovery_pc =
     (if address = - 1 then (False, m)
      else let (armed, guard) = arm_user_copy_fault_guard (um_guard m) address (address + 1) fault_pc recovery_pc
           in (armed, m\<lparr>um_guard := guard\<rparr>))"

definition disarm :: "UserMachine \<Rightarrow> UserMachine" where
  "disarm m = m\<lparr>um_guard := disarm_user_copy_fault_guard (um_guard m)\<rparr>"

function copy_from_loop ::
  "CopyLabels \<Rightarrow> ExceptionFrame \<Rightarrow> u64 \<Rightarrow> nat \<Rightarrow> u8 list \<Rightarrow> UserMachine \<Rightarrow> (unit result \<times> u8 list \<times> UserMachine) option" where
  "copy_from_loop l saved base i destination m =
     (if i < length destination then
        let address = base + of_nat i in
        case arm_byte m address (cl_load_fault l) (cl_load_recovery l) of
          (False, m1) \<Rightarrow> Some (Inl uc_copy_fault, destination, m1)
        | (True, m1) \<Rightarrow>
            (case ldtrb_user_byte l saved address destination i m1 of
               None \<Rightarrow> None
             | Some (copied, destination', m2) \<Rightarrow>
                 if \<not> copied then Some (Inl uc_copy_fault, destination', disarm m2)
                 else copy_from_loop l saved base (i + 1) destination' (disarm m2))
      else Some (Inr (), destination, m))"
  by pat_completeness auto
termination
  by (relation "measure (\<lambda>(l, saved, base, i, destination, m). length destination - i)")
     (auto simp: ldtrb_user_byte_def split: option.splits)

declare copy_from_loop.simps [simp del]

fun copy_to_loop ::
  "CopyLabels \<Rightarrow> ExceptionFrame \<Rightarrow> u64 \<Rightarrow> nat \<Rightarrow> u8 list \<Rightarrow> UserMachine \<Rightarrow> (unit result \<times> UserMachine) option" where
  "copy_to_loop l saved base i [] m = Some (Inr (), m)"
| "copy_to_loop l saved base i (v # rest) m =
     (let address = base + of_nat i in
      case arm_byte m address (cl_store_fault l) (cl_store_recovery l) of
        (False, m1) \<Rightarrow> Some (Inl uc_copy_fault, m1)
      | (True, m1) \<Rightarrow>
          (case sttrb_user_byte l saved address v m1 of
             None \<Rightarrow> None
           | Some (copied, m2) \<Rightarrow>
               if \<not> copied then Some (Inl uc_copy_fault, disarm m2)
               else copy_to_loop l saved base (i + 1) rest (disarm m2)))"

definition copy_from_user_current ::
  "CopyLabels \<Rightarrow> ExceptionFrame \<Rightarrow> UserAccessTicket \<Rightarrow> u8 list \<Rightarrow> ProcessTranslationTable \<Rightarrow> AddressSpaceEpochAuthority \<Rightarrow>
   UserMachine \<Rightarrow> (unit result \<times> u8 list \<times> UserMachine) option" where
  "copy_from_user_current l saved ticket destination bindings epochs m =
     (case validate_current ticket read_from_user (of_nat (length destination)) bindings epochs m of
        Inl e \<Rightarrow> Some (Inl e, destination, m)
      | Inr _ \<Rightarrow> copy_from_loop l saved (ur_address (ua_range ticket)) 0 destination m)"

definition copy_to_user_current ::
  "CopyLabels \<Rightarrow> ExceptionFrame \<Rightarrow> UserAccessTicket \<Rightarrow> u8 list \<Rightarrow> ProcessTranslationTable \<Rightarrow> AddressSpaceEpochAuthority \<Rightarrow>
   UserMachine \<Rightarrow> (unit result \<times> UserMachine) option" where
  "copy_to_user_current l saved ticket source bindings epochs m =
     (case validate_current ticket write_to_user (of_nat (length source)) bindings epochs m of
        Inl e \<Rightarrow> Some (Inl e, m)
      | Inr _ \<Rightarrow> copy_to_loop l saved (ur_address (ua_range ticket)) 0 source m)"

section \<open>One page\<close>

text \<open>A valid range stays in the page it starts in.\<close>

lemma range_valid_unat:
  assumes "range_valid r"
  shows "unat (ur_address r) + unat (ur_length r) < 2 ^ 64" "0 < unat (ur_length r)" "ur_address r \<noteq> 0"
    "unat (ur_address r) div 4096 = (unat (ur_address r) + unat (ur_length r) - 1) div 4096"
proof -
  let ?a = "ur_address r" and ?n = "ur_length r"
  have h: "?a \<noteq> 0" "?n \<noteq> 0" "\<not> ?a > - 1 - ?n" "?a div 4096 = (?a + ?n - 1) div 4096"
    using assms by (auto simp: range_valid_def split: if_splits)
  show lt: "unat ?a + unat ?n < 2 ^ 64" using h(3) max_minus_less [of ?n ?a] by simp
  show pos: "0 < unat ?n" using h(2) by (simp add: unat_gt_0)
  show "?a \<noteq> 0" by (rule h(1))
  have s: "unat (?a + ?n) = unat ?a + unat ?n" using lt by (simp add: unat_plus_no_wrap)
  have "unat (?a + ?n - 1) = unat ?a + unat ?n - 1"
    using unat_sub [of 1 "?a + ?n"] pos s by (simp add: word_le_nat_alt)
  then show "unat ?a div 4096 = (unat ?a + unat ?n - 1) div 4096"
    using arg_cong [OF h(4), of unat] by (simp add: unat_div)
qed

lemma div_mod_step:
  fixes a j n :: nat
  assumes "a div 4096 = (a + n - 1) div 4096" "j < n"
  shows "(a + j) div 4096 = a div 4096 \<and> (a + j) mod 4096 = a mod 4096 + j"
proof -
  have "a div 4096 \<le> (a + j) div 4096" "(a + j) div 4096 \<le> (a + n - 1) div 4096"
    using assms(2) by (auto intro!: div_le_mono)
  then have d: "(a + j) div 4096 = a div 4096" using assms(1) by simp
  have "(a + j) mod 4096 = a mod 4096 + j"
    using div_mult_mod_eq [of "a + j" 4096] div_mult_mod_eq [of a 4096] unfolding d by linarith
  with d show ?thesis by simp
qed

lemma range_page:
  assumes v: "range_valid r" and j: "j < unat (ur_length r)"
  shows "(ur_address r + of_nat j) div 4096 = ur_address r div 4096"
    "(ur_address r + of_nat j) mod 4096 = ur_address r mod 4096 + of_nat j"
    "ur_address r + of_nat j \<noteq> 0" "ur_address r + of_nat j \<noteq> - 1"
proof -
  note u = range_valid_unat [OF v]
  let ?a = "ur_address r"
  have uj: "unat (of_nat j :: u64) = j" using j unat_less_64 [of "ur_length r"] by (simp add: unat_of_nat take_bit_nat_eq_self)
  have s: "unat (?a + of_nat j) = unat ?a + j" using u(1) j uj by (subst unat_plus_no_wrap) auto
  note dm = div_mod_step [OF u(4) j]
  show "(?a + of_nat j) div 4096 = ?a div 4096"
    by (simp add: word_unat_eq_iff unat_div s dm)
  have "unat (?a mod 4096 + of_nat j) = unat ?a mod 4096 + j"
    using uj u(1) j mod_less_eq_dividend [of "unat ?a" 4096]
    by (subst unat_plus_no_wrap) (auto simp: unat_mod)
  then show "(?a + of_nat j) mod 4096 = ?a mod 4096 + of_nat j"
    by (simp add: word_unat_eq_iff unat_mod s dm)
  show "?a + of_nat j \<noteq> 0" using s u(3) by (metis add_is_0 unat_0 unat_gt_0 not_gr_zero)
  show "?a + of_nat j \<noteq> - 1" using s u(1) j max_minus_less [of 1 "- 1"] by auto
qed

lemma range_translate:
  assumes "range_valid r" "j < unat (ur_length r)"
  shows "user_translate m (ur_address r + of_nat j) =
    map_option (\<lambda>(p, w). (p + of_nat j, w)) (user_translate m (ur_address r))"
  using range_page [OF assms] by (simp add: user_translate_def add.assoc split: option.split)

section \<open>One byte\<close>

lemma abort_class: "sy_class (decode_exception_syndrome (push_bit 26 0x25 OR (x AND 0x03FFFFFF))) = 0x25"
proof -
  have "drop_bit 26 (x AND 0x03FFFFFF) = (0 :: u64)"
    by (rule bit_eqI) (simp add: bit_simps)
  then show ?thesis by (simp add: decode_exception_syndrome_def drop_bit_or)
qed

lemma disarm_memory [simp]:
  "um_memory (disarm m) = um_memory m" "um_walk (disarm m) = um_walk m" "um_ttbr0 (disarm m) = um_ttbr0 m"
  "um_guard (disarm m) = guard_disarmed"
  by (simp_all add: disarm_def disarm_user_copy_fault_guard_def)

lemma guard_roundtrip: "um_guard m = guard_disarmed \<Longrightarrow> m\<lparr>um_guard := guard_disarmed\<rparr> = m"
  by (cases m) simp

lemma arm_byte_ok:
  assumes "um_guard m = guard_disarmed" "a \<noteq> 0" "a \<noteq> - 1" "pc \<noteq> 0" "rc \<noteq> 0"
  shows "arm_byte m a pc rc =
    (True, m\<lparr>um_guard := \<lparr>gd_fault_pc = pc, gd_recovery_pc = rc, gd_begin = a, gd_end = a + 1, gd_armed = True\<rparr>\<rparr>)"
proof -
  have "a < a + 1" using assms(3) by (simp add: word_less_plus_one)
  then show ?thesis
    using assms by (simp add: arm_byte_def arm_user_copy_fault_guard_def guard_disarmed_def not_le)
qed

text \<open>A fault on the armed byte is always claimed by the guard, whatever the processor put into the other registers.\<close>

lemma user_abort_ok:
  assumes "um_guard m = \<lparr>gd_fault_pc = pc, gd_recovery_pc = rc, gd_begin = a, gd_end = a + 1, gd_armed = True\<rparr>" "a \<noteq> - 1"
  shows "user_abort saved pc rc a m = Some (False, m\<lparr>um_guard := guard_disarmed\<rparr>)"
proof -
  have "a < a + 1" using assms(2) by (simp add: word_less_plus_one)
  then show ?thesis
    using assms(1)
    by (simp add: user_abort_def current_sync_exception_dispatch_def recover_user_copy_fault_def abort_class [simplified] not_le)
qed

text \<open>The guard claims nothing else: a kernel fault is recovered only if it is a data abort of the armed instruction on the armed byte.\<close>

lemma dispatch_recovers_iff:
  "current_sync_exception_dispatch guard frame \<noteq> None \<longleftrightarrow>
     gd_armed guard \<and> sy_class (decode_exception_syndrome (esr_el1 frame)) = 0x25 \<and> elr_el1 frame = gd_fault_pc guard \<and>
     gd_begin guard \<le> far_el1 frame \<and> far_el1 frame < gd_end guard"
  by (auto simp: current_sync_exception_dispatch_def recover_user_copy_fault_def Let_def not_less)

text \<open>So one byte either moves or fails, and the guard is disarmed again.\<close>

lemma ldtrb_step:
  assumes l: "labels_placed l" and g: "um_guard m = guard_disarmed" and a: "a \<noteq> 0" "a \<noteq> - 1"
  shows "\<exists>m1. arm_byte m a (cl_load_fault l) (cl_load_recovery l) = (True, m1) \<and>
    ldtrb_user_byte l saved a d i m1 = (case user_translate m a of
        Some (p, w) \<Rightarrow> Some (True, d[i := um_memory m p], m1) | None \<Rightarrow> Some (False, d, m)) \<and>
    disarm m1 = m \<and> disarm m = m"
proof -
  define m1 where "m1 = m\<lparr>um_guard := \<lparr>gd_fault_pc = cl_load_fault l, gd_recovery_pc = cl_load_recovery l,
    gd_begin = a, gd_end = a + 1, gd_armed = True\<rparr>\<rparr>"
  have "user_abort saved (cl_load_fault l) (cl_load_recovery l) a m1 = Some (False, m)"
    using user_abort_ok [of m1 "cl_load_fault l" "cl_load_recovery l" a saved] a g by (simp add: m1_def guard_roundtrip)
  moreover have "user_translate m1 a = user_translate m a" "um_memory m1 = um_memory m"
    by (simp_all add: user_translate_def m1_def)
  ultimately show ?thesis
    using arm_byte_ok [OF g a, of "cl_load_fault l" "cl_load_recovery l"] l g
    by (intro exI [of _ m1])
       (auto simp: labels_placed_def m1_def ldtrb_user_byte_def disarm_def disarm_user_copy_fault_guard_def guard_roundtrip
         split: option.split)
qed

lemma sttrb_step:
  assumes l: "labels_placed l" and g: "um_guard m = guard_disarmed" and a: "a \<noteq> 0" "a \<noteq> - 1"
  shows "\<exists>m1. arm_byte m a (cl_store_fault l) (cl_store_recovery l) = (True, m1) \<and>
    map_option (\<lambda>(c, m2). (c, disarm m2)) (sttrb_user_byte l saved a v m1) = (case user_translate m a of
        Some (p, True) \<Rightarrow> Some (True, m\<lparr>um_memory := (um_memory m)(p := v)\<rparr>) | _ \<Rightarrow> Some (False, m))"
proof -
  define m1 where "m1 = m\<lparr>um_guard := \<lparr>gd_fault_pc = cl_store_fault l, gd_recovery_pc = cl_store_recovery l,
    gd_begin = a, gd_end = a + 1, gd_armed = True\<rparr>\<rparr>"
  have "user_abort saved (cl_store_fault l) (cl_store_recovery l) a m1 = Some (False, m)"
    using user_abort_ok [of m1 "cl_store_fault l" "cl_store_recovery l" a saved] a g by (simp add: m1_def guard_roundtrip)
  moreover have "user_translate m1 a = user_translate m a" by (simp add: user_translate_def m1_def)
  moreover have "disarm (m1\<lparr>um_memory := f\<rparr>) = m\<lparr>um_memory := f\<rparr>" "disarm m = m" for f
    using g by (cases m; simp add: m1_def disarm_def disarm_user_copy_fault_guard_def)+
  ultimately show ?thesis
    using arm_byte_ok [OF g a, of "cl_store_fault l" "cl_store_recovery l"] l
    by (intro exI [of _ m1]) (auto simp: labels_placed_def sttrb_user_byte_def m1_def split: option.split bool.split)
qed

section \<open>A whole range\<close>

text \<open>The bytes of a range as the current translation shows them, and memory after a range was stored to.\<close>

definition user_bytes :: "UserMachine \<Rightarrow> u64 \<Rightarrow> nat \<Rightarrow> u8 list" where
  "user_bytes m a n = (case user_translate m a of
     None \<Rightarrow> [] | Some (p, _) \<Rightarrow> map (\<lambda>j. um_memory m (p + of_nat j)) [0..<n])"

definition put_bytes :: "(u64 \<Rightarrow> u8) \<Rightarrow> u64 \<Rightarrow> u8 list \<Rightarrow> u64 \<Rightarrow> u8" where
  "put_bytes mem p bs q = (if unat (q - p) < length bs then bs ! unat (q - p) else mem q)"

definition put_user :: "UserMachine \<Rightarrow> u64 \<Rightarrow> u8 list \<Rightarrow> UserMachine" where
  "put_user m a bs = (case user_translate m a of
     None \<Rightarrow> m | Some (p, _) \<Rightarrow> m\<lparr>um_memory := put_bytes (um_memory m) p bs\<rparr>)"

lemma copy_from_loop_ok:
  assumes l: "labels_placed l" and g: "um_guard m = guard_disarmed"
    and pages: "\<And>j. j < length d \<Longrightarrow> a + of_nat j \<noteq> 0 \<and> a + of_nat j \<noteq> - 1 \<and>
      (\<exists>w. user_translate m (a + of_nat j) = Some (p + of_nat j, w))"
    and i: "i \<le> length d" "\<And>j. j < i \<Longrightarrow> d ! j = um_memory m (p + of_nat j)"
  shows "copy_from_loop l saved a i d m = Some (Inr (), map (\<lambda>j. um_memory m (p + of_nat j)) [0..<length d], m)"
  using pages i
proof (induction "length d - i" arbitrary: i d)
  case 0
  then show ?case by (subst copy_from_loop.simps) (auto intro!: nth_equalityI)
next
  case (Suc n)
  have lt: "i < length d" using Suc.hyps(2) by simp
  note pg = Suc.prems(1) [OF lt]
  obtain m1 where st: "arm_byte m (a + of_nat i) (cl_load_fault l) (cl_load_recovery l) = (True, m1)"
    "ldtrb_user_byte l saved (a + of_nat i) d i m1 = Some (True, d[i := um_memory m (p + of_nat i)], m1)" "disarm m1 = m"
    using ldtrb_step [OF l g, of "a + of_nat i" saved d i] pg by fastforce
  let ?d = "d[i := um_memory m (p + of_nat i)]"
  have "copy_from_loop l saved a (i + 1) ?d m = Some (Inr (), map (\<lambda>j. um_memory m (p + of_nat j)) [0..<length ?d], m)"
    using Suc.hyps Suc.prems lt by (intro Suc.hyps(1)) (auto simp: nth_list_update less_Suc_eq)
  then show ?case using st lt by (subst copy_from_loop.simps) (simp add: Let_def)
qed

lemma copy_from_loop_fault:
  assumes l: "labels_placed l" and g: "um_guard m = guard_disarmed"
    and "d \<noteq> []" "a \<noteq> 0" "a \<noteq> - 1" "user_translate m a = None"
  shows "copy_from_loop l saved a 0 d m = Some (Inl uc_copy_fault, d, m)"
proof -
  obtain m1 where "arm_byte m a (cl_load_fault l) (cl_load_recovery l) = (True, m1)"
    "ldtrb_user_byte l saved a d 0 m1 = Some (False, d, m)" "disarm m = m"
    using ldtrb_step [OF l g assms(4,5), of saved d 0] assms(6) by auto
  then show ?thesis using assms(3) by (subst copy_from_loop.simps) (simp add: Let_def)
qed

lemma put_bytes_Nil [simp]: "put_bytes mem p [] = mem"
  by (simp add: put_bytes_def fun_eq_iff)

lemma put_bytes_Cons:
  assumes "length bs < 2 ^ 64 - 1"
  shows "put_bytes (mem(p := v)) (p + 1) bs = put_bytes mem p (v # bs)"
proof
  fix q
  show "put_bytes (mem(p := v)) (p + 1) bs q = put_bytes mem p (v # bs) q"
  proof (cases "q = p")
    case True
    have "unat (p - (p + 1)) = 2 ^ 64 - 1" using max_minus_less [of 1 "- 1"] unat_less_64 [of "- 1"] by simp
    then show ?thesis using True assms by (simp add: put_bytes_def)
  next
    case False
    then have "unat (1 + (q - (p + 1))) = Suc (unat (q - (p + 1)))"
      by (intro unatSuc) (auto simp: algebra_simps)
    then have "unat (q - p) = Suc (unat (q - (p + 1)))" by (simp add: algebra_simps)
    then show ?thesis using False by (simp add: put_bytes_def)
  qed
qed

lemma copy_to_loop_ok:
  assumes l: "labels_placed l" and g: "um_guard m = guard_disarmed"
    and pages: "\<And>j. i \<le> j \<Longrightarrow> j < i + length bs \<Longrightarrow> a + of_nat j \<noteq> 0 \<and> a + of_nat j \<noteq> - 1 \<and>
      user_translate m (a + of_nat j) = Some (p + of_nat j, True)"
    and len: "length bs < 2 ^ 64 - 1"
  shows "copy_to_loop l saved a i bs m = Some (Inr (), m\<lparr>um_memory := put_bytes (um_memory m) (p + of_nat i) bs\<rparr>)"
  using g pages len
proof (induction bs arbitrary: i m)
  case Nil
  then show ?case by simp
next
  case (Cons v bs)
  have pg: "a + of_nat i \<noteq> 0" "a + of_nat i \<noteq> - 1" "user_translate m (a + of_nat i) = Some (p + of_nat i, True)"
    using Cons.prems(2) [of i] by auto
  let ?m = "m\<lparr>um_memory := (um_memory m)(p + of_nat i := v)\<rparr>"
  obtain m1 m2 where st: "arm_byte m (a + of_nat i) (cl_store_fault l) (cl_store_recovery l) = (True, m1)"
    "sttrb_user_byte l saved (a + of_nat i) v m1 = Some (True, m2)" "disarm m2 = ?m"
    using sttrb_step [OF l Cons.prems(1) pg(1,2), of saved v] pg(3) by fastforce
  have "copy_to_loop l saved a (i + 1) bs ?m =
      Some (Inr (), ?m\<lparr>um_memory := put_bytes (um_memory ?m) (p + of_nat (i + 1)) bs\<rparr>)"
    using Cons.prems by (intro Cons.IH) (auto simp: user_translate_def)
  also have "put_bytes (um_memory ?m) (p + of_nat (i + 1)) bs = put_bytes (um_memory m) (p + of_nat i) (v # bs)"
    using put_bytes_Cons [of bs "um_memory m" "p + of_nat i" v] Cons.prems(3) by (simp add: algebra_simps)
  finally show ?case using st by (simp add: Let_def fun_upd_def)
qed

lemma copy_to_loop_fault:
  assumes l: "labels_placed l" and g: "um_guard m = guard_disarmed"
    and "bs \<noteq> []" "a \<noteq> 0" "a \<noteq> - 1" "\<nexists>p. user_translate m a = Some (p, True)"
  shows "copy_to_loop l saved a 0 bs m = Some (Inl uc_copy_fault, m)"
proof -
  obtain v rest where bs: "bs = v # rest" using assms(3) by (cases bs) auto
  obtain m1 m2 where "arm_byte m a (cl_store_fault l) (cl_store_recovery l) = (True, m1)"
    "sttrb_user_byte l saved a v m1 = Some (False, m2)" "disarm m2 = m"
    using sttrb_step [OF l g assms(4,5), of saved v] assms(6)
    by (fastforce split: option.splits bool.splits)
  then show ?thesis by (simp add: bs Let_def)
qed

text \<open>What a copy asks for, beyond the permission of the page: the ticket matches the direction and the length, it names the binding that
  its thread has now, and TTBR0 holds that binding's root under that binding's ASID.\<close>

definition ticket_current ::
  "UserAccessTicket \<Rightarrow> UserAccessIntent \<Rightarrow> nat \<Rightarrow> ProcessTranslationTable \<Rightarrow> AddressSpaceEpochAuthority \<Rightarrow> UserMachine \<Rightarrow> bool" where
  "ticket_current ticket intent n bindings epochs m \<longleftrightarrow>
     ua_intent ticket = intent \<and> ur_length (ua_range ticket) = of_nat n \<and> ticket_valid ticket \<and>
     (\<exists>b. pt_resolve bindings (ua_thread ticket) epochs = Inr b \<and> pb_epoch b = ua_epoch ticket \<and> pb_root b = ua_root ticket) \<and>
     um_ttbr0 m = ttbr0_el1_value (ua_root ticket) (ae_asid (ua_epoch ticket)) \<and> um_ttbr0 m \<noteq> 0"

lemma validate_current_iff:
  "validate_current ticket intent (of_nat n) bindings epochs m = Inr () \<longleftrightarrow>
     ticket_current ticket intent n bindings epochs m"
  by (auto simp: validate_current_def ticket_current_def user_access_still_live_def Let_def split: sum.splits)

lemma validate_current_cases:
  "validate_current ticket intent (of_nat n) bindings epochs m =
     (if ticket_current ticket intent n bindings epochs m then Inr ()
      else Inl (projl (validate_current ticket intent (of_nat n) bindings epochs m)))"
  using validate_current_iff [of ticket intent n bindings epochs m]
  by (cases "validate_current ticket intent (of_nat n) bindings epochs m") auto

lemma copy_from_user_cases:
  assumes l: "labels_placed l" and g: "um_guard m = guard_disarmed" and len: "length d < 2 ^ 64"
  shows "copy_from_user_current l saved ticket d bindings epochs m =
    (if ticket_current ticket read_from_user (length d) bindings epochs m then
       (if user_translate m (ur_address (ua_range ticket)) = None then Some (Inl uc_copy_fault, d, m)
        else Some (Inr (), user_bytes m (ur_address (ua_range ticket)) (length d), m))
     else Some (Inl (projl (validate_current ticket read_from_user (of_nat (length d)) bindings epochs m)), d, m))"
proof (cases "ticket_current ticket read_from_user (length d) bindings epochs m")
  case True
  let ?r = "ua_range ticket"
  have v: "range_valid ?r" and n: "unat (ur_length ?r) = length d"
    using True len by (auto simp: ticket_current_def ticket_valid_def unat_of_nat take_bit_nat_eq_self)
  have ne: "d \<noteq> []" using range_valid_unat(2) [OF v] n by auto
  note pg = range_page [OF v, unfolded n] and trs = range_translate [OF v, unfolded n]
  have nz: "ur_address ?r \<noteq> 0" "ur_address ?r \<noteq> - 1" using pg(3,4) [of 0] ne by auto
  show ?thesis
  proof (cases "user_translate m (ur_address ?r)")
    case None
    then show ?thesis
      using copy_from_loop_fault [OF l g ne nz, of saved] True
      by (simp add: copy_from_user_current_def validate_current_iff [THEN iffD2])
  next
    case (Some pw)
    then obtain p w where p: "user_translate m (ur_address ?r) = Some (p, w)" by (cases pw) auto
    have "copy_from_loop l saved (ur_address ?r) 0 d m =
        Some (Inr (), map (\<lambda>j. um_memory m (p + of_nat j)) [0..<length d], m)"
      using pg trs p by (intro copy_from_loop_ok [OF l g]) auto
    then show ?thesis using True p by (simp add: copy_from_user_current_def validate_current_iff [THEN iffD2] user_bytes_def)
  qed
next
  case False
  then show ?thesis by (subst copy_from_user_current_def, subst validate_current_cases) simp
qed

lemma copy_to_user_cases:
  assumes l: "labels_placed l" and g: "um_guard m = guard_disarmed" and len: "length bs < 2 ^ 64"
  shows "copy_to_user_current l saved ticket bs bindings epochs m =
    (if ticket_current ticket write_to_user (length bs) bindings epochs m then
       (if \<nexists>p. user_translate m (ur_address (ua_range ticket)) = Some (p, True) then Some (Inl uc_copy_fault, m)
        else Some (Inr (), put_user m (ur_address (ua_range ticket)) bs))
     else Some (Inl (projl (validate_current ticket write_to_user (of_nat (length bs)) bindings epochs m)), m))"
proof (cases "ticket_current ticket write_to_user (length bs) bindings epochs m")
  case True
  let ?r = "ua_range ticket"
  have v: "range_valid ?r" and n: "unat (ur_length ?r) = length bs"
    using True len by (auto simp: ticket_current_def ticket_valid_def unat_of_nat take_bit_nat_eq_self)
  have ne: "bs \<noteq> []" using range_valid_unat(2) [OF v] n by auto
  note pg = range_page [OF v, unfolded n] and trs = range_translate [OF v, unfolded n]
  have nz: "ur_address ?r \<noteq> 0" "ur_address ?r \<noteq> - 1" using pg(3,4) [of 0] ne by auto
  have small: "length bs < 2 ^ 64 - 1"
    using range_valid_unat(1,3) [OF v] n by (simp add: unat_gt_0 [symmetric])
  show ?thesis
  proof (cases "\<exists>p. user_translate m (ur_address ?r) = Some (p, True)")
    case False
    then show ?thesis
      using copy_to_loop_fault [OF l g ne nz, of saved] True
      by (simp add: copy_to_user_current_def validate_current_iff [THEN iffD2])
  next
    case exists: True
    then obtain p where p: "user_translate m (ur_address ?r) = Some (p, True)" by auto
    have "copy_to_loop l saved (ur_address ?r) 0 bs m =
        Some (Inr (), m\<lparr>um_memory := put_bytes (um_memory m) (p + of_nat 0) bs\<rparr>)"
      using pg trs p by (intro copy_to_loop_ok [OF l g _ small]) auto
    then show ?thesis using True p by (simp add: copy_to_user_current_def validate_current_iff [THEN iffD2] put_user_def)
  qed
next
  case False
  then show ?thesis by (subst copy_to_user_current_def, subst validate_current_cases) simp
qed

lemma put_user_simps [simp]:
  "um_guard (put_user m a bs) = um_guard m" "um_walk (put_user m a bs) = um_walk m" "um_ttbr0 (put_user m a bs) = um_ttbr0 m"
  by (simp_all add: put_user_def split: option.split)

lemma put_user_translate [simp]: "user_translate (put_user m a bs) x = user_translate m x"
  by (simp add: user_translate_def)

lemma user_bytes_put:
  assumes "user_translate m a = Some (p, w)" "length bs \<le> 2 ^ 64"
  shows "user_bytes (put_user m a bs) a (length bs) = bs"
proof -
  have "unat (of_nat j :: u64) = j" if "j < length bs" for j
    using that assms(2) by (simp add: unat_of_nat take_bit_nat_eq_self)
  then show ?thesis
    using assms by (auto simp: user_bytes_def put_user_def put_bytes_def user_translate_def
        split: option.splits intro!: nth_equalityI)
qed

text \<open>Memory outside the stored range is as it was.\<close>

lemma put_user_outside:
  assumes "user_translate m a = Some (p, w)" "length bs \<le> unat (q - p)"
  shows "um_memory (put_user m a bs) q = um_memory m q"
  using assms by (simp add: put_user_def put_bytes_def)

text \<open>C5: Copies between the kernel and user memory move a whole range or nothing and cannot crash the kernel.  With the guard disarmed, a copy
  ends without a fatal fault, whatever the ticket, the tables and the translation, and leaves the guard disarmed.  A copy from user memory
  succeeds exactly when the ticket is for this direction and length and names the binding that its thread has now, TTBR0 holds that
  binding's root and ASID, and the page is mapped; it then returns exactly the range's bytes, and on every failure the destination is
  untouched.  A copy to user memory succeeds under the same conditions on a page that user code may write; it then stores exactly
  the given bytes at the range's physical address and changes no other byte, and on every failure no byte changes.\<close>

theorem user_copy_all_or_nothing:
  assumes l: "labels_placed l" and g: "um_guard m = guard_disarmed" and len: "length buf < 2 ^ 64"
  shows "(\<exists>res out. copy_from_user_current l saved ticket buf bindings epochs m = Some (res, out, m) \<and>
        (res = Inr () \<longleftrightarrow> ticket_current ticket read_from_user (length buf) bindings epochs m \<and>
           user_translate m (ur_address (ua_range ticket)) \<noteq> None) \<and>
        out = (if res = Inr () then user_bytes m (ur_address (ua_range ticket)) (length buf) else buf)) \<and>
      (\<exists>res m'. copy_to_user_current l saved ticket buf bindings epochs m = Some (res, m') \<and> um_guard m' = guard_disarmed \<and>
        (res = Inr () \<longleftrightarrow> ticket_current ticket write_to_user (length buf) bindings epochs m \<and>
           (\<exists>p. user_translate m (ur_address (ua_range ticket)) = Some (p, True))) \<and>
        m' = (if res = Inr () then put_user m (ur_address (ua_range ticket)) buf else m))"
  using g copy_from_user_cases [OF assms, of saved ticket bindings epochs]
    copy_to_user_cases [OF assms, of saved ticket bindings epochs]
  by (auto split: if_splits)

end
