(* ===== verification/Ipc_Entry.thy ===== *)
theory Ipc_Entry
  imports Kernel_Invariant User_Copy
begin

text \<open>
  The IPC system calls as the processor enters them: aarch64_ipc_syscall.cpp and aarch64_interrupt_syscall.cpp of src/core/oskernel.  A call
  is decoded from the registers, its bytes cross between user memory and the kernel's envelopes by the copies of \<open>User_Copy\<close>, and the
  kernel's operations do the rest.  A call that blocks leaves a continuation, and \<open>complete_ipc_current\<close> finishes it when its thread runs again.

  The operations take and return the exception frame, the kernel and the machine; \<open>None\<close> is a fatal kernel fault.  The monotonic clock is a
  parameter.  The lemmas show that no call ends in a fatal fault or breaks the kernel's invariant, that a call reads and writes user memory
  only through the current thread's own translation, and that a request and its response arrive byte for byte.
\<close>

section \<open>Envelopes\<close>

abbreviation "im_wrong_thread \<equiv> kernel_error 270"
abbreviation "im_bad_syscall \<equiv> kernel_error 271"
abbreviation "im_no_receive_completion \<equiv> kernel_error 274"

record IpcSvcResult =
  sr_reschedule :: bool
  sr_completed :: bool

definition current_binding ::
  "ThreadId \<Rightarrow> ProcessTranslationTable \<Rightarrow> AddressSpaceEpochAuthority \<Rightarrow> ProcessTranslationBinding result" where
  "current_binding current bindings epochs =
     (if current = invalid_thread then Inl im_wrong_thread else pt_resolve bindings current epochs)"

definition ticket_from_binding ::
  "ProcessTranslationBinding \<Rightarrow> UserRange \<Rightarrow> UserAccessIntent \<Rightarrow> UserAccessTicket result" where
  "ticket_from_binding b r intent =
     (if \<not> binding_valid b then Inl ua_stale_translation
      else if \<not> range_valid r then Inl ua_invalid_range
      else Inr \<lparr>ua_thread = pb_thread b, ua_epoch = pb_epoch b, ua_root = pb_root b, ua_range = r, ua_intent = intent\<rparr>)"

definition read_envelope ::
  "CopyLabels \<Rightarrow> ExceptionFrame \<Rightarrow> ProcessTranslationBinding \<Rightarrow> u64 \<Rightarrow> size_t \<Rightarrow> ProcessTranslationTable \<Rightarrow>
   AddressSpaceEpochAuthority \<Rightarrow> UserMachine \<Rightarrow> (IpcEnvelope result \<times> UserMachine) option" where
  "read_envelope l saved b address len bindings epochs m =
     (if len = 0 then Some (Inr env_empty, m)
      else if len > of_nat max_ipc_inline_bytes then Some (Inl ipc_payload_too_large, m)
      else case ticket_from_binding b \<lparr>ur_address = address, ur_length = len\<rparr> read_from_user of
          Inl e \<Rightarrow> Some (Inl e, m)
        | Inr ticket \<Rightarrow>
            (case copy_from_user_current l saved ticket (take (unat len) (env_bytes env_empty)) bindings epochs m of
               None \<Rightarrow> None
             | Some (Inl e, _, m1) \<Rightarrow> Some (Inl e, m1)
             | Some (Inr _, copied, m1) \<Rightarrow>
                 Some (Inr \<lparr>env_bytes = copied @ drop (unat len) (env_bytes env_empty), env_size = ucast len\<rparr>, m1)))"

definition write_envelope ::
  "CopyLabels \<Rightarrow> ExceptionFrame \<Rightarrow> ProcessTranslationBinding \<Rightarrow> u64 \<Rightarrow> IpcEnvelope \<Rightarrow> ProcessTranslationTable \<Rightarrow>
   AddressSpaceEpochAuthority \<Rightarrow> UserMachine \<Rightarrow> (unit result \<times> UserMachine) option" where
  "write_envelope l saved b address envelope bindings epochs m =
     (if env_size envelope = 0 then Some (Inr (), m)
      else case ticket_from_binding b \<lparr>ur_address = address, ur_length = ucast (env_size envelope)\<rparr> write_to_user of
          Inl e \<Rightarrow> Some (Inl e, m)
        | Inr ticket \<Rightarrow> copy_to_user_current l saved ticket (env_view envelope) bindings epochs m)"

section \<open>The calls\<close>

type_synonym svc_state = "ExceptionFrame \<times> Kernel \<times> UserMachine"

definition svc_send ::
  "CopyLabels \<Rightarrow> ExceptionFrame \<Rightarrow> ThreadId \<Rightarrow> ProcessTranslationBinding \<Rightarrow> ProcessTranslationTable \<Rightarrow> AddressSpaceEpochAuthority \<Rightarrow>
   svc_state \<Rightarrow> (IpcSvcResult result \<times> svc_state) option" where
  "svc_send l saved current b bindings epochs st = (case st of (frame, k, m) \<Rightarrow>
     case decode_ipc_send_syscall (fx frame ! 0) (fx frame ! 1) (fx frame ! 2) of
       Inl e \<Rightarrow> Some (Inl e, frame, k, m)
     | Inr decoded \<Rightarrow>
         (case read_envelope l saved b (ux_address (is_request decoded)) (ux_length (is_request decoded)) bindings epochs m of
            None \<Rightarrow> None
          | Some (Inl e, m1) \<Rightarrow> Some (Inl e, frame, k, m1)
          | Some (Inr envelope, m1) \<Rightarrow>
              (case k_ipc_arm_send_continuation k current (pb_epoch b) (ux_address (is_request decoded)) epochs of
                 (Inl e, k1) \<Rightarrow> Some (Inl e, frame, k1, m1)
               | (Inr _, k1) \<Rightarrow>
                   (case k_ipc_send k1 current (is_capability decoded) envelope of
                      (Inl e, k2) \<Rightarrow> Some (Inl e, frame, snd (k_ipc_cancel_send_continuation k2 current), m1)
                    | (Inr _, k2) \<Rightarrow> Some (Inr \<lparr>sr_reschedule = True, sr_completed = False\<rparr>, frame, k2, m1)))))"

definition svc_deadline :: "u64 \<Rightarrow> IpcReceiveSyscall \<Rightarrow> u64" where
  "svc_deadline now decoded =
     (if \<not> receive_bounded decoded then 0
      else if now > - 1 - ir_deadline decoded then - 1 else now + ir_deadline decoded)"

definition svc_receive ::
  "CopyLabels \<Rightarrow> ExceptionFrame \<Rightarrow> u64 \<Rightarrow> ThreadId \<Rightarrow> ProcessTranslationBinding \<Rightarrow> ProcessTranslationTable \<Rightarrow>
   AddressSpaceEpochAuthority \<Rightarrow> svc_state \<Rightarrow> (IpcSvcResult result \<times> svc_state) option" where
  "svc_receive l saved now current b bindings epochs st = (case st of (frame, k, m) \<Rightarrow>
     case decode_ipc_receive_syscall (fx frame ! 0) (fx frame ! 1) (fx frame ! 2) of
       Inl e \<Rightarrow> Some (Inl e, frame, k, m)
     | Inr decoded \<Rightarrow>
         (case k_ipc_arm_receive_continuation k current (pb_epoch b) (ir_capability decoded) (ir_address decoded) epochs
                 (svc_deadline now decoded) of
            (Inl e, k1) \<Rightarrow> Some (Inl e, frame, k1, m)
          | (Inr _, k1) \<Rightarrow>
              (case k_ipc_receive k1 current (ir_capability decoded) of
                 (Inl e, k2) \<Rightarrow> Some (Inl e, frame, snd (k_ipc_cancel_receive_continuation k2 current), m)
               | (Inr received, k2) \<Rightarrow>
                   if \<not> received_valid received
                   then Some (Inr \<lparr>sr_reschedule = True, sr_completed = False\<rparr>, frame, k2, m)
                   else let k3 = snd (k_ipc_cancel_receive_continuation k2 current) in
                     (case write_envelope l saved b (ir_address decoded) (rcv_request received) bindings epochs m of
                        None \<Rightarrow> None
                      | Some (Inl e, m1) \<Rightarrow> Some (Inl e, frame, k3, m1)
                      | Some (Inr _, m1) \<Rightarrow>
                          Some (Inr \<lparr>sr_reschedule = False, sr_completed = True\<rparr>,
                            answer2 frame (seal_transaction (rcv_reply received)) (ucast (env_size (rcv_request received))), k3, m1)))))"

definition svc_reply ::
  "CopyLabels \<Rightarrow> ExceptionFrame \<Rightarrow> ThreadId \<Rightarrow> ProcessTranslationBinding \<Rightarrow> ProcessTranslationTable \<Rightarrow> AddressSpaceEpochAuthority \<Rightarrow>
   svc_state \<Rightarrow> (IpcSvcResult result \<times> svc_state) option" where
  "svc_reply l saved current b bindings epochs st = (case st of (frame, k, m) \<Rightarrow>
     case decode_ipc_reply_syscall (fx frame ! 0) (fx frame ! 1) (fx frame ! 2) of
       Inl e \<Rightarrow> Some (Inl e, frame, k, m)
     | Inr decoded \<Rightarrow>
         (case read_envelope l saved b (ux_address (ip_response decoded)) (ux_length (ip_response decoded)) bindings epochs m of
            None \<Rightarrow> None
          | Some (Inl e, m1) \<Rightarrow> Some (Inl e, frame, k, m1)
          | Some (Inr response, m1) \<Rightarrow>
              (case k_ipc_reply_transaction k current (ip_transaction decoded) response of
                 (Inl e, k1) \<Rightarrow> Some (Inl e, frame, k1, m1)
               | (Inr _, k1) \<Rightarrow> Some (Inr \<lparr>sr_reschedule = True, sr_completed = True\<rparr>, answer frame, k1, m1))))"

definition dispatch_ipc_svc_current ::
  "CopyLabels \<Rightarrow> ExceptionFrame \<Rightarrow> u64 \<Rightarrow> ThreadId \<Rightarrow> KernelCall \<Rightarrow> ProcessTranslationTable \<Rightarrow> AddressSpaceEpochAuthority \<Rightarrow>
   svc_state \<Rightarrow> (IpcSvcResult result \<times> svc_state) option" where
  "dispatch_ipc_svc_current l saved now current call bindings epochs st =
     (case current_binding current bindings epochs of
        Inl e \<Rightarrow> Some (Inl e, st)
      | Inr b \<Rightarrow>
          (case call of
             call_send \<Rightarrow> svc_send l saved current b bindings epochs st
           | call_receive \<Rightarrow> svc_receive l saved now current b bindings epochs st
           | call_reply \<Rightarrow> svc_reply l saved current b bindings epochs st
           | _ \<Rightarrow> Some (Inl im_bad_syscall, st)))"

section \<open>Completions\<close>

definition complete_receive ::
  "CopyLabels \<Rightarrow> ExceptionFrame \<Rightarrow> ThreadId \<Rightarrow> ProcessTranslationBinding \<Rightarrow> ProcessTranslationTable \<Rightarrow> AddressSpaceEpochAuthority \<Rightarrow>
   svc_state \<Rightarrow> (bool result \<times> svc_state) option" where
  "complete_receive l saved current b bindings epochs st = (case st of (frame, k, m) \<Rightarrow>
     case k_ipc_take_receive_continuation k current (pb_epoch b) epochs of
       (Inl e, k1) \<Rightarrow> Some (Inl e, frame, k1, m)
     | (Inr continuation, k1) \<Rightarrow>
         (case k_ipc_receive k1 current (rc_capability continuation) of
            (Inl _, k2) \<Rightarrow> Some (Inl im_no_receive_completion, frame, k2, m)
          | (Inr received, k2) \<Rightarrow>
              if \<not> received_valid received then Some (Inl im_no_receive_completion, frame, k2, m)
              else case write_envelope l saved b (rc_exchange continuation) (rcv_request received) bindings epochs m of
                  None \<Rightarrow> None
                | Some (Inl e, m1) \<Rightarrow> Some (Inl e, frame, k2, m1)
                | Some (Inr _, m1) \<Rightarrow>
                    Some (Inr True, answer2 frame (seal_transaction (rcv_reply received)) (ucast (env_size (rcv_request received))), k2, m1)))"

definition complete_send ::
  "CopyLabels \<Rightarrow> ExceptionFrame \<Rightarrow> ThreadId \<Rightarrow> ProcessTranslationBinding \<Rightarrow> ProcessTranslationTable \<Rightarrow> AddressSpaceEpochAuthority \<Rightarrow>
   svc_state \<Rightarrow> (bool result \<times> svc_state) option" where
  "complete_send l saved current b bindings epochs st = (case st of (frame, k, m) \<Rightarrow>
     case k_ipc_take_reply k current of
       (Inl e, k1) \<Rightarrow>
         Some (if err_domain e = dom_kernel \<and> err_code e = err_code ipc_reply_unavailable then Inr False else Inl e, frame, k1, m)
     | (Inr response, k1) \<Rightarrow>
         (case k_ipc_take_send_continuation k1 current (pb_epoch b) epochs of
            (Inl e, k2) \<Rightarrow> Some (Inl e, frame, k2, m)
          | (Inr continuation, k2) \<Rightarrow>
              (case write_envelope l saved b (sc_exchange continuation) response bindings epochs m of
                 None \<Rightarrow> None
               | Some (Inl e, m1) \<Rightarrow> Some (Inl e, frame, k2, m1)
               | Some (Inr _, m1) \<Rightarrow> Some (Inr True, answer1 frame (ucast (env_size response)), k2, m1))))"

definition complete_ipc_current ::
  "CopyLabels \<Rightarrow> ExceptionFrame \<Rightarrow> ThreadId \<Rightarrow> ProcessTranslationTable \<Rightarrow> AddressSpaceEpochAuthority \<Rightarrow>
   svc_state \<Rightarrow> (bool result \<times> svc_state) option" where
  "complete_ipc_current l saved current bindings epochs st = (case st of (frame, k, m) \<Rightarrow>
     case current_binding current bindings epochs of
       Inl e \<Rightarrow> Some (Inl e, st)
     | Inr b \<Rightarrow>
         (case k_ipc_take_deadline_expiry k current of
            (Inl e, k1) \<Rightarrow> Some (Inl e, frame, k1, m)
          | (Inr expired, k1) \<Rightarrow>
              if expired then Some (Inr True, answer frame, k1, m)
              else if ct_receive_armed (k_ipc_continuations k1) current
              then complete_receive l saved current b bindings epochs (frame, k1, m)
              else complete_send l saved current b bindings epochs (frame, k1, m)))"

definition complete_interrupt_current :: "ThreadId \<Rightarrow> ExceptionFrame \<Rightarrow> Kernel \<Rightarrow> bool result \<times> ExceptionFrame \<times> Kernel" where
  "complete_interrupt_current current frame k =
     (case k_take_delivered_service k current of
        (Inl e, k1) \<Rightarrow>
          (if err_domain e = dom_kernel \<and> err_code e = err_code idl_not_armed then Inr False else Inl e, frame, k1)
      | (Inr service, k1) \<Rightarrow>
          (Inr True, set_x (set_x frame 2 (ucast (svc_assertions service))) 3 (if svc_saturated service then 1 else 0), k1))"

section \<open>What crosses\<close>

text \<open>The translation in force is the one of the binding: the binding is the one its thread has now, and TTBR0 holds its root and ASID.\<close>

definition translation_current ::
  "ProcessTranslationBinding \<Rightarrow> ProcessTranslationTable \<Rightarrow> AddressSpaceEpochAuthority \<Rightarrow> UserMachine \<Rightarrow> bool" where
  "translation_current b bindings epochs m \<longleftrightarrow> binding_valid b \<and>
     (\<exists>b'. pt_resolve bindings (pb_thread b) epochs = Inr b' \<and> pb_epoch b' = pb_epoch b \<and> pb_root b' = pb_root b) \<and>
     um_ttbr0 m = ttbr0_el1_value (pb_root b) (ae_asid (pb_epoch b)) \<and> um_ttbr0 m \<noteq> 0"

lemma ticket_from_binding_current:
  assumes "ticket_from_binding b r intent = Inr ticket" "ur_length r = of_nat n"
  shows "ua_range ticket = r \<and> (ticket_current ticket intent n bindings epochs m \<longleftrightarrow> translation_current b bindings epochs m)"
  using assms by (auto simp: ticket_from_binding_def ticket_current_def translation_current_def ticket_valid_def binding_valid_def
      split: if_splits)

lemma read_envelope_cases:
  assumes l: "labels_placed l" and g: "um_guard m = guard_disarmed"
  obtains (refused) e where "read_envelope l saved b a len bindings epochs m = Some (Inl e, m)"
      "\<not> (len \<le> 64 \<and> range_valid \<lparr>ur_address = a, ur_length = len\<rparr> \<and> translation_current b bindings epochs m \<and>
          user_translate m a \<noteq> None)"
  | (taken) env where "read_envelope l saved b a len bindings epochs m = Some (Inr env, m)" "env_valid env"
      "env_size env = ucast len" "unat len \<le> 64" "env_view env = (if len = 0 then [] else user_bytes m a (unat len))"
proof (cases "len = 0 \<or> len > 64")
  case True
  then consider "len = 0" | "len \<noteq> 0" "len > 64" by blast
  then show ?thesis
  proof cases
    case 1
    then show ?thesis
      using taken [of env_empty] by (simp add: read_envelope_def env_valid_def env_view_def env_empty_def)
  next
    case 2
    then show ?thesis using refused [of ipc_payload_too_large] by (simp add: read_envelope_def not_le)
  qed
next
  case False
  then have n: "len \<noteq> 0" "\<not> len > 64" "unat len \<le> 64" by (auto simp: word_less_nat_alt not_less)
  let ?d = "take (unat len) (env_bytes env_empty)"
  have dl: "length ?d = unat len" using n(3) by (simp add: env_empty_def)
  show ?thesis
  proof (cases "ticket_from_binding b \<lparr>ur_address = a, ur_length = len\<rparr> read_from_user")
    case (Inl e)
    then have "\<not> (range_valid \<lparr>ur_address = a, ur_length = len\<rparr> \<and> translation_current b bindings epochs m)"
      by (auto simp: ticket_from_binding_def translation_current_def split: if_splits)
    moreover have "read_envelope l saved b a len bindings epochs m = Some (Inl e, m)" using n Inl by (simp add: read_envelope_def)
    ultimately show ?thesis using refused by blast
  next
    case (Inr ticket)
    note tk = ticket_from_binding_current [OF Inr, of "unat len" bindings epochs m]
    note cf = copy_from_user_cases [OF l g, of ?d saved ticket bindings epochs, unfolded dl, OF unat_less_64]
    show ?thesis
    proof (cases "translation_current b bindings epochs m \<and> user_translate m a \<noteq> None")
      case True
      let ?env = "\<lparr>env_bytes = user_bytes m a (unat len) @ drop (unat len) (env_bytes env_empty), env_size = ucast len\<rparr>"
      have sz: "unat (ucast len :: u8) = unat len"
        using n(3) by (simp add: unsigned_ucast_eq take_bit_nat_eq_self)
      have bl: "length (user_bytes m a (unat len)) = unat len" using True by (auto simp: user_bytes_def split: option.split)
      have "read_envelope l saved b a len bindings epochs m = Some (Inr ?env, m)"
        using n Inr cf tk True by (simp add: read_envelope_def)
      then show ?thesis
        using taken [of ?env] n(1,3) sz bl by (simp add: env_valid_def env_view_def)
    next
      case False
      then obtain e where "copy_from_user_current l saved ticket ?d bindings epochs m = Some (Inl e, ?d, m)"
        using cf tk by (auto split: if_splits)
      then have "read_envelope l saved b a len bindings epochs m = Some (Inl e, m)"
        using n Inr by (simp add: read_envelope_def)
      then show ?thesis using refused False by blast
    qed
  qed
qed

lemma write_envelope_cases:
  assumes l: "labels_placed l" and g: "um_guard m = guard_disarmed"
  obtains (refused) e where "write_envelope l saved b a env bindings epochs m = Some (Inl e, m)"
      "\<not> (env_size env = 0 \<or> length (env_view env) = unat (env_size env) \<and>
          range_valid \<lparr>ur_address = a, ur_length = ucast (env_size env)\<rparr> \<and> translation_current b bindings epochs m \<and>
          (\<exists>p. user_translate m a = Some (p, True)))"
  | (nothing) "write_envelope l saved b a env bindings epochs m = Some (Inr (), m)" "env_size env = 0"
  | (stored) p where "write_envelope l saved b a env bindings epochs m = Some (Inr (), put_user m a (env_view env))"
      "range_valid \<lparr>ur_address = a, ur_length = of_nat (length (env_view env))\<rparr>" "translation_current b bindings epochs m"
      "user_translate m a = Some (p, True)" "length (env_view env) = unat (env_size env)"
proof (cases "env_size env = 0")
  case True
  show ?thesis by (rule nothing) (simp_all add: write_envelope_def True)
next
  case False
  let ?r = "\<lparr>ur_address = a, ur_length = ucast (env_size env)\<rparr>" and ?v = "env_view env"
  have vl: "length ?v < 2 ^ 64" "length ?v \<le> unat (env_size env)"
    using unsigned_less [of "env_size env", where ?'a = nat] by (simp_all add: env_view_def)
  show ?thesis
  proof (cases "ticket_from_binding b ?r write_to_user")
    case (Inl e)
    then have "\<not> (range_valid ?r \<and> translation_current b bindings epochs m)"
      by (auto simp: ticket_from_binding_def translation_current_def split: if_splits)
    moreover have "write_envelope l saved b a env bindings epochs m = Some (Inl e, m)" using False Inl by (simp add: write_envelope_def)
    ultimately show ?thesis using refused False by blast
  next
    case (Inr ticket)
    have w: "write_envelope l saved b a env bindings epochs m = copy_to_user_current l saved ticket ?v bindings epochs m"
      using False Inr by (simp add: write_envelope_def)
    have rg: "ua_range ticket = ?r" "range_valid ?r"
      using Inr by (auto simp: ticket_from_binding_def split: if_splits)
    have "unat (ucast (env_size env) :: u64) = unat (env_size env)"
      using unsigned_less [of "env_size env", where ?'a = nat] by (simp add: unsigned_ucast_eq take_bit_nat_eq_self)
    then have same: "ur_length ?r = of_nat (length ?v) \<longleftrightarrow> length ?v = unat (env_size env)"
      using vl(1) by (auto simp: word_unat_eq_iff unat_of_nat take_bit_nat_eq_self)
    have tk: "ticket_current ticket write_to_user (length ?v) bindings epochs m \<longleftrightarrow>
        length ?v = unat (env_size env) \<and> translation_current b bindings epochs m"
    proof (cases "ur_length ?r = of_nat (length ?v)")
      case True
      then show ?thesis using ticket_from_binding_current [OF Inr True] same by simp
    next
      case False
      then show ?thesis using rg(1) same by (simp add: ticket_current_def)
    qed
    note ct = copy_to_user_cases [OF l g vl(1), of saved ticket bindings epochs, folded w, unfolded tk rg(1)]
    show ?thesis
    proof (cases "length ?v = unat (env_size env) \<and> translation_current b bindings epochs m \<and> (\<exists>p. user_translate m a = Some (p, True))")
      case True
      then obtain p where "user_translate m a = Some (p, True)" by blast
      then show ?thesis using stored [of p] True ct rg(2) same by simp
    next
      case no: False
      then obtain e where "write_envelope l saved b a env bindings epochs m = Some (Inl e, m)"
        using ct by (auto split: if_splits)
      then show ?thesis using refused no False by blast
    qed
  qed
qed

section \<open>Confinement\<close>

text \<open>What a call may do to memory: nothing, or one store through the binding's own translation into one page that user code may
  write.  What it may do to the registers: the two result registers and the outcome register.\<close>

definition confined ::
  "ProcessTranslationBinding \<Rightarrow> ProcessTranslationTable \<Rightarrow> AddressSpaceEpochAuthority \<Rightarrow> UserMachine \<Rightarrow> UserMachine \<Rightarrow> bool" where
  "confined b bindings epochs m m' \<longleftrightarrow> m' = m \<or> (translation_current b bindings epochs m \<and>
     (\<exists>a bs p. range_valid \<lparr>ur_address = a, ur_length = of_nat (length bs)\<rparr> \<and> length bs < 256 \<and>
        user_translate m a = Some (p, True) \<and> m' = put_user m a bs))"

definition results_only :: "ExceptionFrame \<Rightarrow> ExceptionFrame \<Rightarrow> bool" where
  "results_only frame frame' \<longleftrightarrow> frame' = frame\<lparr>fx := fx frame'\<rparr> \<and> length (fx frame') = length (fx frame) \<and>
     (\<forall>i. i \<notin> {0, 1, outcome_register} \<longrightarrow> fx frame' ! i = fx frame ! i)"

lemma results_only_answers [simp]:
  "results_only frame frame" "results_only frame (answer frame)" "results_only frame (answer1 frame x)"
  "results_only frame (answer2 frame x y)"
  by (simp_all add: results_only_def answer_def answer1_def answer2_def clear_results_def set_x_def)

definition svc_confined ::
  "ThreadId set \<Rightarrow> bool \<Rightarrow> ProcessTranslationBinding \<Rightarrow> ProcessTranslationTable \<Rightarrow> AddressSpaceEpochAuthority \<Rightarrow> svc_state \<Rightarrow>
   ('a result \<times> svc_state) option \<Rightarrow> bool" where
  "svc_confined T strict b bindings epochs st out \<longleftrightarrow> (case st of (frame, k, m) \<Rightarrow>
     \<exists>res frame' k' m'. out = Some (res, frame', k', m') \<and> k_inv_on T strict k' \<and> confined b bindings epochs m m' \<and>
       results_only frame frame' \<and> (\<not> is_ok res \<longrightarrow> frame' = frame \<and> m' = m))"

lemma svc_confined_simps [simp]:
  "svc_confined T strict b bindings epochs (frame, k, m) (Some (Inl e, frame, k', m)) \<longleftrightarrow> k_inv_on T strict k'"
  "results_only frame frame' \<Longrightarrow>
     svc_confined T strict b bindings epochs (frame, k, m) (Some (Inr v, frame', k', m')) \<longleftrightarrow>
       k_inv_on T strict k' \<and> confined b bindings epochs m m'"
  by (auto simp: svc_confined_def confined_def)

lemma confined_refl [simp]: "confined b bindings epochs m m"
  by (simp add: confined_def)

text \<open>Writing an envelope is confined, and what follows it may rely on that.\<close>

lemma write_envelope_confined:
  assumes "labels_placed l" "um_guard m = guard_disarmed"
    and "\<And>e. svc_confined T strict b bindings epochs (frame, k, m) (f (Inl e, m))"
    and "\<And>m'. confined b bindings epochs m m' \<Longrightarrow> svc_confined T strict b bindings epochs (frame, k, m) (f (Inr (), m'))"
  shows "svc_confined T strict b bindings epochs (frame, k, m)
    (case write_envelope l saved b a env bindings epochs m of None \<Rightarrow> None | Some out \<Rightarrow> f out)"
proof (cases rule: write_envelope_cases [OF assms(1,2), of saved b a env bindings epochs, case_names refused nothing stored])
  case (refused e)
  then show ?thesis using assms(3) by simp
next
  case nothing
  then show ?thesis using assms(4) by simp
next
  case (stored p)
  have "length (env_view env) < 256" using unsigned_less [of "env_size env", where ?'a = nat] stored(5) by simp
  with stored(2-4) have "confined b bindings epochs m (put_user m a (env_view env))" unfolding confined_def by blast
  then show ?thesis using assms(4) stored(1) by simp
qed

lemma svc_send_confined:
  assumes l: "labels_placed l" and g: "um_guard m = guard_disarmed" and inv: "k_inv_on T strict k"
  shows "svc_confined T strict b bindings epochs (frame, k, m) (svc_send l saved current b bindings epochs (frame, k, m))"
proof (cases "decode_ipc_send_syscall (fx frame ! 0) (fx frame ! 1) (fx frame ! 2)")
  case (Inl e)
  then show ?thesis using inv by (simp add: svc_send_def)
next
  case (Inr d)
  let ?a = "ux_address (is_request d)" and ?n = "ux_length (is_request d)"
  show ?thesis
  proof (cases rule: read_envelope_cases [OF l g, of saved b ?a ?n bindings epochs, case_names refused taken])
    case (refused e)
    then show ?thesis using Inr inv by (simp add: svc_send_def)
  next
    case (taken env)
    obtain r1 k1 where a1: "k_ipc_arm_send_continuation k current (pb_epoch b) ?a epochs = (r1, k1)" by fastforce
    obtain r2 k2 where a2: "k_ipc_send k1 current (is_capability d) env = (r2, k2)" by fastforce
    have i1: "k_inv_on T strict k1" using k_continuations_inv(1) [OF inv, of current "pb_epoch b" ?a epochs] a1 by simp
    have i2: "k_inv_on T strict k2" using k_ipc_send_inv(1) [OF i1, of current "is_capability d" env] a2 by simp
    show ?thesis
      using Inr taken(1) a1 a2 i1 i2 k_continuations_inv(3) [OF i2, of current]
      by (cases r1; cases r2) (simp_all add: svc_send_def)
  qed
qed

lemma svc_reply_confined:
  assumes l: "labels_placed l" and g: "um_guard m = guard_disarmed" and inv: "k_inv_on T strict k"
  shows "svc_confined T strict b bindings epochs (frame, k, m) (svc_reply l saved current b bindings epochs (frame, k, m))"
proof (cases "decode_ipc_reply_syscall (fx frame ! 0) (fx frame ! 1) (fx frame ! 2)")
  case (Inl e)
  then show ?thesis using inv by (simp add: svc_reply_def)
next
  case (Inr d)
  let ?a = "ux_address (ip_response d)" and ?n = "ux_length (ip_response d)"
  show ?thesis
  proof (cases rule: read_envelope_cases [OF l g, of saved b ?a ?n bindings epochs, case_names refused taken])
    case (refused e)
    then show ?thesis using Inr inv by (simp add: svc_reply_def)
  next
    case (taken env)
    obtain r1 k1 where a1: "k_ipc_reply_transaction k current (ip_transaction d) env = (r1, k1)" by fastforce
    show ?thesis
      using Inr taken(1) a1 k_ipc_send_inv(3) [OF inv, of current "ip_transaction d" env]
      by (cases r1) (simp_all add: svc_reply_def)
  qed
qed

lemma svc_receive_confined:
  assumes l: "labels_placed l" and g: "um_guard m = guard_disarmed" and inv: "k_inv_on T strict k"
  shows "svc_confined T strict b bindings epochs (frame, k, m) (svc_receive l saved now current b bindings epochs (frame, k, m))"
proof (cases "decode_ipc_receive_syscall (fx frame ! 0) (fx frame ! 1) (fx frame ! 2)")
  case (Inl e)
  then show ?thesis using inv by (simp add: svc_receive_def)
next
  case (Inr d)
  obtain r1 k1 where a1: "k_ipc_arm_receive_continuation k current (pb_epoch b) (ir_capability d) (ir_address d) epochs
      (svc_deadline now d) = (r1, k1)" by fastforce
  obtain r2 k2 where a2: "k_ipc_receive k1 current (ir_capability d) = (r2, k2)" by fastforce
  have i1: "k_inv_on T strict k1" using k_continuations_inv(4) [OF inv] a1 by (metis snd_conv)
  have i2: "k_inv_on T strict k2" using k_ipc_receive_inv(1) [OF i1, of current "ir_capability d"] a2 by simp
  have i3: "k_inv_on T strict (snd (k_ipc_cancel_receive_continuation k2 current))" by (rule k_continuations_inv(6) [OF i2])
  show ?thesis
  proof (cases "\<exists>v1 v2. r1 = Inr v1 \<and> r2 = Inr v2 \<and> received_valid v2")
    case False
    then show ?thesis using Inr a1 a2 i1 i2 i3 by (cases r1; cases r2) (simp_all add: svc_receive_def)
  next
    case True
    then show ?thesis
      using Inr a1 a2 i3
      by (auto simp: svc_receive_def Let_def intro!: write_envelope_confined [OF l g])
  qed
qed

lemma dispatch_ipc_confined:
  assumes l: "labels_placed l" and g: "um_guard m = guard_disarmed" and inv: "k_inv_on T strict k"
    and b: "current_binding current bindings epochs = Inr b"
  shows "svc_confined T strict b bindings epochs (frame, k, m)
    (dispatch_ipc_svc_current l saved now current call bindings epochs (frame, k, m))"
  using b inv svc_send_confined [OF l g inv] svc_receive_confined [OF l g inv] svc_reply_confined [OF l g inv]
  by (cases call) (simp_all add: dispatch_ipc_svc_current_def)

lemma complete_receive_confined:
  assumes l: "labels_placed l" and g: "um_guard m = guard_disarmed" and inv: "k_inv_on T strict k"
  shows "svc_confined T strict b bindings epochs (frame, k, m) (complete_receive l saved current b bindings epochs (frame, k, m))"
proof -
  obtain r1 k1 where a1: "k_ipc_take_receive_continuation k current (pb_epoch b) epochs = (r1, k1)" by fastforce
  have i1: "k_inv_on T strict k1" using k_continuations_inv(5) [OF inv, of current "pb_epoch b" epochs] a1 by simp
  show ?thesis
  proof (cases r1)
    case (Inl e)
    then show ?thesis using a1 i1 by (simp add: complete_receive_def)
  next
    case (Inr c)
    obtain r2 k2 where a2: "k_ipc_receive k1 current (rc_capability c) = (r2, k2)" by fastforce
    have i2: "k_inv_on T strict k2" using k_ipc_receive_inv(1) [OF i1, of current "rc_capability c"] a2 by simp
    show ?thesis
      using Inr a1 a2 i2
      by (cases r2) (auto simp: complete_receive_def intro!: write_envelope_confined [OF l g])
  qed
qed

lemma complete_send_confined:
  assumes l: "labels_placed l" and g: "um_guard m = guard_disarmed" and inv: "k_inv_on T strict k"
  shows "svc_confined T strict b bindings epochs (frame, k, m) (complete_send l saved current b bindings epochs (frame, k, m))"
proof -
  obtain r1 k1 where a1: "k_ipc_take_reply k current = (r1, k1)" by fastforce
  have i1: "k_inv_on T strict k1" using k_endpoint_inv(3) [OF inv, of current] a1 by simp
  show ?thesis
  proof (cases r1)
    case (Inl e)
    then show ?thesis using a1 i1 by (simp add: complete_send_def)
  next
    case (Inr response)
    obtain r2 k2 where a2: "k_ipc_take_send_continuation k1 current (pb_epoch b) epochs = (r2, k2)" by fastforce
    have i2: "k_inv_on T strict k2" using k_continuations_inv(2) [OF i1, of current "pb_epoch b" epochs] a2 by simp
    show ?thesis
      using Inr a1 a2 i2
      by (cases r2) (auto simp: complete_send_def intro!: write_envelope_confined [OF l g])
  qed
qed

lemma complete_ipc_confined:
  assumes l: "labels_placed l" and g: "um_guard m = guard_disarmed" and inv: "k_inv_on T strict k"
    and b: "current_binding current bindings epochs = Inr b"
  shows "svc_confined T strict b bindings epochs (frame, k, m)
    (complete_ipc_current l saved current bindings epochs (frame, k, m))"
proof -
  obtain r1 k1 where a1: "k_ipc_take_deadline_expiry k current = (r1, k1)" by fastforce
  have i1: "k_inv_on T strict k1" using k_expiry_inv(1) [OF inv, of current] a1 by simp
  show ?thesis
    using b a1 i1 complete_receive_confined [OF l g i1] complete_send_confined [OF l g i1]
    by (cases r1) (auto simp: complete_ipc_current_def svc_confined_def)
qed

text \<open>The binding of the running thread is its own.\<close>

lemma current_binding_thread:
  assumes "current_binding current bindings epochs = Inr b"
  shows "pb_thread b = current" "ep_active epochs (pb_epoch b)" "pt_resolve bindings current epochs = Inr b"
  using assms
  by (auto simp: current_binding_def pt_resolve_def dest: first_index_holds split: if_splits option.splits)

text \<open>The other completion of a resume: it keeps the invariant and writes registers that an IPC completion leaves alone.\<close>

lemma complete_interrupt_kept:
  assumes "k_inv_on T strict k" "complete_interrupt_current current frame k = (res, frame', k')"
  shows "k_inv_on T strict k'" "frame' = frame\<lparr>fx := fx frame'\<rparr>" "\<And>i. i \<notin> {2, 3} \<Longrightarrow> fx frame' ! i = fx frame ! i"
proof -
  obtain r k1 where t: "k_take_delivered_service k current = (r, k1)" by fastforce
  have "k_inv_on T strict k1" using k_interrupt_inv(4) [OF assms(1), of current] t by simp
  then show "k_inv_on T strict k'" using assms(2) t by (cases r) (auto simp: complete_interrupt_current_def)
  show "frame' = frame\<lparr>fx := fx frame'\<rparr>" "\<And>i. i \<notin> {2, 3} \<Longrightarrow> fx frame' ! i = fx frame ! i"
    using assms(2) t by (cases r; auto simp: complete_interrupt_current_def set_x_def)+
qed

lemma put_user_in_frame:
  assumes v: "range_valid \<lparr>ur_address = a, ur_length = of_nat (length bs)\<rparr>" and len: "length bs < 256"
    and tr: "user_translate m a = Some (p, True)" and q: "um_memory (put_user m a bs) q \<noteq> um_memory m q"
  shows "\<exists>frame. um_walk m (a div 4096) = Some (frame, True) \<and> unat (q - frame) < 4096"
proof -
  obtain frame where fr: "um_walk m (a div 4096) = Some (frame, True)" "p = frame + a mod 4096"
    using tr by (auto simp: user_translate_def split: option.splits)
  have j: "unat (q - p) < length bs" using q tr put_user_outside [OF tr] by (meson not_le)
  have n: "unat (of_nat (length bs) :: u64) = length bs" using len by (simp add: unat_of_nat take_bit_nat_eq_self)
  have "(a + of_nat (unat (q - p))) mod 4096 = a mod 4096 + of_nat (unat (q - p))"
    using range_page(2) [OF v, of "unat (q - p)"] j n by simp
  then have "q - frame = (a + (q - p)) mod 4096" using fr(2) by (simp add: algebra_simps)
  then have "unat (q - frame) < 4096" by (simp add: unat_mod)
  with fr(1) show ?thesis by blast
qed

text \<open>What the entry of a call or a completion of thread \<open>current\<close> keeps.\<close>

definition svc_entry_safe ::
  "ThreadId set \<Rightarrow> bool \<Rightarrow> ThreadId \<Rightarrow> ProcessTranslationTable \<Rightarrow> AddressSpaceEpochAuthority \<Rightarrow> svc_state \<Rightarrow> ('a result \<times> svc_state) option \<Rightarrow> bool" where
  "svc_entry_safe T strict current bindings epochs st out \<longleftrightarrow> (case st of (frame, k, m) \<Rightarrow>
     \<exists>res frame' k' mem. out = Some (res, frame', k', m\<lparr>um_memory := mem\<rparr>) \<and> k_inv_on T strict k' \<and> results_only frame frame' \<and>
       (\<not> is_ok res \<longrightarrow> frame' = frame \<and> mem = um_memory m) \<and>
       (mem \<noteq> um_memory m \<longrightarrow> (\<exists>b. pt_resolve bindings current epochs = Inr b \<and> pb_thread b = current \<and> ep_active epochs (pb_epoch b) \<and>
          um_ttbr0 m = ttbr0_el1_value (pb_root b) (ae_asid (pb_epoch b)) \<and> um_ttbr0 m \<noteq> 0)) \<and>
       (\<forall>q. mem q \<noteq> um_memory m q \<longrightarrow> (\<exists>page frame. um_walk m page = Some (frame, True) \<and> unat (q - frame) < 4096)))"

lemma svc_entry_safeI:
  assumes b: "current_binding current bindings epochs = Inr b" and sc: "svc_confined T strict b bindings epochs st out"
  shows "svc_entry_safe T strict current bindings epochs st out"
proof -
  obtain frame k m where st: "st = (frame, k, m)" by (cases st)
  obtain res frame' k' m' where o: "out = Some (res, frame', k', m')" "k_inv_on T strict k'" "confined b bindings epochs m m'"
    "results_only frame frame'" "\<not> is_ok res \<longrightarrow> frame' = frame \<and> m' = m"
    using sc by (auto simp: svc_confined_def st)
  note th = current_binding_thread [OF b]
  have m: "m' = m\<lparr>um_memory := um_memory m'\<rparr>"
    using o(3) by (auto simp: confined_def put_user_def split: option.split)
  have "\<exists>page frame. um_walk m page = Some (frame, True) \<and> unat (q - frame) < 4096" if h: "um_memory m' q \<noteq> um_memory m q" for q
  proof -
    obtain a bs p where "range_valid \<lparr>ur_address = a, ur_length = of_nat (length bs)\<rparr>" "length bs < 256"
        "user_translate m a = Some (p, True)" "m' = put_user m a bs"
      using o(3) h by (auto simp: confined_def)
    then show ?thesis using put_user_in_frame [of a bs m p q] h by blast
  qed
  moreover have "um_ttbr0 m = ttbr0_el1_value (pb_root b) (ae_asid (pb_epoch b)) \<and> um_ttbr0 m \<noteq> 0"
    if "um_memory m' \<noteq> um_memory m"
    using o(3) that by (auto simp: confined_def translation_current_def)
  ultimately show ?thesis
    using o th m unfolding svc_entry_safe_def st
    by (auto intro!: exI [of _ res] exI [of _ frame'] exI [of _ k'] exI [of _ "um_memory m'"])
qed

lemma svc_entry_unbound:
  assumes "k_inv_on T strict k"
  shows "svc_entry_safe T strict current bindings epochs (frame, k, m) (Some (Inl e, frame, k, m))"
  using assms by (auto simp: svc_entry_safe_def intro!: exI [of _ "um_memory m"])

text \<open>C4: Whatever a user thread puts into its registers, \<open>dispatch_ipc_svc_current\<close> and \<open>complete_ipc_current\<close> return a result or an error:
  the user copies inside them never end in a fatal kernel fault, provided the fault and recovery labels of the copy loops are placed and
  the copy guard is disarmed on entry.  Both keep the kernel's invariant, also when threads have been made runnable or not
  directly in the run queue; they change no register but the two results and the outcome; an error leaves registers and memory as
  they were.  If a byte of memory changes, TTBR0 holds the root and the ASID of the binding that the thread has, whose epoch is
  active, and every byte that changes is in a frame that this translation lets user code write.  The guard, the translation and TTBR0
  are as before.  The claim is about these two functions, not about what their caller makes of an error: the SVC handler of the boot
  image answers every refused IPC call by halting the machine (\<open>aarch64_boot.cpp\<close>, COOKIE:PANIC:IPC_SVC).\<close>

theorem ipc_entry_confined:
  assumes l: "labels_placed l" and g: "um_guard m = guard_disarmed" and inv: "k_inv_on T strict k"
  shows "svc_entry_safe T strict current bindings epochs (frame, k, m)
      (dispatch_ipc_svc_current l saved now current call bindings epochs (frame, k, m)) \<and>
    svc_entry_safe T strict current bindings epochs (frame, k, m)
      (complete_ipc_current l saved current bindings epochs (frame, k, m))"
proof (cases "current_binding current bindings epochs")
  case (Inl e)
  then show ?thesis
    by (simp add: dispatch_ipc_svc_current_def complete_ipc_current_def svc_entry_unbound [OF inv])
next
  case (Inr b)
  show ?thesis
    by (intro conjI svc_entry_safeI [OF Inr] dispatch_ipc_confined [OF l g inv Inr] complete_ipc_confined [OF l g inv Inr])
qed

end
