(* ===== verification/Kernel_Properties.thy ===== *)
theory Kernel_Properties
  imports Kernel_Invariant
begin

text \<open>
  What the composed kernel achieves: which thread runs, what is left of a dead thread, how a bounded
  receive expires, and how the timer handler of src/core/oskernel/boot/aarch64_boot.cpp drains the
  expired ones.
\<close>

section \<open>Who runs\<close>

lemma k_sched_runnable_iff:
  "sched_is_runnable s t = (case sched_view s t of None \<Rightarrow> Inl sched_unknown_thread | Some x \<Rightarrow> Inr (ss_runnable x))"
proof (cases "sched_find s t")
  case None
  then show ?thesis using sched_find_None [of s t] by (simp add: sched_is_runnable_def)
next
  case (Some i)
  then show ?thesis using sched_find_view [OF Some] by (simp add: sched_is_runnable_def)
qed

text \<open>What the scheduler's accessors say of a thread against what the rendezvous' accessors say.\<close>

definition in_step :: "Kernel \<Rightarrow> ThreadId \<Rightarrow> bool" where
  "in_step k t \<longleftrightarrow>
     sched_is_runnable (k_scheduler k) t =
       (case rz_state_of (k_threads k) t of
          Inl _ \<Rightarrow> Inl sched_unknown_thread | Inr st \<Rightarrow> Inr (st = ts_ready)) \<and>
     (case sched_view (k_scheduler k) t of
        None \<Rightarrow> rz_effective_priority_of (k_threads k) t = Inl rz_unknown_thread
      | Some x \<Rightarrow> rz_effective_priority_of (k_threads k) t = Inr (ss_effective x))"

lemma agrees_in_step:
  assumes "rz_ok (k_threads k)" "agrees T True (k_threads k) (k_scheduler k) t" "t \<notin> T"
  shows "in_step k t"
proof (cases "rz_view (k_threads k) t")
  case None
  then have "rz_state_of (k_threads k) t = Inl rz_unknown_thread"
    by (simp add: rz_state_of_def rz_find_None [symmetric])
  with None assms show ?thesis
    by (simp add: in_step_def agrees_def k_sched_runnable_iff rz_effective_priority_view split: option.splits)
next
  case (Some s)
  then have "rz_state_of (k_threads k) t = Inr (rs_state s)" by (simp add: rz_state_of_iff)
  with Some assms show ?thesis
    by (auto simp: in_step_def agrees_def k_sched_runnable_iff rz_effective_priority_view split: option.splits)
qed

lemma k_inv_in_step: "k_inv_on T True k \<Longrightarrow> t \<notin> T \<Longrightarrow> in_step k t"
  by (rule agrees_in_step) (simp_all add: k_inv_def k_base_def rz_inv_def)

text \<open>C1: The run queue agrees with the rendezvous.  Take any sequence of kernel methods other than the
  expiry of a bounded receive, interleaved with any updates, decisions and yields that a caller makes
  directly through \<open>runqueue()\<close>.  Then the scheduler and the rendezvous know the same threads; of every
  thread that no direct update named, the scheduler says that it is runnable exactly when the rendezvous
  says it is ready, and holds for it exactly the effective priority, inheritance included; and
  \<open>synchronise\<close>, with which every send, endpoint retirement and thread destruction that succeeds
  ends, brings all threads back into step, also those that were updated directly.\<close>

theorem k_runqueue_agrees:
  assumes "k_driven True T k"
  shows "(is_ok (sched_is_runnable (k_scheduler k) t) \<longleftrightarrow> is_ok (rz_state_of (k_threads k) t)) \<and>
    (t \<notin> T \<longrightarrow> in_step k t) \<and>
    k_threads (k_synchronise k) = k_threads k \<and> in_step (k_synchronise k) t"
proof (intro conjI impI)
  note inv = k_driven_inv [OF assms]
  have base: "k_base k" using inv by (simp add: k_inv_def)
  have "k_inv True (k_synchronise k)" by (rule k_synchronise_inv [OF base])
  then show "in_step (k_synchronise k) t" by (rule k_inv_in_step) simp
  show "in_step k t" if "t \<notin> T" using k_inv_in_step [OF inv that] .
  have "rz_view (k_threads k) t = None \<longleftrightarrow> sched_view (k_scheduler k) t = None"
    using base by (auto simp: k_base_def dom_eq_known)
  then show "is_ok (sched_is_runnable (k_scheduler k) t) \<longleftrightarrow> is_ok (rz_state_of (k_threads k) t)"
    using rz_find_None [of "k_threads k" t]
    by (auto simp: k_sched_runnable_iff rz_state_of_def split: option.split)
qed (simp add: k_synchronise_scheduler)

lemma rel_option_some_eq:
  "rel_option R x (Some y) \<longleftrightarrow> (\<exists>z. x = Some z \<and> R z y)"
  by (cases x) auto

text \<open>C2: The kernel runs the most urgent thread.  Whatever kernel methods (expiries included when \<open>strict\<close> is
  false) and direct run queue updates, decisions and yields came before, \<open>schedule\<close> names no thread exactly when no
  entry of the run queue is runnable, and otherwise a runnable one that no runnable one beats in
  priority.  If no direct update named the chosen thread, it is ready in the rendezvous.  If moreover no
  receive expired on the way (\<open>strict\<close>), then for every ready thread that no direct update named,
  a thread is chosen and, unless a direct update named it, its effective priority in the rendezvous is at
  least as high; and without direct updates none is chosen exactly when none is ready.\<close>

theorem k_schedule_most_urgent:
  assumes "k_driven strict T k" "t = dec_thread (fst (k_schedule k now))"
  shows "(t = invalid_thread \<longleftrightarrow> (\<forall>u. sched_is_runnable (k_scheduler k) u \<noteq> Inr True)) \<and>
    (t \<noteq> invalid_thread \<longrightarrow> (\<exists>c. sched_view (k_scheduler k) t = Some c \<and> ss_runnable c \<and>
       (\<forall>u x. sched_view (k_scheduler k) u = Some x \<longrightarrow> ss_runnable x \<longrightarrow> ss_effective x \<le> ss_effective c))) \<and>
    (t \<noteq> invalid_thread \<longrightarrow> t \<notin> T \<longrightarrow> rz_state_of (k_threads k) t = Inr ts_ready) \<and>
    (strict \<longrightarrow> (\<forall>u p. u \<notin> T \<longrightarrow> rz_state_of (k_threads k) u = Inr ts_ready \<longrightarrow>
       rz_effective_priority_of (k_threads k) u = Inr p \<longrightarrow> t \<noteq> invalid_thread \<and>
         (t \<notin> T \<longrightarrow> (\<exists>q. rz_effective_priority_of (k_threads k) t = Inr q \<and> p \<le> q)))) \<and>
    (strict \<and> T = {} \<longrightarrow> (t = invalid_thread \<longleftrightarrow> (\<forall>u. rz_state_of (k_threads k) u \<noteq> Inr ts_ready)))"
proof -
  let ?s = "k_scheduler k"
  have inv: "k_inv_on T strict k" using k_driven_inv [OF assms(1)] .
  have ok: "sched_ok ?s" and rok: "rz_ok (k_threads k)"
    using inv by (simp_all add: k_inv_def k_base_def rz_inv_def)
  have ag: "agrees T strict (k_threads k) ?s u" for u using inv by (simp add: k_inv_def)
  have tdef: "t = dec_thread (fst (sched_choose ?s now))"
    using assms(2) by (simp add: k_schedule_def split_beta)
  note d = sched_choose_decision [OF ok prod.collapse [symmetric], of now, folded tdef]
  have same: "sched_view (snd (sched_choose ?s now)) u = Some x \<Longrightarrow>
      \<exists>z. sched_view ?s u = Some z \<and> ss_runnable z = ss_runnable x \<and> ss_effective z = ss_effective x" for u x
    using sched_choose_same [OF ok, of u now] by (auto simp: rel_option_some_eq)
  have same': "sched_view ?s u = Some x \<Longrightarrow> \<exists>z. sched_view (snd (sched_choose ?s now)) u = Some z \<and>
      ss_runnable z = ss_runnable x \<and> ss_effective z = ss_effective x" for u x
    using sched_choose_same [OF ok, of u now] by (auto simp: option_rel_Some1)
  have run: "\<exists>c. sched_view ?s t = Some c \<and> ss_runnable c \<and>
      (\<forall>u x. sched_view ?s u = Some x \<longrightarrow> ss_runnable x \<longrightarrow> ss_effective x \<le> ss_effective c)" if "t \<noteq> 0"
  proof -
    obtain c where c: "sched_view (snd (sched_choose ?s now)) t = Some c" "ss_runnable c"
      "\<And>u x. sched_view (snd (sched_choose ?s now)) u = Some x \<Longrightarrow> ss_runnable x \<Longrightarrow> ss_effective x \<le> ss_effective c"
      using d \<open>t \<noteq> 0\<close> by (metis order.order_iff_strict)
    obtain z where "sched_view ?s t = Some z" "ss_runnable z" "ss_effective z = ss_effective c"
      using same [OF c(1)] c(2) by auto
    moreover have "ss_effective x \<le> ss_effective c" if "sched_view ?s u = Some x" "ss_runnable x" for u x
      using same' [OF that(1)] c(3) that(2) by metis
    ultimately show ?thesis by auto
  qed
  have none: "t = 0 \<longleftrightarrow> (\<forall>u x. sched_view ?s u = Some x \<longrightarrow> \<not> ss_runnable x)"
    using d same same' by metis
  have ready: "rz_state_of (k_threads k) t = Inr ts_ready" if "t \<noteq> 0" "t \<notin> T"
    using run [OF that(1)] ag [of t] that(2) by (auto simp: agrees_def rz_state_of_iff split: option.splits)
  have seen: "\<exists>x. sched_view ?s u = Some x \<and> (strict \<longrightarrow> ss_runnable x) \<and>
      rz_effective_priority_of (k_threads k) u = Inr (ss_effective x)"
    if "rz_state_of (k_threads k) u = Inr ts_ready" "u \<notin> T" for u
    using that ag [of u] rok
    by (auto simp: rz_state_of_iff agrees_def rz_effective_priority_view split: option.splits)
  have top: "t \<noteq> 0 \<and> (t \<notin> T \<longrightarrow> (\<exists>q. rz_effective_priority_of (k_threads k) t = Inr q \<and> p \<le> q))"
    if a: "strict" "u \<notin> T" "rz_state_of (k_threads k) u = Inr ts_ready" "rz_effective_priority_of (k_threads k) u = Inr p" for u p
  proof
    obtain x where x: "sched_view ?s u = Some x" "ss_runnable x" "p = ss_effective x"
      using seen [OF a(3,2)] a(1,4) by auto
    then show t: "t \<noteq> 0" using none by blast
    show "t \<notin> T \<longrightarrow> (\<exists>q. rz_effective_priority_of (k_threads k) t = Inr q \<and> p \<le> q)"
      using seen [OF ready [OF t]] run [OF t] x by auto
  qed
  have "t \<noteq> 0" if "strict" "T = {}" "rz_state_of (k_threads k) u = Inr ts_ready" for u
    using seen [of u] that none by auto
  then have last: "strict \<and> T = {} \<longrightarrow> (t = 0 \<longleftrightarrow> (\<forall>u. rz_state_of (k_threads k) u \<noteq> Inr ts_ready))"
    using ready by blast
  have "sched_is_runnable ?s u = Inr True \<longleftrightarrow> (\<exists>x. sched_view ?s u = Some x \<and> ss_runnable x)" for u
    by (auto simp: k_sched_runnable_iff split: option.split)
  with none have "t = 0 \<longleftrightarrow> (\<forall>u. sched_is_runnable ?s u \<noteq> Inr True)" by auto
  with run ready top last show ?thesis by blast
qed

section \<open>Death of a thread\<close>

lemma ipc_release_pending_gone:
  "set is \<subseteq> {..<length (ipc_pending t)} \<Longrightarrow>
   length (ipc_pending (ipc_release_pending b is t)) = length (ipc_pending t) \<and>
   (\<forall>i < length (ipc_pending t). pn_active (ipc_pending (ipc_release_pending b is t) ! i) \<longrightarrow>
      ipc_pending (ipc_release_pending b is t) ! i = ipc_pending t ! i) \<and>
   (\<forall>i \<in> set is. pn_active (ipc_pending (ipc_release_pending b is t) ! i) \<longrightarrow>
      pn_caller (ipc_pending (ipc_release_pending b is t) ! i) \<noteq> b)"
proof (induction "is" arbitrary: t)
  case (Cons i "is")
  define t1 where "t1 = (if \<not> pn_active (ipc_pending t ! i) \<or> pn_caller (ipc_pending t ! i) \<noteq> b then t
    else ipc_drop_replies (\<lambda>seal. seal_caller seal = b \<and> seal_endpoint seal = pn_endpoint (ipc_pending t ! i))
      (t\<lparr>ipc_pending := (ipc_pending t)[i := pending_blank], ipc_pending_calls := ipc_pending_calls t - 1\<rparr>))"
  have rec: "ipc_release_pending b (i # is) t = ipc_release_pending b is t1"
    by (simp add: t1_def Let_def)
  have p1: "ipc_pending t1 = ipc_pending t \<or> ipc_pending t1 = (ipc_pending t)[i := pending_blank]"
    by (simp add: t1_def ipc_drop_replies_def)
  then have len: "length (ipc_pending t1) = length (ipc_pending t)" by auto
  have dead: "pn_active (ipc_pending t1 ! j) \<Longrightarrow> ipc_pending t1 ! j = ipc_pending t ! j"
    if "j < length (ipc_pending t)" for j
    using p1 that by (cases "j = i") (auto simp: pending_blank_def)
  have here: "pn_active (ipc_pending t1 ! i) \<Longrightarrow> pn_caller (ipc_pending t1 ! i) \<noteq> b"
    using Cons.prems by (auto simp: t1_def ipc_drop_replies_def pending_blank_def)
  have ih: "length (ipc_pending (ipc_release_pending b is t1)) = length (ipc_pending t1) \<and>
   (\<forall>i < length (ipc_pending t1). pn_active (ipc_pending (ipc_release_pending b is t1) ! i) \<longrightarrow>
      ipc_pending (ipc_release_pending b is t1) ! i = ipc_pending t1 ! i) \<and>
   (\<forall>i \<in> set is. pn_active (ipc_pending (ipc_release_pending b is t1) ! i) \<longrightarrow>
      pn_caller (ipc_pending (ipc_release_pending b is t1) ! i) \<noteq> b)"
    using Cons.IH [of t1] Cons.prems len by simp
  have i: "i < length (ipc_pending t)" using Cons.prems by simp
  have "pn_active (ipc_pending (ipc_release_pending b is t1) ! j) \<Longrightarrow>
      ipc_pending (ipc_release_pending b is t1) ! j = ipc_pending t ! j" if "j < length (ipc_pending t)" for j
    using ih len dead that by metis
  moreover have "pn_active (ipc_pending (ipc_release_pending b is t1) ! i) \<Longrightarrow>
      pn_caller (ipc_pending (ipc_release_pending b is t1) ! i) \<noteq> b"
    using ih len here i by metis
  ultimately show ?case unfolding rec using ih len by simp
qed simp

lemma ipc_discard_gone:
  assumes "ipc_ok t" "b \<noteq> 0"
  shows "ipc_completed_slot (ipc_discard_completed_for t b) b = None"
proof -
  have find: "ipc_completed_slot u b = slot_find cm_active cm_caller 0 (ipc_completed u) b" for u
    using assms(2) by (simp add: ipc_completed_slot_def slot_find_def)
  show ?thesis
  proof (cases "ipc_completed_slot t b")
    case None
    then show ?thesis by (simp add: ipc_discard_completed_for_def)
  next
    case (Some i)
    have ok: "slot_ok cm_active cm_caller 0 max_threads (ipc_completed t)
        (of_nat (length (filter cm_active (ipc_completed t))))" using assms(1) by (simp add: ipc_ok_def)
    have "\<not> cm_active completed_blank" by (simp add: completed_blank_def)
    from cmt.remove_ok(2) [OF ok Some [unfolded find] this]
    have "slot_find cm_active cm_caller 0 ((ipc_completed t)[i := completed_blank]) b = None"
      by (simp add: cmt.find_view_None)
    with Some show ?thesis by (simp add: ipc_discard_completed_for_def find)
  qed
qed

lemma ipc_discard_fields [simp]:
  "ipc_pending (ipc_discard_completed_for t b) = ipc_pending t"
  "ipc_replies (ipc_discard_completed_for t b) = ipc_replies t"
  by (simp_all add: ipc_discard_completed_for_def split: option.split)

lemma ipc_release_thread_gone:
  assumes "ipc_ok t" "rz_inv r" "b \<noteq> 0" "ipc_release_thread t b r = (n, t', r')"
  shows "\<forall>p \<in> set (ipc_pending t'). pn_active p \<longrightarrow> pn_caller p \<noteq> b"
    and "\<forall>s \<in> set (ipc_replies t'). rp_active s \<longrightarrow> seal_caller (rp_seal s) \<noteq> b \<and> seal_server (rp_seal s) \<noteq> b"
    and "\<not> ipc_reply_available t' b"
    and "\<forall>s \<in> set (ipc_endpoints t'). en_active s \<and> en_server s = b \<longrightarrow>
      en_receive_waiting s \<and> s \<in> set (ipc_endpoints t)"
proof -
  obtain t1 where r1: "ipc_retire_owned b [0..<max_ipc_endpoints] t r 0 = (n, t1, r')"
    and t': "t' = ipc_discard_completed_for
      (ipc_drop_replies (\<lambda>seal. seal_caller seal = b \<or> seal_server seal = b)
        (ipc_release_pending b [0..<length (ipc_pending t1)] t1)) b"
    using assms(1,3,4)
    by (auto simp: ipc_release_thread_def ipc_retire_all_owned_by_def ipc_ok_def Let_def split: prod.splits)
  have sub: "set [0..<max_ipc_endpoints] \<subseteq> {..<max_ipc_endpoints}" by auto
  note sp = ipc_retire_owned_spec [OF assms(3,1,2) sub r1]
  have len: "length (ipc_pending t1) = 64" "length (ipc_endpoints t1) = 64" using sp by (simp_all add: ipc_ok_def)
  let ?t2 = "ipc_release_pending b [0..<length (ipc_pending t1)] t1"
  have "set [0..<length (ipc_pending t1)] \<subseteq> {..<length (ipc_pending t1)}" by auto
  note rp = ipc_release_pending_gone [OF this, of b]
  show "\<forall>p \<in> set (ipc_pending t'). pn_active p \<longrightarrow> pn_caller p \<noteq> b"
  proof (intro ballI impI)
    fix p assume p: "p \<in> set (ipc_pending t')" "pn_active p"
    then have "p \<in> set (ipc_pending ?t2)" by (simp add: t' ipc_drop_replies_def)
    then obtain i where "i < length (ipc_pending t1)" "p = ipc_pending ?t2 ! i" using rp by (metis in_set_conv_nth)
    with rp p(2) show "pn_caller p \<noteq> b" by auto
  qed
  show "\<forall>s \<in> set (ipc_replies t'). rp_active s \<longrightarrow> seal_caller (rp_seal s) \<noteq> b \<and> seal_server (rp_seal s) \<noteq> b"
    by (auto simp: t' ipc_drop_replies_def reply_blank_def)
  have "ipc_ok ?t2" using sp by (intro ipc_ok_release_pending) (simp_all add: ipc_ok_def)
  from ipc_discard_gone [OF ipc_ok_drop_replies [OF this] assms(3)]
  show "\<not> ipc_reply_available t' b" by (simp add: ipc_reply_available_def t')
  show "\<forall>s \<in> set (ipc_endpoints t'). en_active s \<and> en_server s = b \<longrightarrow>
      en_receive_waiting s \<and> s \<in> set (ipc_endpoints t)"
  proof (intro ballI impI)
    fix s assume s: "s \<in> set (ipc_endpoints t')" "en_active s \<and> en_server s = b"
    then obtain j where j: "j < 64" "s = ipc_endpoints t1 ! j" using len by (auto simp: t' in_set_conv_nth)
    then have "s = ipc_endpoints t ! j" using sp s by auto
    moreover have "length (ipc_endpoints t) = 64" using assms(1) by (simp add: ipc_ok_def)
    moreover have "j \<in> set [0..<64]" using j(1) by simp
    then have "en_receive_waiting s" using sp s(2) j(2) by blast
    ultimately show "en_receive_waiting s \<and> s \<in> set (ipc_endpoints t)" using j(1) by simp
  qed
qed

text \<open>What is left of a thread in the tables of the kernel.\<close>

definition k_forgotten :: "Kernel \<Rightarrow> ThreadId \<Rightarrow> bool" where
  "k_forgotten k t \<longleftrightarrow> \<not> k_tracks k t \<and> rz_view (k_threads k) t = None \<and> sched_view (k_scheduler k) t = None \<and>
     (\<forall>c s. cap_view (k_capabilities k) c = Some s \<longrightarrow> cs_holder s \<noteq> t) \<and>
     (\<forall>src. irq_owner_of (k_interrupts k) src \<noteq> Inr t) \<and>
     \<not> idl_armed (k_interrupt_deliveries k) t \<and>
     \<not> ct_send_armed (k_ipc_continuations k) t \<and> \<not> ct_receive_armed (k_ipc_continuations k) t \<and>
     (\<forall>p \<in> set (ipc_pending (k_ipc k)). pn_active p \<longrightarrow> pn_caller p \<noteq> t) \<and>
     (\<forall>s \<in> set (ipc_replies (k_ipc k)). rp_active s \<longrightarrow> seal_caller (rp_seal s) \<noteq> t \<and> seal_server (rp_seal s) \<noteq> t) \<and>
     \<not> ipc_reply_available (k_ipc k) t"

lemma k_destroy_state:
  assumes inv: "k_inv_on T strict k" and des: "k_destroy_thread k t = (Inr td, k')"
  obtains n ipc r m r1 where "ipc_release_thread (k_ipc k) t (k_threads k) = (n, ipc, r)"
    "rz_exit_thread r t = (Inr m, r1)" "k_threads k' = r1" "k_ipc k' = ipc"
    "k_capabilities k' = snd (cap_revoke_all_held_by (k_capabilities k) t)"
    "k_interrupts k' = snd (irq_detach_all_owned_by (k_interrupts k) t)"
    "k_interrupt_deliveries k' = snd (idl_take (k_interrupt_deliveries k) t)"
    "k_ipc_continuations k' = ct_release_thread (k_ipc_continuations k) t"
    "td_ipc_endpoints_retired td = n" "td_threads_released td = m"
    "td_capabilities_revoked td = fst (cap_revoke_all_held_by (k_capabilities k) t)"
proof -
  obtain n ipc r where rel: "ipc_release_thread (k_ipc k) t (k_threads k) = (n, ipc, r)" by (metis prod_cases3)
  obtain res r1 where ex: "rz_exit_thread r t = (res, r1)" by fastforce
  show thesis
  proof (cases res)
    case (Inl e)
    with des rel ex show thesis by (simp add: k_destroy_thread_def Let_def)
  next
    case (Inr m)
    with des rel ex that [OF rel] show thesis
      by (auto simp: k_destroy_thread_def Let_def split_beta idl_release_take k_synchronise_scheduler)
  qed
qed

text \<open>C10: What destroying a thread leaves of it.  Take any kernel reached by its methods, expiries included,
  and direct use of the run queue.  When \<open>destroy_thread\<close> succeeds the thread is gone from the live list, the
  rendezvous and the run queue; no capability is held by it, no interrupt source owned by it, no
  delivery or continuation armed for it, no call of it pending, no reply seal names it and no reply
  waits for it; nobody waits on it; every other thread is still there.  Its endpoints are retired too,
  with one exception: an endpoint that was already marked as waiting to receive can survive as
  it was (which happens when the receive behind the mark had expired), so nothing at all is left when no
  endpoint of the thread carries the mark.\<close>

theorem k_destroy_leaves_nothing:
  assumes "k_driven strict T k" "k_destroy_thread k t = (Inr td, k')"
  shows "k_forgotten k' t \<and>
    (\<forall>u. u \<noteq> t \<longrightarrow> k_tracks k' u = k_tracks k u) \<and>
    (\<forall>u s. rz_view (k_threads k') u = Some s \<longrightarrow>
       \<not> (rs_partner s = t \<and> rs_state s \<in> {ts_send_blocked, ts_reply_blocked})) \<and>
    (\<forall>s \<in> set (ipc_endpoints (k_ipc k')). en_active s \<and> en_server s = t \<longrightarrow>
       en_receive_waiting s \<and> s \<in> set (ipc_endpoints (k_ipc k)))"
proof -
  have inv: "k_inv_on T strict k" using k_driven_inv [OF assms(1)] .
  have inv': "k_inv_on T strict k'" using k_destroy_inv [OF inv, of t] assms(2) by simp
  have b: "k_base k" and b': "k_base k'" using inv inv' by (simp_all add: k_inv_def)
  obtain n ipc r m r1 where d: "ipc_release_thread (k_ipc k) t (k_threads k) = (n, ipc, r)"
    "rz_exit_thread r t = (Inr m, r1)" "k_threads k' = r1" "k_ipc k' = ipc"
    "k_capabilities k' = snd (cap_revoke_all_held_by (k_capabilities k) t)"
    "k_interrupts k' = snd (irq_detach_all_owned_by (k_interrupts k) t)"
    "k_interrupt_deliveries k' = snd (idl_take (k_interrupt_deliveries k) t)"
    "k_ipc_continuations k' = ct_release_thread (k_ipc_continuations k) t"
    by (rule k_destroy_state [OF inv assms(2)]) blast
  have ok: "ipc_ok (k_ipc k)" "rz_inv (k_threads k)" "cap_ok (k_capabilities k)" "irq_ok (k_interrupts k)"
    "idl_ok (k_interrupt_deliveries k)" "ct_ok (k_ipc_continuations k)"
    "ipc_owned (dom (rz_view (k_threads k))) (k_ipc k)" using b by (simp_all add: k_base_def)
  have keep: "rz_inv r" "dom (rz_view r) = dom (rz_view (k_threads k))"
    using ipc_release_thread_spec(2) [OF ok(1,2,7) d(1)] by (simp_all add: rz_keeps_def)
  note ex = rz_exit_known [OF keep(1) d(2)]
  have dom': "dom (rz_view (k_threads k')) = dom (rz_view (k_threads k)) - {t}" using ex(3) keep(2) d(3) by simp
  have t0: "t \<noteq> 0" using ex(1) by (auto intro: ccontr)
  have rz': "rz_view (k_threads k') t = None" using dom' by auto
  have sch: "sched_view (k_scheduler k') t = None" using b' rz' by (auto simp: k_base_def dom_eq_known)
  have trk: "k_tracks k' u = (u \<noteq> t \<and> k_tracks k u)" for u
    using dom' k_tracks_live [OF b] k_tracks_live [OF b'] by auto
  have caps: "cs_holder s \<noteq> t" if "cap_view (k_capabilities k') c = Some s" for c s
  proof
    assume h: "cs_holder s = t"
    have v: "cap_view (k_capabilities k) c = Some s" "\<not> cap_under (k_capabilities k) (cap_held_id (k_capabilities k) t) c"
      using that cap_revoke_all_ok(3) [OF ok(3) t0] d(5) by (auto split: if_splits)
    then have "cap_held_id (k_capabilities k) t c" using h by (auto simp: cap_held_id_def)
    then show False using v(2) by (auto simp: cap_under_def)
  qed
  have irq: "irq_owner_of (k_interrupts k') src \<noteq> Inr t" for src
  proof (cases "irq_find (k_interrupts k') src")
    case (Some i)
    then show ?thesis
      using irq_find_view [OF Some] irq_detach_all_view(2) [OF ok(4), of t src] d(6)
      by (auto simp: irq_owner_of_def split: option.splits if_splits)
  qed (simp add: irq_owner_of_def)
  have idl: "\<not> idl_armed (k_interrupt_deliveries k') t"
  proof -
    have "idl_view (k_interrupt_deliveries k') t = None"
      using idl_take_cases(2,3) [OF ok(5), of t] d(7) by (cases "idl_view (k_interrupt_deliveries k) t") auto
    then show ?thesis using idl_find_view(1) by (simp add: idl_armed_def)
  qed
  have ct: "\<not> ct_send_armed (k_ipc_continuations k') t" "\<not> ct_receive_armed (k_ipc_continuations k') t"
    using ct_release_thread_spec(2,3) [OF ok(6), of t] d(8) by (simp_all add: ct_armed_view)
  note ipc = ipc_release_thread_gone [OF ok(1,2) t0 d(1), folded d(4)]
  have waits: "\<not> (rs_partner s = t \<and> rs_state s \<in> {ts_send_blocked, ts_reply_blocked})"
    if s: "rz_view (k_threads k') u = Some s" for u s
  proof
    assume w: "rs_partner s = t \<and> rs_state s \<in> {ts_send_blocked, ts_reply_blocked}"
    have "rdv_slot_ok (rz_view (k_threads k')) u s"
      using b' s by (auto simp: k_base_def rz_inv_def dest: rdv_invD)
    with w rz' show False by (auto simp: rdv_slot_ok_def)
  qed
  have "k_forgotten k' t"
    unfolding k_forgotten_def using trk rz' sch caps irq idl ct ipc(1-3) by blast
  with trk waits ipc(4) show ?thesis by blast
qed

section \<open>Bounded receives\<close>

lemma rz_expire_ok:
  assumes "rz_ok r" "rz_expire_receive r a = (Inr u, r')"
  obtains s where "rz_view r a = Some s" "rs_state s = ts_receive_blocked"
    "rz_view r' = (rz_view r)(a \<mapsto> s\<lparr>rs_state := ts_ready, rs_wake := wake_deadline_expired\<rparr>)"
proof -
  obtain i where i: "rz_find r a = Some i" "rs_state (rz_at r i) = ts_receive_blocked"
    "r' = rz_put r i ((rz_at r i)\<lparr>rs_state := ts_ready, rs_wake := wake_deadline_expired\<rparr>)"
    using assms(2) by (auto simp: rz_expire_receive_def split: if_splits option.splits)
  note fi = rz_at_fields [OF i(1)]
  show thesis
    by (rule that [OF rz_find_Some [OF i(1)] i(2)])
       (use i(3) rz_put_ok(2) [OF assms(1) i(1)] fi in simp)
qed

text \<open>C31: The expiry of a bounded receive does not make its thread run.  In any state the other
  methods can reach, when \<open>ipc_expire_one_receive\<close> reports that it woke a receiver, that receiver
  is ready in the rendezvous, but the run queue still has it as not runnable and the next decision
  cannot choose it: the operation is the one that never reconciles the two.\<close>

theorem k_expiry_not_scheduled:
  assumes "(k_method True)\<^sup>*\<^sup>* k_empty k" "k_ipc_expire_one_receive k now = (Inr True, k')"
  shows "\<exists>t. rz_state_of (k_threads k) t = Inr ts_receive_blocked \<and>
    rz_state_of (k_threads k') t = Inr ts_ready \<and>
    sched_is_runnable (k_scheduler k') t = Inr False \<and> dec_thread (fst (k_schedule k' later)) \<noteq> t"
proof -
  have inv: "k_inv True k" using k_run_inv [OF assms(1)] .
  have ok: "rz_ok (k_threads k)" and sok: "sched_ok (k_scheduler k)"
    using inv by (simp_all add: k_inv_def k_base_def rz_inv_def)
  obtain c ct r' where ex: "ct_take_expired_receive (k_ipc_continuations k) now = (Inr c, ct)"
    "rz_expire_receive (k_threads k) (rc_server c) = (Inr (), r')"
    "k' = k\<lparr>k_ipc_continuations := ct, k_threads := r'\<rparr>"
    using assms(2) by (auto simp: k_ipc_expire_one_receive_def split: prod.splits sum.splits if_splits)
  let ?t = "rc_server c"
  obtain s where s: "rz_view (k_threads k) ?t = Some s" "rs_state s = ts_receive_blocked"
    "rz_view r' = (rz_view (k_threads k))(?t \<mapsto> s\<lparr>rs_state := ts_ready, rs_wake := wake_deadline_expired\<rparr>)"
    by (rule rz_expire_ok [OF ok ex(2)])
  have "agrees {} True (k_threads k) (k_scheduler k) ?t" using inv by (simp add: k_inv_def)
  with s obtain x where x: "sched_view (k_scheduler k) ?t = Some x" "\<not> ss_runnable x"
    by (auto simp: agrees_def split: option.splits)
  have "dec_thread (fst (sched_choose (k_scheduler k) later)) \<noteq> ?t"
  proof
    assume ch: "dec_thread (fst (sched_choose (k_scheduler k) later)) = ?t"
    let ?s' = "snd (sched_choose (k_scheduler k) later)"
    have "?t \<noteq> 0" using rz_view_SomeD [OF s(1)] by simp
    with sched_choose_decision [OF sok, of later "fst (sched_choose (k_scheduler k) later)" ?s'] ch
    obtain y where y: "sched_view ?s' ?t = Some y" "ss_runnable y" by auto
    obtain n where "sched_after (k_scheduler k) later n ?s'" using sched_choose_after [OF sok] by blast
    from sched_after_Some [OF this x(1)] y x(2) show False
      by (auto simp: sched_refilled_def sched_charged_def Let_def split: if_splits)
  qed
  with s x ex(3) show ?thesis
    by (intro exI [of _ ?t]) (auto simp: rz_state_of_iff k_sched_runnable_iff k_schedule_def split_beta)
qed

text \<open>The loop of the timer interrupt (aarch64_boot.cpp): expire until nothing more is due; an error
  stops the machine.\<close>

partial_function (option) boot_drain_expired :: "u64 \<Rightarrow> Kernel \<Rightarrow> (unit result \<times> Kernel) option" where
  "boot_drain_expired now k =
     (case k_ipc_expire_one_receive k now of
        (Inl err, k') \<Rightarrow> Some (Inl err, k')
      | (Inr expired, k') \<Rightarrow> if \<not> expired then Some (Inr (), k') else boot_drain_expired now k')"

declare boot_drain_expired.simps [code]

lemma ct_expired_finite: "ct_ok t \<Longrightarrow> finite (ct_expired t now)"
proof -
  assume ok: "ct_ok t"
  have "ct_expired t now \<subseteq> (\<lambda>s. rc_server (rv_continuation s)) ` set (ct_receives t)"
    by (auto simp: ct_expired_def ct_receive_view_mem [OF ok])
  then show ?thesis by (rule finite_subset) simp
qed

lemma k_expire_cases:
  assumes inv: "k_inv_on T strict k"
  obtains (quiet) k' where "k_ipc_expire_one_receive k now = (Inr False, k')" "k_threads k' = k_threads k"
      "ct_expired (k_ipc_continuations k) now = {}" "ct_expired (k_ipc_continuations k') now = {}"
    | (woke) t s k' where "k_ipc_expire_one_receive k now = (Inr True, k')" "t \<in> ct_expired (k_ipc_continuations k) now"
      "ct_expired (k_ipc_continuations k') now = ct_expired (k_ipc_continuations k) now - {t}"
      "rz_view (k_threads k) t = Some s" "rs_state s = ts_receive_blocked"
      "rz_view (k_threads k') = (rz_view (k_threads k))
         (t \<mapsto> s\<lparr>rs_state := ts_ready, rs_wake := wake_deadline_expired\<rparr>)"
    | (failed) t e k' where "k_ipc_expire_one_receive k now = (Inl e, k')" "t \<in> ct_expired (k_ipc_continuations k) now"
      "rz_state_of (k_threads k) t \<noteq> Inr ts_receive_blocked" "k_threads k' = k_threads k"
proof -
  have "ct_ok (k_ipc_continuations k)" and rz: "rz_inv (k_threads k)" using inv by (simp_all add: k_inv_def k_base_def)
  then have ok: "rz_ok (k_threads k)" by (simp add: rz_inv_def)
  from \<open>ct_ok _\<close> show thesis
  proof (cases rule: ct_take_expired_cases [where now = now])
    case quiet
    then show thesis by (intro that(1)) (auto simp: k_ipc_expire_one_receive_def)
  next
    case (fired c u)
    let ?t = "rc_server c"
    obtain res r where r: "rz_expire_receive (k_threads k) ?t = (res, r)" by fastforce
    have left: "ct_expired u now = ct_expired (k_ipc_continuations k) now - {?t}"
      unfolding ct_expired_def fired(6) by auto
    have due: "?t \<in> ct_expired (k_ipc_continuations k) now" using fired(3,4) by (auto simp: ct_expired_def)
    show thesis
    proof (cases res)
      case (Inl e)
      have "rz_state_of (k_threads k) ?t \<noteq> Inr ts_receive_blocked"
      proof
        assume "rz_state_of (k_threads k) ?t = Inr ts_receive_blocked"
        then obtain s where s: "rz_view (k_threads k) ?t = Some s" "rs_state s = ts_receive_blocked"
          by (auto simp: rz_state_of_iff)
        then have "rs_partner s = 0" "?t \<noteq> 0" using rz by (auto simp: rz_inv_def rdv_slot_ok_def dest!: rdv_invD)
        moreover obtain i where "rz_find (k_threads k) ?t = Some i" "rz_at (k_threads k) i = s"
          using rz_view_find [OF s(1)] by blast
        ultimately show False using r Inl s(2) by (simp add: rz_expire_receive_def)
      qed
      moreover have "r = k_threads k" using rz_refused(9) r Inl by simp
      ultimately show thesis using that(3) [of e _ ?t] fired(1) r Inl due by (simp add: k_ipc_expire_one_receive_def)
    next
      case (Inr v)
      then have e: "rz_expire_receive (k_threads k) ?t = (Inr v, r)" using r by simp
      obtain s where s: "rz_view (k_threads k) ?t = Some s" "rs_state s = ts_receive_blocked"
        "rz_view r = (rz_view (k_threads k))(?t \<mapsto> s\<lparr>rs_state := ts_ready, rs_wake := wake_deadline_expired\<rparr>)"
        by (rule rz_expire_ok [OF ok e])
      show thesis
        by (rule that(2) [of "k\<lparr>k_ipc_continuations := u, k_threads := r\<rparr>", OF _ due _ s(1,2)])
           (use fired(1) e left s(3) in \<open>simp_all add: k_ipc_expire_one_receive_def\<close>)
    qed
  qed
qed

text \<open>What the drain has done once it returns: all due receivers woken, or a wake refused.\<close>

definition drained :: "ThreadId set \<Rightarrow> u64 \<Rightarrow> Kernel \<Rightarrow> unit result \<times> Kernel \<Rightarrow> bool" where
  "drained due now k out \<longleftrightarrow>
     (if \<forall>t \<in> due. rz_state_of (k_threads k) t = Inr ts_receive_blocked
      then fst out = Inr () \<and> ct_expired (k_ipc_continuations (snd out)) now = {} \<and>
           (\<forall>t \<in> due. rz_state_of (k_threads (snd out)) t = Inr ts_ready \<and>
              rz_wake_reason_of (k_threads (snd out)) t = Inr wake_deadline_expired)
      else \<not> is_ok (fst out)) \<and>
     (\<forall>u. u \<notin> due \<longrightarrow> rz_view (k_threads (snd out)) u = rz_view (k_threads k) u)"

lemma rz_reports_view:
  "rz_view r t = rz_view r' t \<Longrightarrow> rz_state_of r t = rz_state_of r' t \<and> rz_wake_reason_of r t = rz_wake_reason_of r' t"
  "rz_view r t = Some s \<Longrightarrow> rz_state_of r t = Inr (rs_state s) \<and> rz_wake_reason_of r t = Inr (rs_wake s)"
proof -
  have "rz_view r t = map_option (rz_at r) (rz_find r t)" for r
    by (cases "rz_find r t") (simp_all add: rz_find_None [symmetric] rz_find_Some)
  then show "rz_view r t = rz_view r' t \<Longrightarrow> rz_state_of r t = rz_state_of r' t \<and> rz_wake_reason_of r t = rz_wake_reason_of r' t"
    and "rz_view r t = Some s \<Longrightarrow> rz_state_of r t = Inr (rs_state s) \<and> rz_wake_reason_of r t = Inr (rs_wake s)"
    by (cases "rz_find r t"; cases "rz_find r' t"; auto simp: rz_state_of_def rz_wake_reason_of_def)+
qed

lemma drained_step:
  assumes "t \<in> due" "rz_view (k_threads k) t = Some s" "rs_state s = ts_receive_blocked"
    and "rz_view (k_threads k') = (rz_view (k_threads k))(t \<mapsto> s\<lparr>rs_state := ts_ready, rs_wake := wake_deadline_expired\<rparr>)"
    and "drained (due - {t}) now k' out"
  shows "drained due now k out"
proof -
  have other: "rz_view (k_threads k') u = rz_view (k_threads k) u" if "u \<noteq> t" for u using assms(4) that by simp
  have "rz_state_of (k_threads k') u = rz_state_of (k_threads k) u" if "u \<in> due - {t}" for u
    using rz_reports_view(1) [OF other [of u]] that by blast
  moreover have "rz_state_of (k_threads k) t = Inr ts_receive_blocked"
    using rz_reports_view(2) [OF assms(2)] assms(3) by simp
  ultimately have guard: "(\<forall>u \<in> due. rz_state_of (k_threads k) u = Inr ts_receive_blocked) \<longleftrightarrow>
      (\<forall>u \<in> due - {t}. rz_state_of (k_threads k') u = Inr ts_receive_blocked)" by auto
  have keep: "rz_view (k_threads (snd out)) u = rz_view (k_threads k') u" if "u \<notin> due - {t}" for u
    using assms(5) that by (simp add: drained_def)
  have "rz_view (k_threads (snd out)) t = Some (s\<lparr>rs_state := ts_ready, rs_wake := wake_deadline_expired\<rparr>)"
    using keep [of t] assms(4) by simp
  from rz_reports_view(2) [OF this]
  have "rz_state_of (k_threads (snd out)) t = Inr ts_ready \<and>
      rz_wake_reason_of (k_threads (snd out)) t = Inr wake_deadline_expired" by simp
  moreover have "rz_view (k_threads (snd out)) u = rz_view (k_threads k) u" if "u \<notin> due" for u
    using keep [of u] other [of u] that assms(1) by auto
  ultimately show ?thesis using assms(5) unfolding drained_def guard by auto
qed

lemma boot_drain_ends:
  "k_inv_on T False k \<Longrightarrow> card (ct_expired (k_ipc_continuations k) now) = n \<Longrightarrow>
   \<exists>out. boot_drain_expired now k = Some out \<and> drained (ct_expired (k_ipc_continuations k) now) now k out"
proof (induction n arbitrary: k rule: less_induct)
  case (less n)
  have fin: "finite (ct_expired (k_ipc_continuations k) now)"
    using less.prems(1) ct_expired_finite by (simp add: k_inv_def k_base_def)
  from less.prems(1) show ?case
  proof (cases rule: k_expire_cases [where now = now])
    case (quiet k')
    then show ?thesis by (simp add: boot_drain_expired.simps [of now k] drained_def)
  next
    case (woke t s k')
    have inv': "k_inv_on T False k'" using k_expiry_inv(3) [OF less.prems(1), of now] woke(1) by simp
    have "card (ct_expired (k_ipc_continuations k') now) < n"
      unfolding woke(3) less.prems(2) [symmetric] using fin woke(2) by (rule card_Diff1_less)
    from less.IH [OF this inv' refl] obtain out where out: "boot_drain_expired now k' = Some out"
      "drained (ct_expired (k_ipc_continuations k) now - {t}) now k' out" using woke(3) by auto
    have "boot_drain_expired now k = Some out" using woke(1) out(1) by (simp add: boot_drain_expired.simps [of now k])
    with drained_step [OF woke(2,4,5,6) out(2)] show ?thesis by blast
  next
    case (failed t e k')
    then show ?thesis by (auto simp: boot_drain_expired.simps [of now k] drained_def)
  qed
qed

text \<open>C29: Draining the expired receives.  From any kernel reached by its methods, expiries included, and direct
  use of the run queue, the loop of the timer interrupt returns.  Call due the threads with a receive
  continuation that has a deadline (not 0) that is not after \<open>now\<close>.  If the rendezvous has all of them
  blocked in a receive, the loop succeeds, no expired continuation is left, and each of them is ready with
  the reason \<open>deadline_expired\<close>; otherwise it stops with the error of the wake that was refused (for
  which the boot image halts) and may leave continuations expired.  The rendezvous entry of every other
  thread is untouched.\<close>

theorem boot_drain_terminates:
  assumes "k_driven False T k"
    and "due = {t. \<exists>c. ct_receive_view (k_ipc_continuations k) t = Some c \<and> rc_deadline c \<noteq> 0 \<and> rc_deadline c \<le> now}"
  shows "\<exists>res k'. boot_drain_expired now k = Some (res, k') \<and>
    (if \<forall>t \<in> due. rz_state_of (k_threads k) t = Inr ts_receive_blocked
     then res = Inr () \<and>
       (\<forall>t c. ct_receive_view (k_ipc_continuations k') t = Some c \<longrightarrow> rc_deadline c = 0 \<or> now < rc_deadline c) \<and>
       (\<forall>t \<in> due. rz_state_of (k_threads k') t = Inr ts_ready \<and>
          rz_wake_reason_of (k_threads k') t = Inr wake_deadline_expired)
     else \<exists>e. res = Inl e) \<and>
    (\<forall>u. u \<notin> due \<longrightarrow> rz_view (k_threads k') u = rz_view (k_threads k) u)"
proof -
  have due: "due = ct_expired (k_ipc_continuations k) now"
    by (auto simp: assms(2) ct_expired_def rc_expired_at_def rc_bounded_def)
  have none: "\<forall>t c. ct_receive_view q t = Some c \<longrightarrow> rc_deadline c = 0 \<or> now < rc_deadline c"
    if "ct_expired q now = {}" for q
    using that by (simp add: ct_expired_def rc_expired_at_def rc_bounded_def) (meson not_less)
  obtain res k' where "boot_drain_expired now k = Some (res, k')" "drained due now k (res, k')"
    using boot_drain_ends [OF k_driven_inv [OF assms(1)] refl, of now] due by (metis surj_pair)
  then show ?thesis
    using none [of "k_ipc_continuations k'"]
    by (cases "\<forall>t \<in> due. rz_state_of (k_threads k) t = Inr ts_receive_blocked")
       (cases res; simp add: drained_def; blast)+
qed

section \<open>The live list\<close>

text \<open>C32: The live list never overruns its array.  In every reachable state it holds each thread the
  rendezvous knows exactly once and nothing else, so it has at most 64 entries; and whenever the
  rendezvous accepts a new thread the entry about to be written is inside the array.\<close>

theorem k_live_list_bounded:
  assumes "(k_method strict)\<^sup>*\<^sup>* k_empty k"
  shows "unat (k_live_thread_count k) = card (dom (rz_view (k_threads k))) \<and>
    unat (k_live_thread_count k) \<le> length (k_live k) \<and> distinct (k_living k) \<and>
    (k_tracks k t \<longleftrightarrow> is_ok (rz_state_of (k_threads k) t)) \<and>
    (is_ok (fst (rz_create_thread (k_threads k) t p)) \<longrightarrow> unat (k_live_thread_count k) < length (k_live k)) \<and>
    (is_ok (fst (rz_create_admitted_thread (k_threads k) t p)) \<longrightarrow> unat (k_live_thread_count k) < length (k_live k))"
proof -
  have b: "k_base k" using k_run_inv [OF assms] by (simp add: k_inv_def)
  let ?D = "dom (rz_view (k_threads k))"
  have live: "live_ok (k_live k) (k_live_count k) ?D" and rz: "rz_inv (k_threads k)"
    using b by (simp_all add: k_base_def)
  have trk: "k_tracks k t \<longleftrightarrow> is_ok (rz_state_of (k_threads k) t)"
    unfolding k_tracks_live [OF b]
    by (cases "rz_find (k_threads k) t") (auto simp: rz_state_of_def rz_find_None [symmetric] domIff)
  have room: "card ?D < 64"
    if c: "rz_create_thread (k_threads k) t p = (Inr u, r') \<or> rz_create_admitted_thread (k_threads k) t p = (Inr u, r')"
    for u r'
  proof -
    obtain s where s: "rz_view (k_threads k) t = None" "rz_inv r'" "rz_view r' = (rz_view (k_threads k))(t \<mapsto> s)"
      by (rule rz_create_view [OF rz c])
    have fin: "finite ?D" "t \<notin> ?D" using rz_view_card(1) rz s(1) by (auto simp: rz_inv_def)
    have "card (dom (rz_view r')) \<le> 64" using rz_view_card(2) [of r'] s(2) by (simp add: rz_inv_def)
    with fin s(3) show ?thesis by simp
  qed
  have "is_ok (fst x) \<Longrightarrow> \<exists>u r'. x = (Inr u, r')" for x :: "unit result \<times> Rendezvous"
    by (cases x; cases "fst x") auto
  with room have "is_ok (fst (rz_create_thread (k_threads k) t p)) \<Longrightarrow> card ?D < 64"
    "is_ok (fst (rz_create_admitted_thread (k_threads k) t p)) \<Longrightarrow> card ?D < 64" by blast+
  with live live_ok_card [OF live] trk show ?thesis
    by (simp add: k_live_thread_count_def live_ok_def k_living_def)
qed

section \<open>Concrete runs\<close>

text \<open>Two threads; the second opens an endpoint and waits on it until time 100.\<close>

definition k_two :: Kernel where
  "k_two = snd (k_create_thread (snd (k_create_thread k_empty 1 7)) 2 3)"

definition k_serving :: Kernel where
  "k_serving = (let k = snd (k_create_ipc_endpoint k_two 2) in
     k\<lparr>k_capabilities := snd (cap_mint (k_capabilities k) 2 (ipc_object_id ipc_e1) ipc_right_all True)\<rparr>)"

definition k_waiting :: Kernel where
  "k_waiting = snd (k_ipc_arm_receive_continuation (snd (k_ipc_receive k_serving 2 1)) 2 ep_one_epoch 1 4096 ep_one 100)"

lemma k_two_run: "(k_method strict)\<^sup>*\<^sup>* k_empty k_two"
  unfolding k_two_def by (rule rtranclp.rtrancl_into_rtrancl [OF r_into_rtranclp]) (rule k_method.create_thread)+

lemma k_serving_run: "(k_method strict)\<^sup>*\<^sup>* k_empty k_serving"
  unfolding k_serving_def Let_def
  by (rule rtranclp.rtrancl_into_rtrancl [OF rtranclp.rtrancl_into_rtrancl [OF k_two_run]])
     (rule k_method.create_endpoint k_method.capabilities cap_method.intros)+

lemma k_waiting_run: "(k_method strict)\<^sup>*\<^sup>* k_empty k_waiting"
  unfolding k_waiting_def
  by (rule rtranclp.rtrancl_into_rtrancl [OF rtranclp.rtrancl_into_rtrancl [OF k_serving_run]])
     (rule k_method.ipc_receive k_method.arm_receive)+

text \<open>A run in which the machine layer stops the ready thread 1 behind the kernel's back.\<close>

definition k_stopped :: Kernel where
  "k_stopped = k_waiting\<lparr>k_scheduler := snd (sched_update (k_scheduler k_waiting) 1 False 7)\<rparr>"

lemma k_stopped_driven: "k_driven strict {1} k_stopped"
  unfolding k_stopped_def by (rule k_driven.runqueue_update [OF k_run_driven [OF k_waiting_run]])

theorem k_runqueue_agrees_witness:
  "sched_is_runnable (k_scheduler k_stopped) 1 = Inr False \<and> rz_state_of (k_threads k_stopped) 1 = Inr ts_ready \<and>
   in_step k_stopped 2 \<and> in_step (k_synchronise k_stopped) 1 \<and>
   sched_is_runnable (k_scheduler (k_synchronise k_stopped)) 1 = Inr True"
proof -
  have "rz_state_of (k_threads k_stopped) 1 = Inr ts_ready" "sched_is_runnable (k_scheduler k_stopped) 1 = Inr False"
    by code_simp+
  with k_runqueue_agrees [OF k_stopped_driven, of 1] k_runqueue_agrees [OF k_stopped_driven, of 2] show ?thesis
    by (simp add: in_step_def)
qed

theorem k_schedule_most_urgent_witness:
  "dec_thread (fst (k_schedule k_two 0)) = 1 \<and> rz_state_of (k_threads k_two) 1 = Inr ts_ready \<and>
   rz_state_of (k_threads k_two) 2 = Inr ts_ready \<and>
   (\<exists>q. rz_effective_priority_of (k_threads k_two) 1 = Inr q \<and> 3 \<le> q)"
proof -
  have c: "1 = dec_thread (fst (k_schedule k_two 0))" and r: "rz_state_of (k_threads k_two) 2 = Inr ts_ready"
    "rz_effective_priority_of (k_threads k_two) 2 = Inr 3" by code_simp+
  note law = k_schedule_most_urgent [OF k_run_driven [OF k_two_run [of True]] c]
  from law have "rz_state_of (k_threads k_two) 1 = Inr ts_ready" by simp
  moreover from law r have "\<exists>q. rz_effective_priority_of (k_threads k_two) 1 = Inr q \<and> 3 \<le> q" by blast
  ultimately show ?thesis using c r by simp
qed

theorem k_destroy_leaves_nothing_witness:
  "ct_receive_armed (k_ipc_continuations k_waiting) 2 \<and> k_forgotten (snd (k_destroy_thread k_waiting 2)) 2 \<and>
   k_tracks (snd (k_destroy_thread k_waiting 2)) 1"
proof -
  have "is_ok (fst (k_destroy_thread k_waiting 2))" by code_simp
  then obtain td where td: "k_destroy_thread k_waiting 2 = (Inr td, snd (k_destroy_thread k_waiting 2))"
    by (cases "fst (k_destroy_thread k_waiting 2)") (auto simp: prod_eq_iff)
  have "k_tracks k_waiting 1" "ct_receive_armed (k_ipc_continuations k_waiting) 2" by code_simp+
  with k_destroy_leaves_nothing [OF k_run_driven [OF k_waiting_run] td] show ?thesis by simp
qed

theorem k_expiry_not_scheduled_witness:
  "fst (k_ipc_expire_one_receive k_waiting 100) = Inr True \<and>
   (\<exists>t. rz_state_of (k_threads (snd (k_ipc_expire_one_receive k_waiting 100))) t = Inr ts_ready \<and>
     dec_thread (fst (k_schedule (snd (k_ipc_expire_one_receive k_waiting 100)) 100)) \<noteq> t)"
proof -
  have "fst (k_ipc_expire_one_receive k_waiting 100) = Inr True" by code_simp
  then have e: "k_ipc_expire_one_receive k_waiting 100 = (Inr True, snd (k_ipc_expire_one_receive k_waiting 100))"
    by (simp add: prod_eq_iff)
  from k_expiry_not_scheduled [OF k_waiting_run e, of 100] e show ?thesis by (metis fst_conv)
qed

text \<open>A second bounded wait armed for thread 1, which is not waiting: the wake of 1 is refused.\<close>

definition k_misarmed :: Kernel where
  "k_misarmed = snd (k_ipc_arm_receive_continuation k_waiting 1 ep_one_epoch 1 4096 ep_one 100)"

lemma k_misarmed_run: "(k_method strict)\<^sup>*\<^sup>* k_empty k_misarmed"
  unfolding k_misarmed_def by (rule rtranclp.rtrancl_into_rtrancl [OF k_waiting_run]) (rule k_method.arm_receive)

lemma k_waiting_due:
  "{t. \<exists>c. ct_receive_view (k_ipc_continuations k_waiting) t = Some c \<and> rc_deadline c \<noteq> 0 \<and> rc_deadline c \<le> 100} = {2}"
  (is "?due = _")
proof -
  have two: "ct_receive_view (k_ipc_continuations k_waiting) 2 =
      Some \<lparr>rc_server = 2, rc_epoch = ep_one_epoch, rc_capability = 1, rc_exchange = 4096, rc_deadline = 100\<rparr>"
    by code_simp
  have only: "t = 2" if "ct_receive_view (k_ipc_continuations k_waiting) t = Some c" for t c
  proof -
    have "list_all (\<lambda>s. rv_occupied s \<longrightarrow> rc_server (rv_continuation s) = 2) (ct_receives (k_ipc_continuations k_waiting))"
      by code_simp
    moreover have ok: "ct_ok (k_ipc_continuations k_waiting)"
      using k_run_inv [OF k_waiting_run [of True]] by (simp add: k_inv_def k_base_def)
    have "\<exists>s \<in> set (ct_receives (k_ipc_continuations k_waiting)). rv_occupied s \<and> rc_server (rv_continuation s) = t"
      using that unfolding ct_receive_view_mem [OF ok] by blast
    ultimately show ?thesis unfolding list_all_iff by blast
  qed
  show ?thesis
  proof (intro equalityI subsetI)
    fix t assume "t \<in> ?due"
    then show "t \<in> {2}" using only by blast
  next
    fix t :: ThreadId assume "t \<in> {2}"
    then have "t = 2" by blast
    with two show "t \<in> ?due" by simp
  qed
qed

theorem boot_drain_terminates_witness:
  "rz_state_of (k_threads k_waiting) 2 = Inr ts_receive_blocked \<and>
   (\<exists>k'. boot_drain_expired 100 k_waiting = Some (Inr (), k') \<and> rz_state_of (k_threads k') 2 = Inr ts_ready) \<and>
   (\<exists>e k'. boot_drain_expired 100 k_misarmed = Some (Inl e, k'))"
proof -
  have st: "rz_state_of (k_threads k_waiting) 2 = Inr ts_receive_blocked" by code_simp
  let ?due = "{t. \<exists>c. ct_receive_view (k_ipc_continuations k_misarmed) t = Some c \<and> rc_deadline c \<noteq> 0 \<and> rc_deadline c \<le> 100}"
  have "ct_receive_view (k_ipc_continuations k_misarmed) 1 =
      Some \<lparr>rc_server = 1, rc_epoch = ep_one_epoch, rc_capability = 1, rc_exchange = 4096, rc_deadline = 100\<rparr>"
    by code_simp
  then have "1 \<in> ?due" by simp
  moreover have "rz_state_of (k_threads k_misarmed) 1 = Inr ts_ready" by code_simp
  ultimately have bad: "\<not> (\<forall>t \<in> ?due. rz_state_of (k_threads k_misarmed) t = Inr ts_receive_blocked)" by force
  obtain res k' where "boot_drain_expired 100 k_misarmed = Some (res, k')" "\<exists>e. res = Inl e"
    using boot_drain_terminates [OF k_run_driven [OF k_misarmed_run] refl, of 100] unfolding if_not_P [OF bad] by blast
  then have "\<exists>e k'. boot_drain_expired 100 k_misarmed = Some (Inl e, k')" by blast
  moreover from boot_drain_terminates [OF k_run_driven [OF k_waiting_run] k_waiting_due [symmetric]] st
  have "\<exists>k'. boot_drain_expired 100 k_waiting = Some (Inr (), k') \<and> rz_state_of (k_threads k') 2 = Inr ts_ready" by auto
  ultimately show ?thesis using st by blast
qed

theorem k_live_list_bounded_witness:
  "k_live_thread_count k_waiting = 2 \<and> k_tracks k_waiting 2 \<and> distinct (k_living k_waiting) \<and>
   is_ok (rz_state_of (k_threads k_waiting) 2)"
proof -
  have "k_live_thread_count k_waiting = 2" "k_tracks k_waiting 2" by code_simp+
  with k_live_list_bounded [OF k_waiting_run, of 2 0] show ?thesis by blast
qed

text \<open>The endpoint of a server whose bounded receive expired outlives the server: the expiry leaves
  the endpoint's waiting mark in place, and retiring a marked endpoint is refused once the server
  no longer waits.\<close>

theorem k_expired_endpoint_survives:
  "case k_destroy_thread (snd (k_ipc_expire_one_receive k_waiting 100)) 2 of (res, k') \<Rightarrow>
     is_ok res \<and> \<not> k_tracks k' 2 \<and> ipc_active (k_ipc k') ipc_e1"
  by code_simp

end
