(* ===== verification/Ipc_Transfer.thy ===== *)
theory Ipc_Transfer
  imports Ipc_Entry Kernel_Properties
begin

text \<open>
  One synchronous call as four system-call entries: the client's send, the server's receive and reply, and the completion of the send when
  the client runs again.  The entries are the ones of \<open>Ipc_Entry\<close>; between them the scheduler may do what it likes and user code may write
  to memory.  The lemmas follow the call through the continuation table, the endpoint table and the rendezvous, and show that the request
  and the response arrive in the other side's memory byte for byte.
\<close>

section \<open>Envelopes that are sure to cross\<close>

definition exchange_ok ::
  "ProcessTranslationBinding \<Rightarrow> ProcessTranslationTable \<Rightarrow> AddressSpaceEpochAuthority \<Rightarrow> UserMachine \<Rightarrow> u64 \<Rightarrow> u64 \<Rightarrow> bool \<Rightarrow> bool" where
  "exchange_ok b bindings epochs m a n store \<longleftrightarrow> um_guard m = guard_disarmed \<and> a \<noteq> 0 \<and> n \<le> 64 \<and>
     (n \<noteq> 0 \<longrightarrow> translation_current b bindings epochs m \<and> range_valid \<lparr>ur_address = a, ur_length = n\<rparr> \<and>
        (case user_translate m a of None \<Rightarrow> False | Some (_, w) \<Rightarrow> store \<longrightarrow> w))"

lemma put_user_Nil [simp]: "put_user m a [] = m"
  by (simp add: put_user_def split: option.split)

lemma user_bytes_0 [simp]: "user_bytes m a 0 = []"
  by (simp add: user_bytes_def split: option.split)

lemma read_envelope_total:
  assumes l: "labels_placed l" and x: "exchange_ok b bindings epochs m a n False"
  obtains env where "read_envelope l saved b a n bindings epochs m = Some (Inr env, m)" "env_valid env"
    "ucast (env_size env) = n" "env_view env = user_bytes m a (unat n)" "length (env_view env) = unat n" "unat (env_size env) = unat n"
proof -
  have g: "um_guard m = guard_disarmed" using x by (simp add: exchange_ok_def)
  have small: "unat n \<le> 64" using x by (simp add: exchange_ok_def word_le_nat_alt)
  have sz: "unat (ucast n :: u8) = unat n" using small by (simp add: unsigned_ucast_eq take_bit_nat_eq_self)
  have wide: "ucast (ucast n :: u8) = n"
    using sz small by (simp add: word_unat_eq_iff unsigned_ucast_eq [of "ucast n :: u8"] take_bit_nat_eq_self)
  show ?thesis
  proof (cases rule: read_envelope_cases [OF l g, of saved b a n bindings epochs, case_names refused taken])
    case (refused e)
    then have "n = 0" using x by (auto simp: exchange_ok_def split: option.splits)
    then show ?thesis using refused(1) by (simp add: read_envelope_def)
  next
    case (taken env)
    have "length (user_bytes m a (unat n)) = unat n" if "n \<noteq> 0"
      using x that by (auto simp: exchange_ok_def user_bytes_def split: option.splits)
    then show ?thesis using that [of env] taken sz wide by (cases "n = 0") auto
  qed
qed

lemma write_envelope_total:
  assumes l: "labels_placed l" and x: "exchange_ok b bindings epochs m a n True"
    and n: "ucast (env_size env) = n" "length (env_view env) = unat n" "unat (env_size env) = unat n"
  shows "write_envelope l saved b a env bindings epochs m = Some (Inr (), put_user m a (env_view env))"
proof -
  have g: "um_guard m = guard_disarmed" using x by (simp add: exchange_ok_def)
  show ?thesis
  proof (cases rule: write_envelope_cases [OF l g, of saved b a env bindings epochs, case_names refused nothing stored])
    case (refused e)
    have "n = 0 \<or> (\<exists>p. user_translate m a = Some (p, True))" "n = 0 \<longleftrightarrow> env_size env = 0"
      using x n(3) by (auto simp: exchange_ok_def unat_eq_0 split: option.splits)
    then show ?thesis using refused(2) x n by (auto simp: exchange_ok_def)
  next
    case nothing
    then show ?thesis using n by (simp add: env_view_def)
  next
    case (stored p)
    then show ?thesis by simp
  qed
qed

section \<open>The kernel's side\<close>

definition call_ready ::
  "Kernel \<Rightarrow> ThreadId \<Rightarrow> ThreadId \<Rightarrow> CapabilityId \<Rightarrow> CapabilityId \<Rightarrow> IpcEndpoint \<Rightarrow> bool" where
  "call_ready k a b ca cb e \<longleftrightarrow> k_tracks k a \<and> k_tracks k b \<and>
     ipc_endpoint_for_capability (k_ipc k) a ca ipc_right_send (k_capabilities k) = Inr e \<and>
     ipc_endpoint_for_capability (k_ipc k) b cb ipc_right_receive (k_capabilities k) = Inr e \<and>
     \<not> ipc_receive_waiting (k_ipc k) e \<and> ipc_call_ready (k_ipc k) (k_threads k) e a b \<and>
     \<not> ct_send_armed (k_ipc_continuations k) a \<and> \<not> ct_receive_armed (k_ipc_continuations k) a \<and>
     \<not> ct_receive_armed (k_ipc_continuations k) b \<and>
     first_index (\<lambda>s. \<not> sn_occupied s) (ct_sends (k_ipc_continuations k)) \<noteq> None \<and>
     first_index (\<lambda>s. \<not> rv_occupied s) (ct_receives (k_ipc_continuations k)) \<noteq> None"

text \<open>A kernel that differs from \<open>k\<close> only in what a call goes through.\<close>

definition k_at :: "Kernel \<Rightarrow> IpcEndpointTable \<Rightarrow> Rendezvous \<Rightarrow> IpcContinuationTable \<Rightarrow> Scheduler \<Rightarrow> Kernel" where
  "k_at k t r ct s = k\<lparr>k_ipc := t, k_threads := r, k_ipc_continuations := ct, k_scheduler := s\<rparr>"

lemma k_at_simps [simp]:
  "k_ipc (k_at k t r ct s) = t" "k_threads (k_at k t r ct s) = r" "k_ipc_continuations (k_at k t r ct s) = ct"
  "k_capabilities (k_at k t r ct s) = k_capabilities k" "k_tracks (k_at k t r ct s) x = k_tracks k x"
  "(k_at k t r ct s)\<lparr>k_scheduler := s'\<rparr> = k_at k t r ct s'"
  "(k_at k t r ct s)\<lparr>k_ipc_continuations := ct'\<rparr> = k_at k t r ct' s"
  "(k_at k t r ct s)\<lparr>k_ipc := t'\<rparr> = k_at k t' r ct s" "(k_at k t r ct s)\<lparr>k_threads := r'\<rparr> = k_at k t r' ct s"
  by (simp_all add: k_at_def k_tracks_def k_living_def)

lemma k_at_self: "k = k_at k (k_ipc k) (k_threads k) (k_ipc_continuations k) (k_scheduler k)"
  by (simp add: k_at_def)

lemma k_after_ipc_at:
  assumes "\<And>v k. \<exists>s. sync v k = k\<lparr>k_scheduler := s\<rparr>"
  shows "\<exists>s'. k_after_ipc (k_at k t r ct s) sync (Inr v, t', r') = (Inr v, k_at k t' r' ct s')"
  using assms [of v "k_at k t' r' ct s"] by (auto simp: k_after_ipc_def)

lemma k_synchronise_at: "\<exists>s. k_synchronise k = k\<lparr>k_scheduler := s\<rparr>" "\<exists>s. k_synchronise_pair k x y = k\<lparr>k_scheduler := s\<rparr>"
  using k_synchronise_scheduler k_synchronise_pair_scheduler by blast+

lemma active_valid: "ep_active epochs e \<Longrightarrow> epoch_valid e"
  by (simp add: ep_active_def split: if_splits)

text \<open>Arming, cancelling and taking, on a table whose views are known.\<close>

lemma ct_arm_ready:
  assumes "ct_ok ct" "\<not> ct_send_armed ct a" "first_index (\<lambda>s. \<not> sn_occupied s) (ct_sends ct) \<noteq> None"
    and "a \<noteq> 0" "ep_active epochs ep" "x \<noteq> 0"
  shows "\<exists>ct'. ct_arm ct a ep x epochs = (Inr (), ct') \<and> ct_ok ct' \<and> ct_receive_view ct' = ct_receive_view ct \<and>
    ct_receives ct' = ct_receives ct \<and> ct_send_view ct' = (ct_send_view ct)(a \<mapsto> \<lparr>sc_caller = a, sc_epoch = ep, sc_exchange = x\<rparr>)"
proof -
  obtain i where i: "first_index (\<lambda>s. \<not> sn_occupied s) (ct_sends ct) = Some i" using assms(3) by auto
  have v: "ct_send_view ct a = None" using assms(2) by (simp add: ct_armed_view)
  note pl = ct_place_send [OF assms(1) i, of "\<lparr>sc_caller = a, sc_epoch = ep, sc_exchange = x\<rparr>", OF _ _ refl]
  show ?thesis
    using pl v i assms(4-6) active_valid [OF assms(5)] ct_send_find(1) [of ct a] by (simp add: ct_arm_def)
qed

lemma ct_arm_cancel_receive:
  assumes "ct_ok ct" "\<not> ct_receive_armed ct b" "first_index (\<lambda>s. \<not> rv_occupied s) (ct_receives ct) \<noteq> None"
    and "b \<noteq> 0" "ep_active epochs ep" "x \<noteq> 0" "c \<noteq> 0"
  shows "\<exists>ct' ct''. ct_arm_receive ct b ep c x epochs d = (Inr (), ct') \<and> snd (ct_cancel_receive ct' b) = ct'' \<and> ct_ok ct'' \<and>
    ct_receive_view ct'' = ct_receive_view ct \<and> ct_send_view ct'' = ct_send_view ct"
proof -
  let ?c = "\<lparr>rc_server = b, rc_epoch = ep, rc_capability = c, rc_exchange = x, rc_deadline = d\<rparr>"
  obtain i where i: "first_index (\<lambda>s. \<not> rv_occupied s) (ct_receives ct) = Some i" using assms(3) by auto
  have v: "ct_receive_view ct b = None" using assms(2) by (simp add: ct_armed_view)
  define ct' where "ct' = ct\<lparr>ct_receives := (ct_receives ct)[i := \<lparr>rv_occupied = True, rv_continuation = ?c\<rparr>],
               ct_occupied := ct_occupied ct + 1\<rparr>"
  note pl = ct_place_receive [OF assms(1) i, of ?c ct', unfolded ct'_def, OF _ _ refl, folded ct'_def]
  have ok': "ct_ok ct'" and rv': "ct_receive_view ct' = (ct_receive_view ct)(b \<mapsto> ?c)" "ct_send_view ct' = ct_send_view ct"
    using pl v assms(4) by simp_all
  have arm: "ct_arm_receive ct b ep c x epochs d = (Inr (), ct')"
    using v i assms(4-7) active_valid [OF assms(5)] ct_receive_find(1) [of ct b] by (simp add: ct_arm_receive_def ct'_def)
  obtain j where j: "ct_receive_slot_for ct' b = Some j"
    using rv'(1) ct_receive_find(1) [of ct' b] by (cases "ct_receive_slot_for ct' b") auto
  note cl = ct_clear_receive [OF ok' j refl]
  show ?thesis using arm j cl rv' v by (auto simp: ct_cancel_receive_def fun_eq_iff)
qed

lemma ct_take_ready:
  assumes "ct_ok ct" "ct_send_view ct a = Some c" "sc_epoch c = ep" "ep_active epochs ep"
  shows "\<exists>ct'. ct_take ct a ep epochs = (Inr c, ct') \<and> ct_ok ct' \<and> ct_send_view ct' = (ct_send_view ct)(a := None) \<and>
    ct_receive_view ct' = ct_receive_view ct"
proof -
  obtain i where i: "ct_send_slot_for ct a = Some i"
    using assms(2) ct_send_find(1) [of ct a] by (cases "ct_send_slot_for ct a") auto
  show ?thesis
    using ct_clear_send [OF assms(1) i refl] ct_send_find(2) [OF i] assms active_valid [OF assms(4)] i
    by (simp add: ct_take_def Let_def)
qed

section \<open>The four entries\<close>

lemma send_entry:
  assumes l: "labels_placed l" and b: "current_binding a bindings epochs = Inr ba"
    and x: "exchange_ok ba bindings epochs m (fx f ! 1) (fx f ! 2) False"
    and cap: "ipc_endpoint_for_capability t a (fx f ! 0) ipc_right_send (k_capabilities k) = Inr e"
    and tracks: "k_tracks k a"
    and arm: "ct_arm ct a (pb_epoch ba) (fx f ! 1) epochs = (Inr (), ct')"
    and sent: "\<And>req. env_valid req \<Longrightarrow> env_view req = user_bytes m (fx f ! 1) (unat (fx f ! 2)) \<Longrightarrow>
      \<exists>t' r'. ipc_send_to_endpoint t a no_identity e r req = (Inr (), t', r')"
  obtains req t' r' s' where
    "dispatch_ipc_svc_current l saved now a call_send bindings epochs (f, k_at k t r ct s, m) =
       Some (Inr \<lparr>sr_reschedule = True, sr_completed = False\<rparr>, f, k_at k t' r' ct' s', m)"
    "ipc_send_to_endpoint t a no_identity e r req = (Inr (), t', r')"
    "env_valid req" "ucast (env_size req) = fx f ! 2" "env_view req = user_bytes m (fx f ! 1) (unat (fx f ! 2))"
    "length (env_view req) = unat (fx f ! 2)" "unat (env_size req) = unat (fx f ! 2)"
proof -
  have nz: "fx f ! 0 \<noteq> 0" "fx f ! 1 \<noteq> 0" "\<not> fx f ! 2 > 64"
    using cap x by (auto simp: ipc_endpoint_for_capability_def exchange_ok_def split: if_splits)
  obtain req where req: "read_envelope l saved ba (fx f ! 1) (fx f ! 2) bindings epochs m = Some (Inr req, m)" "env_valid req"
    "ucast (env_size req) = fx f ! 2" "env_view req = user_bytes m (fx f ! 1) (unat (fx f ! 2))"
    "length (env_view req) = unat (fx f ! 2)" "unat (env_size req) = unat (fx f ! 2)"
    using read_envelope_total [OF l x] by metis
  obtain t' r' where st: "ipc_send_to_endpoint t a no_identity e r req = (Inr (), t', r')" using sent [OF req(2,4)] by blast
  obtain s' where k: "k_ipc_send (k_at k t r ct' s) a (fx f ! 0) req = (Inr (), k_at k t' r' ct' s')"
    using k_after_ipc_at [of "\<lambda>_. k_synchronise" k t r ct' s "()" t' r'] k_synchronise_at(1) cap st
    by (auto simp: k_ipc_send_def ipc_send_def)
  have "dispatch_ipc_svc_current l saved now a call_send bindings epochs (f, k_at k t r ct s, m) =
       Some (Inr \<lparr>sr_reschedule = True, sr_completed = False\<rparr>, f, k_at k t' r' ct' s', m)"
    using b req(1) k arm tracks nz
    by (simp add: dispatch_ipc_svc_current_def svc_send_def decode_ipc_send_syscall_def k_ipc_arm_send_continuation_def
        k_continuation_def not_less)
  then show ?thesis using that req(2-6) st by blast
qed

lemma receive_entry:
  assumes l: "labels_placed l" and b: "current_binding b bindings epochs = Inr bb"
    and x: "exchange_ok bb bindings epochs m (fx f ! 1) n True"
    and cap: "ipc_endpoint_for_capability t b (fx f ! 0) ipc_right_receive (k_capabilities k) = Inr e"
    and tracks: "k_tracks k b"
    and ct: "ct_arm_receive ct b (pb_epoch bb) (fx f ! 0) (fx f ! 1) epochs
        (svc_deadline now \<lparr>ir_capability = fx f ! 0, ir_address = fx f ! 1, ir_deadline = fx f ! 2\<rparr>) = (Inr (), ct')"
      "snd (ct_cancel_receive ct' b) = ct''"
    and got: "ipc_receive_from_endpoint t b no_identity e r = (Inr v, t', r')" "received_valid v"
    and req: "ucast (env_size (rcv_request v)) = n" "length (env_view (rcv_request v)) = unat n"
      "unat (env_size (rcv_request v)) = unat n"
  obtains s' where
    "dispatch_ipc_svc_current l saved now b call_receive bindings epochs (f, k_at k t r ct s, m) =
       Some (Inr \<lparr>sr_reschedule = False, sr_completed = True\<rparr>, answer2 f (seal_transaction (rcv_reply v)) n,
         k_at k t' r' ct'' s', put_user m (fx f ! 1) (env_view (rcv_request v)))"
proof -
  have nz: "fx f ! 0 \<noteq> 0" "fx f ! 1 \<noteq> 0"
    using cap x by (auto simp: ipc_endpoint_for_capability_def exchange_ok_def split: if_splits)
  obtain s' where k: "k_ipc_receive (k_at k t r ct' s) b (fx f ! 0) = (Inr v, k_at k t' r' ct' s')"
    using k_after_ipc_at [of "\<lambda>received k1. k_synchronise_pair k1 b (rcv_caller received)" k t r ct' s v t' r']
      k_synchronise_at(2) cap got(1)
    by (auto simp: k_ipc_receive_def ipc_receive_def)
  have w: "write_envelope l saved bb (fx f ! 1) (rcv_request v) bindings epochs m =
      Some (Inr (), put_user m (fx f ! 1) (env_view (rcv_request v)))"
    by (rule write_envelope_total [OF l x req])
  have c: "snd (k_ipc_cancel_receive_continuation (k_at k t' r' ct' s') b) = k_at k t' r' ct'' s'"
    using tracks ct(2) by (simp add: k_ipc_cancel_receive_continuation_def k_continuation_def split_beta)
  have "dispatch_ipc_svc_current l saved now b call_receive bindings epochs (f, k_at k t r ct s, m) =
       Some (Inr \<lparr>sr_reschedule = False, sr_completed = True\<rparr>, answer2 f (seal_transaction (rcv_reply v)) n,
         k_at k t' r' ct'' s', put_user m (fx f ! 1) (env_view (rcv_request v)))"
    using b k ct(1) c w tracks nz got(2) req(1)
    by (simp add: dispatch_ipc_svc_current_def svc_receive_def decode_ipc_receive_syscall_def k_ipc_arm_receive_continuation_def
        k_continuation_def Let_def)
  then show ?thesis using that by blast
qed

lemma reply_entry:
  assumes l: "labels_placed l" and b: "current_binding b bindings epochs = Inr bb"
    and x: "exchange_ok bb bindings epochs m (fx f ! 1) (fx f ! 2) False" and n: "fx f ! 0 \<noteq> 0"
    and slot: "ipc_reply_slot_transaction t b (fx f ! 0) = Some i"
    and resp: "read_envelope l saved bb (fx f ! 1) (fx f ! 2) bindings epochs m = Some (Inr resp, m)"
    and ans: "ipc_reply t b (rp_seal (ipc_replies t ! i)) r resp = (Inr (), t', r')"
  obtains s' where
    "dispatch_ipc_svc_current l saved now b call_reply bindings epochs (f, k_at k t r ct s, m) =
       Some (Inr \<lparr>sr_reschedule = True, sr_completed = True\<rparr>, answer f, k_at k t' r' ct s', m)"
proof -
  have nz: "fx f ! 1 \<noteq> 0" "\<not> fx f ! 2 > 64" using x by (auto simp: exchange_ok_def)
  obtain s' where k: "k_ipc_reply_transaction (k_at k t r ct s) b (fx f ! 0) resp = (Inr (), k_at k t' r' ct s')"
    using k_after_ipc_at [of "\<lambda>_. k_synchronise" k t r ct s "()" t' r'] k_synchronise_at(1) slot ans
    by (auto simp: k_ipc_reply_transaction_def ipc_reply_transaction_def)
  have "dispatch_ipc_svc_current l saved now b call_reply bindings epochs (f, k_at k t r ct s, m) =
       Some (Inr \<lparr>sr_reschedule = True, sr_completed = True\<rparr>, answer f, k_at k t' r' ct s', m)"
    using b k resp nz n
    by (simp add: dispatch_ipc_svc_current_def svc_reply_def decode_ipc_reply_syscall_def not_less)
  then show ?thesis using that by blast
qed

lemma complete_entry:
  assumes l: "labels_placed l" and b: "current_binding a bindings epochs = Inr ba"
    and x: "exchange_ok ba bindings epochs m y n True"
    and v: "rz_view r a = Some sl" "rs_wake sl \<noteq> wake_deadline_expired"
    and ct: "ct_ok ct" "ct_send_view ct a = Some \<lparr>sc_caller = a, sc_epoch = pb_epoch ba, sc_exchange = y\<rparr>"
      "ct_receive_view ct a = None"
    and tracks: "k_tracks k a" and out: "ipc_take_reply t a = (Inr resp, t')"
    and resp: "ucast (env_size resp) = n" "length (env_view resp) = unat n" "unat (env_size resp) = unat n"
  obtains ct' where
    "complete_ipc_current l saved a bindings epochs (f, k_at k t r ct s, m) =
       Some (Inr True, answer1 f n, k_at k t' r ct' s, put_user m y (env_view resp))"
    "ct_send_view ct' = (ct_send_view ct)(a := None)" "ct_receive_view ct' = ct_receive_view ct"
proof -
  obtain i where i: "rz_find r a = Some i" "rz_at r i = sl" using rz_view_find [OF v(1)] by blast
  have nz: "a \<noteq> 0" using rz_view_SomeD [OF v(1)] by simp
  have ep: "ep_active epochs (pb_epoch ba)" using current_binding_thread(2) [OF b] .
  obtain ct' where tk: "ct_take ct a (pb_epoch ba) epochs = (Inr \<lparr>sc_caller = a, sc_epoch = pb_epoch ba, sc_exchange = y\<rparr>, ct')"
    "ct_send_view ct' = (ct_send_view ct)(a := None)" "ct_receive_view ct' = ct_receive_view ct"
    using ct_take_ready [OF ct(1,2) _ ep] by auto
  have w: "write_envelope l saved ba y resp bindings epochs m = Some (Inr (), put_user m y (env_view resp))"
    by (rule write_envelope_total [OF l x resp])
  have e: "k_ipc_take_deadline_expiry (k_at k t r ct s) a = (Inr False, k_at k t r ct s)"
    using i v(2) nz by (simp add: k_ipc_take_deadline_expiry_def rz_take_deadline_expiry_def)
  have "complete_ipc_current l saved a bindings epochs (f, k_at k t r ct s, m) =
       Some (Inr True, answer1 f n, k_at k t' r ct' s, put_user m y (env_view resp))"
    using b e ct(3) tracks out tk(1) w resp(1)
    by (simp add: complete_ipc_current_def complete_send_def ct_armed_view k_ipc_take_reply_def
        k_ipc_take_send_continuation_def k_continuation_def)
  then show ?thesis using that tk(2,3) by blast
qed

section \<open>A whole call\<close>

lemma call_ready_views:
  assumes "ipc_call_ready t r e a b"
  obtains s d where "rz_view r a = Some s" "rz_view r b = Some d" "a \<noteq> b" "a \<noteq> 0" "b \<noteq> 0"
proof -
  obtain s d where v: "rz_view r a = Some s" "rz_view r b = Some d" "a \<noteq> b"
    using assms by (auto simp: ipc_call_ready_def rz_state_of_iff rz_partner_of_iff)
  then show ?thesis using that rz_view_SomeD by blast
qed

text \<open>What the endpoint table and the rendezvous do in such a call, for any request and response.\<close>

definition call_seal :: "Kernel \<Rightarrow> ThreadId \<Rightarrow> ThreadId \<Rightarrow> IpcEndpoint \<Rightarrow> IpcReplySeal" where
  "call_seal k a b e = \<lparr>seal_endpoint = e, seal_transaction = ipc_next_transaction (k_ipc k), seal_caller = a, seal_server = b,
     seal_caller_space = no_identity, seal_server_space = no_identity\<rparr>"

lemma call_ready_steps:
  assumes inv: "k_inv strict k" and ready: "call_ready k a b ca cb e" and env: "env_valid req" "env_valid resp"
  obtains t1 r1 t2 r2 t3 r3 t4 i sl where
    "ipc_send_to_endpoint (k_ipc k) a no_identity e (k_threads k) req = (Inr (), t1, r1)"
    "ipc_endpoint_for_capability t1 b cb ipc_right_receive (k_capabilities k) = Inr e"
    "ipc_receive_from_endpoint t1 b no_identity e r1 =
       (Inr \<lparr>rcv_caller = a, rcv_reply = call_seal k a b e, rcv_request = req\<rparr>, t2, r2)"
    "received_valid \<lparr>rcv_caller = a, rcv_reply = call_seal k a b e, rcv_request = req\<rparr>"
    "ipc_reply_slot_transaction t2 b (ipc_next_transaction (k_ipc k)) = Some i"
    "ipc_reply t2 b (rp_seal (ipc_replies t2 ! i)) r2 resp = (Inr (), t3, r3)" "ipc_take_reply t3 a = (Inr resp, t4)"
    "ipc_pending_call_count t4 = ipc_pending_call_count (k_ipc k)"
    "ipc_active_reply_seal_count t4 = ipc_active_reply_seal_count (k_ipc k)"
    "rz_view r3 a = Some sl" "rs_wake sl = wake_replied"
proof -
  have ok: "ipc_ok (k_ipc k)" "rz_ok (k_threads k)" using inv by (simp_all add: k_inv_def k_base_def rz_inv_def)
  have call: "ipc_call_ready (k_ipc k) (k_threads k) e a b"
    and cap: "ipc_endpoint_for_capability (k_ipc k) b cb ipc_right_receive (k_capabilities k) = Inr e"
    using ready by (simp_all add: call_ready_def)
  obtain s d where v: "rz_view (k_threads k) a = Some s" "rz_view (k_threads k) b = Some d" "a \<noteq> b" "a \<noteq> 0" "b \<noteq> 0"
    using call_ready_views [OF call] by metis
  obtain t1 r1 t2 r2 t3 r3 t4 i where
    st: "ipc_send_to_endpoint (k_ipc k) a no_identity e (k_threads k) req = (Inr (), t1, r1)" "ipc_active t1 e"
      "ipc_receive_from_endpoint t1 b no_identity e r1 =
        (Inr \<lparr>rcv_caller = a, rcv_reply = call_seal k a b e, rcv_request = req\<rparr>, t2, r2)"
      "ipc_reply_slot_transaction t2 b (ipc_next_transaction (k_ipc k)) = Some i"
      "rp_seal (ipc_replies t2 ! i) = call_seal k a b e"
      "ipc_reply t2 b (call_seal k a b e) r2 resp = (Inr (), t3, r3)" "ipc_take_reply t3 a = (Inr resp, t4)"
      "ipc_pending_call_count t4 = ipc_pending_call_count (k_ipc k)"
      "ipc_active_reply_seal_count t4 = ipc_active_reply_seal_count (k_ipc k)" "seal_valid (call_seal k a b e)"
      "rz_view r3 = (rz_view (k_threads k))(b \<mapsto> d\<lparr>rs_state := ts_ready, rs_wake := wake_none\<rparr>,
        a \<mapsto> s\<lparr>rs_state := ts_ready, rs_partner := 0, rs_wake := wake_replied\<rparr>)"
    using ipc_call_steps [OF ok call env v(1,2) call_seal_def] by blast
  have cap1: "ipc_endpoint_for_capability t1 b cb ipc_right_receive (k_capabilities k) = Inr e"
    using cap st(2) by (auto simp: ipc_endpoint_for_capability_def split: if_splits sum.splits)
  have "received_valid \<lparr>rcv_caller = a, rcv_reply = call_seal k a b e, rcv_request = req\<rparr>"
    using v(4) st(10) env(1) by (simp add: received_valid_def call_seal_def)
  moreover have "rz_view r3 a = Some (s\<lparr>rs_state := ts_ready, rs_partner := 0, rs_wake := wake_replied\<rparr>)" using st(11) by simp
  ultimately show ?thesis using that [OF st(1) cap1 st(3) _ st(4) _ st(7-9)] st(5,6) by simp
qed

text \<open>C3: A system-level call carries a request and its response byte for byte between two processes' memory.  From a state in which the kernel
  is ready for the call, the client's send, the server's receive, the server's reply and the completion of the client's send
  all succeed, with anything the scheduler does and anything user code writes in between.  After the receive, the server's exchange frame
  holds exactly the bytes that the client's frame held at its send, and the server's registers say the transaction and the length;
  after the completion, the client's frame holds exactly the bytes that the server named in its reply, and the client's register says their
  length.  No other byte of memory changes, the continuation is gone, and the endpoint table counts as many pending calls and reply
  seals as before.\<close>

theorem ipc_syscall_round_trip:
  assumes l: "labels_placed l" and inv: "k_inv strict k" and ready: "call_ready k a b (fx f1 ! 0) (fx f2 ! 0) e"
    and ba: "current_binding a bindings epochs = Inr ba" and bb: "current_binding b bindings epochs = Inr bb"
    and n: "fx f3 ! 0 = ipc_next_transaction (k_ipc k)"
    and x1: "exchange_ok ba bindings epochs m1 (fx f1 ! 1) (fx f1 ! 2) False"
    and x2: "exchange_ok bb bindings epochs m2 (fx f2 ! 1) (fx f1 ! 2) True"
    and x3: "exchange_ok bb bindings epochs m3 (fx f3 ! 1) (fx f3 ! 2) False"
    and x4: "exchange_ok ba bindings epochs m4 (fx f1 ! 1) (fx f3 ! 2) True"
  shows "\<exists>k1 k2 k3 k4.
    dispatch_ipc_svc_current l saved now1 a call_send bindings epochs (f1, k, m1) =
      Some (Inr \<lparr>sr_reschedule = True, sr_completed = False\<rparr>, f1, k1, m1) \<and>
    dispatch_ipc_svc_current l saved now2 b call_receive bindings epochs (f2, k1\<lparr>k_scheduler := s1\<rparr>, m2) =
      Some (Inr \<lparr>sr_reschedule = False, sr_completed = True\<rparr>, answer2 f2 (ipc_next_transaction (k_ipc k)) (fx f1 ! 2), k2,
        put_user m2 (fx f2 ! 1) (user_bytes m1 (fx f1 ! 1) (unat (fx f1 ! 2)))) \<and>
    dispatch_ipc_svc_current l saved now3 b call_reply bindings epochs (f3, k2\<lparr>k_scheduler := s2\<rparr>, m3) =
      Some (Inr \<lparr>sr_reschedule = True, sr_completed = True\<rparr>, answer f3, k3, m3) \<and>
    complete_ipc_current l saved a bindings epochs (f4, k3\<lparr>k_scheduler := s3\<rparr>, m4) =
      Some (Inr True, answer1 f4 (fx f3 ! 2), k4,
        put_user m4 (fx f1 ! 1) (user_bytes m3 (fx f3 ! 1) (unat (fx f3 ! 2)))) \<and>
    \<not> ct_send_armed (k_ipc_continuations k4) a \<and> \<not> ct_receive_armed (k_ipc_continuations k4) b \<and>
    ipc_pending_call_count (k_ipc k4) = ipc_pending_call_count (k_ipc k) \<and>
    ipc_active_reply_seal_count (k_ipc k4) = ipc_active_reply_seal_count (k_ipc k)"
proof -
  let ?t = "k_ipc k" and ?r = "k_threads k" and ?ct = "k_ipc_continuations k"
  have ok: "ct_ok ?ct" "ipc_next_transaction ?t \<noteq> 0" using inv by (simp_all add: k_inv_def k_base_def ipc_ok_def)
  note rd = ready [unfolded call_ready_def]
  have nz: "a \<noteq> 0" "b \<noteq> 0" using call_ready_views rd by metis+
  have ep: "ep_active epochs (pb_epoch ba)" "ep_active epochs (pb_epoch bb)"
    using current_binding_thread(2) [OF ba] current_binding_thread(2) [OF bb] .
  have caps: "fx f2 ! 0 \<noteq> 0" using rd by (auto simp: ipc_endpoint_for_capability_def split: if_splits)
  have addr: "fx f1 ! 1 \<noteq> 0" "fx f2 ! 1 \<noteq> 0" using x1 x2 by (simp_all add: exchange_ok_def)
  obtain resp where resp: "read_envelope l saved bb (fx f3 ! 1) (fx f3 ! 2) bindings epochs m3 = Some (Inr resp, m3)"
    "env_valid resp" "ucast (env_size resp) = fx f3 ! 2" "env_view resp = user_bytes m3 (fx f3 ! 1) (unat (fx f3 ! 2))"
    "length (env_view resp) = unat (fx f3 ! 2)" "unat (env_size resp) = unat (fx f3 ! 2)"
    using read_envelope_total [OF l x3] by metis
  note steps = call_ready_steps [OF inv ready _ resp(2)]
  obtain ct1 where ct1: "ct_arm ?ct a (pb_epoch ba) (fx f1 ! 1) epochs = (Inr (), ct1)" "ct_ok ct1"
    "ct_receive_view ct1 = ct_receive_view ?ct" "ct_receives ct1 = ct_receives ?ct"
    "ct_send_view ct1 = (ct_send_view ?ct)(a \<mapsto> \<lparr>sc_caller = a, sc_epoch = pb_epoch ba, sc_exchange = fx f1 ! 1\<rparr>)"
    using ct_arm_ready [OF ok(1) _ _ nz(1) ep(1) addr(1)] rd by blast
  obtain req t1 r1 sa where e1: "dispatch_ipc_svc_current l saved now1 a call_send bindings epochs
        (f1, k_at k ?t ?r ?ct (k_scheduler k), m1) =
      Some (Inr \<lparr>sr_reschedule = True, sr_completed = False\<rparr>, f1, k_at k t1 r1 ct1 sa, m1)"
    "ipc_send_to_endpoint ?t a no_identity e ?r req = (Inr (), t1, r1)" "env_valid req" "ucast (env_size req) = fx f1 ! 2"
    "env_view req = user_bytes m1 (fx f1 ! 1) (unat (fx f1 ! 2))" "length (env_view req) = unat (fx f1 ! 2)"
    "unat (env_size req) = unat (fx f1 ! 2)"
    using send_entry [OF l ba x1 _ _ ct1(1), of ?t k e ?r saved now1 "k_scheduler k"] rd steps by metis
  obtain t2 r2 t3 r3 t4 i sl where
    st: "ipc_endpoint_for_capability t1 b (fx f2 ! 0) ipc_right_receive (k_capabilities k) = Inr e"
      "ipc_receive_from_endpoint t1 b no_identity e r1 =
         (Inr \<lparr>rcv_caller = a, rcv_reply = call_seal k a b e, rcv_request = req\<rparr>, t2, r2)"
      "received_valid \<lparr>rcv_caller = a, rcv_reply = call_seal k a b e, rcv_request = req\<rparr>"
      "ipc_reply_slot_transaction t2 b (ipc_next_transaction ?t) = Some i"
      "ipc_reply t2 b (rp_seal (ipc_replies t2 ! i)) r2 resp = (Inr (), t3, r3)" "ipc_take_reply t3 a = (Inr resp, t4)"
      "ipc_pending_call_count t4 = ipc_pending_call_count ?t"
      "ipc_active_reply_seal_count t4 = ipc_active_reply_seal_count ?t"
      "rz_view r3 a = Some sl" "rs_wake sl = wake_replied"
    using steps [OF e1(3)] e1(2) by (metis prod.inject)
  obtain ct2 ct3 where ct3: "ct_arm_receive ct1 b (pb_epoch bb) (fx f2 ! 0) (fx f2 ! 1) epochs
        (svc_deadline now2 \<lparr>ir_capability = fx f2 ! 0, ir_address = fx f2 ! 1, ir_deadline = fx f2 ! 2\<rparr>) = (Inr (), ct2)"
    "snd (ct_cancel_receive ct2 b) = ct3" "ct_ok ct3" "ct_receive_view ct3 = ct_receive_view ct1" "ct_send_view ct3 = ct_send_view ct1"
    using ct_arm_cancel_receive [OF ct1(2) _ _ nz(2) ep(2) addr(2) caps] rd ct1(3,4) by (fastforce simp: ct_armed_view)
  obtain sb where e2: "dispatch_ipc_svc_current l saved now2 b call_receive bindings epochs (f2, k_at k t1 r1 ct1 s1, m2) =
      Some (Inr \<lparr>sr_reschedule = False, sr_completed = True\<rparr>, answer2 f2 (ipc_next_transaction ?t) (fx f1 ! 2),
        k_at k t2 r2 ct3 sb, put_user m2 (fx f2 ! 1) (env_view req))"
  proof (rule receive_entry [OF l bb x2 st(1) _ ct3(1,2) st(2,3), of saved s1])
    show "k_tracks k b" using rd by blast
  qed (simp_all add: e1(4,6,7) call_seal_def)
  obtain sc where e3: "dispatch_ipc_svc_current l saved now3 b call_reply bindings epochs (f3, k_at k t2 r2 ct3 s2, m3) =
      Some (Inr \<lparr>sr_reschedule = True, sr_completed = True\<rparr>, answer f3, k_at k t3 r3 ct3 sc, m3)"
    by (rule reply_entry [OF l bb x3 _ _ resp(1), of t2 i r2 t3 r3]) (simp_all add: n ok(2) st(4,5))
  obtain ct4 where e4: "complete_ipc_current l saved a bindings epochs (f4, k_at k t3 r3 ct3 s3, m4) =
      Some (Inr True, answer1 f4 (fx f3 ! 2), k_at k t4 r3 ct4 s3, put_user m4 (fx f1 ! 1) (env_view resp))"
    "ct_send_view ct4 = (ct_send_view ct3)(a := None)" "ct_receive_view ct4 = ct_receive_view ct3"
  proof (rule complete_entry [OF l ba x4 st(9) _ ct3(3) _ _ _ st(6) resp(3,5,6)])
    show "ct_receive_view ct3 a = None" "k_tracks k a" using rd ct3(4) ct1(3) by (simp_all add: ct_armed_view)
  qed (simp_all add: ct3(5) ct1(5) st(10))
  show ?thesis
    using e1(1) e2 e3 e4 st(7,8) rd ct3(4) ct1(3) e1(5) resp(4)
    by (intro exI [of _ "k_at k t1 r1 ct1 sa"] exI [of _ "k_at k t2 r2 ct3 sb"] exI [of _ "k_at k t3 r3 ct3 sc"]
        exI [of _ "k_at k t4 r3 ct4 s3"]) (simp add: k_at_self [symmetric] ct_armed_view)
qed

section \<open>A concrete call\<close>

text \<open>Thread 1 calls thread 2.  Thread 1 has address 0x10000 at physical 0x100000, thread 2 has 0x20000 at physical 0x200000.\<close>

definition call_kernel :: Kernel where
  "call_kernel = k_serving\<lparr>k_capabilities := snd (cap_mint (k_capabilities k_serving) 1 (ipc_object_id ipc_e1) ipc_right_all True)\<rparr>"

definition call_epochs :: AddressSpaceEpochAuthority where
  "call_epochs = snd (ep_acquire ep_one)"

definition call_client :: ProcessTranslationBinding where
  "call_client = \<lparr>pb_thread = 1, pb_epoch = ep_one_epoch, pb_root = 4096\<rparr>"

definition call_server :: ProcessTranslationBinding where
  "call_server = \<lparr>pb_thread = 2, pb_epoch = \<lparr>ae_slot = 1, ae_generation = 1, ae_asid = 2\<rparr>, pb_root = 8192\<rparr>"

definition call_bindings :: ProcessTranslationTable where
  "call_bindings = snd (pt_bind (snd (pt_bind pt_empty 1 (pb_epoch call_client) \<lparr>root_physical = 4096, root_entry = 64\<rparr> call_epochs))
     2 (pb_epoch call_server) \<lparr>root_physical = 8192, root_entry = 64\<rparr> call_epochs)"

definition call_labels :: CopyLabels where
  "call_labels = \<lparr>cl_load_fault = 0x80000, cl_load_recovery = 0x80010, cl_store_fault = 0x80020, cl_store_recovery = 0x80030\<rparr>"

definition client_machine :: "(u64 \<Rightarrow> u8) \<Rightarrow> UserMachine" where
  "client_machine mem = \<lparr>um_memory = mem, um_ttbr0 = 0x0001000000001000, um_walk = [0x10 \<mapsto> (0x100000, True)], um_guard = guard_disarmed\<rparr>"

definition server_machine :: "(u64 \<Rightarrow> u8) \<Rightarrow> UserMachine" where
  "server_machine mem = \<lparr>um_memory = mem, um_ttbr0 = 0x0002000000002000, um_walk = [0x20 \<mapsto> (0x200000, True)], um_guard = guard_disarmed\<rparr>"

definition call_frame :: "u64 \<Rightarrow> u64 \<Rightarrow> u64 \<Rightarrow> ExceptionFrame" where
  "call_frame x0 x1 x2 = frame_example\<lparr>fx := [x0, x1, x2] @ replicate 28 0\<rparr>"

lemma call_kernel_run: "(k_method strict)\<^sup>*\<^sup>* k_empty call_kernel"
  unfolding call_kernel_def
  by (rule rtranclp.rtrancl_into_rtrancl [OF k_serving_run]) (rule k_method.capabilities cap_method.intros)+

lemma call_evaluated:
  "call_ready call_kernel 1 2 2 1 ipc_e1" "ipc_next_transaction (k_ipc call_kernel) = 1"
  "current_binding 1 call_bindings call_epochs = Inr call_client" "current_binding 2 call_bindings call_epochs = Inr call_server"
  "binding_valid call_client" "binding_valid call_server"
  "ttbr0_el1_value 4096 1 = 0x0001000000001000" "ttbr0_el1_value 8192 2 = 0x0002000000002000"
  by code_simp+

lemma call_translations:
  "translation_current call_client call_bindings call_epochs (client_machine mem)"
  "translation_current call_server call_bindings call_epochs (server_machine mem)"
  using current_binding_thread(3) [OF call_evaluated(3)] current_binding_thread(3) [OF call_evaluated(4)] call_evaluated(5-8)
  by (auto simp: translation_current_def client_machine_def server_machine_def call_client_def call_server_def ep_one_epoch_def)

lemma call_pages:
  "user_translate (client_machine mem) 0x10000 = Some (0x100000, True)"
  "user_translate (server_machine mem) 0x20000 = Some (0x200000, True)"
  "range_valid \<lparr>ur_address = 0x10000, ur_length = 3\<rparr>" "range_valid \<lparr>ur_address = 0x20000, ur_length = 3\<rparr>"
  "range_valid \<lparr>ur_address = 0x10000, ur_length = 2\<rparr>" "range_valid \<lparr>ur_address = 0x20000, ur_length = 2\<rparr>"
  by (simp_all add: user_translate_def client_machine_def server_machine_def range_valid_def)

lemma call_exchanges:
  "exchange_ok call_client call_bindings call_epochs (client_machine mem) 0x10000 3 w"
  "exchange_ok call_server call_bindings call_epochs (server_machine mem) 0x20000 3 w"
  "exchange_ok call_client call_bindings call_epochs (client_machine mem) 0x10000 2 w"
  "exchange_ok call_server call_bindings call_epochs (server_machine mem) 0x20000 2 w"
  using call_translations [of mem] call_pages(1) [of mem] call_pages(2) [of mem] call_pages(3-6)
  by (simp_all add: exchange_ok_def) (simp_all add: client_machine_def server_machine_def)

lemma call_labels_placed: "labels_placed call_labels"
  by (simp add: labels_placed_def call_labels_def)

lemma call_frame_regs [simp]: "fx (call_frame x0 x1 x2) ! 0 = x0" "fx (call_frame x0 x1 x2) ! 1 = x1" "fx (call_frame x0 x1 x2) ! 2 = x2"
  by (simp_all add: call_frame_def)

text \<open>The client sends three bytes, the server finds them in its frame and answers with two.\<close>

theorem ipc_syscall_round_trip_witness:
  "\<exists>k1 k2 k3 k4.
    dispatch_ipc_svc_current call_labels frame_example 0 1 call_send call_bindings call_epochs
      (call_frame 2 0x10000 3, call_kernel, client_machine (\<lambda>q. ucast q + 7)) =
      Some (Inr \<lparr>sr_reschedule = True, sr_completed = False\<rparr>, call_frame 2 0x10000 3, k1, client_machine (\<lambda>q. ucast q + 7)) \<and>
    dispatch_ipc_svc_current call_labels frame_example 0 2 call_receive call_bindings call_epochs
      (call_frame 1 0x20000 0, k1\<lparr>k_scheduler := k_scheduler call_kernel\<rparr>, server_machine (\<lambda>q. ucast q + 7)) =
      Some (Inr \<lparr>sr_reschedule = False, sr_completed = True\<rparr>, answer2 (call_frame 1 0x20000 0) 1 3, k2,
        put_user (server_machine (\<lambda>q. ucast q + 7)) 0x20000 [7, 8, 9]) \<and>
    dispatch_ipc_svc_current call_labels frame_example 0 2 call_reply call_bindings call_epochs
      (call_frame 1 0x20000 2, k2\<lparr>k_scheduler := k_scheduler call_kernel\<rparr>, server_machine (\<lambda>_. 0x41)) =
      Some (Inr \<lparr>sr_reschedule = True, sr_completed = True\<rparr>, answer (call_frame 1 0x20000 2), k3, server_machine (\<lambda>_. 0x41)) \<and>
    complete_ipc_current call_labels frame_example 1 call_bindings call_epochs
      (call_frame 2 0x10000 3, k3\<lparr>k_scheduler := k_scheduler call_kernel\<rparr>, client_machine (\<lambda>q. ucast q + 7)) =
      Some (Inr True, answer1 (call_frame 2 0x10000 3) 2, k4, put_user (client_machine (\<lambda>q. ucast q + 7)) 0x10000 [0x41, 0x41]) \<and>
    \<not> ct_send_armed (k_ipc_continuations k4) 1 \<and> \<not> ct_receive_armed (k_ipc_continuations k4) 2 \<and>
    ipc_pending_call_count (k_ipc k4) = ipc_pending_call_count (k_ipc call_kernel) \<and>
    ipc_active_reply_seal_count (k_ipc k4) = ipc_active_reply_seal_count (k_ipc call_kernel)"
proof -
  let ?m = "\<lambda>q. ucast q + 7 :: u8"
  have b: "user_bytes (client_machine ?m) 0x10000 3 = [7, 8, 9]" "user_bytes (server_machine (\<lambda>_. 0x41)) 0x20000 2 = [0x41, 0x41]"
    using call_pages(1,2)
    by (simp_all add: user_bytes_def upt_rec client_machine_def server_machine_def)
  have u: "unat (3 :: u64) = 3" "unat (2 :: u64) = 2" by simp_all
  note rt = ipc_syscall_round_trip [OF call_labels_placed k_run_inv [OF call_kernel_run [of True]], where a = 1 and b = 2 and e = ipc_e1
      and bindings = call_bindings and epochs = call_epochs and ba = call_client and bb = call_server
      and ?f1.0 = "call_frame 2 0x10000 3" and ?f2.0 = "call_frame 1 0x20000 0" and ?f3.0 = "call_frame 1 0x20000 2"
      and ?m1.0 = "client_machine ?m" and ?m2.0 = "server_machine ?m" and ?m3.0 = "server_machine (\<lambda>_. 0x41)"
      and ?m4.0 = "client_machine ?m", unfolded call_frame_regs call_evaluated(2) u b]
  show ?thesis by (rule rt) (rule call_evaluated(1,3,4) refl call_exchanges)+
qed

text \<open>The same machine, one copy at a time: a ticket over the client's frame reads it, and over an unmapped page is refused.\<close>

definition client_ticket :: "u64 \<Rightarrow> UserAccessTicket" where
  "client_ticket a = \<lparr>ua_thread = 1, ua_epoch = ep_one_epoch, ua_root = 4096, ua_range = \<lparr>ur_address = a, ur_length = 3\<rparr>,
     ua_intent = read_from_user\<rparr>"

theorem user_copy_all_or_nothing_witness:
  "copy_from_user_current call_labels frame_example (client_ticket 0x10000) [0, 0, 0] call_bindings call_epochs
     (client_machine (\<lambda>q. ucast q + 7)) = Some (Inr (), [7, 8, 9], client_machine (\<lambda>q. ucast q + 7)) \<and>
   (\<exists>e. copy_from_user_current call_labels frame_example (client_ticket 0x30000) [0, 0, 0] call_bindings call_epochs
     (client_machine (\<lambda>q. ucast q + 7)) = Some (Inl e, [0, 0, 0], client_machine (\<lambda>q. ucast q + 7)))"
proof -
  let ?m = "client_machine (\<lambda>q. ucast q + 7)"
  have g: "um_guard ?m = guard_disarmed" by (simp add: client_machine_def)
  have b: "user_bytes ?m 0x10000 3 = [7, 8, 9]"
    using call_pages(1) by (simp add: user_bytes_def upt_rec client_machine_def)
  have r: "pt_resolve call_bindings 1 call_epochs = Inr call_client" using current_binding_thread(3) [OF call_evaluated(3)] .
  have t: "ticket_current (client_ticket 0x10000) read_from_user 3 call_bindings call_epochs ?m"
    using call_translations(1) [of "\<lambda>q. ucast q + 7"] call_pages(3) r
    by (auto simp: ticket_current_def client_ticket_def ticket_valid_def translation_current_def binding_valid_def call_client_def)
  have n: "user_translate ?m 0x30000 = None" by (simp add: user_translate_def client_machine_def)
  note one = user_copy_all_or_nothing [OF call_labels_placed g, of "[0, 0, 0]" frame_example _ call_bindings call_epochs, THEN conjunct1]
  have "copy_from_user_current call_labels frame_example (client_ticket 0x10000) [0, 0, 0] call_bindings call_epochs ?m =
      Some (Inr (), [7, 8, 9], ?m)"
    using one [of "client_ticket 0x10000"] t b call_pages(1) by (auto simp: client_ticket_def numeral_3_eq_3)
  moreover have "\<exists>e. copy_from_user_current call_labels frame_example (client_ticket 0x30000) [0, 0, 0] call_bindings call_epochs ?m =
      Some (Inl e, [0, 0, 0], ?m)"
  proof -
    obtain res out where o: "copy_from_user_current call_labels frame_example (client_ticket 0x30000) [0, 0, 0] call_bindings
        call_epochs ?m = Some (res, out, ?m)" "res \<noteq> Inr ()" "out = (if res = Inr () then out else [0, 0, 0])"
      using one [of "client_ticket 0x30000"] n by (auto simp: client_ticket_def)
    then show ?thesis by (cases res) auto
  qed
  ultimately show ?thesis by blast
qed

text \<open>The client's send of three bytes is accepted; with a frame at the top of the address space it is refused.\<close>

lemma call_send_accepted:
  "\<exists>k1. dispatch_ipc_svc_current call_labels frame_example 0 1 call_send call_bindings call_epochs
      (call_frame 2 0x10000 3, call_kernel, client_machine mem) =
    Some (Inr \<lparr>sr_reschedule = True, sr_completed = False\<rparr>, call_frame 2 0x10000 3, k1, client_machine mem)"
proof -
  let ?k = call_kernel
  have inv: "k_inv True ?k" by (rule k_run_inv [OF call_kernel_run])
  note rd = call_evaluated(1) [unfolded call_ready_def]
  obtain ct1 where ct1: "ct_arm (k_ipc_continuations ?k) 1 (pb_epoch call_client) 0x10000 call_epochs = (Inr (), ct1)"
    using ct_arm_ready [of "k_ipc_continuations ?k" 1 call_epochs "pb_epoch call_client" "0x10000"] rd inv
      current_binding_thread(2) [OF call_evaluated(3)] by (auto simp: k_inv_def k_base_def)
  have sent: "\<exists>t' r'. ipc_send_to_endpoint (k_ipc ?k) 1 no_identity ipc_e1 (k_threads ?k) req = (Inr (), t', r')" if "env_valid req" for req
    using call_ready_steps [OF inv call_evaluated(1) that that] by metis
  have cap: "ipc_endpoint_for_capability (k_ipc ?k) 1 2 ipc_right_send (k_capabilities ?k) = Inr ipc_e1" "k_tracks ?k 1" using rd by blast+
  show ?thesis
    by (rule send_entry [OF call_labels_placed call_evaluated(3), where f = "call_frame 2 0x10000 3" and m = "client_machine mem"
        and t = "k_ipc ?k" and k = ?k and e = ipc_e1 and r = "k_threads ?k" and ct = "k_ipc_continuations ?k" and ct' = ct1
        and s = "k_scheduler ?k" and saved = frame_example and now = 0])
      (use ct1 sent cap call_exchanges(1) [of mem] in \<open>auto simp: k_at_def call_frame_def\<close>)
qed

theorem ipc_entry_confined_witness:
  "(\<exists>k1. dispatch_ipc_svc_current call_labels frame_example 0 1 call_send call_bindings call_epochs
      (call_frame 2 0x10000 3, call_kernel, client_machine (\<lambda>_. 0)) =
    Some (Inr \<lparr>sr_reschedule = True, sr_completed = False\<rparr>, call_frame 2 0x10000 3, k1, client_machine (\<lambda>_. 0)) \<and> k_inv True k1) \<and>
   svc_entry_safe {} True 1 call_bindings call_epochs (call_frame 2 0xFFFFFFFFFFFFFFFF 64, call_kernel, client_machine (\<lambda>_. 0))
     (dispatch_ipc_svc_current call_labels frame_example 0 1 call_send call_bindings call_epochs
       (call_frame 2 0xFFFFFFFFFFFFFFFF 64, call_kernel, client_machine (\<lambda>_. 0)))"
proof -
  have "um_guard (client_machine (\<lambda>_. 0)) = guard_disarmed" by (simp add: client_machine_def)
  note safe = ipc_entry_confined [OF call_labels_placed this k_run_inv [OF call_kernel_run [of True]], THEN conjunct1]
  obtain k1 where k1: "dispatch_ipc_svc_current call_labels frame_example 0 1 call_send call_bindings call_epochs
      (call_frame 2 0x10000 3, call_kernel, client_machine (\<lambda>_. 0)) =
    Some (Inr \<lparr>sr_reschedule = True, sr_completed = False\<rparr>, call_frame 2 0x10000 3, k1, client_machine (\<lambda>_. 0))"
    using call_send_accepted by blast
  then have "k_inv True k1"
    using safe [of 1 call_bindings call_epochs "call_frame 2 0x10000 3" frame_example 0 call_send] by (auto simp: svc_entry_safe_def)
  then show ?thesis using k1 safe by blast
qed

end
