(* ===== verification/Device_Tree.thy ===== *)
theory Device_Tree
  imports Kernel_Prelude
begin

text \<open>
  Reading the flattened device tree the firmware hands over: fdt.hpp/.cpp (\<open>FdtView\<close>, prefix \<open>fdt_\<close>) of
  src/core/oskernel.  A \<open>ByteSpan\<close> is a list of bytes, a \<open>std::string_view\<close> the list of its
  bytes, a \<open>std::size_t\<close> offset a natural number (every offset stays below \<open>2 ^ 33\<close>, far from the width
  of \<open>size_t\<close>: header fields have 32 bits and cursors never pass the end of the blob by more than a token),
  and the callbacks are functions on a context, \<open>None\<close> where the code allows a null pointer.  The
  lemmas show that the walkers terminate, that a parsed view has a reservation block that can be walked
  without error, and that the walk of a serialised tree reports exactly that tree, in order.
\<close>

type_synonym bytes = "u8 list"

section \<open>Reading\<close>

abbreviation "fdt_invalid_header \<equiv> kernel_error 60"
abbreviation "fdt_invalid_bounds \<equiv> kernel_error 61"
abbreviation "fdt_unsupported_version \<equiv> kernel_error 62"
abbreviation "fdt_malformed_structure \<equiv> kernel_error 63"
abbreviation "fdt_invalid_string \<equiv> kernel_error 64"
abbreviation "fdt_malformed_reservation \<equiv> kernel_error 65"

definition read_be32 :: "bytes \<Rightarrow> nat \<Rightarrow> u32 option" where
  "read_be32 bytes offset =
     (if offset > length bytes \<or> length bytes - offset < 4 then None
      else Some (push_bit 24 (ucast (bytes ! offset)) OR push_bit 16 (ucast (bytes ! (offset + 1))) OR
                 push_bit 8 (ucast (bytes ! (offset + 2))) OR ucast (bytes ! (offset + 3))))"

definition read_be64 :: "bytes \<Rightarrow> nat \<Rightarrow> u64 option" where
  "read_be64 bytes offset =
     (case read_be32 bytes offset of None \<Rightarrow> None
      | Some high \<Rightarrow> (case read_be32 bytes (offset + 4) of None \<Rightarrow> None
          | Some low \<Rightarrow> Some (push_bit 32 (ucast high) OR ucast low)))"

definition align4 :: "nat \<Rightarrow> nat" where
  "align4 value = (value + 3) div 4 * 4"

definition bounded_range :: "nat \<Rightarrow> nat \<Rightarrow> nat \<Rightarrow> bool" where
  "bounded_range offset len total_bytes \<longleftrightarrow> offset \<le> total_bytes \<and> len \<le> total_bytes - offset"

function c_string_end :: "bytes \<Rightarrow> nat \<Rightarrow> nat \<Rightarrow> nat" where
  "c_string_end bytes cursor limit =
     (if cursor < limit \<and> bytes ! cursor \<noteq> 0 then c_string_end bytes (cursor + 1) limit else cursor)"
  by pat_completeness auto
termination by (relation "measure (\<lambda>(_, cursor, limit). limit - cursor)") auto

declare c_string_end.simps [simp del]

definition bounded_c_string :: "bytes \<Rightarrow> nat \<Rightarrow> nat \<Rightarrow> bytes option" where
  "bounded_c_string bytes first limit =
     (if first \<ge> limit \<or> limit > length bytes then None
      else let cursor = c_string_end bytes first limit
           in if cursor = limit then None else Some (take (cursor - first) (drop first bytes)))"

section \<open>The view\<close>

abbreviation fdt_magic :: u32 where "fdt_magic \<equiv> 0xD00DFEED"
abbreviation token_begin_node :: u32 where "token_begin_node \<equiv> 1"
abbreviation token_end_node :: u32 where "token_end_node \<equiv> 2"
abbreviation token_property :: u32 where "token_property \<equiv> 3"
abbreviation token_nop :: u32 where "token_nop \<equiv> 4"
abbreviation token_end :: u32 where "token_end \<equiv> 9"
abbreviation header_bytes :: nat where "header_bytes \<equiv> 40"

record FdtView =
  fv_blob :: bytes
  fv_total_size :: nat
  fv_reservation_offset :: nat
  fv_structure_offset :: nat
  fv_structure_size :: nat
  fv_strings_offset :: nat
  fv_strings_size :: nat
  fv_version :: u32

text \<open>The loop of \<open>parse\<close> over the reservation block, which only validates it.\<close>

function fdt_check_reservations :: "bytes \<Rightarrow> nat \<Rightarrow> nat \<Rightarrow> unit result" where
  "fdt_check_reservations blob structure_offset cursor =
     (if \<not> cursor < structure_offset then Inl fdt_malformed_reservation
      else if structure_offset - cursor < 16 then Inl fdt_malformed_reservation
      else case (read_be64 blob cursor, read_be64 blob (cursor + 8)) of
          (Some addr, Some extent) \<Rightarrow>
            if addr = 0 \<and> extent = 0 then Inr ()
            else if extent = 0 \<or> addr > - 1 - (extent - 1) then Inl fdt_malformed_reservation
            else fdt_check_reservations blob structure_offset (cursor + 16)
        | _ \<Rightarrow> Inl fdt_malformed_reservation)"
  by pat_completeness auto
termination by (relation "measure (\<lambda>(_, limit, cursor). limit - cursor)") auto

declare fdt_check_reservations.simps [simp del]

definition fdt_parse :: "bytes \<Rightarrow> FdtView result" where
  "fdt_parse blob =
     (if length blob < header_bytes then Inl fdt_invalid_header
      else case (read_be32 blob 0, read_be32 blob 4, read_be32 blob 8, read_be32 blob 12, read_be32 blob 16,
                 read_be32 blob 20, read_be32 blob 24, read_be32 blob 32, read_be32 blob 36) of
        (Some magic, Some total_bytes, Some structure, Some strings, Some reservation, Some version,
         Some last_compatible, Some strings_size, Some structure_size) \<Rightarrow>
          if magic \<noteq> fdt_magic then Inl fdt_invalid_header
          else if unat total_bytes < header_bytes \<or> unat total_bytes > length blob then Inl fdt_invalid_bounds
          else if version < 17 \<or> last_compatible > 17 then Inl fdt_unsupported_version
          else if \<not> bounded_range (unat structure) (unat structure_size) (unat total_bytes) \<or>
                  \<not> bounded_range (unat strings) (unat strings_size) (unat total_bytes) \<or>
                  structure AND 3 \<noteq> 0 \<or> unat reservation < header_bytes \<or> reservation AND 7 \<noteq> 0 \<or>
                  reservation \<ge> structure \<or> structure + structure_size > strings
          then Inl fdt_invalid_bounds
          else (case fdt_check_reservations blob (unat structure) (unat reservation) of
              Inl e \<Rightarrow> Inl e
            | Inr _ \<Rightarrow> Inr \<lparr>fv_blob = take (unat total_bytes) blob, fv_total_size = unat total_bytes,
                fv_reservation_offset = unat reservation, fv_structure_offset = unat structure,
                fv_structure_size = unat structure_size, fv_strings_offset = unat strings,
                fv_strings_size = unat strings_size, fv_version = version\<rparr>)
      | _ \<Rightarrow> Inl fdt_invalid_header)"

section \<open>Walking\<close>

record 'c FdtCallbacks =
  cb_begin_node :: "('c \<Rightarrow> bytes \<Rightarrow> nat \<Rightarrow> bool \<times> 'c) option"
  cb_property :: "('c \<Rightarrow> bytes \<Rightarrow> bytes \<Rightarrow> nat \<Rightarrow> bool \<times> 'c) option"
  cb_end_node :: "('c \<Rightarrow> nat \<Rightarrow> bool \<times> 'c) option"

function fdt_reservations_from ::
  "FdtView \<Rightarrow> ('c \<Rightarrow> u64 \<Rightarrow> u64 \<Rightarrow> bool \<times> 'c) option \<Rightarrow> nat \<Rightarrow> 'c \<Rightarrow> unit result \<times> 'c" where
  "fdt_reservations_from v callback cursor context =
     (if \<not> cursor < fv_structure_offset v then (Inl fdt_malformed_reservation, context)
      else if fv_structure_offset v - cursor < 16 then (Inl fdt_malformed_reservation, context)
      else case (read_be64 (fv_blob v) cursor, read_be64 (fv_blob v) (cursor + 8)) of
          (Some addr, Some extent) \<Rightarrow>
            if addr = 0 \<and> extent = 0 then (Inr (), context)
            else if extent = 0 \<or> addr > - 1 - (extent - 1) then (Inl fdt_malformed_reservation, context)
            else (case (case callback of None \<Rightarrow> (True, context) | Some f \<Rightarrow> f context addr extent) of
                (go, context) \<Rightarrow> if \<not> go then (Inr (), context)
                  else fdt_reservations_from v callback (cursor + 16) context)
        | _ \<Rightarrow> (Inl fdt_malformed_reservation, context))"
  by pat_completeness auto
termination by (relation "measure (\<lambda>(v, _, cursor, _). fv_structure_offset v - cursor)") auto

declare fdt_reservations_from.simps [simp del]

definition fdt_walk_reservations ::
  "FdtView \<Rightarrow> ('c \<Rightarrow> u64 \<Rightarrow> u64 \<Rightarrow> bool \<times> 'c) option \<Rightarrow> 'c \<Rightarrow> unit result \<times> 'c" where
  "fdt_walk_reservations v callback context = fdt_reservations_from v callback (fv_reservation_offset v) context"

definition fv_structure_end :: "FdtView \<Rightarrow> nat" where
  "fv_structure_end v = fv_structure_offset v + fv_structure_size v"

definition fv_strings_end :: "FdtView \<Rightarrow> nat" where
  "fv_strings_end v = fv_strings_offset v + fv_strings_size v"

text \<open>The loop of \<open>walk\<close>, from a cursor and a depth.\<close>

function fdt_walk_from ::
  "FdtView \<Rightarrow> 'c FdtCallbacks \<Rightarrow> nat \<Rightarrow> nat \<Rightarrow> 'c \<Rightarrow> unit result \<times> 'c" where
  "fdt_walk_from v cb cursor depth context =
     (if \<not> cursor < fv_structure_end v then (Inl fdt_malformed_structure, context)
      else case read_be32 (fv_blob v) cursor of None \<Rightarrow> (Inl fdt_malformed_structure, context)
      | Some token \<Rightarrow>
      if token = token_begin_node
      then (case bounded_c_string (fv_blob v) (cursor + 4) (fv_structure_end v) of
          None \<Rightarrow> (Inl fdt_malformed_structure, context)
        | Some name \<Rightarrow>
            if cursor + 4 > fv_structure_end v \<or> align4 (length name + 1) > fv_structure_end v - (cursor + 4)
            then (Inl fdt_malformed_structure, context)
            else (case (case cb_begin_node cb of None \<Rightarrow> (True, context) | Some f \<Rightarrow> f context name depth) of
                (go, context) \<Rightarrow> if \<not> go then (Inr (), context)
                  else fdt_walk_from v cb (cursor + 4 + align4 (length name + 1)) (depth + 1) context))
      else if token = token_end_node
      then (if depth = 0 then (Inl fdt_malformed_structure, context)
            else (case (case cb_end_node cb of None \<Rightarrow> (True, context) | Some f \<Rightarrow> f context (depth - 1)) of
                (go, context) \<Rightarrow> if \<not> go then (Inr (), context)
                  else fdt_walk_from v cb (cursor + 4) (depth - 1) context))
      else if token = token_property
      then (if depth = 0 \<or> cursor + 4 > fv_structure_end v \<or> fv_structure_end v - (cursor + 4) < 8
            then (Inl fdt_malformed_structure, context)
            else case (read_be32 (fv_blob v) (cursor + 4), read_be32 (fv_blob v) (cursor + 8)) of
              (Some len, Some name_offset) \<Rightarrow>
                if unat name_offset \<ge> fv_strings_size v then (Inl fdt_invalid_string, context)
                else (case bounded_c_string (fv_blob v) (fv_strings_offset v + unat name_offset) (fv_strings_end v) of
                    None \<Rightarrow> (Inl fdt_invalid_string, context)
                  | Some name \<Rightarrow>
                      if unat len > fv_structure_end v - (cursor + 12) \<or>
                         align4 (unat len) > fv_structure_end v - (cursor + 12)
                      then (Inl fdt_malformed_structure, context)
                      else (case (case cb_property cb of None \<Rightarrow> (True, context)
                              | Some f \<Rightarrow> f context name (take (unat len) (drop (cursor + 12) (fv_blob v))) (depth - 1)) of
                          (go, context) \<Rightarrow> if \<not> go then (Inr (), context)
                            else fdt_walk_from v cb (cursor + 12 + align4 (unat len)) depth context))
            | _ \<Rightarrow> (Inl fdt_malformed_structure, context))
      else if token = token_nop then fdt_walk_from v cb (cursor + 4) depth context
      else if token = token_end
      then (if depth \<noteq> 0 then (Inl fdt_malformed_structure, context) else (Inr (), context))
      else (Inl fdt_malformed_structure, context))"
  by pat_completeness auto
termination by (relation "measure (\<lambda>(v, _, cursor, _, _). fv_structure_end v - cursor)") auto

declare fdt_walk_from.simps [simp del]

definition fdt_walk :: "FdtView \<Rightarrow> 'c FdtCallbacks \<Rightarrow> 'c \<Rightarrow> unit result \<times> 'c" where
  "fdt_walk v cb context = fdt_walk_from v cb (fv_structure_offset v) 0 context"

section \<open>Clients of the walkers\<close>

text \<open>What a walker's client promises: callbacks that keep a property of the context.  Both walks then keep it, however
  they end.\<close>

locale fdt_client =
  fixes cb :: "'c FdtCallbacks" and rcb :: "'c \<Rightarrow> u64 \<Rightarrow> u64 \<Rightarrow> bool \<times> 'c" and P :: "'c \<Rightarrow> bool"
  assumes begin_keeps: "cb_begin_node cb = Some f \<Longrightarrow> P c \<Longrightarrow> P (snd (f c name depth))"
    and property_keeps: "cb_property cb = Some g \<Longrightarrow> P c \<Longrightarrow> P (snd (g c name val depth))"
    and end_keeps: "cb_end_node cb = Some h \<Longrightarrow> P c \<Longrightarrow> P (snd (h c depth))"
    and reservation_keeps: "P c \<Longrightarrow> addr \<le> - 1 - (extent - 1) \<Longrightarrow> extent \<noteq> 0 \<Longrightarrow> P (snd (rcb c addr extent))"
begin

lemma reservations_keep: "P c \<Longrightarrow> P (snd (fdt_reservations_from v (Some rcb) cursor c))"
proof (induction "fv_structure_offset v - cursor" arbitrary: cursor c rule: less_induct)
  case less
  have IH: "P c' \<Longrightarrow> cursor < fv_structure_offset v \<Longrightarrow> P (snd (fdt_reservations_from v (Some rcb) (cursor + 16) c'))" for c'
    by (rule less.hyps) auto
  have keep: "P c'" if "rcb c addr extent = (go, c')" "\<not> - extent < addr" "extent \<noteq> 0" for addr extent go c'
    using reservation_keeps [OF less.prems, of addr extent] that by (simp add: linorder_not_less)
  show ?case
  proof (cases "cursor < fv_structure_offset v")
    case False
    then show ?thesis using less.prems by (subst fdt_reservations_from.simps) simp
  next
    case True
    show ?thesis
      by (subst fdt_reservations_from.simps)
         (auto simp: less.prems True intro: IH [OF _ True] keep split: option.split prod.split)
  qed
qed

lemma walk_keeps: "P c \<Longrightarrow> P (snd (fdt_walk_from v cb cursor depth c))"
proof (induction "fv_structure_end v - cursor" arbitrary: cursor depth c rule: less_induct)
  case less
  have IH: "P c' \<Longrightarrow> cursor < fv_structure_end v \<Longrightarrow> P (snd (fdt_walk_from v cb (cursor + 4 + n) d c'))" for c' n d
    by (rule less.hyps) auto
  have IH12: "P c' \<Longrightarrow> cursor < fv_structure_end v \<Longrightarrow> P (snd (fdt_walk_from v cb (cursor + 12 + n) d c'))" for c' n d
    by (rule less.hyps) auto
  define B where "B name = (case cb_begin_node cb of None \<Rightarrow> (True, c) | Some f \<Rightarrow> f c name depth)" for name
  define Q where "Q name val = (case cb_property cb of None \<Rightarrow> (True, c) | Some f \<Rightarrow> f c name val (depth - 1))" for name val
  define E where "E = (case cb_end_node cb of None \<Rightarrow> (True, c) | Some f \<Rightarrow> f c (depth - 1))"
  have calls: "P (snd (B name))" "P (snd (Q name val))" "P (snd E)" for name val
    using less.prems begin_keeps property_keeps end_keeps by (simp_all add: B_def Q_def E_def split: option.split)
  have stepI: "P (snd (case r of (go, ctx) \<Rightarrow> if \<not> go then (Inr (), ctx) else W ctx))"
    if "P (snd r)" "\<And>c'. P c' \<Longrightarrow> P (snd (W c'))" for r and W :: "'c \<Rightarrow> unit result \<times> 'c"
    using that by (cases r) simp
  show ?case
  proof (cases "cursor < fv_structure_end v")
    case False
    then show ?thesis using less.prems by (subst fdt_walk_from.simps) simp
  next
    case True
    note IHs = IH [OF _ True] IH [OF _ True, of _ 0, simplified] IH12 [OF _ True]
    show ?thesis
      by (subst fdt_walk_from.simps, unfold B_def [symmetric] Q_def [symmetric] E_def [symmetric])
         (simp add: less.prems True stepI calls IHs split: option.split)
  qed
qed

end

section \<open>Words and strings in a byte list\<close>

definition be32 :: "u32 \<Rightarrow> bytes" where
  "be32 w = [ucast (drop_bit 24 w), ucast (drop_bit 16 w), ucast (drop_bit 8 w), ucast w]"

definition be64 :: "u64 \<Rightarrow> bytes" where
  "be64 w = be32 (ucast (drop_bit 32 w)) @ be32 (ucast w)"

lemma length_be [simp]: "length (be32 w) = 4" "length (be64 x) = 8"
  by (simp_all add: be32_def be64_def)

lemma be32_value:
  "push_bit 24 (ucast (ucast (drop_bit 24 w) :: u8)) OR push_bit 16 (ucast (ucast (drop_bit 16 w) :: u8)) OR
   push_bit 8 (ucast (ucast (drop_bit 8 w) :: u8)) OR ucast (ucast w :: u8) = (w :: u32)"
proof (rule bit_word_eqI)
  fix n assume "n < LENGTH(32)"
  then consider "n < 8" | "8 \<le> n" "n < 16" | "16 \<le> n" "n < 24" | "24 \<le> n" "n < 32" by fastforce
  then show "bit (push_bit 24 (ucast (ucast (drop_bit 24 w) :: u8)) OR push_bit 16 (ucast (ucast (drop_bit 16 w) :: u8)) OR
      push_bit 8 (ucast (ucast (drop_bit 8 w) :: u8)) OR ucast (ucast w :: u8) :: u32) n \<longleftrightarrow> bit w n"
    by cases (auto simp: bit_simps)
qed

lemma be64_value: "push_bit 32 (ucast (ucast (drop_bit 32 w) :: u32)) OR ucast (ucast w :: u32) = (w :: u64)"
proof (rule bit_word_eqI)
  fix n assume "n < LENGTH(64)"
  then consider "n < 32" | "32 \<le> n" "n < 64" by fastforce
  then show "bit (push_bit 32 (ucast (ucast (drop_bit 32 w) :: u32)) OR ucast (ucast w :: u32) :: u64) n \<longleftrightarrow> bit w n"
    by cases (auto simp: bit_simps)
qed

text \<open>\<open>holds_at bytes n xs\<close>: the bytes from offset \<open>n\<close> on begin with \<open>xs\<close>.\<close>

definition holds_at :: "bytes \<Rightarrow> nat \<Rightarrow> bytes \<Rightarrow> bool" where
  "holds_at bytes n xs \<longleftrightarrow> n + length xs \<le> length bytes \<and> take (length xs) (drop n bytes) = xs"

lemma holds_at_append [simp]:
  "holds_at bytes n (xs @ ys) \<longleftrightarrow> holds_at bytes n xs \<and> holds_at bytes (n + length xs) ys"
proof
  assume a: "holds_at bytes n (xs @ ys)"
  then have len: "n + length xs + length ys \<le> length bytes"
    and eq: "take (length xs + length ys) (drop n bytes) = xs @ ys" by (simp_all add: holds_at_def)
  have "take (length xs) (drop n bytes) = take (length xs) (take (length xs + length ys) (drop n bytes))"
    by simp
  then have x: "take (length xs) (drop n bytes) = xs" by (simp add: eq)
  have "drop (length xs) (take (length xs + length ys) (drop n bytes)) = ys" by (simp add: eq)
  then have "take (length ys) (drop (n + length xs) bytes) = ys"
    by (simp add: drop_take add.commute)
  with x len show "holds_at bytes n xs \<and> holds_at bytes (n + length xs) ys" by (simp add: holds_at_def)
next
  assume "holds_at bytes n xs \<and> holds_at bytes (n + length xs) ys"
  then show "holds_at bytes n (xs @ ys)" by (simp add: holds_at_def take_add add.commute)
qed

lemma holds_at_nth: "holds_at bytes n xs \<Longrightarrow> i < length xs \<Longrightarrow> bytes ! (n + i) = xs ! i"
proof -
  assume "holds_at bytes n xs" "i < length xs"
  then have "take (length xs) (drop n bytes) ! i = xs ! i" "n \<le> length bytes" "i < length xs"
    by (simp_all add: holds_at_def)
  then show ?thesis by simp
qed

lemma holds_at_take: "holds_at bytes n xs \<Longrightarrow> n + length xs \<le> m \<Longrightarrow> holds_at (take m bytes) n xs"
proof -
  assume h: "holds_at bytes n xs" and m: "n + length xs \<le> m"
  then have "length xs \<le> m - n" by arith
  with h m show ?thesis by (simp add: holds_at_def drop_take min_absorb1)
qed

lemma read_be32_holds: "holds_at bytes n (be32 w) \<Longrightarrow> read_be32 bytes n = Some w"
proof -
  assume h: "holds_at bytes n (be32 w)"
  have "bytes ! n = ucast (drop_bit 24 w)" "bytes ! (n + 1) = ucast (drop_bit 16 w)"
    "bytes ! (n + 2) = ucast (drop_bit 8 w)" "bytes ! (n + 3) = ucast w"
    using holds_at_nth [OF h, of 0] holds_at_nth [OF h, of 1] holds_at_nth [OF h, of 2] holds_at_nth [OF h, of 3]
    by (simp_all add: be32_def)
  moreover have "\<not> (length bytes < n \<or> length bytes - n < 4)" using h unfolding holds_at_def length_be by arith
  ultimately show ?thesis using be32_value [of w] by (simp add: read_be32_def)
qed

lemma read_be64_holds: "holds_at bytes n (be64 w) \<Longrightarrow> read_be64 bytes n = Some w"
  using read_be32_holds [of bytes n "ucast (drop_bit 32 w)"] read_be32_holds [of bytes "n + 4" "ucast w"] be64_value [of w]
  by (simp add: read_be64_def be64_def)

lemma c_string_end_holds:
  "holds_at bytes n (xs @ [0]) \<Longrightarrow> 0 \<notin> set xs \<Longrightarrow> n + length xs < limit \<Longrightarrow>
   c_string_end bytes n limit = n + length xs"
proof (induction xs arbitrary: n)
  case Nil
  then show ?case using holds_at_nth [of bytes n "[0]" 0] by (simp add: c_string_end.simps)
next
  case (Cons x xs)
  have "bytes ! n = x" using holds_at_nth [OF Cons.prems(1), of 0] by simp
  moreover have "holds_at bytes (n + 1) (xs @ [0])"
    using Cons.prems(1) holds_at_append [of bytes n "[x]" "xs @ [0]"] by simp
  ultimately show ?case using Cons by (subst c_string_end.simps) simp
qed

lemma bounded_c_string_holds:
  assumes "holds_at bytes n (xs @ [0])" "0 \<notin> set xs" "n + length xs < limit" "limit \<le> length bytes"
  shows "bounded_c_string bytes n limit = Some xs"
proof -
  have "take (length xs) (drop n bytes) = xs"
    using assms(1) holds_at_append [of bytes n xs "[0]"] by (simp add: holds_at_def)
  then show ?thesis using assms c_string_end_holds [OF assms(1-3)] by (simp add: bounded_c_string_def)
qed

lemma align4_facts: "n \<le> align4 n" "align4 n mod 4 = 0" "align4 n < n + 4"
  unfolding align4_def by presburger+

section \<open>Reservations of a parsed view\<close>

lemma read_be32_take: "n + 4 \<le> m \<Longrightarrow> read_be32 (take m bytes) n = read_be32 bytes n"
  by (auto simp: read_be32_def)

lemma read_be64_take: "n + 8 \<le> m \<Longrightarrow> read_be64 (take m bytes) n = read_be64 bytes n"
  using read_be32_take [of n m bytes] read_be32_take [of "n + 4" m bytes]
  by (simp add: read_be64_def split: option.split)

text \<open>What the walk of the reservation block does with a list of reservations: one callback for each of them,
  until one asks to stop.\<close>

fun run_reservations :: "('c \<Rightarrow> u64 \<Rightarrow> u64 \<Rightarrow> bool \<times> 'c) option \<Rightarrow> (u64 \<times> u64) list \<Rightarrow> 'c \<Rightarrow> 'c" where
  "run_reservations callback [] context = context"
| "run_reservations callback ((addr, extent) # rs) context =
     (case (case callback of None \<Rightarrow> (True, context) | Some f \<Rightarrow> f context addr extent) of
        (go, context) \<Rightarrow> if go then run_reservations callback rs context else context)"

definition reservation_ok :: "u64 \<times> u64 \<Rightarrow> bool" where
  "reservation_ok r \<longleftrightarrow> snd r \<noteq> 0 \<and> fst r \<le> - 1 - (snd r - 1)"

text \<open>The entries of a reservation block up to its terminating zero pair.\<close>

function reservation_entries :: "bytes \<Rightarrow> nat \<Rightarrow> nat \<Rightarrow> (u64 \<times> u64) list" where
  "reservation_entries blob limit cursor =
     (if \<not> cursor < limit then []
      else case (read_be64 blob cursor, read_be64 blob (cursor + 8)) of
          (Some addr, Some extent) \<Rightarrow>
            if addr = 0 \<and> extent = 0 then [] else (addr, extent) # reservation_entries blob limit (cursor + 16)
        | _ \<Rightarrow> [])"
  by pat_completeness auto
termination by (relation "measure (\<lambda>(_, limit, cursor). limit - cursor)") auto

declare reservation_entries.simps [simp del]

lemma fdt_check_then_walk:
  assumes "limit \<le> m" "fv_blob v = take m blob" "fv_structure_offset v = limit"
  shows "fdt_check_reservations blob limit cursor = Inr () \<Longrightarrow>
    list_all reservation_ok (reservation_entries blob limit cursor) \<and>
    fdt_reservations_from v callback cursor ctx = (Inr (), run_reservations callback (reservation_entries blob limit cursor) ctx)"
proof (induction "limit - cursor" arbitrary: cursor ctx rule: less_induct)
  case less
  have c: "cursor < limit" "\<not> limit - cursor < 16"
    using less.prems by (auto simp: fdt_check_reservations.simps [of blob limit cursor] split: if_splits)
  then have le: "cursor + 8 \<le> m" "cursor + 8 + 8 \<le> m" using assms(1) by arith+
  obtain addr extent where r: "read_be64 blob cursor = Some addr" "read_be64 blob (cursor + 8) = Some extent"
    using less.prems c by (auto simp: fdt_check_reservations.simps [of blob limit cursor] split: option.splits)
  have rv: "read_be64 (fv_blob v) cursor = Some addr" "read_be64 (fv_blob v) (cursor + 8) = Some extent"
    using r read_be64_take [OF le(1)] read_be64_take [OF le(2)] assms(2) by simp_all
  show ?case
  proof (cases "addr = 0 \<and> extent = 0")
    case True
    then show ?thesis using c r rv assms(3)
      by (simp add: fdt_reservations_from.simps [of v _ cursor] reservation_entries.simps [of blob limit cursor])
  next
    case False
    have ok: "\<not> (extent = 0 \<or> addr > - 1 - (extent - 1))"
      and rec: "fdt_check_reservations blob limit (cursor + 16) = Inr ()"
      using less.prems c r False by (auto simp: fdt_check_reservations.simps [of blob limit cursor] split: if_splits)
    have es: "reservation_entries blob limit cursor = (addr, extent) # reservation_entries blob limit (cursor + 16)"
      using c r False by (subst reservation_entries.simps) simp
    have IH: "list_all reservation_ok (reservation_entries blob limit (cursor + 16))"
      "fdt_reservations_from v callback (cursor + 16) ctx' =
         (Inr (), run_reservations callback (reservation_entries blob limit (cursor + 16)) ctx')" for ctx'
      using less.hyps [OF _ rec] c by simp_all
    have "fdt_reservations_from v callback cursor ctx =
        (Inr (), run_reservations callback ((addr, extent) # reservation_entries blob limit (cursor + 16)) ctx)"
      using c rv False ok assms(3)
      by (subst fdt_reservations_from.simps) (auto simp: IH(2) split: prod.splits option.splits)
    then show ?thesis using ok IH(1) by (simp add: es reservation_ok_def linorder_not_less)
  qed
qed

text \<open>A view that \<open>parse\<close> returned lies in its blob, and its blocks are in order and in bounds.\<close>

lemma fdt_parse_bounds:
  assumes "fdt_parse blob = Inr v"
  shows "fv_total_size v \<le> length blob" "fv_blob v = take (fv_total_size v) blob"
    "fv_reservation_offset v \<ge> header_bytes" "fv_reservation_offset v < fv_structure_offset v"
    "fv_structure_end v \<le> fv_total_size v" "fv_strings_end v \<le> fv_total_size v"
    "fdt_check_reservations blob (fv_structure_offset v) (fv_reservation_offset v) = Inr ()"
  using assms
  by (auto simp: fdt_parse_def bounded_range_def fv_structure_end_def fv_strings_end_def word_less_nat_alt word_le_nat_alt linorder_not_less
           split: if_splits option.splits sum.splits)

lemma parsed_reservations:
  assumes "fdt_parse blob = Inr v"
  shows "list_all reservation_ok (reservation_entries blob (fv_structure_offset v) (fv_reservation_offset v))"
    "fdt_walk_reservations v callback ctx =
       (Inr (), run_reservations callback (reservation_entries blob (fv_structure_offset v) (fv_reservation_offset v)) ctx)"
proof -
  note b = fdt_parse_bounds [OF assms]
  have "fv_structure_offset v \<le> fv_total_size v" using b(5) by (simp add: fv_structure_end_def)
  note walk = fdt_check_then_walk [OF this b(2) refl b(7)]
  show "list_all reservation_ok (reservation_entries blob (fv_structure_offset v) (fv_reservation_offset v))"
    by (rule walk [THEN conjunct1])
  show "fdt_walk_reservations v callback ctx =
       (Inr (), run_reservations callback (reservation_entries blob (fv_structure_offset v) (fv_reservation_offset v)) ctx)"
    unfolding fdt_walk_reservations_def by (rule walk [THEN conjunct2])
qed

section \<open>Serialised trees\<close>

text \<open>A device tree as the specification of the format has it, its serialisation into a blob, and what a walk
  reports of it.  Property names are stored once, in the strings block.\<close>

datatype DtNode = DtNode (dt_name: bytes) (dt_properties: "(bytes \<times> bytes) list") (dt_children: "DtNode list")

definition pad4 :: "bytes \<Rightarrow> bytes" where
  "pad4 xs = xs @ replicate (align4 (length xs) - length xs) 0"

fun name_offset :: "bytes list \<Rightarrow> bytes \<Rightarrow> nat" where
  "name_offset [] s = 0"
| "name_offset (x # xs) s = (if x = s then 0 else length x + 1 + name_offset xs s)"

definition string_block :: "bytes list \<Rightarrow> bytes" where
  "string_block names = concat (map (\<lambda>s. s @ [0]) names)"

definition enc_property :: "bytes list \<Rightarrow> bytes \<times> bytes \<Rightarrow> bytes" where
  "enc_property names p =
     be32 token_property @ be32 (of_nat (length (snd p))) @ be32 (of_nat (name_offset names (fst p))) @ pad4 (snd p)"

fun enc_node :: "bytes list \<Rightarrow> DtNode \<Rightarrow> bytes" where
  "enc_node names (DtNode name ps cs) =
     be32 token_begin_node @ pad4 (name @ [0]) @ concat (map (enc_property names) ps) @
     concat (map (enc_node names) cs) @ be32 token_end_node"

definition enc_reservations :: "(u64 \<times> u64) list \<Rightarrow> bytes" where
  "enc_reservations rs = concat (map (\<lambda>(addr, extent). be64 addr @ be64 extent) rs) @ be64 0 @ be64 0"

definition fdt_image :: "(u64 \<times> u64) list \<Rightarrow> bytes list \<Rightarrow> DtNode \<Rightarrow> bytes" where
  "fdt_image rs names t =
     (let res = enc_reservations rs; str = enc_node names t @ be32 token_end; strs = string_block names;
          structure = 40 + length res; strings = structure + length str
      in be32 fdt_magic @ be32 (of_nat (strings + length strs)) @ be32 (of_nat structure) @ be32 (of_nat strings) @
         be32 40 @ be32 17 @ be32 16 @ be32 0 @ be32 (of_nat (length strs)) @ be32 (of_nat (length str)) @
         res @ str @ strs)"

text \<open>A well-formed tree: names have no zero byte, and every property name is in the strings block.\<close>

fun dt_ok :: "bytes list \<Rightarrow> DtNode \<Rightarrow> bool" where
  "dt_ok names (DtNode name ps cs) \<longleftrightarrow>
     0 \<notin> set name \<and> list_all (\<lambda>p. fst p \<in> set names) ps \<and> list_all (dt_ok names) cs"

datatype FdtEvent = BeginNode bytes nat | Property bytes bytes nat | EndNode nat

fun tree_events :: "nat \<Rightarrow> DtNode \<Rightarrow> FdtEvent list" where
  "tree_events depth (DtNode name ps cs) =
     BeginNode name depth # map (\<lambda>p. Property (fst p) (snd p) depth) ps @
     concat (map (tree_events (depth + 1)) cs) @ [EndNode depth]"

fun deliver :: "'c FdtCallbacks \<Rightarrow> FdtEvent \<Rightarrow> 'c \<Rightarrow> bool \<times> 'c" where
  "deliver cb (BeginNode name depth) ctx = (case cb_begin_node cb of None \<Rightarrow> (True, ctx) | Some f \<Rightarrow> f ctx name depth)"
| "deliver cb (Property name val depth) ctx = (case cb_property cb of None \<Rightarrow> (True, ctx) | Some f \<Rightarrow> f ctx name val depth)"
| "deliver cb (EndNode depth) ctx = (case cb_end_node cb of None \<Rightarrow> (True, ctx) | Some f \<Rightarrow> f ctx depth)"

text \<open>The callbacks of a list of events, until one asks to stop.\<close>

fun run_events :: "'c FdtCallbacks \<Rightarrow> FdtEvent list \<Rightarrow> 'c \<Rightarrow> bool \<times> 'c" where
  "run_events cb [] ctx = (True, ctx)"
| "run_events cb (e # es) ctx = (case deliver cb e ctx of (go, ctx) \<Rightarrow> if go then run_events cb es ctx else (False, ctx))"

lemma run_events_append:
  "run_events cb (xs @ ys) ctx =
     (case run_events cb xs ctx of (go, ctx) \<Rightarrow> if go then run_events cb ys ctx else (False, ctx))"
  by (induction xs arbitrary: ctx) (auto split: prod.splits)

lemma run_events_single: "run_events cb [e] ctx = deliver cb e ctx"
  by (auto split: prod.split)

lemma length_pad4 [simp]: "length (pad4 xs) = align4 (length xs)"
  using align4_facts(1) [of "length xs"] by (simp add: pad4_def)

lemma length_enc_property: "length (enc_property names p) = 12 + align4 (length (snd p))"
  by (simp add: enc_property_def)

lemma name_offset_holds:
  "s \<in> set names \<Longrightarrow> name_offset names s < length (string_block names) \<and>
    holds_at (string_block names) (name_offset names s) (s @ [0])"
proof (induction names)
  case (Cons x xs)
  show ?case
  proof (cases "x = s")
    case True then show ?thesis by (simp add: string_block_def holds_at_def)
  next
    case False
    with Cons have "name_offset xs s < length (string_block xs)"
      "holds_at (string_block xs) (name_offset xs s) (s @ [0])" by auto
    then show ?thesis using False by (auto simp: string_block_def holds_at_def)
  qed
qed simp

section \<open>The walk of a serialised tree\<close>

text \<open>\<open>view_has v names\<close>: the strings block of the view is that of \<open>names\<close>, its structure block ends inside
  the blob, and sizes fit the 32-bit fields.\<close>

definition view_has :: "FdtView \<Rightarrow> bytes list \<Rightarrow> bool" where
  "view_has v names \<longleftrightarrow> fv_structure_end v \<le> length (fv_blob v) \<and> length (fv_blob v) < 2 ^ 32 \<and>
     fv_strings_size v = length (string_block names) \<and> fv_strings_end v \<le> length (fv_blob v) \<and>
     holds_at (fv_blob v) (fv_strings_offset v) (string_block names) \<and> list_all (\<lambda>s. 0 \<notin> set s) names"

lemma holds_at_trans: "holds_at bytes n xs \<Longrightarrow> holds_at xs m ys \<Longrightarrow> holds_at bytes (n + m) ys"
proof -
  assume h: "holds_at bytes n xs" and k: "holds_at xs m ys"
  have "take (length ys) (drop m (take (length xs) (drop n bytes))) = ys" using h k by (simp add: holds_at_def)
  moreover have "length ys \<le> length xs - m" using k unfolding holds_at_def by arith
  ultimately have "take (length ys) (drop (n + m) bytes) = ys" by (simp add: drop_take min_absorb1 add.commute)
  then show ?thesis using h k by (simp add: holds_at_def)
qed

lemma view_property_name:
  assumes "view_has v names" "s \<in> set names"
  shows "name_offset names s < fv_strings_size v"
    "bounded_c_string (fv_blob v) (fv_strings_offset v + name_offset names s) (fv_strings_end v) = Some s"
proof -
  have h: "name_offset names s < length (string_block names)" "holds_at (string_block names) (name_offset names s) (s @ [0])"
    using name_offset_holds [OF assms(2)] by auto
  show "name_offset names s < fv_strings_size v" using h(1) assms(1) by (simp add: view_has_def)
  have "holds_at (fv_blob v) (fv_strings_offset v + name_offset names s) (s @ [0])"
    using assms(1) h(2) holds_at_trans unfolding view_has_def by blast
  moreover have "0 \<notin> set s" using assms by (auto simp: view_has_def list_all_iff)
  moreover have "fv_strings_offset v + name_offset names s + length s < fv_strings_end v"
    using h(2) assms(1) by (auto simp: holds_at_def view_has_def fv_strings_end_def)
  ultimately show "bounded_c_string (fv_blob v) (fv_strings_offset v + name_offset names s) (fv_strings_end v) = Some s"
    using bounded_c_string_holds assms(1) by (simp add: view_has_def)
qed

text \<open>What follows the events of a segment: the walk goes on behind it, or has stopped successfully.\<close>

definition walk_then :: "FdtView \<Rightarrow> 'c FdtCallbacks \<Rightarrow> nat \<Rightarrow> nat \<Rightarrow> bool \<times> 'c \<Rightarrow> unit result \<times> 'c" where
  "walk_then v cb cursor depth r =
     (case r of (go, ctx) \<Rightarrow> if go then fdt_walk_from v cb cursor depth ctx else (Inr (), ctx))"

lemma walk_then_seq:
  "(\<And>ctx. fdt_walk_from v cb n d ctx = walk_then v cb m e (run_events cb ys ctx)) \<Longrightarrow>
   walk_then v cb n d (run_events cb xs ctx) = walk_then v cb m e (run_events cb (xs @ ys) ctx)"
  by (simp add: walk_then_def run_events_append split: prod.split)

lemma walk_begin:
  assumes "holds_at (fv_blob v) cursor (be32 token_begin_node @ pad4 (name @ [0]))" "0 \<notin> set name"
    "cursor + 4 + align4 (length name + 1) \<le> fv_structure_end v" "fv_structure_end v \<le> length (fv_blob v)"
  shows "fdt_walk_from v cb cursor depth ctx =
    walk_then v cb (cursor + 4 + align4 (length name + 1)) (depth + 1) (run_events cb [BeginNode name depth] ctx)"
proof -
  have "holds_at (fv_blob v) (cursor + 4) (name @ [0])"
    using assms(1) unfolding pad4_def holds_at_append by (simp add: add.assoc)
  moreover have "cursor + 4 + length name < fv_structure_end v"
    using assms(3) align4_facts(1) [of "length name + 1"] by arith
  ultimately have "bounded_c_string (fv_blob v) (cursor + 4) (fv_structure_end v) = Some name"
    using bounded_c_string_holds assms(2,4) by blast
  moreover have "read_be32 (fv_blob v) cursor = Some token_begin_node"
    using assms(1) read_be32_holds by simp
  moreover have "cursor < fv_structure_end v" "\<not> (cursor + 4 > fv_structure_end v)"
    "\<not> align4 (length name + 1) > fv_structure_end v - (cursor + 4)" using assms(3) by arith+
  ultimately show ?thesis
    by (subst fdt_walk_from.simps) (simp add: walk_then_def run_events_single del: run_events.simps split: option.split prod.split)
qed

lemma walk_end:
  assumes "holds_at (fv_blob v) cursor (be32 token_end_node)" "cursor < fv_structure_end v"
  shows "fdt_walk_from v cb cursor (depth + 1) ctx = walk_then v cb (cursor + 4) depth (run_events cb [EndNode depth] ctx)"
  using assms read_be32_holds [OF assms(1)]
  by (subst fdt_walk_from.simps) (simp add: walk_then_def run_events_single del: run_events.simps split: option.split prod.split)

lemma walk_property:
  assumes "holds_at (fv_blob v) cursor (enc_property names p)" "fst p \<in> set names" "view_has v names"
    "cursor + 12 + align4 (length (snd p)) \<le> fv_structure_end v"
  shows "fdt_walk_from v cb cursor (depth + 1) ctx =
    walk_then v cb (cursor + 12 + align4 (length (snd p))) (depth + 1) (run_events cb [Property (fst p) (snd p) depth] ctx)"
proof -
  have len: "length (snd p) < 2 ^ 32" "name_offset names (fst p) < 2 ^ 32"
    using assms(3,4) align4_facts(1) [of "length (snd p)"] view_property_name(1) [OF assms(3,2)]
    unfolding view_has_def fv_strings_end_def by arith+
  then have un: "unat (of_nat (length (snd p)) :: u32) = length (snd p)"
    "unat (of_nat (name_offset names (fst p)) :: u32) = name_offset names (fst p)"
    by (simp_all add: unat_of_nat)
  have r: "read_be32 (fv_blob v) cursor = Some token_property"
    "read_be32 (fv_blob v) (cursor + 4) = Some (of_nat (length (snd p)))"
    "read_be32 (fv_blob v) (cursor + 8) = Some (of_nat (name_offset names (fst p)))"
    using assms(1) by (simp_all add: enc_property_def read_be32_holds add.assoc)
  have "holds_at (fv_blob v) (cursor + 12) (snd p)"
    using assms(1) by (simp add: enc_property_def pad4_def add.assoc)
  then have val: "take (length (snd p)) (drop (cursor + 12) (fv_blob v)) = snd p" by (simp add: holds_at_def)
  have b: "cursor < fv_structure_end v" "\<not> cursor + 4 > fv_structure_end v" "\<not> fv_structure_end v - (cursor + 4) < 8"
    "\<not> length (snd p) > fv_structure_end v - (cursor + 12)" "\<not> align4 (length (snd p)) > fv_structure_end v - (cursor + 12)"
    using assms(4) align4_facts(1) [of "length (snd p)"] by arith+
  show ?thesis
    using b view_property_name [OF assms(3,2)]
    by (subst fdt_walk_from.simps) (simp add: r un val walk_then_def run_events_single del: run_events.simps split: option.split prod.split)
qed

lemma walk_properties:
  "holds_at (fv_blob v) cursor (concat (map (enc_property names) ps)) \<Longrightarrow> list_all (\<lambda>p. fst p \<in> set names) ps \<Longrightarrow>
   view_has v names \<Longrightarrow> cursor + length (concat (map (enc_property names) ps)) \<le> fv_structure_end v \<Longrightarrow>
   fdt_walk_from v cb cursor (depth + 1) ctx =
     walk_then v cb (cursor + length (concat (map (enc_property names) ps))) (depth + 1)
       (run_events cb (map (\<lambda>p. Property (fst p) (snd p) depth) ps) ctx)"
proof (induction ps arbitrary: cursor ctx)
  case Nil then show ?case by (simp add: walk_then_def)
next
  case (Cons p ps)
  have h: "holds_at (fv_blob v) cursor (enc_property names p)"
    "holds_at (fv_blob v) (cursor + (12 + align4 (length (snd p)))) (concat (map (enc_property names) ps))"
    using Cons.prems(1) by (simp_all add: length_enc_property)
  have IH: "fdt_walk_from v cb (cursor + 12 + align4 (length (snd p))) (depth + 1) ctx' =
     walk_then v cb (cursor + 12 + align4 (length (snd p)) + length (concat (map (enc_property names) ps))) (depth + 1)
       (run_events cb (map (\<lambda>p. Property (fst p) (snd p) depth) ps) ctx')" for ctx'
    using Cons.IH [of "cursor + 12 + align4 (length (snd p))"] h(2) Cons.prems
    by (simp add: length_enc_property add.assoc)
  have "cursor + 12 + align4 (length (snd p)) \<le> fv_structure_end v" using Cons.prems(4) by (simp add: length_enc_property)
  with walk_property [OF h(1) _ Cons.prems(3)] Cons.prems(2)
  have "fdt_walk_from v cb cursor (depth + 1) ctx =
    walk_then v cb (cursor + 12 + align4 (length (snd p))) (depth + 1) (run_events cb [Property (fst p) (snd p) depth] ctx)"
    by (simp del: run_events.simps)
  also note walk_then_seq [OF IH]
  finally show ?case by (simp add: length_enc_property add.assoc del: run_events.simps)
qed

text \<open>A forest is walked node by node, once each of its trees is walked as its events.\<close>

lemma walk_forest:
  "(\<And>t cursor ctx. t \<in> set cs \<Longrightarrow> holds_at (fv_blob v) cursor (enc_node names t) \<Longrightarrow>
      cursor + length (enc_node names t) \<le> fv_structure_end v \<Longrightarrow>
      fdt_walk_from v cb cursor depth ctx =
        walk_then v cb (cursor + length (enc_node names t)) depth (run_events cb (tree_events depth t) ctx)) \<Longrightarrow>
   holds_at (fv_blob v) cursor (concat (map (enc_node names) cs)) \<Longrightarrow>
   cursor + length (concat (map (enc_node names) cs)) \<le> fv_structure_end v \<Longrightarrow>
   fdt_walk_from v cb cursor depth ctx =
     walk_then v cb (cursor + length (concat (map (enc_node names) cs))) depth
       (run_events cb (concat (map (tree_events depth) cs)) ctx)"
proof (induction cs arbitrary: cursor ctx)
  case Nil then show ?case by (simp add: walk_then_def)
next
  case (Cons t cs)
  have head: "fdt_walk_from v cb cursor depth ctx =
        walk_then v cb (cursor + length (enc_node names t)) depth (run_events cb (tree_events depth t) ctx)"
    using Cons.prems(2,3) by (intro Cons.prems(1)) simp_all
  have tail: "fdt_walk_from v cb (cursor + length (enc_node names t)) depth ctx' =
     walk_then v cb (cursor + length (enc_node names t) + length (concat (map (enc_node names) cs))) depth
       (run_events cb (concat (map (tree_events depth) cs)) ctx')" for ctx'
    using Cons.prems(2,3) by (intro Cons.IH Cons.prems(1)) simp_all
  note head also note walk_then_seq [OF tail]
  finally show ?case by (simp add: add.assoc)
qed

lemma walk_node:
  "holds_at (fv_blob v) cursor (enc_node names t) \<Longrightarrow> dt_ok names t \<Longrightarrow> view_has v names \<Longrightarrow>
   cursor + length (enc_node names t) \<le> fv_structure_end v \<Longrightarrow>
   fdt_walk_from v cb cursor depth ctx =
     walk_then v cb (cursor + length (enc_node names t)) depth (run_events cb (tree_events depth t) ctx)"
proof (induction t arbitrary: cursor depth ctx)
  case (DtNode name ps cs)
  let ?n = "cursor + 4 + align4 (length name + 1)"
  let ?p = "?n + length (concat (map (enc_property names) ps))"
  let ?c = "?p + length (concat (map (enc_node names) cs))"
  have h: "holds_at (fv_blob v) cursor (be32 token_begin_node @ pad4 (name @ [0]))"
    "holds_at (fv_blob v) ?n (concat (map (enc_property names) ps))"
    "holds_at (fv_blob v) ?p (concat (map (enc_node names) cs))"
    "holds_at (fv_blob v) ?c (be32 token_end_node)"
    using DtNode.prems(1) by (simp_all add: add.assoc)
  have le: "?c + 4 \<le> fv_structure_end v" using DtNode.prems(4) by simp
  have ok: "0 \<notin> set name" "list_all (\<lambda>p. fst p \<in> set names) ps" "list_all (dt_ok names) cs"
    using DtNode.prems(2) by simp_all
  have 1: "fdt_walk_from v cb cursor depth ctx = walk_then v cb ?n (depth + 1) (run_events cb [BeginNode name depth] ctx)"
    using walk_begin [OF h(1) ok(1)] le DtNode.prems(3) by (simp add: view_has_def)
  have 2: "fdt_walk_from v cb ?n (depth + 1) ctx' =
      walk_then v cb ?p (depth + 1) (run_events cb (map (\<lambda>p. Property (fst p) (snd p) depth) ps) ctx')" for ctx'
    using walk_properties [OF h(2) ok(2) DtNode.prems(3)] le by simp
  have 3: "fdt_walk_from v cb ?p (depth + 1) ctx' =
      walk_then v cb ?c (depth + 1) (run_events cb (concat (map (tree_events (depth + 1)) cs)) ctx')" for ctx'
    using le ok(3) DtNode.IH DtNode.prems(3) by (intro walk_forest [OF _ h(3)]) (auto simp: list_all_iff)
  have 4: "fdt_walk_from v cb ?c (depth + 1) ctx' = walk_then v cb (?c + 4) depth (run_events cb [EndNode depth] ctx')" for ctx'
    using walk_end [OF h(4)] le by simp
  note 1 also note walk_then_seq [OF 2] also note walk_then_seq [OF 3] also note walk_then_seq [OF 4]
  finally show ?case by (simp add: add.assoc del: run_events.simps)
qed

section \<open>Parsing a serialised tree\<close>

lemma check_reservations_holds:
  "holds_at blob cursor (enc_reservations rs) \<Longrightarrow> list_all reservation_ok rs \<Longrightarrow>
   limit = cursor + length (enc_reservations rs) \<Longrightarrow> fdt_check_reservations blob limit cursor = Inr ()"
proof (induction rs arbitrary: cursor)
  case Nil
  then have "read_be64 blob cursor = Some 0" "read_be64 blob (cursor + 8) = Some 0" "limit = cursor + 16"
    by (simp_all add: enc_reservations_def read_be64_holds)
  then show ?case by (subst fdt_check_reservations.simps) simp
next
  case (Cons r rs)
  obtain addr extent where r: "r = (addr, extent)" by (cases r)
  have ok: "extent \<noteq> 0" "\<not> addr > - 1 - (extent - 1)"
    using Cons.prems(2) by (simp_all add: r reservation_ok_def linorder_not_less)
  have h: "read_be64 blob cursor = Some addr" "read_be64 blob (cursor + 8) = Some extent"
    "holds_at blob (cursor + 16) (enc_reservations rs)"
    using Cons.prems(1) by (simp_all add: r enc_reservations_def read_be64_holds add.assoc)
  have "limit = cursor + 16 + length (enc_reservations rs)" using Cons.prems(3) by (simp add: enc_reservations_def r)
  with Cons.IH [OF h(3)] Cons.prems(2) have "fdt_check_reservations blob limit (cursor + 16) = Inr ()" by simp
  moreover have "cursor < limit" "\<not> limit - cursor < 16" using Cons.prems(3) by (simp_all add: enc_reservations_def r)
  ultimately show ?case using h(1,2) ok by (subst fdt_check_reservations.simps) simp
qed

lemma reservations_from_holds:
  "holds_at (fv_blob v) cursor (enc_reservations rs) \<Longrightarrow> list_all reservation_ok rs \<Longrightarrow>
   fv_structure_offset v = cursor + length (enc_reservations rs) \<Longrightarrow>
   fdt_reservations_from v callback cursor ctx = (Inr (), run_reservations callback rs ctx)"
proof (induction rs arbitrary: cursor ctx)
  case Nil
  then have "read_be64 (fv_blob v) cursor = Some 0" "read_be64 (fv_blob v) (cursor + 8) = Some 0"
    "fv_structure_offset v = cursor + 16"
    by (simp_all add: enc_reservations_def read_be64_holds)
  then show ?case by (subst fdt_reservations_from.simps) simp
next
  case (Cons r rs)
  obtain addr extent where r: "r = (addr, extent)" by (cases r)
  have ok: "extent \<noteq> 0" "\<not> addr > - 1 - (extent - 1)"
    using Cons.prems(2) by (simp_all add: r reservation_ok_def linorder_not_less)
  have h: "read_be64 (fv_blob v) cursor = Some addr" "read_be64 (fv_blob v) (cursor + 8) = Some extent"
    "holds_at (fv_blob v) (cursor + 16) (enc_reservations rs)"
    using Cons.prems(1) by (simp_all add: r enc_reservations_def read_be64_holds add.assoc)
  have "fv_structure_offset v = cursor + 16 + length (enc_reservations rs)"
    using Cons.prems(3) by (simp add: enc_reservations_def r)
  with Cons.IH [OF h(3)] Cons.prems(2)
  have "fdt_reservations_from v callback (cursor + 16) ctx' = (Inr (), run_reservations callback rs ctx')" for ctx' by simp
  moreover have "cursor < fv_structure_offset v" "\<not> fv_structure_offset v - cursor < 16"
    using Cons.prems(3) by (simp_all add: enc_reservations_def r)
  ultimately show ?case using h(1,2) ok
    by (subst fdt_reservations_from.simps) (simp add: r split: prod.split)
qed

lemma length_enc_reservations: "length (enc_reservations rs) = 16 * length rs + 16"
  by (induction rs) (auto simp: enc_reservations_def)

lemma enc_node_aligned: "length (enc_node names t) mod 4 = 0"
proof (induction t)
  case (DtNode name ps cs)
  have "length (concat (map (enc_property names) ps)) mod 4 = 0"
  proof (induction ps)
    case (Cons p ps)
    have "(12 + align4 (length (snd p))) mod 4 = 0" using align4_facts(2) [of "length (snd p)"] by presburger
    with Cons show ?case by (simp add: length_enc_property mod_add_eq [symmetric])
  qed simp
  moreover have "length (concat (map (enc_node names) cs)) mod 4 = 0"
    using DtNode.IH by (induction cs) (simp_all add: mod_add_eq [symmetric])
  ultimately show ?case using align4_facts(2) [of "length name + 1"]
    by (simp add: mod_eq_0_iff_dvd)
qed

definition fdt_image_view :: "(u64 \<times> u64) list \<Rightarrow> bytes list \<Rightarrow> DtNode \<Rightarrow> FdtView" where
  "fdt_image_view rs names t =
     \<lparr>fv_blob = fdt_image rs names t, fv_total_size = length (fdt_image rs names t), fv_reservation_offset = 40,
      fv_structure_offset = 40 + length (enc_reservations rs), fv_structure_size = length (enc_node names t) + 4,
      fv_strings_offset = 44 + length (enc_reservations rs) + length (enc_node names t),
      fv_strings_size = length (string_block names), fv_version = 17\<rparr>"

lemma length_fdt_image: "length (fdt_image rs names t) =
  44 + length (enc_reservations rs) + length (enc_node names t) + length (string_block names)"
  by (simp add: fdt_image_def Let_def)

lemma fdt_image_holds:
  "holds_at (fdt_image rs names t) 40 (enc_reservations rs)"
  "holds_at (fdt_image rs names t) (40 + length (enc_reservations rs)) (enc_node names t)"
  "holds_at (fdt_image rs names t) (40 + length (enc_reservations rs) + length (enc_node names t)) (be32 token_end)"
  "holds_at (fdt_image rs names t) (44 + length (enc_reservations rs) + length (enc_node names t)) (string_block names)"
proof -
  have "holds_at (fdt_image rs names t) 0 (fdt_image rs names t)" by (simp add: holds_at_def)
  then show "holds_at (fdt_image rs names t) 40 (enc_reservations rs)"
    "holds_at (fdt_image rs names t) (40 + length (enc_reservations rs)) (enc_node names t)"
    "holds_at (fdt_image rs names t) (40 + length (enc_reservations rs) + length (enc_node names t)) (be32 token_end)"
    "holds_at (fdt_image rs names t) (44 + length (enc_reservations rs) + length (enc_node names t)) (string_block names)"
    by (subst (asm) (2) fdt_image_def, simp add: Let_def add.assoc add.left_commute [of _ 40] add.commute [of _ 40])+
qed

lemma holds_at_prefix: "holds_at bytes n xs \<Longrightarrow> holds_at (bytes @ rest) n xs"
  by (simp add: holds_at_def)

lemma fdt_image_header:
  defines "b \<equiv> \<lambda>rs names t rest. fdt_image rs names t @ rest"
  shows "read_be32 (b rs names t rest) 0 = Some fdt_magic"
    "read_be32 (b rs names t rest) 4 = Some (of_nat (length (fdt_image rs names t)))"
    "read_be32 (b rs names t rest) 8 = Some (of_nat (40 + length (enc_reservations rs)))"
    "read_be32 (b rs names t rest) 12 = Some (of_nat (44 + length (enc_reservations rs) + length (enc_node names t)))"
    "read_be32 (b rs names t rest) 16 = Some 40" "read_be32 (b rs names t rest) 20 = Some 17"
    "read_be32 (b rs names t rest) 24 = Some 16"
    "read_be32 (b rs names t rest) 32 = Some (of_nat (length (string_block names)))"
    "read_be32 (b rs names t rest) 36 = Some (of_nat (length (enc_node names t) + 4))"
proof -
  have "holds_at (b rs names t rest) 0 (fdt_image rs names t)" by (simp add: b_def holds_at_def)
  then have h: "holds_at (b rs names t rest) 0 (be32 fdt_magic)"
    "holds_at (b rs names t rest) 4 (be32 (of_nat (length (fdt_image rs names t))))"
    "holds_at (b rs names t rest) 8 (be32 (of_nat (40 + length (enc_reservations rs))))"
    "holds_at (b rs names t rest) 12 (be32 (of_nat (44 + length (enc_reservations rs) + length (enc_node names t))))"
    "holds_at (b rs names t rest) 16 (be32 40)" "holds_at (b rs names t rest) 20 (be32 17)"
    "holds_at (b rs names t rest) 24 (be32 16)"
    "holds_at (b rs names t rest) 32 (be32 (of_nat (length (string_block names))))"
    "holds_at (b rs names t rest) 36 (be32 (of_nat (length (enc_node names t) + 4)))"
    by (simp_all add: length_fdt_image) (simp_all add: fdt_image_def Let_def add_ac)
  show "read_be32 (b rs names t rest) 0 = Some fdt_magic"
    "read_be32 (b rs names t rest) 4 = Some (of_nat (length (fdt_image rs names t)))"
    "read_be32 (b rs names t rest) 8 = Some (of_nat (40 + length (enc_reservations rs)))"
    "read_be32 (b rs names t rest) 12 = Some (of_nat (44 + length (enc_reservations rs) + length (enc_node names t)))"
    "read_be32 (b rs names t rest) 16 = Some 40" "read_be32 (b rs names t rest) 20 = Some 17"
    "read_be32 (b rs names t rest) 24 = Some 16"
    "read_be32 (b rs names t rest) 32 = Some (of_nat (length (string_block names)))"
    "read_be32 (b rs names t rest) 36 = Some (of_nat (length (enc_node names t) + 4))"
    by (rule read_be32_holds, rule h)+
qed

lemma word_and_low_zero:
  fixes w :: u32
  shows "w AND 3 = 0 \<longleftrightarrow> unat w mod 4 = 0" "w AND 7 = 0 \<longleftrightarrow> unat w mod 8 = 0"
proof -
  have "w AND 3 = take_bit 2 w" "w AND 7 = take_bit 3 w" by (simp_all add: take_bit_eq_mask mask_eq_exp_minus_1)
  moreover have "unat (take_bit 2 w) = unat w mod 4" "unat (take_bit 3 w) = unat w mod 8"
    by (simp_all add: take_bit_eq_mod unat_mod)
  ultimately show "w AND 3 = 0 \<longleftrightarrow> unat w mod 4 = 0" "w AND 7 = 0 \<longleftrightarrow> unat w mod 8 = 0"
    by (metis unat_0 unat_eq_zero)+
qed

lemma fdt_parse_image:
  assumes len: "length (fdt_image rs names t) < 2 ^ 32" and rs: "list_all reservation_ok rs"
  shows "fdt_parse (fdt_image rs names t @ rest) = Inr (fdt_image_view rs names t)"
proof -
  let ?so = "40 + length (enc_reservations rs)"
  let ?st = "44 + length (enc_reservations rs) + length (enc_node names t)"
  have u: "unat (of_nat n :: u32) = n" if "n \<le> length (fdt_image rs names t)" for n
    using that len by (simp add: unat_of_nat)
  have un: "unat (of_nat (length (fdt_image rs names t)) :: u32) = length (fdt_image rs names t)"
    "unat (of_nat ?so :: u32) = ?so" "unat (of_nat ?st :: u32) = ?st"
    "unat (of_nat (length (string_block names)) :: u32) = length (string_block names)"
    "unat (of_nat (length (enc_node names t) + 4) :: u32) = length (enc_node names t) + 4"
    by (rule u, simp add: length_fdt_image)+
  have sum: "of_nat ?so + of_nat (length (enc_node names t) + 4) = (of_nat ?st :: u32)" by simp
  have lt: "\<not> of_nat ?so \<le> (40 :: u32)"
    unfolding word_le_nat_alt un by (simp add: length_enc_reservations)
  have "?so mod 4 = 0" by (simp only: length_enc_reservations) presburger
  then have low: "of_nat ?so AND 3 = (0 :: u32)" "(40 :: u32) AND 7 = 0"
    by (simp only: word_and_low_zero un, simp)
  have b: "bounded_range ?so (length (enc_node names t) + 4) (length (fdt_image rs names t))"
    "bounded_range ?st (length (string_block names)) (length (fdt_image rs names t))"
    "40 \<le> length (fdt_image rs names t)"
    by (simp_all add: bounded_range_def length_fdt_image)
  have chk: "fdt_check_reservations (fdt_image rs names t @ rest) ?so 40 = Inr ()"
    using holds_at_prefix [OF fdt_image_holds(1)] rs by (intro check_reservations_holds) simp_all
  show ?thesis
    unfolding fdt_parse_def fdt_image_header option.case prod.case un sum
    using b chk lt low by (simp add: fdt_image_view_def)
qed

lemma fdt_image_view_has:
  assumes "length (fdt_image rs names t) < 2 ^ 32" "list_all (\<lambda>s. 0 \<notin> set s) names"
  shows "view_has (fdt_image_view rs names t) names"
  using assms fdt_image_holds(4) [of rs names t]
  by (simp add: view_has_def fdt_image_view_def fv_structure_end_def fv_strings_end_def length_fdt_image)

lemma fdt_image_reservations:
  assumes "list_all reservation_ok rs"
  shows "fdt_walk_reservations (fdt_image_view rs names t) rcb ctx = (Inr (), run_reservations rcb rs ctx)"
  unfolding fdt_walk_reservations_def using fdt_image_holds(1) [of rs names t] assms
  by (intro reservations_from_holds) (simp_all add: fdt_image_view_def)

lemma fdt_image_walk:
  assumes "length (fdt_image rs names t) < 2 ^ 32" "list_all (\<lambda>s. 0 \<notin> set s) names" "dt_ok names t"
  shows "fdt_walk (fdt_image_view rs names t) cb ctx = (Inr (), snd (run_events cb (tree_events 0 t) ctx))"
proof -
  let ?v = "fdt_image_view rs names t"
  let ?e = "40 + length (enc_reservations rs) + length (enc_node names t)"
  have "fdt_walk ?v cb ctx = walk_then ?v cb ?e 0 (run_events cb (tree_events 0 t) ctx)"
    unfolding fdt_walk_def
    using walk_node [of ?v "40 + length (enc_reservations rs)" names t cb 0 ctx] assms(3)
      fdt_image_view_has [OF assms(1,2)] fdt_image_holds(2) [of rs names t]
    by (simp add: fdt_image_view_def fv_structure_end_def)
  moreover have "fdt_walk_from ?v cb ?e 0 c = (Inr (), c)" for c
    using read_be32_holds [OF fdt_image_holds(3), of rs names t]
    by (subst fdt_walk_from.simps) (simp add: fdt_image_view_def fv_structure_end_def)
  ultimately show ?thesis by (simp add: walk_then_def split: prod.split)
qed

text \<open>C19: A device tree survives the blob.  Take any tree of nodes with names free of zero bytes, whose property names
  are all in a strings block, any list of valid reservations, and any bytes behind the image: the image
  (version 17, below 4 GiB) parses, the walk of its reservation block calls back for exactly the reservations, in order,
  and the walk of its structure block calls back for exactly the nodes and properties of the tree, in document
  order with their depths, both until a callback asks to stop, and both succeed.\<close>

theorem fdt_round_trip:
  fixes rcb :: "('c \<Rightarrow> u64 \<Rightarrow> u64 \<Rightarrow> bool \<times> 'c) option" and cb :: "'c FdtCallbacks"
  assumes "length (fdt_image rs names t) < 2 ^ 32" "list_all reservation_ok rs"
    "list_all (\<lambda>s. 0 \<notin> set s) names" "dt_ok names t"
  shows "\<exists>v. fdt_parse (fdt_image rs names t @ rest) = Inr v \<and>
    fdt_walk_reservations v rcb ctx = (Inr (), run_reservations rcb rs ctx) \<and>
    fdt_walk v cb ctx' = (Inr (), snd (run_events cb (tree_events 0 t) ctx'))"
  by (intro exI conjI, rule fdt_parse_image [OF assms(1,2)], rule fdt_image_reservations [OF assms(2)],
      rule fdt_image_walk [OF assms(1,3,4)])

definition recording :: "FdtEvent list FdtCallbacks" where
  "recording = \<lparr>cb_begin_node = Some (\<lambda>es name depth. (True, es @ [BeginNode name depth])),
     cb_property = Some (\<lambda>es name val depth. (True, es @ [Property name val depth])),
     cb_end_node = Some (\<lambda>es depth. (True, es @ [EndNode depth]))\<rparr>"

theorem fdt_round_trip_witness:
  "\<exists>v. fdt_parse (fdt_image [(16, 32)] [[97]] (DtNode [] [([97], [1, 2, 3])] [DtNode [98] [] []]) @ [7]) = Inr v \<and>
     fdt_walk_reservations v None ([] :: FdtEvent list) = (Inr (), []) \<and>
     fdt_walk v recording [] =
       (Inr (), [BeginNode [] 0, Property [97] [1, 2, 3] 0, BeginNode [98] 1, EndNode 1, EndNode 0])"
proof -
  have "length (fdt_image [(16, 32)] [[97]] (DtNode [] [([97], [1, 2, 3])] [DtNode [98] [] []])) < 2 ^ 32"
    by (simp add: length_fdt_image length_enc_reservations length_enc_property string_block_def align4_def)
  moreover have "list_all reservation_ok [(16, 32)]" by (simp add: reservation_ok_def)
  ultimately show ?thesis
    using fdt_round_trip [of "[(16, 32)]" "[[97]]" "DtNode [] [([97], [1, 2, 3])] [DtNode [98] [] []]" "[7]" None "[]" recording "[]"]
    by (simp add: recording_def)
qed

end
