(* ===== verification/Hardware_Inventory.thy ===== *)
theory Hardware_Inventory
  imports Device_Tree
begin

text \<open>
  The inventory the kernel takes of its machine before it has a heap: hardware_inventory.hpp/.cpp of src/core/oskernel.
  Fixed arrays are lists that keep their length, counts are natural numbers, a \<open>char\<close> is its byte.  The callbacks
  are functions on the discovery context, given to the walkers of \<^theory_text>\<open>Device_Tree\<close>.

  The lemmas show that an inventory that is returned is well formed and holds every reservation of the reservation block,
  and that the walk over an array of levels computes the recursive scan of the tree.
\<close>

section \<open>Ranges, devices and the inventory\<close>

abbreviation "inv_unsupported_cells \<equiv> kernel_error 70"
abbreviation "inv_malformed_reg \<equiv> kernel_error 71"
abbreviation "inv_depth_exhausted \<equiv> kernel_error 72"
abbreviation "inv_inventory_exhausted \<equiv> kernel_error 73"
abbreviation "inv_invalid_property \<equiv> kernel_error 74"

record HardwareRange =
  hr_base :: u64
  hr_size :: u64

definition hr_valid :: "HardwareRange \<Rightarrow> bool" where
  "hr_valid r \<longleftrightarrow> hr_size r \<noteq> 0 \<and> hr_base r \<le> - 1 - (hr_size r - 1)"

definition hr_end_exclusive :: "HardwareRange \<Rightarrow> u64" where
  "hr_end_exclusive r = (if hr_valid r then hr_base r + hr_size r else 0)"

abbreviation hr_empty :: HardwareRange where "hr_empty \<equiv> \<lparr>hr_base = 0, hr_size = 0\<rparr>"

abbreviation max_compatible_bytes :: nat where "max_compatible_bytes \<equiv> 64"

record DiscoveredDevice =
  dd_compatible :: bytes
  dd_compatible_size :: u8
  dd_registers :: HardwareRange

definition dd_empty :: DiscoveredDevice where
  "dd_empty = \<lparr>dd_compatible = replicate 64 0, dd_compatible_size = 0, dd_registers = hr_empty\<rparr>"

definition dd_compatible_view :: "DiscoveredDevice \<Rightarrow> bytes" where
  "dd_compatible_view d = take (unat (dd_compatible_size d)) (dd_compatible d)"

definition dd_valid :: "DiscoveredDevice \<Rightarrow> bool" where
  "dd_valid d \<longleftrightarrow> dd_compatible_size d \<noteq> 0 \<and> hr_valid (dd_registers d)"

abbreviation max_memory_regions :: nat where "max_memory_regions \<equiv> 8"
abbreviation max_reserved_regions :: nat where "max_reserved_regions \<equiv> 16"
abbreviation max_devices :: nat where "max_devices \<equiv> 64"

record HardwareInventory =
  hi_memory :: "HardwareRange list"
  hi_memory_count :: nat
  hi_reserved :: "HardwareRange list"
  hi_reserved_count :: nat
  hi_devices :: "DiscoveredDevice list"
  hi_devices_truncated :: bool
  hi_device_count :: nat

definition hi_empty :: HardwareInventory where
  "hi_empty = \<lparr>hi_memory = replicate 8 hr_empty, hi_memory_count = 0, hi_reserved = replicate 16 hr_empty,
     hi_reserved_count = 0, hi_devices = replicate 64 dd_empty, hi_devices_truncated = False, hi_device_count = 0\<rparr>"

section \<open>The discovery context\<close>

text \<open>The loop of \<open>read_cells\<close> over the words of a cell.\<close>

fun read_cells_from :: "bytes \<Rightarrow> nat \<Rightarrow> nat \<Rightarrow> u64 \<Rightarrow> u64 option" where
  "read_cells_from bytes offset 0 out = Some out"
| "read_cells_from bytes offset (Suc cells) out =
     (case read_be32 bytes offset of None \<Rightarrow> None
      | Some w \<Rightarrow> read_cells_from bytes (offset + 4) cells (push_bit 32 out OR ucast w))"

definition read_cells :: "bytes \<Rightarrow> nat \<Rightarrow> u8 \<Rightarrow> u64 option" where
  "read_cells bytes offset cells =
     (if cells = 0 \<or> cells > 2 then None
      else if offset > length bytes \<or> unat cells * 4 > length bytes - offset then None
      else read_cells_from bytes offset (unat cells) 0)"

record NodeState =
  ns_child_address_cells :: u8
  ns_child_size_cells :: u8
  ns_parent_address_cells :: u8
  ns_parent_size_cells :: u8
  ns_memory :: bool
  ns_reserved_memory_root :: bool
  ns_inside_reserved_memory :: bool
  ns_has_reg :: bool
  ns_first_reg :: HardwareRange
  ns_compatible :: bytes
  ns_compatible_size :: u8

definition ns_default :: NodeState where
  "ns_default = \<lparr>ns_child_address_cells = 2, ns_child_size_cells = 1, ns_parent_address_cells = 2,
     ns_parent_size_cells = 1, ns_memory = False, ns_reserved_memory_root = False, ns_inside_reserved_memory = False,
     ns_has_reg = False, ns_first_reg = hr_empty, ns_compatible = replicate 64 0, ns_compatible_size = 0\<rparr>"

abbreviation max_depth :: nat where "max_depth \<equiv> 16"

record DiscoveryContext =
  dc_inventory :: HardwareInventory
  dc_nodes :: "NodeState list"
  dc_error :: Error
  dc_failed :: bool

definition dc_start :: DiscoveryContext where
  "dc_start = \<lparr>dc_inventory = hi_empty, dc_nodes = replicate 16 ns_default, dc_error = make_error dom_core 0,
     dc_failed = False\<rparr>"

definition dc_fail :: "DiscoveryContext \<Rightarrow> Error \<Rightarrow> DiscoveryContext" where
  "dc_fail c e = (if \<not> dc_failed c then c\<lparr>dc_error := e, dc_failed := True\<rparr> else c)"

definition dc_add_reserved :: "DiscoveryContext \<Rightarrow> HardwareRange \<Rightarrow> bool \<times> DiscoveryContext" where
  "dc_add_reserved c rng =
     (if \<not> hr_valid rng then (False, dc_fail c inv_malformed_reg)
      else if hi_reserved_count (dc_inventory c) \<ge> max_reserved_regions then (False, dc_fail c inv_inventory_exhausted)
      else (True, c\<lparr>dc_inventory := (dc_inventory c)
             \<lparr>hi_reserved := (hi_reserved (dc_inventory c))[hi_reserved_count (dc_inventory c) := rng],
              hi_reserved_count := hi_reserved_count (dc_inventory c) + 1\<rparr>\<rparr>))"

definition dc_reservation :: "DiscoveryContext \<Rightarrow> u64 \<Rightarrow> u64 \<Rightarrow> bool \<times> DiscoveryContext" where
  "dc_reservation c addr extent = dc_add_reserved c \<lparr>hr_base = addr, hr_size = extent\<rparr>"

section \<open>The callbacks\<close>

text \<open>The bytes of a string literal.\<close>

definition str :: "string \<Rightarrow> bytes" where
  "str s = map of_char s"

definition dc_begin_node :: "DiscoveryContext \<Rightarrow> bytes \<Rightarrow> nat \<Rightarrow> bool \<times> DiscoveryContext" where
  "dc_begin_node c name depth =
     (if depth \<ge> max_depth then (False, dc_fail c inv_depth_exhausted)
      else let state = (if depth \<noteq> 0
                 then let parent = dc_nodes c ! (depth - 1)
                      in ns_default\<lparr>ns_parent_address_cells := ns_child_address_cells parent,
                           ns_parent_size_cells := ns_child_size_cells parent,
                           ns_child_address_cells := ns_child_address_cells parent,
                           ns_child_size_cells := ns_child_size_cells parent,
                           ns_inside_reserved_memory := ns_reserved_memory_root parent \<or> ns_inside_reserved_memory parent\<rparr>
                 else ns_default);
               state = (if depth = 1 \<and> name = str ''reserved-memory'' then state\<lparr>ns_reserved_memory_root := True\<rparr> else state)
           in (True, c\<lparr>dc_nodes := (dc_nodes c)[depth := state]\<rparr>))"

definition dc_property :: "DiscoveryContext \<Rightarrow> bytes \<Rightarrow> bytes \<Rightarrow> nat \<Rightarrow> bool \<times> DiscoveryContext" where
  "dc_property c name val depth =
     (if depth \<ge> max_depth then (False, dc_fail c inv_depth_exhausted)
      else let node = dc_nodes c ! depth;
               put = (\<lambda>node. (True, c\<lparr>dc_nodes := (dc_nodes c)[depth := node]\<rparr>))
      in if name = str ''#address-cells'' \<or> name = str ''#size-cells''
         then (if length val \<noteq> 4 then (False, dc_fail c inv_invalid_property)
               else case read_be32 val 0 of None \<Rightarrow> (False, dc_fail c inv_unsupported_cells)
               | Some raw \<Rightarrow> if raw > 4 then (False, dc_fail c inv_unsupported_cells)
                   else if name = str ''#address-cells'' then put (node\<lparr>ns_child_address_cells := ucast raw\<rparr>)
                   else put (node\<lparr>ns_child_size_cells := ucast raw\<rparr>))
         else if name = str ''device_type''
         then (if length val \<ge> 7 \<and> take 6 val = str ''memory'' \<and> val ! 6 = 0
               then put (node\<lparr>ns_memory := True\<rparr>) else (True, c))
         else if name = str ''compatible''
         then (let len = c_string_end val 0 (length val)
               in if len = 0 \<or> len = length val \<or> len \<ge> max_compatible_bytes
                  then (False, dc_fail c inv_invalid_property)
                  else put (node\<lparr>ns_compatible := take len val @ drop len (ns_compatible node),
                                 ns_compatible_size := of_nat len\<rparr>))
         else if name = str ''reg''
         then (if ns_parent_address_cells node = 0 \<or> ns_parent_size_cells node = 0 \<or>
                  ns_parent_address_cells node > 2 \<or> ns_parent_size_cells node > 2
               then (True, c)
               else let range_bytes = (unat (ns_parent_address_cells node) + unat (ns_parent_size_cells node)) * 4
               in if range_bytes = 0 \<or> length val < range_bytes \<or> length val mod range_bytes \<noteq> 0
                  then (False, dc_fail c inv_malformed_reg)
                  else case (read_cells val 0 (ns_parent_address_cells node),
                             read_cells val (unat (ns_parent_address_cells node) * 4) (ns_parent_size_cells node)) of
                    (Some base, Some extent) \<Rightarrow>
                      if \<not> hr_valid \<lparr>hr_base = base, hr_size = extent\<rparr> then (False, dc_fail c inv_malformed_reg)
                      else put (node\<lparr>ns_first_reg := \<lparr>hr_base = base, hr_size = extent\<rparr>, ns_has_reg := True\<rparr>)
                  | _ \<Rightarrow> (False, dc_fail c inv_malformed_reg))
         else (True, c))"

definition dc_end_node :: "DiscoveryContext \<Rightarrow> nat \<Rightarrow> bool \<times> DiscoveryContext" where
  "dc_end_node c depth =
     (if depth \<ge> max_depth then (False, dc_fail c inv_depth_exhausted)
      else let node = dc_nodes c ! depth
      in case (if ns_inside_reserved_memory node \<and> ns_has_reg node then dc_add_reserved c (ns_first_reg node) else (True, c)) of
        (added, c) \<Rightarrow>
      if \<not> added then (False, c)
      else if ns_memory node \<and> ns_has_reg node \<and> \<not> ns_inside_reserved_memory node \<and>
              hi_memory_count (dc_inventory c) \<ge> max_memory_regions
      then (False, dc_fail c inv_inventory_exhausted)
      else let c = (if ns_memory node \<and> ns_has_reg node \<and> \<not> ns_inside_reserved_memory node
                    then c\<lparr>dc_inventory := (dc_inventory c)
                           \<lparr>hi_memory := (hi_memory (dc_inventory c))[hi_memory_count (dc_inventory c) := ns_first_reg node],
                            hi_memory_count := hi_memory_count (dc_inventory c) + 1\<rparr>\<rparr>
                    else c)
      in if ns_compatible_size node \<noteq> 0 \<and> ns_has_reg node \<and> \<not> ns_memory node \<and>
            \<not> ns_inside_reserved_memory node \<and> \<not> ns_reserved_memory_root node
         then (if hi_device_count (dc_inventory c) \<ge> max_devices
               then (True, c\<lparr>dc_inventory := (dc_inventory c)\<lparr>hi_devices_truncated := True\<rparr>\<rparr>)
               else (True, c\<lparr>dc_inventory := (dc_inventory c)
                      \<lparr>hi_devices := (hi_devices (dc_inventory c))[hi_device_count (dc_inventory c) :=
                         \<lparr>dd_compatible = ns_compatible node, dd_compatible_size = ns_compatible_size node,
                          dd_registers = ns_first_reg node\<rparr>],
                       hi_device_count := hi_device_count (dc_inventory c) + 1\<rparr>\<rparr>))
         else (True, c))"

definition dc_callbacks :: "DiscoveryContext FdtCallbacks" where
  "dc_callbacks = \<lparr>cb_begin_node = Some dc_begin_node, cb_property = Some dc_property, cb_end_node = Some dc_end_node\<rparr>"

definition discover_hardware :: "FdtView \<Rightarrow> HardwareInventory result" where
  "discover_hardware v =
     (case fdt_walk_reservations v (Some dc_reservation) dc_start of (reservations, c) \<Rightarrow>
      if dc_failed c then Inl (dc_error c)
      else case reservations of Inl e \<Rightarrow> Inl e
      | Inr _ \<Rightarrow> (case fdt_walk v dc_callbacks c of (walked, c) \<Rightarrow>
          if dc_failed c then Inl (dc_error c)
          else case walked of Inl e \<Rightarrow> Inl e | Inr _ \<Rightarrow> Inr (dc_inventory c)))"

section \<open>Well-formed inventories\<close>

definition hi_ok :: "HardwareInventory \<Rightarrow> bool" where
  "hi_ok i \<longleftrightarrow> length (hi_memory i) = max_memory_regions \<and> hi_memory_count i \<le> max_memory_regions \<and>
     list_all hr_valid (take (hi_memory_count i) (hi_memory i)) \<and>
     length (hi_reserved i) = max_reserved_regions \<and> hi_reserved_count i \<le> max_reserved_regions \<and>
     list_all hr_valid (take (hi_reserved_count i) (hi_reserved i)) \<and>
     length (hi_devices i) = max_devices \<and> hi_device_count i \<le> max_devices \<and>
     list_all (\<lambda>d. dd_valid d \<and> unat (dd_compatible_size d) < max_compatible_bytes)
       (take (hi_device_count i) (hi_devices i)) \<and>
     (hi_devices_truncated i \<longrightarrow> hi_device_count i = max_devices)"

definition ns_ok :: "NodeState \<Rightarrow> bool" where
  "ns_ok n \<longleftrightarrow> (ns_has_reg n \<longrightarrow> hr_valid (ns_first_reg n)) \<and> unat (ns_compatible_size n) < max_compatible_bytes"

definition dc_ok :: "DiscoveryContext \<Rightarrow> bool" where
  "dc_ok c \<longleftrightarrow> hi_ok (dc_inventory c) \<and> length (dc_nodes c) = max_depth \<and> list_all ns_ok (dc_nodes c)"

lemma take_snoc_update: "n < length xs \<Longrightarrow> take (Suc n) (xs[n := x]) = take n xs @ [x]"
  by (simp add: take_Suc_conv_app_nth)

lemma dc_ok_nodes: "dc_ok c \<Longrightarrow> depth < max_depth \<Longrightarrow> ns_ok (dc_nodes c ! depth)"
  by (auto simp: dc_ok_def list_all_length)

lemma dc_ok_put: "dc_ok c \<Longrightarrow> ns_ok n \<Longrightarrow> dc_ok (c\<lparr>dc_nodes := (dc_nodes c)[depth := n]\<rparr>)"
  by (auto simp: dc_ok_def list_all_iff dest: set_update_subset_insert [THEN subsetD])

lemma dc_ok_fail [simp]: "dc_ok (dc_fail c e) \<longleftrightarrow> dc_ok c"
  by (simp add: dc_ok_def dc_fail_def)

lemma dc_ok_inventory: "dc_ok c \<Longrightarrow> hi_ok i \<Longrightarrow> dc_ok (c\<lparr>dc_inventory := i\<rparr>)"
  by (simp add: dc_ok_def)

lemma hi_ok_reserved: "hi_ok i \<Longrightarrow> hr_valid r \<Longrightarrow> hi_reserved_count i < max_reserved_regions \<Longrightarrow>
  hi_ok (i\<lparr>hi_reserved := (hi_reserved i)[hi_reserved_count i := r], hi_reserved_count := hi_reserved_count i + 1\<rparr>)"
  by (simp add: hi_ok_def take_snoc_update)

lemma hi_ok_memory: "hi_ok i \<Longrightarrow> hr_valid r \<Longrightarrow> hi_memory_count i < max_memory_regions \<Longrightarrow>
  hi_ok (i\<lparr>hi_memory := (hi_memory i)[hi_memory_count i := r], hi_memory_count := hi_memory_count i + 1\<rparr>)"
  by (simp add: hi_ok_def take_snoc_update)

lemma hi_ok_device:
  "hi_ok i \<Longrightarrow> dd_valid d \<Longrightarrow> unat (dd_compatible_size d) < max_compatible_bytes \<Longrightarrow> hi_device_count i < max_devices \<Longrightarrow>
   hi_ok (i\<lparr>hi_devices := (hi_devices i)[hi_device_count i := d], hi_device_count := hi_device_count i + 1\<rparr>)"
  by (auto simp: hi_ok_def take_snoc_update)

lemma hi_ok_truncated: "hi_ok i \<Longrightarrow> max_devices \<le> hi_device_count i \<Longrightarrow> hi_ok (i\<lparr>hi_devices_truncated := True\<rparr>)"
  by (auto simp: hi_ok_def)

lemma dc_ok_hi: "dc_ok c \<Longrightarrow> hi_ok (dc_inventory c)" by (simp add: dc_ok_def)

lemma dc_add_reserved_ok: "dc_ok c \<Longrightarrow> dc_ok (snd (dc_add_reserved c r))"
  using hi_ok_reserved [OF dc_ok_hi] by (simp add: dc_add_reserved_def dc_ok_inventory linorder_not_le)

lemma ns_default_ok: "ns_ok ns_default" by (simp add: ns_ok_def ns_default_def)

lemma dc_begin_node_ok: "dc_ok c \<Longrightarrow> dc_ok (snd (dc_begin_node c name depth))"
  by (auto simp: dc_begin_node_def Let_def intro!: dc_ok_put) (simp_all add: ns_ok_def ns_default_def)

lemma if_cases: "(b \<Longrightarrow> dc_ok (snd x)) \<Longrightarrow> (\<not> b \<Longrightarrow> dc_ok (snd y)) \<Longrightarrow> dc_ok (snd (if b then x else y))"
  by simp

lemma option_cases:
  "dc_ok (snd a) \<Longrightarrow> (\<And>y. x = Some y \<Longrightarrow> dc_ok (snd (f y))) \<Longrightarrow> dc_ok (snd (case x of None \<Rightarrow> a | Some y \<Rightarrow> f y))"
  by (cases x) simp_all

lemma dc_property_ok: "dc_ok c \<Longrightarrow> dc_ok (snd (dc_property c name val depth))"
proof (cases "depth \<ge> max_depth")
  case False
  assume ok: "dc_ok c"
  define n where "n = dc_nodes c ! depth"
  define len where "len = c_string_end val 0 (length val)"
  have n: "ns_ok n" unfolding n_def using False ok by (simp add: dc_ok_nodes)
  have puts: "dc_ok (c\<lparr>dc_nodes := (dc_nodes c)[depth := n\<lparr>ns_child_address_cells := w\<rparr>]\<rparr>)"
    "dc_ok (c\<lparr>dc_nodes := (dc_nodes c)[depth := n\<lparr>ns_child_size_cells := w\<rparr>]\<rparr>)"
    "dc_ok (c\<lparr>dc_nodes := (dc_nodes c)[depth := n\<lparr>ns_memory := True\<rparr>]\<rparr>)"
    "k < max_compatible_bytes \<Longrightarrow>
       dc_ok (c\<lparr>dc_nodes := (dc_nodes c)[depth := n\<lparr>ns_compatible := xs, ns_compatible_size := of_nat k\<rparr>]\<rparr>)"
    "hr_valid r \<Longrightarrow> dc_ok (c\<lparr>dc_nodes := (dc_nodes c)[depth := n\<lparr>ns_first_reg := r, ns_has_reg := True\<rparr>]\<rparr>)" for w k xs r
    using n by (auto intro!: dc_ok_put [OF ok] simp: ns_ok_def unat_of_nat)
  have fails: "dc_ok (snd (False, dc_fail c e))" "dc_ok (snd (True, c))" for e using ok by simp_all
  show ?thesis using False unfolding dc_property_def Let_def n_def [symmetric] len_def [symmetric] prod.case
    by (intro if_cases option_cases fails; simp only: snd_conv; intro puts) auto
qed (simp add: dc_property_def)

lemma dc_end_node_ok: "dc_ok c \<Longrightarrow> dc_ok (snd (dc_end_node c depth))"
proof (cases "depth \<ge> max_depth")
  case False
  assume ok: "dc_ok c"
  define n where "n = dc_nodes c ! depth"
  have n: "ns_ok n" unfolding n_def using False ok by (simp add: dc_ok_nodes)
  obtain b c' where c': "(if ns_inside_reserved_memory n \<and> ns_has_reg n then dc_add_reserved c (ns_first_reg n) else (True, c)) = (b, c')"
    by fastforce
  then have ok': "dc_ok c'" using ok dc_add_reserved_ok [OF ok, of "ns_first_reg n"] by (auto split: if_splits)
  have v: "ns_has_reg n \<Longrightarrow> hr_valid (ns_first_reg n)" "unat (ns_compatible_size n) < max_compatible_bytes"
    using n by (auto simp: ns_ok_def)
  note step = dc_ok_inventory [OF ok' hi_ok_memory [OF dc_ok_hi [OF ok']]] dc_ok_inventory [OF ok' hi_ok_truncated [OF dc_ok_hi [OF ok']]]
    dc_ok_inventory [OF ok' hi_ok_device [OF dc_ok_hi [OF ok']]]
  show ?thesis using False
    by (simp add: dc_end_node_def Let_def n_def [symmetric] c' ok' linorder_not_le)
       (use step v in \<open>auto simp: dd_valid_def linorder_not_le\<close>)
qed (simp add: dc_end_node_def)

lemma dc_start_ok: "dc_ok dc_start"
  by (simp add: dc_ok_def hi_ok_def dc_start_def hi_empty_def list_all_length ns_default_ok)

interpretation inventory: fdt_client dc_callbacks dc_reservation dc_ok
  by unfold_locales
     (auto simp: dc_callbacks_def dc_reservation_def dc_begin_node_ok dc_property_ok dc_end_node_ok dc_add_reserved_ok)

lemma discover_hardware_wf:
  assumes "discover_hardware v = Inr i"
  shows "hi_ok i"
proof -
  obtain r c where rc: "fdt_walk_reservations v (Some dc_reservation) dc_start = (r, c)" by fastforce
  obtain w d where wd: "fdt_walk v dc_callbacks c = (w, d)" by fastforce
  have "dc_ok c" using inventory.reservations_keep [OF dc_start_ok, of v "fv_reservation_offset v"] rc
    by (simp add: fdt_walk_reservations_def)
  then have "dc_ok d" using inventory.walk_keeps [of c v "fv_structure_offset v" 0] wd by (simp add: fdt_walk_def)
  moreover have "i = dc_inventory d"
    using assms by (auto simp: discover_hardware_def rc wd split: if_splits sum.splits)
  ultimately show ?thesis by (simp add: dc_ok_def)
qed

section \<open>The recursive scan of a tree\<close>

text \<open>What the inventory should be, on the tree itself: lists instead of arrays with counts, a recursion instead of an array of
  levels, the state of a node and of its parent as arguments.\<close>

record MachineMap =
  mm_memory :: "HardwareRange list"
  mm_reserved :: "HardwareRange list"
  mm_devices :: "(bytes \<times> HardwareRange) list"
  mm_truncated :: bool

definition hi_abs :: "HardwareInventory \<Rightarrow> MachineMap" where
  "hi_abs i = \<lparr>mm_memory = take (hi_memory_count i) (hi_memory i), mm_reserved = take (hi_reserved_count i) (hi_reserved i),
     mm_devices = map (\<lambda>d. (dd_compatible_view d, dd_registers d)) (take (hi_device_count i) (hi_devices i)),
     mm_truncated = hi_devices_truncated i\<rparr>"

definition fresh_state :: "nat \<Rightarrow> NodeState \<Rightarrow> bytes \<Rightarrow> NodeState" where
  "fresh_state depth parent name =
     (if depth = 0 then ns_default
      else ns_default\<lparr>ns_parent_address_cells := ns_child_address_cells parent, ns_parent_size_cells := ns_child_size_cells parent,
             ns_child_address_cells := ns_child_address_cells parent, ns_child_size_cells := ns_child_size_cells parent,
             ns_inside_reserved_memory := ns_reserved_memory_root parent \<or> ns_inside_reserved_memory parent,
             ns_reserved_memory_root := (depth = 1 \<and> name = str ''reserved-memory'')\<rparr>)"

definition decode_cells :: "bytes \<Rightarrow> u8 result" where
  "decode_cells val = (if length val \<noteq> 4 then Inl inv_invalid_property
     else case read_be32 val 0 of None \<Rightarrow> Inl inv_unsupported_cells
       | Some raw \<Rightarrow> if raw > 4 then Inl inv_unsupported_cells else Inr (ucast raw))"

definition decode_compatible :: "bytes \<Rightarrow> nat result" where
  "decode_compatible val = (let len = c_string_end val 0 (length val)
     in if len = 0 \<or> len = length val \<or> len \<ge> max_compatible_bytes then Inl inv_invalid_property else Inr len)"

definition decode_reg :: "u8 \<Rightarrow> u8 \<Rightarrow> bytes \<Rightarrow> HardwareRange result" where
  "decode_reg a s val =
     (let n = (unat a + unat s) * 4
      in if n = 0 \<or> length val < n \<or> length val mod n \<noteq> 0 then Inl inv_malformed_reg
         else case (read_cells val 0 a, read_cells val (unat a * 4) s) of
           (Some base, Some extent) \<Rightarrow>
             if hr_valid \<lparr>hr_base = base, hr_size = extent\<rparr> then Inr \<lparr>hr_base = base, hr_size = extent\<rparr>
             else Inl inv_malformed_reg
         | _ \<Rightarrow> Inl inv_malformed_reg)"

definition scan_property :: "NodeState \<Rightarrow> bytes \<times> bytes \<Rightarrow> NodeState result" where
  "scan_property n p = (let name = fst p; val = snd p in
     if name = str ''#address-cells'' then map_sum id (\<lambda>w. n\<lparr>ns_child_address_cells := w\<rparr>) (decode_cells val)
     else if name = str ''#size-cells'' then map_sum id (\<lambda>w. n\<lparr>ns_child_size_cells := w\<rparr>) (decode_cells val)
     else if name = str ''device_type''
     then Inr (if length val \<ge> 7 \<and> take 6 val = str ''memory'' \<and> val ! 6 = 0 then n\<lparr>ns_memory := True\<rparr> else n)
     else if name = str ''compatible''
     then map_sum id (\<lambda>len. n\<lparr>ns_compatible := take len val @ drop len (ns_compatible n), ns_compatible_size := of_nat len\<rparr>)
            (decode_compatible val)
     else if name = str ''reg'' \<and> ns_parent_address_cells n \<in> {1, 2} \<and> ns_parent_size_cells n \<in> {1, 2}
     then map_sum id (\<lambda>r. n\<lparr>ns_first_reg := r, ns_has_reg := True\<rparr>)
            (decode_reg (ns_parent_address_cells n) (ns_parent_size_cells n) val)
     else Inr n)"

fun scan_properties :: "NodeState \<Rightarrow> (bytes \<times> bytes) list \<Rightarrow> NodeState result" where
  "scan_properties n [] = Inr n"
| "scan_properties n (p # ps) = (case scan_property n p of Inl e \<Rightarrow> Inl e | Inr n \<Rightarrow> scan_properties n ps)"

text \<open>A node with a range is a reservation below \<open>/reserved-memory\<close>, else memory or a device.\<close>

definition scan_record :: "NodeState \<Rightarrow> MachineMap \<Rightarrow> MachineMap result" where
  "scan_record n m =
     (if \<not> ns_has_reg n then Inr m
      else if ns_inside_reserved_memory n
      then (if length (mm_reserved m) < max_reserved_regions
            then Inr (m\<lparr>mm_reserved := mm_reserved m @ [ns_first_reg n]\<rparr>) else Inl inv_inventory_exhausted)
      else if ns_memory n
      then (if length (mm_memory m) < max_memory_regions
            then Inr (m\<lparr>mm_memory := mm_memory m @ [ns_first_reg n]\<rparr>) else Inl inv_inventory_exhausted)
      else if ns_compatible_size n \<noteq> 0 \<and> \<not> ns_reserved_memory_root n
      then Inr (if length (mm_devices m) < max_devices
                then m\<lparr>mm_devices := mm_devices m @ [(take (unat (ns_compatible_size n)) (ns_compatible n), ns_first_reg n)]\<rparr>
                else m\<lparr>mm_truncated := True\<rparr>)
      else Inr m)"

fun scan_node :: "nat \<Rightarrow> NodeState \<Rightarrow> DtNode \<Rightarrow> MachineMap \<Rightarrow> MachineMap result"
  and scan_nodes :: "nat \<Rightarrow> NodeState \<Rightarrow> DtNode list \<Rightarrow> MachineMap \<Rightarrow> MachineMap result" where
  "scan_node depth parent (DtNode name ps cs) m =
     (if depth \<ge> max_depth then Inl inv_depth_exhausted
      else case scan_properties (fresh_state depth parent name) ps of Inl e \<Rightarrow> Inl e
      | Inr n \<Rightarrow> (case scan_nodes (depth + 1) n cs m of Inl e \<Rightarrow> Inl e | Inr m \<Rightarrow> scan_record n m))"
| "scan_nodes depth parent [] m = Inr m"
| "scan_nodes depth parent (t # ts) m =
     (case scan_node depth parent t m of Inl e \<Rightarrow> Inl e | Inr m \<Rightarrow> scan_nodes depth parent ts m)"

definition scan_tree :: "(u64 \<times> u64) list \<Rightarrow> DtNode \<Rightarrow> MachineMap result" where
  "scan_tree rs t =
     (if length rs > max_reserved_regions then Inl inv_inventory_exhausted
      else scan_node 0 ns_default t \<lparr>mm_memory = [], mm_reserved = map (\<lambda>(addr, extent). \<lparr>hr_base = addr, hr_size = extent\<rparr>) rs,
             mm_devices = [], mm_truncated = False\<rparr>)"

section \<open>The walk computes the scan\<close>

lemma dc_begin_node_fresh:
  "depth < max_depth \<Longrightarrow> dc_begin_node c name depth =
     (True, c\<lparr>dc_nodes := (dc_nodes c)[depth := fresh_state depth (dc_nodes c ! (depth - 1)) name]\<rparr>)"
  by (cases "depth = 1 \<and> name = str ''reserved-memory''")
     (auto simp: dc_begin_node_def fresh_state_def Let_def ns_default_def)

lemma str_distinct:
  "str ''#address-cells'' \<noteq> str ''#size-cells''" "str ''#address-cells'' \<noteq> str ''device_type''"
  by (simp_all add: str_def)

lemma cells_12: "(x :: u8) \<in> {1, 2} \<longleftrightarrow> \<not> (x = 0 \<or> x > 2)"
proof -
  have "x = 1 \<or> x = 2 \<longleftrightarrow> unat x = 1 \<or> unat x = 2" by (simp add: word_unat_eq_iff)
  moreover have "x = 0 \<or> x > 2 \<longleftrightarrow> unat x = 0 \<or> unat x > 2" by (simp add: word_unat_eq_iff word_less_nat_alt)
  ultimately show ?thesis by auto
qed

lemma dc_property_scan:
  assumes "depth < max_depth"
  shows "dc_property c name val depth =
    (case scan_property (dc_nodes c ! depth) (name, val) of
       Inl e \<Rightarrow> (False, dc_fail c e) | Inr n \<Rightarrow> (True, c\<lparr>dc_nodes := (dc_nodes c)[depth := n]\<rparr>))"
proof -
  define n where "n = dc_nodes c ! depth"
  have same: "c\<lparr>dc_nodes := (dc_nodes c)[depth := n]\<rparr> = c" by (simp add: n_def)
  consider (address) "name = str ''#address-cells''" | (cells) "name \<noteq> str ''#address-cells''" "name = str ''#size-cells''"
    | (other) "name \<noteq> str ''#address-cells''" "name \<noteq> str ''#size-cells''" by blast
  then show ?thesis
  proof cases
    case address
    then show ?thesis using assms
      by (simp add: dc_property_def scan_property_def decode_cells_def Let_def n_def [symmetric] split: option.split)
  next
    case cells
    then show ?thesis using assms
      by (simp add: dc_property_def scan_property_def decode_cells_def Let_def n_def [symmetric] split: option.split)
  next
    case other
    note defs = dc_property_def scan_property_def decode_compatible_def Let_def n_def [symmetric] same
    consider (device) "name = str ''device_type''" | (compat) "name \<noteq> str ''device_type''" "name = str ''compatible''"
      | (reg) "name \<noteq> str ''device_type''" "name \<noteq> str ''compatible''" "name = str ''reg''"
      | (none) "name \<noteq> str ''device_type''" "name \<noteq> str ''compatible''" "name \<noteq> str ''reg''" by blast
    then show ?thesis
    proof cases
      case reg
      show ?thesis
      proof (cases "ns_parent_address_cells n \<in> {1, 2} \<and> ns_parent_size_cells n \<in> {1, 2}")
        case True
        then have "\<not> (ns_parent_address_cells n = 0 \<or> ns_parent_size_cells n = 0 \<or>
          ns_parent_address_cells n > 2 \<or> ns_parent_size_cells n > 2)" using cells_12 by blast
        then show ?thesis using assms other reg True
          by (simp only: defs decode_reg_def) (simp split: option.split)
      next
        case False
        then have "ns_parent_address_cells n = 0 \<or> ns_parent_size_cells n = 0 \<or>
          ns_parent_address_cells n > 2 \<or> ns_parent_size_cells n > 2" using cells_12 by blast
        then show ?thesis using assms other reg False
          by (simp only: defs) (simp add: same)
      qed
    qed (use assms other in \<open>simp_all add: defs\<close>)
  qed
qed

text \<open>\<open>run_matches depth c r spec\<close>: a run from \<open>c\<close> that ended in \<open>r\<close> did what the scan says, and left the levels above
  \<open>depth\<close> alone.\<close>

definition run_matches :: "nat \<Rightarrow> DiscoveryContext \<Rightarrow> bool \<times> DiscoveryContext \<Rightarrow> MachineMap result \<Rightarrow> bool" where
  "run_matches depth c r spec \<longleftrightarrow>
     (case spec of Inl e \<Rightarrow> \<not> fst r \<and> dc_failed (snd r) \<and> dc_error (snd r) = e
      | Inr m \<Rightarrow> fst r \<and> \<not> dc_failed (snd r) \<and> hi_abs (dc_inventory (snd r)) = m \<and> dc_ok (snd r) \<and>
          take depth (dc_nodes (snd r)) = take depth (dc_nodes c))"

lemma dc_end_node_scan:
  assumes ok: "dc_ok c" and f: "\<not> dc_failed c" and d: "depth < max_depth"
  shows "run_matches depth c (dc_end_node c depth) (scan_record (dc_nodes c ! depth) (hi_abs (dc_inventory c)))"
proof -
  define n where "n = dc_nodes c ! depth"
  define i where "i = dc_inventory c"
  have n: "ns_has_reg n \<Longrightarrow> hr_valid (ns_first_reg n)" unfolding n_def using dc_ok_nodes [OF ok d] by (simp add: ns_ok_def)
  have i: "length (hi_memory i) = 8" "length (hi_reserved i) = 16" "length (hi_devices i) = 64"
    "hi_memory_count i \<le> 8" "hi_reserved_count i \<le> 16" "hi_device_count i \<le> 64"
    unfolding i_def using ok by (simp_all add: dc_ok_def hi_ok_def)
  have keep: "dc_ok (snd (dc_end_node c depth))" by (rule dc_end_node_ok [OF ok])
  consider (none) "\<not> ns_has_reg n" | (inside) "ns_has_reg n" "ns_inside_reserved_memory n"
    | (memory) "ns_has_reg n" "\<not> ns_inside_reserved_memory n" "ns_memory n"
    | (device) "ns_has_reg n" "\<not> ns_inside_reserved_memory n" "\<not> ns_memory n" by blast
  then show ?thesis
  proof cases
    case none then show ?thesis using d f ok
      by (simp add: dc_end_node_def scan_record_def run_matches_def Let_def n_def [symmetric])
  next
    case inside then show ?thesis using d f keep n i
      by (auto simp: dc_end_node_def scan_record_def run_matches_def Let_def n_def [symmetric] i_def [symmetric]
            dc_add_reserved_def dc_fail_def hi_abs_def take_snoc_update)
  next
    case memory then show ?thesis using d f keep i
      by (auto simp: dc_end_node_def scan_record_def run_matches_def Let_def n_def [symmetric] i_def [symmetric]
            dc_fail_def hi_abs_def take_snoc_update)
  next
    case device then show ?thesis using d f keep i
      by (auto simp: dc_end_node_def scan_record_def run_matches_def Let_def n_def [symmetric] i_def [symmetric]
            dc_fail_def hi_abs_def take_snoc_update dd_compatible_view_def)
  qed
qed

lemma run_properties_scan:
  "dc_ok c \<Longrightarrow> \<not> dc_failed c \<Longrightarrow> depth < max_depth \<Longrightarrow>
   case scan_properties (dc_nodes c ! depth) ps of
     Inl e \<Rightarrow> \<exists>c'. run_events dc_callbacks (map (\<lambda>p. Property (fst p) (snd p) depth) ps) c = (False, c') \<and>
                dc_failed c' \<and> dc_error c' = e
   | Inr n \<Rightarrow> \<exists>c'. run_events dc_callbacks (map (\<lambda>p. Property (fst p) (snd p) depth) ps) c = (True, c') \<and>
       dc_ok c' \<and> \<not> dc_failed c' \<and> dc_inventory c' = dc_inventory c \<and> dc_nodes c' = (dc_nodes c)[depth := n]"
proof (induction ps arbitrary: c)
  case Nil then show ?case by simp
next
  case (Cons p ps)
  have run: "deliver dc_callbacks (Property (fst p) (snd p) depth) c =
      (case scan_property (dc_nodes c ! depth) p of
         Inl e \<Rightarrow> (False, dc_fail c e) | Inr n \<Rightarrow> (True, c\<lparr>dc_nodes := (dc_nodes c)[depth := n]\<rparr>))"
    using dc_property_scan [OF Cons.prems(3), of c "fst p" "snd p"] by (simp add: dc_callbacks_def)
  show ?case
  proof (cases "scan_property (dc_nodes c ! depth) p")
    case (Inl e)
    then show ?thesis using Cons.prems(2) by (simp add: run del: deliver.simps) (simp add: dc_fail_def)
  next
    case (Inr n)
    let ?c = "c\<lparr>dc_nodes := (dc_nodes c)[depth := n]\<rparr>"
    have len: "length (dc_nodes c) = max_depth" using Cons.prems(1) by (simp add: dc_ok_def)
    have "dc_ok ?c" using dc_property_ok [OF Cons.prems(1), of "fst p" "snd p" depth]
        dc_property_scan [OF Cons.prems(3), of c "fst p" "snd p"] Inr by simp
    then show ?thesis using Cons.IH [of ?c] Cons.prems(2,3) len
      by (cases "scan_properties n ps") (simp_all add: run Inr del: deliver.simps)
  qed
qed

lemma run_begin_scan:
  assumes "dc_ok c" "\<not> dc_failed c" "depth < max_depth" "depth \<noteq> 0 \<Longrightarrow> dc_nodes c ! (depth - 1) = parent"
  obtains c' where "deliver dc_callbacks (BeginNode name depth) c = (True, c')" "dc_ok c'" "\<not> dc_failed c'"
    "dc_inventory c' = dc_inventory c" "dc_nodes c' = (dc_nodes c)[depth := fresh_state depth parent name]"
proof
  have "fresh_state depth (dc_nodes c ! (depth - 1)) name = fresh_state depth parent name"
    using assms(4) by (cases "depth = 0") (simp_all add: fresh_state_def)
  then show "deliver dc_callbacks (BeginNode name depth) c =
      (True, c\<lparr>dc_nodes := (dc_nodes c)[depth := fresh_state depth parent name]\<rparr>)"
    using dc_begin_node_fresh [OF assms(3), of c name] by (simp add: dc_callbacks_def)
  then show "dc_ok (c\<lparr>dc_nodes := (dc_nodes c)[depth := fresh_state depth parent name]\<rparr>)"
    using dc_begin_node_ok [OF assms(1), of name depth] by (simp add: dc_callbacks_def)
qed (simp_all add: assms)

lemma run_matches_base: "run_matches d c r spec \<Longrightarrow> take d (dc_nodes c) = take d (dc_nodes c') \<Longrightarrow> run_matches d c' r spec"
  by (simp add: run_matches_def split: sum.splits)

text \<open>Runs compose the way the scan does.\<close>

lemma run_matches_seq:
  assumes "run_matches d c (run_events dc_callbacks xs c) spec"
    and "\<And>c' m. spec = Inr m \<Longrightarrow> dc_ok c' \<Longrightarrow> \<not> dc_failed c' \<Longrightarrow> hi_abs (dc_inventory c') = m \<Longrightarrow>
      take d (dc_nodes c') = take d (dc_nodes c) \<Longrightarrow> run_matches e c (run_events dc_callbacks ys c') (next_spec m)"
  shows "run_matches e c (run_events dc_callbacks (xs @ ys) c) (case spec of Inl e \<Rightarrow> Inl e | Inr m \<Rightarrow> next_spec m)"
proof -
  obtain go c' where r: "run_events dc_callbacks xs c = (go, c')" by fastforce
  show ?thesis
  proof (cases spec)
    case (Inl e)
    then show ?thesis using assms(1) by (simp add: r run_events_append run_matches_def)
  next
    case (Inr m)
    then show ?thesis using assms(1) assms(2) [OF Inr, of c'] by (simp add: r run_events_append run_matches_def)
  qed
qed

lemma run_end_scan:
  assumes "run_matches (depth + 1) c (run_events dc_callbacks xs c) spec" "depth < max_depth" "length (dc_nodes c) = max_depth"
  shows "run_matches depth c (run_events dc_callbacks (xs @ [EndNode depth]) c)
    (case spec of Inl e \<Rightarrow> Inl e | Inr m \<Rightarrow> scan_record (dc_nodes c ! depth) m)"
proof (rule run_matches_seq [OF assms(1)])
  fix c' m
  assume c': "dc_ok c'" "\<not> dc_failed c'" "hi_abs (dc_inventory c') = m" "take (depth + 1) (dc_nodes c') = take (depth + 1) (dc_nodes c)"
  have "dc_nodes c' ! depth = take (depth + 1) (dc_nodes c') ! depth" by simp
  also have "\<dots> = dc_nodes c ! depth" unfolding c'(4) by simp
  finally have node: "dc_nodes c' ! depth = dc_nodes c ! depth" .
  have "take depth (dc_nodes c') = take depth (take (depth + 1) (dc_nodes c'))" by simp
  also have "\<dots> = take depth (dc_nodes c)" unfolding c'(4) by simp
  finally have levels: "take depth (dc_nodes c') = take depth (dc_nodes c)" .
  have "run_events dc_callbacks [EndNode depth] c' = dc_end_node c' depth"
    unfolding run_events_single by (simp add: dc_callbacks_def)
  then show "run_matches depth c (run_events dc_callbacks [EndNode depth] c') (scan_record (dc_nodes c ! depth) m)"
    using run_matches_base [OF dc_end_node_scan [OF c'(1,2) assms(2)] levels] node c'(3) by simp
qed

lemma run_tree_scan:
  "dc_ok c \<Longrightarrow> \<not> dc_failed c \<Longrightarrow> (depth \<noteq> 0 \<Longrightarrow> dc_nodes c ! (depth - 1) = parent) \<Longrightarrow>
   run_matches depth c (run_events dc_callbacks (tree_events depth t) c) (scan_node depth parent t (hi_abs (dc_inventory c)))"
  "dc_ok c \<Longrightarrow> \<not> dc_failed c \<Longrightarrow> (depth \<noteq> 0 \<Longrightarrow> dc_nodes c ! (depth - 1) = parent) \<Longrightarrow> depth \<le> max_depth \<Longrightarrow>
   run_matches depth c (run_events dc_callbacks (concat (map (tree_events depth) ts)) c)
     (scan_nodes depth parent ts (hi_abs (dc_inventory c)))"
proof (induction depth parent t "hi_abs (dc_inventory c)" and depth parent ts "hi_abs (dc_inventory c)"
    arbitrary: c and c rule: scan_node_scan_nodes.induct)
  case (1 depth parent name ps cs c)
  show ?case
  proof (cases "depth < max_depth")
    case False
    then show ?thesis using "1.prems"(2)
      by (simp add: run_matches_def dc_callbacks_def dc_begin_node_def dc_fail_def)
  next
    case True
    obtain c1 where c1: "deliver dc_callbacks (BeginNode name depth) c = (True, c1)" "dc_ok c1" "\<not> dc_failed c1"
      "dc_inventory c1 = dc_inventory c" "dc_nodes c1 = (dc_nodes c)[depth := fresh_state depth parent name]"
      using run_begin_scan [OF "1.prems"(1,2) True "1.prems"(3)] by blast
    have len: "length (dc_nodes c) = max_depth" using "1.prems"(1) by (simp add: dc_ok_def)
    show ?thesis
    proof (cases "scan_properties (fresh_state depth parent name) ps")
      case (Inl e)
      then show ?thesis using run_properties_scan [OF c1(2,3) True, of ps] True len
        by (auto simp: c1 run_events_append run_matches_def simp del: deliver.simps)
    next
      case (Inr n)
      obtain c2 where c2: "run_events dc_callbacks (map (\<lambda>p. Property (fst p) (snd p) depth) ps) c1 = (True, c2)"
        "dc_ok c2" "\<not> dc_failed c2" "dc_inventory c2 = dc_inventory c" "dc_nodes c2 = (dc_nodes c)[depth := n]"
        using run_properties_scan [OF c1(2,3) True, of ps] Inr True len by (auto simp: c1)
      have "run_matches (depth + 1) c2 (run_events dc_callbacks (concat (map (tree_events (depth + 1)) cs)) c2)
          (scan_nodes (depth + 1) n cs (hi_abs (dc_inventory c)))"
        using "1.hyps" [of n c2] True Inr c2 len by simp
      moreover have "dc_nodes c2 ! depth = n" "length (dc_nodes c2) = max_depth"
        "take depth (dc_nodes c2) = take depth (dc_nodes c)" using c2(5) True len by simp_all
      ultimately have "run_matches depth c
          (run_events dc_callbacks (concat (map (tree_events (depth + 1)) cs) @ [EndNode depth]) c2)
          (case scan_nodes (depth + 1) n cs (hi_abs (dc_inventory c)) of Inl e \<Rightarrow> Inl e | Inr m \<Rightarrow> scan_record n m)"
        using run_matches_base [OF run_end_scan [OF _ True]] by metis
      then show ?thesis using c1(1) c2(1) True Inr by (simp add: run_events_append del: deliver.simps)
    qed
  qed
next
  case (2 depth parent c)
  then show ?case by (simp add: run_matches_def)
next
  case (3 depth parent t ts c)
  have "run_matches depth c (run_events dc_callbacks (concat (map (tree_events depth) ts)) c') (scan_nodes depth parent ts m)"
    if "scan_node depth parent t (hi_abs (dc_inventory c)) = Inr m" "dc_ok c'" "\<not> dc_failed c'" "hi_abs (dc_inventory c') = m"
      "take depth (dc_nodes c') = take depth (dc_nodes c)" for c' m
  proof (rule run_matches_base [OF _ that(5)])
    have "dc_nodes c' ! (depth - 1) = parent" if "depth \<noteq> 0"
    proof -
      have "dc_nodes c' ! (depth - 1) = take depth (dc_nodes c') ! (depth - 1)" using that by simp
      also have "\<dots> = parent" unfolding \<open>take depth (dc_nodes c') = take depth (dc_nodes c)\<close> using that "3.prems"(3) by simp
      finally show ?thesis .
    qed
    then show "run_matches depth c' (run_events dc_callbacks (concat (map (tree_events depth) ts)) c') (scan_nodes depth parent ts m)"
      using "3.hyps"(2) [of c'] that "3.prems"(4) by simp
  qed
  note tail = this
  have "run_matches depth c (run_events dc_callbacks (tree_events depth t) c) (scan_node depth parent t (hi_abs (dc_inventory c)))"
    using "3.prems"(3) by (intro "3.hyps"(1) refl "3.prems"(1,2))
  then show ?case unfolding list.map concat.simps scan_nodes.simps by (rule run_matches_seq) (rule tail)
qed

abbreviation range_of :: "u64 \<times> u64 \<Rightarrow> HardwareRange" where
  "range_of r \<equiv> case r of (addr, extent) \<Rightarrow> \<lparr>hr_base = addr, hr_size = extent\<rparr>"

lemma run_reservations_scan:
  "dc_ok c \<Longrightarrow> \<not> dc_failed c \<Longrightarrow> list_all reservation_ok rs \<Longrightarrow>
   (if hi_reserved_count (dc_inventory c) + length rs \<le> max_reserved_regions
    then dc_ok (run_reservations (Some dc_reservation) rs c) \<and> \<not> dc_failed (run_reservations (Some dc_reservation) rs c) \<and>
      hi_abs (dc_inventory (run_reservations (Some dc_reservation) rs c)) =
        (hi_abs (dc_inventory c))\<lparr>mm_reserved := mm_reserved (hi_abs (dc_inventory c)) @ map range_of rs\<rparr>
    else dc_failed (run_reservations (Some dc_reservation) rs c) \<and>
      dc_error (run_reservations (Some dc_reservation) rs c) = inv_inventory_exhausted)"
proof (induction rs arbitrary: c)
  case Nil
  then show ?case by (auto simp: dc_ok_def hi_ok_def)
next
  case (Cons r rs)
  obtain addr extent where r: "r = (addr, extent)" by (cases r)
  have v: "hr_valid \<lparr>hr_base = addr, hr_size = extent\<rparr>"
    using Cons.prems(3) by (simp add: r reservation_ok_def hr_valid_def)
  let ?i = "dc_inventory c"
  show ?case
  proof (cases "hi_reserved_count ?i < max_reserved_regions")
    case False
    then show ?thesis using Cons.prems(2) v
      by (simp add: r dc_reservation_def dc_add_reserved_def dc_fail_def)
  next
    case True
    define c' where "c' = c\<lparr>dc_inventory := ?i\<lparr>hi_reserved := (hi_reserved ?i)[hi_reserved_count ?i := \<lparr>hr_base = addr, hr_size = extent\<rparr>],
         hi_reserved_count := hi_reserved_count ?i + 1\<rparr>\<rparr>"
    have step: "dc_reservation c addr extent = (True, c')"
      using True v by (simp add: dc_reservation_def dc_add_reserved_def c'_def)
    have "dc_ok c'" using dc_add_reserved_ok [OF Cons.prems(1)] step unfolding dc_reservation_def by (metis snd_conv)
    moreover have "hi_abs (dc_inventory c') =
        (hi_abs ?i)\<lparr>mm_reserved := mm_reserved (hi_abs ?i) @ [\<lparr>hr_base = addr, hr_size = extent\<rparr>]\<rparr>"
      using Cons.prems(1) True by (simp add: c'_def hi_abs_def dc_ok_def hi_ok_def take_snoc_update)
    moreover have "\<not> dc_failed c'" "hi_reserved_count (dc_inventory c') = hi_reserved_count ?i + 1"
      using Cons.prems(2) by (simp_all add: c'_def)
    ultimately show ?thesis using Cons.IH [of c'] Cons.prems(3) by (simp add: r step)
  qed
qed

lemma dc_start_facts: "\<not> dc_failed dc_start" "hi_reserved_count (dc_inventory dc_start) = 0"
  "hi_abs (dc_inventory dc_start) = \<lparr>mm_memory = [], mm_reserved = [], mm_devices = [], mm_truncated = False\<rparr>"
  by (simp_all add: dc_start_def hi_empty_def hi_abs_def)

text \<open>On a view whose walks report the reservations \<open>rs\<close> and the tree \<open>t\<close>.\<close>

lemma discover_scans:
  assumes "fdt_walk_reservations v (Some dc_reservation) dc_start = (Inr (), run_reservations (Some dc_reservation) rs dc_start)"
    and "\<And>c. fdt_walk v dc_callbacks c = (Inr (), snd (run_events dc_callbacks (tree_events 0 t) c))"
    and "list_all reservation_ok rs"
  shows "map_sum id hi_abs (discover_hardware v) = scan_tree rs t"
proof -
  define c where "c = run_reservations (Some dc_reservation) rs dc_start"
  note rs = run_reservations_scan [OF dc_start_ok dc_start_facts(1) assms(3), folded c_def, unfolded dc_start_facts]
  show ?thesis
  proof (cases "length rs \<le> max_reserved_regions")
    case False
    then show ?thesis using rs by (simp add: discover_hardware_def assms(1) scan_tree_def c_def [symmetric])
  next
    case True
    then have c: "dc_ok c" "\<not> dc_failed c"
      "hi_abs (dc_inventory c) = \<lparr>mm_memory = [], mm_reserved = map range_of rs, mm_devices = [], mm_truncated = False\<rparr>"
      using rs by simp_all
    have "run_matches 0 c (run_events dc_callbacks (tree_events 0 t) c) (scan_node 0 ns_default t (hi_abs (dc_inventory c)))"
      using run_tree_scan(1) [OF c(1,2)] by simp
    then show ?thesis using True c
      by (auto simp: discover_hardware_def assms(1,2) scan_tree_def c_def [symmetric] run_matches_def split: sum.splits)
  qed
qed

text \<open>On any view: the callbacks only append to the recorded reservations, so what the reservation block put there stays.\<close>

definition dc_holds :: "HardwareRange set \<Rightarrow> DiscoveryContext \<Rightarrow> bool" where
  "dc_holds R c \<longleftrightarrow> dc_ok c \<and> R \<subseteq> set (take (hi_reserved_count (dc_inventory c)) (hi_reserved (dc_inventory c)))"

lemma dc_fail_inventory [simp]: "dc_inventory (dc_fail c e) = dc_inventory c"
  by (simp add: dc_fail_def)

lemma dc_add_reserved_holds: "dc_holds R c \<Longrightarrow> dc_holds R (snd (dc_add_reserved c r))"
  using dc_add_reserved_ok [of c r]
  by (auto simp: dc_holds_def dc_add_reserved_def dc_ok_def hi_ok_def take_snoc_update)

lemma dc_begin_node_inventory: "dc_inventory (snd (dc_begin_node c name depth)) = dc_inventory c"
  by (simp add: dc_begin_node_def Let_def)

lemma dc_property_inventory: "dc_inventory (snd (dc_property c name val depth)) = dc_inventory c"
proof (cases "depth < max_depth")
  case True
  then show ?thesis by (simp add: dc_property_scan split: sum.split)
qed (simp add: dc_property_def)

lemma dc_end_node_holds: "dc_holds R c \<Longrightarrow> dc_holds R (snd (dc_end_node c depth))"
proof (cases "depth \<ge> max_depth")
  case False
  assume h: "dc_holds R c"
  define n where "n = dc_nodes c ! depth"
  obtain b c' where c': "(if ns_inside_reserved_memory n \<and> ns_has_reg n then dc_add_reserved c (ns_first_reg n) else (True, c)) = (b, c')"
    by fastforce
  then have "dc_holds R c'" using h dc_add_reserved_holds [OF h, of "ns_first_reg n"] by (auto split: if_splits)
  then have "R \<subseteq> set (take (hi_reserved_count (dc_inventory c')) (hi_reserved (dc_inventory c')))" by (simp add: dc_holds_def)
  then have "R \<subseteq> set (take (hi_reserved_count (dc_inventory (snd (dc_end_node c depth))))
      (hi_reserved (dc_inventory (snd (dc_end_node c depth)))))"
    using False by (simp add: dc_end_node_def Let_def n_def [symmetric] c')
  then show ?thesis using dc_end_node_ok h by (simp add: dc_holds_def)
qed (simp add: dc_end_node_def dc_holds_def)

interpretation reserved: fdt_client dc_callbacks dc_reservation "dc_holds R" for R
proof unfold_locales
  show "dc_holds R (snd (f c name depth))" if "cb_begin_node dc_callbacks = Some f" "dc_holds R c" for f c name depth
    using that dc_begin_node_ok dc_begin_node_inventory by (auto simp: dc_callbacks_def dc_holds_def)
  show "dc_holds R (snd (g c name val depth))" if "cb_property dc_callbacks = Some g" "dc_holds R c" for g c name val depth
    using that dc_property_ok dc_property_inventory by (auto simp: dc_callbacks_def dc_holds_def)
  show "dc_holds R (snd (h c depth))" if "cb_end_node dc_callbacks = Some h" "dc_holds R c" for h c depth
    using that dc_end_node_holds by (auto simp: dc_callbacks_def)
  show "dc_holds R (snd (dc_reservation c addr extent))" if "dc_holds R c" for c addr extent
    using that dc_add_reserved_holds by (simp add: dc_reservation_def)
qed

lemma discover_keeps_reservations:
  assumes "fdt_parse blob = Inr v" "discover_hardware v = Inr i"
    "r \<in> set (reservation_entries blob (fv_structure_offset v) (fv_reservation_offset v))"
  shows "range_of r \<in> set (take (hi_reserved_count i) (hi_reserved i))"
proof -
  define rs where "rs = reservation_entries blob (fv_structure_offset v) (fv_reservation_offset v)"
  define c where "c = run_reservations (Some dc_reservation) rs dc_start"
  obtain w d where wd: "fdt_walk v dc_callbacks c = (w, d)" by fastforce
  have rc: "fdt_walk_reservations v (Some dc_reservation) dc_start = (Inr (), c)"
    unfolding c_def rs_def by (rule parsed_reservations(2) [OF assms(1)])
  have nf: "\<not> dc_failed c" and i: "i = dc_inventory d"
    using assms(2) by (auto simp: discover_hardware_def rc wd split: if_splits sum.splits)
  have ok: "list_all reservation_ok rs" using parsed_reservations(1) [OF assms(1)] by (simp add: rs_def)
  have len: "length rs \<le> max_reserved_regions"
    using run_reservations_scan [OF dc_start_ok dc_start_facts(1) ok] nf
    by (auto simp: dc_start_facts c_def [symmetric] split: if_splits)
  then have "dc_holds (set (map range_of rs)) c"
    using run_reservations_scan [OF dc_start_ok dc_start_facts(1) ok]
    by (simp add: dc_start_facts c_def [symmetric] dc_holds_def hi_abs_def)
  then have "dc_holds (set (map range_of rs)) d"
    using reserved.walk_keeps [of "set (map range_of rs)" c v "fv_structure_offset v" 0] wd by (simp add: fdt_walk_def)
  moreover have "range_of r \<in> set (map range_of rs)" using assms(3) by (auto simp: rs_def)
  ultimately show ?thesis unfolding dc_holds_def i by blast
qed

text \<open>C20: The inventory of a serialised device tree is the recursive scan of that tree: the walk keeps one state per level in an
  array, and what it records of memory, reservations and devices, in which order, whether the device table overflowed, and which
  error it stops with, is what a recursion over the tree records in which every node has its own state and inherits its cell
  sizes from its parent.  The reservation block comes first, and more than sixteen reservations are an error.\<close>

theorem discover_refines_scan:
  assumes "length (fdt_image rs names t) < 2 ^ 32" "list_all reservation_ok rs"
    "list_all (\<lambda>s. 0 \<notin> set s) names" "dt_ok names t"
  shows "\<exists>v. fdt_parse (fdt_image rs names t @ rest) = Inr v \<and> map_sum id hi_abs (discover_hardware v) = scan_tree rs t"
proof (intro exI conjI)
  show "fdt_parse (fdt_image rs names t @ rest) = Inr (fdt_image_view rs names t)" using fdt_parse_image assms(1,2) .
  show "map_sum id hi_abs (discover_hardware (fdt_image_view rs names t)) = scan_tree rs t"
    by (intro discover_scans fdt_image_reservations fdt_image_walk assms)
qed

lemma read_cells_holds:
  "holds_at val n (be32 w) \<Longrightarrow> read_cells val n 1 = Some (ucast w)"
  "holds_at val n (be64 x) \<Longrightarrow> read_cells val n 2 = Some x"
proof -
  assume h: "holds_at val n (be32 w)"
  then have "\<not> (n > length val \<or> 4 > length val - n)" unfolding holds_at_def length_be by arith
  then show "read_cells val n 1 = Some (ucast w)" using read_be32_holds [OF h] by (simp add: read_cells_def)
next
  assume h: "holds_at val n (be64 x)"
  then have "\<not> (n > length val \<or> 8 > length val - n)" unfolding holds_at_def length_be by arith
  moreover have "read_be32 val n = Some (ucast (drop_bit 32 x))" "read_be32 val (n + 4) = Some (ucast x)"
    using h by (simp_all add: be64_def read_be32_holds)
  moreover have "read_cells_from val n 2 0 = Some x"
    using calculation(2,3) be64_value [of x] by (simp only: numeral_2_eq_2) simp
  ultimately show "read_cells val n 2 = Some x" by (simp add: read_cells_def)
qed

definition sample_tree :: DtNode where
  "sample_tree = DtNode [] [] [DtNode [109]
     [(str ''device_type'', str ''memory'' @ [0]), (str ''reg'', be64 0x40000000 @ be32 0x1000)] []]"

abbreviation sample_names :: "bytes list" where "sample_names \<equiv> [str ''device_type'', str ''reg'']"
abbreviation sample_reservations :: "(u64 \<times> u64) list" where "sample_reservations \<equiv> [(0x40000000, 0x200)]"

lemma sample_image_ok: "length (fdt_image sample_reservations sample_names sample_tree) < 2 ^ 32"
  "list_all reservation_ok sample_reservations" "list_all (\<lambda>s. 0 \<notin> set s) sample_names" "dt_ok sample_names sample_tree"
proof -
  show "length (fdt_image sample_reservations sample_names sample_tree) < 2 ^ 32"
    by (simp add: length_fdt_image length_enc_reservations length_enc_property string_block_def align4_def sample_tree_def str_def)
  show "list_all reservation_ok sample_reservations" by (simp add: reservation_ok_def)
  show "list_all (\<lambda>s. 0 \<notin> set s) sample_names" by (simp add: str_def)
  show "dt_ok sample_names sample_tree" by (simp add: sample_tree_def)
qed

lemma sample_scan: "scan_tree sample_reservations sample_tree =
  Inr \<lparr>mm_memory = [\<lparr>hr_base = 0x40000000, hr_size = 0x1000\<rparr>], mm_reserved = [\<lparr>hr_base = 0x40000000, hr_size = 0x200\<rparr>],
        mm_devices = [], mm_truncated = False\<rparr>"
proof -
  have "read_cells (be64 0x40000000 @ be32 0x1000) 0 2 = Some 0x40000000"
    "read_cells (be64 0x40000000 @ be32 0x1000) 8 1 = Some 0x1000"
    using read_cells_holds(2) [of "be64 0x40000000 @ be32 0x1000" 0 "0x40000000"]
      read_cells_holds(1) [of "be64 0x40000000 @ be32 0x1000" 8 "0x1000"] by (simp_all add: holds_at_def)
  then show ?thesis
    by (simp add: scan_tree_def sample_tree_def fresh_state_def ns_default_def scan_property_def scan_record_def
        decode_reg_def hr_valid_def str_def Let_def)
qed

theorem discover_refines_scan_witness:
  "\<exists>v. fdt_parse (fdt_image sample_reservations sample_names sample_tree @ []) = Inr v \<and>
     map_sum id hi_abs (discover_hardware v) =
       Inr \<lparr>mm_memory = [\<lparr>hr_base = 0x40000000, hr_size = 0x1000\<rparr>],
             mm_reserved = [\<lparr>hr_base = 0x40000000, hr_size = 0x200\<rparr>], mm_devices = [], mm_truncated = False\<rparr>"
  using discover_refines_scan [OF sample_image_ok, of "[]"] unfolding sample_scan .

end
