(* ===== verification/Boot_Memory.thy ===== *)
theory Boot_Memory
  imports Hardware_Inventory
begin

text \<open>
  Carving the first machine-owned memory out of discovered RAM: boot_memory.hpp/.cpp and boot_memory_plan.hpp/.cpp of
  src/core/oskernel.  A \<open>Span\<close> of ranges is a list; \<open>candidate_blocked\<close> returns its blocker as an option.

  The lemmas show that the search is a first fit: it returns the lowest aligned range of the first region that has one, and fails
  only when no region has one.  Ranges that end exactly at \<open>2 ^ 64\<close> are valid but invisible to it (their exclusive end wraps to 0):
  \<open>hr_seen\<close> tells them apart in the lemmas, and the properties say of every range they speak of that it ends below \<open>2 ^ 64\<close>.
\<close>

section \<open>The search\<close>

abbreviation "boot_invalid_request \<equiv> kernel_error 80"
abbreviation "boot_exhausted \<equiv> kernel_error 81"

definition ranges_overlap :: "HardwareRange \<Rightarrow> HardwareRange \<Rightarrow> bool" where
  "ranges_overlap l r \<longleftrightarrow> hr_valid l \<and> hr_valid r \<and> hr_base l < hr_end_exclusive r \<and> hr_base r < hr_end_exclusive l"

definition power_of_two :: "u64 \<Rightarrow> bool" where
  "power_of_two val \<longleftrightarrow> val \<noteq> 0 \<and> val AND (val - 1) = 0"

definition align_up :: "u64 \<Rightarrow> u64 \<Rightarrow> u64 option" where
  "align_up val alignment =
     (let msk = alignment - 1 in if val > - 1 - msk then None else Some ((val + msk) AND NOT msk))"

definition candidate_blocked :: "HardwareRange \<Rightarrow> HardwareInventory \<Rightarrow> HardwareRange list \<Rightarrow> HardwareRange option" where
  "candidate_blocked candidate inventory protected_ranges =
     (case find (ranges_overlap candidate) (take (hi_reserved_count inventory) (hi_reserved inventory)) of
        Some blocker \<Rightarrow> Some blocker
      | None \<Rightarrow> find (ranges_overlap candidate) protected_ranges)"

section \<open>Alignment\<close>

lemma unat_bound64: "unat (x :: u64) < 2 ^ 64"
  using unsigned_less [of x] by simp

lemma unat_and_not: "unat (x AND NOT m) = unat x - unat (x AND m)" for x m :: u64
proof -
  have "x = (x AND NOT m) OR (x AND m)" by (rule bit_word_eqI) (auto simp: bit_simps)
  also have "\<dots> = (x AND NOT m) + (x AND m)"
    by (rule disjunctive_add_eq_or [symmetric]) (auto intro!: bit_word_eqI simp: bit_simps)
  finally have "x - (x AND m) = x AND NOT m" by (metis add_diff_cancel_right')
  moreover have "x AND m \<le> x" by (rule word_and_le2)
  ultimately show ?thesis by (metis unat_sub)
qed

lemma not_above_max: "\<not> v > - 1 - m \<longleftrightarrow> unat v + unat m < 2 ^ 64" for v m :: u64
proof -
  have "unat (- 1 - m) = 2 ^ 64 - 1 - unat m" using unat_sub [of m "- 1"] by (simp add: unsigned_minus_1_eq_mask mask_eq_exp_minus_1)
  then show ?thesis using unat_bound64 [of m] by (simp add: word_less_nat_alt) arith
qed

lemma align_up_SomeD:
  assumes "align_up v a = Some w"
  shows "unat w = unat v + unat (a - 1) - unat ((v + (a - 1)) AND (a - 1))"
proof -
  have "unat v + unat (a - 1) < 2 ^ 64" "w = (v + (a - 1)) AND NOT (a - 1)"
    using assms not_above_max [of "a - 1" v] by (auto simp: align_up_def Let_def split: if_splits)
  then show ?thesis by (simp add: unat_and_not unat_word_ariths)
qed

lemma align_up_ge: "align_up v a = Some w \<Longrightarrow> v \<le> w"
proof -
  assume w: "align_up v a = Some w"
  have "unat ((v + (a - 1)) AND (a - 1)) \<le> unat (a - 1)" using word_and_le1 word_le_nat_alt by blast
  then show ?thesis using align_up_SomeD [OF w] by (simp add: word_le_nat_alt)
qed

lemma unat_exp64: "k < 64 \<Longrightarrow> unat (2 ^ k :: u64) = 2 ^ k"
proof -
  assume "k < 64"
  then have "(2 :: nat) ^ k < 2 ^ 64" by (intro power_strict_increasing) simp_all
  then have "unat (of_nat (2 ^ k) :: u64) = 2 ^ k" by (simp only: unat_of_nat) simp
  then show ?thesis by simp
qed

lemma nat_power_of_two: "n \<noteq> 0 \<Longrightarrow> n AND (n - 1) = 0 \<Longrightarrow> \<exists>k. n = 2 ^ k" for n :: nat
proof (induction n rule: less_induct)
  case (less n)
  show ?case
  proof (cases "even n")
    case True
    then obtain m where m: "n = 2 * m" by blast
    then have "m \<noteq> 0" using less.prems by simp
    then have "n - 1 = 2 * (m - 1) + 1" using m by simp
    then have "n AND (n - 1) = 2 * (m AND (m - 1))" unfolding m by (simp add: and_rec [of "2 * m"])
    then have "m AND (m - 1) = 0" using less.prems by simp
    then obtain k where "m = 2 ^ k" using less.IH [of m] m \<open>m \<noteq> 0\<close> by auto
    then have "n = 2 ^ Suc k" using m by simp
    then show ?thesis by blast
  next
    case False
    then obtain m where m: "n = 2 * m + 1" by (elim oddE)
    have "m = 0" using less.prems(2) unfolding m by (simp add: and_rec [of "Suc (2 * m)"])
    then have "n = 2 ^ 0" using m by simp
    then show ?thesis by blast
  qed
qed

lemma power_of_two_exp:
  assumes "power_of_two a"
  obtains k where "k < 64" "unat a = 2 ^ k" "a - 1 = mask k"
proof -
  have a: "a \<noteq> 0" "a AND (a - 1) = 0" using assms by (simp_all add: power_of_two_def)
  then have "unat a AND (unat a - 1) = 0" using unat_minus_one [OF a(1)] by (metis unsigned_and_eq unsigned_0)
  moreover have "unat a \<noteq> 0" using a(1) by (simp add: unat_eq_zero)
  ultimately obtain k where k: "unat a = 2 ^ k" using nat_power_of_two by blast
  have "(2 :: nat) ^ k < 2 ^ 64" using k unat_bound64 [of a] by simp
  then have lt: "k < 64" by (simp only: power_strict_increasing_iff)
  have "a = 2 ^ k" using k unat_exp64 [OF lt] by (simp add: word_unat_eq_iff)
  then have "a - 1 = mask k" by (simp add: mask_eq_exp_minus_1)
  with k lt that show ?thesis by blast
qed

lemma align_up_least:
  assumes a: "power_of_two a"
  shows "align_up v a = Some w \<Longrightarrow> unat a dvd unat w"
    "align_up v a = Some w \<Longrightarrow> unat a dvd b \<Longrightarrow> unat v \<le> b \<Longrightarrow> unat w \<le> b"
    "align_up v a = None \<Longrightarrow> unat a dvd b \<Longrightarrow> b < 2 ^ 64 \<Longrightarrow> b < unat v"
proof -
  obtain k where k: "k < 64" "unat a = 2 ^ k" "a - 1 = mask k" using power_of_two_exp [OF a] .
  let ?A = "(2 :: nat) ^ k"
  have m: "unat (a - 1) = ?A - 1" using k by (metis unat_minus_one a power_of_two_def)
  have S: "unat v + (?A - 1) - (unat v + (?A - 1)) mod ?A = (unat v + (?A - 1)) div ?A * ?A" by (simp add: minus_mod_eq_div_mult)
  have w: "unat w = (unat v + (?A - 1)) div ?A * ?A" if "align_up v a = Some w"
  proof -
    have sum: "unat v + (?A - 1) < 2 ^ 64"
      using that not_above_max [of "a - 1" v] m by (auto simp: align_up_def Let_def split: if_splits)
    have "unat ((v + (a - 1)) AND (a - 1)) = unat (v + (a - 1)) mod ?A"
      unfolding k(3) by (simp add: take_bit_eq_mask [symmetric] take_bit_eq_mod unat_mod unat_exp64 k(1))
    also have "\<dots> = (unat v + (?A - 1)) mod ?A" using sum m by (simp add: unat_word_ariths)
    finally show ?thesis using align_up_SomeD [OF that] m S by simp
  qed
  show "unat a dvd unat w" if "align_up v a = Some w" using w [OF that] k(2) by simp
  show "unat w \<le> b" if h: "align_up v a = Some w" "unat a dvd b" "unat v \<le> b"
  proof -
    obtain q where q: "b = ?A * q" using h(2) k(2) by (auto elim: dvdE)
    have "(unat v + (?A - 1)) div ?A \<le> (?A * q + (?A - 1)) div ?A" using h(3) q by (intro div_le_mono) simp
    also have "\<dots> = q" by (subst div_mult_self4) (simp_all del: One_nat_def)
    finally show ?thesis using w [OF h(1)] q by (simp add: mult.commute)
  qed
  show "b < unat v" if h: "align_up v a = None" "unat a dvd b" "b < 2 ^ 64"
  proof -
    have over: "2 ^ 64 \<le> unat v + (?A - 1)"
      using h(1) not_above_max [of "a - 1" v] m by (auto simp: align_up_def Let_def split: if_splits)
    obtain q where q: "b = ?A * q" using h(2) k(2) by (auto elim: dvdE)
    have p: "(2 :: nat) ^ 64 = ?A * 2 ^ (64 - k)" using k(1) by (simp add: power_add [symmetric])
    have "q < 2 ^ (64 - k)" using h(3) unfolding q p by simp
    then have "?A * (q + 1) \<le> 2 ^ 64" unfolding p by (intro mult_le_mono2) simp
    then show ?thesis using over q by simp
  qed
qed

section \<open>First fit\<close>

text \<open>The loop over one RAM region; \<open>None\<close> is leaving the loop for the next region.\<close>

function select_in_region ::
  "HardwareInventory \<Rightarrow> u64 \<Rightarrow> u64 \<Rightarrow> HardwareRange list \<Rightarrow> HardwareRange \<Rightarrow> u64 \<Rightarrow> HardwareRange result option" where
  "select_in_region inventory bytes alignment protected_ranges memory cursor =
     (if \<not> cursor < hr_end_exclusive memory then None
      else if bytes > hr_end_exclusive memory - cursor then None
      else case candidate_blocked \<lparr>hr_base = cursor, hr_size = bytes\<rparr> inventory protected_ranges of
          None \<Rightarrow> Some (Inr \<lparr>hr_base = cursor, hr_size = bytes\<rparr>)
        | Some blocker \<Rightarrow>
            if \<not> hr_valid blocker \<or> hr_end_exclusive blocker \<le> cursor then Some (Inl boot_invalid_request)
            else (case align_up (hr_end_exclusive blocker) alignment of None \<Rightarrow> None
              | Some cursor \<Rightarrow> select_in_region inventory bytes alignment protected_ranges memory cursor))"
  by pat_completeness auto
termination
proof (relation "measure (\<lambda>(_, _, _, _, _, cursor). 2 ^ 64 - unat cursor)", goal_cases)
  case (2 inventory bytes alignment protected_ranges memory cursor blocker next_cursor)
  then have "cursor < next_cursor" using align_up_ge [OF 2(5)] by auto
  then show ?case using unat_bound64 [of next_cursor] by (simp add: word_less_nat_alt)
qed simp

declare select_in_region.simps [simp del]

fun select_regions :: "HardwareInventory \<Rightarrow> u64 \<Rightarrow> u64 \<Rightarrow> HardwareRange list \<Rightarrow> HardwareRange list \<Rightarrow> HardwareRange result" where
  "select_regions inventory bytes alignment protected_ranges [] = Inl boot_exhausted"
| "select_regions inventory bytes alignment protected_ranges (memory # rest) =
     (if \<not> hr_valid memory then select_regions inventory bytes alignment protected_ranges rest
      else case align_up (hr_base memory) alignment of
        None \<Rightarrow> select_regions inventory bytes alignment protected_ranges rest
      | Some cursor \<Rightarrow> (case select_in_region inventory bytes alignment protected_ranges memory cursor of
            Some r \<Rightarrow> r | None \<Rightarrow> select_regions inventory bytes alignment protected_ranges rest))"

definition select_early_ram :: "HardwareInventory \<Rightarrow> u64 \<Rightarrow> u64 \<Rightarrow> HardwareRange list \<Rightarrow> HardwareRange result" where
  "select_early_ram inventory bytes alignment protected_ranges =
     (if bytes = 0 \<or> \<not> power_of_two alignment then Inl boot_invalid_request
      else select_regions inventory bytes alignment protected_ranges (take (hi_memory_count inventory) (hi_memory inventory)))"

section \<open>The boot plan\<close>

definition bytes_for_pages :: "size_t \<Rightarrow> u64 \<Rightarrow> u64 option" where
  "bytes_for_pages pages page_size =
     (if pages = 0 \<or> page_size = 0 then None
      else if pages > - 1 div page_size then None else Some (pages * page_size))"

record EarlyBootMemoryPlan =
  bp_page_tables :: HardwareRange
  bp_kernel_stack :: HardwareRange

definition bp_valid :: "EarlyBootMemoryPlan \<Rightarrow> bool" where
  "bp_valid p \<longleftrightarrow> hr_valid (bp_page_tables p) \<and> hr_valid (bp_kernel_stack p) \<and>
     \<not> ranges_overlap (bp_page_tables p) (bp_kernel_stack p)"

abbreviation max_boot_protected :: nat where "max_boot_protected \<equiv> 32"

definition plan_early_boot_memory ::
  "HardwareInventory \<Rightarrow> HardwareRange list \<Rightarrow> size_t \<Rightarrow> size_t \<Rightarrow> u64 \<Rightarrow> EarlyBootMemoryPlan result" where
  "plan_early_boot_memory inventory protected_ranges page_table_pages stack_pages page_size =
     (case bytes_for_pages page_table_pages page_size of None \<Rightarrow> Inl boot_invalid_request
      | Some table_bytes \<Rightarrow>
      (case bytes_for_pages stack_pages page_size of None \<Rightarrow> Inl boot_invalid_request
      | Some stack_bytes \<Rightarrow>
      (case select_early_ram inventory table_bytes page_size protected_ranges of Inl e \<Rightarrow> Inl e
      | Inr tables \<Rightarrow>
        if length protected_ranges \<ge> max_boot_protected then Inl boot_exhausted
        else (case select_early_ram inventory stack_bytes page_size (protected_ranges @ [tables]) of Inl e \<Rightarrow> Inl e
          | Inr stack \<Rightarrow>
            let plan = \<lparr>bp_page_tables = tables, bp_kernel_stack = stack\<rparr>
            in if \<not> bp_valid plan then Inl boot_invalid_request else Inr plan))))"

section \<open>What the search promises\<close>

text \<open>A range as its addresses; the ranges whose exclusive end the code can represent; and the addresses \<open>b\<close> at which
  a request fits a region: aligned, inside the region, and clear of every blocker the code sees.\<close>

definition hr_bytes :: "HardwareRange \<Rightarrow> nat set" where
  "hr_bytes r = {unat (hr_base r) ..< unat (hr_base r) + unat (hr_size r)}"

definition hr_seen :: "HardwareRange \<Rightarrow> bool" where
  "hr_seen r \<longleftrightarrow> hr_size r \<noteq> 0 \<and> unat (hr_base r) + unat (hr_size r) < 2 ^ 64"

definition blockers :: "HardwareInventory \<Rightarrow> HardwareRange list \<Rightarrow> HardwareRange set" where
  "blockers inventory protected_ranges =
     set (take (hi_reserved_count inventory) (hi_reserved inventory)) \<union> set protected_ranges"

definition fits :: "HardwareInventory \<Rightarrow> u64 \<Rightarrow> u64 \<Rightarrow> HardwareRange list \<Rightarrow> HardwareRange \<Rightarrow> nat \<Rightarrow> bool" where
  "fits inventory bytes alignment protected_ranges memory b \<longleftrightarrow>
     hr_seen memory \<and> unat alignment dvd b \<and> {b ..< b + unat bytes} \<subseteq> hr_bytes memory \<and>
     (\<forall>r \<in> blockers inventory protected_ranges. hr_seen r \<longrightarrow> {b ..< b + unat bytes} \<inter> hr_bytes r = {})"

lemma hr_valid_iff: "hr_valid r \<longleftrightarrow> hr_size r \<noteq> 0 \<and> unat (hr_base r) + unat (hr_size r) \<le> 2 ^ 64"
proof (cases "hr_size r = 0")
  case False
  then have "unat (hr_size r - 1) = unat (hr_size r) - 1" "unat (hr_size r) > 0"
    by (simp_all add: unat_minus_one unat_gt_0)
  then show ?thesis using not_above_max [of "hr_size r - 1" "hr_base r"] False
    by (auto simp: hr_valid_def linorder_not_less)
qed (simp add: hr_valid_def)

lemma hr_end_unat: "unat (hr_end_exclusive r) = (if hr_seen r then unat (hr_base r) + unat (hr_size r) else 0)"
proof (cases "hr_valid r \<and> \<not> hr_seen r")
  case True
  then have "unat (hr_base r) + unat (hr_size r) = 2 ^ 64" by (auto simp: hr_valid_iff hr_seen_def)
  then show ?thesis using True by (simp add: hr_end_exclusive_def unat_word_ariths)
next
  case False
  then show ?thesis by (auto simp: hr_end_exclusive_def hr_valid_iff hr_seen_def unat_word_ariths)
qed

lemma hr_seen_valid: "hr_seen r \<Longrightarrow> hr_valid r"
  by (simp add: hr_seen_def hr_valid_iff)

lemma ranges_overlap_iff: "ranges_overlap l r \<longleftrightarrow> hr_seen l \<and> hr_seen r \<and> hr_bytes l \<inter> hr_bytes r \<noteq> {}"
proof (cases "hr_seen l \<and> hr_seen r")
  case True
  then have pos: "unat (hr_size l) > 0" "unat (hr_size r) > 0" by (simp_all add: hr_seen_def unat_gt_0)
  have "hr_bytes l \<inter> hr_bytes r \<noteq> {} \<longleftrightarrow>
      unat (hr_base l) < unat (hr_base r) + unat (hr_size r) \<and> unat (hr_base r) < unat (hr_base l) + unat (hr_size l)"
    using pos by (auto simp: hr_bytes_def)
  then show ?thesis using True by (simp add: ranges_overlap_def hr_seen_valid word_less_nat_alt hr_end_unat)
next
  case False
  then show ?thesis by (auto simp: ranges_overlap_def word_less_nat_alt hr_end_unat)
qed

lemma find_Some_set: "find P xs = Some x \<Longrightarrow> x \<in> set xs \<and> P x"
  by (induction xs) (auto split: if_splits)

lemma candidate_blocked_None:
  "candidate_blocked c i ps = None \<longleftrightarrow> (\<forall>r \<in> blockers i ps. \<not> ranges_overlap c r)"
  using find_Some_set [of "ranges_overlap c"]
  by (auto simp: candidate_blocked_def blockers_def find_None_iff split: option.splits)

lemma candidate_blocked_Some: "candidate_blocked c i ps = Some r \<Longrightarrow> r \<in> blockers i ps \<and> ranges_overlap c r"
  by (auto simp: candidate_blocked_def blockers_def split: option.splits dest: find_Some_set)

lemma fits_dvd: "fits i bytes a ps m b \<Longrightarrow> unat a dvd b"
  by (simp add: fits_def)

lemma fits_not_below_region: "fits i bytes a ps m b \<Longrightarrow> bytes \<noteq> 0 \<Longrightarrow> unat (hr_base m) \<le> b \<and> b + unat bytes \<le> unat (hr_end_exclusive m)"
proof -
  assume f: "fits i bytes a ps m b" and "bytes \<noteq> 0"
  then have "unat bytes > 0" by (simp add: unat_gt_0)
  then show ?thesis using f by (auto simp: fits_def hr_bytes_def hr_end_unat)
qed

text \<open>A blocked address takes with it every address up to the end of its blocker.\<close>

lemma blocked_until_end:
  assumes "candidate_blocked \<lparr>hr_base = cursor, hr_size = bytes\<rparr> i ps = Some blocker" "bytes \<noteq> 0" "unat cursor \<le> b"
    "fits i bytes a ps m b"
  shows "unat (hr_end_exclusive blocker) \<le> b"
proof (rule ccontr)
  assume lt: "\<not> unat (hr_end_exclusive blocker) \<le> b"
  have o: "blocker \<in> blockers i ps" "hr_seen blocker"
    "hr_bytes \<lparr>hr_base = cursor, hr_size = bytes\<rparr> \<inter> hr_bytes blocker \<noteq> {}"
    using candidate_blocked_Some [OF assms(1)] by (simp_all add: ranges_overlap_iff)
  have "unat bytes > 0" using assms(2) by (simp add: unat_gt_0)
  then have "max b (unat (hr_base blocker)) \<in> {b ..< b + unat bytes} \<inter> hr_bytes blocker"
    using o(2,3) lt assms(3) by (auto simp: hr_bytes_def hr_end_unat max_def)
  moreover have "{b ..< b + unat bytes} \<inter> hr_bytes blocker = {}" using assms(4) o(1,2) unfolding fits_def by blast
  ultimately show False by blast
qed

lemma unblocked_fits:
  assumes "candidate_blocked \<lparr>hr_base = cursor, hr_size = bytes\<rparr> i ps = None" "bytes \<noteq> 0" "unat a dvd unat cursor"
    "unat (hr_base m) \<le> unat cursor" "cursor < hr_end_exclusive m" "\<not> bytes > hr_end_exclusive m - cursor"
  shows "fits i bytes a ps m (unat cursor)"
proof -
  have m: "hr_seen m" using assms(5) by (auto simp: word_less_nat_alt hr_end_unat split: if_splits)
  have le: "unat cursor + unat bytes \<le> unat (hr_end_exclusive m)"
    using assms(5,6) unat_sub [of cursor "hr_end_exclusive m"] by (simp add: word_less_nat_alt word_le_nat_alt)
  then have sub: "{unat cursor ..< unat cursor + unat bytes} \<subseteq> hr_bytes m"
    using assms(4) m by (auto simp: hr_bytes_def hr_end_unat)
  have "unat cursor + unat bytes < 2 ^ 64" using le unat_bound64 [of "hr_end_exclusive m"] by linarith
  then have "hr_seen \<lparr>hr_base = cursor, hr_size = bytes\<rparr>" using assms(2) by (simp add: hr_seen_def)
  then have "{unat cursor ..< unat cursor + unat bytes} \<inter> hr_bytes r = {}" if "r \<in> blockers i ps" "hr_seen r" for r
    using assms(1) that by (auto simp: candidate_blocked_None ranges_overlap_iff hr_bytes_def)
  then show ?thesis using m sub assms(3) by (simp add: fits_def)
qed

definition first_fit_in ::
  "HardwareInventory \<Rightarrow> u64 \<Rightarrow> u64 \<Rightarrow> HardwareRange list \<Rightarrow> HardwareRange \<Rightarrow> HardwareRange result option \<Rightarrow> bool" where
  "first_fit_in i bytes a ps m out \<longleftrightarrow>
     (case out of None \<Rightarrow> \<forall>b. \<not> fits i bytes a ps m b
      | Some (Inl e) \<Rightarrow> False
      | Some (Inr r) \<Rightarrow> hr_size r = bytes \<and> fits i bytes a ps m (unat (hr_base r)) \<and>
          (\<forall>b < unat (hr_base r). \<not> fits i bytes a ps m b))"

lemma select_in_region_first_fit:
  "power_of_two a \<Longrightarrow> bytes \<noteq> 0 \<Longrightarrow> unat a dvd unat cursor \<Longrightarrow> unat (hr_base m) \<le> unat cursor \<Longrightarrow>
   (\<forall>b < unat cursor. \<not> fits i bytes a ps m b) \<Longrightarrow>
   first_fit_in i bytes a ps m (select_in_region i bytes a ps m cursor)"
proof (induction i bytes a ps m cursor rule: select_in_region.induct)
  case (1 i bytes a ps m cursor)
  have low: "unat cursor \<le> b" if "fits i bytes a ps m b" for b using "1.prems"(5) that by (meson not_le)
  show ?case
  proof (cases "cursor < hr_end_exclusive m \<and> \<not> bytes > hr_end_exclusive m - cursor")
    case False
    have "unat bytes > 0" using "1.prems"(2) by (simp add: unat_gt_0)
    then have "\<not> fits i bytes a ps m b" for b
      using False low [of b] fits_not_below_region [of i bytes a ps m b] "1.prems"(2) unat_sub [of cursor "hr_end_exclusive m"]
      by (auto simp: word_less_nat_alt word_le_nat_alt)
    then show ?thesis using False by (subst select_in_region.simps) (auto simp: first_fit_in_def)
  next
    case True
    show ?thesis
    proof (cases "candidate_blocked \<lparr>hr_base = cursor, hr_size = bytes\<rparr> i ps")
      case None
      then show ?thesis using True unblocked_fits [OF None "1.prems"(2-4)] "1.prems"(5)
        by (subst select_in_region.simps) (simp add: first_fit_in_def)
    next
      case (Some blocker)
      have above: "unat (hr_end_exclusive blocker) \<le> b" if "fits i bytes a ps m b" for b
        using blocked_until_end [OF Some "1.prems"(2) low [OF that] that] .
      have ov: "ranges_overlap \<lparr>hr_base = cursor, hr_size = bytes\<rparr> blocker" using candidate_blocked_Some [OF Some] by simp
      then have ok: "\<not> (\<not> hr_valid blocker \<or> hr_end_exclusive blocker \<le> cursor)" by (auto simp: ranges_overlap_def)
      show ?thesis
      proof (cases "align_up (hr_end_exclusive blocker) a")
        case None
        have "\<not> fits i bytes a ps m b" for b
        proof
          assume f: "fits i bytes a ps m b"
          then have "b < 2 ^ 64" using fits_not_below_region [OF f "1.prems"(2)] unat_bound64 [of "hr_end_exclusive m"] by linarith
          then show False using above [OF f] align_up_least(3) [OF "1.prems"(1) None fits_dvd [OF f]] by linarith
        qed
        then show ?thesis using True Some ok None by (subst select_in_region.simps) (simp add: first_fit_in_def)
      next
        case (Some c)
        note c = align_up_least(1,2) [OF "1.prems"(1) Some]
        have "cursor \<le> c" using align_up_ge [OF Some] ok by auto
        moreover have "\<not> fits i bytes a ps m b" if "b < unat c" for b
          using c(2) [of b] above [of b] that fits_dvd by (meson not_le)
        ultimately have "first_fit_in i bytes a ps m (select_in_region i bytes a ps m c)"
          using "1.IH" [OF _ _ \<open>candidate_blocked _ i ps = Some blocker\<close> ok Some "1.prems"(1,2) c(1)] True "1.prems"(4)
          by (auto simp: word_le_nat_alt)
        then show ?thesis using True \<open>candidate_blocked _ i ps = Some blocker\<close> ok Some
          by (subst select_in_region.simps) simp
      qed
    qed
  qed
qed

text \<open>The answer of a search through a list of regions.\<close>

definition first_fit ::
  "HardwareInventory \<Rightarrow> u64 \<Rightarrow> u64 \<Rightarrow> HardwareRange list \<Rightarrow> HardwareRange list \<Rightarrow> HardwareRange result \<Rightarrow> bool" where
  "first_fit i bytes a ps ms out \<longleftrightarrow>
     (case out of
        Inl e \<Rightarrow> e = boot_exhausted \<and> (\<forall>m \<in> set ms. \<forall>b. \<not> fits i bytes a ps m b)
      | Inr r \<Rightarrow> hr_size r = bytes \<and>
          (\<exists>n < length ms. fits i bytes a ps (ms ! n) (unat (hr_base r)) \<and>
             (\<forall>b < unat (hr_base r). \<not> fits i bytes a ps (ms ! n) b) \<and>
             (\<forall>j < n. \<forall>b. \<not> fits i bytes a ps (ms ! j) b)))"

lemma first_fit_skip:
  assumes "\<forall>b. \<not> fits i bytes a ps m b" "first_fit i bytes a ps ms out"
  shows "first_fit i bytes a ps (m # ms) out"
proof (cases out)
  case (Inr r)
  then obtain n where n: "n < length ms" "fits i bytes a ps (ms ! n) (unat (hr_base r))"
    "\<forall>b < unat (hr_base r). \<not> fits i bytes a ps (ms ! n) b" "\<forall>j < n. \<forall>b. \<not> fits i bytes a ps (ms ! j) b" "hr_size r = bytes"
    using assms(2) by (auto simp: first_fit_def)
  then show ?thesis unfolding first_fit_def Inr sum.case
    using assms(1) by (intro conjI exI [of _ "Suc n"]) (auto simp: less_Suc_eq_0_disj)
qed (use assms in \<open>simp add: first_fit_def\<close>)

lemma select_regions_first_fit:
  "power_of_two a \<Longrightarrow> bytes \<noteq> 0 \<Longrightarrow> first_fit i bytes a ps ms (select_regions i bytes a ps ms)"
proof (induction ms)
  case Nil
  then show ?case by (simp add: first_fit_def)
next
  case (Cons m ms)
  show ?case
  proof (cases "\<not> hr_valid m \<or> align_up (hr_base m) a = None")
    case True
    have "\<not> fits i bytes a ps m b" for b
    proof
      assume f: "fits i bytes a ps m b"
      then have "hr_valid m" by (simp add: fits_def hr_seen_valid)
      with True have "align_up (hr_base m) a = None" by simp
      moreover have "unat a dvd b" using f by (simp add: fits_def)
      ultimately show False
        using align_up_least(3) [OF Cons.prems(1), of "hr_base m" b] fits_not_below_region [OF f Cons.prems(2)]
          unat_bound64 [of "hr_end_exclusive m"] by linarith
    qed
    then show ?thesis using True Cons first_fit_skip by auto
  next
    case False
    then obtain c where c: "align_up (hr_base m) a = Some c" and v: "hr_valid m" by auto
    have "\<not> fits i bytes a ps m b" if "b < unat c" for b
      using align_up_least(2) [OF Cons.prems(1) c, of b] fits_not_below_region [of i bytes a ps m b] Cons.prems(2) that fits_dvd
      by (meson not_le)
    then have "first_fit_in i bytes a ps m (select_in_region i bytes a ps m c)"
      using align_up_least(1) [OF Cons.prems(1) c] align_up_ge [OF c] Cons.prems
      by (intro select_in_region_first_fit) (auto simp: word_le_nat_alt)
    then show ?thesis using c v Cons first_fit_skip
      by (auto simp: first_fit_in_def split: option.splits sum.splits) (auto simp: first_fit_def)
  qed
qed

text \<open>The specification, over plain sets of addresses: where a region has room for a request.\<close>

definition has_room :: "HardwareRange set \<Rightarrow> u64 \<Rightarrow> nat \<Rightarrow> HardwareRange \<Rightarrow> nat \<Rightarrow> bool" where
  "has_room occupied bytes alignment memory b \<longleftrightarrow>
     alignment dvd b \<and> {b ..< b + unat bytes} \<subseteq> hr_bytes memory \<and>
     (\<forall>r \<in> occupied. {b ..< b + unat bytes} \<inter> hr_bytes r = {})"

definition ends_below_top :: "HardwareRange \<Rightarrow> bool" where
  "ends_below_top r \<longleftrightarrow> unat (hr_base r) + unat (hr_size r) < 2 ^ 64"

lemma hr_bytes_unseen: "ends_below_top r \<Longrightarrow> \<not> hr_seen r \<Longrightarrow> hr_bytes r = {}"
  by (auto simp: ends_below_top_def hr_seen_def hr_bytes_def)

lemma fits_has_room:
  assumes "bytes \<noteq> 0" "ends_below_top m" "\<forall>r \<in> blockers i ps. ends_below_top r"
  shows "fits i bytes a ps m b \<longleftrightarrow> has_room (blockers i ps) bytes (unat a) m b"
proof -
  have "unat bytes > 0" using assms(1) by (simp add: unat_gt_0)
  then have "hr_seen m" if "{b ..< b + unat bytes} \<subseteq> hr_bytes m"
    using that hr_bytes_unseen [OF assms(2)] by (cases "hr_seen m") auto
  moreover have "(\<forall>r \<in> blockers i ps. hr_seen r \<longrightarrow> {b ..< b + unat bytes} \<inter> hr_bytes r = {}) \<longleftrightarrow>
      (\<forall>r \<in> blockers i ps. {b ..< b + unat bytes} \<inter> hr_bytes r = {})"
    using hr_bytes_unseen assms(3) by blast
  ultimately show ?thesis by (auto simp: fits_def has_room_def)
qed

lemma power_of_two_of_exp:
  assumes "unat a = 2 ^ k"
  shows "power_of_two a"
proof -
  have "(2 :: nat) ^ k < 2 ^ 64" using assms unat_bound64 [of a] by simp
  then have "k < 64" by (simp only: power_strict_increasing_iff)
  then have a: "a = 2 ^ k" using assms unat_exp64 [of k] by (simp add: word_unat_eq_iff)
  have "(2 :: u64) ^ k AND mask k = 0" by (rule bit_word_eqI) (auto simp: bit_simps)
  moreover have "a - 1 = mask k" by (simp add: a mask_eq_exp_minus_1)
  moreover have "a \<noteq> 0" using assms by (metis power_not_zero unat_0 zero_neq_numeral)
  ultimately show ?thesis by (simp add: power_of_two_def a)
qed

text \<open>C21: Early RAM is found by first fit.  Take a request of at least one byte, aligned to a power of two, and an inventory whose RAM
  regions and reservations, and protected ranges, all end below \<open>2 ^ 64\<close>.  Then the answer has the requested
  size and lies, aligned, inside the first RAM region that has room, at the lowest address there that is clear of every
  reservation and every protected range; and the search fails, always with \<open>exhausted\<close>, exactly when no region has
  room.  (A range that ends exactly at \<open>2 ^ 64\<close> is valid for the code but ignored by the search, so the hypothesis is needed.)\<close>

theorem select_early_ram_first_fit:
  assumes "bytes \<noteq> 0" "unat alignment = 2 ^ k"
    and "occupied = set (take (hi_reserved_count inventory) (hi_reserved inventory)) \<union> set protected_ranges"
    and "regions = take (hi_memory_count inventory) (hi_memory inventory)"
    and "\<forall>r \<in> set regions \<union> occupied. unat (hr_base r) + unat (hr_size r) < 2 ^ 64"
  shows "case select_early_ram inventory bytes alignment protected_ranges of
      Inl e \<Rightarrow> e = boot_exhausted \<and> (\<forall>m \<in> set regions. \<forall>b. \<not> has_room occupied bytes (2 ^ k) m b)
    | Inr r \<Rightarrow> hr_size r = bytes \<and>
        (\<exists>n < length regions. has_room occupied bytes (2 ^ k) (regions ! n) (unat (hr_base r)) \<and>
           (\<forall>b < unat (hr_base r). \<not> has_room occupied bytes (2 ^ k) (regions ! n) b) \<and>
           (\<forall>j < n. \<forall>b. \<not> has_room occupied bytes (2 ^ k) (regions ! j) b))"
proof -
  note pow = power_of_two_of_exp [OF assms(2)]
  have occ: "occupied = blockers inventory protected_ranges" using assms(3) by (simp add: blockers_def)
  have low: "\<forall>r \<in> blockers inventory protected_ranges. ends_below_top r" "\<And>m. m \<in> set regions \<Longrightarrow> ends_below_top m"
    using assms(5) occ by (auto simp: ends_below_top_def)
  have room: "fits inventory bytes alignment protected_ranges m b \<longleftrightarrow> has_room occupied bytes (2 ^ k) m b"
    if "m \<in> set regions" for m b
    using fits_has_room [OF assms(1) low(2) [OF that] low(1)] assms(2) occ by simp
  have "first_fit inventory bytes alignment protected_ranges regions
      (select_early_ram inventory bytes alignment protected_ranges)"
    using select_regions_first_fit [OF pow assms(1)] assms(1,4) pow by (simp add: select_early_ram_def)
  then show ?thesis
    unfolding first_fit_def using room by (auto split: sum.splits)
qed

definition sample_inventory :: HardwareInventory where
  "sample_inventory = hi_empty\<lparr>hi_memory := \<lparr>hr_base = 0x40000000, hr_size = 0x10000\<rparr> # replicate 7 hr_empty, hi_memory_count := 1,
     hi_reserved := \<lparr>hr_base = 0x40000000, hr_size = 0x1000\<rparr> # replicate 15 hr_empty, hi_reserved_count := 1\<rparr>"

lemmas search_simps = select_early_ram_def select_in_region.simps candidate_blocked_def ranges_overlap_def hr_valid_def
  hr_end_exclusive_def align_up_def power_of_two_def Let_def

theorem select_early_ram_first_fit_witness:
  "select_early_ram sample_inventory 0x2000 0x1000 [\<lparr>hr_base = 0x40002000, hr_size = 0x1000\<rparr>] =
     Inr \<lparr>hr_base = 0x40003000, hr_size = 0x2000\<rparr> \<and>
   has_room {\<lparr>hr_base = 0x40000000, hr_size = 0x1000\<rparr>, \<lparr>hr_base = 0x40002000, hr_size = 0x1000\<rparr>} 0x2000 (2 ^ 12)
     \<lparr>hr_base = 0x40000000, hr_size = 0x10000\<rparr> 0x40003000 \<and>
   \<not> has_room {\<lparr>hr_base = 0x40000000, hr_size = 0x1000\<rparr>, \<lparr>hr_base = 0x40002000, hr_size = 0x1000\<rparr>}
     0x2000 (2 ^ 12) \<lparr>hr_base = 0x40000000, hr_size = 0x10000\<rparr> 0x40001000"
proof -
  let ?ps = "[\<lparr>hr_base = 0x40002000, hr_size = 0x1000\<rparr>] :: HardwareRange list"
  have sel: "select_early_ram sample_inventory 0x2000 0x1000 ?ps = Inr \<lparr>hr_base = 0x40003000, hr_size = 0x2000\<rparr>"
    by (simp add: search_simps sample_inventory_def)
  have occ: "{\<lparr>hr_base = 0x40000000, hr_size = 0x1000\<rparr>, \<lparr>hr_base = 0x40002000, hr_size = 0x1000\<rparr>} =
      set (take (hi_reserved_count sample_inventory) (hi_reserved sample_inventory)) \<union> set ?ps"
    by (simp add: sample_inventory_def insert_commute)
  have reg: "[\<lparr>hr_base = 0x40000000, hr_size = 0x10000\<rparr>] = take (hi_memory_count sample_inventory) (hi_memory sample_inventory)"
    by (simp add: sample_inventory_def)
  have "(0x2000 :: u64) \<noteq> 0" "unat (0x1000 :: u64) = 2 ^ 12" by simp_all
  from select_early_ram_first_fit [OF this occ reg] sel show ?thesis by simp
qed

section \<open>The plan\<close>

lemma bytes_for_pages_exact:
  assumes "bytes_for_pages pages page_size = Some bytes"
  shows "unat bytes = unat pages * unat page_size" "bytes \<noteq> 0"
proof -
  have p: "pages \<noteq> 0" "page_size \<noteq> 0" "pages \<le> - 1 div page_size" "bytes = pages * page_size"
    using assms by (auto simp: bytes_for_pages_def linorder_not_less split: if_splits)
  have "unat pages \<le> (2 ^ 64 - 1) div unat page_size"
    using p(3) by (simp add: word_le_nat_alt unat_div unsigned_minus_1_eq_mask mask_eq_exp_minus_1)
  then have "unat pages * unat page_size \<le> 2 ^ 64 - 1"
    by (meson div_times_less_eq_dividend le_trans mult_le_mono1)
  then show "unat bytes = unat pages * unat page_size" unfolding p(4) by (simp add: unat_word_ariths)
  then show "bytes \<noteq> 0" using p(1,2) by (metis mult_is_0 unat_0 unat_eq_zero)
qed

text \<open>A range carved for a request: aligned, inside one RAM region, and apart from every blocker that ends below the top.\<close>

definition carved :: "HardwareInventory \<Rightarrow> HardwareRange list \<Rightarrow> u64 \<Rightarrow> HardwareRange \<Rightarrow> bool" where
  "carved inventory protected_ranges alignment r \<longleftrightarrow>
     hr_seen r \<and> unat alignment dvd unat (hr_base r) \<and>
     (\<exists>m \<in> set (take (hi_memory_count inventory) (hi_memory inventory)). hr_bytes r \<subseteq> hr_bytes m) \<and>
     (\<forall>b \<in> blockers inventory protected_ranges. ends_below_top b \<longrightarrow> hr_bytes r \<inter> hr_bytes b = {})"

lemma select_carves:
  assumes "select_early_ram i bytes a ps = Inr r"
  shows "carved i ps a r" "hr_size r = bytes"
proof -
  have ok: "bytes \<noteq> 0" "power_of_two a" using assms by (auto simp: select_early_ram_def split: if_splits)
  have "first_fit i bytes a ps (take (hi_memory_count i) (hi_memory i)) (Inr r)"
    using select_regions_first_fit [OF ok(2,1), of i ps "take (hi_memory_count i) (hi_memory i)"] assms ok by (simp add: select_early_ram_def)
  then obtain n where n: "n < length (take (hi_memory_count i) (hi_memory i))"
    "fits i bytes a ps (take (hi_memory_count i) (hi_memory i) ! n) (unat (hr_base r))" and s: "hr_size r = bytes"
    by (auto simp: first_fit_def)
  define m where "m = take (hi_memory_count i) (hi_memory i) ! n"
  have m: "m \<in> set (take (hi_memory_count i) (hi_memory i))" unfolding m_def using n(1) by (rule nth_mem)
  have f: "fits i bytes a ps m (unat (hr_base r))" using n(2) by (simp add: m_def)
  have "hr_seen r" using fits_not_below_region [OF f ok(1)] s ok(1) unat_bound64 [of "hr_end_exclusive m"]
    by (simp add: hr_seen_def)
  moreover have "hr_bytes r \<inter> hr_bytes b = {}" if "b \<in> blockers i ps" "ends_below_top b" for b
    using f that s hr_bytes_unseen [OF that(2)] by (cases "hr_seen b") (auto simp: fits_def hr_bytes_def)
  ultimately show "carved i ps a r" using f m s by (auto simp: carved_def fits_def hr_bytes_def)
  show "hr_size r = bytes" by (rule s)
qed

lemma plan_selects:
  assumes "plan_early_boot_memory inventory protected_ranges page_table_pages stack_pages page_size = Inr p"
  obtains tb sb where "bytes_for_pages page_table_pages page_size = Some tb" "bytes_for_pages stack_pages page_size = Some sb"
    "select_early_ram inventory tb page_size protected_ranges = Inr (bp_page_tables p)"
    "select_early_ram inventory sb page_size (protected_ranges @ [bp_page_tables p]) = Inr (bp_kernel_stack p)"
  using assms that by (auto simp: plan_early_boot_memory_def Let_def split: option.splits sum.splits if_splits)

text \<open>C22: A boot plan that is returned is safe.  The page-table arena and the kernel stack have exactly the requested numbers of pages, start
  on page boundaries, each lie inside one discovered RAM region, do not overlap each other, and touch no reservation of the
  inventory and no protected range that ends below \<open>2 ^ 64\<close>.  (Of a range that ends exactly at \<open>2 ^ 64\<close> nothing is said: the
  code does not see it.)\<close>

theorem boot_plan_safe:
  assumes "plan_early_boot_memory inventory protected_ranges page_table_pages stack_pages page_size = Inr p"
    and "tables = {unat (hr_base (bp_page_tables p)) ..< unat (hr_base (bp_page_tables p)) + unat (hr_size (bp_page_tables p))}"
    and "stack = {unat (hr_base (bp_kernel_stack p)) ..< unat (hr_base (bp_kernel_stack p)) + unat (hr_size (bp_kernel_stack p))}"
  shows "unat (hr_size (bp_page_tables p)) = unat page_table_pages * unat page_size \<and>
    unat (hr_size (bp_kernel_stack p)) = unat stack_pages * unat page_size \<and>
    unat page_size dvd unat (hr_base (bp_page_tables p)) \<and> unat page_size dvd unat (hr_base (bp_kernel_stack p)) \<and>
    (\<exists>m \<in> set (take (hi_memory_count inventory) (hi_memory inventory)). tables \<subseteq> hr_bytes m) \<and>
    (\<exists>m \<in> set (take (hi_memory_count inventory) (hi_memory inventory)). stack \<subseteq> hr_bytes m) \<and>
    tables \<inter> stack = {} \<and>
    (\<forall>b \<in> set (take (hi_reserved_count inventory) (hi_reserved inventory)) \<union> set protected_ranges.
       unat (hr_base b) + unat (hr_size b) < 2 ^ 64 \<longrightarrow> hr_bytes b \<inter> (tables \<union> stack) = {})"
proof -
  obtain tb sb where b: "bytes_for_pages page_table_pages page_size = Some tb" "bytes_for_pages stack_pages page_size = Some sb"
    and sel: "select_early_ram inventory tb page_size protected_ranges = Inr (bp_page_tables p)"
      "select_early_ram inventory sb page_size (protected_ranges @ [bp_page_tables p]) = Inr (bp_kernel_stack p)"
    using plan_selects [OF assms(1)] .
  note t = select_carves [OF sel(1)] and s = select_carves [OF sel(2)]
  have sets: "tables = hr_bytes (bp_page_tables p)" "stack = hr_bytes (bp_kernel_stack p)"
    using assms(2,3) by (simp_all add: hr_bytes_def)
  have "ends_below_top (bp_page_tables p)" using t(1) by (simp add: carved_def hr_seen_def ends_below_top_def)
  then have "tables \<inter> stack = {}" unfolding sets using s(1) by (auto simp: carved_def blockers_def)
  moreover have "hr_bytes r \<inter> (tables \<union> stack) = {}"
    if "r \<in> set (take (hi_reserved_count inventory) (hi_reserved inventory)) \<union> set protected_ranges"
      "unat (hr_base r) + unat (hr_size r) < 2 ^ 64" for r
    unfolding sets using t(1) s(1) that by (auto simp: carved_def blockers_def ends_below_top_def)
  ultimately show ?thesis
    using t s bytes_for_pages_exact(1) [OF b(1)] bytes_for_pages_exact(1) [OF b(2)]
    unfolding sets carved_def by blast
qed

theorem boot_plan_safe_witness:
  "\<exists>p. plan_early_boot_memory sample_inventory [] 1 2 0x1000 = Inr p \<and>
     unat (hr_size (bp_page_tables p)) = 4096 \<and> unat (hr_size (bp_kernel_stack p)) = 8192 \<and>
     {0x40000000 ..< 0x40001000 :: nat} \<inter> {unat (hr_base (bp_page_tables p)) ..< unat (hr_base (bp_page_tables p)) + 4096} = {}"
proof -
  have plan: "plan_early_boot_memory sample_inventory [] 1 2 0x1000 =
     Inr \<lparr>bp_page_tables = \<lparr>hr_base = 0x40001000, hr_size = 0x1000\<rparr>, bp_kernel_stack = \<lparr>hr_base = 0x40002000, hr_size = 0x2000\<rparr>\<rparr>"
    by (simp add: plan_early_boot_memory_def bytes_for_pages_def search_simps sample_inventory_def bp_valid_def)
  from boot_plan_safe [OF plan refl refl] plan show ?thesis
    by (simp add: sample_inventory_def hr_bytes_def Int_Un_distrib)
qed

text \<open>C23: From the firmware's bytes to the kernel's first memory: whenever a blob parses, its hardware is discovered and a boot plan is
  made from the inventory, then for every entry of the blob's memory-reservation block that ends below \<open>2 ^ 64\<close>, neither the
  page-table arena nor the kernel stack touches an address it reserves; and everything the inventory lists is a valid range.  An
  entry that ends exactly at \<open>2 ^ 64\<close> parses too, but the boot memory search does not see it and nothing is
  promised for it.\<close>

theorem boot_spares_reservations:
  assumes "fdt_parse blob = Inr v" "discover_hardware v = Inr inventory"
    "plan_early_boot_memory inventory protected_ranges page_table_pages stack_pages page_size = Inr p"
  shows "\<exists>rs. fdt_walk_reservations v (Some (\<lambda>seen addr extent. (True, seen @ [(addr, extent)]))) [] = (Inr (), rs) \<and>
    hi_ok inventory \<and>
    (\<forall>(addr, extent) \<in> set rs. unat addr + unat extent < 2 ^ 64 \<longrightarrow>
      {unat addr ..< unat addr + unat extent} \<inter> (hr_bytes (bp_page_tables p) \<union> hr_bytes (bp_kernel_stack p)) = {})"
proof (intro exI conjI ballI)
  let ?rs = "reservation_entries blob (fv_structure_offset v) (fv_reservation_offset v)"
  have rec: "run_reservations (Some (\<lambda>seen addr extent. (True, seen @ [(addr, extent)]))) rs seen = seen @ rs" for rs seen
    by (induction rs arbitrary: seen) auto
  show "fdt_walk_reservations v (Some (\<lambda>seen addr extent. (True, seen @ [(addr, extent)]))) [] = (Inr (), ?rs)"
    unfolding parsed_reservations(2) [OF assms(1)] rec by simp
  show "hi_ok inventory" by (rule discover_hardware_wf [OF assms(2)])
  have carved: "carved inventory protected_ranges page_size (bp_page_tables p)"
    "carved inventory (protected_ranges @ [bp_page_tables p]) page_size (bp_kernel_stack p)"
    using plan_selects [OF assms(3)] select_carves(1) by metis+
  fix r assume r: "r \<in> set ?rs"
  obtain addr extent where ae: "r = (addr, extent)" by (cases r)
  have "range_of r \<in> blockers inventory ps" for ps
    using discover_keeps_reservations [OF assms(1,2) r] by (simp add: blockers_def)
  moreover have "extent \<noteq> 0" using parsed_reservations(1) [OF assms(1)] r by (auto simp: list_all_iff ae reservation_ok_def)
  ultimately have "hr_bytes (bp_page_tables p) \<inter> hr_bytes (range_of r) = {} \<and> hr_bytes (bp_kernel_stack p) \<inter> hr_bytes (range_of r) = {}"
    if "unat addr + unat extent < 2 ^ 64"
    using carved that unfolding carved_def by (simp add: ae ends_below_top_def)
  then show "case r of (addr, extent) \<Rightarrow> unat addr + unat extent < 2 ^ 64 \<longrightarrow>
      {unat addr ..< unat addr + unat extent} \<inter> (hr_bytes (bp_page_tables p) \<union> hr_bytes (bp_kernel_stack p)) = {}"
    unfolding ae prod.case hr_bytes_def [of "\<lparr>hr_base = addr, hr_size = extent\<rparr>"] by auto
qed

lemma sample_tree_boots:
  obtains v i where "fdt_parse (fdt_image sample_reservations sample_names sample_tree) = Inr v" "discover_hardware v = Inr i"
    "take (hi_memory_count i) (hi_memory i) = [\<lparr>hr_base = 0x40000000, hr_size = 0x1000\<rparr>]"
    "take (hi_reserved_count i) (hi_reserved i) = [\<lparr>hr_base = 0x40000000, hr_size = 0x200\<rparr>]"
proof -
  let ?v = "fdt_image_view sample_reservations sample_names sample_tree"
  have p: "fdt_parse (fdt_image sample_reservations sample_names sample_tree) = Inr ?v"
    using fdt_parse_image [OF sample_image_ok(1,2), of "[]"] by simp
  have "map_sum id hi_abs (discover_hardware ?v) = scan_tree sample_reservations sample_tree"
    by (intro discover_scans fdt_image_reservations fdt_image_walk sample_image_ok)
  then obtain i where i: "discover_hardware ?v = Inr i" "Inr (hi_abs i) = scan_tree sample_reservations sample_tree"
    by (cases "discover_hardware ?v") (auto simp: sample_scan)
  then show thesis using that [OF p i(1)] by (simp add: sample_scan hi_abs_def)
qed

theorem boot_spares_reservations_witness:
  "\<exists>v i p. fdt_parse (fdt_image sample_reservations sample_names sample_tree) = Inr v \<and>
     discover_hardware v = Inr i \<and> plan_early_boot_memory i [] 1 2 0x200 = Inr p \<and> hi_ok i"
proof -
  obtain v i where v: "fdt_parse (fdt_image sample_reservations sample_names sample_tree) = Inr v"
    and i: "discover_hardware v = Inr i" and lists: "take (hi_memory_count i) (hi_memory i) = [\<lparr>hr_base = 0x40000000, hr_size = 0x1000\<rparr>]"
    "take (hi_reserved_count i) (hi_reserved i) = [\<lparr>hr_base = 0x40000000, hr_size = 0x200\<rparr>]"
    using sample_tree_boots .
  have plan: "plan_early_boot_memory i [] 1 2 0x200 =
     Inr \<lparr>bp_page_tables = \<lparr>hr_base = 0x40000200, hr_size = 0x200\<rparr>, bp_kernel_stack = \<lparr>hr_base = 0x40000400, hr_size = 0x400\<rparr>\<rparr>"
    by (simp add: plan_early_boot_memory_def bytes_for_pages_def search_simps lists bp_valid_def)
  show ?thesis using boot_spares_reservations [OF v i plan] v i plan by blast
qed

end
