(* ===== verification/Kernel_Authority.thy ===== *)
theory Kernel_Authority
  imports Kernel_Properties
begin

text \<open>
  Authority in the composed kernel: what a capability lets its holder do to memory, to address spaces
  and to new threads (kernel.cpp, from \<open>memory_for_capability\<close> to \<open>thread_admit\<close>), and why a
  capability over one kind of object never works as another.
\<close>

section \<open>Capabilities and objects\<close>

text \<open>The thread holds the capability without a context, it carries at least one of the rights
  asked for, and it names exactly the object.\<close>

definition holds_right :: "CapabilityTable \<Rightarrow> ThreadId \<Rightarrow> CapabilityId \<Rightarrow> Rights \<Rightarrow> ObjectId \<Rightarrow> bool" where
  "holds_right caps t c required obj \<longleftrightarrow> t \<noteq> invalid_thread \<and>
     (\<exists>s. cap_view caps c = Some s \<and> \<not> cs_bound s \<and> cs_holder s = t \<and>
        cs_rights s AND required \<noteq> 0 \<and> cs_object s = obj)"

lemma cap_view_zero [simp]: "cap_view caps 0 = None"
  by (simp add: cap_view_def)

lemma holds_describe:
  "(t \<noteq> 0 \<and> c \<noteq> 0 \<and> cap_holds caps t c) \<longleftrightarrow>
     t \<noteq> 0 \<and> (\<exists>s. cap_view caps c = Some s \<and> \<not> cs_bound s \<and> cs_holder s = t)"
  "cap_view caps c = Some s \<Longrightarrow>
     \<exists>d. cap_describe caps c = Inr d \<and> ci_rights d = cs_rights s \<and> ci_object d = cs_object s"
proof -
  show "(t \<noteq> 0 \<and> c \<noteq> 0 \<and> cap_holds caps t c) \<longleftrightarrow>
     t \<noteq> 0 \<and> (\<exists>s. cap_view caps c = Some s \<and> \<not> cs_bound s \<and> cs_holder s = t)"
  proof (cases "cap_find caps c")
    case None
    then show ?thesis using cap_find_None [of caps c] by (simp add: cap_holds_def)
  next
    case (Some i)
    have "c \<noteq> 0" using cap_find_view [OF Some] by (auto intro: ccontr)
    then show ?thesis using Some cap_find_view [OF Some] by (auto simp: cap_holds_def)
  qed
  assume v: "cap_view caps c = Some s"
  then obtain i where i: "cap_find caps c = Some i" using cap_find_None [of caps c] by fastforce
  have "c \<noteq> 0" using v by (auto intro: ccontr)
  then show "\<exists>d. cap_describe caps c = Inr d \<and> ci_rights d = cs_rights s \<and> ci_object d = cs_object s"
    using i v cap_find_view [OF i] by (simp add: cap_describe_def Let_def)
qed

text \<open>A 64-bit word is its tag, its generation and its slot.\<close>

lemma object_rebuild:
  fixes obj :: u64
  assumes "obj AND 0xFFFF000000000000 = tag"
  shows "tag OR push_bit 16 (ucast (ucast (drop_bit 16 obj AND 0xFFFFFFFF) :: u32)) OR
    ucast (ucast (obj AND 0xFFFF) :: u16) = obj"
proof -
  have m: "(0xFFFFFFFF :: u64) = mask 32" "(0xFFFF :: u64) = mask 16"
    "(0xFFFF000000000000 :: u64) = NOT (mask 48)"
    by (simp_all add: mask_eq_exp_minus_1 not_eq_complement)
  show ?thesis
    unfolding assms [symmetric] m
  proof (rule bit_eqI)
    fix n
    assume "possible_bit TYPE(64 word) n"
    then have n: "n < 64" by (simp add: possible_bit_def)
    consider "n < 16" | "16 \<le> n" "n < 48" | "48 \<le> n" by linarith
    then show "bit (obj AND NOT (mask 48) OR
        push_bit 16 (ucast (ucast (drop_bit 16 obj AND mask 32) :: u32)) OR
        ucast (ucast (obj AND mask 16) :: u16)) n = bit obj n"
      by cases (use n in \<open>auto simp: bit_simps\<close>)
  qed
qed

lemma space_object_rebuild:
  assumes "obj AND address_space_object_tag_mask = address_space_object_tag"
    and "identity_valid (identity_of_object obj)"
  shows "address_space_object_id (identity_of_object obj) = obj"
  using assms(2) object_rebuild [OF assms(1)] by (simp add: address_space_object_id_def identity_of_object_def)

lemma grant_object_rebuild:
  assumes "obj AND memory_grant_object_tag_mask = memory_grant_object_tag"
    and "mg_identity_valid (grant_of_object obj)"
  shows "memory_grant_object_id (grant_of_object obj) = obj"
  using assms(2) object_rebuild [OF assms(1)] by (simp add: memory_grant_object_id_def grant_of_object_def)

lemma identity_for_capability_iff:
  "address_space_identity_for_capability t c caps required = Inr i \<longleftrightarrow>
     identity_valid i \<and> holds_right caps t c required (address_space_object_id i)"
proof (cases "t \<noteq> 0 \<and> c \<noteq> 0 \<and> cap_holds caps t c")
  case False
  then have "address_space_identity_for_capability t c caps required = Inl as_invalid_capability"
    by (auto simp: address_space_identity_for_capability_def)
  with False holds_describe(1) [of t c caps] show ?thesis by (auto simp: holds_right_def)
next
  case True
  then obtain s where s: "cap_view caps c = Some s" "\<not> cs_bound s" "cs_holder s = t"
    using holds_describe(1) [of t c caps] by auto
  obtain d where d: "cap_describe caps c = Inr d" "ci_rights d = cs_rights s" "ci_object d = cs_object s"
    using holds_describe(2) [OF s(1)] by blast
  have "address_space_identity_for_capability t c caps required = Inr i \<longleftrightarrow>
      cs_rights s AND required \<noteq> 0 \<and>
      cs_object s AND address_space_object_tag_mask = address_space_object_tag \<and>
      identity_of_object (cs_object s) = i \<and> identity_valid i"
    using True d by (auto simp: address_space_identity_for_capability_def Let_def)
  also have "\<dots> \<longleftrightarrow> identity_valid i \<and> holds_right caps t c required (address_space_object_id i)"
    using s True space_object_rebuild [of "cs_object s"] identity_of_space_object [of i]
    by (auto simp: holds_right_def)
  finally show ?thesis .
qed

lemma mg_resolve_identity: "mg_resolve grants i = Inr g \<Longrightarrow> gr_identity g = i \<and> mg_identity_valid i"
  by (auto simp: mg_resolve_def Let_def split: if_splits)

lemma memory_for_capability_iff:
  "k_memory_for_capability k t c required grants = Inr g \<longleftrightarrow>
     holds_right (k_capabilities k) t c required (memory_grant_object_id (gr_identity g)) \<and>
     mg_resolve grants (gr_identity g) = Inr g"
proof (cases "t \<noteq> 0 \<and> c \<noteq> 0 \<and> cap_holds (k_capabilities k) t c")
  case False
  then have "k_memory_for_capability k t c required grants = Inl as_invalid_capability"
    by (auto simp: k_memory_for_capability_def)
  with False holds_describe(1) [of t c "k_capabilities k"] show ?thesis by (auto simp: holds_right_def)
next
  case True
  let ?caps = "k_capabilities k"
  obtain s where s: "cap_view ?caps c = Some s" "\<not> cs_bound s" "cs_holder s = t"
    using True holds_describe(1) [of t c ?caps] by auto
  obtain d where d: "cap_describe ?caps c = Inr d" "ci_rights d = cs_rights s" "ci_object d = cs_object s"
    using holds_describe(2) [OF s(1)] by blast
  have "k_memory_for_capability k t c required grants = Inr g \<longleftrightarrow>
      cs_rights s AND required \<noteq> 0 \<and>
      cs_object s AND memory_grant_object_tag_mask = memory_grant_object_tag \<and>
      mg_resolve grants (grant_of_object (cs_object s)) = Inr g"
    using True d by (auto simp: k_memory_for_capability_def)
  also have "\<dots> \<longleftrightarrow> holds_right ?caps t c required (memory_grant_object_id (gr_identity g)) \<and>
     mg_resolve grants (gr_identity g) = Inr g"
  proof
    assume a: "cs_rights s AND required \<noteq> 0 \<and>
      cs_object s AND memory_grant_object_tag_mask = memory_grant_object_tag \<and>
      mg_resolve grants (grant_of_object (cs_object s)) = Inr g"
    then have i: "gr_identity g = grant_of_object (cs_object s)" "mg_identity_valid (grant_of_object (cs_object s))"
      using mg_resolve_identity by blast+
    have "memory_grant_object_id (gr_identity g) = cs_object s"
      unfolding i(1) using a i(2) by (intro grant_object_rebuild) simp_all
    with a s True i(1) show "holds_right ?caps t c required (memory_grant_object_id (gr_identity g)) \<and>
       mg_resolve grants (gr_identity g) = Inr g" by (simp add: holds_right_def)
  next
    assume a: "holds_right ?caps t c required (memory_grant_object_id (gr_identity g)) \<and>
       mg_resolve grants (gr_identity g) = Inr g"
    have v: "mg_identity_valid (gr_identity g)" using a mg_resolve_identity by blast
    have "cs_object s = memory_grant_object_id (gr_identity g)" "cs_rights s AND required \<noteq> 0"
      using a s by (simp_all add: holds_right_def)
    with a grant_of_grant_object [OF v] show "cs_rights s AND required \<noteq> 0 \<and>
      cs_object s AND memory_grant_object_tag_mask = memory_grant_object_tag \<and>
      mg_resolve grants (grant_of_object (cs_object s)) = Inr g" by simp
  qed
  finally show ?thesis .
qed

section \<open>Mapping memory\<close>

text \<open>C24: A mapping is authorised exactly when the caller may make it.  \<open>map_authorize\<close> grants a mapping
  if and only if the caller itself holds a capability with the hold right that names a live
  address space and one with the map right that names a live memory grant; the mapping is at the
  address asked for, of the grant's whole extent and at its physical base, with the permissions
  asked for, does not run off the end of the address space, and is not a second executable region.\<close>

theorem k_map_authorize_exact:
  "k_map_authorize k t req epochs grants xrs = Inr m \<longleftrightarrow>
     identity_valid (ma_space m) \<and> is_ok (ep_resolve epochs (ma_space m)) \<and>
     holds_right (k_capabilities k) t (mp_space req) address_space_right_hold
       (address_space_object_id (ma_space m)) \<and>
     (\<exists>g. mg_resolve grants (gr_identity g) = Inr g \<and>
        holds_right (k_capabilities k) t (mp_backing req) memory_right_map
          (memory_grant_object_id (gr_identity g)) \<and>
        ma_physical m = gr_base g \<and> ma_length m = gr_length g) \<and>
     ma_virtual m = mp_address req \<and> ma_permissions m = mp_permissions req \<and>
     unat (ma_virtual m) + unat (ma_length m) < 2 ^ 64 \<and>
     (mp_permissions req = perm_read_execute \<longrightarrow> \<not> xr_would_refuse xrs (ma_space m))"
  (is "_ \<longleftrightarrow> ?R")
proof
  assume "k_map_authorize k t req epochs grants xrs = Inr m"
  then obtain i e g where
    i: "address_space_identity_for_capability t (mp_space req) (k_capabilities k) address_space_right_hold = Inr i"
    and e: "ep_resolve epochs i = Inr e"
    and g: "k_memory_for_capability k t (mp_backing req) memory_right_map grants = Inr g"
    and m: "m = \<lparr>ma_space = i, ma_virtual = mp_address req, ma_physical = gr_base g, ma_length = gr_length g,
      ma_permissions = mp_permissions req\<rparr>"
    and x: "\<not> (mp_permissions req = perm_read_execute \<and> xr_would_refuse xrs i)"
    and l: "\<not> gr_length g > - 1 - mp_address req"
    by (auto simp: k_map_authorize_def Let_def split: sum.splits if_splits)
  show ?R
    using i [unfolded identity_for_capability_iff] e g [unfolded memory_for_capability_iff] x
      l [unfolded max_minus_less] by (auto simp: m)
next
  assume r: ?R
  then obtain g where g: "mg_resolve grants (gr_identity g) = Inr g"
      "holds_right (k_capabilities k) t (mp_backing req) memory_right_map (memory_grant_object_id (gr_identity g))"
      "ma_physical m = gr_base g" "ma_length m = gr_length g" by blast
  obtain e where e: "ep_resolve epochs (ma_space m) = Inr e" using r by (cases "ep_resolve epochs (ma_space m)") auto
  have "address_space_identity_for_capability t (mp_space req) (k_capabilities k) address_space_right_hold =
      Inr (ma_space m)" using r by (simp add: identity_for_capability_iff)
  moreover have "k_memory_for_capability k t (mp_backing req) memory_right_map grants = Inr g"
    using g by (simp add: memory_for_capability_iff)
  moreover have "\<not> gr_length g > - 1 - mp_address req" using r g(4) unfolding max_minus_less by auto
  ultimately show "k_map_authorize k t req epochs grants xrs = Inr m"
    using r g e by (cases m) (auto simp: k_map_authorize_def Let_def)
qed

text \<open>What unmapping is allowed to do.  \<open>unmap_authorize\<close> grants a removal if and only if the
  caller holds the two capabilities a mapping would need, the range starts at the address asked
  for, has the grant's extent and does not wrap, and the address is not the base of the
  space's executable region; nothing else about that region is looked at.\<close>

theorem k_unmap_authorize_exact:
  "k_unmap_authorize k t req epochs grants xrs = Inr m \<longleftrightarrow>
     identity_valid (ua_space m) \<and> is_ok (ep_resolve epochs (ua_space m)) \<and>
     holds_right (k_capabilities k) t (um_space req) address_space_right_hold
       (address_space_object_id (ua_space m)) \<and>
     (\<exists>g. mg_resolve grants (gr_identity g) = Inr g \<and>
        holds_right (k_capabilities k) t (um_backing req) memory_right_map
          (memory_grant_object_id (gr_identity g)) \<and> ua_length m = gr_length g) \<and>
     ua_virtual m = um_address req \<and> unat (ua_virtual m) + unat (ua_length m) < 2 ^ 64 \<and>
     (\<forall>region. xr_region_for xrs (ua_space m) = Inr region \<longrightarrow> xr_base region \<noteq> um_address req)"
  (is "_ \<longleftrightarrow> ?R")
proof
  assume "k_unmap_authorize k t req epochs grants xrs = Inr m"
  then obtain i e g where
    i: "address_space_identity_for_capability t (um_space req) (k_capabilities k) address_space_right_hold = Inr i"
    and e: "ep_resolve epochs i = Inr e"
    and g: "k_memory_for_capability k t (um_backing req) memory_right_map grants = Inr g"
    and m: "m = \<lparr>ua_space = i, ua_virtual = um_address req, ua_length = gr_length g\<rparr>"
    and x: "\<not> (case xr_region_for xrs i of Inl _ \<Rightarrow> False | Inr region \<Rightarrow> xr_base region = um_address req)"
    and l: "\<not> gr_length g > - 1 - um_address req"
    by (auto simp: k_unmap_authorize_def Let_def split: sum.splits if_splits)
  show ?R
    using i [unfolded identity_for_capability_iff] e g [unfolded memory_for_capability_iff] x
      l [unfolded max_minus_less] by (auto simp: m)
next
  assume r: ?R
  then obtain g where g: "mg_resolve grants (gr_identity g) = Inr g"
      "holds_right (k_capabilities k) t (um_backing req) memory_right_map (memory_grant_object_id (gr_identity g))"
      "ua_length m = gr_length g" by blast
  obtain e where e: "ep_resolve epochs (ua_space m) = Inr e" using r by (cases "ep_resolve epochs (ua_space m)") auto
  have "address_space_identity_for_capability t (um_space req) (k_capabilities k) address_space_right_hold =
      Inr (ua_space m)" using r by (simp add: identity_for_capability_iff)
  moreover have "k_memory_for_capability k t (um_backing req) memory_right_map grants = Inr g"
    using g by (simp add: memory_for_capability_iff)
  moreover have "\<not> gr_length g > - 1 - um_address req" using r g(3) unfolding max_minus_less by auto
  ultimately show "k_unmap_authorize k t req epochs grants xrs = Inr m"
    using r g e by (cases m) (auto simp: k_unmap_authorize_def Let_def split: sum.split)
qed

section \<open>One kind of object per capability\<close>

lemma capability_check_tag:
  "address_space_identity_for_capability t c caps r = Inr i \<Longrightarrow>
     \<exists>d. cap_describe caps c = Inr d \<and> ci_object d AND 0xFFFF000000000000 = address_space_object_tag"
  "k_memory_for_capability k t c r grants = Inr g \<Longrightarrow>
     \<exists>d. cap_describe (k_capabilities k) c = Inr d \<and> ci_object d AND 0xFFFF000000000000 = memory_grant_object_tag"
  "interrupt_source_for_capability t c caps = Inr s \<Longrightarrow>
     \<exists>d. cap_describe caps c = Inr d \<and> ci_object d AND 0xFFFF000000000000 = 0x1EC0000000000000"
  "ipc_endpoint_for_capability u t c r caps = Inr e \<Longrightarrow>
     \<exists>d. cap_describe caps c = Inr d \<and> ci_object d AND 0xFFFF000000000000 = ipc_object_tag"
  "ipc_endpoint_for_capability_ctx u x c r caps = Inr e \<Longrightarrow>
     \<exists>d. cap_describe caps c = Inr d \<and> ci_object d AND 0xFFFF000000000000 = ipc_object_tag"
  by (auto simp: address_space_identity_for_capability_def k_memory_for_capability_def
      interrupt_source_for_capability_def ipc_endpoint_for_capability_def ipc_endpoint_for_capability_ctx_def
      decode_endpoint_object_def interrupt_object_tag_def Let_def
      split: sum.splits if_splits)

lemma one_of_four:
  "\<not> (a \<and> b) \<Longrightarrow> \<not> (a \<and> c) \<Longrightarrow> \<not> (a \<and> d) \<Longrightarrow> \<not> (b \<and> c) \<Longrightarrow> \<not> (b \<and> d) \<Longrightarrow> \<not> (c \<and> d) \<Longrightarrow>
   length (filter id [a, b, c, d]) \<le> 1"
  by auto

text \<open>C26: A capability is over one kind of object.  Whoever presents it and whatever rights are asked
  for, if one of the four checks of the kernel (address space, memory grant, interrupt source, IPC
  endpoint) accepts a capability, the other three refuse it: the tags in the object identifiers
  keep the kinds apart.\<close>

theorem k_capability_one_kind:
  "length (filter id [\<exists>t r. is_ok (address_space_identity_for_capability t c (k_capabilities k) r),
    \<exists>t r grants. is_ok (k_memory_for_capability k t c r grants),
    \<exists>t. is_ok (interrupt_source_for_capability t c (k_capabilities k)),
    (\<exists>t r. is_ok (ipc_endpoint_for_capability (k_ipc k) t c r (k_capabilities k))) \<or>
    (\<exists>x r. is_ok (ipc_endpoint_for_capability_ctx (k_ipc k) x c r (k_capabilities k)))]) \<le> 1"
  (is "length (filter id [?a, ?b, ?c, ?d]) \<le> 1")
proof -
  have ok: "is_ok x \<Longrightarrow> \<exists>v. x = Inr v" for x :: "'a result" by (cases x) auto
  define tag where "tag g \<longleftrightarrow> (\<exists>d. cap_describe (k_capabilities k) c = Inr d \<and>
    ci_object d AND 0xFFFF000000000000 = g)" for g
  have one: "tag g \<Longrightarrow> tag h \<Longrightarrow> g = h" for g h unfolding tag_def by auto
  have a: "tag address_space_object_tag" if ?a using that unfolding tag_def by (auto dest!: ok capability_check_tag)
  have b: "tag memory_grant_object_tag" if ?b using that unfolding tag_def by (auto dest!: ok capability_check_tag)
  have c: "tag 0x1EC0000000000000" if ?c using that unfolding tag_def by (auto dest!: ok capability_check_tag)
  have d: "tag ipc_object_tag" if ?d using that unfolding tag_def by (auto dest!: ok capability_check_tag)
  have "\<not> (?a \<and> ?b)" using one [OF a b] by auto
  moreover have "\<not> (?a \<and> ?c)" using one [OF a c] by auto
  moreover have "\<not> (?a \<and> ?d)" using one [OF a d] by auto
  moreover have "\<not> (?b \<and> ?c)" using one [OF b c] by auto
  moreover have "\<not> (?b \<and> ?d)" using one [OF b d] by auto
  moreover have "\<not> (?c \<and> ?d)" using one [OF c d] by auto
  ultimately show ?thesis by (rule one_of_four)
qed

section \<open>Address spaces\<close>

lemma ep_resolve_identity: "ep_resolve eps i = Inr e \<Longrightarrow> epoch_identity e = i"
  by (cases i) (auto simp: ep_resolve_def Let_def epoch_identity_def epoch_valid_def identity_valid_def
      asid_for_slot_nonzero split: if_splits)

text \<open>C25: A destroyed address space is dead to every later call.  When
  \<open>address_space_begin_destroy\<close> succeeds, the caller held the destroy right over a live space, and from then on, through any
  sequence of acquisitions and retirements and whatever the kernel, the caller and the
  capability, nothing is mapped into that space or unmapped from it, no thread is admitted to it
  and it is not destroyed a second time.\<close>

theorem k_space_destroyed_is_dead:
  assumes run: "ep_method\<^sup>*\<^sup>* ep_empty eps"
    and des: "k_address_space_begin_destroy k owner space eps = (Inr ret, eps')"
    and later: "ep_method\<^sup>*\<^sup>* eps' eps''"
  shows "let i = epoch_identity (re_epoch ret) in
    is_ok (ep_resolve eps i) \<and>
    holds_right (k_capabilities k) owner space address_space_right_destroy (address_space_object_id i) \<and>
    ep_retiring eps' ret \<and> \<not> is_ok (ep_resolve eps'' i) \<and>
    (\<forall>k' t req grants xrs m. k_map_authorize k' t req eps'' grants xrs = Inr m \<longrightarrow> ma_space m \<noteq> i) \<and>
    (\<forall>k' t req grants xrs m. k_unmap_authorize k' t req eps'' grants xrs = Inr m \<longrightarrow> ua_space m \<noteq> i) \<and>
    (\<forall>k' t c ret'. fst (k_address_space_begin_destroy k' t c eps'') = Inr ret' \<longrightarrow>
       epoch_identity (re_epoch ret') \<noteq> i) \<and>
    (\<forall>k' t c stack root trs xrs. address_space_identity_for_capability t c (k_capabilities k')
         address_space_right_admit = Inr i \<longrightarrow>
       \<not> is_ok (fst (k_thread_admit k' t c stack root eps'' trs xrs)))"
proof -
  obtain i e where i: "address_space_identity_for_capability owner space (k_capabilities k)
      address_space_right_destroy = Inr i" "ep_resolve eps i = Inr e" "ep_begin_retire eps e = (Inr ret, eps')"
    using des by (auto simp: k_address_space_begin_destroy_def split: sum.splits)
  have ok: "ep_ok eps" using eid.inv_run [OF run ep_ok_empty] .
  have ide: "epoch_identity e = i" using ep_resolve_identity [OF i(2)] .
  have live: "ep_live eps i" using i(2) by (simp add: ep_live_def)
  have step: "ep_method eps eps'" using ep_method.begin_retire [of eps e] i(3) by simp
  have mv: "ret = \<lparr>re_epoch = e\<rparr>" "ep_active eps e"
    "eps' = eps\<lparr>ep_slots := (ep_slots eps)[unat (ae_slot e) :=
              (ep_slots eps ! unat (ae_slot e))\<lparr>es_state := ep_retiring_state\<rparr>],
           ep_active_n := ep_active_n eps - 1, ep_retiring_n := ep_retiring_n eps + 1\<rparr>"
    using i(3) by (cases rule: ep_begin_retire_cases [of eps e]; simp)+
  have ret: "ep_retiring eps' ret"
    using mv(2) by (simp add: mv(1,3) ep_retiring_iff ep_active_iff ep_names_def)
  have "\<not> ep_live eps' i"
    using mv(2) ide [symmetric] by (auto simp: ep_live_def ep_resolve_def Let_def mv(3) ep_active_iff ep_names_def
        epoch_identity_def)
  then have dead: "\<not> is_ok (ep_resolve eps'' i)"
    using eid.no_resurrection [OF ok live r_into_rtranclp [of ep_method, OF step] _ later] by (simp add: ep_live_def)
  have none: "ep_resolve eps'' i \<noteq> Inr e'" for e' using dead by auto
  have "fst (k_address_space_begin_destroy k' t c eps'') = Inr ret' \<Longrightarrow> epoch_identity (re_epoch ret') \<noteq> i"
    for k' t c ret'
  proof
    assume d: "fst (k_address_space_begin_destroy k' t c eps'') = Inr ret'" "epoch_identity (re_epoch ret') = i"
    then obtain j f where "ep_resolve eps'' j = Inr f" "fst (ep_begin_retire eps'' f) = Inr ret'"
      by (auto simp: k_address_space_begin_destroy_def split: sum.splits)
    then have "re_epoch ret' = f" "ep_resolve eps'' (epoch_identity f) = Inr f"
      using ep_resolve_identity by (cases rule: ep_begin_retire_cases [of eps'' f]; auto)+
    with d(2) none show False by simp
  qed
  moreover have "\<not> is_ok (fst (k_thread_admit k' t c stack root eps'' trs xrs))"
    if "address_space_identity_for_capability t c (k_capabilities k') address_space_right_admit = Inr i"
    for k' t c stack root trs xrs
    using that dead by (cases "ep_resolve eps'' i") (auto simp: k_thread_admit_def)
  moreover have "ma_space m \<noteq> i" if "k_map_authorize k' t req eps'' grants xrs = Inr m" for k' t req grants xrs m
    using that dead by (auto simp: k_map_authorize_def Let_def split: sum.splits if_splits)
  moreover have "ua_space m \<noteq> i" if "k_unmap_authorize k' t req eps'' grants xrs = Inr m" for k' t req grants xrs m
    using that dead by (auto simp: k_unmap_authorize_def Let_def split: sum.splits if_splits)
  ultimately show ?thesis
    using i(1) [unfolded identity_for_capability_iff] i(2) dead ret ide by (simp add: mv(1) Let_def)
qed

text \<open>An address-space check that names the object, as the identity check reads it.\<close>

lemma address_space_capability_iff:
  "address_space_capability t c caps required obj = Inr () \<longleftrightarrow> holds_right caps t c required obj"
proof (cases "t \<noteq> 0 \<and> c \<noteq> 0 \<and> cap_holds caps t c")
  case False
  then have "address_space_capability t c caps required obj = Inl as_invalid_capability"
    by (auto simp: address_space_capability_def)
  with False holds_describe(1) [of t c caps] show ?thesis by (auto simp: holds_right_def)
next
  case True
  then obtain s where s: "cap_view caps c = Some s" "\<not> cs_bound s" "cs_holder s = t"
    using holds_describe(1) [of t c caps] by auto
  obtain d where "cap_describe caps c = Inr d" "ci_rights d = cs_rights s" "ci_object d = cs_object s"
    using holds_describe(2) [OF s(1)] by blast
  with True s show ?thesis by (auto simp: address_space_capability_def holds_right_def)
qed

text \<open>Minting either changes nothing or adds exactly the new capability.\<close>

lemma cap_mint_cases:
  assumes "cap_ok t"
  obtains (refused) e where "cap_mint t h obj r tr = (Inl e, t)"
    | (minted) u s where "cap_mint t h obj r tr = (Inr (cap_next_id t), u)" "cap_ok u" "cap_next_id t \<noteq> 0"
      "cap_view u = (cap_view t)(cap_next_id t \<mapsto> s)" "cs_holder s = h" "cs_object s = obj" "cs_rights s = r"
      "\<not> cs_bound s" "h \<noteq> 0"
proof -
  show thesis
  proof (cases "fst (cap_mint t h obj r tr)")
    case (Inl e)
    then have "snd (cap_mint t h obj r tr) = t"
      by (auto simp: cap_mint_def cap_place_def split: if_splits option.splits)
    with Inl refused show thesis by (metis prod.collapse)
  next
    case (Inr c)
    then have g: "h \<noteq> 0" "cap_next_id t \<noteq> 0" by (auto simp: cap_mint_def split: if_splits)
    from Inr obtain e where p: "cap_mint t h obj r tr = cap_place t e" "cs_id e = cap_next_id t" "cs_occupied e"
      "cap_slot_ok (cap_slots t) 0 e" "cs_holder e = h" "cs_object e = obj" "cs_rights e = r" "\<not> cs_bound e"
      by (auto simp: cap_mint_def cap_root_slot_ok split: if_splits)
    show thesis
      using cap_place_cases [OF assms p(2) g(2) p(3,4)] minted [OF _ _ g(2), of _ e] p g(1) refused by metis
  qed
qed

text \<open>Acquiring and giving straight back leaves every identity as it was.\<close>

lemma ep_acquire_fresh:
  assumes "ep_ok eps" "ep_acquire eps = (Inr e, eps1)"
  shows "epoch_valid e" "ep_ok eps1" "ep_resolve eps1 (epoch_identity e) = Inr e"
    "\<not> is_ok (ep_resolve eps (epoch_identity e))"
    "i \<noteq> epoch_identity e \<Longrightarrow> ep_resolve eps1 i = ep_resolve eps i" "ep_active eps1 e"
    and "\<exists>eps2 eps3. ep_begin_retire eps1 e = (Inr \<lparr>re_epoch = e\<rparr>, eps2) \<and>
      ep_complete_retire eps2 \<lparr>re_epoch = e\<rparr> = (Inr (), eps3) \<and>
      (\<forall>i. ep_resolve eps3 i = ep_resolve eps i) \<and>
      ep_active_count eps3 = ep_active_count eps \<and> ep_retiring_count eps3 = ep_retiring_count eps"
proof -
  have "ep_method eps eps1" using ep_method.acquire [of eps] assms(2) by simp
  then show ok1: "ep_ok eps1" using ep_method_inv assms(1) by blast
  obtain i0 where f: "i0 < max_address_space_epochs" "es_state (ep_slots eps ! i0) = ep_free"
      "es_generation (ep_slots eps ! i0) \<noteq> - 1"
      "e = \<lparr>ae_slot = of_nat i0, ae_generation = es_generation (ep_slots eps ! i0) + 1, ae_asid = asid_for_slot i0\<rparr>"
      "eps1 = eps\<lparr>ep_slots := (ep_slots eps)[i0 := \<lparr>es_generation = es_generation (ep_slots eps ! i0) + 1,
             es_state = ep_active_state\<rparr>], ep_active_n := ep_active_n eps + 1\<rparr>"
    by (cases rule: ep_acquire_cases [OF assms(1)]) (use assms(2) in auto)
  have len: "length (ep_slots eps) = max_address_space_epochs" using assms(1) by (simp add: ep_ok_def)
  have g: "es_generation (ep_slots eps ! i0) + 1 \<noteq> 0" using f(3) by (metis eq_neg_iff_add_eq_0)
  have s: "unat (ae_slot e) = i0" using f(1) by (simp add: f(4))
  show v: "epoch_valid e" using f(1,4) g s asid_for_slot_nonzero by (simp add: epoch_valid_def)
  have id: "epoch_identity e = \<lparr>asi_slot = of_nat i0, asi_generation = es_generation (ep_slots eps ! i0) + 1\<rparr>"
    using v by (simp add: epoch_identity_def f(4))
  show "ep_resolve eps1 (epoch_identity e) = Inr e"
    unfolding id using f(1) g len by (simp add: ep_resolve_def identity_valid_def f(4,5) Let_def)
  show "\<not> is_ok (ep_resolve eps (epoch_identity e))"
    using f(1,2) by (simp add: ep_resolve_def id Let_def)
  show "ep_active eps1 e" using v f(1) s len by (simp add: ep_active_iff ep_names_def f(4,5))
  note act = this
  show "ep_resolve eps1 i = ep_resolve eps i" if "i \<noteq> epoch_identity e"
  proof (cases "unat (asi_slot i) = i0")
    case True
    then have "asi_slot i = of_nat i0" by auto
    with that have "asi_generation i \<noteq> es_generation (ep_slots eps ! i0) + 1" by (cases i) (auto simp: id)
    with True f(1,2) len show ?thesis by (simp add: ep_resolve_def f(5) Let_def)
  next
    case False
    then show ?thesis by (simp add: ep_resolve_def f(5) Let_def)
  qed
  let ?s = "\<lambda>st. \<lparr>es_generation = ae_generation e, es_state = st\<rparr>"
  let ?eps2 = "eps1\<lparr>ep_slots := (ep_slots eps)[i0 := ?s ep_retiring_state],
     ep_active_n := ep_active_n eps, ep_retiring_n := ep_retiring_n eps + 1\<rparr>"
  let ?eps3 = "?eps2\<lparr>ep_slots := (ep_slots eps)[i0 := ?s ep_free], ep_retiring_n := ep_retiring_n eps\<rparr>"
  have 1: "ep_begin_retire eps1 e = (Inr \<lparr>re_epoch = e\<rparr>, ?eps2)"
    using f(1) len s
    by (cases rule: ep_begin_retire_cases [of eps1 e]) (use act in \<open>simp_all add: f(4,5)\<close>)
  have ret: "ep_retiring ?eps2 \<lparr>re_epoch = e\<rparr>"
    using v f(1) len s by (simp add: ep_retiring_iff ep_names_def f(4))
  then have 2: "ep_complete_retire ?eps2 \<lparr>re_epoch = e\<rparr> = (Inr (), ?eps3)"
    using f(1) len s by (simp add: ep_complete_retire_def Let_def)
  have 3: "ep_resolve ?eps3 i = ep_resolve eps i" for i
    using f(1,2) len by (cases "unat (asi_slot i) = i0") (simp_all add: ep_resolve_def f(5) Let_def)
  have 4: "ep_active_count ?eps3 = ep_active_count eps \<and> ep_retiring_count ?eps3 = ep_retiring_count eps"
    by (simp add: ep_active_count_def ep_retiring_count_def)
  show "\<exists>eps2 eps3. ep_begin_retire eps1 e = (Inr \<lparr>re_epoch = e\<rparr>, eps2) \<and>
      ep_complete_retire eps2 \<lparr>re_epoch = e\<rparr> = (Inr (), eps3) \<and>
      (\<forall>i. ep_resolve eps3 i = ep_resolve eps i) \<and>
      ep_active_count eps3 = ep_active_count eps \<and> ep_retiring_count eps3 = ep_retiring_count eps"
    using 1 2 3 4 by blast
qed

text \<open>C27: Creating an address space.  A thread that holds the create right over the authority
  object gets a valid new space: its identity resolves and did not before, the capability returned is
  new and lets the caller hold, destroy and admit threads to exactly that space, and every other space and
  capability is as it was.  A call that fails, be it for want of the right, of a slot or of room in the
  capability table, leaves every identity, every capability and both counters as they were.\<close>

theorem k_address_space_create_spec:
  assumes "ep_method\<^sup>*\<^sup>* ep_empty eps" "(k_method strict)\<^sup>*\<^sup>* k_empty k"
  shows "case k_address_space_create k t c eps of
    (Inr a, k', eps') \<Rightarrow>
      let i = epoch_identity (acr_epoch a) in
      holds_right (k_capabilities k) t c address_space_right_create address_space_authority_object \<and>
      creation_valid a \<and> ep_resolve eps' i = Inr (acr_epoch a) \<and> \<not> is_ok (ep_resolve eps i) \<and>
      (\<forall>j. j \<noteq> i \<longrightarrow> ep_resolve eps' j = ep_resolve eps j) \<and>
      (\<forall>r \<in> {address_space_right_hold, address_space_right_destroy, address_space_right_admit}.
         holds_right (k_capabilities k') t (acr_capability a) r (address_space_object_id i)) \<and>
      (\<forall>d. d \<noteq> acr_capability a \<longrightarrow> cap_view (k_capabilities k') d = cap_view (k_capabilities k) d)
  | (Inl e, k', eps') \<Rightarrow>
      k' = k \<and> (\<forall>j. ep_resolve eps' j = ep_resolve eps j) \<and>
      ep_active_count eps' = ep_active_count eps \<and> ep_retiring_count eps' = ep_retiring_count eps"
proof -
  have ok: "ep_ok eps" using eid.inv_run [OF assms(1) ep_ok_empty] .
  have cok: "cap_ok (k_capabilities k)" using k_run_inv [OF assms(2)] by (simp add: k_inv_def k_base_def)
  show ?thesis
  proof (cases "address_space_capability t c (k_capabilities k) address_space_right_create
      address_space_authority_object")
    case (Inl e)
    then show ?thesis by (simp add: k_address_space_create_def)
  next
    case auth: (Inr u)
    obtain res eps1 where acq: "ep_acquire eps = (res, eps1)" by fastforce
    show ?thesis
    proof (cases res)
      case (Inl e)
      have "eps1 = eps" by (cases rule: ep_acquire_cases [OF ok]) (use acq Inl in auto)
      with auth acq Inl show ?thesis by (simp add: k_address_space_create_def)
    next
      case (Inr e)
      note fr = ep_acquire_fresh [OF ok acq [unfolded Inr]]
      obtain eps2 eps3 where undo: "ep_begin_retire eps1 e = (Inr \<lparr>re_epoch = e\<rparr>, eps2)"
        "ep_complete_retire eps2 \<lparr>re_epoch = e\<rparr> = (Inr (), eps3)" "\<forall>i. ep_resolve eps3 i = ep_resolve eps i"
        "ep_active_count eps3 = ep_active_count eps" "ep_retiring_count eps3 = ep_retiring_count eps"
        using fr(7) by blast
      let ?i = "epoch_identity e"
      let ?r = "address_space_right_hold OR address_space_right_destroy OR address_space_right_admit"
      from cok show ?thesis
      proof (cases rule: cap_mint_cases [of _ t "address_space_object_id ?i" ?r True])
        case (refused e')
        with auth acq Inr undo show ?thesis by (simp add: k_address_space_create_def)
      next
        case (minted caps s)
        have rights: "?r AND address_space_right_hold \<noteq> 0" "?r AND address_space_right_destroy \<noteq> 0"
          "?r AND address_space_right_admit \<noteq> 0"
          by (simp_all add: address_space_right_hold_def address_space_right_destroy_def address_space_right_admit_def)
        have "holds_right (k_capabilities k) t c address_space_right_create address_space_authority_object"
          using auth address_space_capability_iff by simp
        with auth acq Inr minted fr(1,3-5) rights show ?thesis
          by (simp add: k_address_space_create_def Let_def creation_valid_def holds_right_def)
      qed
    qed
  qed
qed

section \<open>Admitting a thread\<close>

lemma k_destroy_tracks:
  assumes inv: "k_inv strict k"
  shows "k_tracks (snd (k_destroy_thread k t)) u \<longleftrightarrow> u \<noteq> t \<and> k_tracks k u"
proof -
  let ?k = "snd (k_destroy_thread k t)"
  have b: "k_base k" and b': "k_base ?k" using inv k_destroy_inv [OF inv, of t] by (simp_all add: k_inv_def)
  obtain n ipc r where rel: "ipc_release_thread (k_ipc k) t (k_threads k) = (n, ipc, r)" by (metis prod_cases3)
  have ok: "ipc_ok (k_ipc k)" "rz_inv (k_threads k)" "ipc_owned (dom (rz_view (k_threads k))) (k_ipc k)"
    using b by (simp_all add: k_base_def)
  have keep: "rz_inv r" "dom (rz_view r) = dom (rz_view (k_threads k))"
    using ipc_release_thread_spec(2) [OF ok rel] by (simp_all add: rz_keeps_def)
  have thr: "k_threads ?k = snd (rz_exit_thread r t)"
    using rel by (auto simp: k_destroy_thread_def Let_def split_beta k_synchronise_scheduler split: prod.split sum.split)
  have "dom (rz_view (snd (rz_exit_thread r t))) = dom (rz_view r) - {t}"
  proof (cases "rz_find r t")
    case None
    then have "rz_exit_thread r t = (Inl rz_unknown_thread, r)" by (simp add: rz_exit_thread_def)
    moreover from None have "rz_view r t = None" by (simp add: rz_find_None)
    ultimately show ?thesis by auto
  next
    case (Some i)
    then show ?thesis using rz_exit_thread_ok(2) [OF _ Some] keep(1) by (auto simp: rz_inv_def split: if_splits)
  qed
  with thr keep(2) show ?thesis by (simp add: k_tracks_live [OF b] k_tracks_live [OF b']) blast
qed

text \<open>Everything but the rendezvous, the live list and the run queue's entry of \<open>t\<close> is as it was.\<close>

definition k_keeps_others :: "ThreadId \<Rightarrow> Kernel \<Rightarrow> Kernel \<Rightarrow> bool" where
  "k_keeps_others t k k' \<longleftrightarrow>
     (\<forall>u. u \<noteq> t \<longrightarrow> sched_view (k_scheduler k') u = sched_view (k_scheduler k) u) \<and>
     k_capabilities k' = k_capabilities k \<and> k_interrupts k' = k_interrupts k \<and>
     k_interrupt_deliveries k' = k_interrupt_deliveries k \<and> k_ipc k' = k_ipc k \<and>
     k_ipc_continuations k' = k_ipc_continuations k"

lemma k_create_admitted_cases:
  assumes inv: "k_inv strict k"
  obtains (refused) e k' r where "k_create_admitted_thread k t p = (Inl e, k')" "k_inv strict k'"
      "rz_view r = rz_view (k_threads k)" "k' = k\<lparr>k_threads := r\<rparr>"
    | (admitted) k' where "k_create_admitted_thread k t p = (Inr (), k')" "k_inv strict k'"
      "k_keeps_others t k k'" "rz_view (k_threads k) t = None"
      "rz_view (k_threads k') = (rz_view (k_threads k))(t \<mapsto> \<lparr>rs_thread = t, rs_state = ts_admitted,
         rs_partner = invalid_thread, rs_wake = wake_none, rs_base = p, rs_occupied = True\<rparr>)"
proof -
  have inv': "k_inv strict (snd (k_create_admitted_thread k t p))" using k_create_inv(2) [OF inv] .
  have rz: "rz_inv (k_threads k)" "rz_ok (k_threads k)" and sok: "sched_ok (k_scheduler k)"
    using inv by (simp_all add: k_inv_def k_base_def rz_inv_def)
  let ?s = "\<lparr>rs_thread = t, rs_state = ts_admitted, rs_partner = 0, rs_wake = wake_none, rs_base = p,
    rs_occupied = True\<rparr>"
  obtain res r where c: "rz_create_admitted_thread (k_threads k) t p = (res, r)" by fastforce
  show thesis
  proof (cases res)
    case (Inl e)
    have "r = k_threads k" using rz_refused(12) [of "k_threads k" t p e r] c Inl by simp
    with Inl c inv' refused [of e _ r] show thesis by (simp add: k_create_admitted_thread_def)
  next
    case (Inr u)
    then obtain i where i: "t \<noteq> 0" "rz_find (k_threads k) t = None"
      "first_index (\<lambda>s. \<not> rs_occupied s) (rz_slots (k_threads k)) = Some i"
      "r = (k_threads k)\<lparr>rz_slots := (rz_slots (k_threads k))[i := ?s], rz_occupied := rz_occupied (k_threads k) + 1\<rparr>"
      using c by (auto simp: rz_create_admitted_thread_def split: if_splits option.splits)
    have none: "rz_view (k_threads k) t = None" using i(2) by (simp add: rz_find_None)
    have view: "rz_view r = (rz_view (k_threads k))(t \<mapsto> ?s)"
      using rz_create_sim(2) [OF rz(2) i(1) none i(3) refl] i(4) by simp
    have rinv: "rz_inv r"
      using rz_sim_inv [OF rz(1) rz_create_admitted_thread_sim [OF rz(2), of t p]] c by simp
    obtain res' sc where ad: "sched_admit (k_scheduler k) t p = (res', sc)" by fastforce
    show thesis
    proof (cases res')
      case (Inl e)
      then have "sc = k_scheduler k" using sched_admit_view(3) [OF sok, of t p] ad by simp
      with Inl Inr c ad inv' rz_exit_fresh [OF rz(1) rinv none view]
        refused [of k_creation_incomplete _ "snd (rz_exit_thread r t)"] show thesis
        by (simp add: k_create_admitted_thread_def k_enlist_def)
    next
      case (Inr v)
      have sc: "sched_ok sc" "\<And>w. w \<noteq> t \<Longrightarrow> sched_view sc w = sched_view (k_scheduler k) w"
        using sched_admit_view(1,2) [OF sok, of t p] ad Inr by simp_all
      have "rz_ok r" using rinv by (simp add: rz_inv_def)
      from synchronise_thread_view(2) [OF this sc(1), of t] sc(2) Inr \<open>res = Inr u\<close> c ad
      have "k_keeps_others t k (snd (k_create_admitted_thread k t p))"
        by (simp add: k_keeps_others_def k_create_admitted_thread_def k_enlist_def k_synchronise_thread_def)
      with Inr \<open>res = Inr u\<close> c ad inv' none view admitted show thesis
        by (simp add: k_create_admitted_thread_def k_enlist_def k_synchronise_thread_def)
    qed
  qed
qed

text \<open>Two kernels that hold the same: threads, run queue, capabilities, interrupts, deliveries,
  continuations and messages.  Only the identifier counter and the order of table slots are not compared;
  the run queue's entries are compared in full only with \<open>strict\<close>.\<close>

definition k_unchanged :: "bool \<Rightarrow> Kernel \<Rightarrow> Kernel \<Rightarrow> bool" where
  "k_unchanged strict k k' \<longleftrightarrow>
     rz_view (k_threads k') = rz_view (k_threads k) \<and> (\<forall>u. k_tracks k' u = k_tracks k u) \<and>
     dom (sched_view (k_scheduler k')) = dom (sched_view (k_scheduler k)) \<and>
     (strict \<longrightarrow> sched_view (k_scheduler k') = sched_view (k_scheduler k)) \<and>
     cap_view (k_capabilities k') = cap_view (k_capabilities k) \<and>
     irq_view (k_interrupts k') = irq_view (k_interrupts k) \<and>
     idl_view (k_interrupt_deliveries k') = idl_view (k_interrupt_deliveries k) \<and>
     ct_send_view (k_ipc_continuations k') = ct_send_view (k_ipc_continuations k) \<and>
     ct_receive_view (k_ipc_continuations k') = ct_receive_view (k_ipc_continuations k) \<and>
     k_ipc k' = k_ipc k"

lemma k_unchanged_identifiers: "k_unchanged strict k (k\<lparr>k_thread_identifiers := ids\<rparr>)"
  by (simp add: k_unchanged_def k_tracks_def k_living_def)

lemma k_unchanged_trans: "k_unchanged strict k k1 \<Longrightarrow> k_unchanged strict k1 k2 \<Longrightarrow> k_unchanged strict k k2"
  by (simp add: k_unchanged_def)

text \<open>A run queue that agrees already is not changed by synchronising it.\<close>

lemma synchronise_idle:
  assumes "rz_ok r" "sched_ok s" "\<And>u. agrees {} True r s u"
  shows "sched_view (fold (synchronise_thread r) ts s) = sched_view s"
  using assms(2,3)
proof (induction ts arbitrary: s)
  case (Cons t ts)
  have "sched_view (synchronise_thread r t s) u = sched_view s u" for u
    using Cons.prems(2) [of t] unfolding synchronise_thread_view(2) [OF assms(1) Cons.prems(1)]
    by (auto simp: agrees_def split: option.splits)
  then have same: "sched_view (synchronise_thread r t s) = sched_view s" by blast
  then have "agrees {} True r (synchronise_thread r t s) u" for u
    using Cons.prems(2) [of u] by (simp add: agrees_def)
  with Cons.IH [OF synchronise_thread_view(1) [OF assms(1) Cons.prems(1), of t]] same show ?case by simp
qed simp

text \<open>Releasing the messages of a thread that has none.\<close>

lemma ipc_retire_owned_none:
  assumes "\<forall>s \<in> set (ipc_endpoints t). en_active s \<and> en_server s = b \<longrightarrow> en_receive_waiting s"
    and "rz_cancel_receive r b = (Inl err, r)" "ipc_ok t" "set is \<subseteq> {..<64}"
  shows "ipc_retire_owned b is t r n = (n, t, r)"
  using assms(4)
proof (induction "is" arbitrary: n)
  case (Cons i "is")
  let ?s = "ipc_endpoints t ! i"
  have i: "i < length (ipc_endpoints t)" using Cons.prems assms(3) by (simp add: ipc_ok_def)
  let ?e = "\<lparr>ie_slot = of_nat i, ie_generation = en_generation ?s\<rparr>"
  have ret: "\<exists>x. ipc_retire t b ?e r = (Inl x, t, r)" if "en_active ?s" "en_server ?s = b"
  proof (cases "ipc_slot_for t ?e")
    case None
    then show ?thesis by (simp add: ipc_retire_def)
  next
    case (Some j)
    show ?thesis
    proof (cases "b = 0 \<or> en_server (ipc_endpoints t ! j) \<noteq> b")
      case True
      then show ?thesis using Some by (auto simp: ipc_retire_def Let_def)
    next
      case False
      have "en_active (ipc_endpoints t ! j)" "j < length (ipc_endpoints t)" using Some unfolding ipc_slot_for_iff by blast+
      then have "en_receive_waiting (ipc_endpoints t ! j)" using False assms(1) by auto
      then show ?thesis using Some False assms(2) by (simp add: ipc_retire_def Let_def)
    qed
  qed
  have rest: "ipc_retire_owned b is t r n = (n, t, r)" for n using Cons by simp
  show ?case
  proof (cases "en_active ?s \<and> en_server ?s = b")
    case True
    with ret obtain x where "ipc_retire t b ?e r = (Inl x, t, r)" by blast
    with True rest show ?thesis by (simp add: Let_def)
  qed (use rest in \<open>auto simp: Let_def\<close>)
qed simp

lemma ipc_release_pending_none:
  "\<forall>p \<in> set (ipc_pending t). pn_active p \<longrightarrow> pn_caller p \<noteq> b \<Longrightarrow> set is \<subseteq> {..<length (ipc_pending t)} \<Longrightarrow>
   ipc_release_pending b is t = t"
  by (induction "is") (auto simp: Let_def)

lemma ipc_drop_replies_none:
  "\<forall>s \<in> set (ipc_replies t). rp_active s \<longrightarrow> \<not> P (rp_seal s) \<Longrightarrow> ipc_drop_replies P t = t"
  by (cases t) (auto simp: ipc_drop_replies_def filter_empty_conv intro!: map_idI)

lemma ipc_release_nothing:
  assumes "ipc_ok t" "b \<noteq> 0" "rz_cancel_receive r b = (Inl err, r)"
    and "\<forall>s \<in> set (ipc_endpoints t). en_active s \<and> en_server s = b \<longrightarrow> en_receive_waiting s"
    and "\<forall>p \<in> set (ipc_pending t). pn_active p \<longrightarrow> pn_caller p \<noteq> b"
    and "\<forall>s \<in> set (ipc_replies t). rp_active s \<longrightarrow> seal_caller (rp_seal s) \<noteq> b \<and> seal_server (rp_seal s) \<noteq> b"
    and "\<not> ipc_reply_available t b"
  shows "\<exists>n. ipc_release_thread t b r = (n, t, r)"
proof -
  have "ipc_retire_all_owned_by t b r = (0, t, r)"
    using ipc_retire_owned_none [OF assms(4,3,1), of "[0..<64]" 0] assms(1,2)
    by (simp add: ipc_retire_all_owned_by_def ipc_ok_def atLeast0LessThan)
  moreover have "ipc_release_pending b [0..<length (ipc_pending t)] t = t"
    using assms(5) by (intro ipc_release_pending_none) auto
  moreover have "ipc_drop_replies (\<lambda>seal. seal_caller seal = b \<or> seal_server seal = b) t = t"
    using assms(6) by (intro ipc_drop_replies_none) auto
  moreover have "ipc_discard_completed_for t b = t"
    using assms(2,7) by (simp add: ipc_discard_completed_for_def ipc_reply_available_def)
  ultimately show ?thesis using assms(2) by (simp add: ipc_release_thread_def)
qed

lemma k_destroy_unborn_view:
  assumes inv: "k_inv strict k" and inv2: "k_inv strict k2" and none: "rz_view (k_threads k) t = None"
    and view: "rz_view (k_threads k2) = (rz_view (k_threads k))(t \<mapsto> x)" "rs_state x = ts_admitted"
    and ipc: "k_ipc k2 = k_ipc k"
  shows "rz_view (k_threads (snd (k_destroy_thread k2 t))) = rz_view (k_threads k)"
    and "rz_cancel_receive (k_threads k2) t = (Inl rz_not_waiting_on_peer, k_threads k2)"
    and "\<forall>s \<in> set (ipc_endpoints (k_ipc k)). en_active s \<and> en_server s = t \<longrightarrow> en_receive_waiting s"
proof -
  have b: "k_base k" and b2: "k_base k2" using inv inv2 by (simp_all add: k_inv_def)
  have t0: "t \<noteq> 0" using rz_view_SomeD [of "k_threads k2" t x] view(1) by simp
  obtain i where i: "rz_find (k_threads k2) t = Some i" "rz_at (k_threads k2) i = x"
    using rz_view_find [of "k_threads k2" t x] view(1) by auto
  show cancel: "rz_cancel_receive (k_threads k2) t = (Inl rz_not_waiting_on_peer, k_threads k2)"
    using i t0 view(2) by (simp add: rz_cancel_receive_def)
  show own: "\<forall>s \<in> set (ipc_endpoints (k_ipc k)). en_active s \<and> en_server s = t \<longrightarrow> en_receive_waiting s"
    using b none by (auto simp: k_base_def ipc_owned_def)
  have ok: "ipc_ok (k_ipc k)" using b by (simp add: k_base_def)
  have "ipc_retire_all_owned_by (k_ipc k) t (k_threads k2) = (0, k_ipc k, k_threads k2)"
    using ipc_retire_owned_none [OF own cancel ok, of "[0..<64]" 0] t0 ok
    by (simp add: ipc_retire_all_owned_by_def ipc_ok_def atLeast0LessThan)
  then obtain n q where rel: "ipc_release_thread (k_ipc k2) t (k_threads k2) = (n, q, k_threads k2)"
    using t0 ipc by (simp add: ipc_release_thread_def)
  have "k_threads (snd (k_destroy_thread k2 t)) = snd (rz_exit_thread (k_threads k2) t)"
    using rel by (auto simp: k_destroy_thread_def Let_def split_beta k_synchronise_scheduler split: prod.split sum.split)
  moreover have "rz_inv (k_threads k)" "rz_inv (k_threads k2)" using b b2 by (simp_all add: k_base_def)
  ultimately show "rz_view (k_threads (snd (k_destroy_thread k2 t))) = rz_view (k_threads k)"
    using rz_exit_fresh [OF _ _ none view(1)] by simp
qed

text \<open>A thread that was just admitted and has nothing to its name leaves no mark when it is destroyed.\<close>

lemma k_destroy_unborn:
  assumes inv: "k_inv strict k" and inv2: "k_inv strict k2" and keep: "k_keeps_others t k k2"
    and none: "rz_view (k_threads k) t = None"
    and view: "rz_view (k_threads k2) = (rz_view (k_threads k))(t \<mapsto> x)" "rs_state x = ts_admitted"
    and gone: "k_forgotten k t"
  shows "k_unchanged strict k (snd (k_destroy_thread k2 t))"
proof -
  have b: "k_base k" and b2: "k_base k2" using inv inv2 by (simp_all add: k_inv_def)
  have t0: "t \<noteq> 0" using rz_view_SomeD [of "k_threads k2" t x] view(1) by simp
  obtain i where i: "rz_find (k_threads k2) t = Some i" "rz_at (k_threads k2) i = x"
    using rz_view_find [of "k_threads k2" t x] view(1) by auto
  have "k_ipc k2 = k_ipc k" using keep by (simp add: k_keeps_others_def)
  note unborn = k_destroy_unborn_view [OF inv inv2 none view this]
  have "ipc_ok (k_ipc k)" using b by (simp add: k_base_def)
  from ipc_release_nothing [OF this t0 unborn(2,3)] gone obtain n where
    rel: "ipc_release_thread (k_ipc k2) t (k_threads k2) = (n, k_ipc k, k_threads k2)"
    using keep by (auto simp: k_forgotten_def k_keeps_others_def)
  let ?k' = "snd (k_destroy_thread k2 t)"
  have rz2: "rz_inv (k_threads k2)" and rz: "rz_inv (k_threads k)" using b b2 by (simp_all add: k_base_def)
  obtain m where ex: "rz_exit_thread (k_threads k2) t = (Inr m, snd (rz_exit_thread (k_threads k2) t))"
    using i(1) by (simp add: rz_exit_thread_def Let_def)
  have restored: "rz_view (snd (rz_exit_thread (k_threads k2) t)) = rz_view (k_threads k)"
    by (rule rz_exit_fresh [OF rz rz2 none view(1)])
  have inv': "k_inv strict ?k'" by (rule k_destroy_inv [OF inv2])
  note thr = unborn(1)
  have done': "?k' = k_synchronise (k_untrack (k2\<lparr>k_ipc_continuations := ct_release_thread (k_ipc_continuations k2) t,
      k_ipc := k_ipc k, k_threads := snd (rz_exit_thread (k_threads k2) t),
      k_capabilities := snd (cap_revoke_all_held_by (k_capabilities k2) t),
      k_interrupts := snd (irq_detach_all_owned_by (k_interrupts k2) t),
      k_interrupt_deliveries := snd (idl_release (k_interrupt_deliveries k2) t),
      k_scheduler := snd (sched_retire (k_scheduler k2) t)\<rparr>) t)"
    by (subst k_destroy_thread_def) (subst rel, simp add: Let_def split_beta, subst ex, simp add: split_beta)
  have fields: "k_ipc ?k' = k_ipc k" "k_capabilities ?k' = snd (cap_revoke_all_held_by (k_capabilities k) t)"
    "k_interrupts ?k' = snd (irq_detach_all_owned_by (k_interrupts k) t)"
    "k_interrupt_deliveries ?k' = snd (idl_take (k_interrupt_deliveries k) t)"
    "k_ipc_continuations ?k' = ct_release_thread (k_ipc_continuations k) t"
    and sch: "\<exists>ts. k_scheduler ?k' = fold (synchronise_thread (snd (rz_exit_thread (k_threads k2) t))) ts
      (snd (sched_retire (k_scheduler k2) t))"
    unfolding done' using keep by (auto simp: k_synchronise_scheduler idl_release_take k_keeps_others_def)
  have trk: "k_tracks ?k' u = k_tracks k u" for u
    using k_tracks_live [OF b] k_tracks_live [of ?k'] inv' thr by (simp add: k_inv_def)
  have dom: "dom (sched_view (k_scheduler ?k')) = dom (sched_view (k_scheduler k))"
    using inv' b thr by (simp add: k_inv_def k_base_def)
  have "sched_view (k_scheduler k) t = None" using b none by (auto simp: k_base_def dom_eq_known)
  then have ret: "sched_ok (snd (sched_retire (k_scheduler k2) t))"
    "sched_view (snd (sched_retire (k_scheduler k2) t)) = sched_view (k_scheduler k)"
    using sched_retire_view(1,2) [of "k_scheduler k2" t] b2 keep by (auto simp: k_base_def k_keeps_others_def fun_eq_iff)
  have queue: "sched_view (k_scheduler ?k') = sched_view (k_scheduler k)" if strict
  proof -
    have ok: "rz_ok (snd (rz_exit_thread (k_threads k2) t))"
      using rz_exit_known(2) [OF rz2 ex] by (simp add: rz_inv_def)
    have "agrees {} True (k_threads k) (k_scheduler k) u" for u using inv that by (simp add: k_inv_def)
    then have "agrees {} True (snd (rz_exit_thread (k_threads k2) t)) (snd (sched_retire (k_scheduler k2) t)) u" for u
      by (simp only: agrees_def restored ret(2))
    from synchronise_idle [OF ok ret(1) this] sch ret(2) show ?thesis by auto
  qed
  have "\<not> cap_under (k_capabilities k) (cap_held_id (k_capabilities k) t) c" for c
    using gone by (auto simp: cap_under_def cap_held_id_def k_forgotten_def)
  then have caps: "cap_view (k_capabilities ?k') = cap_view (k_capabilities k)"
    using cap_revoke_all_ok(3) [of "k_capabilities k" t] b t0 by (simp add: fields k_base_def)
  have irqs: "irq_view (k_interrupts ?k') = irq_view (k_interrupts k)"
  proof
    fix c
    have "iq_owner s \<noteq> t" if s: "irq_view (k_interrupts k) c = Some s" for s
    proof -
      obtain j where "irq_find (k_interrupts k) c = Some j" "irq_slots (k_interrupts k) ! j = s"
        using irq_view_find [OF s] by blast
      then have "irq_owner_of (k_interrupts k) c = Inr (iq_owner s)" by (simp add: irq_owner_of_def)
      with gone show ?thesis by (auto simp: k_forgotten_def)
    qed
    then show "irq_view (k_interrupts ?k') c = irq_view (k_interrupts k) c"
      using irq_detach_all_view(2) [of "k_interrupts k" t c] b by (auto simp: fields k_base_def split: option.split)
  qed
  have "idl_view (k_interrupt_deliveries k) t = None"
    using gone idl_find_view(1) by (simp add: k_forgotten_def idl_armed_def)
  then have idl: "k_interrupt_deliveries ?k' = k_interrupt_deliveries k"
    using idl_take_cases(3) [of "k_interrupt_deliveries k" t] b by (simp add: fields k_base_def)
  have "ct_send_view (k_ipc_continuations k) t = None" "ct_receive_view (k_ipc_continuations k) t = None"
    using gone by (simp_all add: k_forgotten_def ct_armed_view)
  then have ct: "ct_send_view (k_ipc_continuations ?k') = ct_send_view (k_ipc_continuations k)"
    "ct_receive_view (k_ipc_continuations ?k') = ct_receive_view (k_ipc_continuations k)"
    using ct_release_thread_spec(2,3) [of "k_ipc_continuations k" t] b by (auto simp: fields k_base_def fun_eq_iff)
  show ?thesis unfolding k_unchanged_def using thr trk dom queue caps irqs ct fields(1) by (simp add: idl)
qed

text \<open>The checks that come before the thread exists touch at most the identifier counter.\<close>

lemma k_thread_admit_refused:
  assumes "\<nexists>i e region new p. stack \<noteq> 0 \<and>
      address_space_identity_for_capability t c (k_capabilities k) address_space_right_admit = Inr i \<and>
      ep_resolve eps i = Inr e \<and> root_valid root \<and> xr_region_for xrs i = Inr region \<and>
      root_entry root = xr_base region \<and> fst (tid_issue (k_thread_identifiers k)) = Inr new \<and>
      rz_effective_priority_of (k_threads k) t = Inr p"
  shows "\<exists>err ids. k_thread_admit k t c stack root eps trs xrs = (Inl err, k\<lparr>k_thread_identifiers := ids\<rparr>, trs)"
proof -
  note d = k_thread_admit_def Let_def
  have k: "\<exists>ids. k = k\<lparr>k_thread_identifiers := ids\<rparr>"
    by (rule exI [of _ "k_thread_identifiers k"]) simp
  let ?id = "address_space_identity_for_capability t c (k_capabilities k) address_space_right_admit"
  consider "stack = 0" | e where "stack \<noteq> 0" "?id = Inl e"
    | i e where "stack \<noteq> 0" "?id = Inr i" "ep_resolve eps i = Inl e"
    | i f where "stack \<noteq> 0" "?id = Inr i" "ep_resolve eps i = Inr f" "\<not> root_valid root"
    | i f e where "stack \<noteq> 0" "?id = Inr i" "ep_resolve eps i = Inr f" "root_valid root" "xr_region_for xrs i = Inl e"
    | i f x where "stack \<noteq> 0" "?id = Inr i" "ep_resolve eps i = Inr f" "root_valid root" "xr_region_for xrs i = Inr x"
    by (metis sum.exhaust)
  then show ?thesis
  proof cases
    case (6 i f x)
    show ?thesis
    proof (cases "root_entry root = xr_base x")
      case True
      obtain res ids where t: "tid_issue (k_thread_identifiers k) = (res, ids)" by fastforce
      show ?thesis
      proof (cases res)
        case (Inl e)
        with 6 True t show ?thesis by (auto simp: d)
      next
        case (Inr new)
        with assms 6 True t obtain e where "rz_effective_priority_of (k_threads k) t = Inl e"
          by (cases "rz_effective_priority_of (k_threads k) t") auto
        with 6 True t Inr show ?thesis by (auto simp: d)
      qed
    qed (use 6 k in \<open>auto simp: d\<close>)
  qed (use k in \<open>auto simp: d\<close>)
qed

text \<open>C11: Admitting a thread.  In any state the kernel's methods reach (without direct use of the run queue), \<open>thread_admit\<close> succeeds only for a caller
  with the admit right over a live space that has an executable region and for a root sealed to enter at the
  base of that region; the new thread has an identifier nobody bears, enters there with the stack asked
  for, is admitted but not runnable, has the caller's effective priority, and resolves to the epoch and
  root it was bound to, while every other thread and binding is untouched.  When it fails, at whatever
  stage, no thread has appeared or gone, every thread's rendezvous entry and the translation table are as
  before; and if nothing was recorded in the kernel's tables under the identifier that was to be
  issued, all of the kernel is as before: messages and endpoints, capabilities, interrupts, deliveries,
  continuations, and (unless a bounded receive expired earlier, whose thread the undo puts back in the
  run queue) every run queue entry.  Only the identifier counter has moved.\<close>

theorem k_thread_admit_spec:
  assumes run: "(k_method strict)\<^sup>*\<^sup>* k_empty k" and pt: "pt_method\<^sup>*\<^sup>* pt_empty trs"
  shows "case k_thread_admit k t c stack root eps trs xrs of
    (Inr adm, k', trs') \<Rightarrow> \<exists>i e region p.
      holds_right (k_capabilities k) t c address_space_right_admit (address_space_object_id i) \<and>
      ep_resolve eps i = Inr e \<and> xr_region_for xrs i = Inr region \<and> root_valid root \<and>
      ta_entry adm = xr_base region \<and> root_entry root = xr_base region \<and> ta_stack adm = stack \<and> stack \<noteq> 0 \<and>
      rz_effective_priority_of (k_threads k) t = Inr p \<and> \<not> k_tracks k (ta_thread adm) \<and>
      rz_view (k_threads k') = (rz_view (k_threads k))(ta_thread adm \<mapsto>
        \<lparr>rs_thread = ta_thread adm, rs_state = ts_admitted, rs_partner = invalid_thread, rs_wake = wake_none,
         rs_base = p, rs_occupied = True\<rparr>) \<and>
      sched_is_runnable (k_scheduler k') (ta_thread adm) = Inr False \<and>
      k_capabilities k' = k_capabilities k \<and>
      pt_resolve trs' (ta_thread adm) eps =
        Inr \<lparr>pb_thread = ta_thread adm, pb_epoch = e, pb_root = root_physical root\<rparr> \<and>
      (\<forall>u. u \<noteq> ta_thread adm \<longrightarrow> pt_resolve trs' u eps = pt_resolve trs u eps)
  | (Inl err, k', trs') \<Rightarrow> trs' = trs \<and> (\<forall>u. k_tracks k' u = k_tracks k u) \<and>
      rz_view (k_threads k') = rz_view (k_threads k) \<and>
      ((\<forall>new. fst (tid_issue (k_thread_identifiers k)) = Inr new \<longrightarrow> k_forgotten k new) \<longrightarrow>
         k_unchanged strict k k')"
proof -
  define ids where "ids = snd (tid_issue (k_thread_identifiers k))"
  define k1 where "k1 = k\<lparr>k_thread_identifiers := ids\<rparr>"
  have inv: "k_inv strict k" using k_run_inv [OF run] .
  have inv1: "k_inv strict k1" using k_identifiers_inv [OF inv] by (simp add: k1_def)
  have same: "k_threads k1 = k_threads k" "k_capabilities k1 = k_capabilities k" "k_tracks k1 u = k_tracks k u" for u
    by (simp_all add: k1_def k_tracks_def k_living_def)
  note ptok = pt_run_ok [OF pt]
  show ?thesis
  proof (cases "\<exists>i e region new p. stack \<noteq> 0 \<and>
      address_space_identity_for_capability t c (k_capabilities k) address_space_right_admit = Inr i \<and>
      ep_resolve eps i = Inr e \<and> root_valid root \<and> xr_region_for xrs i = Inr region \<and>
      root_entry root = xr_base region \<and> fst (tid_issue (k_thread_identifiers k)) = Inr new \<and>
      rz_effective_priority_of (k_threads k) t = Inr p")
    case False
    from k_thread_admit_refused [OF this, of trs] show ?thesis
      using k_unchanged_identifiers by (auto simp: k_tracks_def k_living_def)
  next
    case True
    then obtain i e region new p where g: "stack \<noteq> 0"
      "address_space_identity_for_capability t c (k_capabilities k) address_space_right_admit = Inr i"
      "ep_resolve eps i = Inr e" "root_valid root" "xr_region_for xrs i = Inr region"
      "root_entry root = xr_base region" "fst (tid_issue (k_thread_identifiers k)) = Inr new"
      "rz_effective_priority_of (k_threads k) t = Inr p" by blast
    have issue: "tid_issue (k_thread_identifiers k) = (Inr new, ids)" using g(7) by (simp add: ids_def prod_eq_iff)
    have admit: "k_thread_admit k t c stack root eps trs xrs =
       (case k_create_admitted_thread k1 new p of
        (Inl err, k2) \<Rightarrow> (Inl err, k2, trs)
      | (Inr _, k2) \<Rightarrow>
     (case pt_bind trs new e root eps of
        (Inl err, translations1) \<Rightarrow> (Inl err, snd (k_destroy_thread k2 new), translations1)
      | (Inr _, translations1) \<Rightarrow>
          (Inr \<lparr>ta_thread = new, ta_entry = xr_base region, ta_stack = stack\<rparr>, k2, translations1)))"
      using g issue by (simp add: k_thread_admit_def k1_def Let_def)
    have h: "holds_right (k_capabilities k) t c address_space_right_admit (address_space_object_id i)"
      using g(2) identity_for_capability_iff by simp
    have live: "k_tracks k' u \<longleftrightarrow> u \<in> dom (rz_view (k_threads k'))" if "k_inv strict k'" for k' u
      using k_tracks_live that by (simp add: k_inv_def)
    from inv1 show ?thesis
    proof (cases rule: k_create_admitted_cases [of _ _ new p])
      case (refused err k2 r)
      have "k_unchanged strict k1 k2"
        using refused(3) by (simp add: refused(4) k_unchanged_def k_tracks_def k_living_def)
      then have "k_unchanged strict k k2"
        using k_unchanged_trans [OF k_unchanged_identifiers [of strict k ids]] by (simp add: k1_def)
      then show ?thesis using refused(1) by (simp add: admit k_unchanged_def)
    next
      case (admitted k2)
      have fresh: "\<not> k_tracks k new" using admitted(4) live [OF inv] by (simp add: same domIff)
      from ptok show ?thesis
      proof (cases rule: pt_bind_cases [of _ new e root eps])
        case (refused err)
        have trk: "k_tracks (snd (k_destroy_thread k2 new)) u = k_tracks k u" for u
          using k_destroy_tracks [OF admitted(2)] live [OF admitted(2)] live [OF inv] fresh admitted(5)
          by (auto simp: same)
        have keep: "k_keeps_others new k k2" using admitted(3) by (simp add: k1_def k_keeps_others_def)
        have "k_unchanged strict k (snd (k_destroy_thread k2 new))" if "k_forgotten k new"
          using k_destroy_unborn [OF inv admitted(2) keep admitted(4,5) [unfolded same] _ that] by simp
        moreover have "rz_view (k_threads (snd (k_destroy_thread k2 new))) = rz_view (k_threads k)"
          using k_destroy_unborn_view(1) [OF inv1 admitted(2,4,5)] admitted(3) by (simp add: same k_keeps_others_def)
        ultimately show ?thesis using refused admitted(1) trk g(7) by (simp add: admit)
      next
        case (bound u)
        have "agrees {} strict (k_threads k2) (k_scheduler k2) new" using admitted(2) by (simp add: k_inv_def)
        then have "sched_is_runnable (k_scheduler k2) new = Inr False"
          using admitted(5) by (auto simp: agrees_def k_sched_runnable_iff split: option.splits)
        moreover have "pt_resolve u new eps = Inr \<lparr>pb_thread = new, pb_epoch = e, pb_root = root_physical root\<rparr>"
          using bound by (simp add: pt_resolve_view)
        moreover have "pt_resolve u v eps = pt_resolve trs v eps" if "v \<noteq> new" for v
          using bound that by (simp add: pt_resolve_view)
        moreover have out: "k_thread_admit k t c stack root eps trs xrs =
            (Inr \<lparr>ta_thread = new, ta_entry = xr_base region, ta_stack = stack\<rparr>, k2, u)"
          using admitted(1) bound(1) by (simp add: admit)
        ultimately show ?thesis
          unfolding out prod.case sum.case
          by (intro exI [of _ i] exI [of _ e] exI [of _ region] exI [of _ p])
             (use g(1,3-6,8) h fresh admitted(3,5) in \<open>simp add: same k_keeps_others_def\<close>)
      qed
    qed
  qed
qed

section \<open>Concrete runs\<close>

text \<open>Thread 1 may create address spaces (capability 1); it creates one (capability 2) and is
  given the right to map a grant of two pages (capability 3).  The space enters at 8192.\<close>

definition k_admin :: Kernel where
  "k_admin = k_two\<lparr>k_capabilities :=
     snd (cap_mint (k_capabilities k_two) 1 address_space_authority_object address_space_right_create True)\<rparr>"

definition k_spaced :: Kernel where
  "k_spaced = fst (snd (k_address_space_create k_admin 1 1 ep_empty))"

definition mg_two_pages :: MemoryGrantAuthority where
  "mg_two_pages = snd (mg_create mg_empty 65536 8192)"

definition k_mapping :: Kernel where
  "k_mapping = k_spaced\<lparr>k_capabilities := snd (cap_mint (k_capabilities k_spaced) 1
     (memory_grant_object_id \<lparr>mgi_slot = 0, mgi_generation = 1\<rparr>) memory_right_map True)\<rparr>"

definition space_one :: AddressSpaceIdentity where
  "space_one = \<lparr>asi_slot = 0, asi_generation = 1\<rparr>"

definition xr_one :: ExecutableRegionTable where
  "xr_one = snd (xr_record xr_empty space_one 8192 64)"

lemma k_admin_run: "(k_method strict)\<^sup>*\<^sup>* k_empty k_admin"
  unfolding k_admin_def
  by (rule rtranclp.rtrancl_into_rtrancl [OF k_two_run]) (rule k_method.capabilities cap_method.intros)+

lemma k_mapping_run: "(k_method strict)\<^sup>*\<^sup>* k_empty k_mapping"
  unfolding k_mapping_def k_spaced_def
  by (rule rtranclp.rtrancl_into_rtrancl [OF rtranclp.rtrancl_into_rtrancl [OF k_admin_run]])
     (rule k_method.space_create k_method.capabilities cap_method.intros)+

theorem k_map_authorize_exact_witness:
  "k_map_authorize k_mapping 1 \<lparr>mp_space = 2, mp_address = 4096, mp_backing = 3, mp_permissions = perm_read_write\<rparr>
     ep_one mg_two_pages xr_one =
   Inr \<lparr>ma_space = space_one, ma_virtual = 4096, ma_physical = 65536, ma_length = 8192,
        ma_permissions = perm_read_write\<rparr> \<and>
   holds_right (k_capabilities k_mapping) 1 2 address_space_right_hold (address_space_object_id space_one)"
proof -
  have a: "k_map_authorize k_mapping 1 \<lparr>mp_space = 2, mp_address = 4096, mp_backing = 3, mp_permissions = perm_read_write\<rparr>
     ep_one mg_two_pages xr_one =
   Inr \<lparr>ma_space = space_one, ma_virtual = 4096, ma_physical = 65536, ma_length = 8192,
        ma_permissions = perm_read_write\<rparr>" by code_simp
  with a [unfolded k_map_authorize_exact] show ?thesis by simp
qed

theorem k_unmap_authorize_exact_witness:
  "k_unmap_authorize k_mapping 1 \<lparr>um_space = 2, um_address = 65536, um_backing = 3\<rparr> ep_one mg_two_pages xr_one =
     Inr \<lparr>ua_space = space_one, ua_virtual = 65536, ua_length = 8192\<rparr> \<and>
   holds_right (k_capabilities k_mapping) 1 2 address_space_right_hold (address_space_object_id space_one)"
proof -
  have a: "k_unmap_authorize k_mapping 1 \<lparr>um_space = 2, um_address = 65536, um_backing = 3\<rparr> ep_one mg_two_pages xr_one =
     Inr \<lparr>ua_space = space_one, ua_virtual = 65536, ua_length = 8192\<rparr>" by code_simp
  with a [unfolded k_unmap_authorize_exact] show ?thesis by simp
qed

theorem k_space_destroyed_is_dead_witness:
  "is_ok (fst (k_address_space_begin_destroy k_mapping 1 2 ep_one)) \<and>
   \<not> is_ok (ep_resolve (snd (ep_acquire (snd (k_address_space_begin_destroy k_mapping 1 2 ep_one)))) space_one)"
proof -
  let ?d = "k_address_space_begin_destroy k_mapping 1 2 ep_one"
  have r: "fst ?d = Inr \<lparr>re_epoch = ep_one_epoch\<rparr>" by code_simp
  then have d: "?d = (Inr \<lparr>re_epoch = ep_one_epoch\<rparr>, snd ?d)" by (simp add: prod_eq_iff)
  have i: "epoch_identity ep_one_epoch = space_one" by code_simp
  have "ep_method\<^sup>*\<^sup>* (snd ?d) (snd (ep_acquire (snd ?d)))" by (intro r_into_rtranclp ep_method.acquire)
  from k_space_destroyed_is_dead [OF ep_one_reachable d this] r i show ?thesis by (simp add: Let_def)
qed

theorem k_address_space_create_spec_witness:
  "fst (k_address_space_create k_admin 1 1 ep_empty) = Inr \<lparr>acr_epoch = ep_one_epoch, acr_capability = 2\<rparr> \<and>
   holds_right (k_capabilities k_spaced) 1 2 address_space_right_admit (address_space_object_id space_one)"
proof -
  have r: "fst (k_address_space_create k_admin 1 1 ep_empty) = Inr \<lparr>acr_epoch = ep_one_epoch, acr_capability = 2\<rparr>"
    by code_simp
  have i: "epoch_identity ep_one_epoch = space_one" by code_simp
  from k_address_space_create_spec [OF rtranclp.rtrancl_refl k_admin_run, of 1 1] r i show ?thesis
    by (simp add: k_spaced_def Let_def split_beta)
qed

theorem k_thread_admit_spec_witness:
  "case k_thread_admit k_mapping 1 2 32768 \<lparr>root_physical = 4096, root_entry = 8192\<rparr> ep_one pt_empty xr_one of
     (res, k', trs') \<Rightarrow> res = Inr \<lparr>ta_thread = first_admitted_thread, ta_entry = 8192, ta_stack = 32768\<rparr> \<and>
       \<not> k_tracks k_mapping first_admitted_thread \<and>
       sched_is_runnable (k_scheduler k') first_admitted_thread = Inr False"
proof -
  have "fst (k_thread_admit k_mapping 1 2 32768 \<lparr>root_physical = 4096, root_entry = 8192\<rparr> ep_one pt_empty xr_one) =
     Inr \<lparr>ta_thread = first_admitted_thread, ta_entry = 8192, ta_stack = 32768\<rparr>" by code_simp
  with k_thread_admit_spec [OF k_mapping_run rtranclp.rtrancl_refl, where t = 1 and c = 2 and
      stack = 32768 and root = "\<lparr>root_physical = 4096, root_entry = 8192\<rparr>" and eps = ep_one and xrs = xr_one]
  show ?thesis by (auto simp: split_beta)
qed

text \<open>Unmapping can take the executable region away.  Here the space of thread 1 enters at 8192, and the
  kernel authorises the same thread to unmap the two pages from 4096, the whole executable region
  with them, because only a request at exactly the base of the region is refused.\<close>

theorem k_unmap_covers_executable_region:
  "\<exists>k t req eps grants xrs m region. (k_method True)\<^sup>*\<^sup>* k_empty k \<and>
     k_unmap_authorize k t req eps grants xrs = Inr m \<and>
     xr_region_for xrs (ua_space m) = Inr region \<and> ua_virtual m \<le> xr_base region \<and>
     xr_base region + xr_length region \<le> ua_virtual m + ua_length m"
proof -
  have "k_unmap_authorize k_mapping 1 \<lparr>um_space = 2, um_address = 4096, um_backing = 3\<rparr> ep_one mg_two_pages xr_one =
     Inr \<lparr>ua_space = space_one, ua_virtual = 4096, ua_length = 8192\<rparr>" by code_simp
  moreover have "xr_region_for xr_one space_one = Inr \<lparr>xr_space = space_one, xr_base = 8192, xr_length = 64\<rparr>"
    by code_simp
  ultimately show ?thesis
    using k_mapping_run [of True]
    by (intro exI [of _ k_mapping] exI [of _ 1] exI [of _ "\<lparr>um_space = 2, um_address = 4096, um_backing = 3\<rparr>"]
        exI [of _ ep_one] exI [of _ mg_two_pages] exI [of _ xr_one]
        exI [of _ "\<lparr>ua_space = space_one, ua_virtual = 4096, ua_length = 8192\<rparr>"]
        exI [of _ "\<lparr>xr_space = space_one, xr_base = 8192, xr_length = 64\<rparr>"]) simp
qed

end
